(* ===== verification/Prelude.thy ===== *)
theory Prelude
  imports Main "HOL-Library.AList" "HOL-Library.Sublist" "HOL-Library.Multiset"
    "HOL-Library.Char_ord" "HOL-Library.List_Lexorder"
begin

text \<open>
  Shared vocabulary of the development: the JavaScript containers the server code uses
  and the lemmas on lists, association lists and relations that several components need.

  \<^item> A \<open>Map\<close> of the source is an association list in insertion order. \<open>Map.get\<close>
    is \<open>map_of\<close>, \<open>Map.set\<close> is \<open>AList.update\<close> (a known key keeps its
    place, a new key goes to the end), \<open>Map.delete\<close> is \<open>AList.delete\<close>.
  \<^item> \<open>[...new Set(xs)]\<close> is \<open>js_uniq xs\<close>: the first occurrence of each element
    survives, in order.
  \<^item> A thrown error is the left side of a sum, a normal return the right side.
  \<^item> A string is a list of characters, read as UTF-16 code units below 256.
\<close>

named_theorems js_map \<open>what a component's own lookups return after a Map.set or Map.delete\<close>

section \<open>Ordered sets: keep the first occurrence\<close>

fun js_uniq :: "'a list \<Rightarrow> 'a list" where
  "js_uniq [] = []"
| "js_uniq (x # xs) = x # js_uniq (filter (\<lambda>y. y \<noteq> x) xs)"

lemma set_js_uniq [simp]: "set (js_uniq xs) = set xs"
  by (induction xs rule: js_uniq.induct) auto

lemma distinct_js_uniq [simp]: "distinct (js_uniq xs)"
  by (induction xs rule: js_uniq.induct) auto

lemma filter_neq_notin [simp]: "x \<notin> set xs \<Longrightarrow> filter (\<lambda>y. y \<noteq> x) xs = xs"
  by (induction xs) auto

lemma js_uniq_distinct: "distinct xs \<Longrightarrow> js_uniq xs = xs"
  by (induction xs) auto

lemma js_uniq_idem [simp]: "js_uniq (js_uniq xs) = js_uniq xs"
  by (simp add: js_uniq_distinct)

lemma length_js_uniq_le: "length (js_uniq xs) \<le> length xs"
proof (induction xs rule: js_uniq.induct)
  case (2 x xs)
  have "length (js_uniq (filter (\<lambda>y. y \<noteq> x) xs)) \<le> length xs"
    by (rule le_trans [OF "2.IH" length_filter_le])
  then show ?case by simp
qed simp

lemma length_js_uniq_iff: "length (js_uniq xs) = length xs \<longleftrightarrow> distinct xs"
proof
  assume "length (js_uniq xs) = length xs"
  then have "card (set xs) = length xs"
    by (metis distinct_card distinct_js_uniq set_js_uniq)
  then show "distinct xs" by (rule card_distinct)
qed (simp add: js_uniq_distinct)

lemma filter_insert_holds: "P a \<Longrightarrow> {x \<in> insert a A. P x} = insert a {x \<in> A. P x}"
  by auto

section \<open>Maps in insertion order\<close>

lemma map_of_update [simp]:
  "map_of (AList.update k v m) = (map_of m)(k \<mapsto> v)"
  by (rule update_conv')

lemma map_of_delete [simp]:
  "map_of (AList.delete k m) = (map_of m)(k := None)"
  by (rule delete_conv')

lemma keys_update_in:
  "k \<in> fst ` set m \<Longrightarrow> map fst (AList.update k v m) = map fst m"
  by (induction m) auto

lemma keys_update_new:
  "k \<notin> fst ` set m \<Longrightarrow> AList.update k v m = m @ [(k, v)]"
  by (induction m) auto

lemma distinct_keys_update [simp, intro]:
  "distinct (map fst m) \<Longrightarrow> distinct (map fst (AList.update k v m))"
  by (rule distinct_update)

lemma map_of_None_key: "map_of m k = None \<longleftrightarrow> k \<notin> fst ` set m"
  by (simp add: map_of_eq_None_iff)

section \<open>Optional strings\<close>

text \<open>An optional string is true in a condition when it is present and not empty.\<close>

fun truthy :: "string option \<Rightarrow> bool" where
  "truthy None = False"
| "truthy (Some s) = (s \<noteq> [])"

lemma truthyE:
  assumes "truthy x"
  obtains s where "x = Some s" and "s \<noteq> []"
  using assms by (cases x) auto

text \<open>\<open>xs ?? []\<close> and \<open>xs?.length ? xs : undefined\<close>.\<close>

definition or_empty :: "'a list option \<Rightarrow> 'a list" where
  "or_empty x = (case x of None \<Rightarrow> [] | Some xs \<Rightarrow> xs)"

lemma or_empty_simps [simp]: "or_empty None = []" "or_empty (Some xs) = xs"
  by (simp_all add: or_empty_def)

definition non_empty :: "'a list option \<Rightarrow> 'a list option" where
  "non_empty x = (if or_empty x = [] then None else x)"

lemma or_empty_non_empty [simp]: "or_empty (non_empty x) = or_empty x"
  by (cases x) (simp_all add: non_empty_def)

section \<open>Results: an error or a value\<close>

fun is_ok :: "'e + 'a \<Rightarrow> bool" where
  "is_ok (Inl _) = False"
| "is_ok (Inr _) = True"

definition bind_res :: "'e + 'a \<Rightarrow> ('a \<Rightarrow> 'e + 'b) \<Rightarrow> 'e + 'b" where
  "bind_res r f = (case r of Inl e \<Rightarrow> Inl e | Inr x \<Rightarrow> f x)"

lemma bind_res_simps [simp]:
  "bind_res (Inl e) f = Inl e"
  "bind_res (Inr x) f = f x"
  by (simp_all add: bind_res_def)

lemma bind_res_Inr: "bind_res r f = Inr y \<longleftrightarrow> (\<exists>x. r = Inr x \<and> f x = Inr y)"
  by (cases r) auto

section \<open>Finite relations without a source end have a cycle\<close>

text \<open>
  The graph fact behind every dependency check: a non-empty finite set in which each
  node has a predecessor in the set contains a cycle.
\<close>

lemma acyclic_finite_minimal:
  assumes "acyclic r" and "finite S" and "S \<noteq> {}"
  shows "\<exists>x\<in>S. \<forall>y\<in>S. (y, x) \<notin> r"
proof -
  let ?r = "r \<inter> S \<times> S"
  have "acyclic ?r" using assms(1) by (rule acyclic_subset) auto
  moreover have "finite ?r" using assms(2) by auto
  ultimately have "wf ?r" by (simp add: finite_acyclic_wf)
  from wfE_min' [OF this assms(3)] obtain z
    where "z \<in> S" and "\<And>y. (y, z) \<in> ?r \<Longrightarrow> y \<notin> S" by blast
  then show ?thesis by blast
qed

lemma cycle_above:
  assumes "finite S" and "x \<in> S" and pre: "\<And>y. y \<in> S \<Longrightarrow> \<exists>z\<in>S. (z, y) \<in> r"
  shows "\<exists>c. (c, c) \<in> r\<^sup>+ \<and> (c, x) \<in> r\<^sup>*"
proof -
  let ?A = "{y \<in> S. (y, x) \<in> r\<^sup>*}"
  have "\<not> acyclic (r \<inter> ?A \<times> ?A)"
  proof
    assume "acyclic (r \<inter> ?A \<times> ?A)"
    moreover have "finite ?A" "?A \<noteq> {}" using assms(1,2) by auto
    ultimately have "\<exists>m\<in>?A. \<forall>y\<in>?A. (y, m) \<notin> r \<inter> ?A \<times> ?A"
      by (rule acyclic_finite_minimal)
    then obtain m where m: "m \<in> ?A" "\<forall>y\<in>?A. (y, m) \<notin> r \<inter> ?A \<times> ?A"
      by blast
    then obtain z where "z \<in> S" "(z, m) \<in> r" using pre by blast
    then have "z \<in> ?A" using m(1) by (auto intro: converse_rtrancl_into_rtrancl)
    with m \<open>(z, m) \<in> r\<close> show False by blast
  qed
  then obtain c where c: "(c, c) \<in> (r \<inter> ?A \<times> ?A)\<^sup>+" by (auto simp: acyclic_def)
  then have "(c, c) \<in> r\<^sup>+" by (rule trancl_mono [OF _ Int_lower1])
  moreover from tranclD2 [OF c] obtain d where "(d, c) \<in> r \<inter> ?A \<times> ?A" by blast
  then have "(c, x) \<in> r\<^sup>*" by simp
  ultimately show ?thesis by blast
qed

text \<open>
  A list in which every node comes after all its predecessors is a topological order; a
  relation whose field edges end inside such a list has no cycle there.
\<close>

fun topo :: "('a \<Rightarrow> 'a set) \<Rightarrow> 'a list \<Rightarrow> bool" where
  "topo pre [] = True"
| "topo pre (x # done) = (pre x \<subseteq> set done \<and> x \<notin> set done \<and> topo pre done)"

lemma topo_distinct: "topo pre ks \<Longrightarrow> distinct ks"
  by (induction ks) auto

lemma topo_closed: "topo pre ks \<Longrightarrow> x \<in> set ks \<Longrightarrow> pre x \<subseteq> set ks"
  by (induction ks) auto

lemma topo_no_cycle:
  assumes "topo pre ks" and r: "\<And>a b. (a, b) \<in> r \<Longrightarrow> a \<in> pre b"
    and "x \<in> set ks"
  shows "(x, x) \<notin> r\<^sup>+"
  using assms(1,3)
proof (induction ks arbitrary: x)
  case Nil
  then show ?case by simp
next
  case (Cons k ks)
  have closed: "a \<in> set ks" if "(a, b) \<in> r\<^sup>*" "b \<in> set ks" for a b
    using that
  proof (induction rule: converse_rtrancl_induct)
    case (step a c)
    then show ?case using r topo_closed [of pre ks] Cons.prems(1) by fastforce
  qed simp
  show ?case
  proof
    assume cyc: "(x, x) \<in> r\<^sup>+"
    show False
    proof (cases "x \<in> set ks")
      case True
      then show False using Cons cyc by auto
    next
      case False
      then have "x = k" using Cons.prems(2) by simp
      from cyc obtain y where "(x, y) \<in> r\<^sup>*" "(y, x) \<in> r" by (meson tranclD2)
      then have "y \<in> set ks" using r Cons.prems(1) \<open>x = k\<close> by auto
      with closed \<open>(x, y) \<in> r\<^sup>*\<close> False show False by blast
    qed
  qed
qed

end
