(* ===== verification/Dep_Graph.thy ===== *)
theory Dep_Graph
  imports Prelude
begin

text \<open>
  The contract every dependency checker of the server offers its callers (plan steps,
  workflow gates, tasks): an accepted graph is closed and acyclic. Proved once from that
  contract: an accepted graph always has a runnable node, and can be run to the end in
  some order. The checkers interpret the locale in their own theories.
\<close>

locale dep_checker =
  fixes accepts :: "'p \<Rightarrow> bool"
    and nodes :: "'p \<Rightarrow> 'n set"
    and deps :: "'p \<Rightarrow> 'n \<Rightarrow> 'n set"
  assumes finite_nodes: "finite (nodes p)"
    and closed: "accepts p \<Longrightarrow> x \<in> nodes p \<Longrightarrow> deps p x \<subseteq> nodes p"
    and no_cycle: "accepts p \<Longrightarrow> acyclic {(d, x). x \<in> nodes p \<and> d \<in> deps p x}"
begin

lemma runnable:
  assumes "accepts p" and "fin \<subset> nodes p"
  shows "\<exists>x \<in> nodes p - fin. deps p x \<subseteq> fin"
proof -
  let ?r = "{(d, x). x \<in> nodes p \<and> d \<in> deps p x}"
  have "finite (nodes p - fin)" "nodes p - fin \<noteq> {}" using finite_nodes assms(2) by auto
  from acyclic_finite_minimal [OF no_cycle [OF assms(1)] this]
  obtain x where x: "x \<in> nodes p - fin" "\<forall>y \<in> nodes p - fin. (y, x) \<notin> ?r" by blast
  then have "deps p x \<subseteq> fin" using closed [OF assms(1), of x] by auto
  with x(1) show ?thesis by blast
qed

lemma extend_order:
  assumes "accepts p" and "topo (deps p) ks" and "set ks \<subseteq> nodes p"
  shows "\<exists>ks'. topo (deps p) ks' \<and> set ks' = nodes p"
  using assms(2,3)
proof (induction "card (nodes p - set ks)" arbitrary: ks rule: less_induct)
  case less
  show ?case
  proof (cases "set ks = nodes p")
    case True
    with less.prems show ?thesis by blast
  next
    case False
    with less.prems have "set ks \<subset> nodes p" by blast
    from runnable [OF assms(1) this] obtain x
      where x: "x \<in> nodes p - set ks" "deps p x \<subseteq> set ks" by blast
    have "card (nodes p - set (x # ks)) < card (nodes p - set ks)"
      by (rule psubset_card_mono) (use x finite_nodes in auto)
    moreover have "topo (deps p) (x # ks)" "set (x # ks) \<subseteq> nodes p"
      using x less.prems by auto
    ultimately show ?thesis by (rule less.hyps)
  qed
qed

lemma runs_to_end:
  assumes "accepts p"
  shows "\<exists>ks. topo (deps p) ks \<and> set ks = nodes p"
  by (rule extend_order [OF assms, of "[]"]) auto

end

end
