(* ===== verification/Depends_On.thy ===== *)
theory Depends_On
  imports Dep_Graph
begin

text \<open>
  Plan-step dependency validation, \<open>src/src/server/agent/depends-on-validation.ts\<close>:
  the single-spawn check (\<open>validateDependsOn\<close>) and the whole-plan check
  (\<open>validatePlanDependsOn\<close>: duplicate ids, self dependencies, unknown ids, cycles by
  Kahn's algorithm). \<open>inDegree\<close> and \<open>adj\<close> are the code's two maps; the
  \<open>while\<close> loop over the queue is \<open>kahn_loop\<close>, which always ends because each
  push turns one positive in-degree into 0.
\<close>

datatype dep_result =
    DepOk
  | SelfDependency string
  | UnknownPlanId "string list"
  | DependsOnCycle "string list"
  | DuplicatePlanId string

definition validateDependsOn :: "string \<Rightarrow> string list option \<Rightarrow> string list \<Rightarrow> dep_result" where
  "validateDependsOn pid dependsOn known =
     (let deps = (case dependsOn of None \<Rightarrow> [] | Some ds \<Rightarrow> ds) in
      if deps = [] then DepOk
      else if pid \<in> set deps then SelfDependency pid
      else let missing = filter (\<lambda>d. d \<notin> set known) deps in
        if missing \<noteq> [] then UnknownPlanId missing else DepOk)"

record dep_step =
  planId :: string
  dependsOn :: "string list option"

definition step_deps :: "dep_step \<Rightarrow> string list" where
  "step_deps s = (case dependsOn s of None \<Rightarrow> [] | Some ds \<Rightarrow> ds)"

text \<open>The first loop: the first plan id met twice.\<close>

fun find_duplicate :: "string set \<Rightarrow> dep_step list \<Rightarrow> string option" where
  "find_duplicate seen [] = None"
| "find_duplicate seen (s # ss) =
     (if planId s \<in> seen then Some (planId s)
      else find_duplicate (insert (planId s) seen) ss)"

text \<open>The second loop: a self dependency returns at once, unknown ids are collected.\<close>

fun add_missing :: "string set \<Rightarrow> string list \<Rightarrow> string list \<Rightarrow> string list" where
  "add_missing ids missing [] = missing"
| "add_missing ids missing (d # ds) =
     add_missing ids (if d \<notin> ids \<and> d \<notin> set missing then missing @ [d] else missing) ds"

fun check_refs :: "string set \<Rightarrow> string list \<Rightarrow> dep_step list \<Rightarrow> string + string list" where
  "check_refs ids missing [] = Inr missing"
| "check_refs ids missing (s # ss) =
     (if planId s \<in> set (step_deps s) then Inl (planId s)
      else check_refs ids (add_missing ids missing (step_deps s)) ss)"

text \<open>Building the maps of Kahn's algorithm.\<close>

type_synonym degrees = "(string \<times> int) list"
type_synonym adjacency = "(string \<times> string list) list"

definition get_degree :: "degrees \<Rightarrow> string \<Rightarrow> int" where
  "get_degree m k = (case map_of m k of None \<Rightarrow> 0 | Some v \<Rightarrow> v)"

definition get_adj :: "adjacency \<Rightarrow> string \<Rightarrow> string list" where
  "get_adj m k = (case map_of m k of None \<Rightarrow> [] | Some v \<Rightarrow> v)"

fun init_maps :: "dep_step list \<Rightarrow> degrees \<times> adjacency \<Rightarrow> degrees \<times> adjacency" where
  "init_maps [] ms = ms"
| "init_maps (s # ss) (deg, adj) =
     init_maps ss (AList.update (planId s) 0 deg, AList.update (planId s) [] adj)"

fun add_edges :: "string \<Rightarrow> string list \<Rightarrow> degrees \<times> adjacency \<Rightarrow> degrees \<times> adjacency" where
  "add_edges k [] ms = ms"
| "add_edges k (d # ds) (deg, adj) =
     add_edges k ds (AList.update k (get_degree deg k + 1) deg,
                     AList.update d (get_adj adj d @ [k]) adj)"

fun add_all_edges :: "dep_step list \<Rightarrow> degrees \<times> adjacency \<Rightarrow> degrees \<times> adjacency" where
  "add_all_edges [] ms = ms"
| "add_all_edges (s # ss) ms = add_all_edges ss (add_edges (planId s) (step_deps s) ms)"

text \<open>The loop: take a node, lower the in-degree of its successors, queue those that reach 0.\<close>

fun relax :: "string list \<Rightarrow> degrees \<Rightarrow> string list \<Rightarrow> degrees \<times> string list" where
  "relax [] deg queue = (deg, queue)"
| "relax (n # ns) deg queue =
     (let d = get_degree deg n - 1 in
      relax ns (AList.update n d deg) (if d = 0 then queue @ [n] else queue))"

definition positives :: "degrees \<Rightarrow> nat" where
  "positives deg = length (filter (\<lambda>(k, v). v > 0) deg)"

lemma positives_update:
  "positives (AList.update k v deg) + (if get_degree deg k > 0 then 1 else 0) =
   positives deg + (if v > 0 then 1 else 0)"
  by (induction deg) (auto simp: positives_def get_degree_def)

lemma relax_measure:
  "relax ns deg queue = (deg', queue') \<Longrightarrow>
   length queue' + positives deg' \<le> length queue + positives deg"
proof (induction ns arbitrary: deg queue)
  case (Cons n ns)
  let ?d = "get_degree deg n - 1"
  have "length queue' + positives deg' \<le>
      length (if ?d = 0 then queue @ [n] else queue) + positives (AList.update n ?d deg)"
    using Cons.prems by (intro Cons.IH) (simp add: Let_def)
  also have "\<dots> \<le> length queue + positives deg"
    using positives_update [of n ?d deg] by (cases "?d = 0") (simp_all split: if_splits)
  finally show ?case .
qed simp

function kahn_loop :: "adjacency \<Rightarrow> string list \<Rightarrow> degrees \<Rightarrow> nat \<Rightarrow> degrees \<times> nat" where
  "kahn_loop adj [] deg visited = (deg, visited)"
| "kahn_loop adj (k # queue) deg visited =
     (let r = relax (get_adj adj k) deg queue in
      kahn_loop adj (snd r) (fst r) (Suc visited))"
  by pat_completeness auto
termination
proof (relation "measure (\<lambda>(adj, queue, deg, visited). length queue + positives deg)")
  fix adj :: adjacency and k :: string and queue deg visited and r :: "degrees \<times> string list"
  assume "r = relax (get_adj adj k) deg queue"
  then have "length (snd r) + positives (fst r) \<le> length queue + positives deg"
    by (metis prod.collapse relax_measure)
  then show "((adj, snd r, fst r, Suc visited), (adj, k # queue, deg, visited))
      \<in> measure (\<lambda>(adj, queue, deg, visited). length queue + positives deg)" by simp
qed simp

definition validatePlanDependsOn :: "dep_step list \<Rightarrow> dep_result" where
  "validatePlanDependsOn steps =
     (case find_duplicate {} steps of
        Some k \<Rightarrow> DuplicatePlanId k
      | None \<Rightarrow>
        (case check_refs (planId ` set steps) [] steps of
           Inl k \<Rightarrow> SelfDependency k
         | Inr missing \<Rightarrow>
           if missing \<noteq> [] then UnknownPlanId missing
           else
             let (deg, adj) = add_all_edges steps (init_maps steps ([], []));
                 queue = map fst (filter (\<lambda>(k, v). v = 0) deg);
                 (deg', visited) = kahn_loop adj queue deg 0 in
             if visited < length steps
             then DependsOnCycle (map fst (filter (\<lambda>(k, v). v > 0) deg'))
             else DepOk))"


section \<open>The reference graph\<close>

text \<open>
  \<open>dep_list steps k\<close> lists the dependencies of \<open>k\<close> with repetitions;
  \<open>dep_edges\<close> is the relation from a dependency to the step that needs it.
\<close>

definition dep_list :: "dep_step list \<Rightarrow> string \<Rightarrow> string list" where
  "dep_list steps k = concat (map step_deps (filter (\<lambda>s. planId s = k) steps))"

definition dep_edges :: "dep_step list \<Rightarrow> (string \<times> string) set" where
  "dep_edges steps = {(d, k). d \<in> set (dep_list steps k)}"

lemma dep_list_simps [simp]:
  "dep_list [] k = []"
  "dep_list (s # ss) k = (if planId s = k then step_deps s else []) @ dep_list ss k"
  by (simp_all add: dep_list_def)

lemma dep_list_outside: "k \<notin> planId ` set steps \<Longrightarrow> dep_list steps k = []"
  by (induction steps) auto

lemma set_dep_list: "d \<in> set (dep_list steps k) \<longleftrightarrow> (\<exists>s\<in>set steps. planId s = k \<and> d \<in> set (step_deps s))"
  by (induction steps) auto

section \<open>What the first two loops establish\<close>

lemma find_duplicate_None:
  "find_duplicate seen steps = None \<longleftrightarrow>
   distinct (map planId steps) \<and> planId ` set steps \<inter> seen = {}"
  by (induction steps arbitrary: seen) auto

lemma find_duplicate_Some:
  "find_duplicate seen steps = Some k \<Longrightarrow>
   \<exists>xs s ys. steps = xs @ s # ys \<and> planId s = k \<and> k \<in> seen \<union> planId ` set xs"
proof (induction steps arbitrary: seen)
  case (Cons s ss)
  show ?case
  proof (cases "planId s \<in> seen")
    case True
    with Cons.prems have "s # ss = [] @ s # ss \<and> planId s = k \<and> k \<in> seen \<union> planId ` set []" by simp
    then show ?thesis by blast
  next
    case False
    with Cons.prems have "find_duplicate (insert (planId s) seen) ss = Some k" by simp
    from Cons.IH [OF this] obtain xs t ys where "ss = xs @ t # ys" "planId t = k"
      "k \<in> insert (planId s) seen \<union> planId ` set xs" by blast
    then have "s # ss = (s # xs) @ t # ys \<and> planId t = k \<and> k \<in> seen \<union> planId ` set (s # xs)" by auto
    then show ?thesis by blast
  qed
qed simp

lemma set_add_missing:
  "set (add_missing ids missing ds) = set missing \<union> {d \<in> set ds. d \<notin> ids}"
  by (induction ds arbitrary: missing) auto

lemma distinct_add_missing: "distinct missing \<Longrightarrow> distinct (add_missing ids missing ds)"
  by (induction ds arbitrary: missing) auto

lemma check_refs_Inl:
  "check_refs ids missing steps = Inl k \<Longrightarrow> \<exists>s\<in>set steps. planId s = k \<and> k \<in> set (step_deps s)"
  by (induction steps arbitrary: missing) (auto split: if_splits)

lemma check_refs_Inr:
  "check_refs ids missing steps = Inr miss \<Longrightarrow>
   (\<forall>s\<in>set steps. planId s \<notin> set (step_deps s)) \<and>
   set miss = set missing \<union> {d. d \<notin> ids \<and> (\<exists>s\<in>set steps. d \<in> set (step_deps s))} \<and>
   (distinct missing \<longrightarrow> distinct miss)"
  by (induction steps arbitrary: missing)
    (auto simp: set_add_missing distinct_add_missing split: if_splits)

lemma check_refs_cases:
  "(\<forall>s\<in>set steps. planId s \<notin> set (step_deps s)) \<Longrightarrow> \<exists>miss. check_refs ids missing steps = Inr miss"
  by (induction steps arbitrary: missing) auto

section \<open>What the two maps hold\<close>

lemma get_degree_update [js_map]:
  "get_degree (AList.update k v m) x = (if x = k then v else get_degree m x)"
  by (simp add: get_degree_def)

lemma get_adj_update [js_map]:
  "get_adj (AList.update k v m) x = (if x = k then v else get_adj m x)"
  by (simp add: get_adj_def)

lemma init_maps_zero:
  assumes "init_maps steps (deg, adj) = (deg', adj')"
    and "\<And>x. get_degree deg x = 0" "\<And>x. get_adj adj x = []"
  shows "get_degree deg' x = 0" "get_adj adj' x = []"
  using assms
  by (induction steps arbitrary: deg adj) (auto simp: js_map)

lemma init_maps_keys:
  "init_maps steps (deg, adj) = (deg', adj') \<Longrightarrow>
   distinct (map planId steps) \<Longrightarrow> planId ` set steps \<inter> fst ` set deg = {} \<Longrightarrow>
   map fst deg' = map fst deg @ map planId steps"
proof (induction steps arbitrary: deg adj)
  case (Cons s ss)
  then have new: "planId s \<notin> fst ` set deg" by auto
  with Cons.prems have "map fst deg' =
      map fst (AList.update (planId s) 0 deg) @ map planId ss"
    by (intro Cons.IH) (auto simp: keys_update_new)
  then show ?case by (simp add: keys_update_new [OF new])
qed simp

lemma add_edges_maps:
  "add_edges k ds (deg, adj) = (deg', adj') \<Longrightarrow>
   get_degree deg' x = get_degree deg x + (if x = k then int (length ds) else 0) \<and>
   count_list (get_adj adj' d) x =
     count_list (get_adj adj d) x + (if x = k then count_list ds d else 0) \<and>
   (k \<in> fst ` set deg \<longrightarrow> map fst deg' = map fst deg)"
proof (induction ds arbitrary: deg adj)
  case (Cons e ds)
  let ?deg = "AList.update k (get_degree deg k + 1) deg"
  let ?adj = "AList.update e (get_adj adj e @ [k]) adj"
  have "add_edges k ds (?deg, ?adj) = (deg', adj')" using Cons.prems by simp
  from Cons.IH [OF this] show ?case
    by (auto simp: js_map keys_update_in dom_update)
qed simp

lemma add_all_edges_maps:
  "add_all_edges steps (deg, adj) = (deg', adj') \<Longrightarrow>
   get_degree deg' x = get_degree deg x + int (length (dep_list steps x)) \<and>
   count_list (get_adj adj' d) x = count_list (get_adj adj d) x + count_list (dep_list steps x) d \<and>
   (planId ` set steps \<subseteq> fst ` set deg \<longrightarrow> map fst deg' = map fst deg)"
proof (induction steps arbitrary: deg adj)
  case (Cons s ss)
  obtain deg1 adj1 where one: "add_edges (planId s) (step_deps s) (deg, adj) = (deg1, adj1)"
    by (rule prod.exhaust)
  then have rest: "add_all_edges ss (deg1, adj1) = (deg', adj')" using Cons.prems by simp
  have keys: "fst ` set deg1 = fst ` set deg" if "planId s \<in> fst ` set deg"
    using add_edges_maps [OF one, of x d] that by (metis list.set_map)
  have "get_degree deg' x = get_degree deg x + int (length (dep_list (s # ss) x))"
    using add_edges_maps [OF one, of x d] Cons.IH [OF rest] by simp
  moreover have "count_list (get_adj adj' d) x =
      count_list (get_adj adj d) x + count_list (dep_list (s # ss) x) d"
    using add_edges_maps [OF one, of x d] Cons.IH [OF rest]
    by (cases "planId s = x") simp_all
  moreover have "map fst deg' = map fst deg" if "planId ` set (s # ss) \<subseteq> fst ` set deg"
    using that add_edges_maps [OF one, of x d] Cons.IH [OF rest] keys by simp
  ultimately show ?case by blast
qed simp

lemma built_maps:
  assumes "add_all_edges steps (init_maps steps ([], [])) = (deg, adj)"
  shows "get_degree deg x = int (length (dep_list steps x))"
    and "count_list (get_adj adj d) x = count_list (dep_list steps x) d"
    and "distinct (map planId steps) \<Longrightarrow> map fst deg = map planId steps"
proof -
  obtain deg0 adj0 where i: "init_maps steps ([], []) = (deg0, adj0)"
    by (rule prod.exhaust)
  have z: "get_degree deg0 x = 0" "get_adj adj0 d = []" for x d
    using init_maps_zero [OF i] by (simp_all add: get_degree_def get_adj_def)
  have a: "add_all_edges steps (deg0, adj0) = (deg, adj)" using assms i by simp
  show "get_degree deg x = int (length (dep_list steps x))"
    "count_list (get_adj adj d) x = count_list (dep_list steps x) d"
    using add_all_edges_maps [OF a, of x d] z by auto
  show "map fst deg = map planId steps" if "distinct (map planId steps)"
  proof -
    from init_maps_keys [OF i that] have k: "map fst deg0 = map planId steps" by simp
    then have "fst ` set deg0 = planId ` set steps" by (metis list.set_map)
    with add_all_edges_maps [OF a] k show ?thesis by simp
  qed
qed


section \<open>Kahn's loop: processed nodes, queue and in-degrees agree\<close>

definition enough :: "string list \<Rightarrow> degrees \<Rightarrow> bool" where
  "enough ns deg \<longleftrightarrow> (\<forall>x. int (count_list ns x) \<le> get_degree deg x)"

lemma enough_step:
  "enough (n # ns) deg \<Longrightarrow> enough ns (AList.update n (get_degree deg n - 1) deg)"
  unfolding enough_def
proof
  fix x
  assume "\<forall>x. int (count_list (n # ns) x) \<le> get_degree deg x"
  then have "int (count_list (n # ns) x) \<le> get_degree deg x" ..
  then show "int (count_list ns x) \<le> get_degree (AList.update n (get_degree deg n - 1) deg) x"
    by (cases "x = n") (simp_all add: js_map)
qed

lemma relax_degree:
  "relax ns deg queue = (deg', queue') \<Longrightarrow>
   get_degree deg' x = get_degree deg x - int (count_list ns x)"
proof (induction ns arbitrary: deg queue)
  case (Cons n ns)
  then have "get_degree deg' x =
      get_degree (AList.update n (get_degree deg n - 1) deg) x - int (count_list ns x)"
    by (simp add: Let_def)
  then show ?case by (cases "x = n") (simp_all add: js_map)
qed simp

lemma relax_keys:
  "relax ns deg queue = (deg', queue') \<Longrightarrow> set ns \<subseteq> fst ` set deg \<Longrightarrow> map fst deg' = map fst deg"
proof (induction ns arbitrary: deg queue)
  case (Cons n ns)
  then have "map fst deg' = map fst (AList.update n (get_degree deg n - 1) deg)"
    by (simp add: Let_def dom_update subset_insertI2)
  with Cons.prems show ?case by (simp add: keys_update_in)
qed simp

lemma relax_queue:
  "relax ns deg queue = (deg', queue') \<Longrightarrow> enough ns deg \<Longrightarrow>
   \<exists>new. queue' = queue @ new \<and> distinct new \<and>
     set new = {x \<in> set ns. get_degree deg x = int (count_list ns x)}"
proof (induction ns arbitrary: deg queue)
  case (Cons n ns)
  let ?d = "get_degree deg n - 1"
  let ?q = "if ?d = 0 then queue @ [n] else queue"
  have "relax ns (AList.update n ?d deg) ?q = (deg', queue')"
    using Cons.prems(1) by (simp add: Let_def)
  from Cons.IH [OF this enough_step [OF Cons.prems(2)]] obtain new where
    new: "queue' = ?q @ new" "distinct new"
      "set new = {x \<in> set ns. get_degree (AList.update n ?d deg) x = int (count_list ns x)}"
    by blast
  let ?P = "\<lambda>x. get_degree deg x = int (count_list (n # ns) x)"
  have "get_degree (AList.update n ?d deg) x = int (count_list ns x) \<longleftrightarrow> ?P x" for x
    by (cases "x = n") (auto simp: js_map)
  with new(3) have new3: "set new = {x \<in> set ns. ?P x}" by blast
  have le: "1 + int (count_list ns n) \<le> get_degree deg n"
    using Cons.prems(2) [unfolded enough_def, THEN spec, of n] by simp
  show ?case
  proof (cases "?d = 0")
    case True
    with le have zero: "count_list ns n = 0" by linarith
    then have out: "n \<notin> set ns" by (simp add: count_list_0_iff)
    have "?P n" using True zero by simp
    then have "set (n # new) = {x \<in> set (n # ns). ?P x}"
      using new3 by (simp only: list.set filter_insert_holds)
    moreover have "queue' = queue @ (n # new)" using new(1) True by simp
    moreover have "distinct (n # new)" using new(2) new3 out by simp
    ultimately show ?thesis by blast
  next
    case False
    have "n \<in> set ns \<or> \<not> ?P n"
      using False by (cases "n \<in> set ns") (simp_all add: count_list_0_iff)
    then have "set new = {x \<in> set (n # ns). ?P x}" unfolding new3 by auto
    with new(1,2) False show ?thesis by auto
  qed
qed simp

definition kahn_inv :: "string list \<Rightarrow> (string \<Rightarrow> string list) \<Rightarrow> string list \<Rightarrow> string list \<Rightarrow> degrees \<Rightarrow> bool" where
  "kahn_inv ids dl vs queue deg \<longleftrightarrow>
     map fst deg = ids \<and> distinct ids \<and> set vs \<subseteq> set ids \<and> topo (\<lambda>k. set (dl k)) vs \<and>
     (\<forall>k. get_degree deg k = int (length (filter (\<lambda>d. d \<notin> set vs) (dl k)))) \<and>
     distinct queue \<and> set queue = {k \<in> set ids. k \<notin> set vs \<and> get_degree deg k = 0}"

lemma filter_remove_one:
  "k \<notin> vs \<Longrightarrow> length (filter (\<lambda>d. d \<notin> vs) ds) =
     length (filter (\<lambda>d. d \<notin> insert k vs) ds) + count_list ds k"
  by (induction ds) auto

lemma kahn_inv_step:
  assumes inv: "kahn_inv ids dl vs (k # queue) deg"
    and adj: "\<And>x. count_list (get_adj adj k) x = count_list (dl x) k"
    and dl: "\<And>x. x \<notin> set ids \<Longrightarrow> dl x = []"
    and r: "relax (get_adj adj k) deg queue = (deg', queue')"
  shows "kahn_inv ids dl (k # vs) queue' deg'"
proof -
  let ?ns = "get_adj adj k"
  have k: "k \<in> set ids" "k \<notin> set vs" "get_degree deg k = 0" "k \<notin> set queue" "distinct queue"
    and deg: "\<And>x. get_degree deg x = int (length (filter (\<lambda>d. d \<notin> set vs) (dl x)))"
    and q: "set (k # queue) = {x \<in> set ids. x \<notin> set vs \<and> get_degree deg x = 0}"
    and rest: "map fst deg = ids" "distinct ids" "set vs \<subseteq> set ids" "topo (\<lambda>k. set (dl k)) vs"
    using inv by (auto simp: kahn_inv_def)
  have le: "int (count_list ?ns x) \<le> get_degree deg x" for x
    using filter_remove_one [OF k(2), of "dl x"] by (simp add: adj deg)
  then have enough: "enough ?ns deg" by (simp add: enough_def)
  note eff = relax_degree [OF r]
  have deg': "get_degree deg' x = int (length (filter (\<lambda>d. d \<notin> set (k # vs)) (dl x)))" for x
    using eff [of x] filter_remove_one [OF k(2), of "dl x"] by (simp add: adj deg)
  have "set (dl k) \<subseteq> set vs" using k(3) deg [of k] by (auto simp: filter_empty_conv)
  then have topo: "topo (\<lambda>k. set (dl k)) (k # vs)" using rest k by simp
  have nin: "x \<in> set ?ns \<longleftrightarrow> k \<in> set (dl x)" for x
    using adj [of x] by (metis count_list_0_iff)
  then have ns_ids: "set ?ns \<subseteq> set ids" using dl by force
  have keys: "map fst deg' = ids" using relax_keys [OF r] ns_ids rest(1) by (metis list.set_map)
  obtain new where new: "queue' = queue @ new" "distinct new"
    "set new = {x \<in> set ?ns. get_degree deg x = int (count_list ?ns x)}"
    using relax_queue [OF r enough] by blast
  have pos: "0 < count_list ?ns x" if "x \<in> set ?ns" for x
    using that by (simp add: count_list_0_iff zero_less_iff_neq_zero)
  then have pos': "get_degree deg x \<noteq> 0" if "x \<in> set ?ns" for x
    using le [of x] pos [OF that] by linarith
  have notvs: "x \<notin> set vs" if "x \<in> set ?ns" for x
  proof
    assume "x \<in> set vs"
    then have "set (dl x) \<subseteq> set vs" using topo_closed [OF rest(4)] by simp
    with that nin k(2) show False by auto
  qed
  have queue: "x \<in> set queue \<longleftrightarrow> x \<in> set ids \<and> x \<notin> set vs \<and> get_degree deg x = 0 \<and> x \<noteq> k" for x
    using q k(4) by auto
  have "x \<in> set queue' \<longleftrightarrow> x \<in> set ids \<and> x \<notin> set (k # vs) \<and> get_degree deg' x = 0" for x
  proof (cases "x \<in> set ?ns")
    case True
    then have "x \<in> set ids" "x \<notin> set vs" "get_degree deg x \<noteq> 0"
      using ns_ids notvs pos' by auto
    with True k(3) show ?thesis by (auto simp: new eff queue)
  next
    case False
    then have "count_list ?ns x = 0" by (simp add: count_list_0_iff)
    with False show ?thesis by (auto simp: new eff queue)
  qed
  then have "set queue' = {x \<in> set ids. x \<notin> set (k # vs) \<and> get_degree deg' x = 0}"
    by blast
  moreover have "distinct queue'"
    using new k(5) q pos' by auto
  ultimately show ?thesis
    using keys rest k topo deg' by (simp add: kahn_inv_def)
qed

lemma kahn_loop_inv:
  assumes "kahn_inv ids dl vs queue deg"
    and "\<And>k x. count_list (get_adj adj k) x = count_list (dl x) k"
    and "\<And>x. x \<notin> set ids \<Longrightarrow> dl x = []"
    and "kahn_loop adj queue deg n = (deg', n')"
  shows "\<exists>vs'. kahn_inv ids dl vs' [] deg' \<and> n' + length vs = n + length vs'"
  using assms(1,2,4)
proof (induction adj queue deg n arbitrary: vs rule: kahn_loop.induct)
  case (1 adj deg visited)
  then show ?case by auto
next
  case (2 adj k queue deg visited)
  obtain deg1 queue1 where r: "relax (get_adj adj k) deg queue = (deg1, queue1)"
    by (rule prod.exhaust)
  have "kahn_inv ids dl (k # vs) queue1 deg1"
    by (rule kahn_inv_step [OF "2.prems"(1) "2.prems"(2) assms(3) r])
  moreover have "kahn_loop adj queue1 deg1 (Suc visited) = (deg', n')"
    using "2.prems"(3) r by simp
  ultimately show ?case using "2.IH" [OF refl, of "k # vs"] r "2.prems"(2) by fastforce
qed


section \<open>The whole-plan check\<close>

definition plan_closed :: "dep_step list \<Rightarrow> bool" where
  "plan_closed steps \<longleftrightarrow> (\<Union>s\<in>set steps. set (step_deps s)) \<subseteq> planId ` set steps"

definition run_kahn :: "dep_step list \<Rightarrow> degrees \<times> nat" where
  "run_kahn steps =
     (let (deg, adj) = add_all_edges steps (init_maps steps ([], [])) in
      kahn_loop adj (map fst (filter (\<lambda>(k, v). v = 0) deg)) deg 0)"

lemma get_degree_pair:
  assumes "distinct (map fst deg)" and "k \<in> fst ` set deg"
  shows "(k, v) \<in> set deg \<longleftrightarrow> get_degree deg k = v"
proof -
  from assms(2) obtain w where "map_of deg k = Some w" by (metis map_of_None_key option.exhaust)
  with map_of_eq_Some_iff [OF assms(1), of k v] show ?thesis by (auto simp: get_degree_def)
qed

lemma keys_where:
  assumes "distinct (map fst deg)"
  shows "set (map fst (filter (\<lambda>(k, v). P v) deg)) = {k \<in> fst ` set deg. P (get_degree deg k)}"
    and "distinct (map fst (filter (\<lambda>(k, v). P v) deg))"
proof -
  have "k \<in> set (map fst (filter (\<lambda>(k, v). P v) deg)) \<longleftrightarrow> (\<exists>v. (k, v) \<in> set deg \<and> P v)" for k
    by force
  moreover have "(\<exists>v. (k, v) \<in> set deg \<and> P v) \<longleftrightarrow> k \<in> fst ` set deg \<and> P (get_degree deg k)" for k
    using get_degree_pair [OF assms] by (metis fst_conv image_eqI)
  ultimately show "set (map fst (filter (\<lambda>(k, v). P v) deg)) = {k \<in> fst ` set deg. P (get_degree deg k)}"
    by blast
  show "distinct (map fst (filter (\<lambda>(k, v). P v) deg))"
    using assms by (rule distinct_map_filter)
qed

lemma run_kahn_inv:
  assumes "distinct (map planId steps)" and "run_kahn steps = (deg', n)"
  shows "\<exists>vs. kahn_inv (map planId steps) (dep_list steps) vs [] deg' \<and> n = length vs"
proof -
  obtain deg adj where m: "add_all_edges steps (init_maps steps ([], [])) = (deg, adj)"
    by (rule prod.exhaust)
  note maps = built_maps [OF m]
  have keys: "map fst deg = map planId steps" by (rule maps(3) [OF assms(1)])
  then have kset: "fst ` set deg = planId ` set steps" by (metis list.set_map)
  let ?q = "map fst (filter (\<lambda>(k, v). v = 0) deg)"
  have "distinct (map fst deg)" using keys assms(1) by simp
  note kw = keys_where [OF this, of "\<lambda>v. v = 0"]
  have inv: "kahn_inv (map planId steps) (dep_list steps) [] ?q deg"
    using keys assms(1) maps(1) kw kset by (simp add: kahn_inv_def)
  have "kahn_loop adj ?q deg 0 = (deg', n)" using assms(2) m by (simp add: run_kahn_def)
  from kahn_loop_inv [OF inv maps(2) _ this] show ?thesis
    using dep_list_outside by auto
qed

lemma kahn_unprocessed:
  assumes inv: "kahn_inv ids dl vs [] deg" and "x \<in> set ids" and "x \<notin> set vs"
  shows "\<exists>d \<in> set (dl x). d \<notin> set vs"
proof -
  from inv assms(2,3) have "get_degree deg x \<noteq> 0" by (auto simp: kahn_inv_def)
  with inv have "filter (\<lambda>d. d \<notin> set vs) (dl x) \<noteq> []"
    by (simp add: kahn_inv_def)
  then show ?thesis by (simp add: filter_empty_conv)
qed

text \<open>The unprocessed nodes are the ones on, or downstream of, a cycle.\<close>

lemma kahn_remaining:
  assumes inv: "kahn_inv ids dl vs [] deg" and closed: "\<And>x. set (dl x) \<subseteq> set ids"
    and r: "r = {(d, k). d \<in> set (dl k)}"
  shows "set ids - set vs = {k \<in> set ids. \<exists>c. (c, c) \<in> r\<^sup>+ \<and> (c, k) \<in> r\<^sup>*}"
proof (intro equalityI subsetI)
  fix x assume x: "x \<in> set ids - set vs"
  have "\<exists>z\<in>set ids - set vs. (z, y) \<in> r" if "y \<in> set ids - set vs" for y
    using kahn_unprocessed [OF inv, of y] that closed [of y] unfolding r by blast
  from cycle_above [OF _ x this]
  show "x \<in> {k \<in> set ids. \<exists>c. (c, c) \<in> r\<^sup>+ \<and> (c, k) \<in> r\<^sup>*}"
    using x by simp
next
  fix x assume x: "x \<in> {k \<in> set ids. \<exists>c. (c, c) \<in> r\<^sup>+ \<and> (c, k) \<in> r\<^sup>*}"
  then obtain c where c: "(c, c) \<in> r\<^sup>+" "(c, x) \<in> r\<^sup>*" by blast
  have topo: "topo (\<lambda>k. set (dl k)) vs" using inv by (simp add: kahn_inv_def)
  have "a \<in> set vs" if "(a, b) \<in> r\<^sup>*" "b \<in> set vs" for a b
    using that by (induction rule: converse_rtrancl_induct) (use topo_closed [OF topo] r in auto)
  moreover have "c \<notin> set vs" using topo_no_cycle [OF topo, of r c] c(1) r by auto
  ultimately show "x \<in> set ids - set vs" using x c(2) by blast
qed

lemma kahn_positive:
  assumes inv: "kahn_inv ids dl vs [] deg"
  shows "set (map fst (filter (\<lambda>(k, v). v > 0) deg)) = set ids - set vs"
    and "distinct (map fst (filter (\<lambda>(k, v). v > 0) deg))"
proof -
  have d: "distinct (map fst deg)" and ids: "fst ` set deg = set ids"
    and topo: "topo (\<lambda>k. set (dl k)) vs"
    and deg: "\<And>k. get_degree deg k = int (length (filter (\<lambda>d. d \<notin> set vs) (dl k)))"
    using inv by (simp_all add: kahn_inv_def flip: list.set_map)
  have "get_degree deg x > 0 \<longleftrightarrow> x \<notin> set vs" if "x \<in> set ids" for x
  proof (cases "x \<in> set vs")
    case True
    then have "filter (\<lambda>d. d \<notin> set vs) (dl x) = []"
      using topo_closed [OF topo True] by (auto simp: filter_empty_conv)
    then have "get_degree deg x = 0" by (simp only: deg list.size of_nat_0)
    with True show ?thesis by simp
  next
    case False
    then have "get_degree deg x \<noteq> 0" using inv that by (auto simp: kahn_inv_def)
    with False deg [of x] show ?thesis by simp
  qed
  then show "set (map fst (filter (\<lambda>(k, v). v > 0) deg)) = set ids - set vs"
    unfolding keys_where(1) [OF d] ids by blast
  show "distinct (map fst (filter (\<lambda>(k, v). v > 0) deg))" by (rule keys_where(2) [OF d])
qed

lemma validatePlan_unfold:
  "validatePlanDependsOn steps =
     (case find_duplicate {} steps of
        Some k \<Rightarrow> DuplicatePlanId k
      | None \<Rightarrow>
        (case check_refs (planId ` set steps) [] steps of
           Inl k \<Rightarrow> SelfDependency k
         | Inr missing \<Rightarrow>
           if missing \<noteq> [] then UnknownPlanId missing
           else if snd (run_kahn steps) < length steps
             then DependsOnCycle (map fst (filter (\<lambda>(k, v). v > 0) (fst (run_kahn steps))))
             else DepOk))"
  by (simp add: validatePlanDependsOn_def run_kahn_def split_def Let_def
      split: option.split sum.split)

lemma plan_closed_dep_list: "plan_closed steps \<Longrightarrow> set (dep_list steps x) \<subseteq> planId ` set steps"
proof
  assume closed: "plan_closed steps"
  fix d assume "d \<in> set (dep_list steps x)"
  then obtain s where "s \<in> set steps" "d \<in> set (step_deps s)" by (auto simp: set_dep_list)
  with closed show "d \<in> planId ` set steps" unfolding plan_closed_def by blast
qed

lemma run_kahn_complete:
  assumes "distinct (map planId steps)" and "plan_closed steps"
  shows "snd (run_kahn steps) < length steps \<longleftrightarrow> \<not> acyclic (dep_edges steps)"
    and "set (map fst (filter (\<lambda>(k, v). v > 0) (fst (run_kahn steps)))) =
      {k \<in> planId ` set steps. \<exists>c. (c, c) \<in> (dep_edges steps)\<^sup>+ \<and> (c, k) \<in> (dep_edges steps)\<^sup>*}"
    and "distinct (map fst (filter (\<lambda>(k, v). v > 0) (fst (run_kahn steps))))"
proof -
  obtain vs where inv: "kahn_inv (map planId steps) (dep_list steps) vs [] (fst (run_kahn steps))"
    and n: "snd (run_kahn steps) = length vs"
    using run_kahn_inv [OF assms(1), of "fst (run_kahn steps)" "snd (run_kahn steps)"] by auto
  let ?ids = "planId ` set steps"
  have rem: "?ids - set vs =
      {k \<in> ?ids. \<exists>c. (c, c) \<in> (dep_edges steps)\<^sup>+ \<and> (c, k) \<in> (dep_edges steps)\<^sup>*}"
    using kahn_remaining [OF inv _ dep_edges_def] plan_closed_dep_list [OF assms(2)] by simp
  then show "set (map fst (filter (\<lambda>(k, v). v > 0) (fst (run_kahn steps)))) =
      {k \<in> ?ids. \<exists>c. (c, c) \<in> (dep_edges steps)\<^sup>+ \<and> (c, k) \<in> (dep_edges steps)\<^sup>*}"
    using kahn_positive(1) [OF inv] by simp
  show "distinct (map fst (filter (\<lambda>(k, v). v > 0) (fst (run_kahn steps))))"
    by (rule kahn_positive(2) [OF inv])
  have vs: "distinct vs" "set vs \<subseteq> ?ids" using inv topo_distinct by (auto simp: kahn_inv_def)
  have len: "length steps = card ?ids" "length vs = card (set vs)"
    using assms(1) vs(1) by (metis distinct_card length_map list.set_map, metis distinct_card)
  have "length vs < length steps \<longleftrightarrow> ?ids - set vs \<noteq> {}"
    unfolding len using vs(2) by (metis Diff_eq_empty_iff List.finite_set finite_imageI
        card_mono not_le psubset_card_mono psubsetI subset_antisym)
  also have "\<dots> \<longleftrightarrow> \<not> acyclic (dep_edges steps)"
  proof
    assume "?ids - set vs \<noteq> {}"
    with rem show "\<not> acyclic (dep_edges steps)" by (auto simp: acyclic_def)
  next
    assume "\<not> acyclic (dep_edges steps)"
    then obtain c where c: "(c, c) \<in> (dep_edges steps)\<^sup>+" by (auto simp: acyclic_def)
    from tranclD [OF c] have "c \<in> ?ids"
      using plan_closed_dep_list [OF assms(2)] by (auto simp: dep_edges_def)
    with c rem show "?ids - set vs \<noteq> {}" by blast
  qed
  finally show "snd (run_kahn steps) < length steps \<longleftrightarrow> \<not> acyclic (dep_edges steps)"
    by (simp add: n)
qed

lemma self_dep_cycle:
  "s \<in> set steps \<Longrightarrow> planId s \<in> set (step_deps s) \<Longrightarrow> \<not> acyclic (dep_edges steps)"
  by (auto simp: acyclic_def dep_edges_def set_dep_list intro: r_into_trancl)


lemma validatePlan_ok_iff:
  "validatePlanDependsOn steps = DepOk \<longleftrightarrow>
   distinct (map planId steps) \<and> plan_closed steps \<and> acyclic (dep_edges steps)"
proof (cases "distinct (map planId steps)")
  case False
  then show ?thesis
    using find_duplicate_None [of "{}" steps] by (auto simp: validatePlan_unfold split: option.split)
next
  case dist: True
  then have dup: "find_duplicate {} steps = None" by (simp add: find_duplicate_None)
  show ?thesis
  proof (cases "check_refs (planId ` set steps) [] steps")
    case (Inl k)
    with check_refs_Inl [OF Inl] self_dep_cycle show ?thesis
      by (auto simp: validatePlan_unfold dup)
  next
    case (Inr missing)
    have "missing = [] \<longleftrightarrow> plan_closed steps"
      using check_refs_Inr [OF Inr] by (auto simp: plan_closed_def set_eq_iff simp flip: set_empty)
    with dist Inr run_kahn_complete(1) [OF dist] show ?thesis
      by (auto simp: validatePlan_unfold dup)
  qed
qed

lemma validatePlan_cycle_inv:
  assumes "validatePlanDependsOn steps = DependsOnCycle path"
  shows "distinct (map planId steps)" and "plan_closed steps" and "\<not> acyclic (dep_edges steps)"
    and "path = map fst (filter (\<lambda>(k, v). v > 0) (fst (run_kahn steps)))"
proof -
  show dist: "distinct (map planId steps)" and closed: "plan_closed steps"
    and path: "path = map fst (filter (\<lambda>(k, v). v > 0) (fst (run_kahn steps)))"
    using assms check_refs_Inr [of "planId ` set steps" "[]" steps "[]"]
      find_duplicate_None [of "{}" steps]
    by (auto simp: validatePlan_unfold plan_closed_def split: option.splits sum.splits if_splits)
  show "\<not> acyclic (dep_edges steps)"
    using assms validatePlan_ok_iff [of steps] dist closed by auto
qed

interpretation plan: dep_checker "\<lambda>steps. validatePlanDependsOn steps = DepOk"
  "\<lambda>steps. planId ` set steps" "\<lambda>steps k. set (dep_list steps k)"
proof unfold_locales
  fix steps :: "dep_step list" and x
  show "finite (planId ` set steps)" by simp
  assume ok: "validatePlanDependsOn steps = DepOk"
  then have "plan_closed steps" "acyclic (dep_edges steps)" by (simp_all add: validatePlan_ok_iff)
  then show "set (dep_list steps x) \<subseteq> planId ` set steps"
    and "acyclic {(d, x). x \<in> planId ` set steps \<and> d \<in> set (dep_list steps x)}"
    using plan_closed_dep_list by (auto simp: dep_edges_def elim!: acyclic_subset)
qed

section \<open>Properties\<close>

text \<open>
  C14: \<open>validatePlanDependsOn\<close> accepts a plan exactly when its plan ids are distinct, every
  dependency names a step of the plan, and the dependency relation has no cycle: Kahn's
  algorithm over the two maps neither accepts a cyclic plan nor rejects an acyclic one,
  repeated entries of one \<open>dependsOn\<close> list included.
\<close>

theorem validatePlan_sound_complete:
  "validatePlanDependsOn steps = DepOk \<longleftrightarrow>
   distinct (map planId steps) \<and>
   (\<Union>s\<in>set steps. set (step_deps s)) \<subseteq> planId ` set steps \<and>
   acyclic {(d, planId s) |d s. s \<in> set steps \<and> d \<in> set (step_deps s)}"
proof -
  have "{(d, planId s) |d s. s \<in> set steps \<and> d \<in> set (step_deps s)} = dep_edges steps"
    by (auto simp: dep_edges_def set_dep_list)
  then show ?thesis by (simp only: validatePlan_ok_iff plan_closed_def)
qed

text \<open>
  When the check answers \<open>DEPENDS_ON_CYCLE\<close>, the reported \<open>path\<close> lists, without
  repetition, exactly the steps that lie on a dependency cycle or downstream of one; it is
  not one representative cycle, as the function's comment says.
\<close>

theorem validatePlan_cycle_path:
  assumes "validatePlanDependsOn steps = DependsOnCycle path"
  shows "distinct path \<and> path \<noteq> [] \<and>
    set path = {k \<in> planId ` set steps.
      \<exists>c. (c, c) \<in> (dep_edges steps)\<^sup>+ \<and> (c, k) \<in> (dep_edges steps)\<^sup>*}"
proof -
  note inv = validatePlan_cycle_inv [OF assms]
  note k = run_kahn_complete [OF inv(1,2)]
  have s: "set path = {k \<in> planId ` set steps.
      \<exists>c. (c, c) \<in> (dep_edges steps)\<^sup>+ \<and> (c, k) \<in> (dep_edges steps)\<^sup>*}"
    and "distinct path"
    using k(2,3) inv(4) by simp_all
  obtain c where c: "(c, c) \<in> (dep_edges steps)\<^sup>+" using inv(3) by (auto simp: acyclic_def)
  from tranclD2 [OF c] have "c \<in> planId ` set steps"
    by (auto simp: dep_edges_def set_dep_list)
  with c have "c \<in> set path" unfolding s by blast
  with s \<open>distinct path\<close> show ?thesis by auto
qed

text \<open>The path reported for one step downstream of a two-step cycle names all three.\<close>

theorem validatePlan_cycle_path_witness:
  "''a'' \<in> set [''a'', ''b'', ''c''] \<and>
   (\<exists>c. (c, c) \<in> (dep_edges [\<lparr>planId = ''a'', dependsOn = Some [''b'']\<rparr>,
        \<lparr>planId = ''b'', dependsOn = Some [''c'']\<rparr>,
        \<lparr>planId = ''c'', dependsOn = Some [''b'']\<rparr>])\<^sup>+)"
proof -
  let ?steps = "[\<lparr>planId = ''a'', dependsOn = Some [''b'']\<rparr>,
        \<lparr>planId = ''b'', dependsOn = Some [''c'']\<rparr>,
        \<lparr>planId = ''c'', dependsOn = Some [''b'']\<rparr>]"
  have "validatePlanDependsOn ?steps = DependsOnCycle [''a'', ''b'', ''c'']" by code_simp
  from validatePlan_cycle_path [OF this] show ?thesis by auto
qed

text \<open>
  An accepted plan cannot deadlock: whichever steps have finished, as long as one has not,
  some unfinished step has all its dependencies finished.
\<close>

theorem accepted_plan_has_runnable_step:
  assumes "validatePlanDependsOn steps = DepOk" and "fin \<subset> planId ` set steps"
  shows "\<exists>s \<in> set steps. planId s \<notin> fin \<and> set (step_deps s) \<subseteq> fin"
  using plan.runnable [OF assms] by (auto simp: set_dep_list subset_iff)

theorem accepted_plan_has_runnable_step_witness:
  "\<exists>s \<in> set [\<lparr>planId = ''a'', dependsOn = Some [''b'']\<rparr>, \<lparr>planId = ''b'', dependsOn = None\<rparr>].
     planId s \<notin> {''b''} \<and> set (step_deps s) \<subseteq> {''b''}"
proof (rule accepted_plan_has_runnable_step)
  show "validatePlanDependsOn
      [\<lparr>planId = ''a'', dependsOn = Some [''b'']\<rparr>, \<lparr>planId = ''b'', dependsOn = None\<rparr>] = DepOk"
    by code_simp
  show "{''b''} \<subset> planId ` set
      [\<lparr>planId = ''a'', dependsOn = Some [''b'']\<rparr>, \<lparr>planId = ''b'', dependsOn = None\<rparr>]"
    by auto
qed

text \<open>
  The two reference errors are precise: \<open>UNKNOWN_PLAN_ID\<close> lists each id that some
  step depends on and no step has, once each; \<open>SELF_DEPENDENCY\<close> names a step that
  depends on itself; \<open>DUPLICATE_PLAN_ID\<close> names an id two positions share.
\<close>

theorem validatePlan_reference_errors:
  "(validatePlanDependsOn steps = UnknownPlanId missing \<longrightarrow>
      distinct missing \<and> missing \<noteq> [] \<and>
      set missing = (\<Union>s\<in>set steps. set (step_deps s)) - planId ` set steps) \<and>
   (validatePlanDependsOn steps = SelfDependency k \<longrightarrow>
      (\<exists>s\<in>set steps. planId s = k \<and> k \<in> set (step_deps s))) \<and>
   (validatePlanDependsOn steps = DuplicatePlanId k \<longrightarrow>
      (\<exists>xs s ys. steps = xs @ s # ys \<and> planId s = k \<and> k \<in> planId ` set xs))"
proof (intro conjI impI)
  assume "validatePlanDependsOn steps = UnknownPlanId missing"
  then have "check_refs (planId ` set steps) [] steps = Inr missing" "missing \<noteq> []"
    by (auto simp: validatePlan_unfold split: option.splits sum.splits if_splits)
  then show "distinct missing" "missing \<noteq> []"
    "set missing = (\<Union>s\<in>set steps. set (step_deps s)) - planId ` set steps"
    using check_refs_Inr [of "planId ` set steps" "[]" steps missing] by auto
next
  assume "validatePlanDependsOn steps = SelfDependency k"
  then show "\<exists>s\<in>set steps. planId s = k \<and> k \<in> set (step_deps s)"
    using check_refs_Inl by (auto simp: validatePlan_unfold split: option.splits sum.splits if_splits)
next
  assume "validatePlanDependsOn steps = DuplicatePlanId k"
  then have "find_duplicate {} steps = Some k"
    by (auto simp: validatePlan_unfold split: option.splits sum.splits if_splits)
  from find_duplicate_Some [OF this]
  show "\<exists>xs s ys. steps = xs @ s # ys \<and> planId s = k \<and> k \<in> planId ` set xs" by auto
qed

theorem validatePlan_reference_errors_witness:
  "set [''x''] = (\<Union>s\<in>set [\<lparr>planId = ''a'', dependsOn = Some [''x'', ''x'']\<rparr>].
      set (step_deps s)) - planId ` set [\<lparr>planId = ''a'', dependsOn = Some [''x'', ''x'']\<rparr>]"
proof -
  have "validatePlanDependsOn [\<lparr>planId = ''a'', dependsOn = Some [''x'', ''x'']\<rparr>] =
      UnknownPlanId [''x'']" by code_simp
  with validatePlan_reference_errors [of "[\<lparr>planId = ''a'', dependsOn = Some [''x'', ''x'']\<rparr>]"]
  show ?thesis by blast
qed

text \<open>The single-spawn check, on every branch.\<close>

lemma validateDependsOn_cases:
  "validateDependsOn pid given known =
     (let deps = (case given of None \<Rightarrow> [] | Some ds \<Rightarrow> ds) in
      if pid \<in> set deps then SelfDependency pid
      else if set deps \<subseteq> set known then DepOk
      else UnknownPlanId (filter (\<lambda>d. d \<notin> set known) deps))"
  by (auto simp: validateDependsOn_def Let_def filter_empty_conv split: option.splits)

end
