(* ===== verification/Keyed_Store.thy ===== *)
theory Keyed_Store
  imports Prelude
begin

text \<open>
  The interface of the server's in-memory read models (tasks, gates): records kept under
  their id in a \<open>Map\<close>, written one at a time and removed in batches. The lemmas that
  carry an invariant of the records over the writes are proved once, here.
\<close>

locale keyed_store =
  fixes get :: "'s \<Rightarrow> 'k \<Rightarrow> 'v option"
    and put :: "'k \<Rightarrow> 'v \<Rightarrow> 's \<Rightarrow> 's"
    and remove_many :: "'k list \<Rightarrow> 's \<Rightarrow> 's"
    and elems :: "'s \<Rightarrow> 'v list"
    and wf :: "'s \<Rightarrow> bool"
  assumes get_put: "get (put k v s) = (get s)(k \<mapsto> v)"
    and get_remove: "get (remove_many ks s) k = (if k \<in> set ks then None else get s k)"
    and elems_get: "wf s \<Longrightarrow> set (elems s) = ran (get s)"
    and wf_put: "wf s \<Longrightarrow> wf (put k v s)"
    and wf_remove: "wf s \<Longrightarrow> wf (remove_many ks s)"
begin

definition every :: "('k \<Rightarrow> 'v \<Rightarrow> bool) \<Rightarrow> 's \<Rightarrow> bool" where
  "every P s \<longleftrightarrow> (\<forall>k v. get s k = Some v \<longrightarrow> P k v)"

lemma every_put: "every P s \<Longrightarrow> P k v \<Longrightarrow> every P (put k v s)"
  by (simp add: every_def get_put)

lemma every_remove: "every P s \<Longrightarrow> every P (remove_many ks s)"
  by (simp add: every_def get_remove)

lemma every_elems: "wf s \<Longrightarrow> every P s \<Longrightarrow> v \<in> set (elems s) \<Longrightarrow> \<exists>k. get s k = Some v \<and> P k v"
  by (auto simp: elems_get every_def ran_def)

lemma elems_I: "wf s \<Longrightarrow> get s k = Some v \<Longrightarrow> v \<in> set (elems s)"
  by (auto simp: elems_get ran_def)

end

text \<open>The association-list operations that implement the interface.\<close>

definition remove_keys :: "'k list \<Rightarrow> ('k \<times> 'v) list \<Rightarrow> ('k \<times> 'v) list" where
  "remove_keys ks m = fold AList.delete ks m"

lemma map_of_remove_keys [simp]:
  "map_of (remove_keys ks m) k = (if k \<in> set ks then None else map_of m k)"
  unfolding remove_keys_def by (induction ks arbitrary: m) auto

lemma distinct_remove_keys: "distinct (map fst m) \<Longrightarrow> distinct (map fst (remove_keys ks m))"
  unfolding remove_keys_def by (induction ks arbitrary: m) (auto simp: distinct_delete)

lemma set_values_ran: "distinct (map fst m) \<Longrightarrow> set (map snd m) = ran (map_of m)"
  by (simp add: ran_distinct)

interpretation alist_store: keyed_store map_of AList.update remove_keys "map snd" "\<lambda>m. distinct (map fst m)"
  by unfold_locales
    (simp_all add: distinct_remove_keys set_values_ran del: set_map)

end
