(* ===== verification/Task_Store.thy ===== *)
theory Task_Store
  imports Keyed_Store
begin

text \<open>
  The in-memory task read model, \<open>src/src/server/agent/task-store.ts\<close>: the task record,
  the \<open>TaskStore\<close> operations on its \<open>Map\<close>, the facts a mutation publishes and the
  historical field migration. The SQLite and JSON files behind \<open>save\<close> are not
  modelled: what is recorded of them is the list of ids handed to the persistence layer
  (\<open>scheduled\<close>) and the batch of facts waiting for the strict write.
\<close>

datatype task_state = Todo | InProgress | Blocked | Complete | Skipped

record handoff =
  ho_baseSha :: "string option"
  ho_headSha :: "string option"
  ho_branch :: "string option"

record task =
  task_id :: string
  task_goalId :: string
  task_parentTaskId :: "string option"
  task_title :: string
  task_type :: string
  task_state :: task_state
  task_assignedSessionId :: "string option"
  task_spec :: "string option"
  task_createdAt :: int
  task_updatedAt :: int
  task_completedAt :: "int option"
  task_dependsOn :: "string list option"
  task_baseSha :: "string option"
  task_headSha :: "string option"
  task_branch :: "string option"
  task_resultSummary :: "string option"
  task_workflowGateId :: "string option"
  task_inputGateIds :: "string list option"
  task_gitHandoff :: "(string \<times> handoff) list option"

definition readHandoff :: "task \<Rightarrow> string \<Rightarrow> handoff" where
  "readHandoff t repo =
     (case task_gitHandoff t of
        Some m \<Rightarrow>
          (case map_of m repo of
             Some h \<Rightarrow> h
           | None \<Rightarrow> \<lparr>ho_baseSha = task_baseSha t, ho_headSha = task_headSha t, ho_branch = task_branch t\<rparr>)
      | None \<Rightarrow> \<lparr>ho_baseSha = task_baseSha t, ho_headSha = task_headSha t, ho_branch = task_branch t\<rparr>)"

datatype task_fact =
    TaskCreated string string string task_state "string option" int
      \<comment> \<open>task id, goal id, type, state, parent, revision\<close>
  | TaskUpdated string string task_state "string list" int
      \<comment> \<open>task id, goal id, state, changed fields, revision\<close>
  | TaskStateChanged string string task_state task_state int
      \<comment> \<open>task id, goal id, previous state, state, revision\<close>

type_synonym task_map = "(string \<times> task) list"

record task_store =
  tasks :: task_map
  generation :: nat
  acceptingMutations :: bool
  observed :: bool \<comment> \<open>whether \<open>onCommittedFact\<close> is installed\<close>
  committedFactBatch :: "task_fact list option"
  scheduled :: "string list"

datatype task_error =
    StoreClosed
  | ParentNotFound string
  | NestedSubTask
  | ParentGoalMismatch
  | DependencyNotFound string
  | InvalidTransition task_state task_state
  | SubTasksIncomplete nat
  | CircularDependency

type_synonym 'a task_result = "(task_error + 'a) \<times> task_store"

definition save :: "string list \<Rightarrow> task_store \<Rightarrow> task_store" where
  "save ids st = st\<lparr>scheduled := scheduled st @ ids\<rparr>"

definition put :: "task \<Rightarrow> task_store \<Rightarrow> unit task_result" where
  "put t st =
     (if \<not> acceptingMutations st then (Inl StoreClosed, st)
      else (Inr (),
        (save [task_id t] (st\<lparr>tasks := AList.update (task_id t) t (tasks st)\<rparr>))
          \<lparr>generation := generation st + 1\<rparr>))"

definition putCommitted :: "task \<Rightarrow> task_fact list \<Rightarrow> task_store \<Rightarrow> unit task_result" where
  "putCommitted t facts st =
     (if \<not> acceptingMutations st then (Inl StoreClosed, st)
      else
        let st1 = st\<lparr>tasks := AList.update (task_id t) t (tasks st), generation := generation st + 1\<rparr> in
        if \<not> observed st \<or> facts = [] then (Inr (), save [task_id t] st1)
        else (Inr (), st1\<lparr>committedFactBatch := Some (or_empty (committedFactBatch st) @ facts)\<rparr>))"

definition get :: "task_store \<Rightarrow> string \<Rightarrow> task option" where
  "get st i = map_of (tasks st) i"

definition remove :: "string \<Rightarrow> task_store \<Rightarrow> unit task_result" where
  "remove i st =
     (if \<not> acceptingMutations st then (Inl StoreClosed, st)
      else (Inr (), (save [i] (st\<lparr>tasks := AList.delete i (tasks st)\<rparr>))\<lparr>generation := generation st + 1\<rparr>))"

definition removeMany :: "string list \<Rightarrow> task_store \<Rightarrow> unit task_result" where
  "removeMany ids st =
     (if \<not> acceptingMutations st then (Inl StoreClosed, st)
      else
        let st1 = st\<lparr>tasks := remove_keys ids (tasks st)\<rparr> in
        if ids \<noteq> [] then (Inr (), (save ids st1)\<lparr>generation := generation st + 1\<rparr>)
        else (Inr (), st1))"

definition getAll :: "task_store \<Rightarrow> task list" where
  "getAll st = map snd (tasks st)"

definition getByGoalId :: "task_store \<Rightarrow> string \<Rightarrow> task list" where
  "getByGoalId st g = filter (\<lambda>t. task_goalId t = g) (getAll st)"

definition getBySessionId :: "task_store \<Rightarrow> string \<Rightarrow> task list" where
  "getBySessionId st s = filter (\<lambda>t. task_assignedSessionId t = Some s) (getAll st)"

definition getByParentTaskId :: "task_store \<Rightarrow> string \<Rightarrow> task list" where
  "getByParentTaskId st p = filter (\<lambda>t. task_parentTaskId t = Some p) (getAll st)"

text \<open>
  A caller that got a task from the store holds the object the store holds: assigning to
  one of its fields changes the store at once, before (and whether or not) the change is
  committed. \<open>mutate\<close> is that assignment.
\<close>

definition mutate :: "task \<Rightarrow> task_store \<Rightarrow> task_store" where
  "mutate t st = st\<lparr>tasks := AList.update (task_id t) t (tasks st)\<rparr>"

section \<open>Facts about the store operations\<close>

lemma save_simps [simp]:
  "tasks (save ids st) = tasks st"
  "acceptingMutations (save ids st) = acceptingMutations st"
  "observed (save ids st) = observed st"
  "committedFactBatch (save ids st) = committedFactBatch st"
  "generation (save ids st) = generation st"
  by (simp_all add: save_def)

lemma get_mutate [simp]: "get (mutate t st) = (get st)(task_id t \<mapsto> t)"
  by (auto simp: get_def mutate_def)

lemma mutate_simps [simp]:
  "acceptingMutations (mutate t st) = acceptingMutations st"
  "tasks (mutate t st) = AList.update (task_id t) t (tasks st)"
  by (simp_all add: mutate_def)

lemma putCommitted_tasks:
  "putCommitted t facts st = (r, st') \<Longrightarrow>
   (if acceptingMutations st then r = Inr () \<and> tasks st' = AList.update (task_id t) t (tasks st)
    else r = Inl StoreClosed \<and> st' = st)"
  by (auto simp: putCommitted_def Let_def split: if_splits)

lemma removeMany_tasks:
  "removeMany ids st = (r, st') \<Longrightarrow>
   (if acceptingMutations st then r = Inr () \<and> tasks st' = remove_keys ids (tasks st)
    else r = Inl StoreClosed \<and> st' = st)"
  by (auto simp: removeMany_def Let_def split: if_splits)

end
