(* ===== verification/Task_Manager.thy ===== *)
theory Task_Manager
  imports Task_Store Dep_Graph
begin

text \<open>
  Task lifecycle, \<open>src/src/server/agent/task-manager.ts\<close>: the state machine of a task,
  the operations of \<open>TaskManager\<close> over the store and the dependency cycle check. The
  clock (\<open>Date.now()\<close>) and the fresh id (\<open>randomUUID()\<close>) are arguments; an
  operation that reads the clock twice takes two readings. An operation returns its result
  or error together with the store, because a task object is mutated in place and stays
  mutated when the commit that follows throws.
\<close>

fun VALID_TRANSITIONS :: "task_state \<Rightarrow> task_state list" where
  "VALID_TRANSITIONS Todo = [InProgress, Skipped]"
| "VALID_TRANSITIONS InProgress = [Complete, Blocked, Todo]"
| "VALID_TRANSITIONS Blocked = [InProgress, Skipped]"
| "VALID_TRANSITIONS Complete = []"
| "VALID_TRANSITIONS Skipped = []"

definition isValidTransition :: "task_state \<Rightarrow> task_state \<Rightarrow> bool" where
  "isValidTransition from_st to_st = (to_st \<in> set (VALID_TRANSITIONS from_st))"

definition terminal :: "task_state \<Rightarrow> bool" where
  "terminal s = (s = Complete \<or> s = Skipped)"

definition monotonicNow :: "int \<Rightarrow> int \<Rightarrow> int" where
  "monotonicNow now previous = max now (previous + 1)"

section \<open>Changed fields\<close>

datatype task_field =
    F_title | F_spec | F_assignedSessionId | F_dependsOn | F_workflowGateId | F_inputGateIds
  | F_headSha | F_baseSha | F_branch | F_resultSummary

definition TASK_UPDATED_FIELDS :: "task_field list" where
  "TASK_UPDATED_FIELDS =
     [F_title, F_spec, F_assignedSessionId, F_dependsOn, F_workflowGateId, F_inputGateIds,
      F_headSha, F_baseSha, F_branch, F_resultSummary]"

fun TASK_UPDATED_PUBLIC_FIELD_MAP :: "task_field \<Rightarrow> string option" where
  "TASK_UPDATED_PUBLIC_FIELD_MAP F_title = Some ''title''"
| "TASK_UPDATED_PUBLIC_FIELD_MAP F_spec = Some ''spec''"
| "TASK_UPDATED_PUBLIC_FIELD_MAP F_assignedSessionId = Some ''assignedSessionId''"
| "TASK_UPDATED_PUBLIC_FIELD_MAP F_dependsOn = Some ''dependsOn''"
| "TASK_UPDATED_PUBLIC_FIELD_MAP F_workflowGateId = Some ''workflowGateId''"
| "TASK_UPDATED_PUBLIC_FIELD_MAP F_inputGateIds = Some ''inputGateIds''"
| "TASK_UPDATED_PUBLIC_FIELD_MAP F_headSha = Some ''headSha''"
| "TASK_UPDATED_PUBLIC_FIELD_MAP F_resultSummary = Some ''resultSummary''"
| "TASK_UPDATED_PUBLIC_FIELD_MAP F_baseSha = None"
| "TASK_UPDATED_PUBLIC_FIELD_MAP F_branch = None"

definition projectTaskUpdatedFields :: "task_field list \<Rightarrow> string list" where
  "projectTaskUpdatedFields changed =
     sort (js_uniq (List.map_filter TASK_UPDATED_PUBLIC_FIELD_MAP changed))"

text \<open>The value of a field: a string, an array of strings, or absent (\<open>undefined\<close>).\<close>

datatype field_value = VStr string | VList "string list"

fun task_value :: "task_field \<Rightarrow> task \<Rightarrow> field_value option" where
  "task_value F_title t = Some (VStr (task_title t))"
| "task_value F_spec t = map_option VStr (task_spec t)"
| "task_value F_assignedSessionId t = map_option VStr (task_assignedSessionId t)"
| "task_value F_dependsOn t = map_option VList (task_dependsOn t)"
| "task_value F_workflowGateId t = map_option VStr (task_workflowGateId t)"
| "task_value F_inputGateIds t = map_option VList (task_inputGateIds t)"
| "task_value F_headSha t = map_option VStr (task_headSha t)"
| "task_value F_baseSha t = map_option VStr (task_baseSha t)"
| "task_value F_branch t = map_option VStr (task_branch t)"
| "task_value F_resultSummary t = map_option VStr (task_resultSummary t)"

definition valuesEqual :: "field_value option \<Rightarrow> field_value option \<Rightarrow> bool" where
  "valuesEqual left right =
     (case (left, right) of
        (Some (VList xs), Some (VList ys)) \<Rightarrow>
          length xs = length ys \<and> list_all (\<lambda>(x, y). x = y) (zip xs ys)
      | _ \<Rightarrow> left = right)"

record task_updates =
  upd_title :: "string option"
  upd_spec :: "string option"
  upd_state :: "task_state option"
  upd_assignedSessionId :: "string option"
  upd_dependsOn :: "string list option"
  upd_workflowGateId :: "string option"
  upd_inputGateIds :: "string list option"
  upd_headSha :: "string option"
  upd_baseSha :: "string option"
  upd_branch :: "string option"
  upd_resultSummary :: "string option"

fun update_value :: "task_field \<Rightarrow> task_updates \<Rightarrow> field_value option" where
  "update_value F_title u = map_option VStr (upd_title u)"
| "update_value F_spec u = map_option VStr (upd_spec u)"
| "update_value F_assignedSessionId u = map_option VStr (upd_assignedSessionId u)"
| "update_value F_dependsOn u = map_option VList (upd_dependsOn u)"
| "update_value F_workflowGateId u = map_option VStr (upd_workflowGateId u)"
| "update_value F_inputGateIds u = map_option VList (upd_inputGateIds u)"
| "update_value F_headSha u = map_option VStr (upd_headSha u)"
| "update_value F_baseSha u = map_option VStr (upd_baseSha u)"
| "update_value F_branch u = map_option VStr (upd_branch u)"
| "update_value F_resultSummary u = map_option VStr (upd_resultSummary u)"

definition changed_fields :: "task \<Rightarrow> task_updates \<Rightarrow> task_field list" where
  "changed_fields t u =
     filter (\<lambda>f. update_value f u \<noteq> None \<and> \<not> valuesEqual (task_value f t) (update_value f u))
       TASK_UPDATED_FIELDS"

text \<open>\<open>Object.assign(task, cleaned, { updatedAt })\<close>: the present fields overwrite.\<close>

definition or_keep :: "'a option \<Rightarrow> 'a \<Rightarrow> 'a" where
  "or_keep x old = (case x of None \<Rightarrow> old | Some v \<Rightarrow> v)"

definition or_keep_opt :: "'a option \<Rightarrow> 'a option \<Rightarrow> 'a option" where
  "or_keep_opt x old = (case x of None \<Rightarrow> old | Some v \<Rightarrow> Some v)"

definition assign_updates :: "task_updates \<Rightarrow> int option \<Rightarrow> int \<Rightarrow> task \<Rightarrow> task" where
  "assign_updates u completedAt now t =
     t\<lparr>task_title := or_keep (upd_title u) (task_title t),
       task_spec := or_keep_opt (upd_spec u) (task_spec t),
       task_state := or_keep (upd_state u) (task_state t),
       task_assignedSessionId := or_keep_opt (upd_assignedSessionId u) (task_assignedSessionId t),
       task_dependsOn := or_keep_opt (upd_dependsOn u) (task_dependsOn t),
       task_workflowGateId := or_keep_opt (upd_workflowGateId u) (task_workflowGateId t),
       task_inputGateIds := or_keep_opt (upd_inputGateIds u) (task_inputGateIds t),
       task_headSha := or_keep_opt (upd_headSha u) (task_headSha t),
       task_baseSha := or_keep_opt (upd_baseSha u) (task_baseSha t),
       task_branch := or_keep_opt (upd_branch u) (task_branch t),
       task_resultSummary := or_keep_opt (upd_resultSummary u) (task_resultSummary t),
       task_completedAt := or_keep_opt completedAt (task_completedAt t),
       task_updatedAt := now\<rparr>"


section \<open>The cycle check\<close>

text \<open>
  \<open>walk\<close> with its call stack written out: the ids still to visit, the dependencies of the
  current one first. \<open>None\<close> is the thrown error, \<open>Some\<close> the set of visited ids at the
  end. An id without a task has no dependencies.
\<close>

definition deps_of :: "task_map \<Rightarrow> string \<Rightarrow> string list" where
  "deps_of m x = (case map_of m x of None \<Rightarrow> [] | Some t \<Rightarrow> or_empty (task_dependsOn t))"

function detect_walk :: "task_map \<Rightarrow> string \<Rightarrow> string list \<Rightarrow> string list \<Rightarrow> string list option" where
  "detect_walk m tid [] visited = Some visited"
| "detect_walk m tid (x # xs) visited =
     (if x = tid then None
      else if x \<in> set visited then detect_walk m tid xs visited
      else detect_walk m tid (deps_of m x @ xs) (x # visited))"
  by pat_completeness auto
termination
proof (relation "inv_image (finite_psubset <*lex*> less_than)
    (\<lambda>(m, tid, xs, vs). (fst ` set m - set vs, length xs))", goal_cases)
  case (3 m tid x xs visited)
  show ?case
  proof (cases "x \<in> fst ` set m")
    case True
    with 3 show ?thesis by (auto simp: finite_psubset_def)
  next
    case False
    then have "map_of m x = None" by (simp add: map_of_None_key)
    with False show ?thesis by (auto simp: deps_of_def)
  qed
qed auto

definition detectCycle :: "task_map \<Rightarrow> string \<Rightarrow> string list \<Rightarrow> bool" where
  "detectCycle m tid newDeps = (detect_walk m tid newDeps [] = None)"

section \<open>The operations\<close>

record create_opts =
  opt_parentTaskId :: "string option"
  opt_spec :: "string option"
  opt_dependsOn :: "string list option"
  opt_workflowGateId :: "string option"
  opt_inputGateIds :: "string list option"

definition check_parent :: "task_store \<Rightarrow> string \<Rightarrow> string option \<Rightarrow> task_error option" where
  "check_parent st goalId parent =
     (case parent of
        None \<Rightarrow> None
      | Some p \<Rightarrow>
        if p = [] then None
        else (case get st p of
                None \<Rightarrow> Some (ParentNotFound p)
              | Some pt \<Rightarrow>
                if truthy (task_parentTaskId pt) then Some NestedSubTask
                else if task_goalId pt \<noteq> goalId then Some ParentGoalMismatch
                else None))"

fun check_deps_exist :: "task_store \<Rightarrow> string list \<Rightarrow> task_error option" where
  "check_deps_exist st [] = None"
| "check_deps_exist st (d # ds) =
     (if get st d = None then Some (DependencyNotFound d) else check_deps_exist st ds)"

definition new_task :: "string \<Rightarrow> string \<Rightarrow> string \<Rightarrow> string \<Rightarrow> create_opts \<Rightarrow> int \<Rightarrow> task" where
  "new_task uuid goalId title ty opts now =
     \<lparr>task_id = uuid, task_goalId = goalId, task_parentTaskId = opt_parentTaskId opts,
      task_title = title, task_type = ty, task_state = Todo, task_assignedSessionId = None,
      task_spec = opt_spec opts, task_createdAt = now, task_updatedAt = now,
      task_completedAt = None,
      task_dependsOn = non_empty (map_option js_uniq (opt_dependsOn opts)),
      task_baseSha = None, task_headSha = None, task_branch = None, task_resultSummary = None,
      task_workflowGateId = opt_workflowGateId opts,
      task_inputGateIds = non_empty (opt_inputGateIds opts), task_gitHandoff = None\<rparr>"

text \<open>A commit error is what the operation throws; otherwise it returns its value.\<close>

definition commitTask :: "task \<Rightarrow> task_fact list \<Rightarrow> 'a \<Rightarrow> task_store \<Rightarrow> 'a task_result" where
  "commitTask t facts v st =
     (case putCommitted t facts st of
        (Inl e, st') \<Rightarrow> (Inl e, st')
      | (Inr _, st') \<Rightarrow> (Inr v, st'))"

definition createTask ::
  "string \<Rightarrow> int \<Rightarrow> string \<Rightarrow> string \<Rightarrow> string \<Rightarrow> create_opts \<Rightarrow> task_store \<Rightarrow> task task_result" where
  "createTask uuid now goalId title ty opts st =
     (case check_parent st goalId (opt_parentTaskId opts) of
        Some e \<Rightarrow> (Inl e, st)
      | None \<Rightarrow>
        (case check_deps_exist st (js_uniq (or_empty (opt_dependsOn opts))) of
           Some e \<Rightarrow> (Inl e, st)
         | None \<Rightarrow>
           let t = new_task uuid goalId title ty opts now in
           commitTask t
             [TaskCreated (task_id t) (task_goalId t) (task_type t) (task_state t)
                (task_parentTaskId t) (task_updatedAt t)] t st))"

definition getTask :: "task_store \<Rightarrow> string \<Rightarrow> task option" where
  "getTask st i = get st i"

definition getTasksForGoal :: "task_store \<Rightarrow> string \<Rightarrow> task list" where
  "getTasksForGoal st g = getByGoalId st g"

definition getTasksForSession :: "task_store \<Rightarrow> string \<Rightarrow> task list" where
  "getTasksForSession st s = getBySessionId st s"

definition incomplete_subtasks :: "task_store \<Rightarrow> string \<Rightarrow> task list" where
  "incomplete_subtasks st i =
     filter (\<lambda>s. task_state s \<noteq> Complete \<and> task_state s \<noteq> Skipped) (getByParentTaskId st i)"

definition check_state_update :: "task_store \<Rightarrow> string \<Rightarrow> task \<Rightarrow> task_updates \<Rightarrow> task_error option" where
  "check_state_update st i t u =
     (case upd_state u of
        None \<Rightarrow> None
      | Some s \<Rightarrow>
        if s = task_state t then None
        else if \<not> isValidTransition (task_state t) s then Some (InvalidTransition (task_state t) s)
        else if s = Complete \<and> incomplete_subtasks st i \<noteq> []
          then Some (SubTasksIncomplete (length (incomplete_subtasks st i)))
        else None)"

definition normal_deps :: "string \<Rightarrow> task_updates \<Rightarrow> task_updates" where
  "normal_deps i u = u\<lparr>upd_dependsOn := map_option (\<lambda>ds. filter (\<lambda>d. d \<noteq> i) (js_uniq ds)) (upd_dependsOn u)\<rparr>"

definition check_deps_update :: "task_store \<Rightarrow> string \<Rightarrow> task_updates \<Rightarrow> task_error option" where
  "check_deps_update st i u =
     (case upd_dependsOn u of
        None \<Rightarrow> None
      | Some ds \<Rightarrow>
        (case check_deps_exist st ds of
           Some e \<Rightarrow> Some e
         | None \<Rightarrow> if detectCycle (tasks st) i ds then Some CircularDependency else None))"

definition updateTask :: "int \<Rightarrow> string \<Rightarrow> task_updates \<Rightarrow> task_store \<Rightarrow> bool task_result" where
  "updateTask now i u0 st =
     (case get st i of
        None \<Rightarrow> (Inr False, st)
      | Some t \<Rightarrow>
        (case check_state_update st i t u0 of
           Some e \<Rightarrow> (Inl e, st)
         | None \<Rightarrow>
           let u = normal_deps i u0 in
           (case check_deps_update st i u of
              Some e \<Rightarrow> (Inl e, st)
            | None \<Rightarrow>
              let changed = changed_fields t u;
                  previousState = task_state t;
                  stateChanged = (upd_state u \<noteq> None \<and> upd_state u \<noteq> Some previousState) in
              if \<not> stateChanged \<and> changed = [] then (Inr True, st)
              else
                let now' = monotonicNow now (task_updatedAt t);
                    completedAt = (if stateChanged \<and> terminal (the (upd_state u)) then Some now' else None);
                    t' = assign_updates u completedAt now' t;
                    facts =
                      (if changed \<noteq> [] then
                         [TaskUpdated (task_id t') (task_goalId t') (task_state t')
                            (projectTaskUpdatedFields changed) (task_updatedAt t')] else []) @
                      (if stateChanged then
                         [TaskStateChanged (task_id t') (task_goalId t') previousState
                            (task_state t') (task_updatedAt t')] else []) in
                commitTask t' facts True (mutate t' st))))"

definition deleteTask :: "string \<Rightarrow> task_store \<Rightarrow> bool task_result" where
  "deleteTask i st =
     (case get st i of
        None \<Rightarrow> (Inr False, st)
      | Some t \<Rightarrow>
        (case removeMany (map task_id (getByParentTaskId st i) @ [i]) st of
           (Inl e, st') \<Rightarrow> (Inl e, st')
         | (Inr _, st') \<Rightarrow> (Inr True, st')))"

definition start_parent :: "int \<Rightarrow> task \<Rightarrow> task_store \<Rightarrow> bool task_result" where
  "start_parent now t st =
     (if truthy (task_parentTaskId t) then
        (case get st (the (task_parentTaskId t)) of
           None \<Rightarrow> (Inr True, st)
         | Some p \<Rightarrow>
           if task_state p = Todo then
             let p' = p\<lparr>task_state := InProgress, task_updatedAt := monotonicNow now (task_updatedAt p)\<rparr> in
             commitTask p'
               [TaskStateChanged (task_id p') (task_goalId p') (task_state p) (task_state p')
                  (task_updatedAt p')] True (mutate p' st)
           else (Inr True, st))
      else (Inr True, st))"

definition assign_in_place :: "int \<Rightarrow> string \<Rightarrow> task \<Rightarrow> task" where
  "assign_in_place now sessionId t =
     t\<lparr>task_assignedSessionId := Some sessionId,
       task_updatedAt := monotonicNow now (task_updatedAt t),
       task_state := (if task_state t = Todo then InProgress else task_state t)\<rparr>"

definition assignTask :: "int \<Rightarrow> int \<Rightarrow> string \<Rightarrow> string \<Rightarrow> task_store \<Rightarrow> bool task_result" where
  "assignTask now now2 i sessionId st =
     (case get st i of
        None \<Rightarrow> (Inr False, st)
      | Some t \<Rightarrow>
        let assignmentChanged = (task_assignedSessionId t \<noteq> Some sessionId);
            stateChanged = (task_state t = Todo) in
        if assignmentChanged \<or> stateChanged then
          let t' = assign_in_place now sessionId t;
              facts =
                (if assignmentChanged then
                   [TaskUpdated (task_id t') (task_goalId t') (task_state t')
                      [''assignedSessionId''] (task_updatedAt t')] else []) @
                (if stateChanged then
                   [TaskStateChanged (task_id t') (task_goalId t') (task_state t)
                      (task_state t') (task_updatedAt t')] else []) in
          (case commitTask t' facts () (mutate t' st) of
             (Inl e, st') \<Rightarrow> (Inl e, st')
           | (Inr _, st') \<Rightarrow> start_parent now2 t' st')
        else start_parent now2 t st)"

definition completeTask :: "int \<Rightarrow> string \<Rightarrow> task_store \<Rightarrow> bool task_result" where
  "completeTask now i st =
     (case get st i of
        None \<Rightarrow> (Inr False, st)
      | Some t \<Rightarrow>
        if \<not> isValidTransition (task_state t) Complete
        then (Inl (InvalidTransition (task_state t) Complete), st)
        else if incomplete_subtasks st i \<noteq> []
        then (Inl (SubTasksIncomplete (length (incomplete_subtasks st i))), st)
        else
          let now' = monotonicNow now (task_updatedAt t);
              t' = t\<lparr>task_state := Complete, task_completedAt := Some now', task_updatedAt := now'\<rparr> in
          commitTask t'
            [TaskStateChanged (task_id t') (task_goalId t') (task_state t) (task_state t')
               (task_updatedAt t')] True (mutate t' st))"

definition transitionTask :: "int \<Rightarrow> string \<Rightarrow> task_state \<Rightarrow> task_store \<Rightarrow> bool task_result" where
  "transitionTask now i newState st =
     (case get st i of
        None \<Rightarrow> (Inr False, st)
      | Some t \<Rightarrow>
        if task_state t = newState then (Inr True, st)
        else if \<not> isValidTransition (task_state t) newState
        then (Inl (InvalidTransition (task_state t) newState), st)
        else if newState = Complete then completeTask now i st
        else
          let now' = monotonicNow now (task_updatedAt t);
              t' = t\<lparr>task_state := newState, task_updatedAt := now',
                     task_completedAt := (if newState = Skipped then Some now' else task_completedAt t)\<rparr> in
          commitTask t'
            [TaskStateChanged (task_id t') (task_goalId t') (task_state t) (task_state t')
               (task_updatedAt t')] True (mutate t' st))"

definition deleteTasksForGoal :: "string \<Rightarrow> task_store \<Rightarrow> unit task_result" where
  "deleteTasksForGoal goalId st = removeMany (map task_id (getByGoalId st goalId)) st"

definition markStaleTasks :: "task_store \<Rightarrow> string \<Rightarrow> string \<Rightarrow> task list" where
  "markStaleTasks st goalId currentHeadSha =
     filter (\<lambda>t. task_state t = Complete \<and>
         task_type t \<in> {''testing'', ''tdd-tests'', ''code-review'', ''security-review'', ''design-review''} \<and>
         truthy (task_headSha t) \<and> task_headSha t \<noteq> Some currentHeadSha)
       (getByGoalId st goalId)"


section \<open>The cycle check decides reachability\<close>

definition dep_rel :: "task_map \<Rightarrow> (string \<times> string) set" where
  "dep_rel m = {(x, d). d \<in> set (deps_of m x)}"

lemma detect_walk_None:
  "detect_walk m tid xs vs = None \<Longrightarrow> \<exists>x\<in>set xs. (x, tid) \<in> (dep_rel m)\<^sup>*"
proof (induction m tid xs vs rule: detect_walk.induct)
  case (2 m tid x xs vs)
  show ?case
  proof (cases "x = tid \<or> x \<in> set vs")
    case True
    with 2 show ?thesis by (auto split: if_splits)
  next
    case False
    with 2 obtain y where y: "y \<in> set (deps_of m x @ xs)" "(y, tid) \<in> (dep_rel m)\<^sup>*" by auto
    show ?thesis
    proof (cases "y \<in> set (deps_of m x)")
      case True
      with y(2) have "(x, tid) \<in> (dep_rel m)\<^sup>*"
        by (auto simp: dep_rel_def intro: converse_rtrancl_into_rtrancl)
      then show ?thesis by simp
    qed (use y in auto)
  qed
qed simp

lemma detect_walk_Some:
  "detect_walk m tid xs vs = Some vs' \<Longrightarrow> tid \<notin> set vs \<Longrightarrow>
   tid \<notin> set vs' \<and> set xs \<union> set vs \<subseteq> set vs' \<and>
   (\<forall>y \<in> set vs' - set vs. set (deps_of m y) \<subseteq> set vs')"
proof (induction m tid xs vs rule: detect_walk.induct)
  case (2 m tid x xs vs)
  show ?case
  proof (cases "x = tid \<or> x \<in> set vs")
    case True
    with 2 show ?thesis by (auto split: if_splits)
  next
    case False
    with 2 have ih: "tid \<notin> set vs' \<and> set (deps_of m x @ xs) \<union> set (x # vs) \<subseteq> set vs' \<and>
        (\<forall>y \<in> set vs' - set (x # vs). set (deps_of m y) \<subseteq> set vs')"
      by auto
    then show ?thesis by (metis Diff_iff Un_subset_iff list.simps(15) insert_iff insert_subset set_append)
  qed
qed simp

lemma detectCycle_iff:
  "detectCycle m tid newDeps \<longleftrightarrow> (\<exists>d\<in>set newDeps. (d, tid) \<in> (dep_rel m)\<^sup>*)"
proof
  assume "detectCycle m tid newDeps"
  then show "\<exists>d\<in>set newDeps. (d, tid) \<in> (dep_rel m)\<^sup>*"
    unfolding detectCycle_def by (rule detect_walk_None)
next
  assume "\<exists>d\<in>set newDeps. (d, tid) \<in> (dep_rel m)\<^sup>*"
  then obtain d where d: "d \<in> set newDeps" "(d, tid) \<in> (dep_rel m)\<^sup>*" by blast
  show "detectCycle m tid newDeps"
  proof (rule ccontr)
    assume "\<not> detectCycle m tid newDeps"
    then obtain vs where "detect_walk m tid newDeps [] = Some vs" by (auto simp: detectCycle_def)
    from detect_walk_Some [OF this] have vs: "tid \<notin> set vs" "set newDeps \<subseteq> set vs"
      "\<And>y. y \<in> set vs \<Longrightarrow> set (deps_of m y) \<subseteq> set vs" by auto
    from d(2) vs(3) have "d \<in> set vs \<Longrightarrow> tid \<in> set vs"
      by (induction rule: rtrancl_induct) (auto simp: dep_rel_def)
    with d(1) vs(1,2) show False by blast
  qed
qed

section \<open>The abstract state machine\<close>

text \<open>
  What the manager may do to the task map: add a fresh task, edit one task in place, or
  remove tasks together with their sub-tasks. \<open>edit_ok\<close> is the contract of an edit.
\<close>

definition subtasks_terminal :: "task_map \<Rightarrow> string \<Rightarrow> bool" where
  "subtasks_terminal m i \<longleftrightarrow>
     (\<forall>k s. map_of m k = Some s \<longrightarrow> task_parentTaskId s = Some i \<longrightarrow> terminal (task_state s))"

definition edit_ok :: "task_map \<Rightarrow> task \<Rightarrow> task \<Rightarrow> bool" where
  "edit_ok m t t' \<longleftrightarrow>
     task_id t' = task_id t \<and> task_goalId t' = task_goalId t \<and>
     task_parentTaskId t' = task_parentTaskId t \<and> task_createdAt t' = task_createdAt t \<and>
     task_updatedAt t < task_updatedAt t' \<and>
     (task_state t' = task_state t \<and> task_completedAt t' = task_completedAt t \<or>
      isValidTransition (task_state t) (task_state t') \<and>
      task_completedAt t' =
        (if terminal (task_state t') then Some (task_updatedAt t') else task_completedAt t)) \<and>
     (task_state t' = Complete \<longrightarrow> task_state t \<noteq> Complete \<longrightarrow> subtasks_terminal m (task_id t)) \<and>
     (task_dependsOn t' = task_dependsOn t \<or>
      \<not> detectCycle m (task_id t) (or_empty (task_dependsOn t')) \<and>
      set (or_empty (task_dependsOn t')) \<subseteq> fst ` set m)"

definition fresh_id :: "task_map \<Rightarrow> string \<Rightarrow> bool" where
  "fresh_id m i \<longleftrightarrow> i \<noteq> [] \<and> i \<notin> fst ` set m \<and> (\<forall>x. i \<notin> set (deps_of m x))"

inductive task_step :: "task_map \<Rightarrow> task_map \<Rightarrow> bool" where
  create: "fresh_id m (task_id t) \<Longrightarrow> task_state t = Todo \<Longrightarrow> task_completedAt t = None \<Longrightarrow>
    task_createdAt t = task_updatedAt t \<Longrightarrow>
    (\<And>p. task_parentTaskId t = Some p \<Longrightarrow> p \<noteq> [] \<Longrightarrow>
      \<exists>pt. map_of m p = Some pt \<and> \<not> truthy (task_parentTaskId pt) \<and> task_goalId pt = task_goalId t) \<Longrightarrow>
    set (or_empty (task_dependsOn t)) \<subseteq> fst ` set m \<Longrightarrow>
    task_step m (AList.update (task_id t) t m)"
| edit: "map_of m (task_id t) = Some t \<Longrightarrow> edit_ok m t t' \<Longrightarrow>
    task_step m (AList.update (task_id t) t' m)"
| delete: "(\<And>k t p. map_of m k = Some t \<Longrightarrow> task_parentTaskId t = Some p \<Longrightarrow> p \<in> set is \<Longrightarrow>
      p \<noteq> [] \<Longrightarrow> k \<in> set is) \<Longrightarrow>
    task_step m (remove_keys is m)"

inductive_cases task_stepE: "task_step m m'"

section \<open>The well-formedness invariant\<close>

definition parent_ok :: "task_map \<Rightarrow> task \<Rightarrow> bool" where
  "parent_ok m t \<longleftrightarrow>
     (\<forall>p. task_parentTaskId t = Some p \<longrightarrow> p \<noteq> [] \<longrightarrow>
       (\<exists>pt. map_of m p = Some pt \<and> \<not> truthy (task_parentTaskId pt) \<and> task_goalId pt = task_goalId t))"

definition good_task :: "task_map \<Rightarrow> string \<Rightarrow> task \<Rightarrow> bool" where
  "good_task m k t \<longleftrightarrow>
     task_id t = k \<and> k \<noteq> [] \<and> parent_ok m t \<and> (task_completedAt t \<noteq> None \<longleftrightarrow> terminal (task_state t)) \<and>
     task_createdAt t \<le> task_updatedAt t"

definition task_wf :: "task_map \<Rightarrow> bool" where
  "task_wf m \<longleftrightarrow> distinct (map fst m) \<and> alist_store.every (good_task m) m \<and> acyclic (dep_rel m)"

lemma task_wfD:
  assumes "task_wf m" and "map_of m k = Some t"
  shows "task_id t = k" "k \<noteq> []" "parent_ok m t" "task_completedAt t \<noteq> None \<longleftrightarrow> terminal (task_state t)"
    "task_createdAt t \<le> task_updatedAt t"
  using assms by (auto simp: task_wf_def alist_store.every_def good_task_def)

lemma deps_of_update [js_map]:
  "deps_of (AList.update i t m) x = (if x = i then or_empty (task_dependsOn t) else deps_of m x)"
  by (simp add: deps_of_def)

lemma deps_of_remove [js_map]:
  "deps_of (remove_keys is m) x = (if x \<in> set is then [] else deps_of m x)"
  by (simp add: deps_of_def)

text \<open>
  Replacing the outgoing edges of one node keeps an acyclic relation acyclic when no new
  target reaches the node.
\<close>

lemma acyclic_replace:
  assumes "acyclic r" and sub: "r' \<subseteq> {(x, y) \<in> r. x \<noteq> i} \<union> {i} \<times> D"
    and noreach: "\<And>d. d \<in> D \<Longrightarrow> (d, i) \<notin> r\<^sup>*"
  shows "acyclic r'"
proof (rule acyclicI, intro allI notI)
  fix x assume cyc: "(x, x) \<in> r'\<^sup>+"
  have "(a, b) \<in> r\<^sup>+ \<or> (a, i) \<in> r\<^sup>* \<and> (\<exists>d\<in>D. (d, b) \<in> r\<^sup>*)" if "(a, b) \<in> r'\<^sup>+" for a b
    using that
  proof (induction rule: trancl_induct)
    case (base y)
    then show ?case using sub by auto
  next
    case (step y z)
    then consider "(y, z) \<in> r" | "y = i" "z \<in> D" using sub by auto
    then show ?case
    proof cases
      case 1
      with step.IH show ?thesis by (meson rtrancl.rtrancl_into_rtrancl trancl_into_trancl)
    next
      case 2
      with step.IH noreach show ?thesis by (metis rtrancl.rtrancl_refl trancl_into_rtrancl)
    qed
  qed
  from this [OF cyc] assms(1) noreach show False
    by (meson acyclic_def rtrancl_trans)
qed

lemma acyclic_dep_rel_update:
  assumes "acyclic (dep_rel m)"
    and "\<And>d. d \<in> set (or_empty (task_dependsOn t)) \<Longrightarrow> (d, i) \<notin> (dep_rel m)\<^sup>*"
  shows "acyclic (dep_rel (AList.update i t m))"
  by (rule acyclic_replace [OF assms(1), of _ i "set (or_empty (task_dependsOn t))"])
    (use assms(2) in \<open>auto simp: dep_rel_def js_map split: if_splits\<close>)

lemma dep_rel_update_same:
  "map_of m i = Some t \<Longrightarrow> task_dependsOn t' = task_dependsOn t \<Longrightarrow>
   dep_rel (AList.update i t' m) = dep_rel m"
proof -
  assume "map_of m i = Some t" "task_dependsOn t' = task_dependsOn t"
  then have "deps_of (AList.update i t' m) x = deps_of m x" for x
    by (cases "x = i") (simp_all add: deps_of_def)
  then show ?thesis by (simp add: dep_rel_def)
qed

lemma acyclic_dep_rel_remove: "acyclic (dep_rel m) \<Longrightarrow> acyclic (dep_rel (remove_keys is m))"
  by (erule acyclic_subset) (auto simp: dep_rel_def js_map split: if_splits)

lemma fresh_not_reached:
  assumes "fresh_id m i" and "(d, i) \<in> (dep_rel m)\<^sup>*"
  shows "d = i"
  using assms(2) by (rule rtranclE) (use assms(1) in \<open>auto simp: fresh_id_def dep_rel_def\<close>)

lemma good_task_mono:
  assumes "good_task m k t"
    and "\<And>p pt. task_parentTaskId t = Some p \<Longrightarrow> map_of m p = Some pt \<Longrightarrow>
      \<exists>pt'. map_of m' p = Some pt' \<and> task_parentTaskId pt' = task_parentTaskId pt \<and>
        task_goalId pt' = task_goalId pt"
  shows "good_task m' k t"
  using assms unfolding good_task_def parent_ok_def by metis

lemma task_step_wf: "task_step m m' \<Longrightarrow> task_wf m \<Longrightarrow> task_wf m'"
proof (induction rule: task_step.induct)
  case (create m t)
  let ?m = "AList.update (task_id t) t m"
  have fresh: "map_of m (task_id t) = None" "task_id t \<noteq> []"
    using create.hyps(1) by (auto simp: fresh_id_def map_of_None_key)
  have "alist_store.every (good_task ?m) ?m"
    unfolding alist_store.every_def
  proof (intro allI impI)
    fix k s assume s: "map_of ?m k = Some s"
    show "good_task ?m k s"
    proof (cases "k = task_id t")
      case True
      with s create.hyps fresh show ?thesis
        by (auto simp: good_task_def parent_ok_def terminal_def)
    next
      case False
      with s create.prems have "good_task m k s" by (simp add: task_wf_def alist_store.every_def)
      then show ?thesis by (rule good_task_mono) (use fresh in auto)
    qed
  qed
  moreover have "acyclic (dep_rel ?m)"
  proof (rule acyclic_dep_rel_update)
    show "acyclic (dep_rel m)" using create.prems by (simp add: task_wf_def)
    fix d assume "d \<in> set (or_empty (task_dependsOn t))"
    then have "d \<noteq> task_id t" using create.hyps(1,6) by (auto simp: fresh_id_def)
    then show "(d, task_id t) \<notin> (dep_rel m)\<^sup>*" using fresh_not_reached create.hyps(1) by blast
  qed
  ultimately show ?case using create.prems by (simp add: task_wf_def)
next
  case (edit m t t')
  let ?m = "AList.update (task_id t) t' m"
  note ok = edit.hyps(2) [unfolded edit_ok_def]
  note good = task_wfD [OF edit.prems edit.hyps(1)]
  have "good_task m (task_id t) t'"
    using ok good
    by (auto simp: good_task_def parent_ok_def terminal_def isValidTransition_def split: if_splits)
  have "alist_store.every (good_task ?m) ?m"
    unfolding alist_store.every_def
  proof (intro allI impI)
    fix k s assume "map_of ?m k = Some s"
    then have "good_task m k s"
      using \<open>good_task m (task_id t) t'\<close> edit.prems
      by (auto simp: task_wf_def alist_store.every_def split: if_splits)
    then show "good_task ?m k s"
      by (rule good_task_mono) (use ok edit.hyps(1) in auto)
  qed
  moreover have "acyclic (dep_rel ?m)"
  proof (cases "task_dependsOn t' = task_dependsOn t")
    case True
    with edit show ?thesis by (simp add: dep_rel_update_same task_wf_def)
  next
    case False
    with ok edit.prems show ?thesis
      by (intro acyclic_dep_rel_update) (auto simp: task_wf_def detectCycle_iff)
  qed
  ultimately show ?case using edit.prems by (simp add: task_wf_def)
next
  case (delete m "is")
  let ?m = "remove_keys is m"
  have "alist_store.every (good_task ?m) ?m"
    unfolding alist_store.every_def
  proof (intro allI impI)
    fix k s assume s: "map_of ?m k = Some s"
    then have k: "k \<notin> set is" "map_of m k = Some s" by (auto split: if_splits)
    then have "good_task m k s" using delete.prems by (simp add: task_wf_def alist_store.every_def)
    with k delete.hyps show "good_task ?m k s"
      by (fastforce simp: good_task_def parent_ok_def)
  qed
  with delete.prems show ?case
    by (simp add: task_wf_def distinct_remove_keys acyclic_dep_rel_remove)
qed


section \<open>The operations implement the abstract machine\<close>

lemma update_twice: "AList.update k v (AList.update k w m) = AList.update k v m"
  by (induction m) auto

lemma commitTask_tasks:
  "commitTask t facts v st = (r, st') \<Longrightarrow>
   tasks st' = (if acceptingMutations st then AList.update (task_id t) t (tasks st) else tasks st)"
  using putCommitted_tasks
  by (fastforce simp: commitTask_def split: prod.splits sum.splits if_splits)

lemma commit_in_place:
  "commitTask t facts v (mutate t st) = (r, st') \<Longrightarrow>
   tasks st' = AList.update (task_id t) t (tasks st)"
  by (drule commitTask_tasks) (simp add: update_twice split: if_splits)

lemma incomplete_none:
  "incomplete_subtasks st i = [] \<Longrightarrow> subtasks_terminal (tasks st) i"
  unfolding subtasks_terminal_def incomplete_subtasks_def getByParentTaskId_def getAll_def terminal_def
  by (force simp: filter_empty_conv dest!: map_of_SomeD)

lemma check_deps_exist_None:
  "check_deps_exist st ds = None \<longleftrightarrow> set ds \<subseteq> fst ` set (tasks st)"
  by (induction ds) (auto simp: get_def map_of_None_key)

lemma monotonicNow_less [simp]: "prev < monotonicNow now prev"
  by (simp add: monotonicNow_def)

lemma check_state_update_None:
  assumes "check_state_update st i t u = None" and "upd_state u = Some s" and "s \<noteq> task_state t"
  shows "isValidTransition (task_state t) s"
    and "s = Complete \<Longrightarrow> subtasks_terminal (tasks st) i"
  using assms incomplete_none by (auto simp: check_state_update_def split: if_splits)

lemma updateTask_edit_ok:
  assumes "check_state_update st (task_id t) t u = None"
    and "check_deps_update st (task_id t) u = None"
    and "completedAt = (if upd_state u \<noteq> None \<and> upd_state u \<noteq> Some (task_state t) \<and>
        terminal (the (upd_state u)) then Some (monotonicNow now (task_updatedAt t)) else None)"
  shows "edit_ok (tasks st) t (assign_updates u completedAt (monotonicNow now (task_updatedAt t)) t)"
    (is "edit_ok _ t ?t")
proof -
  have "task_dependsOn ?t = task_dependsOn t \<or>
      \<not> detectCycle (tasks st) (task_id t) (or_empty (task_dependsOn ?t)) \<and>
      set (or_empty (task_dependsOn ?t)) \<subseteq> fst ` set (tasks st)"
  proof (cases "upd_dependsOn u")
    case None
    then show ?thesis by (simp add: assign_updates_def or_keep_opt_def)
  next
    case (Some ds)
    with assms(2) have "check_deps_exist st ds = None" "\<not> detectCycle (tasks st) (task_id t) ds"
      by (auto simp: check_deps_update_def split: option.splits if_splits)
    with Some show ?thesis by (simp add: assign_updates_def or_keep_opt_def check_deps_exist_None)
  qed
  moreover have "task_state ?t = task_state t \<and> task_completedAt ?t = task_completedAt t \<or>
      isValidTransition (task_state t) (task_state ?t) \<and> task_completedAt ?t =
        (if terminal (task_state ?t) then Some (task_updatedAt ?t) else task_completedAt t)"
    using assms(3) check_state_update_None(1) [OF assms(1)]
    by (auto simp: assign_updates_def or_keep_def or_keep_opt_def split: option.splits)
  moreover have "task_state ?t = Complete \<longrightarrow> task_state t \<noteq> Complete \<longrightarrow>
      subtasks_terminal (tasks st) (task_id t)"
    using check_state_update_None(2) [OF assms(1)]
    by (auto simp: assign_updates_def or_keep_def split: option.splits)
  moreover have "task_id ?t = task_id t" "task_goalId ?t = task_goalId t"
    "task_parentTaskId ?t = task_parentTaskId t" "task_createdAt ?t = task_createdAt t"
    "task_updatedAt t < task_updatedAt ?t"
    by (simp_all add: assign_updates_def)
  ultimately show ?thesis unfolding edit_ok_def by blast
qed

lemma normal_deps_state [simp]: "upd_state (normal_deps i u) = upd_state u"
  by (simp add: normal_deps_def)

lemma check_state_normal [simp]:
  "check_state_update st i t (normal_deps i' u) = check_state_update st i t u"
  by (simp add: check_state_update_def)

text \<open>How one task can change: its identity is fixed, its state only moves along the table.\<close>

definition evolves :: "task \<Rightarrow> task \<Rightarrow> bool" where
  "evolves t t' \<longleftrightarrow>
     task_id t' = task_id t \<and> task_goalId t' = task_goalId t \<and>
     task_parentTaskId t' = task_parentTaskId t \<and> task_createdAt t' = task_createdAt t \<and>
     (task_state t, task_state t') \<in> {(a, b). isValidTransition a b}\<^sup>* \<and>
     (t' \<noteq> t \<longrightarrow> task_updatedAt t < task_updatedAt t')"

lemma evolves_refl [simp]: "evolves t t"
  by (simp add: evolves_def)

lemma evolves_trans: "evolves a b \<Longrightarrow> evolves b c \<Longrightarrow> evolves a c"
  unfolding evolves_def by (auto intro: rtrancl_trans)

lemma edit_evolves: "edit_ok m t t' \<Longrightarrow> evolves t t'"
  by (auto simp: evolves_def edit_ok_def)

lemma step_evolves:
  "task_step m m' \<Longrightarrow> map_of m i = Some t \<Longrightarrow> map_of m' i = None \<or> (\<exists>t'. map_of m' i = Some t' \<and> evolves t t')"
  by (erule task_stepE) (auto simp: fresh_id_def edit_evolves map_of_None_key [symmetric])

definition map_evolves :: "task_map \<Rightarrow> task_map \<Rightarrow> bool" where
  "map_evolves m m' \<longleftrightarrow>
     (\<forall>i t t'. map_of m i = Some t \<longrightarrow> map_of m' i = Some t' \<longrightarrow> evolves t t')"

text \<open>A call makes at most one transition of each task, though it may be two steps of the machine.\<close>

definition moves :: "task_map \<Rightarrow> task_map \<Rightarrow> bool" where
  "moves m m' \<longleftrightarrow>
     (\<forall>i t t'. map_of m i = Some t \<longrightarrow> map_of m' i = Some t' \<longrightarrow>
        task_state t' = task_state t \<or> isValidTransition (task_state t) (task_state t'))"

lemma step_moves: "task_step m m' \<Longrightarrow> moves m m'"
  by (erule task_stepE)
    (auto simp: moves_def fresh_id_def edit_ok_def map_of_None_key [symmetric] split: if_splits)

definition steps_to :: "task_store \<Rightarrow> task_store \<Rightarrow> bool" where
  "steps_to st st' \<longleftrightarrow>
     task_step\<^sup>*\<^sup>* (tasks st) (tasks st') \<and> map_evolves (tasks st) (tasks st') \<and> moves (tasks st) (tasks st')"

lemma steps_refl: "tasks st' = tasks st \<Longrightarrow> steps_to st st'"
  by (simp add: steps_to_def map_evolves_def moves_def)

lemma steps_one: "task_step (tasks st) (tasks st') \<Longrightarrow> steps_to st st'"
  using step_evolves step_moves by (fastforce simp: steps_to_def map_evolves_def)

lemma steps_edit:
  assumes "task_wf (tasks st)" and "get st i = Some t" and "edit_ok (tasks st) t t'"
    and "tasks st' = AList.update (task_id t') t' (tasks st)"
  shows "steps_to st st'"
proof -
  have "task_id t = i" using assms(1,2) by (simp add: get_def task_wfD)
  moreover have "task_id t' = task_id t" using assms(3) by (simp add: edit_ok_def)
  ultimately have "task_step (tasks st) (tasks st')"
    using task_step.edit [of "tasks st" t t'] assms(2-4) by (simp add: get_def)
  then show ?thesis by (rule steps_one)
qed

lemma steps_commit:
  assumes "task_wf (tasks st)" and "get st i = Some t"
    and "commitTask t' facts v (mutate t' st) = (r, st')" and "edit_ok (tasks st) t t'"
  shows "steps_to st st'"
  by (rule steps_edit [OF assms(1,2,4) commit_in_place [OF assms(3)]])

lemma updateTask_steps:
  assumes wf: "task_wf (tasks st)" and up: "updateTask now i u st = (r, st')"
  shows "steps_to st st'"
proof (cases "get st i")
  case None
  with up show ?thesis by (simp add: updateTask_def steps_refl)
next
  case (Some t)
  then have i: "task_id t = i" using wf by (simp add: get_def task_wfD)
  let ?u = "normal_deps i u"
  consider "tasks st' = tasks st"
    | completedAt facts where
      "check_state_update st i t u = None" "check_deps_update st i ?u = None"
      "completedAt = (if upd_state ?u \<noteq> None \<and> upd_state ?u \<noteq> Some (task_state t) \<and>
        terminal (the (upd_state ?u)) then Some (monotonicNow now (task_updatedAt t)) else None)"
      "commitTask (assign_updates ?u completedAt (monotonicNow now (task_updatedAt t)) t) facts True
        (mutate (assign_updates ?u completedAt (monotonicNow now (task_updatedAt t)) t) st) = (r, st')"
    using up Some
    by (auto simp: updateTask_def Let_def split: option.splits if_splits)
  then show ?thesis
  proof cases
    case 1
    then show ?thesis by (rule steps_refl)
  next
    case (2 completedAt facts)
    have "edit_ok (tasks st) t
        (assign_updates ?u completedAt (monotonicNow now (task_updatedAt t)) t)"
      by (rule updateTask_edit_ok) (use 2 i in simp_all)
    then show ?thesis by (rule steps_edit [OF wf Some _ commit_in_place [OF 2(4)]])
  qed
qed

lemma start_edit_ok:
  "task_state p = Todo \<Longrightarrow>
   edit_ok m p (p\<lparr>task_state := InProgress, task_updatedAt := monotonicNow now (task_updatedAt p)\<rparr>)"
  by (simp add: edit_ok_def isValidTransition_def terminal_def)

lemma start_parent_steps:
  assumes wf: "task_wf (tasks st)" and s: "start_parent now t st = (r, st')"
  shows "steps_to st st'"
proof (cases "\<exists>p. truthy (task_parentTaskId t) \<and> get st (the (task_parentTaskId t)) = Some p \<and>
    task_state p = Todo")
  case False
  with s show ?thesis
    by (auto simp: start_parent_def intro: steps_refl split: if_splits option.splits)
next
  case True
  then obtain p where p: "truthy (task_parentTaskId t)"
    "get st (the (task_parentTaskId t)) = Some p" "task_state p = Todo" by blast
  from s p show ?thesis
    by (simp add: start_parent_def Let_def) (rule steps_commit [OF wf p(2) _ start_edit_ok [OF p(3)]])
qed

lemma task_steps_wf: "task_step\<^sup>*\<^sup>* m m' \<Longrightarrow> task_wf m \<Longrightarrow> task_wf m'"
  by (induction rule: rtranclp_induct) (auto intro: task_step_wf)

lemma steps_to_wf: "steps_to st st' \<Longrightarrow> task_wf (tasks st) \<Longrightarrow> task_wf (tasks st')"
  by (auto simp: steps_to_def intro: task_steps_wf)

lemma steps_to_trans:
  assumes "steps_to a b" and "steps_to b c" and "fst ` set (tasks a) \<subseteq> fst ` set (tasks b)"
    and "moves (tasks a) (tasks c)"
  shows "steps_to a c"
proof -
  have "evolves t t'" if "map_of (tasks a) i = Some t" "map_of (tasks c) i = Some t'" for i t t'
  proof -
    from that assms(3) have "i \<in> fst ` set (tasks b)" by (force dest: map_of_SomeD)
    then obtain s where "map_of (tasks b) i = Some s"
      by (metis map_of_eq_None_iff not_Some_eq)
    with that assms(1,2) show ?thesis unfolding steps_to_def map_evolves_def
      by (metis evolves_trans)
  qed
  then have "map_evolves (tasks a) (tasks c)" by (simp add: map_evolves_def)
  with assms(1,2,4) show ?thesis by (auto simp: steps_to_def)
qed

lemma start_parent_keeps:
  assumes "task_wf (tasks st)" and "start_parent now t st = (r, st')" and "get st k = Some s" and "task_state s \<noteq> Todo"
  shows "get st' k = Some s"
proof (cases "\<exists>p. truthy (task_parentTaskId t) \<and> get st (the (task_parentTaskId t)) = Some p \<and> task_state p = Todo")
  case False
  with assms(2,3) show ?thesis by (auto simp: start_parent_def split: if_splits option.splits)
next
  case True
  then obtain p where p: "truthy (task_parentTaskId t)" "get st (the (task_parentTaskId t)) = Some p" "task_state p = Todo"
    by blast
  let ?p = "p\<lparr>task_state := InProgress, task_updatedAt := monotonicNow now (task_updatedAt p)\<rparr>"
  obtain facts where "commitTask ?p facts True (mutate ?p st) = (r, st')" using assms(2) p by (auto simp: start_parent_def Let_def)
  then have "tasks st' = AList.update (task_id ?p) ?p (tasks st)" by (rule commit_in_place)
  moreover have "task_id p = the (task_parentTaskId t)" using assms(1) p(2) by (simp add: get_def task_wfD)
  moreover have "k \<noteq> task_id p" using assms(3,4) p(2,3) calculation(2) by auto
  ultimately show ?thesis using assms(3) by (simp add: get_def update_conv')
qed

lemma assign_edit_ok:
  "edit_ok m t (assign_in_place now s t)"
  by (auto simp: edit_ok_def assign_in_place_def isValidTransition_def terminal_def)

lemma assignTask_steps:
  assumes wf: "task_wf (tasks st)" and as: "assignTask now now2 i s st = (r, st')"
  shows "steps_to st st'"
proof (cases "get st i")
  case None
  with as show ?thesis by (simp add: assignTask_def steps_refl)
next
  case (Some t)
  let ?t = "assign_in_place now s t"
  consider "start_parent now2 t st = (r, st')"
    | facts e st1 where "commitTask ?t facts () (mutate ?t st) = (Inl e, st1)" "st' = st1"
    | facts st1 where "commitTask ?t facts () (mutate ?t st) = (Inr (), st1)"
        "start_parent now2 ?t st1 = (r, st')"
    using as Some
    by (auto simp: assignTask_def Let_def split: if_splits prod.splits sum.splits)
  then show ?thesis
  proof cases
    case 1
    then show ?thesis by (rule start_parent_steps [OF wf])
  next
    case 2
    then show ?thesis by (simp add: steps_commit [OF wf Some _ assign_edit_ok])
  next
    case 3
    have s1: "steps_to st st1" by (rule steps_commit [OF wf Some 3(1) assign_edit_ok])
    have wf1: "task_wf (tasks st1)" by (rule steps_to_wf [OF s1 wf])
    have st1: "tasks st1 = AList.update i ?t (tasks st)"
      using commit_in_place [OF 3(1)] wf Some by (simp add: assign_in_place_def get_def task_wfD)
    have s2: "steps_to st1 st'" by (rule start_parent_steps [OF wf1 3(2)])
    have "get st' i = Some ?t"
      by (rule start_parent_keeps [OF wf1 3(2)]) (auto simp: get_def st1 update_conv' assign_in_place_def)
    then have "moves (tasks st) (tasks st')"
      using s1 s2 st1 Some unfolding steps_to_def moves_def get_def by (auto simp: update_conv') metis+
    moreover have "fst ` set (tasks st) \<subseteq> fst ` set (tasks st1)" using st1 by (auto simp: dom_update)
    ultimately show ?thesis using steps_to_trans [OF s1 s2] by blast
  qed
qed

lemma completeTask_steps:
  assumes wf: "task_wf (tasks st)" and c: "completeTask now i st = (r, st')"
  shows "steps_to st st'"
proof (cases "\<exists>t. get st i = Some t \<and> isValidTransition (task_state t) Complete \<and>
    incomplete_subtasks st i = []")
  case False
  with c show ?thesis
    by (auto simp: completeTask_def intro: steps_refl split: option.splits if_splits)
next
  case True
  then obtain t where t: "get st i = Some t" "isValidTransition (task_state t) Complete"
    "incomplete_subtasks st i = []" by blast
  let ?n = "monotonicNow now (task_updatedAt t)"
  let ?t = "t\<lparr>task_state := Complete, task_completedAt := Some ?n, task_updatedAt := ?n\<rparr>"
  have "task_id t = i" using wf t(1) by (simp add: get_def task_wfD)
  then have ok: "edit_ok (tasks st) t ?t"
    using t incomplete_none by (simp add: edit_ok_def terminal_def)
  obtain facts where "commitTask ?t facts True (mutate ?t st) = (r, st')"
    using c t by (simp add: completeTask_def Let_def)
  then show ?thesis by (rule steps_commit [OF wf t(1) _ ok])
qed

lemma transitionTask_steps:
  assumes wf: "task_wf (tasks st)" and c: "transitionTask now i s st = (r, st')"
  shows "steps_to st st'"
proof (cases "\<exists>t. get st i = Some t \<and> task_state t \<noteq> s \<and> isValidTransition (task_state t) s")
  case False
  with c show ?thesis
    by (auto simp: transitionTask_def intro: steps_refl split: option.splits if_splits)
next
  case True
  then obtain t where t: "get st i = Some t" "task_state t \<noteq> s" "isValidTransition (task_state t) s"
    by blast
  show ?thesis
  proof (cases "s = Complete")
    case True
    with c t have "completeTask now i st = (r, st')" by (simp add: transitionTask_def)
    then show ?thesis by (rule completeTask_steps [OF wf])
  next
    case False
    let ?n = "monotonicNow now (task_updatedAt t)"
    let ?t = "t\<lparr>task_state := s, task_updatedAt := ?n,
        task_completedAt := (if s = Skipped then Some ?n else task_completedAt t)\<rparr>"
    have ok: "edit_ok (tasks st) t ?t"
      using t(3) False by (simp add: edit_ok_def terminal_def)
    obtain facts where "commitTask ?t facts True (mutate ?t st) = (r, st')"
      using c t False by (auto simp: transitionTask_def Let_def)
    then show ?thesis by (rule steps_commit [OF wf t(1) _ ok])
  qed
qed

lemma createTask_steps:
  assumes wf: "task_wf (tasks st)" and fresh: "fresh_id (tasks st) uuid"
    and c: "createTask uuid now goalId title ty opts st = (r, st')"
  shows "steps_to st st'"
proof (cases "check_parent st goalId (opt_parentTaskId opts) = None \<and>
    check_deps_exist st (js_uniq (or_empty (opt_dependsOn opts))) = None \<and> acceptingMutations st")
  case False
  with c show ?thesis
    by (auto simp: createTask_def Let_def intro!: steps_refl dest!: commitTask_tasks
        split: option.splits if_splits)
next
  case True
  let ?t = "new_task uuid goalId title ty opts now"
  have deps: "set (or_empty (task_dependsOn ?t)) \<subseteq> fst ` set (tasks st)"
    using True by (cases "opt_dependsOn opts") (auto simp: new_task_def check_deps_exist_None)
  have "task_step (tasks st) (AList.update (task_id ?t) ?t (tasks st))"
  proof (rule task_step.create)
    fix p assume "task_parentTaskId ?t = Some p" "p \<noteq> []"
    then show "\<exists>pt. map_of (tasks st) p = Some pt \<and> \<not> truthy (task_parentTaskId pt) \<and>
        task_goalId pt = task_goalId ?t"
      using True by (auto simp: new_task_def check_parent_def get_def split: option.splits if_splits)
  qed (use fresh deps in \<open>simp_all add: new_task_def\<close>)
  with c True show ?thesis
    by (auto simp: createTask_def Let_def intro!: steps_one dest!: commitTask_tasks)
qed

lemma removeMany_steps:
  assumes "removeMany is st = (r, st')"
    and "\<And>k t p. map_of (tasks st) k = Some t \<Longrightarrow> task_parentTaskId t = Some p \<Longrightarrow> p \<in> set is \<Longrightarrow>
      p \<noteq> [] \<Longrightarrow> k \<in> set is"
  shows "steps_to st st'"
proof -
  have "task_step (tasks st) (remove_keys is (tasks st))" using assms(2) by (rule task_step.delete)
  then show ?thesis using removeMany_tasks [OF assms(1)]
    by (auto intro: steps_one steps_refl split: if_splits)
qed

lemma getAll_get:
  assumes "task_wf (tasks st)" and "s \<in> set (getAll st)"
  shows "map_of (tasks st) (task_id s) = Some s"
proof -
  from assms obtain k where "map_of (tasks st) k = Some s"
    by (auto simp: task_wf_def getAll_def dest: map_of_is_SomeI)
  with task_wfD(1) [OF assms(1)] show ?thesis by blast
qed

lemma get_getAll: "map_of (tasks st) k = Some t \<Longrightarrow> t \<in> set (getAll st)"
  by (force simp: getAll_def dest: map_of_SomeD)

lemma deleteTask_steps:
  assumes wf: "task_wf (tasks st)" and d: "deleteTask i st = (r, st')"
  shows "steps_to st st'"
proof (cases "get st i")
  case None
  with d show ?thesis by (simp add: deleteTask_def steps_refl)
next
  case (Some t0)
  then have i: "i \<noteq> []" using wf by (simp add: get_def task_wfD)
  let ?is = "map task_id (getByParentTaskId st i) @ [i]"
  obtain r1 where "removeMany ?is st = (r1, st')"
    using d Some by (auto simp: deleteTask_def split: prod.splits sum.splits)
  then show ?thesis
  proof (rule removeMany_steps)
    fix k t p
    assume t: "map_of (tasks st) k = Some t" "task_parentTaskId t = Some p" "p \<in> set ?is" "p \<noteq> []"
    have "p = i"
    proof (rule ccontr)
      assume "p \<noteq> i"
      then obtain s where s: "s \<in> set (getAll st)" "task_parentTaskId s = Some i" "task_id s = p"
        using t(3) by (auto simp: getByParentTaskId_def)
      then have "map_of (tasks st) p = Some s" using getAll_get [OF wf] by blast
      moreover obtain pt where "map_of (tasks st) p = Some pt" "\<not> truthy (task_parentTaskId pt)"
        using task_wfD(3) [OF wf t(1)] t(2,4) by (auto simp: parent_ok_def)
      ultimately show False using s(2) i by simp
    qed
    then show "k \<in> set ?is"
      using t(2) task_wfD(1) [OF wf t(1)] get_getAll [OF t(1)] by (auto simp: getByParentTaskId_def)
  qed
qed

lemma deleteTasksForGoal_steps:
  assumes wf: "task_wf (tasks st)" and d: "deleteTasksForGoal g st = (r, st')"
  shows "steps_to st st'"
proof -
  have goal: "k \<in> set (map task_id (getByGoalId st g)) \<longleftrightarrow> task_goalId t = g"
    if "map_of (tasks st) k = Some t" for k t
  proof
    assume "k \<in> set (map task_id (getByGoalId st g))"
    then obtain s where "s \<in> set (getAll st)" "task_id s = k" "task_goalId s = g"
      by (auto simp: getByGoalId_def)
    with getAll_get [OF wf] that show "task_goalId t = g" by force
  next
    assume "task_goalId t = g"
    then show "k \<in> set (map task_id (getByGoalId st g))"
      using get_getAll [OF that] task_wfD(1) [OF wf that] by (force simp: getByGoalId_def)
  qed
  show ?thesis
    using d unfolding deleteTasksForGoal_def
  proof (rule removeMany_steps)
    fix k t p
    assume t: "map_of (tasks st) k = Some t" "task_parentTaskId t = Some p"
      "p \<in> set (map task_id (getByGoalId st g))" "p \<noteq> []"
    from t obtain pt where "map_of (tasks st) p = Some pt" "task_goalId pt = task_goalId t"
      using task_wfD(3) [OF wf t(1)] by (auto simp: parent_ok_def)
    with t(3) have "task_goalId t = g" using goal by simp
    then show "k \<in> set (map task_id (getByGoalId st g))" using goal [OF t(1)] by blast
  qed
qed


section \<open>Runs of the manager\<close>

text \<open>A call of the manager, with the clock readings and the id it draws.\<close>

datatype task_op =
    OpCreate string int string string string create_opts
  | OpUpdate int string task_updates
  | OpDelete string
  | OpAssign int int string string
  | OpComplete int string
  | OpTransition int string task_state
  | OpDeleteGoal string

fun run_op :: "task_op \<Rightarrow> task_store \<Rightarrow> task_store" where
  "run_op (OpCreate uuid now g title ty opts) st = snd (createTask uuid now g title ty opts st)"
| "run_op (OpUpdate now i u) st = snd (updateTask now i u st)"
| "run_op (OpDelete i) st = snd (deleteTask i st)"
| "run_op (OpAssign now now2 i s) st = snd (assignTask now now2 i s st)"
| "run_op (OpComplete now i) st = snd (completeTask now i st)"
| "run_op (OpTransition now i s) st = snd (transitionTask now i s st)"
| "run_op (OpDeleteGoal g) st = snd (deleteTasksForGoal g st)"

fun op_fresh :: "task_op \<Rightarrow> task_store \<Rightarrow> bool" where
  "op_fresh (OpCreate uuid _ _ _ _ _) st = fresh_id (tasks st) uuid"
| "op_fresh _ st = True"

lemma run_op_steps:
  assumes "task_wf (tasks st)" and "op_fresh op st"
  shows "steps_to st (run_op op st)"
  using assms
  by (cases op)
    (auto intro: createTask_steps updateTask_steps deleteTask_steps assignTask_steps
      completeTask_steps transitionTask_steps deleteTasksForGoal_steps prod.collapse [symmetric])

inductive reachable_store :: "task_store \<Rightarrow> bool" where
  start: "tasks st = [] \<Longrightarrow> reachable_store st"
| call: "reachable_store st \<Longrightarrow> op_fresh op st \<Longrightarrow> reachable_store (run_op op st)"

lemma reachable_wf: "reachable_store st \<Longrightarrow> task_wf (tasks st)"
proof (induction rule: reachable_store.induct)
  case (start st)
  then show ?case
    by (simp add: task_wf_def alist_store.every_def dep_rel_def deps_of_def acyclic_def)
next
  case (call st op)
  then show ?case using run_op_steps steps_to_wf by blast
qed

section \<open>Correctness of the manager\<close>

lemma get_good: "task_wf (tasks st) \<Longrightarrow> get st i = Some t \<Longrightarrow> good_task (tasks st) i t"
  by (simp add: get_def task_wf_def alist_store.every_def)

text \<open>
  C1: In every store the manager can reach, with fresh ids, from an empty one, each task is
  stored under its own id, is nested at most one level deep under an existing parent of the
  same goal, carries a completion time exactly when it is complete or skipped, has an update
  time not before its creation time, and the dependencies form no cycle.
\<close>

theorem task_store_invariant:
  assumes "reachable_store st"
  shows "acyclic (dep_rel (tasks st)) \<and>
    (\<forall>i t. get st i = Some t \<longrightarrow>
       task_id t = i \<and> task_createdAt t \<le> task_updatedAt t \<and>
       (task_completedAt t \<noteq> None \<longleftrightarrow> task_state t = Complete \<or> task_state t = Skipped) \<and>
       (\<forall>p. task_parentTaskId t = Some p \<longrightarrow> p \<noteq> [] \<longrightarrow>
          (\<exists>pt. get st p = Some pt \<and> \<not> truthy (task_parentTaskId pt) \<and>
             task_goalId pt = task_goalId t)))"
proof -
  have wf: "task_wf (tasks st)" by (rule reachable_wf [OF assms])
  then have "acyclic (dep_rel (tasks st))" by (simp add: task_wf_def)
  with get_good [OF wf] show ?thesis
    unfolding good_task_def parent_ok_def terminal_def get_def by auto
qed

definition store0 :: task_store where
  "store0 = \<lparr>tasks = [], generation = 0, acceptingMutations = True, observed = True,
     committedFactBatch = None, scheduled = []\<rparr>"

definition opts0 :: create_opts where
  "opts0 = \<lparr>opt_parentTaskId = None, opt_spec = None, opt_dependsOn = None,
     opt_workflowGateId = None, opt_inputGateIds = None\<rparr>"

definition store1 :: task_store where
  "store1 = run_op (OpCreate ''t1'' 5 ''g'' ''T'' ''custom'' opts0) store0"

lemma store1_get: "get store1 ''t1'' = Some (new_task ''t1'' ''g'' ''T'' ''custom'' opts0 5)"
  by code_simp

lemma store1_reachable: "reachable_store store1"
  unfolding store1_def
  by (rule reachable_store.call [OF reachable_store.start])
    (simp_all add: store0_def fresh_id_def deps_of_def)

lemma task_store_invariant_witness: "acyclic (dep_rel (tasks store1))"
  using task_store_invariant [OF store1_reachable] by blast

text \<open>
  C15: Every call of the manager is a run of the abstract task machine: creations of a fresh
  well-parented task, edits along the transition table that keep the dependencies acyclic, and
  deletions that take all sub-tasks along. This holds for calls that throw too, including a call
  whose commit is refused after it has mutated the shared task object.
\<close>

theorem operations_refine_task_machine:
  assumes "task_wf (tasks st)" and "op_fresh op st"
  shows "task_step\<^sup>*\<^sup>* (tasks st) (tasks (run_op op st))"
  using run_op_steps [OF assms] by (simp add: steps_to_def)

lemma operations_refine_task_machine_witness:
  "task_step\<^sup>*\<^sup>* (tasks store1) (tasks (run_op (OpAssign 7 8 ''t1'' ''s1'') store1))"
  by (rule operations_refine_task_machine [OF reachable_wf [OF store1_reachable]]) simp

text \<open>
  C26: a call changes a task it does not delete only along the transition table: its id, goal,
  parent and creation time are fixed; its state stays or makes exactly one of the seven moves todo to
  in-progress or skipped, in-progress to complete, blocked or todo, blocked to in-progress or
  skipped, so that a complete or skipped task keeps its state for ever; and any change strictly
  increases the update time.
\<close>

theorem task_history:
  assumes "task_wf (tasks st)" and "op_fresh op st"
    and "get st i = Some t" and "get (run_op op st) i = Some t'"
  shows "task_id t' = task_id t \<and> task_goalId t' = task_goalId t \<and>
    task_parentTaskId t' = task_parentTaskId t \<and> task_createdAt t' = task_createdAt t \<and>
    (task_state t' = task_state t \<or>
     (task_state t, task_state t') \<in> {(Todo, InProgress), (Todo, Skipped), (InProgress, Complete),
        (InProgress, Blocked), (InProgress, Todo), (Blocked, InProgress), (Blocked, Skipped)}) \<and>
    (t' \<noteq> t \<longrightarrow> task_updatedAt t < task_updatedAt t')"
proof -
  from run_op_steps [OF assms(1,2)] assms(3,4) have e: "evolves t t'"
    and m: "task_state t' = task_state t \<or> isValidTransition (task_state t) (task_state t')"
    by (simp_all add: steps_to_def map_evolves_def moves_def get_def)
  from m have "task_state t' = task_state t \<or>
     (task_state t, task_state t') \<in> {(Todo, InProgress), (Todo, Skipped), (InProgress, Complete),
        (InProgress, Blocked), (InProgress, Todo), (Blocked, InProgress), (Blocked, Skipped)}"
    by (cases "task_state t"; cases "task_state t'") (simp_all add: isValidTransition_def)
  with e show ?thesis by (simp add: evolves_def)
qed

definition store2 :: task_store where
  "store2 = run_op (OpTransition 3 ''t1'' Skipped) store1"

lemma task_history_witness:
  "5 < task_updatedAt (the (get store2 ''t1'')) \<and> task_state (the (get store2 ''t1'')) = Skipped"
proof -
  have "get store2 ''t1'' = Some ((new_task ''t1'' ''g'' ''T'' ''custom'' opts0 5)
      \<lparr>task_state := Skipped, task_updatedAt := 6, task_completedAt := Some 6\<rparr>)"
    by code_simp
  then show ?thesis
    using task_history [of store1 "OpTransition 3 ''t1'' Skipped", OF reachable_wf [OF store1_reachable] _ store1_get]
    by (simp add: store2_def new_task_def)
qed

text \<open>
  The cycle check of a dependency update answers exactly whether some new dependency
  already reaches the task through the stored dependencies (a dependency on itself counts).
\<close>

theorem detectCycle_exact:
  "detectCycle m tid newDeps \<longleftrightarrow>
     (\<exists>d. d \<in> set newDeps \<and> (d, tid) \<in> {(x, y). \<exists>t. map_of m x = Some t \<and> y \<in> set (or_empty (task_dependsOn t))}\<^sup>*)"
proof -
  have "dep_rel m = {(x, y). \<exists>t. map_of m x = Some t \<and> y \<in> set (or_empty (task_dependsOn t))}"
    by (auto simp: dep_rel_def deps_of_def split: option.splits) metis
  then show ?thesis by (auto simp: detectCycle_iff)
qed

text \<open>
  Completing a task through an open store succeeds exactly when the task is in progress and
  each of its sub-tasks is complete or skipped; the task is then complete, completed and updated
  at the same instant, later than its previous update, and no other task changes. Otherwise the
  store is left as it was.
\<close>

theorem completeTask_spec:
  assumes "task_wf (tasks st)" and "acceptingMutations st" and "get st i = Some t"
    and "completeTask now i st = (r, st')"
  shows "if task_state t = InProgress \<and>
       (\<forall>j s. get st j = Some s \<longrightarrow> task_parentTaskId s = Some i \<longrightarrow> task_state s \<in> {Complete, Skipped})
     then r = Inr True \<and> get st' i = Some (t\<lparr>task_state := Complete,
         task_completedAt := Some (max now (task_updatedAt t + 1)),
         task_updatedAt := max now (task_updatedAt t + 1)\<rparr>) \<and> (\<forall>j. j \<noteq> i \<longrightarrow> get st' j = get st j)
     else st' = st \<and> r \<in> {Inl (InvalidTransition (task_state t) Complete),
         Inl (SubTasksIncomplete (length (incomplete_subtasks st i)))}"
proof -
  have i: "task_id t = i" using assms(1,3) by (simp add: get_def task_wfD)
  have valid: "isValidTransition (task_state t) Complete \<longleftrightarrow> task_state t = InProgress"
    by (cases "task_state t") (simp_all add: isValidTransition_def)
  have subs: "incomplete_subtasks st i = [] \<longleftrightarrow>
      (\<forall>j s. get st j = Some s \<longrightarrow> task_parentTaskId s = Some i \<longrightarrow> task_state s \<in> {Complete, Skipped})"
  proof
    assume "incomplete_subtasks st i = []"
    from incomplete_none [OF this] show "\<forall>j s. get st j = Some s \<longrightarrow>
        task_parentTaskId s = Some i \<longrightarrow> task_state s \<in> {Complete, Skipped}"
      by (auto simp: subtasks_terminal_def terminal_def get_def)
  next
    assume "\<forall>j s. get st j = Some s \<longrightarrow> task_parentTaskId s = Some i \<longrightarrow> task_state s \<in> {Complete, Skipped}"
    then show "incomplete_subtasks st i = []"
      using getAll_get [OF assms(1)]
      by (fastforce simp: incomplete_subtasks_def getByParentTaskId_def filter_empty_conv get_def)
  qed
  show ?thesis
    using assms(2-4)
    unfolding subs [symmetric] completeTask_def commitTask_def
    by (auto simp: Let_def valid i get_def monotonicNow_def split: prod.splits sum.splits if_splits
        dest!: putCommitted_tasks)
qed

definition store3 :: task_store where
  "store3 = run_op (OpTransition 6 ''t1'' InProgress) store1"

lemma completeTask_spec_witness:
  "fst (completeTask 9 ''t1'' store3) = Inr True"
proof -
  have "reachable_store store3"
    unfolding store3_def by (rule reachable_store.call [OF store1_reachable]) simp
  then have wf: "task_wf (tasks store3)" by (rule reachable_wf)
  let ?t = "(new_task ''t1'' ''g'' ''T'' ''custom'' opts0 5)\<lparr>task_state := InProgress, task_updatedAt := 6\<rparr>"
  have t: "get store3 ''t1'' = Some ?t" by code_simp
  have a: "acceptingMutations store3" by code_simp
  have only: "map fst (tasks store3) = [''t1'']" by code_simp
  have "\<forall>j s. get store3 j = Some s \<longrightarrow> task_parentTaskId s = Some ''t1'' \<longrightarrow> task_state s \<in> {Complete, Skipped}"
  proof (intro allI impI)
    fix j s assume s: "get store3 j = Some s" "task_parentTaskId s = Some ''t1''"
    then have "j \<in> set (map fst (tasks store3))" by (force simp: get_def dest: map_of_SomeD)
    with only have "j = ''t1''" by simp
    with s t show "task_state s \<in> {Complete, Skipped}" by (auto simp: new_task_def opts0_def)
  qed
  with completeTask_spec [OF wf a t, of 9 "fst (completeTask 9 ''t1'' store3)"
      "snd (completeTask 9 ''t1'' store3)"] show ?thesis by (simp add: new_task_def)
qed

end
