(* ===== verification/Js_Value.thy ===== *)
theory Js_Value
  imports Prelude Complex_Main
begin

text \<open>
  Untyped JavaScript values, for the code that checks data it did not build (workflow
  definitions, persisted tasks). An object is its own properties in insertion order; a
  number is an exact rational, an infinity or NaN. A property that is absent reads as
  \<open>undefined\<close>.
\<close>

datatype js_num = Fin rat | PosInf | NegInf | NaN

datatype js =
    JUndefined
  | JNull
  | JBool bool
  | JNum js_num
  | JStr string
  | JArr "js list"
  | JObj "(string \<times> js) list"

fun is_finite :: "js_num \<Rightarrow> bool" where
  "is_finite (Fin _) = True"
| "is_finite _ = False"

fun is_string :: "js \<Rightarrow> bool" where
  "is_string (JStr _) = True"
| "is_string _ = False"

fun is_bool :: "js \<Rightarrow> bool" where
  "is_bool (JBool _) = True"
| "is_bool _ = False"

fun is_array :: "js \<Rightarrow> bool" where
  "is_array (JArr _) = True"
| "is_array _ = False"

fun js_truthy :: "js \<Rightarrow> bool" where
  "js_truthy JUndefined = False"
| "js_truthy JNull = False"
| "js_truthy (JBool b) = b"
| "js_truthy (JNum n) = (n \<noteq> Fin 0 \<and> n \<noteq> NaN)"
| "js_truthy (JStr s) = (s \<noteq> [])"
| "js_truthy (JArr _) = True"
| "js_truthy (JObj _) = True"

text \<open>\<open>o.k\<close> for a plain object, and the elements and the string of a value when it has them.\<close>

definition js_prop :: "(string \<times> js) list \<Rightarrow> string \<Rightarrow> js" where
  "js_prop fields k = (case map_of fields k of None \<Rightarrow> JUndefined | Some v \<Rightarrow> v)"

fun as_string :: "js \<Rightarrow> string option" where
  "as_string (JStr s) = Some s"
| "as_string _ = None"

fun as_object :: "js \<Rightarrow> (string \<times> js) list option" where
  "as_object (JObj fs) = Some fs"
| "as_object _ = None"

fun elements :: "js \<Rightarrow> js list" where
  "elements (JArr xs) = xs"
| "elements _ = []"

definition js_strings :: "js list \<Rightarrow> string list" where
  "js_strings xs = List.map_filter as_string xs"

text \<open>
  \<open>String.prototype.trim\<close>, \<open>toLowerCase\<close> and \<open>\s\<close> on code units below 256: the
  white space there is tab, line feed, vertical tab, form feed, carriage return, space and
  the no-break space; the letters are A to Z and the accented capitals of Latin-1.
\<close>

definition js_space :: "char \<Rightarrow> bool" where
  "js_space c = (let n = of_char c :: nat in (9 \<le> n \<and> n \<le> 13) \<or> n = 32 \<or> n = 160)"

definition js_trim :: "string \<Rightarrow> string" where
  "js_trim s = rev (dropWhile js_space (rev (dropWhile js_space s)))"

definition js_lower :: "string \<Rightarrow> string" where
  "js_lower s = map (\<lambda>c. let n = of_char c :: nat in
     if (65 \<le> n \<and> n \<le> 90) \<or> (192 \<le> n \<and> n \<le> 222 \<and> n \<noteq> 215) then char_of (n + 32) else c) s"

text \<open>For evaluation, the character classes are read from the bits.\<close>

lemma js_space_code [code]:
  "js_space (Char b0 b1 b2 b3 b4 b5 b6 b7) \<longleftrightarrow>
     (\<not> b4 \<and> \<not> b5 \<and> \<not> b6 \<and> \<not> b7 \<and> b3 \<and> ((b0 \<and> \<not> b2) \<or> (b1 \<and> \<not> b2) \<or> (b2 \<and> \<not> b1))) \<or>
     (\<not> b0 \<and> \<not> b1 \<and> \<not> b2 \<and> \<not> b3 \<and> \<not> b4 \<and> b5 \<and> \<not> b6)"
  by (cases b0; cases b1; cases b2; cases b3; cases b4; cases b5; cases b6; cases b7) (simp_all add: js_space_def)

definition lower_char :: "char \<Rightarrow> char" where
  "lower_char c = (let n = of_char c :: nat in
     if (65 \<le> n \<and> n \<le> 90) \<or> (192 \<le> n \<and> n \<le> 222 \<and> n \<noteq> 215) then char_of (n + 32) else c)"

lemma lower_char_code [code]:
  "lower_char (Char b0 b1 b2 b3 b4 b5 b6 b7) =
     Char b0 b1 b2 b3 b4
       (b5 \<or> (b6 \<and> (if b7 then \<not> (b4 \<and> b2 \<and> b1 \<and> b0)
          else (b0 \<or> b1 \<or> b2 \<or> b3 \<or> b4) \<and> \<not> (b4 \<and> b3 \<and> (b2 \<or> (b1 \<and> b0)))))) b6 b7"
  by (cases b0; cases b1; cases b2; cases b3; cases b4; cases b5; cases b6; cases b7)
    (simp_all add: lower_char_def, (code_simp+)?)

lemma js_lower_code [code]: "js_lower s = map lower_char s"
  by (simp add: js_lower_def lower_char_def)

text \<open>\<open>startsWith\<close>, \<open>includes\<close>, \<open>join\<close> and \<open>replace(/\s+/g, " ")\<close>.\<close>

definition starts_with :: "string \<Rightarrow> string \<Rightarrow> bool" where
  "starts_with p s = (take (length p) s = p)"

fun js_includes :: "string \<Rightarrow> string \<Rightarrow> bool" where
  "js_includes [] n = (n = [])"
| "js_includes (c # cs) n = (starts_with n (c # cs) \<or> js_includes cs n)"

fun js_join :: "string \<Rightarrow> string list \<Rightarrow> string" where
  "js_join sep [] = []"
| "js_join sep [x] = x"
| "js_join sep (x # y # ys) = x @ sep @ js_join sep (y # ys)"

fun collapse_space :: "bool \<Rightarrow> string \<Rightarrow> string" where
  "collapse_space after [] = []"
| "collapse_space after (c # cs) =
     (if js_space c then (if after then [] else '' '') @ collapse_space True cs
      else c # collapse_space False cs)"

text \<open>A whole number as it is printed.\<close>

fun decimal :: "nat \<Rightarrow> string" where
  "decimal n = (if n < 10 then [char_of (48 + n)] else decimal (n div 10) @ [char_of (48 + n mod 10)])"

declare decimal.simps [simp del]

text \<open>For evaluation, the digits are read from a table.\<close>

definition digit_text :: "nat \<Rightarrow> char" where
  "digit_text d = ''0123456789'' ! d"

lemma digit_text: "d < 10 \<Longrightarrow> char_of (48 + d) = digit_text d"
proof -
  have "list_all (\<lambda>d. char_of (48 + d) = digit_text d) [0, 1, 2, 3, 4, 5, 6, 7, 8, 9]" by code_simp
  moreover assume "d < 10"
  then have "d \<in> {0, 1, 2, 3, 4, 5, 6, 7, 8, 9}" by auto
  ultimately show ?thesis by auto
qed

lemma decimal_code [code]:
  "decimal n = (if n < 10 then [digit_text n] else decimal (n div 10) @ [digit_text (n mod 10)])"
  by (subst decimal.simps) (simp add: digit_text)

text \<open>\<open>isNonEmptyString\<close> and \<open>isStringArray\<close> of \<open>workflow-validator.ts\<close>.\<close>

fun isNonEmptyString :: "js \<Rightarrow> bool" where
  "isNonEmptyString (JStr s) = (js_trim s \<noteq> [])"
| "isNonEmptyString _ = False"

fun isStringArray :: "js \<Rightarrow> bool" where
  "isStringArray (JArr xs) = list_all is_string xs"
| "isStringArray _ = False"

lemma js_includes_iff: "js_includes s n \<longleftrightarrow> (\<exists>before after. s = before @ n @ after)"
proof (induction s)
  case (Cons c cs)
  have "starts_with n (c # cs) \<longleftrightarrow> (\<exists>after. c # cs = n @ after)"
    by (metis append_eq_conv_conj starts_with_def)
  moreover have "(\<exists>before after. c # cs = before @ n @ after) \<longleftrightarrow>
      (\<exists>after. c # cs = n @ after) \<or> (\<exists>before after. cs = before @ n @ after)"
    by (metis append_Nil append_eq_Cons_conv append_Cons)
  ultimately show ?case by (simp add: Cons)
qed simp

lemma js_prop_simps [simp]:
  "js_prop [] k = JUndefined"
  "js_prop ((k', v) # fs) k = (if k' = k then v else js_prop fs k)"
  by (auto simp: js_prop_def)

lemma js_prop_update [simp]: "js_prop (AList.update k v fs) k' = (if k' = k then v else js_prop fs k')"
  by (simp add: js_prop_def)

lemma js_prop_delete [simp]: "js_prop (AList.delete k fs) k' = (if k' = k then JUndefined else js_prop fs k')"
  by (simp add: js_prop_def)

lemma isStringArray_elements: "isStringArray v \<Longrightarrow> v = JArr (map JStr (js_strings (elements v)))"
proof (cases v)
  case (JArr xs)
  assume "isStringArray v"
  then have "list_all is_string xs" using JArr by simp
  then have "xs = map JStr (js_strings xs)"
  proof (induction xs)
    case (Cons x xs)
    then obtain s where "x = JStr s" by (cases x) auto
    with Cons show ?case by (simp add: js_strings_def List.map_filter_def)
  qed (simp add: js_strings_def List.map_filter_def)
  with JArr show ?thesis by simp
qed auto

end
