(* ===== verification/Semaphore.thy ===== *)
theory Semaphore
  imports Prelude Js_Value
begin

text \<open>
  The counting semaphore of \<open>src/src/server/agent/semaphore.ts\<close>: live resizing with
  over-subscription debt, a FIFO of waiters that can be aborted, and the interface
  \<open>permit_pool\<close> under which the child-team scheduler uses it. A waiter is named by a number
  (its object identity); the promises the class resolves (\<open>True\<close>) or rejects (\<open>False\<close>) are
  the log \<open>sem_settled\<close>. Capacities are whole numbers; \<open>resize\<close> floors any other.
\<close>

datatype WaiterState = Queued | Granted | Aborted

record waiter =
  w_id :: nat
  w_state :: WaiterState

record semaphore =
  sem_value :: int
  sem_capacity :: int
  sem_debt :: int
  sem_waiters :: "waiter list"
  sem_settled :: "(nat \<times> bool) list"

definition new_semaphore :: "int \<Rightarrow> semaphore" where
  "new_semaphore initial =
     \<lparr>sem_value = initial, sem_capacity = initial, sem_debt = 0, sem_waiters = [], sem_settled = []\<rparr>"

definition available :: "semaphore \<Rightarrow> int" where
  "available s = sem_value s"

definition waiting :: "semaphore \<Rightarrow> nat" where
  "waiting s = length (sem_waiters s)"

definition capacity :: "semaphore \<Rightarrow> int" where
  "capacity s = sem_capacity s"

text \<open>\<open>_grantNextWaiter\<close>: drop waiters that are no longer queued, resolve the first that is.\<close>

fun grant_loop :: "waiter list \<Rightarrow> nat option \<times> waiter list" where
  "grant_loop [] = (None, [])"
| "grant_loop (w # ws) = (if w_state w \<noteq> Queued then grant_loop ws else (Some (w_id w), ws))"

definition grantNextWaiter :: "semaphore \<Rightarrow> bool \<times> semaphore" where
  "grantNextWaiter s =
     (case grant_loop (sem_waiters s) of
        (None, ws) \<Rightarrow> (False, s\<lparr>sem_waiters := ws\<rparr>)
      | (Some i, ws) \<Rightarrow> (True, s\<lparr>sem_waiters := ws, sem_settled := sem_settled s @ [(i, True)]\<rparr>))"

text \<open>The two loops of a growing \<open>resize\<close>; \<open>n\<close> is the delta still to hand out.\<close>

fun pay_debt :: "nat \<Rightarrow> semaphore \<Rightarrow> nat \<times> semaphore" where
  "pay_debt 0 s = (0, s)"
| "pay_debt (Suc n) s =
     (if sem_debt s > 0 then pay_debt n (s\<lparr>sem_debt := sem_debt s - 1\<rparr>) else (Suc n, s))"

fun grant_many :: "nat \<Rightarrow> semaphore \<Rightarrow> nat \<times> semaphore" where
  "grant_many 0 s = (0, s)"
| "grant_many (Suc n) s =
     (case grantNextWaiter s of (True, s') \<Rightarrow> grant_many n s' | (False, s') \<Rightarrow> (Suc n, s'))"

definition grow :: "nat \<Rightarrow> semaphore \<Rightarrow> semaphore" where
  "grow delta s =
     (case pay_debt delta s of (d1, s1) \<Rightarrow>
      case grant_many d1 s1 of (d2, s2) \<Rightarrow> s2\<lparr>sem_value := sem_value s2 + int d2\<rparr>)"

definition shrink :: "int \<Rightarrow> semaphore \<Rightarrow> semaphore" where
  "shrink toRemove s =
     (let fromValue = min toRemove (sem_value s) in
      s\<lparr>sem_value := sem_value s - fromValue, sem_debt := sem_debt s + (toRemove - fromValue)\<rparr>)"

text \<open>\<open>Math.max(1, Math.floor(Number(n)))\<close>: \<open>None\<close> when it is not finite.\<close>

fun floor_capacity :: "js_num \<Rightarrow> int option" where
  "floor_capacity (Fin q) = Some (max 1 \<lfloor>q\<rfloor>)"
| "floor_capacity NegInf = Some 1"
| "floor_capacity PosInf = None"
| "floor_capacity NaN = None"

definition resize :: "js_num \<Rightarrow> semaphore \<Rightarrow> semaphore" where
  "resize newCapacity s =
     (case floor_capacity newCapacity of
        None \<Rightarrow> s
      | Some next \<Rightarrow>
        if next = sem_capacity s then s\<lparr>sem_capacity := next\<rparr>
        else let delta = next - sem_capacity s; s1 = s\<lparr>sem_capacity := next\<rparr> in
             if delta > 0 then grow (nat delta) s1 else shrink (- delta) s1)"

text \<open>\<open>_abortWaiter\<close> of the waiter object \<open>i\<close>: only a waiter that is still queued is removed.\<close>

definition abortWaiter :: "nat \<Rightarrow> semaphore \<Rightarrow> semaphore" where
  "abortWaiter i s =
     (case find (\<lambda>w. w_id w = i) (sem_waiters s) of
        None \<Rightarrow> s
      | Some w \<Rightarrow>
        if w_state w \<noteq> Queued then s
        else s\<lparr>sem_waiters := remove1 w (sem_waiters s),
               sem_settled := sem_settled s @ [(i, False)]\<rparr>)"

text \<open>
  \<open>acquire\<close> of a request whose signal (if it has one) is aborted at entry, or aborted before the
  listener is installed. The waiter object it would create is \<open>i\<close>.
\<close>

datatype acquired = Acquire_Aborted | Acquire_Now | Acquire_Queued

definition acquire :: "nat \<Rightarrow> bool \<Rightarrow> bool \<Rightarrow> semaphore \<Rightarrow> acquired \<times> semaphore" where
  "acquire i aborted abortedLate s =
     (if aborted then (Acquire_Aborted, s)
      else if sem_value s > 0 then (Acquire_Now, s\<lparr>sem_value := sem_value s - 1\<rparr>)
      else
        let s1 = s\<lparr>sem_waiters := sem_waiters s @ [\<lparr>w_id = i, w_state = Queued\<rparr>]\<rparr> in
        (Acquire_Queued, if abortedLate then abortWaiter i s1 else s1))"

definition tryAcquire :: "semaphore \<Rightarrow> bool \<times> semaphore" where
  "tryAcquire s =
     (if sem_value s > 0 then (True, s\<lparr>sem_value := sem_value s - 1\<rparr>) else (False, s))"

text \<open>\<open>release\<close>: \<open>Inl\<close> is the thrown over-release, with the capacity it names.\<close>

definition release :: "semaphore \<Rightarrow> (int + unit) \<times> semaphore" where
  "release s =
     (if sem_debt s > 0 then (Inr (), s\<lparr>sem_debt := sem_debt s - 1\<rparr>)
      else
        (case grantNextWaiter s of
           (True, s') \<Rightarrow> (Inr (), s')
         | (False, s') \<Rightarrow>
           if sem_value s' \<ge> sem_capacity s' then (Inl (sem_capacity s'), s')
           else (Inr (), s'\<lparr>sem_value := sem_value s' + 1\<rparr>)))"

section \<open>What each operation does to a well-formed semaphore\<close>

text \<open>\<open>held\<close> is the number of permits handed out and not given back; every waiter in the queue is queued.\<close>

definition held :: "semaphore \<Rightarrow> int" where
  "held s = sem_capacity s + sem_debt s - sem_value s"

definition all_queued :: "semaphore \<Rightarrow> bool" where
  "all_queued s = list_all (\<lambda>w. w_state w = Queued) (sem_waiters s)"

definition sem_wf :: "semaphore \<Rightarrow> bool" where
  "sem_wf s =
     (0 \<le> sem_value s \<and> 0 \<le> sem_debt s \<and> 0 \<le> held s \<and>
      (0 < sem_value s \<longrightarrow> sem_waiters s = [] \<and> sem_debt s = 0) \<and>
      all_queued s \<and> distinct (map w_id (sem_waiters s)))"

named_theorems sem_defs

lemmas sem_simps [sem_defs] = sem_wf_def held_def all_queued_def

definition granted_log :: "waiter list \<Rightarrow> (nat \<times> bool) list" where
  "granted_log ws = map (\<lambda>w. (w_id w, True)) ws"

lemma granted_log_simps [simp]:
  "granted_log [] = []"
  "granted_log (w # ws) = (w_id w, True) # granted_log ws"
  "length (granted_log ws) = length ws"
  "map fst (granted_log ws) = map w_id ws"
  "filter snd (granted_log ws) = granted_log ws"
  by (simp_all add: granted_log_def o_def filter_id_conv)

lemma grantNextWaiter_queued:
  "all_queued s \<Longrightarrow> grantNextWaiter s =
     (case sem_waiters s of
        [] \<Rightarrow> (False, s)
      | w # ws \<Rightarrow> (True, s\<lparr>sem_waiters := ws, sem_settled := sem_settled s @ [(w_id w, True)]\<rparr>))"
  by (auto simp: grantNextWaiter_def all_queued_def split: list.split)

lemma pay_debt_eq:
  "0 \<le> sem_debt s \<Longrightarrow>
   pay_debt n s = (n - nat (sem_debt s), s\<lparr>sem_debt := sem_debt s - min (int n) (sem_debt s)\<rparr>)"
  by (induction n s rule: pay_debt.induct) (auto simp: min_def nat_diff_distrib')

lemma grant_many_eq:
  "all_queued s \<Longrightarrow>
   grant_many n s = (n - length (sem_waiters s),
     s\<lparr>sem_waiters := drop n (sem_waiters s),
       sem_settled := sem_settled s @ granted_log (take n (sem_waiters s))\<rparr>)"
proof (induction n s rule: grant_many.induct)
  case (2 n s)
  show ?case
  proof (cases "sem_waiters s")
    case Nil
    with 2 show ?thesis by (simp add: grantNextWaiter_queued)
  next
    case (Cons w ws)
    with 2 show ?thesis by (simp add: grantNextWaiter_queued all_queued_def)
  qed
qed simp

lemma grow_eq:
  assumes "sem_wf s"
  shows "grow n s =
    (let k = n - nat (sem_debt s) in
     s\<lparr>sem_value := sem_value s + int (k - length (sem_waiters s)),
       sem_debt := sem_debt s - min (int n) (sem_debt s),
       sem_waiters := drop k (sem_waiters s),
       sem_settled := sem_settled s @ granted_log (take k (sem_waiters s))\<rparr>)"
  using assms by (simp add: grow_def pay_debt_eq grant_many_eq sem_defs Let_def)

lemma release_eq:
  assumes "sem_wf s" and "0 < held s"
  shows "release s = (Inr (),
    if sem_debt s > 0 then s\<lparr>sem_debt := sem_debt s - 1\<rparr>
    else (case sem_waiters s of
        [] \<Rightarrow> s\<lparr>sem_value := sem_value s + 1\<rparr>
      | w # ws \<Rightarrow> s\<lparr>sem_waiters := ws, sem_settled := sem_settled s @ [(w_id w, True)]\<rparr>))"
  using assms by (auto simp: release_def grantNextWaiter_queued sem_defs split: list.split)

lemma abortWaiter_eq:
  assumes "sem_wf s"
  shows "abortWaiter i s =
    (if i \<in> w_id ` set (sem_waiters s)
     then s\<lparr>sem_waiters := filter (\<lambda>w. w_id w \<noteq> i) (sem_waiters s),
            sem_settled := sem_settled s @ [(i, False)]\<rparr>
     else s)"
proof (cases "find (\<lambda>w. w_id w = i) (sem_waiters s)")
  case None
  then have "i \<notin> w_id ` set (sem_waiters s)" by (auto simp: find_None_iff)
  with None show ?thesis by (simp add: abortWaiter_def)
next
  case (Some w)
  then have w: "w \<in> set (sem_waiters s)" "w_id w = i" by (auto simp: find_Some_iff)
  with assms have "w_state w = Queued" by (auto simp: sem_defs list_all_iff)
  have d: "distinct (map w_id (sem_waiters s))" using assms by (simp add: sem_defs)
  then have "remove1 w (sem_waiters s) = filter (\<lambda>v. v \<noteq> w) (sem_waiters s)"
    by (simp add: distinct_map distinct_remove1_removeAll removeAll_filter_not_eq)
      (metis (mono_tags, lifting) filter_cong)
  also have "\<dots> = filter (\<lambda>v. w_id v \<noteq> i) (sem_waiters s)"
    using d w by (intro filter_cong) (auto simp: distinct_map inj_on_def)
  finally have "remove1 w (sem_waiters s) = filter (\<lambda>w. w_id w \<noteq> i) (sem_waiters s)" .
  with Some w \<open>w_state w = Queued\<close> show ?thesis by (auto simp: abortWaiter_def)
qed


section \<open>Every run conserves permits\<close>

text \<open>
  A run: callers acquire, try, release (at any time), abort and resize. \<open>p_out\<close>
  counts the permits handed out and not given back, \<open>p_next\<close> names the next waiter object.
\<close>

datatype sem_op =
    Op_acquire bool bool
  | Op_try
  | Op_release
  | Op_abort nat
  | Op_resize js_num

record pool =
  p_sem :: semaphore
  p_out :: int
  p_next :: nat

definition grants :: "semaphore \<Rightarrow> int" where
  "grants s = int (length (filter snd (sem_settled s)))"

definition moved :: "semaphore \<Rightarrow> int \<Rightarrow> pool \<Rightarrow> pool" where
  "moved s' d p = p\<lparr>p_sem := s', p_out := p_out p + d + (grants s' - grants (p_sem p))\<rparr>"

text \<open>
  A release throws when nothing is handed out, and the run goes on with what the throw leaves. \<open>None\<close> is
  what must not happen: a throw with permits out, or a release with nothing out that does not throw.
\<close>

fun pool_op :: "sem_op \<Rightarrow> pool \<Rightarrow> pool option" where
  "pool_op (Op_acquire a l) p =
     (case acquire (p_next p) a l (p_sem p) of
        (Acquire_Aborted, s) \<Rightarrow> Some (moved s 0 p)
      | (Acquire_Now, s) \<Rightarrow> Some (moved s 1 p)
      | (Acquire_Queued, s) \<Rightarrow> Some ((moved s 0 p)\<lparr>p_next := p_next p + 1\<rparr>))"
| "pool_op Op_try p =
     (case tryAcquire (p_sem p) of (ok, s) \<Rightarrow> Some (moved s (if ok then 1 else 0) p))"
| "pool_op Op_release p =
     (case release (p_sem p) of
        (Inl _, s) \<Rightarrow> if p_out p \<le> 0 then Some (moved s 0 p) else None
      | (Inr _, s) \<Rightarrow> if p_out p \<le> 0 then None else Some (moved s (-1) p))"
| "pool_op (Op_abort i) p = Some (moved (abortWaiter i (p_sem p)) 0 p)"
| "pool_op (Op_resize n) p = Some (moved (resize n (p_sem p)) 0 p)"

fun pool_run :: "sem_op list \<Rightarrow> pool \<Rightarrow> pool option" where
  "pool_run [] p = Some p"
| "pool_run (op # ops) p = (case pool_op op p of None \<Rightarrow> None | Some p' \<Rightarrow> pool_run ops p')"

definition new_pool :: "int \<Rightarrow> pool" where
  "new_pool c = \<lparr>p_sem = new_semaphore c, p_out = 0, p_next = 0\<rparr>"

definition waiting_ids :: "semaphore \<Rightarrow> nat list" where
  "waiting_ids s = map w_id (sem_waiters s)"

text \<open>
  The waiters: settled ones are in the log (granted or aborted), the others in the queue; each
  is in one place only, and the granted ones come before those still waiting, in order.
\<close>

definition ids_inv :: "(nat \<times> bool) list \<Rightarrow> nat list \<Rightarrow> nat \<Rightarrow> bool" where
  "ids_inv S W n \<longleftrightarrow>
     sorted_wrt (<) (map fst (filter snd S) @ W) \<and> distinct (map fst S @ W) \<and>
     (\<forall>i \<in> set (map fst S @ W). i < n)"

lemma ids_inv_new: "ids_inv [] [] n"
  by (simp add: ids_inv_def)

lemma grants_simps [simp]:
  "grants (s\<lparr>sem_value := v\<rparr>) = grants s"
  "grants (s\<lparr>sem_debt := d\<rparr>) = grants s"
  "grants (s\<lparr>sem_capacity := c\<rparr>) = grants s"
  "grants (s\<lparr>sem_waiters := ws\<rparr>) = grants s"
  by (simp_all add: grants_def)

lemma ids_inv_grants:
  "ids_inv S (V @ W) n \<Longrightarrow> ids_inv (S @ map (\<lambda>i. (i, True)) V) W n"
  by (simp add: ids_inv_def o_def filter_id_conv Un_ac Int_Un_distrib2)

lemma ids_inv_grant: "ids_inv S (i # W) n \<Longrightarrow> ids_inv (S @ [(i, True)]) W n"
  using ids_inv_grants [of S "[i]" W n] by simp

lemma ids_inv_abort:
  assumes "ids_inv S W n" and "i \<in> set W"
  shows "ids_inv (S @ [(i, False)]) (filter (\<lambda>j. j \<noteq> i) W) n"
  using assms by (auto simp: ids_inv_def sorted_wrt_append sorted_wrt_filter)

lemma ids_inv_enqueue: "ids_inv S W n \<Longrightarrow> ids_inv S (W @ [n]) (n + 1)"
  by (auto simp: ids_inv_def sorted_wrt_append less_Suc_eq)

definition pool_inv :: "pool \<Rightarrow> bool" where
  "pool_inv p \<longleftrightarrow>
     sem_wf (p_sem p) \<and> p_out p = held (p_sem p) \<and> 1 \<le> sem_capacity (p_sem p) \<and>
     ids_inv (sem_settled (p_sem p)) (waiting_ids (p_sem p)) (p_next p)"

text \<open>Every handover of a permit leaves at most \<open>capacity\<close> permits out.\<close>

definition pool_step_ok :: "pool \<Rightarrow> pool \<Rightarrow> bool" where
  "pool_step_ok p p' \<longleftrightarrow>
     (p_out p < p_out p' \<or> grants (p_sem p) < grants (p_sem p') \<longrightarrow>
        p_out p' \<le> sem_capacity (p_sem p'))"

lemma pool_try:
  "pool_inv p \<Longrightarrow> \<exists>p'. pool_op Op_try p = Some p' \<and> pool_inv p' \<and> pool_step_ok p p'"
  by (auto simp: tryAcquire_def moved_def pool_inv_def pool_step_ok_def sem_defs waiting_ids_def)

lemma pool_release:
  assumes "pool_inv p"
  shows "\<exists>p'. pool_op Op_release p = Some p' \<and> pool_inv p' \<and> pool_step_ok p p'"
proof (cases "0 < p_out p")
  case False
  with assms have "sem_debt (p_sem p) = 0" "sem_waiters (p_sem p) = []" "sem_capacity (p_sem p) \<le> sem_value (p_sem p)"
    by (auto simp: pool_inv_def sem_defs)
  then have "release (p_sem p) = (Inl (sem_capacity (p_sem p)), p_sem p)"
    by (simp add: release_def grantNextWaiter_def)
  with assms False show ?thesis by (simp add: pool_step_ok_def moved_def)
next
  case True
  with assms have "sem_wf (p_sem p)" "0 < held (p_sem p)" by (auto simp: pool_inv_def)
  note rel = release_eq [OF this]
  show ?thesis
  proof (cases "0 < sem_debt (p_sem p)")
    case debt: True
    with True rel assms show ?thesis
      by (simp add: moved_def pool_inv_def pool_step_ok_def sem_defs waiting_ids_def grants_def)
  next
    case nodebt: False
    show ?thesis
    proof (cases "sem_waiters (p_sem p)")
      case Nil
      with True nodebt rel assms show ?thesis
        by (simp add: moved_def pool_inv_def pool_step_ok_def sem_defs waiting_ids_def grants_def)
    next
      case (Cons w ws)
      with True nodebt rel assms show ?thesis
        by (simp add: moved_def pool_inv_def pool_step_ok_def sem_defs waiting_ids_def grants_def
            ids_inv_grant)
    qed
  qed
qed

lemma pool_abort:
  assumes "pool_inv p"
  shows "\<exists>p'. pool_op (Op_abort i) p = Some p' \<and> pool_inv p' \<and> pool_step_ok p p'"
proof (cases "i \<in> w_id ` set (sem_waiters (p_sem p))")
  case False
  with assms abortWaiter_eq [of "p_sem p" i] show ?thesis
    by (simp add: moved_def pool_inv_def pool_step_ok_def)
next
  case True
  let ?s = "abortWaiter i (p_sem p)"
  have s: "?s = (p_sem p)\<lparr>sem_waiters := filter (\<lambda>w. w_id w \<noteq> i) (sem_waiters (p_sem p)),
      sem_settled := sem_settled (p_sem p) @ [(i, False)]\<rparr>"
    using abortWaiter_eq [of "p_sem p" i] assms True by (simp add: pool_inv_def)
  have "waiting_ids ?s = filter (\<lambda>j. j \<noteq> i) (waiting_ids (p_sem p))"
    by (simp add: s waiting_ids_def filter_map o_def)
  moreover have "sem_wf ?s" "held ?s = held (p_sem p)" "grants ?s = grants (p_sem p)"
    using assms
    by (simp_all add: s pool_inv_def sem_defs grants_def list_all_iff distinct_map_filter)
  ultimately show ?thesis
    using assms True s ids_inv_abort [of "sem_settled (p_sem p)" "waiting_ids (p_sem p)" "p_next p" i]
    by (simp add: moved_def pool_inv_def pool_step_ok_def waiting_ids_def)
qed

definition enqueued :: "pool \<Rightarrow> pool" where
  "enqueued p = p\<lparr>p_sem := (p_sem p)\<lparr>sem_waiters := sem_waiters (p_sem p) @
     [\<lparr>w_id = p_next p, w_state = Queued\<rparr>]\<rparr>, p_next := p_next p + 1\<rparr>"

lemma pool_inv_enqueued:
  assumes "pool_inv p" and "sem_value (p_sem p) \<le> 0"
  shows "pool_inv (enqueued p)"
proof -
  have "p_next p \<notin> set (waiting_ids (p_sem p))"
    using assms(1) by (auto simp: pool_inv_def ids_inv_def)
  moreover have "waiting_ids (p_sem (enqueued p)) = waiting_ids (p_sem p) @ [p_next p]"
    by (simp add: enqueued_def waiting_ids_def)
  ultimately show ?thesis
    using assms ids_inv_enqueue
    by (auto simp: pool_inv_def enqueued_def sem_defs waiting_ids_def)
qed

lemma pool_acquire:
  assumes "pool_inv p"
  shows "\<exists>p'. pool_op (Op_acquire a l) p = Some p' \<and> pool_inv p' \<and> pool_step_ok p p'"
proof -
  consider "a" | "\<not> a" "0 < sem_value (p_sem p)"
    | "\<not> a" "\<not> l" "sem_value (p_sem p) \<le> 0" | "\<not> a" "l" "sem_value (p_sem p) \<le> 0" by linarith
  then show ?thesis
  proof cases
    case 1
    with assms show ?thesis by (simp add: acquire_def moved_def pool_step_ok_def)
  next
    case 2
    with assms pool_try [OF assms] show ?thesis by (simp add: acquire_def tryAcquire_def)
  next
    case 3
    then have "pool_op (Op_acquire a l) p = Some (enqueued p)"
      by (simp add: acquire_def moved_def enqueued_def)
    with pool_inv_enqueued [OF assms 3(3)] show ?thesis by (simp add: pool_step_ok_def enqueued_def)
  next
    case 4
    have g: "p_out (enqueued p) = p_out p" "grants (p_sem (enqueued p)) = grants (p_sem p)"
      by (simp_all add: enqueued_def)
    have "pool_op (Op_acquire a l) p = pool_op (Op_abort (p_next p)) (enqueued p)"
      using 4 by (simp add: acquire_def moved_def enqueued_def)
    with pool_abort [OF pool_inv_enqueued [OF assms 4(3)], of "p_next p"] show ?thesis
      by (auto simp: pool_step_ok_def g)
  qed
qed

lemma pool_grow:
  fixes n :: nat
  assumes "pool_inv p" and "0 < n"
  shows "let p' = moved (grow n ((p_sem p)\<lparr>sem_capacity := sem_capacity (p_sem p) + int n\<rparr>)) 0 p in
    pool_inv p' \<and> pool_step_ok p p'"
proof -
  let ?s = "(p_sem p)\<lparr>sem_capacity := sem_capacity (p_sem p) + int n\<rparr>"
  let ?k = "n - nat (sem_debt (p_sem p))"
  let ?w = "sem_waiters (p_sem p)"
  let ?s' = "grow n ?s"
  have wf: "sem_wf (p_sem p)" and out: "p_out p = held (p_sem p)" and cap: "1 \<le> sem_capacity (p_sem p)"
    and ids: "ids_inv (sem_settled (p_sem p)) (waiting_ids (p_sem p)) (p_next p)"
    using assms(1) by (simp_all add: pool_inv_def)
  have wf0: "sem_value ?s = sem_value (p_sem p)" by simp
  have "0 \<le> sem_debt ?s" "all_queued ?s" using wf by (simp_all add: sem_defs)
  then have s': "?s' = ?s\<lparr>sem_value := sem_value (p_sem p) + int (?k - length ?w),
      sem_debt := sem_debt (p_sem p) - min (int n) (sem_debt (p_sem p)),
      sem_waiters := drop ?k ?w, sem_settled := sem_settled (p_sem p) @ granted_log (take ?k ?w)\<rparr>"
    by (simp add: grow_def pay_debt_eq grant_many_eq all_queued_def)
  have g: "grants ?s' = grants (p_sem p) + int (min ?k (length ?w))"
    by (simp add: s' grants_def)
  have len: "int (?k - length ?w) + int (min ?k (length ?w)) = int ?k"
    by (simp add: min_def)
  have k: "int ?k + min (int n) (sem_debt (p_sem p)) = int n"
    using wf by (simp add: sem_defs min_def nat_diff_distrib')
  have "held ?s' = held (p_sem p) + int (min ?k (length ?w))"
    using len k by (simp add: s' held_def)
  moreover have "sem_wf ?s'"
    unfolding sem_wf_def
  proof (intro conjI)
    show "0 < sem_value ?s' \<longrightarrow> sem_waiters ?s' = [] \<and> sem_debt ?s' = 0"
      using wf by (cases "int n \<le> sem_debt (p_sem p)") (auto simp: s' sem_defs min_def)
    show "0 \<le> held ?s'" using calculation wf by (simp add: sem_wf_def)
    show "all_queued ?s'"
      using wf by (auto simp: s' sem_defs list_all_iff dest: in_set_dropD)
    show "distinct (map w_id (sem_waiters ?s'))"
      using wf by (simp add: s' sem_wf_def drop_map [symmetric])
  qed (use wf in \<open>simp_all add: s' sem_wf_def\<close>)
  moreover have "ids_inv (sem_settled ?s') (waiting_ids ?s') (p_next p)"
    using ids ids_inv_grants [of "sem_settled (p_sem p)" "map w_id (take ?k ?w)" "map w_id (drop ?k ?w)"]
    by (simp add: s' waiting_ids_def granted_log_def o_def map_append [symmetric] del: map_append)
  moreover have "sem_capacity ?s' = sem_capacity (p_sem p) + int n" by (simp add: s')
  moreover have "held (p_sem p) + int (min ?k (length ?w)) \<le> sem_capacity (p_sem p) + int n"
    if "0 < min ?k (length ?w)"
    using that wf k by (auto simp: sem_defs min_def split: if_splits)
  ultimately show ?thesis
    using out cap by (simp add: moved_def pool_inv_def pool_step_ok_def g Let_def)
qed

lemma pool_shrink:
  assumes "pool_inv p" and "1 \<le> c" and "c < sem_capacity (p_sem p)"
  shows "let p' = moved (shrink (sem_capacity (p_sem p) - c) ((p_sem p)\<lparr>sem_capacity := c\<rparr>)) 0 p in
    pool_inv p' \<and> pool_step_ok p p'"
  using assms
  by (cases "sem_capacity (p_sem p) - c \<le> sem_value (p_sem p)")
    (auto simp: shrink_def moved_def pool_inv_def pool_step_ok_def sem_defs waiting_ids_def Let_def)

lemma pool_resize:
  assumes "pool_inv p"
  shows "\<exists>p'. pool_op (Op_resize n) p = Some p' \<and> pool_inv p' \<and> pool_step_ok p p'"
proof (cases "floor_capacity n")
  case None
  with assms show ?thesis by (simp add: resize_def moved_def pool_step_ok_def)
next
  case (Some c)
  then have "1 \<le> c" by (cases n) auto
  consider "c = sem_capacity (p_sem p)" | "sem_capacity (p_sem p) < c" | "c < sem_capacity (p_sem p)"
    by linarith
  then show ?thesis
  proof cases
    case 1
    with Some assms show ?thesis by (simp add: resize_def moved_def pool_step_ok_def)
  next
    case 2
    then have "sem_capacity (p_sem p) + int (nat (c - sem_capacity (p_sem p))) = c" by simp
    with pool_grow [OF assms, of "nat (c - sem_capacity (p_sem p))"] 2 Some show ?thesis
      by (simp add: resize_def Let_def)
  next
    case 3
    with pool_shrink [OF assms \<open>1 \<le> c\<close> 3] Some show ?thesis by (simp add: resize_def Let_def)
  qed
qed

lemma pool_op_ok:
  "pool_inv p \<Longrightarrow> \<exists>p'. pool_op op p = Some p' \<and> pool_inv p' \<and> pool_step_ok p p'"
  by (cases op) (use pool_acquire pool_try pool_release pool_abort pool_resize in blast)+

lemma pool_run_ok: "pool_inv p \<Longrightarrow> \<exists>p'. pool_run ops p = Some p' \<and> pool_inv p'"
proof (induction ops arbitrary: p)
  case (Cons op ops)
  from pool_op_ok [OF Cons.prems, of op] Cons.IH show ?case by fastforce
qed simp

lemma pool_inv_new: "1 \<le> c \<Longrightarrow> pool_inv (new_pool c)"
  by (simp add: pool_inv_def new_pool_def new_semaphore_def sem_defs waiting_ids_def ids_inv_new)

text \<open>
  C13: Permits are conserved by every run of acquires, tries, releases, aborts and live resizes
  from a new semaphore: a release throws exactly when nothing is handed out, and then changes nothing, the free permits and the debt
  never go negative, free plus handed-out permits equal the capacity plus the debt, and while a
  permit is free nobody waits and there is no debt.
\<close>

theorem semaphore_conserves_permits:
  assumes "1 \<le> c"
  shows "\<exists>p. pool_run ops (new_pool c) = Some p \<and>
    0 \<le> available (p_sem p) \<and> 0 \<le> sem_debt (p_sem p) \<and> 0 \<le> p_out p \<and>
    available (p_sem p) + p_out p = capacity (p_sem p) + sem_debt (p_sem p) \<and>
    (available (p_sem p) = 0 \<or> waiting (p_sem p) = 0 \<and> sem_debt (p_sem p) = 0)"
proof -
  from pool_run_ok [OF pool_inv_new [OF assms], of ops] obtain p
    where "pool_run ops (new_pool c) = Some p" "pool_inv p" by blast
  then show ?thesis
    by (auto simp: pool_inv_def sem_defs available_def capacity_def waiting_def)
qed

lemma semaphore_conserves_permits_witness:
  "\<exists>p. pool_run [Op_try, Op_acquire False False, Op_resize (Fin 1), Op_release, Op_abort 0] (new_pool 2) =
     Some p \<and> available (p_sem p) + p_out p = capacity (p_sem p) + sem_debt (p_sem p)"
  using semaphore_conserves_permits [of 2 "[Op_try, Op_acquire False False, Op_resize (Fin 1), Op_release, Op_abort 0]"]
  by auto

text \<open>
  C38: waiters are served in order and settled once: along every run, the waiters granted so far,
  followed by those still queued, are in the order in which they queued, and no waiter is both
  granted and aborted, settled twice, or settled and still queued.
\<close>

theorem semaphore_fifo:
  assumes "1 \<le> c" and "pool_run ops (new_pool c) = Some p"
  shows "sorted_wrt (<) (map fst (filter snd (sem_settled (p_sem p))) @ map w_id (sem_waiters (p_sem p))) \<and>
    distinct (map fst (sem_settled (p_sem p)) @ map w_id (sem_waiters (p_sem p)))"
  using pool_run_ok [OF pool_inv_new [OF assms(1)], of ops] assms(2)
  by (auto simp: pool_inv_def ids_inv_def waiting_ids_def)

lemma semaphore_fifo_witness:
  "sorted_wrt (<) (map fst (filter snd (sem_settled (p_sem (the (pool_run
     [Op_try, Op_acquire False False, Op_acquire False False, Op_release] (new_pool 1)))))))"
proof -
  let ?ops = "[Op_try, Op_acquire False False, Op_acquire False False, Op_release]"
  have "pool_run ?ops (new_pool 1) \<noteq> None"
    using pool_run_ok [OF pool_inv_new [of 1], of ?ops] by auto
  then show ?thesis using semaphore_fifo [of 1 ?ops] by (force simp: sorted_wrt_append)
qed

text \<open>
  A shrink is honoured by every later hand-over: whenever an operation of a run gives out a
  permit (to a caller or to a waiter), no more permits are out afterwards than the capacity in
  force. Permits out before a shrink are paid back first.
\<close>

theorem semaphore_handover_within_capacity:
  assumes "1 \<le> c" and "pool_run ops (new_pool c) = Some p" and "pool_op op p = Some p'"
    and "p_out p < p_out p' \<or> grants (p_sem p) < grants (p_sem p')"
  shows "p_out p' \<le> capacity (p_sem p')"
  using pool_run_ok [OF pool_inv_new [OF assms(1)], of ops] assms(2-4) pool_op_ok [of p op]
  by (auto simp: pool_step_ok_def capacity_def)

lemma semaphore_handover_within_capacity_witness:
  "p_out (the (pool_op Op_try (new_pool 1))) \<le> capacity (p_sem (the (pool_op Op_try (new_pool 1))))"
  by (rule semaphore_handover_within_capacity [of 1 "[]" "new_pool 1" Op_try])
    (simp_all add: new_pool_def new_semaphore_def tryAcquire_def moved_def grants_def)

section \<open>The interface of a permit pool\<close>

text \<open>
  What a client that only tries and gives back relies on: a permit is granted exactly while one
  is free, never beyond the limit, and giving back a permit that is out never throws.
\<close>

locale permit_pool =
  fixes sound :: "'s \<Rightarrow> bool"
    and out :: "'s \<Rightarrow> int"
    and limit :: "'s \<Rightarrow> int"
    and free :: "'s \<Rightarrow> int"
    and take1 :: "'s \<Rightarrow> bool \<times> 's"
    and give1 :: "'s \<Rightarrow> ('e + unit) \<times> 's"
  assumes out_nonneg: "sound s \<Longrightarrow> 0 \<le> out s"
    and take_free: "sound s \<Longrightarrow> fst (take1 s) = (0 < free s)"
    and take_ok: "sound s \<Longrightarrow> take1 s = (True, s') \<Longrightarrow>
      sound s' \<and> out s' = out s + 1 \<and> limit s' = limit s \<and> out s' \<le> limit s'"
    and take_no: "sound s \<Longrightarrow> take1 s = (False, s') \<Longrightarrow> s' = s"
    and give_ok: "sound s \<Longrightarrow> 0 < out s \<Longrightarrow>
      \<exists>s'. give1 s = (Inr (), s') \<and> sound s' \<and> out s' = out s - 1 \<and> limit s' = limit s"
begin

text \<open>A ledger of holders is balanced when it lists exactly the permits that are out.\<close>

definition balanced :: "'s \<Rightarrow> 'h list \<Rightarrow> bool" where
  "balanced s hs \<longleftrightarrow> sound s \<and> out s = int (length hs)"

lemma balanced_take:
  "balanced s hs \<Longrightarrow> take1 s = (True, s') \<Longrightarrow> length hs' = length hs + 1 \<Longrightarrow>
   balanced s' hs' \<and> int (length hs') \<le> limit s'"
  unfolding balanced_def using take_ok by fastforce

lemma balanced_give:
  "balanced s hs \<Longrightarrow> length hs = length hs' + 1 \<Longrightarrow>
   \<exists>s'. give1 s = (Inr (), s') \<and> balanced s' hs' \<and> limit s' = limit s"
  unfolding balanced_def using give_ok [of s] by fastforce

lemma balanced_blocked: "balanced s hs \<Longrightarrow> take1 s = (False, s') \<Longrightarrow> s' = s \<and> free s \<le> 0"
  unfolding balanced_def using take_no take_free by fastforce

end

text \<open>A semaphore nobody waits on is such a pool.\<close>

definition sem_idle :: "semaphore \<Rightarrow> bool" where
  "sem_idle s \<longleftrightarrow> sem_wf s \<and> sem_waiters s = []"

interpretation sem: permit_pool sem_idle held capacity available tryAcquire release
proof
  fix s s' :: semaphore
  assume s: "sem_idle s"
  then show "0 \<le> held s" by (simp add: sem_idle_def sem_wf_def)
  show "fst (tryAcquire s) = (0 < available s)" by (simp add: tryAcquire_def available_def)
  show "sem_idle s' \<and> held s' = held s + 1 \<and> capacity s' = capacity s \<and> held s' \<le> capacity s'"
    if "tryAcquire s = (True, s')"
    using that s by (auto simp: tryAcquire_def sem_idle_def capacity_def sem_defs split: if_splits)
  show "s' = s" if "tryAcquire s = (False, s')"
    using that by (auto simp: tryAcquire_def split: if_splits)
  show "\<exists>s'. release s = (Inr (), s') \<and> sem_idle s' \<and> held s' = held s - 1 \<and> capacity s' = capacity s"
    if "0 < held s"
    using that s by (auto simp: release_eq sem_idle_def capacity_def sem_defs)
qed

lemma resize_idle:
  assumes "sem_idle s" and "0 \<le> sem_capacity s"
  shows "sem_idle (resize n s) \<and> held (resize n s) = held s \<and> 0 \<le> sem_capacity (resize n s)"
proof (cases "floor_capacity n")
  case (Some c)
  then have "1 \<le> c" by (cases n) auto
  with Some assms show ?thesis
    by (auto simp: resize_def Let_def grow_def pay_debt_eq grant_many_eq all_queued_def shrink_def
        sem_idle_def sem_wf_def held_def min_def)
qed (simp add: resize_def assms)

lemma new_idle: "0 \<le> c \<Longrightarrow> sem_idle (new_semaphore c) \<and> held (new_semaphore c) = 0"
  by (simp add: sem_idle_def new_semaphore_def sem_defs)

end
