(* ===== verification/Child_Scheduler.thy ===== *)
theory Child_Scheduler
  imports Semaphore
begin

text \<open>
  The child-team scheduler, \<open>src/src/server/agent/child-team-scheduler.ts\<close>: one permit pool
  per root goal, a queue of children waiting for a permit, retries with timers, the repair of an
  unavailable lead and the circuit breaker. What the scheduler asks of its environment
  (\<open>ChildTeamSchedulerDeps\<close>) is the record \<open>sched_env\<close>, constant during one call; a start
  either returns at once, stays pending (a promise) or throws. Promise and timer callbacks are
  operations of their own. Request objects live in a heap, because callbacks keep a reference to
  a request that may have been superseded. What the environment is told is the log \<open>events\<close>.
\<close>

section \<open>State\<close>

record child_view =
  cv_archived :: bool
  cv_rootGoalId :: "string option"
  cv_parentGoalId :: "string option"
  cv_paused :: bool

record failure =
  f_code :: string
  f_reason :: string

text \<open>A thrown value: its string \<open>code\<close> and \<open>message\<close> if it has them, and \<open>String(err)\<close>.\<close>

record thrown =
  err_code :: "string option"
  err_message :: "string option"
  err_shown :: string

datatype start_result = Start_done | Start_pending | Start_throws thrown

record sched_env =
  env_resolveCap :: "string \<Rightarrow> int option" \<comment> \<open>\<open>None\<close>: not finite\<close>
  env_getChild :: "string \<Rightarrow> child_view option"
  env_startChildTeam :: "string \<Rightarrow> nat \<Rightarrow> start_result" \<comment> \<open>child and attempt\<close>
  env_hasLiveTeam :: "string \<Rightarrow> bool"
  env_canRepair :: bool \<comment> \<open>\<open>repairUnavailableLead\<close> is given\<close>
  env_now :: int

record request_state =
  rq_generation :: nat
  rq_attempts :: nat
  rq_terminal :: bool
  rq_repairAttempted :: bool
  rq_timer :: "(int \<times> string) option" \<comment> \<open>the armed retry timer: its delay and the root of its callback\<close>

record watchdog =
  wd_count :: nat
  wd_startedAt :: int
  wd_tripped :: bool

datatype sched_event =
    Child_recovery string string string string bool \<comment> \<open>root, child, code, reason, retryable\<close>
  | Root_recovery string "string list"
  | Child_cleared string
  | Root_cleared string
  | Start_called string nat
  | Repair_called string

record sched =
  semaphores :: "string \<rightharpoonup> semaphore"
  pending :: "string \<rightharpoonup> string list"
  holding :: "string \<rightharpoonup> (string \<times> nat) list"
  childRoot :: "string \<rightharpoonup> string"
  requests :: "string \<rightharpoonup> nat"
  watchdogs :: "string \<rightharpoonup> watchdog"
  rq_heap :: "nat \<rightharpoonup> request_state"
  rq_next :: nat
  events :: "sched_event list"

datatype StartOutcome = Started | Capacity_blocked

datatype sched_error = Over_release int | Out_of_fuel

definition new_sched :: sched where
  "new_sched = \<lparr>semaphores = Map.empty, pending = Map.empty, holding = Map.empty,
     childRoot = Map.empty, requests = Map.empty, watchdogs = Map.empty,
     rq_heap = Map.empty, rq_next = 0, events = []\<rparr>"

definition PERMANENT_CODES :: "string list" where
  "PERMANENT_CODES = [''TEAM_ALREADY_ACTIVE'', ''GOAL_NOT_FOUND'', ''GOAL_ARCHIVED'',
     ''TEAM_DISABLED'', ''GOAL_BLOCKED'', ''GOAL_COMPLETE'', ''GOAL_SHELVED'', ''GOAL_PAUSED'']"

definition MAX_TRANSIENT_ATTEMPTS :: nat where "MAX_TRANSIENT_ATTEMPTS = 8"
definition RETRY_BASE_MS :: int where "RETRY_BASE_MS = 100"
definition RETRY_MAX_MS :: int where "RETRY_MAX_MS = 5000"
definition WATCHDOG_LIMIT :: nat where "WATCHDOG_LIMIT = 32"
definition WATCHDOG_WINDOW_MS :: int where "WATCHDOG_WINDOW_MS = 1000"

section \<open>Bookkeeping\<close>

definition emit :: "sched_event \<Rightarrow> sched \<Rightarrow> sched" where
  "emit e st = st\<lparr>events := events st @ [e]\<rparr>"

definition queue :: "sched \<Rightarrow> string \<Rightarrow> string list" where
  "queue st rt = or_empty (pending st rt)"

definition held_by :: "sched \<Rightarrow> string \<Rightarrow> (string \<times> nat) list" where
  "held_by st rt = or_empty (holding st rt)"

definition request :: "sched \<Rightarrow> string \<Rightarrow> request_state option" where
  "request st c = (case requests st c of None \<Rightarrow> None | Some i \<Rightarrow> rq_heap st i)"

text \<open>Assign to the fields of the request object \<open>i\<close>.\<close>

definition set_request :: "nat \<Rightarrow> (request_state \<Rightarrow> request_state) \<Rightarrow> sched \<Rightarrow> sched" where
  "set_request i f st = st\<lparr>rq_heap := (rq_heap st)(i := map_option f (rq_heap st i))\<rparr>"

definition rootOf :: "sched_env \<Rightarrow> sched \<Rightarrow> string \<Rightarrow> string option" where
  "rootOf env st c =
     (case Option.bind (env_getChild env c) cv_rootGoalId of
        Some r \<Rightarrow> Some r
      | None \<Rightarrow>
        (case Option.bind (env_getChild env c) cv_parentGoalId of
           Some p \<Rightarrow> Some p
         | None \<Rightarrow> childRoot st c))"

definition child_paused :: "sched_env \<Rightarrow> string \<Rightarrow> bool" where
  "child_paused env c = (case env_getChild env c of None \<Rightarrow> False | Some v \<Rightarrow> cv_paused v)"

definition getSemaphore :: "sched_env \<Rightarrow> string \<Rightarrow> sched \<Rightarrow> semaphore \<times> sched" where
  "getSemaphore env rt st =
     (case semaphores st rt of
        Some sem \<Rightarrow> (sem, st)
      | None \<Rightarrow>
        let sem = new_semaphore (case env_resolveCap env rt of Some c \<Rightarrow> c | None \<Rightarrow> 3) in
        (sem, st\<lparr>semaphores := (semaphores st)(rt \<mapsto> sem)\<rparr>))"

definition newRequest :: "string \<Rightarrow> sched \<Rightarrow> nat \<times> sched" where
  "newRequest c st =
     (let gen = (case request st c of None \<Rightarrow> 0 | Some old \<Rightarrow> rq_generation old) + 1;
          i = rq_next st in
      (i, st\<lparr>requests := (requests st)(c \<mapsto> i),
             rq_heap := (rq_heap st)(i \<mapsto> \<lparr>rq_generation = gen, rq_attempts = 0,
               rq_terminal = False, rq_repairAttempted = False, rq_timer = None\<rparr>),
             rq_next := i + 1\<rparr>))"

definition clearRequest :: "string \<Rightarrow> sched \<Rightarrow> sched" where
  "clearRequest c st = st\<lparr>requests := (requests st)(c := None)\<rparr>"

definition markHolding :: "string \<Rightarrow> string \<Rightarrow> nat \<Rightarrow> sched \<Rightarrow> sched" where
  "markHolding rt c gen st =
     st\<lparr>holding := (holding st)(rt \<mapsto> AList.update c gen (held_by st rt))\<rparr>"

definition isHolding :: "sched \<Rightarrow> string \<Rightarrow> string \<Rightarrow> bool" where
  "isHolding st rt c = (map_of (held_by st rt) c \<noteq> None)"

text \<open>\<open>_releaseHeldStart\<close>; the generation is \<open>None\<close> when the argument is omitted.\<close>

definition releaseHeldStart :: "string \<Rightarrow> string \<Rightarrow> nat option \<Rightarrow> sched \<Rightarrow> bool \<times> sched" where
  "releaseHeldStart rt c gen st =
     (case map_of (held_by st rt) c of
        None \<Rightarrow> (False, st)
      | Some g \<Rightarrow>
        if gen \<noteq> None \<and> Some g \<noteq> gen then (False, st)
        else (True, st\<lparr>holding := (holding st)(rt \<mapsto> AList.delete c (held_by st rt))\<rparr>))"

definition enqueue :: "string \<Rightarrow> string \<Rightarrow> sched \<Rightarrow> sched" where
  "enqueue rt c st =
     (let q = queue st rt in
      st\<lparr>pending := (pending st)(rt \<mapsto> (if c \<in> set q then q else q @ [c]))\<rparr>)"

definition removePending :: "string \<Rightarrow> string \<Rightarrow> sched \<Rightarrow> sched" where
  "removePending rt c st =
     (case pending st rt of
        None \<Rightarrow> st
      | Some q \<Rightarrow> st\<lparr>pending := (pending st)(rt \<mapsto> remove1 c q)\<rparr>)"

definition dequeue_at :: "string \<Rightarrow> nat \<Rightarrow> sched \<Rightarrow> sched" where
  "dequeue_at rt i st =
     (let q = queue st rt in
      st\<lparr>pending := (pending st)(rt \<mapsto> take i q @ drop (i + 1) q)\<rparr>)"

text \<open>Forget a child: its request and its root.\<close>

definition drop_child :: "string \<Rightarrow> sched \<Rightarrow> sched" where
  "drop_child c st = (clearRequest c st)\<lparr>childRoot := (childRoot st)(c := None)\<rparr>"

definition put_semaphore :: "string \<Rightarrow> semaphore \<Rightarrow> sched \<Rightarrow> sched" where
  "put_semaphore rt sem st = st\<lparr>semaphores := (semaphores st)(rt \<mapsto> sem)\<rparr>"

text \<open>\<open>sem.release()\<close> on the pool of a root; a thrown over-release propagates.\<close>

definition release_permit :: "string \<Rightarrow> sched \<Rightarrow> sched_error + sched" where
  "release_permit rt st =
     (case semaphores st rt of
        None \<Rightarrow> Inr st
      | Some sem \<Rightarrow>
        (case release sem of
           (Inl e, sem') \<Rightarrow> Inl (Over_release e)
         | (Inr _, sem') \<Rightarrow> Inr (put_semaphore rt sem' st)))"

definition clearWatchdog :: "string \<Rightarrow> bool \<Rightarrow> sched \<Rightarrow> sched" where
  "clearWatchdog rt notify st =
     (let tripped = (case watchdogs st rt of None \<Rightarrow> False | Some w \<Rightarrow> wd_tripped w);
          st1 = st\<lparr>watchdogs := (watchdogs st)(rt := None)\<rparr> in
      if tripped \<and> notify then emit (Root_cleared rt) st1 else st1)"

definition recordUnproductiveRedrive :: "sched_env \<Rightarrow> string \<Rightarrow> sched \<Rightarrow> bool \<times> sched" where
  "recordUnproductiveRedrive env rt st =
     (let fresh = \<lparr>wd_count = 0, wd_startedAt = env_now env, wd_tripped = False\<rparr>;
          w0 = (case watchdogs st rt of
                  None \<Rightarrow> fresh
                | Some w \<Rightarrow> if env_now env - wd_startedAt w > WATCHDOG_WINDOW_MS then fresh else w);
          w = w0\<lparr>wd_count := wd_count w0 + 1\<rparr>;
          st1 = st\<lparr>watchdogs := (watchdogs st)(rt \<mapsto> w)\<rparr> in
      if wd_count w \<le> WATCHDOG_LIMIT \<or> wd_tripped w then (wd_tripped w, st1)
      else (True, emit (Root_recovery rt (js_uniq (queue st rt)))
              (st1\<lparr>watchdogs := (watchdogs st1)(rt \<mapsto> w\<lparr>wd_tripped := True\<rparr>)\<rparr>)))"

definition discardIfLive :: "sched_env \<Rightarrow> string option \<Rightarrow> string \<Rightarrow> sched \<Rightarrow> bool \<times> sched" where
  "discardIfLive env rt c st =
     (if \<not> env_hasLiveTeam env c then (False, st)
      else
        let st1 = (if truthy rt then removePending (the rt) c st else st);
            st2 = clearRequest c st1 in
        (True, emit (Child_cleared c) (st2\<lparr>childRoot := (childRoot st2)(c := None)\<rparr>)))"

section \<open>Outcomes of a start\<close>

definition to_failure :: "thrown \<Rightarrow> string \<Rightarrow> failure" where
  "to_failure e fallback =
     \<lparr>f_code = (case err_code e of Some c \<Rightarrow> c | None \<Rightarrow> fallback),
      f_reason = (case err_message e of Some m \<Rightarrow> m | None \<Rightarrow> err_shown e)\<rparr>"

definition needsOperatorAction :: "string \<Rightarrow> bool" where
  "needsOperatorAction code =
     (code \<notin> set [''GOAL_NOT_FOUND'', ''GOAL_COMPLETE'', ''GOAL_ARCHIVED'', ''GOAL_BLOCKED'', ''GOAL_PAUSED''])"

definition retry_delay :: "nat \<Rightarrow> int" where
  "retry_delay attempts = min (RETRY_BASE_MS * 2 ^ (attempts - 1)) RETRY_MAX_MS"

text \<open>\<open>_scheduleRetry\<close> of the request object \<open>i\<close>.\<close>

definition scheduleRetry :: "string \<Rightarrow> string \<Rightarrow> nat \<Rightarrow> int option \<Rightarrow> sched \<Rightarrow> sched" where
  "scheduleRetry rt c i forcedDelay st =
     (case rq_heap st i of
        None \<Rightarrow> st
      | Some r \<Rightarrow>
        if rq_terminal r \<or> requests st c \<noteq> Some i then st
        else
          let delay = (case forcedDelay of Some d \<Rightarrow> d | None \<Rightarrow> retry_delay (rq_attempts r)) in
          set_request i (\<lambda>r. r\<lparr>rq_timer := Some (delay, rt)\<rparr>) (enqueue rt c st))"

text \<open>\<open>_terminal\<close> of the request object \<open>i\<close>.\<close>

definition make_terminal ::
  "sched_env \<Rightarrow> string \<Rightarrow> string \<Rightarrow> nat \<Rightarrow> failure \<Rightarrow> bool \<Rightarrow> sched \<Rightarrow> sched" where
  "make_terminal env rt c i f retryable st =
     (case rq_heap st i of
        None \<Rightarrow> st
      | Some r \<Rightarrow>
        if rq_terminal r then st
        else
          let st1 = removePending rt c (set_request i (\<lambda>r. r\<lparr>rq_terminal := True\<rparr>) st);
              st2 = (if env_getChild env c \<noteq> None
                     then emit (Child_recovery rt c (f_code f) (f_reason f) retryable) st1 else st1) in
          clearWatchdog rt True st2)"

definition onStartSuccess :: "string \<Rightarrow> string \<Rightarrow> nat \<Rightarrow> sched \<Rightarrow> sched" where
  "onStartSuccess rt c gen st =
     (case request st c of
        None \<Rightarrow> st
      | Some r \<Rightarrow>
        if rq_generation r \<noteq> gen then st
        else clearWatchdog rt True (emit (Child_cleared c) (clearRequest c st)))"

text \<open>
  \<open>_onStartFailure\<close> up to the re-drive it ends with: \<open>Some imm\<close> asks for
  \<open>_startNextEligible(root, imm)\<close>, \<open>None\<close> for nothing.
\<close>

definition settle_failure ::
  "sched_env \<Rightarrow> string \<Rightarrow> string \<Rightarrow> nat \<Rightarrow> failure \<Rightarrow> sched \<Rightarrow> bool option \<times> sched" where
  "settle_failure env rt c i f st =
     (case rq_heap st i of
        None \<Rightarrow> (None, st)
      | Some r \<Rightarrow>
        if rq_repairAttempted r \<and> f_code f = ''TEAM_LEAD_UNAVAILABLE''
        then (Some False, make_terminal env rt c i f True st)
        else if f_code f = ''TEAM_LEAD_UNAVAILABLE'' \<and> env_canRepair env \<and> \<not> rq_repairAttempted r
        then (Some False, emit (Repair_called c) (set_request i (\<lambda>r. r\<lparr>rq_repairAttempted := True\<rparr>) st))
        else if f_code f \<in> set PERMANENT_CODES \<or> f_code f = ''TEAM_LEAD_UNAVAILABLE''
        then (Some False, make_terminal env rt c i f (needsOperatorAction (f_code f)) st)
        else if rq_attempts r \<ge> MAX_TRANSIENT_ATTEMPTS
        then (Some False, make_terminal env rt c i
               \<lparr>f_code = ''RETRY_EXHAUSTED'', f_reason = f_code f @ '': '' @ f_reason f\<rparr> True st)
        else (Some True, scheduleRetry rt c i None st))"

definition start_failure ::
  "sched_env \<Rightarrow> string \<Rightarrow> string \<Rightarrow> thrown \<Rightarrow> nat \<Rightarrow> sched \<Rightarrow> sched_error + bool option \<times> sched" where
  "start_failure env rt c err gen st =
     (case releaseHeldStart rt c (Some gen) st of
        (False, st1) \<Rightarrow> Inr (None, st1)
      | (True, st1) \<Rightarrow>
        bind_res (release_permit rt st1) (\<lambda>st2.
          case requests st2 c of
            None \<Rightarrow> Inr (None, st2)
          | Some i \<Rightarrow>
            if map_option rq_generation (rq_heap st2 i) \<noteq> Some gen then Inr (None, st2)
            else Inr (settle_failure env rt c i (to_failure err ''START_FAILED'') st2)))"

text \<open>\<open>_startHolding\<close> with the re-drive of its synchronous failure.\<close>

definition begin_start :: "string \<Rightarrow> string \<Rightarrow> sched \<Rightarrow> request_state \<times> sched" where
  "begin_start rt c st =
     (let (i, st1) = (case requests st c of Some i \<Rightarrow> (i, st) | None \<Rightarrow> newRequest c st);
          st2 = set_request i (\<lambda>r. r\<lparr>rq_attempts := rq_attempts r + 1\<rparr>) st1;
          r = the (rq_heap st2 i) in
      (r, emit (Start_called c (rq_attempts r)) (markHolding rt c (rq_generation r) st2)))"

definition start_holding ::
  "sched_env \<Rightarrow> string \<Rightarrow> string \<Rightarrow> sched \<Rightarrow> sched_error + bool \<times> bool option \<times> sched" where
  "start_holding env rt c st =
     (case begin_start rt c st of (r, st1) \<Rightarrow>
      case env_startChildTeam env c (rq_attempts r) of
        Start_pending \<Rightarrow> Inr (True, None, st1)
      | Start_done \<Rightarrow> Inr (True, None, onStartSuccess rt c (rq_generation r) st1)
      | Start_throws err \<Rightarrow>
        bind_res (start_failure env rt c err (rq_generation r) st1) (\<lambda>(d, st2). Inr (False, d, st2)))"

section \<open>Driving the queue of a root\<close>

text \<open>The guards of \<open>_startNextEligible\<close>: whether to go on to the loop.\<close>

definition drive_open :: "sched_env \<Rightarrow> string \<Rightarrow> bool \<Rightarrow> sched \<Rightarrow> bool \<times> sched" where
  "drive_open env rt imm st =
     (case (if imm then recordUnproductiveRedrive env rt st else (False, st)) of
        (True, st1) \<Rightarrow> (False, st1)
      | (False, st1) \<Rightarrow>
        (case watchdogs st1 rt of
           None \<Rightarrow> (True, st1)
         | Some w \<Rightarrow>
           if wd_tripped w \<and> env_now env - wd_startedAt w \<le> WATCHDOG_WINDOW_MS then (False, st1)
           else if wd_tripped w then (True, clearWatchdog rt True st1)
           else (True, st1)))"

definition has_timer :: "sched \<Rightarrow> string \<Rightarrow> bool" where
  "has_timer st c = (case request st c of None \<Rightarrow> False | Some r \<Rightarrow> rq_timer r \<noteq> None)"

text \<open>
  The loop of \<open>_startNextEligible\<close> at index \<open>i\<close>. A start that fails at once re-enters
  \<open>_startNextEligible\<close> before the loop goes on, so the loop is recursive in two ways; the fuel
  bounds the depth (\<open>drive_returns\<close> below shows that \<open>drive_fuel\<close> is enough).
\<close>

fun drive_loop :: "nat \<Rightarrow> sched_env \<Rightarrow> string \<Rightarrow> nat \<Rightarrow> sched \<Rightarrow> sched_error + sched" where
  "drive_loop 0 env rt i st = Inl Out_of_fuel"
| "drive_loop (Suc n) env rt i st =
     (case semaphores st rt of
        None \<Rightarrow> Inr st
      | Some sem \<Rightarrow>
        if \<not> (i < length (queue st rt) \<and> available sem > 0) then Inr st
        else
          let c = queue st rt ! i in
          (case discardIfLive env (Some rt) c st of
             (True, st1) \<Rightarrow> drive_loop n env rt i st1
           | (False, _) \<Rightarrow>
             if has_timer st c then drive_loop n env rt (i + 1) st
             else
               (case env_getChild env c of
                  None \<Rightarrow> drive_loop n env rt i (drop_child c (dequeue_at rt i st))
                | Some v \<Rightarrow>
                  if cv_archived v then drive_loop n env rt i (drop_child c (dequeue_at rt i st))
                  else if cv_paused v then drive_loop n env rt (i + 1) st
                  else
                    (case tryAcquire sem of
                       (False, _) \<Rightarrow> Inr st
                     | (True, sem') \<Rightarrow>
                       bind_res (start_holding env rt c (dequeue_at rt i (put_semaphore rt sem' st)))
                         (\<lambda>(_, d, st2).
                            case d of
                              None \<Rightarrow> drive_loop n env rt i st2
                            | Some imm \<Rightarrow>
                              (case drive_open env rt imm st2 of
                                 (False, st3) \<Rightarrow> drive_loop n env rt i st3
                               | (True, st3) \<Rightarrow>
                                 bind_res (drive_loop n env rt 0 st3) (\<lambda>st4.
                                   drive_loop n env rt i st4)))))))"

definition drive_fuel :: "string \<Rightarrow> sched \<Rightarrow> nat" where
  "drive_fuel rt st = (length (queue st rt) + 1) * (length (queue st rt) + 1)"

definition startNextEligible :: "sched_env \<Rightarrow> string \<Rightarrow> bool \<Rightarrow> sched \<Rightarrow> sched_error + sched" where
  "startNextEligible env rt imm st =
     (case drive_open env rt imm st of
        (False, st1) \<Rightarrow> Inr st1
      | (True, st1) \<Rightarrow> drive_loop (drive_fuel rt st1) env rt 0 st1)"

text \<open>The re-drive a failure asked for.\<close>

definition redrive :: "sched_env \<Rightarrow> string \<Rightarrow> bool option \<Rightarrow> sched \<Rightarrow> sched_error + sched" where
  "redrive env rt d st = (case d of None \<Rightarrow> Inr st | Some imm \<Rightarrow> startNextEligible env rt imm st)"

section \<open>The operations\<close>

definition sched_resize :: "sched_env \<Rightarrow> string \<Rightarrow> js_num \<Rightarrow> sched \<Rightarrow> sched_error + bool \<times> sched" where
  "sched_resize env rt newMax st =
     (case semaphores st rt of
        None \<Rightarrow> Inr (False, st)
      | Some sem \<Rightarrow>
        bind_res (startNextEligible env rt False (put_semaphore rt (resize newMax sem) st))
          (\<lambda>st1. Inr (True, st1)))"

definition outcome :: "sched \<Rightarrow> string \<Rightarrow> string \<Rightarrow> StartOutcome" where
  "outcome st rt c = (if isHolding st rt c then Started else Capacity_blocked)"

definition fresh_start :: "sched_env \<Rightarrow> string \<Rightarrow> string \<Rightarrow> sched \<Rightarrow> sched_error + StartOutcome \<times> sched" where
  "fresh_start env rt c st =
     (let st1 = clearWatchdog rt True (emit (Child_cleared c) (snd (newRequest c st)));
          (sem, st2) = getSemaphore env rt st1 in
      if child_paused env c then Inr (Capacity_blocked, enqueue rt c st2)
      else
        (case tryAcquire sem of
           (True, sem') \<Rightarrow>
             bind_res (start_holding env rt c (put_semaphore rt sem' st2)) (\<lambda>(ok, d, st3).
               bind_res (redrive env rt d st3) (\<lambda>st4.
                 Inr (if ok then Started else Capacity_blocked, st4)))
         | (False, _) \<Rightarrow> Inr (Capacity_blocked, enqueue rt c st2)))"

definition tracked_start :: "sched_env \<Rightarrow> string \<Rightarrow> string \<Rightarrow> sched \<Rightarrow> sched_error + StartOutcome \<times> sched" where
  "tracked_start env rt c st =
     (case request st c of
        Some r \<Rightarrow>
          if \<not> rq_terminal r then
            bind_res (if rq_timer r = None \<and> \<not> child_paused env c
                      then startNextEligible env rt False st else Inr st)
              (\<lambda>st1. Inr (outcome st1 rt c, st1))
          else fresh_start env rt c st
      | None \<Rightarrow> fresh_start env rt c st)"

definition requestStart :: "sched_env \<Rightarrow> string \<Rightarrow> sched \<Rightarrow> sched_error + StartOutcome \<times> sched" where
  "requestStart env c st =
     (let root_id = rootOf env st c in
      if truthy root_id \<and> isHolding st (the root_id) c then Inr (Started, st)
      else
        (case discardIfLive env root_id c st of
           (True, st1) \<Rightarrow> Inr (Started, st1)
         | (False, st1) \<Rightarrow>
           if \<not> truthy root_id then Inr (Started, emit (Start_called c 0) st1)
           else
             tracked_start env (the root_id) c
               (st1\<lparr>childRoot := (childRoot st1)(c \<mapsto> the root_id)\<rparr>)))"

definition notifyTerminal :: "sched_env \<Rightarrow> string \<Rightarrow> sched \<Rightarrow> sched_error + sched" where
  "notifyTerminal env c st =
     (let root_id = (case childRoot st c of Some r \<Rightarrow> Some r | None \<Rightarrow> rootOf env st c) in
      if \<not> truthy root_id then Inr st
      else
        let rt = the root_id in
        (case releaseHeldStart rt c None st of (wasHolding, st1) \<Rightarrow>
         let st2 = drop_child c (removePending rt c st1);
             st3 = emit (Child_cleared c) st2 in
         bind_res (if wasHolding then release_permit rt st3 else Inr st3) (\<lambda>st4.
           startNextEligible env rt False (clearWatchdog rt True st4))))"

definition pendingCount :: "sched \<Rightarrow> string \<Rightarrow> nat" where
  "pendingCount st rt = length (queue st rt)"

definition isTracked :: "sched \<Rightarrow> string \<Rightarrow> bool" where
  "isTracked st c = (requests st c \<noteq> None \<or> childRoot st c \<noteq> None)"

definition retry :: "sched_env \<Rightarrow> string \<Rightarrow> sched \<Rightarrow> sched_error + StartOutcome \<times> sched" where
  "retry env c st = requestStart env c st"

definition retryRoot :: "sched_env \<Rightarrow> string \<Rightarrow> sched \<Rightarrow> sched_error + sched" where
  "retryRoot env rt st = startNextEligible env rt False (clearWatchdog rt False st)"

text \<open>The callbacks: a start promise that rejects, a retry timer, the two ends of a repair.\<close>

definition onStartFailure ::
  "sched_env \<Rightarrow> string \<Rightarrow> string \<Rightarrow> thrown \<Rightarrow> nat \<Rightarrow> sched \<Rightarrow> sched_error + sched" where
  "onStartFailure env rt c err gen st =
     bind_res (start_failure env rt c err gen st) (\<lambda>(d, st1). redrive env rt d st1)"

definition timer_fires :: "sched_env \<Rightarrow> string \<Rightarrow> string \<Rightarrow> nat \<Rightarrow> sched \<Rightarrow> sched_error + sched" where
  "timer_fires env rt c gen st =
     (case requests st c of
        None \<Rightarrow> Inr st
      | Some i \<Rightarrow>
        (case rq_heap st i of
           None \<Rightarrow> Inr st
         | Some r \<Rightarrow>
           if rq_generation r \<noteq> gen \<or> rq_terminal r then Inr st
           else
             let st1 = set_request i (\<lambda>r. r\<lparr>rq_timer := None\<rparr>) st in
             (case env_getChild env c of
                None \<Rightarrow> Inr st1
              | Some v \<Rightarrow>
                if cv_archived v \<or> cv_paused v then Inr st1
                else startNextEligible env rt False (enqueue rt c st1))))"

definition repair_done :: "string \<Rightarrow> string \<Rightarrow> nat \<Rightarrow> sched \<Rightarrow> sched" where
  "repair_done rt c i st = scheduleRetry rt c i (Some 0) st"

definition repair_failed :: "sched_env \<Rightarrow> string \<Rightarrow> string \<Rightarrow> nat \<Rightarrow> thrown \<Rightarrow> sched \<Rightarrow> sched" where
  "repair_failed env rt c i err st =
     make_terminal env rt c i (to_failure err ''TEAM_LEAD_UNAVAILABLE'') True st"

end
