(* ===== verification/Scheduler_Safety.thy ===== *)
theory Scheduler_Safety
  imports Child_Scheduler
begin

text \<open>
  The child-team scheduler keeps its books: what each piece of bookkeeping changes, the
  invariant of the permits, queues and requests, that driving the queue of a root returns, that
  every operation and every current callback keeps the invariant, and runs showing what
  callbacks of superseded requests do.
\<close>

section \<open>How the bookkeeping acts on what can be observed\<close>

named_theorems sched_simps

lemma queue_upd [sched_simps]:
  "queue (emit e st) r = queue st r"
  "queue (set_request i f st) r = queue st r"
  "queue (clearRequest c st) r = queue st r"
  "queue (drop_child c st) r = queue st r"
  "queue (markHolding rt c g st) r = queue st r"
  "queue (put_semaphore rt sem st) r = queue st r"
  "queue (clearWatchdog rt b st) r = queue st r"
  "queue (snd (newRequest c st)) r = queue st r"
  "queue (enqueue rt c st) r =
     (if r = rt \<and> c \<notin> set (queue st rt) then queue st rt @ [c] else queue st r)"
  "queue (removePending rt c st) r = (if r = rt then remove1 c (queue st rt) else queue st r)"
  "queue (dequeue_at rt i st) r =
     (if r = rt then take i (queue st rt) @ drop (i + 1) (queue st rt) else queue st r)"
  "queue (st\<lparr>childRoot := m\<rparr>) r = queue st r"
  "queue (st\<lparr>watchdogs := w\<rparr>) r = queue st r"
  by (auto simp: queue_def emit_def set_request_def clearRequest_def drop_child_def markHolding_def
      put_semaphore_def clearWatchdog_def newRequest_def enqueue_def removePending_def
      dequeue_at_def or_empty_def Let_def split: option.splits)

lemma held_upd [sched_simps]:
  "held_by (emit e st) r = held_by st r"
  "held_by (set_request i f st) r = held_by st r"
  "held_by (clearRequest c st) r = held_by st r"
  "held_by (drop_child c st) r = held_by st r"
  "held_by (markHolding rt c g st) r =
     (if r = rt then AList.update c g (held_by st rt) else held_by st r)"
  "held_by (put_semaphore rt sem st) r = held_by st r"
  "held_by (clearWatchdog rt b st) r = held_by st r"
  "held_by (snd (newRequest c st)) r = held_by st r"
  "held_by (enqueue rt c st) r = held_by st r"
  "held_by (removePending rt c st) r = held_by st r"
  "held_by (dequeue_at rt i st) r = held_by st r"
  "held_by (st\<lparr>childRoot := m\<rparr>) r = held_by st r"
  "held_by (st\<lparr>watchdogs := w\<rparr>) r = held_by st r"
  by (auto simp: held_by_def emit_def set_request_def clearRequest_def drop_child_def markHolding_def
      put_semaphore_def clearWatchdog_def newRequest_def enqueue_def removePending_def
      dequeue_at_def or_empty_def Let_def split: option.splits)

lemma semaphores_upd [sched_simps]:
  "semaphores (emit e st) = semaphores st"
  "semaphores (set_request i f st) = semaphores st"
  "semaphores (clearRequest c st) = semaphores st"
  "semaphores (drop_child c st) = semaphores st"
  "semaphores (markHolding rt c g st) = semaphores st"
  "semaphores (put_semaphore rt sem st) = (semaphores st)(rt \<mapsto> sem)"
  "semaphores (clearWatchdog rt b st) = semaphores st"
  "semaphores (snd (newRequest c st)) = semaphores st"
  "semaphores (enqueue rt c st) = semaphores st"
  "semaphores (removePending rt c st) = semaphores st"
  "semaphores (dequeue_at rt i st) = semaphores st"
  by (simp_all add: emit_def set_request_def clearRequest_def drop_child_def markHolding_def
      put_semaphore_def clearWatchdog_def newRequest_def enqueue_def removePending_def
      dequeue_at_def Let_def split: option.splits)

lemma childRoot_upd [sched_simps]:
  "childRoot (emit e st) = childRoot st"
  "childRoot (set_request i f st) = childRoot st"
  "childRoot (clearRequest c st) = childRoot st"
  "childRoot (drop_child c st) = (childRoot st)(c := None)"
  "childRoot (markHolding rt c g st) = childRoot st"
  "childRoot (put_semaphore rt sem st) = childRoot st"
  "childRoot (clearWatchdog rt b st) = childRoot st"
  "childRoot (snd (newRequest c st)) = childRoot st"
  "childRoot (enqueue rt c st) = childRoot st"
  "childRoot (removePending rt c st) = childRoot st"
  "childRoot (dequeue_at rt i st) = childRoot st"
  by (simp_all add: emit_def set_request_def clearRequest_def drop_child_def markHolding_def
      put_semaphore_def clearWatchdog_def newRequest_def enqueue_def removePending_def
      dequeue_at_def Let_def split: option.splits)

lemma requests_upd [sched_simps]:
  "requests (emit e st) = requests st"
  "requests (set_request i f st) = requests st"
  "requests (clearRequest c st) = (requests st)(c := None)"
  "requests (drop_child c st) = (requests st)(c := None)"
  "requests (markHolding rt c g st) = requests st"
  "requests (put_semaphore rt sem st) = requests st"
  "requests (clearWatchdog rt b st) = requests st"
  "requests (snd (newRequest c st)) = (requests st)(c \<mapsto> rq_next st)"
  "requests (enqueue rt c st) = requests st"
  "requests (removePending rt c st) = requests st"
  "requests (dequeue_at rt i st) = requests st"
  by (simp_all add: emit_def set_request_def clearRequest_def drop_child_def markHolding_def
      put_semaphore_def clearWatchdog_def newRequest_def enqueue_def removePending_def
      dequeue_at_def Let_def split: option.splits)

lemma heap_upd [sched_simps]:
  "rq_heap (emit e st) = rq_heap st"
  "rq_heap (set_request i f st) = (rq_heap st)(i := map_option f (rq_heap st i))"
  "rq_heap (clearRequest c st) = rq_heap st"
  "rq_heap (drop_child c st) = rq_heap st"
  "rq_heap (markHolding rt c g st) = rq_heap st"
  "rq_heap (put_semaphore rt sem st) = rq_heap st"
  "rq_heap (clearWatchdog rt b st) = rq_heap st"
  "rq_heap (enqueue rt c st) = rq_heap st"
  "rq_heap (removePending rt c st) = rq_heap st"
  "rq_heap (dequeue_at rt i st) = rq_heap st"
  by (simp_all add: emit_def set_request_def clearRequest_def drop_child_def markHolding_def
      put_semaphore_def clearWatchdog_def newRequest_def enqueue_def removePending_def
      dequeue_at_def Let_def split: option.splits)

lemma next_upd [sched_simps]:
  "rq_next (emit e st) = rq_next st"
  "rq_next (set_request i f st) = rq_next st"
  "rq_next (clearRequest c st) = rq_next st"
  "rq_next (drop_child c st) = rq_next st"
  "rq_next (markHolding rt c g st) = rq_next st"
  "rq_next (put_semaphore rt sem st) = rq_next st"
  "rq_next (clearWatchdog rt b st) = rq_next st"
  "rq_next (snd (newRequest c st)) = rq_next st + 1"
  "rq_next (enqueue rt c st) = rq_next st"
  "rq_next (removePending rt c st) = rq_next st"
  "rq_next (dequeue_at rt i st) = rq_next st"
  by (simp_all add: emit_def set_request_def clearRequest_def drop_child_def markHolding_def
      put_semaphore_def clearWatchdog_def newRequest_def enqueue_def removePending_def
      dequeue_at_def Let_def split: option.splits)

section \<open>The invariant\<close>

text \<open>\<open>R\<close> gives the root of a child; it does not change during a run.\<close>

definition ids_sane :: "sched \<Rightarrow> bool" where
  "ids_sane st \<longleftrightarrow>
     (\<forall>c i. requests st c = Some i \<longrightarrow> i < rq_next st \<and> rq_heap st i \<noteq> None) \<and>
     (\<forall>c c' i. requests st c = Some i \<longrightarrow> requests st c' = Some i \<longrightarrow> c = c')"

definition child_inv :: "(string \<Rightarrow> string) \<Rightarrow> sched \<Rightarrow> string \<Rightarrow> bool" where
  "child_inv R st c \<longleftrightarrow>
     (\<forall>rt. c \<in> set (queue st rt) \<longrightarrow> rt = R c) \<and>
     (\<forall>rt. c \<in> fst ` set (held_by st rt) \<longrightarrow> rt = R c) \<and>
     (childRoot st c = None \<or> childRoot st c = Some (R c)) \<and>
     (requests st c \<noteq> None \<longrightarrow> childRoot st c \<noteq> None) \<and>
     (c \<in> set (queue st (R c)) \<longrightarrow>
        c \<notin> fst ` set (held_by st (R c)) \<and> (\<exists>r. request st c = Some r \<and> \<not> rq_terminal r)) \<and>
     (\<forall>r d rt. request st c = Some r \<longrightarrow> \<not> rq_terminal r \<longrightarrow> rq_timer r = Some (d, rt) \<longrightarrow>
        rt = R c \<and> c \<in> set (queue st rt))"

fun books :: "semaphore option \<Rightarrow> (string \<times> nat) list \<Rightarrow> bool" where
  "books None hs = (hs = [])"
| "books (Some s) hs = (sem.balanced s hs \<and> 0 \<le> sem_capacity s)"

definition root_inv :: "sched \<Rightarrow> string \<Rightarrow> bool" where
  "root_inv st rt \<longleftrightarrow>
     distinct (queue st rt) \<and> distinct (map fst (held_by st rt)) \<and>
     books (semaphores st rt) (held_by st rt)"

definition sched_inv :: "(string \<Rightarrow> string) \<Rightarrow> sched \<Rightarrow> bool" where
  "sched_inv R st \<longleftrightarrow> ids_sane st \<and> (\<forall>c. child_inv R st c) \<and> (\<forall>rt. root_inv st rt)"

text \<open>Every operation touches one child and the root of that child only.\<close>

definition touches :: "(string \<Rightarrow> string) \<Rightarrow> string \<Rightarrow> sched \<Rightarrow> sched \<Rightarrow> bool" where
  "touches R c st st' \<longleftrightarrow>
     (\<forall>c'. c' \<noteq> c \<longrightarrow>
        (\<forall>rt. (c' \<in> set (queue st' rt) \<longleftrightarrow> c' \<in> set (queue st rt)) \<and>
              (c' \<in> fst ` set (held_by st' rt) \<longleftrightarrow> c' \<in> fst ` set (held_by st rt))) \<and>
        childRoot st' c' = childRoot st c' \<and> requests st' c' = requests st c' \<and>
        request st' c' = request st c') \<and>
     (\<forall>rt. rt \<noteq> R c \<longrightarrow> queue st' rt = queue st rt \<and> held_by st' rt = held_by st rt \<and>
        semaphores st' rt = semaphores st rt)"

lemma inv_touches:
  assumes "sched_inv R st" and "touches R c st st'" and "ids_sane st'" and "child_inv R st' c"
    and "root_inv st' (R c)"
  shows "sched_inv R st'"
  unfolding sched_inv_def
proof (intro conjI allI)
  show "ids_sane st'" by fact
  fix c' show "child_inv R st' c'"
  proof (cases "c' = c")
    case False
    with assms(2) have same:
      "\<And>rt. c' \<in> set (queue st' rt) \<longleftrightarrow> c' \<in> set (queue st rt)"
      "\<And>rt. c' \<in> fst ` set (held_by st' rt) \<longleftrightarrow> c' \<in> fst ` set (held_by st rt)"
      "childRoot st' c' = childRoot st c'" "requests st' c' = requests st c'"
      "request st' c' = request st c'"
      unfolding touches_def by blast+
    from assms(1) have "child_inv R st c'" by (simp add: sched_inv_def)
    then show ?thesis unfolding child_inv_def same .
  qed (simp add: assms)
next
  fix rt show "root_inv st' rt"
  proof (cases "rt = R c")
    case False
    with assms(2) have same: "queue st' rt = queue st rt" "held_by st' rt = held_by st rt"
      "semaphores st' rt = semaphores st rt"
      unfolding touches_def by blast+
    from assms(1) have "root_inv st rt" by (simp add: sched_inv_def)
    then show ?thesis unfolding root_inv_def same .
  qed (simp add: assms)
qed

lemma request_other [sched_simps]:
  "ids_sane st \<Longrightarrow> requests st c = Some i \<Longrightarrow>
   request (set_request i f st) c' = (if c' = c then map_option f (request st c) else request st c')"
  by (auto simp: request_def sched_simps ids_sane_def split: option.splits)

lemma request_new [sched_simps]:
  "ids_sane st \<Longrightarrow> request (snd (newRequest c st)) c' =
     (if c' = c then Some \<lparr>rq_generation = (case request st c of None \<Rightarrow> 0 | Some old \<Rightarrow> rq_generation old) + 1,
        rq_attempts = 0, rq_terminal = False, rq_repairAttempted = False, rq_timer = None\<rparr>
      else request st c')"
  by (auto simp: request_def newRequest_def Let_def ids_sane_def split: option.splits)

lemma request_upd [sched_simps]:
  "request (emit e st) c' = request st c'"
  "request (clearRequest c st) c' = (if c' = c then None else request st c')"
  "request (drop_child c st) c' = (if c' = c then None else request st c')"
  "request (markHolding rt c g st) c' = request st c'"
  "request (put_semaphore rt sm st) c' = request st c'"
  "request (clearWatchdog rt b st) c' = request st c'"
  "request (enqueue rt c st) c' = request st c'"
  "request (removePending rt c st) c' = request st c'"
  "request (dequeue_at rt i st) c' = request st c'"
  "request (st\<lparr>childRoot := m\<rparr>) c' = request st c'"
  "request (st\<lparr>watchdogs := w\<rparr>) c' = request st c'"
  by (simp_all add: request_def sched_simps split: option.split)

lemma ids_upd [sched_simps]:
  "ids_sane (emit e st) = ids_sane st"
  "ids_sane st \<Longrightarrow> ids_sane (set_request i f st)"
  "ids_sane st \<Longrightarrow> ids_sane (clearRequest c st)"
  "ids_sane st \<Longrightarrow> ids_sane (drop_child c st)"
  "ids_sane (markHolding rt c g st) = ids_sane st"
  "ids_sane (put_semaphore rt sm st) = ids_sane st"
  "ids_sane (clearWatchdog rt b st) = ids_sane st"
  "ids_sane (enqueue rt c st) = ids_sane st"
  "ids_sane (removePending rt c st) = ids_sane st"
  "ids_sane (dequeue_at rt i st) = ids_sane st"
  "ids_sane (st\<lparr>childRoot := m\<rparr>) = ids_sane st"
  "ids_sane (st\<lparr>watchdogs := w\<rparr>) = ids_sane st"
  by (auto simp: ids_sane_def sched_simps)

lemma ids_new [sched_simps]: "ids_sane st \<Longrightarrow> ids_sane (snd (newRequest c st))"
  by (auto simp: ids_sane_def newRequest_def Let_def less_Suc_eq)


text \<open>Changes nobody's permits, queues or requests depend on.\<close>

definition same_core :: "sched \<Rightarrow> sched \<Rightarrow> bool" where
  "same_core st st' \<longleftrightarrow>
     queue st' = queue st \<and> held_by st' = held_by st \<and> semaphores st' = semaphores st \<and>
     childRoot st' = childRoot st \<and> requests st' = requests st \<and> rq_heap st' = rq_heap st \<and>
     rq_next st' = rq_next st"

lemma same_core_refl [simp]: "same_core st st"
  by (simp add: same_core_def)

lemma same_core_trans: "same_core a b \<Longrightarrow> same_core b c \<Longrightarrow> same_core a c"
  by (simp add: same_core_def)

lemma same_core_request: "same_core st st' \<Longrightarrow> request st' = request st"
  by (simp add: same_core_def request_def fun_eq_iff split: option.split)

lemma inv_same_core:
  assumes "same_core st st'" and "sched_inv R st"
  shows "sched_inv R st'"
proof -
  have eqs: "queue st' = queue st" "held_by st' = held_by st" "semaphores st' = semaphores st"
    "childRoot st' = childRoot st" "requests st' = requests st" "rq_heap st' = rq_heap st"
    "rq_next st' = rq_next st" "request st' = request st"
    using assms(1) same_core_request [OF assms(1)] by (simp_all add: same_core_def)
  show ?thesis
    using assms(2) unfolding sched_inv_def ids_sane_def child_inv_def root_inv_def eqs .
qed

lemma same_core_emit [simp]: "same_core st (emit e st)"
  by (simp add: same_core_def fun_eq_iff sched_simps)

lemma same_core_clearWatchdog [simp]: "same_core st (clearWatchdog rt b st)"
  by (simp add: same_core_def fun_eq_iff sched_simps)

lemma same_core_record: "recordUnproductiveRedrive env rt st = (b, st') \<Longrightarrow> same_core st st'"
  unfolding recordUnproductiveRedrive_def Let_def
  by (simp add: same_core_def fun_eq_iff sched_simps split: if_splits)
    (auto simp: sched_simps)

lemma same_core_open: "drive_open env rt imm st = (b, st') \<Longrightarrow> same_core st st'"
  by (auto simp: drive_open_def dest: same_core_record intro: same_core_trans
      split: prod.splits bool.splits option.splits if_splits)

text \<open>What each step of the bookkeeping needs to keep the invariant.\<close>

lemma sched_invD:
  assumes "sched_inv R st"
  shows "ids_sane st" "child_inv R st c" "root_inv st rt"
  using assms by (simp_all add: sched_inv_def)

lemma inv_queue_root: "sched_inv R st \<Longrightarrow> c \<in> set (queue st rt) \<Longrightarrow> rt = R c"
  by (simp add: sched_inv_def child_inv_def)

lemma inv_queued:
  assumes "sched_inv R st" and "c \<in> set (queue st rt)"
  shows "c \<notin> fst ` set (held_by st rt)" "\<exists>r. request st c = Some r \<and> \<not> rq_terminal r"
    "\<exists>i. requests st c = Some i"
proof -
  have q: "c \<in> set (queue st (R c))" using assms inv_queue_root by metis
  note ci = sched_invD(2) [OF assms(1), of c, unfolded child_inv_def]
  show "c \<notin> fst ` set (held_by st rt)" using ci q inv_queue_root [OF assms] by metis
  from ci q obtain r where r: "request st c = Some r" "\<not> rq_terminal r" by blast
  then show "\<exists>r. request st c = Some r \<and> \<not> rq_terminal r" by blast
  from r show "\<exists>i. requests st c = Some i" by (auto simp: request_def split: option.splits)
qed

lemma inv_enqueue:
  assumes inv: "sched_inv R st" and "c \<notin> fst ` set (held_by st (R c))"
    and "request st c = Some r" and "\<not> rq_terminal r"
  shows "sched_inv R (enqueue (R c) c st)"
proof (rule inv_touches [OF inv, of c])
  show "touches R c st (enqueue (R c) c st)" by (auto simp: touches_def sched_simps)
  show "ids_sane (enqueue (R c) c st)" using sched_invD(1) [OF inv] by (simp add: sched_simps)
  show "child_inv R (enqueue (R c) c st) c"
    using sched_invD(2) [OF inv, of c] assms(2-4)
    by (auto simp: child_inv_def sched_simps split: if_splits)
  show "root_inv (enqueue (R c) c st) (R c)"
    using sched_invD(3) [OF inv, of "R c"] by (auto simp: root_inv_def sched_simps)
qed

lemma inv_forget:
  assumes inv: "sched_inv R st" and "c \<notin> set q" and "distinct q"
    and "set q \<union> {c} = set (queue st (R c)) \<union> {c}"
    and "queue st' = (queue st)(R c := q)" and "held_by st' = held_by st"
    and "semaphores st' = semaphores st" and "requests st' = (requests st)(c := None)"
    and "rq_heap st' = rq_heap st" and "rq_next st' = rq_next st"
    and "childRoot st' = childRoot st \<or> childRoot st' = (childRoot st)(c := None)"
  shows "sched_inv R st'"
proof (rule inv_touches [OF inv, of c])
  have req: "request st' c' = (if c' = c then None else request st c')" for c'
    by (simp add: request_def assms split: option.split)
  show "touches R c st st'"
    unfolding touches_def
  proof (intro conjI allI impI)
    fix c' rt assume "c' \<noteq> c"
    then show "c' \<in> set (queue st' rt) \<longleftrightarrow> c' \<in> set (queue st rt)"
      using assms(4) unfolding assms(5) by auto
    show "childRoot st' c' = childRoot st c'" using assms(11) \<open>c' \<noteq> c\<close> by auto
  qed (simp_all add: assms req)
  show "ids_sane st'" using sched_invD(1) [OF inv] by (auto simp: ids_sane_def assms)
  show "child_inv R st' c"
    using sched_invD(2) [OF inv, of c] assms(2,11) unfolding child_inv_def assms(5,6,8) req by auto
  show "root_inv st' (R c)"
    using sched_invD(3) [OF inv, of "R c"] assms(3) by (auto simp: root_inv_def assms)
qed

lemma inv_clearRequest:
  assumes "sched_inv R st" and "c \<notin> set (queue st (R c))"
  shows "sched_inv R (clearRequest c st)"
  by (rule inv_forget [OF assms(1) assms(2)])
    (use sched_invD(3) [OF assms(1), of "R c"] in \<open>auto simp: root_inv_def sched_simps fun_eq_iff\<close>)

lemma inv_remove_drop:
  assumes "sched_inv R st"
  shows "sched_inv R (drop_child c (removePending (R c) c st))"
  by (rule inv_forget [OF assms, where q = "remove1 c (queue st (R c))"])
    (use sched_invD(3) [OF assms, of "R c"] in \<open>auto simp: root_inv_def sched_simps fun_eq_iff\<close>)

lemma take_drop_remove:
  assumes "distinct q" and "i < length q"
  shows "take i q @ drop (i + 1) q = remove1 (q ! i) q"
proof -
  have "q = take i q @ q ! i # drop (Suc i) q" using assms(2) by (simp add: id_take_nth_drop)
  moreover have "q ! i \<notin> set (take i q)"
    using assms by (auto simp: in_set_conv_nth nth_eq_iff_index_eq)
  ultimately show ?thesis by (metis (no_types, lifting) Suc_eq_plus1 remove1.simps(2) remove1_append)
qed

lemma inv_dequeue_drop:
  assumes "sched_inv R st" and "i < length (queue st rt)"
  shows "sched_inv R (drop_child (queue st rt ! i) (dequeue_at rt i st))"
proof -
  have rt: "rt = R (queue st rt ! i)" using inv_queue_root assms by (metis nth_mem)
  have d: "distinct (queue st rt)" using sched_invD(3) [OF assms(1), of rt] by (simp add: root_inv_def)
  show ?thesis
    by (rule inv_forget [OF assms(1), where q = "remove1 (queue st rt ! i) (queue st rt)"])
      (use d rt take_drop_remove [OF d assms(2)] assms(2) in \<open>auto simp: sched_simps fun_eq_iff\<close>)
qed

lemma inv_newRequest:
  assumes inv: "sched_inv R st" and "c \<notin> set (queue st (R c))" and "childRoot st c = Some (R c)"
  shows "sched_inv R (snd (newRequest c st))"
proof (rule inv_touches [OF inv, of c])
  note ids = sched_invD(1) [OF inv]
  show "touches R c st (snd (newRequest c st))" using ids by (auto simp: touches_def sched_simps)
  show "ids_sane (snd (newRequest c st))" using ids by (simp add: sched_simps)
  show "child_inv R (snd (newRequest c st)) c"
    using sched_invD(2) [OF inv, of c] assms(2,3) ids by (auto simp: child_inv_def sched_simps)
  show "root_inv (snd (newRequest c st)) (R c)"
    using sched_invD(3) [OF inv, of "R c"] by (simp add: root_inv_def sched_simps)
qed

lemma child_inv_change:
  assumes old: "child_inv R st c" and q: "\<And>rt. queue st' rt = queue st rt"
    and h: "\<And>rt. held_by st' rt = held_by st rt"
    and cr: "childRoot st' c = None \<or> childRoot st' c = Some (R c)"
      "requests st' c \<noteq> None \<longrightarrow> childRoot st' c \<noteq> None"
    and some: "\<And>r. request st c = Some r \<Longrightarrow> \<not> rq_terminal r \<Longrightarrow>
      \<exists>r'. request st' c = Some r' \<and> \<not> rq_terminal r'"
    and tm: "\<And>r' d rt. request st' c = Some r' \<Longrightarrow> \<not> rq_terminal r' \<Longrightarrow> rq_timer r' = Some (d, rt) \<Longrightarrow>
      \<exists>r. request st c = Some r \<and> \<not> rq_terminal r \<and> rq_timer r = Some (d, rt)"
  shows "child_inv R st' c"
  unfolding child_inv_def q h
proof (intro conjI cr)
  note o = old [unfolded child_inv_def]
  show "\<forall>rt. c \<in> set (queue st rt) \<longrightarrow> rt = R c" "\<forall>rt. c \<in> fst ` set (held_by st rt) \<longrightarrow> rt = R c"
    using o by blast+
  show "c \<in> set (queue st (R c)) \<longrightarrow> c \<notin> fst ` set (held_by st (R c)) \<and>
      (\<exists>r. request st' c = Some r \<and> \<not> rq_terminal r)"
    using o some by blast
  show "\<forall>r d rt. request st' c = Some r \<longrightarrow> \<not> rq_terminal r \<longrightarrow> rq_timer r = Some (d, rt) \<longrightarrow>
      rt = R c \<and> c \<in> set (queue st rt)"
    using o tm by blast
qed

lemma child_inv_unqueued:
  assumes "child_inv R st c" and "\<And>rt. c \<notin> set (queue st' rt)"
    and "\<And>rt. c \<in> fst ` set (held_by st' rt) \<Longrightarrow> rt = R c"
    and "childRoot st' c = childRoot st c" and "requests st' c = requests st c"
    and "\<And>r. request st' c = Some r \<Longrightarrow> \<not> rq_terminal r \<Longrightarrow> rq_timer r = None"
  shows "child_inv R st' c"
  using assms unfolding child_inv_def by (metis option.distinct(1))

lemma inv_unqueued:
  assumes "sched_inv R st" and "c \<notin> set (queue st (R c))"
  shows "c \<notin> set (queue st rt)"
  using assms inv_queue_root by metis

lemma inv_held_root: "sched_inv R st \<Longrightarrow> c \<in> fst ` set (held_by st rt) \<Longrightarrow> rt = R c"
  by (simp add: sched_inv_def child_inv_def)

lemma inv_timer:
  assumes "sched_inv R st" and "c \<notin> set (queue st (R c))" and "request st c = Some r"
    and "\<not> rq_terminal r"
  shows "rq_timer r = None"
  using sched_invD(2) [OF assms(1), of c] assms(2-4)
  by (cases "rq_timer r") (auto simp: child_inv_def)

lemma inv_dequeue:
  assumes inv: "sched_inv R st" and i: "i < length (queue st rt)"
    and t: "\<not> has_timer st (queue st rt ! i)"
  shows "sched_inv R (dequeue_at rt i st)"
    "queue st rt ! i \<notin> set (queue (dequeue_at rt i st) rt)"
proof -
  let ?c = "queue st rt ! i"
  have rt: "rt = R ?c" using inv_queue_root inv i by (metis nth_mem)
  have d: "distinct (queue st rt)" using sched_invD(3) [OF inv, of rt] by (simp add: root_inv_def)
  have q: "queue (dequeue_at rt i st) r = (if r = rt then remove1 ?c (queue st rt) else queue st r)" for r
    using take_drop_remove [OF d i] by (simp add: sched_simps)
  show "?c \<notin> set (queue (dequeue_at rt i st) rt)" using d by (simp add: q)
  show "sched_inv R (dequeue_at rt i st)"
  proof (rule inv_touches [OF inv, of ?c])
    show "touches R ?c st (dequeue_at rt i st)"
      unfolding touches_def q using rt by (auto simp: sched_simps)
    show "ids_sane (dequeue_at rt i st)" using sched_invD(1) [OF inv] by (simp add: sched_simps)
    have "?c \<notin> set (queue st r)" if "r \<noteq> rt" for r using inv_queue_root [OF inv] rt that by metis
    then have "?c \<notin> set (queue (dequeue_at rt i st) r)" for r using d by (simp add: q)
    then show "child_inv R (dequeue_at rt i st) ?c"
      by (rule child_inv_unqueued [OF sched_invD(2) [OF inv]])
        (use t inv_held_root [OF inv] in \<open>auto simp del: not_None_eq not_Some_eq simp: sched_simps has_timer_def\<close>)
    show "root_inv (dequeue_at rt i st) (R ?c)"
      using sched_invD(3) [OF inv, of "R ?c"] d rt [symmetric]
      by (simp add: root_inv_def q) (simp add: sched_simps)
  qed
qed

text \<open>Taking a permit and noting the holder keeps the books of the root.\<close>

lemma update_new_length: "c \<notin> fst ` set xs \<Longrightarrow> length (AList.update c g xs) = length xs + 1"
  by (induction xs) auto

lemma delete_length:
  assumes "distinct (map fst xs)" and "c \<in> fst ` set xs"
  shows "length xs = length (AList.delete c xs) + 1"
proof -
  have "length (AList.delete c xs) = length (map fst (AList.delete c xs))" by simp
  also have "\<dots> = card (set (map fst (AList.delete c xs)))"
    using assms(1) by (intro distinct_card [symmetric] distinct_delete)
  also have "\<dots> = card (fst ` set xs - {c})" unfolding delete_keys by simp
  finally have "length (AList.delete c xs) = card (fst ` set xs - {c})" .
  moreover have "length xs = card (fst ` set xs)" using distinct_card [OF assms(1)] by simp
  moreover have "0 < card (fst ` set xs)" using assms(2) by (auto simp: card_gt_0_iff)
  ultimately show ?thesis using assms(2) by (simp add: card_Diff_singleton)
qed

lemma inv_hold:
  assumes inv: "sched_inv R st" and sm: "semaphores st (R c) = Some sm"
    and take1: "tryAcquire sm = (True, sm')" and q: "c \<notin> set (queue st (R c))"
    and h: "c \<notin> fst ` set (held_by st (R c))"
    and req: "requests st c = Some i" "rq_heap st i = Some r" "rq_timer r = None"
    and f: "rq_timer (f r) = None"
  shows "sched_inv R (markHolding (R c) c g (set_request i f (put_semaphore (R c) sm' st)))"
    (is "sched_inv R ?st")
proof (rule inv_touches [OF inv, of c])
  note ids = sched_invD(1) [OF inv]
  have i: "requests (put_semaphore (R c) sm' st) c = Some i" "ids_sane (put_semaphore (R c) sm' st)"
    using req ids by (simp_all add: sched_simps)
  have rq: "request ?st c' = (if c' = c then Some (f r) else request st c')" for c'
    using request_other [OF i(2,1), of f c'] req
    by (simp add: sched_simps) (simp add: request_def)
  show "touches R c st ?st" using rq by (auto simp: touches_def sched_simps dom_update)
  show "ids_sane ?st" using ids by (simp add: sched_simps)
  show "child_inv R ?st c"
    by (rule child_inv_unqueued [OF sched_invD(2) [OF inv]])
      (use inv_unqueued [OF inv q] inv_held_root [OF inv] f rq in
        \<open>auto simp: sched_simps dom_update split: if_splits\<close>)
  have "sem.balanced sm (held_by st (R c))" "0 \<le> sem_capacity sm" "distinct (map fst (held_by st (R c)))"
    using sched_invD(3) [OF inv, of "R c"] sm by (simp_all add: root_inv_def)
  moreover have "sem_capacity sm' = sem_capacity sm"
    using take1 by (auto simp: tryAcquire_def split: if_splits)
  ultimately show "root_inv ?st (R c)"
    using sched_invD(3) [OF inv, of "R c"] sem.balanced_take [OF _ take1 update_new_length [OF h]]
    by (simp add: root_inv_def sched_simps distinct_update)
qed

lemma inv_release:
  assumes inv: "sched_inv R st" and rel: "releaseHeldStart (R c) c g st = (True, st1)"
  shows "\<exists>st2. release_permit (R c) st1 = Inr st2 \<and> sched_inv R st2 \<and>
    c \<notin> fst ` set (held_by st2 (R c)) \<and> c \<notin> set (queue st2 (R c)) \<and>
    queue st2 = queue st \<and> requests st2 = requests st \<and> rq_heap st2 = rq_heap st"
proof -
  have held: "c \<in> fst ` set (held_by st (R c))"
    and st1: "st1 = st\<lparr>holding := (holding st)(R c \<mapsto> AList.delete c (held_by st (R c)))\<rparr>"
    using rel by (force simp: releaseHeldStart_def split: option.splits if_splits dest: map_of_SomeD)+
  have q: "c \<notin> set (queue st (R c))" using inv_queued(1) [OF inv] held by blast
  note ri = sched_invD(3) [OF inv, of "R c", unfolded root_inv_def]
  then obtain sm where sm: "semaphores st (R c) = Some sm" "sem.balanced sm (held_by st (R c))"
    "0 \<le> sem_capacity sm"
    using held by (cases "semaphores st (R c)") auto
  have "length (held_by st (R c)) = length (AList.delete c (held_by st (R c))) + 1"
    using ri held by (intro delete_length) auto
  from sem.balanced_give [OF sm(2) this] obtain sm' where sm': "release sm = (Inr (), sm')"
    "sem.balanced sm' (AList.delete c (held_by st (R c)))" "sem_capacity sm' = sem_capacity sm"
    by (auto simp: capacity_def)
  let ?st2 = "put_semaphore (R c) sm' st1"
  have obs: "queue ?st2 = queue st" "requests ?st2 = requests st" "rq_heap ?st2 = rq_heap st"
    "childRoot ?st2 = childRoot st" "rq_next ?st2 = rq_next st"
    "semaphores ?st2 = (semaphores st)(R c \<mapsto> sm')"
    "held_by ?st2 = (held_by st)(R c := AList.delete c (held_by st (R c)))"
    by (auto simp: st1 queue_def held_by_def put_semaphore_def or_empty_def)
  have rq: "request ?st2 = request st"
    by (rule ext) (simp add: request_def obs split: option.split)
  have "sched_inv R ?st2"
  proof (rule inv_touches [OF inv, of c])
    show "touches R c st ?st2" by (auto simp: touches_def obs rq AList.delete_eq)
    show "ids_sane ?st2" using sched_invD(1) [OF inv] by (simp add: ids_sane_def obs)
    show "child_inv R ?st2 c"
      by (rule child_inv_unqueued [OF sched_invD(2) [OF inv]])
        (use inv_unqueued [OF inv q] inv_held_root [OF inv] inv_timer [OF inv q] in
          \<open>auto simp: obs rq split: if_splits\<close>)
    show "root_inv ?st2 (R c)"
      using ri sm sm' by (simp add: root_inv_def obs distinct_delete)
  qed
  moreover have "release_permit (R c) st1 = Inr ?st2"
    using sm sm' by (simp add: release_permit_def st1)
  ultimately show ?thesis using q by (auto simp: obs AList.delete_eq)
qed

text \<open>Marking the request of an unqueued child terminal, or re-queueing it with a timer.\<close>

lemma inv_set_unqueued:
  assumes inv: "sched_inv R st" and q: "c \<notin> set (queue st (R c))" and i: "requests st c = Some i"
    and f: "\<And>r. rq_heap st i = Some r \<Longrightarrow> rq_terminal (f r) \<or> rq_timer (f r) = None"
  shows "sched_inv R (set_request i f st)"
proof (rule inv_touches [OF inv, of c])
  note ids = sched_invD(1) [OF inv]
  have rq: "request (set_request i f st) c' =
      (if c' = c then map_option f (request st c) else request st c')" for c'
    by (rule request_other [OF ids i])
  show "touches R c st (set_request i f st)" using rq by (auto simp: touches_def sched_simps)
  show "ids_sane (set_request i f st)" using ids by (simp add: sched_simps)
  show "child_inv R (set_request i f st) c"
    by (rule child_inv_unqueued [OF sched_invD(2) [OF inv]])
      (use inv_unqueued [OF inv q] inv_held_root [OF inv] f i rq in
        \<open>auto simp: sched_simps request_def\<close>)
  show "root_inv (set_request i f st) (R c)"
    using sched_invD(3) [OF inv, of "R c"] by (simp add: root_inv_def sched_simps)
qed

lemma inv_queue_timer:
  assumes inv: "sched_inv R st" and q: "c \<notin> set (queue st (R c))" and i: "requests st c = Some i"
    and h: "c \<notin> fst ` set (held_by st (R c))" and r: "rq_heap st i = Some r" "\<not> rq_terminal r"
  shows "sched_inv R (set_request i (\<lambda>r. r\<lparr>rq_timer := Some (d, R c)\<rparr>) (enqueue (R c) c st))"
    (is "sched_inv R (set_request i ?f (enqueue _ _ _))")
proof -
  have rr: "request st c = Some r" using i r by (simp add: request_def)
  have inv1: "sched_inv R (enqueue (R c) c st)" by (rule inv_enqueue [OF inv h rr r(2)])
  let ?st = "set_request i ?f (enqueue (R c) c st)"
  show ?thesis
  proof (rule inv_touches [OF inv1, of c])
    note ids = sched_invD(1) [OF inv1]
    have i1: "requests (enqueue (R c) c st) c = Some i" using i by (simp add: sched_simps)
    have rq: "request ?st c' = (if c' = c then Some (?f r) else request st c')" for c'
      using request_other [OF ids i1, of ?f c'] rr by (simp add: sched_simps)
    show "touches R c (enqueue (R c) c st) ?st" using rq by (auto simp: touches_def sched_simps)
    show "ids_sane ?st" using ids by (simp add: sched_simps)
    show "root_inv ?st (R c)"
      using sched_invD(3) [OF inv1, of "R c"] by (simp add: root_inv_def sched_simps)
    have obs: "queue ?st rt = queue (enqueue (R c) c st) rt"
      "held_by ?st rt = held_by (enqueue (R c) c st) rt"
      "childRoot ?st c = childRoot (enqueue (R c) c st) c"
      "requests ?st c = requests (enqueue (R c) c st) c" for rt
      by (simp_all add: sched_simps)
    have "c \<in> set (queue (enqueue (R c) c st) (R c))" by (simp add: sched_simps)
    then show "child_inv R ?st c"
      using sched_invD(2) [OF inv1, of c] r(2) h
      unfolding child_inv_def rq obs by simp
  qed
qed

lemma inv_make_terminal:
  assumes inv: "sched_inv R st" and q: "c \<notin> set (queue st (R c))" and i: "requests st c = Some i"
  shows "sched_inv R (make_terminal env (R c) c i f b st) \<and>
    queue (make_terminal env (R c) c i f b st) = queue st"
proof (cases "rq_heap st i")
  case None
  with inv show ?thesis by (simp add: make_terminal_def)
next
  case (Some r)
  show ?thesis
  proof (cases "rq_terminal r")
    case True
    with Some inv show ?thesis by (simp add: make_terminal_def)
  next
    case False
  let ?s = "set_request i (\<lambda>r. r\<lparr>rq_terminal := True\<rparr>) st"
  have inv1: "sched_inv R ?s" by (rule inv_set_unqueued [OF inv q i]) simp
  have rm: "same_core ?s (removePending (R c) c ?s)"
    using q by (simp add: same_core_def fun_eq_iff sched_simps remove1_idem)
  have "same_core ?s (make_terminal env (R c) c i f b st)"
    using Some False by (auto simp: make_terminal_def Let_def intro: same_core_trans [OF rm]
        same_core_trans [OF same_core_emit same_core_clearWatchdog])
  then show ?thesis
    using inv_same_core [OF _ inv1] by (auto simp: same_core_def sched_simps fun_eq_iff)
  qed
qed

text \<open>
  The queue of a root never grows while it is driven, and the entries without a timer
  (\<open>ready\<close>) only become fewer: this is what makes the loop end.
\<close>

definition ready :: "sched \<Rightarrow> string \<Rightarrow> nat" where
  "ready st rt = length (filter (\<lambda>c. \<not> has_timer st c) (queue st rt))"

definition settled :: "(string \<Rightarrow> string) \<Rightarrow> string \<Rightarrow> sched \<Rightarrow> sched \<Rightarrow> bool" where
  "settled R c st st' \<longleftrightarrow>
     (\<forall>c'. c' \<noteq> c \<longrightarrow> request st' c' = request st c') \<and>
     (queue st' (R c) = queue st (R c) \<or>
      queue st' (R c) = queue st (R c) @ [c] \<and> has_timer st' c)"

lemma settled_work:
  assumes "settled R c st st'" and "c \<notin> set (queue st (R c))"
  shows "length (queue st' (R c)) \<le> length (queue st (R c)) + 1" "ready st' (R c) \<le> ready st (R c)"
proof -
  have same: "has_timer st' c' = has_timer st c'" if "c' \<in> set (queue st (R c))" for c'
    using that assms by (auto simp: settled_def has_timer_def)
  then have "filter (\<lambda>c. \<not> has_timer st' c) (queue st (R c)) = filter (\<lambda>c. \<not> has_timer st c) (queue st (R c))"
    by (intro filter_cong) auto
  with assms(1) show "ready st' (R c) \<le> ready st (R c)" by (auto simp: settled_def ready_def)
  show "length (queue st' (R c)) \<le> length (queue st (R c)) + 1"
    using assms(1) by (auto simp: settled_def)
qed

lemma settled_step:
  assumes "settled R c a b" and "queue b (R c) = queue a (R c)"
    and "queue c1 (R c) = queue b (R c) \<or> queue c1 (R c) = queue b (R c) @ [c] \<and> has_timer c1 c"
    and "\<And>c'. c' \<noteq> c \<Longrightarrow> request c1 c' = request b c'"
  shows "settled R c a c1"
  using assms by (auto simp: settled_def)

lemma request_terminal_other:
  assumes "sched_inv R st" and "requests st c = Some i" and "c' \<noteq> c"
  shows "request (make_terminal env rt c i f b st) c' = request st c'"
  using assms request_other [OF sched_invD(1) [OF assms(1)] assms(2)]
  by (simp add: make_terminal_def Let_def sched_simps split: option.split)

lemma inv_settle_failure:
  assumes inv: "sched_inv R st" and q: "c \<notin> set (queue st (R c))" and i: "requests st c = Some i"
    and h: "c \<notin> fst ` set (held_by st (R c))"
    and s: "settle_failure env (R c) c i f st = (d, st')"
  shows "sched_inv R st' \<and> settled R c st st'"
proof -
  note ids = sched_invD(1) [OF inv]
  obtain r where r: "rq_heap st i = Some r" using ids i unfolding ids_sane_def by blast
  consider (repair) "st' = emit (Repair_called c) (set_request i (\<lambda>r. r\<lparr>rq_repairAttempted := True\<rparr>) st)"
    | (terminal) f' b where "st' = make_terminal env (R c) c i f' b st"
    | (retry) "st' = scheduleRetry (R c) c i None st"
    using s r by (auto simp: settle_failure_def split: if_splits)
  then show ?thesis
  proof cases
    case repair
    have "sched_inv R (set_request i (\<lambda>r. r\<lparr>rq_repairAttempted := True\<rparr>) st)"
    proof (rule inv_set_unqueued [OF inv q i])
      fix r assume "rq_heap st i = Some r"
      then have "request st c = Some r" using i by (simp add: request_def)
      with inv_timer [OF inv q, of r] show "rq_terminal (r\<lparr>rq_repairAttempted := True\<rparr>) \<or>
          rq_timer (r\<lparr>rq_repairAttempted := True\<rparr>) = None" by (cases "rq_terminal r") simp_all
    qed
    then have "sched_inv R st'" unfolding repair by (rule inv_same_core [OF same_core_emit])
    then show ?thesis by (simp add: repair settled_def sched_simps request_other [OF ids i])
  next
    case terminal
    with inv_make_terminal [OF inv q i] request_terminal_other [OF inv i] show ?thesis
      by (simp add: settled_def)
  next
    case retry
    show ?thesis
    proof (cases "rq_terminal r")
      case True
      with retry inv r show ?thesis by (simp add: scheduleRetry_def settled_def)
    next
      case False
      let ?d = "retry_delay (rq_attempts r)"
      let ?st = "set_request i (\<lambda>r. r\<lparr>rq_timer := Some (?d, R c)\<rparr>) (enqueue (R c) c st)"
      have st': "st' = ?st" using retry r i False by (simp add: scheduleRetry_def)
      have "sched_inv R ?st" by (rule inv_queue_timer [OF inv q i h r False])
      moreover have "request ?st c' = (if c' = c then map_option (\<lambda>r. r\<lparr>rq_timer := Some (?d, R c)\<rparr>) (request st c)
          else request st c')" for c'
        using request_other [of "enqueue (R c) c st" c i] ids i by (simp add: sched_simps)
      ultimately show ?thesis
        using q i r by (simp add: st' settled_def sched_simps has_timer_def) (simp add: request_def)
    qed
  qed
qed

lemma inv_start_failure:
  assumes inv: "sched_inv R st"
  shows "\<exists>d st'. start_failure env (R c) c err g st = Inr (d, st') \<and> sched_inv R st' \<and>
    (c \<notin> set (queue st (R c)) \<longrightarrow> settled R c st st')"
proof (cases "releaseHeldStart (R c) c (Some g) st")
  case (Pair b st1)
  show ?thesis
  proof (cases b)
    case False
    then have "st1 = st" using Pair by (auto simp: releaseHeldStart_def split: option.splits if_splits)
    with False Pair inv show ?thesis by (simp add: start_failure_def settled_def)
  next
    case True
    with Pair have rel: "releaseHeldStart (R c) c (Some g) st = (True, st1)" by simp
    from inv_release [OF inv rel] obtain st2 where st2:
      "release_permit (R c) st1 = Inr st2" "sched_inv R st2" "c \<notin> fst ` set (held_by st2 (R c))"
      "c \<notin> set (queue st2 (R c))" "queue st2 = queue st" "requests st2 = requests st"
      "rq_heap st2 = rq_heap st" by blast
    have rq: "request st2 = request st"
      by (rule ext) (simp add: request_def st2 split: option.split)
    have base: "settled R c st st2" by (simp add: settled_def rq st2)
    show ?thesis
    proof (cases "\<exists>i. requests st2 c = Some i \<and> map_option rq_generation (rq_heap st2 i) = Some g")
      case False
      with rel st2 base show ?thesis by (auto simp: start_failure_def split: option.splits)
    next
      case True
      then obtain i where i: "requests st2 c = Some i"
        "map_option rq_generation (rq_heap st2 i) = Some g" by blast
      obtain d st' where s: "settle_failure env (R c) c i (to_failure err ''START_FAILED'') st2 = (d, st')"
        by (rule prod.exhaust)
      from inv_settle_failure [OF st2(2,4) i(1) st2(3) s] have "sched_inv R st'" "settled R c st2 st'"
        by auto
      moreover from this(2) have "settled R c st st'" by (simp add: settled_def rq st2)
      ultimately show ?thesis using rel st2 i s by (simp add: start_failure_def)
    qed
  qed
qed

lemma inv_onStartSuccess:
  assumes "sched_inv R st" and "c \<notin> set (queue st (R c))"
  shows "sched_inv R (onStartSuccess rt c g st) \<and> settled R c st (onStartSuccess rt c g st)"
proof (cases "request st c")
  case (Some r)
  have "sched_inv R (clearRequest c st)" by (rule inv_clearRequest [OF assms])
  then have "sched_inv R (clearWatchdog rt True (emit (Child_cleared c) (clearRequest c st)))"
    by (intro inv_same_core [OF same_core_clearWatchdog] inv_same_core [OF same_core_emit])
  with Some assms show ?thesis by (simp add: onStartSuccess_def settled_def sched_simps)
qed (use assms in \<open>simp add: onStartSuccess_def settled_def\<close>)

lemma inv_start_holding:
  assumes inv: "sched_inv R st" and sm: "semaphores st (R c) = Some sm"
    and take1: "tryAcquire sm = (True, sm')" and q: "c \<notin> set (queue st (R c))"
    and h: "c \<notin> fst ` set (held_by st (R c))" and i: "requests st c = Some i"
    and t: "\<not> has_timer st c"
  shows "\<exists>ok d st'. start_holding env (R c) c (put_semaphore (R c) sm' st) = Inr (ok, d, st') \<and>
    sched_inv R st' \<and> settled R c st st'"
proof -
  let ?f = "\<lambda>r. r\<lparr>rq_attempts := rq_attempts r + 1\<rparr>"
  note ids = sched_invD(1) [OF inv]
  obtain r where r: "rq_heap st i = Some r" using ids i unfolding ids_sane_def by blast
  with t i have tm: "rq_timer r = None"
    by (cases "rq_timer r") (auto simp: has_timer_def request_def)
  let ?st1 = "markHolding (R c) c (rq_generation r) (set_request i ?f (put_semaphore (R c) sm' st))"
  let ?st2 = "emit (Start_called c (rq_attempts (?f r))) ?st1"
  have b: "begin_start (R c) c (put_semaphore (R c) sm' st) = (?f r, ?st2)"
    using i r by (simp add: begin_start_def Let_def sched_simps)
  have inv1: "sched_inv R ?st1"
    by (rule inv_hold [OF inv sm take1 q h i r tm]) (simp add: tm)
  then have inv2: "sched_inv R ?st2" by (rule inv_same_core [OF same_core_emit])
  have "request ?st2 c' = request st c'" if "c' \<noteq> c" for c'
    using request_other [of "put_semaphore (R c) sm' st" c i ?f c'] ids i that by (simp add: sched_simps)
  then have set2: "settled R c st ?st2" by (simp add: settled_def) (simp add: sched_simps)
  have q2: "queue ?st2 (R c) = queue st (R c)" by (simp add: sched_simps)
  have next_set: "settled R c st st'" if "settled R c ?st2 st'" for st'
    using that set2 q2 by (auto simp: settled_def)
  show ?thesis
  proof (cases "env_startChildTeam env c (rq_attempts (?f r))")
    case Start_done
    with inv_onStartSuccess [OF inv2, of c "R c" "rq_generation r"] q q2 b next_set show ?thesis
      by (auto simp: start_holding_def)
  next
    case Start_pending
    with b inv2 set2 show ?thesis by (auto simp: start_holding_def)
  next
    case (Start_throws err)
    obtain d st' where f: "start_failure env (R c) c err (rq_generation r) ?st2 = Inr (d, st')"
      "sched_inv R st'" "settled R c ?st2 st'"
      using inv_start_failure [OF inv2, of env c err "rq_generation r"] q q2 by auto
    with Start_throws b next_set show ?thesis by (auto simp: start_holding_def)
  qed
qed

lemma length_remove1_Suc: "x \<in> set xs \<Longrightarrow> length (remove1 x xs) + 1 = length xs"
  using length_pos_if_in_set [of x xs] by (simp add: length_remove1)

lemma ready_dequeue:
  assumes "distinct (queue st rt)" and "i < length (queue st rt)" and "\<not> has_timer st (queue st rt ! i)"
    and "queue st1 rt = remove1 (queue st rt ! i) (queue st rt)" and "\<And>c. has_timer st1 c = has_timer st c"
  shows "ready st rt = ready st1 rt + 1"
proof -
  have "queue st rt ! i \<in> set (filter (\<lambda>c. \<not> has_timer st c) (queue st rt))" using assms by simp
  then have "length (remove1 (queue st rt ! i) (filter (\<lambda>c. \<not> has_timer st c) (queue st rt))) + 1 =
      ready st rt"
    unfolding ready_def by (rule length_remove1_Suc)
  moreover have "ready st1 rt = length (remove1 (queue st rt ! i) (filter (\<lambda>c. \<not> has_timer st c) (queue st rt)))"
    using assms by (simp add: ready_def filter_remove1)
  ultimately show ?thesis by simp
qed

lemma ready_le:
  assumes "queue st1 rt = remove1 c (queue st rt)" and "distinct (queue st rt)"
    and "\<And>c'. c' \<noteq> c \<Longrightarrow> has_timer st1 c' = has_timer st c'"
  shows "ready st1 rt \<le> ready st rt"
proof -
  have "filter (\<lambda>c. \<not> has_timer st1 c) (remove1 c (queue st rt)) =
      filter (\<lambda>c. \<not> has_timer st c) (remove1 c (queue st rt))"
    using assms(2,3) by (intro filter_cong) auto
  also have "length \<dots> \<le> ready st rt"
    unfolding ready_def filter_remove1 by (simp add: length_remove1)
  finally show ?thesis by (simp add: ready_def assms(1))
qed

lemma same_core_work:
  assumes "same_core st st'"
  shows "queue st' rt = queue st rt" "has_timer st' c = has_timer st c" "ready st' rt = ready st rt"
proof -
  show q: "queue st' rt = queue st rt" using assms by (simp add: same_core_def)
  have "has_timer st' = has_timer st"
    using same_core_request [OF assms] by (simp add: has_timer_def fun_eq_iff)
  then show "has_timer st' c = has_timer st c" "ready st' rt = ready st rt"
    by (simp_all add: ready_def q)
qed

section \<open>The loop returns and keeps the invariant\<close>

text \<open>What driving the queue of \<open>rt\<close> promises.\<close>

definition driven :: "(string \<Rightarrow> string) \<Rightarrow> string \<Rightarrow> sched \<Rightarrow> sched_error + sched \<Rightarrow> bool" where
  "driven R rt st res \<longleftrightarrow>
     (\<exists>st'. res = Inr st' \<and> sched_inv R st' \<and>
        length (queue st' rt) \<le> length (queue st rt) \<and> ready st' rt \<le> ready st rt)"

lemma driven_refl: "sched_inv R st \<Longrightarrow> driven R rt st (Inr st)"
  by (simp add: driven_def)

lemma driven_weaken:
  "driven R rt st1 res \<Longrightarrow> length (queue st1 rt) \<le> length (queue st rt) \<Longrightarrow> ready st1 rt \<le> ready st rt \<Longrightarrow>
   driven R rt st res"
  unfolding driven_def by fastforce

lemma driven_bind:
  assumes "driven R rt st res"
    and "\<And>st'. sched_inv R st' \<Longrightarrow> length (queue st' rt) \<le> length (queue st rt) \<Longrightarrow>
      ready st' rt \<le> ready st rt \<Longrightarrow> driven R rt st (f st')"
  shows "driven R rt st (bind_res res f)"
  using assms unfolding driven_def by fastforce

definition loop_size :: "nat \<Rightarrow> sched \<Rightarrow> string \<Rightarrow> nat \<Rightarrow> nat" where
  "loop_size L st rt i = ready st rt * (L + 1) + (length (queue st rt) - i)"

lemma loop_size_start:
  assumes "ready st1 rt < ready st rt" and "length (queue st1 rt) \<le> L" and "i < length (queue st rt)"
  shows "loop_size L st1 rt j < loop_size L st rt i"
proof -
  have "(ready st1 rt + 1) * (L + 1) \<le> ready st rt * (L + 1)"
    using assms(1) by (intro mult_le_mono1) simp
  moreover have "length (queue st1 rt) - j \<le> L" using assms(2) by simp
  ultimately show ?thesis using assms(3) by (simp add: loop_size_def)
qed

lemma loop_size_less:
  assumes "ready st1 rt \<le> ready st rt" and "length (queue st1 rt) - j < length (queue st rt) - i"
  shows "loop_size L st1 rt j < loop_size L st rt i"
  using mult_le_mono1 [OF assms(1), of "L + 1"] assms(2) by (simp add: loop_size_def)

lemma discard_live:
  assumes inv: "sched_inv R st" and rt: "rt \<noteq> []" and c: "c \<in> set (queue st rt)"
    and d: "discardIfLive env (Some rt) c st = (True, st1)"
  shows "sched_inv R st1" "length (queue st1 rt) < length (queue st rt)" "ready st1 rt \<le> ready st rt"
proof -
  have r: "rt = R c" by (rule inv_queue_root [OF inv c])
  have st1: "st1 = emit (Child_cleared c) (drop_child c (removePending (R c) c st))"
    using d rt by (auto simp: discardIfLive_def drop_child_def r Let_def childRoot_upd split: if_splits)
  show "sched_inv R st1"
    unfolding st1 by (rule inv_same_core [OF same_core_emit inv_remove_drop [OF inv]])
  have dq: "distinct (queue st rt)" using sched_invD(3) [OF inv, of rt] by (simp add: root_inv_def)
  have q: "queue st1 rt = remove1 c (queue st rt)" by (simp add: st1 sched_simps r)
  show "length (queue st1 rt) < length (queue st rt)" using length_remove1_Suc [OF c] by (simp add: q)
  show "ready st1 rt \<le> ready st rt"
    by (rule ready_le [OF q dq]) (simp add: st1 sched_simps has_timer_def)
qed

lemma drop_archived:
  assumes inv: "sched_inv R st" and i: "i < length (queue st rt)"
  defines "st1 \<equiv> drop_child (queue st rt ! i) (dequeue_at rt i st)"
  shows "sched_inv R st1" "length (queue st1 rt) < length (queue st rt)" "ready st1 rt \<le> ready st rt"
proof -
  show "sched_inv R st1" unfolding st1_def by (rule inv_dequeue_drop [OF inv i])
  have dq: "distinct (queue st rt)" using sched_invD(3) [OF inv, of rt] by (simp add: root_inv_def)
  have q: "queue st1 rt = remove1 (queue st rt ! i) (queue st rt)"
    using take_drop_remove [OF dq i] by (simp add: st1_def sched_simps)
  show "length (queue st1 rt) < length (queue st rt)"
    using length_remove1_Suc [of "queue st rt ! i" "queue st rt"] i by (simp add: q)
  show "ready st1 rt \<le> ready st rt"
    by (rule ready_le [OF q dq]) (simp add: st1_def sched_simps has_timer_def)
qed

text \<open>One start from the queue, at the index \<open>i\<close>, up to the re-drive it may ask for.\<close>

lemma start_queued:
  assumes inv: "sched_inv R st" and i: "i < length (queue st rt)"
    and sm: "semaphores st rt = Some sm" and take1: "tryAcquire sm = (True, sm')"
    and t: "\<not> has_timer st (queue st rt ! i)"
  shows "\<exists>ok d st2. start_holding env rt (queue st rt ! i) (dequeue_at rt i (put_semaphore rt sm' st)) =
      Inr (ok, d, st2) \<and> sched_inv R st2 \<and> length (queue st2 rt) \<le> length (queue st rt) \<and>
      ready st2 rt < ready st rt"
proof -
  let ?c = "queue st rt ! i" and ?st1 = "dequeue_at rt i st"
  have c: "?c \<in> set (queue st rt)" using i by simp
  have r: "rt = R ?c" by (rule inv_queue_root [OF inv c])
  have dq: "distinct (queue st rt)" using sched_invD(3) [OF inv, of rt] by (simp add: root_inv_def)
  note one = inv_dequeue [OF inv i t]
  obtain j where j: "requests st ?c = Some j" using inv_queued(3) [OF inv c] by blast
  have comm: "dequeue_at rt i (put_semaphore rt sm' st) = put_semaphore rt sm' ?st1"
    by (simp add: dequeue_at_def put_semaphore_def queue_def Let_def)
  have q1: "queue ?st1 rt = remove1 ?c (queue st rt)"
    using take_drop_remove [OF dq i] by (simp add: sched_simps)
  have tm: "has_timer ?st1 x = has_timer st x" for x by (simp add: has_timer_def sched_simps)
  obtain ok d st2 where s: "start_holding env rt ?c (put_semaphore rt sm' ?st1) = Inr (ok, d, st2)"
    "sched_inv R st2" "settled R ?c ?st1 st2"
    using inv_start_holding [OF one(1), of ?c sm sm' j env] sm take1 one(2) inv_queued(1) [OF inv c] j t r
    by (auto simp: sched_simps tm)
  have "ready st rt = ready ?st1 rt + 1" by (rule ready_dequeue [OF dq i t q1 tm])
  moreover have "length (queue ?st1 rt) + 1 = length (queue st rt)"
    unfolding q1 by (rule length_remove1_Suc [OF c])
  moreover have "length (queue st2 rt) \<le> length (queue ?st1 rt) + 1" "ready st2 rt \<le> ready ?st1 rt"
    using settled_work [OF s(3)] one(2) r by auto
  ultimately show ?thesis using s comm by auto
qed

lemma drive_loop_ok:
  assumes "sched_inv R st" and "rt \<noteq> []" and "loop_size L st rt i < n" and "length (queue st rt) \<le> L"
  shows "driven R rt st (drive_loop n env rt i st)"
  using assms
proof (induction n arbitrary: i st)
  case (Suc n)
  note inv = Suc.prems(1) and rt = Suc.prems(2) and size = Suc.prems(3) and L = Suc.prems(4)
  have again: "driven R rt st (drive_loop n env rt j st1)"
    if "sched_inv R st1" "length (queue st1 rt) \<le> length (queue st rt)" "ready st1 rt \<le> ready st rt"
      "loop_size L st1 rt j < loop_size L st rt i" for st1 j
    by (rule driven_weaken [OF Suc.IH [OF that(1) rt] that(2,3)]) (use that L size in auto)
  show ?case
  proof (cases "\<exists>sm. semaphores st rt = Some sm \<and> i < length (queue st rt) \<and> available sm > 0")
    case False
    with driven_refl [OF inv] show ?thesis by (auto split: option.split)
  next
    case True
    then obtain sm where sm: "semaphores st rt = Some sm" and i: "i < length (queue st rt)"
      and av: "available sm > 0" by blast
    let ?c = "queue st rt ! i"
    have c: "?c \<in> set (queue st rt)" using i by simp
    obtain b st0 where d: "discardIfLive env (Some rt) ?c st = (b, st0)" by (rule prod.exhaust)
    obtain sm' where take1: "tryAcquire sm = (True, sm')"
      using av by (simp add: tryAcquire_def available_def)
    have skip: "driven R rt st (drive_loop n env rt (i + 1) st)"
      by (rule again [OF inv]) (use i in \<open>auto intro: loop_size_less\<close>)
    have dropped: "driven R rt st (drive_loop n env rt i (drop_child ?c (dequeue_at rt i st)))"
      using drop_archived [OF inv i] i by (intro again loop_size_less) auto
    show ?thesis
    proof (cases b)
      case True
      have "driven R rt st (drive_loop n env rt i st0)"
        using discard_live [OF inv rt c, of env st0] d True i by (intro again loop_size_less) auto
      with True d sm i av show ?thesis by simp
    next
      case live: False
      show ?thesis
      proof (cases "has_timer st ?c")
        case True
        with live d sm i av skip show ?thesis by simp
      next
        case tm: False
        from start_queued [OF inv i sm take1 tm, of env] obtain ok dr st2 where st2:
          "start_holding env rt ?c (dequeue_at rt i (put_semaphore rt sm' st)) = Inr (ok, dr, st2)"
          "sched_inv R st2" "length (queue st2 rt) \<le> length (queue st rt)" "ready st2 rt < ready st rt"
          by blast
        have after: "driven R rt st (drive_loop n env rt j st3)"
          if "sched_inv R st3" "length (queue st3 rt) \<le> length (queue st2 rt)" "ready st3 rt \<le> ready st2 rt"
          for st3 j
          using that st2 i L by (intro again loop_size_start) auto
        have nested: "driven R rt st (bind_res (drive_loop n env rt 0 st3) (\<lambda>st4. drive_loop n env rt i st4))"
          if "same_core st2 st3" for st3
        proof -
          note w = same_core_work [OF that] and inv3 = inv_same_core [OF that st2(2)]
          have "driven R rt st3 (drive_loop n env rt 0 st3)"
            by (rule Suc.IH [OF inv3 rt])
              (use loop_size_start [of st3 rt st L i 0] w st2 i L size in auto)
          then have "driven R rt st3 (bind_res (drive_loop n env rt 0 st3) (\<lambda>st4. drive_loop n env rt i st4))"
          proof (rule driven_bind)
            fix st4 assume st4: "sched_inv R st4" "length (queue st4 rt) \<le> length (queue st3 rt)"
              "ready st4 rt \<le> ready st3 rt"
            have "driven R rt st4 (drive_loop n env rt i st4)"
              by (rule Suc.IH [OF st4(1) rt])
                (use loop_size_start [of st4 rt st L i i] w st4 st2 i L size in auto)
            then show "driven R rt st3 (drive_loop n env rt i st4)" by (rule driven_weaken) (use st4 in auto)
          qed
          then show ?thesis by (rule driven_weaken) (use w st2 in auto)
        qed
        have started: "driven R rt st (case dr of None \<Rightarrow> drive_loop n env rt i st2
          | Some imm \<Rightarrow> (case drive_open env rt imm st2 of
               (False, st3) \<Rightarrow> drive_loop n env rt i st3
             | (True, st3) \<Rightarrow> bind_res (drive_loop n env rt 0 st3) (\<lambda>st4. drive_loop n env rt i st4)))"
        proof (cases dr)
          case None
          with after [OF st2(2)] show ?thesis by simp
        next
          case (Some imm)
          obtain go st3 where o3: "drive_open env rt imm st2 = (go, st3)" by (rule prod.exhaust)
          note core = same_core_open [OF o3]
          note w = same_core_work [OF core] and inv3 = inv_same_core [OF core st2(2)]
          show ?thesis
            using Some o3 nested [OF core] after [OF inv3] w by (cases go) auto
        qed
        show ?thesis
          using live d sm i av tm skip dropped started take1 st2(1)
          by (auto simp: Let_def split: option.split)
      qed
    qed
  qed
qed simp

lemma startNextEligible_ok:
  assumes "sched_inv R st" and "rt \<noteq> []"
  shows "\<exists>st'. startNextEligible env rt imm st = Inr st' \<and> sched_inv R st'"
proof -
  obtain go st1 where o1: "drive_open env rt imm st = (go, st1)" by (rule prod.exhaust)
  have inv1: "sched_inv R st1" by (rule inv_same_core [OF same_core_open [OF o1] assms(1)])
  let ?L = "length (queue st1 rt)"
  have "ready st1 rt \<le> ?L" by (simp add: ready_def)
  then have "loop_size ?L st1 rt 0 < drive_fuel rt st1"
    using mult_le_mono1 [of "ready st1 rt" ?L "?L + 1"] by (simp add: loop_size_def drive_fuel_def)
  from drive_loop_ok [OF inv1 assms(2) this order_refl] o1 inv1 show ?thesis
    by (cases go) (auto simp: startNextEligible_def driven_def)
qed

lemma redrive_ok:
  "sched_inv R st \<Longrightarrow> rt \<noteq> [] \<Longrightarrow> \<exists>st'. redrive env rt d st = Inr st' \<and> sched_inv R st'"
  using startNextEligible_ok by (auto simp: redrive_def split: option.split)

section \<open>The operations keep the invariant\<close>

text \<open>What the environment guarantees: roots do not change and have a name, caps are not negative.\<close>

definition env_ok :: "(string \<Rightarrow> string) \<Rightarrow> sched_env \<Rightarrow> bool" where
  "env_ok R env \<longleftrightarrow>
     (\<forall>c. R c \<noteq> []) \<and> (\<forall>r k. env_resolveCap env r = Some k \<longrightarrow> 0 \<le> k) \<and>
     (\<forall>c v. env_getChild env c = Some v \<longrightarrow>
        (case cv_rootGoalId v of
           Some x \<Rightarrow> x = R c
         | None \<Rightarrow> (case cv_parentGoalId v of Some x \<Rightarrow> x = R c | None \<Rightarrow> True)))"

lemma rootOf_cases:
  assumes "sched_inv R st" and "env_ok R env"
  shows "rootOf env st c = None \<and> childRoot st c = None \<or> rootOf env st c = Some (R c)"
proof (cases "env_getChild env c")
  case None
  with sched_invD(2) [OF assms(1), of c] show ?thesis by (auto simp: rootOf_def child_inv_def)
next
  case (Some v)
  with assms(2) have "case cv_rootGoalId v of Some x \<Rightarrow> x = R c
      | None \<Rightarrow> (case cv_parentGoalId v of Some x \<Rightarrow> x = R c | None \<Rightarrow> True)"
    by (simp add: env_ok_def)
  moreover have "childRoot st c = None \<or> childRoot st c = Some (R c)"
    using sched_invD(2) [OF assms(1), of c] by (simp add: child_inv_def)
  ultimately show ?thesis using Some by (auto simp: rootOf_def split: option.splits)
qed

lemma inv_getSemaphore:
  assumes inv: "sched_inv R st" and ok: "env_ok R env" and g: "getSemaphore env rt st = (sm, st1)"
  shows "sched_inv R st1" "semaphores st1 rt = Some sm" "queue st1 = queue st" "held_by st1 = held_by st"
    "requests st1 = requests st" "rq_heap st1 = rq_heap st" "request st1 = request st"
proof -
  let ?k = "case env_resolveCap env rt of Some c \<Rightarrow> c | None \<Rightarrow> 3"
  have st1: "st1 = st \<or> semaphores st rt = None \<and> sm = new_semaphore ?k \<and>
      st1 = st\<lparr>semaphores := (semaphores st)(rt \<mapsto> sm)\<rparr>"
    using g by (auto simp: getSemaphore_def Let_def split: option.splits)
  then show obs: "queue st1 = queue st" "held_by st1 = held_by st" "requests st1 = requests st"
    "rq_heap st1 = rq_heap st"
    by (auto simp: queue_def held_by_def)
  then show rq: "request st1 = request st"
    by (simp add: request_def fun_eq_iff split: option.split)
  show "semaphores st1 rt = Some sm"
    using g by (auto simp: getSemaphore_def Let_def split: option.splits)
  have k: "0 \<le> ?k" using ok by (auto simp: env_ok_def split: option.split)
  have more: "childRoot st1 = childRoot st" "rq_next st1 = rq_next st" using st1 by auto
  show "sched_inv R st1"
    unfolding sched_inv_def
  proof (intro conjI allI)
    show "ids_sane st1" using sched_invD(1) [OF inv] by (simp add: ids_sane_def obs more)
    show "child_inv R st1 c" for c
      using sched_invD(2) [OF inv, of c] unfolding child_inv_def obs more rq .
    show "root_inv st1 r" for r
    proof (cases "st1 \<noteq> st \<and> r = rt")
      case False
      then have "semaphores st1 r = semaphores st r" using st1 by auto
      then show ?thesis using sched_invD(3) [OF inv, of r] by (simp add: root_inv_def obs)
    next
      case True
      then have "semaphores st rt = None" "semaphores st1 rt = Some (new_semaphore ?k)" using st1 by auto
      then show ?thesis
        using sched_invD(3) [OF inv, of rt] True new_idle [OF k] k
        by (simp add: root_inv_def obs sem.balanced_def new_semaphore_def)
    qed
  qed
qed

lemma inv_setRoot:
  assumes inv: "sched_inv R st"
  shows "sched_inv R (st\<lparr>childRoot := (childRoot st)(c \<mapsto> R c)\<rparr>)" (is "sched_inv R ?st")
proof (rule inv_touches [OF inv, of c])
  have sm: "semaphores ?st = semaphores st" "requests ?st = requests st" by simp_all
  show "touches R c st ?st" by (simp add: touches_def sched_simps)
  show "ids_sane ?st" using sched_invD(1) [OF inv] by (simp add: sched_simps)
  have obs: "queue ?st rt = queue st rt" "held_by ?st rt = held_by st rt" "request ?st c = request st c"
    "requests ?st c = requests st c" "childRoot ?st c = Some (R c)" for rt
    by (simp_all add: sched_simps)
  show "child_inv R ?st c"
    by (rule child_inv_change [OF sched_invD(2) [OF inv]]) (simp_all add: sched_simps)
  show "root_inv ?st (R c)"
    using sched_invD(3) [OF inv, of "R c"] unfolding root_inv_def obs sm .
qed

lemma inv_fresh_start:
  assumes inv: "sched_inv R st" and ok: "env_ok R env" and root: "childRoot st c = Some (R c)"
    and h: "c \<notin> fst ` set (held_by st (R c))" and q: "c \<notin> set (queue st (R c))"
  shows "\<exists>oc st'. fresh_start env (R c) c st = Inr (oc, st') \<and> sched_inv R st'"
proof -
  note ids = sched_invD(1) [OF inv]
  let ?n = "snd (newRequest c st)"
  let ?st1 = "clearWatchdog (R c) True (emit (Child_cleared c) ?n)"
  have invn: "sched_inv R ?n" by (rule inv_newRequest [OF inv q root])
  have core: "same_core ?n ?st1"
    by (rule same_core_trans [OF same_core_emit same_core_clearWatchdog])
  have inv1: "sched_inv R ?st1" by (rule inv_same_core [OF core invn])
  obtain sm st2 where g: "getSemaphore env (R c) ?st1 = (sm, st2)" by (rule prod.exhaust)
  note two = inv_getSemaphore [OF inv1 ok g]
  have q2: "c \<notin> set (queue st2 (R c))" using q by (simp add: two sched_simps)
  have h2: "c \<notin> fst ` set (held_by st2 (R c))" using h by (simp add: two sched_simps)
  obtain i where i: "requests st2 c = Some i" by (simp add: two sched_simps)
  obtain r where r: "request st2 c = Some r" "\<not> rq_terminal r" "rq_timer r = None"
    by (simp add: two sched_simps ids)
  have enq: "sched_inv R (enqueue (R c) c st2)" by (rule inv_enqueue [OF two(1) h2 r(1,2)])
  have tm: "\<not> has_timer st2 c" by (simp add: has_timer_def r)
  show ?thesis
  proof (cases "child_paused env c \<or> \<not> fst (tryAcquire sm)")
    case True
    with enq g show ?thesis by (auto simp: fresh_start_def Let_def split: prod.split bool.split)
  next
    case False
    then obtain sm' where take1: "tryAcquire sm = (True, sm')" by (cases "tryAcquire sm") auto
    obtain okk d st3 where s: "start_holding env (R c) c (put_semaphore (R c) sm' st2) = Inr (okk, d, st3)"
      "sched_inv R st3"
      using inv_start_holding [OF two(1,2) take1 q2 h2 i tm, of env] by blast
    have "R c \<noteq> []" using ok by (simp add: env_ok_def)
    from redrive_ok [OF s(2) this, of env d] obtain st4 where "redrive env (R c) d st3 = Inr st4"
      "sched_inv R st4" by blast
    with False g take1 s show ?thesis by (auto simp: fresh_start_def Let_def)
  qed
qed

lemma inv_tracked_start:
  assumes inv: "sched_inv R st" and ok: "env_ok R env" and root: "childRoot st c = Some (R c)"
    and h: "c \<notin> fst ` set (held_by st (R c))"
  shows "\<exists>oc st'. tracked_start env (R c) c st = Inr (oc, st') \<and> sched_inv R st'"
proof (cases "\<exists>r. request st c = Some r \<and> \<not> rq_terminal r")
  case True
  then obtain r where r: "request st c = Some r" "\<not> rq_terminal r" by blast
  have "R c \<noteq> []" using ok by (simp add: env_ok_def)
  from startNextEligible_ok [OF inv this, of env False] obtain st1 where
    "startNextEligible env (R c) False st = Inr st1" "sched_inv R st1" by blast
  with r inv show ?thesis by (simp add: tracked_start_def)
next
  case False
  then have q: "c \<notin> set (queue st (R c))" using inv_queued(2) [OF inv] by blast
  from inv_fresh_start [OF inv ok root h q] False show ?thesis
    by (auto simp: tracked_start_def split: option.splits)
qed

lemma inv_requestStart:
  assumes inv: "sched_inv R st" and ok: "env_ok R env"
  shows "\<exists>oc st'. requestStart env c st = Inr (oc, st') \<and> sched_inv R st'"
proof -
  have R: "R c \<noteq> []" using ok by (simp add: env_ok_def)
  from rootOf_cases [OF inv ok, of c] show ?thesis
  proof
    assume none: "rootOf env st c = None \<and> childRoot st c = None"
    have "requests st c = None" using sched_invD(2) [OF inv, of c] none by (auto simp: child_inv_def)
    then have q: "c \<notin> set (queue st (R c))" using inv_queued(3) [OF inv] by fastforce
    have "sched_inv R (drop_child c st)"
      by (rule inv_forget [OF inv q])
        (use sched_invD(3) [OF inv, of "R c"] in \<open>auto simp: root_inv_def sched_simps fun_eq_iff\<close>)
    then have "sched_inv R (emit (Child_cleared c) (drop_child c st))"
      by (rule inv_same_core [OF same_core_emit])
    moreover have "sched_inv R (emit (Start_called c 0) st)"
      by (rule inv_same_core [OF same_core_emit inv])
    ultimately show ?thesis
      using none by (simp add: requestStart_def discardIfLive_def drop_child_def Let_def childRoot_upd)
  next
    assume some: "rootOf env st c = Some (R c)"
    show ?thesis
    proof (cases "isHolding st (R c) c \<or> env_hasLiveTeam env c")
      case True
      have "sched_inv R (emit (Child_cleared c) (drop_child c (removePending (R c) c st)))"
        by (rule inv_same_core [OF same_core_emit inv_remove_drop [OF inv]])
      with True some inv R show ?thesis
        by (auto simp: requestStart_def discardIfLive_def drop_child_def Let_def childRoot_upd)
    next
      case False
      then have h: "c \<notin> fst ` set (held_by st (R c))" by (simp add: isHolding_def map_of_None_key)
      let ?st = "st\<lparr>childRoot := (childRoot st)(c \<mapsto> R c)\<rparr>"
      have "\<exists>oc st'. tracked_start env (R c) c ?st = Inr (oc, st') \<and> sched_inv R st'"
        by (rule inv_tracked_start [OF inv_setRoot [OF inv] ok]) (use h in \<open>simp_all add: sched_simps\<close>)
      with False some R show ?thesis by (auto simp: requestStart_def discardIfLive_def)
    qed
  qed
qed

lemma release_commutes:
  assumes "\<And>x. semaphores (F x) = semaphores x"
    and "\<And>x sm. put_semaphore rt sm (F x) = F (put_semaphore rt sm x)"
    and "release_permit rt st = Inr st'"
  shows "release_permit rt (F st) = Inr (F st')"
  using assms(3) by (auto simp: release_permit_def assms(1,2) split: option.splits prod.splits sum.splits)

lemma inv_notifyTerminal:
  assumes inv: "sched_inv R st" and ok: "env_ok R env"
  shows "\<exists>st'. notifyTerminal env c st = Inr st' \<and> sched_inv R st'"
proof -
  have R: "R c \<noteq> []" using ok by (simp add: env_ok_def)
  let ?root = "case childRoot st c of Some r \<Rightarrow> Some r | None \<Rightarrow> rootOf env st c"
  have cr: "childRoot st c = None \<or> childRoot st c = Some (R c)"
    using sched_invD(2) [OF inv, of c] by (simp add: child_inv_def)
  with rootOf_cases [OF inv ok, of c] have "?root = None \<or> ?root = Some (R c)" by auto
  then show ?thesis
  proof
    assume "?root = None"
    with inv show ?thesis by (simp add: notifyTerminal_def)
  next
    assume root: "?root = Some (R c)"
    define F where "F x = emit (Child_cleared c) (drop_child c (removePending (R c) c x))" for x
    obtain b st1 where rel: "releaseHeldStart (R c) c None st = (b, st1)" by (rule prod.exhaust)
    have "\<exists>st4. (if b then release_permit (R c) (F st1) else Inr (F st1)) = Inr st4 \<and> sched_inv R st4"
    proof (cases b)
      case False
      then have "st1 = st" using rel by (auto simp: releaseHeldStart_def split: option.splits if_splits)
      have "sched_inv R (F st)"
        unfolding F_def by (rule inv_same_core [OF same_core_emit inv_remove_drop [OF inv]])
      with False \<open>st1 = st\<close> show ?thesis by simp
    next
      case True
      with rel have "releaseHeldStart (R c) c None st = (True, st1)" by simp
      from inv_release [OF inv this] obtain st2 where st2: "release_permit (R c) st1 = Inr st2"
        "sched_inv R st2" by blast
      have "release_permit (R c) (F st1) = Inr (F st2)"
        by (rule release_commutes [where F = F, OF _ _ st2(1)])
          (simp_all add: F_def sched_simps, simp add: put_semaphore_def emit_def drop_child_def
            clearRequest_def removePending_def split: option.split)
      moreover have "sched_inv R (F st2)"
        unfolding F_def by (rule inv_same_core [OF same_core_emit inv_remove_drop [OF st2(2)]])
      ultimately show ?thesis using True by simp
    qed
    then obtain st4 where st4: "(if b then release_permit (R c) (F st1) else Inr (F st1)) = Inr st4"
      "sched_inv R st4" by blast
    have "sched_inv R (clearWatchdog (R c) True st4)" by (rule inv_same_core [OF same_core_clearWatchdog st4(2)])
    from startNextEligible_ok [OF this R, of env False] st4(1) root rel R show ?thesis
      by (cases b) (auto simp: notifyTerminal_def Let_def F_def)
  qed
qed

lemma inv_resize:
  assumes inv: "sched_inv R st" and rt: "rt \<noteq> []"
  shows "\<exists>b st'. sched_resize env rt n st = Inr (b, st') \<and> sched_inv R st'"
proof (cases "semaphores st rt")
  case None
  with inv show ?thesis by (auto simp: sched_resize_def)
next
  case (Some sm)
  let ?st = "put_semaphore rt (resize n sm) st"
  have books: "sem.balanced sm (held_by st rt)" "0 \<le> sem_capacity sm"
    using sched_invD(3) [OF inv, of rt] Some by (simp_all add: root_inv_def)
  have "sched_inv R ?st"
    unfolding sched_inv_def
  proof (intro conjI allI)
    show "ids_sane ?st" using sched_invD(1) [OF inv] by (simp add: sched_simps)
    have obs: "queue ?st r = queue st r" "held_by ?st r = held_by st r" "request ?st c = request st c"
      "requests ?st = requests st" "childRoot ?st = childRoot st" for r c
      by (simp_all add: sched_simps)
    show "child_inv R ?st c" for c
      using sched_invD(2) [OF inv, of c] unfolding child_inv_def obs .
    show "root_inv ?st r" for r
      using sched_invD(3) [OF inv, of r] resize_idle [of sm n] books
      by (auto simp: root_inv_def obs semaphores_upd sem.balanced_def)
  qed
  from startNextEligible_ok [OF this rt, of env False] Some show ?thesis
    by (auto simp: sched_resize_def)
qed

lemma inv_onStartFailure:
  assumes "sched_inv R st" and "R c \<noteq> []"
  shows "\<exists>st'. onStartFailure env (R c) c err g st = Inr st' \<and> sched_inv R st'"
proof -
  from inv_start_failure [OF assms(1), of env c err g] obtain d st1 where
    "start_failure env (R c) c err g st = Inr (d, st1)" "sched_inv R st1" by blast
  with redrive_ok [OF this(2) assms(2), of env d] show ?thesis by (simp add: onStartFailure_def)
qed

lemma inv_timer_fires:
  assumes inv: "sched_inv R st" and R: "R c \<noteq> []"
    and r: "request st c = Some r" "\<not> rq_terminal r" "rq_timer r = Some (d, rt)"
  shows "\<exists>st'. timer_fires env rt c g st = Inr st' \<and> sched_inv R st'"
proof -
  obtain i where i: "requests st c = Some i" "rq_heap st i = Some r"
    using r(1) by (auto simp: request_def split: option.splits)
  have rt: "rt = R c" and q: "c \<in> set (queue st rt)"
    using sched_invD(2) [OF inv, of c] r by (auto simp: child_inv_def)
  note ids = sched_invD(1) [OF inv]
  let ?f = "\<lambda>r. r\<lparr>rq_timer := None\<rparr>"
  let ?st1 = "set_request i ?f st"
  have rq: "request ?st1 c' = (if c' = c then Some (?f r) else request st c')" for c'
    using request_other [OF ids i(1), of ?f c'] r by simp
  have inv1: "sched_inv R ?st1"
  proof (rule inv_touches [OF inv, of c])
    show "touches R c st ?st1" by (simp add: touches_def rq) (simp add: sched_simps)
    show "ids_sane ?st1" using ids by (simp add: sched_simps)
    have obs: "queue ?st1 r = queue st r" "held_by ?st1 r = held_by st r"
      "requests ?st1 = requests st" "childRoot ?st1 = childRoot st" "semaphores ?st1 = semaphores st" for r
      by (simp_all add: sched_simps)
    show "child_inv R ?st1 c"
      by (rule child_inv_change [OF sched_invD(2) [OF inv]])
        (use sched_invD(2) [OF inv, of c] rq r(2) in \<open>auto simp only: obs child_inv_def, auto\<close>)
    show "root_inv ?st1 (R c)" using sched_invD(3) [OF inv, of "R c"] unfolding root_inv_def obs .
  qed
  have "sched_inv R (enqueue (R c) c ?st1)"
    by (rule inv_enqueue [OF inv1, of c "?f r"])
      (use inv_queued(1) [OF inv q] rq r rt in \<open>simp_all add: sched_simps\<close>)
  from startNextEligible_ok [OF this R, of env False] inv inv1 i r(2) rt show ?thesis
    by (auto simp: timer_fires_def Let_def split: option.split)
qed

lemma inv_repair_done:
  assumes inv: "sched_inv R st"
    and cur: "requests st c = Some i \<longrightarrow> c \<notin> fst ` set (held_by st (R c)) \<and> c \<notin> set (queue st (R c))"
  shows "sched_inv R (repair_done (R c) c i st)"
proof (cases "\<exists>r. rq_heap st i = Some r \<and> \<not> rq_terminal r \<and> requests st c = Some i")
  case True
  with inv_queue_timer [OF inv] cur show ?thesis
    by (auto simp: repair_done_def scheduleRetry_def Let_def)
next
  case False
  with inv show ?thesis by (auto simp: repair_done_def scheduleRetry_def split: option.split)
qed


section \<open>Runs of the scheduler\<close>

text \<open>
  A call or callback, each with the environment at that moment. Calls are never restricted, nor
  are rejections of starts; \<open>current\<close> says which of the other callbacks the invariant covers.
  A start may resolve when the child has no request or one of another generation (then nothing
  happens) or still holds the permit taken for that generation. A timer may fire when the child
  has no request, a terminal one or one of another generation (nothing happens), or that timer is
  the armed one. A repair may resolve when its request has been replaced or ended (nothing happens) or the child
  neither waits nor holds a permit, and be rejected when its request has ended (nothing happens)
  or is on record and the child does not wait. What is left out are the callbacks of an abandoned
  request that reach a later request of the same child: generations restart at 1 once a request
  is cleared, so the code takes the one for the other. The theorems about such runs at the end of
  this theory show that they break the books.
\<close>

datatype sched_op =
    S_request string
  | S_terminal string
  | S_resize string js_num
  | S_retryRoot string
  | S_drive string
  | S_success string string nat
  | S_failure string string thrown nat
  | S_timer string string nat
  | S_repaired string string nat
  | S_repair_failed string string nat thrown

fun sched_do :: "sched_env \<Rightarrow> sched_op \<Rightarrow> sched \<Rightarrow> sched_error + sched" where
  "sched_do env (S_request c) st = bind_res (requestStart env c st) (\<lambda>(_, st'). Inr st')"
| "sched_do env (S_terminal c) st = notifyTerminal env c st"
| "sched_do env (S_resize rt n) st = bind_res (sched_resize env rt n st) (\<lambda>(_, st'). Inr st')"
| "sched_do env (S_retryRoot rt) st = retryRoot env rt st"
| "sched_do env (S_drive rt) st = startNextEligible env rt False st"
| "sched_do env (S_success rt c g) st = Inr (onStartSuccess rt c g st)"
| "sched_do env (S_failure rt c e g) st = onStartFailure env rt c e g st"
| "sched_do env (S_timer rt c g) st = timer_fires env rt c g st"
| "sched_do env (S_repaired rt c i) st = Inr (repair_done rt c i st)"
| "sched_do env (S_repair_failed rt c i e) st = Inr (repair_failed env rt c i e st)"

fun current :: "(string \<Rightarrow> string) \<Rightarrow> sched \<Rightarrow> sched_op \<Rightarrow> bool" where
  "current R st (S_resize rt n) = (rt \<noteq> [])"
| "current R st (S_retryRoot rt) = (rt \<noteq> [])"
| "current R st (S_drive rt) = (rt \<noteq> [])"
| "current R st (S_success rt c g) =
     (rt = R c \<and>
      (case request st c of
         None \<Rightarrow> True
       | Some r \<Rightarrow> rq_generation r \<noteq> g \<or> map_of (held_by st (R c)) c = Some g))"
| "current R st (S_failure rt c e g) = (rt = R c)"
| "current R st (S_timer rt c g) =
     (case request st c of
        None \<Rightarrow> True
      | Some r \<Rightarrow> rq_generation r \<noteq> g \<or> rq_terminal r \<or>
          (case rq_timer r of None \<Rightarrow> False | Some (d, rt') \<Rightarrow> rt' = rt))"
| "current R st (S_repaired rt c i) =
     (rt = R c \<and>
      (case rq_heap st i of
         None \<Rightarrow> True
       | Some r \<Rightarrow> rq_terminal r \<or> requests st c \<noteq> Some i \<or>
           \<not> isHolding st (R c) c \<and> c \<notin> set (queue st (R c))))"
| "current R st (S_repair_failed rt c i e) =
     (rt = R c \<and>
      (case rq_heap st i of
         None \<Rightarrow> True
       | Some r \<Rightarrow> rq_terminal r \<or> requests st c = Some i \<and> c \<notin> set (queue st (R c))))"
| "current R st op = True"

inductive sched_reach :: "(string \<Rightarrow> string) \<Rightarrow> sched \<Rightarrow> bool" for R where
  init: "sched_reach R new_sched"
| step: "sched_reach R st \<Longrightarrow> env_ok R env \<Longrightarrow> current R st op \<Longrightarrow> sched_do env op st = Inr st' \<Longrightarrow>
    sched_reach R st'"

lemma inv_new: "sched_inv R new_sched"
  by (simp add: sched_inv_def ids_sane_def child_inv_def root_inv_def new_sched_def queue_def
      held_by_def or_empty_def request_def)

lemma inv_sched_do:
  assumes inv: "sched_inv R st" and ok: "env_ok R env" and cur: "current R st op"
  shows "\<exists>st'. sched_do env op st = Inr st' \<and> sched_inv R st'"
proof -
  have R: "R c \<noteq> []" for c using ok by (simp add: env_ok_def)
  show ?thesis
  proof (cases op)
    case (S_request c)
    with inv_requestStart [OF inv ok, of c] show ?thesis by auto
  next
    case (S_terminal c)
    with inv_notifyTerminal [OF inv ok] show ?thesis by simp
  next
    case (S_resize rt n)
    with inv_resize [OF inv, of rt env n] cur show ?thesis by auto
  next
    case (S_retryRoot rt)
    with startNextEligible_ok [OF inv_same_core [OF same_core_clearWatchdog inv]] cur show ?thesis
      by (simp add: retryRoot_def)
  next
    case (S_drive rt)
    with startNextEligible_ok [OF inv] cur show ?thesis by simp
  next
    case (S_success rt c g)
    show ?thesis
    proof (cases "\<exists>r. request st c = Some r \<and> rq_generation r = g")
      case True
      have "c \<notin> set (queue st (R c))"
      proof
        assume q: "c \<in> set (queue st (R c))"
        from inv_queued(1) [OF inv q] have "c \<notin> fst ` set (held_by st (R c))" by auto
        with cur S_success True show False by (auto simp: map_of_None_key [symmetric])
      qed
      with inv_onStartSuccess [OF inv] S_success show ?thesis by simp
    qed (use S_success inv in \<open>auto simp: onStartSuccess_def split: option.split\<close>)
  next
    case (S_failure rt c e g)
    with inv_onStartFailure [OF inv R] cur show ?thesis by simp
  next
    case (S_timer rt c g)
    show ?thesis
    proof (cases "request st c")
      case None
      with S_timer inv show ?thesis by (auto simp: timer_fires_def request_def split: option.splits)
    next
      case (Some r)
      show ?thesis
      proof (cases "rq_generation r \<noteq> g \<or> rq_terminal r")
        case True
        with S_timer Some inv show ?thesis
          by (auto simp: timer_fires_def request_def split: option.splits)
      next
        case False
        with cur S_timer Some obtain d where "\<not> rq_terminal r" "rq_timer r = Some (d, rt)"
          by (auto split: option.splits)
        with inv_timer_fires [OF inv R Some] S_timer show ?thesis by simp
      qed
    qed
  next
    case (S_repaired rt c i)
    show ?thesis
    proof (cases "\<exists>r. rq_heap st i = Some r \<and> \<not> rq_terminal r")
      case True
      with S_repaired inv_repair_done [OF inv] cur show ?thesis by (auto simp: isHolding_def map_of_None_key)
    qed (use S_repaired inv in \<open>auto simp: repair_done_def scheduleRetry_def split: option.splits\<close>)
  next
    case (S_repair_failed rt c i e)
    show ?thesis
    proof (cases "\<exists>r. rq_heap st i = Some r \<and> \<not> rq_terminal r")
      case True
      with S_repair_failed inv_make_terminal [OF inv] cur show ?thesis by (auto simp: repair_failed_def)
    qed (use S_repair_failed inv in \<open>auto simp: repair_failed_def make_terminal_def split: option.splits\<close>)
  qed
qed

lemma reach_inv: "sched_reach R st \<Longrightarrow> sched_inv R st"
proof (induction rule: sched_reach.induct)
  case init
  then show ?case by (rule inv_new)
next
  case (step st env op st')
  with inv_sched_do show ?case by fastforce
qed


section \<open>Correctness of the scheduler\<close>

definition demo_view :: "string \<Rightarrow> child_view option" where
  "demo_view c = Some \<lparr>cv_archived = False, cv_rootGoalId = Some ''r'', cv_parentGoalId = None, cv_paused = False\<rparr>"

definition demo_env :: sched_env where
  "demo_env = \<lparr>env_resolveCap = (\<lambda>_. Some 1), env_getChild = demo_view,
     env_startChildTeam = (\<lambda>_ _. Start_pending), env_hasLiveTeam = (\<lambda>_. False),
     env_canRepair = True, env_now = 0\<rparr>"

lemma demo_env_ok: "env_ok (\<lambda>_. ''r'') demo_env"
  by (auto simp: env_ok_def demo_env_def demo_view_def)

definition demo1 :: sched where
  "demo1 = (case sched_do demo_env (S_request ''a'') new_sched of Inr st \<Rightarrow> st | Inl _ \<Rightarrow> new_sched)"

lemma demo1_reach: "sched_reach (\<lambda>_. ''r'') demo1"
proof -
  from inv_sched_do [OF inv_new demo_env_ok, of "S_request ''a''"]
  obtain st where "sched_do demo_env (S_request ''a'') new_sched = Inr st" by auto
  then show ?thesis
    using sched_reach.step [OF sched_reach.init demo_env_ok, of "S_request ''a''" st]
    by (simp add: demo1_def)
qed

text \<open>
  C2: In every state reachable by calls and current callbacks, so as long as no callback of an
  abandoned request is taken for one of a later request of that child, the permits of a root are
  exactly accounted for by its holders: the free permits plus one per held start equal the
  capacity plus the debt of a shrink, nothing is negative, and no child is entered twice. A root
  without a pool has no holders. Without that restriction the count is wrong, see
  \<open>stale_success_doubles_permit\<close> below.
\<close>

theorem scheduler_conserves_permits:
  assumes "sched_reach R st"
  shows "distinct (map fst (held_by st rt)) \<and>
    (case semaphores st rt of
       None \<Rightarrow> held_by st rt = []
     | Some sm \<Rightarrow> 0 \<le> available sm \<and> 0 \<le> sem_debt sm \<and>
         available sm + int (length (held_by st rt)) = capacity sm + sem_debt sm)"
  using sched_invD(3) [OF reach_inv [OF assms], of rt]
  by (auto simp: root_inv_def sem.balanced_def sem_idle_def sem_wf_def held_def available_def
      capacity_def split: option.split)

lemma scheduler_conserves_permits_witness:
  "distinct (map fst (held_by demo1 ''r'')) \<and> length (held_by demo1 ''r'') = 1"
proof -
  have "length (held_by demo1 ''r'') = 1" by code_simp
  with scheduler_conserves_permits [OF demo1_reach, of "''r''"] show ?thesis by blast
qed

text \<open>
  C19: no call and no current callback fails: the loop over the queue ends even though starts that
  fail at once re-enter it, and giving back a permit never throws an over-release.
\<close>

theorem scheduler_total:
  assumes "sched_reach R st" and "env_ok R env" and "current R st op"
  shows "\<exists>st'. sched_do env op st = Inr st'"
  using inv_sched_do [OF reach_inv [OF assms(1)] assms(2,3)] by blast

lemma scheduler_total_witness:
  "\<exists>st'. sched_do demo_env (S_terminal ''a'') demo1 = Inr st'"
  by (rule scheduler_total [OF demo1_reach demo_env_ok]) simp

text \<open>
  C25: start requests are single-flight: in every state reachable by calls and current callbacks
  (no callback of an abandoned request taken for one of a later request of that child; after such a
  one a child may wait without a request, see \<open>stale_success_doubles_permit\<close> below) a child waits
  in the queue of its own root only, at most once, never while it holds a permit there, and only
  with a live request; a child whose retry timer is armed is in the queue.
\<close>

theorem scheduler_single_flight:
  assumes "sched_reach R st"
  shows "distinct (queue st rt) \<and>
    (\<forall>c. c \<in> set (queue st rt) \<longrightarrow>
       rt = R c \<and> \<not> isHolding st rt c \<and> (\<exists>r. request st c = Some r \<and> \<not> rq_terminal r)) \<and>
    (\<forall>c r d. request st c = Some r \<longrightarrow> \<not> rq_terminal r \<longrightarrow> rq_timer r = Some (d, rt) \<longrightarrow>
       c \<in> set (queue st rt))"
proof -
  note inv = reach_inv [OF assms]
  have "distinct (queue st rt)" using sched_invD(3) [OF inv, of rt] by (simp add: root_inv_def)
  moreover have "\<forall>c. c \<in> set (queue st rt) \<longrightarrow>
       rt = R c \<and> \<not> isHolding st rt c \<and> (\<exists>r. request st c = Some r \<and> \<not> rq_terminal r)"
    using inv_queue_root [OF inv] inv_queued(1,2) [OF inv] by (auto simp: isHolding_def map_of_None_key)
  moreover have "\<forall>c r d. request st c = Some r \<longrightarrow> \<not> rq_terminal r \<longrightarrow> rq_timer r = Some (d, rt) \<longrightarrow>
       c \<in> set (queue st rt)"
    using sched_invD(2) [OF inv] unfolding child_inv_def by blast
  ultimately show ?thesis by blast
qed

definition demo2 :: sched where
  "demo2 = (case sched_do demo_env (S_request ''b'') demo1 of Inr st \<Rightarrow> st | Inl _ \<Rightarrow> new_sched)"

lemma demo2_reach: "sched_reach (\<lambda>_. ''r'') demo2"
proof -
  from inv_sched_do [OF reach_inv [OF demo1_reach] demo_env_ok, of "S_request ''b''"]
  obtain st where "sched_do demo_env (S_request ''b'') demo1 = Inr st" by auto
  then show ?thesis
    using sched_reach.step [OF demo1_reach demo_env_ok, of "S_request ''b''" st]
    by (simp add: demo2_def)
qed

lemma scheduler_single_flight_witness: "\<not> isHolding demo2 ''r'' ''b''"
proof -
  have "''b'' \<in> set (queue demo2 ''r'')" by code_simp
  with scheduler_single_flight [OF demo2_reach, of "''r''"] show ?thesis by blast
qed

text \<open>Runs in which a callback arrives for a request that has been superseded.\<close>

definition busy :: thrown where
  "busy = \<lparr>err_code = None, err_message = None, err_shown = ''busy''\<rparr>"

definition no_lead :: thrown where
  "no_lead = \<lparr>err_code = Some ''TEAM_LEAD_UNAVAILABLE'', err_message = None, err_shown = ''no lead''\<rparr>"

fun sched_all :: "sched_env \<Rightarrow> sched_op list \<Rightarrow> sched \<Rightarrow> sched_error + sched" where
  "sched_all env [] st = Inr st"
| "sched_all env (op # ops) st = bind_res (sched_do env op st) (sched_all env ops)"

lemmas run_defs = requestStart_def tracked_start_def fresh_start_def notifyTerminal_def outcome_def
  onStartFailure_def redrive_def start_failure_def settle_failure_def scheduleRetry_def
  make_terminal_def repair_failed_def start_holding_def begin_start_def onStartSuccess_def
  startNextEligible_def drive_open_def drive_fuel_def recordUnproductiveRedrive_def
  discardIfLive_def rootOf_def child_paused_def getSemaphore_def newRequest_def clearRequest_def
  drop_child_def markHolding_def isHolding_def releaseHeldStart_def enqueue_def removePending_def
  dequeue_at_def put_semaphore_def release_permit_def clearWatchdog_def emit_def queue_def
  held_by_def request_def set_request_def has_timer_def to_failure_def needsOperatorAction_def
  retry_delay_def or_empty_def new_sched_def isTracked_def PERMANENT_CODES_def
  MAX_TRANSIENT_ATTEMPTS_def WATCHDOG_LIMIT_def WATCHDOG_WINDOW_MS_def RETRY_BASE_MS_def
  RETRY_MAX_MS_def tryAcquire_def release_def grantNextWaiter_def new_semaphore_def available_def

lemmas demo_defs = demo_env_def demo_view_def busy_def no_lead_def

text \<open>
  The generation token does not tell a start from a start of an earlier life of the same
  request: with a cap of one, after \<open>a\<close> is started, ended and started again, the rejection of
  its first start gives back the permit of the second, which is still in flight, and \<open>b\<close> is
  started beside it.
\<close>

theorem stale_rejection_releases_live_permit:
  "\<exists>st. sched_all demo_env
       [S_request ''a'', S_terminal ''a'', S_request ''a'', S_failure ''r'' ''a'' busy 1, S_request ''b'']
       new_sched = Inr st \<and>
     held_by st ''r'' = [(''b'', 1)] \<and>
     filter (\<lambda>e. case e of Start_called _ _ \<Rightarrow> True | _ \<Rightarrow> False) (events st) =
       [Start_called ''a'' 1, Start_called ''a'' 1, Start_called ''b'' 1]"
proof -
  have "case sched_all demo_env
       [S_request ''a'', S_terminal ''a'', S_request ''a'', S_failure ''r'' ''a'' busy 1, S_request ''b'']
       new_sched of
     Inl _ \<Rightarrow> False
   | Inr st \<Rightarrow> held_by st ''r'' = [(''b'', 1)] \<and>
       filter (\<lambda>e. case e of Start_called _ _ \<Rightarrow> True | _ \<Rightarrow> False) (events st) =
         [Start_called ''a'' 1, Start_called ''a'' 1, Start_called ''b'' 1]"
    by (simp add: run_defs demo_defs Let_def eval_nat_numeral)
  then show ?thesis by (auto split: sum.splits)
qed

text \<open>
  A start that resolves after its request was ended and its child, now paused, requested anew
  clears the new request: \<open>a\<close> waits without a request. When it is resumed and requested once more
  it takes a permit while it still waits, and the next drive of the queue takes a second one and
  starts it again: both permits are gone for one holder.
\<close>

definition two_env :: "bool \<Rightarrow> sched_env" where
  "two_env p = demo_env\<lparr>env_resolveCap := (\<lambda>_. Some 2),
     env_getChild := (\<lambda>_. Some \<lparr>cv_archived = False, cv_rootGoalId = Some ''r'', cv_parentGoalId = None, cv_paused = p\<rparr>)\<rparr>"

theorem stale_success_doubles_permit:
  "\<exists>st1 st2 st3.
     sched_all (two_env False) [S_request ''a'', S_terminal ''a''] new_sched = Inr st1 \<and>
     sched_all (two_env True) [S_request ''a'', S_success ''r'' ''a'' 1] st1 = Inr st2 \<and>
     queue st2 ''r'' = [''a''] \<and> request st2 ''a'' = None \<and>
     sched_all (two_env False) [S_request ''a'', S_drive ''r''] st2 = Inr st3 \<and>
     held_by st3 ''r'' = [(''a'', 1)] \<and> map_option available (semaphores st3 ''r'') = Some 0 \<and>
     filter (\<lambda>e. case e of Start_called _ _ \<Rightarrow> True | _ \<Rightarrow> False) (events st3) =
       [Start_called ''a'' 1, Start_called ''a'' 1, Start_called ''a'' 2]"
proof -
  have "case sched_all (two_env False) [S_request ''a'', S_terminal ''a''] new_sched of
     Inl _ \<Rightarrow> False
   | Inr st1 \<Rightarrow>
      (case sched_all (two_env True) [S_request ''a'', S_success ''r'' ''a'' 1] st1 of
         Inl _ \<Rightarrow> False
       | Inr st2 \<Rightarrow>
          queue st2 ''r'' = [''a''] \<and> request st2 ''a'' = None \<and>
          (case sched_all (two_env False) [S_request ''a'', S_drive ''r''] st2 of
             Inl _ \<Rightarrow> False
           | Inr st3 \<Rightarrow>
              held_by st3 ''r'' = [(''a'', 1)] \<and> map_option available (semaphores st3 ''r'') = Some 0 \<and>
              filter (\<lambda>e. case e of Start_called _ _ \<Rightarrow> True | _ \<Rightarrow> False) (events st3) =
                [Start_called ''a'' 1, Start_called ''a'' 1, Start_called ''a'' 2]))"
    by (simp add: run_defs demo_defs two_env_def Let_def eval_nat_numeral)
  then show ?thesis by (auto split: sum.splits)
qed

text \<open>
  A repair that rejects after its request was superseded removes the child from the queue:
  the new request of \<open>a\<close> stays on record, but \<open>a\<close> is in no queue, has no timer and holds
  nothing, so although a permit is free every further start request answers capacity-blocked.
\<close>

theorem stale_repair_starves_child:
  "\<exists>st st'. sched_all demo_env
       [S_request ''a'', S_failure ''r'' ''a'' no_lead 1, S_terminal ''a'', S_request ''b'',
        S_request ''a'', S_repair_failed ''r'' ''a'' 0 no_lead, S_terminal ''b''] new_sched = Inr st \<and>
     map_option available (semaphores st ''r'') = Some 1 \<and> isTracked st ''a'' \<and>
     requestStart demo_env ''a'' st = Inr (Capacity_blocked, st') \<and> events st' = events st"
proof -
  have "case sched_all demo_env
       [S_request ''a'', S_failure ''r'' ''a'' no_lead 1, S_terminal ''a'', S_request ''b'',
        S_request ''a'', S_repair_failed ''r'' ''a'' 0 no_lead, S_terminal ''b''] new_sched of
     Inl _ \<Rightarrow> False
   | Inr st \<Rightarrow> map_option available (semaphores st ''r'') = Some 1 \<and> isTracked st ''a'' \<and>
       (case requestStart demo_env ''a'' st of
          Inl _ \<Rightarrow> False
        | Inr (oc, st') \<Rightarrow> oc = Capacity_blocked \<and> events st' = events st)"
    by (simp add: run_defs demo_defs Let_def eval_nat_numeral)
  then show ?thesis by (auto split: sum.splits prod.splits)
qed

end
