(* ===== verification/Event_Buffer.thy ===== *)
theory Event_Buffer
  imports Prelude Js_Value
begin

text \<open>
  The reconnect buffer of a session, \<open>src/src/server/agent/event-buffer.ts\<close>: events get
  consecutive sequence numbers, the most recent ones are kept within a count and a byte bound,
  and a client that resumes after a sequence number is either replayed everything it missed or
  told that it cannot resume. The serialized size of an entry is an argument (\<open>None\<close>: it
  cannot be serialized). Sequence numbers and cursors are whole numbers.
\<close>

record 'e buffered =
  be_seq :: int
  be_ts :: int
  be_event :: 'e

record 'e retained =
  rt_entry :: "'e buffered"
  rt_bytes :: int

record 'e event_buffer =
  eb_buffer :: "'e retained list"
  eb_maxSize :: int
  eb_byteLimit :: int
  eb_bytesRetained :: int
  eb_lastUnretainedSeq :: int
  eb_nextSeq :: int

definition DEFAULT_MAX_BYTES :: int where
  "DEFAULT_MAX_BYTES = 2 * 1024 * 1024"

fun limit_of :: "js_num \<Rightarrow> int" where
  "limit_of (Fin q) = max 0 \<lfloor>q\<rfloor>"
| "limit_of _ = 0"

definition new_buffer :: "js_num \<Rightarrow> js_num \<Rightarrow> 'e event_buffer" where
  "new_buffer maxSize maxBytes =
     \<lparr>eb_buffer = [], eb_maxSize = limit_of maxSize, eb_byteLimit = limit_of maxBytes,
      eb_bytesRetained = 0, eb_lastUnretainedSeq = 0, eb_nextSeq = 1\<rparr>"

definition dropAllRetained :: "'e event_buffer \<Rightarrow> 'e event_buffer" where
  "dropAllRetained b = b\<lparr>eb_buffer := [], eb_bytesRetained := 0\<rparr>"

text \<open>The eviction loop of \<open>push\<close>.\<close>

fun evict :: "int \<Rightarrow> int \<Rightarrow> 'e retained list \<Rightarrow> int \<Rightarrow> 'e retained list \<times> int" where
  "evict maxSize byteLimit [] bytes = ([], bytes)"
| "evict maxSize byteLimit (r # rs) bytes =
     (if int (length (r # rs)) > maxSize \<or> bytes > byteLimit
      then evict maxSize byteLimit rs (bytes - rt_bytes r)
      else (r # rs, bytes))"

definition push :: "('e buffered \<Rightarrow> nat option) \<Rightarrow> int \<Rightarrow> 'e \<Rightarrow> 'e event_buffer \<Rightarrow> 'e buffered \<times> 'e event_buffer" where
  "push json_bytes now e b =
     (let entry = \<lparr>be_seq = eb_nextSeq b, be_ts = now, be_event = e\<rparr>;
          b1 = b\<lparr>eb_nextSeq := eb_nextSeq b + 1\<rparr> in
      case json_bytes entry of
        None \<Rightarrow> (entry, (dropAllRetained b1)\<lparr>eb_lastUnretainedSeq := be_seq entry\<rparr>)
      | Some bytes \<Rightarrow>
        if int bytes > eb_byteLimit b \<or> eb_maxSize b = 0
        then (entry, (dropAllRetained b1)\<lparr>eb_lastUnretainedSeq := be_seq entry\<rparr>)
        else
          let (rs, total) = evict (eb_maxSize b) (eb_byteLimit b)
                (eb_buffer b @ [\<lparr>rt_entry = entry, rt_bytes = int bytes\<rparr>])
                (eb_bytesRetained b + int bytes) in
          (entry, b1\<lparr>eb_buffer := rs, eb_bytesRetained := total\<rparr>))"

definition pushFrame :: "int \<Rightarrow> 'e event_buffer \<Rightarrow> (int \<times> int) \<times> 'e event_buffer" where
  "pushFrame now b =
     ((eb_nextSeq b, now), b\<lparr>eb_nextSeq := eb_nextSeq b + 1, eb_lastUnretainedSeq := eb_nextSeq b\<rparr>)"

definition eb_getAll :: "'e event_buffer \<Rightarrow> 'e buffered list" where
  "eb_getAll b = map rt_entry (eb_buffer b)"

definition since :: "'e event_buffer \<Rightarrow> int \<Rightarrow> 'e buffered list" where
  "since b fromSeq =
     (case eb_buffer b of
        [] \<Rightarrow> []
      | r # _ \<Rightarrow>
        if fromSeq < be_seq (rt_entry r) - 1 then eb_getAll b
        else map rt_entry (filter (\<lambda>r. be_seq (rt_entry r) > fromSeq) (eb_buffer b)))"

definition lastSeq :: "'e event_buffer \<Rightarrow> int" where
  "lastSeq b = eb_nextSeq b - 1"

definition canResumeFrom :: "'e event_buffer \<Rightarrow> int \<Rightarrow> bool" where
  "canResumeFrom b fromSeq =
     (if fromSeq < eb_lastUnretainedSeq b then False
      else
        (case eb_buffer b of
           [] \<Rightarrow> fromSeq = lastSeq b
         | r # _ \<Rightarrow> be_seq (rt_entry r) \<le> fromSeq + 1))"

definition eb_clear :: "'e event_buffer \<Rightarrow> 'e event_buffer" where
  "eb_clear b = (dropAllRetained b)\<lparr>eb_lastUnretainedSeq := 0, eb_nextSeq := 1\<rparr>"

definition seedNextSeq :: "int \<Rightarrow> 'e event_buffer \<Rightarrow> 'e event_buffer" where
  "seedNextSeq seq b = (if seq < 1 \<or> seq \<le> eb_nextSeq b then b else b\<lparr>eb_nextSeq := seq\<rparr>)"

definition eb_size :: "'e event_buffer \<Rightarrow> nat" where
  "eb_size b = length (eb_buffer b)"

definition retainedBytes :: "'e event_buffer \<Rightarrow> int" where
  "retainedBytes b = eb_bytesRetained b"


section \<open>Histories\<close>

text \<open>
  What a run assigns numbers to: an event or a frame. \<open>clear\<close> starts a new history.
\<close>

datatype 'e eb_op = EB_push int 'e | EB_frame int | EB_clear | EB_seed int

type_synonym 'e history = "(int \<times> 'e buffered option) list"

fun eb_step :: "('e buffered \<Rightarrow> nat option) \<Rightarrow> 'e eb_op \<Rightarrow> 'e event_buffer \<times> 'e history \<Rightarrow>
    'e event_buffer \<times> 'e history" where
  "eb_step json_bytes (EB_push now e) (b, h) =
     (case push json_bytes now e b of (entry, b') \<Rightarrow> (b', h @ [(be_seq entry, Some entry)]))"
| "eb_step json_bytes (EB_frame now) (b, h) =
     (case pushFrame now b of ((s, _), b') \<Rightarrow> (b', h @ [(s, None)]))"
| "eb_step json_bytes EB_clear (b, h) = (eb_clear b, [])"
| "eb_step json_bytes (EB_seed n) (b, h) = (seedNextSeq n b, h)"

definition eb_run :: "('e buffered \<Rightarrow> nat option) \<Rightarrow> 'e eb_op list \<Rightarrow> 'e event_buffer \<times> 'e history \<Rightarrow>
    'e event_buffer \<times> 'e history" where
  "eb_run json_bytes ops s = fold (eb_step json_bytes) ops s"

definition events_of :: "'e history \<Rightarrow> 'e buffered list" where
  "events_of h = List.map_filter snd h"

text \<open>
  The retained entries are the events of the end of the history; whatever comes before it and
  is still above the cursor floor has been evicted.
\<close>

definition hist_ok :: "int \<Rightarrow> int \<Rightarrow> 'e history \<Rightarrow> bool" where
  "hist_ok n l h \<longleftrightarrow>
     sorted_wrt (<) (map fst h) \<and> 1 \<le> n \<and> l < n \<and>
     (\<forall>p \<in> set h. 1 \<le> fst p \<and> fst p < n \<and> (\<forall>e. snd p = Some e \<longrightarrow> be_seq e = fst p) \<and>
        (snd p = None \<longrightarrow> fst p \<le> l))"

definition window_ok :: "'e event_buffer \<Rightarrow> 'e history \<Rightarrow> bool" where
  "window_ok b h \<longleftrightarrow> (\<exists>old recent. h = old @ recent \<and> eb_getAll b = events_of recent)"

definition bytes_ok :: "'e event_buffer \<Rightarrow> bool" where
  "bytes_ok b \<longleftrightarrow>
     eb_bytesRetained b = sum_list (map rt_bytes (eb_buffer b)) \<and>
     int (length (eb_buffer b)) \<le> eb_maxSize b \<and> eb_bytesRetained b \<le> eb_byteLimit b \<and>
     0 \<le> eb_maxSize b \<and> 0 \<le> eb_byteLimit b"

definition eb_inv :: "'e event_buffer \<Rightarrow> 'e history \<Rightarrow> bool" where
  "eb_inv b h \<longleftrightarrow>
     hist_ok (eb_nextSeq b) (eb_lastUnretainedSeq b) h \<and> window_ok b h \<and> bytes_ok b"

lemma hist_ok_snoc:
  assumes "hist_ok n l h" and "l \<le> l'" and "l' < n + 1" and "x = None \<longrightarrow> n \<le> l'"
    and "\<And>e. x = Some e \<Longrightarrow> be_seq e = n"
  shows "hist_ok (n + 1) l' (h @ [(n, x)])"
  using assms by (fastforce simp: hist_ok_def sorted_wrt_append)

lemma hist_ok_mono: "hist_ok n l h \<Longrightarrow> n \<le> n' \<Longrightarrow> hist_ok n' l h"
  by (fastforce simp: hist_ok_def)

lemma evict_suffix:
  "evict n k rs t = (rs', t') \<Longrightarrow> 0 \<le> n \<Longrightarrow> 0 \<le> k \<Longrightarrow> t = sum_list (map rt_bytes rs) \<Longrightarrow>
   \<exists>gone. rs = gone @ rs' \<and> t' = sum_list (map rt_bytes rs') \<and> int (length rs') \<le> n \<and> t' \<le> k"
proof (induction n k rs t rule: evict.induct)
  case (2 n k r rs t)
  show ?case
  proof (cases "int (length (r # rs)) > n \<or> t > k")
    case True
    with 2 obtain gone where "rs = gone @ rs' \<and> t' = sum_list (map rt_bytes rs') \<and>
        int (length rs') \<le> n \<and> t' \<le> k" by auto
    then show ?thesis by (intro exI [of _ "r # gone"]) simp
  next
    case False
    with 2 show ?thesis by auto
  qed
qed simp

lemma events_of_simps [simp]:
  "events_of [] = []"
  "events_of (h @ h') = events_of h @ events_of h'"
  "events_of [(s, None)] = []"
  "events_of [(s, Some e)] = [e]"
  by (simp_all add: events_of_def map_filter_def)

lemma events_of_split:
  "events_of h = xs @ ys \<Longrightarrow> \<exists>h1 h2. h = h1 @ h2 \<and> events_of h1 = xs \<and> events_of h2 = ys"
proof (induction h arbitrary: xs)
  case (Cons a h)
  obtain s x where a: "a = (s, x)" by (rule prod.exhaust)
  show ?case
  proof (cases "xs = []")
    case True
    with Cons.prems show ?thesis by (intro exI [of _ "[]"] exI [of _ "a # h"]) simp
  next
    case False
    then obtain xs' where "events_of h = xs' @ ys" "xs = events_of [a] @ xs'"
      using Cons.prems a by (cases x; cases xs) (auto simp: events_of_def map_filter_def)
    with Cons.IH obtain h1 h2 where "h = h1 @ h2" "events_of h1 = xs'" "events_of h2 = ys" by blast
    with \<open>xs = events_of [a] @ xs'\<close> show ?thesis
      using events_of_simps(2) [of "[a]" h1] by (intro exI [of _ "a # h1"] exI [of _ h2]) simp
  qed
qed simp

lemma eb_inv_new: "eb_inv (new_buffer m k) []"
proof -
  have "0 \<le> limit_of n" for n by (cases n) auto
  then show ?thesis
    by (simp add: eb_inv_def new_buffer_def eb_getAll_def hist_ok_def window_ok_def bytes_ok_def)
qed

lemma eb_inv_push:
  assumes inv: "eb_inv b h" and p: "push json_bytes now e b = (entry, b')"
  shows "eb_inv b' (h @ [(be_seq entry, Some entry)])"
proof -
  have seq: "be_seq entry = eb_nextSeq b"
    using p by (auto simp: push_def Let_def split: option.splits if_splits prod.splits)
  have hist: "hist_ok (eb_nextSeq b) (eb_lastUnretainedSeq b) h" and win: "window_ok b h"
    and bytes: "bytes_ok b" using inv by (simp_all add: eb_inv_def)
  have new: "hist_ok (eb_nextSeq b + 1) l (h @ [(be_seq entry, Some entry)])"
    if "l = eb_nextSeq b \<or> l = eb_lastUnretainedSeq b" for l
    unfolding seq
    by (rule hist_ok_snoc [OF hist]) (use that hist seq in \<open>auto simp: hist_ok_def\<close>)
  consider (drop) "b' = (dropAllRetained (b\<lparr>eb_nextSeq := eb_nextSeq b + 1\<rparr>))\<lparr>eb_lastUnretainedSeq := be_seq entry\<rparr>"
    | (keep) bytes rs total where "b' = b\<lparr>eb_nextSeq := eb_nextSeq b + 1, eb_buffer := rs, eb_bytesRetained := total\<rparr>"
      "evict (eb_maxSize b) (eb_byteLimit b) (eb_buffer b @ [\<lparr>rt_entry = entry, rt_bytes = int bytes\<rparr>])
        (eb_bytesRetained b + int bytes) = (rs, total)"
    using p by (auto simp: push_def Let_def split: option.splits if_splits prod.splits)
  then show ?thesis
  proof cases
    case drop
    have "window_ok b' (h @ [(be_seq entry, Some entry)])"
      unfolding window_ok_def
      by (intro exI [of _ "h @ [(be_seq entry, Some entry)]"] exI [of _ "[]"])
        (simp add: drop dropAllRetained_def eb_getAll_def)
    with new [of "eb_nextSeq b"] bytes show ?thesis
      by (simp add: eb_inv_def bytes_ok_def drop dropAllRetained_def seq)
  next
    case keep
    let ?r = "\<lparr>rt_entry = entry, rt_bytes = int bytes\<rparr>"
    from win obtain old recent where h: "h = old @ recent" "eb_getAll b = events_of recent"
      by (auto simp: window_ok_def)
    have "0 \<le> eb_maxSize b" "0 \<le> eb_byteLimit b"
      "eb_bytesRetained b + int bytes = sum_list (map rt_bytes (eb_buffer b @ [?r]))"
      using bytes by (simp_all add: bytes_ok_def)
    from evict_suffix [OF keep(2) this] obtain gone where gone: "eb_buffer b @ [?r] = gone @ rs"
      "total = sum_list (map rt_bytes rs)" "int (length rs) \<le> eb_maxSize b" "total \<le> eb_byteLimit b"
      by auto
    have "events_of (recent @ [(be_seq entry, Some entry)]) = map rt_entry (eb_buffer b @ [?r])"
      using h(2) by (simp add: eb_getAll_def)
    then have "events_of (recent @ [(be_seq entry, Some entry)]) = map rt_entry gone @ map rt_entry rs"
      unfolding gone(1) by simp
    from events_of_split [OF this] obtain h1 h2 where
      "recent @ [(be_seq entry, Some entry)] = h1 @ h2" "events_of h2 = map rt_entry rs" by blast
    then have "h @ [(be_seq entry, Some entry)] = (old @ h1) @ h2 \<and> eb_getAll b' = events_of h2"
      by (simp add: h keep eb_getAll_def)
    then have "window_ok b' (h @ [(be_seq entry, Some entry)])" unfolding window_ok_def by blast
    with new [of "eb_lastUnretainedSeq b"] gone bytes show ?thesis
      by (simp add: eb_inv_def bytes_ok_def keep)
  qed
qed

lemma eb_inv_frame:
  assumes inv: "eb_inv b h" and p: "pushFrame now b = ((s, ts), b')"
  shows "eb_inv b' (h @ [(s, None)])"
proof -
  have b': "s = eb_nextSeq b" "b' = b\<lparr>eb_nextSeq := eb_nextSeq b + 1, eb_lastUnretainedSeq := eb_nextSeq b\<rparr>"
    using p by (auto simp: pushFrame_def)
  have hist: "hist_ok (eb_nextSeq b) (eb_lastUnretainedSeq b) h" using inv by (simp add: eb_inv_def)
  from inv obtain old recent where "h = old @ recent" "eb_getAll b = events_of recent"
    by (auto simp: eb_inv_def window_ok_def)
  then have "h @ [(s, None)] = old @ (recent @ [(s, None)]) \<and> eb_getAll b' = events_of (recent @ [(s, None)])"
    by (simp add: b' eb_getAll_def)
  then have "window_ok b' (h @ [(s, None)])" unfolding window_ok_def by blast
  moreover have "hist_ok (eb_nextSeq b + 1) (eb_nextSeq b) (h @ [(s, None)])"
    unfolding b'(1) by (rule hist_ok_snoc [OF hist]) (use hist in \<open>auto simp: hist_ok_def\<close>)
  ultimately show ?thesis using inv by (simp add: eb_inv_def b' bytes_ok_def)
qed

lemma eb_inv_step:
  assumes "eb_inv b h" and "eb_step json_bytes op (b, h) = (b', h')"
  shows "eb_inv b' h'"
proof (cases op)
  case (EB_push now e)
  with assms eb_inv_push [OF assms(1)] show ?thesis by (auto split: prod.splits)
next
  case (EB_frame now)
  with assms eb_inv_frame [OF assms(1)] show ?thesis by (auto split: prod.splits)
next
  case EB_clear
  with assms show ?thesis
    by (auto simp: eb_inv_def eb_clear_def dropAllRetained_def eb_getAll_def hist_ok_def
        window_ok_def bytes_ok_def)
next
  case (EB_seed n)
  have "window_ok (b\<lparr>eb_nextSeq := n\<rparr>) h = window_ok b h" "bytes_ok (b\<lparr>eb_nextSeq := n\<rparr>) = bytes_ok b"
    by (simp_all add: window_ok_def bytes_ok_def eb_getAll_def)
  with EB_seed assms hist_ok_mono [of "eb_nextSeq b" "eb_lastUnretainedSeq b" h n] show ?thesis
    by (auto simp: eb_inv_def seedNextSeq_def)
qed

lemma eb_inv_run: "eb_inv b h \<Longrightarrow> eb_run json_bytes ops (b, h) = (b', h') \<Longrightarrow> eb_inv b' h'"
proof (induction ops arbitrary: b h)
  case (Cons op ops)
  obtain b1 h1 where s: "eb_step json_bytes op (b, h) = (b1, h1)" by (rule prod.exhaust)
  with Cons eb_inv_step [OF Cons.prems(1) s] show ?case by (simp add: eb_run_def)
qed (simp add: eb_run_def)


section \<open>Correctness of resuming\<close>

lemma events_of_filter:
  "\<forall>p \<in> set h. \<forall>e. snd p = Some e \<longrightarrow> be_seq e = fst p \<Longrightarrow>
   events_of (filter (\<lambda>p. fst p > f) h) = filter (\<lambda>e. be_seq e > f) (events_of h)"
proof (induction h)
  case (Cons a h)
  then have ih: "events_of (filter (\<lambda>p. fst p > f) h) = filter (\<lambda>e. be_seq e > f) (events_of h)"
    by simp
  have one: "events_of (a # h') = (case snd a of None \<Rightarrow> [] | Some e \<Rightarrow> [e]) @ events_of h'" for h'
    by (simp add: events_of_def map_filter_def split: option.split)
  have "be_seq e = fst a" if "snd a = Some e" for e using Cons.prems that by simp
  then show ?case by (cases "snd a") (simp_all add: one ih)
qed (simp add: events_of_def)

lemma resume_exact:
  assumes inv: "eb_inv b h" and c: "canResumeFrom b f"
  shows "since b f = events_of (filter (\<lambda>p. fst p > f) h)"
proof (cases "eb_buffer b")
  case Nil
  with c have "f = eb_nextSeq b - 1" by (auto simp: canResumeFrom_def lastSeq_def split: if_splits)
  with inv have "filter (\<lambda>p. fst p > f) h = []"
    by (force simp: eb_inv_def hist_ok_def filter_empty_conv)
  with Nil show ?thesis by (simp add: since_def)
next
  case (Cons r rs)
  with c have first: "be_seq (rt_entry r) \<le> f + 1" by (auto simp: canResumeFrom_def split: if_splits)
  from inv obtain old recent where h: "h = old @ recent" "eb_getAll b = events_of recent"
    by (auto simp: eb_inv_def window_ok_def)
  have seqs: "be_seq e = s" if "(s, Some e) \<in> set h" for s e
    using inv that by (force simp: eb_inv_def hist_ok_def)
  have "rt_entry r \<in> set (events_of recent)" using h(2) Cons
    by (metis eb_getAll_def list.set_intros(1) list.simps(9))
  then obtain s where "(s, Some (rt_entry r)) \<in> set recent"
    by (auto simp: events_of_def map_filter_def)
  with seqs h have mem: "be_seq (rt_entry r) \<in> fst ` set recent" by force
  have "fst p \<le> f" if "p \<in> set old" for p
    using inv that mem first by (fastforce simp: eb_inv_def hist_ok_def h sorted_wrt_append)
  then have "filter (\<lambda>p. fst p > f) h = filter (\<lambda>p. fst p > f) recent"
    by (fastforce simp: h filter_empty_conv)
  then have "events_of (filter (\<lambda>p. fst p > f) h) = filter (\<lambda>e. be_seq e > f) (eb_getAll b)"
    using events_of_filter [of recent f] seqs h by force
  also have "\<dots> = since b f"
    using Cons first by (simp add: since_def eb_getAll_def filter_map o_def)
  finally show ?thesis by simp
qed

text \<open>
  C31: a resume loses nothing: after any run of pushes, frames, clears and reseeds, when the buffer
  says that it can resume from a cursor, the replay consists of exactly the events assigned after
  the cursor, in order, and no frame or unretained event was assigned after it.
\<close>

theorem resume_is_complete:
  assumes "eb_run json_bytes ops (new_buffer maxSize maxBytes, []) = (b, h)" and "canResumeFrom b fromSeq"
  shows "since b fromSeq = events_of (filter (\<lambda>p. fst p > fromSeq) h) \<and>
    (\<forall>p \<in> set h. fst p > fromSeq \<longrightarrow> snd p \<noteq> None)"
proof -
  have inv: "eb_inv b h" by (rule eb_inv_run [OF eb_inv_new assms(1)])
  have "eb_lastUnretainedSeq b \<le> fromSeq"
    using assms(2) by (auto simp: canResumeFrom_def split: if_splits)
  with inv have "\<forall>p \<in> set h. fst p > fromSeq \<longrightarrow> snd p \<noteq> None"
    unfolding eb_inv_def hist_ok_def by force
  with resume_exact [OF inv assms(2)] show ?thesis by blast
qed

definition one_byte :: "string buffered \<Rightarrow> nat option" where
  "one_byte e = Some (length (be_event e))"

definition demo_ops :: "string eb_op list" where
  "demo_ops = [EB_push 1 ''a'', EB_push 2 ''b'', EB_frame 3, EB_push 4 ''c'', EB_push 5 ''d'']"

lemma resume_is_complete_witness:
  "map be_event (since (fst (eb_run one_byte demo_ops (new_buffer (Fin 3) (Fin 100), []))) 3) = [''c'', ''d'']"
proof -
  let ?r = "eb_run one_byte demo_ops (new_buffer (Fin 3) (Fin 100), [])"
  have c: "canResumeFrom (fst ?r) 3" by code_simp
  have "map be_event (events_of (filter (\<lambda>p. fst p > 3) (snd ?r))) = [''c'', ''d'']" by code_simp
  with resume_is_complete [of one_byte demo_ops "Fin 3" "Fin 100" "fst ?r" "snd ?r" 3] c show ?thesis by simp
qed

text \<open>
  C39: the buffer keeps its bounds and its books: never more entries than the count bound, the byte
  counter is the sum of the sizes of the retained entries and never exceeds the byte bound, and
  the numbers assigned since the last clear strictly increase.
\<close>

theorem buffer_bounded:
  assumes "eb_run json_bytes ops (new_buffer maxSize maxBytes, []) = (b, h)"
  shows "int (eb_size b) \<le> eb_maxSize b \<and> retainedBytes b \<le> eb_byteLimit b \<and>
    retainedBytes b = sum_list (map rt_bytes (eb_buffer b)) \<and>
    sorted_wrt (<) (map fst h) \<and> (\<forall>s \<in> fst ` set h. s \<le> lastSeq b)"
  using eb_inv_run [OF eb_inv_new assms]
  by (force simp: eb_inv_def bytes_ok_def hist_ok_def eb_size_def retainedBytes_def lastSeq_def)

lemma buffer_bounded_witness:
  "int (eb_size (fst (eb_run one_byte demo_ops (new_buffer (Fin 3) (Fin 2), [])))) \<le>
     eb_maxSize (fst (eb_run one_byte demo_ops (new_buffer (Fin 3) (Fin 2), [])))"
  using buffer_bounded [of one_byte demo_ops "Fin 3" "Fin 2"] by (metis prod.collapse)

text \<open>
  Reseeding never moves the counter back, and a buffer that is reseeded before anything is
  pushed resumes a client that has seen everything before the seed and refuses every other.
\<close>

theorem reseed_keeps_frame:
  "lastSeq b \<le> lastSeq (seedNextSeq n b) \<and>
   canResumeFrom (seedNextSeq n (new_buffer m k)) f = (f = (if n < 1 then 0 else n - 1))"
proof (cases "n \<le> 1")
  case True
  then show ?thesis
    by (auto simp: seedNextSeq_def lastSeq_def canResumeFrom_def new_buffer_def)
next
  case False
  then show ?thesis
    by (auto simp: seedNextSeq_def lastSeq_def canResumeFrom_def new_buffer_def)
qed

end
