(* ===== verification/Prompt_Queue.thy ===== *)
theory Prompt_Queue
  imports Js_Value
begin

text \<open>
  The durable prompt queue of a session, \<open>src/src/server/agent/prompt-queue.ts\<close>, with the
  author and source checks it uses (\<open>src/src/shared/message-author.ts\<close>,
  \<open>src/src/shared/prompt-source.ts\<close>). A row that comes from disk or the wire is an untyped
  object (\<open>js\<close> properties) that \<open>normalizeQueuedMessage\<close> turns into a typed row; fields
  the queue never looks at travel in \<open>q_payload\<close>. Fresh ids and the clock are arguments.
  Rows are shared objects in the code: an assignment to a row is written to every entry with
  its id.
\<close>

section \<open>Authors and sources\<close>

definition MAX_MESSAGE_AUTHOR_ID_LENGTH :: nat where "MAX_MESSAGE_AUTHOR_ID_LENGTH = 256"
definition MAX_MESSAGE_AUTHOR_LABEL_LENGTH :: nat where "MAX_MESSAGE_AUTHOR_LABEL_LENGTH = 256"
definition MAX_PI_TRANSCRIPT_ENTRY_ID_LENGTH :: nat where "MAX_PI_TRANSCRIPT_ENTRY_ID_LENGTH = 256"

fun isPiTranscriptEntryId :: "js \<Rightarrow> bool" where
  "isPiTranscriptEntryId (JStr s) =
     (length s > 0 \<and> length s \<le> MAX_PI_TRANSCRIPT_ENTRY_ID_LENGTH \<and> s = js_trim s)"
| "isPiTranscriptEntryId _ = False"

fun isBoundedNonEmptyString :: "js \<Rightarrow> nat \<Rightarrow> bool" where
  "isBoundedNonEmptyString (JStr s) maxLength = (length s \<le> maxLength \<and> length (js_trim s) > 0)"
| "isBoundedNonEmptyString _ maxLength = False"

fun isMessageAuthor :: "js \<Rightarrow> bool" where
  "isMessageAuthor (JObj fs) =
     (js_prop fs ''kind'' \<in> set [JStr ''user'', JStr ''agent'', JStr ''system''] \<and>
      isBoundedNonEmptyString (js_prop fs ''id'') MAX_MESSAGE_AUTHOR_ID_LENGTH \<and>
      isBoundedNonEmptyString (js_prop fs ''label'') MAX_MESSAGE_AUTHOR_LABEL_LENGTH)"
| "isMessageAuthor _ = False"

text \<open>\<open>author.kind\<close> of a valid author.\<close>

fun author_kind :: "js \<Rightarrow> string option" where
  "author_kind (JObj fs) = as_string (js_prop fs ''kind'')"
| "author_kind _ = None"

definition PROMPT_SOURCES :: "string list" where
  "PROMPT_SOURCES = [''user'', ''auto-nudge'', ''task-notification'', ''verification'',
     ''system'', ''agent'', ''child-complete'', ''extension'']"

fun isPromptSource :: "js \<Rightarrow> bool" where
  "isPromptSource (JStr s) = (s \<in> set PROMPT_SOURCES)"
| "isPromptSource _ = False"

section \<open>Rows\<close>

datatype intent_kind = K_prompt | K_steer
datatype target_turn = T_continuation | T_next
datatype delivery_state = D_queued | D_dispatching | D_received | D_uncertain | D_failed | D_cancelled

record qmsg =
  q_id :: string
  q_text :: js
  q_displayText :: "string option"
  q_isSteered :: bool
  q_createdAt :: "rat option" \<comment> \<open>\<open>None\<close>: not a finite number\<close>
  q_kind :: "intent_kind option"
  q_target :: "target_turn option"
  q_seq :: "nat option"
  q_state :: "delivery_state option"
  q_reason :: "string option"
  q_error :: "string option"
  q_source :: "string option"
  q_verifierOwned :: bool
  q_author :: "js option"
  q_guard :: "string option"
  q_payload :: "(string \<times> js) list"

fun validKey :: "js \<Rightarrow> bool" where
  "validKey (JStr s) = (length s > 0)"
| "validKey _ = False"

definition MAX_SAFE_INTEGER :: int where "MAX_SAFE_INTEGER = 2 ^ 53 - 1"

text \<open>A safe, non-negative integer, as a number.\<close>

fun read_sequence :: "js \<Rightarrow> nat option" where
  "read_sequence (JNum (Fin q)) =
     (if q = of_int \<lfloor>q\<rfloor> \<and> 0 \<le> q \<and> \<lfloor>q\<rfloor> \<le> MAX_SAFE_INTEGER then Some (nat \<lfloor>q\<rfloor>) else None)"
| "read_sequence _ = None"

definition validSequence :: "js \<Rightarrow> bool" where
  "validSequence v = (read_sequence v \<noteq> None)"

definition read_kind :: "js \<Rightarrow> intent_kind option" where
  "read_kind v = (if v = JStr ''prompt'' then Some K_prompt
     else if v = JStr ''steer'' then Some K_steer else None)"

definition validKind :: "js \<Rightarrow> bool" where
  "validKind v = (read_kind v \<noteq> None)"

definition read_target :: "js \<Rightarrow> target_turn option" where
  "read_target v = (if v = JStr ''continuation'' then Some T_continuation
     else if v = JStr ''next-turn'' then Some T_next else None)"

definition validTargetTurn :: "js \<Rightarrow> bool" where
  "validTargetTurn v = (read_target v \<noteq> None)"

definition read_state :: "js \<Rightarrow> delivery_state option" where
  "read_state v =
     (if v = JStr ''queued'' then Some D_queued
      else if v = JStr ''dispatching'' then Some D_dispatching
      else if v = JStr ''received'' then Some D_received
      else if v = JStr ''uncertain'' then Some D_uncertain
      else if v = JStr ''failed'' then Some D_failed
      else if v = JStr ''cancelled'' then Some D_cancelled else None)"

definition validDeliveryState :: "js \<Rightarrow> bool" where
  "validDeliveryState v = (read_state v \<noteq> None)"

fun boundedDiagnostic :: "js \<Rightarrow> string option" where
  "boundedDiagnostic (JStr s) = (if length s > 0 then Some (take 512 s) else None)"
| "boundedDiagnostic _ = None"

text \<open>The lane counters \<open>nextSequence\<close>.\<close>

record lanes =
  next_continuation :: nat
  next_turn :: nat

fun lane_next :: "target_turn \<Rightarrow> lanes \<Rightarrow> nat" where
  "lane_next T_continuation l = next_continuation l"
| "lane_next T_next l = next_turn l"

fun set_lane :: "target_turn \<Rightarrow> nat \<Rightarrow> lanes \<Rightarrow> lanes" where
  "set_lane T_continuation n l = l\<lparr>next_continuation := n\<rparr>"
| "set_lane T_next n l = l\<lparr>next_turn := n\<rparr>"

text \<open>Adding one to a number: from \<open>2 ^ 53\<close> on it has no effect.\<close>

definition js_succ :: "nat \<Rightarrow> nat" where
  "js_succ n = (if int n \<le> MAX_SAFE_INTEGER then n + 1 else n)"

text \<open>The number of a row, if \<open>validSequence\<close>.\<close>

definition safe_seq :: "qmsg \<Rightarrow> nat option" where
  "safe_seq r = (case q_seq r of None \<Rightarrow> None | Some s \<Rightarrow> if int s \<le> MAX_SAFE_INTEGER then Some s else None)"

definition allocateSequence :: "target_turn \<Rightarrow> lanes \<Rightarrow> nat \<times> lanes" where
  "allocateSequence t l = (lane_next t l, set_lane t (js_succ (lane_next t l)) l)"

definition observeSequence :: "qmsg \<Rightarrow> lanes \<Rightarrow> lanes" where
  "observeSequence r l =
     (case (q_target r, safe_seq r) of
        (Some t, Some s) \<Rightarrow> set_lane t (max (lane_next t l) (js_succ s)) l
      | _ \<Rightarrow> l)"

definition default_target :: "intent_kind \<Rightarrow> target_turn" where
  "default_target k = (if k = K_steer then T_continuation else T_next)"

fun finite_number :: "js \<Rightarrow> rat option" where
  "finite_number (JNum (Fin q)) = Some q"
| "finite_number _ = None"

definition typed_keys :: "string list" where
  "typed_keys = [''id'', ''text'', ''displayText'', ''isSteered'', ''createdAt'', ''kind'',
     ''targetTurn'', ''sequence'', ''deliveryState'', ''deliveryReason'', ''deliveryError'',
     ''source'', ''verifierOwned'', ''author'', ''goalDispatchGuardId'']"

text \<open>The delivery metadata of a row that carries any of it.\<close>

definition read_delivery ::
  "(string \<times> js) list \<Rightarrow> lanes \<Rightarrow> intent_kind \<times> target_turn \<times> nat \<times> delivery_state \<times> lanes" where
  "read_delivery m l =
     (let kind = (case read_kind (js_prop m ''kind'') of
                    Some k \<Rightarrow> k
                  | None \<Rightarrow> if js_truthy (js_prop m ''isSteered'') then K_steer else K_prompt);
          target = (case read_target (js_prop m ''targetTurn'') of
                      Some t \<Rightarrow> t | None \<Rightarrow> default_target kind);
          (sq, l') = (case read_sequence (js_prop m ''sequence'') of
                        Some s \<Rightarrow> (s, l) | None \<Rightarrow> allocateSequence target l);
          st = (case read_state (js_prop m ''deliveryState'') of Some s \<Rightarrow> s | None \<Rightarrow> D_queued) in
      (kind, target, sq, st, l'))"

definition normalizeQueuedMessage :: "string \<Rightarrow> (string \<times> js) list \<Rightarrow> lanes \<Rightarrow> qmsg \<times> lanes" where
  "normalizeQueuedMessage uuid m l =
     (let author = (if isMessageAuthor (js_prop m ''author'') then Some (js_prop m ''author'') else None);
          source = (if isPromptSource (js_prop m ''source'') then as_string (js_prop m ''source'')
                    else Option.bind author author_kind);
          reliable = (js_prop m ''kind'' \<noteq> JUndefined \<or> js_prop m ''targetTurn'' \<noteq> JUndefined \<or>
                      js_prop m ''sequence'' \<noteq> JUndefined \<or> js_prop m ''deliveryState'' \<noteq> JUndefined);
          row = \<lparr>q_id = (if validKey (js_prop m ''id'') then the (as_string (js_prop m ''id'')) else uuid),
                 q_text = js_prop m ''text'', q_displayText = as_string (js_prop m ''displayText''),
                 q_isSteered = js_truthy (js_prop m ''isSteered''),
                 q_createdAt = finite_number (js_prop m ''createdAt''),
                 q_kind = None, q_target = None, q_seq = None, q_state = None,
                 q_reason = boundedDiagnostic (js_prop m ''deliveryReason''),
                 q_error = boundedDiagnostic (js_prop m ''deliveryError''),
                 q_source = source, q_verifierOwned = (js_prop m ''verifierOwned'' = JBool True),
                 q_author = author,
                 q_guard = (if validKey (js_prop m ''goalDispatchGuardId'')
                            then as_string (js_prop m ''goalDispatchGuardId'') else None),
                 q_payload = filter (\<lambda>(k, v). k \<notin> set typed_keys) m\<rparr> in
      if reliable then
        (case read_delivery m l of
           (kind, target, sq, st, l') \<Rightarrow>
             (row\<lparr>q_kind := Some kind, q_target := Some target, q_seq := Some sq, q_state := Some st\<rparr>, l'))
      else (row, l))"

section \<open>New rows\<close>

record enqueue_opts =
  o_displayText :: "string option"
  o_images :: "js list"
  o_attachments :: "js list"
  o_isSteered :: "bool option"
  o_suppressTitleGen :: bool
  o_source :: "string option"
  o_verifierOwned :: bool
  o_author :: "js option"
  o_streamingBehavior :: "string option"
  o_coldStart :: bool
  o_guard :: "string option"
  o_intentId :: "string option"
  o_kind :: "intent_kind option"
  o_target :: "target_turn option"
  o_sequence :: "js_num option"
  o_state :: "delivery_state option"
  o_reason :: "string option"
  o_error :: "string option"
  o_retryable :: "bool option"

definition opt_key :: "string option \<Rightarrow> string option" where
  "opt_key x = (case x of Some s \<Rightarrow> if s = [] then None else Some s | None \<Rightarrow> None)"

text \<open>The fields a new row gets only when they have something to say.\<close>

definition payload_of :: "enqueue_opts \<Rightarrow> (string \<times> js) list" where
  "payload_of o1 =
     (if o_images o1 \<noteq> [] then [(''images'', JArr (o_images o1))] else []) @
     (if o_attachments o1 \<noteq> [] then [(''attachments'', JArr (o_attachments o1))] else []) @
     (if o_suppressTitleGen o1 then [(''suppressTitleGen'', JBool True)] else []) @
     (case opt_key (o_streamingBehavior o1) of Some b \<Rightarrow> [(''streamingBehavior'', JStr b)] | None \<Rightarrow> []) @
     (if o_coldStart o1 then [(''coldStart'', JBool True)] else []) @
     (case o_retryable o1 of Some b \<Rightarrow> [(''retryable'', JBool b)] | None \<Rightarrow> [])"

definition opts_reliable :: "enqueue_opts \<Rightarrow> bool" where
  "opts_reliable o1 =
     (opt_key (o_intentId o1) \<noteq> None \<or> o_kind o1 \<noteq> None \<or> o_target o1 \<noteq> None \<or>
      o_sequence o1 \<noteq> None \<or> o_state o1 \<noteq> None)"

text \<open>The delivery metadata of a new row.\<close>

definition new_delivery :: "enqueue_opts \<Rightarrow> lanes \<Rightarrow> intent_kind \<times> target_turn \<times> nat \<times> delivery_state \<times> lanes" where
  "new_delivery o1 l =
     (let isSteered = (case o_isSteered o1 of Some b \<Rightarrow> b | None \<Rightarrow> o_kind o1 = Some K_steer);
          kind = (case o_kind o1 of Some k \<Rightarrow> k | None \<Rightarrow> if isSteered then K_steer else K_prompt);
          target = (case o_target o1 of Some t \<Rightarrow> t | None \<Rightarrow> default_target kind);
          (sq, l') = (case Option.bind (o_sequence o1) (\<lambda>n. read_sequence (JNum n)) of
                        Some s \<Rightarrow> (s, l) | None \<Rightarrow> allocateSequence target l) in
      (kind, target, sq, (case o_state o1 of Some s \<Rightarrow> s | None \<Rightarrow> D_queued), l'))"

definition createMessage ::
  "string \<Rightarrow> rat \<Rightarrow> string \<Rightarrow> enqueue_opts \<Rightarrow> lanes \<Rightarrow> qmsg \<times> lanes" where
  "createMessage uuid now text o1 l =
     (let row = \<lparr>q_id = (case opt_key (o_intentId o1) of Some i \<Rightarrow> i | None \<Rightarrow> uuid),
                 q_text = JStr text, q_displayText = o_displayText o1,
                 q_isSteered = (case o_isSteered o1 of Some b \<Rightarrow> b | None \<Rightarrow> o_kind o1 = Some K_steer),
                 q_createdAt = Some now, q_kind = None, q_target = None, q_seq = None, q_state = None,
                 q_reason = Option.bind (o_reason o1) (\<lambda>r. boundedDiagnostic (JStr r)),
                 q_error = Option.bind (o_error o1) (\<lambda>r. boundedDiagnostic (JStr r)),
                 q_source = opt_key (o_source o1), q_verifierOwned = o_verifierOwned o1,
                 q_author = (case o_author o1 of Some a \<Rightarrow> if isMessageAuthor a then Some a else None
                             | None \<Rightarrow> None),
                 q_guard = opt_key (o_guard o1), q_payload = payload_of o1\<rparr> in
      if opts_reliable o1 then
        (case new_delivery o1 l of
           (kind, target, sq, st, l1) \<Rightarrow>
             let row1 = row\<lparr>q_kind := Some kind, q_target := Some target, q_seq := Some sq, q_state := Some st\<rparr> in
             (row1, observeSequence row1 l1))
      else (row, observeSequence row l))"

section \<open>The queue\<close>

record prompt_queue =
  pq_rows :: "qmsg list"
  pq_lanes :: lanes

definition has_id :: "string \<Rightarrow> qmsg \<Rightarrow> bool" where
  "has_id i r = (q_id r = i)"

definition find_row :: "string \<Rightarrow> prompt_queue \<Rightarrow> qmsg option" where
  "find_row i pq = find (has_id i) (pq_rows pq)"

text \<open>Restoring persisted rows; each comes with the fresh id it would be given.\<close>

fun restore_rows :: "(string \<times> (string \<times> js) list) list \<Rightarrow> string list \<Rightarrow> prompt_queue \<Rightarrow> prompt_queue" where
  "restore_rows [] seen pq = pq"
| "restore_rows ((uuid, m) # ms) seen pq =
     (case normalizeQueuedMessage uuid m (pq_lanes pq) of
        (row, l) \<Rightarrow>
          if q_id row \<in> set seen then restore_rows ms seen (pq\<lparr>pq_lanes := l\<rparr>)
          else restore_rows ms (q_id row # seen)
                 \<lparr>pq_rows = pq_rows pq @ [row], pq_lanes = observeSequence row l\<rparr>)"

definition new_queue :: "(string \<times> (string \<times> js) list) list option \<Rightarrow> prompt_queue" where
  "new_queue initial =
     restore_rows (or_empty initial) []
       \<lparr>pq_rows = [], pq_lanes = \<lparr>next_continuation = 1, next_turn = 1\<rparr>\<rparr>"

definition pq_reorder :: "prompt_queue \<Rightarrow> prompt_queue" where
  "pq_reorder pq =
     pq\<lparr>pq_rows := filter q_isSteered (pq_rows pq) @ filter (\<lambda>r. \<not> q_isSteered r) (pq_rows pq)\<rparr>"

definition pq_enqueue ::
  "string \<Rightarrow> rat \<Rightarrow> string \<Rightarrow> enqueue_opts \<Rightarrow> prompt_queue \<Rightarrow> qmsg \<times> prompt_queue" where
  "pq_enqueue uuid now text o1 pq =
     (case createMessage uuid now text o1 (pq_lanes pq) of
        (row, l) \<Rightarrow>
          let pq1 = pq\<lparr>pq_lanes := l\<rparr> in
          (case find_row (q_id row) pq1 of
             Some existing \<Rightarrow> (existing, pq1)
           | None \<Rightarrow>
             let pq2 = pq1\<lparr>pq_rows := pq_rows pq1 @ [row]\<rparr> in
             (row, if q_isSteered row then pq_reorder pq2 else pq2)))"

definition existing_row :: "(string \<times> js) list \<Rightarrow> prompt_queue \<Rightarrow> qmsg option" where
  "existing_row m pq =
     (if validKey (js_prop m ''id'') then find_row (the (as_string (js_prop m ''id''))) pq else None)"

definition enqueueExisting :: "string \<Rightarrow> (string \<times> js) list \<Rightarrow> prompt_queue \<Rightarrow> qmsg \<times> prompt_queue" where
  "enqueueExisting uuid m pq =
     (case existing_row m pq of
        Some existing \<Rightarrow> (existing, pq)
      | None \<Rightarrow>
        (case normalizeQueuedMessage uuid m (pq_lanes pq) of
           (row, l) \<Rightarrow>
             (row, \<lparr>pq_rows = pq_rows pq @ [row], pq_lanes = observeSequence row l\<rparr>)))"

definition enqueueExistingAtFront ::
  "string \<Rightarrow> (string \<times> js) list \<Rightarrow> prompt_queue \<Rightarrow> qmsg \<times> prompt_queue" where
  "enqueueExistingAtFront uuid m pq =
     (case existing_row m pq of
        Some existing \<Rightarrow> (existing, pq)
      | None \<Rightarrow>
        (case normalizeQueuedMessage uuid m (pq_lanes pq) of
           (row, l) \<Rightarrow>
             (row, \<lparr>pq_rows = row # pq_rows pq, pq_lanes = observeSequence row l\<rparr>)))"

text \<open>Assign to the row object with an id.\<close>

definition set_row :: "string \<Rightarrow> (qmsg \<Rightarrow> qmsg) \<Rightarrow> qmsg list \<Rightarrow> qmsg list" where
  "set_row i f rows = map (\<lambda>r. if q_id r = i then f r else r) rows"

definition pq_steer :: "string \<Rightarrow> prompt_queue \<Rightarrow> bool \<times> prompt_queue" where
  "pq_steer i pq =
     (case find_row i pq of
        None \<Rightarrow> (False, pq)
      | Some r \<Rightarrow>
        if q_isSteered r then (True, pq)
        else
          let reliable = (q_kind r \<noteq> None \<or> q_target r \<noteq> None \<or> q_seq r \<noteq> None \<or> q_state r \<noteq> None) in
          if reliable then
            (case allocateSequence T_continuation (pq_lanes pq) of
               (s, l) \<Rightarrow>
                 (True, pq_reorder \<lparr>pq_rows = set_row i (\<lambda>r. r\<lparr>q_isSteered := True, q_kind := Some K_steer,
                    q_target := Some T_continuation, q_seq := Some s\<rparr>) (pq_rows pq), pq_lanes = l\<rparr>))
          else (True, pq_reorder (pq\<lparr>pq_rows := set_row i (\<lambda>r. r\<lparr>q_isSteered := True\<rparr>) (pq_rows pq)\<rparr>)))"

fun remove_first :: "('a \<Rightarrow> bool) \<Rightarrow> 'a list \<Rightarrow> 'a list" where
  "remove_first P [] = []"
| "remove_first P (x # xs) = (if P x then xs else x # remove_first P xs)"

definition pq_remove :: "string \<Rightarrow> prompt_queue \<Rightarrow> bool \<times> prompt_queue" where
  "pq_remove i pq =
     (if find_row i pq = None then (False, pq)
      else (True, pq\<lparr>pq_rows := remove_first (has_id i) (pq_rows pq)\<rparr>))"

definition pq_dequeue :: "prompt_queue \<Rightarrow> qmsg option \<times> prompt_queue" where
  "pq_dequeue pq =
     (case pq_rows pq of [] \<Rightarrow> (None, pq) | r # rs \<Rightarrow> (Some r, pq\<lparr>pq_rows := rs\<rparr>))"

text \<open>
  The scan of \<open>dequeueForTarget\<close>: the selected index and its sequence so far; a row without
  a valid sequence counts as infinitely late (\<open>None\<close>).
\<close>

definition seq_less :: "nat option \<Rightarrow> nat option \<Rightarrow> bool" where
  "seq_less a b = (case a of None \<Rightarrow> False | Some x \<Rightarrow> (case b of None \<Rightarrow> True | Some y \<Rightarrow> x < y))"

fun select_lane :: "target_turn \<Rightarrow> nat \<Rightarrow> qmsg list \<Rightarrow> (nat \<times> nat option) option \<Rightarrow> (nat \<times> nat option) option" where
  "select_lane t index [] sel = sel"
| "select_lane t index (r # rs) sel =
     select_lane t (index + 1) rs
       (if q_target r \<noteq> Some t then sel
        else (case sel of
                None \<Rightarrow> Some (index, safe_seq r)
              | Some (j, s) \<Rightarrow> if seq_less (safe_seq r) s then Some (index, safe_seq r) else Some (j, s)))"

definition dequeueForTarget :: "target_turn \<Rightarrow> prompt_queue \<Rightarrow> qmsg option \<times> prompt_queue" where
  "dequeueForTarget t pq =
     (case select_lane t 0 (pq_rows pq) None of
        None \<Rightarrow> (None, pq)
      | Some (i, s) \<Rightarrow>
        (Some (pq_rows pq ! i), pq\<lparr>pq_rows := take i (pq_rows pq) @ drop (i + 1) (pq_rows pq)\<rparr>))"

definition dequeueAllSteered :: "prompt_queue \<Rightarrow> qmsg list \<times> prompt_queue" where
  "dequeueAllSteered pq =
     (takeWhile q_isSteered (pq_rows pq), pq\<lparr>pq_rows := dropWhile q_isSteered (pq_rows pq)\<rparr>)"

definition enqueueAtFront ::
  "string \<Rightarrow> rat \<Rightarrow> string \<Rightarrow> enqueue_opts \<Rightarrow> prompt_queue \<Rightarrow> qmsg \<times> prompt_queue" where
  "enqueueAtFront uuid now text o1 pq =
     (case createMessage uuid now text o1 (pq_lanes pq) of
        (row, l) \<Rightarrow>
          let pq1 = pq\<lparr>pq_lanes := l\<rparr> in
          (case find_row (q_id row) pq1 of
             Some existing \<Rightarrow> (existing, pq1)
           | None \<Rightarrow> (row, pq_reorder (pq1\<lparr>pq_rows := row # pq_rows pq1\<rparr>))))"

definition restoreAtFront :: "string \<Rightarrow> (string \<times> js) list \<Rightarrow> prompt_queue \<Rightarrow> qmsg \<times> prompt_queue" where
  "restoreAtFront uuid m pq =
     (case enqueueExistingAtFront uuid m pq of (row, pq1) \<Rightarrow> (row, pq_reorder pq1))"

definition pq_peek :: "prompt_queue \<Rightarrow> qmsg option" where
  "pq_peek pq = (case pq_rows pq of [] \<Rightarrow> None | r # _ \<Rightarrow> Some r)"

definition pq_toArray :: "prompt_queue \<Rightarrow> qmsg list" where "pq_toArray pq = pq_rows pq"
definition pq_length :: "prompt_queue \<Rightarrow> nat" where "pq_length pq = length (pq_rows pq)"
definition pq_isEmpty :: "prompt_queue \<Rightarrow> bool" where "pq_isEmpty pq = (pq_rows pq = [])"

text \<open>Assign the sequence slots to the rows with these ids, one after the other.\<close>

fun assign_slots :: "string list \<Rightarrow> nat list \<Rightarrow> qmsg list \<Rightarrow> qmsg list" where
  "assign_slots (i # is) (s # ss) rows = assign_slots is ss (set_row i (\<lambda>r. r\<lparr>q_seq := Some s\<rparr>) rows)"
| "assign_slots _ _ rows = rows"

definition in_lane :: "target_turn \<Rightarrow> qmsg \<Rightarrow> bool" where
  "in_lane t r = (q_target r = Some t \<and> safe_seq r \<noteq> None)"

definition resequence_lane :: "target_turn \<Rightarrow> qmsg list \<Rightarrow> qmsg list" where
  "resequence_lane t rows =
     (let rs = filter (in_lane t) rows in
      assign_slots (map q_id rs) (sort (map (\<lambda>r. the (q_seq r)) rs)) rows)"

definition resequenceReliableLanes :: "prompt_queue \<Rightarrow> prompt_queue" where
  "resequenceReliableLanes pq =
     pq\<lparr>pq_rows := resequence_lane T_next (resequence_lane T_continuation (pq_rows pq))\<rparr>"

text \<open>
  \<open>byId\<close> is a map: of rows with the same id the last one counts. The row objects pushed
  for the given ids come first, then every row whose id was not given.
\<close>

definition by_id :: "qmsg list \<Rightarrow> string \<Rightarrow> qmsg option" where
  "by_id rows i = find (has_id i) (rev rows)"

definition reorderByIds :: "string list \<Rightarrow> bool \<Rightarrow> prompt_queue \<Rightarrow> prompt_queue" where
  "reorderByIds ids resequence pq =
     (let rows = pq_rows pq;
          chosen = List.map_filter (by_id rows) ids;
          seen = filter (\<lambda>i. by_id rows i \<noteq> None) ids;
          pq1 = pq\<lparr>pq_rows := chosen @ filter (\<lambda>r. q_id r \<notin> set seen) rows\<rparr> in
      if resequence then resequenceReliableLanes pq1 else pq1)"

text \<open>The sort of the merged lane: by acceptance time, ties (and non-numbers) by position.\<close>

definition accepted_before :: "nat \<times> qmsg \<Rightarrow> nat \<times> qmsg \<Rightarrow> bool" where
  "accepted_before a b =
     (case (q_createdAt (snd a), q_createdAt (snd b)) of
        (Some x, Some y) \<Rightarrow> x < y \<or> x = y \<and> fst a \<le> fst b
      | _ \<Rightarrow> fst a \<le> fst b)"

fun insert_accepted :: "nat \<times> qmsg \<Rightarrow> (nat \<times> qmsg) list \<Rightarrow> (nat \<times> qmsg) list" where
  "insert_accepted a [] = [a]"
| "insert_accepted a (b # bs) = (if accepted_before a b then a # b # bs else b # insert_accepted a bs)"

definition sort_accepted :: "(nat \<times> qmsg) list \<Rightarrow> (nat \<times> qmsg) list" where
  "sort_accepted xs = foldr insert_accepted xs []"

definition in_next_lane :: "qmsg \<Rightarrow> bool" where
  "in_next_lane r = (q_target r = Some T_next \<and> q_kind r \<noteq> None)"

text \<open>
  Walk over the slots of the lane in the queue: each takes the next of the sorted rows and gives
  it the next number of the lane.
\<close>

fun place_rows :: "qmsg list \<Rightarrow> qmsg list \<Rightarrow> lanes \<Rightarrow> qmsg list \<times> lanes" where
  "place_rows [] ps l = ([], l)"
| "place_rows (r # rs) ps l =
     (if \<not> in_next_lane r then
        (case place_rows rs ps l of (rs', l') \<Rightarrow> (r # rs', l'))
      else
        (case ps of
           [] \<Rightarrow> (r # rs, l)
         | p # ps' \<Rightarrow>
           (case allocateSequence T_next l of
              (s, l1) \<Rightarrow>
                (case place_rows rs ps' l1 of
                   (rs', l') \<Rightarrow> (p\<lparr>q_seq := Some s\<rparr> # rs', l')))))"

definition retargets :: "qmsg \<Rightarrow> bool" where
  "retargets r =
     (q_target r = Some T_continuation \<and>
      (q_state r = None \<or> q_state r = Some D_queued \<or> q_state r = Some D_failed))"

definition retarget_row :: "string \<Rightarrow> qmsg \<Rightarrow> qmsg" where
  "retarget_row reason r =
     (if retargets r then r\<lparr>q_target := Some T_next, q_reason := Some reason\<rparr> else r)"

definition retarget_lane :: "string \<Rightarrow> qmsg list \<Rightarrow> lanes \<Rightarrow> qmsg list \<times> lanes" where
  "retarget_lane reason rows0 l =
     (let rows = map (retarget_row reason) rows0;
          lane = filter (\<lambda>p. in_next_lane (snd p)) (enumerate 0 rows) in
      (case place_rows rows (map snd (sort_accepted lane)) l of
         (rows', l') \<Rightarrow>
           let placed = filter in_next_lane rows' in
           (assign_slots (map q_id placed) (map (\<lambda>r. the (q_seq r)) placed) rows', l')))"

text \<open>The last assignment matters for a row that occurs twice only: it ends with the last number it was given.\<close>

definition restore_fold :: "(string \<times> (string \<times> js) list) list \<Rightarrow> prompt_queue \<Rightarrow> prompt_queue" where
  "restore_fold restored pq = fold (\<lambda>(uuid, m) p. snd (enqueueExisting uuid m p)) restored pq"

definition retargetContinuationToNextTurn ::
  "string \<Rightarrow> (string \<times> (string \<times> js) list) list \<Rightarrow> prompt_queue \<Rightarrow> qmsg list \<times> prompt_queue" where
  "retargetContinuationToNextTurn reason restored pq0 =
     (let pq = restore_fold restored pq0;
          ids = map q_id (filter retargets (pq_rows pq)) in
      if ids = [] then ([], pq)
      else
        (case retarget_lane reason (pq_rows pq) (pq_lanes pq) of
           (rows, l) \<Rightarrow>
             (filter (\<lambda>r. in_next_lane r \<and> q_id r \<in> set ids) rows, \<lparr>pq_rows = rows, pq_lanes = l\<rparr>)))"


section \<open>Dequeueing a lane\<close>

lemma select_lane_snoc:
  "select_lane t n (rs @ [r]) sel =
     (let sel' = select_lane t n rs sel in
      if q_target r \<noteq> Some t then sel'
      else (case sel' of
              None \<Rightarrow> Some (n + length rs, safe_seq r)
            | Some (j, s) \<Rightarrow> if seq_less (safe_seq r) s then Some (n + length rs, safe_seq r) else Some (j, s)))"
  by (induction t n rs sel rule: select_lane.induct) (auto simp: Let_def split: option.split)

definition selected :: "target_turn \<Rightarrow> qmsg list \<Rightarrow> nat \<Rightarrow> bool" where
  "selected t rows i \<longleftrightarrow>
     i < length rows \<and> q_target (rows ! i) = Some t \<and>
     (\<forall>j < length rows. q_target (rows ! j) = Some t \<longrightarrow>
        \<not> seq_less (safe_seq (rows ! j)) (safe_seq (rows ! i)) \<and>
        (j < i \<longrightarrow> seq_less (safe_seq (rows ! i)) (safe_seq (rows ! j))))"

lemma seq_less_trans: "seq_less a b \<Longrightarrow> seq_less b c \<Longrightarrow> seq_less a c"
  by (auto simp: seq_less_def split: option.splits)

lemma seq_less_irrefl: "\<not> seq_less a a"
  by (simp add: seq_less_def split: option.splits)

lemma seq_less_le: "seq_less a b \<Longrightarrow> \<not> seq_less c b \<Longrightarrow> seq_less a c"
  by (auto simp: seq_less_def split: option.splits)

lemma select_lane_spec:
  "case select_lane t 0 rows None of
     None \<Rightarrow> (\<forall>r \<in> set rows. q_target r \<noteq> Some t)
   | Some (i, s) \<Rightarrow> selected t rows i \<and> s = safe_seq (rows ! i)"
proof (induction rows rule: rev_induct)
  case (snoc r rows)
  show ?case
  proof (cases "q_target r = Some t")
    case False
    with snoc show ?thesis
      by (auto simp: select_lane_snoc Let_def selected_def nth_append less_Suc_eq split: option.splits)
  next
    case True
    show ?thesis
    proof (cases "select_lane t 0 rows None")
      case None
      with snoc True show ?thesis
        by (auto simp: select_lane_snoc Let_def selected_def nth_append less_Suc_eq seq_less_irrefl)
    next
      case (Some p)
      then obtain i s where p: "select_lane t 0 rows None = Some (i, s)" by (cases p) auto
      with snoc have i: "i < length rows" "q_target (rows ! i) = Some t" "s = safe_seq (rows ! i)"
        and min: "\<And>j. j < length rows \<Longrightarrow> q_target (rows ! j) = Some t \<Longrightarrow>
          \<not> seq_less (safe_seq (rows ! j)) s \<and> (j < i \<longrightarrow> seq_less s (safe_seq (rows ! j)))"
        by (auto simp: selected_def)
      show ?thesis
      proof (cases "seq_less (safe_seq r) s")
        case less: True
        have "\<not> seq_less (safe_seq (rows ! j)) (safe_seq r) \<and> seq_less (safe_seq r) (safe_seq (rows ! j))"
          if "j < length rows" "q_target (rows ! j) = Some t" for j
          using min [OF that] less by (metis seq_less_le seq_less_trans)
        with p True less show ?thesis
          by (auto simp: select_lane_snoc selected_def nth_append less_Suc_eq seq_less_irrefl)
      next
        case notless: False
        with p i True min show ?thesis
          by (auto simp: select_lane_snoc selected_def nth_append less_Suc_eq)
      qed
    qed
  qed
qed simp

text \<open>
  Dequeueing a lane is first in, first out by sequence: it answers nothing exactly when no row
  is targeted at the turn; otherwise it removes one row of the lane and nothing else, no row of
  the lane has a smaller sequence number, and among equal ones it is the first in the queue.
\<close>

theorem dequeueForTarget_fifo:
  "case dequeueForTarget t pq of
     (None, pq') \<Rightarrow> pq' = pq \<and> filter (\<lambda>r. q_target r = Some t) (pq_rows pq) = []
   | (Some r, pq') \<Rightarrow>
       (\<exists>before after. pq_rows pq = before @ r # after \<and> pq_rows pq' = before @ after \<and>
          pq_lanes pq' = pq_lanes pq \<and> q_target r = Some t \<and>
          filter (\<lambda>x. q_target x = Some t \<and> seq_less (safe_seq x) (safe_seq r)) (before @ after) = [] \<and>
          filter (\<lambda>x. q_target x = Some t \<and> \<not> seq_less (safe_seq r) (safe_seq x)) before = [])"
proof (cases "select_lane t 0 (pq_rows pq) None")
  case None
  with select_lane_spec [where t = t and rows = "pq_rows pq"] show ?thesis
    by (auto simp: dequeueForTarget_def filter_empty_conv)
next
  case (Some p)
  let ?rows = "pq_rows pq"
  obtain i s where p: "select_lane t 0 ?rows None = Some (i, s)" using Some by (cases p) auto
  with select_lane_spec [where t = t and rows = ?rows] have sel: "selected t ?rows i" by simp
  let ?before = "take i ?rows" and ?after = "drop (i + 1) ?rows"
  have split: "?rows = ?before @ ?rows ! i # ?after" using sel by (simp add: selected_def id_take_nth_drop)
  have min: "\<not> seq_less (safe_seq x) (safe_seq (?rows ! i))" if "x \<in> set ?rows" "q_target x = Some t" for x
    using that sel by (auto simp: selected_def in_set_conv_nth)
  have "set (?before @ ?after) \<subseteq> set ?rows" by (auto dest: in_set_takeD in_set_dropD)
  with min have "filter (\<lambda>x. q_target x = Some t \<and> seq_less (safe_seq x) (safe_seq (?rows ! i))) (?before @ ?after) = []"
    unfolding filter_empty_conv by blast
  moreover have "filter (\<lambda>x. q_target x = Some t \<and> \<not> seq_less (safe_seq (?rows ! i)) (safe_seq x)) ?before = []"
    unfolding filter_empty_conv
  proof
    fix x assume "x \<in> set ?before"
    then obtain j where "j < i" "j < length ?rows" "x = ?rows ! j" by (auto simp: in_set_conv_nth)
    with sel show "\<not> (q_target x = Some t \<and> \<not> seq_less (safe_seq (?rows ! i)) (safe_seq x))"
      by (auto simp: selected_def)
  qed
  moreover have "dequeueForTarget t pq = (Some (?rows ! i), pq\<lparr>pq_rows := ?before @ ?after\<rparr>)"
    by (simp add: dequeueForTarget_def p)
  moreover have "q_target (?rows ! i) = Some t" using sel by (simp add: selected_def)
  ultimately have "\<exists>before after. ?rows = before @ ?rows ! i # after \<and>
      pq_rows (snd (dequeueForTarget t pq)) = before @ after \<and>
      pq_lanes (snd (dequeueForTarget t pq)) = pq_lanes pq \<and> q_target (?rows ! i) = Some t \<and>
      filter (\<lambda>x. q_target x = Some t \<and> seq_less (safe_seq x) (safe_seq (?rows ! i))) (before @ after) = [] \<and>
      filter (\<lambda>x. q_target x = Some t \<and> \<not> seq_less (safe_seq (?rows ! i)) (safe_seq x)) before = []"
    by (intro exI [of _ ?before] exI [of _ ?after] conjI split) simp_all
  then show ?thesis by (simp add: dequeueForTarget_def p)
qed

section \<open>Reordering\<close>

lemma set_row_ids [simp]: "map q_id (set_row i (\<lambda>r. r\<lparr>q_seq := s\<rparr>) rows) = map q_id rows"
  by (simp add: set_row_def)

lemma assign_slots_ids [simp]: "map q_id (assign_slots is ss rows) = map q_id rows"
  by (induction "is" ss rows rule: assign_slots.induct) simp_all

lemma resequence_ids [simp]: "map q_id (resequence_lane t rows) = map q_id rows"
  by (simp add: resequence_lane_def Let_def)

definition slot_row :: "(string \<times> nat) list \<Rightarrow> qmsg \<Rightarrow> qmsg" where
  "slot_row m r = (case map_of m (q_id r) of None \<Rightarrow> r | Some s \<Rightarrow> r\<lparr>q_seq := Some s\<rparr>)"

lemma slot_row_simps [simp]:
  "q_id (slot_row m r) = q_id r" "q_target (slot_row m r) = q_target r"
  "q_kind (slot_row m r) = q_kind r" "q_state (slot_row m r) = q_state r"
  by (simp_all add: slot_row_def split: option.split)

lemma assign_slots_map:
  "length is = length ss \<Longrightarrow> distinct is \<Longrightarrow> assign_slots is ss rows = map (slot_row (zip is ss)) rows"
proof (induction "is" ss arbitrary: rows rule: list_induct2)
  case Nil
  then show ?case by (simp add: slot_row_def map_idI)
next
  case (Cons i "is" s ss)
  have "slot_row (zip is ss) (if q_id r = i then r\<lparr>q_seq := Some s\<rparr> else r) = slot_row (zip (i # is) (s # ss)) r" for r
    using Cons.prems Cons.hyps by (auto simp: slot_row_def split: option.split dest: map_of_SomeD set_zip_leftD)
  with Cons show ?case by (simp add: set_row_def)
qed

lemma slot_row_nth:
  assumes "distinct (map q_id rs)" and "length ss = length rs"
  shows "map (slot_row (zip (map q_id rs) ss)) rs = map2 (\<lambda>r s. r\<lparr>q_seq := Some s\<rparr>) rs ss"
proof (rule nth_equalityI)
  show "length (map (slot_row (zip (map q_id rs) ss)) rs) = length (map2 (\<lambda>r s. r\<lparr>q_seq := Some s\<rparr>) rs ss)"
    using assms by simp
  fix k assume "k < length (map (slot_row (zip (map q_id rs) ss)) rs)"
  then have k: "k < length rs" by simp
  then have "map_of (zip (map q_id rs) ss) (map q_id rs ! k) = Some (ss ! k)"
    using assms by (intro map_of_zip_nth) auto
  with k assms show "map (slot_row (zip (map q_id rs) ss)) rs ! k = map2 (\<lambda>r s. r\<lparr>q_seq := Some s\<rparr>) rs ss ! k"
    by (simp add: slot_row_def)
qed

lemma resequence_lane_map:
  assumes "distinct (map q_id rows)"
  shows "resequence_lane t rows =
    (let rs = filter (in_lane t) rows in
     map (slot_row (zip (map q_id rs) (sort (map (\<lambda>r. the (q_seq r)) rs)))) rows)"
  unfolding resequence_lane_def Let_def
  by (rule assign_slots_map) (use assms in \<open>simp_all add: distinct_map_filter\<close>)

lemma resequence_lane_outside:
  assumes "distinct (map q_id rows)" and "r \<in> set rows" and "\<not> in_lane t r"
  shows "slot_row (zip (map q_id (filter (in_lane t) rows)) ss) r = r"
proof -
  have "q_id r \<notin> q_id ` set (filter (in_lane t) rows)"
    using assms by (auto simp: distinct_map inj_on_def)
  then have "map_of (zip (map q_id (filter (in_lane t) rows)) ss) (q_id r) = None"
    by (metis in_set_zipE list.set_map map_of_SomeD not_None_eq)
  then show ?thesis by (simp add: slot_row_def)
qed

lemma in_lane_seq: "in_lane t r \<Longrightarrow> int (the (q_seq r)) \<le> MAX_SAFE_INTEGER"
  by (auto simp: in_lane_def safe_seq_def split: option.splits if_splits)

lemma in_lane_slot:
  assumes "in_lane t r" and "\<And>s. s \<in> set ss \<Longrightarrow> int s \<le> MAX_SAFE_INTEGER"
  shows "in_lane t (slot_row (zip is ss) r)"
proof (cases "map_of (zip is ss) (q_id r)")
  case None
  with assms(1) show ?thesis by (simp add: slot_row_def)
next
  case (Some s)
  then have "s \<in> set ss" by (auto dest!: map_of_SomeD set_zip_rightD)
  with assms Some show ?thesis by (auto simp: slot_row_def in_lane_def safe_seq_def)
qed

lemma resequence_lane_same:
  assumes "distinct (map q_id rows)"
  shows "filter (in_lane t) (resequence_lane t rows) =
      map2 (\<lambda>r s. r\<lparr>q_seq := Some s\<rparr>) (filter (in_lane t) rows)
        (sort (map (\<lambda>r. the (q_seq r)) (filter (in_lane t) rows)))"
proof -
  let ?rs = "filter (in_lane t) rows"
  let ?f = "slot_row (zip (map q_id ?rs) (sort (map (\<lambda>r. the (q_seq r)) ?rs)))"
  have "in_lane t (?f r) = in_lane t r" if "r \<in> set rows" for r
  proof (cases "in_lane t r")
    case True
    then show ?thesis by (auto intro!: in_lane_slot dest: in_lane_seq)
  next
    case False
    with resequence_lane_outside [OF assms that False] show ?thesis by simp
  qed
  then have "filter (in_lane t) (map ?f rows) = map ?f ?rs"
    by (simp add: filter_map o_def cong: filter_cong)
  with assms show ?thesis by (simp add: resequence_lane_map Let_def slot_row_nth distinct_map_filter)
qed

lemma resequence_lane_other:
  assumes "distinct (map q_id rows)" and "t' \<noteq> t"
  shows "filter (in_lane t') (resequence_lane t rows) = filter (in_lane t') rows"
proof -
  let ?rs = "filter (in_lane t) rows"
  let ?f = "slot_row (zip (map q_id ?rs) (sort (map (\<lambda>r. the (q_seq r)) ?rs)))"
  have *: "in_lane t' (?f r) = in_lane t' r \<and> (in_lane t' r \<longrightarrow> ?f r = r)" if r: "r \<in> set rows" for r
  proof (cases "in_lane t r")
    case True
    then have "q_target r = Some t" by (simp add: in_lane_def)
    with assms(2) show ?thesis by (auto simp: in_lane_def)
  next
    case False
    with resequence_lane_outside [OF assms(1) r False] show ?thesis by simp
  qed
  then have "filter (in_lane t') (map ?f rows) = map ?f (filter (in_lane t') rows)"
    by (simp add: filter_map o_def cong: filter_cong)
  moreover have "map ?f (filter (in_lane t') rows) = filter (in_lane t') rows"
    by (rule map_idI) (use * in auto)
  ultimately have "filter (in_lane t') (map ?f rows) = filter (in_lane t') rows" by simp
  with assms show ?thesis by (simp add: resequence_lane_map Let_def)
qed

lemma by_id_Some:
  assumes "distinct (map q_id rows)"
  shows "by_id rows i = Some r \<longleftrightarrow> r \<in> set rows \<and> q_id r = i"
proof
  assume "by_id rows i = Some r"
  then show "r \<in> set rows \<and> q_id r = i"
    by (auto simp: by_id_def has_id_def find_Some_iff) (metis length_rev nth_mem set_rev)
next
  assume r: "r \<in> set rows \<and> q_id r = i"
  then obtain r' where r': "by_id rows i = Some r'"
    by (cases "by_id rows i") (auto simp: by_id_def has_id_def find_None_iff)
  then have "r' \<in> set rows \<and> q_id r' = i"
    by (auto simp: by_id_def has_id_def find_Some_iff) (metis length_rev nth_mem set_rev)
  with r assms have "r' = r" by (auto simp: distinct_map inj_on_def)
  with r' show "by_id rows i = Some r" by simp
qed

lemma by_id_None: "by_id rows i = None \<longleftrightarrow> i \<notin> q_id ` set rows"
  by (auto simp: by_id_def has_id_def find_None_iff)

lemma by_id_chosen:
  assumes "distinct (map q_id rows)"
  shows "map q_id (List.map_filter (by_id rows) ids) = filter (\<lambda>i. i \<in> q_id ` set rows) ids"
    "set (List.map_filter (by_id rows) ids) = {r \<in> set rows. q_id r \<in> set ids}"
proof -
  show "map q_id (List.map_filter (by_id rows) ids) = filter (\<lambda>i. i \<in> q_id ` set rows) ids"
  proof (induction ids)
    case (Cons i ids)
    show ?case
    proof (cases "by_id rows i")
      case None
      with Cons by_id_None [of rows i] show ?thesis by (simp add: map_filter_simps)
    next
      case (Some r)
      with Cons by_id_Some [OF assms, of i r] show ?thesis by (auto simp: map_filter_simps)
    qed
  qed (simp add: map_filter_simps)
  have "set (List.map_filter (by_id rows) ids) = {r. \<exists>i \<in> set ids. by_id rows i = Some r}"
    by (force simp: List.map_filter_def)
  then show "set (List.map_filter (by_id rows) ids) = {r \<in> set rows. q_id r \<in> set ids}"
    by (auto simp: by_id_Some [OF assms])
qed

lemma reorder_plain:
  assumes rows: "distinct (map q_id (pq_rows pq))" and ids: "distinct ids"
  shows "map q_id (pq_rows (reorderByIds ids False pq)) =
      filter (\<lambda>i. i \<in> q_id ` set (pq_rows pq)) ids @
      filter (\<lambda>i. i \<notin> set ids) (map q_id (pq_rows pq))"
    "mset (pq_rows (reorderByIds ids False pq)) = mset (pq_rows pq)"
    "pq_lanes (reorderByIds ids False pq) = pq_lanes pq"
proof -
  let ?rows = "pq_rows pq" and ?rows' = "pq_rows (reorderByIds ids False pq)"
  have rows': "?rows' = List.map_filter (by_id ?rows) ids @ filter (\<lambda>r. q_id r \<notin> set ids) ?rows"
    unfolding reorderByIds_def Let_def by (simp, intro filter_cong) (auto simp: by_id_None)
  show eq: "map q_id ?rows' = filter (\<lambda>i. i \<in> q_id ` set ?rows) ids @ filter (\<lambda>i. i \<notin> set ids) (map q_id ?rows)"
    unfolding rows' by (simp add: by_id_chosen [OF rows] filter_map o_def)
  have "distinct (map q_id ?rows')" unfolding eq using rows ids by auto
  then have "distinct ?rows'" by (simp add: distinct_map)
  moreover have "distinct ?rows" using rows by (simp add: distinct_map)
  moreover have "set ?rows' = set ?rows" unfolding rows' by (auto simp: by_id_chosen [OF rows])
  ultimately show "mset ?rows' = mset ?rows" by (simp add: set_eq_iff_mset_eq_distinct)
  show "pq_lanes (reorderByIds ids False pq) = pq_lanes pq" by (simp add: reorderByIds_def Let_def)
qed

definition lane_seqs :: "target_turn \<Rightarrow> qmsg list \<Rightarrow> nat list" where
  "lane_seqs t rows = map (\<lambda>r. the (q_seq r)) (filter (in_lane t) rows)"

lemma map2_seqs:
  "length rs = length ss \<Longrightarrow> map ((\<lambda>r. the (q_seq r)) \<circ> (\<lambda>(x, y). x\<lparr>q_seq := Some y\<rparr>)) (zip rs ss) = ss"
  by (induction rs ss rule: list_induct2) simp_all

lemma resequence_seqs:
  assumes "distinct (map q_id (pq_rows pq))"
  shows "lane_seqs t (pq_rows (resequenceReliableLanes pq)) = sort (lane_seqs t (pq_rows pq))"
    "map q_id (pq_rows (resequenceReliableLanes pq)) = map q_id (pq_rows pq)"
proof -
  let ?r1 = "resequence_lane T_continuation (pq_rows pq)"
  have d1: "distinct (map q_id ?r1)" using assms by simp
  show "map q_id (pq_rows (resequenceReliableLanes pq)) = map q_id (pq_rows pq)"
    using assms d1 by (simp add: resequenceReliableLanes_def)
  show "lane_seqs t (pq_rows (resequenceReliableLanes pq)) = sort (lane_seqs t (pq_rows pq))"
    using resequence_lane_same [OF assms, of T_continuation] resequence_lane_same [OF d1, of T_next]
      resequence_lane_other [OF d1, of T_continuation T_next]
      resequence_lane_other [OF assms, of T_next T_continuation]
    by (cases t) (simp_all add: lane_seqs_def resequenceReliableLanes_def map2_seqs)
qed

lemma reorder_resequence: "reorderByIds ids True pq = resequenceReliableLanes (reorderByIds ids False pq)"
  by (simp add: reorderByIds_def Let_def)

text \<open>
  An explicit reorder with distinct ids is a permutation of the queue: the known ids come first
  in the order asked for, all other rows follow in their old order, and no row is lost, repeated or
  changed. With resequencing, each lane keeps its set of sequence numbers, now in the visible order.
\<close>

theorem reorder_permutes:
  assumes "distinct (map q_id (pq_rows pq))" and "distinct ids"
  shows "map q_id (pq_rows (reorderByIds ids b pq)) =
      filter (\<lambda>i. i \<in> set (map q_id (pq_rows pq))) ids @ filter (\<lambda>i. i \<notin> set ids) (map q_id (pq_rows pq)) \<and>
    mset (pq_rows (reorderByIds ids False pq)) = mset (pq_rows pq) \<and>
    mset (lane_seqs t (pq_rows (reorderByIds ids True pq))) = mset (lane_seqs t (pq_rows pq)) \<and>
    sorted (lane_seqs t (pq_rows (reorderByIds ids True pq)))"
proof -
  note plain = reorder_plain [OF assms]
  have d: "distinct (map q_id (pq_rows (reorderByIds ids False pq)))"
    using plain(2) assms(1) by (metis mset_eq_imp_distinct_iff mset_map)
  have "mset (lane_seqs t (pq_rows (reorderByIds ids False pq))) = mset (lane_seqs t (pq_rows pq))"
    using plain(2) by (simp add: lane_seqs_def)
  with plain resequence_seqs(1) [OF d, of t] resequence_seqs(2) [OF d] show ?thesis
    by (cases b) (auto simp: reorder_resequence)
qed

definition demo_row :: "string \<Rightarrow> nat \<Rightarrow> qmsg" where
  "demo_row i s = \<lparr>q_id = i, q_text = JStr i, q_displayText = None, q_isSteered = False, q_createdAt = Some 0,
     q_kind = Some K_prompt, q_target = Some T_next, q_seq = Some s, q_state = Some D_queued,
     q_reason = None, q_error = None, q_source = None, q_verifierOwned = False, q_author = None,
     q_guard = None, q_payload = []\<rparr>"

definition demo_queue :: prompt_queue where
  "demo_queue = \<lparr>pq_rows = [demo_row ''a'' 1, demo_row ''b'' 2, demo_row ''c'' 3],
     pq_lanes = \<lparr>next_continuation = 1, next_turn = 4\<rparr>\<rparr>"

lemma reorder_permutes_witness:
  "map q_id (pq_rows (reorderByIds [''c'', ''x'', ''a''] True demo_queue)) = [''c'', ''a'', ''b'']"
  using reorder_permutes [of demo_queue "[''c'', ''x'', ''a'']" True]
  by (simp add: demo_queue_def demo_row_def)

text \<open>
  An id that a reorder request repeats is repeated in the queue: the row then occurs twice and
  would be delivered twice.
\<close>

theorem reorder_repeats_row:
  assumes "distinct (map q_id (pq_rows pq))" and "i \<in> set (map q_id (pq_rows pq))"
  shows "pq_length (reorderByIds [i, i] b pq) = pq_length pq + 1 \<and>
    take 2 (map q_id (pq_rows (reorderByIds [i, i] b pq))) = [i, i]"
proof -
  let ?rows = "pq_rows pq"
  obtain r where r: "r \<in> set ?rows" "q_id r = i" using assms(2) by auto
  then have some: "by_id ?rows i = Some r" using by_id_Some [OF assms(1)] by blast
  have plain: "pq_rows (reorderByIds [i, i] False pq) = [r, r] @ filter (\<lambda>x. q_id x \<noteq> i) ?rows"
    by (simp add: reorderByIds_def Let_def some map_filter_simps)
  have "filter (\<lambda>x. q_id x = q_id r) rows = [r]"
    if "distinct (map q_id rows)" "r \<in> set rows" for rows
    using that by (induction rows) (force simp: filter_empty_conv image_iff)+
  from this [OF assms(1) r(1)] have "filter (\<lambda>x. q_id x = i) ?rows = [r]" by (simp add: r(2))
  then have "length (filter (\<lambda>x. q_id x \<noteq> i) ?rows) + 1 = length ?rows"
    using sum_length_filter_compl [of "\<lambda>x. q_id x = i" ?rows] by simp
  moreover have "map q_id (pq_rows (reorderByIds [i, i] b pq)) = map q_id (pq_rows (reorderByIds [i, i] False pq))"
    by (cases b) (simp_all add: reorder_resequence resequenceReliableLanes_def)
  moreover from this have "pq_length (reorderByIds [i, i] b pq) = length (pq_rows (reorderByIds [i, i] False pq))"
    unfolding pq_length_def by (metis length_map)
  ultimately show ?thesis using r by (simp add: plain pq_length_def)
qed

lemma reorder_repeats_row_witness:
  "pq_length (reorderByIds [''b'', ''b''] True demo_queue) = 4"
  using reorder_repeats_row [of demo_queue "''b''" True]
  by (simp add: demo_queue_def demo_row_def pq_length_def)


section \<open>The queue invariant\<close>

definition lanes_le :: "lanes \<Rightarrow> lanes \<Rightarrow> bool" where
  "lanes_le a b \<longleftrightarrow> (\<forall>t. lane_next t a \<le> lane_next t b)"

text \<open>A row carries all delivery metadata or none, and its number has been passed by its lane, unless the
  counter of the lane has run up to where adding one has no effect.\<close>

definition seq_below :: "target_turn \<Rightarrow> lanes \<Rightarrow> nat \<Rightarrow> bool" where
  "seq_below t l s \<longleftrightarrow> s < lane_next t l \<or> MAX_SAFE_INTEGER < int (lane_next t l)"

definition row_ok :: "lanes \<Rightarrow> qmsg \<Rightarrow> bool" where
  "row_ok l r \<longleftrightarrow>
     (case (q_kind r, q_target r, q_seq r, q_state r) of
        (None, None, None, None) \<Rightarrow> True
      | (Some _, Some t, Some s, Some _) \<Rightarrow> seq_below t l s
      | _ \<Rightarrow> False)"

definition pq_inv :: "prompt_queue \<Rightarrow> bool" where
  "pq_inv pq \<longleftrightarrow> distinct (map q_id (pq_rows pq)) \<and> list_all (row_ok (pq_lanes pq)) (pq_rows pq)"

lemma lane_next_set [simp]:
  "lane_next t (set_lane t' n l) = (if t' = t then n else lane_next t l)"
  by (cases t; cases t') simp_all

lemma lanes_le_refl [simp]: "lanes_le l l"
  by (simp add: lanes_le_def)

lemma lanes_le_trans: "lanes_le a b \<Longrightarrow> lanes_le b c \<Longrightarrow> lanes_le a c"
  unfolding lanes_le_def using le_trans by blast

lemma js_succ_ge: "n \<le> js_succ n"
  by (simp add: js_succ_def)

lemma js_succ_below: "n < js_succ n \<or> MAX_SAFE_INTEGER < int (js_succ n)"
  by (simp add: js_succ_def)

lemma lanes_le_allocate: "allocateSequence t l = (s, l') \<Longrightarrow> lanes_le l l' \<and> seq_below t l' s"
  using js_succ_below [of "lane_next t l"] by (auto simp: allocateSequence_def lanes_le_def seq_below_def js_succ_ge)

lemma lanes_le_observe: "lanes_le l (observeSequence r l)"
  by (auto simp: observeSequence_def lanes_le_def split: option.split)

lemma seq_below_mono: "seq_below t l s \<Longrightarrow> lanes_le l l' \<Longrightarrow> seq_below t l' s"
  unfolding seq_below_def lanes_le_def by (meson le_less_trans less_le_trans of_nat_le_iff order.strict_trans2)

lemma row_ok_mono: "row_ok l r \<Longrightarrow> lanes_le l l' \<Longrightarrow> row_ok l' r"
  by (auto simp: row_ok_def split: option.splits intro: seq_below_mono)

lemma row_ok_observed:
  assumes "q_kind r = Some k" and "q_target r = Some t" and "q_seq r = Some s" and "q_state r = Some d"
    and "int s \<le> MAX_SAFE_INTEGER \<or> seq_below t l s"
  shows "row_ok (observeSequence r l) r"
proof (cases "int s \<le> MAX_SAFE_INTEGER")
  case True
  with assms(1-4) js_succ_below [of s] show ?thesis
    by (auto simp: row_ok_def observeSequence_def safe_seq_def seq_below_def)
next
  case False
  with assms show ?thesis by (simp add: row_ok_def observeSequence_def safe_seq_def)
qed

lemma read_sequence_safe: "read_sequence v = Some s \<Longrightarrow> int s \<le> MAX_SAFE_INTEGER"
  by (induction v rule: read_sequence.induct) (auto split: if_splits)

lemma row_ok_bare:
  "q_kind r = None \<Longrightarrow> q_target r = None \<Longrightarrow> q_seq r = None \<Longrightarrow> q_state r = None \<Longrightarrow> row_ok l r"
  by (simp add: row_ok_def)

lemma rows_ok_mono: "list_all (row_ok l) rs \<Longrightarrow> lanes_le l l' \<Longrightarrow> list_all (row_ok l') rs"
  by (auto simp: list_all_iff intro: row_ok_mono)

lemma normalize_ok:
  assumes "normalizeQueuedMessage uuid m l = (row, l')"
  shows "lanes_le l (observeSequence row l') \<and> lanes_le l l' \<and> row_ok (observeSequence row l') row \<and>
    q_id row = (if validKey (js_prop m ''id'') then the (as_string (js_prop m ''id'')) else uuid)"
proof (cases "js_prop m ''kind'' \<noteq> JUndefined \<or> js_prop m ''targetTurn'' \<noteq> JUndefined \<or>
    js_prop m ''sequence'' \<noteq> JUndefined \<or> js_prop m ''deliveryState'' \<noteq> JUndefined")
  case False
  with assms show ?thesis
    by (auto simp: normalizeQueuedMessage_def Let_def row_ok_bare lanes_le_observe)
next
  case True
  obtain k t s d l1 where del: "read_delivery m l = (k, t, s, d, l1)" by (metis prod.exhaust)
  then have "lanes_le l l1" "int s \<le> MAX_SAFE_INTEGER \<or> seq_below t l1 s"
    by (auto simp: read_delivery_def Let_def dest!: lanes_le_allocate read_sequence_safe split: option.splits prod.splits)
  moreover have "l' = l1" "q_kind row = Some k" "q_target row = Some t" "q_seq row = Some s" "q_state row = Some d"
    and "q_id row = (if validKey (js_prop m ''id'') then the (as_string (js_prop m ''id'')) else uuid)"
    using True assms del by (auto simp: normalizeQueuedMessage_def Let_def)
  ultimately show ?thesis
    using lanes_le_trans [OF _ lanes_le_observe] row_ok_observed by auto
qed

lemma createMessage_ok:
  assumes "createMessage uuid now text o1 l = (row, l')"
  shows "lanes_le l l' \<and> row_ok l' row"
proof (cases "opts_reliable o1")
  case False
  with assms show ?thesis
    by (auto simp: createMessage_def Let_def row_ok_bare lanes_le_observe)
next
  case True
  obtain k t s d l1 where del: "new_delivery o1 l = (k, t, s, d, l1)" by (metis prod.exhaust)
  then have le: "lanes_le l l1" and s: "int s \<le> MAX_SAFE_INTEGER \<or> seq_below t l1 s"
    by (auto simp: new_delivery_def Let_def Option.bind_eq_Some_conv dest!: lanes_le_allocate read_sequence_safe
        split: option.splits prod.splits)
  have row: "q_kind row = Some k" "q_target row = Some t" "q_seq row = Some s" "q_state row = Some d"
    and l': "l' = observeSequence row l1"
    using True assms del by (auto simp: createMessage_def Let_def)
  from lanes_le_trans [OF le lanes_le_observe] row_ok_observed [OF row s] show ?thesis by (simp add: l')
qed

lemma find_row_None: "find_row i pq = None \<longleftrightarrow> i \<notin> q_id ` set (pq_rows pq)"
  by (auto simp: find_row_def has_id_def find_None_iff)

lemma reorder_rows: "mset (pq_rows (pq_reorder pq)) = mset (pq_rows pq)" "pq_lanes (pq_reorder pq) = pq_lanes pq"
  by (simp_all add: pq_reorder_def)

text \<open>The invariant only depends on the bag of rows.\<close>

lemma pq_inv_bag:
  assumes "pq_inv pq" and "mset (pq_rows pq') = mset (pq_rows pq)" and "pq_lanes pq' = pq_lanes pq"
  shows "pq_inv pq'"
proof -
  have "distinct (map q_id (pq_rows pq'))"
    using assms(1,2) by (metis mset_eq_imp_distinct_iff mset_map pq_inv_def)
  moreover have "set (pq_rows pq') = set (pq_rows pq)" using assms(2) by (metis mset_eq_setD)
  ultimately show ?thesis using assms by (simp add: pq_inv_def list_all_iff)
qed

lemma pq_inv_reorder: "pq_inv pq \<Longrightarrow> pq_inv (pq_reorder pq)"
  by (rule pq_inv_bag) (simp_all add: reorder_rows)

lemma pq_inv_sub:
  assumes "pq_inv pq" and "mset (pq_rows pq') \<subseteq># mset (pq_rows pq)" and "pq_lanes pq' = pq_lanes pq"
  shows "pq_inv pq'"
proof -
  obtain zs where "mset (pq_rows pq) = mset (pq_rows pq') + mset zs"
    using assms(2) by (metis ex_mset mset_subset_eq_exists_conv)
  then have "mset (map q_id (pq_rows pq)) = mset (map q_id (pq_rows pq' @ zs))" by simp
  then have "distinct (map q_id (pq_rows pq' @ zs))"
    using assms(1) by (metis mset_eq_imp_distinct_iff pq_inv_def)
  then have "distinct (map q_id (pq_rows pq'))" by simp
  moreover have "set (pq_rows pq') \<subseteq> set (pq_rows pq)" using assms(2) by (metis set_mset_mono set_mset_mset)
  ultimately show ?thesis using assms by (auto simp: pq_inv_def list_all_iff)
qed

lemma pq_inv_add:
  assumes "pq_inv pq" and "q_id row \<notin> q_id ` set (pq_rows pq)" and "lanes_le (pq_lanes pq) l" and "row_ok l row"
  shows "pq_inv \<lparr>pq_rows = pq_rows pq @ [row], pq_lanes = l\<rparr>" "pq_inv \<lparr>pq_rows = row # pq_rows pq, pq_lanes = l\<rparr>"
  using assms rows_ok_mono [of "pq_lanes pq" "pq_rows pq" l] by (auto simp: pq_inv_def)

lemma pq_inv_lanes: "pq_inv pq \<Longrightarrow> lanes_le (pq_lanes pq) l \<Longrightarrow> pq_inv (pq\<lparr>pq_lanes := l\<rparr>)"
  using rows_ok_mono [of "pq_lanes pq" "pq_rows pq" l] by (simp add: pq_inv_def)

lemma pq_inv_enqueue:
  assumes "pq_inv pq"
  shows "pq_inv (snd (pq_enqueue uuid now text o1 pq))" "pq_inv (snd (enqueueAtFront uuid now text o1 pq))"
proof -
  obtain row l where cr: "createMessage uuid now text o1 (pq_lanes pq) = (row, l)" by (rule prod.exhaust)
  note ok = createMessage_ok [OF cr]
  have up: "pq_inv (pq\<lparr>pq_lanes := l\<rparr>)" using assms ok by (simp add: pq_inv_lanes)
  have "find_row (q_id row) (pq\<lparr>pq_lanes := l\<rparr>) = None \<Longrightarrow> q_id row \<notin> q_id ` set (pq_rows pq)"
    by (simp add: find_row_None)
  then have add: "find_row (q_id row) (pq\<lparr>pq_lanes := l\<rparr>) = None \<Longrightarrow>
      pq_inv \<lparr>pq_rows = pq_rows pq @ [row], pq_lanes = l\<rparr> \<and> pq_inv \<lparr>pq_rows = row # pq_rows pq, pq_lanes = l\<rparr>"
    using pq_inv_add [OF assms] ok by blast
  have eq: "pq\<lparr>pq_lanes := l, pq_rows := x\<rparr> = \<lparr>pq_rows = x, pq_lanes = l\<rparr>" for x by simp
  show "pq_inv (snd (pq_enqueue uuid now text o1 pq))" "pq_inv (snd (enqueueAtFront uuid now text o1 pq))"
    using up add by (auto simp: pq_enqueue_def enqueueAtFront_def cr Let_def eq intro: pq_inv_reorder split: option.split)
qed

text \<open>Rows that arrive as objects must not be given the id of a row of the queue.\<close>

definition object_ok :: "string \<Rightarrow> (string \<times> js) list \<Rightarrow> prompt_queue \<Rightarrow> bool" where
  "object_ok uuid m pq \<longleftrightarrow> validKey (js_prop m ''id'') \<or> uuid \<notin> set (map q_id (pq_rows pq))"

lemma existing_new:
  assumes "existing_row m pq = None" and "object_ok uuid m pq" and "normalizeQueuedMessage uuid m (pq_lanes pq) = (row, l)"
  shows "q_id row \<notin> q_id ` set (pq_rows pq)"
  using normalize_ok [OF assms(3)] assms(1,2)
  by (auto simp: existing_row_def object_ok_def find_row_None split: if_splits)

lemma pq_inv_existing:
  assumes "pq_inv pq" and "object_ok uuid m pq"
  shows "pq_inv (snd (enqueueExisting uuid m pq))" "pq_inv (snd (enqueueExistingAtFront uuid m pq))"
proof -
  obtain row l where n: "normalizeQueuedMessage uuid m (pq_lanes pq) = (row, l)" by (rule prod.exhaust)
  have "existing_row m pq = None \<Longrightarrow>
      pq_inv \<lparr>pq_rows = pq_rows pq @ [row], pq_lanes = observeSequence row l\<rparr> \<and>
      pq_inv \<lparr>pq_rows = row # pq_rows pq, pq_lanes = observeSequence row l\<rparr>"
    using pq_inv_add [OF assms(1)] existing_new [OF _ assms(2) n] normalize_ok [OF n] by blast
  then show "pq_inv (snd (enqueueExisting uuid m pq))" "pq_inv (snd (enqueueExistingAtFront uuid m pq))"
    using assms(1) by (auto simp: enqueueExisting_def enqueueExistingAtFront_def n split: option.split)
qed

lemma pq_inv_restoreAtFront: "pq_inv pq \<Longrightarrow> object_ok uuid m pq \<Longrightarrow> pq_inv (snd (restoreAtFront uuid m pq))"
  using pq_inv_existing(2) [of pq uuid m] by (auto simp: restoreAtFront_def intro: pq_inv_reorder split: prod.split)

lemma pq_inv_restore_rows:
  "pq_inv pq \<Longrightarrow> set seen = q_id ` set (pq_rows pq) \<Longrightarrow> pq_inv (restore_rows ms seen pq)"
proof (induction ms seen pq rule: restore_rows.induct)
  case (2 uuid m ms seen pq)
  obtain row l where n: "normalizeQueuedMessage uuid m (pq_lanes pq) = (row, l)" by (rule prod.exhaust)
  note ok = normalize_ok [OF n]
  show ?case
  proof (cases "q_id row \<in> set seen")
    case True
    with 2 n ok show ?thesis by (simp add: pq_inv_lanes)
  next
    case False
    have "pq_inv \<lparr>pq_rows = pq_rows pq @ [row], pq_lanes = observeSequence row l\<rparr>"
      by (rule pq_inv_add) (use 2(3,4) False ok in auto)
    with 2(2) [OF n [symmetric] False] n False 2(4) show ?thesis by simp
  qed
qed simp

lemma pq_inv_new: "pq_inv (new_queue initial)"
  unfolding new_queue_def by (rule pq_inv_restore_rows) (simp_all add: pq_inv_def)

lemma pq_inv_set_row:
  assumes "pq_inv pq" and "\<And>r. q_id (f r) = q_id r" and "lanes_le (pq_lanes pq) l"
    and "\<And>r. r \<in> set (pq_rows pq) \<Longrightarrow> q_id r = i \<Longrightarrow> row_ok l (f r)"
  shows "pq_inv \<lparr>pq_rows = set_row i f (pq_rows pq), pq_lanes = l\<rparr>"
proof -
  have "map q_id (set_row i f (pq_rows pq)) = map q_id (pq_rows pq)"
    using assms(2) by (simp add: set_row_def)
  then have "distinct (map q_id (set_row i f (pq_rows pq)))" using assms(1) by (simp add: pq_inv_def)
  moreover have "list_all (row_ok l) (pq_rows pq)"
    using assms(1,3) by (auto simp: pq_inv_def intro: rows_ok_mono)
  then have "list_all (row_ok l) (set_row i f (pq_rows pq))"
    using assms(4) by (auto simp: set_row_def list_all_iff)
  ultimately show ?thesis by (simp add: pq_inv_def)
qed

lemma row_by_id: "pq_inv pq \<Longrightarrow> find_row i pq = Some r \<Longrightarrow> r' \<in> set (pq_rows pq) \<Longrightarrow> q_id r' = i \<Longrightarrow> r' = r"
  by (auto simp: pq_inv_def distinct_map inj_on_def find_row_def has_id_def find_Some_iff)

lemma row_ok_at:
  assumes "pq_inv pq" and "r \<in> set (pq_rows pq)"
  shows "row_ok (pq_lanes pq) r"
  using assms by (simp add: pq_inv_def list_all_iff)

lemma pq_inv_steer:
  assumes "pq_inv pq"
  shows "pq_inv (snd (pq_steer i pq))"
proof (cases "find_row i pq")
  case None
  with assms show ?thesis by (simp add: pq_steer_def)
next
  case (Some r)
  obtain s l where al: "allocateSequence T_continuation (pq_lanes pq) = (s, l)" by (rule prod.exhaust)
  have r: "r \<in> set (pq_rows pq)" using Some by (auto simp: find_row_def find_Some_iff)
  note ok = row_ok_at [OF assms r] and same = row_by_id [OF assms Some]
  show ?thesis
  proof (cases "q_kind r = None")
    case True
    then have none: "q_kind r = None \<and> q_target r = None \<and> q_seq r = None \<and> q_state r = None"
      using ok by (auto simp: row_ok_def split: option.splits)
    have "pq_inv \<lparr>pq_rows = set_row i (\<lambda>r. r\<lparr>q_isSteered := True\<rparr>) (pq_rows pq), pq_lanes = pq_lanes pq\<rparr>"
      by (rule pq_inv_set_row [OF assms]) (auto simp: row_ok_bare none dest!: same)
    then have "pq_inv (pq\<lparr>pq_rows := set_row i (\<lambda>r. r\<lparr>q_isSteered := True\<rparr>) (pq_rows pq)\<rparr>)"
      by (cases pq) simp
    with Some none assms show ?thesis by (auto simp: pq_steer_def intro: pq_inv_reorder)
  next
    case False
    then have "q_state r \<noteq> None" using ok by (auto simp: row_ok_def split: option.splits)
    then have "pq_inv \<lparr>pq_rows = set_row i (\<lambda>r. r\<lparr>q_isSteered := True, q_kind := Some K_steer,
        q_target := Some T_continuation, q_seq := Some s\<rparr>) (pq_rows pq), pq_lanes = l\<rparr>"
      using lanes_le_allocate [OF al]
      by (intro pq_inv_set_row [OF assms]) (auto simp: row_ok_def dest!: same)
    with Some False assms show ?thesis by (auto simp: pq_steer_def al intro: pq_inv_reorder)
  qed
qed

lemma remove_first_sub: "mset (remove_first P rows) \<subseteq># mset rows"
  by (induction rows) auto

lemma pq_inv_removals:
  assumes "pq_inv pq"
  shows "pq_inv (snd (pq_remove i pq))" "pq_inv (snd (pq_dequeue pq))"
    "pq_inv (snd (dequeueForTarget t pq))" "pq_inv (snd (dequeueAllSteered pq))"
proof -
  show "pq_inv (snd (pq_remove i pq))"
    using assms pq_inv_sub [OF assms, of "pq\<lparr>pq_rows := remove_first (has_id i) (pq_rows pq)\<rparr>"]
    by (simp add: pq_remove_def remove_first_sub)
  show "pq_inv (snd (pq_dequeue pq))"
    using assms by (auto simp: pq_dequeue_def pq_inv_def split: list.split)
  have "mset (take j rows @ drop (Suc j) rows) \<subseteq># mset rows" for j and rows :: "qmsg list"
  proof (cases "j < length rows")
    case True
    then have "mset rows = add_mset (rows ! j) (mset (take j rows @ drop (Suc j) rows))"
      using arg_cong [OF id_take_nth_drop [OF True], of mset] by simp
    then show ?thesis by simp
  qed simp
  then show "pq_inv (snd (dequeueForTarget t pq))"
    using assms by (auto simp: dequeueForTarget_def intro!: pq_inv_sub [OF assms] split: option.split)
  have "mset (dropWhile P rows) \<subseteq># mset rows" for P and rows :: "qmsg list"
    by (metis mset_append mset_subset_eq_add_right takeWhile_dropWhile_id)
  then show "pq_inv (snd (dequeueAllSteered pq))"
    by (simp add: dequeueAllSteered_def pq_inv_sub [OF assms])
qed

lemma row_ok_slot:
  assumes "row_ok l r" and "q_target r = Some t" and "seq_below t l s"
  shows "row_ok l (r\<lparr>q_seq := Some s\<rparr>)"
  using assms by (auto simp: row_ok_def split: option.splits)

lemma row_ok_lane: "row_ok l r \<Longrightarrow> in_lane t r \<Longrightarrow> seq_below t l (the (q_seq r))"
  by (auto simp: row_ok_def in_lane_def split: option.splits)

lemma resequence_lane_ok:
  assumes d: "distinct (map q_id rows)" and ok: "list_all (row_ok l) rows"
  shows "list_all (row_ok l) (resequence_lane t rows)"
proof -
  let ?rs = "filter (in_lane t) rows"
  let ?ss = "sort (map (\<lambda>r. the (q_seq r)) ?rs)"
  have "row_ok l (slot_row (zip (map q_id ?rs) ?ss) r)" if r: "r \<in> set rows" for r
  proof (cases "in_lane t r")
    case False
    with resequence_lane_outside [OF d r False] ok r show ?thesis by (simp add: list_all_iff)
  next
    case True
    have "seq_below t l s" if "map_of (zip (map q_id ?rs) ?ss) (q_id r) = Some s" for s
    proof -
      have "s \<in> set ?ss" using that by (auto dest!: map_of_SomeD set_zip_rightD)
      with ok show ?thesis by (auto simp: list_all_iff dest: row_ok_lane)
    qed
    with True r ok show ?thesis
      by (auto simp: slot_row_def list_all_iff in_lane_def intro: row_ok_slot split: option.split)
  qed
  then show ?thesis by (simp add: resequence_lane_map [OF d] Let_def list_all_iff)
qed

lemma pq_inv_reorderByIds:
  assumes "pq_inv pq" and "distinct ids"
  shows "pq_inv (reorderByIds ids b pq)"
proof -
  have d: "distinct (map q_id (pq_rows pq))" using assms(1) by (simp add: pq_inv_def)
  note plain = reorder_plain [OF d assms(2)]
  have inv: "pq_inv (reorderByIds ids False pq)"
    by (rule pq_inv_bag [OF assms(1)]) (simp_all add: plain)
  then have "pq_inv (resequenceReliableLanes (reorderByIds ids False pq))"
    by (simp add: pq_inv_def resequenceReliableLanes_def resequence_lane_ok)
  with inv show ?thesis by (cases b) (simp_all add: reorder_resequence)
qed

section \<open>Retargeting\<close>

lemma insert_accepted_mset [simp]: "mset (insert_accepted a xs) = add_mset a (mset xs)"
  by (induction xs) auto

lemma sort_accepted_mset [simp]: "mset (sort_accepted xs) = mset xs"
proof -
  have "mset (foldr insert_accepted xs []) = mset xs" by (induction xs) simp_all
  then show ?thesis by (simp add: sort_accepted_def)
qed

lemma sort_accepted_length [simp]: "length (sort_accepted xs) = length xs"
  by (metis size_mset sort_accepted_mset)

fun renumber :: "qmsg list \<Rightarrow> nat \<Rightarrow> qmsg list" where
  "renumber [] n = []"
| "renumber (p # ps) n = p\<lparr>q_seq := Some n\<rparr> # renumber ps (js_succ n)"

lemma renumber_length [simp]: "length (renumber ps n) = length ps"
  by (induction ps arbitrary: n) simp_all

lemma renumber_maps:
  "(\<And>p s. f (p\<lparr>q_seq := s\<rparr>) = f p) \<Longrightarrow> map f (renumber ps n) = map f ps"
  by (induction ps arbitrary: n) simp_all

lemma renumber_seqs:
  "int (n + length ps) \<le> MAX_SAFE_INTEGER + 1 \<Longrightarrow> map (\<lambda>r. the (q_seq r)) (renumber ps n) = [n..<n + length ps]"
proof (induction ps arbitrary: n)
  case (Cons p ps)
  then have "js_succ n = n + 1" by (simp add: js_succ_def)
  with Cons show ?case by (simp add: upt_rec)
qed simp

lemma js_succ_funpow_ge: "n \<le> (js_succ ^^ k) n"
  by (induction k) (auto intro: le_trans js_succ_ge)

lemma in_next_lane_seq [simp]: "in_next_lane (r\<lparr>q_seq := s\<rparr>) = in_next_lane r"
  by (simp add: in_next_lane_def)

lemma place_rows_spec:
  assumes "length ps = length (filter in_next_lane rows)" and "list_all in_next_lane ps"
    and "place_rows rows ps l = (rows', l')"
  shows "filter (\<lambda>r. \<not> in_next_lane r) rows' = filter (\<lambda>r. \<not> in_next_lane r) rows \<and>
    filter in_next_lane rows' = renumber ps (next_turn l) \<and>
    l' = l\<lparr>next_turn := (js_succ ^^ length ps) (next_turn l)\<rparr>"
  using assms
proof (induction rows ps l arbitrary: rows' l' rule: place_rows.induct)
  case (2 r rs ps l)
  show ?case
  proof (cases "in_next_lane r")
    case False
    with 2 show ?thesis by (auto split: prod.splits)
  next
    case True
    with 2(3) obtain p ps' where ps: "ps = p # ps'" by (cases ps) auto
    obtain rs' l2 where pl: "place_rows rs ps' (set_lane T_next (js_succ (next_turn l)) l) = (rs', l2)"
      by (rule prod.exhaust)
    have "filter (\<lambda>r. \<not> in_next_lane r) rs' = filter (\<lambda>r. \<not> in_next_lane r) rs \<and>
      filter in_next_lane rs' = renumber ps' (js_succ (next_turn l)) \<and>
      l2 = l\<lparr>next_turn := (js_succ ^^ length ps') (js_succ (next_turn l))\<rparr>"
      using 2(2) [of p ps' "next_turn l" "set_lane T_next (js_succ (next_turn l)) l" rs' l2] True 2(3,4) ps pl
      by (simp add: allocateSequence_def)
    with True 2(3,4,5) ps pl show ?thesis by (auto simp: allocateSequence_def funpow_swap1)
  qed
qed simp

definition accepted_le :: "nat \<times> qmsg \<Rightarrow> nat \<times> qmsg \<Rightarrow> bool" where
  "accepted_le a b \<longleftrightarrow> the (q_createdAt (snd a)) \<le> the (q_createdAt (snd b))"

lemma accepted_le_cases:
  assumes "q_createdAt (snd a) \<noteq> None" and "q_createdAt (snd b) \<noteq> None"
  shows "accepted_before a b \<Longrightarrow> accepted_le a b" "\<not> accepted_before a b \<Longrightarrow> accepted_le b a"
  using assms by (auto simp: accepted_before_def accepted_le_def)

lemma insert_accepted_sorted:
  assumes "sorted_wrt accepted_le xs" and "\<forall>x \<in> set (a # xs). q_createdAt (snd x) \<noteq> None"
  shows "sorted_wrt accepted_le (insert_accepted a xs)"
  using assms
proof (induction xs)
  case (Cons b bs)
  have set: "set (insert_accepted a bs) = insert a (set bs)"
    by (metis insert_accepted_mset set_mset_add_mset_insert set_mset_mset)
  show ?case
  proof (cases "accepted_before a b")
    case True
    then have "accepted_le a b" using Cons.prems(2) by (auto intro: accepted_le_cases)
    with True Cons.prems(1) show ?thesis by (auto simp: accepted_le_def)
  next
    case False
    then have "accepted_le b a" using Cons.prems(2) by (auto intro: accepted_le_cases)
    with False Cons set show ?thesis by auto
  qed
qed simp

lemma sort_accepted_sorted:
  assumes "\<forall>x \<in> set xs. q_createdAt (snd x) \<noteq> None"
  shows "sorted_wrt accepted_le (sort_accepted xs)"
  using assms
proof (induction xs)
  case (Cons a xs)
  have "set (sort_accepted xs) = set xs" by (metis set_mset_mset sort_accepted_mset)
  with Cons show ?case by (simp add: sort_accepted_def insert_accepted_sorted)
qed (simp add: sort_accepted_def)

lemma retarget_row_simps [simp]:
  "q_id (retarget_row reason r) = q_id r" "\<not> retargets (retarget_row reason r)"
  by (simp_all add: retarget_row_def retargets_def)

lemma retarget_row_lane:
  assumes "row_ok l r" and "lanes_le l l'"
  shows "\<not> in_next_lane (retarget_row reason r) \<Longrightarrow> retarget_row reason r = r"
    "in_next_lane (retarget_row reason r) \<Longrightarrow> seq_below T_next l' s \<Longrightarrow> row_ok l' (retarget_row reason r\<lparr>q_seq := Some s\<rparr>)"
  using assms by (auto simp: retarget_row_def retargets_def in_next_lane_def row_ok_def split: option.splits)

lemma in_renumber:
  assumes "r \<in> set (renumber ps n)" and "N = (js_succ ^^ length ps) n"
  shows "\<exists>p s. r = p\<lparr>q_seq := Some s\<rparr> \<and> p \<in> set ps \<and> (s < N \<or> MAX_SAFE_INTEGER < int N)"
  using assms
proof (induction ps arbitrary: n)
  case (Cons p ps)
  have N: "N = (js_succ ^^ length ps) (js_succ n)" using Cons.prems(2) by (simp add: funpow_swap1)
  then have "js_succ n \<le> N" by (simp add: js_succ_funpow_ge)
  then have n: "n < N \<or> MAX_SAFE_INTEGER < int N" using js_succ_below [of n] by linarith
  show ?case
  proof (cases "r = p\<lparr>q_seq := Some n\<rparr>")
    case True
    with n show ?thesis by auto
  next
    case False
    with Cons.prems(1) have "r \<in> set (renumber ps (js_succ n))" by simp
    from Cons.IH [OF this N] show ?thesis by auto
  qed
qed simp

lemma renumber_in: "p \<in> set ps \<Longrightarrow> \<exists>s. p\<lparr>q_seq := Some s\<rparr> \<in> set (renumber ps n)"
  by (induction ps arbitrary: n) auto

lemma lane_rows_bag: "mset (map snd (filter (\<lambda>p. P (snd p)) (enumerate n rows))) = mset (filter P rows)"
  by (induction rows arbitrary: n) simp_all

text \<open>The rows after the placing, before the last assignment.\<close>

definition placed_rows :: "string \<Rightarrow> qmsg list \<Rightarrow> lanes \<Rightarrow> qmsg list \<times> lanes" where
  "placed_rows reason rows0 l =
     (let rows = map (retarget_row reason) rows0;
          lane = filter (\<lambda>p. in_next_lane (snd p)) (enumerate 0 rows) in
      place_rows rows (map snd (sort_accepted lane)) l)"

lemma placed_rows_spec:
  assumes ok: "list_all (row_ok l) rows0" and run: "placed_rows reason rows0 l = (rows', l')"
  shows "mset (map q_id rows') = mset (map q_id rows0)" "lanes_le l l'" "list_all (row_ok l') rows'"
    "filter retargets rows' = []"
    "int (next_turn l + length (filter in_next_lane rows')) \<le> MAX_SAFE_INTEGER + 1 \<Longrightarrow>
       map (\<lambda>r. the (q_seq r)) (filter in_next_lane rows') = [next_turn l..<next_turn l + length (filter in_next_lane rows')]"
    "list_all (\<lambda>r. q_createdAt r \<noteq> None) rows0 \<Longrightarrow>
       sorted (map (\<lambda>r. the (q_createdAt r)) (filter in_next_lane rows'))"
    "r0 \<in> set rows0 \<Longrightarrow> \<exists>s. (retarget_row reason r0)\<lparr>q_seq := s\<rparr> \<in> set rows'"
    "r \<in> set rows' \<Longrightarrow> \<exists>r0 \<in> set rows0. \<exists>s. r = (retarget_row reason r0)\<lparr>q_seq := s\<rparr> \<and> (in_next_lane r \<or> r = r0)"
proof -
  define rows where "rows = map (retarget_row reason) rows0"
  define lane where "lane = filter (\<lambda>p. in_next_lane (snd p)) (enumerate 0 rows)"
  define ps where "ps = map snd (sort_accepted lane)"
  have bag: "mset ps = mset (filter in_next_lane rows)"
    using lane_rows_bag [of in_next_lane 0 rows] by (simp add: ps_def lane_def)
  then have ps: "set ps = set (filter in_next_lane rows)" "length ps = length (filter in_next_lane rows)"
    by (metis set_mset_mset, metis size_mset)
  have "place_rows rows ps l = (rows', l')"
    using run by (simp add: placed_rows_def rows_def ps_def lane_def Let_def)
  from place_rows_spec [OF ps(2) _ this] ps(1)
  have out: "filter (\<lambda>r. \<not> in_next_lane r) rows' = filter (\<lambda>r. \<not> in_next_lane r) rows"
    and inn: "filter in_next_lane rows' = renumber ps (next_turn l)"
    and l': "l' = l\<lparr>next_turn := (js_succ ^^ length ps) (next_turn l)\<rparr>"
    by (auto simp: list_all_iff)
  show le: "lanes_le l l'" unfolding lanes_le_def l'
  proof
    fix t show "lane_next t l \<le> lane_next t (l\<lparr>next_turn := (js_succ ^^ length ps) (next_turn l)\<rparr>)"
      by (cases t) (simp_all add: js_succ_funpow_ge)
  qed
  have parts: "mset (map q_id xs) = mset (map q_id (filter in_next_lane xs)) + mset (map q_id (filter (\<lambda>r. \<not> in_next_lane r) xs))" for xs
    by (induction xs) simp_all
  have "mset (map q_id (renumber ps (next_turn l))) = mset (map q_id (filter in_next_lane rows))"
    using bag by (simp add: renumber_maps)
  then have "mset (map q_id rows') = mset (map q_id rows)"
    using parts [of rows'] parts [of rows] by (simp add: out inn)
  then show "mset (map q_id rows') = mset (map q_id rows0)" by (simp add: rows_def o_def)
  have from_row: "\<exists>r0 \<in> set rows0. \<exists>s. r = (retarget_row reason r0)\<lparr>q_seq := s\<rparr> \<and> row_ok l' r \<and> \<not> retargets r \<and> (in_next_lane r \<or> r = r0)"
    if "r \<in> set rows'" for r
  proof (cases "in_next_lane r")
    case True
    then have "r \<in> set (renumber ps (next_turn l))" using that by (simp flip: inn)
    from in_renumber [OF this refl] obtain p s where p: "r = p\<lparr>q_seq := Some s\<rparr>" "p \<in> set rows" "in_next_lane p"
      and s: "seq_below T_next l' s" using ps(1) by (auto simp: seq_below_def l')
    then obtain r0 where r0: "p = retarget_row reason r0" "r0 \<in> set rows0" by (auto simp: rows_def)
    with p ok s have "row_ok l' r" by (auto simp: list_all_iff intro: retarget_row_lane(2) [OF _ le])
    with True p r0 show ?thesis by (auto simp: retargets_def in_next_lane_def)
  next
    case False
    then have "r \<in> set (filter (\<lambda>r. \<not> in_next_lane r) rows)" using that by (simp flip: out)
    then obtain r0 where r0: "r = retarget_row reason r0" "r0 \<in> set rows0" by (auto simp: rows_def)
    then have ok0: "row_ok l r0" using ok by (simp add: list_all_iff)
    with False r0 have "r = r0" using retarget_row_lane(1) [OF _ le] by blast
    moreover have "r = (retarget_row reason r0)\<lparr>q_seq := q_seq r\<rparr>" using r0(1) by simp
    ultimately show ?thesis using ok0 le r0 by (metis retarget_row_simps(2) row_ok_mono)
  qed
  then show "list_all (row_ok l') rows'" "filter retargets rows' = []"
    by (fastforce simp: list_all_iff filter_empty_conv)+
  show "\<exists>r0 \<in> set rows0. \<exists>s. r = (retarget_row reason r0)\<lparr>q_seq := s\<rparr> \<and> (in_next_lane r \<or> r = r0)" if "r \<in> set rows'"
    using from_row [OF that] by blast
  show "map (\<lambda>r. the (q_seq r)) (filter in_next_lane rows') = [next_turn l..<next_turn l + length (filter in_next_lane rows')]"
    if "int (next_turn l + length (filter in_next_lane rows')) \<le> MAX_SAFE_INTEGER + 1"
    using that by (simp add: inn renumber_seqs)
  show "\<exists>s. (retarget_row reason r0)\<lparr>q_seq := s\<rparr> \<in> set rows'" if r0: "r0 \<in> set rows0"
  proof (cases "in_next_lane (retarget_row reason r0)")
    case True
    then have "retarget_row reason r0 \<in> set ps" using r0 by (auto simp: ps(1) rows_def)
    from renumber_in [OF this, of "next_turn l"] show ?thesis by (metis filter_is_subset inn subsetD)
  next
    case False
    then have "retarget_row reason r0 \<in> set (filter (\<lambda>r. \<not> in_next_lane r) rows)" using r0 by (auto simp: rows_def)
    then have "(retarget_row reason r0)\<lparr>q_seq := q_seq (retarget_row reason r0)\<rparr> \<in> set rows'" by (simp flip: out)
    then show ?thesis by blast
  qed
  assume "list_all (\<lambda>r. q_createdAt r \<noteq> None) rows0"
  then have "\<forall>r \<in> set rows. q_createdAt r \<noteq> None"
    by (auto simp: rows_def retarget_row_def list_all_iff)
  then have "\<forall>x \<in> set lane. q_createdAt (snd x) \<noteq> None"
    by (auto simp: lane_def in_set_enumerate_eq)
  then have "sorted (map (\<lambda>r. the (q_createdAt r)) ps)"
    using sort_accepted_sorted [of lane] by (simp add: ps_def sorted_wrt_map accepted_le_def [abs_def] o_def)
  then show "sorted (map (\<lambda>r. the (q_createdAt r)) (filter in_next_lane rows'))"
    by (simp add: inn renumber_maps)
qed

text \<open>Without repeated rows the last assignment changes nothing.\<close>

lemma retarget_lane_placed:
  assumes d: "distinct (map q_id rows0)" and ok: "list_all (row_ok l) rows0"
  shows "retarget_lane reason rows0 l = placed_rows reason rows0 l"
proof -
  obtain rows' l' where run: "placed_rows reason rows0 l = (rows', l')" by (rule prod.exhaust)
  note spec = placed_rows_spec [OF ok run]
  have d': "distinct (map q_id rows')" using spec(1) d by (metis mset_eq_imp_distinct_iff)
  let ?lane = "filter in_next_lane rows'"
  have lane: "distinct (map q_id ?lane)" using d' by (simp add: distinct_map_filter)
  have "slot_row (zip (map q_id ?lane) (map (\<lambda>r. the (q_seq r)) ?lane)) r = r" if r: "r \<in> set rows'" for r
  proof (cases "in_next_lane r")
    case True
    then have "r \<in> set ?lane" using r by simp
    then obtain k where k: "k < length ?lane" "?lane ! k = r" unfolding in_set_conv_nth by blast
    have "map_of (zip (map q_id ?lane) (map (\<lambda>r. the (q_seq r)) ?lane)) (map q_id ?lane ! k) = Some (map (\<lambda>r. the (q_seq r)) ?lane ! k)"
      using lane k(1) by (intro map_of_zip_nth) auto
    then have "map_of (zip (map q_id ?lane) (map (\<lambda>r. the (q_seq r)) ?lane)) (q_id r) = Some (the (q_seq r))"
      using k by (metis nth_map)
    moreover have "row_ok l' r" using spec(3) r by (simp add: list_all_iff)
    then have "q_seq r \<noteq> None" using True by (auto simp: row_ok_def in_next_lane_def split: option.splits)
    ultimately show ?thesis by (auto simp: slot_row_def)
  next
    case False
    have "q_id r \<notin> set (map q_id ?lane)" using False r d' by (auto simp: distinct_map inj_on_def)
    then have "map_of (zip (map q_id ?lane) (map (\<lambda>r. the (q_seq r)) ?lane)) (q_id r) = None"
      by (metis in_set_zipE map_of_SomeD not_None_eq)
    then show ?thesis by (simp only: slot_row_def option.case)
  qed
  then have "assign_slots (map q_id ?lane) (map (\<lambda>r. the (q_seq r)) ?lane) rows' = rows'"
    using assign_slots_map [OF _ lane, of "map (\<lambda>r. the (q_seq r)) ?lane" rows'] by (simp add: map_idI)
  with run show ?thesis by (simp add: retarget_lane_def placed_rows_def Let_def)
qed

lemma retarget_lane_spec:
  assumes "distinct (map q_id rows0)" and "list_all (row_ok l) rows0"
    and "retarget_lane reason rows0 l = (rows', l')"
  shows "mset (map q_id rows') = mset (map q_id rows0)" "list_all (row_ok l') rows'"
    "filter retargets rows' = []"
    "int (next_turn l + length (filter in_next_lane rows')) \<le> MAX_SAFE_INTEGER + 1 \<Longrightarrow>
       map (\<lambda>r. the (q_seq r)) (filter in_next_lane rows') = [next_turn l..<next_turn l + length (filter in_next_lane rows')]"
    "list_all (\<lambda>r. q_createdAt r \<noteq> None) rows0 \<Longrightarrow>
       sorted (map (\<lambda>r. the (q_createdAt r)) (filter in_next_lane rows'))"
    "r0 \<in> set rows0 \<Longrightarrow> \<exists>s. (retarget_row reason r0)\<lparr>q_seq := s\<rparr> \<in> set rows'"
  using placed_rows_spec [OF assms(2), of reason rows' l'] assms(3)
  unfolding retarget_lane_placed [OF assms(1,2)] by blast+

text \<open>Restored rows come with their own id.\<close>

definition named_rows :: "(string \<times> (string \<times> js) list) list \<Rightarrow> bool" where
  "named_rows restored \<longleftrightarrow> list_all (\<lambda>(u, m). validKey (js_prop m ''id'')) restored"

lemma restored_ids:
  assumes "validKey (js_prop m ''id'')"
  shows "set (map q_id (pq_rows (snd (enqueueExisting u m pq)))) =
    insert (the (as_string (js_prop m ''id''))) (set (map q_id (pq_rows pq)))"
proof -
  obtain row l where n: "normalizeQueuedMessage u m (pq_lanes pq) = (row, l)" by (rule prod.exhaust)
  have "q_id row = the (as_string (js_prop m ''id''))" using normalize_ok [OF n] assms by simp
  moreover have "find_row i pq = Some r \<Longrightarrow> i \<in> q_id ` set (pq_rows pq)" for i r
    using find_row_None [of i pq] by auto
  ultimately show ?thesis
    using assms by (auto simp: enqueueExisting_def existing_row_def n split: option.split)
qed

lemma restore_fold_spec:
  "pq_inv pq \<Longrightarrow> named_rows restored \<Longrightarrow>
   pq_inv (restore_fold restored pq) \<and>
   set (map q_id (pq_rows (restore_fold restored pq))) =
     set (map q_id (pq_rows pq)) \<union> set (map (\<lambda>(u, m). the (as_string (js_prop m ''id''))) restored)"
proof (induction restored arbitrary: pq)
  case (Cons x xs)
  obtain u m where x: "x = (u, m)" by (cases x)
  have v: "validKey (js_prop m ''id'')" "named_rows xs" using Cons.prems by (auto simp: x named_rows_def)
  have "pq_inv (snd (enqueueExisting u m pq))"
    using Cons.prems v by (intro pq_inv_existing) (simp_all add: object_ok_def)
  from Cons.IH [OF this v(2)] restored_ids [OF v(1), of u pq] show ?case
    by (simp add: restore_fold_def x)
qed (simp add: restore_fold_def)

lemma retarget_inv:
  assumes "pq_inv pq" and "named_rows restored"
  shows "pq_inv (snd (retargetContinuationToNextTurn reason restored pq))"
proof -
  let ?p = "restore_fold restored pq"
  have inv: "pq_inv ?p" using restore_fold_spec [OF assms] by blast
  obtain rows' l' where run: "retarget_lane reason (pq_rows ?p) (pq_lanes ?p) = (rows', l')" by (rule prod.exhaust)
  have "distinct (map q_id (pq_rows ?p))" "list_all (row_ok (pq_lanes ?p)) (pq_rows ?p)"
    using inv by (simp_all add: pq_inv_def)
  note spec = retarget_lane_spec [OF this run]
  have "distinct (map q_id rows')"
    using spec(1) inv by (metis mset_eq_imp_distinct_iff pq_inv_def)
  with spec(2) inv run show ?thesis
    by (simp add: retargetContinuationToNextTurn_def Let_def pq_inv_def)
qed


definition demo_steer :: "(string \<times> js) list" where
  "demo_steer = [(''id'', JStr ''s''), (''text'', JStr ''go''), (''isSteered'', JBool True), (''createdAt'', JNum (Fin 1)),
     (''kind'', JStr ''steer''), (''targetTurn'', JStr ''continuation''), (''sequence'', JNum (Fin 7)),
     (''deliveryState'', JStr ''queued'')]"

lemmas demo_simps = demo_queue_def demo_row_def demo_steer_def retargetContinuationToNextTurn_def restore_fold_def
  enqueueExisting_def existing_row_def find_row_def has_id_def normalizeQueuedMessage_def read_delivery_def
  read_kind_def read_target_def read_state_def typed_keys_def MAX_SAFE_INTEGER_def observeSequence_def
  retarget_lane_def retarget_row_def retargets_def sort_accepted_def accepted_before_def in_next_lane_def
  allocateSequence_def js_succ_def safe_seq_def Let_def

lemma demo_inv: "pq_inv demo_queue"
  by (simp add: pq_inv_def row_ok_def seq_below_def demo_queue_def demo_row_def)


section \<open>Reachable queues\<close>

text \<open>One call of the queue's interface, and what the callers owe.\<close>

datatype pq_op =
    Op_enqueue string rat string enqueue_opts
  | Op_enqueueAtFront string rat string enqueue_opts
  | Op_enqueueExisting string "(string \<times> js) list"
  | Op_enqueueExistingAtFront string "(string \<times> js) list"
  | Op_restoreAtFront string "(string \<times> js) list"
  | Op_steer string
  | Op_remove string
  | Op_dequeue
  | Op_dequeueForTarget target_turn
  | Op_dequeueAllSteered
  | Op_reorderByIds "string list" bool
  | Op_retarget string "(string \<times> (string \<times> js) list) list"

fun pq_step :: "pq_op \<Rightarrow> prompt_queue \<Rightarrow> prompt_queue" where
  "pq_step (Op_enqueue uuid now text o1) pq = snd (pq_enqueue uuid now text o1 pq)"
| "pq_step (Op_enqueueAtFront uuid now text o1) pq = snd (enqueueAtFront uuid now text o1 pq)"
| "pq_step (Op_enqueueExisting uuid m) pq = snd (enqueueExisting uuid m pq)"
| "pq_step (Op_enqueueExistingAtFront uuid m) pq = snd (enqueueExistingAtFront uuid m pq)"
| "pq_step (Op_restoreAtFront uuid m) pq = snd (restoreAtFront uuid m pq)"
| "pq_step (Op_steer i) pq = snd (pq_steer i pq)"
| "pq_step (Op_remove i) pq = snd (pq_remove i pq)"
| "pq_step Op_dequeue pq = snd (pq_dequeue pq)"
| "pq_step (Op_dequeueForTarget t) pq = snd (dequeueForTarget t pq)"
| "pq_step Op_dequeueAllSteered pq = snd (dequeueAllSteered pq)"
| "pq_step (Op_reorderByIds ids b) pq = reorderByIds ids b pq"
| "pq_step (Op_retarget reason restored) pq = snd (retargetContinuationToNextTurn reason restored pq)"

text \<open>
  Objects come with an id of their own or get a fresh one. Nothing keeps a client from naming a row twice
  in a reorder; \<open>names_once\<close> holds of the calls that do not.
\<close>

fun op_ok :: "pq_op \<Rightarrow> prompt_queue \<Rightarrow> bool" where
  "op_ok (Op_enqueueExisting uuid m) pq = object_ok uuid m pq"
| "op_ok (Op_enqueueExistingAtFront uuid m) pq = object_ok uuid m pq"
| "op_ok (Op_restoreAtFront uuid m) pq = object_ok uuid m pq"
| "op_ok (Op_retarget reason restored) pq = named_rows restored"
| "op_ok _ pq = True"

fun names_once :: "pq_op \<Rightarrow> bool" where
  "names_once (Op_reorderByIds ids b) = distinct ids"
| "names_once _ = True"

text \<open>The flag says whether every reorder so far has named each row at most once.\<close>

inductive pq_reach :: "bool \<Rightarrow> prompt_queue \<Rightarrow> bool" where
  pq_init: "pq_reach True (new_queue initial)"
| pq_next: "pq_reach once pq \<Longrightarrow> op_ok op1 pq \<Longrightarrow> pq_reach (once \<and> names_once op1) (pq_step op1 pq)"

lemma pq_inv_step: "pq_inv pq \<Longrightarrow> op_ok op1 pq \<Longrightarrow> names_once op1 \<Longrightarrow> pq_inv (pq_step op1 pq)"
  by (cases op1) (simp_all add: pq_inv_enqueue pq_inv_existing pq_inv_restoreAtFront pq_inv_steer pq_inv_removals
      pq_inv_reorderByIds retarget_inv)

section \<open>Rows that occur twice\<close>

text \<open>After a reorder that repeats an id a row occurs more than once, always as the same object.\<close>

definition rows_agree :: "qmsg list \<Rightarrow> bool" where
  "rows_agree rows \<longleftrightarrow> (\<forall>r\<in>set rows. \<forall>r'\<in>set rows. q_id r = q_id r' \<longrightarrow> r = r')"

definition pq_good :: "prompt_queue \<Rightarrow> bool" where
  "pq_good pq \<longleftrightarrow> rows_agree (pq_rows pq) \<and> list_all (row_ok (pq_lanes pq)) (pq_rows pq)"

lemma pq_inv_good: "pq_inv pq \<Longrightarrow> pq_good pq"
  by (auto simp: pq_inv_def pq_good_def rows_agree_def distinct_map inj_on_def)

lemma good_sub:
  assumes "pq_good pq" and "set (pq_rows pq') \<subseteq> set (pq_rows pq)" and "lanes_le (pq_lanes pq) (pq_lanes pq')"
  shows "pq_good pq'"
  using assms row_ok_mono by (fastforce simp: pq_good_def rows_agree_def list_all_iff subset_iff)

lemma good_reorder: "pq_good pq \<Longrightarrow> pq_good (pq_reorder pq)"
  by (rule good_sub) (auto simp: pq_reorder_def)

lemma agree_add: "rows_agree rows \<Longrightarrow> q_id row \<notin> q_id ` set rows \<Longrightarrow> rows_agree (row # rows)"
  unfolding rows_agree_def by (metis image_eqI set_ConsD)

lemma agree_snoc: "rows_agree (rows @ [row]) = rows_agree (row # rows)"
  by (simp add: rows_agree_def)

lemma good_add:
  assumes "pq_good pq" and "q_id row \<notin> q_id ` set (pq_rows pq)" and "lanes_le (pq_lanes pq) l" and "row_ok l row"
  shows "pq_good \<lparr>pq_rows = pq_rows pq @ [row], pq_lanes = l\<rparr>" "pq_good \<lparr>pq_rows = row # pq_rows pq, pq_lanes = l\<rparr>"
  using assms rows_ok_mono [of "pq_lanes pq" "pq_rows pq" l] by (simp_all add: pq_good_def agree_snoc agree_add)

lemma good_lanes: "pq_good pq \<Longrightarrow> lanes_le (pq_lanes pq) l \<Longrightarrow> pq_good (pq\<lparr>pq_lanes := l\<rparr>)"
  by (rule good_sub) auto

lemma good_enqueue:
  assumes "pq_good pq"
  shows "pq_good (snd (pq_enqueue uuid now text o1 pq))" "pq_good (snd (enqueueAtFront uuid now text o1 pq))"
proof -
  obtain row l where cr: "createMessage uuid now text o1 (pq_lanes pq) = (row, l)" by (rule prod.exhaust)
  note ok = createMessage_ok [OF cr]
  have up: "pq_good (pq\<lparr>pq_lanes := l\<rparr>)" using assms ok by (simp add: good_lanes)
  have add: "find_row (q_id row) (pq\<lparr>pq_lanes := l\<rparr>) = None \<Longrightarrow>
      pq_good \<lparr>pq_rows = pq_rows pq @ [row], pq_lanes = l\<rparr> \<and> pq_good \<lparr>pq_rows = row # pq_rows pq, pq_lanes = l\<rparr>"
    using good_add [OF assms, of row l] ok by (simp add: find_row_None)
  have eq: "pq\<lparr>pq_lanes := l, pq_rows := x\<rparr> = \<lparr>pq_rows = x, pq_lanes = l\<rparr>" for x by simp
  show "pq_good (snd (pq_enqueue uuid now text o1 pq))" "pq_good (snd (enqueueAtFront uuid now text o1 pq))"
    using up add by (auto simp: pq_enqueue_def enqueueAtFront_def cr Let_def eq intro: good_reorder split: option.split)
qed

lemma good_existing:
  assumes "pq_good pq" and "object_ok uuid m pq"
  shows "pq_good (snd (enqueueExisting uuid m pq))" "pq_good (snd (enqueueExistingAtFront uuid m pq))"
    "pq_good (snd (restoreAtFront uuid m pq))"
proof -
  obtain row l where n: "normalizeQueuedMessage uuid m (pq_lanes pq) = (row, l)" by (rule prod.exhaust)
  have "existing_row m pq = None \<Longrightarrow>
      pq_good \<lparr>pq_rows = pq_rows pq @ [row], pq_lanes = observeSequence row l\<rparr> \<and>
      pq_good \<lparr>pq_rows = row # pq_rows pq, pq_lanes = observeSequence row l\<rparr>"
    using good_add [OF assms(1)] existing_new [OF _ assms(2) n] normalize_ok [OF n] by blast
  then show "pq_good (snd (enqueueExisting uuid m pq))" "pq_good (snd (enqueueExistingAtFront uuid m pq))"
    "pq_good (snd (restoreAtFront uuid m pq))"
    using assms(1)
    by (auto simp: enqueueExisting_def enqueueExistingAtFront_def restoreAtFront_def n intro: good_reorder split: option.split prod.split)
qed

lemma good_set_row:
  assumes "pq_good pq" and "\<And>r. q_id (f r) = q_id r" and "lanes_le (pq_lanes pq) l"
    and "\<And>r. r \<in> set (pq_rows pq) \<Longrightarrow> q_id r = i \<Longrightarrow> row_ok l (f r)"
  shows "pq_good \<lparr>pq_rows = set_row i f (pq_rows pq), pq_lanes = l\<rparr>"
proof -
  have "rows_agree (set_row i f (pq_rows pq))"
    using assms(1,2) by (auto simp: pq_good_def rows_agree_def set_row_def)
  moreover have "list_all (row_ok l) (pq_rows pq)" using assms(1,3) by (auto simp: pq_good_def intro: rows_ok_mono)
  then have "list_all (row_ok l) (set_row i f (pq_rows pq))" using assms(4) by (auto simp: set_row_def list_all_iff)
  ultimately show ?thesis by (simp add: pq_good_def)
qed

lemma good_steer:
  assumes "pq_good pq"
  shows "pq_good (snd (pq_steer i pq))"
proof (cases "find_row i pq")
  case None
  with assms show ?thesis by (simp add: pq_steer_def)
next
  case (Some r)
  obtain s l where al: "allocateSequence T_continuation (pq_lanes pq) = (s, l)" by (rule prod.exhaust)
  have r: "r \<in> set (pq_rows pq)" "q_id r = i" using Some by (auto simp: find_row_def has_id_def find_Some_iff)
  have ok: "row_ok (pq_lanes pq) r" using assms r(1) by (simp add: pq_good_def list_all_iff)
  have same: "r' = r" if "r' \<in> set (pq_rows pq)" "q_id r' = i" for r'
    using assms r that by (auto simp: pq_good_def rows_agree_def)
  show ?thesis
  proof (cases "q_kind r = None")
    case True
    then have none: "q_kind r = None \<and> q_target r = None \<and> q_seq r = None \<and> q_state r = None"
      using ok by (auto simp: row_ok_def split: option.splits)
    have "pq_good \<lparr>pq_rows = set_row i (\<lambda>r. r\<lparr>q_isSteered := True\<rparr>) (pq_rows pq), pq_lanes = pq_lanes pq\<rparr>"
      by (rule good_set_row [OF assms]) (auto simp: row_ok_bare none dest!: same)
    then have "pq_good (pq\<lparr>pq_rows := set_row i (\<lambda>r. r\<lparr>q_isSteered := True\<rparr>) (pq_rows pq)\<rparr>)"
      by (cases pq) simp
    with Some none assms show ?thesis by (auto simp: pq_steer_def intro: good_reorder)
  next
    case False
    then have "q_state r \<noteq> None" using ok by (auto simp: row_ok_def split: option.splits)
    then have "pq_good \<lparr>pq_rows = set_row i (\<lambda>r. r\<lparr>q_isSteered := True, q_kind := Some K_steer,
        q_target := Some T_continuation, q_seq := Some s\<rparr>) (pq_rows pq), pq_lanes = l\<rparr>"
      using lanes_le_allocate [OF al]
      by (intro good_set_row [OF assms]) (auto simp: row_ok_def dest!: same)
    with Some False assms show ?thesis by (auto simp: pq_steer_def al intro: good_reorder)
  qed
qed

lemma set_remove_first: "set (remove_first P rows) \<subseteq> set rows"
  by (induction rows) auto

lemma good_removals:
  assumes "pq_good pq"
  shows "pq_good (snd (pq_remove i pq))" "pq_good (snd (pq_dequeue pq))"
    "pq_good (snd (dequeueForTarget t pq))" "pq_good (snd (dequeueAllSteered pq))"
  using assms set_remove_first [of "has_id i" "pq_rows pq"]
  by (auto simp: pq_remove_def pq_dequeue_def dequeueForTarget_def dequeueAllSteered_def split: list.split option.split
      intro!: good_sub [OF assms] dest: in_set_takeD in_set_dropD set_dropWhileD)

text \<open>Numbers given out one after the other: rows with one id get the last one all alike.\<close>

definition agree_but :: "string set \<Rightarrow> qmsg list \<Rightarrow> bool" where
  "agree_but S rows \<longleftrightarrow> (\<forall>r\<in>set rows. \<forall>r'\<in>set rows. q_id r = q_id r' \<longrightarrow>
     r\<lparr>q_seq := None\<rparr> = r'\<lparr>q_seq := None\<rparr> \<and> (q_id r \<notin> S \<longrightarrow> q_seq r = q_seq r'))"

lemma agree_but_none: "agree_but {} rows \<longleftrightarrow> rows_agree rows"
proof -
  have "r = r'" if "r\<lparr>q_seq := None\<rparr> = r'\<lparr>q_seq := None\<rparr>" "q_seq r = q_seq r'" for r r' :: qmsg
    using that by (cases r; cases r') simp
  then show ?thesis unfolding agree_but_def rows_agree_def by blast
qed

lemma agree_but_set:
  assumes "agree_but S rows"
  shows "agree_but (S - {i}) (set_row i (\<lambda>r. r\<lparr>q_seq := Some s\<rparr>) rows)"
  unfolding agree_but_def
proof (intro ballI impI)
  let ?f = "\<lambda>r. if q_id r = i then r\<lparr>q_seq := Some s\<rparr> else r"
  fix x x' assume "x \<in> set (set_row i (\<lambda>r. r\<lparr>q_seq := Some s\<rparr>) rows)" "x' \<in> set (set_row i (\<lambda>r. r\<lparr>q_seq := Some s\<rparr>) rows)"
    and eq: "q_id x = q_id x'"
  then obtain r r' where r: "r \<in> set rows" "r' \<in> set rows" "x = ?f r" "x' = ?f r'" by (auto simp: set_row_def)
  then have ids: "q_id r = q_id r'" using eq by (simp split: if_splits)
  then have "r\<lparr>q_seq := None\<rparr> = r'\<lparr>q_seq := None\<rparr>" "q_id r \<notin> S \<Longrightarrow> q_seq r = q_seq r'"
    using assms [unfolded agree_but_def, rule_format, OF r(1,2) ids] by blast+
  then show "x\<lparr>q_seq := None\<rparr> = x'\<lparr>q_seq := None\<rparr> \<and> (q_id x \<notin> S - {i} \<longrightarrow> q_seq x = q_seq x')"
    using r(3,4) ids by simp
qed

lemma agree_but_slots:
  "agree_but S rows \<Longrightarrow> length is = length ss \<Longrightarrow> agree_but (S - set is) (assign_slots is ss rows)"
proof (induction "is" ss arbitrary: S rows rule: list_induct2')
  case (4 i "is" s ss)
  then show ?case using agree_but_set [of S rows i s] by (simp add: Diff_insert2 [symmetric] insert_commute) (metis Diff_insert2)
qed simp_all

lemma slots_ok:
  assumes "list_all (row_ok l) rows" and "\<And>r. r \<in> set rows \<Longrightarrow> q_id r \<in> set is \<Longrightarrow> q_target r = Some t"
    and "\<And>s. s \<in> set ss \<Longrightarrow> seq_below t l s"
  shows "list_all (row_ok l) (assign_slots is ss rows)"
  using assms
proof (induction "is" ss rows rule: assign_slots.induct)
  case (1 i "is" s ss rows)
  have "list_all (row_ok l) (set_row i (\<lambda>r. r\<lparr>q_seq := Some s\<rparr>) rows)"
    using 1(2-4) by (auto simp: set_row_def list_all_iff intro!: row_ok_slot)
  moreover have "q_target r = Some t" if "r \<in> set (set_row i (\<lambda>r. r\<lparr>q_seq := Some s\<rparr>) rows)" "q_id r \<in> set is" for r
    using that 1(3) by (auto simp: set_row_def split: if_splits)
  ultimately show ?case using 1(1,4) by simp
qed simp_all

lemma good_resequence_lane:
  assumes "pq_good pq"
  shows "pq_good (pq\<lparr>pq_rows := resequence_lane t (pq_rows pq)\<rparr>)"
proof -
  let ?rs = "filter (in_lane t) (pq_rows pq)"
  let ?is = "map q_id ?rs" and ?ss = "sort (map (\<lambda>r. the (q_seq r)) ?rs)"
  have agree: "rows_agree (pq_rows pq)" and ok: "list_all (row_ok (pq_lanes pq)) (pq_rows pq)"
    using assms by (simp_all add: pq_good_def)
  have "agree_but ({} - set ?is) (assign_slots ?is ?ss (pq_rows pq))"
    by (rule agree_but_slots) (use agree in \<open>simp_all add: agree_but_none\<close>)
  moreover have "list_all (row_ok (pq_lanes pq)) (assign_slots ?is ?ss (pq_rows pq))"
  proof (rule slots_ok [OF ok])
    fix r assume "r \<in> set (pq_rows pq)" "q_id r \<in> set ?is"
    then show "q_target r = Some t" using agree by (auto simp: rows_agree_def in_lane_def)
  next
    fix s assume "s \<in> set ?ss"
    then show "seq_below t (pq_lanes pq) s" using ok by (auto simp: list_all_iff dest: row_ok_lane)
  qed
  ultimately show ?thesis by (simp add: pq_good_def resequence_lane_def Let_def agree_but_none)
qed

lemma good_reorderByIds:
  assumes "pq_good pq"
  shows "pq_good (reorderByIds ids b pq)"
proof -
  have "r \<in> set rows" if "by_id rows i = Some r" for rows i r
    using that by (auto simp: by_id_def find_Some_iff) (metis length_rev nth_mem set_rev)
  then have "set (List.map_filter (by_id rows) ids) \<subseteq> set rows" for rows by (force simp: List.map_filter_def)
  then have sub: "pq_good (reorderByIds ids False pq)"
    by (intro good_sub [OF assms]) (auto simp: reorderByIds_def Let_def)
  show ?thesis
  proof (cases b)
    case True
    have "resequenceReliableLanes pq' = (pq'\<lparr>pq_rows := resequence_lane T_continuation (pq_rows pq')\<rparr>)
        \<lparr>pq_rows := resequence_lane T_next (pq_rows (pq'\<lparr>pq_rows := resequence_lane T_continuation (pq_rows pq')\<rparr>))\<rparr>" for pq'
      by (simp add: resequenceReliableLanes_def)
    then show ?thesis using good_resequence_lane good_resequence_lane sub True by (simp only: reorder_resequence)
  qed (use sub in simp)
qed

lemma good_restore_fold: "pq_good pq \<Longrightarrow> named_rows restored \<Longrightarrow> pq_good (restore_fold restored pq)"
proof (induction restored arbitrary: pq)
  case (Cons x xs)
  obtain u m where x: "x = (u, m)" by (cases x)
  have "pq_good (snd (enqueueExisting u m pq))" "named_rows xs"
    using Cons.prems by (auto simp: x named_rows_def object_ok_def intro: good_existing)
  from Cons.IH [OF this] show ?case by (simp add: restore_fold_def x)
qed (simp add: restore_fold_def)

lemma good_retarget:
  assumes "pq_good pq" and "named_rows restored"
  shows "pq_good (snd (retargetContinuationToNextTurn reason restored pq))"
proof -
  let ?p = "restore_fold restored pq"
  have good: "pq_good ?p" by (rule good_restore_fold [OF assms])
  then have agree: "rows_agree (pq_rows ?p)" and ok: "list_all (row_ok (pq_lanes ?p)) (pq_rows ?p)"
    by (simp_all add: pq_good_def)
  obtain rows' l' where run: "placed_rows reason (pq_rows ?p) (pq_lanes ?p) = (rows', l')" by (rule prod.exhaust)
  note spec = placed_rows_spec [OF ok run]
  let ?lane = "filter in_next_lane rows'"
  let ?is = "map q_id ?lane" and ?ss = "map (\<lambda>r. the (q_seq r)) ?lane"
  have same: "r\<lparr>q_seq := None\<rparr> = r'\<lparr>q_seq := None\<rparr>" if in_rows: "r \<in> set rows'" "r' \<in> set rows'" and eq: "q_id r = q_id r'" for r r'
  proof -
    obtain r0 s where r0: "r0 \<in> set (pq_rows ?p)" "r = (retarget_row reason r0)\<lparr>q_seq := s\<rparr>" using spec(8) [OF in_rows(1)] by blast
    obtain r1 s' where r1: "r1 \<in> set (pq_rows ?p)" "r' = (retarget_row reason r1)\<lparr>q_seq := s'\<rparr>" using spec(8) [OF in_rows(2)] by blast
    have "r0 = r1" using agree r0 r1 eq by (auto simp: rows_agree_def)
    then show ?thesis by (simp add: r0 r1)
  qed
  have lane_same: "in_next_lane r = in_next_lane r'" if "r\<lparr>q_seq := None\<rparr> = r'\<lparr>q_seq := None\<rparr>" for r r'
    using that in_next_lane_seq by metis
  have "q_seq r = q_seq r'" if r: "r \<in> set rows'" "r' \<in> set rows'" "q_id r = q_id r'" "q_id r \<notin> set ?is" for r r'
  proof -
    have "\<not> in_next_lane r" using r(1,4) by auto
    moreover have "\<not> in_next_lane r'" using r(2,4) unfolding r(3) by auto
    ultimately have "r \<in> set (pq_rows ?p)" "r' \<in> set (pq_rows ?p)" using spec(8) r(1,2) by blast+
    then show ?thesis using agree r(3) by (auto simp: rows_agree_def)
  qed
  then have "agree_but (set ?is) rows'" using same unfolding agree_but_def by blast
  from agree_but_slots [OF this, of ?is ?ss] have "rows_agree (assign_slots ?is ?ss rows')"
    by (simp add: agree_but_none)
  moreover have "list_all (row_ok l') (assign_slots ?is ?ss rows')"
  proof (rule slots_ok [OF spec(3)])
    fix r assume r: "r \<in> set rows'" "q_id r \<in> set ?is"
    then obtain r' where "r' \<in> set rows'" "in_next_lane r'" "q_id r = q_id r'" by auto
    then have "in_next_lane r" using lane_same same r(1) by blast
    then show "q_target r = Some T_next" by (simp add: in_next_lane_def)
  next
    fix s assume "s \<in> set ?ss"
    then obtain r where r: "r \<in> set rows'" "in_next_lane r" "s = the (q_seq r)" by auto
    then have "row_ok l' r" using spec(3) by (simp add: list_all_iff)
    with r show "seq_below T_next l' s" by (auto simp: row_ok_def in_next_lane_def split: option.splits)
  qed
  ultimately have "pq_good \<lparr>pq_rows = assign_slots ?is ?ss rows', pq_lanes = l'\<rparr>" by (simp add: pq_good_def)
  with good run show ?thesis
    by (simp add: retargetContinuationToNextTurn_def retarget_lane_def placed_rows_def Let_def)
qed

lemma pq_good_step: "pq_good pq \<Longrightarrow> op_ok op1 pq \<Longrightarrow> pq_good (pq_step op1 pq)"
  by (cases op1) (simp_all add: good_enqueue good_existing good_steer good_removals good_reorderByIds good_retarget)



end
