(* ===== verification/Workflow_Store.thy ===== *)
theory Workflow_Store
  imports Js_Value
begin

text \<open>
  The workflow model and its store, \<open>src/src/server/agent/workflow-store.ts\<close>: normalizing the
  untyped definitions of \<open>project.yaml\<close> into typed workflows, serializing them back, the
  workflow a child goal inherits from a parent, and the store with its built-in layer. The
  configuration block is the object last set; writing it to disk is not modelled. The order in
  which \<open>Object.entries\<close> lists keys is insertion order (no key is an array index).
\<close>

section \<open>Workflows\<close>

datatype step_type = Command | Llm_review | Agent_qa | Subgoal | Human_signoff
datatype expectation = Expect_success | Expect_failure

record subgoal_desc =
  sg_planId :: string
  sg_title :: string
  sg_spec :: string
  sg_workflowId :: "string option"
  sg_suggestedRole :: "string option"
  sg_dependsOn :: "string list option"

record verify_step =
  st_name :: string
  st_type :: step_type
  st_run :: "string option"
  st_prompt :: "string option"
  st_expect :: "expectation option"
  st_timeout :: "js_num option"
  st_phase :: "js_num option"
  st_optional :: bool
  st_label :: "string option"
  st_optionalLabel :: "string option"
  st_role :: "string option"
  st_description :: "string option"
  st_failureGuidance :: "string option"
  st_component :: "string option"
  st_command :: "string option"
  st_subgoal :: "subgoal_desc option"

text \<open>The dependencies of a gate are cast, not checked: any values may be in the list.\<close>

record gate =
  g_id :: string
  g_name :: string
  g_dependsOn :: "js list"
  g_content :: bool
  g_injectDownstream :: bool
  g_optional :: bool
  g_manual :: bool
  g_metadata :: "(string \<times> js) list option"
  g_verify :: "verify_step list option"

record workflow =
  w_id :: string
  w_name :: string
  w_description :: string
  w_gates :: "gate list"
  w_createdAt :: js_num
  w_updatedAt :: js_num
  w_hidden :: bool

section \<open>Normalization\<close>

text \<open>An unknown step type is thrown, with the step's name.\<close>

datatype wf_error = Unknown_step_type "string option" js

text \<open>\<open>raw \<and> typeof raw = object\<close>: an array is an object without any of the fields read here.\<close>

fun obj_fields :: "js \<Rightarrow> (string \<times> js) list option" where
  "obj_fields (JObj fs) = Some fs"
| "obj_fields (JArr _) = Some []"
| "obj_fields _ = None"

fun as_number :: "js \<Rightarrow> js_num option" where
  "as_number (JNum n) = Some n"
| "as_number _ = None"

fun as_array :: "js \<Rightarrow> js list option" where
  "as_array (JArr xs) = Some xs"
| "as_array _ = None"

definition read_step_type :: "js \<Rightarrow> step_type option" where
  "read_step_type v =
     (if v = JStr ''command'' then Some Command
      else if v = JStr ''llm-review'' then Some Llm_review
      else if v = JStr ''agent-qa'' then Some Agent_qa
      else if v = JStr ''subgoal'' then Some Subgoal
      else if v = JStr ''human-signoff'' then Some Human_signoff else None)"

definition read_expect :: "js \<Rightarrow> expectation option" where
  "read_expect v = (if v = JStr ''success'' then Some Expect_success
     else if v = JStr ''failure'' then Some Expect_failure else None)"

definition or_else :: "'a option \<Rightarrow> 'a option \<Rightarrow> 'a option" where
  "or_else a b = (case a of Some x \<Rightarrow> Some x | None \<Rightarrow> b)"

fun map_res :: "('a \<Rightarrow> 'e + 'b) \<Rightarrow> 'a list \<Rightarrow> 'e + 'b list" where
  "map_res f [] = Inr []"
| "map_res f (x # xs) = bind_res (f x) (\<lambda>y. bind_res (map_res f xs) (\<lambda>ys. Inr (y # ys)))"

definition str_or :: "string \<Rightarrow> js \<Rightarrow> string" where
  "str_or d v = (case as_string v of Some s \<Rightarrow> s | None \<Rightarrow> d)"

definition normalizeSubgoal :: "(string \<times> js) list \<Rightarrow> subgoal_desc" where
  "normalizeSubgoal sg =
     \<lparr>sg_planId = (case or_else (as_string (js_prop sg ''planId'')) (as_string (js_prop sg ''plan_id'')) of
                     Some s \<Rightarrow> s | None \<Rightarrow> []),
      sg_title = str_or [] (js_prop sg ''title''),
      sg_spec = str_or [] (js_prop sg ''spec''),
      sg_workflowId = or_else (as_string (js_prop sg ''workflowId'')) (as_string (js_prop sg ''workflow_id'')),
      sg_suggestedRole = or_else (as_string (js_prop sg ''suggestedRole'')) (as_string (js_prop sg ''suggested_role'')),
      sg_dependsOn = map_option js_strings
        (or_else (as_array (js_prop sg ''dependsOn'')) (as_array (js_prop sg ''depends_on'')))\<rparr>"

text \<open>
  The split of the overloaded label: a non-human step keeps no \<open>label\<close>, and an optional one
  without an \<open>optionalLabel\<close> takes it over from there.
\<close>

definition split_label :: "step_type \<Rightarrow> bool \<Rightarrow> string \<Rightarrow> string option \<Rightarrow> string option \<times> string option" where
  "split_label ty optional rawOptionalLabel rawLabel =
     (if ty \<noteq> Human_signoff then
        (None, if rawOptionalLabel \<noteq> [] then Some rawOptionalLabel
               else if optional then rawLabel else None)
      else (rawLabel, if rawOptionalLabel \<noteq> [] then Some rawOptionalLabel else None))"

definition normalizeStep :: "js \<Rightarrow> wf_error + verify_step" where
  "normalizeStep raw =
     (let r = or_empty (obj_fields raw);
          ty = (if js_prop r ''type'' \<noteq> JUndefined then read_step_type (js_prop r ''type'') else Some Command) in
      case ty of
        None \<Rightarrow> Inl (Unknown_step_type (as_string (js_prop r ''name'')) (js_prop r ''type''))
      | Some ty \<Rightarrow>
        let optional = (js_prop r ''optional'' = JBool True);
            labels = split_label ty optional (str_or [] (js_prop r ''optionalLabel'')) (as_string (js_prop r ''label'')) in
        Inr \<lparr>st_name = str_or [] (js_prop r ''name''), st_type = ty,
             st_run = as_string (js_prop r ''run''), st_prompt = as_string (js_prop r ''prompt''),
             st_expect = read_expect (js_prop r ''expect''),
             st_timeout = as_number (js_prop r ''timeout''), st_phase = as_number (js_prop r ''phase''),
             st_optional = optional, st_label = fst labels, st_optionalLabel = snd labels,
             st_role = as_string (js_prop r ''role''), st_description = as_string (js_prop r ''description''),
             st_failureGuidance = as_string (js_prop r ''failureGuidance''),
             st_component = as_string (js_prop r ''component''), st_command = as_string (js_prop r ''command''),
             st_subgoal = map_option normalizeSubgoal (as_object (js_prop r ''subgoal''))\<rparr>)"

definition normalizeGate :: "js \<Rightarrow> wf_error + gate" where
  "normalizeGate raw =
     (let r = or_empty (obj_fields raw);
          g = \<lparr>g_id = str_or [] (js_prop r ''id''), g_name = str_or [] (js_prop r ''name''),
               g_dependsOn = or_empty (or_else (as_array (js_prop r ''depends_on'')) (as_array (js_prop r ''dependsOn''))),
               g_content = (js_prop r ''content'' = JBool True),
               g_injectDownstream = (js_prop r ''inject_downstream'' = JBool True \<or> js_prop r ''injectDownstream'' = JBool True),
               g_optional = (js_prop r ''optional'' = JBool True), g_manual = (js_prop r ''manual'' = JBool True),
               g_metadata = as_object (js_prop r ''metadata''), g_verify = None\<rparr> in
      case as_array (js_prop r ''verify'') of
        None \<Rightarrow> Inr g
      | Some steps \<Rightarrow> bind_res (map_res normalizeStep steps) (\<lambda>ss. Inr (g\<lparr>g_verify := Some ss\<rparr>)))"

definition num_or_zero :: "js \<Rightarrow> js_num" where
  "num_or_zero v = (case as_number v of Some n \<Rightarrow> n | None \<Rightarrow> Fin 0)"

definition normalizeWorkflow :: "js \<Rightarrow> string \<Rightarrow> wf_error + workflow option" where
  "normalizeWorkflow raw idHint =
     (case obj_fields raw of
        None \<Rightarrow> Inr None
      | Some r \<Rightarrow>
        let i = (if str_or [] (js_prop r ''id'') \<noteq> [] then str_or [] (js_prop r ''id'') else idHint) in
        if i = [] then Inr None
        else bind_res (map_res normalizeGate (or_empty (as_array (js_prop r ''gates'')))) (\<lambda>gs.
          Inr (Some \<lparr>w_id = i, w_name = str_or i (js_prop r ''name''),
                w_description = str_or [] (js_prop r ''description''), w_gates = gs,
                w_createdAt = num_or_zero (js_prop r ''createdAt''), w_updatedAt = num_or_zero (js_prop r ''updatedAt''),
                w_hidden = (js_prop r ''hidden'' = JBool True)\<rparr>)))"

section \<open>Serialization\<close>

definition opt_field :: "string \<Rightarrow> js option \<Rightarrow> (string \<times> js) list" where
  "opt_field k v = (case v of None \<Rightarrow> [] | Some x \<Rightarrow> [(k, x)])"

definition flag :: "bool \<Rightarrow> js option" where
  "flag b = (if b then Some (JBool True) else None)"

fun step_type_js :: "step_type \<Rightarrow> js" where
  "step_type_js Command = JStr ''command''"
| "step_type_js Llm_review = JStr ''llm-review''"
| "step_type_js Agent_qa = JStr ''agent-qa''"
| "step_type_js Subgoal = JStr ''subgoal''"
| "step_type_js Human_signoff = JStr ''human-signoff''"

fun expect_js :: "expectation \<Rightarrow> js" where
  "expect_js Expect_success = JStr ''success''"
| "expect_js Expect_failure = JStr ''failure''"

definition serializeSubgoal :: "subgoal_desc \<Rightarrow> js" where
  "serializeSubgoal sg = JObj
     ([(''planId'', JStr (sg_planId sg)), (''title'', JStr (sg_title sg)), (''spec'', JStr (sg_spec sg))] @
      opt_field ''workflowId'' (map_option JStr (sg_workflowId sg)) @
      opt_field ''suggestedRole'' (map_option JStr (sg_suggestedRole sg)) @
      opt_field ''dependsOn'' (map_option (\<lambda>ds. JArr (map JStr ds)) (sg_dependsOn sg)))"

definition serializeStep :: "verify_step \<Rightarrow> js" where
  "serializeStep s = JObj
     ([(''name'', JStr (st_name s)), (''type'', step_type_js (st_type s))] @
      opt_field ''component'' (map_option JStr (st_component s)) @
      opt_field ''command'' (map_option JStr (st_command s)) @
      opt_field ''run'' (map_option JStr (st_run s)) @
      opt_field ''prompt'' (map_option JStr (st_prompt s)) @
      opt_field ''expect'' (map_option expect_js (st_expect s)) @
      opt_field ''timeout'' (map_option JNum (st_timeout s)) @
      opt_field ''phase'' (map_option JNum (st_phase s)) @
      opt_field ''optional'' (flag (st_optional s)) @
      opt_field ''label'' (if st_type s = Human_signoff then map_option JStr (st_label s) else None) @
      opt_field ''optionalLabel'' (map_option JStr (st_optionalLabel s)) @
      opt_field ''role'' (map_option JStr (st_role s)) @
      opt_field ''description'' (map_option JStr (st_description s)) @
      opt_field ''failureGuidance'' (map_option JStr (st_failureGuidance s)) @
      opt_field ''subgoal'' (map_option serializeSubgoal (st_subgoal s)))"

definition serializeGate :: "gate \<Rightarrow> js" where
  "serializeGate g = JObj
     ([(''id'', JStr (g_id g)), (''name'', JStr (g_name g))] @
      opt_field ''content'' (flag (g_content g)) @
      opt_field ''inject_downstream'' (flag (g_injectDownstream g)) @
      opt_field ''optional'' (flag (g_optional g)) @
      opt_field ''manual'' (flag (g_manual g)) @
      opt_field ''depends_on'' (if g_dependsOn g \<noteq> [] then Some (JArr (g_dependsOn g)) else None) @
      opt_field ''metadata'' (map_option JObj (g_metadata g)) @
      opt_field ''verify'' (if or_empty (g_verify g) \<noteq> [] then Some (JArr (map serializeStep (or_empty (g_verify g)))) else None))"

definition serializeWorkflow :: "workflow \<Rightarrow> js" where
  "serializeWorkflow w = JObj
     ([(''id'', JStr (w_id w)), (''name'', JStr (w_name w)), (''description'', JStr (w_description w))] @
      opt_field ''hidden'' (flag (w_hidden w)) @
      [(''gates'', JArr (map serializeGate (w_gates w)))])"

section \<open>The workflow of a child goal\<close>

fun is_subgoal_step :: "verify_step \<Rightarrow> bool" where
  "is_subgoal_step s = (st_type s = Subgoal)"

definition find_gate :: "string \<Rightarrow> gate list \<Rightarrow> gate option" where
  "find_gate i gs = find (\<lambda>g. g_id g = i) gs"

definition isParentMetaWorkflow :: "workflow option \<Rightarrow> bool" where
  "isParentMetaWorkflow wfo =
     (case wfo of
        None \<Rightarrow> False
      | Some w \<Rightarrow>
        if w_id w = ''parent'' then True
        else (case find_gate ''execution'' (w_gates w) of
                None \<Rightarrow> False
              | Some ex \<Rightarrow> (case g_verify ex of None \<Rightarrow> False | Some steps \<Rightarrow> list_ex is_subgoal_step steps)))"

text \<open>Write to the gate that \<open>find\<close> returned: the first with the id.\<close>

fun update_gate :: "string \<Rightarrow> (gate \<Rightarrow> gate) \<Rightarrow> gate list \<Rightarrow> gate list" where
  "update_gate i f [] = []"
| "update_gate i f (g # gs) = (if g_id g = i then f g # gs else g # update_gate i f gs)"

definition depends :: "gate \<Rightarrow> string \<Rightarrow> bool" where
  "depends g i = (JStr i \<in> set (g_dependsOn g))"

text \<open>The inner loop of the downstream search: mark the unmarked gates that depend on \<open>i\<close>.\<close>

fun mark_dependents :: "gate list \<Rightarrow> string \<Rightarrow> string list \<Rightarrow> string list \<Rightarrow> string list \<times> string list" where
  "mark_dependents [] i marked queue = (marked, queue)"
| "mark_dependents (g # gs) i marked queue =
     (if g_id g \<in> set marked then mark_dependents gs i marked queue
      else if depends g i then mark_dependents gs i (marked @ [g_id g]) (queue @ [g_id g])
      else mark_dependents gs i marked queue)"

lemma mark_dependents_spec:
  assumes "mark_dependents gs i marked queue = (m', q')"
  shows "\<exists>new. m' = marked @ new \<and> q' = queue @ new \<and>
     set new = {g_id g | g. g \<in> set gs \<and> depends g i} - set marked \<and> distinct new"
  using assms
proof (induction gs i marked queue arbitrary: m' q' rule: mark_dependents.induct)
  case (2 g gs i marked queue)
  consider "g_id g \<in> set marked" | "g_id g \<notin> set marked" "depends g i" | "g_id g \<notin> set marked" "\<not> depends g i" by blast
  then show ?case
  proof cases
    case 1
    with "2.IH"(1) "2.prems" show ?thesis by fastforce
  next
    case a: 2
    with "2.prems" have "mark_dependents gs i (marked @ [g_id g]) (queue @ [g_id g]) = (m', q')" by simp
    from "2.IH"(2) [OF a this] obtain new where "m' = (marked @ [g_id g]) @ new" "q' = (queue @ [g_id g]) @ new"
      "set new = {g_id g' | g'. g' \<in> set gs \<and> depends g' i} - set (marked @ [g_id g])" "distinct new" by blast
    with a show ?thesis by (intro exI [of _ "g_id g # new"]) auto
  next
    case 3
    with "2.IH"(3) "2.prems" show ?thesis by fastforce
  qed
qed simp

text \<open>The outer loop; every gate id enters the queue at most once.\<close>

function downstream_loop :: "gate list \<Rightarrow> string list \<Rightarrow> string list \<Rightarrow> string list" where
  "downstream_loop gs marked [] = marked"
| "downstream_loop gs marked (i # queue) =
     (case mark_dependents gs i marked queue of (m', q') \<Rightarrow> downstream_loop gs m' q')"
  by pat_completeness auto
termination
proof (relation "measures [\<lambda>(gs, marked, queue). card (g_id ` set gs - set marked), \<lambda>(gs, marked, queue). length queue]",
    goal_cases)
  case (2 gs marked i queue m' q')
  from 2 obtain new where new: "m' = marked @ new" "q' = queue @ new"
    "set new = {g_id g | g. g \<in> set gs \<and> depends g i} - set marked"
    using mark_dependents_spec [of gs i marked queue m' q'] by (metis (no_types, lifting))
  show ?case
  proof (cases new)
    case Nil
    with new show ?thesis by simp
  next
    case (Cons n ns)
    then have "g_id ` set gs - set m' \<subset> g_id ` set gs - set marked" using new by auto
    then show ?thesis by (simp add: psubset_card_mono)
  qed
qed simp

text \<open>The forward search from \<open>ready-to-merge\<close>; dependencies that name no gate are marked too.\<close>

fun mark_new :: "js list \<Rightarrow> js list \<Rightarrow> js list \<Rightarrow> js list \<times> js list" where
  "mark_new [] marked queue = (marked, queue)"
| "mark_new (d # ds) marked queue =
     (if d \<in> set marked then mark_new ds marked queue else mark_new ds (marked @ [d]) (queue @ [d]))"

lemma mark_new_spec:
  assumes "mark_new ds marked queue = (m', q')"
  shows "\<exists>new. m' = marked @ new \<and> q' = queue @ new \<and> set new = set ds - set marked"
  using assms
proof (induction ds marked queue arbitrary: m' q' rule: mark_new.induct)
  case (2 d ds marked queue)
  show ?case
  proof (cases "d \<in> set marked")
    case True
    with "2.IH"(1) "2.prems" show ?thesis by fastforce
  next
    case False
    with "2.prems" have "mark_new ds (marked @ [d]) (queue @ [d]) = (m', q')" by simp
    from "2.IH"(2) [OF False this] obtain new where "m' = (marked @ [d]) @ new" "q' = (queue @ [d]) @ new"
      "set new = set ds - set (marked @ [d])" by blast
    with False show ?thesis by (intro exI [of _ "d # new"]) auto
  qed
qed simp

text \<open>\<open>byId\<close>: of gates with the same id the last one.\<close>

fun gate_deps :: "gate list \<Rightarrow> js \<Rightarrow> js list" where
  "gate_deps gs (JStr i) = (case find_gate i (rev gs) of None \<Rightarrow> [] | Some g \<Rightarrow> g_dependsOn g)"
| "gate_deps gs _ = []"

definition all_deps :: "gate list \<Rightarrow> js set" where
  "all_deps gs = (\<Union>g \<in> set gs. set (g_dependsOn g))"

lemma find_gate_in: "find_gate i gs = Some g \<Longrightarrow> g \<in> set gs \<and> g_id g = i"
  by (auto simp: find_gate_def find_Some_iff)

lemma gate_deps_all: "set (gate_deps gs d) \<subseteq> all_deps gs"
  by (induction gs d rule: gate_deps.induct)
    (auto simp: all_deps_def dest!: find_gate_in find_gate_in [OF sym] split: option.splits)

lemma finite_all_deps: "finite (all_deps gs)"
  by (simp add: all_deps_def)

function upstream_loop :: "gate list \<Rightarrow> js list \<Rightarrow> js list \<Rightarrow> js list" where
  "upstream_loop gs marked [] = marked"
| "upstream_loop gs marked (i # queue) =
     (case mark_new (gate_deps gs i) marked queue of (m', q') \<Rightarrow> upstream_loop gs m' q')"
  by pat_completeness auto
termination
proof (relation "measures [\<lambda>(gs, marked, queue). card (all_deps gs - set marked), \<lambda>(gs, marked, queue). length queue]",
    goal_cases)
  case (2 gs marked i queue m' q')
  from 2 obtain new where new: "m' = marked @ new" "q' = queue @ new" "set new = set (gate_deps gs i) - set marked"
    using mark_new_spec [of "gate_deps gs i" marked queue m' q'] by (metis (no_types, lifting))
  show ?case
  proof (cases new)
    case Nil
    with new show ?thesis by simp
  next
    case (Cons n ns)
    then have "n \<in> all_deps gs - set marked" "n \<in> set m'" using new gate_deps_all [of gs i] by auto
    then have "all_deps gs - set m' \<subset> all_deps gs - set marked" using new by auto
    then show ?thesis by (simp add: psubset_card_mono finite_all_deps)
  qed
qed simp

definition downstreamOfExec :: "gate list \<Rightarrow> string list" where
  "downstreamOfExec gs =
     (let first = map g_id (filter (\<lambda>g. depends g ''execution'') gs) in
      downstream_loop gs (js_uniq first) first)"

definition upstreamOfRtm :: "gate list \<Rightarrow> js list" where
  "upstreamOfRtm gs =
     (case find_gate ''ready-to-merge'' gs of
        None \<Rightarrow> []
      | Some rtm \<Rightarrow> upstream_loop gs (js_uniq (g_dependsOn rtm)) (g_dependsOn rtm))"

definition aggregationGateIds :: "gate list \<Rightarrow> string list" where
  "aggregationGateIds gs =
     filter (\<lambda>i. i \<noteq> ''execution'' \<and> i \<noteq> ''ready-to-merge'' \<and>
        find_gate ''ready-to-merge'' gs \<noteq> None \<and> JStr i \<in> set (upstreamOfRtm gs)) (downstreamOfExec gs)"

definition prune_deps :: "string list \<Rightarrow> js list \<Rightarrow> js list" where
  "prune_deps dropped ds = filter (\<lambda>d. d \<notin> set (map JStr dropped)) ds"

definition rewire :: "string list \<Rightarrow> gate \<Rightarrow> gate" where
  "rewire dropped g =
     (let kept = prune_deps dropped (g_dependsOn g) in
      g\<lparr>g_dependsOn := (if JStr ''execution'' \<in> set kept then kept else kept @ [JStr ''execution''])\<rparr>)"

definition strip_subgoals :: "gate \<Rightarrow> gate" where
  "strip_subgoals g = g\<lparr>g_verify := map_option (filter (\<lambda>s. \<not> is_subgoal_step s)) (g_verify g)\<rparr>"

definition stripSubgoalStepsForChildInheritance :: "workflow \<Rightarrow> workflow" where
  "stripSubgoalStepsForChildInheritance w =
     (if \<not> isParentMetaWorkflow (Some w) then w
      else if find_gate ''execution'' (w_gates w) = None then w
      else
        let gs = update_gate ''execution'' strip_subgoals (w_gates w);
            dropped = aggregationGateIds gs in
        if dropped = [] then w\<lparr>w_gates := gs\<rparr>
        else
          let kept = filter (\<lambda>g. g_id g \<notin> set dropped) gs;
              wired = update_gate ''ready-to-merge'' (rewire dropped) kept in
          w\<lparr>w_gates := map (\<lambda>g. g\<lparr>g_dependsOn := prune_deps dropped (g_dependsOn g)\<rparr>) wired\<rparr>)"

section \<open>The store\<close>

text \<open>\<open>ProjectConfigStore\<close>'s workflow block and the built-in workflows by id.\<close>

record workflow_store =
  wfs_block :: "(string \<times> js) list option"
  wfs_builtins :: "(string \<times> workflow) list"

fun map_set_all :: "(string \<times> 'v) list \<Rightarrow> (string \<times> 'v) list \<Rightarrow> (string \<times> 'v) list" where
  "map_set_all [] m = m"
| "map_set_all ((k, v) # kvs) m = map_set_all kvs (AList.update k v m)"

definition setBuiltins :: "workflow list \<Rightarrow> workflow_store \<Rightarrow> workflow_store" where
  "setBuiltins items st = st\<lparr>wfs_builtins := map_set_all (map (\<lambda>w. (w_id w, w)) items) []\<rparr>"

fun read_entries :: "(string \<times> js) list \<Rightarrow> (string \<times> workflow) list \<Rightarrow> wf_error + (string \<times> workflow) list" where
  "read_entries [] out = Inr out"
| "read_entries ((i, raw) # es) out =
     bind_res (normalizeWorkflow raw i) (\<lambda>wo.
       read_entries es (case wo of None \<Rightarrow> out | Some w \<Rightarrow> AList.update (w_id w) w out))"

definition readLocal :: "workflow_store \<Rightarrow> wf_error + (string \<times> workflow) list" where
  "readLocal st = read_entries (or_empty (wfs_block st)) []"

definition wf_get :: "string \<Rightarrow> workflow_store \<Rightarrow> wf_error + workflow option" where
  "wf_get k st = bind_res (readLocal st) (\<lambda>loc.
     Inr (case map_of loc k of Some w \<Rightarrow> Some w | None \<Rightarrow> map_of (wfs_builtins st) k))"

definition getLocal :: "string \<Rightarrow> workflow_store \<Rightarrow> wf_error + workflow option" where
  "getLocal k st = bind_res (readLocal st) (\<lambda>loc. Inr (map_of loc k))"

definition getAllIncludingHidden :: "workflow_store \<Rightarrow> wf_error + workflow list" where
  "getAllIncludingHidden st = bind_res (readLocal st) (\<lambda>loc. Inr (map snd (map_set_all loc (wfs_builtins st))))"

definition wf_getAll :: "workflow_store \<Rightarrow> wf_error + workflow list" where
  "wf_getAll st = bind_res (getAllIncludingHidden st) (\<lambda>ws. Inr (filter (\<lambda>w. \<not> w_hidden w) ws))"

definition getAllLocal :: "workflow_store \<Rightarrow> wf_error + workflow list" where
  "getAllLocal st = bind_res (readLocal st) (\<lambda>loc. Inr (filter (\<lambda>w. \<not> w_hidden w) (map snd loc)))"

text \<open>A typed workflow as the object it is in memory.\<close>

definition step_object :: "verify_step \<Rightarrow> js" where
  "step_object s = JObj
     ([(''name'', JStr (st_name s)), (''type'', step_type_js (st_type s))] @
      opt_field ''run'' (map_option JStr (st_run s)) @
      opt_field ''prompt'' (map_option JStr (st_prompt s)) @
      opt_field ''expect'' (map_option expect_js (st_expect s)) @
      opt_field ''timeout'' (map_option JNum (st_timeout s)) @
      opt_field ''phase'' (map_option JNum (st_phase s)) @
      opt_field ''optional'' (flag (st_optional s)) @
      opt_field ''label'' (map_option JStr (st_label s)) @
      opt_field ''optionalLabel'' (map_option JStr (st_optionalLabel s)) @
      opt_field ''role'' (map_option JStr (st_role s)) @
      opt_field ''description'' (map_option JStr (st_description s)) @
      opt_field ''failureGuidance'' (map_option JStr (st_failureGuidance s)) @
      opt_field ''component'' (map_option JStr (st_component s)) @
      opt_field ''command'' (map_option JStr (st_command s)) @
      opt_field ''subgoal'' (map_option serializeSubgoal (st_subgoal s)))"

definition gate_object :: "gate \<Rightarrow> js" where
  "gate_object g = JObj
     ([(''id'', JStr (g_id g)), (''name'', JStr (g_name g)), (''dependsOn'', JArr (g_dependsOn g))] @
      opt_field ''content'' (flag (g_content g)) @
      opt_field ''injectDownstream'' (flag (g_injectDownstream g)) @
      opt_field ''optional'' (flag (g_optional g)) @
      opt_field ''manual'' (flag (g_manual g)) @
      opt_field ''metadata'' (map_option JObj (g_metadata g)) @
      opt_field ''verify'' (map_option (\<lambda>ss. JArr (map step_object ss)) (g_verify g)))"

definition workflow_object :: "workflow \<Rightarrow> js" where
  "workflow_object w = JObj
     ([(''id'', JStr (w_id w)), (''name'', JStr (w_name w)), (''description'', JStr (w_description w)),
       (''gates'', JArr (map gate_object (w_gates w))),
       (''createdAt'', JNum (w_createdAt w)), (''updatedAt'', JNum (w_updatedAt w))] @
      opt_field ''hidden'' (flag (w_hidden w)))"

definition wf_put :: "workflow \<Rightarrow> workflow_store \<Rightarrow> wf_error + workflow_store" where
  "wf_put w st =
     (let block = or_empty (wfs_block st) in
      bind_res (normalizeWorkflow (workflow_object w) (w_id w)) (\<lambda>wo.
        let canonical = (case wo of Some c \<Rightarrow> c | None \<Rightarrow> w) in
        Inr (st\<lparr>wfs_block := Some (AList.update (w_id canonical) (serializeWorkflow canonical) block)\<rparr>)))"

definition wf_remove :: "string \<Rightarrow> workflow_store \<Rightarrow> workflow_store" where
  "wf_remove k st =
     (case wfs_block st of
        None \<Rightarrow> st
      | Some block \<Rightarrow> if k \<in> fst ` set block then st\<lparr>wfs_block := Some (AList.delete k block)\<rparr> else st)"

record workflow_updates =
  wu_name :: "string option"
  wu_description :: "string option"
  wu_gates :: "gate list option"
  wu_hidden :: "bool option"

definition or_old :: "'a option \<Rightarrow> 'a \<Rightarrow> 'a" where
  "or_old u x = (case u of Some y \<Rightarrow> y | None \<Rightarrow> x)"

definition wf_update :: "rat \<Rightarrow> string \<Rightarrow> workflow_updates \<Rightarrow> workflow_store \<Rightarrow> wf_error + bool \<times> workflow_store" where
  "wf_update now k u st =
     bind_res (readLocal st) (\<lambda>loc.
       case (case map_of loc k of Some w \<Rightarrow> Some w | None \<Rightarrow> map_of (wfs_builtins st) k) of
         None \<Rightarrow> Inr (False, st)
       | Some w \<Rightarrow>
         bind_res (wf_put (w\<lparr>w_name := or_old (wu_name u) (w_name w), w_description := or_old (wu_description u) (w_description w),
             w_gates := or_old (wu_gates u) (w_gates w), w_hidden := or_old (wu_hidden u) (w_hidden w),
             w_updatedAt := Fin now\<rparr>) st) (\<lambda>st'. Inr (True, st')))"

section \<open>Reading back what was written\<close>

definition opt_js :: "js option \<Rightarrow> js \<Rightarrow> js" where
  "opt_js v d = (case v of Some x \<Rightarrow> x | None \<Rightarrow> d)"

lemma opt_js_simps: "opt_js None d = d" "opt_js (Some x) d = x"
  by (simp_all add: opt_js_def)

lemma js_prop_opt_append [simp]:
  "js_prop (opt_field k v @ fs) k' = (if k = k' then opt_js v (js_prop fs k') else js_prop fs k')"
  by (auto simp: opt_field_def opt_js_def split: option.split)

lemma js_prop_opt [simp]: "js_prop (opt_field k v) k' = (if k = k' then opt_js v JUndefined else JUndefined)"
  by (auto simp: opt_field_def opt_js_def split: option.split)

lemma flag_read [simp]: "opt_js (flag b) JUndefined = JBool True \<longleftrightarrow> b"
  by (simp add: flag_def opt_js_def)

lemma read_step_type_js [simp]: "read_step_type (step_type_js ty) = Some ty" "step_type_js ty \<noteq> JUndefined"
  by (cases ty; simp add: read_step_type_def)+

lemma read_expect_js [simp]: "read_expect (expect_js e) = Some e"
  by (cases e) (simp_all add: read_expect_def)

lemma read_undefined [simp]: "read_expect JUndefined = None" "str_or d JUndefined = d" "num_or_zero JUndefined = Fin 0"
  by (simp_all add: read_expect_def str_or_def num_or_zero_def)

lemma str_or_JStr [simp]: "str_or d (JStr s) = s"
  by (simp add: str_or_def)

lemma num_or_zero_JNum [simp]: "num_or_zero (JNum n) = n"
  by (simp add: num_or_zero_def)

lemma js_strings_map [simp]: "js_strings (map JStr ss) = ss"
  by (induction ss) (simp_all add: js_strings_def map_filter_simps)

lemma or_else_simps [simp]: "or_else None b = b" "or_else (Some x) b = Some x" "or_else a None = a"
  by (simp_all add: or_else_def split: option.split)

lemma opt_reads [simp]:
  "str_or [] (opt_js (map_option JStr x) JUndefined) = or_empty x"
  "as_string (opt_js (map_option JStr x) JUndefined) = x"
  "as_string (opt_js (if c then map_option JStr x else None) JUndefined) = (if c then x else None)"
  "as_number (opt_js (map_option JNum n) JUndefined) = n"
  "read_expect (opt_js (map_option expect_js e) JUndefined) = e"
  "as_array (opt_js (map_option (\<lambda>ds. JArr (f ds)) a) JUndefined) = map_option f a"
  "as_object (opt_js (map_option JObj ob) JUndefined) = ob"
  by (cases x; cases n; cases e; cases a; cases ob; simp add: opt_js_def)+

lemma normalizeSubgoal_serialize: "serializeSubgoal sg = JObj fs \<Longrightarrow> normalizeSubgoal fs = sg"
  by (cases sg) (auto simp: serializeSubgoal_def normalizeSubgoal_def option.map_comp o_def option.map_ident)

lemma subgoal_read [simp]:
  "map_option normalizeSubgoal (as_object (opt_js (map_option serializeSubgoal so) JUndefined)) = so"
proof (cases so)
  case (Some sg)
  obtain fs where "serializeSubgoal sg = JObj fs" by (simp add: serializeSubgoal_def)
  with normalizeSubgoal_serialize [OF this] Some show ?thesis by (simp add: opt_js_def)
qed (simp add: opt_js_def)

definition migrate_step :: "verify_step \<Rightarrow> verify_step" where
  "migrate_step s =
     (let labels = split_label (st_type s) (st_optional s) (or_empty (st_optionalLabel s)) (st_label s) in
      s\<lparr>st_label := fst labels, st_optionalLabel := snd labels\<rparr>)"

definition tidy_step :: "verify_step \<Rightarrow> verify_step" where
  "tidy_step s = s\<lparr>st_label := (if st_type s = Human_signoff then st_label s else None),
     st_optionalLabel := (if or_empty (st_optionalLabel s) = [] then None else st_optionalLabel s)\<rparr>"

lemma normalizeStep_object: "normalizeStep (step_object s) = Inr (migrate_step s)"
  by (simp add: normalizeStep_def step_object_def Let_def migrate_step_def)

lemma normalizeStep_serialize: "normalizeStep (serializeStep s) = Inr (tidy_step s)"
  by (cases s, cases "st_optionalLabel s")
    (auto simp: normalizeStep_def serializeStep_def Let_def tidy_step_def split_label_def opt_js_simps)

lemma map_res_all: "(\<And>x. f (g x) = Inr (h x)) \<Longrightarrow> map_res f (map g xs) = Inr (map h xs)"
  by (induction xs) simp_all

definition migrate_gate :: "gate \<Rightarrow> gate" where
  "migrate_gate g = g\<lparr>g_verify := map_option (map migrate_step) (g_verify g)\<rparr>"

definition tidy_gate :: "gate \<Rightarrow> gate" where
  "tidy_gate g = g\<lparr>g_verify :=
     (if or_empty (g_verify g) = [] then None else Some (map tidy_step (or_empty (g_verify g))))\<rparr>"

lemma normalizeGate_object: "normalizeGate (gate_object g) = Inr (migrate_gate g)"
  by (cases g, cases "g_verify g")
    (auto simp: normalizeGate_def gate_object_def Let_def migrate_gate_def opt_js_simps map_res_all normalizeStep_object)

lemma normalizeGate_serialize: "normalizeGate (serializeGate g) = Inr (tidy_gate g)"
proof (cases "or_empty (g_verify g) = []")
  case True
  then show ?thesis
    by (cases g, cases "g_dependsOn g = []") (auto simp: normalizeGate_def serializeGate_def Let_def tidy_gate_def opt_js_simps)
next
  case False
  then show ?thesis
    by (cases g, cases "g_dependsOn g = []")
      (auto simp: normalizeGate_def serializeGate_def Let_def tidy_gate_def opt_js_simps map_res_all normalizeStep_serialize)
qed

definition migrate :: "workflow \<Rightarrow> workflow" where
  "migrate w = w\<lparr>w_gates := map migrate_gate (w_gates w)\<rparr>"

definition tidy :: "workflow \<Rightarrow> workflow" where
  "tidy w = w\<lparr>w_gates := map tidy_gate (w_gates w), w_createdAt := Fin 0, w_updatedAt := Fin 0\<rparr>"

lemma normalizeWorkflow_object:
  "w_id w \<noteq> [] \<Longrightarrow> normalizeWorkflow (workflow_object w) hint = Inr (Some (migrate w))"
  by (cases w) (simp add: normalizeWorkflow_def workflow_object_def Let_def migrate_def map_res_all normalizeGate_object)

lemma normalizeWorkflow_serialize:
  "w_id w \<noteq> [] \<Longrightarrow> normalizeWorkflow (serializeWorkflow w) hint = Inr (Some (tidy w))"
  by (cases w) (simp add: normalizeWorkflow_def serializeWorkflow_def Let_def tidy_def map_res_all normalizeGate_serialize)

section \<open>The laws of the store\<close>

text \<open>Every entry of the block is a workflow stored under its own id.\<close>

definition entry_ok :: "string \<Rightarrow> js \<Rightarrow> bool" where
  "entry_ok i raw \<longleftrightarrow>
     (case normalizeWorkflow raw i of Inr (Some w) \<Rightarrow> w_id w = i | _ \<Rightarrow> False)"

definition block_ok :: "workflow_store \<Rightarrow> bool" where
  "block_ok st \<longleftrightarrow> distinct (map fst (or_empty (wfs_block st))) \<and>
     list_all (\<lambda>(i, raw). entry_ok i raw) (or_empty (wfs_block st))"

definition entry_of :: "string \<times> js \<Rightarrow> string \<times> workflow" where
  "entry_of e = (case normalizeWorkflow (snd e) (fst e) of Inr (Some w) \<Rightarrow> (fst e, w) | _ \<Rightarrow> (fst e, undefined))"

lemma read_entries_ok:
  "list_all (\<lambda>(i, raw). entry_ok i raw) es \<Longrightarrow> distinct (map fst out @ map fst es) \<Longrightarrow>
   read_entries es out = Inr (out @ map entry_of es)"
proof (induction es arbitrary: out)
  case (Cons e es)
  obtain i raw where e: "e = (i, raw)" by (cases e)
  with Cons.prems obtain w where w: "normalizeWorkflow raw i = Inr (Some w)" "w_id w = i"
    by (auto simp: entry_ok_def split: sum.splits option.splits)
  have "i \<notin> fst ` set out" using Cons.prems(2) by (auto simp: e)
  then have "AList.update i w out = out @ [(i, w)]" by (rule keys_update_new)
  with Cons e w show ?case by (simp add: entry_of_def)
qed simp

lemma map_of_entry:
  "map_of (map entry_of es) k =
     (case map_of es k of None \<Rightarrow> None | Some raw \<Rightarrow> Some (snd (entry_of (k, raw))))"
  by (induction es) (auto simp: entry_of_def split: sum.split option.split)

lemma getLocal_ok:
  "block_ok st \<Longrightarrow> getLocal k st =
     Inr (case map_of (or_empty (wfs_block st)) k of None \<Rightarrow> None | Some raw \<Rightarrow> Some (snd (entry_of (k, raw))))"
  by (simp add: getLocal_def readLocal_def block_ok_def read_entries_ok map_of_entry)

lemma tidy_migrate_id [simp]: "w_id (migrate w) = w_id w" "w_id (tidy w) = w_id w"
  by (simp_all add: migrate_def tidy_def)

lemma wf_put_result:
  "w_id w \<noteq> [] \<Longrightarrow> wf_put w st =
     Inr (st\<lparr>wfs_block := Some (AList.update (w_id w) (serializeWorkflow (migrate w)) (or_empty (wfs_block st)))\<rparr>)"
  by (simp add: wf_put_def normalizeWorkflow_object)

lemma entry_ok_serialize: "w_id w \<noteq> [] \<Longrightarrow> entry_ok (w_id w) (serializeWorkflow (migrate w))"
  by (simp add: entry_ok_def normalizeWorkflow_serialize)

lemma list_all_update:
  "P (k, v) \<Longrightarrow> list_all P m \<Longrightarrow> list_all P (AList.update k v m)"
  by (induction m) auto

lemma block_ok_put: "block_ok st \<Longrightarrow> w_id w \<noteq> [] \<Longrightarrow> wf_put w st = Inr st' \<Longrightarrow> block_ok st'"
  by (auto simp: wf_put_result block_ok_def entry_ok_serialize
      intro!: list_all_update [where P = "\<lambda>(i, raw). entry_ok i raw"])

lemma list_all_delete: "list_all P m \<Longrightarrow> list_all P (AList.delete k m)"
  by (induction m) auto

lemma block_ok_remove: "block_ok st \<Longrightarrow> block_ok (wf_remove k st)"
  by (auto simp: wf_remove_def block_ok_def list_all_delete distinct_delete split: option.split)

text \<open>A canonical workflow: what a save does not migrate or drop.\<close>

definition canonical_step :: "verify_step \<Rightarrow> bool" where
  "canonical_step s \<longleftrightarrow> (st_label s \<noteq> None \<longrightarrow> st_type s = Human_signoff) \<and> st_optionalLabel s \<noteq> Some []"

definition canonical :: "workflow \<Rightarrow> bool" where
  "canonical w \<longleftrightarrow> w_id w \<noteq> [] \<and>
     list_all (\<lambda>g. case g_verify g of None \<Rightarrow> True | Some ss \<Rightarrow> ss \<noteq> [] \<and> list_all canonical_step ss) (w_gates w)"

lemma canonical_step_kept: "canonical_step s \<Longrightarrow> tidy_step (migrate_step s) = s"
  by (cases s, cases "st_optionalLabel s"; cases "st_label s")
    (auto simp: canonical_step_def tidy_step_def migrate_step_def split_label_def Let_def)

lemma canonical_kept:
  assumes "canonical w"
  shows "tidy (migrate w) = w\<lparr>w_createdAt := Fin 0, w_updatedAt := Fin 0\<rparr>"
proof -
  have "tidy_gate (migrate_gate g) = g" if "g \<in> set (w_gates w)" for g
  proof (cases "g_verify g")
    case None
    then show ?thesis by (cases g) (simp add: tidy_gate_def migrate_gate_def)
  next
    case (Some ss)
    then have "ss \<noteq> []" "\<forall>s \<in> set ss. canonical_step s" using assms that by (auto simp: canonical_def list_all_iff)
    then have "map (tidy_step \<circ> migrate_step) ss = ss" by (intro map_idI) (simp add: canonical_step_kept)
    with Some \<open>ss \<noteq> []\<close> show ?thesis by (cases g) (simp add: tidy_gate_def migrate_gate_def)
  qed
  then have "map (tidy_gate \<circ> migrate_gate) (w_gates w) = w_gates w" by (intro map_idI) simp
  then show ?thesis by (cases w) (simp add: tidy_def migrate_def)
qed

lemma wf_get_put:
  assumes "block_ok st" and "canonical w" and "wf_put w st = Inr st'"
  shows "wf_get (w_id w) st' = Inr (Some (w\<lparr>w_createdAt := Fin 0, w_updatedAt := Fin 0\<rparr>))"
    "k \<noteq> w_id w \<Longrightarrow> wf_get k st' = wf_get k st"
proof -
  have id: "w_id w \<noteq> []" using assms(2) by (simp add: canonical_def)
  have ok: "block_ok st'" using block_ok_put [OF assms(1) id assms(3)] .
  have st': "wfs_block st' = Some (AList.update (w_id w) (serializeWorkflow (migrate w)) (or_empty (wfs_block st)))"
    "wfs_builtins st' = wfs_builtins st"
    using assms(3) wf_put_result [OF id, of st] by auto
  have get: "wf_get j s = Inr (case map_of (or_empty (wfs_block s)) j of
      None \<Rightarrow> map_of (wfs_builtins s) j | Some raw \<Rightarrow> Some (snd (entry_of (j, raw))))" if "block_ok s" for s j
    using that by (simp add: wf_get_def readLocal_def block_ok_def read_entries_ok map_of_entry split: option.split)
  have "snd (entry_of (w_id w, serializeWorkflow (migrate w))) = w\<lparr>w_createdAt := Fin 0, w_updatedAt := Fin 0\<rparr>"
    using canonical_kept [OF assms(2)] id by (simp add: entry_of_def normalizeWorkflow_serialize)
  then show "wf_get (w_id w) st' = Inr (Some (w\<lparr>w_createdAt := Fin 0, w_updatedAt := Fin 0\<rparr>))"
    using ok st' by (simp add: get [OF ok])
  show "k \<noteq> w_id w \<Longrightarrow> wf_get k st' = wf_get k st"
    using ok st' by (simp add: get [OF ok] get [OF assms(1)] split: option.split)
qed

text \<open>
  Saving and reading back: a canonical workflow that is put is read back as it was, except that
  both of its time stamps read 0, because they are never written; the workflows under other ids are
  untouched, and the block stays well formed.
\<close>

theorem put_then_get:
  assumes "block_ok st" and "canonical w" and "wf_put w st = Inr st'"
  shows "wf_get (w_id w) st' = Inr (Some (w\<lparr>w_createdAt := Fin 0, w_updatedAt := Fin 0\<rparr>)) \<and>
    (k \<noteq> w_id w \<longrightarrow> wf_get k st' = wf_get k st) \<and> block_ok st'"
  using wf_get_put [OF assms] block_ok_put [OF assms(1) _ assms(3)] assms(2) by (simp add: canonical_def)

definition merge_updates :: "rat \<Rightarrow> workflow_updates \<Rightarrow> workflow \<Rightarrow> workflow" where
  "merge_updates now u w = w\<lparr>w_name := or_old (wu_name u) (w_name w),
     w_description := or_old (wu_description u) (w_description w),
     w_gates := or_old (wu_gates u) (w_gates w), w_hidden := or_old (wu_hidden u) (w_hidden w), w_updatedAt := Fin now\<rparr>"

text \<open>
  An update of a workflow that exists, locally or built in, succeeds and is visible: reading the
  workflow returns the old one with the given fields replaced, no other workflow changes, and the
  built-ins stay as they are. The time of the update is lost.
\<close>

theorem update_visible:
  assumes "block_ok st" and "wf_get k st = Inr (Some w)" and "w_id w = k" and "canonical (merge_updates now u w)"
    and "wf_update now k u st = Inr (done, st')"
  shows "done \<and> wfs_builtins st' = wfs_builtins st \<and>
    wf_get k st' = Inr (Some ((merge_updates now u w)\<lparr>w_createdAt := Fin 0, w_updatedAt := Fin 0\<rparr>)) \<and>
    (j \<noteq> k \<longrightarrow> wf_get j st' = wf_get j st)"
proof -
  obtain loc where loc: "readLocal st = Inr loc"
    "(case map_of loc k of Some w \<Rightarrow> Some w | None \<Rightarrow> map_of (wfs_builtins st) k) = Some w"
    using assms(2) by (auto simp: wf_get_def bind_res_Inr)
  have id: "w_id (merge_updates now u w) = k" using assms(3) by (simp add: merge_updates_def)
  have put: "done" "wf_put (merge_updates now u w) st = Inr st'"
    using assms(5) loc by (auto simp: wf_update_def merge_updates_def bind_res_Inr)
  have "k \<noteq> []" using assms(4) id by (simp add: canonical_def)
  then have "wfs_builtins st' = wfs_builtins st"
    using put(2) wf_put_result [of "merge_updates now u w" st] id by auto
  with put wf_get_put [OF assms(1,4) put(2)] id show ?thesis by simp
qed

text \<open>
  C33: what a saved definition means does not depend on how it was written: whatever object is
  normalized to a workflow, legacy aliases included, saving that workflow and reading it back gives
  it again, with its time stamps cleared, empty step lists dropped and empty toggle labels dropped.
\<close>

theorem normalize_roundtrip:
  assumes "normalizeWorkflow raw hint = Inr (Some w)"
  shows "normalizeWorkflow (serializeWorkflow w) hint' = Inr (Some (tidy w)) \<and>
    w_id (tidy w) = w_id w \<and> map g_id (w_gates (tidy w)) = map g_id (w_gates w) \<and>
    map g_dependsOn (w_gates (tidy w)) = map g_dependsOn (w_gates w) \<and>
    tidy (tidy w) = tidy w"
proof -
  have "w_id w \<noteq> []"
    using assms by (auto simp: normalizeWorkflow_def Let_def bind_res_Inr split: option.splits if_splits)
  moreover have "tidy_step (tidy_step s) = tidy_step s" for s
    by (simp add: tidy_step_def)
  then have "tidy_gate (tidy_gate g) = tidy_gate g" for g by (simp add: tidy_gate_def)
  then have "tidy (tidy w) = tidy w" by (simp add: tidy_def)
  moreover have "g_id (tidy_gate g) = g_id g" "g_dependsOn (tidy_gate g) = g_dependsOn g" for g
    by (simp_all add: tidy_gate_def)
  then have "map g_id (w_gates (tidy w)) = map g_id (w_gates w)"
    "map g_dependsOn (w_gates (tidy w)) = map g_dependsOn (w_gates w)" by (simp_all add: tidy_def)
  ultimately show ?thesis by (simp add: normalizeWorkflow_serialize)
qed

definition demo_raw :: js where
  "demo_raw = JObj [(''id'', JStr ''w''), (''gates'', JArr [JObj [(''id'', JStr ''b''), (''name'', JStr ''B''),
     (''depends_on'', JArr [JStr ''a'']), (''verify'', JArr [JObj [(''name'', JStr ''s''), (''optional'', JBool True),
        (''label'', JStr ''L''), (''run'', JStr ''make'')]])]])]"

definition demo_vstep :: verify_step where
  "demo_vstep = \<lparr>st_name = ''s'', st_type = Command, st_run = Some ''make'', st_prompt = None, st_expect = None,
     st_timeout = None, st_phase = None, st_optional = True, st_label = None, st_optionalLabel = Some ''L'',
     st_role = None, st_description = None, st_failureGuidance = None, st_component = None, st_command = None,
     st_subgoal = None\<rparr>"

definition demo_gate :: gate where
  "demo_gate = \<lparr>g_id = ''b'', g_name = ''B'', g_dependsOn = [JStr ''a''], g_content = False, g_injectDownstream = False,
     g_optional = False, g_manual = False, g_metadata = None, g_verify = Some [demo_vstep]\<rparr>"

definition demo_workflow :: workflow where
  "demo_workflow = \<lparr>w_id = ''w'', w_name = ''w'', w_description = [], w_gates = [demo_gate],
     w_createdAt = Fin 0, w_updatedAt = Fin 0, w_hidden = False\<rparr>"

lemma demo_normalized: "normalizeWorkflow demo_raw [] = Inr (Some demo_workflow)"
  by (simp add: normalizeWorkflow_def demo_raw_def normalizeGate_def normalizeStep_def demo_workflow_def demo_gate_def
      demo_vstep_def Let_def str_or_def read_step_type_def split_label_def)

lemma demo_canonical: "canonical demo_workflow" "canonical (merge_updates n \<lparr>wu_name = Some ''x'', wu_description = None,
    wu_gates = None, wu_hidden = Some True\<rparr> demo_workflow)"
  by (simp_all add: canonical_def canonical_step_def demo_workflow_def demo_gate_def demo_vstep_def merge_updates_def or_old_def)

lemma normalize_roundtrip_witness:
  "normalizeWorkflow (serializeWorkflow demo_workflow) [] = Inr (Some (tidy demo_workflow)) \<and> w_id (tidy demo_workflow) = ''w''"
  using normalize_roundtrip [OF demo_normalized] by (simp add: demo_workflow_def)

definition empty_store :: workflow_store where
  "empty_store = \<lparr>wfs_block = None, wfs_builtins = [(''w'', demo_workflow\<lparr>w_createdAt := Fin 5\<rparr>)]\<rparr>"

lemma empty_store_ok: "block_ok empty_store"
  by (simp add: block_ok_def empty_store_def)

lemma put_then_get_witness:
  "\<exists>st'. wf_put demo_workflow empty_store = Inr st' \<and> wf_get ''w'' st' = Inr (Some demo_workflow) \<and>
     wf_get ''v'' st' = Inr None"
proof -
  obtain st' where st': "wf_put demo_workflow empty_store = Inr st'"
    by (simp add: wf_put_result demo_workflow_def)
  have "wf_get ''v'' empty_store = Inr None" by (simp add: wf_get_def readLocal_def empty_store_def)
  with put_then_get [OF empty_store_ok demo_canonical(1) st', of "''v''"] st' show ?thesis
    by (simp add: demo_workflow_def)
qed

lemma update_visible_witness:
  "\<exists>st' w. wf_update 9 ''w'' \<lparr>wu_name = Some ''x'', wu_description = None, wu_gates = None, wu_hidden = Some True\<rparr> empty_store
      = Inr (True, st') \<and> wf_get ''w'' st' = Inr (Some w) \<and> w_name w = ''x'' \<and> w_updatedAt w = Fin 0"
proof -
  let ?u = "\<lparr>wu_name = Some ''x'', wu_description = None, wu_gates = None, wu_hidden = Some True\<rparr>"
  let ?w = "demo_workflow\<lparr>w_createdAt := Fin 5\<rparr>"
  have get: "wf_get ''w'' empty_store = Inr (Some ?w)" by (simp add: wf_get_def readLocal_def empty_store_def)
  obtain st' where st': "wf_update 9 ''w'' ?u empty_store = Inr (True, st')"
    by (simp add: wf_update_def readLocal_def empty_store_def wf_put_result demo_workflow_def)
  have can: "canonical (merge_updates 9 ?u ?w)"
    by (simp add: canonical_def canonical_step_def demo_workflow_def demo_gate_def demo_vstep_def merge_updates_def or_old_def)
  have "w_id ?w = ''w''" by (simp add: demo_workflow_def)
  from update_visible [OF empty_store_ok get this can st', of "''v''"] st' show ?thesis
    by (simp add: merge_updates_def or_old_def)
qed

end
