(* ===== verification/Workflow_Validator.thy ===== *)
theory Workflow_Validator
  imports Workflow_Store Dep_Graph
begin

text \<open>
  Validation of untyped workflow definitions, \<open>src/src/server/agent/workflow-validator.ts\<close>: the
  shape of every field, the gate graph and the plan graph of the subgoals with their depth-first
  cycle checks, the component and command references with their spelling suggestions, and the
  frozen snapshot. An error message is a constructor with the data it mentions.
\<close>

section \<open>Errors\<close>

datatype step_fault =
    Step_not_object | Step_no_name | Step_string_field string | Step_optional | Step_expect
  | Step_timeout | Step_phase | Step_subgoal_missing | Step_subgoal_required string
  | Step_subgoal_string string | Step_subgoal_deps string | Step_subgoal_object

text \<open>The reasons of a \<open>WorkflowResolveError\<close>.\<close>

datatype resolve_reason =
    Optional_without_label | Removed_token string | Unknown_component string "string option"
  | Command_and_run | No_command_nor_run | Command_without_component
  | Unknown_command string string "string option"
  | Needs_prompt string | Signoff_needs_label | Unknown_type js

datatype workflow_error =
    Not_object | Missing_id | Bad_id | Missing_name | Bad_description | Bad_hidden
  | Bad_timestamp string | No_gates | Gate_not_object nat | Gate_without_id | Gate_bad_id string
  | Duplicate_gate string | Gate_without_name string | Gate_deps_field string string
  | Gate_duplicate_deps string | Gate_bool_field string string | Gate_metadata string
  | Gate_verify string | Step_error string nat step_fault
  | Gate_self string | Gate_unknown_dep string string | Circular_gates string
  | Duplicate_plan string | Plan_self string | Plan_unknown_dep string string | Circular_plans string
  | Resolve_error string string nat string resolve_reason

definition fail_if :: "bool \<Rightarrow> 'e \<Rightarrow> 'e list" where
  "fail_if b e = (if b then [e] else [])"

lemma fail_if_Nil [simp]: "fail_if b e = [] \<longleftrightarrow> \<not> b"
  by (simp add: fail_if_def)

section \<open>Spelling suggestions\<close>

text \<open>
  One row of the table: \<open>prev\<close> from column \<open>j - 1\<close> on, \<open>left\<close> the cell just written.
\<close>

fun lev_cells :: "char \<Rightarrow> string \<Rightarrow> nat list \<Rightarrow> nat \<Rightarrow> nat list" where
  "lev_cells c (b # bs) (p # q # ps) left =
     (let x = min (min (left + 1) (q + 1)) (p + (if c = b then 0 else 1)) in
      x # lev_cells c bs (q # ps) x)"
| "lev_cells c _ _ left = []"

fun lev_rows :: "string \<Rightarrow> string \<Rightarrow> nat \<Rightarrow> nat list \<Rightarrow> nat list" where
  "lev_rows [] b i prev = prev"
| "lev_rows (c # cs) b i prev = lev_rows cs b (i + 1) (i # lev_cells c b prev i)"

definition levenshtein :: "string \<Rightarrow> string \<Rightarrow> nat" where
  "levenshtein a b =
     (if a = b then 0
      else if a = [] then length b
      else if b = [] then length a
      else lev_rows a b 1 [0..<length b + 1] ! length b)"

text \<open>The scan for the closest candidate; \<open>None\<close> stands for the infinite initial distance.\<close>

fun closest :: "string \<Rightarrow> string list \<Rightarrow> (string \<times> nat) option \<Rightarrow> (string \<times> nat) option" where
  "closest value [] best = best"
| "closest value (c # cs) best =
     (let d = levenshtein (js_lower value) (js_lower c) in
      closest value cs
        (case best of None \<Rightarrow> Some (c, d) | Some (b, bd) \<Rightarrow> if d < bd then Some (c, d) else best))"

definition suggest :: "string \<Rightarrow> string list \<Rightarrow> string option" where
  "suggest value candidates =
     (case closest value candidates None of
        None \<Rightarrow> None
      | Some (b, bd) \<Rightarrow> if bd \<le> max 2 (length value div 3) then Some b else None)"

section \<open>Names\<close>

definition id_char :: "char \<Rightarrow> bool" where
  "id_char c = (let n = of_char c :: nat in (97 \<le> n \<and> n \<le> 122) \<or> (48 \<le> n \<and> n \<le> 57))"

text \<open>\<open>WORKFLOW_ID_PATTERN\<close>: letters, digits and inner hyphens.\<close>

definition workflow_id_ok :: "string \<Rightarrow> bool" where
  "workflow_id_ok s =
     (s \<noteq> [] \<and> id_char (hd s) \<and> id_char (last s) \<and> list_all (\<lambda>c. id_char c \<or> c = CHR ''-'') s)"

fun workflowLabel :: "js \<Rightarrow> string" where
  "workflowLabel (JObj r) =
     (case as_string (js_prop r ''id'') of Some s \<Rightarrow> if s \<noteq> [] then s else ''(anonymous)'' | None \<Rightarrow> ''(anonymous)'')"
| "workflowLabel _ = ''(anonymous)''"

definition gateDependencies :: "(string \<times> js) list \<Rightarrow> js" where
  "gateDependencies g =
     (if is_array (js_prop g ''depends_on'') then js_prop g ''depends_on'' else js_prop g ''dependsOn'')"

text \<open>\<open>{{ project.token }}\<close> at the start of a string, and anywhere in it.\<close>

definition token_here :: "string \<Rightarrow> string option" where
  "token_here s =
     (if starts_with ''{{'' s then
        let body = dropWhile js_space (drop 2 s) in
        if starts_with ''project.'' body then
          let rest = drop 8 body;
              tok = takeWhile (\<lambda>c. c \<noteq> CHR ''}'' \<and> \<not> js_space c) rest;
              after = dropWhile js_space (drop (length tok) rest) in
          if tok \<noteq> [] \<and> starts_with ''}}'' after then Some tok else None
        else None
      else None)"

fun find_token :: "string \<Rightarrow> string option" where
  "find_token [] = None"
| "find_token (c # cs) = (case token_here (c # cs) of Some t \<Rightarrow> Some t | None \<Rightarrow> find_token cs)"

fun projectTokenIn :: "js \<Rightarrow> string option" where
  "projectTokenIn (JStr s) = find_token s"
| "projectTokenIn _ = None"

section \<open>Step semantics and component references\<close>

record component_ref =
  c_name :: string
  c_commands :: "string list option" \<comment> \<open>the keys of \<open>commands\<close>\<close>

text \<open>\<open>k in o\<close> also finds what a plain object inherits from \<open>Object.prototype\<close>.\<close>

definition prototype_names :: "string list" where
  "prototype_names = [''constructor'', ''__defineGetter__'', ''__defineSetter__'', ''hasOwnProperty'',
     ''__lookupGetter__'', ''__lookupSetter__'', ''isPrototypeOf'', ''propertyIsEnumerable'',
     ''toString'', ''valueOf'', ''__proto__'', ''toLocaleString'']"

definition in_object :: "string \<Rightarrow> string list \<Rightarrow> bool" where
  "in_object k keys = (k \<in> set keys \<or> k \<in> set prototype_names)"

definition find_component :: "string \<Rightarrow> component_ref list \<Rightarrow> component_ref option" where
  "find_component n cs = find (\<lambda>c. c_name c = n) (rev cs)"

definition command_reference :: "component_ref list \<Rightarrow> string \<Rightarrow> string \<Rightarrow> resolve_reason list" where
  "command_reference cs cn cmd =
     (case find_component cn cs of
        None \<Rightarrow> []
      | Some c \<Rightarrow>
        let available = or_empty (c_commands c) in
        fail_if (c_commands c = None \<or> \<not> in_object cmd available)
          (Unknown_command (c_name c) cmd (suggest cmd available)))"

text \<open>
  The checks of one step; an error that ends the step's checks (\<open>continue\<close>) is the last of its list.
\<close>

definition command_step :: "bool \<Rightarrow> component_ref list \<Rightarrow> (string \<times> js) list \<Rightarrow> resolve_reason list" where
  "command_step refs cs st =
     (let hasComponent = isNonEmptyString (js_prop st ''component'');
          hasCommand = isNonEmptyString (js_prop st ''command'');
          hasRun = isNonEmptyString (js_prop st ''run'') in
      if hasCommand \<and> hasRun then [Command_and_run]
      else if \<not> hasCommand \<and> \<not> hasRun then [No_command_nor_run]
      else if hasCommand \<and> \<not> hasComponent then [Command_without_component]
      else if refs \<and> hasComponent \<and> hasCommand
      then command_reference cs (str_or [] (js_prop st ''component'')) (str_or [] (js_prop st ''command''))
      else [])"

definition typed_step :: "bool \<Rightarrow> component_ref list \<Rightarrow> (string \<times> js) list \<Rightarrow> resolve_reason list" where
  "typed_step refs cs st =
     (let ty = (if js_prop st ''type'' = JUndefined \<or> js_prop st ''type'' = JNull then JStr ''command''
                else js_prop st ''type'') in
      if ty = JStr ''command'' then command_step refs cs st
      else if ty = JStr ''llm-review'' \<or> ty = JStr ''agent-qa''
      then fail_if (\<not> isNonEmptyString (js_prop st ''prompt'')) (Needs_prompt (str_or [] ty))
      else if ty = JStr ''human-signoff''
      then fail_if (\<not> isNonEmptyString (js_prop st ''prompt'')) (Needs_prompt ''human-signoff'') @
           fail_if (\<not> isNonEmptyString (js_prop st ''label'')) Signoff_needs_label
      else if ty \<noteq> JStr ''subgoal'' then [Unknown_type ty] else [])"

definition step_reasons :: "bool \<Rightarrow> component_ref list \<Rightarrow> (string \<times> js) list \<Rightarrow> resolve_reason list" where
  "step_reasons refs cs st =
     fail_if (js_prop st ''optional'' = JBool True \<and> \<not> js_truthy (js_prop st ''optionalLabel'') \<and>
        \<not> js_truthy (js_prop st ''label'')) Optional_without_label @
     (case (case projectTokenIn (js_prop st ''run'') of Some t \<Rightarrow> Some t | None \<Rightarrow> projectTokenIn (js_prop st ''prompt'')) of
        Some t \<Rightarrow> [Removed_token t]
      | None \<Rightarrow>
        let cn = str_or [] (js_prop st ''component'') in
        if refs \<and> isNonEmptyString (js_prop st ''component'') \<and> find_component cn cs = None
        then [Unknown_component cn (suggest cn (map c_name cs))]
        else typed_step refs cs st)"

fun resolve_steps :: "bool \<Rightarrow> component_ref list \<Rightarrow> string \<Rightarrow> string \<Rightarrow> nat \<Rightarrow> js list \<Rightarrow> workflow_error list" where
  "resolve_steps refs cs w g i [] = []"
| "resolve_steps refs cs w g i (v # vs) =
     (case v of
        JObj st \<Rightarrow> map (Resolve_error w g i (str_or [] (js_prop st ''name''))) (step_reasons refs cs st)
      | _ \<Rightarrow> []) @ resolve_steps refs cs w g (i + 1) vs"

fun resolve_gate :: "bool \<Rightarrow> component_ref list \<Rightarrow> string \<Rightarrow> js \<Rightarrow> workflow_error list" where
  "resolve_gate refs cs w (JObj g) =
     resolve_steps refs cs w (workflowLabel (JObj g)) 0 (elements (js_prop g ''verify''))"
| "resolve_gate refs cs w _ = []"

definition validateWorkflowSteps :: "(string \<times> js) list \<Rightarrow> component_ref list \<Rightarrow> bool \<Rightarrow> workflow_error list" where
  "validateWorkflowSteps r cs refs =
     concat (map (resolve_gate refs cs (workflowLabel (JObj r))) (elements (js_prop r ''gates'')))"

section \<open>The shape of a definition\<close>

definition bad_string_array :: "js \<Rightarrow> bool" where
  "bad_string_array v = (v \<noteq> JUndefined \<and> \<not> isStringArray v)"

fun nonneg_number :: "js \<Rightarrow> bool" where
  "nonneg_number (JNum (Fin q)) = (q \<ge> 0)"
| "nonneg_number _ = False"

fun whole_number :: "rat \<Rightarrow> js \<Rightarrow> bool" where
  "whole_number least (JNum (Fin q)) = (q = of_int \<lfloor>q\<rfloor> \<and> q \<ge> least)"
| "whole_number least _ = False"

text \<open>The subgoals that take part in the plan graph.\<close>

record plan_node =
  p_gate :: string
  p_step :: nat
  p_id :: string
  p_deps :: "string list"

definition subgoal_deps :: "(string \<times> js) list \<Rightarrow> js" where
  "subgoal_deps sg =
     (if is_array (js_prop sg ''dependsOn'') then js_prop sg ''dependsOn''
      else if is_array (js_prop sg ''depends_on'') then js_prop sg ''depends_on'' else JArr [])"

definition subgoal_faults :: "(string \<times> js) list \<Rightarrow> step_fault list" where
  "subgoal_faults sg =
     concat (map (\<lambda>k. fail_if (\<not> isNonEmptyString (js_prop sg k)) (Step_subgoal_required k))
       [''planId'', ''title'', ''spec'']) @
     concat (map (\<lambda>k. fail_if (js_prop sg k \<noteq> JUndefined \<and> \<not> is_string (js_prop sg k)) (Step_subgoal_string k))
       [''workflowId'', ''workflow_id'', ''suggestedRole'', ''suggested_role'']) @
     concat (map (\<lambda>k. fail_if (bad_string_array (js_prop sg k)) (Step_subgoal_deps k))
       [''dependsOn'', ''depends_on''])"

definition step_type_of :: "(string \<times> js) list \<Rightarrow> js" where
  "step_type_of st = (if js_prop st ''type'' = JUndefined then JStr ''command'' else js_prop st ''type'')"

definition step_faults :: "(string \<times> js) list \<Rightarrow> step_fault list" where
  "step_faults st =
     fail_if (\<not> isNonEmptyString (js_prop st ''name'')) Step_no_name @
     concat (map (\<lambda>k. fail_if (js_prop st k \<noteq> JUndefined \<and> \<not> is_string (js_prop st k)) (Step_string_field k))
       [''run'', ''prompt'', ''role'', ''label'', ''optionalLabel'', ''description'', ''failureGuidance'',
        ''component'', ''command'']) @
     fail_if (js_prop st ''optional'' \<noteq> JUndefined \<and> \<not> is_bool (js_prop st ''optional'')) Step_optional @
     fail_if (js_prop st ''expect'' \<noteq> JUndefined \<and> js_prop st ''expect'' \<noteq> JStr ''success'' \<and>
        js_prop st ''expect'' \<noteq> JStr ''failure'') Step_expect @
     fail_if (js_prop st ''timeout'' \<noteq> JUndefined \<and> \<not> whole_number 1 (js_prop st ''timeout'')) Step_timeout @
     fail_if (js_prop st ''phase'' \<noteq> JUndefined \<and> \<not> whole_number 0 (js_prop st ''phase'')) Step_phase @
     (if step_type_of st = JStr ''subgoal'' then
        (case js_prop st ''subgoal'' of JObj sg \<Rightarrow> subgoal_faults sg | _ \<Rightarrow> [Step_subgoal_missing])
      else
        (case js_prop st ''subgoal'' of JUndefined \<Rightarrow> [] | JObj _ \<Rightarrow> [] | _ \<Rightarrow> [Step_subgoal_object]))"

definition step_plan :: "string \<Rightarrow> nat \<Rightarrow> (string \<times> js) list \<Rightarrow> plan_node list" where
  "step_plan g i st =
     (if step_type_of st = JStr ''subgoal'' then
        (case js_prop st ''subgoal'' of
           JObj sg \<Rightarrow>
             if isNonEmptyString (js_prop sg ''planId'') \<and> isStringArray (subgoal_deps sg)
             then [\<lparr>p_gate = g, p_step = i, p_id = str_or [] (js_prop sg ''planId''),
                    p_deps = js_strings (elements (subgoal_deps sg))\<rparr>] else []
         | _ \<Rightarrow> [])
      else [])"

fun check_steps :: "string \<Rightarrow> nat \<Rightarrow> js list \<Rightarrow> workflow_error list \<times> plan_node list" where
  "check_steps g i [] = ([], [])"
| "check_steps g i (v # vs) =
     (case check_steps g (i + 1) vs of
        (es, ps) \<Rightarrow>
          (case v of
             JObj st \<Rightarrow> (map (Step_error g i) (step_faults st) @ es, step_plan g i st @ ps)
           | _ \<Rightarrow> (Step_error g i Step_not_object # es, ps)))"

definition gate_label :: "nat \<Rightarrow> (string \<times> js) list \<Rightarrow> string" where
  "gate_label n g =
     (if isNonEmptyString (js_prop g ''id'') then str_or [] (js_prop g ''id'')
      else ''(gate '' @ decimal (n + 1) @ '')'')"

definition id_faults :: "string list \<Rightarrow> (string \<times> js) list \<Rightarrow> workflow_error list" where
  "id_faults ids g =
     (let i = str_or [] (js_prop g ''id'') in
      if \<not> isNonEmptyString (js_prop g ''id'') then [Gate_without_id]
      else if \<not> workflow_id_ok i then [Gate_bad_id i]
      else if i \<in> set ids then [Duplicate_gate i] else [])"

definition add_id :: "string list \<Rightarrow> (string \<times> js) list \<Rightarrow> string list" where
  "add_id ids g = (if id_faults ids g = [] then str_or [] (js_prop g ''id'') # ids else ids)"

definition metadata_ok :: "js \<Rightarrow> bool" where
  "metadata_ok v = (case v of JUndefined \<Rightarrow> True | JObj fs \<Rightarrow> list_all (\<lambda>(k, x). is_string x) fs | _ \<Rightarrow> False)"

definition gate_faults :: "string \<Rightarrow> (string \<times> js) list \<Rightarrow> workflow_error list" where
  "gate_faults label g =
     fail_if (\<not> isNonEmptyString (js_prop g ''name'')) (Gate_without_name label) @
     concat (map (\<lambda>k. fail_if (bad_string_array (js_prop g k)) (Gate_deps_field label k)) [''dependsOn'', ''depends_on'']) @
     fail_if (isStringArray (gateDependencies g) \<and> \<not> distinct (elements (gateDependencies g))) (Gate_duplicate_deps label) @
     concat (map (\<lambda>k. fail_if (js_prop g k \<noteq> JUndefined \<and> \<not> is_bool (js_prop g k)) (Gate_bool_field label k))
       [''content'', ''injectDownstream'', ''inject_downstream'', ''optional'', ''manual'']) @
     fail_if (\<not> metadata_ok (js_prop g ''metadata'')) (Gate_metadata label)"

text \<open>The loop over the gates: its errors, the set \<open>ids\<close> it leaves, and the plan nodes.\<close>

fun check_gates :: "nat \<Rightarrow> string list \<Rightarrow> js list \<Rightarrow> workflow_error list \<times> string list \<times> plan_node list" where
  "check_gates n ids [] = ([], ids, [])"
| "check_gates n ids (v # vs) =
     (case v of
        JObj g \<Rightarrow>
          let label = gate_label n g;
              own = id_faults ids g @ gate_faults label g;
              (ses, sps) = (case js_prop g ''verify'' of
                              JUndefined \<Rightarrow> ([], [])
                            | JArr steps \<Rightarrow> check_steps label 0 steps
                            | _ \<Rightarrow> ([Gate_verify label], []));
              (es, ids', ps) = check_gates (n + 1) (add_id ids g) vs in
          (own @ ses @ es, ids', sps @ ps)
      | _ \<Rightarrow>
          let (es, ids', ps) = check_gates (n + 1) ids vs in (Gate_not_object n # es, ids', ps))"

section \<open>The graphs\<close>

lemma card_path:
  "i \<in> set keys \<Longrightarrow> i \<notin> set visiting \<Longrightarrow> card (set keys - set (i # visiting)) < card (set keys - set visiting)"
  by (rule psubset_card_mono) auto

text \<open>
  \<open>visit\<close> of all the given ids in order. Ids that are no nodes are skipped; \<open>visiting\<close> is the path
  of open calls, since each call removes its own id when it returns normally; an exception leaves all
  of them.
\<close>

function visit_all :: "string list \<Rightarrow> (string \<Rightarrow> string list) \<Rightarrow> string list \<Rightarrow> string list \<Rightarrow> string list \<Rightarrow>
    string + string list" where
  "visit_all keys deps visiting [] visited = Inr visited"
| "visit_all keys deps visiting (i # is) visited =
     (if i \<notin> set keys \<or> i \<in> set visited then visit_all keys deps visiting is visited
      else if i \<in> set visiting then Inl i
      else
        (case visit_all keys deps (i # visiting) (deps i) visited of
           Inl e \<Rightarrow> Inl e
         | Inr visited' \<Rightarrow> visit_all keys deps visiting is (i # visited')))"
  by pat_completeness auto
termination
proof (relation "measures [\<lambda>(keys, deps, visiting, is, visited). card (set keys - set visiting),
        \<lambda>(keys, deps, visiting, is, visited). length is]", goal_cases)
  case (3 keys deps visiting i "is" visited)
  then show ?case using card_path [of i keys visiting] by simp
qed simp_all

definition circular :: "(string \<Rightarrow> 'e) \<Rightarrow> string list \<Rightarrow> (string \<Rightarrow> string list) \<Rightarrow> 'e list" where
  "circular err keys deps =
     (case visit_all keys deps [] keys [] of Inl i \<Rightarrow> [err i] | Inr _ \<Rightarrow> [])"

text \<open>The gates with an id, and the gate the map holds for an id: the last one.\<close>

definition gate_records :: "js list \<Rightarrow> (string \<times> (string \<times> js) list) list" where
  "gate_records gs =
     map (\<lambda>g. (str_or [] (js_prop g ''id''), g))
       (filter (\<lambda>g. isNonEmptyString (js_prop g ''id'')) (List.map_filter as_object gs))"

definition string_deps :: "(string \<times> js) list \<Rightarrow> string list" where
  "string_deps g = (if isStringArray (gateDependencies g) then js_strings (elements (gateDependencies g)) else [])"

definition gate_map_deps :: "js list \<Rightarrow> string \<Rightarrow> string list" where
  "gate_map_deps gs i = (case map_of (rev (gate_records gs)) i of None \<Rightarrow> [] | Some g \<Rightarrow> string_deps g)"

definition ref_faults :: "('e list) \<Rightarrow> (string \<Rightarrow> 'e) \<Rightarrow> string list \<Rightarrow> string \<Rightarrow> string list \<Rightarrow> 'e list" where
  "ref_faults self unknown ids i ds =
     concat (map (\<lambda>d. if d = i then self else fail_if (d \<notin> set ids) (unknown d)) ds)"

definition gate_graph_errors :: "js list \<Rightarrow> string list \<Rightarrow> workflow_error list" where
  "gate_graph_errors gs ids =
     concat (map (\<lambda>(i, g). ref_faults [Gate_self i] (Gate_unknown_dep i) ids i (string_deps g)) (gate_records gs)) @
     circular Circular_gates (js_uniq (map fst (gate_records gs))) (gate_map_deps gs)"

fun duplicate_plans :: "plan_node list \<Rightarrow> string list \<Rightarrow> workflow_error list" where
  "duplicate_plans [] seen = []"
| "duplicate_plans (p # ps) seen =
     fail_if (p_id p \<in> set seen) (Duplicate_plan (p_id p)) @ duplicate_plans ps (p_id p # seen)"

definition plan_map_deps :: "plan_node list \<Rightarrow> string \<Rightarrow> string list" where
  "plan_map_deps ps i = (case map_of (rev (map (\<lambda>p. (p_id p, p_deps p)) ps)) i of None \<Rightarrow> [] | Some ds \<Rightarrow> ds)"

definition plan_graph_errors :: "plan_node list \<Rightarrow> workflow_error list" where
  "plan_graph_errors ps =
     duplicate_plans ps [] @
     concat (map (\<lambda>p. ref_faults [Plan_self (p_id p)] (Plan_unknown_dep (p_id p)) (map p_id ps) (p_id p) (p_deps p)) ps) @
     circular Circular_plans (js_uniq (map p_id ps)) (plan_map_deps ps)"

section \<open>Validation\<close>

definition head_errors :: "(string \<times> js) list \<Rightarrow> workflow_error list" where
  "head_errors r =
     (if \<not> isNonEmptyString (js_prop r ''id'') then [Missing_id]
      else fail_if (\<not> workflow_id_ok (str_or [] (js_prop r ''id''))) Bad_id) @
     fail_if (\<not> isNonEmptyString (js_prop r ''name'')) Missing_name @
     fail_if (js_prop r ''description'' \<noteq> JUndefined \<and> \<not> is_string (js_prop r ''description'')) Bad_description @
     fail_if (js_prop r ''hidden'' \<noteq> JUndefined \<and> \<not> is_bool (js_prop r ''hidden'')) Bad_hidden @
     concat (map (\<lambda>k. fail_if (js_prop r k \<noteq> JUndefined \<and> \<not> nonneg_number (js_prop r k)) (Bad_timestamp k))
       [''createdAt'', ''updatedAt''])"

definition validateWorkflowDefinition :: "js \<Rightarrow> component_ref list \<Rightarrow> bool \<Rightarrow> workflow_error list" where
  "validateWorkflowDefinition raw cs refs =
     (case raw of
        JObj r \<Rightarrow>
          (case elements (js_prop r ''gates'') of
             [] \<Rightarrow> head_errors r @ [No_gates]
           | gs \<Rightarrow>
             (case check_gates 0 [] gs of
                (es, ids, ps) \<Rightarrow>
                  head_errors r @ es @ gate_graph_errors gs ids @ plan_graph_errors ps @ validateWorkflowSteps r cs refs))
      | _ \<Rightarrow> [Not_object])"

definition validateWorkflow :: "js \<Rightarrow> component_ref list \<Rightarrow> workflow_error list" where
  "validateWorkflow w cs = validateWorkflowDefinition w cs True"

definition assertValidWorkflowDefinition :: "js \<Rightarrow> component_ref list \<Rightarrow> bool \<Rightarrow> workflow_error + unit" where
  "assertValidWorkflowDefinition raw cs refs =
     (case validateWorkflowDefinition raw cs refs of [] \<Rightarrow> Inr () | e # _ \<Rightarrow> Inl e)"

datatype freeze_error = Invalid workflow_error | Malformed wf_error | Invalid_definition

definition freezeWorkflowDefinition :: "js \<Rightarrow> component_ref list \<Rightarrow> string \<Rightarrow> bool \<Rightarrow> freeze_error + workflow" where
  "freezeWorkflowDefinition raw cs idHint refs =
     (case assertValidWorkflowDefinition raw cs refs of
        Inl e \<Rightarrow> Inl (Invalid e)
      | Inr _ \<Rightarrow>
        (case normalizeWorkflow raw idHint of
           Inl e \<Rightarrow> Inl (Malformed e)
         | Inr None \<Rightarrow> Inl Invalid_definition
         | Inr (Some w) \<Rightarrow> Inr w))"

definition enrich :: "string \<times> (string \<times> js) list \<Rightarrow> js" where
  "enrich e = JObj (if js_truthy (js_prop (snd e) ''id'') then snd e else AList.update ''id'' (JStr (fst e)) (snd e))"

definition validateAllWorkflows :: "(string \<times> (string \<times> js) list) list option \<Rightarrow> component_ref list \<Rightarrow> workflow_error list" where
  "validateAllWorkflows ws cs =
     concat (map (\<lambda>e. validateWorkflowDefinition (enrich e) cs True) (or_empty ws))"

end
