(* ===== verification/Child_Workflow.thy ===== *)
theory Child_Workflow
  imports Workflow_Store
begin

text \<open>
  Correctness of \<open>stripSubgoalStepsForChildInheritance\<close> (\<open>workflow-store.ts\<close>): the two
  breadth-first searches compute exactly the gates strictly between \<open>execution\<close> and
  \<open>ready-to-merge\<close>, and the workflow a child inherits is still a closed, acyclic graph.
\<close>

section \<open>The gate graph\<close>

definition gate_edges :: "gate list \<Rightarrow> (string \<times> string) set" where
  "gate_edges gs = {(g_id g, d) | g d. g \<in> set gs \<and> depends g d}"

definition gates_ok :: "gate list \<Rightarrow> bool" where
  "gates_ok gs \<longleftrightarrow> distinct (map g_id gs) \<and>
     list_all (\<lambda>g. list_all (\<lambda>d. d \<in> set (map (JStr \<circ> g_id) gs)) (g_dependsOn g)) gs"

definition between :: "gate list \<Rightarrow> string \<Rightarrow> bool" where
  "between gs i \<longleftrightarrow> (''ready-to-merge'', i) \<in> (gate_edges gs)\<^sup>+ \<and> (i, ''execution'') \<in> (gate_edges gs)\<^sup>+"

lemma gate_edgesI: "g \<in> set gs \<Longrightarrow> depends g d \<Longrightarrow> (g_id g, d) \<in> gate_edges gs"
  by (auto simp: gate_edges_def)

lemma find_gate_None: "find_gate i gs = None \<longleftrightarrow> i \<notin> g_id ` set gs"
  by (auto simp: find_gate_def find_None_iff)

lemma unique_gate:
  "distinct (map g_id gs) \<Longrightarrow> g \<in> set gs \<Longrightarrow> g' \<in> set gs \<Longrightarrow> g_id g' = g_id g \<Longrightarrow> g' = g"
  by (metis distinct_map inj_onD)

lemma unique_gate_edge:
  "distinct (map g_id gs) \<Longrightarrow> g \<in> set gs \<Longrightarrow> (g_id g, d) \<in> gate_edges gs \<longleftrightarrow> depends g d"
  unfolding gate_edges_def using unique_gate by blast

lemma find_gate_Some:
  assumes "distinct (map g_id gs)"
  shows "find_gate i gs = Some g \<longleftrightarrow> g \<in> set gs \<and> g_id g = i"
proof
  assume g: "g \<in> set gs \<and> g_id g = i"
  then obtain g' where g': "find_gate i gs = Some g'" by (metis find_gate_None imageI not_None_eq)
  with g assms find_gate_in [OF g'] show "find_gate i gs = Some g" by (auto simp: distinct_map inj_on_def)
qed (rule find_gate_in)

section \<open>The searches\<close>

lemma downstream_loop_marked: "set marked \<subseteq> set (downstream_loop gs marked queue)"
proof (induction gs marked queue rule: downstream_loop.induct)
  case (2 gs marked i queue)
  obtain m' q' where m': "mark_dependents gs i marked queue = (m', q')" by (rule prod.exhaust)
  with mark_dependents_spec [OF m'] 2 [OF m' [symmetric]] show ?case by auto
qed simp

lemma downstream_loop_closed:
  assumes "\<And>x g. x \<in> set marked \<Longrightarrow> x \<notin> set queue \<Longrightarrow> g \<in> set gs \<Longrightarrow> depends g x \<Longrightarrow> g_id g \<in> set marked"
    and "x \<in> set (downstream_loop gs marked queue)" and "g \<in> set gs" and "depends g x"
  shows "g_id g \<in> set (downstream_loop gs marked queue)"
  using assms
proof (induction gs marked queue rule: downstream_loop.induct)
  case (2 gs marked i queue)
  obtain m' q' where m': "mark_dependents gs i marked queue = (m', q')" by (rule prod.exhaust)
  from mark_dependents_spec [OF m'] obtain new where new: "m' = marked @ new" "q' = queue @ new"
    "set new = {g_id g | g. g \<in> set gs \<and> depends g i} - set marked" by blast
  have "g_id h \<in> set m'" if "y \<in> set m'" "y \<notin> set q'" "h \<in> set gs" "depends h y" for y h
  proof (cases "y = i")
    case True
    with that new show ?thesis by auto
  next
    case False
    then have "g_id h \<in> set marked" using that new by (intro 2(2)) auto
    with new show ?thesis by simp
  qed
  from 2(1) [OF m' [symmetric] this] m' 2(3-5) show ?case by simp
qed simp

lemma downstream_loop_within:
  assumes "set marked \<subseteq> S" and "set queue \<subseteq> S"
    and "\<And>x g. x \<in> S \<Longrightarrow> g \<in> set gs \<Longrightarrow> depends g x \<Longrightarrow> g_id g \<in> S"
  shows "set (downstream_loop gs marked queue) \<subseteq> S"
  using assms
proof (induction gs marked queue rule: downstream_loop.induct)
  case (2 gs marked i queue)
  obtain m' q' where m': "mark_dependents gs i marked queue = (m', q')" by (rule prod.exhaust)
  from mark_dependents_spec [OF m'] obtain new where new: "m' = marked @ new" "q' = queue @ new"
    "set new = {g_id g | g. g \<in> set gs \<and> depends g i} - set marked" by blast
  have "set new \<subseteq> S" using new(3) 2(3,4) by auto
  then have "set m' \<subseteq> S" "set q' \<subseteq> S" using new 2(2,3) by auto
  from 2(1) [OF m' [symmetric] this 2(4)] m' show ?case by simp
qed simp

lemma downstream_exact: "set (downstreamOfExec gs) = {x. (x, ''execution'') \<in> (gate_edges gs)\<^sup>+}"
proof
  let ?first = "map g_id (filter (\<lambda>g. depends g ''execution'') gs)"
  let ?S = "{x. (x, ''execution'') \<in> (gate_edges gs)\<^sup>+}"
  have "set ?first \<subseteq> ?S" by (auto intro: gate_edgesI)
  moreover have "g_id g \<in> ?S" if "x \<in> ?S" "g \<in> set gs" "depends g x" for x g
    using gate_edgesI [OF that(2,3)] that(1) by (auto intro: trancl_into_trancl2)
  ultimately show "set (downstreamOfExec gs) \<subseteq> ?S"
    unfolding downstreamOfExec_def Let_def by (intro downstream_loop_within) (auto simp del: set_map)
  have closed: "g_id g \<in> set (downstreamOfExec gs)"
    if "x \<in> set (downstreamOfExec gs)" "g \<in> set gs" "depends g x" for x g
    unfolding downstreamOfExec_def Let_def
    by (rule downstream_loop_closed [where x = x]) (use that in \<open>auto simp: downstreamOfExec_def Let_def\<close>)
  have first: "set ?first \<subseteq> set (downstreamOfExec gs)"
    using downstream_loop_marked [of "js_uniq ?first" gs ?first] by (simp add: downstreamOfExec_def Let_def)
  show "?S \<subseteq> set (downstreamOfExec gs)"
  proof
    fix x assume "x \<in> ?S"
    then have "(x, ''execution'') \<in> (gate_edges gs)\<^sup>+" by simp
    then show "x \<in> set (downstreamOfExec gs)"
    proof (induction rule: converse_trancl_induct)
      case (base y)
      with first show ?case by (auto simp: gate_edges_def)
    next
      case (step y z)
      then obtain g where "g \<in> set gs" "g_id g = y" "depends g z" by (auto simp: gate_edges_def)
      with closed [OF step(3)] show ?case by blast
    qed
  qed
qed

lemma upstream_loop_marked: "set marked \<subseteq> set (upstream_loop gs marked queue)"
proof (induction gs marked queue rule: upstream_loop.induct)
  case (2 gs marked i queue)
  obtain m' q' where m': "mark_new (gate_deps gs i) marked queue = (m', q')" by (rule prod.exhaust)
  with mark_new_spec [OF m'] 2 [OF m' [symmetric]] show ?case by auto
qed simp

lemma upstream_loop_closed:
  assumes "\<And>x. x \<in> set marked \<Longrightarrow> x \<notin> set queue \<Longrightarrow> set (gate_deps gs x) \<subseteq> set marked"
    and "x \<in> set (upstream_loop gs marked queue)"
  shows "set (gate_deps gs x) \<subseteq> set (upstream_loop gs marked queue)"
  using assms
proof (induction gs marked queue rule: upstream_loop.induct)
  case (2 gs marked i queue)
  obtain m' q' where m': "mark_new (gate_deps gs i) marked queue = (m', q')" by (rule prod.exhaust)
  from mark_new_spec [OF m'] obtain new where new: "m' = marked @ new" "q' = queue @ new"
    "set new = set (gate_deps gs i) - set marked" by blast
  have "set (gate_deps gs y) \<subseteq> set m'" if "y \<in> set m'" "y \<notin> set q'" for y
    using that new 2(2) [of y] by (cases "y = i") auto
  from 2(1) [OF m' [symmetric] this] m' 2(3) show ?case by simp
qed simp

lemma upstream_loop_within:
  assumes "set marked \<subseteq> S" and "set queue \<subseteq> S" and "\<And>x. x \<in> S \<Longrightarrow> set (gate_deps gs x) \<subseteq> S"
  shows "set (upstream_loop gs marked queue) \<subseteq> S"
  using assms
proof (induction gs marked queue rule: upstream_loop.induct)
  case (2 gs marked i queue)
  obtain m' q' where m': "mark_new (gate_deps gs i) marked queue = (m', q')" by (rule prod.exhaust)
  from mark_new_spec [OF m'] obtain new where new: "m' = marked @ new" "q' = queue @ new"
    "set new = set (gate_deps gs i) - set marked" by blast
  have "set m' \<subseteq> S" "set q' \<subseteq> S" using new 2(2,3) 2(4) [of i] by auto
  from 2(1) [OF m' [symmetric] this 2(4)] m' show ?case by simp
qed simp

lemma gates_ok_dep:
  assumes "gates_ok gs" and "g \<in> set gs" and "d \<in> set (g_dependsOn g)"
  shows "\<exists>i. d = JStr i \<and> i \<in> set (map g_id gs)"
proof -
  have "d \<in> set (map (JStr \<circ> g_id) gs)" using assms by (simp add: gates_ok_def list_all_iff)
  then show ?thesis by auto
qed

lemma gate_deps_edge:
  assumes "distinct (map g_id gs)"
  shows "JStr d \<in> set (gate_deps gs (JStr i)) \<longleftrightarrow> (i, d) \<in> gate_edges gs"
proof -
  have "distinct (map g_id (rev gs))" using assms by (simp add: rev_map [symmetric])
  note find = find_gate_Some [OF this, of i]
  show ?thesis
  proof (cases "find_gate i (rev gs)")
    case None
    then have "i \<notin> g_id ` set gs" using find_gate_None [of i "rev gs"] by simp
    with None show ?thesis by (auto simp: gate_edges_def)
  next
    case (Some g)
    then have g: "g \<in> set gs" "g_id g = i" using find by auto
    then have "(i, d) \<in> gate_edges gs \<longleftrightarrow> depends g d" using unique_gate_edge [OF assms] by blast
    with Some show ?thesis by (simp add: depends_def)
  qed
qed

lemma gate_deps_strings:
  assumes "gates_ok gs" and "d \<in> set (gate_deps gs x)"
  shows "\<exists>i. d = JStr i"
proof -
  obtain i g where "g \<in> set gs" "d \<in> set (g_dependsOn g)"
    using assms(2) gate_deps_all [of gs x] by (auto simp: all_deps_def)
  then show ?thesis using assms(1) by (auto simp: gates_ok_def list_all_iff)
qed

lemma upstream_exact:
  assumes ok: "gates_ok gs" and rtm: "find_gate ''ready-to-merge'' gs = Some rtm"
  shows "JStr x \<in> set (upstreamOfRtm gs) \<longleftrightarrow> (''ready-to-merge'', x) \<in> (gate_edges gs)\<^sup>+"
proof
  have d: "distinct (map g_id gs)" using ok by (simp add: gates_ok_def)
  note r = find_gate_in [OF rtm]
  let ?up = "upstreamOfRtm gs" and ?S = "JStr ` {x. (''ready-to-merge'', x) \<in> (gate_edges gs)\<^sup>+}"
  have up: "?up = upstream_loop gs (js_uniq (g_dependsOn rtm)) (g_dependsOn rtm)"
    using rtm by (simp add: upstreamOfRtm_def)
  have first: "JStr i \<in> set (g_dependsOn rtm) \<longleftrightarrow> (''ready-to-merge'', i) \<in> gate_edges gs" for i
    using unique_gate_edge [OF d, of rtm i] r by (simp add: depends_def)
  {
    have "set (g_dependsOn rtm) \<subseteq> ?S"
    proof
      fix j assume j: "j \<in> set (g_dependsOn rtm)"
      then obtain i where "j = JStr i" using ok r by (auto simp: gates_ok_def list_all_iff)
      with j first show "j \<in> ?S" by blast
    qed
    moreover have "set (gate_deps gs j) \<subseteq> ?S" if j: "j \<in> ?S" for j
    proof
      fix k assume k: "k \<in> set (gate_deps gs j)"
      obtain i where i: "j = JStr i" "(''ready-to-merge'', i) \<in> (gate_edges gs)\<^sup>+" using j by blast
      obtain i' where "k = JStr i'" using gate_deps_strings [OF ok k] by blast
      with k i gate_deps_edge [OF d] show "k \<in> ?S" by (auto intro: trancl_into_trancl)
    qed
    ultimately have "set ?up \<subseteq> ?S" unfolding up by (intro upstream_loop_within) auto
    moreover assume "JStr x \<in> set ?up"
    ultimately show "(''ready-to-merge'', x) \<in> (gate_edges gs)\<^sup>+" by blast
  }
  {
    have closed: "set (gate_deps gs j) \<subseteq> set ?up" if "j \<in> set ?up" for j
      unfolding up by (rule upstream_loop_closed) (use that up in auto)
    have base: "set (g_dependsOn rtm) \<subseteq> set ?up"
      using upstream_loop_marked [of "js_uniq (g_dependsOn rtm)" gs "g_dependsOn rtm"] by (simp add: up)
    assume "(''ready-to-merge'', x) \<in> (gate_edges gs)\<^sup>+"
    then show "JStr x \<in> set ?up"
    proof (induction rule: trancl_induct)
      case (base y)
      with first \<open>set (g_dependsOn rtm) \<subseteq> set ?up\<close> show ?case by blast
    next
      case (step y z)
      with closed gate_deps_edge [OF d] show ?case by blast
    qed
  }
qed

lemma aggregation_exact:
  assumes "gates_ok gs"
  shows "i \<in> set (aggregationGateIds gs) \<longleftrightarrow> i \<noteq> ''execution'' \<and> i \<noteq> ''ready-to-merge'' \<and> between gs i"
proof (cases "find_gate ''ready-to-merge'' gs")
  case None
  then have "(''ready-to-merge'', i) \<notin> (gate_edges gs)\<^sup>+"
    using find_gate_None [of "''ready-to-merge''" gs] by (auto simp: gate_edges_def dest!: tranclD)
  with None show ?thesis by (simp add: aggregationGateIds_def between_def)
next
  case (Some rtm)
  with upstream_exact [OF assms Some] show ?thesis
    by (auto simp: aggregationGateIds_def between_def downstream_exact)
qed

section \<open>The rewired graph\<close>

lemma update_gate_ids: "(\<And>g. g_id (f g) = g_id g) \<Longrightarrow> map g_id (update_gate i f gs) = map g_id gs"
  by (induction gs) simp_all

lemma update_gate_set:
  assumes "distinct (map g_id gs)"
  shows "set (update_gate i f gs) = (\<lambda>g. if g_id g = i then f g else g) ` set gs"
  using assms
proof (induction gs)
  case (Cons g gs)
  show ?case
  proof (cases "g_id g = i")
    case True
    then have "(\<lambda>g. if g_id g = i then f g else g) ` set gs = set gs"
      using Cons.prems by (force simp: image_iff)
    with True show ?thesis by auto
  next
    case False
    with Cons show ?thesis by simp
  qed
qed simp

lemma update_gate_edges:
  assumes "\<And>g. g_id (f g) = g_id g" and "\<And>g. g_dependsOn (f g) = g_dependsOn g"
  shows "gate_edges (update_gate i f gs) = gate_edges gs"
proof (induction gs)
  case (Cons g gs)
  have cons: "gate_edges (h # hs) = {(g_id h, d) | d. depends h d} \<union> gate_edges hs" for h hs
    by (auto simp: gate_edges_def)
  have "depends (f g) d = depends g d" for d by (simp add: depends_def assms)
  with Cons assms(1) show ?case by (simp add: cons)
qed (simp add: gate_edges_def)

definition rewired :: "string list \<Rightarrow> gate list \<Rightarrow> gate list" where
  "rewired dropped gs =
     map (\<lambda>g. g\<lparr>g_dependsOn := prune_deps dropped (g_dependsOn g)\<rparr>)
       (update_gate ''ready-to-merge'' (rewire dropped) (filter (\<lambda>g. g_id g \<notin> set dropped) gs))"

lemma strip_gates:
  assumes "isParentMetaWorkflow (Some w)" and "''execution'' \<in> set (map g_id (w_gates w))"
  shows "w_gates (stripSubgoalStepsForChildInheritance w) =
    (let gs = update_gate ''execution'' strip_subgoals (w_gates w); dropped = aggregationGateIds gs in
     if dropped = [] then gs else rewired dropped gs)"
proof -
  obtain ex where "find_gate ''execution'' (w_gates w) = Some ex"
    using assms(2) find_gate_None [of "''execution''" "w_gates w"] by auto
  with assms(1) show ?thesis by (simp add: stripSubgoalStepsForChildInheritance_def Let_def rewired_def)
qed

lemma rewired_ids: "map g_id (rewired dropped gs) = filter (\<lambda>i. i \<notin> set dropped) (map g_id gs)"
proof -
  have "map g_id (update_gate i (rewire dropped) hs) = map g_id hs" for i hs
    by (rule update_gate_ids) (simp add: rewire_def Let_def)
  then show ?thesis by (simp add: rewired_def filter_map o_def)
qed

lemma rewired_gate:
  assumes "distinct (map g_id gs)" and "h \<in> set (rewired dropped gs)"
  shows "\<exists>g \<in> set gs. g_id g = g_id h \<and> g_id g \<notin> set dropped \<and> g_verify h = g_verify g \<and>
    (\<forall>d \<in> set (g_dependsOn h). d \<notin> set (map JStr dropped) \<and>
       (d \<in> set (g_dependsOn g) \<or> g_id h = ''ready-to-merge'' \<and> d = JStr ''execution''))"
proof -
  let ?kept = "filter (\<lambda>g. g_id g \<notin> set dropped) gs"
  have "distinct (map g_id ?kept)" using assms(1) by (simp add: distinct_map_filter)
  note up = update_gate_set [OF this, of "''ready-to-merge''" "rewire dropped"]
  obtain h0 where h0: "h0 \<in> set (update_gate ''ready-to-merge'' (rewire dropped) ?kept)"
    "h = h0\<lparr>g_dependsOn := prune_deps dropped (g_dependsOn h0)\<rparr>"
    using assms(2) by (auto simp: rewired_def)
  from h0(1) obtain g where g: "g \<in> set ?kept" "h0 = (if g_id g = ''ready-to-merge'' then rewire dropped g else g)"
    unfolding up by blast
  then have "d \<notin> set (map JStr dropped) \<and> (d \<in> set (g_dependsOn g) \<or> g_id h = ''ready-to-merge'' \<and> d = JStr ''execution'')"
    if "d \<in> set (g_dependsOn h)" for d
    using that g h0(2) by (auto simp: prune_deps_def rewire_def Let_def split: if_splits)
  moreover have "g \<in> set gs" "g_id g \<notin> set dropped" "g_id g = g_id h" "g_verify h = g_verify g"
    using g h0(2) by (auto simp: rewire_def Let_def)
  ultimately show ?thesis by blast
qed

lemma rewired_bridge:
  assumes "rtm \<in> set gs" and "g_id rtm = ''ready-to-merge''" and "distinct (map g_id gs)"
    and "''ready-to-merge'' \<notin> set dropped" and "''execution'' \<notin> set dropped"
  shows "(''ready-to-merge'', ''execution'') \<in> gate_edges (rewired dropped gs)"
proof -
  let ?kept = "filter (\<lambda>g. g_id g \<notin> set dropped) gs"
  have "distinct (map g_id ?kept)" using assms(3) by (simp add: distinct_map_filter)
  note up = update_gate_set [OF this, of "''ready-to-merge''" "rewire dropped"]
  let ?h = "(rewire dropped rtm)\<lparr>g_dependsOn := prune_deps dropped (g_dependsOn (rewire dropped rtm))\<rparr>"
  have "rtm \<in> set ?kept" using assms by simp
  then have "rewire dropped rtm \<in> set (update_gate ''ready-to-merge'' (rewire dropped) ?kept)"
    unfolding up using assms(2) by (force simp: image_iff)
  then have "?h \<in> set (rewired dropped gs)" by (simp add: rewired_def)
  moreover have "depends ?h ''execution''" "g_id ?h = ''ready-to-merge''"
    using assms by (auto simp: depends_def prune_deps_def rewire_def Let_def)
  ultimately show ?thesis by (metis gate_edgesI)
qed

lemma rewired_ok:
  assumes "gates_ok gs" and "''execution'' \<in> set (map g_id gs)" and "''execution'' \<notin> set dropped"
  shows "gates_ok (rewired dropped gs)"
proof -
  have d: "distinct (map g_id gs)" using assms(1) by (simp add: gates_ok_def)
  have "d \<in> set (map (JStr \<circ> g_id) (rewired dropped gs))"
    if h: "h \<in> set (rewired dropped gs)" and dh: "d \<in> set (g_dependsOn h)" for h d
  proof -
    obtain g where g: "g \<in> set gs" "d \<notin> set (map JStr dropped)" "d \<in> set (g_dependsOn g) \<or> d = JStr ''execution''"
      using rewired_gate [OF d h] dh by blast
    then have "\<exists>i. d = JStr i \<and> i \<in> set (map g_id gs)"
      using gates_ok_dep [OF assms(1)] assms(2) by blast
    then obtain i where "d = JStr i" "i \<in> set (map g_id gs)" "i \<notin> set dropped" using g(2) by auto
    then have "i \<in> set (map g_id (rewired dropped gs))" by (simp add: rewired_ids)
    with \<open>d = JStr i\<close> show ?thesis by auto
  qed
  with d show ?thesis by (simp add: gates_ok_def rewired_ids list_all_iff)
qed

lemma rewired_edges:
  assumes "distinct (map g_id gs)" and "(''ready-to-merge'', ''execution'') \<in> (gate_edges gs)\<^sup>+"
  shows "gate_edges (rewired dropped gs) \<subseteq> (gate_edges gs)\<^sup>+"
proof
  fix e assume "e \<in> gate_edges (rewired dropped gs)"
  then obtain h d where h: "e = (g_id h, d)" "h \<in> set (rewired dropped gs)" "JStr d \<in> set (g_dependsOn h)"
    by (auto simp: gate_edges_def depends_def)
  then obtain g where "g \<in> set gs" "g_id g = g_id h"
    "JStr d \<in> set (g_dependsOn g) \<or> g_id h = ''ready-to-merge'' \<and> JStr d = JStr ''execution''"
    using rewired_gate [OF assms(1) h(2)] by blast
  with h assms(2) show "e \<in> (gate_edges gs)\<^sup>+"
    using gate_edgesI [of g gs d] by (auto simp: depends_def)
qed

lemma acyclic_sub_trancl: "acyclic r \<Longrightarrow> s \<subseteq> r\<^sup>+ \<Longrightarrow> acyclic s"
  by (rule acyclic_subset [of "r\<^sup>+"]) (simp_all add: acyclic_def trancl_id trans_trancl)

section \<open>What a child inherits\<close>

lemma strip_subgoals_simps [simp]: "g_id (strip_subgoals g) = g_id g" "g_dependsOn (strip_subgoals g) = g_dependsOn g"
  by (simp_all add: strip_subgoals_def)

lemma update_gate_deps:
  "(\<And>g. g_dependsOn (f g) = g_dependsOn g) \<Longrightarrow> map g_dependsOn (update_gate i f gs) = map g_dependsOn gs"
  by (induction gs) simp_all

lemma gates_ok_cong:
  assumes "map g_id gs = map g_id gs'" and "map g_dependsOn gs = map g_dependsOn gs'" and "gates_ok gs"
  shows "gates_ok gs'"
proof -
  have "map (JStr \<circ> g_id) gs = map (JStr \<circ> g_id) gs'" using assms(1) by (metis list.map_comp)
  moreover have "list_all P (map g_dependsOn gs) = list_all P (map g_dependsOn gs')" for P using assms(2) by simp
  then have "list_all (\<lambda>g. P (g_dependsOn g)) gs = list_all (\<lambda>g. P (g_dependsOn g)) gs'" for P
    by (simp add: list.pred_map o_def)
  ultimately show ?thesis using assms(1,3) unfolding gates_ok_def by metis
qed

lemma between_path: "between gs i \<Longrightarrow> (''ready-to-merge'', ''execution'') \<in> (gate_edges gs)\<^sup>+"
  unfolding between_def by (elim conjE) (rule trancl_trans)

lemma trancl_gate: "(i, j) \<in> (gate_edges gs)\<^sup>+ \<Longrightarrow> \<exists>g. g \<in> set gs \<and> g_id g = i"
  by (drule tranclD) (auto simp: gate_edges_def)

definition execution_steps :: "gate list \<Rightarrow> verify_step list" where
  "execution_steps gs = concat (map (\<lambda>g. or_empty (g_verify g)) (filter (\<lambda>g. g_id g = ''execution'') gs))"

lemma no_subgoal_steps:
  assumes "distinct (map g_id gs)" and "g \<in> set (update_gate ''execution'' strip_subgoals gs)" and "g_id g = ''execution''"
  shows "filter is_subgoal_step (or_empty (g_verify g)) = []"
proof -
  obtain g0 where "g = strip_subgoals g0"
    using assms(2,3) unfolding update_gate_set [OF assms(1)] by (auto split: if_splits)
  then show ?thesis by (cases "g_verify g0") (simp_all add: strip_subgoals_def filter_empty_conv)
qed

lemma child_inherits:
  assumes "gates_ok (w_gates w)" and "acyclic (gate_edges (w_gates w))"
    and "isParentMetaWorkflow (Some w)" and "''execution'' \<in> set (map g_id (w_gates w))"
    and "gs' = w_gates (stripSubgoalStepsForChildInheritance w)"
  shows "map g_id gs' = filter (\<lambda>i. \<not> between (w_gates w) i) (map g_id (w_gates w)) \<and>
    gates_ok gs' \<and> acyclic (gate_edges gs') \<and> filter is_subgoal_step (execution_steps gs') = [] \<and>
    (map g_id gs' \<noteq> map g_id (w_gates w) \<longrightarrow> (''ready-to-merge'', ''execution'') \<in> gate_edges gs')"
proof -
  let ?gs = "update_gate ''execution'' strip_subgoals (w_gates w)"
  let ?dropped = "aggregationGateIds ?gs"
  have ids: "map g_id ?gs = map g_id (w_gates w)" by (rule update_gate_ids) simp
  have edges: "gate_edges ?gs = gate_edges (w_gates w)" by (rule update_gate_edges) simp_all
  have ok: "gates_ok ?gs"
    by (rule gates_ok_cong [OF _ _ assms(1)]) (simp_all add: ids update_gate_deps)
  have d: "distinct (map g_id ?gs)" "distinct (map g_id (w_gates w))"
    using ok assms(1) by (simp_all add: gates_ok_def)
  have irrefl: "(i, i) \<notin> (gate_edges (w_gates w))\<^sup>+" for i using assms(2) by (simp add: acyclic_def)
  have btw: "between ?gs = between (w_gates w)" by (simp add: between_def [abs_def] edges)
  have "\<not> between (w_gates w) ''execution''" "\<not> between (w_gates w) ''ready-to-merge''"
    using irrefl by (auto simp: between_def)
  then have dropped: "i \<in> set ?dropped \<longleftrightarrow> between (w_gates w) i" for i
    using aggregation_exact [OF ok, of i] by (metis btw)
  have gs': "gs' = (if ?dropped = [] then ?gs else rewired ?dropped ?gs)"
    using strip_gates [OF assms(3,4)] by (simp add: assms(5) Let_def)
  have nosub: "filter is_subgoal_step (or_empty (g_verify g)) = []" if "g \<in> set ?gs" "g_id g = ''execution''" for g
    by (rule no_subgoal_steps [OF d(2) that])
  show ?thesis
  proof (cases "?dropped = []")
    case True
    have "filter (\<lambda>i. \<not> between (w_gates w) i) (map g_id (w_gates w)) = map g_id (w_gates w)"
      using dropped True by (simp add: filter_id_conv)
    moreover have "filter is_subgoal_step (execution_steps ?gs) = []"
      using nosub by (auto simp: execution_steps_def filter_empty_conv)
    ultimately show ?thesis using True ok ids edges assms(2) by (simp add: gs')
  next
    case False
    then obtain i where i: "i \<in> set ?dropped" by (cases ?dropped) auto
    then have "between (w_gates w) i" using dropped by blast
    then have path: "(''ready-to-merge'', ''execution'') \<in> (gate_edges ?gs)\<^sup>+"
      unfolding edges by (rule between_path)
    from trancl_gate [OF this] obtain rtm where rtm: "rtm \<in> set ?gs" "g_id rtm = ''ready-to-merge''"
      by blast
    have ends: "''ready-to-merge'' \<notin> set ?dropped" "''execution'' \<notin> set ?dropped"
      using aggregation_exact [OF ok] by blast+
    have "''execution'' \<in> set (map g_id ?gs)" using ids assms(4) by simp
    then have ok': "gates_ok (rewired ?dropped ?gs)" using rewired_ok [OF ok _ ends(2)] by blast
    have acyc: "acyclic (gate_edges (rewired ?dropped ?gs))"
      using acyclic_sub_trancl [OF _ rewired_edges [OF d(1) path]] assms(2) edges by simp
    have "filter is_subgoal_step (or_empty (g_verify h)) = []"
      if "h \<in> set (rewired ?dropped ?gs)" "g_id h = ''execution''" for h
      using rewired_gate [OF d(1) that(1)] nosub that(2) by metis
    then have "filter is_subgoal_step (execution_steps (rewired ?dropped ?gs)) = []"
      by (auto simp: execution_steps_def filter_empty_conv)
    moreover have "(''ready-to-merge'', ''execution'') \<in> gate_edges (rewired ?dropped ?gs)"
      by (rule rewired_bridge [OF rtm d(1) ends])
    moreover have "map g_id (rewired ?dropped ?gs) = filter (\<lambda>i. \<not> between (w_gates w) i) (map g_id (w_gates w))"
      unfolding rewired_ids ids using dropped by metis
    ultimately show ?thesis using False ok' acyc by (simp add: gs')
  qed
qed

text \<open>A gate as the child gets it: \<open>execution\<close> loses its subgoal steps, a dependency on a dropped gate goes,
  and \<open>ready-to-merge\<close> waits for \<open>execution\<close> when some gate was dropped. All else stays.\<close>

definition inherited_gate :: "gate list \<Rightarrow> gate \<Rightarrow> gate" where
  "inherited_gate gs g =
     (let kept = filter (\<lambda>d. \<forall>i. d = JStr i \<longrightarrow> \<not> between gs i) (g_dependsOn g) in
      g\<lparr>g_verify := (if g_id g = ''execution'' then map_option (filter (\<lambda>s. st_type s \<noteq> Subgoal)) (g_verify g) else g_verify g),
        g_dependsOn := (if g_id g = ''ready-to-merge'' \<and> (\<exists>h\<in>set gs. between gs (g_id h)) \<and> JStr ''execution'' \<notin> set kept
                        then kept @ [JStr ''execution''] else kept)\<rparr>)"

lemma update_gate_map: "distinct (map g_id gs) \<Longrightarrow> update_gate i f gs = map (\<lambda>g. if g_id g = i then f g else g) gs"
  by (induction gs) (auto intro!: map_idI [symmetric] simp: image_iff)

lemma child_gates:
  assumes "gates_ok (w_gates w)" and "acyclic (gate_edges (w_gates w))"
    and "isParentMetaWorkflow (Some w)" and "''execution'' \<in> set (map g_id (w_gates w))"
  shows "w_gates (stripSubgoalStepsForChildInheritance w) =
    map (inherited_gate (w_gates w)) (filter (\<lambda>g. \<not> between (w_gates w) (g_id g)) (w_gates w))"
proof -
  let ?gs = "update_gate ''execution'' strip_subgoals (w_gates w)"
  let ?D = "aggregationGateIds ?gs" and ?B = "between (w_gates w)"
  have ids: "map g_id ?gs = map g_id (w_gates w)" by (rule update_gate_ids) simp
  have edges: "gate_edges ?gs = gate_edges (w_gates w)" by (rule update_gate_edges) simp_all
  have ok: "gates_ok ?gs"
    by (rule gates_ok_cong [OF _ _ assms(1)]) (simp_all add: ids update_gate_deps)
  have d: "distinct (map g_id (w_gates w))" using assms(1) by (simp add: gates_ok_def)
  have "between ?gs = ?B" by (simp add: between_def [abs_def] edges)
  moreover have exec: "\<not> ?B ''execution''" and rtm: "\<not> ?B ''ready-to-merge''"
    using assms(2) by (auto simp: between_def acyclic_def)
  ultimately have D: "i \<in> set ?D \<longleftrightarrow> ?B i" for i
    using aggregation_exact [OF ok, of i] by metis
  have prune: "prune_deps ?D ds = filter (\<lambda>d. \<forall>i. d = JStr i \<longrightarrow> \<not> ?B i) ds" for ds
    unfolding prune_deps_def by (rule filter_cong) (auto simp: D image_iff)
  have some: "(\<exists>h\<in>set (w_gates w). ?B (g_id h)) \<longleftrightarrow> ?D \<noteq> []"
  proof
    assume "?D \<noteq> []"
    then obtain i where "?B i" using D by (cases ?D) auto
    moreover from this obtain h where "h \<in> set (w_gates w)" "g_id h = i" unfolding between_def using trancl_gate by blast
    ultimately show "\<exists>h\<in>set (w_gates w). ?B (g_id h)" by blast
  qed (use D in auto)
  have gs: "?gs = map (\<lambda>g. if g_id g = ''execution'' then strip_subgoals g else g) (w_gates w)"
    by (rule update_gate_map [OF d])
  show ?thesis
  proof (cases "?D = []")
    case True
    then have "\<not> ?B i" for i using D [of i] by simp
    then show ?thesis using strip_gates [OF assms(3,4)] True
      by (simp add: Let_def gs inherited_gate_def strip_subgoals_def)
  next
    case False
    let ?kept = "filter (\<lambda>g. g_id g \<notin> set ?D) ?gs"
    have "filter (\<lambda>g. g_id g \<notin> set ?D) (map f (w_gates w)) = map f (filter (\<lambda>g. \<not> ?B (g_id g)) (w_gates w))"
      if "\<And>g. g_id (f g) = g_id g" for f by (simp add: filter_map o_def that D)
    from this [of "\<lambda>g. if g_id g = ''execution'' then strip_subgoals g else g", folded gs]
    have kept: "?kept = map (\<lambda>g. if g_id g = ''execution'' then strip_subgoals g else g) (filter (\<lambda>g. \<not> ?B (g_id g)) (w_gates w))"
      by simp
    have "distinct (map g_id ?kept)" using d by (simp add: distinct_map_filter ids)
    note up = update_gate_map [OF this, of "''ready-to-merge''" "rewire ?D"]
    have some': "\<exists>h\<in>set (w_gates w). ?B (g_id h)" using some False by blast
    have pruned: "filter (\<lambda>d. \<forall>i. d = JStr i \<longrightarrow> \<not> ?B i) [JStr ''execution''] = [JStr ''execution'']" using exec by simp
    have "w_gates (stripSubgoalStepsForChildInheritance w) = rewired ?D ?gs"
      using strip_gates [OF assms(3,4)] False by (simp add: Let_def)
    also have "\<dots> = map (\<lambda>g. g\<lparr>g_dependsOn := prune_deps ?D (g_dependsOn g)\<rparr>)
        (map (\<lambda>g. if g_id g = ''ready-to-merge'' then rewire ?D g else g) ?kept)" by (simp only: rewired_def up)
    also have "\<dots> = map (inherited_gate (w_gates w)) (filter (\<lambda>g. \<not> ?B (g_id g)) (w_gates w))"
      unfolding kept map_map
      by (rule map_cong [OF refl])
        (use some' pruned in \<open>auto simp: inherited_gate_def strip_subgoals_def rewire_def prune Let_def\<close>)
    finally show ?thesis .
  qed
qed

text \<open>
  C28: a child that inherits a parent's meta-workflow gets a workflow it can finish: the gates that
  aggregate over children, exactly those strictly between \<open>execution\<close> and \<open>ready-to-merge\<close>, are
  gone and all others are kept in order, unchanged but for what \<open>inherited_gate\<close> says: \<open>execution\<close> loses
  its subgoal steps (a subgoal step of another gate stays), dependencies on dropped gates go, and
  \<open>ready-to-merge\<close> waits for \<open>execution\<close> when a gate was dropped. Every dependency still names a gate
  and there is no cycle.
\<close>

theorem child_workflow_wellformed:
  assumes "gates_ok (w_gates w)" and "acyclic (gate_edges (w_gates w))"
    and "isParentMetaWorkflow (Some w)" and "''execution'' \<in> set (map g_id (w_gates w))"
    and "gs' = w_gates (stripSubgoalStepsForChildInheritance w)"
  shows "gs' = map (inherited_gate (w_gates w)) (filter (\<lambda>g. \<not> between (w_gates w) (g_id g)) (w_gates w)) \<and>
    map g_id gs' = filter (\<lambda>i. \<not> between (w_gates w) i) (map g_id (w_gates w)) \<and>
    gates_ok gs' \<and> acyclic (gate_edges gs') \<and> filter is_subgoal_step (execution_steps gs') = [] \<and>
    (map g_id gs' \<noteq> map g_id (w_gates w) \<longrightarrow> (''ready-to-merge'', ''execution'') \<in> gate_edges gs')"
  using child_inherits [OF assms] child_gates [OF assms(1-4)] assms(5) by simp

definition meta_gate :: "string \<Rightarrow> string list \<Rightarrow> gate" where
  "meta_gate i ds = \<lparr>g_id = i, g_name = i, g_dependsOn = map JStr ds, g_content = False, g_injectDownstream = False,
     g_optional = False, g_manual = False, g_metadata = None, g_verify = Some [demo_vstep\<lparr>st_type := Subgoal\<rparr>]\<rparr>"

definition meta_gates :: "gate list" where
  "meta_gates = [meta_gate ''execution'' [], meta_gate ''sum'' [''execution''], meta_gate ''ready-to-merge'' [''sum'']]"

definition demo_meta :: workflow where
  "demo_meta = demo_workflow\<lparr>w_id := ''parent'', w_gates := meta_gates\<rparr>"

lemma meta_edges: "gate_edges meta_gates = {(''sum'', ''execution''), (''ready-to-merge'', ''sum'')}"
proof -
  have "gate_edges [] = {}" "gate_edges (g # gs) = {(g_id g, d) | d. depends g d} \<union> gate_edges gs" for g gs
    by (auto simp: gate_edges_def)
  then show ?thesis by (auto simp: meta_gates_def meta_gate_def depends_def)
qed

lemma meta_acyclic: "acyclic (gate_edges meta_gates)"
proof -
  let ?f = "\<lambda>i :: string. if i = ''sum'' then 1 else if i = ''execution'' then 0 else 2 :: nat"
  have "gate_edges meta_gates \<subseteq> (measure ?f)\<inverse>" by (simp add: meta_edges)
  moreover have "acyclic ((measure ?f)\<inverse>)" by (simp add: wf_acyclic)
  ultimately show ?thesis by (rule acyclic_subset [rotated])
qed

lemma child_workflow_wellformed_witness:
  "map g_id (w_gates (stripSubgoalStepsForChildInheritance demo_meta)) = [''execution'', ''ready-to-merge''] \<and>
   (''ready-to-merge'', ''execution'') \<in> gate_edges (w_gates (stripSubgoalStepsForChildInheritance demo_meta))"
proof -
  have gates: "w_gates demo_meta = meta_gates" by (simp add: demo_meta_def)
  have ok: "gates_ok (w_gates demo_meta)" by (simp add: gates gates_ok_def meta_gates_def meta_gate_def)
  have meta: "isParentMetaWorkflow (Some demo_meta)" by (simp add: isParentMetaWorkflow_def demo_meta_def)
  have ids: "map g_id meta_gates = [''execution'', ''sum'', ''ready-to-merge'']" by (simp add: meta_gates_def meta_gate_def)
  have ex: "''execution'' \<in> set (map g_id (w_gates demo_meta))" by (simp only: gates ids) simp
  have acyc: "acyclic (gate_edges (w_gates demo_meta))" by (simp add: gates meta_acyclic)
  have "(i, i) \<notin> (gate_edges meta_gates)\<^sup>+" for i using meta_acyclic by (simp add: acyclic_def)
  then have "\<not> between meta_gates ''execution''" "\<not> between meta_gates ''ready-to-merge''" "between meta_gates ''sum''"
    by (auto simp: between_def meta_edges)
  with child_workflow_wellformed [OF ok acyc meta ex refl, THEN conjunct2] show ?thesis
    by (simp add: gates ids)
qed

end
