(* ===== verification/Workflow_Checks.thy ===== *)
theory Workflow_Checks
  imports Workflow_Validator Child_Workflow
begin

text \<open>
  Correctness of the workflow validator (\<open>workflow-validator.ts\<close>): the edit distance, the cycle
  checks, and what an accepted definition guarantees to those who use it, the inheritance of
  child goals included.
\<close>

section \<open>The cycle check\<close>

definition key_deps :: "string list \<Rightarrow> (string \<Rightarrow> string list) \<Rightarrow> string \<Rightarrow> string set" where
  "key_deps keys deps i = set (deps i) \<inter> set keys"

definition key_edges :: "string list \<Rightarrow> (string \<Rightarrow> string list) \<Rightarrow> (string \<times> string) set" where
  "key_edges keys deps = {(i, d). i \<in> set keys \<and> d \<in> key_deps keys deps i}"

lemma visit_all_sound:
  assumes "visit_all keys deps visiting is visited = Inr visited'" and "topo (key_deps keys deps) visited"
  shows "topo (key_deps keys deps) visited' \<and> set visited \<subseteq> set visited' \<and> set is \<inter> set keys \<subseteq> set visited' \<and>
    (\<forall>x \<in> set visiting. x \<notin> set visited \<longrightarrow> x \<notin> set visited')"
  using assms
proof (induction keys deps visiting "is" visited arbitrary: visited' rule: visit_all.induct)
  case (2 keys deps visiting i "is" visited)
  consider "i \<notin> set keys \<or> i \<in> set visited" | "i \<in> set keys" "i \<notin> set visited" by blast
  then show ?case
  proof cases
    case 1
    with 2(4) have "visit_all keys deps visiting is visited = Inr visited'" by simp
    from 2(1) [OF 1 this 2(5)] 1 show ?thesis by auto
  next
    case new: 2
    with 2(4) have "i \<notin> set visiting" by (auto split: if_splits)
    with new 2(4) obtain v1 where v1: "visit_all keys deps (i # visiting) (deps i) visited = Inr v1"
      and rest: "visit_all keys deps visiting is (i # v1) = Inr visited'"
      by (auto split: sum.splits)
    have path: "\<not> (i \<notin> set keys \<or> i \<in> set visited)" using new by blast
    from 2(2) [OF path \<open>i \<notin> set visiting\<close> v1 2(5)]
    have ih: "topo (key_deps keys deps) v1" "set visited \<subseteq> set v1" "set (deps i) \<inter> set keys \<subseteq> set v1"
      "\<forall>x \<in> set (i # visiting). x \<notin> set visited \<longrightarrow> x \<notin> set v1" by blast+
    have "topo (key_deps keys deps) (i # v1)" using ih new by (simp add: key_deps_def)
    from 2(3) [OF path \<open>i \<notin> set visiting\<close> v1 rest this] ih new show ?thesis
      using \<open>i \<notin> set visiting\<close> by (auto 4 3)
  qed
qed auto

lemma visit_all_cycle:
  assumes "visit_all keys deps visiting is visited = Inl c"
    and "\<And>v i. v \<in> set visiting \<Longrightarrow> i \<in> set is \<Longrightarrow> i \<in> set keys \<Longrightarrow> (v, i) \<in> (key_edges keys deps)\<^sup>+"
  shows "(c, c) \<in> (key_edges keys deps)\<^sup>+"
  using assms
proof (induction keys deps visiting "is" visited rule: visit_all.induct)
  case (2 keys deps visiting i "is" visited)
  consider "i \<notin> set keys \<or> i \<in> set visited" | "i \<in> set keys" "i \<notin> set visited" "i \<in> set visiting"
    | "i \<in> set keys" "i \<notin> set visited" "i \<notin> set visiting" by blast
  then show ?case
  proof cases
    case 1
    with 2 show ?thesis by auto
  next
    case c: 2
    with 2(4) have "c = i" by simp
    with c 2(5) show ?thesis by simp
  next
    case new: 3
    then have path: "\<not> (i \<notin> set keys \<or> i \<in> set visited)" by blast
    have step: "(v, d) \<in> (key_edges keys deps)\<^sup>+"
      if v: "v \<in> set (i # visiting)" and d: "d \<in> set (deps i)" "d \<in> set keys" for v d
    proof -
      have "(i, d) \<in> key_edges keys deps" using d new by (simp add: key_edges_def key_deps_def)
      with v new 2(5) [of v i] show ?thesis by (auto intro: trancl_into_trancl)
    qed
    show ?thesis
    proof (cases "visit_all keys deps (i # visiting) (deps i) visited")
      case (Inl e)
      with new 2(4) have "e = c" by simp
      with 2(2) [OF path new(3)] Inl step show ?thesis by blast
    next
      case (Inr v1)
      with new 2(4) have "visit_all keys deps visiting is (i # v1) = Inl c" by simp
      with 2(3) [OF path new(3) Inr] 2(5) show ?thesis by simp
    qed
  qed
qed simp

lemma circular_exact:
  "circular err keys deps = [] \<longleftrightarrow> acyclic (key_edges keys deps)"
  "circular err keys deps = [e] \<Longrightarrow> \<exists>i. e = err i \<and> (i, i) \<in> (key_edges keys deps)\<^sup>+"
proof -
  have "acyclic (key_edges keys deps)" if v: "visit_all keys deps [] keys [] = Inr visited" for visited
  proof -
    note s = visit_all_sound [OF v]
    have "(x, x) \<notin> ((key_edges keys deps)\<inverse>)\<^sup>+" for x
    proof (cases "x \<in> set visited")
      case True
      with s show ?thesis
        by (intro topo_no_cycle [of "key_deps keys deps" visited]) (auto simp: key_edges_def)
    next
      case False
      with s have "x \<notin> set keys" by auto
      then show ?thesis by (auto simp: key_edges_def key_deps_def dest!: tranclD)
    qed
    then have "acyclic ((key_edges keys deps)\<inverse>)" by (simp add: acyclic_def)
    then show ?thesis by simp
  qed
  moreover have "(i, i) \<in> (key_edges keys deps)\<^sup>+" if "visit_all keys deps [] keys [] = Inl i" for i
    by (rule visit_all_cycle [OF that]) simp
  ultimately show "circular err keys deps = [] \<longleftrightarrow> acyclic (key_edges keys deps)"
    "circular err keys deps = [e] \<Longrightarrow> \<exists>i. e = err i \<and> (i, i) \<in> (key_edges keys deps)\<^sup>+"
    by (auto simp: circular_def acyclic_def split: sum.splits)
qed

section \<open>The edit distance\<close>

text \<open>Reference: \<open>edits a b n\<close> when \<open>n\<close> insertions, deletions and replacements turn \<open>a\<close> into \<open>b\<close>.\<close>

inductive edits :: "string \<Rightarrow> string \<Rightarrow> nat \<Rightarrow> bool" where
  edits_Nil: "edits [] [] 0"
| edits_keep: "edits a b n \<Longrightarrow> edits (c # a) (c # b) n"
| edits_replace: "edits a b n \<Longrightarrow> edits (c # a) (d # b) (n + 1)"
| edits_delete: "edits a b n \<Longrightarrow> edits (c # a) b (n + 1)"
| edits_insert: "edits a b n \<Longrightarrow> edits a (d # b) (n + 1)"

lemma edits_append: "edits a b n \<Longrightarrow> edits a' b' m \<Longrightarrow> edits (a @ a') (b @ b') (n + m)"
proof (induction rule: edits.induct)
  case (edits_replace a b n c d)
  with edits.edits_replace [of "a @ a'" "b @ b'" "n + m" c d] show ?case by simp
next
  case (edits_delete a b n c)
  with edits.edits_delete [of "a @ a'" "b @ b'" "n + m" c] show ?case by simp
next
  case (edits_insert a b n d)
  with edits.edits_insert [of "a @ a'" "b @ b'" "n + m" d] show ?case by simp
qed (auto intro: edits.intros)

lemma edits_rev: "edits a b n \<Longrightarrow> edits (rev a) (rev b) n"
proof (induction rule: edits.induct)
  case (edits_keep a b n c)
  with edits_append [OF _ edits.edits_keep [OF edits_Nil], of "rev a" "rev b" n c] show ?case by simp
next
  case (edits_replace a b n c d)
  with edits_append [OF _ edits.edits_replace [OF edits_Nil], of "rev a" "rev b" n c d] show ?case by simp
next
  case (edits_delete a b n c)
  with edits_append [OF _ edits.edits_delete [OF edits_Nil], of "rev a" "rev b" n c] show ?case by simp
next
  case (edits_insert a b n d)
  with edits_append [OF _ edits.edits_insert [OF edits_Nil], of "rev a" "rev b" n d] show ?case by simp
qed (simp add: edits_Nil)

fun ed :: "string \<Rightarrow> string \<Rightarrow> nat" where
  "ed [] b = length b"
| "ed (c # a) [] = length a + 1"
| "ed (c # a) (d # b) =
     min (min (ed (c # a) b + 1) (ed a (d # b) + 1)) (ed a b + (if c = d then 0 else 1))"

lemma ed_Nil [simp]: "ed a [] = length a"
  by (cases a) simp_all

lemma ed_same [simp]: "ed a a = 0"
  by (induction a) simp_all

lemma edits_to_Nil: "edits a [] (length a)"
  using edits_delete by (induction a) (auto intro: edits_Nil)

lemma edits_from_Nil: "edits [] b (length b)"
  using edits_insert by (induction b) (auto intro: edits_Nil)

lemma edits_ed: "edits a b (ed a b)"
proof (induction a b rule: ed.induct)
  case (1 b)
  show ?case by (simp add: edits_from_Nil)
next
  case (2 c a)
  show ?case using edits_to_Nil [of "c # a"] by simp
next
  case (3 c a d b)
  have "edits (c # a) (d # b) (ed a b + (if c = d then 0 else 1))"
    using 3(3) edits_keep edits_replace by auto
  moreover have "edits (c # a) (d # b) (ed (c # a) b + 1)" "edits (c # a) (d # b) (ed a (d # b) + 1)"
    using 3(1,2) edits_insert edits_delete by auto
  ultimately show ?case by (simp add: min_def)
qed

lemma ed_minimal: "edits a b n \<Longrightarrow> ed a b \<le> n"
proof (induction rule: edits.induct)
  case (edits_delete a b n c)
  show ?case using edits_delete.IH by (cases b) auto
next
  case (edits_insert a b n d)
  show ?case using edits_insert.IH by (cases a) auto
qed auto

lemma lev_cells_row:
  "lev_cells c bs (map (\<lambda>j. ed a (rev (pre @ take j bs))) [0..<length bs + 1]) (ed (c # a) (rev pre)) =
   map (\<lambda>j. ed (c # a) (rev (pre @ take j bs))) [1..<length bs + 1]"
proof (induction bs arbitrary: pre)
  case (Cons b bs)
  have shift: "map f [1..<length (b # bs) + 1] = map (\<lambda>j. f (Suc j)) [0..<length bs + 1]" for f :: "nat \<Rightarrow> nat"
    by (rule nth_equalityI) (simp_all del: upt_Suc)
  have split: "map f [0..<length bs + 1] = f 0 # map f [1..<length bs + 1]" for f :: "nat \<Rightarrow> nat"
    by (simp add: upt_rec)
  have prev: "map (\<lambda>j. ed a (rev (pre @ take j (b # bs)))) [0..<length (b # bs) + 1] =
      ed a (rev pre) # map (\<lambda>j. ed a (rev ((pre @ [b]) @ take j bs))) [0..<length bs + 1]"
    using shift [of "\<lambda>j. ed a (rev (pre @ take j (b # bs)))"] by (simp add: upt_rec del: upt_Suc)
  have cell: "min (min (ed (c # a) (rev pre) + 1) (ed a (rev (pre @ [b])) + 1))
      (ed a (rev pre) + (if c = b then 0 else 1)) = ed (c # a) (rev (pre @ [b]))" by simp
  have tl: "map (\<lambda>j. ed a (rev ((pre @ [b]) @ take j bs))) [0..<length bs + 1] =
      ed a (rev (pre @ [b])) # map (\<lambda>j. ed a (rev ((pre @ [b]) @ take j bs))) [1..<length bs + 1]"
    by (subst split) simp
  have "lev_cells c (b # bs) (map (\<lambda>j. ed a (rev (pre @ take j (b # bs)))) [0..<length (b # bs) + 1]) (ed (c # a) (rev pre)) =
      ed (c # a) (rev (pre @ [b])) #
        lev_cells c bs (map (\<lambda>j. ed a (rev ((pre @ [b]) @ take j bs))) [0..<length bs + 1]) (ed (c # a) (rev (pre @ [b])))"
    unfolding prev tl by (simp only: lev_cells.simps Let_def cell)
  also have "\<dots> = ed (c # a) (rev (pre @ [b])) # map (\<lambda>j. ed (c # a) (rev ((pre @ [b]) @ take j bs))) [1..<length bs + 1]"
    by (simp only: Cons)
  also have "\<dots> = map (\<lambda>j. ed (c # a) (rev (pre @ take j (b # bs)))) [1..<length (b # bs) + 1]"
    unfolding shift by (subst split) simp
  finally show ?case .
qed simp

lemma lev_rows_table:
  "lev_rows cs b (length a + 1) (map (\<lambda>j. ed a (rev (take j b))) [0..<length b + 1]) =
   map (\<lambda>j. ed (rev cs @ a) (rev (take j b))) [0..<length b + 1]"
proof (induction cs arbitrary: a)
  case (Cons c cs)
  have "lev_cells c b (map (\<lambda>j. ed a (rev (take j b))) [0..<length b + 1]) (length a + 1) =
      map (\<lambda>j. ed (c # a) (rev (take j b))) [1..<length b + 1]"
    using lev_cells_row [of c b a "[]"] by simp
  moreover have "map (\<lambda>j. ed (c # a) (rev (take j b))) [0..<length b + 1] =
      (length a + 1) # map (\<lambda>j. ed (c # a) (rev (take j b))) [1..<length b + 1]"
    by (subst upt_rec) simp
  ultimately show ?case using Cons [of "c # a"] by simp
qed simp

lemma levenshtein_ed: "levenshtein a b = ed (rev a) (rev b)"
proof -
  have base: "map (\<lambda>j. ed [] (rev (take j b))) [0..<length b + 1] = [0..<length b + 1]"
    by (rule map_idI) auto
  have "lev_rows a b 1 [0..<length b + 1] = map (\<lambda>j. ed (rev a) (rev (take j b))) [0..<length b + 1]"
    using lev_rows_table [of a b "[]"] unfolding base by (simp del: upt_Suc)
  then have "lev_rows a b 1 [0..<length b + 1] ! length b = ed (rev a) (rev b)"
    by (simp del: upt_Suc)
  then show ?thesis by (simp add: levenshtein_def)
qed

text \<open>
  C34: the distance behind the spelling suggestions, computed row by row in a table of two rows, is
  the least number of single-character edits that turn one string into the other.
\<close>

theorem levenshtein_is_edit_distance:
  "edits a b (levenshtein a b) \<and> levenshtein a b = (LEAST n. edits a b n)"
proof -
  have ex: "edits a b (levenshtein a b)"
    using edits_rev [OF edits_ed [of "rev a" "rev b"]] by (simp add: levenshtein_ed)
  moreover have "levenshtein a b \<le> n" if "edits a b n" for n
    using ed_minimal [OF edits_rev [OF that]] by (simp add: levenshtein_ed)
  ultimately show ?thesis by (metis Least_equality)
qed

section \<open>The gate graph of an accepted definition\<close>

fun is_object :: "js \<Rightarrow> bool" where
  "is_object (JObj _) = True"
| "is_object _ = False"

definition raw_gates :: "js \<Rightarrow> js list" where
  "raw_gates raw = (case raw of JObj r \<Rightarrow> elements (js_prop r ''gates'') | _ \<Rightarrow> [])"

definition raw_ids :: "js \<Rightarrow> string list" where
  "raw_ids raw = map fst (gate_records (raw_gates raw))"

definition raw_deps :: "js \<Rightarrow> string \<Rightarrow> string list" where
  "raw_deps raw = gate_map_deps (raw_gates raw)"

definition raw_edges :: "js \<Rightarrow> (string \<times> string) set" where
  "raw_edges raw = key_edges (js_uniq (raw_ids raw)) (raw_deps raw)"

definition good_gate :: "js \<Rightarrow> bool" where
  "good_gate v \<longleftrightarrow> (case v of
      JObj g \<Rightarrow> isNonEmptyString (js_prop g ''id'') \<and> \<not> bad_string_array (js_prop g ''dependsOn'') \<and>
        \<not> bad_string_array (js_prop g ''depends_on'')
    | _ \<Rightarrow> False)"

lemma good_gate_object: "good_gate (JObj g) \<longleftrightarrow> isNonEmptyString (js_prop g ''id'') \<and>
    \<not> bad_string_array (js_prop g ''dependsOn'') \<and> \<not> bad_string_array (js_prop g ''depends_on'')"
  by (simp add: good_gate_def)

lemma gate_records_Nil [simp]: "gate_records [] = []"
  by (simp add: gate_records_def map_filter_simps)

lemma gate_records_good [simp]:
  "isNonEmptyString (js_prop g ''id'') \<Longrightarrow> gate_records (JObj g # vs) = (str_or [] (js_prop g ''id''), g) # gate_records vs"
  by (simp add: gate_records_def map_filter_simps)

lemma id_faults_Nil: "id_faults ids g = [] \<longleftrightarrow>
    isNonEmptyString (js_prop g ''id'') \<and> workflow_id_ok (str_or [] (js_prop g ''id'')) \<and> str_or [] (js_prop g ''id'') \<notin> set ids"
  by (auto simp: id_faults_def Let_def)

lemma gate_faults_deps:
  "gate_faults label g = [] \<Longrightarrow> \<not> bad_string_array (js_prop g ''dependsOn'') \<and> \<not> bad_string_array (js_prop g ''depends_on'')"
  by (simp add: gate_faults_def)

lemma check_gates_object:
  assumes "check_gates n ids (JObj g # vs) = ([], ids', ps)"
  obtains ps1 where "check_gates (n + 1) (add_id ids g) vs = ([], ids', ps1)"
    and "id_faults ids g = []" and "gate_faults (gate_label n g) g = []"
proof -
  obtain ses sps where ses: "(case js_prop g ''verify'' of
      JUndefined \<Rightarrow> ([], []) | JArr steps \<Rightarrow> check_steps (gate_label n g) 0 steps
    | _ \<Rightarrow> ([Gate_verify (gate_label n g)], [])) = (ses, sps)" by (metis prod.exhaust)
  obtain es ids1 ps1 where rest: "check_gates (n + 1) (add_id ids g) vs = (es, ids1, ps1)" by (metis prod.exhaust)
  have "check_gates n ids (JObj g # vs) =
      ((id_faults ids g @ gate_faults (gate_label n g) g) @ ses @ es, ids1, sps @ ps1)"
    unfolding check_gates.simps js.case Let_def ses rest prod.case ..
  with assms rest that show ?thesis by auto
qed

lemma check_gates_ok:
  "check_gates n ids vs = ([], ids', ps) \<Longrightarrow> distinct ids \<Longrightarrow>
   list_all good_gate vs \<and> ids' = rev (map fst (gate_records vs)) @ ids \<and> distinct ids'"
proof (induction vs arbitrary: n ids ps)
  case (Cons v vs)
  show ?case
  proof (cases v)
    case (JObj g)
    from Cons.prems(1) obtain ps1 where rest: "check_gates (n + 1) (add_id ids g) vs = ([], ids', ps1)"
      and nil: "id_faults ids g = []" "gate_faults (gate_label n g) g = []"
      unfolding JObj by (rule check_gates_object)
    have add: "add_id ids g = str_or [] (js_prop g ''id'') # ids" using nil(1) by (simp add: add_id_def)
    then have "distinct (add_id ids g)" using nil(1) Cons.prems(2) by (simp add: id_faults_Nil)
    note ih = Cons.IH [OF rest this]
    have "good_gate v" using nil(1) gate_faults_deps [OF nil(2)] JObj by (simp add: good_gate_object id_faults_Nil)
    moreover have "rev (map fst (gate_records (v # vs))) @ ids = rev (map fst (gate_records vs)) @ add_id ids g"
      using nil(1) add JObj by (simp add: id_faults_Nil)
    ultimately show ?thesis using ih by (metis list.pred_inject(2))
  qed (use Cons.prems in \<open>auto simp: Let_def split: prod.splits\<close>)
qed simp

lemma ref_faults_Nil:
  "ref_faults [e] unknown ids i ds = [] \<longleftrightarrow> (\<forall>d \<in> set ds. d \<noteq> i \<and> d \<in> set ids)"
  by (induction ds) (auto simp: ref_faults_def)

text \<open>What an accepted definition is known to be.\<close>

lemma accepted_parts:
  assumes "validateWorkflowDefinition raw cs refs = []"
  obtains r where "raw = JObj r" "head_errors r = []" "raw_gates raw \<noteq> []" "list_all good_gate (raw_gates raw)"
    "distinct (raw_ids raw)" "acyclic (raw_edges raw)"
    "\<And>i g d. (i, g) \<in> set (gate_records (raw_gates raw)) \<Longrightarrow> d \<in> set (string_deps g) \<Longrightarrow> d \<in> set (raw_ids raw)"
    "validateWorkflowSteps r cs refs = []"
proof -
  obtain r where r: "raw = JObj r" using assms by (cases raw) (auto simp: validateWorkflowDefinition_def)
  then have gs: "raw_gates raw = elements (js_prop r ''gates'')" by (simp add: raw_gates_def)
  then have ne: "raw_gates raw \<noteq> []"
    using assms r by (auto simp: validateWorkflowDefinition_def split: list.splits)
  obtain es ids ps where ch: "check_gates 0 [] (raw_gates raw) = (es, ids, ps)" by (metis prod.exhaust)
  have "validateWorkflowDefinition raw cs refs = head_errors r @ es @ gate_graph_errors (raw_gates raw) ids @
      plan_graph_errors ps @ validateWorkflowSteps r cs refs"
    using ne ch gs r by (cases "raw_gates raw") (simp_all add: validateWorkflowDefinition_def del: check_gates.simps)
  with assms have nil: "head_errors r = []" "es = []" "gate_graph_errors (raw_gates raw) ids = []"
    "validateWorkflowSteps r cs refs = []" by simp_all
  from check_gates_ok [OF ch [unfolded nil(2)]]
  have ok: "list_all good_gate (raw_gates raw)" "set ids = set (raw_ids raw)" "distinct (raw_ids raw)"
    by (auto simp: raw_ids_def)
  have "acyclic (raw_edges raw)"
    using nil(3) by (simp add: gate_graph_errors_def circular_exact raw_edges_def raw_ids_def raw_deps_def)
  moreover have "d \<in> set (raw_ids raw)"
    if "(i, g) \<in> set (gate_records (raw_gates raw))" "d \<in> set (string_deps g)" for i g d
    using nil(3) that ok(2) by (fastforce simp: gate_graph_errors_def ref_faults_Nil)
  ultimately show ?thesis using that r nil(1,4) ne ok by blast
qed

section \<open>Frozen workflows\<close>

lemma normalizeGate_good:
  assumes "normalizeGate (JObj g) = Inr gt" and "good_gate (JObj g)"
  shows "g_id gt = str_or [] (js_prop g ''id'') \<and> g_dependsOn gt = map JStr (string_deps g)"
proof -
  have fields: "g_id gt = str_or [] (js_prop g ''id'')"
    "g_dependsOn gt = or_empty (or_else (as_array (js_prop g ''depends_on'')) (as_array (js_prop g ''dependsOn'')))"
    using assms(1) by (auto simp: normalizeGate_def Let_def bind_res_Inr split: option.splits)
  have read: "v = JUndefined \<or> (\<exists>xs. v = JArr (map JStr xs))" if "\<not> bad_string_array v" for v
    using that isStringArray_elements by (auto simp: bad_string_array_def)
  have all: "isStringArray (JArr (map JStr xs))" "\<not> isStringArray JUndefined" for xs by (induction xs) simp_all
  have nil: "js_strings [] = []" by (simp add: js_strings_def map_filter_simps)
  from assms(2) read [of "js_prop g ''depends_on''"] read [of "js_prop g ''dependsOn''"]
  have "or_empty (or_else (as_array (js_prop g ''depends_on'')) (as_array (js_prop g ''dependsOn''))) = map JStr (string_deps g)"
    by (auto simp: good_gate_object string_deps_def gateDependencies_def simp del: isStringArray.simps simp: all nil)
  with fields show ?thesis by simp
qed

lemma map_res_gates:
  "map_res normalizeGate gs = Inr gts \<Longrightarrow> list_all good_gate gs \<Longrightarrow>
   map (\<lambda>gt. (g_id gt, g_dependsOn gt)) gts = map (\<lambda>(i, g). (i, map JStr (string_deps g))) (gate_records gs)"
proof (induction gs arbitrary: gts)
  case (Cons v vs)
  then obtain g where v: "v = JObj g" by (cases v) (auto simp: good_gate_def)
  from Cons.prems(1) obtain gt gts' where gt: "normalizeGate v = Inr gt" "map_res normalizeGate vs = Inr gts'" "gts = gt # gts'"
    by (auto simp: bind_res_Inr)
  with Cons v normalizeGate_good [of g gt] show ?case by (simp add: good_gate_object)
qed (simp add: gate_records_def map_filter_simps)

lemma freeze_parts:
  assumes "freezeWorkflowDefinition raw cs hint refs = Inr w"
  shows "validateWorkflowDefinition raw cs refs = []" "normalizeWorkflow raw hint = Inr (Some w)"
  using assms by (auto simp: freezeWorkflowDefinition_def assertValidWorkflowDefinition_def
      split: list.splits sum.splits option.splits)

lemma freeze_gates:
  assumes "freezeWorkflowDefinition raw cs hint refs = Inr w"
  shows "map (\<lambda>gt. (g_id gt, g_dependsOn gt)) (w_gates w) =
    map (\<lambda>(i, g). (i, map JStr (string_deps g))) (gate_records (raw_gates raw))"
proof -
  obtain r where r: "raw = JObj r" "list_all good_gate (raw_gates raw)"
    using freeze_parts(1) [OF assms] by (rule accepted_parts)
  have "map_res normalizeGate (or_empty (as_array (js_prop r ''gates''))) = Inr (w_gates w)"
    using freeze_parts(2) [OF assms] r(1) by (auto simp: normalizeWorkflow_def Let_def bind_res_Inr split: if_splits)
  moreover have "or_empty (as_array (js_prop r ''gates'')) = raw_gates raw"
    by (cases "js_prop r ''gates''") (simp_all add: r(1) raw_gates_def)
  ultimately show ?thesis using map_res_gates r(2) by simp
qed

lemma records_edges:
  assumes "distinct (raw_ids raw)"
    and "\<And>i g d. (i, g) \<in> set (gate_records (raw_gates raw)) \<Longrightarrow> d \<in> set (string_deps g) \<Longrightarrow> d \<in> set (raw_ids raw)"
  shows "raw_edges raw = {(i, d). \<exists>g. (i, g) \<in> set (gate_records (raw_gates raw)) \<and> d \<in> set (string_deps g)}"
proof -
  have "distinct (map fst (rev (gate_records (raw_gates raw))))"
    using assms(1) by (simp add: raw_ids_def rev_map [symmetric])
  note find = map_of_eq_Some_iff [OF this]
  have "(\<exists>g. (i, g) \<in> set (gate_records (raw_gates raw)) \<and> d \<in> set (string_deps g)) \<longleftrightarrow> d \<in> set (raw_deps raw i)" for i d
  proof (cases "map_of (rev (gate_records (raw_gates raw))) i")
    case None
    then have "(i, g) \<notin> set (gate_records (raw_gates raw))" for g using find [of i g] by simp
    with None show ?thesis by (simp add: raw_deps_def gate_map_deps_def)
  next
    case (Some g)
    then have "(i, h) \<in> set (gate_records (raw_gates raw)) \<longleftrightarrow> h = g" for h using find [of i h] by auto
    with Some show ?thesis by (simp add: raw_deps_def gate_map_deps_def)
  qed
  moreover have "i \<in> set (raw_ids raw)" if "(i, g) \<in> set (gate_records (raw_gates raw))" for i g
    using that by (force simp: raw_ids_def)
  ultimately show ?thesis using assms(2) unfolding raw_edges_def key_edges_def key_deps_def set_js_uniq by blast
qed

lemma frozen_graph:
  assumes "freezeWorkflowDefinition raw cs hint refs = Inr w"
  shows "gates_ok (w_gates w)" "acyclic (gate_edges (w_gates w))" "w_gates w \<noteq> []" "map g_id (w_gates w) = raw_ids raw"
proof -
  note gates = freeze_gates [OF assms]
  obtain r where parts: "raw_gates raw \<noteq> []" "list_all good_gate (raw_gates raw)" "distinct (raw_ids raw)" "acyclic (raw_edges raw)"
    "\<And>i g d. (i, g) \<in> set (gate_records (raw_gates raw)) \<Longrightarrow> d \<in> set (string_deps g) \<Longrightarrow> d \<in> set (raw_ids raw)"
    using freeze_parts(1) [OF assms] by (rule accepted_parts) blast
  have "map fst (map (\<lambda>gt. (g_id gt, g_dependsOn gt)) (w_gates w)) = raw_ids raw"
    unfolding gates by (simp add: raw_ids_def comp_def case_prod_beta)
  then show ids: "map g_id (w_gates w) = raw_ids raw" by (simp add: o_def)
  have gate: "\<exists>h. (g_id g, h) \<in> set (gate_records (raw_gates raw)) \<and> g_dependsOn g = map JStr (string_deps h)"
    if "g \<in> set (w_gates w)" for g
  proof -
    have "(g_id g, g_dependsOn g) \<in> set (map (\<lambda>gt. (g_id gt, g_dependsOn gt)) (w_gates w))" using that by simp
    then show ?thesis unfolding gates by auto
  qed
  have "d \<in> set (map (JStr \<circ> g_id) (w_gates w))" if g: "g \<in> set (w_gates w)" and d: "d \<in> set (g_dependsOn g)" for g d
  proof -
    obtain h i where "(g_id g, h) \<in> set (gate_records (raw_gates raw))" "i \<in> set (string_deps h)" "d = JStr i"
      using gate [OF g] d by auto
    then have "i \<in> set (map g_id (w_gates w))" using parts(5) ids by simp
    with \<open>d = JStr i\<close> show ?thesis by auto
  qed
  then show "gates_ok (w_gates w)" using parts(3) ids by (simp add: gates_ok_def list_all_iff)
  have "gate_edges (w_gates w) \<subseteq> raw_edges raw"
  proof
    fix e assume "e \<in> gate_edges (w_gates w)"
    then obtain g d where e: "e = (g_id g, d)" "g \<in> set (w_gates w)" "JStr d \<in> set (g_dependsOn g)"
      by (auto simp: gate_edges_def depends_def)
    then show "e \<in> raw_edges raw" using gate [OF e(2)] records_edges [OF parts(3) parts(5)] by auto
  qed
  then show "acyclic (gate_edges (w_gates w))" using parts(4) by (rule acyclic_subset [rotated])
  show "w_gates w \<noteq> []"
  proof
    assume "w_gates w = []"
    then have "gate_records (raw_gates raw) = []" using gates by simp
    with parts(1,2) show False by (cases "raw_gates raw"; cases "hd (raw_gates raw)") (auto simp: good_gate_def)
  qed
qed

lemma strip_unchanged:
  "\<not> (isParentMetaWorkflow (Some w) \<and> ''execution'' \<in> set (map g_id (w_gates w))) \<Longrightarrow>
   stripSubgoalStepsForChildInheritance w = w"
  using find_gate_None [of "''execution''" "w_gates w"] by (auto simp: stripSubgoalStepsForChildInheritance_def)

text \<open>
  A definition that can be frozen is safe to run and to hand down: the snapshot has gates, its
  gates have distinct ids, every dependency names a gate and there is no dependency cycle; and the
  workflow that a child inherits from it has the same guarantees.
\<close>

theorem frozen_workflow_safe:
  assumes "freezeWorkflowDefinition raw cs hint refs = Inr w"
  shows "w_gates w \<noteq> [] \<and> gates_ok (w_gates w) \<and> acyclic (gate_edges (w_gates w)) \<and>
    gates_ok (w_gates (stripSubgoalStepsForChildInheritance w)) \<and>
    acyclic (gate_edges (w_gates (stripSubgoalStepsForChildInheritance w)))"
proof (cases "isParentMetaWorkflow (Some w) \<and> ''execution'' \<in> set (map g_id (w_gates w))")
  case True
  with child_inherits [OF frozen_graph(1,2) [OF assms] _ _ refl] frozen_graph [OF assms] show ?thesis by blast
next
  case False
  with strip_unchanged [OF this] frozen_graph [OF assms] show ?thesis by simp
qed

section \<open>Progress\<close>

lemma accepted_closed:
  assumes "validateWorkflowDefinition raw cs refs = []"
  shows "set (raw_deps raw i) \<subseteq> set (raw_ids raw)"
proof -
  obtain r where parts: "\<And>i g d. (i, g) \<in> set (gate_records (raw_gates raw)) \<Longrightarrow> d \<in> set (string_deps g) \<Longrightarrow> d \<in> set (raw_ids raw)"
    using assms by (rule accepted_parts) blast
  show ?thesis
  proof (cases "map_of (rev (gate_records (raw_gates raw))) i")
    case None
    then show ?thesis by (simp add: raw_deps_def gate_map_deps_def)
  next
    case (Some g)
    then have "(i, g) \<in> set (gate_records (raw_gates raw))" by (auto dest: map_of_SomeD)
    with Some parts show ?thesis by (auto simp: raw_deps_def gate_map_deps_def)
  qed
qed

interpretation gates: dep_checker
  "\<lambda>(raw, cs, refs). validateWorkflowDefinition raw cs refs = []"
  "\<lambda>(raw, cs, refs). set (raw_ids raw)"
  "\<lambda>(raw, cs, refs) i. set (raw_deps raw i)"
proof
  fix p :: "js \<times> component_ref list \<times> bool" and x
  obtain raw cs refs where p: "p = (raw, cs, refs)" by (cases p) auto
  show "finite (case p of (raw, cs, refs) \<Rightarrow> set (raw_ids raw))" by (simp add: p)
  assume acc: "case p of (raw, cs, refs) \<Rightarrow> validateWorkflowDefinition raw cs refs = []"
  then have acc': "validateWorkflowDefinition raw cs refs = []" by (simp add: p)
  note closed = accepted_closed [OF acc']
  show "(case p of (raw, cs, refs) \<Rightarrow> \<lambda>i. set (raw_deps raw i)) x \<subseteq> (case p of (raw, cs, refs) \<Rightarrow> set (raw_ids raw))"
    using closed by (simp add: p)
  obtain r where "acyclic (raw_edges raw)" using acc' by (rule accepted_parts) blast
  then have "acyclic ((raw_edges raw)\<inverse>)" by simp
  moreover have "(raw_edges raw)\<inverse> = {(d, x). x \<in> set (raw_ids raw) \<and> d \<in> set (raw_deps raw x)}"
    using closed by (auto simp: raw_edges_def key_edges_def key_deps_def)
  ultimately show "acyclic {(d, x). x \<in> (case p of (raw, cs, refs) \<Rightarrow> set (raw_ids raw)) \<and>
      d \<in> (case p of (raw, cs, refs) \<Rightarrow> \<lambda>i. set (raw_deps raw i)) x}" by (simp add: p)
qed

text \<open>
  C27: a workflow with an accepted definition never gets stuck on its own dependencies: whatever set
  of gates has passed, unless it is all of them, some gate is left whose dependencies have all
  passed; and the gates can be passed one after the other to the end.
\<close>

theorem accepted_workflow_progresses:
  assumes "validateWorkflowDefinition raw cs refs = []" and "passed \<subset> set (raw_ids raw)"
  shows "(\<exists>i \<in> set (raw_ids raw) - passed. set (raw_deps raw i) \<subseteq> passed) \<and>
    (\<exists>order. topo (\<lambda>i. set (raw_deps raw i)) order \<and> set order = set (raw_ids raw))"
  using gates.runnable [of "(raw, cs, refs)" passed] gates.runs_to_end [of "(raw, cs, refs)"] assms by simp

section \<open>Reported cycles\<close>

lemma no_circular_elsewhere:
  "Circular_gates i \<notin> set (head_errors r)" "Circular_gates i \<notin> set (id_faults ids g)"
  "Circular_gates i \<notin> set (gate_faults label g)" "Circular_gates i \<notin> set (plan_graph_errors ps)"
  "Circular_gates i \<notin> set (validateWorkflowSteps r cs refs)"
proof -
  have f: "x \<in> set (fail_if b e) \<longleftrightarrow> b \<and> x = e" for x e :: workflow_error and b by (auto simp: fail_if_def)
  show "Circular_gates i \<notin> set (head_errors r)" by (auto simp: head_errors_def f)
  show "Circular_gates i \<notin> set (id_faults ids g)" by (auto simp: id_faults_def Let_def)
  show "Circular_gates i \<notin> set (gate_faults label g)" by (auto simp: gate_faults_def f)
  have "Circular_gates i \<notin> set (duplicate_plans ps seen)" for seen by (induction ps arbitrary: seen) (auto simp: f)
  then show "Circular_gates i \<notin> set (plan_graph_errors ps)"
    by (auto simp: plan_graph_errors_def ref_faults_def circular_def f split: sum.splits if_splits)
  have "Circular_gates i \<notin> set (resolve_steps refs cs w g n vs)" for w g n vs
    by (induction refs cs w g n vs rule: resolve_steps.induct) (auto split: js.splits)
  then have "Circular_gates i \<notin> set (resolve_gate refs cs w v)" for w v by (cases v) simp_all
  then show "Circular_gates i \<notin> set (validateWorkflowSteps r cs refs)"
    by (auto simp: validateWorkflowSteps_def)
qed

lemma no_circular_steps: "Circular_gates i \<notin> set (fst (check_steps g n vs))"
  by (induction g n vs rule: check_steps.induct) (auto split: js.splits prod.splits)

lemma no_circular_gates: "Circular_gates i \<notin> set (fst (check_gates n ids vs))"
proof (induction vs arbitrary: n ids)
  case (Cons v vs)
  obtain es ids1 ps where rest: "check_gates (n + 1) ids vs = (es, ids1, ps)" by (metis prod.exhaust)
  show ?case
  proof (cases v)
    case (JObj g)
    obtain es' ids2 ps2 where rest': "check_gates (n + 1) (add_id ids g) vs = (es', ids2, ps2)" by (metis prod.exhaust)
    obtain ses sps where ses: "(case js_prop g ''verify'' of
        JUndefined \<Rightarrow> ([], []) | JArr steps \<Rightarrow> check_steps (gate_label n g) 0 steps
      | _ \<Rightarrow> ([Gate_verify (gate_label n g)], [])) = (ses, sps)" by (metis prod.exhaust)
    have "Circular_gates i \<notin> set ses"
      using ses no_circular_steps [of i "gate_label n g" 0] by (auto split: js.splits) (metis fst_conv)
    moreover have "Circular_gates i \<notin> set es'" using Cons [of "n + 1" "add_id ids g"] rest' by simp
    moreover have "check_gates n ids (JObj g # vs) =
        ((id_faults ids g @ gate_faults (gate_label n g) g) @ ses @ es', ids2, sps @ ps2)"
      unfolding check_gates.simps js.case Let_def ses rest' prod.case ..
    ultimately show ?thesis by (simp add: JObj no_circular_elsewhere del: check_gates.simps)
  qed (use Cons [of "n + 1" ids] rest in auto)
qed simp

text \<open>
  C35: a cycle is reported exactly when there is one: for any object with gates, whatever else is wrong
  with it, the errors name a circular gate if and only if the dependencies between its gates are
  cyclic, and a gate that is named is on a cycle.
\<close>

theorem circular_gates_reported:
  assumes "raw_gates raw \<noteq> []"
  shows "(\<exists>i. Circular_gates i \<in> set (validateWorkflowDefinition raw cs refs)) = (\<not> acyclic (raw_edges raw)) \<and>
    (Circular_gates j \<in> set (validateWorkflowDefinition raw cs refs) \<longrightarrow> (j, j) \<in> (raw_edges raw)\<^sup>+)"
proof -
  obtain r where r: "raw = JObj r" using assms by (cases raw) (auto simp: raw_gates_def)
  obtain es ids ps where ch: "check_gates 0 [] (raw_gates raw) = (es, ids, ps)" by (metis prod.exhaust)
  have gs: "elements (js_prop r ''gates'') = raw_gates raw" by (simp add: raw_gates_def r)
  let ?circ = "circular Circular_gates (js_uniq (raw_ids raw)) (raw_deps raw)"
  have "validateWorkflowDefinition raw cs refs = head_errors r @ es @ gate_graph_errors (raw_gates raw) ids @
      plan_graph_errors ps @ validateWorkflowSteps r cs refs"
    using assms ch gs r by (cases "raw_gates raw") (simp_all add: validateWorkflowDefinition_def del: check_gates.simps)
  moreover have "Circular_gates i \<notin> set es" for i using no_circular_gates [of i 0 "[]" "raw_gates raw"] ch by simp
  moreover have "Circular_gates i \<in> set (gate_graph_errors (raw_gates raw) ids) \<longleftrightarrow> Circular_gates i \<in> set ?circ" for i
    by (auto simp: gate_graph_errors_def ref_faults_def fail_if_def raw_ids_def raw_deps_def split: if_splits)
  ultimately have iff: "Circular_gates i \<in> set (validateWorkflowDefinition raw cs refs) \<longleftrightarrow> Circular_gates i \<in> set ?circ" for i
    by (auto simp: no_circular_elsewhere)
  have shape: "?circ = [] \<or> (\<exists>i. ?circ = [Circular_gates i])" by (simp add: circular_def split: sum.split)
  have "acyclic (raw_edges raw) \<longleftrightarrow> ?circ = []" by (simp add: circular_exact raw_edges_def)
  moreover have "(i, i) \<in> (raw_edges raw)\<^sup>+" if "?circ = [Circular_gates i]" for i
    using circular_exact(2) [OF that] by (simp add: raw_edges_def)
  ultimately show ?thesis using shape iff by auto
qed

section \<open>Examples and gaps\<close>

definition step_object_of :: "(string \<times> js) list \<Rightarrow> js" where
  "step_object_of extra = JObj ((''name'', JStr ''s'') # extra)"

definition two_gates :: "js list \<Rightarrow> string list \<Rightarrow> js" where
  "two_gates steps ds = JObj [(''id'', JStr ''w''), (''name'', JStr ''W''), (''gates'', JArr
     [JObj [(''id'', JStr ''a''), (''name'', JStr ''A''), (''dependsOn'', JArr (map JStr ds))],
      JObj [(''id'', JStr ''b''), (''name'', JStr ''B''), (''depends_on'', JArr [JStr ''a'']), (''verify'', JArr steps)]])]"

lemmas validate_defs = validateWorkflowDefinition_def two_gates_def step_object_of_def head_errors_def workflow_id_ok_def
  id_char_def check_gates.simps id_faults_def gate_faults_def add_id_def bad_string_array_def gateDependencies_def
  metadata_ok_def gate_graph_errors_def gate_records_def string_deps_def ref_faults_def circular_def gate_map_deps_def
  plan_graph_errors_def plan_map_deps_def validateWorkflowSteps_def step_faults_def step_plan_def step_type_of_def
  step_reasons_def typed_step_def command_step_def command_reference_def find_component_def in_object_def
  prototype_names_def js_trim_def js_space_def js_strings_def str_or_def fail_if_def gate_label_def Let_def
  starts_with_def token_here_def map_filter_simps

lemma two_gates_ok: "validateWorkflowDefinition (two_gates [] []) [] True = []"
  by (simp add: validate_defs)

text \<open>
  Two gaps between what the validator accepts and what the rest of the system can use: a command
  that no component defines is accepted when its name is inherited by every object
  (\<open>constructor\<close>), and a step whose type is \<open>null\<close> is accepted although it can never be frozen.
\<close>

theorem validator_gaps:
  "validateWorkflowDefinition (two_gates [step_object_of [(''component'', JStr ''app''), (''command'', JStr ''constructor'')]] [])
      [\<lparr>c_name = ''app'', c_commands = Some [''build'']\<rparr>] True = [] \<and>
   validateWorkflowDefinition (two_gates [step_object_of [(''type'', JNull), (''run'', JStr ''make'')]] []) [] True = [] \<and>
   freezeWorkflowDefinition (two_gates [step_object_of [(''type'', JNull), (''run'', JStr ''make'')]] []) [] [] True =
     Inl (Malformed (Unknown_step_type (Some ''s'') JNull))"
  by (simp add: validate_defs freezeWorkflowDefinition_def assertValidWorkflowDefinition_def normalizeWorkflow_def
      normalizeGate_def normalizeStep_def read_step_type_def)

definition frozen_demo :: workflow where
  "frozen_demo = \<lparr>w_id = ''w'', w_name = ''W'', w_description = [],
     w_gates = [(meta_gate ''a'' [])\<lparr>g_name := ''A'', g_verify := None\<rparr>,
                (meta_gate ''b'' [''a''])\<lparr>g_name := ''B'', g_verify := Some []\<rparr>],
     w_createdAt = Fin 0, w_updatedAt = Fin 0, w_hidden = False\<rparr>"

lemma freeze_demo: "freezeWorkflowDefinition (two_gates [] []) [] [] True = Inr frozen_demo"
  by (simp add: freezeWorkflowDefinition_def assertValidWorkflowDefinition_def two_gates_ok frozen_demo_def meta_gate_def)
    (simp add: two_gates_def normalizeWorkflow_def normalizeGate_def Let_def str_or_def)

lemma frozen_workflow_safe_witness:
  "freezeWorkflowDefinition (two_gates [] []) [] [] True = Inr frozen_demo \<and> acyclic (gate_edges (w_gates frozen_demo))"
  using frozen_workflow_safe [OF freeze_demo] freeze_demo by blast

lemma two_gates_ids: "raw_ids (two_gates [] ds) = [''a'', ''b'']"
  by (simp add: raw_ids_def raw_gates_def two_gates_def gate_records_def map_filter_simps js_trim_def js_space_def str_or_def)

lemma accepted_workflow_progresses_witness:
  "\<exists>i \<in> {''a'', ''b''} - {''a''}. set (raw_deps (two_gates [] []) i) \<subseteq> {''a''}"
proof -
  have "{''a''} \<subset> set (raw_ids (two_gates [] []))" by (auto simp: two_gates_ids)
  from accepted_workflow_progresses [OF two_gates_ok this] show ?thesis by (simp add: two_gates_ids)
qed

lemma circular_gates_reported_witness:
  "validateWorkflowDefinition (two_gates [] [''b'']) [] True = [Circular_gates ''a''] \<and>
   (''a'', ''a'') \<in> (raw_edges (two_gates [] [''b'']))\<^sup>+"
proof -
  have "raw_gates (two_gates [] [''b'']) \<noteq> []" by (simp add: raw_gates_def two_gates_def)
  note reported = circular_gates_reported [OF this, where refs = True and cs = "[]"]
  have "validateWorkflowDefinition (two_gates [] [''b'']) [] True = [Circular_gates ''a'']"
    by (simp add: validate_defs)
  with reported show ?thesis by simp
qed

end
