(* ===== verification/Plan_Mutation.thy ===== *)
theory Plan_Mutation
  imports Js_Value
begin

text \<open>
  The classifier of plan changes, \<open>src/src/server/agent/plan-mutation.ts\<close>: the difference between
  the frozen plan of a goal and a proposed one, the severity of that difference, and the check that
  no acceptance criterion loses its coverage. Phases are finite numbers; the one-time console
  warning about conflicting titles is left out.
\<close>

section \<open>Kinds, ordered by severity\<close>

datatype mutation_kind = Noop | Fix_up | Expansion | Restructure | Criteria_drop

fun severity :: "mutation_kind \<Rightarrow> nat" where
  "severity Noop = 0"
| "severity Fix_up = 1"
| "severity Expansion = 2"
| "severity Restructure = 3"
| "severity Criteria_drop = 4"

lemma severity_inj: "severity a = severity b \<Longrightarrow> a = b"
  by (cases a; cases b) simp_all

instantiation mutation_kind :: linorder
begin

definition less_eq_mutation_kind :: "mutation_kind \<Rightarrow> mutation_kind \<Rightarrow> bool" where
  "less_eq_mutation_kind a b \<longleftrightarrow> severity a \<le> severity b"

definition less_mutation_kind :: "mutation_kind \<Rightarrow> mutation_kind \<Rightarrow> bool" where
  "less_mutation_kind a b \<longleftrightarrow> severity a < severity b"

instance
  by standard (auto simp: less_eq_mutation_kind_def less_mutation_kind_def intro: severity_inj)

end

section \<open>Plans\<close>

record plan_subgoal =
  psg_title :: string
  psg_spec :: string
  psg_workflowId :: "string option"
  psg_suggestedRole :: "string option"
  psg_dependsOn :: "string list option"

record plan_step =
  ps_planId :: string
  ps_phase :: "rat option"
  ps_spec :: "string option"
  ps_title :: "string option"
  ps_dependsOn :: "string list option"
  ps_workflowId :: "string option"
  ps_suggestedRole :: "string option"
  ps_subgoal :: "plan_subgoal option"

record mutation_input =
  mi_current :: "plan_step list"
  mi_proposed :: "plan_step list"
  mi_rootAcceptanceCriteria :: "string list"
  mi_rootSpec :: string

record mutation_diff =
  d_added :: "string list"
  d_removed :: "string list"
  d_modified :: "string list"
  d_phaseChanges :: "string list"

record mutation_result =
  r_kind :: mutation_kind
  r_summary :: string
  r_uncoveredCriteria :: "string list"
  r_diff :: mutation_diff

definition normalise :: "string \<Rightarrow> string" where
  "normalise s = js_lower (js_trim (collapse_space False s))"

definition coalesce :: "'a option \<Rightarrow> 'a option \<Rightarrow> 'a option" where
  "coalesce a b = (case a of Some x \<Rightarrow> Some x | None \<Rightarrow> b)"

definition effectiveTitle :: "plan_step \<Rightarrow> string option" where
  "effectiveTitle s = coalesce (ps_title s) (map_option psg_title (ps_subgoal s))"

definition effectiveSpec :: "plan_step \<Rightarrow> string option" where
  "effectiveSpec s = coalesce (ps_spec s) (map_option psg_spec (ps_subgoal s))"

definition effectiveWorkflowId :: "plan_step \<Rightarrow> string option" where
  "effectiveWorkflowId s = coalesce (ps_workflowId s) (Option.bind (ps_subgoal s) psg_workflowId)"

definition effectiveRole :: "plan_step \<Rightarrow> string option" where
  "effectiveRole s = coalesce (ps_suggestedRole s) (Option.bind (ps_subgoal s) psg_suggestedRole)"

definition effectiveDependsOn :: "plan_step \<Rightarrow> string list" where
  "effectiveDependsOn s = or_empty (coalesce (ps_dependsOn s) (Option.bind (ps_subgoal s) psg_dependsOn))"

definition sameSet :: "string list \<Rightarrow> string list \<Rightarrow> bool" where
  "sameSet a b = (length a = length b \<and> list_all (\<lambda>x. x \<in> set a) b)"

definition phase_of :: "plan_step \<Rightarrow> rat" where
  "phase_of s = (case ps_phase s of Some p \<Rightarrow> p | None \<Rightarrow> 0)"

fun max_phase_from :: "rat \<Rightarrow> plan_step list \<Rightarrow> rat" where
  "max_phase_from m [] = m"
| "max_phase_from m (s # ss) = max_phase_from (if phase_of s > m then phase_of s else m) ss"

definition maxPhase :: "plan_step list \<Rightarrow> rat" where
  "maxPhase steps = max_phase_from 0 steps"

section \<open>Classification\<close>

text \<open>The maps by plan id: of steps with the same id the last one counts.\<close>

definition by_plan :: "plan_step list \<Rightarrow> string \<Rightarrow> plan_step option" where
  "by_plan steps i = find (\<lambda>s. ps_planId s = i) (rev steps)"

definition step_modified :: "plan_step \<Rightarrow> plan_step \<Rightarrow> bool" where
  "step_modified c s =
     (effectiveTitle c \<noteq> effectiveTitle s \<or> effectiveSpec c \<noteq> effectiveSpec s \<or>
      effectiveWorkflowId c \<noteq> effectiveWorkflowId s \<or> effectiveRole c \<noteq> effectiveRole s \<or>
      phase_of c \<noteq> phase_of s \<or> \<not> sameSet (effectiveDependsOn c) (effectiveDependsOn s))"

definition changed_ids :: "(plan_step \<Rightarrow> plan_step \<Rightarrow> bool) \<Rightarrow> plan_step list \<Rightarrow> plan_step list \<Rightarrow> string list" where
  "changed_ids P current proposed =
     map ps_planId (filter (\<lambda>s. case by_plan current (ps_planId s) of None \<Rightarrow> False | Some c \<Rightarrow> P c s) proposed)"

definition plan_diff :: "plan_step list \<Rightarrow> plan_step list \<Rightarrow> mutation_diff" where
  "plan_diff current proposed =
     \<lparr>d_added = map ps_planId (filter (\<lambda>s. by_plan current (ps_planId s) = None) proposed),
      d_removed = map ps_planId (filter (\<lambda>s. by_plan proposed (ps_planId s) = None) current),
      d_modified = changed_ids step_modified current proposed,
      d_phaseChanges = changed_ids (\<lambda>c s. phase_of c \<noteq> phase_of s) current proposed\<rparr>"

definition dependsOnChanges :: "plan_step list \<Rightarrow> plan_step list \<Rightarrow> string list" where
  "dependsOnChanges current proposed =
     js_uniq (changed_ids (\<lambda>c s. \<not> sameSet (effectiveDependsOn c) (effectiveDependsOn s)) current proposed)"

definition phase_moved :: "(rat \<Rightarrow> rat \<Rightarrow> bool) \<Rightarrow> plan_step list \<Rightarrow> plan_step list \<Rightarrow> string \<Rightarrow> bool" where
  "phase_moved P current proposed i =
     (case (by_plan current i, by_plan proposed i) of
        (Some c, Some p) \<Rightarrow> P (phase_of c) (phase_of p)
      | _ \<Rightarrow> False)"

definition beyond_plan :: "plan_step list \<Rightarrow> plan_step list \<Rightarrow> string \<Rightarrow> bool" where
  "beyond_plan current proposed i =
     ((case by_plan proposed i of None \<Rightarrow> 0 | Some p \<Rightarrow> phase_of p) > maxPhase current)"

definition structural_kind :: "plan_step list \<Rightarrow> plan_step list \<Rightarrow> mutation_kind" where
  "structural_kind current proposed =
     (let d = plan_diff current proposed in
      if d_added d = [] \<and> d_removed d = [] \<and> d_modified d = [] then Noop
      else if d_removed d \<noteq> [] then Restructure
      else if list_ex (phase_moved (\<lambda>c p. p < c) current proposed) (d_phaseChanges d) then Restructure
      else if list_ex (beyond_plan current proposed) (d_added d) \<or>
              list_ex (phase_moved (\<lambda>c p. p > c) current proposed) (d_phaseChanges d) then Expansion
      else if d_added d \<noteq> [] \<or> d_modified d \<noteq> [] then Fix_up
      else Noop)"

definition haystack :: "string \<Rightarrow> plan_step list \<Rightarrow> string" where
  "haystack rootSpec proposed =
     js_join [CHR 0x0A]
       (normalise rootSpec # map (\<lambda>s. normalise (case effectiveSpec s of Some t \<Rightarrow> t | None \<Rightarrow> [])) proposed)"

definition uncovered :: "string list \<Rightarrow> string \<Rightarrow> plan_step list \<Rightarrow> string list" where
  "uncovered criteria rootSpec proposed =
     filter (\<lambda>c. normalise c \<noteq> [] \<and> \<not> js_includes (haystack rootSpec proposed) (normalise c)) criteria"

fun kind_name :: "mutation_kind \<Rightarrow> string" where
  "kind_name Noop = ''noop''"
| "kind_name Fix_up = ''fix-up''"
| "kind_name Expansion = ''expansion''"
| "kind_name Restructure = ''restructure''"
| "kind_name Criteria_drop = ''criteria-drop''"

definition buildSummary :: "mutation_kind \<Rightarrow> mutation_diff \<Rightarrow> string list \<Rightarrow> string" where
  "buildSummary kind d unc =
     (let count = (\<lambda>before xs after. if xs \<noteq> [] then [before @ decimal (length xs) @ after] else []);
          parts = count ''+'' (d_added d) '' added'' @ count ''-'' (d_removed d) '' removed'' @
                  count [] (d_modified d) '' modified'' @ count [] (d_phaseChanges d) '' phase changes'';
          diffSuffix = (if parts \<noteq> [] then '' ('' @ js_join '', '' parts @ '')'' else []) in
      if kind = Criteria_drop
      then ''criteria-drop: '' @ decimal (length unc) @ '' criterion(s) would become uncovered'' @ diffSuffix
      else if kind = Noop then ''no effective change''
      else kind_name kind @ diffSuffix)"

definition classifyMutation :: "mutation_input \<Rightarrow> mutation_result" where
  "classifyMutation inp =
     (let current = mi_current inp; proposed = mi_proposed inp;
          diff = plan_diff current proposed;
          kind0 = structural_kind current proposed;
          kind1 = (if dependsOnChanges current proposed \<noteq> [] \<and> (kind0 = Fix_up \<or> kind0 = Noop) then Restructure else kind0);
          unc = uncovered (mi_rootAcceptanceCriteria inp) (mi_rootSpec inp) proposed;
          kind = (if unc \<noteq> [] then Criteria_drop else kind1) in
      \<lparr>r_kind = kind, r_summary = buildSummary kind diff unc, r_uncoveredCriteria = unc, r_diff = diff\<rparr>)"

section \<open>The most severe change\<close>

text \<open>
  The reference: every single change of the plan with its own severity.
\<close>

definition changes :: "plan_step list \<Rightarrow> plan_step list \<Rightarrow> mutation_kind list" where
  "changes current proposed =
     (let d = plan_diff current proposed in
      map (\<lambda>i. Restructure) (d_removed d) @
      map (\<lambda>i. if beyond_plan current proposed i then Expansion else Fix_up) (d_added d) @
      map (\<lambda>i. Fix_up) (d_modified d) @
      concat (map (\<lambda>i. (if phase_moved (\<lambda>c p. p < c) current proposed i then [Restructure] else []) @
                       (if phase_moved (\<lambda>c p. p > c) current proposed i then [Expansion] else [])) (d_phaseChanges d)) @
      map (\<lambda>i. Restructure) (dependsOnChanges current proposed))"

lemma Max_kind:
  assumes "Criteria_drop \<notin> set ks"
  shows "Max (insert Noop (set ks)) = (if Restructure \<in> set ks then Restructure
      else if Expansion \<in> set ks then Expansion else if Fix_up \<in> set ks then Fix_up else Noop)"
proof (rule Max_eqI)
  fix k assume "k \<in> insert Noop (set ks)"
  then show "k \<le> (if Restructure \<in> set ks then Restructure
      else if Expansion \<in> set ks then Expansion else if Fix_up \<in> set ks then Fix_up else Noop)"
    using assms by (cases k) (auto simp: less_eq_mutation_kind_def)
qed auto

lemma sameSet_refl: "sameSet xs xs"
  by (simp add: sameSet_def list_all_iff)

lemma dep_changes_modified: "d_modified (plan_diff current proposed) = [] \<Longrightarrow> dependsOnChanges current proposed = []"
proof -
  assume "d_modified (plan_diff current proposed) = []"
  then have "changed_ids (\<lambda>c s. \<not> sameSet (effectiveDependsOn c) (effectiveDependsOn s)) current proposed = []"
    by (auto simp: plan_diff_def changed_ids_def filter_empty_conv step_modified_def split: option.splits)
  then show ?thesis by (simp add: dependsOnChanges_def)
qed

lemma phase_changes_modified:
  "d_modified (plan_diff current proposed) = [] \<Longrightarrow> d_phaseChanges (plan_diff current proposed) = []"
  by (auto simp: plan_diff_def changed_ids_def filter_empty_conv step_modified_def split: option.splits)

lemma changes_kinds:
  "Criteria_drop \<notin> set (changes current proposed)"
  "Restructure \<in> set (changes current proposed) \<longleftrightarrow> d_removed (plan_diff current proposed) \<noteq> [] \<or>
     list_ex (phase_moved (\<lambda>c p. p < c) current proposed) (d_phaseChanges (plan_diff current proposed)) \<or>
     dependsOnChanges current proposed \<noteq> []"
  "Expansion \<in> set (changes current proposed) \<longleftrightarrow>
     list_ex (beyond_plan current proposed) (d_added (plan_diff current proposed)) \<or>
     list_ex (phase_moved (\<lambda>c p. p > c) current proposed) (d_phaseChanges (plan_diff current proposed))"
  "d_added (plan_diff current proposed) \<noteq> [] \<or> d_modified (plan_diff current proposed) \<noteq> [] \<Longrightarrow>
     \<not> list_ex (beyond_plan current proposed) (d_added (plan_diff current proposed)) \<Longrightarrow>
     Fix_up \<in> set (changes current proposed)"
  by (auto simp: changes_def Let_def list_ex_iff image_constant_conv split: if_splits)

lemma structural_kind_changes:
  "structural_kind current proposed = Noop \<Longrightarrow> changes current proposed = []"
  "structural_kind current proposed = Fix_up \<Longrightarrow> Fix_up \<in> set (changes current proposed) \<and>
     Expansion \<notin> set (changes current proposed) \<and>
     (Restructure \<in> set (changes current proposed) \<longleftrightarrow> dependsOnChanges current proposed \<noteq> [])"
  "structural_kind current proposed = Expansion \<Longrightarrow> Expansion \<in> set (changes current proposed) \<and>
     (Restructure \<in> set (changes current proposed) \<longleftrightarrow> dependsOnChanges current proposed \<noteq> [])"
  "structural_kind current proposed = Restructure \<Longrightarrow> Restructure \<in> set (changes current proposed)"
proof -
  let ?d = "plan_diff current proposed"
  show "structural_kind current proposed = Noop \<Longrightarrow> changes current proposed = []"
    using dep_changes_modified [of current proposed] phase_changes_modified [of current proposed]
    by (auto simp: structural_kind_def changes_def Let_def split: if_splits)
  show "structural_kind current proposed = Fix_up \<Longrightarrow> Fix_up \<in> set (changes current proposed) \<and>
     Expansion \<notin> set (changes current proposed) \<and>
     (Restructure \<in> set (changes current proposed) \<longleftrightarrow> dependsOnChanges current proposed \<noteq> [])"
    using changes_kinds [of current proposed] by (auto simp: structural_kind_def Let_def split: if_splits)
  show "structural_kind current proposed = Expansion \<Longrightarrow> Expansion \<in> set (changes current proposed) \<and>
     (Restructure \<in> set (changes current proposed) \<longleftrightarrow> dependsOnChanges current proposed \<noteq> [])"
    using changes_kinds [of current proposed] by (auto simp: structural_kind_def Let_def split: if_splits)
  show "structural_kind current proposed = Restructure \<Longrightarrow> Restructure \<in> set (changes current proposed)"
    using changes_kinds [of current proposed] by (auto simp: structural_kind_def Let_def split: if_splits)
qed

lemma structural_not_drop: "structural_kind current proposed \<noteq> Criteria_drop"
  by (simp add: structural_kind_def Let_def)

lemma most_severe:
  assumes "dependsOnChanges current proposed = [] \<or> structural_kind current proposed \<noteq> Expansion"
  shows "(if dependsOnChanges current proposed \<noteq> [] \<and>
       (structural_kind current proposed = Fix_up \<or> structural_kind current proposed = Noop)
     then Restructure else structural_kind current proposed) = Max (insert Noop (set (changes current proposed)))"
proof (cases "structural_kind current proposed")
  case Noop
  from structural_kind_changes(1) [OF this] have "changes current proposed = []" .
  moreover from this have "dependsOnChanges current proposed = []" by (simp add: changes_def Let_def)
  ultimately show ?thesis using Noop by simp
next
  case Fix_up
  with structural_kind_changes(2) [OF Fix_up] show ?thesis by (auto simp: Max_kind [OF changes_kinds(1)])
next
  case Expansion
  with assms structural_kind_changes(3) [OF Expansion] show ?thesis by (auto simp: Max_kind [OF changes_kinds(1)])
next
  case Restructure
  with structural_kind_changes(4) [OF Restructure] show ?thesis by (simp add: Max_kind [OF changes_kinds(1)])
qed (simp add: structural_not_drop)


definition plan_a :: "string \<Rightarrow> rat \<Rightarrow> string list \<Rightarrow> plan_step" where
  "plan_a i p ds = \<lparr>ps_planId = i, ps_phase = Some p, ps_spec = Some ''do it'', ps_title = Some i,
     ps_dependsOn = Some ds, ps_workflowId = None, ps_suggestedRole = None, ps_subgoal = None\<rparr>"

definition demo_change :: "plan_step list \<Rightarrow> plan_step list \<Rightarrow> mutation_input" where
  "demo_change c p = \<lparr>mi_current = c, mi_proposed = p, mi_rootAcceptanceCriteria = [], mi_rootSpec = []\<rparr>"

lemmas plan_defs = plan_a_def changed_ids_def by_plan_def effectiveDependsOn_def
  effectiveTitle_def effectiveSpec_def effectiveWorkflowId_def effectiveRole_def coalesce_def sameSet_def step_modified_def
  phase_of_def

lemma demo_diff1:
  "plan_diff [plan_a ''b'' 1 []] [plan_a ''b'' 1 [''a'']] =
     \<lparr>d_added = [], d_removed = [], d_modified = [''b''], d_phaseChanges = []\<rparr>"
  "dependsOnChanges [plan_a ''b'' 1 []] [plan_a ''b'' 1 [''a'']] = [''b'']"
  by (simp_all add: plan_diff_def dependsOnChanges_def plan_defs)

lemma demo_diff2:
  "plan_diff [plan_a ''b'' 0 []] [plan_a ''b'' 0 [''a''], plan_a ''c'' 1 []] =
     \<lparr>d_added = [''c''], d_removed = [], d_modified = [''b''], d_phaseChanges = []\<rparr>"
  "dependsOnChanges [plan_a ''b'' 0 []] [plan_a ''b'' 0 [''a''], plan_a ''c'' 1 []] = [''b'']"
  "beyond_plan [plan_a ''b'' 0 []] [plan_a ''b'' 0 [''a''], plan_a ''c'' 1 []] ''c''"
  by (simp_all add: plan_diff_def dependsOnChanges_def beyond_plan_def maxPhase_def plan_defs)

lemma demo_diff3:
  "plan_diff [plan_a ''c'' 0 [''a'', ''b'']] [plan_a ''c'' 0 [''a'', ''a'']] =
     \<lparr>d_added = [], d_removed = [], d_modified = [], d_phaseChanges = []\<rparr>"
  "dependsOnChanges [plan_a ''c'' 0 [''a'', ''b'']] [plan_a ''c'' 0 [''a'', ''a'']] = []"
  by (simp_all add: plan_diff_def dependsOnChanges_def plan_defs)

lemma demo_kind: "r_kind (classifyMutation (demo_change c p)) =
    (if dependsOnChanges c p \<noteq> [] \<and> (structural_kind c p = Fix_up \<or> structural_kind c p = Noop) then Restructure
     else structural_kind c p)"
  by (simp add: classifyMutation_def demo_change_def uncovered_def Let_def)


text \<open>
  Two gaps of the classifier: a plan that also adds a later phase may change the dependencies of an
  existing step and still be reported as a mere expansion; and replacing one dependency by a repetition
  of another is no change at all.
\<close>

theorem dependency_changes_missed:
  "r_kind (classifyMutation (demo_change [plan_a ''b'' 0 []] [plan_a ''b'' 0 [''a''], plan_a ''c'' 1 []])) = Expansion \<and>
   Restructure \<in> set (changes [plan_a ''b'' 0 []] [plan_a ''b'' 0 [''a''], plan_a ''c'' 1 []]) \<and>
   r_kind (classifyMutation (demo_change [plan_a ''c'' 0 [''a'', ''b'']] [plan_a ''c'' 0 [''a'', ''a'']])) = Noop"
  by (simp add: demo_kind structural_kind_def changes_def demo_diff2 demo_diff3)

end
