(* ===== verification/Regex.thy ===== *)
theory Regex
  imports Js_Value
begin

text \<open>
  The part of JavaScript's regular expressions that the server code uses, without capture groups
  and look-around: a matcher that lists where a match can end, executable, and the relation it
  computes. A place in a text is the text before it, reversed, and the text after it. All matching
  is case-insensitive, as every expression modelled here carries the flag \<open>i\<close>; a lazy and a greedy
  repetition match at the same places, so there is one repetition.
\<close>

type_synonym place = "string \<times> string"

datatype rx =
    Eps
  | Lit string            \<comment> \<open>the characters one after the other\<close>
  | Class string          \<comment> \<open>\<open>[...]\<close>\<close>
  | Not_class string      \<comment> \<open>\<open>[^...]\<close>; \<open>.\<close> is \<open>[^\n\r]\<close> below 256\<close>
  | Digit                 \<comment> \<open>\<open>\d\<close>\<close>
  | Space                 \<comment> \<open>\<open>\s\<close>\<close>
  | Alnum                 \<comment> \<open>\<open>[a-z0-9]\<close>\<close>
  | Word_boundary         \<comment> \<open>\<open>\b\<close>\<close>
  | At_end                \<comment> \<open>\<open>$\<close> without the flag \<open>m\<close>\<close>
  | Cat rx rx
  | Or rx rx
  | Star rx
  | Upto nat rx           \<comment> \<open>\<open>{0,n}\<close>\<close>

definition same_char :: "char \<Rightarrow> char \<Rightarrow> bool" where
  "same_char a b = (js_lower [a] = js_lower [b])"

definition is_digit :: "char \<Rightarrow> bool" where
  "is_digit c = (let n = of_char c :: nat in 48 \<le> n \<and> n \<le> 57)"

lemma digit_char: "d < 10 \<Longrightarrow> is_digit (char_of (48 + d)) \<and> of_char (char_of (48 + d :: nat)) = 48 + d"
  by (simp add: is_digit_def of_char_of take_bit_eq_mod)

lemma decimal_digits: "decimal n \<noteq> [] \<and> list_all is_digit (decimal n)"
proof (induction n rule: decimal.induct)
  case (1 n)
  then show ?case using digit_char [of n] digit_char [of "n mod 10"] by (simp add: decimal.simps [of n])
qed

lemma is_digit_code [code]:
  "is_digit (Char b0 b1 b2 b3 b4 b5 b6 b7) \<longleftrightarrow> \<not> b7 \<and> \<not> b6 \<and> b5 \<and> b4 \<and> (b3 \<longrightarrow> \<not> b2 \<and> \<not> b1)"
  by (cases b0; cases b1; cases b2; cases b3; cases b4; cases b5; cases b6; cases b7) (simp_all add: is_digit_def)

definition is_letter :: "char \<Rightarrow> bool" where
  "is_letter c = (let n = of_char c :: nat in (65 \<le> n \<and> n \<le> 90) \<or> (97 \<le> n \<and> n \<le> 122))"

lemma is_letter_code [code]:
  "is_letter (Char b0 b1 b2 b3 b4 b5 b6 b7) \<longleftrightarrow>
     b6 \<and> \<not> b7 \<and> (b0 \<or> b1 \<or> b2 \<or> b3 \<or> b4) \<and> \<not> (b4 \<and> b3 \<and> (b2 \<or> (b1 \<and> b0)))"
  by (cases b0; cases b1; cases b2; cases b3; cases b4; cases b5; cases b6; cases b7) (simp_all add: is_letter_def)

definition is_word_char :: "char \<Rightarrow> bool" where
  "is_word_char c = (is_digit c \<or> is_letter c \<or> c = CHR ''_'')"

definition word_edge :: "string \<Rightarrow> bool" where
  "word_edge s = (case s of [] \<Rightarrow> False | c # _ \<Rightarrow> is_word_char c)"

fun strip_lit :: "string \<Rightarrow> place \<Rightarrow> place list" where
  "strip_lit [] p = [p]"
| "strip_lit (x # xs) (b, []) = []"
| "strip_lit (x # xs) (b, c # a) = (if same_char x c then strip_lit xs (c # b, a) else [])"

fun one_char :: "(char \<Rightarrow> bool) \<Rightarrow> place \<Rightarrow> place list" where
  "one_char P (b, []) = []"
| "one_char P (b, c # a) = (if P c then [(c # b, a)] else [])"

text \<open>Repetition: every further round has to consume something, and a text is finite.\<close>

fun star_ends :: "(place \<Rightarrow> place list) \<Rightarrow> nat \<Rightarrow> place \<Rightarrow> place list" where
  "star_ends f 0 p = [p]"
| "star_ends f (Suc n) p =
     p # concat (map (star_ends f n) (filter (\<lambda>q. length (snd q) < length (snd p)) (f p)))"

fun upto_ends :: "(place \<Rightarrow> place list) \<Rightarrow> nat \<Rightarrow> place \<Rightarrow> place list" where
  "upto_ends f 0 p = [p]"
| "upto_ends f (Suc n) p = p # concat (map (upto_ends f n) (f p))"

fun ends :: "rx \<Rightarrow> place \<Rightarrow> place list" where
  "ends Eps p = [p]"
| "ends (Lit s) p = strip_lit s p"
| "ends (Class s) p = one_char (\<lambda>c. list_ex (\<lambda>x. same_char x c) s) p"
| "ends (Not_class s) p = one_char (\<lambda>c. \<not> list_ex (\<lambda>x. same_char x c) s) p"
| "ends Digit p = one_char is_digit p"
| "ends Space p = one_char js_space p"
| "ends Alnum p = one_char (\<lambda>c. is_digit c \<or> is_letter c) p"
| "ends Word_boundary p = (if word_edge (fst p) \<noteq> word_edge (snd p) then [p] else [])"
| "ends At_end p = (if snd p = [] then [p] else [])"
| "ends (Cat r s) p = concat (map (ends s) (ends r p))"
| "ends (Or r s) p = ends r p @ ends s p"
| "ends (Star r) p = star_ends (ends r) (length (snd p)) p"
| "ends (Upto n r) p = upto_ends (ends r) n p"

abbreviation cat :: "rx list \<Rightarrow> rx" where
  "cat rs \<equiv> foldr Cat rs Eps"

definition any_of :: "rx list \<Rightarrow> rx" where
  "any_of rs = foldr Or (butlast rs) (last rs)"

abbreviation words :: "string list \<Rightarrow> rx" where
  "words ws \<equiv> any_of (map Lit ws)"

abbreviation Opt :: "rx \<Rightarrow> rx" where
  "Opt r \<equiv> Or r Eps"

abbreviation Plus :: "rx \<Rightarrow> rx" where
  "Plus r \<equiv> Cat r (Star r)"

abbreviation Dot :: rx where
  "Dot \<equiv> Not_class [CHR 0x0A, CHR 0x0D]"

text \<open>\<open>re.exec(s)?.index\<close>, \<open>re.test(s)\<close> and a test of the expression anchored at both ends.\<close>

fun exec_from :: "rx \<Rightarrow> string \<Rightarrow> string \<Rightarrow> nat option" where
  "exec_from r b [] = (if ends r (b, []) \<noteq> [] then Some (length b) else None)"
| "exec_from r b (c # a) = (if ends r (b, c # a) \<noteq> [] then Some (length b) else exec_from r (c # b) a)"

definition exec_index :: "rx \<Rightarrow> string \<Rightarrow> nat option" where
  "exec_index r s = exec_from r [] s"

definition test :: "rx \<Rightarrow> string \<Rightarrow> bool" where
  "test r s = (exec_index r s \<noteq> None)"

definition test_whole :: "rx \<Rightarrow> string \<Rightarrow> bool" where
  "test_whole r s = (ends (Cat r At_end) ([], s) \<noteq> [])"

section \<open>What the matcher computes\<close>

inductive matches :: "rx \<Rightarrow> place \<Rightarrow> place \<Rightarrow> bool" where
  m_eps: "matches Eps p p"
| m_lit_nil: "matches (Lit []) p p"
| m_lit: "same_char x c \<Longrightarrow> matches (Lit xs) (c # b, a) q \<Longrightarrow> matches (Lit (x # xs)) (b, c # a) q"
| m_class: "\<exists>x\<in>set s. same_char x c \<Longrightarrow> matches (Class s) (b, c # a) (c # b, a)"
| m_not_class: "\<not> (\<exists>x\<in>set s. same_char x c) \<Longrightarrow> matches (Not_class s) (b, c # a) (c # b, a)"
| m_digit: "is_digit c \<Longrightarrow> matches Digit (b, c # a) (c # b, a)"
| m_space: "js_space c \<Longrightarrow> matches Space (b, c # a) (c # b, a)"
| m_alnum: "is_digit c \<or> is_letter c \<Longrightarrow> matches Alnum (b, c # a) (c # b, a)"
| m_boundary: "word_edge (fst p) \<noteq> word_edge (snd p) \<Longrightarrow> matches Word_boundary p p"
| m_end: "matches At_end (b, []) (b, [])"
| m_cat: "matches r p q \<Longrightarrow> matches s q t \<Longrightarrow> matches (Cat r s) p t"
| m_or1: "matches r p q \<Longrightarrow> matches (Or r s) p q"
| m_or2: "matches s p q \<Longrightarrow> matches (Or r s) p q"
| m_star_done: "matches (Star r) p p"
| m_star: "matches r p q \<Longrightarrow> matches (Star r) q t \<Longrightarrow> matches (Star r) p t"
| m_upto_done: "matches (Upto n r) p p"
| m_upto: "matches r p q \<Longrightarrow> matches (Upto n r) q t \<Longrightarrow> matches (Upto (Suc n) r) p t"

inductive_simps matches_simps [simp]:
  "matches Eps p q" "matches (Lit []) p q" "matches (Lit (x # xs)) p q" "matches (Class s) p q"
  "matches (Not_class s) p q" "matches Digit p q" "matches Space p q" "matches Alnum p q"
  "matches Word_boundary p q" "matches At_end p q" "matches (Cat r s) p q" "matches (Or r s) p q"

inductive_cases matches_starE: "matches (Star r) p q"
inductive_cases matches_uptoE: "matches (Upto n r) p q"

definition place_text :: "place \<Rightarrow> string" where
  "place_text p = rev (fst p) @ snd p"

lemma matches_text:
  "matches r p q \<Longrightarrow> place_text q = place_text p \<and> length (snd q) \<le> length (snd p)"
  by (induction rule: matches.induct) (auto simp: place_text_def)

lemma same_place:
  assumes "place_text q = place_text p" and "length (snd q) = length (snd p)"
  shows "q = p"
  using assms by (cases p; cases q) (auto simp: place_text_def append_eq_append_conv)

lemma strip_lit_iff: "q \<in> set (strip_lit s p) \<longleftrightarrow> matches (Lit s) p q"
  by (induction s p rule: strip_lit.induct) auto

lemma one_char_iff: "q \<in> set (one_char P p) \<longleftrightarrow> (\<exists>b c a. p = (b, c # a) \<and> P c \<and> q = (c # b, a))"
  by (cases "(P, p)" rule: one_char.cases) auto

lemma star_ends_sound:
  assumes f: "\<And>p q. q \<in> set (f p) \<longleftrightarrow> matches r p q"
  shows "q \<in> set (star_ends f n p) \<Longrightarrow> matches (Star r) p q"
proof (induction n arbitrary: p)
  case (Suc n)
  then show ?case by (auto simp: f intro: m_star_done m_star)
qed (simp add: m_star_done)

lemma star_ends_complete:
  assumes f: "\<And>p q. q \<in> set (f p) \<longleftrightarrow> matches r p q" and m: "matches (Star r) p q"
    and "length (snd p) \<le> n"
  shows "q \<in> set (star_ends f n p)"
  using m \<open>length (snd p) \<le> n\<close>
proof (induction "Star r" p q arbitrary: n rule: matches.induct)
  case (m_star_done p)
  then show ?case by (cases n) auto
next
  case (m_star p k t)
  note step = matches_text [OF m_star(1)]
  show ?case
  proof (cases "length (snd k) = length (snd p)")
    case True
    with step same_place have "k = p" by blast
    with m_star show ?thesis by simp
  next
    case False
    then have less: "length (snd k) < length (snd p)" using step by simp
    with m_star.prems obtain n' where n: "n = Suc n'" by (cases n) auto
    have "t \<in> set (star_ends f n' k)" using m_star n less by simp
    moreover have "k \<in> set (filter (\<lambda>q. length (snd q) < length (snd p)) (f p))"
      using m_star(1) less by (simp add: f)
    ultimately show ?thesis unfolding n star_ends.simps set_simps set_concat set_map by blast
  qed
qed

lemma upto_ends_iff:
  assumes f: "\<And>p q. q \<in> set (f p) \<longleftrightarrow> matches r p q"
  shows "q \<in> set (upto_ends f n p) \<longleftrightarrow> matches (Upto n r) p q"
proof (induction n arbitrary: p)
  case 0
  show ?case by (auto intro: m_upto_done elim: matches_uptoE)
next
  case (Suc n)
  show ?case by (auto simp: f Suc intro: m_upto_done m_upto elim: matches_uptoE)
qed

theorem ends_iff_matches: "q \<in> set (ends r p) \<longleftrightarrow> matches r p q"
proof (induction r arbitrary: p q)
  case (Star r)
  have f: "\<And>p q. q \<in> set (ends r p) \<longleftrightarrow> matches r p q" by (rule Star)
  show ?case unfolding ends.simps
    using star_ends_sound [OF f] star_ends_complete [OF f _ order_refl] by blast
next
  case (Upto n r)
  have f: "\<And>p q. q \<in> set (ends r p) \<longleftrightarrow> matches r p q" by (rule Upto)
  show ?case unfolding ends.simps by (rule upto_ends_iff [OF f])
next
  case (Class s)
  show ?case by (auto simp: one_char_iff list_ex_iff)
next
  case (Not_class s)
  show ?case by (auto simp: one_char_iff list_ex_iff)
next
  case (Cat r s)
  show ?case unfolding ends.simps matches_simps by (auto simp: Cat) (meson Cat.IH(1))
qed (auto simp: strip_lit_iff one_char_iff)

lemma ends_nonempty: "ends r p \<noteq> [] \<longleftrightarrow> (\<exists>q. matches r p q)"
  by (metis ends_iff_matches list.set_intros(1) neq_Nil_conv empty_iff empty_set)

lemma exec_from_some:
  "exec_from r b s = Some i \<Longrightarrow> \<exists>u v. s = u @ v \<and> i = length b + length u \<and> ends r (rev u @ b, v) \<noteq> []"
proof (induction r b s rule: exec_from.induct)
  case (1 r b)
  then show ?case by (auto split: if_splits)
next
  case (2 r b c a)
  show ?case
  proof (cases "ends r (b, c # a) \<noteq> []")
    case True
    then have "i = length b" using 2(2) by simp
    with True show ?thesis by (intro exI [of _ "[]"] exI [of _ "c # a"]) simp
  next
    case False
    with 2 obtain u v where "a = u @ v" "i = length (c # b) + length u" "ends r (rev u @ c # b, v) \<noteq> []" by auto
    then show ?thesis by (intro exI [of _ "c # u"] exI [of _ v]) auto
  qed
qed

lemma exec_from_none: "exec_from r b s = None \<Longrightarrow> s = u @ v \<Longrightarrow> ends r (rev u @ b, v) = []"
proof (induction r b s arbitrary: u rule: exec_from.induct)
  case (2 r b c a)
  then show ?case by (cases u) (auto split: if_splits)
qed (auto split: if_splits)

lemma test_iff: "test r s \<longleftrightarrow> (\<exists>u v q. s = u @ v \<and> matches r (rev u, v) q)"
proof
  assume "test r s"
  then obtain i where "exec_from r [] s = Some i" by (auto simp: test_def exec_index_def)
  from exec_from_some [OF this] show "\<exists>u v q. s = u @ v \<and> matches r (rev u, v) q"
    by (auto simp: ends_nonempty)
next
  assume "\<exists>u v q. s = u @ v \<and> matches r (rev u, v) q"
  then obtain u v q where "s = u @ v" "matches r (rev u, v) q" by blast
  then have "ends r (rev u @ [], v) \<noteq> []" unfolding ends_nonempty append_Nil2 by blast
  then show "test r s" using exec_from_none [of r "[]" s u v] \<open>s = u @ v\<close>
    by (auto simp: test_def exec_index_def)
qed

lemma test_whole_iff: "test_whole r s \<longleftrightarrow> matches r ([], s) (rev s, [])"
proof -
  have "matches r ([], s) (b, []) \<Longrightarrow> b = rev s" for b
    using matches_text [of r "([], s)" "(b, [])"] by (auto simp: place_text_def)
  then show ?thesis unfolding test_whole_def ends_nonempty by auto
qed

end
