(* ===== verification/Gate_Data.thy ===== *)
theory Gate_Data
  imports Js_Value
begin

text \<open>
  The data of the gate store, \<open>src/src/server/agent/gate-store.ts\<close>: gate states, their signal
  histories and the results of verification steps. Times and durations are finite numbers; a field
  that the operations only carry (artifacts, diagnostics, timeouts) is a plain JavaScript value.
\<close>

datatype gate_status = Pending | Passed | Failed | Bypassed

datatype run_status = Running | Run_passed | Run_failed

text \<open>The type of a step stays a string: historical signals have types that are no longer known.\<close>

record signal_step =
  ss_name :: string
  ss_type :: string
  ss_passed :: bool
  ss_skipped :: bool
  ss_output :: string
  ss_duration_ms :: rat
  ss_expect :: "string option"
  ss_artifact :: "js option"
  ss_diagnostics :: "js option"
  ss_status :: "string option"
  ss_timeout :: "js option"
  ss_phase :: "rat option"

record verification_result =
  vr_status :: run_status
  vr_steps :: "signal_step list"

record gate_signal =
  sig_id :: string
  sig_gateId :: string
  sig_goalId :: string
  sig_sessionId :: string
  sig_timestamp :: rat
  sig_commitSha :: string
  sig_metadata :: "(string \<times> string) list option"
  sig_content :: "string option"
  sig_contentVersion :: "rat option"
  sig_verification :: verification_result

record gate_state =
  gs_gateId :: string
  gs_goalId :: string
  gs_status :: gate_status
  gs_statusRevision :: "nat option"
  gs_currentContent :: "string option"
  gs_currentContentVersion :: "rat option"
  gs_currentMetadata :: "(string \<times> string) list option"
  gs_signals :: "gate_signal list"
  gs_cacheInvalidatedAt :: "rat option"
  gs_updatedAt :: rat

record status_commit =
  sc_goalId :: string
  sc_gateId :: string
  sc_previousStatus :: gate_status
  sc_status :: gate_status
  sc_revision :: nat

record reset_result =
  rr_requestedGateId :: string
  rr_affectedGateIds :: "string list"
  rr_changedGateIds :: "string list"
  rr_unchangedGateIds :: "string list"
  rr_previousStatuses :: "(string \<times> gate_status) list"

definition compositeKey :: "string \<Rightarrow> string \<Rightarrow> string" where
  "compositeKey goalId gateId = goalId @ ''::'' @ gateId"

text \<open>
  The writer splits a key at its first double colon. That gives the two ids back, and makes keys of
  different gates different, as long as the goal id has no colon (goal ids are UUIDs).
\<close>

fun split_key :: "string \<Rightarrow> (string \<times> string) option" where
  "split_key [] = None"
| "split_key (c # cs) =
     (if c = CHR '':'' \<and> starts_with '':'' cs then Some ([], drop 1 cs)
      else map_option (\<lambda>(a, b). (c # a, b)) (split_key cs))"

lemma split_compositeKey: "CHR '':'' \<notin> set goalId \<Longrightarrow> split_key (compositeKey goalId gateId) = Some (goalId, gateId)"
proof (induction goalId)
  case Nil
  show ?case by (simp add: compositeKey_def starts_with_def)
next
  case (Cons c cs)
  then have "split_key (cs @ ''::'' @ gateId) = Some (cs, gateId)" by (simp add: compositeKey_def)
  moreover have "c \<noteq> CHR '':''" using Cons.prems by auto
  ultimately show ?case by (simp add: compositeKey_def)
qed

lemma compositeKey_eq:
  assumes "CHR '':'' \<notin> set a" and "CHR '':'' \<notin> set b"
  shows "compositeKey a x = compositeKey b y \<longleftrightarrow> a = b \<and> x = y"
  by (metis assms option.inject prod.inject split_compositeKey)

text \<open>Two goals one of which has a colon at its end can share a key.\<close>

lemma compositeKey_collision: "compositeKey ''g'' '':x'' = compositeKey ''g:'' ''x''"
  by (simp add: compositeKey_def)

end
