(* ===== verification/Verification_Logic.thy ===== *)
theory Verification_Logic
  imports Regex Gate_Data Workflow_Validator
begin

text \<open>
  The pure decisions of the verification harness, \<open>src/src/server/agent/verification-logic.ts\<close>:
  which failures are transient, restart interruptions or provider back-pressure, when a step is
  retried or recovered, substitution of template variables, the order in which steps run, and which
  results of earlier signals are reused. Messages with characters outside Latin-1 are constructors
  with the data they mention. The source never reads the \<open>hasGitBash\<close> argument of
  \<open>decideCommandRecoveryMode\<close>.
\<close>

definition has_any :: "string list \<Rightarrow> string \<Rightarrow> bool" where
  "has_any patterns s = list_ex (js_includes s) patterns"

definition tests_any :: "rx list \<Rightarrow> string \<Rightarrow> bool" where
  "tests_any rs s = list_ex (\<lambda>r. test r s) rs"

section \<open>Patterns\<close>

definition TRANSIENT_ERROR_PATTERNS :: "string list" where
  "TRANSIENT_ERROR_PATTERNS =
    [''timed out'', ''Agent process not running'', ''process exited'', ''Session lost during server restart'',
     ''ECONNRESET'', ''ENOTCONN'', ''EPIPE'', ''spawn UNKNOWN'', ''WebSocket error'', ''socket error'',
     ''socket hang up'', ''connect ECONNREFUSED'', ''Validation failed for tool'',
     ''Agent did not call verification_result after server restart and reminder'',
     ''overloaded_error'', ''rate_limit_error'']"

definition PROVIDER_BACKOFF_REGEXES :: "rx list" where
  "PROVIDER_BACKOFF_REGEXES =
    [cat [Word_boundary,
          Or (Lit ''HTTP'') (cat [Lit ''status'', Opt (Cat (Opt (Class '' _-'')) (Lit ''code'')), Opt (Lit '':'')]),
          Star Space, words [''429'', ''529''], Word_boundary],
     Lit ''overloaded_error'',
     Lit ''rate_limit_error'']"

definition RESTART_INTERRUPT_MARKERS :: "string list" where
  "RESTART_INTERRUPT_MARKERS =
    [''Step was running but had no session ID'', ''Step was interrupted by server restart'',
     ''Session lost during server restart'', ''Agent process exited unexpectedly'',
     ''Reviewer agent process died'', ''Agent did not call verification_result after server restart'',
     ''timed out while resuming after server restart'']"

definition SESSION_RESUME_RERUNNABLE_MARKERS :: "string list" where
  "SESSION_RESUME_RERUNNABLE_MARKERS =
    [''did not call verification_result after server restart'', ''timed out while resuming after server restart'',
     ''Session lost during server restart'', ''Step was interrupted by server restart'',
     ''Step was running but had no session ID'', ''Agent process exited unexpectedly'',
     ''Reviewer agent process died'', ''not ready'', ''did not become ready'']"

definition SESSION_RESUME_UNRECOVERABLE_MARKERS :: "string list" where
  "SESSION_RESUME_UNRECOVERABLE_MARKERS = [''removed'', ''deleted'', ''workspace deleted'', ''container removed'']"

definition TRANSIENT_ERROR_REGEXES :: "rx list" where
  "TRANSIENT_ERROR_REGEXES =
    [cat [Lit ''in JSON at position '', Plus Digit],
     cat [Lit ''Unexpected '',
          any_of [Lit ''token'', Lit ''character'', Lit ''non-whitespace character'',
                  Cat (Lit ''end of '') (words [''JSON'', ''input''])]],
     cat [Lit ''Expected '', Not_class [CHR 0x0A], Upto 119 (Not_class [CHR 0x0A]), Lit '' in JSON''],
     cat [Lit ''Expected '', Opt (Lit ''double-quoted ''), Lit ''property name'']]"

definition dash_or_space :: rx where
  "dash_or_space = Plus (Or (Class ''-'') Space)"

definition TRANSIENT_INFRA_ERROR_REGEXES :: "rx list" where
  "TRANSIENT_INFRA_ERROR_REGEXES =
    [cat [Word_boundary, Lit ''websocket'', Plus Space, Lit ''error'', Word_boundary],
     cat [Word_boundary, Lit ''socket'', Plus Space, Lit ''error'', Word_boundary],
     cat [Word_boundary, Lit ''socket'', Plus Space, Lit ''hang'', Plus Space, Lit ''up'', Word_boundary],
     cat [Word_boundary, Opt (Cat (Lit ''TypeError:'') (Star Space)), Lit ''fetch failed'', Word_boundary],
     cat [Word_boundary, Lit ''UND_ERR_'',
          words [''SOCKET'', ''HEADERS_TIMEOUT'', ''CONNECT_TIMEOUT'', ''BODY_TIMEOUT'', ''ABORTED'', ''DESTROYED''],
          Word_boundary],
     cat [Word_boundary, words [''ECONNRESET'', ''ECONNREFUSED'', ''ENOTCONN'', ''EPIPE''], Word_boundary],
     cat [Word_boundary, Lit ''connection'', Plus Space,
          words [''reset'', ''refused'', ''closed'', ''lost'', ''terminated''], Word_boundary],
     cat [Word_boundary, Lit ''connect'', Plus Space, Lit ''ECONNREFUSED'', Word_boundary],
     cat [Word_boundary, Opt (Cat (Lit ''agent'') (Plus Space)), Lit ''process'', dash_or_space, Lit ''not'',
          dash_or_space, Lit ''running'', Word_boundary],
     cat [Word_boundary, Opt (Cat (Lit ''agent'') (Plus Space)), Lit ''process'', dash_or_space,
          any_of [Lit ''exited'', Cat (Lit ''exit'') (Opt (Lit ''ed'')), Lit ''died'', Lit ''terminated''], Word_boundary]]"

definition QA_NON_TRANSIENT_PATTERNS :: "string list" where
  "QA_NON_TRANSIENT_PATTERNS = [''Agent did not call verification_result'']"

definition GENERIC_AGENT_RETRYABLE_REGEXES :: "rx list" where
  "GENERIC_AGENT_RETRYABLE_REGEXES =
    [cat [Word_boundary, Lit ''the system encountered an unexpected error'', Word_boundary],
     cat [Word_boundary, Lit ''an unexpected '', Opt (words [''agent '', ''system '', ''internal '']), Lit ''error '',
          words [''occurred'', ''happened'', ''was encountered''], Word_boundary],
     cat [Word_boundary, words [''internal'', ''system''], Lit '' '', Opt (Lit ''server ''), Lit ''error'', Word_boundary]]"

definition GENERIC_AGENT_NON_RETRYABLE_REGEXES :: "rx list" where
  "GENERIC_AGENT_NON_RETRYABLE_REGEXES =
    [cat [Word_boundary,
          any_of [Cat (Lit ''auth'') (Opt (words [''entication'', ''orization''])),
                  cat [Lit ''unauthori'', Class ''sz'', Lit ''ed''], Lit ''forbidden''],
          Word_boundary],
     cat [Word_boundary, words [''invalid'', ''missing'', ''no''], Lit '' api key'', Word_boundary],
     cat [Word_boundary, words [''api key'', ''token'', ''credential''], Opt (Lit ''s''), Lit '' '',
          Opt (words [''is '', ''are '']),
          words [''missing'', ''invalid'', ''expired'', ''not configured'', ''required''], Word_boundary],
     cat [Word_boundary, words [''configuration'', ''config''], Lit '' '',
          words [''error'', ''invalid'', ''missing'', ''not configured''], Word_boundary],
     cat [Word_boundary, words [''unsupported'', ''unknown'', ''unrecognized''], Lit '' '',
          words [''provider'', ''model''], Word_boundary],
     cat [Word_boundary, words [''provider'', ''model''], Word_boundary, Upto 80 Dot, Word_boundary,
          words [''unsupported'', ''not supported'', ''unrecognized''], Word_boundary],
     cat [Word_boundary, words [''permission denied'', ''access denied'', ''operation not permitted'', ''eacces'', ''eperm''],
          Word_boundary],
     cat [Word_boundary, words [''user'', ''human''], Lit '' '',
          words [''aborted'', ''cancelled'', ''canceled'', ''interrupted''], Word_boundary],
     cat [Word_boundary, words [''aborterror'', ''cancelled by user'', ''canceled by user''], Word_boundary],
     cat [Word_boundary,
          words [''content policy'', ''policy violation'', ''safety policy'', ''blocked by policy'', ''disallowed content''],
          Word_boundary],
     cat [Word_boundary,
          words [''validationerror'', ''validation error'', ''invalid request'', ''bad request'', ''schema validation''],
          Word_boundary]]"

section \<open>Restart interruptions\<close>

definition isRestartInterruptError :: "string \<Rightarrow> bool" where
  "isRestartInterruptError message =
     (message \<noteq> [] \<and>
      has_any [''Command timed out'', ''timed out'', ''not ready'', ''did not become ready'', ''Agent process exited'',
               ''Agent process not running'', ''process exited''] message)"

record resumed_step =
  rs_passed :: bool
  rs_output :: "string option"
  rs_type :: string

definition isRestartInterruptedStep :: "resumed_step \<Rightarrow> bool" where
  "isRestartInterruptedStep step =
     (if rs_passed step then False
      else let out = (case rs_output step of None \<Rightarrow> [] | Some s \<Rightarrow> s) in
           has_any RESTART_INTERRUPT_MARKERS out \<or>
           ((rs_type step = ''llm-review'' \<or> rs_type step = ''agent-qa'') \<and> js_trim out = []))"

definition shouldSuppressRestartInterrupt :: "resumed_step list \<Rightarrow> bool" where
  "shouldSuppressRestartInterrupt steps =
     (let failedSteps = filter (\<lambda>s. \<not> rs_passed s) steps in
      failedSteps \<noteq> [] \<and> list_all isRestartInterruptedStep failedSteps)"

datatype recovery_mode = Detached | Container_exec | Pending_retry | Unsupported

definition supportsHostDetachedCommandRecovery :: "string \<Rightarrow> bool" where
  "supportsHostDetachedCommandRecovery platform = (platform \<noteq> ''win32'')"

definition decideCommandRecoveryMode :: "string option \<Rightarrow> bool \<Rightarrow> string \<Rightarrow> recovery_mode" where
  "decideCommandRecoveryMode containerId hasStreamCtx platform =
     (if \<not> hasStreamCtx then Unsupported
      else if truthy containerId then Container_exec
      else if \<not> supportsHostDetachedCommandRecovery platform then Pending_retry
      else Detached)"

definition shouldRerunSessionStepOnResume :: "string \<Rightarrow> bool" where
  "shouldRerunSessionStepOnResume reason =
     (reason \<noteq> [] \<and> \<not> has_any SESSION_RESUME_UNRECOVERABLE_MARKERS reason \<and>
      has_any SESSION_RESUME_RERUNNABLE_MARKERS reason)"

section \<open>Transient failures\<close>

fun js_indexOf :: "string \<Rightarrow> string \<Rightarrow> nat option" where
  "js_indexOf [] n = (if n = [] then Some 0 else None)"
| "js_indexOf (c # cs) n = (if starts_with n (c # cs) then Some 0 else map_option Suc (js_indexOf cs n))"

fun first_index :: "rx list \<Rightarrow> string \<Rightarrow> nat option" where
  "first_index [] s = None"
| "first_index (r # rs) s = (case exec_index r s of None \<Rightarrow> first_index rs s | Some i \<Rightarrow> Some i)"

definition line_at :: "string \<Rightarrow> nat \<Rightarrow> string" where
  "line_at s i =
     (let start = Suc i - length (takeWhile (\<lambda>c. c \<noteq> CHR 0x0A) (rev (take (Suc i) s)));
          stop = i + length (takeWhile (\<lambda>c. c \<noteq> CHR 0x0A) (drop i s)) in
      drop start (take stop s))"

definition detectJsonValidationError :: "string \<Rightarrow> string option" where
  "detectJsonValidationError out =
     (if out = [] then None
      else map_option (\<lambda>i. take 400 (js_trim (line_at out i)))
        (case first_index TRANSIENT_ERROR_REGEXES out of
           Some i \<Rightarrow> Some i
         | None \<Rightarrow> js_indexOf out ''Validation failed for tool''))"

section \<open>Failures of the verifier's own transport\<close>

definition busy_text :: rx where
  "busy_text =
     cat [Lit ''Agent is already processing.'', Star Space,
          Lit ''Specify streamingBehavior ('steer' or 'followUp') to queue the message'', Opt (Lit ''.'')]"

definition isReviewerBusyError :: "string \<Rightarrow> bool" where
  "isReviewerBusyError out = (out \<noteq> [] \<and> test_whole busy_text (js_trim out))"

definition VERIFIER_FAILURE_PREFIX :: rx where
  "VERIFIER_FAILURE_PREFIX = Cat (words [''LLM review'', ''Agent QA'']) (Lit '' failed:'')"

definition VERIFIER_BUSY_PARKED_ENVELOPE :: rx where
  "VERIFIER_BUSY_PARKED_ENVELOPE = Lit ''Verifier prompt parked after reviewer contention: ''"

definition verifier_id :: rx where
  "verifier_id = Cat Alnum (Star (Or Alnum (Lit ''-'')))"

definition VERIFIER_RECEIPT_TIMEOUT :: rx where
  "VERIFIER_RECEIPT_TIMEOUT =
     cat [Lit ''Verifier prompt '', verifier_id, Lit '' did not dispatch within '', Plus Digit, Lit ''ms'']"

definition VERIFIER_RESTART_BEFORE_DISPATCH :: rx where
  "VERIFIER_RESTART_BEFORE_DISPATCH =
     Cat (Lit ''Verifier '')
       (Or (cat [Lit ''session '', verifier_id, Lit '' '', words [''restarted'', ''was terminated''], Lit '' before dispatch''])
           (cat [Lit ''prompt '', verifier_id, Lit '' was cancelled before dispatch'']))"

definition VERIFIER_BACKOFF_SUFFIX :: rx where
  "VERIFIER_BACKOFF_SUFFIX =
     Opt (cat [Plus Space, Lit ''Last turn hit a provider '', words [''rate-limit'', ''overload'', ''backoff''],
               Lit '' error'', Star (Not_class [])])"

definition VERIFIER_RECOVERY_PREFIX :: rx where
  "VERIFIER_RECOVERY_PREFIX =
     cat [Lit ''Reviewer agent was not ready / timed out while '',
          words [''resuming'', ''sending post-continuation reminder''], Lit '' after server restart:'', Star Space]"

definition verifier_envelope :: rx where
  "verifier_envelope = Or (Cat VERIFIER_FAILURE_PREFIX (Star Space)) VERIFIER_RECOVERY_PREFIX"

definition isVerifierPromptDispatchTimeoutError :: "string \<Rightarrow> bool" where
  "isVerifierPromptDispatchTimeoutError out =
     (out \<noteq> [] \<and> test_whole (cat [verifier_envelope, VERIFIER_RECEIPT_TIMEOUT, VERIFIER_BACKOFF_SUFFIX]) (js_trim out))"

definition isVerifierBusyTransportError :: "string \<Rightarrow> bool" where
  "isVerifierBusyTransportError out =
     (out \<noteq> [] \<and>
      test_whole (cat [VERIFIER_FAILURE_PREFIX, Star Space, Opt VERIFIER_BUSY_PARKED_ENVELOPE, busy_text]) (js_trim out))"

definition isVerifierRestartBeforeDispatchError :: "string \<Rightarrow> bool" where
  "isVerifierRestartBeforeDispatchError out =
     (if out = [] then False
      else test_whole (cat [verifier_envelope, VERIFIER_RESTART_BEFORE_DISPATCH, VERIFIER_BACKOFF_SUFFIX]) (js_trim out))"

definition matchesAnyTransient :: "string \<Rightarrow> bool" where
  "matchesAnyTransient out =
     (has_any TRANSIENT_ERROR_PATTERNS out \<or> tests_any TRANSIENT_ERROR_REGEXES out \<or>
      tests_any TRANSIENT_INFRA_ERROR_REGEXES out \<or> tests_any PROVIDER_BACKOFF_REGEXES out)"

definition isTransientReviewError :: "string \<Rightarrow> bool" where
  "isTransientReviewError out = matchesAnyTransient out"

definition isTransientQaError :: "string \<Rightarrow> bool" where
  "isTransientQaError out = (if has_any QA_NON_TRANSIENT_PATTERNS out then False else matchesAnyTransient out)"

definition isProviderBackoffError :: "string \<Rightarrow> bool" where
  "isProviderBackoffError out =
     (out \<noteq> [] \<and> (js_includes out ''overloaded_error'' \<or> js_includes out ''rate_limit_error'' \<or>
      tests_any PROVIDER_BACKOFF_REGEXES out))"

definition isNonRetryableAgentError :: "string \<Rightarrow> bool" where
  "isNonRetryableAgentError out = (out \<noteq> [] \<and> tests_any GENERIC_AGENT_NON_RETRYABLE_REGEXES out)"

definition isRetryableGenericAgentError :: "string \<Rightarrow> bool" where
  "isRetryableGenericAgentError out =
     (out \<noteq> [] \<and> \<not> isNonRetryableAgentError out \<and> tests_any GENERIC_AGENT_RETRYABLE_REGEXES out)"

definition isTransientVerifierReviewError :: "string \<Rightarrow> bool" where
  "isTransientVerifierReviewError out =
     (if isNonRetryableAgentError out then False
      else isTransientReviewError out \<or> isVerifierBusyTransportError out \<or>
        isVerifierPromptDispatchTimeoutError out \<or> isVerifierRestartBeforeDispatchError out)"

definition isTransientVerifierQaError :: "string \<Rightarrow> bool" where
  "isTransientVerifierQaError out =
     (if isNonRetryableAgentError out then False
      else isTransientQaError out \<or> isVerifierBusyTransportError out \<or>
        isVerifierPromptDispatchTimeoutError out \<or> isVerifierRestartBeforeDispatchError out)"

datatype retry_decision = Break_loop | Retry

record retry_args =
  ra_passed :: bool
  ra_output :: string
  ra_attempt :: nat
  ra_maxBoundedAttempts :: nat

definition shouldRetryVerificationStep :: "(string \<Rightarrow> bool) \<Rightarrow> retry_args \<Rightarrow> retry_decision" where
  "shouldRetryVerificationStep isTransient args =
     (if ra_passed args then Break_loop
      else if isNonRetryableAgentError (ra_output args) then Break_loop
      else if \<not> (isTransient (ra_output args) \<or> isRetryableGenericAgentError (ra_output args)) then Break_loop
      else if isProviderBackoffError (ra_output args) then Retry
      else if ra_attempt args \<ge> ra_maxBoundedAttempts args then Break_loop else Retry)"

record backoff_snapshot =
  bs_lastTurnErrorMessage :: "string option"
  bs_transientRetryAttempts :: "nat option"
  bs_pendingAutoRetryTimer :: bool

datatype backoff_kind = Rate_limit | Overload | Backoff

text \<open>The note names the kind, the attempts when there were any, a pending retry and the error.\<close>

datatype backoff_note = Backoff_note backoff_kind nat bool string

definition describeProviderBackoff :: "backoff_snapshot option \<Rightarrow> backoff_note option" where
  "describeProviderBackoff session =
     (case session of None \<Rightarrow> None
      | Some s \<Rightarrow>
        let errMsg = (case bs_lastTurnErrorMessage s of None \<Rightarrow> [] | Some m \<Rightarrow> m) in
        if errMsg = [] then None
        else if \<not> isProviderBackoffError errMsg then None
        else
          let has = (\<lambda>n. test (cat [Word_boundary, Lit n, Word_boundary]) errMsg);
              kind = (if js_includes errMsg ''rate_limit_error'' \<or> has ''429'' then Rate_limit
                      else if js_includes errMsg ''overloaded_error'' \<or> has ''529'' then Overload else Backoff);
              attempts = (case bs_transientRetryAttempts s of None \<Rightarrow> 0 | Some n \<Rightarrow> n);
              snippet = js_trim (collapse_space False (take 200 errMsg)) in
          Some (Backoff_note kind attempts (bs_pendingAutoRetryTimer s) snippet))"

section \<open>Gates and templates\<close>

record gate_topology =
  gt_content :: "bool option"
  gt_depends_on :: "string list option"
  gt_dependsOn :: "string list option"

definition isPreImplementationGate :: "gate_topology \<Rightarrow> bool" where
  "isPreImplementationGate g =
     (let deps = (case gt_depends_on g of Some ds \<Rightarrow> ds | None \<Rightarrow> or_empty (gt_dependsOn g)) in
      gt_content g = Some True \<and> deps = [])"

text \<open>
  A place that the expression \<open>\{\{([^}]+)\}\}\<close> matches: the name and the text behind it. The name
  runs up to the next closing brace, so there is at most one way to match at a place.
\<close>

fun placeholder :: "string \<Rightarrow> (string \<times> string) option" where
  "placeholder (a # b # rest) =
     (let body = takeWhile (\<lambda>c. c \<noteq> CHR ''}'') rest; after = dropWhile (\<lambda>c. c \<noteq> CHR ''}'') rest in
      if a = CHR ''{'' \<and> b = CHR ''{'' \<and> body \<noteq> [] \<and> starts_with ''}}'' after then Some (body, drop 2 after) else None)"
| "placeholder _ = None"

datatype piece = Text char | Hole string

lemma placeholder_shorter: "placeholder s = Some (b, rest) \<Longrightarrow> length rest < length s"
proof (induction s rule: placeholder.induct)
  case (1 a x r)
  then have "rest = drop 2 (dropWhile (\<lambda>c. c \<noteq> CHR ''}'') r)" by (auto simp: Let_def split: if_splits)
  then have "length rest \<le> length r" using length_dropWhile_le [of "\<lambda>c. c \<noteq> CHR ''}''" r] by simp
  then show ?case by simp
qed auto

function pieces :: "string \<Rightarrow> piece list" where
  "pieces s =
     (case placeholder s of
        Some (name, rest) \<Rightarrow> Hole name # pieces rest
      | None \<Rightarrow> (case s of [] \<Rightarrow> [] | c # cs \<Rightarrow> Text c # pieces cs))"
  by auto
termination
  by (relation "measure length") (auto dest: placeholder_shorter)

declare pieces.simps [simp del]

text \<open>
  A read \<open>vars[k]\<close> guarded by \<open>k in vars\<close>: the names every object inherits are found too, and what
  they are prints as a native function.
\<close>

definition native_text :: "string \<Rightarrow> string" where
  "native_text k =
     (if k = ''__proto__'' then ''[object Object]''
      else ''function '' @ (if k = ''constructor'' then ''Object'' else k) @ ''() { [native code] }'')"

definition record_read :: "(string \<times> string) list \<Rightarrow> string \<Rightarrow> string option" where
  "record_read vars k =
     (case map_of vars k of
        Some v \<Rightarrow> Some v
      | None \<Rightarrow> if in_object k [] then Some (native_text k) else None)"

text \<open>\<open>/^([^.]+)\.meta\.(.+)$/\<close>\<close>

definition meta_reference :: "string \<Rightarrow> (string \<times> string) option" where
  "meta_reference s =
     (let gateId = takeWhile (\<lambda>c. c \<noteq> CHR ''.'') s; rest = dropWhile (\<lambda>c. c \<noteq> CHR ''.'') s; field = drop 6 rest in
      if gateId \<noteq> [] \<and> starts_with ''.meta.'' rest \<and> field \<noteq> [] \<and>
         list_all (\<lambda>c. c \<noteq> CHR 0x0A \<and> c \<noteq> CHR 0x0D) field
      then Some (gateId, field) else None)"

record template_vars =
  tv_builtins :: "(string \<times> string) list"
  tv_agent :: "(string \<times> string) list"
  tv_gates :: "(string \<times> (string \<times> string) list option) list option"

definition lookup_var :: "template_vars \<Rightarrow> string \<Rightarrow> string option" where
  "lookup_var tv key =
     (let trimmed = js_trim key in
      if starts_with ''project.'' trimmed then None
      else if starts_with ''agent.'' trimmed then record_read (tv_agent tv) (drop 6 trimmed)
      else (case (meta_reference trimmed, tv_gates tv) of
          (Some (gateId, field), Some gs) \<Rightarrow>
            (case map_of gs gateId of
               Some (Some metadata) \<Rightarrow> record_read metadata field
             | _ \<Rightarrow> None)
        | _ \<Rightarrow> record_read (tv_builtins tv) trimmed))"

definition hole_text :: "string \<Rightarrow> string" where
  "hole_text name = ''{{'' @ name @ ''}}''"

fun fill :: "template_vars \<Rightarrow> piece \<Rightarrow> string" where
  "fill tv (Text c) = [c]"
| "fill tv (Hole name) = (case lookup_var tv name of Some v \<Rightarrow> v | None \<Rightarrow> hole_text name)"

definition substituteVars :: "template_vars \<Rightarrow> string \<Rightarrow> string" where
  "substituteVars tv template = concat (map (fill tv) (pieces template))"

fun holes :: "piece list \<Rightarrow> string list" where
  "holes [] = []"
| "holes (Text c # ps) = holes ps"
| "holes (Hole n # ps) = n # holes ps"

datatype skip_reason = Empty_command | Unresolved_variable string

definition isCommandStepSkippable :: "string \<Rightarrow> skip_reason option" where
  "isCommandStepSkippable resolvedCmd =
     (let trimmed = js_trim resolvedCmd in
      if trimmed = [] then Some Empty_command
      else (case holes (pieces trimmed) of
          name # _ \<Rightarrow> Some (Unresolved_variable (js_trim name))
        | [] \<Rightarrow> None))"

definition READY_TO_MERGE_REQUIRED_BUILTINS :: "string list" where
  "READY_TO_MERGE_REQUIRED_BUILTINS = [''branch'', ''baseBranch'', ''master'', ''cwd'', ''goal_spec'', ''commit'']"

text \<open>The name of the unresolved variable that the failure message mentions.\<close>

definition readyToMergeUnresolvedBuiltinFailure :: "string \<Rightarrow> string \<Rightarrow> string option" where
  "readyToMergeUnresolvedBuiltinFailure gateId resolvedCmd =
     (if gateId \<noteq> ''ready-to-merge'' then None
      else (case filter (\<lambda>n. n \<in> set READY_TO_MERGE_REQUIRED_BUILTINS) (map js_trim (holes (pieces resolvedCmd))) of
          [] \<Rightarrow> None
        | name # _ \<Rightarrow> Some name))"

section \<open>Steps that are expected to fail\<close>

datatype expect_failure =
    Unexpected_success string
  | No_error_pattern "int option" string
  | Expected_output string
  | Expected_exit_code "int option"
  | Other_output "int option" string string
  | Invalid_pattern string string

fun expect_passed :: "expect_failure \<Rightarrow> bool" where
  "expect_passed (Expected_output _) = True"
| "expect_passed (Expected_exit_code _) = True"
| "expect_passed _ = False"

text \<open>
  \<open>compile\<close> stands for \<open>new RegExp(errorPattern, 'i')\<close> on a pattern that a user wrote: the message
  of the syntax error, or the test.
\<close>

definition matchExpectFailure :: "(string \<Rightarrow> string + (string \<Rightarrow> bool)) \<Rightarrow> int option \<Rightarrow> string \<Rightarrow> string option \<Rightarrow> expect_failure" where
  "matchExpectFailure compile exitCode out errorPattern =
     (if exitCode = Some 0 then Unexpected_success out
      else if \<not> truthy errorPattern then No_error_pattern exitCode (take 500 out)
      else (case compile (the errorPattern) of
          Inl msg \<Rightarrow> Invalid_pattern msg (the errorPattern)
        | Inr matches_pattern \<Rightarrow>
            if matches_pattern out
            then (if out \<noteq> [] then Expected_output out else Expected_exit_code exitCode)
            else Other_output exitCode (the errorPattern) (take 500 out)))"

section \<open>The order of the steps\<close>

text \<open>
  The steps of a gate are objects: two steps are the same when their references are, so a step is a
  reference and a value here. Phases are compared by the sign of their difference.
\<close>

type_synonym step_obj = "nat \<times> verify_step"

fun num_before :: "js_num \<Rightarrow> js_num \<Rightarrow> bool" where
  "num_before (Fin a) (Fin b) = (a < b)"
| "num_before NegInf b = (b \<noteq> NegInf \<and> b \<noteq> NaN)"
| "num_before a PosInf = (a \<noteq> PosInf \<and> a \<noteq> NaN)"
| "num_before _ _ = False"

definition index_of :: "step_obj list \<Rightarrow> step_obj \<Rightarrow> int" where
  "index_of steps s =
     (let before = takeWhile (\<lambda>t. fst t \<noteq> fst s) steps in
      if length before = length steps then - 1 else int (length before))"

definition step_phase :: "step_obj \<Rightarrow> js_num" where
  "step_phase s = (case st_phase (snd s) of Some p \<Rightarrow> p | None \<Rightarrow> Fin 0)"

type_synonym phase_groups = "(js_num \<times> (step_obj \<times> int) list) list"

definition add_to_group :: "step_obj list \<Rightarrow> phase_groups \<Rightarrow> step_obj \<Rightarrow> phase_groups" where
  "add_to_group all_steps groups s =
     AList.update (step_phase s) (or_empty (map_of groups (step_phase s)) @ [(s, index_of all_steps s)]) groups"

definition groupStepsByPhase :: "step_obj list \<Rightarrow> step_obj list \<Rightarrow> phase_groups" where
  "groupStepsByPhase active all_steps = foldl (add_to_group all_steps) [] active"

text \<open>
  A sort by a consistent comparison has one result on distinct numbers, so insertion computes it;
  with a NaN among the phases the order is up to the implementation and this definition says nothing.
\<close>

fun insert_phase :: "js_num \<Rightarrow> js_num list \<Rightarrow> js_num list" where
  "insert_phase p [] = [p]"
| "insert_phase p (q # qs) = (if num_before q p then q # insert_phase p qs else p # q # qs)"

definition getSortedPhases :: "phase_groups \<Rightarrow> js_num list" where
  "getSortedPhases groups = foldr insert_phase (map fst groups) []"

definition skips_step :: "string list \<Rightarrow> step_obj \<Rightarrow> bool" where
  "skips_step enabled s = (st_optional (snd s) \<and> st_name (snd s) \<notin> set enabled)"

definition partitionOptionalSteps :: "step_obj list \<Rightarrow> string list \<Rightarrow> step_obj list \<times> nat list" where
  "partitionOptionalSteps steps enabled =
     (filter (\<lambda>s. \<not> skips_step enabled s) steps,
      map fst (filter (\<lambda>(i, s). skips_step enabled s) (enumerate 0 steps)))"

section \<open>Reuse of results\<close>

definition cache_step :: "(string \<times> signal_step) list \<Rightarrow> signal_step \<Rightarrow> (string \<times> signal_step) list" where
  "cache_step cache s =
     (if ss_type s = ''human-signoff'' then cache
      else if ss_passed s \<and> map_of cache (ss_name s) = None then AList.update (ss_name s) s cache
      else cache)"

definition cache_signal ::
  "string \<Rightarrow> string \<Rightarrow> rat option \<Rightarrow> (string \<times> signal_step) list \<Rightarrow> gate_signal \<Rightarrow> (string \<times> signal_step) list" where
  "cache_signal currentSignalId commitSha invalidatedAt cache prev =
     (if sig_id prev = currentSignalId then cache
      else if (case invalidatedAt of Some t \<Rightarrow> sig_timestamp prev \<le> t | None \<Rightarrow> False) then cache
      else if sig_commitSha prev \<noteq> commitSha then cache
      else if vr_status (sig_verification prev) = Running then cache
      else foldl cache_step cache (vr_steps (sig_verification prev)))"

definition buildStepCache ::
  "gate_signal list \<Rightarrow> string \<Rightarrow> string option \<Rightarrow> rat option \<Rightarrow> (string \<times> signal_step) list" where
  "buildStepCache signals currentSignalId commitSha invalidatedAt =
     (if \<not> truthy commitSha then []
      else foldl (cache_signal currentSignalId (the commitSha) invalidatedAt) [] signals)"

definition canSkipAllSteps :: "(string \<times> signal_step) list \<Rightarrow> verify_step list \<Rightarrow> bool" where
  "canSkipAllSteps cache activeSteps =
     (length cache \<ge> length activeSteps \<and> list_all (\<lambda>s. map_of cache (st_name s) \<noteq> None) activeSteps)"

definition computeAllPassed :: "signal_step list \<Rightarrow> bool" where
  "computeAllPassed results = list_all (\<lambda>r. ss_skipped r \<or> ss_passed r) results"

end
