(* ===== verification/Verification_Checks.thy ===== *)
theory Verification_Checks
  imports Verification_Logic
begin

text \<open>
  What the decisions of the verification harness guarantee: which results are reused, in which order
  the steps run, what is left of a template after substitution, and how the failure classifiers
  relate.
\<close>

section \<open>Reused results\<close>

text \<open>The reference: all results that may be reused, in the order of the signals and of their steps.\<close>

definition reusable_step :: "signal_step \<Rightarrow> bool" where
  "reusable_step s = (ss_type s \<noteq> ''human-signoff'' \<and> ss_passed s)"

definition reusable_signal :: "string \<Rightarrow> string \<Rightarrow> rat option \<Rightarrow> gate_signal \<Rightarrow> bool" where
  "reusable_signal current sha invalidatedAt sig =
     (sig_id sig \<noteq> current \<and> (\<forall>t. invalidatedAt = Some t \<longrightarrow> t < sig_timestamp sig) \<and>
      sig_commitSha sig = sha \<and> vr_status (sig_verification sig) \<noteq> Running)"

definition reusable_results :: "string \<Rightarrow> string \<Rightarrow> rat option \<Rightarrow> gate_signal list \<Rightarrow> signal_step list" where
  "reusable_results current sha invalidatedAt signals =
     filter reusable_step
       (concat (map (\<lambda>sig. vr_steps (sig_verification sig)) (filter (reusable_signal current sha invalidatedAt) signals)))"

lemma map_of_cache_steps:
  "map_of (foldl cache_step cache ss) n =
     (case map_of cache n of Some s \<Rightarrow> Some s | None \<Rightarrow> find (\<lambda>s. ss_name s = n) (filter reusable_step ss))"
proof (induction ss arbitrary: cache)
  case (Cons s ss)
  show ?case unfolding foldl.simps Cons.IH
    by (auto simp: cache_step_def reusable_step_def split: option.splits)
qed (simp split: option.splits)

lemma cache_signal_eq:
  "cache_signal current sha resetAt cache sig =
     (if reusable_signal current sha resetAt sig then foldl cache_step cache (vr_steps (sig_verification sig)) else cache)"
  by (auto simp: cache_signal_def reusable_signal_def split: option.splits)

lemma find_append: "find P (xs @ ys) = (case find P xs of Some x \<Rightarrow> Some x | None \<Rightarrow> find P ys)"
  by (induction xs) auto

lemma map_of_cache_signals:
  "map_of (foldl (cache_signal current sha resetAt) cache signals) n =
     (case map_of cache n of Some s \<Rightarrow> Some s
      | None \<Rightarrow> find (\<lambda>s. ss_name s = n) (reusable_results current sha resetAt signals))"
proof (induction signals arbitrary: cache)
  case (Cons sig sigs)
  have results: "reusable_results current sha resetAt (sig # sigs) =
      (if reusable_signal current sha resetAt sig then filter reusable_step (vr_steps (sig_verification sig)) else []) @
      reusable_results current sha resetAt sigs"
    by (simp add: reusable_results_def)
  show ?case unfolding foldl.simps Cons.IH results cache_signal_eq [of _ _ _ cache sig]
    by (cases "reusable_signal current sha resetAt sig")
      (auto simp: map_of_cache_steps find_append split: option.splits)
qed (simp add: reusable_results_def split: option.splits)

text \<open>
  C29: a step is answered from the cache exactly when an earlier signal for the same commit, finished
  and newer than the last reset, has a passed result of that name that is no human sign-off, and the
  first such result is the one that is used; when all steps can be skipped, every one of them has
  such a result.
\<close>

theorem step_cache_exact:
  assumes "sha \<noteq> []"
  shows "map_of (buildStepCache signals current (Some sha) resetAt) n =
      find (\<lambda>s. ss_name s = n) (reusable_results current sha resetAt signals) \<and>
    (canSkipAllSteps (buildStepCache signals current (Some sha) resetAt) steps \<longrightarrow>
      (\<forall>st\<in>set steps. \<exists>sig\<in>set signals. \<exists>s\<in>set (vr_steps (sig_verification sig)).
        ss_name s = st_name st \<and> ss_passed s \<and> ss_type s \<noteq> ''human-signoff'' \<and> sig_id sig \<noteq> current \<and>
        sig_commitSha sig = sha \<and> vr_status (sig_verification sig) \<noteq> Running \<and>
        (\<forall>t. resetAt = Some t \<longrightarrow> t < sig_timestamp sig)))"
proof -
  have eq: "map_of (buildStepCache signals current (Some sha) resetAt) k =
      find (\<lambda>s. ss_name s = k) (reusable_results current sha resetAt signals)" for k
    using assms by (simp add: buildStepCache_def map_of_cache_signals)
  have hit: "\<exists>s\<in>set (reusable_results current sha resetAt signals). ss_name s = k"
    if "map_of (buildStepCache signals current (Some sha) resetAt) k \<noteq> None" for k
    using that unfolding eq by (auto simp: find_Some_iff in_set_conv_nth intro: nth_mem)
  have "\<exists>sig\<in>set signals. \<exists>s\<in>set (vr_steps (sig_verification sig)). ss_name s = st_name st \<and> ss_passed s \<and>
      ss_type s \<noteq> ''human-signoff'' \<and> sig_id sig \<noteq> current \<and> sig_commitSha sig = sha \<and>
      vr_status (sig_verification sig) \<noteq> Running \<and> (\<forall>t. resetAt = Some t \<longrightarrow> t < sig_timestamp sig)"
    if "canSkipAllSteps (buildStepCache signals current (Some sha) resetAt) steps" "st \<in> set steps" for st
  proof -
    have "map_of (buildStepCache signals current (Some sha) resetAt) (st_name st) \<noteq> None"
      using that by (auto simp: canSkipAllSteps_def list_all_iff)
    from hit [OF this] show ?thesis
      by (fastforce simp: reusable_results_def reusable_step_def reusable_signal_def)
  qed
  with eq show ?thesis by blast
qed

section \<open>The order of the steps\<close>

definition phase_ok :: "js_num \<Rightarrow> bool" where
  "phase_ok p = (p \<noteq> NaN)"

lemma num_before_trans: "num_before a b \<Longrightarrow> num_before b c \<Longrightarrow> num_before a c"
  by (cases a; cases b; cases c) auto

lemma num_before_total: "phase_ok a \<Longrightarrow> phase_ok b \<Longrightarrow> a \<noteq> b \<Longrightarrow> \<not> num_before a b \<Longrightarrow> num_before b a"
  by (cases a; cases b) (auto simp: phase_ok_def)

lemma set_insert_phase [simp]: "set (insert_phase p qs) = insert p (set qs)"
  by (induction qs) auto

lemma insert_phase_sorted:
  "sorted_wrt num_before qs \<Longrightarrow> phase_ok p \<Longrightarrow> \<forall>q\<in>set qs. phase_ok q \<Longrightarrow> p \<notin> set qs \<Longrightarrow>
   sorted_wrt num_before (insert_phase p qs)"
proof (induction qs)
  case (Cons q qs)
  show ?case
  proof (cases "num_before q p")
    case True
    with Cons show ?thesis by auto
  next
    case False
    then have "num_before p q" using Cons.prems num_before_total by (metis list.set_intros(1))
    with Cons False show ?thesis by (auto intro: num_before_trans)
  qed
qed simp

lemma sort_phases:
  "distinct ps \<Longrightarrow> \<forall>p\<in>set ps. phase_ok p \<Longrightarrow>
   sorted_wrt num_before (foldr insert_phase ps []) \<and> set (foldr insert_phase ps []) = set ps"
  by (induction ps) (auto intro: insert_phase_sorted)

lemma groups_invariant:
  "distinct (map fst groups) \<Longrightarrow>
   distinct (map fst (foldl (add_to_group all_steps) groups active)) \<and>
   fst ` set (foldl (add_to_group all_steps) groups active) = fst ` set groups \<union> step_phase ` set active \<and>
   or_empty (map_of (foldl (add_to_group all_steps) groups active) p) =
     or_empty (map_of groups p) @ map (\<lambda>s. (s, index_of all_steps s)) (filter (\<lambda>s. step_phase s = p) active)"
proof (induction active arbitrary: groups)
  case (Cons s active)
  have "distinct (map fst (add_to_group all_steps groups s))"
    using Cons.prems by (simp add: add_to_group_def)
  note IH = Cons.IH [OF this]
  have "fst ` set (add_to_group all_steps groups s) = insert (step_phase s) (fst ` set groups)"
    by (simp add: add_to_group_def dom_map_of_conv_image_fst [symmetric])
  then show ?case using IH by (auto simp: add_to_group_def)
qed simp

lemma index_of_nth:
  assumes "distinct (map fst steps)" and "i < length steps"
  shows "index_of steps (steps ! i) = int i"
proof -
  have "takeWhile (\<lambda>t. fst t \<noteq> fst (steps ! i)) steps = take i steps"
    using assms by (intro takeWhile_eq_take_P_nth) (auto simp: distinct_conv_nth)
  with assms show ?thesis by (simp add: index_of_def Let_def)
qed

text \<open>The reference: the steps that run, each with its place in the gate.\<close>

definition running_steps :: "step_obj list \<Rightarrow> string list \<Rightarrow> (step_obj \<times> int) list" where
  "running_steps steps enabled =
     map (\<lambda>(i, s). (s, int i)) (filter (\<lambda>(i, s). \<not> skips_step enabled s) (enumerate 0 steps))"

lemma running_steps_eq:
  assumes "distinct (map fst steps)"
  shows "map (\<lambda>s. (s, index_of steps s)) (filter (\<lambda>s. \<not> skips_step enabled s) steps) = running_steps steps enabled"
proof -
  have "map (\<lambda>(i, s). (s, index_of steps s)) (filter (\<lambda>(i, s). \<not> skips_step enabled s) (enumerate 0 steps)) =
      running_steps steps enabled"
    unfolding running_steps_def
    using index_of_nth [OF assms] by (intro map_cong) (fastforce simp: in_set_enumerate_eq)+
  moreover have "map (\<lambda>(i, s). (s, f s)) (filter (\<lambda>(i, s). P s) (enumerate k xs)) = map (\<lambda>s. (s, f s)) (filter P xs)"
    for f :: "step_obj \<Rightarrow> int" and P k xs
    by (induction xs arbitrary: k) auto
  ultimately show ?thesis by metis
qed

text \<open>
  The steps of a gate run phase by phase: the phases come in strictly increasing order, each is the
  phase of some running step, its group is exactly the running steps of that phase in the order of the
  gate with their places there, and the skipped places are exactly those of the optional steps that the
  goal has not enabled.
\<close>

theorem steps_run_in_phase_order:
  assumes "distinct (map fst steps)" and "\<forall>s\<in>set steps. step_phase s \<noteq> NaN"
    and "partitionOptionalSteps steps enabled = (active, skipped)"
    and "groups = groupStepsByPhase active steps"
  shows "sorted_wrt num_before (getSortedPhases groups) \<and>
    set (getSortedPhases groups) = step_phase ` set active \<and>
    (\<forall>p. or_empty (map_of groups p) = filter (\<lambda>(s, i). step_phase s = p) (running_steps steps enabled)) \<and>
    (\<forall>i. i \<in> set skipped \<longleftrightarrow> i < length steps \<and> st_optional (snd (steps ! i)) \<and> st_name (snd (steps ! i)) \<notin> set enabled)"
proof -
  from assms(3) have active: "active = filter (\<lambda>s. \<not> skips_step enabled s) steps"
    and skipped: "skipped = map fst (filter (\<lambda>(i, s). skips_step enabled s) (enumerate 0 steps))"
    by (simp_all add: partitionOptionalSteps_def)
  note resetAt = groups_invariant [of "[]" steps active, simplified, folded groupStepsByPhase_def assms(4)]
  then have g: "distinct (map fst groups)" "fst ` set groups = step_phase ` set active" by blast+
  then have "\<forall>p\<in>set (map fst groups). phase_ok p"
    using assms(2) by (auto simp: phase_ok_def active)
  from sort_phases [OF g(1) this] g(2)
  have sorted: "sorted_wrt num_before (getSortedPhases groups)" "set (getSortedPhases groups) = step_phase ` set active"
    by (simp_all add: getSortedPhases_def)
  have "or_empty (map_of groups p) = filter (\<lambda>(s, i). step_phase s = p) (running_steps steps enabled)" for p
    unfolding running_steps_eq [OF assms(1), symmetric]
    using resetAt by (simp add: active filter_map o_def)
  moreover have "i \<in> set skipped \<longleftrightarrow> i < length steps \<and> st_optional (snd (steps ! i)) \<and> st_name (snd (steps ! i)) \<notin> set enabled" for i
    by (auto simp: skipped skips_step_def in_set_enumerate_eq image_iff)
  ultimately show ?thesis using sorted by blast
qed

section \<open>What is left after substitution\<close>

lemma pieces_simps:
  "pieces [] = []"
  "placeholder s = Some (n, rest) \<Longrightarrow> pieces s = Hole n # pieces rest"
  "placeholder (c # cs) = None \<Longrightarrow> pieces (c # cs) = Text c # pieces cs"
  by (simp_all add: pieces.simps [of "[]"] pieces.simps [of s] pieces.simps [of "c # cs"])

lemma sub_simps:
  "substituteVars tv [] = []"
  "placeholder s = Some (n, rest) \<Longrightarrow> substituteVars tv s = fill tv (Hole n) @ substituteVars tv rest"
  "placeholder (c # cs) = None \<Longrightarrow> substituteVars tv (c # cs) = c # substituteVars tv cs"
  by (simp_all add: substituteVars_def pieces_simps)

abbreviation to_brace :: "string \<Rightarrow> string" where
  "to_brace \<equiv> takeWhile (\<lambda>c. c \<noteq> CHR ''}'')"

abbreviation from_brace :: "string \<Rightarrow> string" where
  "from_brace \<equiv> dropWhile (\<lambda>c. c \<noteq> CHR ''}'')"

lemma placeholder_SomeD:
  assumes "placeholder s = Some (n, rest)"
  shows "s = ''{{'' @ n @ ''}}'' @ rest \<and> n \<noteq> [] \<and> CHR ''}'' \<notin> set n"
proof (cases s rule: placeholder.cases)
  case (1 a b r)
  with assms have *: "a = CHR ''{''" "b = CHR ''{''" "n = to_brace r" "n \<noteq> []" "starts_with ''}}'' (from_brace r)"
    "rest = drop 2 (from_brace r)"
    by (auto simp: Let_def split: if_splits)
  have "from_brace r = ''}}'' @ rest"
    using *(5) unfolding starts_with_def *(6) using append_take_drop_id [of 2 "from_brace r"] by (simp add: numeral_2_eq_2)
  then have "r = n @ ''}}'' @ rest" using takeWhile_dropWhile_id [of "\<lambda>c. c \<noteq> CHR ''}''" r] *(3) by metis
  then show ?thesis using 1 * by (auto dest: set_takeWhileD)
qed (use assms in auto)

lemma placeholder_hole:
  assumes "n \<noteq> []" and "CHR ''}'' \<notin> set n"
  shows "placeholder (''{{'' @ n @ ''}}'' @ rest) = Some (n, rest)"
proof -
  have "to_brace (n @ ''}}'' @ rest) = n" "from_brace (n @ ''}}'' @ rest) = ''}}'' @ rest"
    using assms(2) by (auto simp: takeWhile_append dropWhile_append)
  then show ?thesis using assms(1) by (simp add: starts_with_def)
qed

declare placeholder.simps [simp del]

lemma placeholder_open: "placeholder (c # cs) = Some x \<Longrightarrow> c = CHR ''{''"
  using placeholder_SomeD [of "c # cs"] by (cases x) auto

lemma placeholder_from_brace: "placeholder s = Some x \<Longrightarrow> starts_with ''}}'' (from_brace s)"
  by (cases s rule: placeholder.cases) (auto simp: placeholder.simps Let_def split: if_splits)

lemma pieces_plain:
  "CHR ''{'' \<notin> set v \<Longrightarrow> pieces (v @ s) = map Text v @ pieces s"
proof (induction v)
  case (Cons c v)
  then have "placeholder (c # v @ s) = None" using placeholder_open by (cases "placeholder (c # v @ s)") auto
  with Cons show ?case by (simp add: pieces_simps)
qed simp

lemma sub_to_brace:
  "\<not> starts_with ''}}'' (from_brace s) \<Longrightarrow> substituteVars tv s = to_brace s @ substituteVars tv (from_brace s)"
proof (induction s)
  case (Cons c cs)
  show ?case
  proof (cases "c = CHR ''}''")
    case False
    have "placeholder (c # cs) = None"
      using placeholder_from_brace [of "c # cs"] Cons.prems by (cases "placeholder (c # cs)") auto
    with Cons False show ?thesis by (simp add: sub_simps)
  qed simp
qed (simp add: sub_simps)

text \<open>Replacement texts without braces that are not empty cannot complete or hide a placeholder.\<close>

definition plain_values :: "template_vars \<Rightarrow> string \<Rightarrow> bool" where
  "plain_values tv s =
     list_all (\<lambda>n. case lookup_var tv n of None \<Rightarrow> True | Some v \<Rightarrow> v \<noteq> [] \<and> CHR ''{'' \<notin> set v \<and> CHR ''}'' \<notin> set v)
       (holes (pieces s))"

lemma plain_values_step:
  "placeholder s = Some (n, rest) \<Longrightarrow> plain_values tv s \<Longrightarrow>
     plain_values tv rest \<and> (\<forall>v. lookup_var tv n = Some v \<longrightarrow> v \<noteq> [] \<and> CHR ''{'' \<notin> set v \<and> CHR ''}'' \<notin> set v)"
  "placeholder (c # cs) = None \<Longrightarrow> plain_values tv (c # cs) \<Longrightarrow> plain_values tv cs"
  by (auto simp: plain_values_def pieces_simps)

lemma plain_values_from_brace:
  "\<not> starts_with ''}}'' (from_brace s) \<Longrightarrow> plain_values tv s \<Longrightarrow> plain_values tv (from_brace s)"
proof (induction s)
  case (Cons c cs)
  have "placeholder (c # cs) = None"
    using placeholder_from_brace [of "c # cs"] Cons.prems by (cases "placeholder (c # cs)") auto
  with Cons show ?case by (auto dest: plain_values_step)
qed simp

lemma sub_first_char:
  assumes "plain_values tv s" and "substituteVars tv s = CHR ''}'' # r"
  shows "\<exists>s'. s = CHR ''}'' # s'"
proof (cases "placeholder s")
  case None
  with assms show ?thesis by (cases s) (auto simp: sub_simps)
next
  case (Some p)
  then obtain n rest where p: "placeholder s = Some (n, rest)" by (cases p) auto
  with assms show ?thesis
    using plain_values_step(1) [OF p assms(1)]
    by (cases "lookup_var tv n") (auto simp: sub_simps hole_text_def append_eq_Cons_conv)
qed

lemma split_at_brace:
  assumes "u @ CHR ''}'' # v = n @ CHR ''}'' # w" and "CHR ''}'' \<notin> set u" and "CHR ''}'' \<notin> set n"
  shows "CHR ''}'' # v = CHR ''}'' # w"
proof -
  have "from_brace (x @ CHR ''}'' # y) = CHR ''}'' # y" if "CHR ''}'' \<notin> set x" for x y
    using that by (auto simp: dropWhile_append)
  with assms show ?thesis by metis
qed

lemma sub_no_placeholder:
  assumes none: "placeholder (c # cs) = None" and plain: "plain_values tv (c # cs)"
  shows "placeholder (c # substituteVars tv cs) = None"
proof (rule ccontr)
  assume "placeholder (c # substituteVars tv cs) \<noteq> None"
  then obtain n rest where p: "placeholder (c # substituteVars tv cs) = Some (n, rest)" by auto
  from placeholder_SomeD [OF p] have c: "c = CHR ''{''" and out: "substituteVars tv cs = CHR ''{'' # n @ ''}}'' @ rest"
    and n: "n \<noteq> []" "CHR ''}'' \<notin> set n" by auto
  have plain_cs: "plain_values tv cs" by (rule plain_values_step(2) [OF none plain])
  have cs_none: "placeholder cs = None"
  proof (rule ccontr)
    assume "placeholder cs \<noteq> None"
    then obtain m r where "placeholder cs = Some (m, r)" by auto
    from placeholder_SomeD [OF this] have *: "c # cs = ''{{'' @ (CHR ''{'' # m) @ ''}}'' @ r" "CHR ''}'' \<notin> set (CHR ''{'' # m)"
      using c by auto
    have "placeholder (c # cs) \<noteq> None" unfolding *(1) by (simp only: placeholder_hole [OF list.distinct(2) *(2)]) simp
    with none show False by simp
  qed
  obtain ds where cs: "cs = CHR ''{'' # ds" and out_ds: "substituteVars tv ds = n @ ''}}'' @ rest"
  proof (cases cs)
    case Nil
    with out show ?thesis by (simp add: sub_simps(1))
  next
    case (Cons d ds)
    with cs_none have "substituteVars tv cs = d # substituteVars tv ds" by (simp add: sub_simps(3))
    with out Cons that show ?thesis by auto
  qed
  have plain_ds: "plain_values tv ds" using plain_values_step(2) [of "CHR ''{''" ds tv] cs_none plain_cs cs by simp
  show False
  proof (cases "starts_with ''}}'' (from_brace ds)")
    case True
    then have "to_brace ds = []" using none c cs by (auto simp: placeholder.simps Let_def split: if_splits)
    with True obtain es where "ds = CHR ''}'' # es"
      by (cases ds) (auto simp: starts_with_def split: if_splits)
    moreover from this have "placeholder (CHR ''}'' # es) = None"
      using placeholder_open [of "CHR ''}''" es] by (cases "placeholder (CHR ''}'' # es)") auto
    ultimately have "CHR ''}'' # substituteVars tv es = n @ ''}}'' @ rest"
      using out_ds by (simp add: sub_simps)
    with n show False by (cases n) auto
  next
    case False
    note ds = sub_to_brace [OF False, of tv]
    have "CHR ''}'' \<notin> set (to_brace ds)" by (auto dest: set_takeWhileD)
    show False
    proof (cases "from_brace ds")
      case Nil
      have sub_ds: "substituteVars tv ds = to_brace ds" using ds unfolding Nil by (simp only: sub_simps(1) append_Nil2)
      have "CHR ''}'' \<notin> set (substituteVars tv ds)" unfolding sub_ds by (rule \<open>CHR ''}'' \<notin> set (to_brace ds)\<close>)
      then show False using out_ds by simp
    next
      case (Cons d es)
      then have d: "d = CHR ''}''" using hd_dropWhile [of "\<lambda>c. c \<noteq> CHR ''}''" ds] by simp
      then have es: "\<nexists>es'. es = CHR ''}'' # es'" using False Cons by (auto simp: starts_with_def)
      have "placeholder (d # es) = None" using placeholder_open [of d es] d by (cases "placeholder (d # es)") auto
      then have "substituteVars tv ds = to_brace ds @ CHR ''}'' # substituteVars tv es"
        using ds Cons d by (simp add: sub_simps(3))
      then have "CHR ''}'' # substituteVars tv es = ''}}'' @ rest"
        using out_ds split_at_brace [OF _ \<open>CHR ''}'' \<notin> set (to_brace ds)\<close> n(2)] by simp
      moreover have "plain_values tv es"
        using plain_values_from_brace [OF False plain_ds] Cons \<open>placeholder (d # es) = None\<close> by (auto dest: plain_values_step)
      ultimately show False using sub_first_char es by auto
    qed
  qed
qed

fun piece_left :: "template_vars \<Rightarrow> piece \<Rightarrow> piece list" where
  "piece_left tv (Text c) = [Text c]"
| "piece_left tv (Hole n) = (case lookup_var tv n of None \<Rightarrow> [Hole n] | Some v \<Rightarrow> map Text v)"

lemma pieces_sub:
  "plain_values tv s \<Longrightarrow> pieces (substituteVars tv s) = concat (map (piece_left tv) (pieces s))"
proof (induction s rule: length_induct)
  case (1 s)
  show ?case
  proof (cases "placeholder s")
    case None
    show ?thesis
    proof (cases s)
      case (Cons c cs)
      with None 1 have "pieces (substituteVars tv cs) = concat (map (piece_left tv) (pieces cs))"
        using plain_values_step(2) [of c cs tv] by simp
      moreover have "placeholder (c # substituteVars tv cs) = None"
        using sub_no_placeholder None Cons 1(2) by blast
      ultimately show ?thesis using Cons None by (simp add: sub_simps pieces_simps)
    qed (simp add: sub_simps pieces_simps)
  next
    case (Some p)
    then obtain n rest where p: "placeholder s = Some (n, rest)" by (cases p) auto
    note plain = plain_values_step(1) [OF p 1(2)]
    have IH: "pieces (substituteVars tv rest) = concat (map (piece_left tv) (pieces rest))"
      using 1(1) placeholder_shorter [OF p] plain by blast
    show ?thesis
    proof (cases "lookup_var tv n")
      case None
      have "placeholder (''{{'' @ n @ ''}}'' @ substituteVars tv rest) = Some (n, substituteVars tv rest)"
        using placeholder_hole placeholder_SomeD [OF p] by blast
      then show ?thesis using IH None p by (simp add: sub_simps hole_text_def pieces_simps)
    next
      case (Some v)
      then show ?thesis using IH p plain by (simp add: sub_simps pieces_simps pieces_plain)
    qed
  qed
qed

lemma holes_append [simp]: "holes (ps @ qs) = holes ps @ holes qs"
  by (induction ps rule: holes.induct) auto

lemma holes_Text [simp]: "holes (map Text v) = []"
  by (induction v) auto

lemma holes_left: "holes (concat (map (piece_left tv) ps)) = filter (\<lambda>n. lookup_var tv n = None) (holes ps)"
  by (induction ps rule: holes.induct) (auto split: option.splits)

lemma substitution_leaves_unresolved_holes:
  "plain_values tv t \<Longrightarrow>
   holes (pieces (substituteVars tv t)) = filter (\<lambda>n. lookup_var tv n = None) (holes (pieces t))"
  by (simp add: pieces_sub holes_left)

lemma concat_pieces: "concat (map (\<lambda>p. case p of Text c \<Rightarrow> [c] | Hole n \<Rightarrow> hole_text n) (pieces s)) = s"
proof (induction s rule: length_induct)
  case (1 s)
  show ?case
  proof (cases "placeholder s")
    case None
    with 1 show ?thesis by (cases s) (simp_all add: pieces_simps)
  next
    case (Some p)
    then obtain n rest where p: "placeholder s = Some (n, rest)" by (cases p) auto
    with 1 placeholder_shorter have "concat (map (\<lambda>p. case p of Text c \<Rightarrow> [c] | Hole n \<Rightarrow> hole_text n) (pieces rest)) = rest"
      by blast
    with p placeholder_SomeD [OF p] show ?thesis by (simp add: pieces_simps hole_text_def)
  qed
qed

lemma sub_unresolved:
  assumes "\<forall>n\<in>set (holes (pieces s)). lookup_var tv n = None"
  shows "substituteVars tv s = s"
proof -
  have "map (fill tv) ps = map (\<lambda>p. case p of Text c \<Rightarrow> [c] | Hole n \<Rightarrow> hole_text n) ps"
    if "\<forall>n\<in>set (holes ps). lookup_var tv n = None" for ps
    using that by (induction ps rule: holes.induct) auto
  from this [OF assms] show ?thesis unfolding substituteVars_def by (simp only: concat_pieces)
qed

lemma placeholder_append: "placeholder v = Some (n, r) \<Longrightarrow> placeholder (v @ w) = Some (n, r @ w)"
  using placeholder_hole [of n "r @ w"] placeholder_SomeD [of v n r] by auto

lemma no_holes_iff: "holes (pieces s) = [] \<longleftrightarrow> (\<forall>v. suffix v s \<longrightarrow> placeholder v = None)"
proof (induction s)
  case Nil
  show ?case by (simp add: pieces_simps placeholder.simps)
next
  case (Cons c cs)
  show ?case
  proof (cases "placeholder (c # cs)")
    case None
    then show ?thesis using Cons by (auto simp: pieces_simps suffix_Cons)
  next
    case (Some p)
    then obtain n r where "placeholder (c # cs) = Some (n, r)" by (cases p) auto
    then have "holes (pieces (c # cs)) \<noteq> []" "placeholder (c # cs) \<noteq> None" by (simp_all add: pieces_simps)
    moreover have "suffix (c # cs) (c # cs)" by simp
    ultimately show ?thesis by metis
  qed
qed

lemma trim_infix: "\<exists>u w. s = u @ js_trim s @ w"
proof -
  let ?r = "dropWhile js_space s"
  have "?r = js_trim s @ rev (takeWhile js_space (rev ?r))"
    unfolding js_trim_def by (metis rev_append rev_rev_ident takeWhile_dropWhile_id)
  moreover have "s = takeWhile js_space s @ ?r" by simp
  ultimately show ?thesis by metis
qed

lemma no_holes_trim:
  assumes "holes (pieces s) = []"
  shows "holes (pieces (js_trim s)) = []"
  unfolding no_holes_iff
proof (intro allI impI)
  fix v
  assume v: "suffix v (js_trim s)"
  obtain u w where s: "s = u @ js_trim s @ w" using trim_infix by blast
  from v obtain u' where "js_trim s = u' @ v" by (auto simp: suffix_def)
  with s have "suffix (v @ w) s" by (auto intro: suffixI [of _ "u @ u'"])
  then have "placeholder (v @ w) = None" using assms no_holes_iff by blast
  then show "placeholder v = None" using placeholder_append by (cases "placeholder v") auto
qed

text \<open>
  When the values that are filled in are not empty and have no braces, the placeholders left in
  the result are exactly the unresolved ones of the template, in order; so substituting again changes
  nothing, and a command all of whose placeholders resolve is never skipped for an unresolved variable.
\<close>

theorem substitution_leaves_unresolved:
  assumes "plain_values tv t"
  shows "holes (pieces (substituteVars tv t)) = filter (\<lambda>n. lookup_var tv n = None) (holes (pieces t)) \<and>
    substituteVars tv (substituteVars tv t) = substituteVars tv t \<and>
    ((\<forall>n\<in>set (holes (pieces t)). lookup_var tv n \<noteq> None) \<longrightarrow>
      isCommandStepSkippable (substituteVars tv t) \<noteq> Some (Unresolved_variable k))"
proof -
  note left = substitution_leaves_unresolved_holes [OF assms]
  have "isCommandStepSkippable (substituteVars tv t) \<noteq> Some (Unresolved_variable k)"
    if "\<forall>n\<in>set (holes (pieces t)). lookup_var tv n \<noteq> None"
  proof -
    have "holes (pieces (substituteVars tv t)) = []" using that by (simp add: left filter_empty_conv)
    from no_holes_trim [OF this] show ?thesis by (simp add: isCommandStepSkippable_def Let_def)
  qed
  then show ?thesis using left sub_unresolved [of "substituteVars tv t" tv] by simp
qed

section \<open>Classes of failures\<close>

lemma nth_slice:
  assumes "j < length (drop a (take b s))"
  shows "a + j < b \<and> a + j < length s \<and> drop a (take b s) ! j = s ! (a + j)"
proof -
  have "a \<le> length (take b s)" using assms by (simp only: length_drop)
  from nth_drop [OF this, of j] assms show ?thesis by (simp add: less_diff_conv add.commute)
qed

lemma no_newline_line_at: "CHR 0x0A \<notin> set (line_at s i)"
proof
  let ?P = "\<lambda>c. c \<noteq> CHR 0x0A"
  let ?k = "length (takeWhile ?P (rev (take (Suc i) s)))"
  let ?m = "length (takeWhile ?P (drop i s))"
  assume "CHR 0x0A \<in> set (line_at s i)"
  then obtain j where "j < length (line_at s i)" "line_at s i ! j = CHR 0x0A" by (meson in_set_conv_nth)
  then have j: "j < length (drop (Suc i - ?k) (take (i + ?m) s))" "drop (Suc i - ?k) (take (i + ?m) s) ! j = CHR 0x0A"
    by (simp_all only: line_at_def Let_def)
  define n where "n = Suc i - ?k + j"
  have n: "Suc i - ?k \<le> n" "n < i + ?m" "n < length s" "s ! n = CHR 0x0A"
    using nth_slice [OF j(1)] j(2) by (simp_all only: n_def le_add1)
  show False
  proof (cases "n \<le> i")
    case True
    define x where "x = length (take (Suc i) s) - Suc n"
    have len: "n < length (take (Suc i) s)" using True n(3) by simp
    have "rev (take (Suc i) s) ! x = CHR 0x0A" using len n(4) True rev_nth [of x "take (Suc i) s"] unfolding x_def
      by (simp only: length_rev) (auto simp: Suc_diff_Suc)
    moreover have "x < ?k" using n(1) len by (auto simp: x_def)
    ultimately show False using takeWhile_nth [of x ?P "rev (take (Suc i) s)"] nth_length_takeWhile
      set_takeWhileD [OF nth_mem [of x "takeWhile ?P (rev (take (Suc i) s))"]] by auto
  next
    case False
    then have "n - i < ?m" using n(2) by simp
    moreover have "drop i s ! (n - i) = CHR 0x0A" using False n(3,4) by simp
    ultimately show False using takeWhile_nth [of "n - i" ?P "drop i s"]
      set_takeWhileD [OF nth_mem [of "n - i" "takeWhile ?P (drop i s)"]] by auto
  qed
qed

lemma index_of_includes: "js_indexOf s n = Some i \<Longrightarrow> js_includes s n"
  by (induction s arbitrary: i) (auto split: if_splits)

lemma first_index_tests: "first_index rs s = Some i \<Longrightarrow> tests_any rs s"
  by (induction rs) (auto simp: tests_any_def test_def split: option.splits)

lemma backoff_is_transient: "isProviderBackoffError out \<Longrightarrow> matchesAnyTransient out"
  by (auto simp: isProviderBackoffError_def matchesAnyTransient_def has_any_def TRANSIENT_ERROR_PATTERNS_def)

lemma json_error_is_transient:
  assumes "detectJsonValidationError out = Some line"
  shows "matchesAnyTransient out \<and> CHR 0x0A \<notin> set line \<and> length line \<le> 400 \<and> sublist line out"
proof -
  let ?i = "case first_index TRANSIENT_ERROR_REGEXES out of Some i \<Rightarrow> Some i
    | None \<Rightarrow> js_indexOf out ''Validation failed for tool''"
  from assms obtain i where i: "?i = Some i" and line: "line = take 400 (js_trim (line_at out i))"
    by (auto simp: detectJsonValidationError_def split: if_splits)
  have "matchesAnyTransient out"
    using i by (auto simp: matchesAnyTransient_def has_any_def TRANSIENT_ERROR_PATTERNS_def split: option.splits
        dest: first_index_tests index_of_includes)
  moreover have "CHR 0x0A \<notin> set line"
  proof
    assume "CHR 0x0A \<in> set line"
    then have "CHR 0x0A \<in> set (js_trim (line_at out i))" unfolding line by (rule in_set_takeD)
    then show False using trim_infix [of "line_at out i"] no_newline_line_at [of out i]
      by (metis UnCI set_append)
  qed
  moreover have "sublist line out"
  proof -
    have "sublist line (js_trim (line_at out i))" unfolding line by (simp add: sublist_take)
    moreover have "sublist (js_trim (line_at out i)) (line_at out i)"
      using trim_infix [of "line_at out i"] by (metis sublist_appendI)
    moreover have "sublist (line_at out i) out"
      by (metis line_at_def sublist_drop sublist_take sublist_order.order_trans)
    ultimately show ?thesis by (meson sublist_order.order_trans)
  qed
  ultimately show ?thesis by (simp add: line)
qed


section \<open>Examples\<close>

definition ex_result :: "string \<Rightarrow> string \<Rightarrow> signal_step" where
  "ex_result n t = \<lparr>ss_name = n, ss_type = t, ss_passed = True, ss_skipped = False, ss_output = [],
     ss_duration_ms = 0, ss_expect = None, ss_artifact = None, ss_diagnostics = None, ss_status = None,
     ss_timeout = None, ss_phase = None\<rparr>"

definition ex_signal :: gate_signal where
  "ex_signal = \<lparr>sig_id = ''s1'', sig_gateId = ''g'', sig_goalId = ''goal'', sig_sessionId = ''x'', sig_timestamp = 5,
     sig_commitSha = ''abc'', sig_metadata = None, sig_content = None, sig_contentVersion = None,
     sig_verification = \<lparr>vr_status = Run_failed,
       vr_steps = [ex_result ''build'' ''command'', ex_result ''approve'' ''human-signoff'']\<rparr>\<rparr>"

lemma step_cache_exact_witness:
  "map_of (buildStepCache [ex_signal] ''s2'' (Some ''abc'') (Some 4)) ''build'' = Some (ex_result ''build'' ''command'') \<and>
   map_of (buildStepCache [ex_signal] ''s2'' (Some ''abc'') (Some 4)) ''approve'' = None"
proof -
  have "reusable_results ''s2'' ''abc'' (Some 4) [ex_signal] = [ex_result ''build'' ''command'']"
    by (simp add: reusable_results_def reusable_signal_def reusable_step_def ex_signal_def ex_result_def)
  then show ?thesis
    using step_cache_exact [of "''abc''" "[ex_signal]" "''s2''" "Some 4" "''build''" "[]"]
      step_cache_exact [of "''abc''" "[ex_signal]" "''s2''" "Some 4" "''approve''" "[]"]
    by (simp add: ex_result_def)
qed

definition ex_step :: "nat \<Rightarrow> string \<Rightarrow> rat option \<Rightarrow> bool \<Rightarrow> step_obj" where
  "ex_step i n p opt = (i, \<lparr>st_name = n, st_type = Command, st_run = None, st_prompt = None, st_expect = None,
     st_timeout = None, st_phase = map_option Fin p, st_optional = opt, st_label = None, st_optionalLabel = None,
     st_role = None, st_description = None, st_failureGuidance = None, st_component = None, st_command = None,
     st_subgoal = None\<rparr>)"

lemma steps_run_in_phase_order_witness:
  "sorted_wrt num_before (getSortedPhases (groupStepsByPhase
     [ex_step 0 ''b'' (Some 2) False, ex_step 1 ''a'' None False]
     [ex_step 0 ''b'' (Some 2) False, ex_step 1 ''a'' None False, ex_step 2 ''c'' None True]))"
proof -
  let ?steps = "[ex_step 0 ''b'' (Some 2) False, ex_step 1 ''a'' None False, ex_step 2 ''c'' None True]"
  have d: "distinct (map fst ?steps)" and p: "\<forall>s\<in>set ?steps. step_phase s \<noteq> NaN"
    by (simp_all add: ex_step_def step_phase_def)
  have part: "partitionOptionalSteps ?steps [] = ([ex_step 0 ''b'' (Some 2) False, ex_step 1 ''a'' None False], [2])"
    by (simp add: partitionOptionalSteps_def skips_step_def ex_step_def)
  from steps_run_in_phase_order [OF d p part refl] show ?thesis by (elim conjE)
qed

definition ex_vars :: template_vars where
  "ex_vars = \<lparr>tv_builtins = [(''branch'', ''main'')], tv_agent = [], tv_gates = None\<rparr>"

lemma ex_pieces: "pieces ''{{branch}}:{{x.y}}'' = [Hole ''branch'', Text CHR '':'', Hole ''x.y'']"
  by (simp add: pieces.simps placeholder.simps Let_def starts_with_def)

lemma ex_lookup: "lookup_var ex_vars ''branch'' = Some ''main''" "lookup_var ex_vars ''x.y'' = None"
  by (simp_all add: lookup_var_def ex_vars_def js_trim_def js_space_def starts_with_def meta_reference_def Let_def
      record_read_def in_object_def prototype_names_def)

lemma substitution_leaves_unresolved_witness:
  "holes (pieces (substituteVars ex_vars ''{{branch}}:{{x.y}}'')) = [''x.y'']"
proof -
  have "plain_values ex_vars ''{{branch}}:{{x.y}}''" by (simp add: plain_values_def ex_pieces ex_lookup)
  from substitution_leaves_unresolved [OF this, of "[]"] show ?thesis by (simp add: ex_pieces ex_lookup)
qed


lemma ex_auth: "js_includes ''overloaded_error: auth'' ''overloaded_error''"
    "test (cat [Word_boundary,
          any_of [Cat (Lit ''auth'') (Opt (words [''entication'', ''orization''])),
                  cat [Lit ''unauthori'', Class ''sz'', Lit ''ed''], Lit ''forbidden''],
          Word_boundary]) ''overloaded_error: auth''"
  by (simp_all add: starts_with_def test_def exec_index_def any_of_def word_edge_def is_word_char_def is_digit_def
      is_letter_def same_char_def js_lower_def)

text \<open>
  Two gaps: a provider back-pressure error whose text also has a word of the operator class, such as the name
  of a module, is not retried at all, although the decision promises unbounded retries for it; and a
  placeholder named like an inherited object property is filled with a native function's text instead of
  being left unresolved.
\<close>

theorem backoff_and_template_gaps:
  "isProviderBackoffError ''overloaded_error: auth'' \<and>
   shouldRetryVerificationStep isTransientVerifierReviewError
     \<lparr>ra_passed = False, ra_output = ''overloaded_error: auth'', ra_attempt = 0, ra_maxBoundedAttempts = 3\<rparr> = Break_loop \<and>
   substituteVars ex_vars ''{{constructor}}'' = ''function Object() { [native code] }''"
proof -
  have "isNonRetryableAgentError ''overloaded_error: auth''"
    unfolding isNonRetryableAgentError_def tests_any_def GENERIC_AGENT_NON_RETRYABLE_REGEXES_def list_ex_iff
    using ex_auth(2) by simp
  moreover have "pieces ''{{constructor}}'' = [Hole ''constructor'']"
    by (simp add: pieces.simps placeholder.simps Let_def starts_with_def)
  moreover have "lookup_var ex_vars ''constructor'' = Some ''function Object() { [native code] }''"
    by (simp add: lookup_var_def ex_vars_def js_trim_def js_space_def starts_with_def meta_reference_def Let_def
      record_read_def in_object_def prototype_names_def native_text_def)
  ultimately show ?thesis using ex_auth(1)
    by (simp add: isProviderBackoffError_def shouldRetryVerificationStep_def substituteVars_def)
qed

end
