(* ===== verification/Gate_Persistence.thy ===== *)
theory Gate_Persistence
  imports Gate_Data Keyed_Store
begin

text \<open>
  The durable side of the gate store: the contract its client relies on, as a locale, and the model of
  the coalescing writer that implements it, \<open>SqliteGatePersistence\<close> of
  \<open>src/src/server/agent/gate-store.ts\<close>. The database is its table of rows; a transaction commits or
  is rolled back, as SQLite promises, and which of the two happens is an argument of the drain.
  Reading back a serialised gate gives the gate. Promises are the tokens of write barriers, settled in
  a list; timers and queued microtasks are flags.
\<close>

section \<open>The contract\<close>

locale gate_writer =
  fixes mark :: "'k list \<Rightarrow> 'p \<Rightarrow> 'p"
    and attempt :: "bool \<Rightarrow> ('k \<Rightarrow> 'v option) \<Rightarrow> 'p \<Rightarrow> 'p"
    and durable :: "'p \<Rightarrow> 'k \<Rightarrow> 'v option"
    and unsaved :: "'p \<Rightarrow> 'k set"
  assumes durable_mark: "durable (mark ks p) = durable p"
    and unsaved_mark: "unsaved (mark ks p) = unsaved p \<union> set ks"
    and durable_commit: "durable (attempt True mem p) k = (if k \<in> unsaved p then mem k else durable p k)"
    and unsaved_commit: "unsaved (attempt True mem p) = {}"
    and durable_rollback: "durable (attempt False mem p) = durable p"
    and unsaved_rollback: "unsaved (attempt False mem p) = unsaved p"
begin

text \<open>Durable state agrees with memory, except for the keys still to be written and a set \<open>U\<close>.\<close>

definition synced :: "'k set \<Rightarrow> ('k \<Rightarrow> 'v option) \<Rightarrow> 'p \<Rightarrow> bool" where
  "synced U mem p \<longleftrightarrow> (\<forall>k. k \<notin> unsaved p \<union> U \<longrightarrow> durable p k = mem k)"

lemma synced_change:
  assumes "synced U mem p" and "\<And>k. k \<notin> set ks \<union> V \<Longrightarrow> mem' k = mem k"
  shows "synced (U \<union> V) mem' (mark ks p)"
  using assms unfolding synced_def durable_mark unsaved_mark by (metis Un_iff)

lemma synced_mark:
  assumes "synced U mem p" and "U \<subseteq> V \<union> set ks"
  shows "synced V mem (mark ks p)"
  using assms unfolding synced_def durable_mark unsaved_mark by blast

lemma synced_mono: "synced U mem p \<Longrightarrow> U \<subseteq> V \<Longrightarrow> synced V mem p"
  by (auto simp: synced_def)

lemma synced_attempt: "synced U mem p \<Longrightarrow> synced U mem (attempt ok mem p)"
  by (cases ok) (auto simp: synced_def durable_commit unsaved_commit durable_rollback unsaved_rollback)

lemma committed_all: "synced {} mem p \<Longrightarrow> durable (attempt True mem p) = mem"
  by (rule ext) (auto simp: synced_def durable_commit)

end

section \<open>The writer\<close>

type_synonym gate_map = "(string \<times> gate_state) list"

record publication =
  pub_previous :: gate_map
  pub_current :: gate_map

datatype settlement = Resolved publication | Rejected

datatype gate_error = Persistence_closed | Store_closed | Unknown_gate string

record persistence =
  pe_dirty :: "string list"
  pe_timer :: bool
  pe_inFlight :: bool
  pe_restart :: bool
  pe_requested :: bool
  pe_revision :: nat
  pe_publishedRevision :: nat
  pe_barriers :: "(nat \<times> nat) list"
  pe_settled :: "(nat \<times> settlement) list"
  pe_token :: nat
  pe_closing :: bool
  pe_closed :: bool
  pe_durable :: gate_map
  pe_publication :: publication
  pe_rows :: "((string \<times> string) \<times> gate_state) list"

text \<open>\<open>Set.add\<close> for each key of a list.\<close>

definition add_keys :: "string list \<Rightarrow> string list \<Rightarrow> string list" where
  "add_keys ks d = foldl (\<lambda>d k. if k \<in> set d then d else d @ [k]) d ks"

lemma set_add_keys [simp]: "set (add_keys ks d) = set d \<union> set ks"
  unfolding add_keys_def by (induction ks arbitrary: d) auto

lemma distinct_add_keys: "distinct d \<Longrightarrow> distinct (add_keys ks d)"
  unfolding add_keys_def by (induction ks arbitrary: d) auto

definition assertOpen :: "persistence \<Rightarrow> bool" where
  "assertOpen p = (\<not> pe_closed p \<and> \<not> pe_closing p)"

definition schedule_keys :: "string list \<Rightarrow> persistence \<Rightarrow> persistence" where
  "schedule_keys ks p =
     (if ks = [] then p
      else p\<lparr>pe_dirty := add_keys ks (pe_dirty p), pe_revision := Suc (pe_revision p), pe_requested := True,
             pe_timer := pe_timer p \<or> \<not> pe_inFlight p\<rparr>)"

definition schedule :: "string list \<Rightarrow> persistence \<Rightarrow> gate_error + persistence" where
  "schedule ks p = (if assertOpen p then Inr (schedule_keys ks p) else Inl Persistence_closed)"

definition startDrain :: "persistence \<Rightarrow> persistence" where
  "startDrain p = p\<lparr>pe_inFlight := True\<rparr>"

definition requestBarrier :: "bool \<Rightarrow> persistence \<Rightarrow> gate_error + nat \<times> persistence" where
  "requestBarrier allowClosing p =
     (if \<not> allowClosing \<and> \<not> assertOpen p then Inl Persistence_closed
      else let p1 = p\<lparr>pe_revision := Suc (pe_revision p), pe_requested := True, pe_timer := False,
                      pe_barriers := pe_barriers p @ [(Suc (pe_revision p), pe_token p)],
                      pe_token := Suc (pe_token p)\<rparr> in
           Inr (pe_token p, startDrain p1))"

definition publishStrict :: "string list \<Rightarrow> persistence \<Rightarrow> gate_error + nat \<times> persistence" where
  "publishStrict ks p =
     (if assertOpen p then requestBarrier False (p\<lparr>pe_dirty := add_keys ks (pe_dirty p)\<rparr>)
      else Inl Persistence_closed)"

definition hasPendingWork :: "persistence \<Rightarrow> bool" where
  "hasPendingWork p = (pe_dirty p \<noteq> [] \<or> pe_requested p \<or> pe_inFlight p \<or> pe_timer p)"

text \<open>\<open>flush\<close>: nothing to wait for, or the token to wait for.\<close>

definition pe_flush :: "persistence \<Rightarrow> gate_error + nat option \<times> persistence" where
  "pe_flush p =
     (if \<not> hasPendingWork p then Inr (None, p)
      else bind_res (requestBarrier False p) (\<lambda>(t, p'). Inr (Some t, p')))"

definition settlePublished :: "nat \<Rightarrow> persistence \<Rightarrow> persistence" where
  "settlePublished revision p =
     (let published = max (pe_publishedRevision p) revision in
      p\<lparr>pe_publishedRevision := published,
        pe_settled := pe_settled p @
          map (\<lambda>(r, t). (t, Resolved (pe_publication p))) (filter (\<lambda>(r, t). r \<le> published) (pe_barriers p)),
        pe_barriers := filter (\<lambda>(r, t). \<not> r \<le> published) (pe_barriers p)\<rparr>)"

definition settleFailed :: "nat \<Rightarrow> persistence \<Rightarrow> persistence" where
  "settleFailed revision p =
     p\<lparr>pe_settled := pe_settled p @ map (\<lambda>(r, t). (t, Rejected)) (filter (\<lambda>(r, t). r \<le> revision) (pe_barriers p)),
       pe_barriers := filter (\<lambda>(r, t). \<not> r \<le> revision) (pe_barriers p)\<rparr>"

text \<open>
  The row that a removed key addresses: the two halves around its first double colon. (Without one,
  \<open>indexOf\<close> gives -1 and the slices are the key without its last and without its first character.)
\<close>

definition row_of_key :: "string \<Rightarrow> string \<times> string" where
  "row_of_key k = (case split_key k of Some ids \<Rightarrow> ids | None \<Rightarrow> (butlast k, tl k))"

definition write_row :: "gate_map \<Rightarrow> ((string \<times> string) \<times> gate_state) list \<Rightarrow> string \<Rightarrow> ((string \<times> string) \<times> gate_state) list" where
  "write_row gates rows k =
     (case map_of gates k of
        None \<Rightarrow> AList.delete (row_of_key k) rows
      | Some g \<Rightarrow> AList.update (gs_goalId g, gs_gateId g) g rows)"

definition select_keys :: "gate_map \<Rightarrow> string list \<Rightarrow> gate_map" where
  "select_keys m ks = List.map_filter (\<lambda>k. map_option (Pair k) (map_of m k)) ks"

definition update_durable :: "gate_map \<Rightarrow> gate_map \<Rightarrow> string \<Rightarrow> gate_map" where
  "update_durable current durable k =
     (case map_of current k of Some g \<Rightarrow> AList.update k g durable | None \<Rightarrow> AList.delete k durable)"

text \<open>
  One turn of the loop of \<open>drain\<close>. The loop is synchronous and only other code sets \<open>requested\<close>, so
  it makes one turn when a write was requested and none otherwise. Without dirty keys no transaction
  is opened and nothing can fail.
\<close>

definition drain_round :: "bool \<Rightarrow> gate_map \<Rightarrow> persistence \<Rightarrow> persistence" where
  "drain_round ok gates p =
     (let revision = pe_revision p; keys = pe_dirty p;
          p0 = p\<lparr>pe_requested := False, pe_dirty := []\<rparr>;
          current = select_keys gates keys in
      if ok \<or> keys = []
      then settlePublished revision
             (p0\<lparr>pe_rows := foldl (write_row gates) (pe_rows p) keys,
                 pe_durable := foldl (update_durable current) (pe_durable p) keys,
                 pe_publication := \<lparr>pub_previous = select_keys (pe_durable p) keys, pub_current = current\<rparr>\<rparr>)
      else settleFailed revision (p0\<lparr>pe_dirty := add_keys keys []\<rparr>))"

definition drain :: "bool \<Rightarrow> gate_map \<Rightarrow> persistence \<Rightarrow> persistence" where
  "drain ok gates p = (if pe_requested p then drain_round ok gates p else p)"

text \<open>The \<open>finally\<close> of \<open>startDrain\<close>, the microtask it queues, and the timer.\<close>

definition drain_done :: "persistence \<Rightarrow> persistence" where
  "drain_done p = p\<lparr>pe_inFlight := False, pe_restart := pe_restart p \<or> pe_requested p\<rparr>"

definition restart_drain :: "persistence \<Rightarrow> persistence" where
  "restart_drain p = (if pe_restart p then startDrain (p\<lparr>pe_restart := False\<rparr>) else p)"

definition timer_fires :: "persistence \<Rightarrow> persistence" where
  "timer_fires p = (if pe_timer p then startDrain (p\<lparr>pe_timer := False\<rparr>) else p)"

definition pe_dispose :: "persistence \<Rightarrow> persistence" where
  "pe_dispose p = p\<lparr>pe_timer := False, pe_closed := True\<rparr>"

text \<open>\<open>loadInto\<close>, after validation: memory and the durable map are the rows.\<close>

definition load_rows :: "((string \<times> string) \<times> gate_state) list \<Rightarrow> gate_map" where
  "load_rows rows = foldl (\<lambda>m (ids, g). AList.update (compositeKey (gs_goalId g) (gs_gateId g)) g m) [] rows"

definition opened :: "((string \<times> string) \<times> gate_state) list \<Rightarrow> persistence" where
  "opened rows = \<lparr>pe_dirty = [], pe_timer = False, pe_inFlight = False, pe_restart = False, pe_requested = False,
     pe_revision = 0, pe_publishedRevision = 0, pe_barriers = [], pe_settled = [], pe_token = 0, pe_closing = False,
     pe_closed = False, pe_durable = load_rows rows, pe_publication = \<lparr>pub_previous = [], pub_current = []\<rparr>,
     pe_rows = rows\<rparr>"

section \<open>The writer keeps the contract\<close>

lemma map_of_select_keys:
  "map_of (select_keys m ks) k = (if k \<in> set ks then map_of m k else None)"
  by (induction ks) (auto simp: select_keys_def List.map_filter_def split: option.splits)

lemma map_of_update_durable:
  "map_of (foldl (update_durable current) d ks) k = (if k \<in> set ks then map_of current k else map_of d k)"
  by (induction ks arbitrary: d) (auto simp: update_durable_def split: option.splits)

lemma settle_fields [simp]:
  "pe_dirty (settlePublished r p) = pe_dirty p" "pe_durable (settlePublished r p) = pe_durable p"
  "pe_rows (settlePublished r p) = pe_rows p" "pe_requested (settlePublished r p) = pe_requested p"
  "pe_inFlight (settlePublished r p) = pe_inFlight p" "pe_timer (settlePublished r p) = pe_timer p"
  "pe_restart (settlePublished r p) = pe_restart p" "pe_revision (settlePublished r p) = pe_revision p"
  "pe_dirty (settleFailed r p) = pe_dirty p" "pe_durable (settleFailed r p) = pe_durable p"
  "pe_rows (settleFailed r p) = pe_rows p" "pe_requested (settleFailed r p) = pe_requested p"
  "pe_inFlight (settleFailed r p) = pe_inFlight p" "pe_timer (settleFailed r p) = pe_timer p"
  "pe_restart (settleFailed r p) = pe_restart p" "pe_revision (settleFailed r p) = pe_revision p"
  by (simp_all add: settlePublished_def settleFailed_def Let_def)

lemma drain_round_fields:
  "pe_requested (drain_round ok gates p) = False" "pe_inFlight (drain_round ok gates p) = pe_inFlight p"
  "pe_timer (drain_round ok gates p) = pe_timer p" "pe_restart (drain_round ok gates p) = pe_restart p"
  "pe_revision (drain_round ok gates p) = pe_revision p"
  by (simp_all add: drain_round_def Let_def)

lemma drain_round_commit:
  "ok \<or> pe_dirty p = [] \<Longrightarrow> pe_dirty (drain_round ok gates p) = []"
  "ok \<or> pe_dirty p = [] \<Longrightarrow> map_of (pe_durable (drain_round ok gates p)) k =
     (if k \<in> set (pe_dirty p) then map_of gates k else map_of (pe_durable p) k)"
  "ok \<or> pe_dirty p = [] \<Longrightarrow> pe_rows (drain_round ok gates p) = foldl (write_row gates) (pe_rows p) (pe_dirty p)"
  by (auto simp: drain_round_def Let_def map_of_update_durable map_of_select_keys)

lemma drain_round_rollback:
  "\<not> (ok \<or> pe_dirty p = []) \<Longrightarrow> set (pe_dirty (drain_round ok gates p)) = set (pe_dirty p)"
  "\<not> (ok \<or> pe_dirty p = []) \<Longrightarrow> pe_durable (drain_round ok gates p) = pe_durable p"
  "\<not> (ok \<or> pe_dirty p = []) \<Longrightarrow> pe_rows (drain_round ok gates p) = pe_rows p"
  by (auto simp: drain_round_def Let_def)

text \<open>
  Marking keys, by a scheduled write or a strict one; the interpretation takes a scheduled write, the
  strict one differs only in what it waits for.
\<close>

lemma schedule_keys_marks:
  "pe_durable (schedule_keys ks p) = pe_durable p" "set (pe_dirty (schedule_keys ks p)) = set (pe_dirty p) \<union> set ks"
  "pe_rows (schedule_keys ks p) = pe_rows p" "pe_settled (schedule_keys ks p) = pe_settled p"
  by (auto simp: schedule_keys_def)

lemma publishStrict_marks:
  assumes "publishStrict ks p = Inr (t, p')"
  shows "pe_durable p' = pe_durable p" "set (pe_dirty p') = set (pe_dirty p) \<union> set ks" "pe_rows p' = pe_rows p"
    "pe_settled p' = pe_settled p"
  using assms by (auto simp: publishStrict_def requestBarrier_def Let_def startDrain_def split: if_splits)

definition durable_gate :: "persistence \<Rightarrow> string \<Rightarrow> gate_state option" where
  "durable_gate p = map_of (pe_durable p)"

text \<open>
  The contract speaks of memory as a function; the writer reads it from an association list, and only
  the lookups matter.
\<close>

definition attempt_write :: "bool \<Rightarrow> (string \<Rightarrow> gate_state option) \<Rightarrow> persistence \<Rightarrow> persistence" where
  "attempt_write ok mem p =
     drain_round ok (List.map_filter (\<lambda>k. map_option (Pair k) (mem k)) (pe_dirty p)) p"

lemma map_of_restrict:
  "map_of (List.map_filter (\<lambda>k. map_option (Pair k) (mem k)) ks) k = (if k \<in> set ks then mem k else None)"
  by (induction ks) (auto simp: List.map_filter_def split: option.splits)

lemma select_keys_cong:
  "(\<And>k. k \<in> set ks \<Longrightarrow> map_of m k = map_of m' k) \<Longrightarrow> select_keys m ks = select_keys m' ks"
  by (induction ks) (auto simp: select_keys_def List.map_filter_def)

lemma write_rows_cong:
  "(\<And>k. k \<in> set ks \<Longrightarrow> map_of m k = map_of m' k) \<Longrightarrow> foldl (write_row m) rows ks = foldl (write_row m') rows ks"
  by (induction ks arbitrary: rows) (auto simp: write_row_def)

lemma attempt_write_drain: "attempt_write ok (map_of gates) p = drain_round ok gates p"
proof -
  let ?m = "List.map_filter (\<lambda>k. map_option (Pair k) (map_of gates k)) (pe_dirty p)"
  have eq: "\<And>k. k \<in> set (pe_dirty p) \<Longrightarrow> map_of ?m k = map_of gates k" by (simp add: map_of_restrict)
  have "select_keys ?m (pe_dirty p) = select_keys gates (pe_dirty p)" by (rule select_keys_cong [OF eq])
  moreover have "foldl (write_row ?m) (pe_rows p) (pe_dirty p) = foldl (write_row gates) (pe_rows p) (pe_dirty p)"
    by (rule write_rows_cong [OF eq])
  ultimately show ?thesis by (simp add: attempt_write_def drain_round_def Let_def)
qed

interpretation sqlite: gate_writer schedule_keys attempt_write durable_gate "\<lambda>p. set (pe_dirty p)"
proof
  fix ok :: bool and mem p k
  show "durable_gate (attempt_write True mem p) k = (if k \<in> set (pe_dirty p) then mem k else durable_gate p k)"
    by (simp add: durable_gate_def attempt_write_def drain_round_commit map_of_restrict)
  show "set (pe_dirty (attempt_write True mem p)) = {}"
    by (simp add: attempt_write_def drain_round_commit)
  show "durable_gate (attempt_write False mem p) = durable_gate p"
  proof (cases "pe_dirty p = []")
    case True
    then show ?thesis by (intro ext) (simp add: durable_gate_def attempt_write_def drain_round_commit)
  next
    case False
    then show ?thesis by (simp add: durable_gate_def attempt_write_def drain_round_rollback)
  qed
  show "set (pe_dirty (attempt_write False mem p)) = set (pe_dirty p)"
    by (cases "pe_dirty p = []") (simp_all add: attempt_write_def drain_round_commit drain_round_rollback)
qed (simp_all add: schedule_keys_marks durable_gate_def)

section \<open>No requested write is forgotten, and every barrier is settled\<close>

definition writer_live :: "persistence \<Rightarrow> bool" where
  "writer_live p \<longleftrightarrow>
     (pe_requested p \<longrightarrow> pe_timer p \<or> pe_inFlight p \<or> pe_restart p) \<and>
     (pe_barriers p \<noteq> [] \<longrightarrow> pe_requested p \<and> (pe_inFlight p \<or> pe_restart p)) \<and>
     (\<forall>(r, t) \<in> set (pe_barriers p). r \<le> pe_revision p)"

lemma writer_live_opened: "writer_live (opened rows)"
  by (simp add: writer_live_def opened_def)

lemma writer_live_schedule: "writer_live p \<Longrightarrow> writer_live (schedule_keys ks p)"
  by (auto simp: writer_live_def schedule_keys_def)

lemma writer_live_dirty: "writer_live p \<Longrightarrow> writer_live (p\<lparr>pe_dirty := d\<rparr>)"
  by (simp add: writer_live_def)

lemma writer_live_barrier:
  assumes "writer_live p" and "requestBarrier allow p = Inr (t, p')"
  shows "writer_live p'"
proof -
  from assms(2) have "p' = p\<lparr>pe_revision := Suc (pe_revision p), pe_requested := True, pe_timer := False,
      pe_barriers := pe_barriers p @ [(Suc (pe_revision p), pe_token p)], pe_token := Suc (pe_token p),
      pe_inFlight := True\<rparr>"
    by (auto simp: requestBarrier_def Let_def startDrain_def split: if_splits)
  with assms(1) show ?thesis by (auto simp: writer_live_def)
qed

lemma writer_live_publish: "writer_live p \<Longrightarrow> publishStrict ks p = Inr (t, p') \<Longrightarrow> writer_live p'"
  unfolding publishStrict_def by (auto intro: writer_live_barrier writer_live_dirty split: if_splits)

lemma writer_live_steps:
  "writer_live p \<Longrightarrow> writer_live (drain_done p)"
  "writer_live p \<Longrightarrow> writer_live (restart_drain p)"
  "writer_live p \<Longrightarrow> writer_live (timer_fires p)"
  by (auto simp: writer_live_def startDrain_def drain_done_def restart_drain_def timer_fires_def)

lemma settle_all:
  assumes "\<forall>(r, t) \<in> set (pe_barriers p). r \<le> n"
  shows "pe_barriers (settlePublished n p) = []"
    "pe_settled (settlePublished n p) = pe_settled p @ map (\<lambda>(r, t). (t, Resolved (pe_publication p))) (pe_barriers p)"
    "pe_barriers (settleFailed n p) = []"
    "pe_settled (settleFailed n p) = pe_settled p @ map (\<lambda>(r, t). (t, Rejected)) (pe_barriers p)"
proof -
  have f: "filter (\<lambda>(r, t). r \<le> m) (pe_barriers p) = pe_barriers p"
    "filter (\<lambda>(r, t). \<not> r \<le> m) (pe_barriers p) = []" if "n \<le> m" for m
    using assms that by (auto simp: filter_empty_conv intro!: filter_True)
  have m: "n \<le> max k n" for k by simp
  show "pe_barriers (settlePublished n p) = []" "pe_barriers (settleFailed n p) = []"
    unfolding settlePublished_def settleFailed_def Let_def by (simp_all only: f(2) [OF m] f(2) [OF order_refl]) simp_all
  show "pe_settled (settlePublished n p) = pe_settled p @ map (\<lambda>(r, t). (t, Resolved (pe_publication p))) (pe_barriers p)"
    "pe_settled (settleFailed n p) = pe_settled p @ map (\<lambda>(r, t). (t, Rejected)) (pe_barriers p)"
    unfolding settlePublished_def settleFailed_def Let_def by (simp_all only: f(1) [OF m] f(1) [OF order_refl]) simp_all
qed

lemma pe_publication_settlePublished [simp]: "pe_publication (settlePublished n p) = pe_publication p"
  by (simp add: settlePublished_def Let_def)

lemma drain_round_settles:
  assumes "\<forall>(r, t) \<in> set (pe_barriers p). r \<le> pe_revision p"
  shows "pe_barriers (drain_round ok gates p) = []"
    and "pe_settled (drain_round ok gates p) = pe_settled p @
      map (\<lambda>(r, t). (t, if ok \<or> pe_dirty p = [] then Resolved (pe_publication (drain_round ok gates p)) else Rejected))
        (pe_barriers p)"
proof -
  have b: "\<forall>(r, t) \<in> set (pe_barriers (p\<lparr>pe_requested := False, pe_dirty := d, pe_rows := x, pe_durable := y, pe_publication := z\<rparr>)).
      r \<le> pe_revision p"
    "\<forall>(r, t) \<in> set (pe_barriers (p\<lparr>pe_requested := False, pe_dirty := d\<rparr>)). r \<le> pe_revision p" for d x y z
    using assms by simp_all
  note pub = settle_all(1,2) [OF b(1)] and rej = settle_all(3,4) [OF b(2)]
  show "pe_barriers (drain_round ok gates p) = []"
    using pub(1) rej(1) by (simp add: drain_round_def Let_def)
  show "pe_settled (drain_round ok gates p) = pe_settled p @
      map (\<lambda>(r, t). (t, if ok \<or> pe_dirty p = [] then Resolved (pe_publication (drain_round ok gates p)) else Rejected))
        (pe_barriers p)"
    using pub(2) rej(2) by (simp add: drain_round_def Let_def)
qed

lemma writer_live_drain: "writer_live p \<Longrightarrow> writer_live (drain ok gates p)"
  using drain_round_settles [of p ok gates]
  by (auto simp: writer_live_def drain_def drain_round_fields)

end
