(* ===== verification/Gate_Store.thy ===== *)
theory Gate_Store
  imports Gate_Persistence Workflow_Store
begin

text \<open>
  The gate store, class \<open>GateStore\<close> of \<open>src/src/server/agent/gate-store.ts\<close>: the states of the
  gates of all goals, the signals recorded for them, status changes with their revisions, resets of a
  gate and its dependents, and the publication of changes through the writer. The time of a call and
  fresh identifiers are arguments. A call of a status callback is an event; a callback that calls the
  store again is a later call here. A promise the store waits for is the token of a write barrier, and
  what runs when it settles is a step of its own.
\<close>

section \<open>The store\<close>

datatype gate_event =
    Status_changed string string
  | Status_committed status_commit
  | Reset_resolved reset_result
  | Reset_rejected

text \<open>
  The detached flush: not running, waiting for the barrier of its batch, or returned from its loop with
  the \<open>finally\<close> that clears the field still queued.
\<close>

datatype flush_state = No_flush | Flushing "string list" nat | Flush_returned

record strict_reset =
  sr_goalId :: string
  sr_keys :: "string list"
  sr_statusKeys :: "string list"
  sr_snapshots :: gate_map
  sr_result :: reset_result

record gate_store =
  gst_gates :: gate_map
  gst_accepting :: bool
  gst_observed :: bool
  gst_pending :: "(string \<times> status_commit list) list"
  gst_detached :: "string list"
  gst_scheduled :: bool
  gst_flush :: flush_state
  gst_resets :: "(nat \<times> strict_reset) list"
  gst_persist :: persistence
  gst_events :: "gate_event list"

text \<open>The constructor, on the rows of the database; \<open>observed\<close>: a commit observer is installed.\<close>

definition open_store :: "bool \<Rightarrow> ((string \<times> string) \<times> gate_state) list \<Rightarrow> gate_store" where
  "open_store observed rows =
     \<lparr>gst_gates = load_rows rows, gst_accepting = True, gst_observed = observed, gst_pending = [], gst_detached = [],
      gst_scheduled = False, gst_flush = No_flush, gst_resets = [], gst_persist = opened rows, gst_events = []\<rparr>"

definition gate_save :: "string list \<Rightarrow> gate_store \<Rightarrow> gate_error + gate_store" where
  "gate_save keys s = bind_res (schedule keys (gst_persist s)) (\<lambda>p. Inr (s\<lparr>gst_persist := p\<rparr>))"

definition add_events :: "gate_event list \<Rightarrow> gate_store \<Rightarrow> gate_store" where
  "add_events es s = s\<lparr>gst_events := gst_events s @ es\<rparr>"

definition set_gate :: "string \<Rightarrow> gate_state \<Rightarrow> gate_store \<Rightarrow> gate_store" where
  "set_gate key g s = s\<lparr>gst_gates := AList.update key g (gst_gates s)\<rparr>"

definition gate_at :: "gate_store \<Rightarrow> string \<Rightarrow> gate_state option" where
  "gate_at s key = map_of (gst_gates s) key"

section \<open>Status commits\<close>

definition nextStatusCommit :: "gate_state \<Rightarrow> gate_status \<Rightarrow> rat \<Rightarrow> gate_state \<times> status_commit option" where
  "nextStatusCommit g status now =
     (if gs_status g = status then (g, None)
      else let revision = Suc (case gs_statusRevision g of None \<Rightarrow> 0 | Some r \<Rightarrow> r) in
        (g\<lparr>gs_status := status, gs_statusRevision := Some revision, gs_updatedAt := max now (gs_updatedAt g + 1)\<rparr>,
         Some \<lparr>sc_goalId = gs_goalId g, sc_gateId = gs_gateId g, sc_previousStatus = gs_status g,
               sc_status = status, sc_revision = revision\<rparr>))"

definition committed_fact :: "publication \<Rightarrow> string \<Rightarrow> gate_event list" where
  "committed_fact pub key =
     (case (map_of (pub_previous pub) key, map_of (pub_current pub) key) of
        (Some previous, Some current) \<Rightarrow>
          if gs_status previous = gs_status current then []
          else [Status_committed \<lparr>sc_goalId = gs_goalId current, sc_gateId = gs_gateId current,
                  sc_previousStatus = gs_status previous, sc_status = gs_status current,
                  sc_revision = (case gs_statusRevision current of None \<Rightarrow> 1 | Some r \<Rightarrow> r)\<rparr>]
      | _ \<Rightarrow> [])"

definition reportStatusCommits :: "string list \<Rightarrow> publication \<Rightarrow> gate_store \<Rightarrow> gate_store" where
  "reportStatusCommits keys pub s =
     (if gst_observed s then add_events (concat (map (committed_fact pub) keys)) s else s)"

definition commit_key :: "status_commit \<Rightarrow> string" where
  "commit_key c = compositeKey (sc_goalId c) (sc_gateId c)"

definition publishStatusCommitsDetached :: "string list \<Rightarrow> status_commit list \<Rightarrow> gate_store \<Rightarrow> gate_error + gate_store" where
  "publishStatusCommitsDetached keys commits s =
     (if \<not> gst_observed s \<or> commits = [] then gate_save keys s
      else let s1 = s\<lparr>gst_detached := add_keys keys (gst_detached s)\<rparr> in
        if gst_scheduled s \<or> gst_flush s \<noteq> No_flush then Inr s1
        else Inr (s1\<lparr>gst_scheduled := True\<rparr>))"

text \<open>
  The loop of \<open>flushDetachedStatusCommits\<close> up to its next \<open>await\<close> or its end. A strict write that is
  refused at once takes the keys back and ends the loop.
\<close>

definition flush_loop :: "gate_store \<Rightarrow> gate_store" where
  "flush_loop s =
     (if gst_detached s = [] then s\<lparr>gst_flush := Flush_returned\<rparr>
      else let keys = gst_detached s in
        (case publishStrict keys (gst_persist s) of
           Inl e \<Rightarrow> s\<lparr>gst_detached := add_keys keys [], gst_flush := Flush_returned\<rparr>
         | Inr (t, p) \<Rightarrow> s\<lparr>gst_detached := [], gst_flush := Flushing keys t, gst_persist := p\<rparr>))"

definition flushDetachedStatusCommits :: "gate_store \<Rightarrow> gate_store" where
  "flushDetachedStatusCommits s = (if gst_flush s \<noteq> No_flush then s else flush_loop s)"

text \<open>The queued microtask, the continuation of the \<open>await\<close>, and the \<open>finally\<close>.\<close>

definition detached_microtask :: "gate_store \<Rightarrow> gate_store" where
  "detached_microtask s = (if gst_scheduled s then flushDetachedStatusCommits (s\<lparr>gst_scheduled := False\<rparr>) else s)"

definition flush_settled :: "gate_store \<Rightarrow> gate_store" where
  "flush_settled s =
     (case gst_flush s of
        Flushing keys t \<Rightarrow>
          (case map_of (pe_settled (gst_persist s)) t of
             None \<Rightarrow> s
           | Some (Resolved pub) \<Rightarrow> flush_loop (reportStatusCommits keys pub s)
           | Some Rejected \<Rightarrow> s\<lparr>gst_detached := add_keys keys (gst_detached s), gst_flush := Flush_returned\<rparr>)
      | _ \<Rightarrow> s)"

definition flush_finally :: "gate_store \<Rightarrow> gate_store" where
  "flush_finally s = (if gst_flush s = Flush_returned then s\<lparr>gst_flush := No_flush\<rparr> else s)"

section \<open>Operations\<close>

definition accepting :: "gate_store \<Rightarrow> gate_error + gate_store \<Rightarrow> gate_error + gate_store" where
  "accepting s r = (if gst_accepting s then r else Inl Store_closed)"

definition pending_gate :: "rat \<Rightarrow> string \<Rightarrow> string \<Rightarrow> gate_state" where
  "pending_gate now goalId gateId =
     \<lparr>gs_gateId = gateId, gs_goalId = goalId, gs_status = Pending, gs_statusRevision = None, gs_currentContent = None,
      gs_currentContentVersion = None, gs_currentMetadata = None, gs_signals = [], gs_cacheInvalidatedAt = None,
      gs_updatedAt = now\<rparr>"

definition init_gate :: "rat \<Rightarrow> string \<Rightarrow> gate_map \<times> string list \<Rightarrow> string \<Rightarrow> gate_map \<times> string list" where
  "init_gate now goalId acc gateId =
     (case acc of (gates, dirty) \<Rightarrow>
        let key = compositeKey goalId gateId in
        if map_of gates key = None then (AList.update key (pending_gate now goalId gateId) gates, dirty @ [key])
        else (gates, dirty))"

definition initGatesForGoal :: "rat \<Rightarrow> string \<Rightarrow> string list \<Rightarrow> gate_store \<Rightarrow> gate_error + gate_store" where
  "initGatesForGoal now goalId gateIds s = accepting s
     (case foldl (init_gate now goalId) (gst_gates s, []) gateIds of (gates, dirty) \<Rightarrow>
        let s1 = s\<lparr>gst_gates := gates\<rparr> in
        if dirty \<noteq> [] then gate_save dirty s1 else Inr s1)"

record reconcile_state =
  rc_gates :: gate_map
  rc_remaining :: "string list"
  rc_dirty :: "string list"
  rc_commits :: "status_commit list"

definition reconcile_gate ::
  "rat \<Rightarrow> string \<Rightarrow> string list \<Rightarrow> reconcile_state \<Rightarrow> string \<times> gate_state \<Rightarrow> reconcile_state" where
  "reconcile_gate now goalId modified r entry =
     (case entry of (key, g) \<Rightarrow>
        if gs_goalId g \<noteq> goalId then r
        else if gs_gateId g \<notin> set (rc_remaining r)
        then r\<lparr>rc_gates := AList.delete key (rc_gates r), rc_dirty := rc_dirty r @ [key]\<rparr>
        else let r1 = r\<lparr>rc_remaining := filter (\<lambda>i. i \<noteq> gs_gateId g) (rc_remaining r)\<rparr> in
          if gs_gateId g \<in> set modified
          then (case nextStatusCommit g Pending now of (g1, commit) \<Rightarrow>
            let g2 = g1\<lparr>gs_cacheInvalidatedAt := Some now, gs_updatedAt := max now (gs_updatedAt g1)\<rparr> in
            r1\<lparr>rc_gates := AList.update key g2 (rc_gates r1), rc_dirty := rc_dirty r1 @ [key],
               rc_commits := rc_commits r1 @ (case commit of None \<Rightarrow> [] | Some c \<Rightarrow> [c])\<rparr>)
          else r1)"

definition add_missing_gate :: "rat \<Rightarrow> string \<Rightarrow> reconcile_state \<Rightarrow> string \<Rightarrow> reconcile_state" where
  "add_missing_gate now goalId r gateId =
     (let key = compositeKey goalId gateId in
      r\<lparr>rc_gates := AList.update key (pending_gate now goalId gateId) (rc_gates r), rc_dirty := rc_dirty r @ [key]\<rparr>)"

definition status_events :: "status_commit list \<Rightarrow> gate_event list" where
  "status_events commits = map (\<lambda>c. Status_changed (sc_goalId c) (sc_gateId c)) commits"

definition reconcileGatesForGoal ::
  "rat \<Rightarrow> string \<Rightarrow> string list \<Rightarrow> string list \<Rightarrow> gate_store \<Rightarrow> gate_error + gate_store" where
  "reconcileGatesForGoal now goalId nextGateIds modifiedGateIds s = accepting s
     (let r0 = \<lparr>rc_gates = gst_gates s, rc_remaining = js_uniq nextGateIds, rc_dirty = [], rc_commits = []\<rparr>;
          r1 = foldl (reconcile_gate now goalId modifiedGateIds) r0 (gst_gates s);
          r2 = foldl (add_missing_gate now goalId) r1 (rc_remaining r1);
          s1 = s\<lparr>gst_gates := rc_gates r2\<rparr> in
      bind_res
        (if rc_dirty r2 = [] then Inr s1
         else if rc_commits r2 \<noteq> [] then publishStatusCommitsDetached (rc_dirty r2) (rc_commits r2) s1
         else gate_save (rc_dirty r2) s1)
        (\<lambda>s2. Inr (add_events (status_events (rc_commits r2)) s2)))"

definition getGate :: "string \<Rightarrow> string \<Rightarrow> gate_store \<Rightarrow> gate_state option" where
  "getGate goalId gateId s = map_of (gst_gates s) (compositeKey goalId gateId)"

definition getGatesForGoal :: "string \<Rightarrow> gate_store \<Rightarrow> gate_state list" where
  "getGatesForGoal goalId s = filter (\<lambda>g. gs_goalId g = goalId) (map snd (gst_gates s))"

definition recordSignal :: "rat \<Rightarrow> gate_signal \<Rightarrow> gate_store \<Rightarrow> gate_error + gate_store" where
  "recordSignal now sig s = accepting s
     (let key = compositeKey (sig_goalId sig) (sig_gateId sig) in
      case map_of (gst_gates s) key of
        None \<Rightarrow> Inr s
      | Some g \<Rightarrow>
        bind_res (gate_save [key] (set_gate key (g\<lparr>gs_signals := gs_signals g @ [sig], gs_updatedAt := now\<rparr>) s))
          (\<lambda>s1. Inr (add_events [Status_changed (sig_goalId sig) (sig_gateId sig)] s1)))"

definition bypass_signal :: "nat \<Rightarrow> string \<Rightarrow> string \<Rightarrow> string \<Rightarrow> string \<Rightarrow> string \<Rightarrow> gate_signal" where
  "bypass_signal now uuid goalId gateId whyBypassed whoAmI =
     \<lparr>sig_id = ''bypass-'' @ uuid, sig_gateId = gateId, sig_goalId = goalId, sig_sessionId = ''human-bypass'',
      sig_timestamp = of_nat now, sig_commitSha = [],
      sig_metadata = Some [(''bypass'', ''true''), (''whyBypassed'', whyBypassed), (''whoAmI'', whoAmI),
        (''bypassedAt'', decimal now)],
      sig_content = Some whyBypassed, sig_contentVersion = None,
      sig_verification = \<lparr>vr_status = Run_passed, vr_steps = []\<rparr>\<rparr>"

definition bypassGate :: "nat \<Rightarrow> string \<Rightarrow> string \<Rightarrow> string \<Rightarrow> string \<Rightarrow> string \<Rightarrow> gate_store \<Rightarrow> gate_error + gate_store" where
  "bypassGate now uuid goalId gateId whyBypassed whoAmI s = accepting s
     (let key = compositeKey goalId gateId in
      case map_of (gst_gates s) key of
        None \<Rightarrow> Inl (Unknown_gate gateId)
      | Some g \<Rightarrow>
        let g0 = g\<lparr>gs_signals := gs_signals g @ [bypass_signal now uuid goalId gateId whyBypassed whoAmI]\<rparr> in
        bind_res
          (case nextStatusCommit g0 Bypassed (of_nat now) of
             (g1, Some commit) \<Rightarrow> publishStatusCommitsDetached [key] [commit] (set_gate key g1 s)
           | (g1, None) \<Rightarrow>
               gate_save [key] (set_gate key (g1\<lparr>gs_updatedAt := max (of_nat now) (gs_updatedAt g1 + 1)\<rparr>) s))
          (\<lambda>s1. Inr (add_events [Status_changed goalId gateId] s1)))"

definition is_bypass :: "gate_signal \<Rightarrow> bool" where
  "is_bypass sig = (case sig_metadata sig of None \<Rightarrow> False | Some m \<Rightarrow> map_of m ''bypass'' = Some ''true'')"

definition getLatestBypassSignal :: "gate_state \<Rightarrow> gate_signal option" where
  "getLatestBypassSignal g = find is_bypass (rev (gs_signals g))"

definition updateGateStatus :: "rat \<Rightarrow> string \<Rightarrow> string \<Rightarrow> gate_status \<Rightarrow> gate_store \<Rightarrow> gate_error + gate_store" where
  "updateGateStatus now goalId gateId status s = accepting s
     (let key = compositeKey goalId gateId in
      case map_of (gst_gates s) key of
        None \<Rightarrow> Inr s
      | Some g \<Rightarrow>
        (case nextStatusCommit g status now of
           (g1, None) \<Rightarrow> Inr s
         | (g1, Some commit) \<Rightarrow>
             bind_res (publishStatusCommitsDetached [key] [commit] (set_gate key g1 s))
               (\<lambda>s1. Inr (add_events [Status_changed goalId gateId] s1))))"

definition updateGateContent :: "rat \<Rightarrow> string \<Rightarrow> string \<Rightarrow> string \<Rightarrow> rat \<Rightarrow> gate_store \<Rightarrow> gate_error + gate_store" where
  "updateGateContent now goalId gateId content version s = accepting s
     (let key = compositeKey goalId gateId in
      case map_of (gst_gates s) key of
        None \<Rightarrow> Inr s
      | Some g \<Rightarrow> gate_save [key] (set_gate key
          (g\<lparr>gs_currentContent := Some content, gs_currentContentVersion := Some version, gs_updatedAt := now\<rparr>) s))"

definition updateGateMetadata :: "rat \<Rightarrow> string \<Rightarrow> string \<Rightarrow> (string \<times> string) list \<Rightarrow> gate_store \<Rightarrow> gate_error + gate_store" where
  "updateGateMetadata now goalId gateId metadata s = accepting s
     (let key = compositeKey goalId gateId in
      case map_of (gst_gates s) key of
        None \<Rightarrow> Inr s
      | Some g \<Rightarrow> gate_save [key] (set_gate key (g\<lparr>gs_currentMetadata := Some metadata, gs_updatedAt := now\<rparr>) s))"

text \<open>The first signal with the id, of the first gate that has one; a finished signal stays as it is.\<close>

fun set_verification :: "string \<Rightarrow> verification_result \<Rightarrow> gate_signal list \<Rightarrow> gate_signal list" where
  "set_verification i v [] = []"
| "set_verification i v (sig # sigs) =
     (if sig_id sig = i then sig\<lparr>sig_verification := v\<rparr> # sigs else sig # set_verification i v sigs)"

definition has_signal :: "string \<Rightarrow> string \<times> gate_state \<Rightarrow> bool" where
  "has_signal i entry = list_ex (\<lambda>sig. sig_id sig = i) (gs_signals (snd entry))"

definition updateSignalVerification :: "rat \<Rightarrow> string \<Rightarrow> verification_result \<Rightarrow> gate_store \<Rightarrow> gate_error + gate_store" where
  "updateSignalVerification now signalId verification s = accepting s
     (case find (has_signal signalId) (gst_gates s) of
        None \<Rightarrow> Inr s
      | Some (key, g) \<Rightarrow>
        (case find (\<lambda>sig. sig_id sig = signalId) (gs_signals g) of
           None \<Rightarrow> Inr s
         | Some sig \<Rightarrow>
             if vr_status (sig_verification sig) \<noteq> Running then Inr s
             else gate_save [key] (set_gate key
               (g\<lparr>gs_signals := set_verification signalId verification (gs_signals g), gs_updatedAt := now\<rparr>) s)))"

section \<open>Dependents\<close>

definition add_adjacency :: "string \<Rightarrow> (js \<times> string list) list \<Rightarrow> js \<Rightarrow> (js \<times> string list) list" where
  "add_adjacency gateId adj depId = AList.update depId (or_empty (map_of adj depId) @ [gateId]) adj"

definition adjacency :: "gate list \<Rightarrow> (js \<times> string list) list" where
  "adjacency gates = foldl (\<lambda>adj g. foldl (add_adjacency (g_id g)) adj (g_dependsOn g)) [] gates"

fun visit_new :: "string list \<Rightarrow> string list \<Rightarrow> string list \<Rightarrow> string list \<times> string list" where
  "visit_new [] visited queue = (visited, queue)"
| "visit_new (d # ds) visited queue =
     (if d \<in> set visited then visit_new ds visited queue else visit_new ds (visited @ [d]) (queue @ [d]))"

lemma visit_new_spec:
  "visit_new ds visited queue = (v', q') \<Longrightarrow>
   \<exists>new. v' = visited @ new \<and> q' = queue @ new \<and> set new = set ds - set visited \<and> distinct new"
proof (induction ds visited queue arbitrary: v' q' rule: visit_new.induct)
  case (2 d ds visited queue)
  show ?case
  proof (cases "d \<in> set visited")
    case True
    with 2 show ?thesis by fastforce
  next
    case False
    with "2.prems" have "visit_new ds (visited @ [d]) (queue @ [d]) = (v', q')" by simp
    from "2.IH"(2) [OF False this] obtain new where "v' = (visited @ [d]) @ new" "q' = (queue @ [d]) @ new"
      "set new = set ds - set (visited @ [d])" "distinct new" by blast
    with False show ?thesis by (intro exI [of _ "d # new"]) auto
  qed
qed simp

definition all_adjacent :: "(js \<times> string list) list \<Rightarrow> string set" where
  "all_adjacent adj = (\<Union>(k, ds) \<in> set adj. set ds)"

lemma adjacent_all: "set (or_empty (map_of adj k)) \<subseteq> all_adjacent adj"
  by (cases "map_of adj k") (auto simp: all_adjacent_def dest: map_of_SomeD)

function bfs :: "(js \<times> string list) list \<Rightarrow> string list \<Rightarrow> string list \<Rightarrow> string list" where
  "bfs adj visited [] = []"
| "bfs adj visited (current # queue) =
     (case visit_new (or_empty (map_of adj (JStr current))) visited queue of
        (v', q') \<Rightarrow> current # bfs adj v' q')"
  by pat_completeness auto
termination
proof (relation "measures [\<lambda>(adj, visited, queue). card (all_adjacent adj - set visited), \<lambda>(adj, visited, queue). length queue]",
    goal_cases)
  case (2 adj visited current queue v' q')
  from 2 obtain new where new: "v' = visited @ new" "q' = queue @ new"
    "set new = set (or_empty (map_of adj (JStr current))) - set visited"
    using visit_new_spec [of "or_empty (map_of adj (JStr current))" visited queue v' q'] by (metis (no_types, lifting))
  show ?case
  proof (cases new)
    case Nil
    with new show ?thesis by simp
  next
    case (Cons n ns)
    then have "n \<in> all_adjacent adj" "n \<notin> set visited" using new(3) adjacent_all by fastforce+
    then have "all_adjacent adj - set v' \<subset> all_adjacent adj - set visited" using new Cons by auto
    moreover have "finite (all_adjacent adj)" by (auto simp: all_adjacent_def)
    ultimately show ?thesis by (simp add: psubset_card_mono)
  qed
qed simp

definition getDependentGateIds :: "string \<Rightarrow> workflow \<Rightarrow> bool \<Rightarrow> gate_error + string list" where
  "getDependentGateIds gateId wflow includeRequested =
     (if gateId \<notin> set (map g_id (w_gates wflow)) then Inl (Unknown_gate gateId)
      else Inr (filter (\<lambda>i. includeRequested \<or> i \<noteq> gateId) (bfs (adjacency (w_gates wflow)) [gateId] [gateId])))"

section \<open>Resets\<close>

record reset_state =
  rt_gates :: gate_map
  rt_keys :: "string list"
  rt_snapshots :: gate_map
  rt_commits :: "status_commit list"
  rt_changed :: "string list"
  rt_unchanged :: "string list"
  rt_previous :: "(string \<times> gate_status) list"

definition reset_gate :: "rat \<Rightarrow> string \<Rightarrow> reset_state \<Rightarrow> string \<Rightarrow> reset_state" where
  "reset_gate now goalId r i =
     (let key = compositeKey goalId i in
      case map_of (rt_gates r) key of
        None \<Rightarrow> r\<lparr>rt_unchanged := rt_unchanged r @ [i], rt_previous := AList.update i Pending (rt_previous r)\<rparr>
      | Some g \<Rightarrow>
        let r1 = r\<lparr>rt_keys := rt_keys r @ [key], rt_snapshots := AList.update key g (rt_snapshots r),
                   rt_previous := AList.update i (gs_status g) (rt_previous r)\<rparr>;
            g1 = g\<lparr>gs_cacheInvalidatedAt := Some now, gs_updatedAt := max now (gs_updatedAt g)\<rparr> in
        (case nextStatusCommit g1 Pending now of
           (g2, Some commit) \<Rightarrow> r1\<lparr>rt_gates := AList.update key g2 (rt_gates r1), rt_commits := rt_commits r1 @ [commit],
                                  rt_changed := rt_changed r1 @ [i]\<rparr>
         | (g2, None) \<Rightarrow> r1\<lparr>rt_gates := AList.update key g2 (rt_gates r1), rt_unchanged := rt_unchanged r1 @ [i]\<rparr>))"

definition run_reset :: "rat \<Rightarrow> string \<Rightarrow> string list \<Rightarrow> gate_map \<Rightarrow> reset_state" where
  "run_reset now goalId affected gates =
     foldl (reset_gate now goalId)
       \<lparr>rt_gates = gates, rt_keys = [], rt_snapshots = [], rt_commits = [], rt_changed = [], rt_unchanged = [], rt_previous = []\<rparr>
       affected"

definition make_result :: "string \<Rightarrow> string list \<Rightarrow> reset_state \<Rightarrow> reset_result" where
  "make_result gateId affected r =
     \<lparr>rr_requestedGateId = gateId, rr_affectedGateIds = affected, rr_changedGateIds = rt_changed r,
      rr_unchangedGateIds = rt_unchanged r, rr_previousStatuses = rt_previous r\<rparr>"

definition changed_events :: "string \<Rightarrow> reset_result \<Rightarrow> gate_event list" where
  "changed_events goalId res = map (Status_changed goalId) (rr_changedGateIds res)"

definition pending_commits :: "string list \<Rightarrow> gate_store \<Rightarrow> status_commit list" where
  "pending_commits keys s = concat (map (\<lambda>k. or_empty (map_of (gst_pending s) k)) keys)"

definition clear_pending :: "string list \<Rightarrow> gate_store \<Rightarrow> gate_store" where
  "clear_pending keys s = s\<lparr>gst_pending := remove_keys keys (gst_pending s)\<rparr>"

definition add_pending :: "(string \<times> status_commit list) list \<Rightarrow> status_commit \<Rightarrow> (string \<times> status_commit list) list" where
  "add_pending m c = AList.update (commit_key c) (or_empty (map_of m (commit_key c)) @ [c]) m"

text \<open>The catch block: a gate that is still there gets the four fields of its snapshot back.\<close>

definition restore_gate :: "gate_map \<Rightarrow> string \<times> gate_state \<Rightarrow> gate_map" where
  "restore_gate gates entry =
     (case entry of (key, snapshot) \<Rightarrow>
        (case map_of gates key of
           None \<Rightarrow> gates
         | Some g \<Rightarrow> AList.update key
             (g\<lparr>gs_status := gs_status snapshot, gs_updatedAt := gs_updatedAt snapshot,
                gs_statusRevision := gs_statusRevision snapshot,
                gs_cacheInvalidatedAt := gs_cacheInvalidatedAt snapshot\<rparr>) gates))"

text \<open>
  The three forms of a reset. A refused write restores the snapshots and reports the error; with nothing
  having happened in between, that is the store as it was.
\<close>

definition resetGateAndDependents :: "rat \<Rightarrow> string \<Rightarrow> string \<Rightarrow> workflow \<Rightarrow> gate_store \<Rightarrow> gate_error + gate_store" where
  "resetGateAndDependents now goalId gateId wflow s = accepting s
     (bind_res (getDependentGateIds gateId wflow True) (\<lambda>affected.
        let r = run_reset now goalId affected (gst_gates s);
            res = make_result gateId affected r;
            s1 = s\<lparr>gst_gates := rt_gates r\<rparr>;
            commits = pending_commits (rt_keys r) s @ rt_commits r in
        bind_res
          (if rt_keys r = [] then Inr s1
           else if commits \<noteq> [] then bind_res (publishStatusCommitsDetached (rt_keys r) commits s1) (\<lambda>s2. Inr (clear_pending (rt_keys r) s2))
           else bind_res (gate_save (rt_keys r) s1) (\<lambda>s2. Inr (clear_pending (rt_keys r) s2)))
          (\<lambda>s3. Inr (add_events (changed_events goalId res @ [Reset_resolved res]) s3))))"

definition resetGateAndDependentsInMemory :: "rat \<Rightarrow> string \<Rightarrow> string \<Rightarrow> workflow \<Rightarrow> gate_store \<Rightarrow> gate_error + gate_store" where
  "resetGateAndDependentsInMemory now goalId gateId wflow s = accepting s
     (bind_res (getDependentGateIds gateId wflow True) (\<lambda>affected.
        let r = run_reset now goalId affected (gst_gates s);
            res = make_result gateId affected r in
        Inr (add_events (changed_events goalId res @ [Reset_resolved res])
          (s\<lparr>gst_gates := rt_gates r, gst_pending := foldl add_pending (gst_pending s) (rt_commits r)\<rparr>))))"

definition resetGateAndDependentsStrict :: "rat \<Rightarrow> string \<Rightarrow> string \<Rightarrow> workflow \<Rightarrow> gate_store \<Rightarrow> gate_error + gate_store" where
  "resetGateAndDependentsStrict now goalId gateId wflow s = accepting s
     (bind_res (getDependentGateIds gateId wflow True) (\<lambda>affected.
        let r = run_reset now goalId affected (gst_gates s);
            res = make_result gateId affected r;
            s1 = s\<lparr>gst_gates := rt_gates r\<rparr> in
        if rt_keys r = [] then Inr (add_events (changed_events goalId res @ [Reset_resolved res]) s1)
        else bind_res (publishStrict (rt_keys r) (gst_persist s)) (\<lambda>(t, p).
          Inr (s1\<lparr>gst_persist := p,
            gst_resets := gst_resets s @
              [(t, \<lparr>sr_goalId = goalId, sr_keys = rt_keys r,
                    sr_statusKeys = js_uniq (map commit_key (pending_commits (rt_keys r) s @ rt_commits r)),
                    sr_snapshots = rt_snapshots r, sr_result = res\<rparr>)]\<rparr>))))"

text \<open>What runs when the write of a strict reset is settled.\<close>

definition reset_settled :: "nat \<Rightarrow> gate_store \<Rightarrow> gate_store" where
  "reset_settled t s =
     (case (map_of (gst_resets s) t, map_of (pe_settled (gst_persist s)) t) of
        (Some sr, Some (Resolved pub)) \<Rightarrow>
          add_events (changed_events (sr_goalId sr) (sr_result sr) @ [Reset_resolved (sr_result sr)])
            (clear_pending (sr_keys sr) (reportStatusCommits (sr_statusKeys sr) pub
              (s\<lparr>gst_resets := AList.delete t (gst_resets s)\<rparr>)))
      | (Some sr, Some Rejected) \<Rightarrow>
          add_events [Reset_rejected]
            (s\<lparr>gst_resets := AList.delete t (gst_resets s),
               gst_gates := foldl restore_gate (gst_gates s) (sr_snapshots sr)\<rparr>)
      | _ \<Rightarrow> s)"

record cascade_state =
  cs_gates :: gate_map
  cs_dirty :: "string list"
  cs_commits :: "status_commit list"
  cs_changed :: "string list"

definition cascade_gate :: "rat \<Rightarrow> string \<Rightarrow> cascade_state \<Rightarrow> string \<Rightarrow> cascade_state" where
  "cascade_gate now goalId r depId =
     (let key = compositeKey goalId depId in
      case map_of (cs_gates r) key of
        None \<Rightarrow> r
      | Some g \<Rightarrow>
        (case nextStatusCommit g Pending now of
           (g1, None) \<Rightarrow> r
         | (g1, Some c) \<Rightarrow>
             r\<lparr>cs_gates := AList.update key g1 (cs_gates r), cs_dirty := cs_dirty r @ [key],
               cs_commits := cs_commits r @ [c], cs_changed := cs_changed r @ [depId]\<rparr>))"

definition run_cascade :: "rat \<Rightarrow> string \<Rightarrow> string list \<Rightarrow> gate_map \<Rightarrow> cascade_state" where
  "run_cascade now goalId dependents gates =
     foldl (cascade_gate now goalId) \<lparr>cs_gates = gates, cs_dirty = [], cs_commits = [], cs_changed = []\<rparr> dependents"

definition cascadeReset :: "rat \<Rightarrow> string \<Rightarrow> string \<Rightarrow> workflow \<Rightarrow> gate_store \<Rightarrow> gate_error + gate_store" where
  "cascadeReset now goalId gateId wflow s = accepting s
     (bind_res (getDependentGateIds gateId wflow False) (\<lambda>dependents.
        let r = run_cascade now goalId dependents (gst_gates s);
            s1 = s\<lparr>gst_gates := cs_gates r\<rparr> in
        bind_res (if cs_dirty r \<noteq> [] then publishStatusCommitsDetached (cs_dirty r) (cs_commits r) s1 else Inr s1)
          (\<lambda>s2. Inr (add_events (map (Status_changed goalId) (cs_changed r)) s2))))"

definition removeGoalGates :: "string \<Rightarrow> gate_store \<Rightarrow> gate_error + gate_store" where
  "removeGoalGates goalId s = accepting s
     (let keys = map fst (filter (\<lambda>(k, g). gs_goalId g = goalId) (gst_gates s));
          s1 = s\<lparr>gst_gates := remove_keys keys (gst_gates s)\<rparr> in
      if keys \<noteq> [] then gate_save keys s1 else Inr s1)"

text \<open>
  \<open>flush\<close>: the promise of a detached flush that is running or is started here, or the writer's. The
  first synchronous part of \<open>close\<close> is the fence; \<open>dispose\<close> lets go of everything.
\<close>

definition gst_flush_now :: "gate_store \<Rightarrow> gate_error + gate_store" where
  "gst_flush_now s =
     (if gst_detached s \<noteq> [] \<or> gst_flush s \<noteq> No_flush then Inr (flushDetachedStatusCommits s)
      else bind_res (pe_flush (gst_persist s)) (\<lambda>(t, p). Inr (s\<lparr>gst_persist := p\<rparr>)))"

definition gst_dispose :: "gate_store \<Rightarrow> gate_store" where
  "gst_dispose s = s\<lparr>gst_accepting := False, gst_persist := pe_dispose (gst_persist s)\<rparr>"

section \<open>Calls, ticks and runs\<close>

datatype gate_call =
    Init_gates rat string "string list"
  | Reconcile rat string "string list" "string list"
  | Record_signal rat gate_signal
  | Bypass nat string string string string string
  | Update_status rat string string gate_status
  | Update_content rat string string string rat
  | Update_metadata rat string string "(string \<times> string) list"
  | Update_verification rat string verification_result
  | Reset rat string string workflow
  | Reset_strict rat string string workflow
  | Reset_in_memory rat string string workflow
  | Cascade rat string string workflow
  | Remove_goal string
  | Flush

fun perform :: "gate_call \<Rightarrow> gate_store \<Rightarrow> gate_error + gate_store" where
  "perform (Init_gates now goal ids) s = initGatesForGoal now goal ids s"
| "perform (Reconcile now goal ids modified) s = reconcileGatesForGoal now goal ids modified s"
| "perform (Record_signal now sig) s = recordSignal now sig s"
| "perform (Bypass now uuid goal gate_id why who) s = bypassGate now uuid goal gate_id why who s"
| "perform (Update_status now goal gate_id status) s = updateGateStatus now goal gate_id status s"
| "perform (Update_content now goal gate_id content version) s = updateGateContent now goal gate_id content version s"
| "perform (Update_metadata now goal gate_id metadata) s = updateGateMetadata now goal gate_id metadata s"
| "perform (Update_verification now signal_id v) s = updateSignalVerification now signal_id v s"
| "perform (Reset now goal gate_id wflow) s = resetGateAndDependents now goal gate_id wflow s"
| "perform (Reset_strict now goal gate_id wflow) s = resetGateAndDependentsStrict now goal gate_id wflow s"
| "perform (Reset_in_memory now goal gate_id wflow) s = resetGateAndDependentsInMemory now goal gate_id wflow s"
| "perform (Cascade now goal gate_id wflow) s = cascadeReset now goal gate_id wflow s"
| "perform (Remove_goal goal) s = removeGoalGates goal s"
| "perform Flush s = gst_flush_now s"

datatype gate_tick = Timer | Drain bool | Drain_done | Restart | Detached_microtask | Flush_settled | Flush_finally | Reset_settled nat

text \<open>
  What waits for a settled barrier runs within three microtasks, a new drain starts no earlier: a drain
  finds no settled barrier with its continuation still to run. A transaction on a closed database fails.
\<close>

definition continuations_done :: "gate_store \<Rightarrow> bool" where
  "continuations_done s =
     (list_all (\<lambda>(t, sr). map_of (pe_settled (gst_persist s)) t = None) (gst_resets s) \<and>
      (case gst_flush s of Flushing keys t \<Rightarrow> map_of (pe_settled (gst_persist s)) t = None | _ \<Rightarrow> True))"

fun tick_enabled :: "gate_tick \<Rightarrow> gate_store \<Rightarrow> bool" where
  "tick_enabled (Drain ok) s = (pe_inFlight (gst_persist s) \<and> (ok \<longrightarrow> \<not> pe_closed (gst_persist s)) \<and> continuations_done s)"
| "tick_enabled Drain_done s = pe_inFlight (gst_persist s)"
| "tick_enabled _ s = True"

fun tick :: "gate_tick \<Rightarrow> gate_store \<Rightarrow> gate_store" where
  "tick Timer s = s\<lparr>gst_persist := timer_fires (gst_persist s)\<rparr>"
| "tick (Drain ok) s = s\<lparr>gst_persist := drain ok (gst_gates s) (gst_persist s)\<rparr>"
| "tick Drain_done s = s\<lparr>gst_persist := drain_done (gst_persist s)\<rparr>"
| "tick Restart s = s\<lparr>gst_persist := restart_drain (gst_persist s)\<rparr>"
| "tick Detached_microtask s = detached_microtask s"
| "tick Flush_settled s = flush_settled s"
| "tick Flush_finally s = flush_finally s"
| "tick (Reset_settled t) s = reset_settled t s"

text \<open>
  A run of the store on a database, with the keys whose in-memory change the caller has yet to fence: an
  in-memory reset leaves the write to its caller, who ends it with another reset of the same gate. A key
  is fenced as soon as it is handed to the writer, dirty or in the batch of status commits.
\<close>

definition reset_keys :: "string \<Rightarrow> string \<Rightarrow> workflow \<Rightarrow> string set" where
  "reset_keys goalId gateId wflow =
     (case getDependentGateIds gateId wflow True of Inl e \<Rightarrow> {} | Inr ids \<Rightarrow> compositeKey goalId ` set ids)"

definition handed_over :: "gate_store \<Rightarrow> string set" where
  "handed_over s = set (pe_dirty (gst_persist s)) \<union> set (gst_detached s)"

fun memory_only :: "gate_call \<Rightarrow> string set" where
  "memory_only (Reset_in_memory now goal gate_id wflow) = reset_keys goal gate_id wflow"
| "memory_only _ = {}"

definition unfenced_after :: "gate_call \<Rightarrow> gate_store \<Rightarrow> string set \<Rightarrow> string set" where
  "unfenced_after c s' U = (U \<union> memory_only c) - handed_over s'"

text \<open>Goal ids are UUIDs: they have no colon.\<close>

fun call_ok :: "gate_call \<Rightarrow> bool" where
  "call_ok (Init_gates now goal ids) = (CHR '':'' \<notin> set goal)"
| "call_ok (Reconcile now goal ids modified) = (CHR '':'' \<notin> set goal)"
| "call_ok _ = True"

inductive gate_run :: "bool \<Rightarrow> ((string \<times> string) \<times> gate_state) list \<Rightarrow> gate_store \<Rightarrow> string set \<Rightarrow> bool"
  for observed rows where
  run_open: "gate_run observed rows (open_store observed rows) {}"
| run_call: "gate_run observed rows s U \<Longrightarrow> call_ok c \<Longrightarrow> perform c s = Inr s' \<Longrightarrow> gate_run observed rows s' (unfenced_after c s' U)"
| run_tick: "gate_run observed rows s U \<Longrightarrow> tick_enabled t s \<Longrightarrow> gate_run observed rows (tick t s) U"
| run_dispose: "gate_run observed rows s U \<Longrightarrow> gate_run observed rows (gst_dispose s) U"

end
