(* ===== verification/Gate_Safety.thy ===== *)
theory Gate_Safety
  imports Gate_Store
begin

text \<open>
  What the gate store guarantees: no change in memory is forgotten by the writer, the rows of the
  database are the durable states, statuses change only together with their revisions, and a reset
  reaches exactly the dependents of a gate.
\<close>

section \<open>No change is forgotten\<close>

text \<open>Memory and durable state agree, but for keys still to be written and the keys in \<open>U\<close>.\<close>

definition in_step :: "gate_store \<Rightarrow> string set \<Rightarrow> bool" where
  "in_step s U = sqlite.synced (set (gst_detached s) \<union> U) (map_of (gst_gates s)) (gst_persist s)"

definition agree :: "string set \<Rightarrow> gate_map \<Rightarrow> gate_map \<Rightarrow> bool" where
  "agree ks m m' \<longleftrightarrow> (\<forall>k. k \<notin> ks \<longrightarrow> map_of m' k = map_of m k)"

lemma agree_refl [simp]: "agree ks m m"
  by (simp add: agree_def)

lemma agree_update: "agree ks m m' \<Longrightarrow> k \<in> ks \<Longrightarrow> agree ks m (AList.update k g m')"
  by (auto simp: agree_def)

lemma agree_delete: "agree ks m m' \<Longrightarrow> k \<in> ks \<Longrightarrow> agree ks m (AList.delete k m')"
  by (auto simp: agree_def)

lemma agree_mono: "agree ks m m' \<Longrightarrow> ks \<subseteq> ks' \<Longrightarrow> agree ks' m m'"
  by (auto simp: agree_def)

lemma add_events_fields [simp]:
  "gst_gates (add_events es s) = gst_gates s" "gst_detached (add_events es s) = gst_detached s"
  "gst_persist (add_events es s) = gst_persist s" "gst_flush (add_events es s) = gst_flush s"
  "gst_resets (add_events es s) = gst_resets s" "gst_accepting (add_events es s) = gst_accepting s"
  "gst_observed (add_events es s) = gst_observed s" "gst_scheduled (add_events es s) = gst_scheduled s"
  by (simp_all add: add_events_def)

lemma clear_pending_fields [simp]:
  "gst_gates (clear_pending ks s) = gst_gates s" "gst_detached (clear_pending ks s) = gst_detached s"
  "gst_persist (clear_pending ks s) = gst_persist s" "gst_flush (clear_pending ks s) = gst_flush s"
  "gst_resets (clear_pending ks s) = gst_resets s" "gst_accepting (clear_pending ks s) = gst_accepting s"
  by (simp_all add: clear_pending_def)

lemma report_fields [simp]:
  "gst_gates (reportStatusCommits ks pub s) = gst_gates s" "gst_detached (reportStatusCommits ks pub s) = gst_detached s"
  "gst_persist (reportStatusCommits ks pub s) = gst_persist s" "gst_flush (reportStatusCommits ks pub s) = gst_flush s"
  "gst_resets (reportStatusCommits ks pub s) = gst_resets s" "gst_accepting (reportStatusCommits ks pub s) = gst_accepting s"
  by (simp_all add: reportStatusCommits_def)

lemma set_gate_fields [simp]:
  "gst_gates (set_gate k g s) = AList.update k g (gst_gates s)" "gst_detached (set_gate k g s) = gst_detached s"
  "gst_persist (set_gate k g s) = gst_persist s" "gst_flush (set_gate k g s) = gst_flush s"
  "gst_resets (set_gate k g s) = gst_resets s" "gst_accepting (set_gate k g s) = gst_accepting s"
  by (simp_all add: set_gate_def)

lemma in_step_events [simp]: "in_step (add_events es s) U = in_step s U"
  by (simp add: in_step_def)

lemma in_step_pending [simp]: "in_step (clear_pending ks s) U = in_step s U"
  by (simp add: in_step_def)

lemma accepting_Inr: "accepting s r = Inr s' \<longleftrightarrow> gst_accepting s \<and> r = Inr s'"
  by (simp add: accepting_def)

section \<open>The invariant\<close>

definition key_form :: "string \<Rightarrow> bool" where
  "key_form k \<longleftrightarrow> (\<exists>a b. k = compositeKey a b \<and> CHR '':'' \<notin> set a)"

definition keys_ok :: "gate_map \<Rightarrow> bool" where
  "keys_ok m \<longleftrightarrow> (\<forall>(k, g) \<in> set m. k = compositeKey (gs_goalId g) (gs_gateId g) \<and> CHR '':'' \<notin> set (gs_goalId g))"

lemma keys_okD: "keys_ok m \<Longrightarrow> map_of m k = Some g \<Longrightarrow> k = compositeKey (gs_goalId g) (gs_gateId g) \<and> CHR '':'' \<notin> set (gs_goalId g)"
  unfolding keys_ok_def by (drule map_of_SomeD) auto

lemma keys_ok_form: "keys_ok m \<Longrightarrow> map_of m k = Some g \<Longrightarrow> key_form k"
  unfolding key_form_def by (blast dest: keys_okD)

lemma set_update_subset: "set (AList.update k v m) \<subseteq> insert (k, v) (set m)"
  by (induction m) auto

lemma keys_ok_update:
  "keys_ok m \<Longrightarrow> k = compositeKey (gs_goalId g) (gs_gateId g) \<Longrightarrow> CHR '':'' \<notin> set (gs_goalId g) \<Longrightarrow> keys_ok (AList.update k g m)"
  using set_update_subset [of k g m] unfolding keys_ok_def by blast

lemma keys_ok_same_ids:
  "keys_ok m \<Longrightarrow> map_of m k = Some g \<Longrightarrow> gs_goalId g' = gs_goalId g \<Longrightarrow> gs_gateId g' = gs_gateId g \<Longrightarrow>
   keys_ok (AList.update k g' m)"
  by (rule keys_ok_update) (auto dest: keys_okD)

lemma keys_ok_delete: "keys_ok m \<Longrightarrow> keys_ok (AList.delete k m)"
  by (auto simp: keys_ok_def AList.delete_eq)

definition rows_ok :: "persistence \<Rightarrow> bool" where
  "rows_ok p \<longleftrightarrow> (\<forall>a b. CHR '':'' \<notin> set a \<longrightarrow> map_of (pe_rows p) (a, b) = map_of (pe_durable p) (compositeKey a b))"

fun flush_keys :: "flush_state \<Rightarrow> string list" where
  "flush_keys (Flushing keys t) = keys"
| "flush_keys _ = []"

text \<open>
  A strict reset that waits has its barrier in the queue or settled, and unless its write was published
  its keys are still to be written.
\<close>

definition reset_waits :: "persistence \<Rightarrow> nat \<times> strict_reset \<Rightarrow> bool" where
  "reset_waits p w \<longleftrightarrow>
     (fst w \<in> snd ` set (pe_barriers p) \<or> fst w \<in> fst ` set (pe_settled p)) \<and>
     ((\<exists>pub. map_of (pe_settled p) (fst w) = Some (Resolved pub)) \<or> fst ` set (sr_snapshots (snd w)) \<subseteq> set (pe_dirty p))"

definition barriers_ok :: "persistence \<Rightarrow> bool" where
  "barriers_ok p \<longleftrightarrow>
     (\<forall>(r, t) \<in> set (pe_barriers p). r \<le> pe_revision p) \<and>
     (\<forall>t \<in> snd ` set (pe_barriers p) \<union> fst ` set (pe_settled p). t < pe_token p)"

text \<open>An open writer with work to do is going to do it.\<close>

definition working :: "persistence \<Rightarrow> bool" where
  "working p \<longleftrightarrow> pe_closed p \<or> writer_live p"

definition gate_inv :: "gate_store \<Rightarrow> string set \<Rightarrow> bool" where
  "gate_inv s U \<longleftrightarrow>
     in_step s U \<and> keys_ok (gst_gates s) \<and>
     (\<forall>k \<in> set (pe_dirty (gst_persist s)) \<union> set (gst_detached s) \<union> set (flush_keys (gst_flush s)). key_form k) \<and>
     rows_ok (gst_persist s) \<and> barriers_ok (gst_persist s) \<and> working (gst_persist s) \<and>
     (\<forall>w \<in> set (gst_resets s). reset_waits (gst_persist s) w)"

section \<open>Steps that only hand keys to the writer\<close>

definition grows :: "persistence \<Rightarrow> persistence \<Rightarrow> bool" where
  "grows p p' \<longleftrightarrow>
     set (pe_dirty p) \<subseteq> set (pe_dirty p') \<and> pe_settled p' = pe_settled p \<and> set (pe_barriers p) \<subseteq> set (pe_barriers p') \<and>
     pe_token p \<le> pe_token p' \<and> pe_durable p' = pe_durable p \<and> pe_rows p' = pe_rows p \<and> (barriers_ok p \<longrightarrow> barriers_ok p') \<and>
     (working p \<longrightarrow> working p')"

lemma grows_refl: "grows p p"
  by (simp add: grows_def)

lemma grows_trans: "grows p q \<Longrightarrow> grows q r \<Longrightarrow> grows p r"
  unfolding grows_def by auto

lemma grows_schedule: "grows p (schedule_keys ks p)"
  using writer_live_schedule [of p ks] by (auto simp: grows_def schedule_keys_def barriers_ok_def working_def)

lemma grows_dirty: "set (pe_dirty p) \<subseteq> set d \<Longrightarrow> grows p (p\<lparr>pe_dirty := d\<rparr>)"
  using writer_live_dirty [of p d] by (auto simp: grows_def barriers_ok_def working_def)

lemma requestBarrier_Inr:
  "requestBarrier allow p = Inr (t, p') \<Longrightarrow>
   t = pe_token p \<and> p' = p\<lparr>pe_revision := Suc (pe_revision p), pe_requested := True, pe_timer := False,
      pe_barriers := pe_barriers p @ [(Suc (pe_revision p), pe_token p)], pe_token := Suc (pe_token p), pe_inFlight := True\<rparr>"
  by (auto simp: requestBarrier_def Let_def startDrain_def split: if_splits)

lemma grows_barrier:
  assumes "requestBarrier allow p = Inr (t, p')"
  shows "grows p p'"
proof -
  have "working p \<longrightarrow> working p'"
    using writer_live_barrier [OF _ assms] requestBarrier_Inr [OF assms] by (auto simp: working_def)
  moreover have "barriers_ok p \<longrightarrow> barriers_ok p'"
    using requestBarrier_Inr [OF assms] by (fastforce simp: barriers_ok_def less_Suc_eq)
  ultimately show ?thesis
    using requestBarrier_Inr [OF assms] by (auto simp: grows_def)
qed

lemma publishStrict_Inr:
  assumes "publishStrict ks p = Inr (t, p')"
  shows "grows p p' \<and> set (pe_dirty p') = set (pe_dirty p) \<union> set ks \<and> t = pe_token p \<and> t \<in> snd ` set (pe_barriers p')"
proof -
  from assms have r: "requestBarrier False (p\<lparr>pe_dirty := add_keys ks (pe_dirty p)\<rparr>) = Inr (t, p')"
    by (simp add: publishStrict_def split: if_splits)
  have "grows p (p\<lparr>pe_dirty := add_keys ks (pe_dirty p)\<rparr>)" by (rule grows_dirty) simp
  from grows_trans [OF this grows_barrier [OF r]] requestBarrier_Inr [OF r] show ?thesis by auto
qed

lemma grows_ticks: "grows p (drain_done p)" "grows p (restart_drain p)" "grows p (timer_fires p)" "grows p (pe_dispose p)"
proof -
  show "grows p (drain_done p)"
    using writer_live_steps(1) by (auto simp: grows_def drain_done_def barriers_ok_def working_def)
  show "grows p (restart_drain p)"
    using writer_live_steps(2) [of p] by (auto simp: grows_def restart_drain_def startDrain_def barriers_ok_def working_def)
  show "grows p (timer_fires p)"
    using writer_live_steps(3) [of p] by (auto simp: grows_def timer_fires_def startDrain_def barriers_ok_def working_def)
  show "grows p (pe_dispose p)" by (simp add: grows_def pe_dispose_def barriers_ok_def working_def)
qed

lemma reset_waits_grows:
  assumes "grows p p'" and "reset_waits p w"
  shows "reset_waits p' w"
  using assms unfolding grows_def reset_waits_def by (metis (no_types, lifting) image_mono subset_iff)

text \<open>
  A move changes memory at the keys it hands over, and at the keys in \<open>V\<close>; nothing waiting to be written
  gets lost on the way.
\<close>

definition moves :: "string set \<Rightarrow> gate_store \<Rightarrow> gate_store \<Rightarrow> bool" where
  "moves V s s' \<longleftrightarrow>
     (\<exists>ks. agree (ks \<union> V) (gst_gates s) (gst_gates s') \<and> (\<forall>k\<in>ks. key_form k) \<and>
       ks \<subseteq> set (pe_dirty (gst_persist s')) \<union> set (gst_detached s') \<and>
       set (pe_dirty (gst_persist s')) \<subseteq> set (pe_dirty (gst_persist s)) \<union> set (gst_detached s) \<union> ks \<and>
       set (gst_detached s') \<subseteq> set (gst_detached s) \<union> ks \<and>
       set (flush_keys (gst_flush s')) \<subseteq> set (flush_keys (gst_flush s)) \<union> set (gst_detached s)) \<and>
     keys_ok (gst_gates s') \<and> grows (gst_persist s) (gst_persist s') \<and>
     set (gst_detached s) \<subseteq> set (pe_dirty (gst_persist s')) \<union> set (gst_detached s') \<and>
     (\<forall>w \<in> set (gst_resets s'). w \<in> set (gst_resets s) \<or>
        (fst w \<in> snd ` set (pe_barriers (gst_persist s')) \<and> fst ` set (sr_snapshots (snd w)) \<subseteq> set (pe_dirty (gst_persist s'))))"

lemma moves_inv:
  assumes inv: "gate_inv s U" and m: "moves V s s'"
  shows "gate_inv s' (U \<union> V)"
proof -
  from m obtain ks where ks: "agree (ks \<union> V) (gst_gates s) (gst_gates s')" "\<forall>k\<in>ks. key_form k"
    "ks \<subseteq> set (pe_dirty (gst_persist s')) \<union> set (gst_detached s')"
    "set (pe_dirty (gst_persist s')) \<subseteq> set (pe_dirty (gst_persist s)) \<union> set (gst_detached s) \<union> ks"
    "set (gst_detached s') \<subseteq> set (gst_detached s) \<union> ks"
    "set (flush_keys (gst_flush s')) \<subseteq> set (flush_keys (gst_flush s)) \<union> set (gst_detached s)"
    and ok: "keys_ok (gst_gates s')" and g: "grows (gst_persist s) (gst_persist s')"
    and det: "set (gst_detached s) \<subseteq> set (pe_dirty (gst_persist s')) \<union> set (gst_detached s')"
    and w: "\<forall>w \<in> set (gst_resets s'). w \<in> set (gst_resets s) \<or>
        (fst w \<in> snd ` set (pe_barriers (gst_persist s')) \<and> fst ` set (sr_snapshots (snd w)) \<subseteq> set (pe_dirty (gst_persist s')))"
    unfolding moves_def by (elim exE conjE) (rule that)
  have dur: "durable_gate (gst_persist s') = durable_gate (gst_persist s)" "set (pe_dirty (gst_persist s)) \<subseteq> set (pe_dirty (gst_persist s'))"
    using g by (auto simp: grows_def durable_gate_def)
  have "in_step s' (U \<union> V)"
  proof -
    have old: "durable_gate (gst_persist s) k = map_of (gst_gates s) k"
      if "k \<notin> set (pe_dirty (gst_persist s)) \<union> (set (gst_detached s) \<union> U)" for k
      using inv that unfolding gate_inv_def in_step_def sqlite.synced_def by blast
    have "durable_gate (gst_persist s') k = map_of (gst_gates s') k"
      if "k \<notin> set (pe_dirty (gst_persist s')) \<union> (set (gst_detached s') \<union> (U \<union> V))" for k
    proof -
      have "k \<notin> ks \<union> V" "k \<notin> set (pe_dirty (gst_persist s)) \<union> (set (gst_detached s) \<union> U)"
        using that ks(3) det dur(2) by blast+
      with old ks(1) dur(1) show ?thesis by (simp add: agree_def)
    qed
    then show ?thesis unfolding in_step_def sqlite.synced_def by blast
  qed
  moreover have "\<forall>k \<in> set (pe_dirty (gst_persist s')) \<union> set (gst_detached s') \<union> set (flush_keys (gst_flush s')). key_form k"
    using inv ks unfolding gate_inv_def by blast
  moreover have "rows_ok (gst_persist s')" "barriers_ok (gst_persist s')" "working (gst_persist s')"
    using inv g unfolding gate_inv_def grows_def rows_ok_def by auto
  moreover have "\<forall>w \<in> set (gst_resets s'). reset_waits (gst_persist s') w"
  proof
    fix x
    assume "x \<in> set (gst_resets s')"
    with w consider "x \<in> set (gst_resets s)" | "fst x \<in> snd ` set (pe_barriers (gst_persist s'))"
        "fst ` set (sr_snapshots (snd x)) \<subseteq> set (pe_dirty (gst_persist s'))" by blast
    then show "reset_waits (gst_persist s') x"
    proof cases
      case 1
      with inv have "reset_waits (gst_persist s) x" unfolding gate_inv_def by blast
      with g show ?thesis by (rule reset_waits_grows)
    qed (simp add: reset_waits_def)
  qed
  ultimately show ?thesis using ok unfolding gate_inv_def by blast
qed

lemma foldl_invariant: "(\<And>a x. P a \<Longrightarrow> P (f a x)) \<Longrightarrow> P a \<Longrightarrow> P (foldl f a xs)"
  by (induction xs arbitrary: a) auto

text \<open>How far an operation has got: what changed is listed, and the keys are in order.\<close>

definition partly :: "gate_map \<Rightarrow> gate_map \<Rightarrow> string list \<Rightarrow> bool" where
  "partly m m' ks \<longleftrightarrow> agree (set ks) m m' \<and> keys_ok m' \<and> list_all key_form ks"

lemma partly_start: "keys_ok m \<Longrightarrow> partly m m []"
  by (simp add: partly_def)

lemma partly_update:
  "partly m m' ks \<Longrightarrow> k = compositeKey (gs_goalId g) (gs_gateId g) \<Longrightarrow> CHR '':'' \<notin> set (gs_goalId g) \<Longrightarrow>
   partly m (AList.update k g m') (ks @ [k])"
  unfolding partly_def by (auto intro!: keys_ok_update simp: agree_def key_form_def)

lemma partly_same_ids:
  assumes "partly m m' ks" and "map_of m' k = Some g" and "gs_goalId g' = gs_goalId g" "gs_gateId g' = gs_gateId g"
  shows "partly m (AList.update k g' m') (ks @ [k])"
proof -
  from assms(1,2) have "k = compositeKey (gs_goalId g) (gs_gateId g)" "CHR '':'' \<notin> set (gs_goalId g)"
    unfolding partly_def by (blast dest: keys_okD)+
  with assms show ?thesis by (intro partly_update) simp_all
qed

lemma partly_delete: "partly m m' ks \<Longrightarrow> key_form k \<Longrightarrow> partly m (AList.delete k m') (ks @ [k])"
  unfolding partly_def by (auto intro!: keys_ok_delete simp: agree_def)

lemma nextStatusCommit_ids:
  "gs_goalId (fst (nextStatusCommit g st now)) = gs_goalId g" "gs_gateId (fst (nextStatusCommit g st now)) = gs_gateId g"
  by (simp_all add: nextStatusCommit_def Let_def)

lemma pending_gate_ids [simp]: "gs_goalId (pending_gate now goal i) = goal" "gs_gateId (pending_gate now goal i) = i"
  by (simp_all add: pending_gate_def)

lemma init_gate_partly:
  "CHR '':'' \<notin> set goal \<Longrightarrow> partly m (fst acc) (snd acc) \<Longrightarrow>
   partly m (fst (init_gate now goal acc i)) (snd (init_gate now goal acc i))"
  by (cases acc) (auto simp: init_gate_def Let_def intro!: partly_update)

lemma run_init_partly:
  assumes "keys_ok m" and "CHR '':'' \<notin> set goal" and "foldl (init_gate now goal) (m, []) ids = (m', d')"
  shows "partly m m' d'"
  using foldl_invariant [of "\<lambda>acc. partly m (fst acc) (snd acc)" "init_gate now goal" "(m, [])" ids]
    init_gate_partly assms partly_start by auto

lemma reconcile_gate_partly:
  assumes "partly m (rc_gates r) (rc_dirty r)" and "fst e = compositeKey (gs_goalId (snd e)) (gs_gateId (snd e))"
    and "CHR '':'' \<notin> set (gs_goalId (snd e))"
  shows "partly m (rc_gates (reconcile_gate now goal modified r e)) (rc_dirty (reconcile_gate now goal modified r e))"
proof (cases e)
  case (Pair k g)
  obtain g1 c where c: "nextStatusCommit g Pending now = (g1, c)" by fastforce
  with nextStatusCommit_ids [of g Pending now] have "gs_goalId g1 = gs_goalId g" "gs_gateId g1 = gs_gateId g" by simp_all
  moreover have "key_form k" using assms(2,3) Pair unfolding key_form_def by auto
  ultimately show ?thesis
    using assms Pair by (auto simp: reconcile_gate_def Let_def c intro!: partly_update partly_delete)
qed

lemma run_reconcile_partly:
  assumes "keys_ok m" and "partly m (rc_gates r) (rc_dirty r)" and "set es \<subseteq> set m"
  shows "partly m (rc_gates (foldl (reconcile_gate now goal modified) r es)) (rc_dirty (foldl (reconcile_gate now goal modified) r es))"
  using assms(2,3)
proof (induction es arbitrary: r)
  case (Cons e es)
  have e: "fst e = compositeKey (gs_goalId (snd e)) (gs_gateId (snd e)) \<and> CHR '':'' \<notin> set (gs_goalId (snd e))"
    using assms(1) Cons.prems(2) by (cases e) (auto simp: keys_ok_def)
  from reconcile_gate_partly [OF Cons.prems(1)] e Cons show ?case by simp
qed simp

lemma run_missing_partly:
  assumes "CHR '':'' \<notin> set goal" and "partly m (rc_gates r) (rc_dirty r)"
  shows "partly m (rc_gates (foldl (add_missing_gate now goal) r ids)) (rc_dirty (foldl (add_missing_gate now goal) r ids))"
  by (rule foldl_invariant [where P = "\<lambda>r. partly m (rc_gates r) (rc_dirty r)"])
    (use assms in \<open>auto simp: add_missing_gate_def Let_def intro!: partly_update\<close>)

lemma reset_gate_partly:
  assumes "partly m (rt_gates r) (rt_keys r)"
  shows "partly m (rt_gates (reset_gate now goal r i)) (rt_keys (reset_gate now goal r i))"
proof (cases "map_of (rt_gates r) (compositeKey goal i)")
  case (Some g)
  let ?g1 = "g\<lparr>gs_cacheInvalidatedAt := Some now, gs_updatedAt := max now (gs_updatedAt g)\<rparr>"
  obtain g2 c where c: "nextStatusCommit ?g1 Pending now = (g2, c)" by fastforce
  with nextStatusCommit_ids [of ?g1 Pending now] have "gs_goalId g2 = gs_goalId g" "gs_gateId g2 = gs_gateId g" by simp_all
  with Some assms show ?thesis
    by (auto simp: reset_gate_def Let_def c intro!: partly_same_ids split: option.splits)
qed (simp add: reset_gate_def Let_def assms)

lemma run_reset_partly:
  "keys_ok m \<Longrightarrow> partly m (rt_gates (run_reset now goal ids m)) (rt_keys (run_reset now goal ids m))"
  unfolding run_reset_def
  by (rule foldl_invariant [where P = "\<lambda>r. partly m (rt_gates r) (rt_keys r)"], rule reset_gate_partly)
    (simp_all add: partly_start)

lemma cascade_gate_partly:
  assumes "partly m (cs_gates r) (cs_dirty r)"
  shows "partly m (cs_gates (cascade_gate now goal r i)) (cs_dirty (cascade_gate now goal r i))"
proof (cases "map_of (cs_gates r) (compositeKey goal i)")
  case (Some g)
  obtain g2 c where c: "nextStatusCommit g Pending now = (g2, c)" by fastforce
  with nextStatusCommit_ids [of g Pending now] have "gs_goalId g2 = gs_goalId g" "gs_gateId g2 = gs_gateId g" by simp_all
  with Some assms show ?thesis
    by (auto simp: cascade_gate_def Let_def c intro!: partly_same_ids split: option.splits)
qed (simp add: cascade_gate_def Let_def assms)

lemma run_cascade_partly:
  "keys_ok m \<Longrightarrow> partly m (cs_gates (run_cascade now goal ids m)) (cs_dirty (run_cascade now goal ids m))"
  unfolding run_cascade_def
  by (rule foldl_invariant [where P = "\<lambda>r. partly m (cs_gates r) (cs_dirty r)"], rule cascade_gate_partly)
    (simp_all add: partly_start)

lemma run_reset_keys: "set (rt_keys (run_reset now goal ids m)) \<subseteq> compositeKey goal ` set ids"
proof -
  have "set (rt_keys (foldl (reset_gate now goal) r ids)) \<subseteq> set (rt_keys r) \<union> compositeKey goal ` set ids" for r
  proof (induction ids arbitrary: r)
    case (Cons i ids)
    have "set (rt_keys (reset_gate now goal r i)) \<subseteq> insert (compositeKey goal i) (set (rt_keys r))"
      by (auto simp: reset_gate_def Let_def split: option.splits prod.splits)
    with Cons [of "reset_gate now goal r i"] show ?case by auto
  qed simp
  from this [of "\<lparr>rt_gates = m, rt_keys = [], rt_snapshots = [], rt_commits = [], rt_changed = [], rt_unchanged = [], rt_previous = []\<rparr>"]
  show ?thesis by (simp add: run_reset_def)
qed

lemma run_reset_snapshots: "fst ` set (rt_snapshots (run_reset now goal ids m)) = set (rt_keys (run_reset now goal ids m))"
proof -
  have "fst ` set (rt_snapshots (foldl (reset_gate now goal) r ids)) = set (rt_keys (foldl (reset_gate now goal) r ids))"
    if "fst ` set (rt_snapshots r) = set (rt_keys r)" for r
    by (rule foldl_invariant [where P = "\<lambda>r. fst ` set (rt_snapshots r) = set (rt_keys r)"])
      (use that in \<open>auto simp: reset_gate_def Let_def dom_map_of_conv_image_fst [symmetric] split: option.splits prod.splits\<close>)
  then show ?thesis by (simp add: run_reset_def)
qed

section \<open>Every call is a move\<close>

definition only_gates :: "gate_store \<Rightarrow> gate_store \<Rightarrow> bool" where
  "only_gates s s1 \<longleftrightarrow> gst_detached s1 = gst_detached s \<and> gst_persist s1 = gst_persist s \<and> gst_flush s1 = gst_flush s \<and>
     gst_resets s1 = gst_resets s"

lemma only_gates_simps [simp]:
  "only_gates s s" "only_gates s (s\<lparr>gst_gates := m\<rparr>)" "only_gates s (set_gate k g s1) = only_gates s s1"
  "only_gates s (add_events es s1) = only_gates s s1"
  "only_gates s (s\<lparr>gst_gates := m, gst_pending := q\<rparr>)"
  by (simp_all add: only_gates_def)

lemma moves_events [simp]: "moves V s (add_events es s') = moves V s s'"
  by (simp add: moves_def)

lemma moves_pending [simp]: "moves V s (clear_pending ks s') = moves V s s'"
  by (simp add: moves_def)

lemma moves_same:
  "only_gates s s' \<Longrightarrow> agree V (gst_gates s) (gst_gates s') \<Longrightarrow> keys_ok (gst_gates s') \<Longrightarrow> moves V s s'"
  unfolding moves_def only_gates_def by (intro conjI exI [of _ "{}"]) (auto simp: grows_refl)

lemma gate_save_Inr:
  "gate_save ks s = Inr s' \<longleftrightarrow> assertOpen (gst_persist s) \<and> s' = s\<lparr>gst_persist := schedule_keys ks (gst_persist s)\<rparr>"
  by (auto simp: gate_save_def schedule_def)

lemma save_moves:
  assumes "only_gates s s1" and "partly (gst_gates s) (gst_gates s1) ks" and "gate_save ks s1 = Inr s2"
  shows "moves {} s s2"
proof -
  from assms(3) have s2: "s2 = s1\<lparr>gst_persist := schedule_keys ks (gst_persist s1)\<rparr>" by (simp add: gate_save_Inr)
  show ?thesis
    unfolding moves_def s2
    by (intro conjI exI [of _ "set ks"])
      (use assms(1,2) in \<open>auto simp: only_gates_def partly_def list_all_iff schedule_keys_marks grows_schedule\<close>)
qed

lemma detached_moves:
  assumes "only_gates s s1" and "partly (gst_gates s) (gst_gates s1) ks"
    and "publishStatusCommitsDetached ks cs s1 = Inr s2"
  shows "moves {} s s2"
proof (cases "\<not> gst_observed s1 \<or> cs = []")
  case True
  with assms(3) have "gate_save ks s1 = Inr s2" by (auto simp: publishStatusCommitsDetached_def)
  with assms(1,2) show ?thesis by (rule save_moves)
next
  case False
  then have s2: "gst_gates s2 = gst_gates s1" "gst_persist s2 = gst_persist s1" "gst_flush s2 = gst_flush s1"
    "gst_resets s2 = gst_resets s1" "set (gst_detached s2) = set (gst_detached s1) \<union> set ks"
    using assms(3) by (auto simp: publishStatusCommitsDetached_def Let_def split: if_splits)
  show ?thesis
    unfolding moves_def s2
    by (intro conjI exI [of _ "set ks"])
      (use assms(1,2) in \<open>auto simp: only_gates_def partly_def list_all_iff grows_refl\<close>)
qed

text \<open>A change of one known gate that keeps its ids.\<close>

lemma one_gate_partly:
  "keys_ok (gst_gates s) \<Longrightarrow> map_of (gst_gates s) k = Some g \<Longrightarrow> gs_goalId g' = gs_goalId g \<Longrightarrow> gs_gateId g' = gs_gateId g \<Longrightarrow>
   partly (gst_gates s) (gst_gates (set_gate k g' s)) [k]"
  using partly_same_ids [OF partly_start] by (simp add: set_gate_def)

lemma save_one:
  "gate_save [k] (set_gate k g' s) = Inr s2 \<Longrightarrow> keys_ok (gst_gates s) \<Longrightarrow> map_of (gst_gates s) k = Some g \<Longrightarrow>
   gs_goalId g' = gs_goalId g \<Longrightarrow> gs_gateId g' = gs_gateId g \<Longrightarrow> moves {} s s2"
  by (rule save_moves [OF _ one_gate_partly]) simp_all

lemma detached_one:
  "publishStatusCommitsDetached [k] cs (set_gate k g' s) = Inr s2 \<Longrightarrow> keys_ok (gst_gates s) \<Longrightarrow>
   map_of (gst_gates s) k = Some g \<Longrightarrow> gs_goalId g' = gs_goalId g \<Longrightarrow> gs_gateId g' = gs_gateId g \<Longrightarrow> moves {} s s2"
  by (rule detached_moves [OF _ one_gate_partly]) simp_all

lemma init_moves:
  assumes "keys_ok (gst_gates s)" and "CHR '':'' \<notin> set goal" and "initGatesForGoal now goal ids s = Inr s'"
  shows "moves {} s s'"
proof -
  obtain m d where md: "foldl (init_gate now goal) (gst_gates s, []) ids = (m, d)" by fastforce
  with assms have p: "partly (gst_gates s) m d" using run_init_partly by blast
  have "(if d \<noteq> [] then gate_save d (s\<lparr>gst_gates := m\<rparr>) else Inr (s\<lparr>gst_gates := m\<rparr>)) = Inr s'"
    using assms(3) md by (simp add: initGatesForGoal_def accepting_Inr Let_def split: if_splits)
  then consider "gate_save d (s\<lparr>gst_gates := m\<rparr>) = Inr s'" | "d = []" "s' = s\<lparr>gst_gates := m\<rparr>"
    by (metis Inr_inject)
  then show ?thesis
  proof cases
    case 1
    show ?thesis by (rule save_moves [OF _ _ 1]) (use p in simp_all)
  qed (use p in \<open>auto intro!: moves_same simp: partly_def\<close>)
qed

lemma reconcile_moves:
  assumes ok: "keys_ok (gst_gates s)" and goal: "CHR '':'' \<notin> set goal"
    and "reconcileGatesForGoal now goal ids modified s = Inr s'"
  shows "moves {} s s'"
proof -
  define r0 where "r0 = \<lparr>rc_gates = gst_gates s, rc_remaining = js_uniq ids, rc_dirty = [], rc_commits = []\<rparr>"
  define r1 where "r1 = foldl (reconcile_gate now goal modified) r0 (gst_gates s)"
  define r2 where "r2 = foldl (add_missing_gate now goal) r1 (rc_remaining r1)"
  let ?s1 = "s\<lparr>gst_gates := rc_gates r2\<rparr>"
  have "partly (gst_gates s) (rc_gates r0) (rc_dirty r0)" using ok by (simp add: r0_def partly_start)
  then have "partly (gst_gates s) (rc_gates r1) (rc_dirty r1)" unfolding r1_def by (rule run_reconcile_partly [OF ok]) simp
  then have p: "partly (gst_gates s) (rc_gates r2) (rc_dirty r2)" unfolding r2_def by (rule run_missing_partly [OF goal])
  from assms(3) have "gst_accepting s \<and> bind_res
        (if rc_dirty r2 = [] then Inr ?s1
         else if rc_commits r2 \<noteq> [] then publishStatusCommitsDetached (rc_dirty r2) (rc_commits r2) ?s1
         else gate_save (rc_dirty r2) ?s1)
        (\<lambda>s2. Inr (add_events (status_events (rc_commits r2)) s2)) = Inr s'"
    unfolding reconcileGatesForGoal_def accepting_Inr Let_def r0_def [symmetric] r1_def [symmetric] r2_def [symmetric] .
  then obtain s2 where s2: "(if rc_dirty r2 = [] then Inr ?s1
         else if rc_commits r2 \<noteq> [] then publishStatusCommitsDetached (rc_dirty r2) (rc_commits r2) ?s1
         else gate_save (rc_dirty r2) ?s1) = Inr s2" and s': "s' = add_events (status_events (rc_commits r2)) s2"
    by (auto simp: bind_res_Inr)
  have "moves {} s s2"
    using s2 p by (auto intro: save_moves [of s ?s1] detached_moves [of s ?s1] moves_same simp: partly_def split: if_splits)
  with s' show ?thesis by simp
qed

lemma record_moves:
  "keys_ok (gst_gates s) \<Longrightarrow> recordSignal now sig s = Inr s' \<Longrightarrow> moves {} s s'"
  by (auto simp: recordSignal_def accepting_Inr Let_def bind_res_Inr intro: moves_same dest!: save_one split: option.splits)

lemma bypass_moves:
  assumes ok: "keys_ok (gst_gates s)" and "bypassGate now uuid goal i why who s = Inr s'"
  shows "moves {} s s'"
proof -
  let ?k = "compositeKey goal i"
  from assms(2) obtain g where g: "map_of (gst_gates s) ?k = Some g"
    by (auto simp: bypassGate_def accepting_Inr Let_def split: option.splits)
  let ?g0 = "g\<lparr>gs_signals := gs_signals g @ [bypass_signal now uuid goal i why who]\<rparr>"
  obtain g1 c where c: "nextStatusCommit ?g0 Bypassed (of_nat now) = (g1, c)" by fastforce
  with nextStatusCommit_ids [of ?g0 Bypassed "of_nat now"] have ids: "gs_goalId g1 = gs_goalId g" "gs_gateId g1 = gs_gateId g"
    by simp_all
  from assms(2) g c obtain s2 where s2: "(case c of Some commit \<Rightarrow> publishStatusCommitsDetached [?k] [commit] (set_gate ?k g1 s)
      | None \<Rightarrow> gate_save [?k] (set_gate ?k (g1\<lparr>gs_updatedAt := max (of_nat now) (gs_updatedAt g1 + 1)\<rparr>) s)) = Inr s2"
    and s': "s' = add_events [Status_changed goal i] s2"
    by (auto simp: bypassGate_def accepting_Inr Let_def bind_res_Inr split: option.splits)
  have "moves {} s s2"
  proof (cases c)
    case None
    with s2 ids show ?thesis by (auto dest!: save_one [OF _ ok g])
  next
    case (Some commit)
    with s2 ids show ?thesis by (auto dest!: detached_one [OF _ ok g])
  qed
  with s' show ?thesis by simp
qed

lemma status_moves:
  assumes ok: "keys_ok (gst_gates s)" and "updateGateStatus now goal i status s = Inr s'"
  shows "moves {} s s'"
proof (cases "map_of (gst_gates s) (compositeKey goal i)")
  case None
  with assms show ?thesis by (auto simp: updateGateStatus_def accepting_Inr Let_def intro: moves_same)
next
  case (Some g)
  obtain g1 c where c: "nextStatusCommit g status now = (g1, c)" by fastforce
  with nextStatusCommit_ids [of g status now] have ids: "gs_goalId g1 = gs_goalId g" "gs_gateId g1 = gs_gateId g" by simp_all
  with assms Some c show ?thesis
    by (auto simp: updateGateStatus_def accepting_Inr Let_def bind_res_Inr split: option.splits
        intro: moves_same dest!: detached_one [OF _ ok Some])
qed

lemma content_moves:
  "keys_ok (gst_gates s) \<Longrightarrow> updateGateContent now goal i content v s = Inr s' \<Longrightarrow> moves {} s s'"
  "keys_ok (gst_gates s) \<Longrightarrow> updateGateMetadata now goal i md s = Inr s' \<Longrightarrow> moves {} s s'"
  by (auto simp: updateGateContent_def updateGateMetadata_def accepting_Inr Let_def bind_res_Inr
      intro: moves_same dest!: save_one split: option.splits)

lemma verification_moves:
  assumes ok: "keys_ok (gst_gates s)" and "updateSignalVerification now i v s = Inr s'"
  shows "moves {} s s'"
proof (cases "find (has_signal i) (gst_gates s)")
  case None
  with assms show ?thesis by (auto simp: updateSignalVerification_def accepting_Inr intro: moves_same)
next
  case (Some kg)
  then have "kg \<in> set (gst_gates s)" by (auto simp: find_Some_iff)
  then obtain k g where kg: "kg = (k, g)" "k = compositeKey (gs_goalId g) (gs_gateId g)" "CHR '':'' \<notin> set (gs_goalId g)"
    using ok by (cases kg) (auto simp: keys_ok_def)
  have one: "moves {} s s2" if "gate_save [k] (set_gate k (g\<lparr>gs_signals := x, gs_updatedAt := now\<rparr>) s) = Inr s2" for s2 x
  proof (rule save_moves [OF _ _ that])
    have "partly (gst_gates s) (AList.update k (g\<lparr>gs_signals := x, gs_updatedAt := now\<rparr>) (gst_gates s)) ([] @ [k])"
      by (rule partly_update [OF partly_start [OF ok]]) (use kg in simp_all)
    then show "partly (gst_gates s) (gst_gates (set_gate k (g\<lparr>gs_signals := x, gs_updatedAt := now\<rparr>) s)) [k]" by simp
  qed simp
  from assms Some kg(1) show ?thesis
    by (auto simp: updateSignalVerification_def accepting_Inr split: option.splits if_splits intro: moves_same dest!: one)
qed

lemma reset_moves:
  assumes ok: "keys_ok (gst_gates s)" and "resetGateAndDependents now goal i wflow s = Inr s'"
  shows "moves {} s s'"
proof -
  from assms(2) obtain ids where ids: "getDependentGateIds i wflow True = Inr ids"
    by (auto simp: resetGateAndDependents_def accepting_Inr bind_res_Inr)
  define r where "r = run_reset now goal ids (gst_gates s)"
  let ?s1 = "s\<lparr>gst_gates := rt_gates r\<rparr>"
  let ?cs = "pending_commits (rt_keys r) s @ rt_commits r"
  have p: "partly (gst_gates s) (gst_gates ?s1) (rt_keys r)" using run_reset_partly [OF ok] by (simp add: r_def)
  from assms(2) ids obtain s2 es where s': "s' = add_events es s2" and
    s2: "(if rt_keys r = [] then Inr ?s1
          else if ?cs \<noteq> [] then bind_res (publishStatusCommitsDetached (rt_keys r) ?cs ?s1) (\<lambda>s2. Inr (clear_pending (rt_keys r) s2))
          else bind_res (gate_save (rt_keys r) ?s1) (\<lambda>s2. Inr (clear_pending (rt_keys r) s2))) = Inr s2"
    unfolding r_def by (auto simp: resetGateAndDependents_def accepting_Inr bind_res_Inr Let_def)
  from s2 consider "rt_keys r = []" "s2 = ?s1"
    | s3 where "publishStatusCommitsDetached (rt_keys r) ?cs ?s1 = Inr s3" "s2 = clear_pending (rt_keys r) s3"
    | s3 where "gate_save (rt_keys r) ?s1 = Inr s3" "s2 = clear_pending (rt_keys r) s3"
    by (auto simp: bind_res_Inr split: if_splits)
  then have "moves {} s s2"
  proof cases
    case 1
    with p show ?thesis by (auto intro!: moves_same simp: partly_def)
  next
    case (2 s3)
    with detached_moves [OF _ p] show ?thesis by simp
  next
    case (3 s3)
    with save_moves [OF _ p] show ?thesis by simp
  qed
  with s' show ?thesis by simp
qed

lemma in_memory_moves:
  assumes ok: "keys_ok (gst_gates s)" and "resetGateAndDependentsInMemory now goal i wflow s = Inr s'"
  shows "moves (reset_keys goal i wflow) s s'"
proof -
  from assms(2) obtain ids where ids: "getDependentGateIds i wflow True = Inr ids"
    by (auto simp: resetGateAndDependentsInMemory_def accepting_Inr bind_res_Inr)
  define r where "r = run_reset now goal ids (gst_gates s)"
  have p: "partly (gst_gates s) (rt_gates r) (rt_keys r)" using run_reset_partly [OF ok] by (simp add: r_def)
  have "set (rt_keys r) \<subseteq> reset_keys goal i wflow"
    using run_reset_keys [of now goal ids "gst_gates s"] by (simp add: r_def reset_keys_def ids)
  with p have "agree (reset_keys goal i wflow) (gst_gates s) (rt_gates r)" "keys_ok (rt_gates r)"
    by (auto simp: partly_def intro: agree_mono)
  then show ?thesis using assms(2) ids
    by (auto simp: resetGateAndDependentsInMemory_def accepting_Inr Let_def r_def [symmetric] intro: moves_same)
qed

lemma strict_moves:
  assumes ok: "keys_ok (gst_gates s)" and "resetGateAndDependentsStrict now goal i wflow s = Inr s'"
  shows "moves {} s s'"
proof -
  from assms(2) obtain ids where ids: "getDependentGateIds i wflow True = Inr ids"
    by (auto simp: resetGateAndDependentsStrict_def accepting_Inr bind_res_Inr)
  define r where "r = run_reset now goal ids (gst_gates s)"
  have p: "partly (gst_gates s) (rt_gates r) (rt_keys r)" using run_reset_partly [OF ok] by (simp add: r_def)
  have snaps: "fst ` set (rt_snapshots r) = set (rt_keys r)" unfolding r_def by (rule run_reset_snapshots)
  show ?thesis
  proof (cases "rt_keys r = []")
    case True
    with assms(2) ids p show ?thesis
      by (auto simp: resetGateAndDependentsStrict_def accepting_Inr Let_def r_def [symmetric] partly_def intro!: moves_same)
  next
    case False
    define w where "w = \<lparr>sr_goalId = goal, sr_keys = rt_keys r,
      sr_statusKeys = js_uniq (map commit_key (pending_commits (rt_keys r) s @ rt_commits r)),
      sr_snapshots = rt_snapshots r, sr_result = make_result i ids r\<rparr>"
    then have w: "sr_snapshots w = rt_snapshots r" by simp
    from False assms(2) ids obtain t p' where pub: "publishStrict (rt_keys r) (gst_persist s) = Inr (t, p')"
      and s': "s' = s\<lparr>gst_gates := rt_gates r, gst_persist := p', gst_resets := gst_resets s @ [(t, w)]\<rparr>"
      unfolding resetGateAndDependentsStrict_def accepting_Inr
      by (auto simp: bind_res_Inr Let_def r_def [symmetric] w_def)
    note p' = publishStrict_Inr [OF pub]
    show ?thesis
      unfolding moves_def s'
      by (intro conjI exI [of _ "set (rt_keys r)"])
        (use p p' w snaps in \<open>auto simp: partly_def list_all_iff\<close>)
  qed
qed

lemma cascade_moves:
  assumes ok: "keys_ok (gst_gates s)" and "cascadeReset now goal i wflow s = Inr s'"
  shows "moves {} s s'"
proof -
  from assms(2) obtain ids where ids: "getDependentGateIds i wflow False = Inr ids"
    by (auto simp: cascadeReset_def accepting_Inr bind_res_Inr)
  define r where "r = run_cascade now goal ids (gst_gates s)"
  let ?s1 = "s\<lparr>gst_gates := cs_gates r\<rparr>"
  have p: "partly (gst_gates s) (gst_gates ?s1) (cs_dirty r)" using run_cascade_partly [OF ok] by (simp add: r_def)
  from assms(2) ids obtain s2 es where s': "s' = add_events es s2" and
    "(if cs_dirty r \<noteq> [] then publishStatusCommitsDetached (cs_dirty r) (cs_commits r) ?s1 else Inr ?s1) = Inr s2"
    unfolding r_def by (auto simp: cascadeReset_def accepting_Inr bind_res_Inr Let_def)
  then consider "publishStatusCommitsDetached (cs_dirty r) (cs_commits r) ?s1 = Inr s2" | "cs_dirty r = []" "s2 = ?s1"
    by (metis Inr_inject)
  then have "moves {} s s2"
  proof cases
    case 1
    show ?thesis by (rule detached_moves [OF _ p 1]) simp
  next
    case 2
    with p show ?thesis by (auto intro!: moves_same simp: partly_def)
  qed
  with s' show ?thesis by simp
qed

lemma remove_partly:
  assumes "list_all key_form ks" and "partly m m' ks0"
  shows "partly m (remove_keys ks m') (ks0 @ ks)"
  using assms
proof (induction ks arbitrary: m' ks0)
  case (Cons k ks)
  from Cons.prems have "partly m (AList.delete k m') (ks0 @ [k])" by (auto intro: partly_delete)
  with Cons.IH [of "AList.delete k m'" "ks0 @ [k]"] Cons.prems show ?case by (simp add: remove_keys_def)
qed (simp add: remove_keys_def)

lemma remove_moves:
  assumes ok: "keys_ok (gst_gates s)" and "removeGoalGates goal s = Inr s'"
  shows "moves {} s s'"
proof -
  define ks where "ks = map fst (filter (\<lambda>(k, g). gs_goalId g = goal) (gst_gates s))"
  have "list_all key_form ks"
    using ok by (fastforce simp: ks_def list_all_iff keys_ok_def key_form_def)
  from remove_partly [OF this partly_start [OF ok]]
  have p: "partly (gst_gates s) (gst_gates (s\<lparr>gst_gates := remove_keys ks (gst_gates s)\<rparr>)) ks" by simp
  from assms(2) have "(if ks \<noteq> [] then gate_save ks (s\<lparr>gst_gates := remove_keys ks (gst_gates s)\<rparr>)
      else Inr (s\<lparr>gst_gates := remove_keys ks (gst_gates s)\<rparr>)) = Inr s'"
    unfolding removeGoalGates_def accepting_Inr Let_def ks_def by (rule conjunct2)
  then consider "gate_save ks (s\<lparr>gst_gates := remove_keys ks (gst_gates s)\<rparr>) = Inr s'"
    | "ks = []" "s' = s\<lparr>gst_gates := remove_keys ks (gst_gates s)\<rparr>"
    by (metis Inr_inject)
  then show ?thesis
  proof cases
    case 1
    show ?thesis by (rule save_moves [OF _ p 1]) simp
  next
    case 2
    with p show ?thesis by (auto intro!: moves_same simp: partly_def)
  qed
qed

section \<open>Every flush step is a move\<close>

lemma flush_loop_moves:
  assumes "keys_ok (gst_gates s)"
  shows "moves {} s (flush_loop s)"
proof (cases "gst_detached s = []")
  case True
  then show ?thesis unfolding moves_def
    by (intro conjI exI [of _ "{}"]) (auto simp: flush_loop_def assms grows_refl)
next
  case False
  show ?thesis
  proof (cases "publishStrict (gst_detached s) (gst_persist s)")
    case (Inl e)
    with False show ?thesis unfolding moves_def
      by (intro conjI exI [of _ "{}"]) (auto simp: flush_loop_def assms grows_refl)
  next
    case (Inr tp)
    then obtain t p where "publishStrict (gst_detached s) (gst_persist s) = Inr (t, p)" by (cases tp) auto
    with False publishStrict_Inr [OF this] show ?thesis unfolding moves_def
      by (intro conjI exI [of _ "{}"]) (auto simp: flush_loop_def assms)
  qed
qed

lemma moves_report [simp]: "moves V (reportStatusCommits ks pub s) s' = moves V s s'"
  by (simp add: moves_def)

lemma persist_moves:
  assumes "keys_ok (gst_gates s)" and "grows (gst_persist s) p'" and "set (pe_dirty p') = set (pe_dirty (gst_persist s))"
  shows "moves {} s (s\<lparr>gst_persist := p'\<rparr>)"
  unfolding moves_def by (intro conjI exI [of _ "{}"]) (use assms in auto)

lemma flush_now_moves:
  assumes ok: "keys_ok (gst_gates s)" and "gst_flush_now s = Inr s'"
  shows "moves {} s s'"
proof (cases "gst_detached s \<noteq> [] \<or> gst_flush s \<noteq> No_flush")
  case True
  with assms have "s' = flushDetachedStatusCommits s" by (simp add: gst_flush_now_def)
  then show ?thesis
    using flush_loop_moves [OF ok] by (auto simp: flushDetachedStatusCommits_def ok intro: moves_same)
next
  case False
  with assms obtain t p where p: "pe_flush (gst_persist s) = Inr (t, p)" and s': "s' = s\<lparr>gst_persist := p\<rparr>"
    by (auto simp: gst_flush_now_def bind_res_Inr)
  have "grows (gst_persist s) p \<and> set (pe_dirty p) = set (pe_dirty (gst_persist s))"
  proof (cases "hasPendingWork (gst_persist s)")
    case True
    with p obtain u where u: "requestBarrier False (gst_persist s) = Inr (u, p)"
      by (auto simp: pe_flush_def bind_res_Inr)
    from grows_barrier [OF u] requestBarrier_Inr [OF u] show ?thesis by auto
  qed (use p in \<open>simp add: pe_flush_def grows_refl\<close>)
  then show ?thesis unfolding s' using persist_moves [OF ok] by blast
qed

lemma perform_inv_unfenced:
  assumes inv: "gate_inv s U" and "call_ok c" and "perform c s = Inr s'"
  shows "gate_inv s' (U \<union> memory_only c)"
proof -
  have ok: "keys_ok (gst_gates s)" using inv by (simp add: gate_inv_def)
  note lift = moves_inv [OF inv, where V = "{}", unfolded Un_empty_right]
  show ?thesis
  proof (cases c)
    case (Init_gates now goal ids)
    with assms init_moves [OF ok] lift show ?thesis by auto
  next
    case (Reconcile now goal ids modified)
    with assms reconcile_moves [OF ok] lift show ?thesis by auto
  next
    case (Record_signal now sig)
    with assms record_moves [OF ok] lift show ?thesis by auto
  next
    case (Bypass now uuid goal i why who)
    with assms bypass_moves [OF ok] lift show ?thesis by auto
  next
    case (Update_status now goal i st)
    with assms status_moves [OF ok] lift show ?thesis by auto
  next
    case (Update_content now goal i content v)
    with assms content_moves(1) [OF ok] lift show ?thesis by auto
  next
    case (Update_metadata now goal i md)
    with assms content_moves(2) [OF ok] lift show ?thesis by auto
  next
    case (Update_verification now i v)
    with assms verification_moves [OF ok] lift show ?thesis by auto
  next
    case (Reset now goal i wflow)
    with assms reset_moves [OF ok] lift show ?thesis by auto
  next
    case (Reset_strict now goal i wflow)
    with assms strict_moves [OF ok] lift show ?thesis by auto
  next
    case (Reset_in_memory now goal i wflow)
    with assms in_memory_moves [OF ok] moves_inv [OF inv] show ?thesis by auto
  next
    case (Cascade now goal i wflow)
    with assms cascade_moves [OF ok] lift show ?thesis by auto
  next
    case (Remove_goal goal)
    with assms remove_moves [OF ok] lift show ?thesis by auto
  next
    case Flush
    with assms flush_now_moves [OF ok] lift show ?thesis by auto
  qed
qed

section \<open>A drain keeps the invariant\<close>

lemma write_row_form:
  assumes "keys_ok gates" and "key_form k" and "CHR '':'' \<notin> set a"
  shows "map_of (write_row gates rows k) (a, b) =
    (if k = compositeKey a b then map_of gates (compositeKey a b) else map_of rows (a, b))"
proof -
  from assms(2) obtain x y where k: "k = compositeKey x y" "CHR '':'' \<notin> set x" by (auto simp: key_form_def)
  have eq: "k = compositeKey a b \<longleftrightarrow> x = a \<and> y = b" unfolding k(1) by (rule compositeKey_eq [OF k(2) assms(3)])
  show ?thesis
  proof (cases "map_of gates k")
    case None
    have "row_of_key k = (x, y)" using k by (simp add: row_of_key_def split_compositeKey)
    with None eq show ?thesis by (auto simp: write_row_def)
  next
    case (Some g)
    from keys_okD [OF assms(1) Some] k have "gs_goalId g = x" "gs_gateId g = y" using compositeKey_eq by metis+
    with Some eq show ?thesis by (auto simp: write_row_def)
  qed
qed

lemma write_rows_form:
  assumes "keys_ok gates" and "CHR '':'' \<notin> set a"
  shows "list_all key_form ks \<Longrightarrow> map_of (foldl (write_row gates) rows ks) (a, b) =
    (if compositeKey a b \<in> set ks then map_of gates (compositeKey a b) else map_of rows (a, b))"
  by (induction ks arbitrary: rows) (auto simp: write_row_form [OF assms(1) _ assms(2)])

lemma drain_token: "pe_token (drain_round ok gates p) = pe_token p"
  by (simp add: drain_round_def settlePublished_def settleFailed_def Let_def)

lemma drain_closed: "pe_closed (drain_round ok gates p) = pe_closed p"
  by (simp add: drain_round_def settlePublished_def settleFailed_def Let_def)

lemma drain_rows_ok:
  assumes "rows_ok p" and "keys_ok gates" and "\<forall>k\<in>set (pe_dirty p). key_form k"
  shows "rows_ok (drain_round ok gates p)"
proof (cases "ok \<or> pe_dirty p = []")
  case True
  then show ?thesis
    using assms write_rows_form [OF assms(2)]
    by (auto simp: rows_ok_def drain_round_commit list_all_iff)
next
  case False
  then show ?thesis using assms(1) by (simp add: rows_ok_def drain_round_rollback)
qed

lemma drain_inv:
  assumes inv: "gate_inv s U" and en: "tick_enabled (Drain ok) s"
  shows "gate_inv (tick (Drain ok) s) U"
proof (cases "pe_requested (gst_persist s)")
  case False
  then show ?thesis using inv by (simp add: drain_def)
next
  case True
  let ?p = "gst_persist s"
  let ?p' = "drain_round ok (gst_gates s) ?p"
  have t: "tick (Drain ok) s = s\<lparr>gst_persist := ?p'\<rparr>" using True by (simp add: drain_def)
  have dirty: "set (pe_dirty ?p') \<subseteq> set (pe_dirty ?p)"
    using drain_round_commit(1) drain_round_rollback(1) by (metis (no_types, lifting) empty_iff empty_set order_refl subsetI)
  have step: "in_step (s\<lparr>gst_persist := ?p'\<rparr>) U"
    using inv sqlite.synced_attempt [of "set (gst_detached s) \<union> U" "map_of (gst_gates s)" ?p ok]
    by (simp add: gate_inv_def in_step_def attempt_write_drain)
  have bound: "\<forall>(r, t) \<in> set (pe_barriers ?p). r \<le> pe_revision ?p"
    and tok: "\<forall>t \<in> snd ` set (pe_barriers ?p) \<union> fst ` set (pe_settled ?p). t < pe_token ?p"
    using inv by (auto simp: gate_inv_def barriers_ok_def)
  note settled = drain_round_settles [OF bound, of ok "gst_gates s"]
  have "barriers_ok ?p'"
    using tok unfolding barriers_ok_def settled drain_token by (force split: prod.splits)
  moreover have "working ?p'"
    using inv writer_live_drain [of ?p ok "gst_gates s"] True
    by (auto simp: gate_inv_def working_def drain_def drain_closed)
  moreover have "reset_waits ?p' w" if w: "w \<in> set (gst_resets s)" for w
  proof -
    from inv w have old: "reset_waits ?p w" by (simp add: gate_inv_def)
    have none: "map_of (pe_settled ?p) (fst w) = None"
      using en w by (auto simp: continuations_done_def list_all_iff)
    then have "fst w \<in> snd ` set (pe_barriers ?p)"
      using old by (auto simp: reset_waits_def map_of_eq_None_iff)
    then obtain r where r: "(r, fst w) \<in> set (pe_barriers ?p)" by auto
    let ?x = "if ok \<or> pe_dirty ?p = [] then Resolved (pe_publication ?p') else Rejected"
    have "map_of (map (\<lambda>(r, t). (t, ?x)) bs) (fst w) = Some ?x" if "(r, fst w) \<in> set bs" for bs
      using that by (induction bs) auto
    from this [OF r] have found: "map_of (pe_settled ?p') (fst w) = Some ?x"
      unfolding settled map_add_Some_iff map_of_append using none by (auto simp: map_add_def)
    then have "fst w \<in> fst ` set (pe_settled ?p')" by (metis map_of_eq_None_iff option.distinct(1))
    moreover have "fst ` set (sr_snapshots (snd w)) \<subseteq> set (pe_dirty ?p')" if "\<not> (ok \<or> pe_dirty ?p = [])"
      using old none drain_round_rollback(1) [OF that] by (auto simp: reset_waits_def)
    ultimately show ?thesis using found by (auto simp: reset_waits_def)
  qed
  ultimately show ?thesis
    unfolding t using inv step dirty drain_rows_ok [of ?p "gst_gates s" ok]
    by (auto simp: gate_inv_def)
qed

section \<open>The other ticks, and runs\<close>

lemma restore_partly:
  "partly m m' ks \<Longrightarrow> \<exists>ks'. set ks' \<subseteq> set ks \<union> fst ` set snaps \<and> partly m (foldl restore_gate m' snaps) ks'"
proof (induction snaps arbitrary: m' ks)
  case (Cons e snaps)
  obtain k sn where e: "e = (k, sn)" by (cases e)
  show ?case
  proof (cases "map_of m' k")
    case None
    then have eq: "foldl restore_gate m' (e # snaps) = foldl restore_gate m' snaps" by (simp add: e restore_gate_def)
    from Cons.IH [OF Cons.prems] obtain ks' where
      "set ks' \<subseteq> set ks \<union> fst ` set snaps" "partly m (foldl restore_gate m' snaps) ks'" by blast
    then show ?thesis unfolding eq by auto
  next
    case (Some g)
    let ?g = "g\<lparr>gs_status := gs_status sn, gs_updatedAt := gs_updatedAt sn,
      gs_statusRevision := gs_statusRevision sn, gs_cacheInvalidatedAt := gs_cacheInvalidatedAt sn\<rparr>"
    have "partly m (AList.update k ?g m') (ks @ [k])" by (rule partly_same_ids [OF Cons.prems Some]) simp_all
    from Cons.IH [OF this] obtain ks' where
      "set ks' \<subseteq> set (ks @ [k]) \<union> fst ` set snaps" "partly m (foldl restore_gate (AList.update k ?g m') snaps) ks'" by blast
    moreover have "restore_gate m' (k, sn) = AList.update k ?g m'" using Some by (simp add: restore_gate_def)
    ultimately show ?thesis by (intro exI [of _ ks']) (auto simp: e)
  qed
qed auto

lemma reset_settled_inv:
  assumes inv: "gate_inv s U"
  shows "gate_inv (reset_settled t s) U"
proof -
  have ok: "keys_ok (gst_gates s)" using inv by (simp add: gate_inv_def)
  note lift = moves_inv [OF inv, where V = "{}", unfolded Un_empty_right]
  show ?thesis
  proof (cases "map_of (gst_resets s) t")
    case None
    then show ?thesis using inv by (simp add: reset_settled_def)
  next
    case (Some sr)
    let ?s1 = "s\<lparr>gst_resets := AList.delete t (gst_resets s)\<rparr>"
    have sub: "set (AList.delete t (gst_resets s)) \<subseteq> set (gst_resets s)" by (auto simp: AList.delete_eq)
    consider "map_of (pe_settled (gst_persist s)) t = None"
      | pub where "map_of (pe_settled (gst_persist s)) t = Some (Resolved pub)"
      | "map_of (pe_settled (gst_persist s)) t = Some Rejected"
      by (metis option.exhaust settlement.exhaust)
    then show ?thesis
    proof cases
      case 1
      then show ?thesis using inv Some by (simp add: reset_settled_def)
    next
      case (2 pub)
      have "moves {} s ?s1"
        unfolding moves_def by (intro conjI exI [of _ "{}"]) (use ok sub in \<open>auto simp: grows_refl\<close>)
      then have "moves {} s (reset_settled t s)" using Some 2 by (simp add: reset_settled_def moves_def)
      then show ?thesis by (rule lift)
    next
      case 3
      have "(t, sr) \<in> set (gst_resets s)" using Some by (rule map_of_SomeD)
      with inv have "reset_waits (gst_persist s) (t, sr)" by (simp add: gate_inv_def)
      with 3 have dirty: "fst ` set (sr_snapshots sr) \<subseteq> set (pe_dirty (gst_persist s))" by (auto simp: reset_waits_def)
      from restore_partly [OF partly_start [OF ok], of "sr_snapshots sr"] obtain ks where
        ks: "set ks \<subseteq> fst ` set (sr_snapshots sr)" "partly (gst_gates s) (foldl restore_gate (gst_gates s) (sr_snapshots sr)) ks"
        by auto
      have "moves {} s (reset_settled t s)"
        unfolding moves_def
        by (intro conjI exI [of _ "set ks"])
          (use Some 3 ok sub ks dirty in \<open>auto simp: reset_settled_def grows_refl partly_def list_all_iff\<close>)
      then show ?thesis by (rule lift)
    qed
  qed
qed

lemma flush_settled_inv:
  assumes inv: "gate_inv s U"
  shows "gate_inv (flush_settled s) U"
proof -
  have ok: "keys_ok (gst_gates s)" using inv by (simp add: gate_inv_def)
  note lift = moves_inv [OF inv, where V = "{}", unfolded Un_empty_right]
  show ?thesis
  proof (cases "gst_flush s")
    case (Flushing keys t)
    consider "map_of (pe_settled (gst_persist s)) t = None"
      | pub where "map_of (pe_settled (gst_persist s)) t = Some (Resolved pub)"
      | "map_of (pe_settled (gst_persist s)) t = Some Rejected"
      by (metis option.exhaust settlement.exhaust)
    then show ?thesis
    proof cases
      case 1
      then show ?thesis using inv Flushing by (simp add: flush_settled_def)
    next
      case (2 pub)
      have "moves {} s (flush_loop (reportStatusCommits keys pub s))"
        using flush_loop_moves [of "reportStatusCommits keys pub s"] ok by simp
      with 2 Flushing show ?thesis by (simp add: flush_settled_def lift)
    next
      case 3
      have form: "\<forall>k\<in>set keys. key_form k" using inv Flushing by (simp add: gate_inv_def)
      have "moves {} s (flush_settled s)"
        unfolding moves_def
        by (intro conjI exI [of _ "set keys"]) (use 3 Flushing ok form in \<open>auto simp: flush_settled_def grows_refl\<close>)
      then show ?thesis by (rule lift)
    qed
  qed (use inv in \<open>simp_all add: flush_settled_def\<close>)
qed

lemma tick_inv:
  assumes inv: "gate_inv s U" and en: "tick_enabled t s"
  shows "gate_inv (tick t s) U"
proof -
  have ok: "keys_ok (gst_gates s)" using inv by (simp add: gate_inv_def)
  note lift = moves_inv [OF inv, where V = "{}", unfolded Un_empty_right]
  show ?thesis
  proof (cases t)
    case Timer
    with persist_moves [OF ok grows_ticks(3)] show ?thesis by (auto intro!: lift simp: timer_fires_def startDrain_def)
  next
    case (Drain d)
    with inv en drain_inv show ?thesis by blast
  next
    case Drain_done
    with persist_moves [OF ok grows_ticks(1)] show ?thesis by (auto intro!: lift simp: drain_done_def)
  next
    case Restart
    with persist_moves [OF ok grows_ticks(2)] show ?thesis by (auto intro!: lift simp: restart_drain_def startDrain_def)
  next
    case Detached_microtask
    have "moves {} s (detached_microtask s)"
    proof (cases "gst_scheduled s \<and> gst_flush s = No_flush")
      case True
      then have "detached_microtask s = flush_loop (s\<lparr>gst_scheduled := False\<rparr>)"
        by (simp add: detached_microtask_def flushDetachedStatusCommits_def)
      then show ?thesis using flush_loop_moves [of "s\<lparr>gst_scheduled := False\<rparr>"] ok by (simp add: moves_def)
    next
      case False
      then show ?thesis
        by (auto intro!: moves_same simp: detached_microtask_def flushDetachedStatusCommits_def only_gates_def ok)
    qed
    with Detached_microtask show ?thesis by (simp add: lift)
  next
    case Flush_settled
    with flush_settled_inv [OF inv] show ?thesis by simp
  next
    case Flush_finally
    have "moves {} s (flush_finally s)"
      unfolding moves_def by (intro conjI exI [of _ "{}"]) (use ok in \<open>auto simp: flush_finally_def grows_refl\<close>)
    with Flush_finally show ?thesis by (simp add: lift)
  next
    case (Reset_settled k)
    with reset_settled_inv [OF inv] show ?thesis by simp
  qed
qed

text \<open>A key that was handed to the writer need not be exempted otherwise.\<close>

lemma gate_inv_fenced: "gate_inv s U \<Longrightarrow> gate_inv s (U - handed_over s)"
  unfolding gate_inv_def in_step_def sqlite.synced_def handed_over_def by blast

lemma perform_inv:
  "gate_inv s U \<Longrightarrow> call_ok c \<Longrightarrow> perform c s = Inr s' \<Longrightarrow> gate_inv s' (unfenced_after c s' U)"
  unfolding unfenced_after_def by (intro gate_inv_fenced perform_inv_unfenced)

text \<open>
  What the validation of the rows guarantees on load: each row is stored under the ids of its gate, and
  the table has one row per key.
\<close>

definition rows_valid :: "((string \<times> string) \<times> gate_state) list \<Rightarrow> bool" where
  "rows_valid rows \<longleftrightarrow> distinct (map fst rows) \<and>
     (\<forall>((a, b), g) \<in> set rows. gs_goalId g = a \<and> gs_gateId g = b \<and> CHR '':'' \<notin> set a)"

lemma load_rows_spec:
  assumes "rows_valid rows"
  shows "keys_ok (load_rows rows) \<and>
    (\<forall>a b. CHR '':'' \<notin> set a \<longrightarrow> map_of (load_rows rows) (compositeKey a b) = map_of rows (a, b))"
proof -
  let ?f = "\<lambda>m (ids, g). AList.update (compositeKey (gs_goalId g) (gs_gateId g)) g m"
  have "keys_ok m \<Longrightarrow> keys_ok (foldl ?f m rs) \<and>
      (\<forall>a b. CHR '':'' \<notin> set a \<longrightarrow> map_of (foldl ?f m rs) (compositeKey a b) =
        (case map_of rs (a, b) of Some g \<Rightarrow> Some g | None \<Rightarrow> map_of m (compositeKey a b)))"
    if "distinct (map fst rs)" "\<forall>((a, b), g) \<in> set rs. gs_goalId g = a \<and> gs_gateId g = b \<and> CHR '':'' \<notin> set a" for m rs
    using that
  proof (induction rs arbitrary: m)
    case (Cons e rs)
    obtain x y g where e: "e = ((x, y), g)" by (metis prod.exhaust)
    from Cons.prems(3) e have g: "gs_goalId g = x" "gs_gateId g = y" "CHR '':'' \<notin> set x" by auto
    let ?m = "AList.update (compositeKey x y) g m"
    have ok: "keys_ok ?m" using Cons.prems(1) g by (intro keys_ok_update) simp_all
    have "map_of rs (x, y) = None" using Cons.prems(2) e by (force simp: map_of_eq_None_iff)
    moreover have "compositeKey a b = compositeKey x y \<longleftrightarrow> a = x \<and> b = y" if "CHR '':'' \<notin> set a" for a b
      using compositeKey_eq [OF that g(3)] .
    ultimately show ?case
      using Cons.IH [OF ok] Cons.prems e g by (auto split: option.splits)
  qed simp
  from this [of rows "[]"] assms show ?thesis
    by (simp add: rows_valid_def load_rows_def keys_ok_def option.case_eq_if split: option.splits)
qed

lemma open_inv: "rows_valid rows \<Longrightarrow> gate_inv (open_store observed rows) {}"
  using load_rows_spec [of rows]
  by (simp add: gate_inv_def open_store_def opened_def in_step_def sqlite.synced_def durable_gate_def rows_ok_def barriers_ok_def working_def writer_live_def)

lemma run_inv: "gate_run observed rows s U \<Longrightarrow> rows_valid rows \<Longrightarrow> gate_inv s U"
proof (induction rule: gate_run.induct)
  case run_open
  then show ?case by (simp add: open_inv)
next
  case (run_call s U c s')
  then show ?case by (blast intro: perform_inv)
next
  case (run_tick s U t)
  then show ?case by (blast intro: tick_inv)
next
  case (run_dispose s U)
  then have inv: "gate_inv s U" by blast
  then have "moves {} s (gst_dispose s)"
    using grows_ticks(4) unfolding moves_def
    by (intro conjI exI [of _ "{}"]) (auto simp: gst_dispose_def pe_dispose_def gate_inv_def)
  from moves_inv [OF inv this] show ?case by simp
qed

text \<open>
  C3: In every run of the gate store, whatever fails or interleaves, the database row of a gate is the
  gate's state in memory unless its key is still waiting to be written: by the writer, in the batch of
  status commits, or because it was reset in memory only and not yet handed to the writer since by
  the strict reset that follows (or any other write); so once nothing waits, reading the database
  back gives the store.
\<close>

theorem gate_store_durable:
  assumes "rows_valid rows" and "gate_run observed rows s U" and "CHR '':'' \<notin> set goal"
    and "compositeKey goal i \<notin> set (pe_dirty (gst_persist s)) \<union> set (gst_detached s) \<union> U"
  shows "map_of (pe_rows (gst_persist s)) (goal, i) = getGate goal i s"
proof -
  from run_inv [OF assms(2,1)] have inv: "gate_inv s U" .
  then have "map_of (pe_rows (gst_persist s)) (goal, i) = map_of (pe_durable (gst_persist s)) (compositeKey goal i)"
    using assms(3) by (simp add: gate_inv_def rows_ok_def)
  also have "\<dots> = map_of (gst_gates s) (compositeKey goal i)"
    using inv assms(4) by (simp add: gate_inv_def in_step_def sqlite.synced_def durable_gate_def)
  finally show ?thesis by (simp add: getGate_def)
qed

text \<open>
  In every run of a store whose database is open, a requested write has a timer, a drain or a restart
  of the drain under way; a caller that waits for a strict write or a flush has a drain coming at once;
  and the next drain, whether its transaction commits or fails, settles every waiting caller.
\<close>

theorem gate_writer_progress:
  assumes "rows_valid rows" and "gate_run observed rows s U" and "\<not> pe_closed (gst_persist s)"
  shows "(pe_requested (gst_persist s) \<longrightarrow> pe_timer (gst_persist s) \<or> pe_inFlight (gst_persist s) \<or> pe_restart (gst_persist s)) \<and>
    (pe_barriers (gst_persist s) \<noteq> [] \<longrightarrow> pe_inFlight (gst_persist s) \<or> pe_restart (gst_persist s)) \<and>
    pe_barriers (drain ok (gst_gates s) (gst_persist s)) = [] \<and>
    (\<forall>(r, t) \<in> set (pe_barriers (gst_persist s)).
      t \<in> fst ` set (pe_settled (drain ok (gst_gates s) (gst_persist s))))"
proof -
  let ?p = "gst_persist s"
  from run_inv [OF assms(2,1)] assms(3) have live: "writer_live ?p" by (simp add: gate_inv_def working_def)
  then have bound: "\<forall>(r, t) \<in> set (pe_barriers ?p). r \<le> pe_revision ?p" and
    req: "pe_barriers ?p \<noteq> [] \<Longrightarrow> pe_requested ?p" by (simp_all add: writer_live_def)
  note settled = drain_round_settles [OF bound, of ok "gst_gates s"]
  have "pe_barriers (drain ok (gst_gates s) ?p) = []"
    using settled(1) req by (auto simp: drain_def)
  moreover have "\<forall>(r, t) \<in> set (pe_barriers ?p). t \<in> fst ` set (pe_settled (drain ok (gst_gates s) ?p))"
  proof (cases "pe_requested ?p")
    case True
    then have "pe_settled (drain ok (gst_gates s) ?p) = pe_settled ?p @
        map (\<lambda>(r, t). (t, if ok \<or> pe_dirty ?p = [] then Resolved (pe_publication (drain_round ok (gst_gates s) ?p)) else Rejected))
          (pe_barriers ?p)"
      using settled(2) by (simp add: drain_def)
    then show ?thesis by force
  next
    case False
    with req have "pe_barriers ?p = []" by blast
    then show ?thesis by simp
  qed
  ultimately show ?thesis using live by (simp add: writer_live_def)
qed

end
