(* ===== verification/Gate_Resets.thy ===== *)
theory Gate_Resets
  imports Gate_Safety
begin

text \<open>
  Resets of gates: the search for dependents finds exactly the gates that depend on the requested one,
  directly or not, and a reset changes exactly their states. The end of the theory runs the store on
  small examples, among them the one that leaves a status change unwritten.
\<close>

section \<open>The search\<close>

text \<open>\<open>y\<close> depends on \<open>x\<close>.\<close>

definition dep_edges :: "gate list \<Rightarrow> (string \<times> string) set" where
  "dep_edges gates = {(x, y). \<exists>g\<in>set gates. g_id g = y \<and> JStr x \<in> set (g_dependsOn g)}"

lemma adjacent_gate:
  "set (or_empty (map_of (foldl (add_adjacency i) adj ds) k)) =
     set (or_empty (map_of adj k)) \<union> (if k \<in> set ds then {i} else {})"
  by (induction ds arbitrary: adj) (auto simp: add_adjacency_def)

lemma adjacent_gates:
  "set (or_empty (map_of (foldl (\<lambda>adj g. foldl (add_adjacency (g_id g)) adj (g_dependsOn g)) adj gates) k)) =
     set (or_empty (map_of adj k)) \<union> {y. \<exists>g\<in>set gates. g_id g = y \<and> k \<in> set (g_dependsOn g)}"
proof (induction gates arbitrary: adj)
  case (Cons g gs)
  show ?case unfolding foldl.simps Cons.IH adjacent_gate by auto
qed simp

lemma adjacency_edges: "set (or_empty (map_of (adjacency gates) (JStr x))) = {y. (x, y) \<in> dep_edges gates}"
  unfolding adjacency_def adjacent_gates by (simp add: dep_edges_def)

declare bfs.simps [simp del]

lemma bfs_spec:
  assumes "set queue \<subseteq> set visited" and "distinct queue"
  shows "set queue \<subseteq> set (bfs adj visited queue) \<and> distinct (bfs adj visited queue) \<and>
    set (bfs adj visited queue) \<inter> (set visited - set queue) = {} \<and>
    (\<forall>x \<in> set (bfs adj visited queue). set (or_empty (map_of adj (JStr x))) \<subseteq> set (bfs adj visited queue) \<union> set visited) \<and>
    (\<forall>S. set queue \<subseteq> S \<longrightarrow> (\<forall>x \<in> S. set (or_empty (map_of adj (JStr x))) \<subseteq> S) \<longrightarrow> set (bfs adj visited queue) \<subseteq> S)"
  using assms
proof (induction adj visited queue rule: bfs.induct)
  case (2 adj visited c queue)
  obtain v q where vq: "visit_new (or_empty (map_of adj (JStr c))) visited queue = (v, q)" by fastforce
  from visit_new_spec [OF this] obtain new where new: "v = visited @ new" "q = queue @ new"
    "set new = set (or_empty (map_of adj (JStr c))) - set visited" "distinct new" by blast
  have "set q \<subseteq> set v" "distinct q" using new 2(2,3) by auto
  note IH = "2.IH" [OF vq [symmetric] this]
  have b: "bfs adj visited (c # queue) = c # bfs adj v q" by (simp add: bfs.simps vq)
  have c: "c \<in> set v" "c \<notin> set q" using new 2(2,3) by auto
  show ?case unfolding b
  proof (intro conjI ballI allI impI)
    show "set (c # queue) \<subseteq> set (c # bfs adj v q)" using IH new by auto
    show "distinct (c # bfs adj v q)" using IH c by auto
    show "set (c # bfs adj v q) \<inter> (set visited - set (c # queue)) = {}" using IH new by auto
  next
    fix x assume x: "x \<in> set (c # bfs adj v q)"
    show "set (or_empty (map_of adj (JStr x))) \<subseteq> set (c # bfs adj v q) \<union> set visited"
    proof (cases "x = c")
      case True
      then show ?thesis using IH new by auto
    next
      case False
      with x IH have "set (or_empty (map_of adj (JStr x))) \<subseteq> set (bfs adj v q) \<union> set v" by auto
      then show ?thesis using IH new by auto
    qed
  next
    fix S assume S: "set (c # queue) \<subseteq> S" "\<forall>x \<in> S. set (or_empty (map_of adj (JStr x))) \<subseteq> S"
    then have "set q \<subseteq> S" using new by auto
    with IH S show "set (c # bfs adj v q) \<subseteq> S" by auto
  qed
qed (simp add: bfs.simps)

lemma bfs_reachable:
  "set (bfs (adjacency gates) [i] [i]) = {x. (i, x) \<in> (dep_edges gates)\<^sup>*}"
  "distinct (bfs (adjacency gates) [i] [i])"
proof -
  let ?R = "bfs (adjacency gates) [i] [i]"
  have "set [i] \<subseteq> set [i]" "distinct [i]" by simp_all
  note spec = bfs_spec [OF this, of "adjacency gates", unfolded adjacency_edges]
  show "distinct ?R" using spec by (elim conjE)
  from spec have i: "i \<in> set ?R" by simp
  from spec have "\<forall>x \<in> set ?R. {y. (x, y) \<in> dep_edges gates} \<subseteq> set ?R \<union> set [i]" by (elim conjE)
  with i have closed: "y \<in> set ?R" if "x \<in> set ?R" "(x, y) \<in> dep_edges gates" for x y
    using that by fastforce
  have "x \<in> set ?R" if "(i, x) \<in> (dep_edges gates)\<^sup>*" for x
    using that by (induction rule: rtrancl_induct) (auto intro: i closed)
  moreover from spec have least: "\<forall>S. set [i] \<subseteq> S \<longrightarrow> (\<forall>x\<in>S. {y. (x, y) \<in> dep_edges gates} \<subseteq> S) \<longrightarrow> set ?R \<subseteq> S"
    by (elim conjE)
  have "set ?R \<subseteq> {x. (i, x) \<in> (dep_edges gates)\<^sup>*}"
  proof (rule least [rule_format])
    show "set [i] \<subseteq> {x. (i, x) \<in> (dep_edges gates)\<^sup>*}" by simp
  next
    fix x assume "x \<in> {x. (i, x) \<in> (dep_edges gates)\<^sup>*}"
    then show "{y. (x, y) \<in> dep_edges gates} \<subseteq> {x. (i, x) \<in> (dep_edges gates)\<^sup>*}"
      by (auto intro: rtrancl_into_rtrancl)
  qed
  ultimately show "set ?R = {x. (i, x) \<in> (dep_edges gates)\<^sup>*}" by blast
qed

section \<open>What a reset does\<close>

definition reset_effect :: "rat \<Rightarrow> gate_state \<Rightarrow> gate_state" where
  "reset_effect now g =
     fst (nextStatusCommit (g\<lparr>gs_cacheInvalidatedAt := Some now, gs_updatedAt := max now (gs_updatedAt g)\<rparr>) Pending now)"

lemma reset_effect_fields:
  "gs_status (reset_effect now g) = Pending" "gs_cacheInvalidatedAt (reset_effect now g) = Some now"
  "gs_signals (reset_effect now g) = gs_signals g" "gs_currentContent (reset_effect now g) = gs_currentContent g"
  "gs_currentMetadata (reset_effect now g) = gs_currentMetadata g"
  "gs_statusRevision (reset_effect now g) = (if gs_status g = Pending then gs_statusRevision g
     else Some (Suc (case gs_statusRevision g of None \<Rightarrow> 0 | Some n \<Rightarrow> n)))"
  by (simp_all add: reset_effect_def nextStatusCommit_def Let_def)

lemma compositeKey_same [simp]: "compositeKey goal i = compositeKey goal j \<longleftrightarrow> i = j"
  by (simp add: compositeKey_def)

lemma reset_gate_gates:
  "map_of (rt_gates (reset_gate now goal r i)) k =
     (if k = compositeKey goal i then map_option (reset_effect now) (map_of (rt_gates r) k) else map_of (rt_gates r) k)"
  by (auto simp: reset_gate_def reset_effect_def Let_def split: option.splits prod.splits)

lemma reset_gate_lists:
  "rt_changed (reset_gate now goal r i) = rt_changed r @
     (case map_of (rt_gates r) (compositeKey goal i) of None \<Rightarrow> [] | Some g \<Rightarrow> if gs_status g = Pending then [] else [i])"
  "rt_unchanged (reset_gate now goal r i) = rt_unchanged r @
     (case map_of (rt_gates r) (compositeKey goal i) of None \<Rightarrow> [i] | Some g \<Rightarrow> if gs_status g = Pending then [i] else [])"
  by (auto simp: reset_gate_def nextStatusCommit_def Let_def split: option.splits)

definition is_changed :: "gate_map \<Rightarrow> string \<Rightarrow> string \<Rightarrow> bool" where
  "is_changed m goal i = (case map_of m (compositeKey goal i) of None \<Rightarrow> False | Some g \<Rightarrow> gs_status g \<noteq> Pending)"

lemma run_reset_from:
  "distinct ids \<Longrightarrow> \<forall>i\<in>set ids. map_of (rt_gates r) (compositeKey goal i) = map_of m (compositeKey goal i) \<Longrightarrow>
   map_of (rt_gates (foldl (reset_gate now goal) r ids)) k =
     (if k \<in> compositeKey goal ` set ids then map_option (reset_effect now) (map_of (rt_gates r) k) else map_of (rt_gates r) k) \<and>
   rt_changed (foldl (reset_gate now goal) r ids) = rt_changed r @ filter (is_changed m goal) ids \<and>
   rt_unchanged (foldl (reset_gate now goal) r ids) = rt_unchanged r @ filter (\<lambda>i. \<not> is_changed m goal i) ids"
proof (induction ids arbitrary: r)
  case (Cons i ids)
  let ?r = "reset_gate now goal r i"
  have "\<forall>j\<in>set ids. map_of (rt_gates ?r) (compositeKey goal j) = map_of m (compositeKey goal j)"
    using Cons.prems by (auto simp: reset_gate_gates)
  with Cons have IH: "map_of (rt_gates (foldl (reset_gate now goal) ?r ids)) k =
     (if k \<in> compositeKey goal ` set ids then map_option (reset_effect now) (map_of (rt_gates ?r) k) else map_of (rt_gates ?r) k)"
    "rt_changed (foldl (reset_gate now goal) ?r ids) = rt_changed ?r @ filter (is_changed m goal) ids"
    "rt_unchanged (foldl (reset_gate now goal) ?r ids) = rt_unchanged ?r @ filter (\<lambda>i. \<not> is_changed m goal i) ids"
    by simp_all
  have m: "map_of (rt_gates r) (compositeKey goal i) = map_of m (compositeKey goal i)" using Cons.prems(2) by simp
  show ?case
    unfolding foldl.simps IH reset_gate_gates reset_gate_lists m
    using Cons.prems(1) by (auto simp: is_changed_def [of m goal i] image_iff split: option.splits)
qed simp

lemma run_reset_spec:
  assumes "distinct ids"
  shows "map_of (rt_gates (run_reset now goal ids m)) k =
      (if k \<in> compositeKey goal ` set ids then map_option (reset_effect now) (map_of m k) else map_of m k)"
    and "rt_changed (run_reset now goal ids m) = filter (is_changed m goal) ids"
    and "rt_unchanged (run_reset now goal ids m) = filter (\<lambda>i. \<not> is_changed m goal i) ids"
  using run_reset_from [OF assms, of "\<lparr>rt_gates = m, rt_keys = [], rt_snapshots = [], rt_commits = [], rt_changed = [],
      rt_unchanged = [], rt_previous = []\<rparr>" goal m now k]
  by (simp_all add: run_reset_def)

lemma published_gates:
  "publishStatusCommitsDetached ks cs s = Inr s' \<Longrightarrow> gst_gates s' = gst_gates s"
  "gate_save ks s = Inr s' \<Longrightarrow> gst_gates s' = gst_gates s"
  by (auto simp: publishStatusCommitsDetached_def gate_save_Inr Let_def split: if_splits)

lemma published_events:
  "publishStatusCommitsDetached ks cs s = Inr s' \<Longrightarrow> gst_events s' = gst_events s"
  "gate_save ks s = Inr s' \<Longrightarrow> gst_events s' = gst_events s"
  by (auto simp: publishStatusCommitsDetached_def gate_save_Inr Let_def split: if_splits)

lemma clear_pending_events [simp]: "gst_events (clear_pending ks s) = gst_events s"
  by (simp add: clear_pending_def)

lemma reset_result_state:
  assumes "resetGateAndDependents now goal i wflow s = Inr s'"
  obtains ids where "getDependentGateIds i wflow True = Inr ids"
    and "gst_gates s' = rt_gates (run_reset now goal ids (gst_gates s))"
    and "gst_events s' = gst_events s @ changed_events goal (make_result i ids (run_reset now goal ids (gst_gates s))) @
      [Reset_resolved (make_result i ids (run_reset now goal ids (gst_gates s)))]"
proof -
  from assms obtain ids where ids: "getDependentGateIds i wflow True = Inr ids"
    by (auto simp: resetGateAndDependents_def accepting_Inr bind_res_Inr)
  let ?r = "run_reset now goal ids (gst_gates s)"
  let ?s1 = "s\<lparr>gst_gates := rt_gates ?r\<rparr>"
  let ?cs = "pending_commits (rt_keys ?r) s @ rt_commits ?r"
  from assms ids obtain s3 where s': "s' = add_events (changed_events goal (make_result i ids ?r) @ [Reset_resolved (make_result i ids ?r)]) s3"
    and s3: "(if rt_keys ?r = [] then Inr ?s1
          else if ?cs \<noteq> [] then bind_res (publishStatusCommitsDetached (rt_keys ?r) ?cs ?s1) (\<lambda>s2. Inr (clear_pending (rt_keys ?r) s2))
          else bind_res (gate_save (rt_keys ?r) ?s1) (\<lambda>s2. Inr (clear_pending (rt_keys ?r) s2))) = Inr s3"
    by (auto simp: resetGateAndDependents_def accepting_Inr bind_res_Inr Let_def)
  from s3 consider "s3 = ?s1"
    | s2 where "publishStatusCommitsDetached (rt_keys ?r) ?cs ?s1 = Inr s2" "s3 = clear_pending (rt_keys ?r) s2"
    | s2 where "gate_save (rt_keys ?r) ?s1 = Inr s2" "s3 = clear_pending (rt_keys ?r) s2"
    by (auto simp: bind_res_Inr split: if_splits)
  then have "gst_gates s3 = rt_gates ?r \<and> gst_events s3 = gst_events s"
    by cases (auto dest: published_gates published_events)
  with s' ids that show ?thesis by (simp add: add_events_def)
qed

text \<open>What a reset makes of a gate.\<close>

definition resets_to :: "rat \<Rightarrow> gate_state \<Rightarrow> gate_state \<Rightarrow> bool" where
  "resets_to now g g' \<longleftrightarrow>
     gs_status g' = Pending \<and> gs_cacheInvalidatedAt g' = Some now \<and> gs_signals g' = gs_signals g \<and>
     gs_currentContent g' = gs_currentContent g \<and> gs_currentMetadata g' = gs_currentMetadata g \<and>
     gs_statusRevision g' = (if gs_status g = Pending then gs_statusRevision g
       else Some (Suc (case gs_statusRevision g of None \<Rightarrow> 0 | Some n \<Rightarrow> n)))"

lemma reset_effect_resets: "resets_to now g (reset_effect now g)"
  by (simp add: resets_to_def reset_effect_fields)

text \<open>
  C12: A reset that succeeds sets the requested gate and every gate that depends on it, directly or through
  others, to pending: the status revision grows by one exactly where the status changed, cached step results
  up to now become stale, and signals, content and metadata stay; no other gate of any goal changes; and the
  answer lists exactly these gates, split into those whose status changed and those that were pending or
  have no state.
\<close>

theorem reset_exact:
  assumes "resetGateAndDependents now goal i wflow s = Inr s'"
    and "CHR '':'' \<notin> set goal" and "CHR '':'' \<notin> set goal'"
  shows "(case getGate goal' j s of
       None \<Rightarrow> getGate goal' j s' = None
     | Some g \<Rightarrow> \<exists>g'. getGate goal' j s' = Some g' \<and>
         (if goal' = goal \<and> (i, j) \<in> (dep_edges (w_gates wflow))\<^sup>* then resets_to now g g' else g' = g)) \<and>
    (\<exists>res. last (gst_events s') = Reset_resolved res \<and> rr_requestedGateId res = i \<and>
      set (rr_affectedGateIds res) = {x. (i, x) \<in> (dep_edges (w_gates wflow))\<^sup>*} \<and>
      set (rr_changedGateIds res) = {x. (i, x) \<in> (dep_edges (w_gates wflow))\<^sup>* \<and>
        (\<exists>g. getGate goal x s = Some g \<and> gs_status g \<noteq> Pending)} \<and>
      set (rr_unchangedGateIds res) = set (rr_affectedGateIds res) - set (rr_changedGateIds res))"
proof -
  from reset_result_state [OF assms(1)] obtain ids where ids: "getDependentGateIds i wflow True = Inr ids"
    and gates: "gst_gates s' = rt_gates (run_reset now goal ids (gst_gates s))"
    and events: "gst_events s' = gst_events s @ changed_events goal (make_result i ids (run_reset now goal ids (gst_gates s))) @
      [Reset_resolved (make_result i ids (run_reset now goal ids (gst_gates s)))]" .
  let ?res = "make_result i ids (run_reset now goal ids (gst_gates s))"
  from ids have eq: "ids = bfs (adjacency (w_gates wflow)) [i] [i]"
    by (simp add: getDependentGateIds_def split: if_splits)
  have set_ids: "set ids = {x. (i, x) \<in> (dep_edges (w_gates wflow))\<^sup>*}" unfolding eq by (rule bfs_reachable(1))
  have d: "distinct ids" unfolding eq by (rule bfs_reachable(2))
  note spec = run_reset_spec [OF d, of now goal "gst_gates s"]
  have key: "compositeKey goal' j \<in> compositeKey goal ` set ids \<longleftrightarrow> goal' = goal \<and> j \<in> set ids"
  proof
    assume "compositeKey goal' j \<in> compositeKey goal ` set ids"
    then obtain x where "compositeKey goal' j = compositeKey goal x" "x \<in> set ids" by (rule imageE)
    then show "goal' = goal \<and> j \<in> set ids" by (simp only: compositeKey_eq [OF assms(3,2)])
  qed simp
  define hit where "hit \<longleftrightarrow> goal' = goal \<and> (i, j) \<in> (dep_edges (w_gates wflow))\<^sup>*"
  have after: "getGate goal' j s' = (if hit then map_option (reset_effect now) (getGate goal' j s) else getGate goal' j s)"
    unfolding getGate_def gates spec(1) key hit_def by (simp only: set_ids mem_Collect_eq)
  have "case getGate goal' j s of None \<Rightarrow> getGate goal' j s' = None
     | Some g \<Rightarrow> \<exists>g'. getGate goal' j s' = Some g' \<and> (if hit then resets_to now g g' else g' = g)"
    unfolding after by (simp add: reset_effect_resets split: option.splits)
  moreover have changed: "is_changed (gst_gates s) goal x \<longleftrightarrow> (\<exists>g. getGate goal x s = Some g \<and> gs_status g \<noteq> Pending)" for x
    by (cases "map_of (gst_gates s) (compositeKey goal x)") (simp_all add: is_changed_def getGate_def)
  have "set (rr_changedGateIds ?res) = {x. (i, x) \<in> (dep_edges (w_gates wflow))\<^sup>* \<and>
        (\<exists>g. getGate goal x s = Some g \<and> gs_status g \<noteq> Pending)}"
    "set (rr_unchangedGateIds ?res) = set (rr_affectedGateIds ?res) - set (rr_changedGateIds ?res)"
    "set (rr_affectedGateIds ?res) = {x. (i, x) \<in> (dep_edges (w_gates wflow))\<^sup>*}" "rr_requestedGateId ?res = i"
    by (auto simp: make_result_def spec(2,3) set_ids changed)
  moreover have "last (gst_events s') = Reset_resolved ?res" by (simp add: events)
  ultimately show ?thesis unfolding hit_def by blast
qed

section \<open>Runs on examples\<close>

datatype gate_move = Call gate_call | Tick gate_tick

fun run_moves_on :: "gate_move list \<Rightarrow> string set \<Rightarrow> gate_store \<Rightarrow> (string set \<times> gate_store) option" where
  "run_moves_on [] U s = Some (U, s)"
| "run_moves_on (Call c # ms) U s =
     (if call_ok c
      then (case perform c s of Inl e \<Rightarrow> None | Inr s' \<Rightarrow> run_moves_on ms (unfenced_after c s' U) s') else None)"
| "run_moves_on (Tick t # ms) U s = (if tick_enabled t s then run_moves_on ms U (tick t s) else None)"

definition run_moves :: "gate_move list \<Rightarrow> gate_store \<Rightarrow> gate_store option" where
  "run_moves ms s =
     (case run_moves_on ms {} s of Some (U, s') \<Rightarrow> if U = {} then Some s' else None | None \<Rightarrow> None)"

lemma run_moves_on_run:
  "run_moves_on ms U s = Some (V, s') \<Longrightarrow> gate_run observed rows s U \<Longrightarrow> gate_run observed rows s' V"
proof (induction ms U s rule: run_moves_on.induct)
  case (2 c ms U s)
  then obtain s1 where c: "call_ok c" "perform c s = Inr s1"
      "run_moves_on ms (unfenced_after c s1 U) s1 = Some (V, s')"
    by (auto split: if_splits sum.splits)
  have "gate_run observed rows s1 (unfenced_after c s1 U)" using run_call [OF 2(3) c(1,2)] .
  with 2(1) [OF c(1,2,3)] show ?case by simp
next
  case (3 t ms U s)
  then show ?case by (auto intro: run_tick split: if_splits)
qed simp

lemma run_moves_run: "run_moves ms s = Some s' \<Longrightarrow> gate_run observed rows s {} \<Longrightarrow> gate_run observed rows s' {}"
  by (auto simp: run_moves_def split: option.splits if_splits intro: run_moves_on_run)

definition ex_rows :: "((string \<times> string) \<times> gate_state) list" where
  "ex_rows = [((''g'', ''a''), pending_gate 0 ''g'' ''a'')]"

lemma ex_rows_valid: "rows_valid ex_rows"
  by (simp add: ex_rows_def rows_valid_def)

definition ex_gate :: "string \<Rightarrow> js list \<Rightarrow> gate" where
  "ex_gate i ds = \<lparr>g_id = i, g_name = i, g_dependsOn = ds, g_content = False, g_injectDownstream = False,
     g_optional = False, g_manual = False, g_metadata = None, g_verify = None\<rparr>"

definition ex_workflow :: workflow where
  "ex_workflow = \<lparr>w_id = ''w'', w_name = ''w'', w_description = [], w_gates = [ex_gate ''a'' [], ex_gate ''b'' [JStr ''a'']],
     w_createdAt = Fin 0, w_updatedAt = Fin 0, w_hidden = False\<rparr>"

definition ex_two_rows :: "((string \<times> string) \<times> gate_state) list" where
  "ex_two_rows = [((''g'', ''a''), pending_gate 0 ''g'' ''a''), ((''g'', ''b''), (pending_gate 0 ''g'' ''b'')\<lparr>gs_status := Passed\<rparr>)]"

lemma ex_two_rows_valid: "rows_valid ex_two_rows"
  by (simp add: ex_two_rows_def rows_valid_def)

definition ex_recovered :: "gate_store option" where
  "ex_recovered = run_moves
     [Call (Reset_in_memory 7 ''g'' ''a'' ex_workflow), Call (Reset_strict 8 ''g'' ''a'' ex_workflow),
      Tick (Drain True), Tick (Reset_settled 0)] (open_store False ex_two_rows)"

definition row_status :: "gate_store \<Rightarrow> string \<Rightarrow> string \<Rightarrow> gate_status option" where
  "row_status s goal i = map_option gs_status (map_of (pe_rows (gst_persist s)) (goal, i))"

definition gate_status_of :: "gate_store \<Rightarrow> string \<Rightarrow> string \<Rightarrow> gate_status option" where
  "gate_status_of s goal i = map_option gs_status (getGate goal i s)"

lemma ex_recovered_facts:
  "map_option (\<lambda>s. (pe_dirty (gst_persist s), gst_detached s, gate_status_of s ''g'' ''b'')) ex_recovered =
     Some ([], [], Some Pending)"
  by code_simp

lemma gate_store_durable_witness:
  "\<exists>s. gate_run False ex_two_rows s {} \<and>
     map_option gs_status (map_of (pe_rows (gst_persist s)) (''g'', ''b'')) = Some Pending"
proof -
  from ex_recovered_facts obtain s where s: "ex_recovered = Some s" and f: "pe_dirty (gst_persist s) = []"
    "gst_detached s = []" "map_option gs_status (getGate ''g'' ''b'' s) = Some Pending"
    by (auto simp: gate_status_of_def)
  have run: "gate_run False ex_two_rows s {}"
    using run_moves_run [OF s [unfolded ex_recovered_def] run_open] .
  have "CHR '':'' \<notin> set ''g''" "compositeKey ''g'' ''b'' \<notin> set (pe_dirty (gst_persist s)) \<union> set (gst_detached s) \<union> {}"
    using f by simp_all
  from gate_store_durable [OF ex_two_rows_valid run this] f(3) run show ?thesis by auto
qed

definition ex_waiting :: "gate_store option" where
  "ex_waiting = run_moves [Call (Update_status 5 ''g'' ''a'' Passed), Call Flush] (open_store False ex_rows)"

lemma ex_waiting_facts:
  "map_option (\<lambda>s. (pe_closed (gst_persist s), pe_barriers (gst_persist s))) ex_waiting = Some (False, [(2, 0)])"
  by code_simp

lemma gate_writer_progress_witness:
  "\<exists>s. gate_run False ex_rows s {} \<and> pe_barriers (gst_persist s) = [(2, 0)] \<and>
     pe_barriers (drain False (gst_gates s) (gst_persist s)) = []"
proof -
  from ex_waiting_facts obtain s where s: "ex_waiting = Some s" and f: "\<not> pe_closed (gst_persist s)"
    "pe_barriers (gst_persist s) = [(2, 0)]" by auto
  have run: "gate_run False ex_rows s {}"
    using run_moves_run [OF s [unfolded ex_waiting_def] run_open] .
  from gate_writer_progress [OF ex_rows_valid run f(1), of False] run f(2) show ?thesis by auto
qed

definition ex_reset :: "gate_error + gate_store" where
  "ex_reset = resetGateAndDependents 7 ''g'' ''a'' ex_workflow (open_store False ex_two_rows)"

lemma ex_reset_facts:
  "is_ok ex_reset" "gate_status_of (open_store False ex_two_rows) ''g'' ''b'' = Some Passed"
  by code_simp+

lemma reset_exact_witness:
  "\<exists>s' g. ex_reset = Inr s' \<and> getGate ''g'' ''b'' s' = Some g \<and> gs_status g = Pending \<and> gs_statusRevision g = Some 1"
proof -
  from ex_reset_facts(1) obtain s' where s': "ex_reset = Inr s'" by (metis Prelude.is_ok.simps(1) sum.exhaust)
  from ex_reset_facts(2) obtain g where g: "getGate ''g'' ''b'' (open_store False ex_two_rows) = Some g" "gs_status g = Passed"
    by (auto simp: gate_status_of_def)
  have rev: "gs_statusRevision g = None"
    using g(1) by (simp add: getGate_def open_store_def load_rows_def ex_two_rows_def pending_gate_def compositeKey_def) auto
  have "(''a'', ''b'') \<in> (dep_edges (w_gates ex_workflow))\<^sup>*"
    by (rule r_into_rtrancl) (auto simp: dep_edges_def ex_workflow_def ex_gate_def)
  moreover have "CHR '':'' \<notin> set ''g''" by simp
  ultimately obtain g' where "getGate ''g'' ''b'' s' = Some g'" "resets_to 7 g g'"
    using reset_exact [OF s' [unfolded ex_reset_def], of "''g''" "''b''"] g(1) by auto
  with s' g(2) rev show ?thesis by (auto simp: resets_to_def)
qed

section \<open>A status change that is never written\<close>

text \<open>
  The microtasks of the run: the batch of the first change is committed, its continuation reports the
  commit, finds no further keys and returns; a microtask that the commit observer queued changes the
  status again before the \<open>finally\<close> that clears the flush field. The change relies on the flush that has
  just returned.
\<close>

definition ex_stuck :: "gate_store option" where
  "ex_stuck = run_moves
     [Call (Update_status 5 ''g'' ''a'' Passed), Tick Detached_microtask, Tick (Drain True), Tick Drain_done,
      Tick Flush_settled, Call (Update_status 6 ''g'' ''a'' Failed), Tick Flush_finally] (open_store True ex_rows)"

text \<open>Nothing that is pending can change the store any more.\<close>

definition quiescent :: "gate_store \<Rightarrow> bool" where
  "quiescent s \<longleftrightarrow> (\<forall>t. tick_enabled t s \<longrightarrow> tick t s = s)"

lemma quiescentI:
  assumes "\<not> pe_timer (gst_persist s)" "\<not> pe_inFlight (gst_persist s)" "\<not> pe_restart (gst_persist s)"
    "\<not> gst_scheduled s" "gst_flush s = No_flush" "gst_resets s = []"
  shows "quiescent s"
  unfolding quiescent_def
proof (intro allI impI)
  fix t assume "tick_enabled t s"
  then show "tick t s = s"
    using assms by (cases t)
      (simp_all add: timer_fires_def restart_drain_def detached_microtask_def flush_settled_def flush_finally_def reset_settled_def)
qed

lemma ex_stuck_facts:
  "map_option (\<lambda>s. (gate_status_of s ''g'' ''a'', row_status s ''g'' ''a'')) ex_stuck = Some (Some Failed, Some Passed)"
  "map_option (\<lambda>s. (pe_timer (gst_persist s), pe_inFlight (gst_persist s), pe_restart (gst_persist s), gst_scheduled s)) ex_stuck =
     Some (False, False, False, False)"
  "map_option (\<lambda>s. (gst_flush s, gst_resets s)) ex_stuck = Some (No_flush, [])"
  by code_simp+

text \<open>
  A status change made between the end of the detached flush and its \<open>finally\<close> is lost to the
  database: the run ends with the gate failed in memory and passed in its row, nothing queued that would
  write it, and the state is a reachable one in which no tick changes anything.
\<close>

theorem status_change_stuck:
  "\<exists>s. gate_run True ex_rows s {} \<and> quiescent s \<and> pe_closed (gst_persist s) = False \<and>
     gate_status_of s ''g'' ''a'' = Some Failed \<and> row_status s ''g'' ''a'' = Some Passed"
proof -
  have "map_option (\<lambda>s. pe_closed (gst_persist s)) ex_stuck = Some False" by code_simp
  then obtain s where s: "ex_stuck = Some s" and "\<not> pe_closed (gst_persist s)" by auto
  then have
    f: "gate_status_of s ''g'' ''a'' = Some Failed" "row_status s ''g'' ''a'' = Some Passed"
      "\<not> pe_timer (gst_persist s)" "\<not> pe_inFlight (gst_persist s)" "\<not> pe_restart (gst_persist s)" "\<not> gst_scheduled s"
      "gst_flush s = No_flush" "gst_resets s = []" "\<not> pe_closed (gst_persist s)"
    using ex_stuck_facts unfolding s by simp_all
  have "gate_run True ex_rows s {}"
    using run_moves_run [OF s [unfolded ex_stuck_def] run_open] .
  then show ?thesis using f quiescentI by auto
qed

end
