(* ===== verification/Command_Serialiser.thy ===== *)
theory Command_Serialiser
  imports Js_Value
begin

text \<open>
  The per-session command queue of the WebSocket server (\<open>src/server/ws/session-command-serialiser.ts\<close>):
  promise chains keyed by session, the bounds on what may wait behind a running command, and the
  reserved control entry of a key. A promise of the source is its command's position in
  \<open>sr_commands\<close>. A run is a sequence of calls and of microtasks; a microtask runs only
  when no call is on the stack (\<open>sr_open\<close> holds the commands whose synchronous part is).
\<close>

section \<open>State\<close>

text \<open>
  A command waits for its predecessor, has been called, its own promise has settled, its
  \<open>finally\<close> has run, and its \<open>commandResult\<close> has settled. Whether it was fulfilled or
  rejected makes no difference to the queue: both \<open>then\<close> handlers are the same function.
\<close>

datatype stage = Waiting | Called | Returned | Finalised | Settled

record command =
  cmd_key :: string
  cmd_control :: bool
  cmd_bytes :: int
  cmd_prev :: "nat option"
  cmd_stage :: stage

record PendingUsage =
  pu_count :: int
  pu_bytes :: int

record serialiser =
  sr_commands :: "command list"
  sr_tails :: "(string \<times> nat) list"
  sr_active :: "(string \<times> nat) list"
  sr_aborted :: "nat list"
  sr_pending :: "(string \<times> PendingUsage) list"
  sr_controls :: "(string \<times> nat) list"
  sr_open :: "nat list"
  sr_maxCommands :: int
  sr_maxBytes :: int

datatype queue_limit = Limit_count | Limit_bytes

datatype run_result = Range_error | Queue_full queue_limit | Accepted nat

definition MAX_PENDING_SESSION_COMMANDS :: int where "MAX_PENDING_SESSION_COMMANDS = 64"
definition MAX_PENDING_SESSION_COMMAND_BYTES :: int where "MAX_PENDING_SESSION_COMMAND_BYTES = 64 * 1024 * 1024"

text \<open>\<open>Number.isSafeInteger(n)\<close> and not negative.\<close>

fun safe_size :: "js_num \<Rightarrow> int option" where
  "safe_size (Fin q) = (if q = of_int \<lfloor>q\<rfloor> \<and> 0 \<le> q \<and> q \<le> 2 ^ 53 - 1 then Some \<lfloor>q\<rfloor> else None)"
| "safe_size _ = None"

definition new_serialiser :: "js_num option \<Rightarrow> js_num option \<Rightarrow> serialiser option" where
  "new_serialiser maxCommands maxBytes =
     (case (case maxCommands of Some n \<Rightarrow> safe_size n | None \<Rightarrow> Some MAX_PENDING_SESSION_COMMANDS) of
        None \<Rightarrow> None
      | Some c \<Rightarrow>
        (case (case maxBytes of Some n \<Rightarrow> safe_size n | None \<Rightarrow> Some MAX_PENDING_SESSION_COMMAND_BYTES) of
           None \<Rightarrow> None
         | Some b \<Rightarrow> Some \<lparr>sr_commands = [], sr_tails = [], sr_active = [], sr_aborted = [], sr_pending = [],
                           sr_controls = [], sr_open = [], sr_maxCommands = c, sr_maxBytes = b\<rparr>))"

section \<open>Views\<close>

definition sr_size :: "serialiser \<Rightarrow> nat" where "sr_size st = length (sr_tails st)"

definition sr_has :: "string \<Rightarrow> serialiser \<Rightarrow> bool" where "sr_has k st = (map_of (sr_tails st) k \<noteq> None)"

definition pendingCount :: "serialiser \<Rightarrow> int" where
  "pendingCount st = sum_list (map (pu_count \<circ> snd) (sr_pending st))"

definition pendingBytes :: "serialiser \<Rightarrow> int" where
  "pendingBytes st = sum_list (map (pu_bytes \<circ> snd) (sr_pending st))"

definition controlCount :: "serialiser \<Rightarrow> nat" where "controlCount st = length (sr_controls st)"

section \<open>Operations\<close>

definition cancelActive :: "string \<Rightarrow> serialiser \<Rightarrow> bool \<times> serialiser" where
  "cancelActive k st =
     (case map_of (sr_active st) k of
        None \<Rightarrow> (False, st)
      | Some i \<Rightarrow>
        if i \<in> set (sr_aborted st) then (False, st)
        else (True, st\<lparr>sr_aborted := sr_aborted st @ [i]\<rparr>))"

definition set_stage :: "nat \<Rightarrow> stage \<Rightarrow> serialiser \<Rightarrow> serialiser" where
  "set_stage i s st = st\<lparr>sr_commands := (sr_commands st)[i := (sr_commands st ! i)\<lparr>cmd_stage := s\<rparr>]\<rparr>"

definition release_pending :: "string \<Rightarrow> int \<Rightarrow> serialiser \<Rightarrow> serialiser" where
  "release_pending k bytes st =
     (case map_of (sr_pending st) k of
        None \<Rightarrow> st
      | Some u \<Rightarrow>
        let u' = \<lparr>pu_count = pu_count u - 1, pu_bytes = pu_bytes u - bytes\<rparr> in
        st\<lparr>sr_pending := (if pu_count u' = 0 then AList.delete k (sr_pending st)
                          else AList.update k u' (sr_pending st))\<rparr>)"

text \<open>
  \<open>invoke\<close> of an ordinary command up to the call of its callback, and of a control command. What
  the callback calls before it returns are the calls that follow while it is on the stack.
\<close>

definition invoke :: "nat \<Rightarrow> serialiser \<Rightarrow> serialiser" where
  "invoke i st =
     (let c = sr_commands st ! i in
      if cmd_control c then set_stage i Called st
      else
        let st1 = (if cmd_prev c \<noteq> None then release_pending (cmd_key c) (cmd_bytes c) st else st) in
        set_stage i Called (st1\<lparr>sr_active := AList.update (cmd_key c) i (sr_active st1)\<rparr>))"

definition new_command :: "string \<Rightarrow> bool \<Rightarrow> int \<Rightarrow> nat option \<Rightarrow> command" where
  "new_command k control bytes prev =
     \<lparr>cmd_key = k, cmd_control = control, cmd_bytes = bytes, cmd_prev = prev, cmd_stage = Waiting\<rparr>"

text \<open>
  \<open>run\<close> (and \<open>serialise\<close>, which is \<open>run\<close>). On an idle key the callback is called at once and
  the key's tail is set only when it returns (\<open>run_returns\<close>).
\<close>

definition sr_run :: "string \<Rightarrow> js_num \<Rightarrow> serialiser \<Rightarrow> run_result \<times> serialiser" where
  "sr_run k frameBytes st =
     (case safe_size frameBytes of
        None \<Rightarrow> (Range_error, st)
      | Some bytes \<Rightarrow>
        let i = length (sr_commands st) in
        (case map_of (sr_tails st) k of
           Some prev \<Rightarrow>
             let u = (case map_of (sr_pending st) k of Some u \<Rightarrow> u | None \<Rightarrow> \<lparr>pu_count = 0, pu_bytes = 0\<rparr>) in
             if pu_count u \<ge> sr_maxCommands st then (Queue_full Limit_count, st)
             else if bytes > sr_maxBytes st - pu_bytes u then (Queue_full Limit_bytes, st)
             else (Accepted i,
               st\<lparr>sr_commands := sr_commands st @ [new_command k False bytes (Some prev)],
                  sr_pending := AList.update k \<lparr>pu_count = pu_count u + 1, pu_bytes = pu_bytes u + bytes\<rparr> (sr_pending st),
                  sr_tails := AList.update k i (sr_tails st)\<rparr>)
         | None \<Rightarrow>
             let st1 = invoke i (st\<lparr>sr_commands := sr_commands st @ [new_command k False bytes None]\<rparr>) in
             (Accepted i, st1\<lparr>sr_open := i # sr_open st1\<rparr>)))"

definition run_returns :: "serialiser \<Rightarrow> serialiser" where
  "run_returns st =
     (case sr_open st of
        [] \<Rightarrow> st
      | i # others \<Rightarrow> st\<lparr>sr_open := others, sr_tails := AList.update (cmd_key (sr_commands st ! i)) i (sr_tails st)\<rparr>)"

text \<open>\<open>serialiseControl\<close>: the promise and whether it was created.\<close>

definition serialiseControl :: "string \<Rightarrow> serialiser \<Rightarrow> (nat \<times> bool) \<times> serialiser" where
  "serialiseControl k st =
     (case map_of (sr_controls st) k of
        Some i \<Rightarrow> ((i, False), st)
      | None \<Rightarrow>
        let i = length (sr_commands st) in
        ((i, True),
         st\<lparr>sr_commands := sr_commands st @ [new_command k True 0 (map_of (sr_tails st) k)],
            sr_controls := AList.update k i (sr_controls st),
            sr_tails := AList.update k i (sr_tails st)\<rparr>))"

section \<open>Microtasks\<close>

definition stage_of :: "serialiser \<Rightarrow> nat \<Rightarrow> stage" where
  "stage_of st i = cmd_stage (sr_commands st ! i)"

definition run_finally :: "nat \<Rightarrow> serialiser \<Rightarrow> serialiser" where
  "run_finally i st =
     (let k = cmd_key (sr_commands st ! i) in
      set_stage i Finalised
        (if map_of (sr_active st) k = Some i then st\<lparr>sr_active := AList.delete k (sr_active st)\<rparr> else st))"

text \<open>
  The settling of \<open>commandResult\<close> with its first reaction, \<open>removeIdleKey\<close> or
  \<open>releaseControl\<close>; the reaction that invokes the next command was registered later.
\<close>

definition delete_own :: "string \<Rightarrow> nat \<Rightarrow> (string \<times> nat) list \<Rightarrow> (string \<times> nat) list" where
  "delete_own k i m = (if map_of m k = Some i then AList.delete k m else m)"

definition settle :: "nat \<Rightarrow> serialiser \<Rightarrow> serialiser" where
  "settle i st =
     (let c = sr_commands st ! i; k = cmd_key c in
      set_stage i Settled
        (st\<lparr>sr_controls := (if cmd_control c then delete_own k i (sr_controls st) else sr_controls st),
            sr_tails := delete_own k i (sr_tails st)\<rparr>))"

datatype microtask = Invoke nat | Return nat | Finally nat | Settle nat

fun tick_enabled :: "microtask \<Rightarrow> serialiser \<Rightarrow> bool" where
  "tick_enabled (Invoke i) st =
     (sr_open st = [] \<and> i < length (sr_commands st) \<and> stage_of st i = Waiting \<and>
      (case cmd_prev (sr_commands st ! i) of None \<Rightarrow> True | Some p \<Rightarrow> stage_of st p = Settled))"
| "tick_enabled (Return i) st =
     (sr_open st = [] \<and> i < length (sr_commands st) \<and> stage_of st i = Called)"
| "tick_enabled (Finally i) st =
     (sr_open st = [] \<and> i < length (sr_commands st) \<and> stage_of st i = Returned \<and> \<not> cmd_control (sr_commands st ! i))"
| "tick_enabled (Settle i) st =
     (sr_open st = [] \<and> i < length (sr_commands st) \<and>
      stage_of st i = (if cmd_control (sr_commands st ! i) then Returned else Finalised))"

fun tick :: "microtask \<Rightarrow> serialiser \<Rightarrow> serialiser" where
  "tick (Invoke i) st = invoke i st"
| "tick (Return i) st = set_stage i Returned st"
| "tick (Finally i) st = run_finally i st"
| "tick (Settle i) st = settle i st"

datatype call = Run string js_num | Run_returns | Control string | Cancel string

fun perform :: "call \<Rightarrow> serialiser \<Rightarrow> serialiser" where
  "perform (Run k n) st = snd (sr_run k n st)"
| "perform Run_returns st = run_returns st"
| "perform (Control k) st = snd (serialiseControl k st)"
| "perform (Cancel k) st = snd (cancelActive k st)"

text \<open>
  The discipline of the callers: a callback that is called at once does not, before it returns,
  queue another command for its own key.
\<close>

definition open_keys :: "serialiser \<Rightarrow> string set" where
  "open_keys st = (\<lambda>i. cmd_key (sr_commands st ! i)) ` set (sr_open st)"

fun call_ok :: "call \<Rightarrow> serialiser \<Rightarrow> bool" where
  "call_ok (Run k n) st = (k \<notin> open_keys st)"
| "call_ok (Control k) st = (k \<notin> open_keys st)"
| "call_ok _ st = True"

inductive serialiser_run :: "serialiser \<Rightarrow> bool" where
  start: "new_serialiser mc mb = Some st \<Longrightarrow> serialiser_run st"
| calls: "serialiser_run st \<Longrightarrow> call_ok c st \<Longrightarrow> serialiser_run (perform c st)"
| ticks: "serialiser_run st \<Longrightarrow> tick_enabled t st \<Longrightarrow> serialiser_run (tick t st)"

end
