(* ===== verification/Serialiser_Safety.thy ===== *)
theory Serialiser_Safety
  imports Command_Serialiser
begin

text \<open>
  What the command queue promises: per session, commands start one at a time in the order of
  acceptance, what waits is within the bounds, nothing is kept for an idle session, and the
  queue always drains. Proved over the view of one key: the line of its unsettled commands and
  its entry in each of the maps.
\<close>

section \<open>The view of a key\<close>

record lane =
  v_line :: "(nat \<times> command) list"
  v_tail :: "nat option"
  v_active :: "nat option"
  v_pending :: "PendingUsage option"
  v_control :: "nat option"
  v_open :: bool

definition line_of :: "command list \<Rightarrow> string \<Rightarrow> (nat \<times> command) list" where
  "line_of cs k = filter (\<lambda>(i, c). cmd_key c = k \<and> cmd_stage c \<noteq> Settled) (enumerate 0 cs)"

definition view :: "serialiser \<Rightarrow> string \<Rightarrow> lane" where
  "view st k =
     \<lparr>v_line = line_of (sr_commands st) k, v_tail = map_of (sr_tails st) k, v_active = map_of (sr_active st) k,
      v_pending = map_of (sr_pending st) k, v_control = map_of (sr_controls st) k, v_open = (k \<in> open_keys st)\<rparr>"

text \<open>Every command but the first waits for the one before it.\<close>

fun linked :: "(nat \<times> command) list \<Rightarrow> bool" where
  "linked [] = True"
| "linked [x] = True"
| "linked (x # y # r) = (cmd_prev (snd y) = Some (fst x) \<and> cmd_stage (snd y) = Waiting \<and> linked (y # r))"

definition waiting_ordinary :: "(nat \<times> command) list \<Rightarrow> command list" where
  "waiting_ordinary l = filter (\<lambda>c. cmd_stage c = Waiting \<and> \<not> cmd_control c) (map snd l)"

definition usage_of :: "command list \<Rightarrow> PendingUsage option" where
  "usage_of cs = (if cs = [] then None
     else Some \<lparr>pu_count = int (length cs), pu_bytes = sum_list (map cmd_bytes cs)\<rparr>)"

definition controls_in :: "(nat \<times> command) list \<Rightarrow> nat list" where
  "controls_in l = map fst (filter (\<lambda>x. cmd_control (snd x)) l)"

definition active_of :: "(nat \<times> command) list \<Rightarrow> nat option" where
  "active_of l = (case l of [] \<Rightarrow> None
     | (i, c) # _ \<Rightarrow> if \<not> cmd_control c \<and> cmd_stage c \<in> {Called, Returned} then Some i else None)"

definition command_ok :: "command \<Rightarrow> bool" where
  "command_ok c \<longleftrightarrow> (cmd_control c \<longrightarrow> cmd_stage c \<noteq> Finalised) \<and>
     (\<not> cmd_control c \<and> cmd_stage c = Waiting \<longrightarrow> cmd_prev c \<noteq> None) \<and> 0 \<le> cmd_bytes c"

definition lane_ok :: "int \<Rightarrow> int \<Rightarrow> lane \<Rightarrow> bool" where
  "lane_ok maxC maxB v \<longleftrightarrow>
     linked (v_line v) \<and> (\<forall>x \<in> set (v_line v). command_ok (snd x)) \<and>
     v_tail v = (if v_open v \<or> v_line v = [] then None else Some (fst (last (v_line v)))) \<and>
     v_active v = active_of (v_line v) \<and>
     v_pending v = usage_of (waiting_ordinary (v_line v)) \<and>
     length (controls_in (v_line v)) \<le> 1 \<and>
     v_control v = (case controls_in (v_line v) of [] \<Rightarrow> None | i # _ \<Rightarrow> Some i) \<and>
     (v_open v \<longrightarrow> (\<exists>i c. v_line v = [(i, c)] \<and> cmd_stage c = Called \<and> \<not> cmd_control c)) \<and>
     int (length (waiting_ordinary (v_line v))) \<le> maxC \<and>
     sum_list (map cmd_bytes (waiting_ordinary (v_line v))) \<le> maxB"

definition prevs_ok :: "command list \<Rightarrow> bool" where
  "prevs_ok cs \<longleftrightarrow> (\<forall>i < length cs. \<forall>p. cmd_prev (cs ! i) = Some p \<longrightarrow> p < i \<and> cmd_key (cs ! p) = cmd_key (cs ! i))"

definition serialiser_ok :: "serialiser \<Rightarrow> bool" where
  "serialiser_ok st \<longleftrightarrow>
     (\<forall>k. lane_ok (sr_maxCommands st) (sr_maxBytes st) (view st k)) \<and> prevs_ok (sr_commands st) \<and>
     (\<forall>i \<in> set (sr_open st). i < length (sr_commands st) \<and> stage_of st i = Called) \<and>
     distinct (map (\<lambda>i. cmd_key (sr_commands st ! i)) (sr_open st)) \<and>
     0 \<le> sr_maxCommands st \<and> 0 \<le> sr_maxBytes st"

section \<open>The line of a key\<close>

lemma set_line_of:
  "(i, c) \<in> set (line_of cs k) \<longleftrightarrow> i < length cs \<and> c = cs ! i \<and> cmd_key c = k \<and> cmd_stage c \<noteq> Settled"
  by (auto simp: line_of_def in_set_enumerate_eq)

lemma line_of_append:
  "line_of (cs @ [c]) k =
   line_of cs k @ (if cmd_key c = k \<and> cmd_stage c \<noteq> Settled then [(length cs, c)] else [])"
  by (simp add: line_of_def enumerate_append_eq)

lemma sorted_line: "sorted_wrt (<) (map fst (line_of cs k))"
proof -
  have "sorted_wrt (\<lambda>x y. fst x < fst y) (enumerate 0 cs)"
    by (simp add: sorted_wrt_map [of "(<)" fst, symmetric] del: sorted_wrt_map)
  then show ?thesis by (simp add: line_of_def sorted_wrt_filter sorted_wrt_map)
qed

lemma enumerate_update: "i < length cs \<Longrightarrow> enumerate n (cs[i := x]) = (enumerate n cs)[i := (n + i, x)]"
  by (rule nth_equalityI) (auto simp: nth_enumerate_eq nth_list_update)

text \<open>A new stage of an unsettled command: its entry changes, or leaves when it has settled.\<close>

definition upd_line :: "nat \<Rightarrow> stage \<Rightarrow> (nat \<times> command) list \<Rightarrow> (nat \<times> command) list" where
  "upd_line i s l = filter (\<lambda>x. cmd_stage (snd x) \<noteq> Settled)
     (map (\<lambda>x. if fst x = i then (fst x, (snd x)\<lparr>cmd_stage := s\<rparr>) else x) l)"

lemma update_as_map:
  assumes "i < length cs"
  shows "(enumerate 0 cs)[i := (i, (cs ! i)\<lparr>cmd_stage := s\<rparr>)] =
    map (\<lambda>x. if fst x = i then (fst x, (snd x)\<lparr>cmd_stage := s\<rparr>) else x) (enumerate 0 cs)"
  by (rule nth_equalityI) (use assms in \<open>auto simp: nth_enumerate_eq nth_list_update\<close>)

lemma line_of_set_stage:
  assumes "i < length cs" and "cmd_stage (cs ! i) \<noteq> Settled"
  shows "line_of (cs[i := (cs ! i)\<lparr>cmd_stage := s\<rparr>]) k = upd_line i s (line_of cs k)"
proof -
  let ?f = "\<lambda>x. if fst x = i then (fst x, (snd x)\<lparr>cmd_stage := s\<rparr>) else x"
  have "line_of (cs[i := (cs ! i)\<lparr>cmd_stage := s\<rparr>]) k =
      filter (\<lambda>(i, c). cmd_key c = k \<and> cmd_stage c \<noteq> Settled) (map ?f (enumerate 0 cs))"
    using assms(1) by (simp add: line_of_def enumerate_update update_as_map)
  also have "\<dots> = filter (\<lambda>x. cmd_stage (snd x) \<noteq> Settled) (map ?f
      (filter (\<lambda>(i, c). cmd_key c = k \<and> cmd_stage c \<noteq> Settled) (enumerate 0 cs)))"
    unfolding filter_map filter_filter
    by (rule arg_cong [where f = "map ?f"], rule filter_cong [OF refl])
      (use assms in \<open>auto simp: in_set_enumerate_eq\<close>)
  finally show ?thesis by (simp add: upd_line_def line_of_def)
qed

lemma upd_line_other: "i \<notin> fst ` set l \<Longrightarrow> \<forall>x \<in> set l. cmd_stage (snd x) \<noteq> Settled \<Longrightarrow> upd_line i s l = l"
  unfolding upd_line_def by (induction l) auto

lemma upd_line_head:
  assumes "distinct (map fst ((i, c) # r))" and "\<forall>x \<in> set r. cmd_stage (snd x) \<noteq> Settled"
  shows "upd_line i s ((i, c) # r) = (if s = Settled then r else (i, c\<lparr>cmd_stage := s\<rparr>) # r)"
proof -
  have "upd_line i s r = r" using assms by (intro upd_line_other) auto
  then show ?thesis by (auto simp: upd_line_def)
qed

lemma linked_Cons: "linked (x # r) \<Longrightarrow> linked r \<and> (\<forall>y \<in> set r. cmd_stage (snd y) = Waiting)"
  by (induction r arbitrary: x) auto

lemma linked_head: "linked (x # r) \<Longrightarrow> fst x' = fst x \<Longrightarrow> linked (x' # r)"
  by (cases r) auto

lemma linked_append:
  "linked (l @ [y]) \<longleftrightarrow> linked l \<and> (l \<noteq> [] \<longrightarrow> cmd_prev (snd y) = Some (fst (last l)) \<and> cmd_stage (snd y) = Waiting)"
  by (induction l rule: linked.induct) auto

lemma linked_pred: "linked (x # r) \<Longrightarrow> y \<in> set r \<Longrightarrow> \<exists>z \<in> set (x # r). cmd_prev (snd y) = Some (fst z)"
  by (induction r arbitrary: x) auto

section \<open>One step on the lane of its key\<close>

lemma waiting_ordinary_simps [simp]:
  "waiting_ordinary [] = []"
  "waiting_ordinary ((i, c) # r) =
     (if cmd_stage c = Waiting \<and> \<not> cmd_control c then c # waiting_ordinary r else waiting_ordinary r)"
  "waiting_ordinary (l @ l') = waiting_ordinary l @ waiting_ordinary l'"
  by (simp_all add: waiting_ordinary_def)

lemma controls_in_simps [simp]:
  "controls_in [] = []"
  "controls_in ((i, c) # r) = (if cmd_control c then i # controls_in r else controls_in r)"
  "controls_in (l @ l') = controls_in l @ controls_in l'"
  by (simp_all add: controls_in_def)

lemma usage_of_simps [simp]:
  "usage_of [] = None"
  "usage_of (c # cs) = Some \<lparr>pu_count = 1 + int (length cs), pu_bytes = cmd_bytes c + sum_list (map cmd_bytes cs)\<rparr>"
  by (simp_all add: usage_of_def)

lemma waiting_ordinary_bytes:
  "\<forall>x \<in> set l. command_ok (snd x) \<Longrightarrow> 0 \<le> sum_list (map cmd_bytes (waiting_ordinary l))"
  by (rule sum_list_nonneg) (auto simp: waiting_ordinary_def command_ok_def)

lemma active_append: "l \<noteq> [] \<Longrightarrow> active_of (l @ r) = active_of l"
  by (cases l) (auto simp: active_of_def)

lemma active_waiting: "cmd_stage c = Waiting \<Longrightarrow> active_of [(i, c)] = None"
  by (simp add: active_of_def)

lemma lane_accept:
  assumes "lane_ok maxC maxB v" and "v_tail v = Some p" and "0 \<le> b"
    and u: "u = (case v_pending v of Some u \<Rightarrow> u | None \<Rightarrow> \<lparr>pu_count = 0, pu_bytes = 0\<rparr>)"
    and bounds: "\<not> pu_count u \<ge> maxC" "\<not> b > maxB - pu_bytes u"
  shows "lane_ok maxC maxB (v\<lparr>v_line := v_line v @ [(n, new_command k False b (Some p))], v_tail := Some n,
     v_pending := Some \<lparr>pu_count = pu_count u + 1, pu_bytes = pu_bytes u + b\<rparr>\<rparr>)"
proof -
  let ?w = "waiting_ordinary (v_line v)"
  have l: "v_line v \<noteq> []" "\<not> v_open v" "p = fst (last (v_line v))"
    using assms(1,2) by (auto simp: lane_ok_def split: if_splits)
  have u': "pu_count u = int (length ?w)" "pu_bytes u = sum_list (map cmd_bytes ?w)"
    using assms(1) u by (auto simp: lane_ok_def usage_of_def split: option.splits if_splits)
  have "usage_of (?w @ [new_command k False b (Some p)]) = Some \<lparr>pu_count = pu_count u + 1, pu_bytes = pu_bytes u + b\<rparr>"
    by (simp add: usage_of_def u' new_command_def)
  then show ?thesis
    using assms(1,3) l bounds u'
    by (simp add: lane_ok_def linked_append active_append new_command_def command_ok_def)
qed

lemma lane_start:
  assumes "lane_ok maxC maxB v" and "v_tail v = None" and "\<not> v_open v" and "0 \<le> b"
  shows "lane_ok maxC maxB (v\<lparr>v_line := [(n, (new_command k False b None)\<lparr>cmd_stage := Called\<rparr>)],
     v_active := Some n, v_open := True\<rparr>)"
  using assms
  by (auto simp: lane_ok_def new_command_def command_ok_def active_of_def split: if_splits)

lemma lane_return:
  assumes "lane_ok maxC maxB v" and "v_open v" and "(i, c) \<in> set (v_line v)"
  shows "lane_ok maxC maxB (v\<lparr>v_open := False, v_tail := Some i\<rparr>)"
  using assms by (auto simp: lane_ok_def)

lemma lane_control:
  assumes "lane_ok maxC maxB v" and "v_control v = None" and "\<not> v_open v"
  shows "lane_ok maxC maxB (v\<lparr>v_line := v_line v @ [(n, new_command k True 0 (v_tail v))], v_tail := Some n,
     v_control := Some n\<rparr>)"
proof -
  have "controls_in (v_line v) = []"
    using assms(1,2) by (auto simp: lane_ok_def split: list.splits)
  moreover have "active_of (v_line v @ [(n, new_command k True 0 (v_tail v))]) = active_of (v_line v)"
    by (cases "v_line v") (auto simp: active_of_def new_command_def)
  moreover have "linked (v_line v @ [(n, new_command k True 0 (v_tail v))])"
    using assms by (auto simp: lane_ok_def linked_append new_command_def)
  ultimately show ?thesis
    using assms by (simp add: lane_ok_def new_command_def command_ok_def)
qed

lemma lane_head:
  assumes "lane_ok maxC maxB v" and "(i, c) \<in> set (v_line v)" and "cmd_stage c \<noteq> Waiting"
  shows "\<exists>r. v_line v = (i, c) # r"
proof (cases "v_line v")
  case (Cons x r)
  with assms show ?thesis by (auto simp: lane_ok_def dest!: linked_Cons)
qed (use assms in simp)

text \<open>The head of a lane is invoked, returns, has its \<open>finally\<close> run and leaves.\<close>

lemma lane_invoke:
  assumes "lane_ok maxC maxB v" and l: "v_line v = (i, c) # r" and w: "cmd_stage c = Waiting" "\<not> cmd_control c"
  shows "lane_ok maxC maxB (v\<lparr>v_line := (i, c\<lparr>cmd_stage := Called\<rparr>) # r, v_active := Some i,
     v_pending := usage_of (waiting_ordinary r)\<rparr>)"
    and "v_pending v = Some \<lparr>pu_count = 1 + int (length (waiting_ordinary r)),
           pu_bytes = cmd_bytes c + sum_list (map cmd_bytes (waiting_ordinary r))\<rparr>"
proof -
  have "linked ((i, c\<lparr>cmd_stage := Called\<rparr>) # r)"
    using assms(1) l by (auto simp: lane_ok_def intro: linked_head)
  then show "lane_ok maxC maxB (v\<lparr>v_line := (i, c\<lparr>cmd_stage := Called\<rparr>) # r, v_active := Some i,
     v_pending := usage_of (waiting_ordinary r)\<rparr>)"
    using assms by (auto simp: lane_ok_def command_ok_def active_of_def split: if_splits)
qed (use assms in \<open>simp add: lane_ok_def\<close>)

lemma lane_invoke_control:
  assumes "lane_ok maxC maxB v" and "v_line v = (i, c) # r" and "cmd_stage c = Waiting" "cmd_control c"
  shows "lane_ok maxC maxB (v\<lparr>v_line := (i, c\<lparr>cmd_stage := Called\<rparr>) # r\<rparr>)"
proof -
  have "linked ((i, c\<lparr>cmd_stage := Called\<rparr>) # r)"
    using assms(1,2) by (auto simp: lane_ok_def intro: linked_head)
  then show ?thesis using assms by (auto simp: lane_ok_def command_ok_def active_of_def split: if_splits)
qed

lemma lane_returned:
  assumes "lane_ok maxC maxB v" and "v_line v = (i, c) # r" and "cmd_stage c = Called" and "\<not> v_open v"
  shows "lane_ok maxC maxB (v\<lparr>v_line := (i, c\<lparr>cmd_stage := Returned\<rparr>) # r\<rparr>)"
proof -
  have "linked ((i, c\<lparr>cmd_stage := Returned\<rparr>) # r)"
    using assms(1,2) by (auto simp: lane_ok_def intro: linked_head)
  then show ?thesis using assms by (auto simp: lane_ok_def command_ok_def active_of_def split: if_splits)
qed

lemma lane_finally:
  assumes "lane_ok maxC maxB v" and "v_line v = (i, c) # r" and "cmd_stage c = Returned" and "\<not> cmd_control c"
  shows "lane_ok maxC maxB (v\<lparr>v_line := (i, c\<lparr>cmd_stage := Finalised\<rparr>) # r, v_active := None\<rparr>)"
    and "v_active v = Some i"
proof -
  have "linked ((i, c\<lparr>cmd_stage := Finalised\<rparr>) # r)"
    using assms(1,2) by (auto simp: lane_ok_def intro: linked_head)
  then show "lane_ok maxC maxB (v\<lparr>v_line := (i, c\<lparr>cmd_stage := Finalised\<rparr>) # r, v_active := None\<rparr>)"
    using assms by (auto simp: lane_ok_def command_ok_def active_of_def split: if_splits)
qed (use assms in \<open>simp add: lane_ok_def active_of_def\<close>)

lemma lane_settle:
  assumes "lane_ok maxC maxB v" and l: "v_line v = (i, c) # r" and "distinct (map fst (v_line v))"
    and s: "cmd_stage c = (if cmd_control c then Returned else Finalised)"
  shows "lane_ok maxC maxB (v\<lparr>v_line := r, v_tail := (if v_tail v = Some i then None else v_tail v),
     v_control := (if cmd_control c \<and> v_control v = Some i then None else v_control v)\<rparr>)"
proof -
  have o: "\<not> v_open v" using assms by (auto simp: lane_ok_def split: if_splits)
  have r: "linked r" "\<forall>y \<in> set r. cmd_stage (snd y) = Waiting"
    using assms(1) l by (auto simp: lane_ok_def dest!: linked_Cons)
  have "active_of r = None" using r(2) by (cases r) (auto simp: active_of_def)
  moreover have "active_of (v_line v) = None" using l s by (auto simp: active_of_def)
  moreover have "r \<noteq> [] \<Longrightarrow> fst (last r) \<noteq> i" using assms(3) l by auto
  moreover have "v_control v = Some i \<longrightarrow> cmd_control c"
  proof (intro impI, rule ccontr)
    assume "v_control v = Some i" "\<not> cmd_control c"
    then have "i \<in> set (controls_in r)" using assms(1) l by (auto simp: lane_ok_def split: list.splits)
    then have "i \<in> fst ` set r" by (auto simp: controls_in_def)
    then show False using assms(3) l by simp
  qed
  ultimately have f: "active_of r = None" "v_active v = None" "r \<noteq> [] \<Longrightarrow> fst (last r) \<noteq> i"
      "v_control v = Some i \<Longrightarrow> cmd_control c"
    using assms(1) by (auto simp: lane_ok_def)
  have t: "(if v_tail v = Some i then None else v_tail v) = (if v_open v \<or> r = [] then None else Some (fst (last r)))"
    using assms(1) l o f(3) by (cases "r = []") (simp_all add: lane_ok_def)
  have c: "(if cmd_control c \<and> v_control v = Some i then None else v_control v) =
      (case controls_in r of [] \<Rightarrow> None | i # _ \<Rightarrow> Some i)" "length (controls_in r) \<le> 1"
    using assms(1) l f(4) by (cases "cmd_control c"; simp add: lane_ok_def)+
  have w: "waiting_ordinary (v_line v) = waiting_ordinary r" using l s by simp
  from assms(1) have
    "\<forall>x \<in> set r. command_ok (snd x)" "v_pending v = usage_of (waiting_ordinary r)"
    "int (length (waiting_ordinary r)) \<le> maxC" "sum_list (map cmd_bytes (waiting_ordinary r)) \<le> maxB"
    using l w by (simp_all add: lane_ok_def)
  then show ?thesis using r(1) f(1,2) t c o by (simp add: lane_ok_def)
qed

section \<open>Every step keeps the invariant\<close>

definition opens_ok :: "serialiser \<Rightarrow> bool" where
  "opens_ok st \<longleftrightarrow> (\<forall>i \<in> set (sr_open st). i < length (sr_commands st) \<and> stage_of st i = Called) \<and>
     distinct (map (\<lambda>i. cmd_key (sr_commands st ! i)) (sr_open st))"

lemma serialiser_ok_iff:
  "serialiser_ok st \<longleftrightarrow> (\<forall>k. lane_ok (sr_maxCommands st) (sr_maxBytes st) (view st k)) \<and>
     prevs_ok (sr_commands st) \<and> opens_ok st \<and> 0 \<le> sr_maxCommands st \<and> 0 \<le> sr_maxBytes st"
  by (auto simp: serialiser_ok_def opens_ok_def)

lemma ok_step:
  assumes "serialiser_ok st" and "sr_maxCommands st' = sr_maxCommands st" and "sr_maxBytes st' = sr_maxBytes st"
    and "lane_ok (sr_maxCommands st) (sr_maxBytes st) (view st' k)"
    and "\<And>k'. k' \<noteq> k \<Longrightarrow> view st' k' = view st k'"
    and "prevs_ok (sr_commands st')" and "opens_ok st'"
  shows "serialiser_ok st'"
proof -
  have "lane_ok (sr_maxCommands st) (sr_maxBytes st) (view st' k')" for k'
    using assms(1,4) assms(5) [of k'] by (cases "k' = k") (simp_all add: serialiser_ok_iff)
  with assms(1-3,6,7) show ?thesis by (simp add: serialiser_ok_iff)
qed

lemma ok_lane: "serialiser_ok st \<Longrightarrow> lane_ok (sr_maxCommands st) (sr_maxBytes st) (view st k)"
  by (simp add: serialiser_ok_def)

lemma prevs_append: "prevs_ok cs \<Longrightarrow> (\<And>p. cmd_prev c = Some p \<Longrightarrow> p < length cs \<and> cmd_key (cs ! p) = cmd_key c) \<Longrightarrow> prevs_ok (cs @ [c])"
  unfolding prevs_ok_def
proof (intro allI impI)
  fix i p
  assume old: "\<forall>i<length cs. \<forall>p. cmd_prev (cs ! i) = Some p \<longrightarrow> p < i \<and> cmd_key (cs ! p) = cmd_key (cs ! i)"
    and new: "\<And>p. cmd_prev c = Some p \<Longrightarrow> p < length cs \<and> cmd_key (cs ! p) = cmd_key c"
    and i: "i < length (cs @ [c])" and p: "cmd_prev ((cs @ [c]) ! i) = Some p"
  show "p < i \<and> cmd_key ((cs @ [c]) ! p) = cmd_key ((cs @ [c]) ! i)"
  proof (cases "i < length cs")
    case True
    from p True have "cmd_prev (cs ! i) = Some p" by (simp add: nth_append)
    from old [rule_format, OF True this] True show ?thesis by (simp add: nth_append)
  next
    case False
    with i p new show ?thesis by (simp add: nth_append not_less less_Suc_eq)
  qed
qed

lemma prevs_set_stage: "prevs_ok cs \<Longrightarrow> prevs_ok (cs[i := (cs ! i)\<lparr>cmd_stage := s\<rparr>])"
proof (cases "i < length cs")
  case True
  then have "cmd_prev (cs[i := (cs ! i)\<lparr>cmd_stage := s\<rparr>] ! j) = cmd_prev (cs ! j) \<and>
      cmd_key (cs[i := (cs ! i)\<lparr>cmd_stage := s\<rparr>] ! j) = cmd_key (cs ! j)" for j
    by (simp add: nth_list_update)
  moreover assume "prevs_ok cs"
  ultimately show ?thesis unfolding prevs_ok_def length_list_update by metis
next
  case False
  assume "prevs_ok cs"
  moreover have "cs[i := (cs ! i)\<lparr>cmd_stage := s\<rparr>] = cs" by (rule list_update_beyond) (use False in simp)
  ultimately show ?thesis by simp
qed

lemma opens_append:
  "opens_ok st \<Longrightarrow> sr_open st' = sr_open st \<Longrightarrow> sr_commands st' = sr_commands st @ [c] \<Longrightarrow>
   opens_ok st' \<and> open_keys st' = open_keys st"
  by (auto simp: opens_ok_def open_keys_def stage_of_def nth_append cong: map_cong)

lemma tail_command:
  assumes "serialiser_ok st" and "map_of (sr_tails st) k = Some p"
  shows "p < length (sr_commands st) \<and> cmd_key (sr_commands st ! p) = k"
proof -
  from ok_lane [OF assms(1), of k] assms(2)
  have "v_line (view st k) \<noteq> []" "p = fst (last (v_line (view st k)))"
    by (auto simp: lane_ok_def view_def split: if_splits)
  then have "(p, snd (last (v_line (view st k)))) \<in> set (line_of (sr_commands st) k)"
    using last_in_set [of "v_line (view st k)"] by (simp add: view_def)
  then show ?thesis by (auto simp: set_line_of)
qed

lemma in_line: "i < length (sr_commands st) \<Longrightarrow> stage_of st i \<noteq> Settled \<Longrightarrow>
   (i, sr_commands st ! i) \<in> set (v_line (view st (cmd_key (sr_commands st ! i))))"
  by (simp add: view_def set_line_of stage_of_def)

lemma safe_size_nonneg: "safe_size n = Some b \<Longrightarrow> 0 \<le> b"
  by (cases n) (auto split: if_splits)

lemma ok_run:
  assumes ok: "serialiser_ok st" and "call_ok (Run k n) st"
  shows "serialiser_ok (snd (sr_run k n st))"
proof (cases "safe_size n")
  case None
  then show ?thesis using ok by (simp add: sr_run_def)
next
  case (Some b)
  note b = safe_size_nonneg [OF Some]
  let ?i = "length (sr_commands st)"
  show ?thesis
  proof (cases "map_of (sr_tails st) k")
    case prev: (Some p)
    define u where "u = (case map_of (sr_pending st) k of Some u \<Rightarrow> u | None \<Rightarrow> \<lparr>pu_count = 0, pu_bytes = 0\<rparr>)"
    let ?st = "st\<lparr>sr_commands := sr_commands st @ [new_command k False b (Some p)],
       sr_pending := AList.update k \<lparr>pu_count = pu_count u + 1, pu_bytes = pu_bytes u + b\<rparr> (sr_pending st),
       sr_tails := AList.update k ?i (sr_tails st)\<rparr>"
    have run: "snd (sr_run k n st) =
        (if pu_count u \<ge> sr_maxCommands st \<or> b > sr_maxBytes st - pu_bytes u then st else ?st)"
      by (simp add: sr_run_def Some prev u_def [symmetric] Let_def)
    show ?thesis
    proof (cases "pu_count u \<ge> sr_maxCommands st \<or> b > sr_maxBytes st - pu_bytes u")
      case False
      have opens: "opens_ok ?st \<and> open_keys ?st = open_keys st"
        using ok by (intro opens_append) (auto simp: serialiser_ok_iff)
      have "lane_ok (sr_maxCommands st) (sr_maxBytes st) ((view st k)
          \<lparr>v_line := v_line (view st k) @ [(?i, new_command k False b (Some p))], v_tail := Some ?i,
           v_pending := Some \<lparr>pu_count = pu_count u + 1, pu_bytes = pu_bytes u + b\<rparr>\<rparr>)"
        by (rule lane_accept [OF ok_lane [OF ok] _ b]) (use False prev u_def in \<open>auto simp: view_def\<close>)
      also have "(view st k)
          \<lparr>v_line := v_line (view st k) @ [(?i, new_command k False b (Some p))], v_tail := Some ?i,
           v_pending := Some \<lparr>pu_count = pu_count u + 1, pu_bytes = pu_bytes u + b\<rparr>\<rparr> = view ?st k"
        using opens by (simp add: view_def line_of_append new_command_def)
      finally have "serialiser_ok ?st"
        by (intro ok_step [OF ok, where k = k])
          (use ok opens tail_command [OF ok prev] in
            \<open>auto simp: view_def line_of_append new_command_def serialiser_ok_iff intro: prevs_append\<close>)
      then show ?thesis using False by (simp add: run)
    qed (use ok run in simp)
  next
    case None
    let ?c = "(new_command k False b None)\<lparr>cmd_stage := Called\<rparr>"
    let ?st = "st\<lparr>sr_commands := sr_commands st @ [?c], sr_active := AList.update k ?i (sr_active st), sr_open := ?i # sr_open st\<rparr>"
    have run: "snd (sr_run k n st) = ?st"
      by (simp add: sr_run_def Some None invoke_def set_stage_def new_command_def Let_def)
    have k: "k \<notin> open_keys st" using assms(2) by simp
    have opens: "opens_ok ?st" "open_keys ?st = insert k (open_keys st)"
      using ok k by (auto simp: serialiser_ok_iff opens_ok_def open_keys_def stage_of_def nth_append new_command_def
          cong: map_cong image_cong_simp)
    have tl: "v_line (view st k) = []" "v_tail (view st k) = None"
      using ok_lane [OF ok, of k] None k by (auto simp: lane_ok_def view_def split: if_splits)
    have "lane_ok (sr_maxCommands st) (sr_maxBytes st) ((view st k)\<lparr>v_line := [(?i, ?c)], v_active := Some ?i, v_open := True\<rparr>)"
      by (rule lane_start [OF ok_lane [OF ok] tl(2) _ b]) (use k in \<open>simp add: view_def\<close>)
    also have "(view st k)\<lparr>v_line := [(?i, ?c)], v_active := Some ?i, v_open := True\<rparr> = view ?st k"
      using opens(2) tl(1) by (simp add: view_def line_of_append new_command_def)
    finally have "serialiser_ok ?st"
      by (intro ok_step [OF ok, where k = k])
        (use ok opens in \<open>auto simp: view_def line_of_append new_command_def serialiser_ok_iff intro: prevs_append\<close>)
    then show ?thesis by (simp add: run)
  qed
qed

lemma ok_run_returns:
  assumes ok: "serialiser_ok st"
  shows "serialiser_ok (run_returns st)"
proof (cases "sr_open st")
  case Nil
  then show ?thesis using ok by (simp add: run_returns_def)
next
  case (Cons i others)
  let ?k = "cmd_key (sr_commands st ! i)"
  have i: "i < length (sr_commands st)" "stage_of st i = Called" and k: "?k \<in> open_keys st"
    using ok Cons by (auto simp: serialiser_ok_iff opens_ok_def open_keys_def)
  have keys: "open_keys (run_returns st) = open_keys st - {?k}"
    using ok Cons by (auto simp: run_returns_def open_keys_def serialiser_ok_iff opens_ok_def)
  have "lane_ok (sr_maxCommands st) (sr_maxBytes st) ((view st ?k)\<lparr>v_open := False, v_tail := Some i\<rparr>)"
    by (rule lane_return [OF ok_lane [OF ok] _ in_line [OF i(1)]]) (use k i in \<open>auto simp: view_def\<close>)
  also have "(view st ?k)\<lparr>v_open := False, v_tail := Some i\<rparr> = view (run_returns st) ?k"
    using keys Cons by (simp add: view_def run_returns_def)
  finally show ?thesis
    by (rule ok_step [OF ok, rotated 2])
      (use keys Cons ok in \<open>auto simp: view_def run_returns_def serialiser_ok_iff opens_ok_def stage_of_def\<close>)
qed

lemma ok_control:
  assumes ok: "serialiser_ok st" and "call_ok (Control k) st"
  shows "serialiser_ok (snd (serialiseControl k st))"
proof (cases "map_of (sr_controls st) k")
  case (Some i)
  then show ?thesis using ok by (simp add: serialiseControl_def)
next
  case None
  let ?i = "length (sr_commands st)"
  let ?c = "new_command k True 0 (map_of (sr_tails st) k)"
  let ?st = "st\<lparr>sr_commands := sr_commands st @ [?c], sr_controls := AList.update k ?i (sr_controls st),
     sr_tails := AList.update k ?i (sr_tails st)\<rparr>"
  have opens: "opens_ok ?st \<and> open_keys ?st = open_keys st"
    using ok by (intro opens_append) (auto simp: serialiser_ok_iff)
  have "lane_ok (sr_maxCommands st) (sr_maxBytes st) ((view st k)
      \<lparr>v_line := v_line (view st k) @ [(?i, new_command k True 0 (v_tail (view st k)))], v_tail := Some ?i, v_control := Some ?i\<rparr>)"
    by (rule lane_control [OF ok_lane [OF ok]]) (use None assms(2) in \<open>auto simp: view_def\<close>)
  also have "(view st k)
      \<lparr>v_line := v_line (view st k) @ [(?i, new_command k True 0 (v_tail (view st k)))], v_tail := Some ?i, v_control := Some ?i\<rparr>
      = view ?st k"
    using opens by (simp add: view_def line_of_append new_command_def)
  finally have "serialiser_ok ?st"
    by (intro ok_step [OF ok, where k = k])
      (use ok opens tail_command [OF ok] in
        \<open>auto simp: view_def line_of_append new_command_def serialiser_ok_iff intro!: prevs_append\<close>)
  then show ?thesis by (simp add: serialiseControl_def None Let_def)
qed

lemma ok_cancel: "serialiser_ok st \<Longrightarrow> serialiser_ok (snd (cancelActive k st))"
  by (auto simp: cancelActive_def serialiser_ok_iff view_def open_keys_def opens_ok_def stage_of_def split: option.split)

section \<open>Microtasks keep the invariant\<close>

lemma distinct_line: "distinct (map fst (v_line (view st k)))"
  using sorted_line [of "sr_commands st" k] by (simp add: view_def strict_sorted_iff)

lemma line_unsettled: "x \<in> set (v_line (view st k)) \<Longrightarrow> cmd_stage (snd x) \<noteq> Settled"
  by (cases x) (auto simp: view_def set_line_of)

lemma line_command: "(i, c) \<in> set (v_line (view st k)) \<Longrightarrow> i < length (sr_commands st) \<and> c = sr_commands st ! i \<and> cmd_key c = k"
  by (auto simp: view_def set_line_of)

lemma sr_set_stage [simp]:
  "sr_commands (set_stage i s st) = (sr_commands st)[i := (sr_commands st ! i)\<lparr>cmd_stage := s\<rparr>]"
  "sr_tails (set_stage i s st) = sr_tails st" "sr_active (set_stage i s st) = sr_active st"
  "sr_pending (set_stage i s st) = sr_pending st" "sr_controls (set_stage i s st) = sr_controls st"
  "sr_open (set_stage i s st) = sr_open st" "sr_maxCommands (set_stage i s st) = sr_maxCommands st"
  "sr_maxBytes (set_stage i s st) = sr_maxBytes st"
  by (simp_all add: set_stage_def)

text \<open>What one microtask does to the lanes, given what it does to the maps of its key.\<close>

lemma ok_stage_step:
  assumes ok: "serialiser_ok st" and o: "sr_open st = []" and i: "i < length (sr_commands st)"
    and h: "v_line (view st k) = (i, sr_commands st ! i) # r"
    and st': "st' = set_stage i s st1" and st1: "sr_commands st1 = sr_commands st" "sr_open st1 = []"
      "sr_maxCommands st1 = sr_maxCommands st" "sr_maxBytes st1 = sr_maxBytes st"
    and maps: "\<And>k'. k' \<noteq> k \<Longrightarrow> map_of (sr_tails st1) k' = map_of (sr_tails st) k' \<and> map_of (sr_active st1) k' = map_of (sr_active st) k'
        \<and> map_of (sr_pending st1) k' = map_of (sr_pending st) k' \<and> map_of (sr_controls st1) k' = map_of (sr_controls st) k'"
    and lane: "lane_ok (sr_maxCommands st) (sr_maxBytes st)
       \<lparr>v_line = (if s = Settled then r else (i, (sr_commands st ! i)\<lparr>cmd_stage := s\<rparr>) # r),
        v_tail = map_of (sr_tails st1) k, v_active = map_of (sr_active st1) k, v_pending = map_of (sr_pending st1) k,
        v_control = map_of (sr_controls st1) k, v_open = False\<rparr>"
  shows "serialiser_ok st'"
proof -
  have k: "cmd_key (sr_commands st ! i) = k" and u: "cmd_stage (sr_commands st ! i) \<noteq> Settled"
    using line_command [of i _ st k] line_unsettled [of _ st k] h by fastforce+
  have "upd_line i s (line_of (sr_commands st) k) =
      (if s = Settled then r else (i, (sr_commands st ! i)\<lparr>cmd_stage := s\<rparr>) # r)"
  proof -
    have "line_of (sr_commands st) k = (i, sr_commands st ! i) # r" using h by (simp add: view_def)
    moreover have "distinct (map fst ((i, sr_commands st ! i) # r))" using distinct_line [of st k] h by simp
    moreover have "\<forall>x \<in> set r. cmd_stage (snd x) \<noteq> Settled" using line_unsettled [of _ st k] h by auto
    ultimately show ?thesis by (simp only: upd_line_head)
  qed
  then have here: "lane_ok (sr_maxCommands st) (sr_maxBytes st) (view st' k)"
    using lane by (simp add: view_def line_of_set_stage [OF i u] open_keys_def st' st1)
  have other: "view st' k' = view st k'" if "k' \<noteq> k" for k'
  proof -
    have "i \<notin> fst ` set (line_of (sr_commands st) k')" using k that by (auto simp: set_line_of)
    then have "upd_line i s (line_of (sr_commands st) k') = line_of (sr_commands st) k'"
      by (rule upd_line_other) (auto simp: set_line_of)
    then show ?thesis using maps [OF that] by (simp add: view_def line_of_set_stage [OF i u] open_keys_def st' st1 o)
  qed
  show ?thesis
    by (rule ok_step [OF ok _ _ here other])
      (use ok in \<open>simp_all add: st' st1 opens_ok_def serialiser_ok_iff prevs_set_stage\<close>)
qed

lemma invoke_head:
  assumes ok: "serialiser_ok st" and e: "tick_enabled (Invoke i) st"
  shows "\<exists>r. v_line (view st (cmd_key (sr_commands st ! i))) = (i, sr_commands st ! i) # r"
proof -
  let ?l = "v_line (view st (cmd_key (sr_commands st ! i)))"
  have m: "(i, sr_commands st ! i) \<in> set ?l" using e by (intro in_line) auto
  obtain x r where l: "?l = x # r" using m by (cases ?l) auto
  have "(i, sr_commands st ! i) \<notin> set r"
  proof
    assume "(i, sr_commands st ! i) \<in> set r"
    moreover have "linked (x # r)" using ok_lane [OF ok] l by (metis lane_ok_def)
    ultimately obtain z where z: "z \<in> set ?l" "cmd_prev (sr_commands st ! i) = Some (fst z)"
      using linked_pred l by fastforce
    then have "cmd_stage (snd z) \<noteq> Settled" "snd z = sr_commands st ! fst z"
      using line_unsettled line_command by (metis, metis prod.collapse)
    with e z show False by (simp add: stage_of_def)
  qed
  with m l show ?thesis by auto
qed

lemma later_head:
  assumes ok: "serialiser_ok st" and "i < length (sr_commands st)" and "stage_of st i \<notin> {Waiting, Settled}"
  shows "\<exists>r. v_line (view st (cmd_key (sr_commands st ! i))) = (i, sr_commands st ! i) # r"
  by (rule lane_head [OF ok_lane [OF ok] in_line]) (use assms in \<open>auto simp: stage_of_def\<close>)

lemma release_pending_map:
  assumes "map_of (sr_pending st) k = Some \<lparr>pu_count = 1 + int (length w), pu_bytes = b + sum_list (map cmd_bytes w)\<rparr>"
  shows "map_of (sr_pending (release_pending k b st)) = (map_of (sr_pending st))(k := usage_of w)"
  using assms by (auto simp: release_pending_def usage_of_def)

lemma release_pending_fields [simp]:
  "sr_commands (release_pending k b st) = sr_commands st" "sr_open (release_pending k b st) = sr_open st"
  "sr_tails (release_pending k b st) = sr_tails st" "sr_controls (release_pending k b st) = sr_controls st"
  "sr_active (release_pending k b st) = sr_active st" "sr_maxCommands (release_pending k b st) = sr_maxCommands st"
  "sr_maxBytes (release_pending k b st) = sr_maxBytes st"
  by (simp_all add: release_pending_def Let_def split: option.split)

lemma ok_invoke:
  assumes ok: "serialiser_ok st" and e: "tick_enabled (Invoke i) st"
  shows "serialiser_ok (invoke i st)"
proof -
  let ?c = "sr_commands st ! i" let ?k = "cmd_key ?c"
  obtain r where h: "v_line (view st ?k) = (i, ?c) # r" using invoke_head [OF ok e] by blast
  have e': "sr_open st = []" "i < length (sr_commands st)" and w: "cmd_stage ?c = Waiting"
    using e by (simp_all add: stage_of_def)
  note lane = ok_lane [OF ok, of ?k]
  show ?thesis
  proof (cases "cmd_control ?c")
    case True
    from lane_invoke_control [OF lane h w True]
    show ?thesis
      by (intro ok_stage_step [OF ok e' h, where s = Called and ?st1.0 = st])
        (use True e' in \<open>simp_all add: invoke_def Let_def view_def open_keys_def\<close>)
  next
    case False
    have "command_ok ?c" using lane h by (simp add: lane_ok_def)
    then have p: "cmd_prev ?c \<noteq> None" using False w by (simp add: command_ok_def)
    note l = lane_invoke [OF lane h w False]
    let ?st1 = "(release_pending ?k (cmd_bytes ?c) st)\<lparr>sr_active := AList.update ?k i (sr_active st)\<rparr>"
    have m: "map_of (sr_pending ?st1) = (map_of (sr_pending st))(?k := usage_of (waiting_ordinary r))"
      using release_pending_map [of st ?k "waiting_ordinary r" "cmd_bytes ?c"] l(2) by (simp add: view_def)
    show ?thesis
      by (rule ok_stage_step [OF ok e' h, where s = Called and ?st1.0 = ?st1])
        (use False p e' l(1) m in \<open>simp_all add: invoke_def Let_def view_def open_keys_def\<close>)
  qed
qed

lemma ok_tick:
  assumes ok: "serialiser_ok st" and e: "tick_enabled t st"
  shows "serialiser_ok (tick t st)"
proof (cases t)
  case (Invoke i)
  then show ?thesis using ok_invoke [OF ok] e by simp
next
  case (Return i)
  then have e': "sr_open st = []" "i < length (sr_commands st)" "cmd_stage (sr_commands st ! i) = Called"
    using e by (simp_all add: stage_of_def)
  obtain r where h: "v_line (view st (cmd_key (sr_commands st ! i))) = (i, sr_commands st ! i) # r"
    using later_head [OF ok e'(2)] e' by (auto simp: stage_of_def)
  from lane_returned [OF ok_lane [OF ok] h e'(3)] show ?thesis
    by (intro ok_stage_step [OF ok e'(1,2) h, where s = Returned and ?st1.0 = st])
      (use Return e' in \<open>simp_all add: view_def open_keys_def\<close>)
next
  case (Finally i)
  let ?k = "cmd_key (sr_commands st ! i)"
  have e': "sr_open st = []" "i < length (sr_commands st)" "cmd_stage (sr_commands st ! i) = Returned"
    "\<not> cmd_control (sr_commands st ! i)"
    using e Finally by (simp_all add: stage_of_def)
  obtain r where h: "v_line (view st ?k) = (i, sr_commands st ! i) # r"
    using later_head [OF ok e'(2)] e' by (auto simp: stage_of_def)
  note l = lane_finally [OF ok_lane [OF ok] h e'(3,4)]
  then have a: "map_of (sr_active st) ?k = Some i" by (simp add: view_def)
  from l(1) show ?thesis
    by (intro ok_stage_step [OF ok e'(1,2) h, where s = Finalised
          and ?st1.0 = "st\<lparr>sr_active := AList.delete ?k (sr_active st)\<rparr>"])
      (use Finally e' a in \<open>simp_all add: run_finally_def Let_def view_def open_keys_def\<close>)
next
  case (Settle i)
  let ?c = "sr_commands st ! i" let ?k = "cmd_key ?c"
  have e': "sr_open st = []" "i < length (sr_commands st)" "cmd_stage ?c = (if cmd_control ?c then Returned else Finalised)"
    using e Settle by (simp_all add: stage_of_def)
  obtain r where h: "v_line (view st ?k) = (i, ?c) # r"
    using later_head [OF ok e'(2)] e'(3) by (cases "cmd_control ?c") (auto simp: stage_of_def)
  let ?st1 = "st\<lparr>sr_controls := (if cmd_control ?c then delete_own ?k i (sr_controls st) else sr_controls st),
            sr_tails := delete_own ?k i (sr_tails st)\<rparr>"
  have d: "map_of (delete_own k j m) k' = (if k' = k \<and> map_of m k = Some j then None else map_of m k')" for k j m k'
    by (simp add: delete_own_def)
  from lane_settle [OF ok_lane [OF ok] h distinct_line e'(3)] show ?thesis
    by (intro ok_stage_step [OF ok e'(1,2) h, where s = Settled and ?st1.0 = ?st1])
      (use Settle e' in \<open>auto simp: settle_def Let_def view_def open_keys_def d split: if_splits\<close>)
qed

lemma ok_new: "new_serialiser mc mb = Some st \<Longrightarrow> serialiser_ok st"
  by (auto simp: new_serialiser_def serialiser_ok_def lane_ok_def view_def line_of_def active_of_def prevs_ok_def open_keys_def
      MAX_PENDING_SESSION_COMMANDS_def MAX_PENDING_SESSION_COMMAND_BYTES_def
      dest!: safe_size_nonneg split: option.splits)

lemma run_ok: "serialiser_run st \<Longrightarrow> serialiser_ok st"
proof (induction rule: serialiser_run.induct)
  case (calls st c)
  then show ?case
    by (cases c) (simp_all add: ok_run ok_run_returns ok_control ok_cancel)
qed (auto simp: ok_new ok_tick)

section \<open>Order and exclusion\<close>

definition started_in_order :: "serialiser \<Rightarrow> bool" where
  "started_in_order st \<longleftrightarrow> (\<forall>i j. i < j \<and> j < length (sr_commands st) \<and>
     cmd_key (sr_commands st ! i) = cmd_key (sr_commands st ! j) \<and> stage_of st j \<noteq> Waiting \<longrightarrow> stage_of st i = Settled)"

lemma head_least:
  assumes "v_line (view st k) = (j, c) # r" and "i < j" and "cmd_key (sr_commands st ! i) = k"
  shows "stage_of st i = Settled"
proof (rule ccontr)
  assume u: "stage_of st i \<noteq> Settled"
  have "j < length (sr_commands st)" using line_command [of j c st k] assms(1) by simp
  with u assms(2,3) have "(i, sr_commands st ! i) \<in> set (v_line (view st k))"
    by (simp add: view_def set_line_of stage_of_def)
  then have "(i, sr_commands st ! i) \<in> set r" using assms(1,2) by (simp only: assms(1)) auto
  moreover have "sorted_wrt (<) (map fst ((j, c) # r))"
    using sorted_line [of "sr_commands st" k] assms(1) by (simp add: view_def)
  ultimately show False using assms(2) by fastforce
qed

lemma order_append:
  assumes "started_in_order st" and "sr_commands st' = sr_commands st @ [c]"
    and "cmd_stage c = Waiting \<or> line_of (sr_commands st) (cmd_key c) = []"
  shows "started_in_order st'"
proof -
  have "stage_of st i = Settled" if "cmd_stage c \<noteq> Waiting" "i < length (sr_commands st)" "cmd_key (sr_commands st ! i) = cmd_key c" for i
    using assms(3) that set_line_of [of i "sr_commands st ! i" "sr_commands st" "cmd_key c"] by (auto simp: stage_of_def)
  with assms(1) show ?thesis
    by (auto simp: started_in_order_def assms(2) stage_of_def nth_append less_Suc_eq)
qed

lemma order_set_stage:
  assumes "started_in_order st" and "sr_commands st1 = sr_commands st" and i: "i < length (sr_commands st)"
    and "\<And>i'. i' < i \<Longrightarrow> cmd_key (sr_commands st ! i') = cmd_key (sr_commands st ! i) \<Longrightarrow> stage_of st i' = Settled"
    and "stage_of st i \<noteq> Settled"
  shows "started_in_order (set_stage i s st1)"
proof -
  have c: "cmd_key (sr_commands (set_stage i s st1) ! j) = cmd_key (sr_commands st ! j)"
    "stage_of (set_stage i s st1) j = (if j = i then s else stage_of st j)" for j
    using i by (simp_all add: assms(2) stage_of_def nth_list_update)
  show ?thesis
    using assms(1,4,5) i unfolding started_in_order_def c by (simp add: assms(2)) (metis (no_types))
qed

lemma order_tick:
  assumes o: "started_in_order st" and ok: "serialiser_ok st" and e: "tick_enabled t st"
  shows "started_in_order (tick t st)"
proof -
  have head: "\<exists>r. v_line (view st (cmd_key (sr_commands st ! i))) = (i, sr_commands st ! i) # r"
    if "t = Invoke i \<or> t = Return i \<or> t = Finally i \<or> t = Settle i" for i
    using that e invoke_head [OF ok, of i] later_head [OF ok, of i] by (auto split: if_splits)
  have step: "started_in_order (set_stage i s st1)"
    if i: "t = Invoke i \<or> t = Return i \<or> t = Finally i \<or> t = Settle i" and st1: "sr_commands st1 = sr_commands st" for i s st1
  proof -
    obtain r where h: "v_line (view st (cmd_key (sr_commands st ! i))) = (i, sr_commands st ! i) # r" using head [OF i] by blast
    have "i < length (sr_commands st)" "stage_of st i \<noteq> Settled" using i e by (auto split: if_splits)
    then show ?thesis
      by (intro order_set_stage [OF o st1]) (use head_least [OF h] in auto)
  qed
  show ?thesis
    by (cases t) (auto simp: invoke_def run_finally_def settle_def Let_def intro!: step)
qed

lemma order_run:
  assumes o: "started_in_order st" and ok: "serialiser_ok st" and c: "call_ok (Run k n) st"
  shows "started_in_order (snd (sr_run k n st))"
proof (cases "safe_size n")
  case (Some b)
  show ?thesis
  proof (cases "map_of (sr_tails st) k")
    case None
    then have "line_of (sr_commands st) k = []"
      using ok_lane [OF ok, of k] c by (auto simp: lane_ok_def view_def split: if_splits)
    then show ?thesis
      by (intro order_append [OF o, where c = "(new_command k False b None)\<lparr>cmd_stage := Called\<rparr>"])
        (simp_all add: sr_run_def Some None Let_def invoke_def set_stage_def new_command_def)
  next
    case prev: (Some p)
    have "snd (sr_run k n st) = st \<or> sr_commands (snd (sr_run k n st)) = sr_commands st @ [new_command k False b (Some p)]"
      by (simp add: sr_run_def Some prev Let_def)
    then show ?thesis
      by (elim disjE) (use o in \<open>auto intro!: order_append [OF o] simp: new_command_def\<close>)
  qed
qed (use o in \<open>simp add: sr_run_def\<close>)

lemma order_ok: "serialiser_run st \<Longrightarrow> started_in_order st"
proof (induction rule: serialiser_run.induct)
  case (start mc mb st)
  then show ?case by (auto simp: new_serialiser_def started_in_order_def split: option.splits)
next
  case (calls st c)
  show ?case
  proof (cases c)
    case (Run k n)
    then show ?thesis using order_run [OF calls.IH run_ok [OF calls.hyps(1)]] calls.hyps(2) by simp
  next
    case (Control k)
    have "serialiseControl k st = (fst (serialiseControl k st), st) \<or>
        sr_commands (snd (serialiseControl k st)) = sr_commands st @ [new_command k True 0 (map_of (sr_tails st) k)]"
      by (simp add: serialiseControl_def Let_def split: option.split)
    then show ?thesis unfolding Control perform.simps
      by (elim disjE) (use calls.IH in \<open>metis snd_conv, auto intro!: order_append [OF calls.IH] simp: new_command_def\<close>)
  next
    case (Cancel k)
    then show ?thesis
      using calls.IH by (auto simp: cancelActive_def started_in_order_def stage_of_def split: option.split)
  next
    case Run_returns
    then show ?thesis
      using calls.IH by (auto simp: run_returns_def started_in_order_def stage_of_def split: list.split)
  qed
next
  case (ticks st t)
  then show ?case by (simp add: order_tick run_ok)
qed

text \<open>Per session, commands start one at a time and in the order in which they were accepted:
  when a command has been called, every earlier command of its key has settled. In particular no
  two commands of a key run at once, and a failed command does not stop the next one.\<close>
theorem commands_one_at_a_time:
  assumes "serialiser_run st" and "i < j" and "j < length (sr_commands st)"
    and "cmd_key (sr_commands st ! i) = cmd_key (sr_commands st ! j)" and "stage_of st j \<noteq> Waiting"
  shows "stage_of st i = Settled"
  using order_ok [OF assms(1)] assms(2-) by (auto simp: started_in_order_def)

section \<open>What is kept for a session\<close>

definition commands_of :: "serialiser \<Rightarrow> string \<Rightarrow> command list" where
  "commands_of st k = filter (\<lambda>c. cmd_key c = k \<and> cmd_stage c \<noteq> Settled) (sr_commands st)"

lemma commands_of_view: "map snd (v_line (view st k)) = commands_of st k"
proof -
  have "map snd (filter (P \<circ> snd) (enumerate n cs)) = filter P cs" for P :: "command \<Rightarrow> bool" and n cs
    by (simp add: filter_map [symmetric])
  from this [of "\<lambda>c. cmd_key c = k \<and> cmd_stage c \<noteq> Settled" 0 "sr_commands st"] show ?thesis
    by (simp add: view_def line_of_def commands_of_def comp_def case_prod_unfold)
qed

lemma waiting_commands_bounded_facts:
  assumes "serialiser_run st"
    and "waiting = filter (\<lambda>c. cmd_stage c = Waiting \<and> \<not> cmd_control c) (commands_of st k)"
  shows "int (length waiting) \<le> sr_maxCommands st"
    and "sum_list (map cmd_bytes waiting) \<le> sr_maxBytes st"
    and "map_of (sr_pending st) k = (if waiting = [] then None
           else Some \<lparr>pu_count = int (length waiting), pu_bytes = sum_list (map cmd_bytes waiting)\<rparr>)"
    and "sr_open st = [] \<longrightarrow> (sr_has k st \<longleftrightarrow> commands_of st k \<noteq> [])"
    and "length (filter cmd_control (commands_of st k)) \<le> 1"
    and "(map_of (sr_controls st) k \<noteq> None) = (filter cmd_control (commands_of st k) \<noteq> [])"
    and "(map_of (sr_active st) k \<noteq> None) =
           (\<exists>c \<in> set (commands_of st k). \<not> cmd_control c \<and> cmd_stage c \<in> {Called, Returned})"
proof -
  let ?v = "view st k"
  have w: "waiting_ordinary (v_line ?v) = waiting"
    by (simp add: waiting_ordinary_def commands_of_view assms(2))
  have c: "length (controls_in (v_line ?v)) = length (filter cmd_control (commands_of st k))"
    by (simp add: controls_in_def commands_of_view [symmetric] filter_map comp_def)
  then have c0: "controls_in (v_line ?v) = [] \<longleftrightarrow> filter cmd_control (commands_of st k) = []"
    by (metis length_0_conv)
  have ne: "v_line ?v = [] \<longleftrightarrow> commands_of st k = []" by (simp add: commands_of_view [symmetric])
  from ok_lane [OF run_ok [OF assms(1)], of k]
  have l: "linked (v_line ?v)" "v_active ?v = active_of (v_line ?v)" "v_pending ?v = usage_of waiting"
    "v_tail ?v = (if v_open ?v \<or> v_line ?v = [] then None else Some (fst (last (v_line ?v))))"
    "v_control ?v = (case controls_in (v_line ?v) of [] \<Rightarrow> None | i # _ \<Rightarrow> Some i)"
    "int (length waiting) \<le> sr_maxCommands st" "sum_list (map cmd_bytes waiting) \<le> sr_maxBytes st"
    "length (controls_in (v_line ?v)) \<le> 1"
    by (simp_all add: lane_ok_def w)
  show "int (length waiting) \<le> sr_maxCommands st" "sum_list (map cmd_bytes waiting) \<le> sr_maxBytes st"
    by (rule l)+
  show "map_of (sr_pending st) k = (if waiting = [] then None
      else Some \<lparr>pu_count = int (length waiting), pu_bytes = sum_list (map cmd_bytes waiting)\<rparr>)"
    using l(3) by (simp add: view_def usage_of_def)
  show "sr_open st = [] \<longrightarrow> (sr_has k st \<longleftrightarrow> commands_of st k \<noteq> [])"
  proof
    assume "sr_open st = []"
    then have "\<not> v_open ?v" by (simp add: view_def open_keys_def)
    moreover have "sr_has k st \<longleftrightarrow> v_tail ?v \<noteq> None" by (simp add: view_def sr_has_def)
    ultimately show "sr_has k st \<longleftrightarrow> commands_of st k \<noteq> []" unfolding ne [symmetric] l(4) by simp
  qed
  show "length (filter cmd_control (commands_of st k)) \<le> 1" using l(8) c by simp
  show "(map_of (sr_controls st) k \<noteq> None) = (filter cmd_control (commands_of st k) \<noteq> [])"
    unfolding c0 [symmetric] using l(5) by (cases "controls_in (v_line ?v)") (simp_all add: view_def)
  show "(map_of (sr_active st) k \<noteq> None) =
      (\<exists>c \<in> set (commands_of st k). \<not> cmd_control c \<and> cmd_stage c \<in> {Called, Returned})"
  proof (cases "v_line ?v")
    case Nil
    then show ?thesis using l(2) ne by (simp add: view_def active_of_def)
  next
    case (Cons x r)
    then have "\<forall>y \<in> set r. cmd_stage (snd y) = Waiting" using l(1) by (auto dest: linked_Cons)
    moreover have "commands_of st k = snd x # map snd r" by (simp add: commands_of_view [symmetric] Cons)
    moreover have "map_of (sr_active st) k = active_of (x # r)" using l(2) Cons by (simp add: view_def)
    ultimately show ?thesis by (cases x) (auto simp: active_of_def)
  qed
qed

text \<open>What waits behind the running command of a session stays within both limits, the usage the
  admission test reads is exact, and an idle session keeps nothing: a key has a tail exactly while
  one of its commands has not settled, at most one of these is a control command, and the active
  entry is the running ordinary command.\<close>
theorem waiting_commands_bounded:
  assumes "serialiser_run st"
    and "waiting = filter (\<lambda>c. cmd_stage c = Waiting \<and> \<not> cmd_control c) (commands_of st k)"
  shows "(int (length waiting) \<le> sr_maxCommands st) \<and>
    (sum_list (map cmd_bytes waiting) \<le> sr_maxBytes st) \<and>
    (map_of (sr_pending st) k = (if waiting = [] then None
           else Some \<lparr>pu_count = int (length waiting), pu_bytes = sum_list (map cmd_bytes waiting)\<rparr>)) \<and>
    (sr_open st = [] \<longrightarrow> (sr_has k st \<longleftrightarrow> commands_of st k \<noteq> [])) \<and>
    (length (filter cmd_control (commands_of st k)) \<le> 1) \<and>
    ((map_of (sr_controls st) k \<noteq> None) = (filter cmd_control (commands_of st k) \<noteq> [])) \<and>
    ((map_of (sr_active st) k \<noteq> None) =
           (\<exists>c \<in> set (commands_of st k). \<not> cmd_control c \<and> cmd_stage c \<in> {Called, Returned}))"
  by (intro conjI waiting_commands_bounded_facts [OF assms])

section \<open>The queue drains\<close>

fun remaining :: "stage \<Rightarrow> nat" where
  "remaining Waiting = 4"
| "remaining Called = 3"
| "remaining Returned = 2"
| "remaining Finalised = 1"
| "remaining Settled = 0"

definition work :: "serialiser \<Rightarrow> nat" where
  "work st = sum_list (map (remaining \<circ> cmd_stage) (sr_commands st))"

fun run_ticks :: "microtask list \<Rightarrow> serialiser \<Rightarrow> serialiser option" where
  "run_ticks [] st = Some st"
| "run_ticks (t # ts) st = (if tick_enabled t st then run_ticks ts (tick t st) else None)"

lemma work_set_stage:
  assumes "i < length (sr_commands st)" and "sr_commands st1 = sr_commands st" and "remaining s < remaining (stage_of st i)"
  shows "work (set_stage i s st1) < work st"
proof -
  let ?f = "remaining \<circ> cmd_stage"
  have "map ?f (sr_commands (set_stage i s st1)) = (map ?f (sr_commands st))[i := remaining s]"
    by (simp add: assms(2) map_update)
  moreover have "sum_list ((map ?f (sr_commands st))[i := remaining s]) + ?f (sr_commands st ! i) =
      sum_list (map ?f (sr_commands st)) + remaining s"
    using assms(1) elem_le_sum_list [of i "map ?f (sr_commands st)"] by (simp add: sum_list_update)
  ultimately show ?thesis using assms(3) by (simp add: work_def stage_of_def)
qed

lemma work_tick: "tick_enabled t st \<Longrightarrow> work (tick t st) < work st"
  by (cases t) (auto simp: invoke_def run_finally_def settle_def Let_def intro!: work_set_stage split: if_splits)

lemma open_tick: "sr_open (tick t st) = sr_open st"
  by (cases t) (simp_all add: invoke_def run_finally_def settle_def Let_def)

lemma tick_progress:
  assumes ok: "serialiser_ok st" and o: "sr_open st = []" and u: "j < length (sr_commands st)" "stage_of st j \<noteq> Settled"
  shows "\<exists>t. tick_enabled t st"
proof -
  obtain i c r where h: "v_line (view st (cmd_key (sr_commands st ! j))) = (i, c) # r"
    using in_line [OF u] by (cases "v_line (view st (cmd_key (sr_commands st ! j)))") auto
  have i: "i < length (sr_commands st)" "c = sr_commands st ! i" "cmd_key c = cmd_key (sr_commands st ! j)"
    using line_command [of i c st "cmd_key (sr_commands st ! j)"] h by auto
  have ok_c: "command_ok c" using ok_lane [OF ok, of "cmd_key (sr_commands st ! j)"] h by (simp add: lane_ok_def)
  show ?thesis
  proof (cases "cmd_stage c")
    case Waiting
    have "stage_of st p = Settled" if "cmd_prev c = Some p" for p
    proof -
      have "p < i" "cmd_key (sr_commands st ! p) = cmd_key c"
        using ok i that by (auto simp: serialiser_ok_iff prevs_ok_def)
      then show ?thesis by (intro head_least [OF h]) (use i(3) in simp_all)
    qed
    then have "tick_enabled (Invoke i) st"
      using o i(1,2) Waiting by (simp add: stage_of_def split: option.split)
    then show ?thesis ..
  next
    case Called
    then have "tick_enabled (Return i) st" using o i by (simp add: stage_of_def)
    then show ?thesis ..
  next
    case Returned
    then have "tick_enabled (if cmd_control c then Settle i else Finally i) st" using o i by (simp add: stage_of_def)
    then show ?thesis ..
  next
    case Finalised
    then have "tick_enabled (Settle i) st" using o i ok_c by (simp add: stage_of_def command_ok_def)
    then show ?thesis ..
  next
    case Settled
    then show ?thesis using line_unsettled [of "(i, c)" st "cmd_key (sr_commands st ! j)"] h by auto
  qed
qed

lemma alist_empty:
  assumes "\<And>k. map_of m k = None"
  shows "m = []"
  using assms [of "fst (hd m)"] by (cases m) auto

lemma command_queue_drains_facts:
  assumes "serialiser_run st" and "sr_open st = []"
  shows "run_ticks ts st \<noteq> None \<longrightarrow> length ts \<le> 4 * length (sr_commands st)"
    and "\<exists>ts st'. run_ticks ts st = Some st' \<and> (\<forall>c \<in> set (sr_commands st'). cmd_stage c = Settled) \<and>
           sr_tails st' = [] \<and> sr_active st' = [] \<and> sr_pending st' = [] \<and> sr_controls st' = []"
proof -
  have "run_ticks ts st \<noteq> None \<Longrightarrow> length ts \<le> work st"
  proof (induction ts arbitrary: st)
    case (Cons t ts)
    then have "tick_enabled t st" "length ts \<le> work (tick t st)" by (auto split: if_splits)
    with work_tick [of t st] show ?case by simp
  qed simp
  moreover have "work st \<le> 4 * length (sr_commands st)"
  proof -
    have "remaining s \<le> 4" for s by (cases s) auto
    then have "sum_list (map (remaining \<circ> cmd_stage) cs) \<le> 4 * length cs" for cs
      by (induction cs) (simp_all add: add_mono)
    then show ?thesis by (simp add: work_def)
  qed
  ultimately show "run_ticks ts st \<noteq> None \<longrightarrow> length ts \<le> 4 * length (sr_commands st)"
    using order_trans by blast
  show "\<exists>ts st'. run_ticks ts st = Some st' \<and> (\<forall>c \<in> set (sr_commands st'). cmd_stage c = Settled) \<and>
           sr_tails st' = [] \<and> sr_active st' = [] \<and> sr_pending st' = [] \<and> sr_controls st' = []"
    using assms
  proof (induction "work st" arbitrary: st rule: less_induct)
    case less
    show ?case
    proof (cases "\<forall>c \<in> set (sr_commands st). cmd_stage c = Settled")
      case True
      then have l: "v_line (view st k) = []" for k
        using commands_of_view [of st k] by (simp add: commands_of_def)
      have "map_of (sr_tails st) k = None \<and> map_of (sr_active st) k = None \<and> map_of (sr_pending st) k = None \<and>
          map_of (sr_controls st) k = None" for k
        using ok_lane [OF run_ok [OF less.prems(1)], of k] l [of k]
        by (simp add: lane_ok_def active_of_def) (simp add: view_def)
      then have "sr_tails st = [] \<and> sr_active st = [] \<and> sr_pending st = [] \<and> sr_controls st = []"
        by (auto intro!: alist_empty)
      with True show ?thesis by (intro exI [of _ "[]"]) simp
    next
      case False
      then obtain j where "j < length (sr_commands st)" "stage_of st j \<noteq> Settled"
        by (metis in_set_conv_nth stage_of_def)
      then obtain t where t: "tick_enabled t st"
        using tick_progress [OF run_ok [OF less.prems(1)] less.prems(2)] by blast
      have "serialiser_run (tick t st)" using less.prems(1) t by (rule ticks)
      then obtain ts st' where "run_ticks ts (tick t st) = Some st'" "\<forall>c \<in> set (sr_commands st'). cmd_stage c = Settled"
        "sr_tails st' = [] \<and> sr_active st' = [] \<and> sr_pending st' = [] \<and> sr_controls st' = []"
        using less.hyps [OF work_tick [OF t]] less.prems(2) open_tick by metis
      then show ?thesis using t by (intro exI [of _ "t # ts"] exI [of _ st']) simp
    qed
  qed
qed

text \<open>C40: The queue drains whatever the commands do: as long as some command has not settled and
  no call is on the stack, a microtask is enabled (once the callbacks' promises settle), no sequence
  of microtasks is longer than four per command, and at the end every command has settled and
  nothing is kept for any session.\<close>
theorem command_queue_drains:
  assumes "serialiser_run st" and "sr_open st = []"
  shows "(run_ticks ts st \<noteq> None \<longrightarrow> length ts \<le> 4 * length (sr_commands st)) \<and>
    (\<exists>ts st'. run_ticks ts st = Some st' \<and> (\<forall>c \<in> set (sr_commands st'). cmd_stage c = Settled) \<and>
           sr_tails st' = [] \<and> sr_active st' = [] \<and> sr_pending st' = [] \<and> sr_controls st' = [])"
  by (intro conjI command_queue_drains_facts [OF assms])

section \<open>A run\<close>

datatype move = Call call | Tick microtask

fun run_moves :: "move list \<Rightarrow> serialiser \<Rightarrow> serialiser option" where
  "run_moves [] st = Some st"
| "run_moves (Call c # ms) st = (if call_ok c st then run_moves ms (perform c st) else None)"
| "run_moves (Tick t # ms) st = (if tick_enabled t st then run_moves ms (tick t st) else None)"

lemma serialiser_moves_run: "run_moves ms st = Some st' \<Longrightarrow> serialiser_run st \<Longrightarrow> serialiser_run st'"
  by (induction ms st rule: run_moves.induct) (auto intro: serialiser_run.intros split: if_splits)

text \<open>
  A prompt runs, a second one and a Stop wait behind it, a third is refused; then the second runs.
\<close>

definition ex_moves :: "move list" where
  "ex_moves = [Call (Run ''a'' (Fin 4)), Call Run_returns, Call (Run ''a'' (Fin 3)), Call (Control ''a''), Call (Run ''a'' (Fin 9)),
     Call (Cancel ''a''), Tick (Return 0), Tick (Finally 0), Tick (Settle 0), Tick (Invoke 1)]"

definition ex_state :: serialiser where
  "ex_state = the (run_moves ex_moves (the (new_serialiser (Some (Fin 2)) (Some (Fin 10)))))"

lemma ex_state_facts:
  "new_serialiser (Some (Fin 2)) (Some (Fin 10)) \<noteq> None"
  "run_moves ex_moves (the (new_serialiser (Some (Fin 2)) (Some (Fin 10)))) \<noteq> None"
  "map cmd_stage (sr_commands ex_state) = [Settled, Called, Waiting]"
  "map cmd_key (sr_commands ex_state) = [''a'', ''a'', ''a'']"
  "sr_open ex_state = []"
  by code_simp+

lemma ex_state_run: "serialiser_run ex_state"
  using ex_state_facts(1,2) serialiser_moves_run serialiser_run.start unfolding ex_state_def by (metis option.exhaust_sel)

lemma commands_one_at_a_time_witness: "stage_of ex_state 0 = Settled"
proof -
  have n: "length (sr_commands ex_state) = 3" "cmd_key (sr_commands ex_state ! 0) = cmd_key (sr_commands ex_state ! 1)"
    "stage_of ex_state 1 \<noteq> Waiting"
    by code_simp+
  show ?thesis by (rule commands_one_at_a_time [OF ex_state_run, of 0 1]) (use n in simp_all)
qed

lemma waiting_commands_bounded_witness:
  "length (filter (\<lambda>c. cmd_stage c = Waiting \<and> \<not> cmd_control c) (commands_of ex_state ''a'')) \<le> 2 \<and> sr_has ''a'' ex_state"
proof -
  have n: "sr_maxCommands ex_state = 2" "commands_of ex_state ''a'' \<noteq> []" by code_simp+
  show ?thesis
    using waiting_commands_bounded [OF ex_state_run refl, of "''a''"] n ex_state_facts(5) by simp
qed

lemma command_queue_drains_witness: "\<exists>ts st'. run_ticks ts ex_state = Some st' \<and> sr_tails st' = [] \<and> sr_pending st' = []"
  using command_queue_drains [OF ex_state_run ex_state_facts(5)] by blast

text \<open>
  Without the discipline of the callers the order is lost: on an idle key the tail is set only
  after the callback has returned, so a callback that queues a command for its own key starts it at
  once, and the outer command then replaces the inner one as the tail.
\<close>
theorem nested_run_overlaps:
  "map_option (\<lambda>st. (map cmd_stage (sr_commands st), sr_tails st))
     (map_option (run_returns \<circ> run_returns \<circ> perform (Run ''a'' (Fin 1)))
        (run_moves [Call (Run ''a'' (Fin 1))] (the (new_serialiser None None)))) =
   Some ([Called, Called], [(''a'', 0)])"
  by code_simp

end
