(* ===== verification/Permits.thy ===== *)
theory Permits
  imports Prelude Complex_Main
begin

text \<open>
  The two stores of one-time permits of the extension host: write permits, bound to the exact content
  of a message (\<open>src/server/extension-host/session-write-permit.ts\<close>), and permits to open a
  channel (\<open>src/server/extension-host/channel-open-permits.ts\<close>). Both maps are association lists
  in insertion order; random tokens and the clock are arguments. The contract they share is the
  locale \<open>one_shot\<close>: no run accepts a permit more often than it was minted.
\<close>

section \<open>The contract of a store of one-time permits\<close>

datatype ('n, 'b) permit_event = Minted 'n 'b | Accepted 'n 'b rat | Refused

inductive permit_steps :: "('s \<Rightarrow> ('n, 'b) permit_event \<Rightarrow> 's \<Rightarrow> bool) \<Rightarrow> 's \<Rightarrow> ('n, 'b) permit_event list \<Rightarrow> 's \<Rightarrow> bool"
  for step where
  none: "permit_steps step s [] s"
| more: "permit_steps step s es s' \<Longrightarrow> step s' e s'' \<Longrightarrow> permit_steps step s (es @ [e]) s''"

definition accepted_as :: "'n \<Rightarrow> 'b \<Rightarrow> ('n, 'b) permit_event \<Rightarrow> bool" where
  "accepted_as n b e = (\<exists>t. e = Accepted n b t)"

definition minted_as :: "'n \<Rightarrow> 'b \<Rightarrow> ('n, 'b) permit_event \<Rightarrow> bool" where
  "minted_as n b e = (e = Minted n b)"

lemma event_simps [simp]:
  "accepted_as n b (Accepted n' b' t) \<longleftrightarrow> n' = n \<and> b' = b" "\<not> accepted_as n b (Minted n' b')" "\<not> accepted_as n b Refused"
  "minted_as n b (Minted n' b') \<longleftrightarrow> n' = n \<and> b' = b" "\<not> minted_as n b (Accepted n' b' t)" "\<not> minted_as n b Refused"
  by (auto simp: accepted_as_def minted_as_def)

locale one_shot =
  fixes pending :: "'s \<Rightarrow> 'n \<Rightarrow> 'b option"
    and step :: "'s \<Rightarrow> ('n, 'b) permit_event \<Rightarrow> 's \<Rightarrow> bool"
    and expires :: "'b \<Rightarrow> rat"
  assumes minted: "step s (Minted n b) s' \<Longrightarrow> pending s' \<subseteq>\<^sub>m (pending s)(n \<mapsto> b)"
    and accepted: "step s (Accepted n b t) s' \<Longrightarrow>
      pending s n = Some b \<and> t \<le> expires b \<and> pending s' \<subseteq>\<^sub>m (pending s)(n := None)"
    and refused: "step s Refused s' \<Longrightarrow> pending s' \<subseteq>\<^sub>m pending s"
begin

lemma balance:
  assumes "permit_steps step s es s'" and "pending s = Map.empty"
  shows "length (filter (accepted_as n b) es) + (if pending s' n = Some b then 1 else 0)
      \<le> length (filter (minted_as n b) es)"
  using assms
proof (induction rule: permit_steps.induct)
  case (more s es s' e s'')
  note IH = more.IH [OF more.prems]
  show ?case
  proof (cases e)
    case (Minted m c)
    then have "pending s'' \<subseteq>\<^sub>m (pending s')(m \<mapsto> c)" using more.hyps(2) minted by blast
    then have "pending s'' n = None \<or> pending s'' n = ((pending s')(m \<mapsto> c)) n"
      by (auto simp: map_le_def dom_def)
    then show ?thesis using IH Minted by (cases "n = m") (auto split: if_splits)
  next
    case (Accepted m c t)
    then have "pending s' m = Some c" "pending s'' \<subseteq>\<^sub>m (pending s')(m := None)"
      using more.hyps(2) accepted by blast+
    then have "pending s'' n = None \<or> pending s'' n = ((pending s')(m := None)) n"
      by (auto simp: map_le_def dom_def)
    with \<open>pending s' m = Some c\<close> show ?thesis using IH Accepted by (cases "n = m") (auto split: if_splits)
  next
    case Refused
    then have "pending s'' \<subseteq>\<^sub>m pending s'" using more.hyps(2) refused by blast
    then have "pending s'' n = None \<or> pending s'' n = pending s' n" by (auto simp: map_le_def dom_def)
    then show ?thesis using IH Refused by (auto split: if_splits)
  qed
qed simp

lemma accepted_at_most_minted:
  assumes "permit_steps step s es s'" and "pending s = Map.empty"
  shows "length (filter (accepted_as n b) es) \<le> length (filter (minted_as n b) es)"
  using balance [OF assms, of n b] by (simp split: if_splits)

lemma accepted_in_time:
  "permit_steps step s es s' \<Longrightarrow> Accepted n b t \<in> set es \<Longrightarrow> t \<le> expires b"
  by (induction rule: permit_steps.induct) (auto dest: accepted)

end

section \<open>Write permits\<close>

record WritePermitBinding =
  wp_sessionId :: string
  wp_packId :: string
  wp_tool :: string
  wp_contentHash :: string

record StoredPermit =
  sp_binding :: WritePermitBinding
  sp_expiresAt :: rat
  sp_consumed :: bool

type_synonym write_permits = "(string \<times> StoredPermit) list"

definition DEFAULT_WRITE_PERMIT_TTL_MS :: rat where "DEFAULT_WRITE_PERMIT_TTL_MS = 5000"
definition MAX_LIVE_PERMITS :: nat where "MAX_LIVE_PERMITS = 1000"

definition pruneExpired :: "rat \<Rightarrow> write_permits \<Rightarrow> write_permits" where
  "pruneExpired now ps = filter (\<lambda>(n, p). \<not> (sp_consumed p \<or> now > sp_expiresAt p)) ps"

definition evict_oldest :: "write_permits \<Rightarrow> write_permits" where
  "evict_oldest ps = (if length ps \<ge> MAX_LIVE_PERMITS
     then (case ps of [] \<Rightarrow> [] | (oldest, _) # _ \<Rightarrow> AList.delete oldest ps) else ps)"

definition write_ttl :: "rat option \<Rightarrow> rat" where
  "write_ttl ttlMs = (case ttlMs of Some t \<Rightarrow> if t > 0 then t else DEFAULT_WRITE_PERMIT_TTL_MS
     | None \<Rightarrow> DEFAULT_WRITE_PERMIT_TTL_MS)"

definition mintWritePermit :: "WritePermitBinding \<Rightarrow> rat option \<Rightarrow> rat \<Rightarrow> string \<Rightarrow> write_permits \<Rightarrow> write_permits" where
  "mintWritePermit binding ttlMs now nonce ps =
     AList.update nonce \<lparr>sp_binding = binding, sp_expiresAt = now + write_ttl ttlMs, sp_consumed = False\<rparr>
       (evict_oldest (pruneExpired now ps))"

definition consumeWritePermit :: "string \<Rightarrow> WritePermitBinding \<Rightarrow> rat \<Rightarrow> write_permits \<Rightarrow> bool \<times> write_permits" where
  "consumeWritePermit nonce binding now ps =
     (if nonce = [] then (False, ps)
      else (case map_of ps nonce of
          None \<Rightarrow> (False, ps)
        | Some p \<Rightarrow>
          if sp_consumed p then (False, AList.delete nonce ps)
          else if now > sp_expiresAt p then (False, AList.delete nonce ps)
          else if sp_binding p \<noteq> binding then (False, ps)
          else (True, AList.delete nonce ps)))"

datatype write_op = Mint_write WritePermitBinding "rat option" rat string | Consume_write string WritePermitBinding rat

text \<open>One request: its event names the permit it minted or accepted, with the time the permit lasts.\<close>

fun write_request :: "write_op \<Rightarrow> write_permits \<Rightarrow> (string, WritePermitBinding \<times> rat) permit_event \<times> write_permits" where
  "write_request (Mint_write b ttl now n) ps = (Minted n (b, now + write_ttl ttl), mintWritePermit b ttl now n ps)"
| "write_request (Consume_write n b now) ps =
     (case consumeWritePermit n b now ps of
        (True, ps') \<Rightarrow> (Accepted n (b, sp_expiresAt (the (map_of ps n))) now, ps')
      | (False, ps') \<Rightarrow> (Refused, ps'))"

fun write_requests :: "write_op list \<Rightarrow> write_permits \<Rightarrow> (string, WritePermitBinding \<times> rat) permit_event list \<times> write_permits" where
  "write_requests [] ps = ([], ps)"
| "write_requests (r # rs) ps =
     (case write_request r ps of (e, ps1) \<Rightarrow> case write_requests rs ps1 of (es, ps2) \<Rightarrow> (e # es, ps2))"

section \<open>Channel permits\<close>

record ChannelOpenPermitBinding =
  cb_sessionId :: string
  cb_packId :: string
  cb_contributionId :: string
  cb_channelName :: string
  cb_singletonKey :: "string option"

record channel_permit =
  cp_binding :: ChannelOpenPermitBinding
  cp_createdAt :: rat
  cp_expiresAt :: rat

datatype audit_type = Permit_mint | Permit_consume | Permit_reject string

record audit_event =
  ae_type :: audit_type
  ae_at :: rat
  ae_binding :: ChannelOpenPermitBinding

record permit_store =
  ch_permits :: "(string \<times> channel_permit) list"
  ch_consumed :: "(string \<times> rat) list"
  ch_ttlMs :: rat
  ch_audit :: "audit_event list"

datatype channel_error = Invalid_binding string | Invalid_permit string

definition CHANNEL_DEFAULT_TTL_MS :: rat where "CHANNEL_DEFAULT_TTL_MS = 30000"

definition new_permit_store :: "rat option \<Rightarrow> permit_store" where
  "new_permit_store ttlMs =
     \<lparr>ch_permits = [], ch_consumed = [], ch_ttlMs = (case ttlMs of Some t \<Rightarrow> t | None \<Rightarrow> CHANNEL_DEFAULT_TTL_MS), ch_audit = []\<rparr>"

definition requireNonEmpty :: "string \<Rightarrow> string \<Rightarrow> channel_error + unit" where
  "requireNonEmpty value field = (if value = [] then Inl (Invalid_binding field) else Inr ())"

definition normalizeSingletonKey :: "string option \<Rightarrow> string option" where
  "normalizeSingletonKey v = (if truthy v then v else None)"

definition normalizeBinding :: "ChannelOpenPermitBinding \<Rightarrow> channel_error + ChannelOpenPermitBinding" where
  "normalizeBinding b =
     bind_res (requireNonEmpty (cb_sessionId b) ''sessionId'') (\<lambda>_.
     bind_res (requireNonEmpty (cb_packId b) ''packId'') (\<lambda>_.
     bind_res (requireNonEmpty (cb_contributionId b) ''contributionId'') (\<lambda>_.
     bind_res (requireNonEmpty (cb_channelName b) ''channelName'') (\<lambda>_.
       Inr (b\<lparr>cb_singletonKey := normalizeSingletonKey (cb_singletonKey b)\<rparr>)))))"

definition cleanupExpiredAt :: "rat \<Rightarrow> permit_store \<Rightarrow> nat \<times> permit_store" where
  "cleanupExpiredAt clock s =
     (let ps = filter (\<lambda>(t, p). \<not> cp_expiresAt p \<le> clock) (ch_permits s);
          cs = filter (\<lambda>(t, e). \<not> e \<le> clock) (ch_consumed s) in
      ((length (ch_permits s) - length ps) + (length (ch_consumed s) - length cs),
       s\<lparr>ch_permits := ps, ch_consumed := cs\<rparr>))"

definition ch_emit :: "audit_type \<Rightarrow> rat \<Rightarrow> ChannelOpenPermitBinding \<Rightarrow> permit_store \<Rightarrow> permit_store" where
  "ch_emit ty clock b s = s\<lparr>ch_audit := ch_audit s @ [\<lparr>ae_type = ty, ae_at = clock, ae_binding = b\<rparr>]\<rparr>"

text \<open>
  \<open>tokens\<close> are the successive values of \<open>randomToken()\<close>; \<open>None\<close> when all of them
  are in use, which an endless source of random tokens never is.
\<close>

fun fresh_token :: "(string \<times> channel_permit) list \<Rightarrow> string list \<Rightarrow> string option" where
  "fresh_token ps [] = None"
| "fresh_token ps (t # ts) = (if map_of ps t \<noteq> None then fresh_token ps ts else Some t)"

definition ch_mint :: "ChannelOpenPermitBinding \<Rightarrow> rat \<Rightarrow> string list \<Rightarrow> permit_store \<Rightarrow> channel_error + (string \<times> permit_store) option" where
  "ch_mint binding createdAt tokens s =
     bind_res (normalizeBinding binding) (\<lambda>normalized.
       let s1 = snd (cleanupExpiredAt createdAt s) in
       Inr (map_option (\<lambda>token. (token, ch_emit Permit_mint createdAt normalized
         (s1\<lparr>ch_permits := AList.update token
             \<lparr>cp_binding = normalized, cp_createdAt = createdAt, cp_expiresAt = createdAt + ch_ttlMs s\<rparr> (ch_permits s1)\<rparr>)))
         (fresh_token (ch_permits s1) tokens)))"

text \<open>\<open>consume\<close>: the error it throws or the permit it returns, and the store in both cases.\<close>

definition ch_reject :: "rat \<Rightarrow> ChannelOpenPermitBinding \<Rightarrow> string \<Rightarrow> permit_store \<Rightarrow> (channel_error + channel_permit) \<times> permit_store" where
  "ch_reject clock b reason s = (Inl (Invalid_permit reason), ch_emit (Permit_reject reason) clock b s)"

definition ch_take :: "string \<Rightarrow> ChannelOpenPermitBinding \<Rightarrow> rat \<Rightarrow> permit_store \<Rightarrow> (channel_error + channel_permit) \<times> permit_store" where
  "ch_take token normalized clock s =
     (case map_of (ch_permits s) token of
        None \<Rightarrow> ch_reject clock normalized ''unknown'' (snd (cleanupExpiredAt clock s))
      | Some permit \<Rightarrow>
        let s1 = s\<lparr>ch_permits := AList.delete token (ch_permits s)\<rparr> in
        if cp_expiresAt permit \<le> clock then ch_reject clock normalized ''expired'' s1
        else
          let s2 = snd (cleanupExpiredAt clock s1);
              s3 = s2\<lparr>ch_consumed := AList.update token (cp_expiresAt permit) (ch_consumed s2)\<rparr> in
          if cp_binding permit \<noteq> normalized then ch_reject clock normalized ''mismatch'' s3
          else (Inr permit, ch_emit Permit_consume clock normalized s3))"

definition ch_consume :: "string option \<Rightarrow> ChannelOpenPermitBinding \<Rightarrow> rat \<Rightarrow> permit_store \<Rightarrow> (channel_error + channel_permit) \<times> permit_store" where
  "ch_consume token expected clock s =
     (case normalizeBinding expected of
        Inl e \<Rightarrow> (Inl e, s)
      | Inr normalized \<Rightarrow>
        if \<not> truthy token then ch_reject clock normalized ''missing'' s
        else (case map_of (ch_consumed s) (the token) of
            Some e \<Rightarrow>
              if e > clock then ch_reject clock normalized ''replayed'' s
              else ch_take (the token) normalized clock (s\<lparr>ch_consumed := AList.delete (the token) (ch_consumed s)\<rparr>)
          | None \<Rightarrow> ch_take (the token) normalized clock s))"

definition ch_pendingCount :: "permit_store \<Rightarrow> nat" where "ch_pendingCount s = length (ch_permits s)"

definition ch_clear :: "permit_store \<Rightarrow> permit_store" where
  "ch_clear s = s\<lparr>ch_permits := [], ch_consumed := []\<rparr>"

datatype channel_op =
    Mint_channel ChannelOpenPermitBinding rat "string list"
  | Consume_channel "string option" ChannelOpenPermitBinding rat
  | Cleanup_channel rat
  | Clear_channel

fun channel_request :: "channel_op \<Rightarrow> permit_store \<Rightarrow> (string, ChannelOpenPermitBinding \<times> rat) permit_event \<times> permit_store" where
  "channel_request (Mint_channel b now ts) s =
     (case ch_mint b now ts s of
        Inr (Some (token, s')) \<Rightarrow> (Minted token (projr (normalizeBinding b), now + ch_ttlMs s), s')
      | _ \<Rightarrow> (Refused, s))"
| "channel_request (Consume_channel token b now) s =
     (case ch_consume token b now s of
        (Inr p, s') \<Rightarrow> (Accepted (the token) (projr (normalizeBinding b), cp_expiresAt p) now, s')
      | (Inl _, s') \<Rightarrow> (Refused, s'))"
| "channel_request (Cleanup_channel now) s = (Refused, snd (cleanupExpiredAt now s))"
| "channel_request Clear_channel s = (Refused, ch_clear s)"

fun channel_requests :: "channel_op list \<Rightarrow> permit_store \<Rightarrow> (string, ChannelOpenPermitBinding \<times> rat) permit_event list \<times> permit_store" where
  "channel_requests [] s = ([], s)"
| "channel_requests (r # rs) s =
     (case channel_request r s of (e, s1) \<Rightarrow> case channel_requests rs s1 of (es, s2) \<Rightarrow> (e # es, s2))"

section \<open>Both stores keep the contract\<close>

lemma map_of_filter_le:
  assumes "distinct (map fst xs)"
  shows "map_of (filter P xs) \<subseteq>\<^sub>m map_of xs"
proof -
  have "map_of xs n = Some v" if "map_of (filter P xs) n = Some v" for n v
    using map_of_SomeD [OF that] assms by simp
  then show ?thesis by (auto simp: map_le_def dom_def)
qed

lemma distinct_keys_filter: "distinct (map fst xs) \<Longrightarrow> distinct (map fst (filter P xs))"
  by (rule distinct_map_filter)

lemma map_le_update: "m \<subseteq>\<^sub>m m' \<Longrightarrow> m(n \<mapsto> b) \<subseteq>\<^sub>m m'(n \<mapsto> b)"
  by (auto simp: map_le_def)

lemma map_le_option_map: "m \<subseteq>\<^sub>m m' \<Longrightarrow> (\<lambda>n. map_option f (m n)) \<subseteq>\<^sub>m (\<lambda>n. map_option f (m' n))"
  by (force simp: map_le_def dom_def)

definition write_pending :: "write_permits \<Rightarrow> string \<Rightarrow> (WritePermitBinding \<times> rat) option" where
  "write_pending ps n = map_option (\<lambda>p. (sp_binding p, sp_expiresAt p)) (map_of ps n)"

definition write_step :: "write_permits \<Rightarrow> (string, WritePermitBinding \<times> rat) permit_event \<Rightarrow> write_permits \<Rightarrow> bool" where
  "write_step ps e ps' \<longleftrightarrow> distinct (map fst ps) \<and> (\<exists>r. write_request r ps = (e, ps'))"

lemma distinct_evict: "distinct (map fst ps) \<Longrightarrow> distinct (map fst (evict_oldest ps))"
  by (auto simp: evict_oldest_def distinct_delete split: list.split)

lemma evict_le: "map_of (evict_oldest ps) \<subseteq>\<^sub>m map_of ps"
  by (auto simp: evict_oldest_def map_le_def split: list.split)

lemma distinct_mint: "distinct (map fst ps) \<Longrightarrow> distinct (map fst (mintWritePermit b ttl now n ps))"
  by (simp add: mintWritePermit_def pruneExpired_def distinct_evict distinct_keys_filter)

lemma distinct_write_request:
  "distinct (map fst ps) \<Longrightarrow> write_request r ps = (e, ps') \<Longrightarrow> distinct (map fst ps')"
  by (cases r) (auto simp: distinct_mint consumeWritePermit_def distinct_delete split: if_splits option.splits prod.splits bool.splits)

lemma mint_pending:
  assumes "distinct (map fst ps)"
  shows "write_pending (mintWritePermit b ttl now n ps) \<subseteq>\<^sub>m (write_pending ps)(n \<mapsto> (b, now + write_ttl ttl))"
proof -
  have "map_of (evict_oldest (pruneExpired now ps)) \<subseteq>\<^sub>m map_of ps"
    by (rule map_le_trans [OF evict_le]) (simp add: pruneExpired_def map_of_filter_le assms)
  then have "(\<lambda>n. map_option (\<lambda>p. (sp_binding p, sp_expiresAt p)) (map_of (evict_oldest (pruneExpired now ps)) n)) \<subseteq>\<^sub>m write_pending ps"
    unfolding write_pending_def by (rule map_le_option_map)
  then show ?thesis by (auto simp: mintWritePermit_def write_pending_def map_le_def dom_def)
qed

interpretation writes: one_shot write_pending write_step snd
proof unfold_locales
  fix s s' :: write_permits and n b
  assume "write_step s (Minted n b) s'"
  then obtain r where d: "distinct (map fst s)" and r: "write_request r s = (Minted n b, s')"
    by (auto simp: write_step_def)
  show "write_pending s' \<subseteq>\<^sub>m (write_pending s)(n \<mapsto> b)"
  proof (cases r)
    case (Mint_write c ttl now m)
    then show ?thesis using r mint_pending [OF d] by auto
  qed (use r in \<open>auto split: prod.splits bool.splits\<close>)
next
  fix s s' :: write_permits and n b t
  assume "write_step s (Accepted n b t) s'"
  then obtain r where "write_request r s = (Accepted n b t, s')" by (auto simp: write_step_def)
  then show "write_pending s n = Some b \<and> t \<le> snd b \<and> write_pending s' \<subseteq>\<^sub>m (write_pending s)(n := None)"
    by (cases r) (auto simp: consumeWritePermit_def write_pending_def map_le_def not_less split: if_splits option.splits prod.splits bool.splits)
next
  fix s s' :: write_permits
  assume "write_step s Refused s'"
  then obtain r where "write_request r s = (Refused, s')" by (auto simp: write_step_def)
  then show "write_pending s' \<subseteq>\<^sub>m write_pending s"
    by (cases r) (auto simp: consumeWritePermit_def write_pending_def map_le_def split: if_splits option.splits prod.splits bool.splits)
qed

lemma write_requests_steps:
  "write_requests rs ps = (es, ps') \<Longrightarrow> distinct (map fst ps) \<Longrightarrow> permit_steps write_step s0 es0 ps \<Longrightarrow>
   permit_steps write_step s0 (es0 @ es) ps'"
proof (induction rs arbitrary: ps es es0)
  case (Cons r rs)
  obtain e ps1 es1 where r: "write_request r ps = (e, ps1)" and rs: "write_requests rs ps1 = (es1, ps')" "es = e # es1"
    using Cons.prems(1) by (auto split: prod.splits)
  have "permit_steps write_step s0 (es0 @ [e]) ps1"
    by (rule permit_steps.more [OF Cons.prems(3)]) (use Cons.prems(2) r in \<open>auto simp: write_step_def\<close>)
  from Cons.IH [OF rs(1) distinct_write_request [OF Cons.prems(2) r] this] rs(2) show ?case by simp
qed simp

lemma length_delete_less: "k \<in> fst ` set m \<Longrightarrow> length (AList.delete k m) < length m"
  unfolding AList.delete_eq by (auto intro!: length_filter_less)

lemma length_mint: "length (mintWritePermit b ttl now n ps) \<le> max MAX_LIVE_PERMITS (length ps)"
proof -
  let ?ps = "pruneExpired now ps"
  have "length (AList.update n v m) \<le> Suc (length m)" for v and m :: write_permits
    by (induction m) auto
  moreover have "Suc (length (evict_oldest ?ps)) \<le> max MAX_LIVE_PERMITS (length ?ps)"
  proof (cases ?ps)
    case (Cons p qs)
    have "length (AList.delete (fst p) (p # qs)) < length (p # qs)" by (rule length_delete_less) simp
    with Cons show ?thesis by (cases p) (auto simp: evict_oldest_def MAX_LIVE_PERMITS_def)
  qed (simp add: evict_oldest_def MAX_LIVE_PERMITS_def)
  moreover have "length ?ps \<le> length ps" by (simp add: pruneExpired_def)
  ultimately show ?thesis unfolding mintWritePermit_def by (metis (no_types, lifting) le_trans max.mono order_refl)
qed

lemma length_write_requests: "write_requests rs ps = (es, ps') \<Longrightarrow> length ps' \<le> max MAX_LIVE_PERMITS (length ps)"
proof (induction rs arbitrary: ps es)
  case (Cons r rs)
  obtain e ps1 es1 where r: "write_request r ps = (e, ps1)" and rs: "write_requests rs ps1 = (es1, ps')"
    using Cons.prems(1) by (auto split: prod.splits)
  have "length ps1 \<le> max MAX_LIVE_PERMITS (length ps)"
  proof (cases r)
    case (Mint_write b ttl now n)
    then show ?thesis using r length_mint by auto
  next
    case (Consume_write n b now)
    then have "length ps1 \<le> length ps"
      using r by (auto simp: consumeWritePermit_def length_delete_le split: if_splits option.splits prod.splits bool.splits)
    then show ?thesis by simp
  qed
  with Cons.IH [OF rs] show ?case by simp
qed simp

lemma write_permits_single_use_facts:
  assumes "write_requests rs [] = (es, ps)"
  shows "length (filter (accepted_as n (b, e)) es) \<le> length (filter (minted_as n (b, e)) es)"
    and "Accepted n (b, e) t \<in> set es \<longrightarrow> t \<le> e"
    and "length ps \<le> 1000"
proof -
  have s: "permit_steps write_step [] ([] @ es) ps"
    by (rule write_requests_steps [OF assms]) (simp_all add: permit_steps.none)
  show "length (filter (accepted_as n (b, e)) es) \<le> length (filter (minted_as n (b, e)) es)"
    using writes.accepted_at_most_minted [OF s, of n "(b, e)"] by (simp add: write_pending_def fun_eq_iff)
  show "Accepted n (b, e) t \<in> set es \<longrightarrow> t \<le> e"
    using writes.accepted_in_time [OF s, of n "(b, e)" t] by simp
  show "length ps \<le> 1000" using length_write_requests [OF assms] by (simp add: MAX_LIVE_PERMITS_def)
qed

text \<open>A write permit is single-use, bound and short-lived: in any sequence of mints and posts the posts
  accepted for a nonce, a binding and an expiry are at most the mints of exactly that permit, none is
  accepted after the expiry, and never more than a thousand permits are kept.\<close>
theorem write_permits_single_use:
  assumes "write_requests rs [] = (es, ps)"
  shows "(length (filter (accepted_as n (b, e)) es) \<le> length (filter (minted_as n (b, e)) es)) \<and>
    (Accepted n (b, e) t \<in> set es \<longrightarrow> t \<le> e) \<and>
    (length ps \<le> 1000)"
  by (intro conjI write_permits_single_use_facts [OF assms])

section \<open>A fresh write permit survives a flood of others\<close>

text \<open>The requests that leave the permit \<open>n\<close> alone, and a store in which at most \<open>k\<close> permits are newer.\<close>

fun spares :: "string \<Rightarrow> WritePermitBinding \<Rightarrow> rat \<Rightarrow> write_op \<Rightarrow> bool" where
  "spares n b e (Mint_write c ttl now m) = (m \<noteq> n \<and> now \<le> e)"
| "spares n b e (Consume_write m c now) = (m = n \<longrightarrow> c \<noteq> b \<and> now \<le> e)"

fun mints :: "write_op \<Rightarrow> nat" where
  "mints (Mint_write _ _ _ _) = 1"
| "mints _ = 0"

definition held :: "string \<Rightarrow> WritePermitBinding \<Rightarrow> rat \<Rightarrow> nat \<Rightarrow> write_permits \<Rightarrow> bool" where
  "held n b e k ps \<longleftrightarrow> distinct (map fst ps) \<and>
     (\<exists>older p younger. ps = older @ (n, p) # younger \<and> sp_binding p = b \<and> sp_expiresAt p = e \<and> \<not> sp_consumed p \<and>
        length younger \<le> k)"

lemma heldE:
  assumes "held n b e k ps"
  obtains older p younger where "ps = older @ (n, p) # younger" "sp_binding p = b" "sp_expiresAt p = e" "\<not> sp_consumed p"
    "length younger \<le> k" "distinct (map fst ps)"
  using assms by (auto simp: held_def)

lemma held_lookup: "held n b e k ps \<Longrightarrow> \<exists>p. map_of ps n = Some p \<and> sp_binding p = b \<and> sp_expiresAt p = e \<and> \<not> sp_consumed p"
  by (erule heldE) (auto simp: map_add_Some_iff map_of_eq_None_iff)

lemma delete_filter: "AList.delete k m = filter (\<lambda>y. fst y \<noteq> k) m"
  unfolding AList.delete_eq by (rule filter_cong) auto

lemma held_filter:
  assumes "held n b e k ps" and "\<And>p. sp_expiresAt p = e \<Longrightarrow> \<not> sp_consumed p \<Longrightarrow> P (n, p)"
  shows "held n b e k (filter P ps)"
proof -
  from assms(1) obtain older p younger where ps: "ps = older @ (n, p) # younger" "sp_binding p = b" "sp_expiresAt p = e"
    "\<not> sp_consumed p" "length younger \<le> k" "distinct (map fst ps)" by (rule heldE)
  have "filter P ps = filter P older @ (n, p) # filter P younger" using ps assms(2) by simp
  moreover have "length (filter P younger) \<le> k" using ps(5) length_filter_le [of P younger] by linarith
  ultimately show ?thesis using ps distinct_keys_filter [of ps P] unfolding held_def by blast
qed

lemma held_evict:
  assumes "held n b e k ps" and "Suc k < MAX_LIVE_PERMITS"
  shows "held n b e k (evict_oldest ps)"
proof -
  from assms(1) obtain older p younger where ps: "ps = older @ (n, p) # younger" "sp_binding p = b" "sp_expiresAt p = e"
    "\<not> sp_consumed p" "length younger \<le> k" "distinct (map fst ps)" by (rule heldE)
  show ?thesis
  proof (cases "length ps \<ge> MAX_LIVE_PERMITS")
    case True
    then obtain x older' where o: "older = x # older'" using ps(1,5) assms(2) by (cases older) auto
    then have "fst x \<noteq> n" using ps(1,6) by auto
    then have "held n b e k (filter (\<lambda>y. fst y \<noteq> fst x) ps)" by (intro held_filter [OF assms(1)]) simp
    moreover have "evict_oldest ps = filter (\<lambda>y. fst y \<noteq> fst x) ps"
      using True ps(1) o by (cases x) (simp add: evict_oldest_def delete_filter)
    ultimately show ?thesis by simp
  qed (use assms(1) in \<open>simp add: evict_oldest_def\<close>)
qed

lemma update_append: "k \<notin> fst ` set xs \<Longrightarrow> AList.update k v (xs @ ys) = xs @ AList.update k v ys"
  by (induction xs) auto

lemma update_append_in: "k \<in> fst ` set xs \<Longrightarrow> AList.update k v (xs @ ys) = AList.update k v xs @ ys"
  by (induction xs) auto

lemma held_update:
  assumes "held n b e k ps" and "m \<noteq> n"
  shows "held n b e (Suc k) (AList.update m v ps)"
proof -
  from assms(1) obtain older p younger where ps: "ps = older @ (n, p) # younger" "sp_binding p = b" "sp_expiresAt p = e"
    "\<not> sp_consumed p" "length younger \<le> k" "distinct (map fst ps)" by (rule heldE)
  have d: "distinct (map fst (AList.update m v ps))" using ps(6) by simp
  have len: "length (AList.update m v younger) \<le> Suc (length younger)" by (induction younger) auto
  show ?thesis
  proof (cases "m \<in> fst ` set older")
    case True
    then have "AList.update m v ps = AList.update m v older @ (n, p) # younger" by (simp add: ps(1) update_append_in)
    with ps d show ?thesis unfolding held_def by (metis le_Suc_eq)
  next
    case False
    then have "AList.update m v ps = older @ (n, p) # AList.update m v younger" using assms(2) by (simp add: ps(1) update_append)
    moreover have "length (AList.update m v younger) \<le> Suc k" using len ps(5) by simp
    ultimately show ?thesis using ps d unfolding held_def by blast
  qed
qed

lemma held_request:
  assumes "held n b e k ps" and "spares n b e r" and "k + mints r < MAX_LIVE_PERMITS"
  shows "held n b e (k + mints r) (snd (write_request r ps))"
proof (cases r)
  case (Mint_write c ttl now m)
  have "held n b e k (pruneExpired now ps)"
    unfolding pruneExpired_def by (rule held_filter [OF assms(1)]) (use assms(2) Mint_write in auto)
  then have "held n b e k (evict_oldest (pruneExpired now ps))"
    by (rule held_evict) (use assms(3) Mint_write in simp)
  then show ?thesis using assms(2) Mint_write by (simp add: mintWritePermit_def held_update)
next
  case (Consume_write m c now)
  from held_lookup [OF assms(1)] obtain p where ps: "map_of ps n = Some p" "sp_binding p = b" "sp_expiresAt p = e"
    "\<not> sp_consumed p" by blast
  show ?thesis
  proof (cases "m = n")
    case True
    then have "consumeWritePermit m c now ps = (False, ps)"
      using ps assms(2) Consume_write by (auto simp: consumeWritePermit_def)
    then show ?thesis using assms(1) Consume_write by simp
  next
    case False
    then have "held n b e k (AList.delete m ps)"
      unfolding delete_filter by (intro held_filter [OF assms(1)]) simp
    then show ?thesis
      using assms(1) Consume_write by (auto simp: consumeWritePermit_def split: option.split)
  qed
qed

lemma held_requests:
  "held n b e k ps \<Longrightarrow> list_all (spares n b e) rs \<Longrightarrow> k + sum_list (map mints rs) < MAX_LIVE_PERMITS \<Longrightarrow>
   \<exists>j. held n b e j (snd (write_requests rs ps))"
proof (induction rs arbitrary: k ps)
  case (Cons r rs)
  then have "held n b e (k + mints r) (snd (write_request r ps))" by (intro held_request) auto
  from Cons.IH [OF this] Cons.prems show ?case by (auto split: prod.split)
qed auto

text \<open>A freshly minted write permit is honoured: whatever other requests come in between, as long as
  they do not present this permit with its binding and mint fewer than a thousand others, a post
  with the permit's nonce and binding is accepted until the permit expires.\<close>
theorem fresh_write_permit_honoured:
  assumes "distinct (map fst ps)" and "n \<noteq> []" and "map_of ps n = None" and "e = now + write_ttl ttl"
    and "list_all (spares n b e) rs" and "sum_list (map mints rs) < 1000" and "t \<le> e"
  shows "fst (consumeWritePermit n b t (snd (write_requests rs (mintWritePermit b ttl now n ps))))"
proof -
  let ?p = "\<lparr>sp_binding = b, sp_expiresAt = e, sp_consumed = False\<rparr>"
  have "map_of (evict_oldest (pruneExpired now ps)) \<subseteq>\<^sub>m map_of ps"
    by (rule map_le_trans [OF evict_le]) (simp add: pruneExpired_def map_of_filter_le assms(1))
  then have "map_of (evict_oldest (pruneExpired now ps)) n = None"
    using assms(3) by (metis domIff map_le_implies_dom_le subsetD)
  then have "mintWritePermit b ttl now n ps = evict_oldest (pruneExpired now ps) @ [(n, ?p)]"
    by (simp add: mintWritePermit_def assms(4) map_of_eq_None_iff keys_update_new)
  moreover have "distinct (map fst (mintWritePermit b ttl now n ps))" using assms(1) by (rule distinct_mint)
  ultimately have "held n b e 0 (mintWritePermit b ttl now n ps)"
    unfolding held_def by (intro conjI exI [of _ "evict_oldest (pruneExpired now ps)"] exI [of _ ?p] exI [of _ "[]"]) simp_all
  from held_requests [OF this assms(5)] assms(6)
  obtain j where "held n b e j (snd (write_requests rs (mintWritePermit b ttl now n ps)))"
    by (auto simp: MAX_LIVE_PERMITS_def)
  from held_lookup [OF this] show ?thesis using assms(2,7) by (auto simp: consumeWritePermit_def)
qed

definition ex_binding :: WritePermitBinding where
  "ex_binding = \<lparr>wp_sessionId = ''s'', wp_packId = ''p'', wp_tool = ''t'', wp_contentHash = ''h''\<rparr>"

definition ex_writes :: "write_op list" where
  "ex_writes = [Mint_write ex_binding None 0 ''n'', Consume_write ''n'' (ex_binding\<lparr>wp_tool := ''u''\<rparr>) 1,
     Consume_write ''n'' ex_binding 2, Consume_write ''n'' ex_binding 3]"

lemma write_permits_single_use_witness:
  "length (filter (accepted_as ''n'' (ex_binding, 5000)) (fst (write_requests ex_writes []))) \<le> 1 \<and>
   fst (write_requests ex_writes []) = [Minted ''n'' (ex_binding, 5000), Refused, Accepted ''n'' (ex_binding, 5000) 2, Refused]"
proof -
  have es: "fst (write_requests ex_writes []) = [Minted ''n'' (ex_binding, 5000), Refused, Accepted ''n'' (ex_binding, 5000) 2, Refused]"
    by code_simp
  have "write_requests ex_writes [] = (fst (write_requests ex_writes []), snd (write_requests ex_writes []))" by simp
  from write_permits_single_use [OF this, of "''n''" ex_binding 5000] es show ?thesis by simp
qed

lemma fresh_write_permit_honoured_witness:
  "fst (consumeWritePermit ''n'' ex_binding 4000
     (snd (write_requests [Consume_write ''n'' (ex_binding\<lparr>wp_tool := ''u''\<rparr>) 1, Mint_write ex_binding None 1 ''m'']
       (mintWritePermit ex_binding None 0 ''n'' []))))"
  by (rule fresh_write_permit_honoured [OF _ _ _ refl])
    (simp_all add: ex_binding_def write_ttl_def DEFAULT_WRITE_PERMIT_TTL_MS_def)

section \<open>The channel store\<close>

definition channel_pending :: "permit_store \<Rightarrow> string \<Rightarrow> (ChannelOpenPermitBinding \<times> rat) option" where
  "channel_pending s n = map_option (\<lambda>p. (cp_binding p, cp_expiresAt p)) (map_of (ch_permits s) n)"

definition channel_ok :: "permit_store \<Rightarrow> bool" where
  "channel_ok s \<longleftrightarrow> distinct (map fst (ch_permits s)) \<and> distinct (map fst (ch_consumed s))"

definition channel_step :: "permit_store \<Rightarrow> (string, ChannelOpenPermitBinding \<times> rat) permit_event \<Rightarrow> permit_store \<Rightarrow> bool" where
  "channel_step s e s' \<longleftrightarrow> channel_ok s \<and> (\<exists>r. channel_request r s = (e, s'))"

lemma ch_emit_simps [simp]: "ch_permits (ch_emit ty t b s) = ch_permits s" "ch_consumed (ch_emit ty t b s) = ch_consumed s"
  "ch_ttlMs (ch_emit ty t b s) = ch_ttlMs s"
  by (simp_all add: ch_emit_def)

lemma cleanup_simps [simp]:
  "ch_permits (snd (cleanupExpiredAt t s)) = filter (\<lambda>(n, p). \<not> cp_expiresAt p \<le> t) (ch_permits s)"
  "ch_consumed (snd (cleanupExpiredAt t s)) = filter (\<lambda>(n, e). \<not> e \<le> t) (ch_consumed s)"
  "ch_ttlMs (snd (cleanupExpiredAt t s)) = ch_ttlMs s"
  by (simp_all add: cleanupExpiredAt_def Let_def)

lemma ch_consume_cases:
  assumes "channel_ok s" and "ch_consume token b t s = (r, s')"
  shows "channel_ok s' \<and> map_of (ch_permits s') \<subseteq>\<^sub>m map_of (ch_permits s) \<and>
    (\<forall>p. r = Inr p \<longrightarrow> truthy token \<and> map_of (ch_permits s) (the token) = Some p \<and> t < cp_expiresAt p \<and>
       normalizeBinding b = Inr (cp_binding p) \<and> map_of (ch_permits s') (the token) = None)"
proof -
  have f: "channel_ok s1 \<Longrightarrow> map_of (filter (\<lambda>(n, p). \<not> cp_expiresAt p \<le> t) (ch_permits s1)) \<subseteq>\<^sub>m map_of (ch_permits s1)" for s1
    by (simp add: channel_ok_def map_of_filter_le)
  have d: "channel_ok s1 \<Longrightarrow> map_of (filter (\<lambda>(n, p). \<not> cp_expiresAt p \<le> t) (AList.delete n (ch_permits s1))) \<subseteq>\<^sub>m (map_of (ch_permits s1))(n := None)" for s1 n
    using map_of_filter_le [of "AList.delete n (ch_permits s1)"] by (simp add: channel_ok_def distinct_delete)
  have take: "channel_ok s' \<and> map_of (ch_permits s') \<subseteq>\<^sub>m map_of (ch_permits s1) \<and>
      (\<forall>p. r = Inr p \<longrightarrow> map_of (ch_permits s1) n = Some p \<and> t < cp_expiresAt p \<and>
       nb = cp_binding p \<and> map_of (ch_permits s') n = None)"
    if ok: "channel_ok s1" and "ch_take n nb t s1 = (r, s')" for s1 n nb
  proof (cases "map_of (ch_permits s1) n")
    case None
    then show ?thesis
      using that f [OF ok] by (auto simp: ch_take_def ch_reject_def channel_ok_def distinct_keys_filter)
  next
    case (Some p)
    have "map_of (filter (\<lambda>(n, p). \<not> cp_expiresAt p \<le> t) (AList.delete n (ch_permits s1))) n = None"
      using d [OF ok, of n] by (auto simp: map_le_def dom_def)
    moreover have "map_of (filter (\<lambda>(n, p). \<not> cp_expiresAt p \<le> t) (AList.delete n (ch_permits s1))) \<subseteq>\<^sub>m map_of (ch_permits s1)"
      by (rule map_le_trans [OF d [OF ok]]) (auto simp: map_le_def)
    moreover have "(map_of (ch_permits s1))(n := None) \<subseteq>\<^sub>m map_of (ch_permits s1)" by (auto simp: map_le_def)
    ultimately show ?thesis
      using that Some
      by (auto simp: ch_take_def ch_reject_def channel_ok_def distinct_keys_filter distinct_delete not_le Let_def split: if_splits)
  qed
  have ok': "channel_ok (s\<lparr>ch_consumed := AList.delete n (ch_consumed s)\<rparr>)" for n
    using assms(1) by (simp add: channel_ok_def distinct_delete)
  show ?thesis
  proof (cases "normalizeBinding b")
    case (Inl e)
    then show ?thesis using assms by (auto simp: ch_consume_def)
  next
    case (Inr nb)
    have rejected: ?thesis if "ch_reject t nb reason s = (r, s')" for reason
      using that assms(1) by (auto simp: ch_reject_def channel_ok_def)
    have taken: ?thesis if "truthy token" "ch_take (the token) nb t s1 = (r, s')" "channel_ok s1" "ch_permits s1 = ch_permits s" for s1
      using take [OF that(3,2)] that(1,4) Inr by simp
    show ?thesis
    proof (cases "truthy token")
      case False
      then show ?thesis using assms(2) Inr by (intro rejected [of "''missing''"]) (simp add: ch_consume_def)
    next
      case True
      show ?thesis
      proof (cases "map_of (ch_consumed s) (the token)")
        case None
        then show ?thesis using assms Inr True by (intro taken [of s]) (simp_all add: ch_consume_def)
      next
        case (Some e)
        show ?thesis
        proof (cases "e > t")
          case replayed: True
          then show ?thesis using assms Inr True Some by (intro rejected [of "''replayed''"]) (simp add: ch_consume_def)
        next
          case False
          then show ?thesis using assms Inr True Some ok'
            by (intro taken [of "s\<lparr>ch_consumed := AList.delete (the token) (ch_consumed s)\<rparr>"]) (simp_all add: ch_consume_def)
        qed
      qed
    qed
  qed
qed

lemma ch_mint_cases:
  assumes ok: "channel_ok s" and "ch_mint b t ts s = Inr (Some (n, s'))"
  shows "channel_ok s' \<and> channel_pending s' \<subseteq>\<^sub>m (channel_pending s)(n \<mapsto> (projr (normalizeBinding b), t + ch_ttlMs s))"
proof -
  have "map_of (filter (\<lambda>(n, p). \<not> cp_expiresAt p \<le> t) (ch_permits s)) \<subseteq>\<^sub>m map_of (ch_permits s)"
    using ok by (simp add: channel_ok_def map_of_filter_le)
  then have "(\<lambda>n. map_option (\<lambda>p. (cp_binding p, cp_expiresAt p)) (map_of (filter (\<lambda>(n, p). \<not> cp_expiresAt p \<le> t) (ch_permits s)) n))
      \<subseteq>\<^sub>m channel_pending s"
    unfolding channel_pending_def by (rule map_le_option_map)
  then show ?thesis
    using assms by (auto simp: ch_mint_def bind_res_Inr channel_ok_def distinct_keys_filter channel_pending_def map_le_def dom_def)
qed

lemma channel_ok_request:
  assumes ok: "channel_ok s" and r: "channel_request r s = (e, s')"
  shows "channel_ok s'"
proof (cases r)
  case (Mint_channel b t ts)
  show ?thesis
  proof (cases "ch_mint b t ts s")
    case (Inr m)
    then show ?thesis
      using r ok ch_mint_cases [OF ok, of b t ts] Mint_channel by (cases m) auto
  qed (use r ok Mint_channel in simp)
next
  case (Consume_channel n b t)
  then have "s' = snd (ch_consume n b t s)" using r by (auto split: prod.splits sum.splits)
  then show ?thesis using ch_consume_cases [OF ok, of n b t] by (metis prod.collapse)
qed (use r ok in \<open>auto simp: ch_clear_def channel_ok_def distinct_keys_filter\<close>)

interpretation channels: one_shot channel_pending channel_step snd
proof unfold_locales
  fix s s' :: permit_store and n b
  assume "channel_step s (Minted n b) s'"
  then obtain r where ok: "channel_ok s" and r: "channel_request r s = (Minted n b, s')"
    by (auto simp: channel_step_def)
  show "channel_pending s' \<subseteq>\<^sub>m (channel_pending s)(n \<mapsto> b)"
    by (cases r) (use r in \<open>auto dest: ch_mint_cases [OF ok] split: sum.splits option.splits prod.splits\<close>)
next
  fix s s' :: permit_store and n b t
  assume "channel_step s (Accepted n b t) s'"
  then obtain r where ok: "channel_ok s" and r: "channel_request r s = (Accepted n b t, s')"
    by (auto simp: channel_step_def)
  obtain token c p where c: "ch_consume token c t s = (Inr p, s')" "n = the token" "b = (projr (normalizeBinding c), cp_expiresAt p)"
    by (cases r) (use r in \<open>auto split: sum.splits option.splits prod.splits\<close>)
  note l = ch_consume_cases [OF ok c(1)]
  then have "channel_pending s' \<subseteq>\<^sub>m channel_pending s" unfolding channel_pending_def by (intro map_le_option_map) simp
  with l c show "channel_pending s n = Some b \<and> t \<le> snd b \<and> channel_pending s' \<subseteq>\<^sub>m (channel_pending s)(n := None)"
    by (auto simp: channel_pending_def map_le_def dom_def)
next
  fix s s' :: permit_store
  assume "channel_step s Refused s'"
  then obtain r where ok: "channel_ok s" and r: "channel_request r s = (Refused, s')" by (auto simp: channel_step_def)
  have "map_of (ch_permits s') \<subseteq>\<^sub>m map_of (ch_permits s)"
    by (cases r) (use r ok in \<open>auto simp: ch_clear_def channel_ok_def map_of_filter_le
      dest: ch_consume_cases [OF ok] split: sum.splits option.splits prod.splits\<close>)
  then show "channel_pending s' \<subseteq>\<^sub>m channel_pending s" unfolding channel_pending_def by (rule map_le_option_map)
qed

lemma channel_requests_steps:
  "channel_requests rs s = (es, s') \<Longrightarrow> channel_ok s \<Longrightarrow> permit_steps channel_step s0 es0 s \<Longrightarrow>
   permit_steps channel_step s0 (es0 @ es) s'"
proof (induction rs arbitrary: s es es0)
  case (Cons r rs)
  obtain e s1 es1 where r: "channel_request r s = (e, s1)" and rs: "channel_requests rs s1 = (es1, s')" "es = e # es1"
    using Cons.prems(1) by (auto split: prod.splits)
  have "permit_steps channel_step s0 (es0 @ [e]) s1"
    by (rule permit_steps.more [OF Cons.prems(3)]) (use Cons.prems(2) r in \<open>auto simp: channel_step_def\<close>)
  from Cons.IH [OF rs(1) channel_ok_request [OF Cons.prems(2) r] this] rs(2) show ?case by simp
qed simp

lemma channel_permits_single_use_facts:
  assumes "channel_requests rs (new_permit_store ttl) = (es, s)"
  shows "length (filter (accepted_as n (b, e)) es) \<le> length (filter (minted_as n (b, e)) es)"
    and "Accepted n (b, e) t \<in> set es \<longrightarrow> t \<le> e"
    and "n \<noteq> [] \<and> map_of (ch_consumed s) n = None \<and> normalizeBinding c = Inr c' \<longrightarrow>
           map_of (ch_permits (snd (ch_consume (Some n) c t s))) n = None"
proof -
  let ?s0 = "new_permit_store ttl"
  have ok: "channel_ok ?s0" by (simp add: channel_ok_def new_permit_store_def)
  have s: "permit_steps channel_step ?s0 ([] @ es) s"
    by (rule channel_requests_steps [OF assms ok]) (rule permit_steps.none)
  have e: "channel_pending ?s0 = Map.empty" by (simp add: channel_pending_def new_permit_store_def fun_eq_iff)
  show "length (filter (accepted_as n (b, e)) es) \<le> length (filter (minted_as n (b, e)) es)"
    using channels.accepted_at_most_minted [OF s e, of n "(b, e)"] by simp
  show "Accepted n (b, e) t \<in> set es \<longrightarrow> t \<le> e"
    using channels.accepted_in_time [OF s, of n "(b, e)" t] by simp
  have ok_s: "channel_ok s"
  proof -
    have "channel_requests rs s1 = (es1, s2) \<Longrightarrow> channel_ok s1 \<Longrightarrow> channel_ok s2" for rs s1 es1 s2
      by (induction rs arbitrary: s1 es1) (auto split: prod.splits dest: channel_ok_request)
    then show ?thesis using assms ok by blast
  qed
  have gone: "map_of (filter P (AList.delete n (ch_permits s))) n = None" for P
    by (auto simp: map_of_eq_None_iff delete_filter)
  show "n \<noteq> [] \<and> map_of (ch_consumed s) n = None \<and> normalizeBinding c = Inr c' \<longrightarrow>
      map_of (ch_permits (snd (ch_consume (Some n) c t s))) n = None"
  proof (cases "map_of (ch_permits s) n")
    case None
    then have "map_of (filter P (ch_permits s)) n = None" for P by (auto simp: map_of_eq_None_iff)
    with None show ?thesis by (auto simp: ch_consume_def ch_take_def ch_reject_def)
  qed (auto simp: ch_consume_def ch_take_def ch_reject_def Let_def gone)
qed

text \<open>A channel permit is spent by its first presentation: in any sequence of requests the opens
  accepted for a token, a binding and an expiry are at most the mints of exactly that permit, in
  time, even if the token source repeats itself; and a permit that is presented with another binding
  is gone too.\<close>
theorem channel_permits_single_use:
  assumes "channel_requests rs (new_permit_store ttl) = (es, s)"
  shows "(length (filter (accepted_as n (b, e)) es) \<le> length (filter (minted_as n (b, e)) es)) \<and>
    (Accepted n (b, e) t \<in> set es \<longrightarrow> t \<le> e) \<and>
    (n \<noteq> [] \<and> map_of (ch_consumed s) n = None \<and> normalizeBinding c = Inr c' \<longrightarrow>
           map_of (ch_permits (snd (ch_consume (Some n) c t s))) n = None)"
  by (intro conjI channel_permits_single_use_facts [OF assms])

definition ex_channel :: ChannelOpenPermitBinding where
  "ex_channel = \<lparr>cb_sessionId = ''s'', cb_packId = ''p'', cb_contributionId = ''c'', cb_channelName = ''n'', cb_singletonKey = Some []\<rparr>"

definition ex_opens :: "channel_op list" where
  "ex_opens = [Mint_channel ex_channel 0 [''k''], Consume_channel (Some ''k'') (ex_channel\<lparr>cb_singletonKey := None\<rparr>) 2,
     Consume_channel (Some ''k'') ex_channel 3, Mint_channel ex_channel 4 [''k''], Consume_channel (Some ''k'') ex_channel 40000]"

lemma channel_permits_single_use_witness:
  "fst (channel_requests ex_opens (new_permit_store None)) =
     [Minted ''k'' (ex_channel\<lparr>cb_singletonKey := None\<rparr>, 30000), Accepted ''k'' (ex_channel\<lparr>cb_singletonKey := None\<rparr>, 30000) 2,
      Refused, Minted ''k'' (ex_channel\<lparr>cb_singletonKey := None\<rparr>, 30004), Refused] \<and>
   length (filter (accepted_as ''k'' (ex_channel\<lparr>cb_singletonKey := None\<rparr>, 30000))
     (fst (channel_requests ex_opens (new_permit_store None)))) \<le> 1"
proof -
  have es: "fst (channel_requests ex_opens (new_permit_store None)) =
     [Minted ''k'' (ex_channel\<lparr>cb_singletonKey := None\<rparr>, 30000), Accepted ''k'' (ex_channel\<lparr>cb_singletonKey := None\<rparr>, 30000) 2,
      Refused, Minted ''k'' (ex_channel\<lparr>cb_singletonKey := None\<rparr>, 30004), Refused]"
    by code_simp
  have "channel_requests ex_opens (new_permit_store None) =
      (fst (channel_requests ex_opens (new_permit_store None)), snd (channel_requests ex_opens (new_permit_store None)))" by simp
  from channel_permits_single_use [OF this, of "''k''" "ex_channel\<lparr>cb_singletonKey := None\<rparr>" 30000] es
  show ?thesis by simp
qed

end
