(* ===== verification/Goal_Tree.thy ===== *)
theory Goal_Tree
  imports Gate_Data
begin

text \<open>
  The tree of goals: the subtree walk and the cascade over it (\<open>src/server/agent/goal-subtree.ts\<close>,
  \<open>goal-descendants.ts\<close>), the nesting policy (\<open>subgoal-nesting-limit.ts\<close>), the pause guards
  (\<open>goal-paused-guard.ts\<close>) and the check of upstream gates (\<open>gate-dependency-check.ts\<close>).
  A goal names its parent; the tree is read off the list of all goals, or by looking ids up.
\<close>

section \<open>Goals\<close>

record goal =
  gl_id :: string
  gl_parentGoalId :: "string option"
  gl_archived :: bool
  gl_paused :: bool
  gl_state :: string
  gl_mergeConflict :: bool
  gl_subgoalsAllowed :: "bool option"
  gl_maxNestingDepth :: "js_num option"

type_synonym goal_lookup = "string \<Rightarrow> goal option"

section \<open>The subtree walk\<close>

definition SUBTREE_WALK_DEFAULT_DEPTH_CAP :: nat where "SUBTREE_WALK_DEFAULT_DEPTH_CAP = 32"

record walk_opts =
  wo_includeRoot :: bool
  wo_includeArchived :: bool
  wo_maxDepth :: nat
  wo_filter :: "(goal \<Rightarrow> bool) option"

definition default_walk :: walk_opts where
  "default_walk = \<lparr>wo_includeRoot = True, wo_includeArchived = False,
     wo_maxDepth = SUBTREE_WALK_DEFAULT_DEPTH_CAP, wo_filter = None\<rparr>"

definition accept :: "walk_opts \<Rightarrow> goal \<Rightarrow> bool" where
  "accept opts g =
     (if \<not> wo_includeArchived opts \<and> gl_archived g then False
      else (case wo_filter opts of Some f \<Rightarrow> f g | None \<Rightarrow> True))"

definition add_by_parent :: "(string \<times> goal list) list \<Rightarrow> goal \<Rightarrow> (string \<times> goal list) list" where
  "add_by_parent m g =
     (if \<not> truthy (gl_parentGoalId g) then m
      else let pid = the (gl_parentGoalId g) in
           if pid = gl_id g then m
           else AList.update pid (or_empty (map_of m pid) @ [g]) m)"

definition by_parent :: "goal list \<Rightarrow> (string \<times> goal list) list" where
  "by_parent goals = foldl add_by_parent [] goals"

definition by_id :: "goal list \<Rightarrow> (string \<times> goal) list" where
  "by_id goals = foldl (\<lambda>m g. AList.update (gl_id g) g m) [] goals"

record walk_state =
  ws_out :: "goal list"
  ws_seen :: "string list"
  ws_next :: "string list"

fun visit_kids :: "walk_opts \<Rightarrow> goal list \<Rightarrow> walk_state \<Rightarrow> walk_state" where
  "visit_kids opts [] s = s"
| "visit_kids opts (kid # kids) s =
     (if gl_id kid \<in> set (ws_seen s) then visit_kids opts kids s
      else visit_kids opts kids
             \<lparr>ws_out = (if accept opts kid then ws_out s @ [kid] else ws_out s),
              ws_seen = ws_seen s @ [gl_id kid], ws_next = ws_next s @ [gl_id kid]\<rparr>)"

fun visit_level :: "walk_opts \<Rightarrow> (string \<times> goal list) list \<Rightarrow> string list \<Rightarrow> walk_state \<Rightarrow> walk_state" where
  "visit_level opts m [] s = s"
| "visit_level opts m (p # ps) s = visit_level opts m ps (visit_kids opts (or_empty (map_of m p)) s)"

fun walk_levels :: "nat \<Rightarrow> walk_opts \<Rightarrow> (string \<times> goal list) list \<Rightarrow> string list \<Rightarrow> walk_state \<Rightarrow> walk_state" where
  "walk_levels 0 opts m frontier s = s"
| "walk_levels (Suc d) opts m frontier s =
     (if frontier = [] then s
      else let s' = visit_level opts m frontier (s\<lparr>ws_next := []\<rparr>) in walk_levels d opts m (ws_next s') s')"

definition root_out :: "string \<Rightarrow> goal list \<Rightarrow> walk_opts \<Rightarrow> goal list" where
  "root_out rootId goals opts =
     (if wo_includeRoot opts
      then (case map_of (by_id goals) rootId of Some g \<Rightarrow> if accept opts g then [g] else [] | None \<Rightarrow> [])
      else [])"

definition walkGoalSubtree :: "string \<Rightarrow> goal list \<Rightarrow> walk_opts \<Rightarrow> goal list" where
  "walkGoalSubtree rootId goals opts =
     (if rootId = [] then []
      else ws_out (walk_levels (wo_maxDepth opts) opts (by_parent goals) [rootId]
             \<lparr>ws_out = root_out rootId goals opts, ws_seen = [rootId], ws_next = []\<rparr>))"

definition collectDescendants :: "string \<Rightarrow> goal list \<Rightarrow> goal list" where
  "collectDescendants rootId goals =
     (if rootId = [] then []
      else walkGoalSubtree rootId goals (default_walk\<lparr>wo_includeRoot := False, wo_includeArchived := True\<rparr>))"

section \<open>The cascade\<close>

datatype cascade_order = Top_down | Bottom_up

record 'r cascade_result =
  cr_processed :: "(string \<times> 'r) list"
  cr_errors :: "(string \<times> string) list"

text \<open>The action of a goal may depend on what has been done before; here it is a state transformer.\<close>

fun cascade_nodes :: "('s \<Rightarrow> goal \<Rightarrow> (string + 'r) \<times> 's) \<Rightarrow> bool \<Rightarrow> goal list \<Rightarrow> 's \<Rightarrow> 'r cascade_result \<times> 's" where
  "cascade_nodes apply stop [] s = (\<lparr>cr_processed = [], cr_errors = []\<rparr>, s)"
| "cascade_nodes apply stop (g # gs) s =
     (case apply s g of
        (Inr r, s') \<Rightarrow>
          (case cascade_nodes apply stop gs s' of
             (res, s'') \<Rightarrow> (res\<lparr>cr_processed := (gl_id g, r) # cr_processed res\<rparr>, s''))
      | (Inl e, s') \<Rightarrow>
          if stop then (\<lparr>cr_processed = [], cr_errors = [(gl_id g, e)]\<rparr>, s')
          else (case cascade_nodes apply stop gs s' of
                  (res, s'') \<Rightarrow> (res\<lparr>cr_errors := (gl_id g, e) # cr_errors res\<rparr>, s'')))"

definition cascade_list :: "string \<Rightarrow> goal list \<Rightarrow> walk_opts \<Rightarrow> cascade_order \<Rightarrow> goal list" where
  "cascade_list rootId goals opts order =
     (let nodes = walkGoalSubtree rootId goals opts in if order = Bottom_up then rev nodes else nodes)"

definition cascadeSubtree ::
  "string \<Rightarrow> goal list \<Rightarrow> walk_opts \<Rightarrow> ('s \<Rightarrow> goal \<Rightarrow> (string + 'r) \<times> 's) \<Rightarrow> cascade_order \<Rightarrow> bool \<Rightarrow> 's \<Rightarrow> 'r cascade_result \<times> 's" where
  "cascadeSubtree rootId goals opts apply order stop s =
     cascade_nodes apply stop (cascade_list rootId goals opts order) s"

section \<open>Descendants in the plan tab\<close>

datatype descendant_status = D_pending | D_running | D_passed | D_failed

definition aggregateGateStatus :: "goal \<Rightarrow> (string \<times> gate_status) list \<Rightarrow> bool \<Rightarrow> descendant_status" where
  "aggregateGateStatus g gates active =
     (if list_ex (\<lambda>x. snd x = Failed) gates then D_failed
      else if active then D_running
      else if (gl_archived g \<and> gl_state g = ''complete'') \<or>
              list_ex (\<lambda>x. fst x = ''ready-to-merge'' \<and> snd x = Passed) gates \<or>
              (gates \<noteq> [] \<and> list_all (\<lambda>x. snd x = Passed) gates) then D_passed
      else D_pending)"

definition enrichDescendantsForPlan ::
  "goal list \<Rightarrow> (string \<Rightarrow> (string \<times> gate_status) list) \<Rightarrow> (string \<Rightarrow> bool) \<Rightarrow> (goal \<times> bool \<times> descendant_status) list" where
  "enrichDescendantsForPlan descendants gatesOf active =
     map (\<lambda>g. (g, gl_mergeConflict g, aggregateGateStatus g (gatesOf (gl_id g)) (active (gl_id g)))) descendants"

section \<open>The nesting policy\<close>

definition SYSTEM_MAX_NESTING_DEPTH_DEFAULT :: int where "SYSTEM_MAX_NESTING_DEPTH_DEFAULT = 3"
definition SYSTEM_MAX_NESTING_DEPTH_MIN :: int where "SYSTEM_MAX_NESTING_DEPTH_MIN = 1"
definition SYSTEM_MAX_NESTING_DEPTH_MAX :: int where "SYSTEM_MAX_NESTING_DEPTH_MAX = 10"

record nesting_prefs =
  np_subgoalsEnabled :: bool
  np_maxNestingDepth :: int

fun clampMaxDepth :: "js_num \<Rightarrow> int" where
  "clampMaxDepth (Fin q) =
     (if \<lfloor>q\<rfloor> < SYSTEM_MAX_NESTING_DEPTH_MIN then SYSTEM_MAX_NESTING_DEPTH_MIN
      else if \<lfloor>q\<rfloor> > SYSTEM_MAX_NESTING_DEPTH_MAX then SYSTEM_MAX_NESTING_DEPTH_MAX
      else \<lfloor>q\<rfloor>)"
| "clampMaxDepth _ = SYSTEM_MAX_NESTING_DEPTH_DEFAULT"

definition readSubgoalNestingPrefs :: "(string \<Rightarrow> js) \<Rightarrow> nesting_prefs" where
  "readSubgoalNestingPrefs prefsGet =
     \<lparr>np_subgoalsEnabled = (prefsGet ''subgoalsEnabled'' = JBool True),
      np_maxNestingDepth = clampMaxDepth
        (case prefsGet ''maxNestingDepth'' of
           JNum n \<Rightarrow> if is_finite n then n else Fin (of_int SYSTEM_MAX_NESTING_DEPTH_DEFAULT)
         | _ \<Rightarrow> Fin (of_int SYSTEM_MAX_NESTING_DEPTH_DEFAULT))\<rparr>"

text \<open>
  The loops that walk up the parents end after at most 64 goals; the recursion is on what is left
  of that bound (\<open>64 - depth\<close>, \<open>64 - seen.size\<close>, \<open>64 - hops\<close>).
\<close>

fun depth_walk :: "nat \<Rightarrow> goal_lookup \<Rightarrow> string list \<Rightarrow> goal \<Rightarrow> nat \<Rightarrow> nat" where
  "depth_walk 0 lookup seen g depth = depth"
| "depth_walk (Suc left) lookup seen g depth =
     (if \<not> truthy (gl_parentGoalId g) \<or> gl_id g \<in> set seen then depth
      else (case lookup (the (gl_parentGoalId g)) of
              None \<Rightarrow> depth
            | Some parent \<Rightarrow>
              if depth + 1 \<ge> 64 then depth + 1
              else depth_walk left lookup (gl_id g # seen) parent (depth + 1)))"

definition nestingDepth :: "goal \<Rightarrow> goal_lookup \<Rightarrow> nat" where
  "nestingDepth g lookup = depth_walk 63 lookup [] g 1"

definition effectiveSubgoalsAllowed :: "goal option \<Rightarrow> nesting_prefs \<Rightarrow> bool" where
  "effectiveSubgoalsAllowed g prefs =
     (if \<not> np_subgoalsEnabled prefs then False
      else (case g of Some g \<Rightarrow> gl_subgoalsAllowed g \<noteq> Some False | None \<Rightarrow> True))"

definition tighten :: "goal \<Rightarrow> int \<Rightarrow> int" where
  "tighten g cap = (case gl_maxNestingDepth g of
     Some (Fin q) \<Rightarrow> min cap (clampMaxDepth (Fin q)) | _ \<Rightarrow> cap)"

fun cap_walk :: "nat \<Rightarrow> goal_lookup option \<Rightarrow> string list \<Rightarrow> goal option \<Rightarrow> int \<Rightarrow> int" where
  "cap_walk left lookup seen None cap = cap"
| "cap_walk 0 lookup seen (Some g) cap = cap"
| "cap_walk (Suc left) lookup seen (Some g) cap =
     (if gl_id g \<in> set seen then cap
      else
        let cap' = tighten g cap in
        (case lookup of
           None \<Rightarrow> cap'
         | Some f \<Rightarrow>
           if \<not> truthy (gl_parentGoalId g) then cap'
           else if length (gl_id g # seen) \<ge> 64 then cap'
           else cap_walk left lookup (gl_id g # seen) (f (the (gl_parentGoalId g))) cap'))"

definition effectiveMaxNestingDepth :: "goal option \<Rightarrow> nesting_prefs \<Rightarrow> goal_lookup option \<Rightarrow> int" where
  "effectiveMaxNestingDepth g prefs lookup = cap_walk 64 lookup [] g (np_maxNestingDepth prefs)"

datatype nesting_check =
    Nesting_ok int int
  | Subgoals_disabled
  | Parent_subgoals_disabled
  | Nesting_exceeded int int

definition checkCanSpawnChild :: "goal \<Rightarrow> nesting_prefs \<Rightarrow> goal_lookup \<Rightarrow> nesting_check" where
  "checkCanSpawnChild parent prefs lookup =
     (if \<not> np_subgoalsEnabled prefs then Subgoals_disabled
      else if gl_subgoalsAllowed parent = Some False then Parent_subgoals_disabled
      else
        let maxDepth = effectiveMaxNestingDepth (Some parent) prefs (Some lookup);
            currentDepth = int (nestingDepth parent lookup) in
        if currentDepth + 1 > maxDepth then Nesting_exceeded currentDepth maxDepth
        else Nesting_ok (currentDepth + 1) maxDepth)"

definition inheritedChildOverrides :: "goal \<Rightarrow> nesting_prefs \<Rightarrow> goal_lookup option \<Rightarrow> bool \<times> int" where
  "inheritedChildOverrides parent prefs lookup =
     (effectiveSubgoalsAllowed (Some parent) prefs, effectiveMaxNestingDepth (Some parent) prefs lookup)"

section \<open>Pause guards\<close>

text \<open>\<open>Inl\<close> is the \<open>GoalPausedError\<close> with the id of the paused goal.\<close>

definition requireGoalNotPaused :: "string \<Rightarrow> goal_lookup \<Rightarrow> string + unit" where
  "requireGoalNotPaused goalId lookup =
     (case lookup goalId of Some g \<Rightarrow> if gl_paused g then Inl goalId else Inr () | None \<Rightarrow> Inr ())"

fun pause_walk :: "nat \<Rightarrow> goal_lookup \<Rightarrow> string list \<Rightarrow> string option \<Rightarrow> string + unit" where
  "pause_walk 0 lookup seen cur = Inr ()"
| "pause_walk (Suc left) lookup seen cur =
     (if \<not> truthy cur \<or> the cur \<in> set seen then Inr ()
      else (case lookup (the cur) of
              None \<Rightarrow> Inr ()
            | Some g \<Rightarrow>
              if gl_paused g then Inl (the cur)
              else pause_walk left lookup (the cur # seen) (gl_parentGoalId g)))"

definition requireAncestorsNotPaused :: "string \<Rightarrow> goal_lookup \<Rightarrow> string + unit" where
  "requireAncestorsNotPaused goalId lookup = pause_walk 64 lookup [] (Some goalId)"

section \<open>Upstream gates\<close>

record gate_def =
  gd_id :: string
  gd_name :: string
  gd_dependsOn :: "string list"

definition gate_label :: "gate_def list \<Rightarrow> string \<Rightarrow> string" where
  "gate_label gates i =
     (case find (\<lambda>g. gd_id g = i) gates of
        Some d \<Rightarrow> gd_name d @ '' ('' @ i @ '')'' | None \<Rightarrow> i)"

definition checkGateDependencies ::
  "string option \<Rightarrow> gate_def list \<Rightarrow> (string \<times> string) list \<Rightarrow> string option" where
  "checkGateDependencies workflowGateId gates states =
     (if \<not> truthy workflowGateId then None
      else (case find (\<lambda>g. gd_id g = the workflowGateId) gates of
          None \<Rightarrow> None
        | Some wfGate \<Rightarrow>
          let passedIds = set (map fst (filter (\<lambda>s. snd s = ''passed'' \<or> snd s = ''bypassed'') states));
              notPassed = filter (\<lambda>d. d \<notin> passedIds) (gd_dependsOn wfGate) in
          if notPassed = [] then None
          else Some (''Upstream gate(s) not passed: '' @ js_join '', '' (map (gate_label gates) notPassed) @
                     ''. Cannot proceed for gate \"'' @ the workflowGateId @ ''\" until dependencies are met.'')))"

end
