(* ===== verification/Goal_Policy.thy ===== *)
theory Goal_Policy
  imports Goal_Tree
begin

text \<open>
  What the walks over the goal tree compute: the subtree walk finds exactly the accepted goals
  within the depth bound, parents before children; the three bounded walks up the parents see the
  whole chain, so the nesting policy and the pause guard are exact.
\<close>

section \<open>The edges of the tree\<close>

definition edges :: "goal list \<Rightarrow> (string \<times> string) set" where
  "edges goals = {(p, c). \<exists>g \<in> set goals. gl_id g = c \<and> gl_parentGoalId g = Some p \<and> p \<noteq> [] \<and> p \<noteq> c}"

definition kids :: "goal list \<Rightarrow> string \<Rightarrow> goal list" where
  "kids goals p = filter (\<lambda>g. gl_parentGoalId g = Some p \<and> p \<noteq> [] \<and> p \<noteq> gl_id g) goals"

lemma by_parent_fold:
  "or_empty (map_of (foldl add_by_parent m goals) p) = or_empty (map_of m p) @ kids goals p"
proof (induction goals arbitrary: m)
  case (Cons g goals)
  show ?case
  proof (cases "truthy (gl_parentGoalId g) \<and> the (gl_parentGoalId g) \<noteq> gl_id g")
    case True
    then obtain q where q: "gl_parentGoalId g = Some q" "q \<noteq> []" "q \<noteq> gl_id g" by (auto elim: truthyE)
    then have "add_by_parent m g = AList.update q (or_empty (map_of m q) @ [g]) m" by (simp add: add_by_parent_def)
    with q show ?thesis by (simp add: Cons kids_def)
  next
    case False
    then have "add_by_parent m g = m" "\<not> (gl_parentGoalId g = Some p \<and> p \<noteq> [] \<and> p \<noteq> gl_id g)"
      by (auto simp: add_by_parent_def)
    then show ?thesis by (simp add: Cons kids_def)
  qed
qed (simp add: kids_def)

lemma by_parent_kids [simp]: "or_empty (map_of (by_parent goals) p) = kids goals p"
  using by_parent_fold [of "[]"] by (simp add: by_parent_def)

lemma kids_edges: "gl_id ` set (kids goals p) = {c. (p, c) \<in> edges goals}"
  by (auto simp: kids_def edges_def)

section \<open>One level\<close>

text \<open>\<open>grows goals opts ks s s'\<close>: the walk goes from \<open>s\<close> to \<open>s'\<close> by the new goals \<open>ks\<close>.\<close>

definition grows :: "walk_opts \<Rightarrow> goal list \<Rightarrow> walk_state \<Rightarrow> walk_state \<Rightarrow> bool" where
  "grows opts ks s s' \<longleftrightarrow>
     ws_out s' = ws_out s @ filter (accept opts) ks \<and> ws_seen s' = ws_seen s @ map gl_id ks \<and>
     distinct (map gl_id ks) \<and> gl_id ` set ks \<inter> set (ws_seen s) = {}"

lemma walk_grows_trans: "grows opts ks s s' \<Longrightarrow> grows opts ks' s' s'' \<Longrightarrow> grows opts (ks @ ks') s s''"
  by (auto simp: grows_def)

lemma visit_kids_grows:
  "\<exists>ks. grows opts ks s (visit_kids opts goals s) \<and> ws_next (visit_kids opts goals s) = ws_next s @ map gl_id ks \<and>
     set ks \<subseteq> set goals \<and> gl_id ` set ks = gl_id ` set goals - set (ws_seen s)"
proof (induction goals arbitrary: s)
  case Nil
  show ?case by (rule exI [of _ "[]"]) (simp add: grows_def)
next
  case (Cons g goals)
  show ?case
  proof (cases "gl_id g \<in> set (ws_seen s)")
    case True
    with Cons.IH [of s] show ?thesis by auto
  next
    case False
    let ?s = "\<lparr>ws_out = (if accept opts g then ws_out s @ [g] else ws_out s),
              ws_seen = ws_seen s @ [gl_id g], ws_next = ws_next s @ [gl_id g]\<rparr>"
    from Cons.IH [of ?s] obtain ks where ks: "grows opts ks ?s (visit_kids opts goals ?s)"
      "ws_next (visit_kids opts goals ?s) = ws_next ?s @ map gl_id ks" "set ks \<subseteq> set goals"
      "gl_id ` set ks = gl_id ` set goals - set (ws_seen ?s)" by blast
    then have "grows opts (g # ks) s (visit_kids opts (g # goals) s)" using False by (auto simp: grows_def)
    with ks False show ?thesis by (intro exI [of _ "g # ks"]) auto
  qed
qed

lemma visit_level_grows:
  "\<exists>ks. grows opts ks s (visit_level opts (by_parent goals) ps s) \<and>
     ws_next (visit_level opts (by_parent goals) ps s) = ws_next s @ map gl_id ks \<and>
     set ks \<subseteq> (\<Union>p \<in> set ps. set (kids goals p)) \<and>
     gl_id ` set ks = edges goals `` set ps - set (ws_seen s)"
proof (induction ps arbitrary: s)
  case Nil
  show ?case by (rule exI [of _ "[]"]) (simp add: grows_def)
next
  case (Cons p ps)
  let ?s = "visit_kids opts (kids goals p) s"
  obtain ks where ks: "grows opts ks s ?s" "ws_next ?s = ws_next s @ map gl_id ks" "set ks \<subseteq> set (kids goals p)"
    "gl_id ` set ks = gl_id ` set (kids goals p) - set (ws_seen s)" using visit_kids_grows by blast
  obtain ks' where ks': "grows opts ks' ?s (visit_level opts (by_parent goals) ps ?s)"
    "ws_next (visit_level opts (by_parent goals) ps ?s) = ws_next ?s @ map gl_id ks'"
    "set ks' \<subseteq> (\<Union>p \<in> set ps. set (kids goals p))" "gl_id ` set ks' = edges goals `` set ps - set (ws_seen ?s)"
    using Cons.IH [of ?s] by (elim exE conjE)
  let ?K = "{c. (p, c) \<in> edges goals}" let ?S = "set (ws_seen s)"
  have seen: "set (ws_seen ?s) = ?S \<union> gl_id ` set ks" using ks(1) by (simp add: grows_def)
  have "gl_id ` set (ks @ ks') = (?K - ?S) \<union> (edges goals `` set ps - (?S \<union> (?K - ?S)))"
    by (simp only: set_append image_Un ks(4) ks'(4) seen kids_edges)
  also have "\<dots> = (?K \<union> edges goals `` set ps) - ?S" by blast
  also have "?K \<union> edges goals `` set ps = edges goals `` set (p # ps)" by auto
  finally have "gl_id ` set (ks @ ks') = edges goals `` set (p # ps) - ?S" .
  moreover have "visit_level opts (by_parent goals) (p # ps) s = visit_level opts (by_parent goals) ps ?s" by simp
  moreover have "ws_next (visit_level opts (by_parent goals) ps ?s) = ws_next s @ map gl_id (ks @ ks')"
    using ks(2) ks'(2) by simp
  moreover have "set (ks @ ks') \<subseteq> (\<Union>p \<in> set (p # ps). set (kids goals p))" using ks(3) ks'(3) by auto
  ultimately show ?case using walk_grows_trans [OF ks(1) ks'(1)] by metis
qed

section \<open>All levels\<close>

definition reach :: "(string \<times> string) set \<Rightarrow> nat \<Rightarrow> string set \<Rightarrow> string set" where
  "reach E d F = {x. \<exists>n \<le> d. \<exists>f \<in> F. (f, x) \<in> E ^^ n}"

lemma leaves_seen:
  assumes "\<And>p c. (p, c) \<in> E \<Longrightarrow> p \<in> S \<Longrightarrow> p \<in> F \<or> c \<in> S"
  shows "y \<in> S \<Longrightarrow> (y, x) \<in> E ^^ m \<Longrightarrow> x \<notin> S \<Longrightarrow> \<exists>f \<in> F. \<exists>c. c \<notin> S \<and> (f, c) \<in> E \<and> (\<exists>j < m. (c, x) \<in> E ^^ j)"
proof (induction m arbitrary: y)
  case (Suc m)
  from Suc.prems(2) obtain z where z: "(y, z) \<in> E" "(z, x) \<in> E ^^ m" by (blast dest: relpow_Suc_D2)
  show ?case
  proof (cases "z \<in> S")
    case True
    from Suc.IH [OF this z(2) Suc.prems(3)] show ?thesis using less_Suc_eq by blast
  next
    case False
    with assms [OF z(1) Suc.prems(1)] z show ?thesis by blast
  qed
qed simp

text \<open>No later goal is the parent of an earlier one.\<close>

definition parents_first :: "goal list \<Rightarrow> goal list \<Rightarrow> bool" where
  "parents_first goals ks \<longleftrightarrow> sorted_wrt (\<lambda>a b. (gl_id b, gl_id a) \<notin> edges goals) ks"

lemma one_parent: "distinct (map gl_id goals) \<Longrightarrow> (p, c) \<in> edges goals \<Longrightarrow> (q, c) \<in> edges goals \<Longrightarrow> p = q"
  by (auto simp: edges_def distinct_map inj_on_def)

lemma walk_levels_grows:
  assumes "distinct (map gl_id goals)" and "set frontier \<subseteq> set (ws_seen s)"
    and "\<And>p c. (p, c) \<in> edges goals \<Longrightarrow> p \<in> set (ws_seen s) \<Longrightarrow> p \<in> set frontier \<or> c \<in> set (ws_seen s)"
  shows "\<exists>ks. grows opts ks s (walk_levels d opts (by_parent goals) frontier s) \<and> set ks \<subseteq> set goals \<and>
     gl_id ` set ks = reach (edges goals) d (set frontier) - set (ws_seen s) \<and> parents_first goals ks"
  using assms(2,3)
proof (induction d arbitrary: frontier s)
  case 0
  have "reach (edges goals) 0 (set frontier) = set frontier" by (auto simp: reach_def)
  with 0 show ?case by (intro exI [of _ "[]"]) (auto simp: grows_def parents_first_def)
next
  case (Suc d)
  let ?E = "edges goals"
  show ?case
  proof (cases "frontier = []")
    case True
    then show ?thesis by (intro exI [of _ "[]"]) (auto simp: grows_def parents_first_def reach_def)
  next
    case False
    let ?s = "visit_level opts (by_parent goals) frontier (s\<lparr>ws_next := []\<rparr>)"
    obtain ks where ks: "grows opts ks (s\<lparr>ws_next := []\<rparr>) ?s" "ws_next ?s = map gl_id ks"
      "set ks \<subseteq> (\<Union>p \<in> set frontier. set (kids goals p))" "gl_id ` set ks = ?E `` set frontier - set (ws_seen s)"
      using visit_level_grows [of opts "s\<lparr>ws_next := []\<rparr>" goals frontier] by auto
    have g1: "grows opts ks s ?s" using ks(1) by (simp add: grows_def)
    then have seen: "set (ws_seen ?s) = set (ws_seen s) \<union> gl_id ` set ks" by (simp add: grows_def)
    have inv: "p \<in> set (ws_next ?s) \<or> c \<in> set (ws_seen ?s)" if "(p, c) \<in> ?E" "p \<in> set (ws_seen ?s)" for p c
      using that Suc.prems(2) [of p c] ks(2,4) seen by auto
    obtain ks' where ks': "grows opts ks' ?s (walk_levels d opts (by_parent goals) (ws_next ?s) ?s)" "set ks' \<subseteq> set goals"
      "gl_id ` set ks' = reach ?E d (set (ws_next ?s)) - set (ws_seen ?s)" "parents_first goals ks'"
      using Suc.IH [of "ws_next ?s" ?s, OF _ inv] seen ks(2) by auto
    have walk: "walk_levels (Suc d) opts (by_parent goals) frontier s = walk_levels d opts (by_parent goals) (ws_next ?s) ?s"
      using False by (simp add: Let_def)
    have out: "gl_id ` set (ks @ ks') = reach ?E (Suc d) (set frontier) - set (ws_seen s)"
    proof (rule set_eqI, rule iffI)
      fix x assume "x \<in> gl_id ` set (ks @ ks')"
      then consider "x \<in> gl_id ` set ks" | "x \<in> gl_id ` set ks'" by auto
      then show "x \<in> reach ?E (Suc d) (set frontier) - set (ws_seen s)"
      proof cases
        case 1
        note x = 1 [unfolded ks(4)]
        then obtain f where "f \<in> set frontier" "(f, x) \<in> ?E ^^ 1" by auto
        then have "x \<in> reach ?E (Suc d) (set frontier)" unfolding reach_def by (intro CollectI exI [of _ 1]) auto
        with x show ?thesis by simp
      next
        case 2
        have next_ks: "set (ws_next ?s) = gl_id ` set ks" using ks(2) by simp
        note x = 2 [unfolded ks'(3) next_ks]
        then obtain n c where n: "n \<le> d" "c \<in> gl_id ` set ks" "(c, x) \<in> ?E ^^ n" unfolding reach_def by blast
        from n(2) obtain f where "f \<in> set frontier" "(f, c) \<in> ?E" unfolding ks(4) by auto
        then have "(f, x) \<in> ?E ^^ Suc n" using n(3) relpow_Suc_I2 by metis
        then have "x \<in> reach ?E (Suc d) (set frontier)" using \<open>f \<in> set frontier\<close> n(1) unfolding reach_def by blast
        with x seen show ?thesis by simp
      qed
    next
      fix x assume "x \<in> reach ?E (Suc d) (set frontier) - set (ws_seen s)"
      then obtain n f where n: "n \<le> Suc d" "f \<in> set frontier" "(f, x) \<in> ?E ^^ n" and x: "x \<notin> set (ws_seen s)"
        by (auto simp: reach_def)
      from leaves_seen [of ?E "set (ws_seen s)" "set frontier", OF Suc.prems(2) _ n(3) x] n(2) Suc.prems(1)
      obtain f' c j where c: "f' \<in> set frontier" "c \<notin> set (ws_seen s)" "(f', c) \<in> ?E" "j < n" "(c, x) \<in> ?E ^^ j" by blast
      then have ck: "c \<in> gl_id ` set ks" using ks(4) by blast
      have "j \<le> d" using c(4) n(1) by simp
      with ck c(5) have "x \<in> reach ?E d (gl_id ` set ks)" unfolding reach_def by blast
      then have "x \<in> reach ?E d (set (ws_next ?s))" using ks(2) by simp
      with ks'(3) seen x show "x \<in> gl_id ` set (ks @ ks')" by auto
    qed
    have "parents_first goals (ks @ ks')"
    proof -
      have parent: "\<exists>f \<in> set (ws_seen s). (f, gl_id a) \<in> ?E" if "a \<in> set ks" for a
        using that ks(4) Suc.prems(1) by blast
      have "(gl_id b, gl_id a) \<notin> ?E" if "a \<in> set ks" "gl_id b \<notin> set (ws_seen s)" for a b
        using parent [OF that(1)] one_parent [OF assms(1)] that(2) by metis
      moreover have "gl_id b \<notin> set (ws_seen s)" if "b \<in> set (ks @ ks')" for b
        using that g1 ks'(1) seen by (auto simp: grows_def)
      ultimately show ?thesis
        using ks'(4) by (auto simp: parents_first_def sorted_wrt_append intro: sorted_wrt_mono_rel [of ks "\<lambda>_ _. True"])
    qed
    with out walk_grows_trans [OF g1 ks'(1)] ks(3) ks'(2) show ?thesis
      unfolding walk by (intro exI [of _ "ks @ ks'"]) (auto simp: kids_def)
  qed
qed

section \<open>The subtree\<close>

lemma by_id_map_of: "map_of (foldl (\<lambda>m g. AList.update (gl_id g) g m) m goals) i =
   (case find (\<lambda>g. gl_id g = i) (rev goals) of Some g \<Rightarrow> Some g | None \<Rightarrow> map_of m i)"
  by (induction goals rule: rev_induct) simp_all

lemma find_in: "find P xs = Some x \<Longrightarrow> x \<in> set xs \<and> P x"
  by (induction xs) (auto split: if_splits)

lemma by_id_in: "map_of (by_id goals) i = Some g \<Longrightarrow> g \<in> set goals \<and> gl_id g = i"
  by (auto simp: by_id_def by_id_map_of dest: find_in split: option.splits)

lemma by_id_some:
  assumes "distinct (map gl_id goals)" and "g \<in> set goals"
  shows "map_of (by_id goals) (gl_id g) = Some g"
proof -
  have "find (\<lambda>h. gl_id h = gl_id g) (rev goals) \<noteq> None" using assms(2) by (auto simp: find_None_iff)
  then obtain h where h: "map_of (by_id goals) (gl_id g) = Some h" by (auto simp: by_id_def by_id_map_of)
  with by_id_in [OF h] assms have "h = g" by (auto simp: distinct_map inj_on_def)
  with h show ?thesis by simp
qed

lemma root_out_set:
  assumes "distinct (map gl_id goals)"
  shows "g \<in> set (root_out i goals opts) \<longleftrightarrow> g \<in> set goals \<and> gl_id g = i \<and> wo_includeRoot opts \<and> accept opts g"
    and "length (root_out i goals opts) \<le> 1"
proof -
  have found: "map_of (by_id goals) i = Some g \<longleftrightarrow> g \<in> set goals \<and> gl_id g = i" for g
    using by_id_some [OF assms, of g] by_id_in [of goals i g] by metis
  show "g \<in> set (root_out i goals opts) \<longleftrightarrow> g \<in> set goals \<and> gl_id g = i \<and> wo_includeRoot opts \<and> accept opts g"
  proof (cases "map_of (by_id goals) i")
    case None
    then have "root_out i goals opts = []" unfolding root_out_def by simp
    then show ?thesis using found [of g] None by (metis empty_iff list.set(1) option.distinct(1))
  next
    case (Some h)
    then have "root_out i goals opts = (if wo_includeRoot opts \<and> accept opts h then [h] else [])" unfolding root_out_def by simp
    then show ?thesis using found [of g] Some by (metis empty_iff list.set(1) list.set_intros(1) option.inject set_ConsD)
  qed
  show "length (root_out i goals opts) \<le> 1" by (simp add: root_out_def split: option.split)
qed

lemma walk_spec:
  assumes d: "distinct (map gl_id goals)" and r: "rootId \<noteq> []"
  obtains ks where "walkGoalSubtree rootId goals opts = root_out rootId goals opts @ filter (accept opts) ks"
    and "set ks \<subseteq> set goals" and "gl_id ` set ks = reach (edges goals) (wo_maxDepth opts) {rootId} - {rootId}"
    and "distinct (map gl_id ks)" and "parents_first goals ks"
proof -
  let ?s = "\<lparr>ws_out = root_out rootId goals opts, ws_seen = [rootId], ws_next = []\<rparr>"
  obtain ks where ks: "grows opts ks ?s (walk_levels (wo_maxDepth opts) opts (by_parent goals) [rootId] ?s)" "set ks \<subseteq> set goals"
    "gl_id ` set ks = reach (edges goals) (wo_maxDepth opts) (set [rootId]) - set (ws_seen ?s)" "parents_first goals ks"
    using walk_levels_grows [OF d, where frontier = "[rootId]" and s = ?s and d = "wo_maxDepth opts" and opts = opts] by auto
  then show ?thesis using that [of ks] r by (simp add: walkGoalSubtree_def grows_def)
qed

lemma walkGoalSubtree_exact_facts:
  assumes "distinct (map gl_id goals)" and "rootId \<noteq> []"
  shows "set (walkGoalSubtree rootId goals opts) =
      {g \<in> set goals. accept opts g \<and>
         (if gl_id g = rootId then wo_includeRoot opts
          else \<exists>n \<le> wo_maxDepth opts. (rootId, gl_id g) \<in> edges goals ^^ n)}"
    and "distinct (map gl_id (walkGoalSubtree rootId goals opts))"
proof -
  obtain ks where ks: "walkGoalSubtree rootId goals opts = root_out rootId goals opts @ filter (accept opts) ks"
    "set ks \<subseteq> set goals" "gl_id ` set ks = reach (edges goals) (wo_maxDepth opts) {rootId} - {rootId}" "distinct (map gl_id ks)"
    by (rule walk_spec [OF assms])
  have in_ks: "g \<in> set ks \<longleftrightarrow> g \<in> set goals \<and> gl_id g \<in> reach (edges goals) (wo_maxDepth opts) {rootId} - {rootId}" for g
  proof
    assume "g \<in> set goals \<and> gl_id g \<in> reach (edges goals) (wo_maxDepth opts) {rootId} - {rootId}"
    then have "g \<in> set goals" "gl_id g \<in> gl_id ` set ks" using ks(3) by simp_all
    then show "g \<in> set ks" using assms(1) ks(2) by (auto simp: distinct_map inj_on_def)
  next
    assume g: "g \<in> set ks"
    then have "gl_id g \<in> gl_id ` set ks" by simp
    with g show "g \<in> set goals \<and> gl_id g \<in> reach (edges goals) (wo_maxDepth opts) {rootId} - {rootId}"
      unfolding ks(3) using ks(2) by blast
  qed
  show "set (walkGoalSubtree rootId goals opts) =
      {g \<in> set goals. accept opts g \<and> (if gl_id g = rootId then wo_includeRoot opts
          else \<exists>n \<le> wo_maxDepth opts. (rootId, gl_id g) \<in> edges goals ^^ n)}"
    by (rule set_eqI) (auto simp: ks(1) root_out_set(1) [OF assms(1)] in_ks reach_def)
  have "distinct (map gl_id (root_out rootId goals opts))"
    using root_out_set(2) [OF assms(1), of rootId opts] by (cases "root_out rootId goals opts") auto
  moreover have "gl_id ` set (root_out rootId goals opts) \<subseteq> {rootId}" using root_out_set(1) [OF assms(1)] by blast
  moreover have "rootId \<notin> gl_id ` set ks" unfolding ks(3) by simp
  ultimately show "distinct (map gl_id (walkGoalSubtree rootId goals opts))"
    using ks(4) by (auto simp: ks(1) distinct_map_filter)
qed

text \<open>The subtree walk returns exactly the goals it should, each once: the root when it is asked for,
  and every goal that is reached from the root over at most \<open>maxDepth\<close> parent links, in both cases
  when it passes the archived and custom filters. A goal that is filtered out still lets the walk
  through to its children.\<close>
theorem walkGoalSubtree_exact:
  assumes "distinct (map gl_id goals)" and "rootId \<noteq> []"
  shows "(set (walkGoalSubtree rootId goals opts) =
      {g \<in> set goals. accept opts g \<and>
         (if gl_id g = rootId then wo_includeRoot opts
          else \<exists>n \<le> wo_maxDepth opts. (rootId, gl_id g) \<in> edges goals ^^ n)}) \<and>
    (distinct (map gl_id (walkGoalSubtree rootId goals opts)))"
  by (intro conjI walkGoalSubtree_exact_facts [OF assms])

section \<open>The cascade\<close>

lemma cascade_nodes_all:
  "cascade_nodes f False gs s = (res, s') \<Longrightarrow>
   mset (map fst (cr_processed res)) + mset (map fst (cr_errors res)) = mset (map gl_id gs) \<and>
   s' = foldl (\<lambda>s g. snd (f s g)) s gs"
  by (induction gs arbitrary: s res) (auto split: prod.splits sum.splits)

lemma cascade_covers_subtree_facts:
  assumes "distinct (map gl_id goals)" and "rootId \<noteq> []"
    and "cascadeSubtree rootId goals opts f order False s = (res, s')"
  shows "mset (map fst (cr_processed res)) + mset (map fst (cr_errors res)) = mset (map gl_id (walkGoalSubtree rootId goals opts))"
    and "s' = foldl (\<lambda>s g. snd (f s g)) s (cascade_list rootId goals opts order)"
    and "sorted_wrt (\<lambda>a b. (if order = Bottom_up then gl_id b = rootId \<or> (gl_id a, gl_id b) \<notin> edges goals
           else gl_id a = rootId \<or> (gl_id b, gl_id a) \<notin> edges goals)) (cascade_list rootId goals opts order)"
proof -
  have c: "cascade_nodes f False (cascade_list rootId goals opts order) s = (res, s')"
    using assms(3) by (simp add: cascadeSubtree_def)
  have "mset (map gl_id (cascade_list rootId goals opts order)) = mset (map gl_id (walkGoalSubtree rootId goals opts))"
    by (simp add: cascade_list_def Let_def rev_map [symmetric])
  then show "mset (map fst (cr_processed res)) + mset (map fst (cr_errors res)) = mset (map gl_id (walkGoalSubtree rootId goals opts))"
    and "s' = foldl (\<lambda>s g. snd (f s g)) s (cascade_list rootId goals opts order)"
    using cascade_nodes_all [OF c] by simp_all
  obtain ks where ks: "walkGoalSubtree rootId goals opts = root_out rootId goals opts @ filter (accept opts) ks" "parents_first goals ks"
    by (rule walk_spec [OF assms(1,2)])
  let ?P = "\<lambda>a b. gl_id a = rootId \<or> (gl_id b, gl_id a) \<notin> edges goals"
  have "sorted_wrt ?P (filter (accept opts) ks)"
    using ks(2) unfolding parents_first_def by (intro sorted_wrt_filter) (erule sorted_wrt_mono_rel [rotated], simp)
  moreover have "sorted_wrt ?P (root_out rootId goals opts)"
  proof -
    have "length l \<le> 1 \<Longrightarrow> sorted_wrt ?P l" for l by (cases l) auto
    then show ?thesis using root_out_set(2) [OF assms(1)] by blast
  qed
  moreover have "\<forall>g \<in> set (root_out rootId goals opts). gl_id g = rootId"
    using root_out_set(1) [OF assms(1)] by blast
  ultimately have "sorted_wrt ?P (walkGoalSubtree rootId goals opts)" by (simp add: ks(1) sorted_wrt_append)
  then show "sorted_wrt (\<lambda>a b. (if order = Bottom_up then gl_id b = rootId \<or> (gl_id a, gl_id b) \<notin> edges goals
           else gl_id a = rootId \<or> (gl_id b, gl_id a) \<notin> edges goals)) (cascade_list rootId goals opts order)"
    by (cases "order = Bottom_up") (simp_all add: cascade_list_def Let_def sorted_wrt_rev)
qed

text \<open>A cascade that does not stop on errors applies its action to every goal of the subtree exactly
  once and reports each either as processed or as an error; bottom-up, no goal (other than a root that
  is in a cycle) is handled before one of its children, top-down none before its parent.\<close>
theorem cascade_covers_subtree:
  assumes "distinct (map gl_id goals)" and "rootId \<noteq> []"
    and "cascadeSubtree rootId goals opts f order False s = (res, s')"
  shows "(mset (map fst (cr_processed res)) + mset (map fst (cr_errors res)) = mset (map gl_id (walkGoalSubtree rootId goals opts))) \<and>
    (s' = foldl (\<lambda>s g. snd (f s g)) s (cascade_list rootId goals opts order)) \<and>
    (sorted_wrt (\<lambda>a b. (if order = Bottom_up then gl_id b = rootId \<or> (gl_id a, gl_id b) \<notin> edges goals
           else gl_id a = rootId \<or> (gl_id b, gl_id a) \<notin> edges goals)) (cascade_list rootId goals opts order))"
  by (intro conjI cascade_covers_subtree_facts [OF assms])

section \<open>The chain of parents\<close>

fun chain :: "goal_lookup \<Rightarrow> goal list \<Rightarrow> bool" where
  "chain lookup [] = False"
| "chain lookup [g] = (\<not> truthy (gl_parentGoalId g) \<or> lookup (the (gl_parentGoalId g)) = None)"
| "chain lookup (g # p # r) =
     (truthy (gl_parentGoalId g) \<and> lookup (the (gl_parentGoalId g)) = Some p \<and> chain lookup (p # r))"

lemma depth_walk_chain:
  "chain lookup (g # r) \<Longrightarrow> distinct (map gl_id (g # r)) \<Longrightarrow> gl_id ` set (g # r) \<inter> set seen = {} \<Longrightarrow>
   length r \<le> left \<Longrightarrow> depth + length r < 64 \<Longrightarrow> depth_walk left lookup seen g depth = depth + length r"
proof (induction r arbitrary: left seen g depth)
  case Nil
  then show ?case by (cases left) auto
next
  case (Cons p r)
  obtain l where l: "left = Suc l" using Cons.prems(4) by (cases left) auto
  have "depth_walk l lookup (gl_id g # seen) p (depth + 1) = depth + 1 + length r"
    by (rule Cons.IH) (use Cons.prems l in auto)
  then show ?case using Cons.prems l by auto
qed

lemma cap_walk_chain:
  "chain lookup (g # r) \<Longrightarrow> distinct (map gl_id (g # r)) \<Longrightarrow> gl_id ` set (g # r) \<inter> set seen = {} \<Longrightarrow>
   length (g # r) \<le> left \<Longrightarrow> length seen + length (g # r) < 64 \<Longrightarrow>
   cap_walk left (Some lookup) seen (Some g) cap = fold tighten (g # r) cap"
proof (induction r arbitrary: left seen g cap)
  case Nil
  then obtain l where "left = Suc l" by (cases left) auto
  then show ?case using Nil by (auto simp: Let_def)
next
  case (Cons p r)
  obtain l where l: "left = Suc l" using Cons.prems(4) by (cases left) auto
  have "cap_walk l (Some lookup) (gl_id g # seen) (Some p) (tighten g cap) = fold tighten (p # r) (tighten g cap)"
    by (rule Cons.IH) (use Cons.prems l in auto)
  then show ?case using Cons.prems l by (auto simp: Let_def)
qed

definition own_cap :: "goal \<Rightarrow> int option" where
  "own_cap g = (case gl_maxNestingDepth g of Some (Fin q) \<Rightarrow> Some (clampMaxDepth (Fin q)) | _ \<Rightarrow> None)"

lemma own_cap_clamp:
  assumes "own_cap g = Some c"
  shows "\<exists>n. c = clampMaxDepth n"
proof (cases "gl_maxNestingDepth g")
  case (Some n)
  with assms show ?thesis by (cases n) (auto simp: own_cap_def simp del: clampMaxDepth.simps)
qed (use assms in \<open>simp add: own_cap_def\<close>)

lemma tighten_own: "tighten g cap = (case own_cap g of Some c \<Rightarrow> min cap c | None \<Rightarrow> cap)"
  by (auto simp: tighten_def own_cap_def split: option.split js_num.split)

lemma fold_tighten_Min: "fold tighten gs cap = Min (insert cap {c. \<exists>g \<in> set gs. own_cap g = Some c})"
proof (induction gs arbitrary: cap)
  case (Cons g gs)
  let ?C = "\<lambda>gs. {c. \<exists>g \<in> set gs. own_cap g = Some c}"
  have fin: "finite (?C gs)" for gs
    by (rule finite_subset [of _ "(\<lambda>g. the (own_cap g)) ` set gs"]) force+
  show ?case
  proof (cases "own_cap g")
    case None
    then show ?thesis using Cons by (simp add: tighten_own)
  next
    case (Some c)
    then have "?C (g # gs) = insert c (?C gs)" by auto
    moreover have "Min (insert (min cap c) (?C gs)) = Min (insert cap (insert c (?C gs)))"
      using fin [of gs] by (cases "?C gs = {}") (simp_all add: min.assoc)
    ultimately show ?thesis using Cons Some by (simp add: tighten_own)
  qed
qed simp

lemma clamp_bounds: "1 \<le> clampMaxDepth n" "clampMaxDepth n \<le> 10"
  by (cases n; simp add: SYSTEM_MAX_NESTING_DEPTH_MIN_def SYSTEM_MAX_NESTING_DEPTH_MAX_def SYSTEM_MAX_NESTING_DEPTH_DEFAULT_def)+

lemma clamp_int: "1 \<le> m \<Longrightarrow> m \<le> 10 \<Longrightarrow> clampMaxDepth (Fin (of_int m)) = m"
  by (simp add: SYSTEM_MAX_NESTING_DEPTH_MIN_def SYSTEM_MAX_NESTING_DEPTH_MAX_def)

text \<open>
  The ceiling of a goal whose parents are \<open>up\<close>: the system limit and every override on the way.
\<close>

definition ceiling_of :: "nesting_prefs \<Rightarrow> goal list \<Rightarrow> int" where
  "ceiling_of prefs gs = Min (insert (np_maxNestingDepth prefs) {c. \<exists>g \<in> set gs. own_cap g = Some c})"

lemma walks_on_chain:
  assumes "chain lookup (g # up)" and "distinct (map gl_id (g # up))" and "length up < 63"
  shows "nestingDepth g lookup = Suc (length up)"
    and "effectiveMaxNestingDepth (Some g) prefs (Some lookup) = ceiling_of prefs (g # up)"
proof -
  show "nestingDepth g lookup = Suc (length up)"
    unfolding nestingDepth_def using depth_walk_chain [OF assms(1,2), of "[]" 63 1] assms(3) by simp
  show "effectiveMaxNestingDepth (Some g) prefs (Some lookup) = ceiling_of prefs (g # up)"
    unfolding effectiveMaxNestingDepth_def ceiling_of_def fold_tighten_Min [symmetric]
    using cap_walk_chain [OF assms(1,2), of "[]" 64] assms(3) by simp
qed

lemma ceiling_bounds:
  assumes "1 \<le> np_maxNestingDepth prefs" and "np_maxNestingDepth prefs \<le> 10"
  shows "1 \<le> ceiling_of prefs gs" and "ceiling_of prefs gs \<le> 10"
    and "ceiling_of prefs gs \<le> np_maxNestingDepth prefs" and "g \<in> set gs \<Longrightarrow> own_cap g = Some c \<Longrightarrow> ceiling_of prefs gs \<le> c"
proof -
  let ?C = "{c. \<exists>g \<in> set gs. own_cap g = Some c}"
  have fin: "finite (insert (np_maxNestingDepth prefs) ?C)"
    by (rule finite_subset [of _ "insert (np_maxNestingDepth prefs) ((\<lambda>g. the (own_cap g)) ` set gs)"]) force+
  show le: "ceiling_of prefs gs \<le> np_maxNestingDepth prefs" unfolding ceiling_of_def by (rule Min_le [OF fin]) simp
  show "ceiling_of prefs gs \<le> 10" using le assms(2) by linarith
  show "g \<in> set gs \<Longrightarrow> own_cap g = Some c \<Longrightarrow> ceiling_of prefs gs \<le> c"
    unfolding ceiling_of_def by (rule Min_le [OF fin]) auto
  have "1 \<le> c" if "c \<in> ?C" for c
    using that own_cap_clamp clamp_bounds(1) by blast
  then show "1 \<le> ceiling_of prefs gs"
    unfolding ceiling_of_def using Min_in [OF fin] assms(1) by (metis (no_types, lifting) insertE insert_not_empty)
qed

section \<open>The nesting policy\<close>

definition stamped :: "goal \<Rightarrow> bool \<times> int \<Rightarrow> goal \<Rightarrow> goal" where
  "stamped parent inherited child =
     child\<lparr>gl_parentGoalId := Some (gl_id parent), gl_subgoalsAllowed := Some (fst inherited),
           gl_maxNestingDepth := Some (Fin (of_int (snd inherited)))\<rparr>"

lemma nesting_policy_exact_facts:
  assumes "chain lookup (parent # up)" and "distinct (map gl_id (parent # up))" and "length up < 62"
    and "1 \<le> np_maxNestingDepth prefs" and "np_maxNestingDepth prefs \<le> 10"
  shows "checkCanSpawnChild parent prefs lookup =
      (if \<not> np_subgoalsEnabled prefs then Subgoals_disabled
       else if gl_subgoalsAllowed parent = Some False then Parent_subgoals_disabled
       else if int (length up) + 2 > ceiling_of prefs (parent # up)
       then Nesting_exceeded (int (length up) + 1) (ceiling_of prefs (parent # up))
       else Nesting_ok (int (length up) + 2) (ceiling_of prefs (parent # up)))"
    and "checkCanSpawnChild parent prefs lookup = Nesting_ok d m \<and> gl_id child \<notin> gl_id ` set (parent # up) \<and>
         lookup (gl_id parent) = Some parent \<and> gl_id parent \<noteq> [] \<and>
         kid = stamped parent (inheritedChildOverrides parent prefs (Some lookup)) child \<longrightarrow>
         int (nestingDepth kid lookup) = d \<and> d \<le> m \<and> m \<le> np_maxNestingDepth prefs \<and>
         (\<forall>a \<in> set (parent # up). \<forall>c. own_cap a = Some c \<longrightarrow> m \<le> c) \<and>
         effectiveMaxNestingDepth (Some kid) prefs (Some lookup) = m"
proof -
  let ?up = "parent # up" let ?m = "ceiling_of prefs (parent # up)"
  have "length up < 63" using assms(3) by simp
  note w = walks_on_chain(1) [OF assms(1,2) this] walks_on_chain(2) [OF assms(1,2) this, of prefs]
  note b = ceiling_bounds [OF assms(4,5)]
  show check: "checkCanSpawnChild parent prefs lookup =
      (if \<not> np_subgoalsEnabled prefs then Subgoals_disabled
       else if gl_subgoalsAllowed parent = Some False then Parent_subgoals_disabled
       else if int (length up) + 2 > ?m then Nesting_exceeded (int (length up) + 1) ?m
       else Nesting_ok (int (length up) + 2) ?m)"
    using w assms(3) by (simp add: checkCanSpawnChild_def Let_def)
  show "checkCanSpawnChild parent prefs lookup = Nesting_ok d m \<and> gl_id child \<notin> gl_id ` set ?up \<and>
         lookup (gl_id parent) = Some parent \<and> gl_id parent \<noteq> [] \<and>
         kid = stamped parent (inheritedChildOverrides parent prefs (Some lookup)) child \<longrightarrow>
         int (nestingDepth kid lookup) = d \<and> d \<le> m \<and> m \<le> np_maxNestingDepth prefs \<and>
         (\<forall>a \<in> set ?up. \<forall>c. own_cap a = Some c \<longrightarrow> m \<le> c) \<and>
         effectiveMaxNestingDepth (Some kid) prefs (Some lookup) = m"
  proof (intro impI, elim conjE)
    assume ok: "checkCanSpawnChild parent prefs lookup = Nesting_ok d m" and new: "gl_id child \<notin> gl_id ` set ?up"
      and p: "lookup (gl_id parent) = Some parent" "gl_id parent \<noteq> []"
      and kid: "kid = stamped parent (inheritedChildOverrides parent prefs (Some lookup)) child"
    have dm: "d = int (length up) + 2" "m = ?m" "d \<le> m" using ok unfolding check by (auto split: if_splits)
    have own: "own_cap kid = Some m"
      using clamp_int [OF b(1,2), of ?up] w(2) assms(3) dm(2)
      by (simp add: own_cap_def kid stamped_def inheritedChildOverrides_def del: clampMaxDepth.simps)
    have "gl_id kid = gl_id child" "gl_parentGoalId kid = Some (gl_id parent)" by (simp_all add: kid stamped_def)
    then have c: "chain lookup (kid # ?up)" "distinct (map gl_id (kid # ?up))" using assms(1,2) new p by auto
    have "length (parent # up) < 63" using assms(3) by simp
    note wk = walks_on_chain(1) [OF c this] walks_on_chain(2) [OF c this, of prefs]
    have "{x. \<exists>g \<in> set (kid # ?up). own_cap g = Some x} = insert m {x. \<exists>g \<in> set ?up. own_cap g = Some x}"
      using own by auto
    then have "ceiling_of prefs (kid # ?up) = Min (insert m (insert (np_maxNestingDepth prefs) {x. \<exists>g \<in> set ?up. own_cap g = Some x}))"
      by (simp add: ceiling_of_def insert_commute)
    also have "\<dots> = min m ?m"
    proof -
      have "finite (insert (np_maxNestingDepth prefs) {x. \<exists>g \<in> set ?up. own_cap g = Some x})"
        by (rule finite_subset [of _ "insert (np_maxNestingDepth prefs) ((\<lambda>g. the (own_cap g)) ` set ?up)"]) force+
      then show ?thesis by (simp add: ceiling_of_def)
    qed
    finally have "ceiling_of prefs (kid # ?up) = m" using dm(2) by simp
    then show "int (nestingDepth kid lookup) = d \<and> d \<le> m \<and> m \<le> np_maxNestingDepth prefs \<and>
         (\<forall>a \<in> set ?up. \<forall>c. own_cap a = Some c \<longrightarrow> m \<le> c) \<and>
         effectiveMaxNestingDepth (Some kid) prefs (Some lookup) = m"
      using wk assms(3) dm b(3) [of ?up] b(4) [of _ ?up] by auto
  qed
qed

text \<open>The pre-spawn gate decides by the chain of parents alone: the system switch first, then the
  parent's own, then its depth against the least of the system limit and every override up the chain.
  A child that it admits and that is stamped with the inherited overrides lies at the reported depth,
  within every ceiling above it, and its own ceiling is the parent's, so nothing below it can exceed it.\<close>
theorem nesting_policy_exact:
  assumes "chain lookup (parent # up)" and "distinct (map gl_id (parent # up))" and "length up < 62"
    and "1 \<le> np_maxNestingDepth prefs" and "np_maxNestingDepth prefs \<le> 10"
  shows "(checkCanSpawnChild parent prefs lookup =
      (if \<not> np_subgoalsEnabled prefs then Subgoals_disabled
       else if gl_subgoalsAllowed parent = Some False then Parent_subgoals_disabled
       else if int (length up) + 2 > ceiling_of prefs (parent # up)
       then Nesting_exceeded (int (length up) + 1) (ceiling_of prefs (parent # up))
       else Nesting_ok (int (length up) + 2) (ceiling_of prefs (parent # up)))) \<and>
    (checkCanSpawnChild parent prefs lookup = Nesting_ok d m \<and> gl_id child \<notin> gl_id ` set (parent # up) \<and>
         lookup (gl_id parent) = Some parent \<and> gl_id parent \<noteq> [] \<and>
         kid = stamped parent (inheritedChildOverrides parent prefs (Some lookup)) child \<longrightarrow>
         int (nestingDepth kid lookup) = d \<and> d \<le> m \<and> m \<le> np_maxNestingDepth prefs \<and>
         (\<forall>a \<in> set (parent # up). \<forall>c. own_cap a = Some c \<longrightarrow> m \<le> c) \<and>
         effectiveMaxNestingDepth (Some kid) prefs (Some lookup) = m)"
  by (intro conjI nesting_policy_exact_facts [OF assms])

section \<open>The pause guard\<close>

lemma pause_walk_chain:
  assumes "\<And>k g. lookup k = Some g \<Longrightarrow> gl_id g = k"
  shows "chain lookup (g # r) \<Longrightarrow> distinct (map gl_id (g # r)) \<Longrightarrow> gl_id ` set (g # r) \<inter> set seen = {} \<Longrightarrow>
   lookup (gl_id g) = Some g \<Longrightarrow> gl_id g \<noteq> [] \<Longrightarrow> length (g # r) \<le> left \<Longrightarrow>
   pause_walk left lookup seen (Some (gl_id g)) =
     (case find gl_paused (g # r) of Some p \<Rightarrow> Inl (gl_id p) | None \<Rightarrow> Inr ())"
proof (induction r arbitrary: left seen g)
  case Nil
  then obtain l where "left = Suc l" by (cases left) auto
  then show ?case using Nil by (cases l; cases "gl_parentGoalId g") auto
next
  case (Cons p r)
  obtain l where l: "left = Suc l" using Cons.prems(6) by (cases left) auto
  obtain q where q: "gl_parentGoalId g = Some q" "q \<noteq> []" "lookup q = Some p"
    using Cons.prems(1) by (auto elim: truthyE)
  then have "gl_id p = q" using assms by blast
  have "pause_walk l lookup (gl_id g # seen) (Some (gl_id p)) =
      (case find gl_paused (p # r) of Some p \<Rightarrow> Inl (gl_id p) | None \<Rightarrow> Inr ())"
    by (rule Cons.IH) (use Cons.prems l q \<open>gl_id p = q\<close> in auto)
  then show ?case using Cons.prems l q \<open>gl_id p = q\<close> by auto
qed

lemma pause_guard_exact_facts:
  assumes "\<And>k g. lookup k = Some g \<Longrightarrow> gl_id g = k" and "chain lookup (g # up)"
    and "distinct (map gl_id (g # up))" and "length (g # up) \<le> 64" and "lookup (gl_id g) = Some g" and "gl_id g \<noteq> []"
  shows "requireAncestorsNotPaused (gl_id g) lookup =
      (case find gl_paused (g # up) of Some p \<Rightarrow> Inl (gl_id p) | None \<Rightarrow> Inr ())"
    and "is_ok (requireAncestorsNotPaused (gl_id g) lookup) \<longleftrightarrow> (\<forall>a \<in> set (g # up). \<not> gl_paused a)"
proof -
  show r: "requireAncestorsNotPaused (gl_id g) lookup =
      (case find gl_paused (g # up) of Some p \<Rightarrow> Inl (gl_id p) | None \<Rightarrow> Inr ())"
    unfolding requireAncestorsNotPaused_def
    by (rule pause_walk_chain [OF assms(1) assms(2,3) _ assms(5,6,4)]) simp_all
  show "is_ok (requireAncestorsNotPaused (gl_id g) lookup) \<longleftrightarrow> (\<forall>a \<in> set (g # up). \<not> gl_paused a)"
  proof (cases "find gl_paused (g # up)")
    case None
    have "\<forall>a \<in> set (g # up). \<not> gl_paused a" using None [unfolded find_None_iff] by blast
    then show ?thesis unfolding r None option.case is_ok.simps by blast
  next
    case (Some p)
    from find_in [OF this] show ?thesis unfolding r Some option.case is_ok.simps by blast
  qed
qed

text \<open>The pause guard refuses a spawn exactly when the goal or one of its ancestors is paused, and
  names the nearest one; on a chain of at most 64 goals it misses none.\<close>
theorem pause_guard_exact:
  assumes "\<And>k g. lookup k = Some g \<Longrightarrow> gl_id g = k" and "chain lookup (g # up)"
    and "distinct (map gl_id (g # up))" and "length (g # up) \<le> 64" and "lookup (gl_id g) = Some g" and "gl_id g \<noteq> []"
  shows "(requireAncestorsNotPaused (gl_id g) lookup =
      (case find gl_paused (g # up) of Some p \<Rightarrow> Inl (gl_id p) | None \<Rightarrow> Inr ())) \<and>
    (is_ok (requireAncestorsNotPaused (gl_id g) lookup) \<longleftrightarrow> (\<forall>a \<in> set (g # up). \<not> gl_paused a))"
  by (intro conjI pause_guard_exact_facts [OF assms])

section \<open>Upstream gates\<close>

text \<open>Work on a gate is refused exactly when the workflow knows the gate and one of its dependencies has
  neither passed nor been bypassed.\<close>
theorem gate_dependencies_exact:
  "checkGateDependencies gate gates states \<noteq> None \<longleftrightarrow>
     truthy gate \<and> (\<exists>g. find (\<lambda>g. gd_id g = the gate) gates = Some g \<and>
        (\<exists>d \<in> set (gd_dependsOn g). (d, ''passed'') \<notin> set states \<and> (d, ''bypassed'') \<notin> set states))"
proof -
  have "d \<in> set (map fst (filter (\<lambda>s. snd s = p \<or> snd s = b) states)) \<longleftrightarrow> (d, p) \<in> set states \<or> (d, b) \<in> set states"
    for d p b :: string
    by (auto simp: image_iff)
  then show ?thesis
    by (auto simp: checkGateDependencies_def Let_def filter_empty_conv split: option.split)
qed

section \<open>A tree\<close>

definition ex_goal :: "string \<Rightarrow> string option \<Rightarrow> bool \<Rightarrow> bool \<Rightarrow> goal" where
  "ex_goal i p a z = \<lparr>gl_id = i, gl_parentGoalId = p, gl_archived = a, gl_paused = z, gl_state = ''todo'', gl_mergeConflict = False,
     gl_subgoalsAllowed = None, gl_maxNestingDepth = None\<rparr>"

definition ex_goals :: "goal list" where
  "ex_goals = [ex_goal ''c'' (Some ''b'') False False, ex_goal ''b'' (Some ''a'') True False, ex_goal ''a'' None False True,
     ex_goal ''x'' (Some ''x'') False False]"

definition ex_lookup :: goal_lookup where "ex_lookup i = find (\<lambda>g. gl_id g = i) ex_goals"

lemma walkGoalSubtree_exact_witness:
  "set (walkGoalSubtree ''a'' ex_goals default_walk) = {ex_goal ''a'' None False True, ex_goal ''c'' (Some ''b'') False False} \<and>
   distinct (map gl_id (walkGoalSubtree ''a'' ex_goals default_walk))"
proof -
  have w: "walkGoalSubtree ''a'' ex_goals default_walk = [ex_goal ''a'' None False True, ex_goal ''c'' (Some ''b'') False False]"
    and d: "distinct (map gl_id ex_goals)" by code_simp+
  from walkGoalSubtree_exact [OF d, of "''a''" default_walk] w show ?thesis by simp
qed

lemma cascade_covers_subtree_witness:
  "snd (cascadeSubtree ''a'' ex_goals default_walk (\<lambda>s g. (if gl_paused g then Inl ''paused'' else Inr (), s @ gl_id g)) Bottom_up False []) = ''ca'' \<and>
   cascade_list ''a'' ex_goals default_walk Bottom_up = [ex_goal ''c'' (Some ''b'') False False, ex_goal ''a'' None False True]"
proof -
  let ?f = "\<lambda>s g. (if gl_paused g then Inl ''paused'' else Inr (), s @ gl_id g)"
  have d: "distinct (map gl_id ex_goals)"
    and l: "cascade_list ''a'' ex_goals default_walk Bottom_up = [ex_goal ''c'' (Some ''b'') False False, ex_goal ''a'' None False True]"
    by code_simp+
  obtain res :: "unit cascade_result" and s' where r: "cascadeSubtree ''a'' ex_goals default_walk ?f Bottom_up False [] = (res, s')"
    by (rule prod.exhaust)
  from cascade_covers_subtree [OF d _ r] have "s' = ''ca''" by (simp add: l ex_goal_def)
  with r l show ?thesis by simp
qed

lemma ex_chain: "chain ex_lookup (ex_goal ''c'' (Some ''b'') False False # [ex_goal ''b'' (Some ''a'') True False, ex_goal ''a'' None False True])"
  "distinct (map gl_id (ex_goal ''c'' (Some ''b'') False False # [ex_goal ''b'' (Some ''a'') True False, ex_goal ''a'' None False True]))"
  by code_simp+

lemma ex_lookup_ids: "ex_lookup k = Some g \<Longrightarrow> gl_id g = k"
  by (auto simp: ex_lookup_def dest: find_in)

lemma nesting_policy_exact_witness:
  "checkCanSpawnChild (ex_goal ''c'' (Some ''b'') False False) \<lparr>np_subgoalsEnabled = True, np_maxNestingDepth = 3\<rparr> ex_lookup = Nesting_exceeded 3 3"
proof -
  have "ceiling_of \<lparr>np_subgoalsEnabled = True, np_maxNestingDepth = 3\<rparr>
      [ex_goal ''c'' (Some ''b'') False False, ex_goal ''b'' (Some ''a'') True False, ex_goal ''a'' None False True] = 3"
    by (simp add: ceiling_of_def own_cap_def ex_goal_def)
  then show ?thesis
    using nesting_policy_exact [OF ex_chain, of "\<lparr>np_subgoalsEnabled = True, np_maxNestingDepth = 3\<rparr>"]
    by (simp add: ex_goal_def)
qed

lemma pause_guard_exact_witness: "requireAncestorsNotPaused ''c'' ex_lookup = Inl ''a''"
proof -
  have "ex_lookup ''c'' = Some (ex_goal ''c'' (Some ''b'') False False)" by code_simp
  then show ?thesis
    using pause_guard_exact [OF ex_lookup_ids ex_chain] by (simp add: ex_goal_def)
qed

lemma gate_dependencies_exact_witness: "checkGateDependencies (Some ''g'') [\<lparr>gd_id = ''g'', gd_name = ''G'', gd_dependsOn = [''d'']\<rparr>] [] \<noteq> None"
  unfolding gate_dependencies_exact by simp

end
