(* ===== verification/Archived_Sessions.thy ===== *)
theory Archived_Sessions
  imports Prelude
begin

text \<open>
  The walk from live sessions and goals to the archived sessions below them
  (\<open>src/server/agent/archived-session-bfs.ts\<close>): the reference traversal that scans all rows for
  every parent, and the indexed traversal that the routes use.
\<close>

record archived =
  ar_id :: string
  ar_delegateOf :: "string option"
  ar_parentSessionId :: "string option"
  ar_teamLeadSessionId :: "string option"
  ar_teamGoalId :: "string option"
  ar_goalId :: "string option"

section \<open>The reference traversal\<close>

definition related :: "string \<Rightarrow> archived \<Rightarrow> bool" where
  "related p s \<longleftrightarrow> ar_delegateOf s = Some p \<or> ar_parentSessionId s = Some p \<or> ar_teamLeadSessionId s = Some p \<or>
     ar_teamGoalId s = Some p \<or> ar_goalId s = Some p"

text \<open>The inner loop: the rows it adds to the result, in order.\<close>

fun naive_visit :: "string \<Rightarrow> archived list \<Rightarrow> string list \<Rightarrow> archived list" where
  "naive_visit p [] seen = []"
| "naive_visit p (s # rows) seen =
     (if ar_id s \<notin> set seen \<and> related p s then s # naive_visit p rows (ar_id s # seen)
      else naive_visit p rows seen)"

fun fresh_rows :: "archived list \<Rightarrow> string list \<Rightarrow> archived list" where
  "fresh_rows [] seen = []"
| "fresh_rows (s # rows) seen =
     (if ar_id s \<in> set seen then fresh_rows rows seen else s # fresh_rows rows (ar_id s # seen))"

lemma naive_visit_fresh: "naive_visit p rows seen = fresh_rows (filter (related p) rows) seen"
  by (induction rows arbitrary: seen) auto

lemma fresh_rows_spec:
  "set (fresh_rows rows seen) \<subseteq> set rows \<and> distinct (map ar_id (fresh_rows rows seen)) \<and>
   ar_id ` set (fresh_rows rows seen) = ar_id ` set rows - set seen"
proof (induction rows arbitrary: seen)
  case (Cons a rows)
  show ?case
  proof (cases "ar_id a \<in> set seen")
    case True
    then show ?thesis using Cons.IH [of seen] by auto
  next
    case False
    from Cons.IH [of "ar_id a # seen"] have
      sub: "set (fresh_rows rows (ar_id a # seen)) \<subseteq> set rows" and
      dis: "distinct (map ar_id (fresh_rows rows (ar_id a # seen)))" and
      ids: "ar_id ` set (fresh_rows rows (ar_id a # seen)) = ar_id ` set rows - set (ar_id a # seen)" by blast+
    from ids False have "ar_id ` set (fresh_rows (a # rows) seen) = ar_id ` set (a # rows) - set seen" by simp blast
    moreover from ids have "ar_id a \<notin> ar_id ` set (fresh_rows rows (ar_id a # seen))" by simp
    ultimately show ?thesis using sub dis False by auto
  qed
qed simp

text \<open>The queue shrinks by one row and grows only by rows that were not seen.\<close>

lemma traversal_measure:
  assumes "finite U" and "ar_id ` set rows \<subseteq> U"
  shows "length (map ar_id (fresh_rows rows seen)) + card (U - set (map ar_id (fresh_rows rows seen) @ seen)) \<le> card (U - set seen)"
proof -
  let ?new = "ar_id ` set (fresh_rows rows seen)"
  have new: "?new \<subseteq> U - set seen" "card ?new = length (map ar_id (fresh_rows rows seen))"
    using fresh_rows_spec [of rows seen] assms(2) distinct_card [of "map ar_id (fresh_rows rows seen)"] by auto
  have "card (U - set seen - ?new) = card (U - set seen) - card ?new"
    using assms(1) new(1) by (intro card_Diff_subset) (auto intro: finite_subset)
  moreover have "card ?new \<le> card (U - set seen)" using assms(1) new(1) by (intro card_mono) auto
  moreover have "U - set (map ar_id (fresh_rows rows seen) @ seen) = U - set seen - ?new" by auto
  ultimately show ?thesis using new(2) by simp
qed

function naive_loop :: "archived list \<Rightarrow> string list \<Rightarrow> string list \<Rightarrow> archived list" where
  "naive_loop rows [] seen = []"
| "naive_loop rows (p # queue) seen =
     (let new = naive_visit p rows seen in
      new @ naive_loop rows (queue @ map ar_id new) (map ar_id new @ seen))"
  by pat_completeness auto
termination
proof (relation "measure (\<lambda>(rows, queue, seen). length queue + card (ar_id ` set rows - set seen))")
  fix rows :: "archived list" and p :: string and queue seen new
  assume "new = naive_visit p rows seen"
  then have n: "new = fresh_rows (filter (related p) rows) seen" by (simp add: naive_visit_fresh)
  have "length (map ar_id new) + card (ar_id ` set rows - set (map ar_id new @ seen)) \<le> card (ar_id ` set rows - set seen)"
    unfolding n by (rule traversal_measure) auto
  then show "((rows, queue @ map ar_id new, map ar_id new @ seen), (rows, p # queue, seen)) \<in>
      measure (\<lambda>(rows, queue, seen). length queue + card (ar_id ` set rows - set seen))" by simp
qed simp

definition bfsEnrichArchivedNaive :: "string list \<Rightarrow> archived list \<Rightarrow> archived list" where
  "bfsEnrichArchivedNaive seedIds allArchived = naive_loop allArchived seedIds []"

section \<open>The indexed traversal\<close>

definition parent_keys :: "archived \<Rightarrow> string list" where
  "parent_keys s = js_uniq (map the (filter truthy
     [ar_delegateOf s, ar_parentSessionId s, ar_teamLeadSessionId s, ar_teamGoalId s, ar_goalId s]))"

definition index_row :: "(string \<times> archived list) list \<Rightarrow> archived \<Rightarrow> (string \<times> archived list) list" where
  "index_row m s = foldl (\<lambda>m k. AList.update k (or_empty (map_of m k) @ [s]) m) m (parent_keys s)"

definition index_rows :: "archived list \<Rightarrow> (string \<times> archived list) list" where
  "index_rows rows = foldl index_row [] rows"

definition index_ids :: "(string \<times> archived list) list \<Rightarrow> string set" where
  "index_ids m = (\<Union>x \<in> set m. ar_id ` set (snd x))"

function indexed_loop :: "(string \<times> archived list) list \<Rightarrow> (archived \<Rightarrow> archived) \<Rightarrow> string list \<Rightarrow> string list \<Rightarrow> archived list" where
  "indexed_loop m clone [] seen = []"
| "indexed_loop m clone (p # queue) seen =
     (let new = fresh_rows (or_empty (map_of m p)) seen in
      map clone new @ indexed_loop m clone (queue @ map ar_id new) (map ar_id new @ seen))"
  by pat_completeness auto
termination
proof (relation "measure (\<lambda>(m, clone, queue, seen). length queue + card (index_ids m - set seen))")
  fix m :: "(string \<times> archived list) list" and clone :: "archived \<Rightarrow> archived" and p :: string and queue seen new
  assume n: "new = fresh_rows (or_empty (map_of m p)) seen"
  have "ar_id ` set (or_empty (map_of m p)) \<subseteq> index_ids m"
    by (cases "map_of m p") (auto simp: index_ids_def dest!: map_of_SomeD)
  then have "length (map ar_id new) + card (index_ids m - set (map ar_id new @ seen)) \<le> card (index_ids m - set seen)"
    unfolding n by (intro traversal_measure) (simp_all add: index_ids_def)
  then show "((m, clone, queue @ map ar_id new, map ar_id new @ seen), (m, clone, p # queue, seen)) \<in>
      measure (\<lambda>(m, clone, queue, seen). length queue + card (index_ids m - set seen))" by simp
qed simp

definition bfsEnrichArchivedIndexed :: "string list \<Rightarrow> archived list \<Rightarrow> (archived \<Rightarrow> archived) \<Rightarrow> archived list" where
  "bfsEnrichArchivedIndexed seedIds allArchivedRaw clone = indexed_loop (index_rows allArchivedRaw) clone seedIds []"

section \<open>Both find the same sessions\<close>

lemma index_keys_fold:
  "distinct ks \<Longrightarrow> or_empty (map_of (foldl (\<lambda>m k. AList.update k (or_empty (map_of m k) @ [s]) m) m ks) p) =
     or_empty (map_of m p) @ (if p \<in> set ks then [s] else [])"
proof (induction ks arbitrary: m)
  case (Cons k ks)
  then show ?case by (cases "p = k") auto
qed simp

lemma truthy_key: "p \<in> the ` {x \<in> set xs. truthy x} \<longleftrightarrow> p \<noteq> [] \<and> Some p \<in> set xs"
proof
  assume "p \<in> the ` {x \<in> set xs. truthy x}"
  then obtain x where x: "x \<in> set xs" "truthy x" "p = the x" by blast
  from x(2) obtain y where "x = Some y" "y \<noteq> []" by (rule truthyE)
  with x show "p \<noteq> [] \<and> Some p \<in> set xs" by simp
next
  assume "p \<noteq> [] \<and> Some p \<in> set xs"
  then show "p \<in> the ` {x \<in> set xs. truthy x}" by (intro image_eqI [of _ _ "Some p"]) auto
qed

lemma parent_keys_related: "p \<in> set (parent_keys s) \<longleftrightarrow> p \<noteq> [] \<and> related p s"
  unfolding parent_keys_def set_js_uniq set_map set_filter truthy_key by (auto simp: related_def eq_commute)

lemma index_rows_fold:
  "or_empty (map_of (foldl index_row m rows) p) = or_empty (map_of m p) @ (if p = [] then [] else filter (related p) rows)"
proof (induction rows arbitrary: m)
  case (Cons s rows)
  have "or_empty (map_of (index_row m s) p) = or_empty (map_of m p) @ (if p \<noteq> [] \<and> related p s then [s] else [])"
    unfolding index_row_def parent_keys_related [symmetric] by (rule index_keys_fold) (simp add: parent_keys_def)
  then show ?case by (simp add: Cons)
qed simp

lemma loops_agree:
  "\<forall>s \<in> set rows. ar_id s \<noteq> [] \<Longrightarrow> [] \<notin> set queue \<Longrightarrow>
   indexed_loop (index_rows rows) clone queue seen = map clone (naive_loop rows queue seen)"
proof (induction rows queue seen rule: naive_loop.induct)
  case (2 rows p queue seen)
  let ?new = "naive_visit p rows seen"
  have "p \<noteq> []" using "2.prems"(2) by auto
  then have "or_empty (map_of (index_rows rows) p) = filter (related p) rows"
    using "2.prems"(2) index_rows_fold [of "[]" rows p] by (simp add: index_rows_def split: if_splits)
  then have new: "fresh_rows (or_empty (map_of (index_rows rows) p)) seen = ?new" by (simp add: naive_visit_fresh)
  have "set ?new \<subseteq> set rows" using fresh_rows_spec [of "filter (related p) rows" seen] by (auto simp: naive_visit_fresh)
  then have "[] \<notin> set (queue @ map ar_id ?new)" using "2.prems" by force
  from "2.IH" [OF refl "2.prems"(1) this] show ?case by (simp add: new Let_def)
qed simp

text \<open>The indexed traversal returns the clones of exactly the rows of the reference traversal, in the same
  order, for every list of rows and seeds without empty ids.\<close>
theorem indexed_walk_equals_naive:
  assumes "\<forall>s \<in> set rows. ar_id s \<noteq> []" and "[] \<notin> set seedIds"
  shows "bfsEnrichArchivedIndexed seedIds rows clone = map clone (bfsEnrichArchivedNaive seedIds rows)"
  unfolding bfsEnrichArchivedIndexed_def bfsEnrichArchivedNaive_def using assms by (rule loops_agree)

definition ex_archived :: "string \<Rightarrow> string option \<Rightarrow> archived" where
  "ex_archived i p = \<lparr>ar_id = i, ar_delegateOf = p, ar_parentSessionId = p, ar_teamLeadSessionId = None, ar_teamGoalId = None, ar_goalId = None\<rparr>"

lemma indexed_walk_equals_naive_witness:
  "bfsEnrichArchivedIndexed [''a''] [ex_archived ''c'' (Some ''b''), ex_archived ''b'' (Some ''a''), ex_archived ''d'' (Some ''x'')] id =
     [ex_archived ''b'' (Some ''a''), ex_archived ''c'' (Some ''b'')]"
proof -
  have "bfsEnrichArchivedNaive [''a''] [ex_archived ''c'' (Some ''b''), ex_archived ''b'' (Some ''a''), ex_archived ''d'' (Some ''x'')] =
     [ex_archived ''b'' (Some ''a''), ex_archived ''c'' (Some ''b'')]" by code_simp
  then show ?thesis by (subst indexed_walk_equals_naive) (simp_all add: ex_archived_def)
qed

text \<open>The traversals differ on an empty seed: only the reference matches an empty parent field.\<close>
theorem empty_seed_differs:
  "bfsEnrichArchivedNaive [[]] [ex_archived ''b'' (Some [])] \<noteq> bfsEnrichArchivedIndexed [[]] [ex_archived ''b'' (Some [])] id"
  by code_simp

end
