(* ===== verification/Json_Writer.thy ===== *)
theory Json_Writer
  imports Prelude
begin

text \<open>
  The writer of whole-file JSON snapshots (\<open>src/server/agent/coalesced-json-writer.ts\<close>). Its owner
  keeps a value in memory, here of any type, and \<open>snap\<close> is the owner's serializer (\<open>None\<close>: it
  throws). The drain is asynchronous: each of its file operations is a step of its own, may fail, and
  calls of the owner may come in between. A rename replaces the file at once, as POSIX promises; a
  failed write may leave anything in the temporary file. Timings and diagnostics are left out.
\<close>

section \<open>The state\<close>

text \<open>
  Where the drain is suspended: at \<open>mkdir\<close>, \<open>writeFile\<close> or \<open>rename\<close> with the revision and the
  text it took, at the \<open>unlink\<close> after a failure, or returned with its \<open>finally\<close> to come.
\<close>

datatype 'c drain_phase =
    Making_dir nat 'c | Writing_tmp nat 'c | Renaming nat 'c | Unlinking nat | Drain_returned

record ('m, 'c) json_writer =
  jw_memory :: 'm
  jw_timer :: bool
  jw_inFlight :: "'c drain_phase option"
  jw_restarts :: nat
  jw_requested :: bool
  jw_revision :: nat
  jw_publishedRevision :: nat
  jw_barriers :: "(nat \<times> nat) list"
  jw_settled :: "(nat \<times> nat \<times> bool) list"
  jw_token :: nat
  jw_tmp :: "'c option"
  jw_file :: "'c option"
  jw_log :: "bool list"

definition new_writer :: "'m \<Rightarrow> 'c option \<Rightarrow> ('m, 'c) json_writer" where
  "new_writer m f =
     \<lparr>jw_memory = m, jw_timer = False, jw_inFlight = None, jw_restarts = 0, jw_requested = False, jw_revision = 0,
      jw_publishedRevision = 0, jw_barriers = [], jw_settled = [], jw_token = 0, jw_tmp = None, jw_file = f, jw_log = []\<rparr>"

section \<open>The operations\<close>

text \<open>A barrier is its revision and a token; settled ones are kept with their outcome.\<close>

definition settle_barriers :: "nat \<Rightarrow> bool \<Rightarrow> ('m, 'c) json_writer \<Rightarrow> ('m, 'c) json_writer" where
  "settle_barriers revision ok w =
     w\<lparr>jw_barriers := filter (\<lambda>(r, t). \<not> r \<le> revision) (jw_barriers w),
       jw_settled := jw_settled w @ map (\<lambda>(r, t). (r, t, ok)) (filter (\<lambda>(r, t). r \<le> revision) (jw_barriers w))\<rparr>"

definition jw_settlePublished :: "nat \<Rightarrow> ('m, 'c) json_writer \<Rightarrow> ('m, 'c) json_writer" where
  "jw_settlePublished revision w =
     (let w1 = w\<lparr>jw_publishedRevision := max (jw_publishedRevision w) revision\<rparr> in
      settle_barriers (jw_publishedRevision w1) True w1)"

definition jw_settleFailed :: "nat \<Rightarrow> ('m, 'c) json_writer \<Rightarrow> ('m, 'c) json_writer" where
  "jw_settleFailed revision w = settle_barriers revision False w"

text \<open>The catch block up to its \<open>await\<close>: the failure is logged, and the temporary file is to be removed.\<close>

definition drain_failed :: "nat \<Rightarrow> ('m, 'c) json_writer \<Rightarrow> ('m, 'c) json_writer" where
  "drain_failed revision w = w\<lparr>jw_log := jw_log w @ [False], jw_inFlight := Some (Unlinking revision)\<rparr>"

text \<open>The head of the loop, up to its first \<open>await\<close>.\<close>

definition drain_loop :: "('m \<Rightarrow> 'c option) \<Rightarrow> ('m, 'c) json_writer \<Rightarrow> ('m, 'c) json_writer" where
  "drain_loop snap w =
     (if \<not> jw_requested w then w\<lparr>jw_inFlight := Some Drain_returned\<rparr>
      else
        let w1 = w\<lparr>jw_requested := False\<rparr> in
        (case snap (jw_memory w1) of
           Some json \<Rightarrow> w1\<lparr>jw_inFlight := Some (Making_dir (jw_revision w1) json)\<rparr>
         | None \<Rightarrow> drain_failed (jw_revision w1) w1))"

definition jw_startDrain :: "('m \<Rightarrow> 'c option) \<Rightarrow> ('m, 'c) json_writer \<Rightarrow> ('m, 'c) json_writer" where
  "jw_startDrain snap w = (if jw_inFlight w = None then drain_loop snap w else w)"

definition jw_schedule :: "('m, 'c) json_writer \<Rightarrow> ('m, 'c) json_writer" where
  "jw_schedule w =
     (let w1 = w\<lparr>jw_revision := jw_revision w + 1, jw_requested := True\<rparr> in
      if jw_inFlight w1 \<noteq> None \<or> jw_timer w1 then w1 else w1\<lparr>jw_timer := True\<rparr>)"

definition jw_requestBarrier :: "('m \<Rightarrow> 'c option) \<Rightarrow> ('m, 'c) json_writer \<Rightarrow> nat \<times> ('m, 'c) json_writer" where
  "jw_requestBarrier snap w =
     (let w1 = w\<lparr>jw_revision := jw_revision w + 1, jw_requested := True, jw_timer := False\<rparr>;
          w2 = w1\<lparr>jw_barriers := jw_barriers w1 @ [(jw_revision w1, jw_token w1)], jw_token := jw_token w1 + 1\<rparr> in
      (jw_token w1, jw_startDrain snap w2))"

definition jw_flush :: "('m \<Rightarrow> 'c option) \<Rightarrow> ('m, 'c) json_writer \<Rightarrow> nat \<times> ('m, 'c) json_writer" where
  "jw_flush = jw_requestBarrier"

definition jw_publishStrict :: "('m \<Rightarrow> 'c option) \<Rightarrow> ('m, 'c) json_writer \<Rightarrow> nat \<times> ('m, 'c) json_writer" where
  "jw_publishStrict = jw_requestBarrier"

text \<open>The timer fires.\<close>

definition jw_timer_fires :: "('m \<Rightarrow> 'c option) \<Rightarrow> ('m, 'c) json_writer \<Rightarrow> ('m, 'c) json_writer" where
  "jw_timer_fires snap w = jw_startDrain snap (w\<lparr>jw_timer := False\<rparr>)"

text \<open>
  The drain goes on after its \<open>await\<close>; \<open>ok\<close> says whether the file operation succeeded, \<open>junk\<close> is
  what a failed write leaves behind, and \<open>observer_ok\<close> whether the \<open>onWrite\<close> callback returned.
\<close>

datatype 'c io_result = Io bool "'c option" bool

fun drain_continues :: "('m \<Rightarrow> 'c option) \<Rightarrow> 'c io_result \<Rightarrow> ('m, 'c) json_writer \<Rightarrow> ('m, 'c) json_writer" where
  "drain_continues snap (Io ok junk observer_ok) w =
     (case jw_inFlight w of
        None \<Rightarrow> w
      | Some Drain_returned \<Rightarrow> w
      | Some (Making_dir revision json) \<Rightarrow>
          if ok then w\<lparr>jw_inFlight := Some (Writing_tmp revision json)\<rparr> else drain_failed revision w
      | Some (Writing_tmp revision json) \<Rightarrow>
          if ok then w\<lparr>jw_tmp := Some json, jw_inFlight := Some (Renaming revision json)\<rparr>
          else drain_failed revision (w\<lparr>jw_tmp := junk\<rparr>)
      | Some (Renaming revision json) \<Rightarrow>
          if \<not> ok then drain_failed revision w
          else
            let w1 = w\<lparr>jw_file := jw_tmp w, jw_tmp := None\<rparr> in
            if \<not> observer_ok then drain_failed revision w1
            else drain_loop snap (jw_settlePublished revision (w1\<lparr>jw_log := jw_log w1 @ [True]\<rparr>))
      | Some (Unlinking revision) \<Rightarrow>
          (jw_settleFailed revision (w\<lparr>jw_tmp := (if ok then None else jw_tmp w)\<rparr>))\<lparr>jw_inFlight := Some Drain_returned\<rparr>)"

text \<open>The \<open>finally\<close> of \<open>startDrain\<close>, and the microtask it may queue.\<close>

definition drain_finally :: "('m, 'c) json_writer \<Rightarrow> ('m, 'c) json_writer" where
  "drain_finally w =
     w\<lparr>jw_inFlight := None, jw_restarts := (if jw_requested w then jw_restarts w + 1 else jw_restarts w)\<rparr>"

definition drain_restart :: "('m \<Rightarrow> 'c option) \<Rightarrow> ('m, 'c) json_writer \<Rightarrow> ('m, 'c) json_writer" where
  "drain_restart snap w = jw_startDrain snap (w\<lparr>jw_restarts := jw_restarts w - 1\<rparr>)"

section \<open>Runs\<close>

text \<open>
  A call of the owner: change the value and schedule a write, change it and publish strictly, or flush.
  An internal step: the timer, the drain, its \<open>finally\<close>, its restart.
\<close>

datatype 'm owner_call = Update_later 'm | Publish_now 'm | Flush_now

fun owner_calls :: "('m \<Rightarrow> 'c option) \<Rightarrow> 'm owner_call \<Rightarrow> ('m, 'c) json_writer \<Rightarrow> ('m, 'c) json_writer" where
  "owner_calls snap (Update_later m) w = jw_schedule (w\<lparr>jw_memory := m\<rparr>)"
| "owner_calls snap (Publish_now m) w = snd (jw_publishStrict snap (w\<lparr>jw_memory := m\<rparr>))"
| "owner_calls snap Flush_now w = snd (jw_flush snap w)"

datatype 'c internal = Timer_fires | Drain_continues "'c io_result" | Drain_finally | Drain_restart

fun internal_step :: "('m \<Rightarrow> 'c option) \<Rightarrow> 'c internal \<Rightarrow> ('m, 'c) json_writer \<Rightarrow> ('m, 'c) json_writer option" where
  "internal_step snap Timer_fires w = (if jw_timer w then Some (jw_timer_fires snap w) else None)"
| "internal_step snap (Drain_continues io) w =
     (case jw_inFlight w of
        None \<Rightarrow> None
      | Some Drain_returned \<Rightarrow> None
      | Some p \<Rightarrow> Some (drain_continues snap io w))"
| "internal_step snap Drain_finally w =
     (case jw_inFlight w of Some Drain_returned \<Rightarrow> Some (drain_finally w) | _ \<Rightarrow> None)"
| "internal_step snap Drain_restart w = (if jw_restarts w > 0 then Some (drain_restart snap w) else None)"

text \<open>The history \<open>h\<close> records the value in memory at each revision; revision 0 is the value at the start.\<close>

inductive writer_run :: "('m \<Rightarrow> 'c option) \<Rightarrow> 'c option \<Rightarrow> (nat \<Rightarrow> 'm) \<Rightarrow> ('m, 'c) json_writer \<Rightarrow> bool"
  for snap :: "'m \<Rightarrow> 'c option" and f :: "'c option" where
  run_new: "h 0 = m \<Longrightarrow> writer_run snap f h (new_writer m f)"
| run_call: "writer_run snap f h w \<Longrightarrow> w' = owner_calls snap c w \<Longrightarrow>
     writer_run snap f (h(jw_revision w' := jw_memory w')) w'"
| run_step: "writer_run snap f h w \<Longrightarrow> internal_step snap t w = Some w' \<Longrightarrow> writer_run snap f h w'"

section \<open>The invariant\<close>

text \<open>The text of the file at a revision.\<close>

definition text_at :: "('m \<Rightarrow> 'c option) \<Rightarrow> 'c option \<Rightarrow> (nat \<Rightarrow> 'm) \<Rightarrow> nat \<Rightarrow> 'c option" where
  "text_at snap f h r = (if r = 0 then f else snap (h r))"

definition failed_last :: "('m, 'c) json_writer \<Rightarrow> bool" where
  "failed_last w \<longleftrightarrow> jw_log w \<noteq> [] \<and> \<not> last (jw_log w)"

text \<open>The drain holds the text of revision \<open>r\<close>; \<open>n\<close> is the revision in the file.\<close>

fun phase_ok :: "('m \<Rightarrow> 'c option) \<Rightarrow> (nat \<Rightarrow> 'm) \<Rightarrow> nat \<Rightarrow> ('m, 'c) json_writer \<Rightarrow> 'c drain_phase option \<Rightarrow> bool" where
  "phase_ok snap h n w None = (\<not> jw_requested w \<longrightarrow> failed_last w \<or> n = jw_revision w)"
| "phase_ok snap h n w (Some Drain_returned) = (\<not> jw_requested w \<longrightarrow> failed_last w \<or> n = jw_revision w)"
| "phase_ok snap h n w (Some (Unlinking r)) =
     (failed_last w \<and> r \<le> jw_revision w \<and> (\<not> jw_requested w \<longrightarrow> r = jw_revision w))"
| "phase_ok snap h n w (Some (Making_dir r c)) =
     (snap (h r) = Some c \<and> 0 < r \<and> n \<le> r \<and> r \<le> jw_revision w \<and> (\<not> jw_requested w \<longrightarrow> r = jw_revision w))"
| "phase_ok snap h n w (Some (Writing_tmp r c)) =
     (snap (h r) = Some c \<and> 0 < r \<and> n \<le> r \<and> r \<le> jw_revision w \<and> (\<not> jw_requested w \<longrightarrow> r = jw_revision w))"
| "phase_ok snap h n w (Some (Renaming r c)) =
     (snap (h r) = Some c \<and> jw_tmp w = Some c \<and> 0 < r \<and> n \<le> r \<and> r \<le> jw_revision w \<and>
      (\<not> jw_requested w \<longrightarrow> r = jw_revision w))"

definition idle_phase :: "'c drain_phase option \<Rightarrow> bool" where
  "idle_phase p \<longleftrightarrow> p = None \<or> p = Some Drain_returned"

text \<open>What the drain does not touch, and what keeps the queue alive.\<close>

definition writer_core :: "('m \<Rightarrow> 'c option) \<Rightarrow> 'c option \<Rightarrow> (nat \<Rightarrow> 'm) \<Rightarrow> nat \<Rightarrow> ('m, 'c) json_writer \<Rightarrow> bool" where
  "writer_core snap f h n w \<longleftrightarrow>
     h (jw_revision w) = jw_memory w \<and> n \<le> jw_revision w \<and> jw_publishedRevision w \<le> n \<and>
     jw_file w = text_at snap f h n \<and>
     (\<forall>(r, t, ok) \<in> set (jw_settled w). ok \<longrightarrow> r \<le> jw_publishedRevision w) \<and>
     (\<forall>(r, t) \<in> set (jw_barriers w). r \<le> jw_revision w) \<and> (jw_requested w \<longrightarrow> jw_revision w > 0) \<and>
     distinct (map snd (jw_barriers w) @ map (fst \<circ> snd) (jw_settled w)) \<and>
     set (map snd (jw_barriers w)) \<union> set (map (fst \<circ> snd) (jw_settled w)) = {..<jw_token w}"

definition writer_awake :: "('m, 'c) json_writer \<Rightarrow> bool" where
  "writer_awake w \<longleftrightarrow>
     (jw_requested w \<longrightarrow> jw_timer w \<or> jw_inFlight w \<noteq> None \<or> jw_restarts w > 0) \<and>
     (jw_barriers w \<noteq> [] \<and> idle_phase (jw_inFlight w) \<longrightarrow> jw_requested w \<and> (jw_inFlight w \<noteq> None \<or> jw_restarts w > 0))"

definition writer_ok :: "('m \<Rightarrow> 'c option) \<Rightarrow> 'c option \<Rightarrow> (nat \<Rightarrow> 'm) \<Rightarrow> nat \<Rightarrow> ('m, 'c) json_writer \<Rightarrow> bool" where
  "writer_ok snap f h n w \<longleftrightarrow> writer_core snap f h n w \<and> writer_awake w \<and> phase_ok snap h n w (jw_inFlight w)"

lemma core_fields:
  "writer_core snap f h n w \<Longrightarrow> writer_core snap f h n (w\<lparr>jw_inFlight := p\<rparr>)"
  "writer_core snap f h n w \<Longrightarrow> writer_core snap f h n (w\<lparr>jw_requested := False\<rparr>)"
  "writer_core snap f h n w \<Longrightarrow> writer_core snap f h n (w\<lparr>jw_log := l\<rparr>)"
  "writer_core snap f h n w \<Longrightarrow> writer_core snap f h n (w\<lparr>jw_tmp := c\<rparr>)"
  "writer_core snap f h n w \<Longrightarrow> writer_core snap f h n (w\<lparr>jw_timer := b\<rparr>)"
  "writer_core snap f h n w \<Longrightarrow> writer_core snap f h n (w\<lparr>jw_restarts := k\<rparr>)"
  by (simp_all add: writer_core_def)

lemma core_failed: "writer_core snap f h n w \<Longrightarrow> writer_core snap f h n (drain_failed r w)"
  by (simp add: drain_failed_def core_fields)

lemma mset_filter_parts: "mset (map g (filter (\<lambda>x. \<not> P x) xs) @ ys @ map g (filter P xs)) = mset (map g xs @ ys)"
  by (induction xs) auto

lemma core_settle:
  assumes "writer_core snap f h n w" and "ok \<longrightarrow> r \<le> jw_publishedRevision w"
  shows "writer_core snap f h n (settle_barriers r ok w)"
proof -
  let ?w = "settle_barriers r ok w"
  have m: "mset (map snd (jw_barriers ?w) @ map (fst \<circ> snd) (jw_settled ?w)) =
      mset (map snd (jw_barriers w) @ map (fst \<circ> snd) (jw_settled w))"
    using mset_filter_parts [of snd "\<lambda>x. fst x \<le> r" "jw_barriers w" "map (fst \<circ> snd) (jw_settled w)"]
    by (simp add: settle_barriers_def comp_def case_prod_unfold del: mset_map mset_filter mset_append)
  have "distinct (map snd (jw_barriers ?w) @ map (fst \<circ> snd) (jw_settled ?w)) \<and>
      set (map snd (jw_barriers ?w)) \<union> set (map (fst \<circ> snd) (jw_settled ?w)) = {..<jw_token w}"
    using assms(1) mset_eq_imp_distinct_iff [OF m] mset_eq_setD [OF m] by (simp add: writer_core_def)
  moreover have "\<forall>(r, t, ok) \<in> set (jw_settled ?w). ok \<longrightarrow> r \<le> jw_publishedRevision w"
    using assms by (auto simp: writer_core_def settle_barriers_def)
  moreover have "\<forall>(r, t) \<in> set (jw_barriers ?w). r \<le> jw_revision w"
    using assms(1) by (auto simp: writer_core_def settle_barriers_def)
  ultimately show ?thesis
    using assms(1) unfolding writer_core_def by (simp add: settle_barriers_def)
qed

lemma settled_fields [simp]:
  "jw_inFlight (settle_barriers r ok w) = jw_inFlight w" "jw_requested (settle_barriers r ok w) = jw_requested w"
  "jw_timer (settle_barriers r ok w) = jw_timer w" "jw_restarts (settle_barriers r ok w) = jw_restarts w"
  "jw_revision (settle_barriers r ok w) = jw_revision w" "jw_memory (settle_barriers r ok w) = jw_memory w"
  "jw_log (settle_barriers r ok w) = jw_log w" "jw_tmp (settle_barriers r ok w) = jw_tmp w"
  "jw_barriers (settle_barriers r ok w) = filter (\<lambda>(s, t). \<not> s \<le> r) (jw_barriers w)"
  by (simp_all add: settle_barriers_def)

lemma drain_loop_ok:
  assumes "writer_core snap f h n w" and "\<not> jw_requested w \<Longrightarrow> failed_last w \<or> n = jw_revision w"
    and "jw_barriers w \<noteq> [] \<Longrightarrow> jw_requested w"
  shows "writer_ok snap f h n (drain_loop snap w)"
proof (cases "jw_requested w")
  case False
  then show ?thesis
    using assms by (auto simp: writer_ok_def drain_loop_def core_fields writer_awake_def failed_last_def)
next
  case True
  have mem: "h (jw_revision w) = jw_memory w" "0 < jw_revision w" "n \<le> jw_revision w"
    using assms(1) True by (simp_all add: writer_core_def)
  show ?thesis
  proof (cases "snap (jw_memory w)")
    case None
    then have "drain_loop snap w = drain_failed (jw_revision w) (w\<lparr>jw_requested := False\<rparr>)"
      using True by (simp add: drain_loop_def)
    then show ?thesis using assms(1)
      by (simp add: writer_ok_def core_failed core_fields writer_awake_def drain_failed_def failed_last_def idle_phase_def)
  next
    case (Some json)
    then have "drain_loop snap w = w\<lparr>jw_requested := False, jw_inFlight := Some (Making_dir (jw_revision w) json)\<rparr>"
      using True by (simp add: drain_loop_def)
    then show ?thesis using assms(1) mem Some by (simp add: writer_ok_def core_fields writer_awake_def idle_phase_def)
  qed
qed

lemma startDrain_ok:
  assumes "writer_core snap f h n w" and "phase_ok snap h n w (jw_inFlight w)"
    and "jw_barriers w \<noteq> [] \<and> idle_phase (jw_inFlight w) \<Longrightarrow> jw_requested w"
  shows "writer_ok snap f h n (jw_startDrain snap w)"
proof (cases "jw_inFlight w = None")
  case True
  then show ?thesis using assms unfolding jw_startDrain_def by (auto simp: idle_phase_def intro: drain_loop_ok)
next
  case False
  then show ?thesis using assms by (auto simp: jw_startDrain_def writer_ok_def writer_awake_def)
qed

lemma core_call:
  assumes "writer_core snap f h n w" and "r = jw_revision w + 1"
  shows "writer_core snap f (h(r := m)) n (w\<lparr>jw_memory := m, jw_revision := r, jw_requested := True\<rparr>)"
    and "writer_core snap f (h(r := m)) n (w\<lparr>jw_memory := m, jw_revision := r, jw_requested := True, jw_timer := False,
        jw_barriers := jw_barriers w @ [(r, jw_token w)], jw_token := jw_token w + 1\<rparr>)"
proof -
  have t: "text_at snap f (h(r := m)) n = text_at snap f h n"
    using assms by (simp add: writer_core_def text_at_def)
  have s: "\<And>x. x \<in> set (map snd (jw_barriers w)) \<union> set (map (fst \<circ> snd) (jw_settled w)) \<Longrightarrow> x < jw_token w"
    using assms(1) by (auto simp: writer_core_def)
  have b: "\<forall>(r', t) \<in> set (jw_barriers w). r' \<le> r" using assms by (auto simp: writer_core_def)
  show "writer_core snap f (h(r := m)) n (w\<lparr>jw_memory := m, jw_revision := r, jw_requested := True\<rparr>)"
    using assms b t by (simp add: writer_core_def)
  have "distinct (map snd (jw_barriers w @ [(r, jw_token w)]) @ map (fst \<circ> snd) (jw_settled w))"
    using assms(1) s by (auto simp: writer_core_def)
  moreover have "set (map snd (jw_barriers w @ [(r, jw_token w)])) \<union> set (map (fst \<circ> snd) (jw_settled w)) = {..<jw_token w + 1}"
    using assms(1) by (auto simp: writer_core_def)
  ultimately show "writer_core snap f (h(r := m)) n (w\<lparr>jw_memory := m, jw_revision := r, jw_requested := True,
      jw_timer := False, jw_barriers := jw_barriers w @ [(r, jw_token w)], jw_token := jw_token w + 1\<rparr>)"
    using assms b t unfolding writer_core_def by simp
qed

lemma phase_fields:
  "phase_ok snap h n (w\<lparr>jw_timer := b\<rparr>) p = phase_ok snap h n w p"
  "phase_ok snap h n (w\<lparr>jw_restarts := k\<rparr>) p = phase_ok snap h n w p"
  by (cases "(snap, h, n, w, p)" rule: phase_ok.cases; simp add: failed_last_def)+

lemma phase_call:
  assumes "phase_ok snap h n w p" and "r = jw_revision w + 1" and "jw_log w' = jw_log w" and "jw_tmp w' = jw_tmp w"
    and "jw_revision w' = r" and "jw_requested w'"
  shows "phase_ok snap (h(r := m)) n w' p"
  using assms by (cases "(snap, h, n, w, p)" rule: phase_ok.cases) (auto simp: failed_last_def)

lemma barrier_ok:
  assumes "writer_ok snap f h n w" and "w' = snd (jw_requestBarrier snap (w\<lparr>jw_memory := m\<rparr>))"
  shows "jw_revision w' = jw_revision w + 1 \<and> jw_memory w' = m \<and> writer_ok snap f (h(jw_revision w + 1 := m)) n w'"
proof -
  let ?r = "jw_revision w + 1"
  let ?w = "w\<lparr>jw_memory := m, jw_revision := ?r, jw_requested := True, jw_timer := False,
        jw_barriers := jw_barriers w @ [(?r, jw_token w)], jw_token := jw_token w + 1\<rparr>"
  have w': "w' = jw_startDrain snap ?w"
    by (simp add: assms(2) jw_requestBarrier_def Let_def)
  have "writer_ok snap f (h(?r := m)) n (jw_startDrain snap ?w)"
    using assms(1) core_call(2) [of snap f h n w ?r m] phase_call [of snap h n w "jw_inFlight w" ?r ?w m]
    by (intro startDrain_ok) (simp_all add: writer_ok_def)
  moreover have "jw_revision (jw_startDrain snap ?w) = ?r \<and> jw_memory (jw_startDrain snap ?w) = m"
    by (simp add: jw_startDrain_def drain_loop_def drain_failed_def Let_def split: option.splits)
  ultimately show ?thesis by (simp add: w')
qed

lemma call_ok:
  assumes "writer_ok snap f h n w" and "w' = owner_calls snap c w"
  shows "writer_ok snap f (h(jw_revision w' := jw_memory w')) n w'"
proof (cases c)
  case (Update_later m)
  let ?r = "jw_revision w + 1"
  let ?w = "w\<lparr>jw_memory := m, jw_revision := ?r, jw_requested := True\<rparr>"
  have w': "w' = (if jw_inFlight w \<noteq> None \<or> jw_timer w then ?w else ?w\<lparr>jw_timer := True\<rparr>)"
    by (simp add: assms(2) Update_later jw_schedule_def Let_def)
  have "writer_core snap f (h(?r := m)) n ?w" using assms(1) by (intro core_call) (simp_all add: writer_ok_def)
  moreover have l: "jw_log w' = jw_log w" "jw_tmp w' = jw_tmp w" "jw_revision w' = ?r" "jw_requested w'" by (simp_all add: w')
  moreover have "phase_ok snap (h(?r := m)) n w' (jw_inFlight w)"
    by (rule phase_call [OF _ refl l]) (use assms(1) in \<open>simp add: writer_ok_def\<close>)
  moreover have "writer_awake w'" using assms(1) by (auto simp: writer_ok_def writer_awake_def w')
  moreover have "writer_core snap f (h(?r := m)) n w'" if "writer_core snap f (h(?r := m)) n ?w"
    using that by (simp add: w' core_fields)
  moreover have "jw_inFlight w' = jw_inFlight w" "jw_revision w' = ?r" "jw_memory w' = m" by (simp_all add: w')
  ultimately show ?thesis unfolding writer_ok_def by simp
next
  case (Publish_now m)
  then show ?thesis using barrier_ok [OF assms(1), of w' m] assms(2) by (simp add: jw_publishStrict_def)
next
  case Flush_now
  then show ?thesis using barrier_ok [OF assms(1), of w' "jw_memory w"] assms(2) by (simp add: jw_flush_def)
qed

lemma continue_ok:
  assumes "writer_ok snap f h n w" and "jw_inFlight w = Some p" and "p \<noteq> Drain_returned"
  shows "\<exists>n'\<ge>n. writer_ok snap f h n' (drain_continues snap (Io ok junk obs) w)"
proof -
  have c: "writer_core snap f h n w" and ph: "phase_ok snap h n w (Some p)" and a: "writer_awake w"
    using assms(1,2) by (simp_all add: writer_ok_def)
  have fail: "writer_ok snap f h n' (drain_failed r w')"
    if "writer_core snap f h n' w'" "r \<le> jw_revision w'" "\<not> jw_requested w' \<longrightarrow> r = jw_revision w'" for n' r w'
    using that by (simp add: writer_ok_def core_failed writer_awake_def) (simp add: drain_failed_def failed_last_def idle_phase_def)
  show ?thesis
  proof (cases p)
    case (Making_dir r json)
    then show ?thesis using c ph fail [of n w r] assms(2)
      by (intro exI [of _ n]) (auto simp: writer_ok_def core_fields writer_awake_def idle_phase_def)
  next
    case (Writing_tmp r json)
    then show ?thesis using c ph fail [of n "w\<lparr>jw_tmp := junk\<rparr>" r] assms(2)
      by (intro exI [of _ n]) (auto simp: writer_ok_def core_fields writer_awake_def idle_phase_def)
  next
    case (Renaming r json)
    let ?w = "w\<lparr>jw_file := jw_tmp w, jw_tmp := None\<rparr>"
    have cr: "writer_core snap f h r ?w" using c ph Renaming by (auto simp: writer_core_def text_at_def)
    show ?thesis
    proof (cases "ok \<and> obs")
      case False
      have "writer_ok snap f h n (drain_failed r w)" using c ph Renaming by (intro fail) simp_all
      moreover have "writer_ok snap f h r (drain_failed r ?w)" using ph Renaming by (intro fail cr) simp_all
      moreover have "drain_continues snap (Io ok junk obs) w = (if ok then drain_failed r ?w else drain_failed r w)"
        using False assms(2) Renaming by (simp add: Let_def)
      moreover have "n \<le> r" using ph Renaming by simp
      ultimately show ?thesis by (intro exI [of _ "if ok then r else n"]) simp
    next
      case True
      let ?v = "jw_settlePublished r (?w\<lparr>jw_log := jw_log w @ [True]\<rparr>)"
      have "writer_core snap f h r (?w\<lparr>jw_log := jw_log w @ [True], jw_publishedRevision := max (jw_publishedRevision w) r\<rparr>)"
        using cr ph c Renaming by (auto simp: writer_core_def)
      then have "writer_core snap f h r ?v"
        unfolding jw_settlePublished_def Let_def by (intro core_settle) simp_all
      moreover have q: "r = jw_revision w" if "\<not> jw_requested w" using ph Renaming that by simp
      moreover have "jw_barriers ?v = []" if "\<not> jw_requested w"
        using q [OF that] c by (auto simp: jw_settlePublished_def Let_def writer_core_def filter_empty_conv)
      moreover have "jw_requested ?v = jw_requested w" "jw_revision ?v = jw_revision w"
        by (simp_all add: jw_settlePublished_def Let_def)
      ultimately have "writer_ok snap f h r (drain_loop snap ?v)" by (intro drain_loop_ok) auto
      moreover have "drain_continues snap (Io ok junk obs) w = drain_loop snap ?v"
        using True assms(2) Renaming by (simp add: Let_def)
      moreover have "n \<le> r" using ph Renaming by simp
      ultimately show ?thesis by auto
    qed
  next
    case (Unlinking r)
    let ?v = "jw_settleFailed r (w\<lparr>jw_tmp := (if ok then None else jw_tmp w)\<rparr>)"
    have "writer_core snap f h n ?v"
      using c unfolding jw_settleFailed_def by (intro core_settle core_fields) simp_all
    moreover have q: "failed_last w" "\<not> jw_requested w \<Longrightarrow> r = jw_revision w" using ph Unlinking by simp_all
    moreover have "jw_barriers ?v = []" if "\<not> jw_requested w"
      using q(2) [OF that] c by (auto simp: jw_settleFailed_def writer_core_def filter_empty_conv)
    moreover have "jw_requested ?v = jw_requested w" "jw_log ?v = jw_log w" by (simp_all add: jw_settleFailed_def)
    ultimately have "writer_ok snap f h n (?v\<lparr>jw_inFlight := Some Drain_returned\<rparr>)"
      by (auto simp: writer_ok_def core_fields writer_awake_def failed_last_def)
    moreover have "drain_continues snap (Io ok junk obs) w = ?v\<lparr>jw_inFlight := Some Drain_returned\<rparr>"
      using Unlinking assms(2) by simp
    ultimately show ?thesis by auto
  qed (use assms(3) in simp)
qed

lemma step_ok:
  assumes "writer_ok snap f h n w" and "internal_step snap t w = Some w'"
  shows "\<exists>n'\<ge>n. writer_ok snap f h n' w'"
proof (cases t)
  case Timer_fires
  have "writer_ok snap f h n (jw_startDrain snap (w\<lparr>jw_timer := False\<rparr>))"
    using assms(1) by (intro startDrain_ok) (simp_all add: writer_ok_def writer_awake_def core_fields phase_fields)
  then have "writer_ok snap f h n w'" using Timer_fires assms(2) by (simp add: jw_timer_fires_def split: if_splits)
  then show ?thesis by blast
next
  case (Drain_continues io)
  then obtain p where p: "jw_inFlight w = Some p" "p \<noteq> Drain_returned" "w' = drain_continues snap io w"
    using assms(2) by (auto split: option.splits drain_phase.splits)
  then show ?thesis using continue_ok [OF assms(1) p(1,2)] by (cases io) simp
next
  case Drain_finally
  then have p: "jw_inFlight w = Some Drain_returned" and w': "w' = drain_finally w"
    using assms(2) by (auto split: option.splits drain_phase.splits)
  have "writer_core snap f h n w'"
    using assms(1) by (simp add: w' drain_finally_def writer_ok_def core_fields)
  moreover have "writer_awake w' \<and> phase_ok snap h n w' (jw_inFlight w')"
    using assms(1) by (simp add: w' drain_finally_def writer_ok_def writer_awake_def p idle_phase_def failed_last_def)
  ultimately show ?thesis by (auto simp: writer_ok_def)
next
  case Drain_restart
  have "writer_ok snap f h n (jw_startDrain snap (w\<lparr>jw_restarts := jw_restarts w - 1\<rparr>))"
    using assms(1) by (intro startDrain_ok) (simp_all add: writer_ok_def writer_awake_def core_fields phase_fields)
  then have "writer_ok snap f h n w'" using Drain_restart assms(2) by (simp add: drain_restart_def split: if_splits)
  then show ?thesis by blast
qed

lemma run_ok_writer: "writer_run snap f h w \<Longrightarrow> \<exists>n. writer_ok snap f h n w"
proof (induction rule: writer_run.induct)
  case (run_new h m)
  then show ?case
    by (intro exI [of _ 0]) (simp add: new_writer_def writer_ok_def writer_core_def writer_awake_def text_at_def)
qed (blast dest: call_ok step_ok)+

section \<open>What the writer promises\<close>

text \<open>C16: The file always holds the complete text of one revision, never a mixture and never an older one
  than a resolved barrier asked for: an asynchronous rename cannot overtake a strict publication.\<close>
theorem resolved_means_durable:
  assumes "writer_run snap f h w"
  shows "\<exists>n \<le> jw_revision w. jw_file w = (if n = 0 then f else snap (h n)) \<and>
    (\<forall>r t. (r, t, True) \<in> set (jw_settled w) \<longrightarrow> r \<le> n)"
proof -
  from run_ok_writer [OF assms] obtain n where c: "writer_core snap f h n w" by (auto simp: writer_ok_def)
  then have "r \<le> n" if "(r, t, True) \<in> set (jw_settled w)" for r t
    using that unfolding writer_core_def by fastforce
  with c show ?thesis unfolding writer_core_def text_at_def by (intro exI [of _ n]) simp
qed

text \<open>The internal steps that are left, at most.\<close>

fun phase_work :: "bool \<Rightarrow> 'c drain_phase option \<Rightarrow> nat" where
  "phase_work requested None = 0"
| "phase_work requested (Some Drain_returned) = (if requested then 6 else 4)"
| "phase_work requested (Some (Unlinking _)) = 7"
| "phase_work requested (Some (Renaming _ _)) = 8"
| "phase_work requested (Some (Writing_tmp _ _)) = 9"
| "phase_work requested (Some (Making_dir _ _)) = 10"

definition writer_work :: "('m, 'c) json_writer \<Rightarrow> nat" where
  "writer_work w = phase_work (jw_requested w) (jw_inFlight w) + 5 * jw_restarts w +
     (if jw_timer w then 5 else 0) + (if jw_requested w then 9 else 0)"

fun internal_steps :: "('m \<Rightarrow> 'c option) \<Rightarrow> 'c internal list \<Rightarrow> ('m, 'c) json_writer \<Rightarrow> ('m, 'c) json_writer option" where
  "internal_steps snap [] w = Some w"
| "internal_steps snap (t # ts) w =
     (case internal_step snap t w of None \<Rightarrow> None | Some w' \<Rightarrow> internal_steps snap ts w')"

lemma loop_work:
  "writer_work (drain_loop snap w) \<le> 5 * jw_restarts w + (if jw_timer w then 5 else 0) + (if jw_requested w then 10 else 4)"
  by (simp add: drain_loop_def drain_failed_def Let_def writer_work_def split: option.split)

lemma start_work: "writer_work (jw_startDrain snap w) \<le> writer_work w + 4"
  using loop_work [of snap w] by (cases "jw_inFlight w") (auto simp: jw_startDrain_def writer_work_def split: if_splits)

lemma failed_work: "writer_work (drain_failed r w) = 7 + 5 * jw_restarts w + (if jw_timer w then 5 else 0) + (if jw_requested w then 9 else 0)"
  by (simp add: drain_failed_def writer_work_def)

lemma continue_work:
  assumes "jw_inFlight w = Some p" and "p \<noteq> Drain_returned"
  shows "writer_work (drain_continues snap (Io ok junk obs) w) < writer_work w"
proof (cases p)
  case (Renaming r json)
  let ?u = "w\<lparr>jw_file := jw_tmp w, jw_tmp := None\<rparr>"
  let ?v = "jw_settlePublished r (?u\<lparr>jw_log := jw_log w @ [True]\<rparr>)"
  have v: "jw_restarts ?v = jw_restarts w" "jw_timer ?v = jw_timer w" "jw_requested ?v = jw_requested w"
    by (simp_all add: jw_settlePublished_def Let_def)
  have "writer_work (drain_loop snap ?v) < writer_work w"
    using loop_work [of snap ?v] assms(1) Renaming unfolding v
    by (cases "jw_timer w"; cases "jw_requested w"; simp add: writer_work_def [of w])
  moreover have "writer_work (drain_failed r ?u) < writer_work w" "writer_work (drain_failed r w) < writer_work w"
    unfolding failed_work using assms(1) Renaming by (simp_all add: writer_work_def)
  moreover have "drain_continues snap (Io ok junk obs) w =
      (if ok then if obs then drain_loop snap ?v else drain_failed r ?u else drain_failed r w)"
    using assms(1) Renaming by (simp add: Let_def)
  ultimately show ?thesis by presburger
qed (use assms in \<open>auto simp: writer_work_def drain_failed_def jw_settleFailed_def\<close>)

lemma step_work:
  assumes "internal_step snap t w = Some w'"
  shows "writer_work w' < writer_work w"
proof (cases t)
  case Timer_fires
  then have r: "jw_timer w" and w': "w' = jw_startDrain snap (w\<lparr>jw_timer := False\<rparr>)"
    using assms by (auto simp: jw_timer_fires_def split: if_splits)
  from r have "writer_work (w\<lparr>jw_timer := False\<rparr>) + 5 = writer_work w" by (simp add: writer_work_def)
  then show ?thesis using start_work [of snap "w\<lparr>jw_timer := False\<rparr>"] unfolding w' by linarith
next
  case (Drain_continues io)
  then obtain p where "jw_inFlight w = Some p" "p \<noteq> Drain_returned" "w' = drain_continues snap io w"
    using assms by (auto split: option.splits drain_phase.splits)
  then show ?thesis using continue_work [of w p] by (cases io) simp
next
  case Drain_finally
  then have "jw_inFlight w = Some Drain_returned" and "w' = drain_finally w"
    using assms by (auto split: option.splits drain_phase.splits)
  then show ?thesis by (simp add: drain_finally_def writer_work_def)
next
  case Drain_restart
  then have r: "0 < jw_restarts w" and w': "w' = jw_startDrain snap (w\<lparr>jw_restarts := jw_restarts w - 1\<rparr>)"
    using assms by (auto simp: drain_restart_def split: if_splits)
  from r have "writer_work (w\<lparr>jw_restarts := jw_restarts w - 1\<rparr>) + 5 = writer_work w"
    by (simp add: writer_work_def)
  then show ?thesis using start_work [of snap "w\<lparr>jw_restarts := jw_restarts w - 1\<rparr>"] unfolding w' by linarith
qed

definition writer_idle :: "('m, 'c) json_writer \<Rightarrow> bool" where
  "writer_idle w \<longleftrightarrow> \<not> jw_timer w \<and> jw_inFlight w = None \<and> jw_restarts w = 0"

lemma not_idle_step: "\<not> writer_idle w \<Longrightarrow> \<exists>t w'. internal_step snap t w = Some w'"
proof (cases "jw_timer w \<or> jw_restarts w > 0")
  case True
  then show ?thesis by (cases "jw_timer w") (auto intro: exI [of _ Timer_fires] exI [of _ Drain_restart])
next
  case False
  assume "\<not> writer_idle w"
  with False obtain p where p: "jw_inFlight w = Some p" by (auto simp: writer_idle_def)
  then show ?thesis
    by (cases p) (auto intro: exI [of _ Drain_finally] exI [of _ "Drain_continues (Io True None True)"])
qed

lemma steps_run: "internal_steps snap ts w = Some w' \<Longrightarrow> writer_run snap f h w \<Longrightarrow> writer_run snap f h w'"
  by (induction ts arbitrary: w) (auto split: option.splits intro: run_step)

lemma steps_bounded: "internal_steps snap ts w = Some w' \<Longrightarrow> length ts + writer_work w' \<le> writer_work w"
proof (induction ts arbitrary: w)
  case (Cons t ts)
  then obtain v where "internal_step snap t w = Some v" "internal_steps snap ts v = Some w'" by (auto split: option.splits)
  with Cons.IH [of v] step_work [of snap t w v] show ?case by simp
qed simp

lemma idle_reached: "\<exists>ts w'. internal_steps snap ts w = Some w' \<and> writer_idle w'"
proof (induction "writer_work w" arbitrary: w rule: less_induct)
  case less
  show ?case
  proof (cases "writer_idle w")
    case True
    then show ?thesis by (intro exI [of _ "[]"]) simp
  next
    case False
    from not_idle_step [OF this] obtain t v where s: "internal_step snap t w = Some v" by blast
    from less [OF step_work [OF s]] obtain ts w' where "internal_steps snap ts v = Some w'" "writer_idle w'" by blast
    then show ?thesis using s by (intro exI [of _ "t # ts"]) auto
  qed
qed

text \<open>The writer comes to rest whatever its file operations do, within a number of steps that is
  known beforehand; and at rest every promise that was handed out has been settled exactly once, and
  either the last write failed and was logged, or the file holds the value in memory.\<close>
theorem writer_comes_to_rest:
  assumes "writer_run snap f h w"
  shows "(\<forall>ts w'. internal_steps snap ts w = Some w' \<longrightarrow> length ts \<le> writer_work w) \<and>
    (\<exists>ts w'. internal_steps snap ts w = Some w' \<and> writer_idle w') \<and>
    (writer_idle w \<longrightarrow> jw_barriers w = [] \<and> distinct (map (fst \<circ> snd) (jw_settled w)) \<and>
       set (map (fst \<circ> snd) (jw_settled w)) = {..<jw_token w} \<and>
       (failed_last w \<or> jw_file w = (if jw_revision w = 0 then f else snap (jw_memory w))))"
proof (intro conjI)
  show "\<forall>ts w'. internal_steps snap ts w = Some w' \<longrightarrow> length ts \<le> writer_work w"
    using steps_bounded by (metis add_leD1)
  show "\<exists>ts w'. internal_steps snap ts w = Some w' \<and> writer_idle w'" by (rule idle_reached)
  from run_ok_writer [OF assms] obtain n where ok: "writer_ok snap f h n w" by blast
  show "writer_idle w \<longrightarrow> jw_barriers w = [] \<and> distinct (map (fst \<circ> snd) (jw_settled w)) \<and>
       set (map (fst \<circ> snd) (jw_settled w)) = {..<jw_token w} \<and>
       (failed_last w \<or> jw_file w = (if jw_revision w = 0 then f else snap (jw_memory w)))"
  proof
    assume idle: "writer_idle w"
    with ok have "jw_barriers w = []" "\<not> jw_requested w"
      by (auto simp: writer_ok_def writer_awake_def writer_idle_def idle_phase_def)
    moreover from this idle ok have "failed_last w \<or> n = jw_revision w" by (simp add: writer_ok_def writer_idle_def)
    ultimately show "jw_barriers w = [] \<and> distinct (map (fst \<circ> snd) (jw_settled w)) \<and>
       set (map (fst \<circ> snd) (jw_settled w)) = {..<jw_token w} \<and>
       (failed_last w \<or> jw_file w = (if jw_revision w = 0 then f else snap (jw_memory w)))"
      using ok by (auto simp: writer_ok_def writer_core_def text_at_def)
  qed
qed

section \<open>A run\<close>

text \<open>
  An update starts a write; a strict publication arrives while the text is being written, its own
  write fails once, and a later flush saves the value.
\<close>

datatype 'm writer_move = Owner "'m owner_call" | Internal "'m internal"

fun writer_moves :: "('m \<Rightarrow> 'm option) \<Rightarrow> 'm writer_move list \<Rightarrow> (nat \<Rightarrow> 'm) \<Rightarrow> ('m, 'm) json_writer \<Rightarrow>
    ((nat \<Rightarrow> 'm) \<times> ('m, 'm) json_writer) option" where
  "writer_moves snap [] h w = Some (h, w)"
| "writer_moves snap (Owner c # ms) h w =
     (let w' = owner_calls snap c w in writer_moves snap ms (h(jw_revision w' := jw_memory w')) w')"
| "writer_moves snap (Internal t # ms) h w =
     (case internal_step snap t w of None \<Rightarrow> None | Some w' \<Rightarrow> writer_moves snap ms h w')"

lemma writer_moves_run: "writer_moves snap ms h w = Some (h', w') \<Longrightarrow> writer_run snap f h w \<Longrightarrow> writer_run snap f h' w'"
  by (induction snap ms h w rule: writer_moves.induct) (auto simp: Let_def split: option.splits intro: run_call run_step)

abbreviation io_ok :: "'c internal" where
  "io_ok \<equiv> Drain_continues (Io True None True)"

definition ex_writer_moves :: "nat writer_move list" where
  "ex_writer_moves = [Owner (Update_later 1), Internal Timer_fires, Internal io_ok, Owner (Publish_now 2), Internal io_ok,
     Internal io_ok, Internal (Drain_continues (Io False None True)), Internal io_ok, Internal Drain_finally,
     Owner Flush_now, Internal io_ok, Internal io_ok, Internal io_ok, Internal Drain_finally]"

definition ex_written :: "(nat, nat) json_writer" where
  "ex_written = snd (the (writer_moves Some ex_writer_moves (\<lambda>_. 0) (new_writer 0 None)))"

definition ex_history :: "nat \<Rightarrow> nat" where
  "ex_history = fst (the (writer_moves Some ex_writer_moves (\<lambda>_. 0) (new_writer 0 None)))"

lemma ex_writer_run: "writer_run Some None ex_history ex_written"
proof -
  have "writer_moves Some ex_writer_moves (\<lambda>_. 0) (new_writer 0 None) \<noteq> None" by code_simp
  then have "writer_moves Some ex_writer_moves (\<lambda>_. 0) (new_writer 0 None) = Some (ex_history, ex_written)"
    by (auto simp: ex_history_def ex_written_def)
  then show ?thesis by (rule writer_moves_run) (simp add: run_new)
qed

lemma ex_written_facts:
  "jw_settled ex_written = [(2, 0, False), (3, 1, True)]" "jw_revision ex_written = 3" "jw_file ex_written = Some 2"
  "writer_idle ex_written"
  by code_simp+

lemma resolved_means_durable_witness: "\<exists>n \<le> 3. Some 2 = (if n = 0 then None else Some (ex_history n)) \<and> 3 \<le> n"
proof -
  from resolved_means_durable [OF ex_writer_run] obtain n where "n \<le> 3" "Some 2 = (if n = 0 then None else Some (ex_history n))"
    "\<forall>r t. (r, t, True) \<in> set [(2::nat, 0::nat, False), (3, 1, True)] \<longrightarrow> r \<le> n"
    unfolding ex_written_facts by (elim exE conjE) (rule that)
  then show ?thesis by (intro exI [of _ n]) auto
qed

lemma writer_comes_to_rest_witness: "distinct (map (fst \<circ> snd) (jw_settled ex_written)) \<and> jw_barriers ex_written = []"
  using writer_comes_to_rest [OF ex_writer_run] ex_written_facts(4) by simp

end
