(* ===== verification/Bounded_Work.thy ===== *)
theory Bounded_Work
  imports Js_Value
begin

text \<open>
  The two bounded worker pools of \<open>src/server/agent/bounded-async-work.ts\<close>: \<open>processDynamicQueue\<close>,
  whose workers discover more work, and \<open>mapWithConcurrency\<close>, which maps a list with a fixed number
  of workers. A run is an interleaving of steps: a worker callback is invoked, offers work, settles,
  or a \<open>setImmediate\<close> fires. What a callback does and when it settles is not restricted.
\<close>

definition BACKGROUND_IO_CONCURRENCY :: nat where
  "BACKGROUND_IO_CONCURRENCY = 8"

definition COOPERATIVE_YIELD_INTERVAL :: nat where
  "COOPERATIVE_YIELD_INTERVAL = 256"

text \<open>The limit, or \<open>None\<close> for the \<open>RangeError\<close>.\<close>

fun validateConcurrency :: "js_num \<Rightarrow> nat option" where
  "validateConcurrency (Fin q) = (if q = of_int \<lfloor>q\<rfloor> \<and> 0 < q then Some (nat \<lfloor>q\<rfloor>) else None)"
| "validateConcurrency _ = None"

section \<open>The dynamic queue\<close>

text \<open>A started item: its callback is still to be invoked, is running, or has settled.\<close>

datatype 'e job_state = Starting | Running | Finished "'e option"

datatype 'e queue_outcome = Queue_resolved | Queue_rejected 'e

record ('i, 'e) dyn_queue =
  dq_initial :: "'i list"
  dq_initialCursor :: nat
  dq_pending :: "'i list"
  dq_pendingCursor :: nat
  dq_active :: nat
  dq_firstError :: "'e option"
  dq_completionsSinceYield :: nat
  dq_yieldScheduled :: bool
  dq_jobs :: "('i \<times> 'e job_state) list"
  dq_accepted :: "'i list"
  dq_settled :: "'e queue_outcome option"

definition dq_stopped :: "('i, 'e) dyn_queue \<Rightarrow> bool" where
  "dq_stopped q \<longleftrightarrow> dq_firstError q \<noteq> None"

definition pendingLength :: "('i, 'e) dyn_queue \<Rightarrow> nat" where
  "pendingLength q = length (dq_pending q) - dq_pendingCursor q"

definition hasWork :: "('i, 'e) dyn_queue \<Rightarrow> bool" where
  "hasWork q \<longleftrightarrow> 0 < pendingLength q \<or> dq_initialCursor q < length (dq_initial q)"

definition takeWork :: "('i, 'e) dyn_queue \<Rightarrow> 'i \<times> ('i, 'e) dyn_queue" where
  "takeWork q =
     (if dq_pendingCursor q < length (dq_pending q) then
        let item = dq_pending q ! dq_pendingCursor q; c = dq_pendingCursor q + 1 in
        (item,
         if COOPERATIVE_YIELD_INTERVAL \<le> c \<and> length (dq_pending q) \<le> c * 2
         then q\<lparr>dq_pending := drop c (dq_pending q), dq_pendingCursor := 0\<rparr>
         else q\<lparr>dq_pendingCursor := c\<rparr>)
      else (dq_initial q ! dq_initialCursor q, q\<lparr>dq_initialCursor := dq_initialCursor q + 1\<rparr>))"

text \<open>A promise is settled by the first call of \<open>resolve\<close> or \<open>reject\<close>.\<close>

definition settle_queue :: "'e queue_outcome \<Rightarrow> ('i, 'e) dyn_queue \<Rightarrow> ('i, 'e) dyn_queue" where
  "settle_queue r q = (if dq_settled q = None then q\<lparr>dq_settled := Some r\<rparr> else q)"

definition settleIfDone :: "('i, 'e) dyn_queue \<Rightarrow> ('i, 'e) dyn_queue" where
  "settleIfDone q =
     (if dq_active q \<noteq> 0 then q
      else (case dq_firstError q of
              Some e \<Rightarrow> settle_queue (Queue_rejected e) q
            | None \<Rightarrow> if \<not> hasWork q then settle_queue Queue_resolved q else q))"

text \<open>The loop of \<open>schedule\<close> starts items while a worker is free.\<close>

definition start_item :: "('i, 'e) dyn_queue \<Rightarrow> ('i, 'e) dyn_queue" where
  "start_item q =
     (case takeWork q of (item, q1) \<Rightarrow>
        q1\<lparr>dq_active := dq_active q1 + 1, dq_jobs := dq_jobs q1 @ [(item, Starting)]\<rparr>)"

lemma start_item_active [simp]: "dq_active (start_item q) = dq_active q + 1"
  by (simp add: start_item_def takeWork_def Let_def)

function start_items :: "nat \<Rightarrow> ('i, 'e) dyn_queue \<Rightarrow> ('i, 'e) dyn_queue" where
  "start_items limit q = (if dq_active q < limit \<and> hasWork q then start_items limit (start_item q) else q)"
  by pat_completeness auto
termination by (relation "measure (\<lambda>(limit, q). limit - dq_active q)") auto

declare start_items.simps [simp del]

definition dq_schedule :: "nat \<Rightarrow> ('i, 'e) dyn_queue \<Rightarrow> ('i, 'e) dyn_queue" where
  "dq_schedule limit q =
     (if dq_stopped q \<or> dq_yieldScheduled q then settleIfDone q else settleIfDone (start_items limit q))"

definition tryEnqueue :: "nat \<Rightarrow> nat \<Rightarrow> 'i \<Rightarrow> ('i, 'e) dyn_queue \<Rightarrow> bool \<times> ('i, 'e) dyn_queue" where
  "tryEnqueue limit maxQueued item q =
     (if dq_stopped q \<or> maxQueued \<le> pendingLength q then (False, q)
      else (True, dq_schedule limit (q\<lparr>dq_pending := dq_pending q @ [item], dq_accepted := dq_accepted q @ [item]\<rparr>)))"

definition stop_queue :: "'e \<Rightarrow> ('i, 'e) dyn_queue \<Rightarrow> ('i, 'e) dyn_queue" where
  "stop_queue e q =
     q\<lparr>dq_firstError := Some e, dq_pending := [], dq_pendingCursor := 0, dq_initialCursor := length (dq_initial q)\<rparr>"

definition afterWork :: "nat \<Rightarrow> 'e option \<Rightarrow> ('i, 'e) dyn_queue \<Rightarrow> ('i, 'e) dyn_queue" where
  "afterWork limit failure q =
     (let q1 = q\<lparr>dq_active := dq_active q - 1\<rparr>;
          q2 = (case failure of Some e \<Rightarrow> if \<not> dq_stopped q1 then stop_queue e q1 else q1 | None \<Rightarrow> q1);
          q3 = q2\<lparr>dq_completionsSinceYield := dq_completionsSinceYield q2 + 1\<rparr> in
      settleIfDone
        (if \<not> dq_stopped q3 \<and> COOPERATIVE_YIELD_INTERVAL \<le> dq_completionsSinceYield q3 \<and> hasWork q3
         then q3\<lparr>dq_completionsSinceYield := 0, dq_yieldScheduled := True\<rparr>
         else dq_schedule limit q3))"

definition immediate_fires :: "nat \<Rightarrow> ('i, 'e) dyn_queue \<Rightarrow> ('i, 'e) dyn_queue" where
  "immediate_fires limit q = dq_schedule limit (q\<lparr>dq_yieldScheduled := False\<rparr>)"

text \<open>The call itself; without items it resolves at once.\<close>

definition new_queue :: "'i list \<Rightarrow> ('i, 'e) dyn_queue" where
  "new_queue items =
     \<lparr>dq_initial = items, dq_initialCursor = 0, dq_pending = [], dq_pendingCursor = 0, dq_active = 0, dq_firstError = None,
      dq_completionsSinceYield = 0, dq_yieldScheduled = False, dq_jobs = [], dq_accepted = [], dq_settled = None\<rparr>"

definition processDynamicQueue :: "'i list \<Rightarrow> js_num \<Rightarrow> js_num option \<Rightarrow> (nat \<times> nat \<times> ('i, 'e) dyn_queue) option" where
  "processDynamicQueue items limit maxQueued =
     (case validateConcurrency limit of
        None \<Rightarrow> None
      | Some l \<Rightarrow>
          (case validateConcurrency (case maxQueued of None \<Rightarrow> limit | Some m \<Rightarrow> m) of
             None \<Rightarrow> None
           | Some m \<Rightarrow>
               Some (l, m, if items = [] then (new_queue items)\<lparr>dq_settled := Some Queue_resolved\<rparr>
                           else dq_schedule l (new_queue items))))"

section \<open>Runs of the queue\<close>

datatype ('i, 'e) queue_step = Invoke nat | Offer nat 'i | Settle nat "'e option" | Immediate

definition set_job :: "nat \<Rightarrow> 'e job_state \<Rightarrow> ('i, 'e) dyn_queue \<Rightarrow> ('i, 'e) dyn_queue" where
  "set_job j s q = q\<lparr>dq_jobs := (dq_jobs q)[j := (fst (dq_jobs q ! j), s)]\<rparr>"

definition job_is :: "'e job_state \<Rightarrow> nat \<Rightarrow> ('i, 'e) dyn_queue \<Rightarrow> bool" where
  "job_is s j q \<longleftrightarrow> j < length (dq_jobs q) \<and> snd (dq_jobs q ! j) = s"

fun dq_step :: "nat \<Rightarrow> nat \<Rightarrow> ('i, 'e) queue_step \<Rightarrow> ('i, 'e) dyn_queue \<Rightarrow> ('i, 'e) dyn_queue option" where
  "dq_step limit maxQueued (Invoke j) q = (if job_is Starting j q then Some (set_job j Running q) else None)"
| "dq_step limit maxQueued (Offer j item) q =
     (if job_is Running j q then Some (snd (tryEnqueue limit maxQueued item q)) else None)"
| "dq_step limit maxQueued (Settle j failure) q =
     (if job_is Running j q then Some (afterWork limit failure (set_job j (Finished failure) q)) else None)"
| "dq_step limit maxQueued Immediate q = (if dq_yieldScheduled q then Some (immediate_fires limit q) else None)"

fun dq_steps :: "nat \<Rightarrow> nat \<Rightarrow> ('i, 'e) queue_step list \<Rightarrow> ('i, 'e) dyn_queue \<Rightarrow> ('i, 'e) dyn_queue option" where
  "dq_steps limit maxQueued [] q = Some q"
| "dq_steps limit maxQueued (t # ts) q =
     (case dq_step limit maxQueued t q of None \<Rightarrow> None | Some q' \<Rightarrow> dq_steps limit maxQueued ts q')"

inductive queue_run :: "'i list \<Rightarrow> nat \<Rightarrow> nat \<Rightarrow> ('i, 'e) dyn_queue \<Rightarrow> bool" for items :: "'i list" where
  queue_start: "processDynamicQueue items l m = Some (limit, maxQueued, q) \<Longrightarrow> queue_run items limit maxQueued q"
| queue_step: "queue_run items limit maxQueued q \<Longrightarrow> dq_step limit maxQueued t q = Some q' \<Longrightarrow> queue_run items limit maxQueued q'"

section \<open>The invariant\<close>

definition remaining_work :: "('i, 'e) dyn_queue \<Rightarrow> 'i list" where
  "remaining_work q = drop (dq_pendingCursor q) (dq_pending q) @ drop (dq_initialCursor q) (dq_initial q)"

lemma hasWork_iff: "hasWork q \<longleftrightarrow> remaining_work q \<noteq> []"
  by (auto simp: hasWork_def pendingLength_def remaining_work_def)

fun live :: "'e job_state \<Rightarrow> bool" where
  "live (Finished _) = False"
| "live _ = True"

definition errors_of :: "('i, 'e) dyn_queue \<Rightarrow> 'e set" where
  "errors_of q = {e. Finished (Some e) \<in> set (map snd (dq_jobs q))}"

definition queue_mid :: "'i list \<Rightarrow> nat \<Rightarrow> nat \<Rightarrow> ('i, 'e) dyn_queue \<Rightarrow> bool" where
  "queue_mid items limit maxQueued q \<longleftrightarrow>
     0 < limit \<and> 0 < maxQueued \<and> dq_active q = length (filter live (map snd (dq_jobs q))) \<and> dq_active q \<le> limit \<and>
     pendingLength q \<le> maxQueued \<and> dq_pendingCursor q \<le> length (dq_pending q) \<and>
     (if dq_stopped q
      then remaining_work q = [] \<and> mset (map fst (dq_jobs q)) \<subseteq># mset items + mset (dq_accepted q) \<and> the (dq_firstError q) \<in> errors_of q
      else mset (map fst (dq_jobs q)) + mset (remaining_work q) = mset items + mset (dq_accepted q) \<and> errors_of q = {})"

definition queue_ok :: "'i list \<Rightarrow> nat \<Rightarrow> nat \<Rightarrow> ('i, 'e) dyn_queue \<Rightarrow> bool" where
  "queue_ok items limit maxQueued q \<longleftrightarrow> queue_mid items limit maxQueued q \<and>
     (case dq_settled q of
        None \<Rightarrow> (dq_active q = 0 \<longrightarrow> \<not> dq_stopped q \<and> remaining_work q \<noteq> []) \<and>
          (\<not> dq_stopped q \<and> \<not> dq_yieldScheduled q \<and> remaining_work q \<noteq> [] \<longrightarrow> dq_active q = limit)
      | Some Queue_resolved \<Rightarrow> dq_active q = 0 \<and> \<not> dq_stopped q \<and> remaining_work q = []
      | Some (Queue_rejected e) \<Rightarrow> dq_active q = 0 \<and> dq_firstError q = Some e)"

lemma takeWork_remaining:
  assumes "remaining_work q \<noteq> []" and "takeWork q = (item, q')"
  shows "remaining_work q = item # remaining_work q'" and "pendingLength q' \<le> pendingLength q"
    and "dq_pendingCursor q \<le> length (dq_pending q) \<Longrightarrow> dq_pendingCursor q' \<le> length (dq_pending q')"
    and "dq_jobs q' = dq_jobs q" "dq_active q' = dq_active q" "dq_accepted q' = dq_accepted q" "dq_firstError q' = dq_firstError q"
    "dq_settled q' = dq_settled q" "dq_yieldScheduled q' = dq_yieldScheduled q"
    "dq_completionsSinceYield q' = dq_completionsSinceYield q"
  using assms
  by (auto simp: takeWork_def Let_def remaining_work_def pendingLength_def Cons_nth_drop_Suc split: if_splits)

lemma start_item_mid:
  assumes "queue_mid items limit maxQueued q" and "\<not> dq_stopped q" and "remaining_work q \<noteq> []" and "dq_active q < limit"
  shows "queue_mid items limit maxQueued (start_item q)"
proof -
  obtain item q1 where t: "takeWork q = (item, q1)" by (cases "takeWork q")
  note r = takeWork_remaining [OF assms(3) t]
  have "remaining_work (start_item q) = remaining_work q1" by (simp add: start_item_def t remaining_work_def)
  moreover have "dq_pendingCursor (start_item q) = dq_pendingCursor q1" "dq_pending (start_item q) = dq_pending q1"
    by (simp_all add: start_item_def t)
  moreover have "pendingLength (start_item q) = pendingLength q1" by (simp add: start_item_def t pendingLength_def)
  ultimately show ?thesis using assms r
    by (simp add: queue_mid_def dq_stopped_def start_item_def t errors_of_def)
qed

lemma start_item_fields:
  "remaining_work q \<noteq> [] \<Longrightarrow> dq_stopped (start_item q) = dq_stopped q"
  "remaining_work q \<noteq> [] \<Longrightarrow> dq_settled (start_item q) = dq_settled q"
  "remaining_work q \<noteq> [] \<Longrightarrow> dq_yieldScheduled (start_item q) = dq_yieldScheduled q"
  using takeWork_remaining [of q "fst (takeWork q)" "snd (takeWork q)"]
  by (cases "takeWork q"; simp add: start_item_def dq_stopped_def)+

lemma start_items_mid:
  "queue_mid items limit maxQueued q \<Longrightarrow> \<not> dq_stopped q \<Longrightarrow>
   queue_mid items limit maxQueued (start_items limit q) \<and> \<not> dq_stopped (start_items limit q) \<and>
   dq_settled (start_items limit q) = dq_settled q \<and> dq_yieldScheduled (start_items limit q) = dq_yieldScheduled q \<and>
   (remaining_work (start_items limit q) = [] \<or> dq_active (start_items limit q) = limit)"
proof (induction limit q rule: start_items.induct)
  case (1 limit q)
  show ?case
  proof (cases "dq_active q < limit \<and> hasWork q")
    case True
    then have s: "start_items limit q = start_items limit (start_item q)" by (simp add: start_items.simps [of limit q])
    from True show ?thesis
      using "1.IH" "1.prems" start_item_mid [OF "1.prems"] start_item_fields [of q] unfolding s hasWork_iff by simp
  next
    case False
    then have s: "start_items limit q = q" by (subst start_items.simps) auto
    have "dq_active q \<le> limit" using "1.prems" by (simp add: queue_mid_def)
    then show ?thesis using False "1.prems" unfolding s hasWork_iff by auto
  qed
qed

lemma mid_settled:
  "queue_mid items limit maxQueued (q\<lparr>dq_settled := r\<rparr>) = queue_mid items limit maxQueued q"
  "queue_mid items limit maxQueued (q\<lparr>dq_yieldScheduled := b\<rparr>) = queue_mid items limit maxQueued q"
  "queue_mid items limit maxQueued (q\<lparr>dq_completionsSinceYield := n\<rparr>) = queue_mid items limit maxQueued q"
  by (simp_all add: queue_mid_def dq_stopped_def remaining_work_def pendingLength_def errors_of_def)

text \<open>What is known where \<open>settleIfDone\<close> is called, unless the promise is settled already.\<close>

lemma settleIfDone_ok:
  assumes "queue_mid items limit maxQueued q" and "dq_settled q = None"
    and "\<not> dq_stopped q \<Longrightarrow> \<not> dq_yieldScheduled q \<Longrightarrow> remaining_work q \<noteq> [] \<Longrightarrow> dq_active q = limit"
  shows "queue_ok items limit maxQueued (settleIfDone q)"
  using assms
  by (auto simp: settleIfDone_def settle_queue_def queue_ok_def mid_settled dq_stopped_def hasWork_iff remaining_work_def
    split: option.splits)

lemma dq_schedule_ok:
  assumes "queue_mid items limit maxQueued q" and "dq_settled q = None"
  shows "queue_ok items limit maxQueued (dq_schedule limit q)"
proof (cases "dq_stopped q \<or> dq_yieldScheduled q")
  case True
  then show ?thesis using assms by (auto simp: dq_schedule_def intro: settleIfDone_ok)
next
  case False
  then show ?thesis using start_items_mid [OF assms(1)] assms(2) unfolding dq_schedule_def
    by (auto intro!: settleIfDone_ok)
qed

lemma settle_again: "dq_settled q \<noteq> None \<Longrightarrow> settleIfDone q = q"
  by (auto simp: settleIfDone_def settle_queue_def split: option.split)

lemma dq_schedule_settled:
  assumes "queue_ok items limit maxQueued q" and "dq_settled q \<noteq> None"
  shows "dq_schedule limit (q\<lparr>dq_yieldScheduled := b\<rparr>) = q\<lparr>dq_yieldScheduled := b\<rparr>"
proof -
  have stop: "dq_stopped q \<or> remaining_work q = []"
  proof -
    from assms(2) obtain r where "dq_settled q = Some r" by blast
    then show ?thesis using assms(1) by (cases r) (simp_all add: queue_ok_def dq_stopped_def)
  qed
  let ?q = "q\<lparr>dq_yieldScheduled := b\<rparr>"
  have f: "remaining_work ?q = remaining_work q" "dq_stopped ?q = dq_stopped q" "dq_settled ?q \<noteq> None"
    using assms(2) by (simp_all add: remaining_work_def dq_stopped_def)
  have "start_items limit ?q = ?q" if "remaining_work q = []"
    by (subst start_items.simps) (simp add: hasWork_iff f(1) that)
  then show ?thesis using stop settle_again [OF f(3)] unfolding dq_schedule_def f(2) by metis
qed

lemma live_update:
  assumes "j < length xs" and "live (xs ! j)"
  shows "length (filter live (xs[j := s])) = length (filter live xs) - (if live s then 0 else 1)"
proof -
  have "xs = take j xs @ xs ! j # drop (Suc j) xs" using assms(1) by (simp add: id_take_nth_drop)
  then have "filter live xs = filter live (take j xs) @ xs ! j # filter live (drop (Suc j) xs)"
    using assms(2) by (metis filter.simps(2) filter_append)
  moreover have "xs[j := s] = take j xs @ s # drop (Suc j) xs" using assms(1) by (rule upd_conv_take_nth_drop)
  ultimately show ?thesis by simp
qed

lemma set_job_fields [simp]:
  "dq_active (set_job j s q) = dq_active q" "dq_stopped (set_job j s q) = dq_stopped q"
  "remaining_work (set_job j s q) = remaining_work q" "pendingLength (set_job j s q) = pendingLength q"
  "dq_settled (set_job j s q) = dq_settled q" "dq_yieldScheduled (set_job j s q) = dq_yieldScheduled q"
  "dq_accepted (set_job j s q) = dq_accepted q" "dq_firstError (set_job j s q) = dq_firstError q"
  "dq_pending (set_job j s q) = dq_pending q" "dq_pendingCursor (set_job j s q) = dq_pendingCursor q"
  by (simp_all add: set_job_def dq_stopped_def remaining_work_def pendingLength_def)

lemma set_job_items: "map fst (dq_jobs (set_job j s q)) = map fst (dq_jobs q)"
  by (cases "j < length (dq_jobs q)") (simp_all add: set_job_def map_update list_update_same_conv list_update_beyond)

lemma set_job_states: "map snd (dq_jobs (set_job j s q)) = (map snd (dq_jobs q))[j := s]"
  by (simp add: set_job_def map_update)

lemma job_live: "job_is s j q \<Longrightarrow> live s \<Longrightarrow> 0 < length (filter live (map snd (dq_jobs q)))"
  by (auto simp: job_is_def filter_empty_conv intro!: bexI [of _ "dq_jobs q ! j"])

lemma job_unsettled:
  assumes "queue_ok items limit maxQueued q" and "job_is s j q" and "live s"
  shows "dq_settled q = None" and "queue_mid items limit maxQueued q" and "0 < dq_active q"
proof -
  show m: "queue_mid items limit maxQueued q" using assms(1) by (simp add: queue_ok_def)
  then show a: "0 < dq_active q" using job_live [OF assms(2,3)] by (simp add: queue_mid_def)
  show "dq_settled q = None"
  proof (cases "dq_settled q")
    case (Some r)
    then show ?thesis using a assms(1) by (cases r) (simp_all add: queue_ok_def)
  qed
qed

lemma set_update_iff:
  assumes "j < length xs" and "xs ! j \<noteq> x"
  shows "x \<in> set (xs[j := t]) \<longleftrightarrow> x \<in> set xs \<or> x = t"
proof -
  have "set xs = insert (xs ! j) (set (take j xs) \<union> set (drop (Suc j) xs))"
    by (subst id_take_nth_drop [OF assms(1)]) simp
  then show ?thesis using assms by (auto simp: upd_conv_take_nth_drop)
qed

lemma errors_update:
  assumes "job_is s j q" and "live s"
  shows "errors_of (set_job j t q) = errors_of q \<union> {e. t = Finished (Some e)}"
proof -
  have j: "j < length (map snd (dq_jobs q))" "map snd (dq_jobs q) ! j = s" using assms(1) by (simp_all add: job_is_def)
  have ne: "map snd (dq_jobs q) ! j \<noteq> Finished (Some e)" for e using j(2) assms(2) by auto
  have "Finished (Some e) \<in> set ((map snd (dq_jobs q))[j := t]) \<longleftrightarrow>
      Finished (Some e) \<in> set (map snd (dq_jobs q)) \<or> Finished (Some e) = t" for e
    by (rule set_update_iff [OF j(1) ne])
  then show ?thesis unfolding errors_of_def set_job_states by blast
qed

lemma invoke_ok:
  assumes "queue_ok items limit maxQueued q" and "job_is Starting j q"
  shows "queue_ok items limit maxQueued (set_job j Running q)"
proof -
  have "length (filter live ((map snd (dq_jobs q))[j := Running])) = length (filter live (map snd (dq_jobs q)))"
    using live_update [of j "map snd (dq_jobs q)" Running] assms(2) by (simp add: job_is_def)
  moreover have "errors_of (set_job j Running q) = errors_of q" using errors_update [OF assms(2)] by simp
  ultimately have "queue_mid items limit maxQueued (set_job j Running q) = queue_mid items limit maxQueued q"
    unfolding queue_mid_def set_job_items set_job_states by simp
  then show ?thesis using assms(1) unfolding queue_ok_def set_job_fields by (simp only: simp_thms)
qed

lemma offer_ok:
  assumes "queue_ok items limit maxQueued q" and "job_is Running j q"
  shows "queue_ok items limit maxQueued (snd (tryEnqueue limit maxQueued item q))"
proof (cases "dq_stopped q \<or> maxQueued \<le> pendingLength q")
  case True
  then show ?thesis using assms(1) by (auto simp: tryEnqueue_def)
next
  case False
  let ?q = "q\<lparr>dq_pending := dq_pending q @ [item], dq_accepted := dq_accepted q @ [item]\<rparr>"
  note u = job_unsettled [OF assms]
  have "dq_pendingCursor q \<le> length (dq_pending q)" using u(2) by (simp add: queue_mid_def)
  then have "mset (remaining_work ?q) = add_mset item (mset (remaining_work q))" "pendingLength ?q \<le> maxQueued"
    "dq_pendingCursor ?q \<le> length (dq_pending ?q)"
    using False by (auto simp: remaining_work_def pendingLength_def)
  then have "queue_mid items limit maxQueued ?q"
    using u(2) False by (simp add: queue_mid_def dq_stopped_def errors_of_def)
  then show ?thesis using False u(1) by (simp add: tryEnqueue_def dq_schedule_ok)
qed

lemma settle_ok:
  assumes "queue_ok items limit maxQueued q" and "job_is Running j q"
  shows "queue_ok items limit maxQueued (afterWork limit failure (set_job j (Finished failure) q))"
proof -
  let ?n = "set_job j (Finished failure) q"
  define q1 where "q1 = ?n\<lparr>dq_active := dq_active ?n - 1\<rparr>"
  define q2 where "q2 = (case failure of Some e \<Rightarrow> if \<not> dq_stopped q1 then stop_queue e q1 else q1 | None \<Rightarrow> q1)"
  define q3 where "q3 = q2\<lparr>dq_completionsSinceYield := dq_completionsSinceYield q2 + 1\<rparr>"
  note u = job_unsettled [OF assms]
  have l: "length (filter live ((map snd (dq_jobs q))[j := Finished failure])) = dq_active q - 1"
    using live_update [of j "map snd (dq_jobs q)" "Finished failure"] assms(2) u(2) by (simp add: job_is_def queue_mid_def)
  have e: "errors_of q1 = errors_of q \<union> {e. failure = Some e}"
    using errors_update [OF assms(2), of "Finished failure"] by (auto simp: q1_def errors_of_def)
  have f: "dq_active q1 = dq_active q - 1" "pendingLength q1 = pendingLength q" "dq_pendingCursor q1 = dq_pendingCursor q"
    "dq_pending q1 = dq_pending q" "dq_stopped q1 = dq_stopped q" "remaining_work q1 = remaining_work q"
    "dq_accepted q1 = dq_accepted q" "dq_firstError q1 = dq_firstError q" "dq_settled q1 = None"
    "dq_yieldScheduled q1 = dq_yieldScheduled q"
    using u(1) by (simp_all add: q1_def dq_stopped_def remaining_work_def pendingLength_def set_job_def)
  have jobs: "map fst (dq_jobs q1) = map fst (dq_jobs q)" "map snd (dq_jobs q1) = (map snd (dq_jobs q))[j := Finished failure]"
    by (simp_all add: q1_def set_job_items set_job_states)
  have "queue_mid items limit maxQueued q2 \<and> dq_settled q2 = None"
  proof (cases "dq_stopped q \<or> failure = None")
    case True
    then have "q2 = q1" by (auto simp: q2_def f split: option.splits)
    moreover have "queue_mid items limit maxQueued q1"
      using u(2) True unfolding queue_mid_def f jobs e l by (auto simp del: mset_map split: if_splits)
    ultimately show ?thesis using f(9) by simp
  next
    case False
    then obtain x where x: "failure = Some x" "q2 = stop_queue x q1" by (auto simp: q2_def f)
    have "mset (map fst (dq_jobs q)) + mset (remaining_work q) = mset items + mset (dq_accepted q)"
      using u(2) False by (simp add: queue_mid_def)
    then have "mset (map fst (dq_jobs q)) \<subseteq># mset items + mset (dq_accepted q)" by (metis mset_subset_eq_add_left)
    moreover have "dq_jobs q2 = dq_jobs q1" "dq_active q2 = dq_active q1" "dq_accepted q2 = dq_accepted q1"
      "dq_firstError q2 = Some x" "remaining_work q2 = []" "pendingLength q2 = 0" "dq_pendingCursor q2 = 0"
      "dq_settled q2 = dq_settled q1" "dq_stopped q2"
      by (simp_all add: x(2) stop_queue_def remaining_work_def pendingLength_def dq_stopped_def)
    moreover have "x \<in> errors_of q2" using e x(1) by (simp add: errors_of_def calculation(2))
    moreover have "dq_active q - 1 \<le> limit" "0 < limit" "0 < maxQueued" using u(2) by (auto simp: queue_mid_def)
    ultimately show ?thesis unfolding queue_mid_def by (simp add: f l jobs del: mset_map filter_map)
  qed
  then have q3: "queue_mid items limit maxQueued q3" "dq_settled q3 = None"
    by (simp_all add: q3_def mid_settled)
  let ?y = "q3\<lparr>dq_completionsSinceYield := 0, dq_yieldScheduled := True\<rparr>"
  have y: "queue_mid items limit maxQueued ?y" "dq_settled ?y = None" "dq_yieldScheduled ?y"
    using q3 by (simp_all add: mid_settled)
  have again: "queue_ok items limit maxQueued (settleIfDone q')" if "queue_ok items limit maxQueued q'" for q'
  proof (cases "dq_settled q'")
    case None
    show ?thesis by (rule settleIfDone_ok) (use that None in \<open>simp_all add: queue_ok_def\<close>)
  qed (use that in \<open>simp add: settle_again\<close>)
  have "afterWork limit failure ?n =
      settleIfDone (if \<not> dq_stopped q3 \<and> COOPERATIVE_YIELD_INTERVAL \<le> dq_completionsSinceYield q3 \<and> hasWork q3
         then ?y else dq_schedule limit q3)"
    unfolding afterWork_def Let_def q1_def [symmetric] q2_def [symmetric] q3_def [symmetric] ..
  then show ?thesis using again [OF dq_schedule_ok [OF q3]] settleIfDone_ok [OF y(1,2)] y(3) by simp
qed

lemma immediate_ok:
  assumes "queue_ok items limit maxQueued q"
  shows "queue_ok items limit maxQueued (immediate_fires limit q)"
proof (cases "dq_settled q")
  case None
  then have "queue_mid items limit maxQueued (q\<lparr>dq_yieldScheduled := False\<rparr>)"
    using assms by (simp add: queue_ok_def mid_settled)
  then show ?thesis using None by (simp add: immediate_fires_def dq_schedule_ok)
next
  case (Some r)
  then show ?thesis using assms dq_schedule_settled [OF assms, of False]
    by (cases r) (simp_all add: immediate_fires_def queue_ok_def mid_settled dq_stopped_def remaining_work_def)
qed

lemma dq_step_ok:
  "queue_ok items limit maxQueued q \<Longrightarrow> dq_step limit maxQueued t q = Some q' \<Longrightarrow> queue_ok items limit maxQueued q'"
  by (cases t) (auto simp: invoke_ok offer_ok settle_ok immediate_ok split: if_splits)

lemma new_queue_ok:
  assumes "processDynamicQueue items l m = Some (limit, maxQueued, q)"
  shows "queue_ok items limit maxQueued q"
proof -
  have pos: "validateConcurrency x = Some n \<Longrightarrow> 0 < n" for x n by (cases x) (auto split: if_splits)
  from assms have "0 < limit" "0 < maxQueued" by (auto simp: processDynamicQueue_def pos split: option.splits)
  then have "queue_mid items limit maxQueued (new_queue items)"
    by (simp add: queue_mid_def new_queue_def pendingLength_def dq_stopped_def remaining_work_def errors_of_def)
  moreover have "dq_settled (new_queue items) = None" by (simp add: new_queue_def)
  ultimately have "queue_ok items limit maxQueued (dq_schedule limit (new_queue items))" by (rule dq_schedule_ok)
  moreover have "queue_ok items limit maxQueued ((new_queue items)\<lparr>dq_settled := Some Queue_resolved\<rparr>)" if "items = []"
    using \<open>queue_mid items limit maxQueued (new_queue items)\<close> that
    by (simp add: queue_ok_def mid_settled) (simp add: new_queue_def remaining_work_def dq_stopped_def)
  moreover have "q = (if items = [] then (new_queue items)\<lparr>dq_settled := Some Queue_resolved\<rparr>
      else dq_schedule limit (new_queue items))"
    using assms by (auto simp: processDynamicQueue_def split: option.splits)
  ultimately show ?thesis by (cases "items = []") simp_all
qed

lemma queue_run_ok: "queue_run items limit maxQueued q \<Longrightarrow> queue_ok items limit maxQueued q"
  by (induction rule: queue_run.induct) (auto intro: new_queue_ok dq_step_ok)

lemma settle_idle_fields [simp]:
  "dq_jobs (settleIfDone q) = dq_jobs q" "dq_accepted (settleIfDone q) = dq_accepted q"
  "dq_firstError (settleIfDone q) = dq_firstError q"
  by (simp_all add: settleIfDone_def settle_queue_def split: option.split)

lemma stopped_step:
  assumes "dq_step limit maxQueued t q = Some q'" and "dq_stopped q"
  shows "map fst (dq_jobs q') = map fst (dq_jobs q) \<and> dq_accepted q' = dq_accepted q \<and> dq_firstError q' = dq_firstError q"
proof (cases t)
  case (Settle j failure)
  then have "q' = afterWork limit failure (set_job j (Finished failure) q)" using assms(1) by (simp split: if_splits)
  moreover obtain e where "dq_firstError q = Some e" using assms(2) by (auto simp: dq_stopped_def)
  ultimately show ?thesis
    by (cases failure) (simp_all add: afterWork_def Let_def dq_stopped_def dq_schedule_def set_job_items)
qed (use assms in \<open>auto simp: set_job_items tryEnqueue_def immediate_fires_def dq_schedule_def dq_stopped_def split: if_splits\<close>)

section \<open>What the queue promises\<close>

text \<open>However workers and completions interleave, at most \<open>limit\<close> callbacks are active and at most
  \<open>maxQueued\<close> offered items wait; until a failure every given and every accepted item is either
  waiting or has been started, exactly once; and no free worker is left idle while there is work,
  except between a cooperative yield and its \<open>setImmediate\<close>.\<close>
theorem dynamic_queue_bounded:
  assumes "queue_run items limit maxQueued q"
  shows "length (filter live (map snd (dq_jobs q))) \<le> limit \<and> pendingLength q \<le> maxQueued \<and>
    mset (map fst (dq_jobs q)) \<subseteq># mset items + mset (dq_accepted q) \<and>
    (\<not> dq_stopped q \<longrightarrow>
       mset (map fst (dq_jobs q)) + mset (remaining_work q) = mset items + mset (dq_accepted q) \<and>
       (\<not> dq_yieldScheduled q \<and> hasWork q \<longrightarrow> length (filter live (map snd (dq_jobs q))) = limit))"
proof -
  note ok = queue_run_ok [OF assms]
  then have m: "queue_mid items limit maxQueued q" by (simp add: queue_ok_def)
  have sub: "mset (map fst (dq_jobs q)) \<subseteq># mset items + mset (dq_accepted q)"
    using m unfolding queue_mid_def by (metis mset_subset_eq_add_left)
  have full: "dq_active q = limit" if "\<not> dq_stopped q" "\<not> dq_yieldScheduled q" "remaining_work q \<noteq> []"
  proof (cases "dq_settled q")
    case None
    then show ?thesis using ok that by (simp add: queue_ok_def)
  next
    case (Some r)
    then show ?thesis using ok that by (cases r) (simp_all add: queue_ok_def dq_stopped_def)
  qed
  have a: "dq_active q = length (filter live (map snd (dq_jobs q)))" "dq_active q \<le> limit" "pendingLength q \<le> maxQueued"
    using m unfolding queue_mid_def by (blast+)
  have eq: "mset (map fst (dq_jobs q)) + mset (remaining_work q) = mset items + mset (dq_accepted q)" if "\<not> dq_stopped q"
    using m that unfolding queue_mid_def by presburger
  show ?thesis using sub full a eq unfolding hasWork_iff by metis
qed

text \<open>The returned promise resolves only when every callback has settled without an error and every given
  and accepted item was processed exactly once; it rejects only after all callbacks have settled, with
  the error of one of them; and after a failure no further item is accepted or started.\<close>
theorem dynamic_queue_outcome:
  assumes "queue_run items limit maxQueued q"
  shows "(dq_settled q = Some Queue_resolved \<longrightarrow>
      set (map snd (dq_jobs q)) \<subseteq> {Finished None} \<and> mset (map fst (dq_jobs q)) = mset items + mset (dq_accepted q)) \<and>
    (\<forall>e. dq_settled q = Some (Queue_rejected e) \<longrightarrow>
      (\<forall>s \<in> set (map snd (dq_jobs q)). \<not> live s) \<and> Finished (Some e) \<in> set (map snd (dq_jobs q))) \<and>
    (\<forall>t q'. dq_stopped q \<and> dq_step limit maxQueued t q = Some q' \<longrightarrow>
      map fst (dq_jobs q') = map fst (dq_jobs q) \<and> dq_accepted q' = dq_accepted q \<and> dq_firstError q' = dq_firstError q)"
proof -
  note ok = queue_run_ok [OF assms]
  have dead: "\<forall>s \<in> set (map snd (dq_jobs q)). \<not> live s" if "dq_active q = 0"
    using ok that by (simp add: queue_ok_def queue_mid_def filter_empty_conv)
  have "set (map snd (dq_jobs q)) \<subseteq> {Finished None} \<and> mset (map fst (dq_jobs q)) = mset items + mset (dq_accepted q)"
    if "dq_settled q = Some Queue_resolved"
  proof -
    have q: "dq_active q = 0" "\<not> dq_stopped q" "remaining_work q = []" "queue_mid items limit maxQueued q"
      using ok that by (simp_all add: queue_ok_def)
    then have "errors_of q = {}" and m: "mset (map fst (dq_jobs q)) = mset items + mset (dq_accepted q)"
      by (simp_all add: queue_mid_def)
    have "s = Finished None" if "s \<in> set (map snd (dq_jobs q))" for s
    proof (cases s)
      case (Finished x)
      with that \<open>errors_of q = {}\<close> show ?thesis by (cases x) (auto simp: errors_of_def)
    qed (use dead [OF q(1)] that in auto)
    with m show ?thesis by blast
  qed
  moreover have "(\<forall>s \<in> set (map snd (dq_jobs q)). \<not> live s) \<and> Finished (Some e) \<in> set (map snd (dq_jobs q))"
    if "dq_settled q = Some (Queue_rejected e)" for e
  proof -
    have q: "dq_active q = 0" "dq_firstError q = Some e" "queue_mid items limit maxQueued q"
      using ok that by (simp_all add: queue_ok_def)
    then have "e \<in> errors_of q" by (simp add: queue_mid_def dq_stopped_def)
    then show ?thesis using dead [OF q(1)] by (simp add: errors_of_def)
  qed
  moreover have "map fst (dq_jobs q') = map fst (dq_jobs q) \<and> dq_accepted q' = dq_accepted q \<and> dq_firstError q' = dq_firstError q"
    if "dq_stopped q" "dq_step limit maxQueued t q = Some q'" for t q'
    using stopped_step [OF that(2,1)] .
  ultimately show ?thesis by blast
qed

section \<open>The queue settles\<close>

fun job_work :: "'e job_state \<Rightarrow> nat" where
  "job_work Starting = 3"
| "job_work Running = 2"
| "job_work (Finished _) = 0"

definition queue_work :: "('i, 'e) dyn_queue \<Rightarrow> nat" where
  "queue_work q = 4 * length (remaining_work q) + sum_list (map job_work (map snd (dq_jobs q))) + (if dq_yieldScheduled q then 1 else 0)"

fun offers :: "('i, 'e) queue_step \<Rightarrow> bool" where
  "offers (Offer _ _) = True"
| "offers _ = False"

lemma start_items_work: "queue_work (start_items limit q) \<le> queue_work q"
proof (induction limit q rule: start_items.induct)
  case (1 limit q)
  show ?case
  proof (cases "dq_active q < limit \<and> hasWork q")
    case True
    then have s: "start_items limit q = start_items limit (start_item q)" by (simp add: start_items.simps [of limit q])
    obtain item q1 where t: "takeWork q = (item, q1)" by (cases "takeWork q")
    note r = takeWork_remaining [OF _ t]
    have "remaining_work (start_item q) = remaining_work q1" by (simp add: start_item_def t remaining_work_def)
    then have "queue_work (start_item q) \<le> queue_work q"
      using True r by (simp add: queue_work_def start_item_def t hasWork_iff)
    with "1.IH" True s show ?thesis by simp
  next
    case False
    then show ?thesis by (subst start_items.simps) auto
  qed
qed

lemma settle_idle_work [simp]: "queue_work (settleIfDone q) = queue_work q"
  by (simp add: settleIfDone_def settle_queue_def queue_work_def remaining_work_def split: option.split)

lemma schedule_work: "queue_work (dq_schedule limit q) \<le> queue_work q"
  by (simp add: dq_schedule_def start_items_work)

lemma set_job_work:
  assumes "job_is s j q"
  shows "queue_work (set_job j t q) + job_work s = queue_work q + job_work t"
proof -
  have j: "j < length (map snd (dq_jobs q))" "map snd (dq_jobs q) ! j = s" using assms by (simp_all add: job_is_def)
  have "sum_list (map job_work ((map snd (dq_jobs q))[j := t])) + job_work s =
      sum_list (map job_work (map snd (dq_jobs q))) + job_work t"
    using j by (subst (2) id_take_nth_drop [OF j(1)]) (simp add: upd_conv_take_nth_drop take_map drop_map)
  then show ?thesis unfolding queue_work_def set_job_states set_job_fields by simp
qed

lemma after_work: "queue_work (afterWork limit failure q) \<le> queue_work q + 1"
proof -
  define q1 where "q1 = q\<lparr>dq_active := dq_active q - 1\<rparr>"
  define q2 where "q2 = (case failure of Some e \<Rightarrow> if \<not> dq_stopped q1 then stop_queue e q1 else q1 | None \<Rightarrow> q1)"
  define q3 where "q3 = q2\<lparr>dq_completionsSinceYield := dq_completionsSinceYield q2 + 1\<rparr>"
  have 1: "queue_work q1 = queue_work q" by (simp add: q1_def queue_work_def remaining_work_def)
  have 2: "queue_work q2 \<le> queue_work q1"
    by (auto simp: q2_def queue_work_def stop_queue_def remaining_work_def split: option.split)
  have 3: "queue_work q3 = queue_work q2" by (simp add: q3_def queue_work_def remaining_work_def)
  have "queue_work (q3\<lparr>dq_completionsSinceYield := 0, dq_yieldScheduled := True\<rparr>) \<le> queue_work q3 + 1"
    by (simp add: queue_work_def remaining_work_def)
  then show ?thesis
    unfolding afterWork_def Let_def q1_def [symmetric] q2_def [symmetric] q3_def [symmetric]
    using 1 2 3 schedule_work [of limit q3] by simp
qed

lemma step_less:
  assumes "dq_step limit maxQueued t q = Some q'" and "\<not> offers t"
  shows "queue_work q' < queue_work q"
proof (cases t)
  case (Invoke j)
  then show ?thesis using assms(1) set_job_work [of Starting j q Running] by (auto split: if_splits)
next
  case (Settle j failure)
  then show ?thesis using assms(1) set_job_work [of Running j q "Finished failure"]
      after_work [of limit failure "set_job j (Finished failure) q"] by (auto split: if_splits)
next
  case Immediate
  then have "dq_yieldScheduled q" "q' = dq_schedule limit (q\<lparr>dq_yieldScheduled := False\<rparr>)"
    using assms(1) by (auto simp: immediate_fires_def split: if_splits)
  moreover from this have "queue_work (q\<lparr>dq_yieldScheduled := False\<rparr>) < queue_work q"
    by (simp add: queue_work_def remaining_work_def)
  ultimately show ?thesis using schedule_work [of limit "q\<lparr>dq_yieldScheduled := False\<rparr>"] by simp
qed (use assms(2) in simp)

lemma unsettled_step:
  assumes "queue_ok items limit maxQueued q" and "dq_settled q = None"
  shows "\<exists>t q'. \<not> offers t \<and> dq_step limit maxQueued t q = Some q'"
proof (cases "dq_active q = 0")
  case True
  then have "dq_yieldScheduled q" using assms by (auto simp: queue_ok_def queue_mid_def)
  then show ?thesis by (intro exI [of _ Immediate]) simp
next
  case False
  moreover have "dq_active q = length (filter live (map snd (dq_jobs q)))"
    using assms(1) unfolding queue_ok_def queue_mid_def by blast
  ultimately have "filter live (map snd (dq_jobs q)) \<noteq> []" by (metis list.size(3))
  then obtain s where "s \<in> set (map snd (dq_jobs q))" "live s" by (auto simp: filter_empty_conv)
  then obtain j where "j < length (dq_jobs q)" "snd (dq_jobs q ! j) = s" "live s" by (auto simp: in_set_conv_nth)
  then have "job_is Starting j q \<or> job_is Running j q" by (cases s) (auto simp: job_is_def)
  then show ?thesis by (auto intro: exI [of _ "Invoke j"] exI [of _ "Settle j None"])
qed

text \<open>The queue does not get stuck: from every state the promise can be settled, and as long as the
  callbacks offer no more work the number of steps until it is settled is bounded.\<close>
theorem dynamic_queue_settles:
  assumes "queue_run items limit maxQueued q"
  shows "(\<exists>ts q'. list_all (\<lambda>t. \<not> offers t) ts \<and> dq_steps limit maxQueued ts q = Some q' \<and> dq_settled q' \<noteq> None) \<and>
    (\<forall>ts q'. list_all (\<lambda>t. \<not> offers t) ts \<and> dq_steps limit maxQueued ts q = Some q' \<longrightarrow> length ts \<le> queue_work q)"
proof
  have "queue_ok items limit maxQueued q" using assms by (rule queue_run_ok)
  then show "\<exists>ts q'. list_all (\<lambda>t. \<not> offers t) ts \<and> dq_steps limit maxQueued ts q = Some q' \<and> dq_settled q' \<noteq> None"
  proof (induction "queue_work q" arbitrary: q rule: less_induct)
    case less
    show ?case
    proof (cases "dq_settled q")
      case None
      from unsettled_step [OF less.prems this] obtain t p where
        s: "\<not> offers t" "dq_step limit maxQueued t q = Some p" by blast
      from less.hyps [OF step_less [OF s(2,1)] dq_step_ok [OF less.prems s(2)]] obtain ts q' where
        "list_all (\<lambda>t. \<not> offers t) ts" "dq_steps limit maxQueued ts p = Some q'" "dq_settled q' \<noteq> None" by blast
      then show ?thesis using s by (intro exI [of _ "t # ts"] exI [of _ q']) simp
    qed (auto intro: exI [of _ "[]"])
  qed
  have "length ts + queue_work q' \<le> queue_work q" if "list_all (\<lambda>t. \<not> offers t) ts" "dq_steps limit maxQueued ts q = Some q'" for ts q'
    using that
  proof (induction ts arbitrary: q)
    case (Cons t ts)
    then obtain p where "dq_step limit maxQueued t q = Some p" "dq_steps limit maxQueued ts p = Some q'" by (auto split: option.splits)
    with Cons.IH [of p] Cons.prems(1) step_less [of limit maxQueued t q p] show ?case by simp
  qed simp
  then show "\<forall>ts q'. list_all (\<lambda>t. \<not> offers t) ts \<and> dq_steps limit maxQueued ts q = Some q' \<longrightarrow> length ts \<le> queue_work q"
    by (metis add_leD1)
qed

section \<open>A run of the queue\<close>

text \<open>Two items and two workers; the first worker offers an item, a second offer is refused, then a callback fails.\<close>

definition ex_queue_start :: "(nat, string) dyn_queue" where
  "ex_queue_start = (case processDynamicQueue [10, 20] (Fin 2) (Some (Fin 1)) of Some (_, _, q) \<Rightarrow> q)"

definition ex_queue :: "(nat, string) dyn_queue" where
  "ex_queue = the (dq_steps 2 1 [Invoke 0, Invoke 1, Offer 0 30, Offer 0 40, Settle 1 None] ex_queue_start)"

definition ex_queue_done :: "(nat, string) dyn_queue" where
  "ex_queue_done = the (dq_steps 2 1 [Settle 0 None, Invoke 2, Settle 2 None] ex_queue)"

lemma dq_steps_run: "dq_steps limit maxQueued ts q = Some q' \<Longrightarrow> queue_run items limit maxQueued q \<Longrightarrow> queue_run items limit maxQueued q'"
  by (induction ts arbitrary: q) (auto split: option.splits intro: queue_step)

lemma dq_steps_the:
  "queue_run items limit maxQueued q \<Longrightarrow> dq_steps limit maxQueued ts q \<noteq> None \<Longrightarrow>
   queue_run items limit maxQueued (the (dq_steps limit maxQueued ts q))"
  by (auto intro: dq_steps_run)

lemma ex_queue_run: "queue_run [10, 20] 2 1 ex_queue" "queue_run [10, 20] 2 1 ex_queue_done"
proof -
  have "map_option (\<lambda>(l, m, q). (l, m, dq_active q)) (processDynamicQueue [10 :: nat, 20] (Fin 2) (Some (Fin 1)) :: (nat \<times> nat \<times> (nat, string) dyn_queue) option) = Some (2, 1, 2)"
    by code_simp
  then have "processDynamicQueue [10, 20] (Fin 2) (Some (Fin 1)) = Some (2, 1, ex_queue_start)"
    by (auto simp: ex_queue_start_def)
  then have r: "queue_run [10, 20] 2 1 ex_queue_start" by (rule queue_start)
  have "dq_steps 2 1 [Invoke 0, Invoke 1, Offer 0 30, Offer 0 40, Settle 1 None] ex_queue_start \<noteq> None" by code_simp
  then show 1: "queue_run [10, 20] 2 1 ex_queue" unfolding ex_queue_def by (rule dq_steps_the [OF r])
  have "dq_steps 2 1 [Settle 0 None, Invoke 2, Settle 2 None] ex_queue \<noteq> None" by code_simp
  then show "queue_run [10, 20] 2 1 ex_queue_done" unfolding ex_queue_done_def by (rule dq_steps_the [OF 1])
qed

lemma ex_queue_facts:
  "dq_accepted ex_queue = [30]" "map fst (dq_jobs ex_queue) = [10, 20, 30]" "dq_firstError ex_queue = None"
  "dq_settled ex_queue_done = Some Queue_resolved" "queue_work ex_queue = 5"
  by code_simp+

lemma dynamic_queue_bounded_witness: "length (filter live (map snd (dq_jobs ex_queue))) \<le> 2 \<and> mset [10, 20, 30] \<subseteq># mset [10, 20] + mset [30 :: nat]"
  using dynamic_queue_bounded [OF ex_queue_run(1)] unfolding ex_queue_facts by blast

lemma dynamic_queue_outcome_witness: "set (map snd (dq_jobs ex_queue_done)) \<subseteq> {Finished None}"
  using dynamic_queue_outcome [OF ex_queue_run(2)] ex_queue_facts(4) by blast

lemma dynamic_queue_settles_witness: "\<exists>ts q'. dq_steps 2 1 ts ex_queue = Some q' \<and> dq_settled q' \<noteq> None"
  using dynamic_queue_settles [OF ex_queue_run(1)] by blast

end
