(* ===== verification/Bounded_Map.thy ===== *)
theory Bounded_Map
  imports Bounded_Work
begin

text \<open>
  \<open>mapWithConcurrency\<close> of \<open>src/server/agent/bounded-async-work.ts\<close>: a fixed number of workers share a
  cursor; a worker awaits the callback of its item, rests in an event-loop yield, has ended, or died
  with the error that its callback threw.
\<close>

section \<open>The pool\<close>

datatype 'e map_worker = Working nat | Resting | Ended | Died 'e

record ('r, 'e) bounded_map =
  bm_length :: nat
  bm_results :: "'r option list"
  bm_cursor :: nat
  bm_completedSinceYield :: nat
  bm_workers :: "'e map_worker list"
  bm_calls :: "nat list"
  bm_outcome :: "('e + 'r option list) option"

text \<open>The head of a worker's loop.\<close>

definition next_index :: "nat \<Rightarrow> ('r, 'e) bounded_map \<Rightarrow> ('r, 'e) bounded_map" where
  "next_index k p =
     (let index = bm_cursor p; p1 = p\<lparr>bm_cursor := index + 1\<rparr> in
      if bm_length p1 \<le> index then p1\<lparr>bm_workers := (bm_workers p1)[k := Ended]\<rparr>
      else p1\<lparr>bm_workers := (bm_workers p1)[k := Working index], bm_calls := bm_calls p1 @ [index]\<rparr>)"

text \<open>\<open>Promise.all\<close> resolves when every worker has returned.\<close>

definition all_returned :: "('r, 'e) bounded_map \<Rightarrow> ('r, 'e) bounded_map" where
  "all_returned p =
     (if bm_outcome p = None \<and> list_all (\<lambda>w. w = Ended) (bm_workers p) then p\<lparr>bm_outcome := Some (Inr (bm_results p))\<rparr> else p)"

definition start_worker :: "('r, 'e) bounded_map \<Rightarrow> ('r, 'e) bounded_map" where
  "start_worker p = next_index (length (bm_workers p)) (p\<lparr>bm_workers := bm_workers p @ [Resting]\<rparr>)"

definition new_pool :: "nat \<Rightarrow> ('r, 'e) bounded_map" where
  "new_pool n =
     \<lparr>bm_length = n, bm_results = replicate n None, bm_cursor = 0, bm_completedSinceYield = 0, bm_workers = [],
      bm_calls = [], bm_outcome = None\<rparr>"

definition mapWithConcurrency :: "nat \<Rightarrow> js_num \<Rightarrow> ('r, 'e) bounded_map option" where
  "mapWithConcurrency n limit =
     (case validateConcurrency limit of
        None \<Rightarrow> None
      | Some l \<Rightarrow>
          Some (all_returned ((start_worker ^^ min l n) (new_pool n))))"

definition callback_resolves :: "nat \<Rightarrow> nat \<Rightarrow> 'r \<Rightarrow> ('r, 'e) bounded_map \<Rightarrow> ('r, 'e) bounded_map" where
  "callback_resolves k index r p =
     (let p1 = p\<lparr>bm_results := (bm_results p)[index := Some r], bm_completedSinceYield := bm_completedSinceYield p + 1\<rparr> in
      if COOPERATIVE_YIELD_INTERVAL \<le> bm_completedSinceYield p1
      then p1\<lparr>bm_completedSinceYield := 0, bm_workers := (bm_workers p1)[k := Resting]\<rparr>
      else all_returned (next_index k p1))"

definition callback_rejects :: "nat \<Rightarrow> 'e \<Rightarrow> ('r, 'e) bounded_map \<Rightarrow> ('r, 'e) bounded_map" where
  "callback_rejects k e p =
     p\<lparr>bm_workers := (bm_workers p)[k := Died e],
       bm_outcome := (case bm_outcome p of None \<Rightarrow> Some (Inl e) | Some x \<Rightarrow> Some x)\<rparr>"

definition worker_wakes :: "nat \<Rightarrow> ('r, 'e) bounded_map \<Rightarrow> ('r, 'e) bounded_map" where
  "worker_wakes k p = all_returned (next_index k p)"

datatype ('r, 'e) map_step = Resolves nat 'r | Rejects nat 'e | Wakes nat

text \<open>The callback of the item at \<open>index\<close> resolves with \<open>f index\<close> or throws.\<close>

fun bm_step :: "(nat \<Rightarrow> 'r) \<Rightarrow> nat \<times> 'e option \<Rightarrow> ('r, 'e) bounded_map \<Rightarrow> ('r, 'e) bounded_map option" where
  "bm_step f (k, failure) p =
     (if k < length (bm_workers p) then
        (case bm_workers p ! k of
           Working index \<Rightarrow>
             Some (case failure of None \<Rightarrow> callback_resolves k index (f index) p | Some e \<Rightarrow> callback_rejects k e p)
         | Resting \<Rightarrow> Some (worker_wakes k p)
         | _ \<Rightarrow> None)
      else None)"

fun bm_steps :: "(nat \<Rightarrow> 'r) \<Rightarrow> (nat \<times> 'e option) list \<Rightarrow> ('r, 'e) bounded_map \<Rightarrow> ('r, 'e) bounded_map option" where
  "bm_steps f [] p = Some p"
| "bm_steps f (t # ts) p = (case bm_step f t p of None \<Rightarrow> None | Some p' \<Rightarrow> bm_steps f ts p')"

section \<open>The invariant\<close>

text \<open>An index below the cursor has its result, is being worked on, or was lost with its worker.\<close>

definition working :: "('r, 'e) bounded_map \<Rightarrow> nat list" where
  "working p = List.map_filter (\<lambda>w. case w of Working i \<Rightarrow> Some i | _ \<Rightarrow> None) (bm_workers p)"

definition any_died :: "('r, 'e) bounded_map \<Rightarrow> bool" where
  "any_died p \<longleftrightarrow> (\<exists>e. Died e \<in> set (bm_workers p))"

definition map_ok :: "(nat \<Rightarrow> 'r) \<Rightarrow> ('r, 'e) bounded_map \<Rightarrow> bool" where
  "map_ok f p \<longleftrightarrow>
     length (bm_results p) = bm_length p \<and> bm_calls p = [0..<min (bm_cursor p) (bm_length p)] \<and>
     (\<forall>i < bm_length p. bm_results p ! i = None \<or> bm_results p ! i = Some (f i)) \<and>
     (\<not> any_died p \<longrightarrow> (\<forall>i < min (bm_cursor p) (bm_length p). bm_results p ! i \<noteq> None \<or> Working i \<in> set (bm_workers p))) \<and>
     (Ended \<in> set (bm_workers p) \<longrightarrow> bm_length p \<le> bm_cursor p) \<and>
     (\<forall>i. Working i \<in> set (bm_workers p) \<longrightarrow> i < min (bm_cursor p) (bm_length p)) \<and>
     (case bm_outcome p of
        None \<Rightarrow> \<not> any_died p
      | Some (Inl e) \<Rightarrow> Died e \<in> set (bm_workers p)
      | Some (Inr rs) \<Rightarrow> set (bm_workers p) \<subseteq> {Ended} \<and> rs = bm_results p)"

lemma map_ok_completed: "map_ok f (p\<lparr>bm_completedSinceYield := c\<rparr>) = map_ok f p"
  by (simp add: map_ok_def any_died_def split: option.split sum.split)

lemma next_index_ok:
  assumes "map_ok f p" and "k < length (bm_workers p)" and "bm_outcome p = None \<or> (\<exists>e. bm_outcome p = Some (Inl e))"
    and "\<And>e. bm_workers p ! k \<noteq> Died e" and "\<And>i. bm_workers p ! k = Working i \<Longrightarrow> bm_results p ! i \<noteq> None"
  shows "map_ok f (next_index k p)"
proof -
  have died: "Died e \<in> set ((bm_workers p)[k := s]) \<longleftrightarrow> Died e \<in> set (bm_workers p) \<or> Died e = s" for e s
    using assms(4) by (intro set_update_iff assms(2)) blast
  have work: "Working i \<in> set ((bm_workers p)[k := s]) \<or> bm_results p ! i \<noteq> None"
    if "Working i \<in> set (bm_workers p) \<or> Working i = s" for i s
    using that assms(5) set_update_iff [OF assms(2), of "Working i" s] by blast
  have work': "Working i \<in> set (bm_workers p) \<or> Working i = s" if "Working i \<in> set ((bm_workers p)[k := s])" for i s
    using that set_update_subset_insert [of "bm_workers p" k s] by blast
  have ended: "Ended \<in> set (bm_workers p) \<or> Ended = s" if "Ended \<in> set ((bm_workers p)[k := s])" for s
    using that set_update_subset_insert [of "bm_workers p" k s] by blast
  show ?thesis
  proof (cases "bm_length p \<le> bm_cursor p")
    case True
    have "bm_results p ! i \<noteq> None \<or> Working i \<in> set ((bm_workers p)[k := Ended])"
      if "\<not> any_died p" "i < bm_length p" for i
      using assms(1) that True work [of i Ended] by (auto simp: map_ok_def)
    then show ?thesis using assms(1,3) True died work' [of _ Ended]
      by (auto simp: map_ok_def next_index_def Let_def any_died_def)
  next
    case False
    have "bm_results p ! i \<noteq> None \<or> Working i \<in> set ((bm_workers p)[k := Working (bm_cursor p)])"
      if "\<not> any_died p" "i < Suc (bm_cursor p)" for i
      using assms(1) that False work [of i "Working (bm_cursor p)"] by (auto simp: map_ok_def less_Suc_eq)
    moreover have "bm_calls p @ [bm_cursor p] = [0..<Suc (bm_cursor p)]" using assms(1) False by (simp add: map_ok_def)
    moreover have "Ended \<notin> set ((bm_workers p)[k := Working (bm_cursor p)])"
      using assms(1) False ended [of "Working (bm_cursor p)"] by (auto simp: map_ok_def)
    moreover have "i < Suc (bm_cursor p)" if "Working i \<in> set ((bm_workers p)[k := Working (bm_cursor p)])" for i
      using work' [OF that] assms(1) False by (auto simp: map_ok_def less_Suc_eq)
    ultimately show ?thesis using assms(1,3) False died [of _ "Working (bm_cursor p)"]
      by (auto simp: map_ok_def next_index_def Let_def any_died_def not_le min_def)
  qed
qed

definition map_run_ok :: "(nat \<Rightarrow> 'r) \<Rightarrow> ('r, 'e) bounded_map \<Rightarrow> bool" where
  "map_run_ok f p \<longleftrightarrow> map_ok f p \<and> (bm_outcome p = None \<longrightarrow> \<not> set (bm_workers p) \<subseteq> {Ended})"

lemma all_returned_ok: "map_ok f p \<Longrightarrow> map_run_ok f (all_returned p)"
  by (auto simp: all_returned_def map_run_ok_def map_ok_def any_died_def list_all_iff)

lemma start_workers_ok:
  fixes p :: "('r, 'e) bounded_map"
  shows "m \<le> n \<Longrightarrow> p = (start_worker ^^ m) (new_pool n) \<Longrightarrow>
   map_ok f p \<and> bm_workers p = map Working [0..<m] \<and> bm_cursor p = m \<and> bm_outcome p = None \<and> bm_length p = n"
proof (induction m arbitrary: p)
  case 0
  then show ?case by (simp add: new_pool_def map_ok_def any_died_def)
next
  case (Suc m)
  let ?p = "(start_worker ^^ m) (new_pool n) :: ('r, 'e) bounded_map"
  let ?q = "?p\<lparr>bm_workers := bm_workers ?p @ [Resting]\<rparr>"
  have IH: "map_ok f ?p" "bm_workers ?p = map Working [0..<m]" "bm_cursor ?p = m" "bm_outcome ?p = None" "bm_length ?p = n"
    using Suc by auto
  have "map_ok f ?q" using IH(1,4) by (simp add: map_ok_def any_died_def)
  then have "map_ok f (next_index m ?q)" using IH by (intro next_index_ok) (simp_all add: nth_append)
  moreover have "p = start_worker ?p" using Suc.prems(2) by simp
  then have "p = next_index m ?q" unfolding start_worker_def [of ?p] IH(2) by simp
  ultimately show ?case using IH Suc.prems(1)
    by (simp add: next_index_def Let_def list_update_append)
qed

lemma new_map_ok:
  assumes "mapWithConcurrency n limit = Some p"
  shows "map_run_ok f p"
proof -
  from assms obtain l where "p = all_returned ((start_worker ^^ min l n) (new_pool n))"
    by (auto simp: mapWithConcurrency_def split: option.splits)
  then show ?thesis using start_workers_ok [OF min.cobounded2 refl] all_returned_ok by blast
qed

lemma rest_ok:
  assumes "map_ok f p" and "k < length (bm_workers p)" and "bm_outcome p = None \<or> (\<exists>e. bm_outcome p = Some (Inl e))"
    and "bm_workers p ! k = Working i" and "bm_results p ! i \<noteq> None"
  shows "map_run_ok f (p\<lparr>bm_workers := (bm_workers p)[k := Resting]\<rparr>)"
proof -
  have keep: "x \<in> set ((bm_workers p)[k := Resting]) \<longleftrightarrow> x \<in> set (bm_workers p) \<or> x = Resting" if "x \<noteq> Working i" for x
    using that assms(4) by (intro set_update_iff assms(2)) blast
  have sub: "set ((bm_workers p)[k := Resting]) \<subseteq> insert Resting (set (bm_workers p))" by (rule set_update_subset_insert)
  let ?r = "p\<lparr>bm_workers := (bm_workers p)[k := Resting]\<rparr>"
  have w1: "Working j \<in> set ((bm_workers p)[k := Resting]) \<or> bm_results p ! j \<noteq> None" if "Working j \<in> set (bm_workers p)" for j
    using keep [of "Working j"] that assms(5) by (cases "j = i") auto
  have w2: "Working j \<in> set (bm_workers p)" if "Working j \<in> set ((bm_workers p)[k := Resting])" for j
    using sub that by blast
  have e: "Ended \<in> set ((bm_workers p)[k := Resting]) \<longleftrightarrow> Ended \<in> set (bm_workers p)" by (subst keep) simp_all
  have d: "Died e \<in> set ((bm_workers p)[k := Resting]) \<longleftrightarrow> Died e \<in> set (bm_workers p)" for e by (subst keep) simp_all
  then have a: "any_died ?r = any_died p" by (simp add: any_died_def)
  have "Resting \<in> set (bm_workers ?r)" using assms(2) by (simp add: set_update_memI)
  then have n: "\<not> set (bm_workers ?r) \<subseteq> {Ended}" by blast
  have got: "\<forall>i < min (bm_cursor p) (bm_length p). bm_results p ! i \<noteq> None \<or> Working i \<in> set (bm_workers ?r)" if "\<not> any_died p"
    using assms(1) that w1 by (simp add: map_ok_def) blast
  have low: "\<forall>i. Working i \<in> set (bm_workers ?r) \<longrightarrow> i < min (bm_cursor p) (bm_length p)"
    using assms(1) w2 by (simp add: map_ok_def)
  from assms(3) have "map_ok f ?r"
  proof (elim disjE exE)
    assume "bm_outcome p = None"
    then show ?thesis using assms(1) got low e unfolding map_ok_def a by simp
  next
    fix x
    assume "bm_outcome p = Some (Inl x)"
    then show ?thesis using assms(1) got low e d unfolding map_ok_def a by simp
  qed
  then show ?thesis using n unfolding map_run_ok_def by blast
qed

lemma bm_step_ok:
  assumes "map_run_ok f p" and "bm_step f (k, failure) p = Some p'"
  shows "map_run_ok f p'"
proof -
  have k: "k < length (bm_workers p)" using assms(2) by (simp split: if_splits)
  have ok: "map_ok f p" using assms(1) by (simp add: map_run_ok_def)
  have out: "bm_outcome p = None \<or> (\<exists>e. bm_outcome p = Some (Inl e))" if "bm_workers p ! k \<noteq> Ended"
    using ok k that by (auto simp: map_ok_def subset_iff in_set_conv_nth split: option.splits sum.splits)
  consider (work) i where "bm_workers p ! k = Working i" "failure = None" "p' = callback_resolves k i (f i) p"
    | (fail) i e where "bm_workers p ! k = Working i" "failure = Some e" "p' = callback_rejects k e p"
    | (wake) "bm_workers p ! k = Resting" "p' = worker_wakes k p"
    using assms(2) k by (auto split: map_worker.splits option.splits)
  then show ?thesis
  proof cases
    case work
    let ?p = "p\<lparr>bm_results := (bm_results p)[i := Some (f i)], bm_completedSinceYield := bm_completedSinceYield p + 1\<rparr>"
    have "Working i \<in> set (bm_workers p)" using work(1) k by (metis nth_mem)
    then have i: "i < bm_length p" "i < bm_cursor p" "length (bm_results p) = bm_length p" using ok by (auto simp: map_ok_def)
    have o: "bm_outcome p = None \<or> (\<exists>e. bm_outcome p = Some (Inl e))" using out work(1) by simp
    have "map_ok f (p\<lparr>bm_results := (bm_results p)[i := Some (f i)]\<rparr>)"
      using o by (rule disjE) (use ok i(1,3) in \<open>auto simp: map_ok_def any_died_def nth_list_update\<close>)
    then have p: "map_ok f ?p"
      by (simp only: map_ok_completed)
    show ?thesis
    proof (cases "COOPERATIVE_YIELD_INTERVAL \<le> bm_completedSinceYield p + 1")
      case True
      then have p': "p' = ?p\<lparr>bm_completedSinceYield := 0, bm_workers := (bm_workers p)[k := Resting]\<rparr>"
        using work(3) by (simp add: callback_resolves_def Let_def)
      have "map_ok f (?p\<lparr>bm_completedSinceYield := 0\<rparr>)" using p by (simp only: map_ok_completed)
      then have "map_run_ok f ((?p\<lparr>bm_completedSinceYield := 0\<rparr>)\<lparr>bm_workers := (bm_workers p)[k := Resting]\<rparr>)"
        using rest_ok [of f "?p\<lparr>bm_completedSinceYield := 0\<rparr>" k i] work(1) k o i by simp
      then show ?thesis by (simp add: p')
    next
      case False
      then have p': "p' = all_returned (next_index k ?p)" using work(3) by (simp add: callback_resolves_def Let_def)
      have "map_ok f (next_index k ?p)" using k work(1) o i by (intro next_index_ok p) simp_all
      then show ?thesis unfolding p' by (rule all_returned_ok)
    qed
  next
    case fail
    have o: "bm_outcome p = None \<or> (\<exists>e. bm_outcome p = Some (Inl e))" using out fail(1) by simp
    have up: "x \<in> set ((bm_workers p)[k := Died e]) \<Longrightarrow> x \<in> set (bm_workers p) \<or> x = Died e" for x
      using set_update_subset_insert [of "bm_workers p" k "Died e"] by blast
    have died: "Died e' \<in> set (bm_workers p) \<or> e' = e" if "Died e' \<in> set (bm_workers p')" for e'
      using up [of "Died e'"] that fail(3) by (auto simp: callback_rejects_def)
    have keep: "Died e' \<in> set ((bm_workers p)[k := Died e]) \<longleftrightarrow> Died e' \<in> set (bm_workers p) \<or> Died e' = Died e" for e'
      using fail(1) by (intro set_update_iff k) simp
    have "map_ok f p'"
      using ok o up [of Ended] up [of "Working _"] keep fail(3)
      by (auto simp: map_ok_def callback_rejects_def any_died_def split: option.splits)
    moreover have "bm_outcome p' \<noteq> None" using fail(3) by (simp add: callback_rejects_def split: option.split)
    ultimately show ?thesis by (auto simp: map_run_ok_def)
  next
    case wake
    have "map_ok f (next_index k p)" by (rule next_index_ok [OF ok k out]) (simp_all add: wake(1))
    then show ?thesis unfolding wake(2) worker_wakes_def by (rule all_returned_ok)
  qed
qed

section \<open>What the pool promises\<close>

inductive map_run :: "(nat \<Rightarrow> 'r) \<Rightarrow> nat \<Rightarrow> nat \<Rightarrow> ('r, 'e) bounded_map \<Rightarrow> bool" for f :: "nat \<Rightarrow> 'r" and n :: nat where
  map_start: "validateConcurrency l = Some limit \<Longrightarrow> mapWithConcurrency n l = Some p \<Longrightarrow> map_run f n limit p"
| map_next: "map_run f n limit p \<Longrightarrow> bm_step f t p = Some p' \<Longrightarrow> map_run f n limit p'"

lemma map_run_map_ok: "map_run f n limit p \<Longrightarrow> map_run_ok f p"
  by (induction rule: map_run.induct) (auto intro: new_map_ok bm_step_ok)

lemma all_returned_fields [simp]:
  "bm_workers (all_returned p) = bm_workers p" "bm_length (all_returned p) = bm_length p" "bm_calls (all_returned p) = bm_calls p"
  "bm_cursor (all_returned p) = bm_cursor p" "bm_results (all_returned p) = bm_results p"
  by (simp_all add: all_returned_def)

lemma next_index_fields [simp]:
  "length (bm_workers (next_index k p)) = length (bm_workers p)" "bm_length (next_index k p) = bm_length p"
  by (simp_all add: next_index_def Let_def)

lemma map_run_size: "map_run f n limit p \<Longrightarrow> length (bm_workers p) = min limit n \<and> bm_length p = n"
proof (induction rule: map_run.induct)
  case (map_start l limit p)
  then obtain q where q: "q = (start_worker ^^ min limit n) (new_pool n)" and p: "p = all_returned q"
    by (auto simp: mapWithConcurrency_def)
  from start_workers_ok [OF min.cobounded2 q] show ?case by (simp add: p)
next
  case (map_next limit p t p')
  then show ?case
    by (cases t) (auto simp: callback_resolves_def callback_rejects_def worker_wakes_def Let_def
      split: if_splits map_worker.splits option.splits)
qed

text \<open>However the callbacks interleave, each item is handed to at most one callback, in order, at most
  \<open>limit\<close> callbacks run at a time; if the promise resolves, the results are those of all items in
  input order, and if it rejects, with an error that one of the callbacks threw.\<close>
theorem bounded_map_exact:
  assumes "map_run f n limit p"
  shows "bm_calls p = [0..<min (bm_cursor p) n] \<and> length (filter (\<lambda>w. \<exists>i. w = Working i) (bm_workers p)) \<le> limit \<and>
    (\<forall>rs. bm_outcome p = Some (Inr rs) \<longrightarrow> rs = map (Some \<circ> f) [0..<n]) \<and>
    (\<forall>e. bm_outcome p = Some (Inl e) \<longrightarrow> Died e \<in> set (bm_workers p))"
proof -
  have ok: "map_ok f p" using map_run_map_ok [OF assms] by (simp add: map_run_ok_def)
  have n: "bm_length p = n" "length (bm_workers p) = min limit n" using map_run_size [OF assms] by simp_all
  have "rs = map (Some \<circ> f) [0..<n]" if "bm_outcome p = Some (Inr rs)" for rs
  proof -
    have w: "set (bm_workers p) \<subseteq> {Ended}" and rs: "rs = bm_results p" "length rs = n"
      using ok that n by (auto simp: map_ok_def)
    have cur: "n \<le> bm_cursor p"
    proof (cases "bm_workers p = []")
      case True
      then have "n = 0 \<or> limit = 0" using n(2) by (metis list.size(3) min_def)
      moreover have "limit > 0" using assms
      proof (induction rule: map_run.induct)
        case (map_start l limit p)
        then show ?case by (cases l) (auto split: if_splits)
      qed
      ultimately show ?thesis by simp
    next
      case False
      then have "Ended \<in> set (bm_workers p)" using w by (cases "bm_workers p") auto
      then show ?thesis using ok n by (simp add: map_ok_def)
    qed
    have "\<not> any_died p" using w by (auto simp: any_died_def)
    then have "rs ! i = Some (f i)" if "i < n" for i
      using ok that cur n w unfolding map_ok_def rs(1) by fastforce
    then show ?thesis using rs(2) by (intro nth_equalityI) simp_all
  qed
  moreover have "Died e \<in> set (bm_workers p)" if "bm_outcome p = Some (Inl e)" for e
    using ok that by (simp add: map_ok_def)
  moreover have "bm_calls p = [0..<min (bm_cursor p) n]" using ok n by (simp add: map_ok_def)
  moreover have "length (filter (\<lambda>w. \<exists>i. w = Working i) (bm_workers p)) \<le> limit"
    using length_filter_le [of "\<lambda>w. \<exists>i. w = Working i" "bm_workers p"] n(2) by simp
  ultimately show ?thesis by blast
qed

text \<open>Three items, two workers; the second callback is faster.\<close>

definition ex_map :: "(nat, string) bounded_map" where
  "ex_map = the (bm_steps (\<lambda>i. 10 * i) [(1, None), (1, None), (0, None)] (the (mapWithConcurrency 3 (Fin 2))))"

lemma bm_steps_the:
  "map_run f n limit p \<Longrightarrow> bm_steps f ts p \<noteq> None \<Longrightarrow> map_run f n limit (the (bm_steps f ts p))"
  by (induction ts arbitrary: p) (auto split: option.splits intro: map_next)

lemma ex_map_run: "map_run (\<lambda>i. 10 * i) 3 2 ex_map"
proof -
  have v: "validateConcurrency (Fin 2) = Some 2" by code_simp
  then have "mapWithConcurrency 3 (Fin 2) = Some (the (mapWithConcurrency 3 (Fin 2)) :: (nat, string) bounded_map)"
    by (simp add: mapWithConcurrency_def)
  then have r: "map_run (\<lambda>i. 10 * i) 3 2 (the (mapWithConcurrency 3 (Fin 2)) :: (nat, string) bounded_map)"
    by (rule map_start [OF v])
  have "bm_steps (\<lambda>i. 10 * i) [(1, None), (1, None), (0, None)] (the (mapWithConcurrency 3 (Fin 2)) :: (nat, string) bounded_map) \<noteq> None"
    by code_simp
  then show ?thesis unfolding ex_map_def by (rule bm_steps_the [OF r])
qed

lemma bounded_map_exact_witness: "bm_outcome ex_map = Some (Inr [Some 0, Some 10, Some 20])"
proof -
  have "\<exists>rs. bm_outcome ex_map = Some (Inr rs)"
  proof -
    have "(case bm_outcome ex_map of Some (Inr _) \<Rightarrow> True | _ \<Rightarrow> False)" by code_simp
    then show ?thesis by (auto split: option.splits sum.splits)
  qed
  then show ?thesis using bounded_map_exact [OF ex_map_run] by (auto simp: upt_rec)
qed

end
