(* ===== verification/Unified_Diff.thy ===== *)
theory Unified_Diff
  imports Regex
begin

text \<open>
  The parser of unified diffs and the layout of the side-by-side view
  (\<open>src/shared/git-diff/unified.ts\<close>). The parser is a fold over the lines; the file it works on is
  the last one it made, and its current hunk is the last hunk of that file. Positions in a string are
  the rest of the string from there; line counts are natural numbers. The display path of a moved file
  contains an arrow outside Latin-1 and is a constructor.
\<close>

section \<open>Data\<close>

datatype line_kind = Context | Add | Remove | Meta

record diff_line =
  dl_kind :: line_kind
  dl_text :: string
  dl_oldLine :: "nat option"
  dl_newLine :: "nat option"
  dl_raw :: string
  dl_noNewline :: bool

record diff_hunk =
  dh_header :: string
  dh_oldStart :: nat
  dh_oldLines :: nat
  dh_newStart :: nat
  dh_newLines :: nat
  dh_section :: "string option"
  dh_lines :: "diff_line list"

datatype file_status = Added | Deleted | Modified | Renamed | Copied | Unknown_status

datatype display_path = Moved string string | Plain_path string

record diff_file =
  df_id :: string
  df_header :: string
  df_oldPath :: "string option"
  df_path :: string
  df_displayPath :: display_path
  df_status :: file_status
  df_additions :: nat
  df_deletions :: nat
  df_isBinary :: bool
  df_isTruncated :: bool
  df_meta :: "string list"
  df_hunks :: "diff_hunk list"

record open_file = diff_file +
  of_inHunk :: bool
  of_oldLineCursor :: nat
  of_newLineCursor :: nat
  of_index :: nat

record parse_state =
  ps_files :: "open_file list"
  ps_warnings :: "string list"
  ps_trailing :: "string list"
  ps_isTruncated :: bool
  ps_pendingOldPath :: "string option"
  ps_pendingNewPath :: "string option"
  ps_sawHunkLikeText :: bool

record parse_result =
  pr_files :: "diff_file list"
  pr_warnings :: "string list"
  pr_isTruncated :: bool
  pr_trailingText :: "string option"

section \<open>Strings\<close>

definition DIFF_GIT_PREFIX :: string where
  "DIFF_GIT_PREFIX = ''diff --git ''"

definition DIFF_TRUNCATED_MARKER :: string where
  "DIFF_TRUNCATED_MARKER = ''--- Diff truncated (exceeded 500KB) ---''"

definition DEV_NULL :: string where
  "DEV_NULL = ''/dev/null''"

text \<open>\<open>replace(/\r\n/g, "\n").replace(/\r/g, "\n")\<close>, \<open>split("\n")\<close> and \<open>trimEnd\<close>.\<close>

fun crlf_to_lf :: "string \<Rightarrow> string" where
  "crlf_to_lf (CHR 0x0D # CHR 0x0A # s) = CHR 0x0A # crlf_to_lf s"
| "crlf_to_lf (c # s) = c # crlf_to_lf s"
| "crlf_to_lf [] = []"

definition normalize_newlines :: "string \<Rightarrow> string" where
  "normalize_newlines raw = map (\<lambda>c. if c = CHR 0x0D then CHR 0x0A else c) (crlf_to_lf raw)"

fun split_lines :: "string \<Rightarrow> string list" where
  "split_lines [] = [[]]"
| "split_lines (c # s) =
     (if c = CHR 0x0A then [] # split_lines s
      else (case split_lines s of [] \<Rightarrow> [[c]] | l # ls \<Rightarrow> (c # l) # ls))"

definition trim_end :: "string \<Rightarrow> string" where
  "trim_end s = rev (dropWhile js_space (rev s))"

text \<open>\<open>lastIndexOf\<close>.\<close>

fun last_index :: "string \<Rightarrow> string \<Rightarrow> nat option" where
  "last_index [] n = (if n = [] then Some 0 else None)"
| "last_index (c # s) n =
     (case last_index s n of Some i \<Rightarrow> Some (i + 1) | None \<Rightarrow> if starts_with n (c # s) then Some 0 else None)"

section \<open>Paths\<close>

definition stripGitPrefix :: "string \<Rightarrow> string" where
  "stripGitPrefix path =
     (if path = DEV_NULL then path
      else if starts_with ''a/'' path \<or> starts_with ''b/'' path then drop 2 path else path)"

text \<open>After the opening quote: the token and what follows its closing quote.\<close>

fun read_quoted :: "string \<Rightarrow> string \<times> string" where
  "read_quoted [] = ([], [])"
| "read_quoted (c # s) =
     (if c = CHR 0x22 then ([], s)
      else if c = CHR 0x5C \<and> s \<noteq> [] then apfst (Cons (hd s)) (read_quoted (tl s))
      else apfst (Cons c) (read_quoted s))"

definition readQuotedToken :: "string \<Rightarrow> string \<times> string" where
  "readQuotedToken s = read_quoted (drop 1 s)"

lemma length_read_quoted: "length (snd (read_quoted s)) \<le> length s"
proof (induction s rule: length_induct)
  case (1 s)
  then have IH: "length ys < length s \<Longrightarrow> length (snd (read_quoted ys)) \<le> length ys" for ys by blast
  show ?case
  proof (cases s)
    case (Cons c r)
    then have "length (snd (read_quoted r)) \<le> length r" "length (snd (read_quoted (tl r))) \<le> length (tl r)"
      using IH [of r] IH [of "tl r"] by simp_all
    then show ?thesis using Cons by (auto intro: le_SucI order_trans)
  qed simp
qed

function tokenize :: "nat \<Rightarrow> string \<Rightarrow> string list" where
  "tokenize n input =
     (if input = [] \<or> 2 \<le> n then []
      else
        let s = dropWhile (\<lambda>c. c = CHR '' '') input in
        if s \<noteq> [] \<and> hd s = CHR 0x22 then fst (readQuotedToken s) # tokenize (n + 1) (snd (readQuotedToken s))
        else
          let token = takeWhile (\<lambda>c. c \<noteq> CHR '' '') s; rest = dropWhile (\<lambda>c. c \<noteq> CHR '' '') s in
          if token \<noteq> [] then token # tokenize (n + 1) rest else tokenize n rest)"
  by pat_completeness auto
termination
proof (relation "measure (\<lambda>(n, s). length s)", goal_cases)
  case (2 n input s)
  have "s \<noteq> []" using 2(3) by simp
  then have "length s = Suc (length (tl s))" by simp
  moreover have "length s \<le> length input" unfolding 2(2) by (rule length_dropWhile_le)
  moreover have "length (snd (readQuotedToken s)) \<le> length (tl s)"
    using length_read_quoted [of "drop 1 s"] by (simp add: readQuotedToken_def)
  ultimately show ?case by simp
next
  case (3 n input s token rest)
  then have "length s = length token + length rest" by (simp add: flip: length_append)
  moreover have "length s \<le> length input" using 3 length_dropWhile_le [of "\<lambda>c. c = CHR '' ''" input] by simp
  moreover have "token \<noteq> []" by (rule 3(6))
  ultimately show ?case using 3(5) by (cases token) auto
next
  case (4 n input s token rest)
  have "s = []"
  proof (rule ccontr)
    assume "s \<noteq> []"
    moreover from this have "hd s \<noteq> CHR '' ''"
      using hd_dropWhile [of "\<lambda>c. c = CHR '' ''" input] 4(2) by simp
    ultimately have "token \<noteq> []" unfolding 4(4) by (cases s) auto
    with 4(6) show False by simp
  qed
  then show ?case using 4(1,5) by simp
qed simp

declare tokenize.simps [simp del]

definition tokenizeGitPathPair :: "string \<Rightarrow> string list" where
  "tokenizeGitPathPair input = tokenize 0 input"

definition parseDiffGitPaths :: "string \<Rightarrow> string \<times> string" where
  "parseDiffGitPaths line =
     (let rest = drop (length DIFF_GIT_PREFIX) line;
          tokens = tokenizeGitPathPair rest;
          oldPath = stripGitPrefix (if 0 < length tokens then tokens ! 0 else ''unknown'');
          by_tokens = (oldPath, stripGitPrefix (if 1 < length tokens then tokens ! 1 else oldPath)) in
      if \<not> starts_with [CHR 0x22] rest \<and> starts_with ''a/'' rest then
        (case last_index rest '' b/'' of
           Some i \<Rightarrow> if 0 < i then (stripGitPrefix (take i rest), stripGitPrefix (drop (i + 1) rest)) else by_tokens
         | None \<Rightarrow> by_tokens)
      else by_tokens)"

definition parseFileHeaderPath :: "string \<Rightarrow> string" where
  "parseFileHeaderPath input =
     (let trimmed = trim_end input in
      if starts_with [CHR 0x22] trimmed then stripGitPrefix (fst (readQuotedToken trimmed))
      else stripGitPrefix (takeWhile (\<lambda>c. c \<noteq> CHR 0x09) trimmed))"

section \<open>The hunk header\<close>

fun digits_value :: "nat \<Rightarrow> string \<Rightarrow> nat" where
  "digits_value n [] = n"
| "digits_value n (c # cs) = digits_value (10 * n + (of_char c - 48)) cs"

text \<open>\<open>(\d+)(?:,(\d+))?\<close>: the numbers and the rest.\<close>

definition parse_range :: "string \<Rightarrow> (nat \<times> nat option \<times> string) option" where
  "parse_range s =
     (let d = takeWhile is_digit s; r = dropWhile is_digit s in
      if d = [] then None
      else
        let d2 = takeWhile is_digit (drop 1 r) in
        if starts_with '','' r \<and> d2 \<noteq> [] then Some (digits_value 0 d, Some (digits_value 0 d2), dropWhile is_digit (drop 1 r))
        else Some (digits_value 0 d, None, r))"

definition strip_prefix :: "string \<Rightarrow> string \<Rightarrow> string option" where
  "strip_prefix p s = (if starts_with p s then Some (drop (length p) s) else None)"

record hunk_match =
  hm_oldStart :: nat
  hm_oldLines :: "nat option"
  hm_newStart :: nat
  hm_newLines :: "nat option"
  hm_section :: string

definition match_hunk :: "string \<Rightarrow> hunk_match option" where
  "match_hunk line =
     Option.bind (strip_prefix ''@@ -'' line) (\<lambda>s.
     Option.bind (parse_range s) (\<lambda>(o1, o2, s).
     Option.bind (strip_prefix '' +'' s) (\<lambda>s.
     Option.bind (parse_range s) (\<lambda>(n1, n2, s).
     Option.bind (strip_prefix '' @@'' s) (\<lambda>s.
       Some \<lparr>hm_oldStart = o1, hm_oldLines = o2, hm_newStart = n1, hm_newLines = n2,
             hm_section = (if s \<noteq> [] \<and> js_space (hd s) then tl s else s)\<rparr>)))))"

section \<open>Files\<close>

definition inferStatus :: "string option \<Rightarrow> string option \<Rightarrow> file_status \<Rightarrow> file_status" where
  "inferStatus oldPath newPath fallback =
     (if oldPath = Some DEV_NULL then Added else if newPath = Some DEV_NULL then Deleted else fallback)"

definition file_id :: "string option \<Rightarrow> string \<Rightarrow> string \<Rightarrow> string" where
  "file_id oldPath path header =
     (case oldPath of Some p \<Rightarrow> p | None \<Rightarrow> []) @ ''->'' @ (if path \<noteq> [] then path else header)"

definition display_of :: "string option \<Rightarrow> string \<Rightarrow> display_path" where
  "display_of oldPath path =
     (case oldPath of Some p \<Rightarrow> if p \<noteq> [] \<and> p \<noteq> path then Moved p path else Plain_path path | None \<Rightarrow> Plain_path path)"

definition createMutableFile :: "nat \<Rightarrow> string \<Rightarrow> string option \<Rightarrow> string \<Rightarrow> file_status \<Rightarrow> open_file" where
  "createMutableFile index header oldPath path status =
     \<lparr>df_id = file_id oldPath path header, df_header = header, df_oldPath = oldPath, df_path = path,
      df_displayPath = display_of oldPath path, df_status = status, df_additions = 0, df_deletions = 0, df_isBinary = False,
      df_isTruncated = False, df_meta = [], df_hunks = [], of_inHunk = False, of_oldLineCursor = 0, of_newLineCursor = 0,
      of_index = index\<rparr>"

text \<open>\<open>oldPath && oldPath !== path ? oldPath : undefined\<close>.\<close>

definition differing :: "string option \<Rightarrow> string \<Rightarrow> string option" where
  "differing oldPath path = (if truthy oldPath \<and> oldPath \<noteq> Some path then oldPath else None)"

definition createFileFromDiffGit :: "string \<Rightarrow> nat \<Rightarrow> open_file" where
  "createFileFromDiffGit line index =
     (case parseDiffGitPaths line of (oldHeaderPath, newHeaderPath) \<Rightarrow>
        let oldPath = (if oldHeaderPath = DEV_NULL then None else Some oldHeaderPath);
            path = (if newHeaderPath = DEV_NULL then (case oldPath of Some p \<Rightarrow> p | None \<Rightarrow> ''Diff'') else newHeaderPath) in
        createMutableFile index line (differing oldPath path) path
          (inferStatus (Some oldHeaderPath) (Some newHeaderPath) Modified))"

definition createSyntheticFile :: "nat \<Rightarrow> string option \<Rightarrow> string option \<Rightarrow> open_file" where
  "createSyntheticFile index pendingOldPath pendingNewPath =
     (let oldPath = (if truthy pendingOldPath \<and> pendingOldPath \<noteq> Some DEV_NULL then pendingOldPath else None);
          path = (if truthy pendingNewPath \<and> pendingNewPath \<noteq> Some DEV_NULL then the pendingNewPath
                  else (case oldPath of Some p \<Rightarrow> p | None \<Rightarrow> ''Diff''));
          header = (if path = ''Diff'' then ''Diff''
                    else ''diff '' @ (case oldPath of Some p \<Rightarrow> p | None \<Rightarrow> DEV_NULL) @ '' '' @ path) in
      createMutableFile index header (differing oldPath path) path (inferStatus pendingOldPath pendingNewPath Unknown_status))"

definition appendHunk :: "string \<Rightarrow> hunk_match \<Rightarrow> open_file \<Rightarrow> open_file" where
  "appendHunk header m f =
     f\<lparr>of_oldLineCursor := hm_oldStart m, of_newLineCursor := hm_newStart m,
       df_hunks := df_hunks f @
         [\<lparr>dh_header = header, dh_oldStart = hm_oldStart m,
           dh_oldLines = (case hm_oldLines m of None \<Rightarrow> 1 | Some n \<Rightarrow> n), dh_newStart = hm_newStart m,
           dh_newLines = (case hm_newLines m of None \<Rightarrow> 1 | Some n \<Rightarrow> n),
           dh_section = (if js_trim (hm_section m) = [] then None else Some (js_trim (hm_section m))), dh_lines = []\<rparr>],
       of_inHunk := True\<rparr>"

text \<open>A change of the current hunk, the last one of the file.\<close>

definition in_last :: "('a \<Rightarrow> 'a) \<Rightarrow> 'a list \<Rightarrow> 'a list" where
  "in_last g xs = (if xs = [] then [] else butlast xs @ [g (last xs)])"

definition push_line :: "diff_line \<Rightarrow> open_file \<Rightarrow> open_file" where
  "push_line l f = f\<lparr>df_hunks := in_last (\<lambda>h. h\<lparr>dh_lines := dh_lines h @ [l]\<rparr>) (df_hunks f)\<rparr>"

definition appendDiffLine :: "string \<Rightarrow> open_file \<Rightarrow> open_file" where
  "appendDiffLine rawLine f =
     (if \<not> of_inHunk f then f
      else if starts_with ''+'' rawLine then
        (push_line \<lparr>dl_kind = Add, dl_text = drop 1 rawLine, dl_oldLine = None, dl_newLine = Some (of_newLineCursor f),
            dl_raw = rawLine, dl_noNewline = False\<rparr> f)
          \<lparr>of_newLineCursor := of_newLineCursor f + 1, df_additions := df_additions f + 1\<rparr>
      else if starts_with ''-'' rawLine then
        (push_line \<lparr>dl_kind = Remove, dl_text = drop 1 rawLine, dl_oldLine = Some (of_oldLineCursor f), dl_newLine = None,
            dl_raw = rawLine, dl_noNewline = False\<rparr> f)
          \<lparr>of_oldLineCursor := of_oldLineCursor f + 1, df_deletions := df_deletions f + 1\<rparr>
      else
        (push_line \<lparr>dl_kind = Context, dl_text = drop 1 rawLine, dl_oldLine = Some (of_oldLineCursor f),
            dl_newLine = Some (of_newLineCursor f), dl_raw = rawLine, dl_noNewline = False\<rparr> f)
          \<lparr>of_oldLineCursor := of_oldLineCursor f + 1, of_newLineCursor := of_newLineCursor f + 1\<rparr>)"

definition appendMetaLine :: "string \<Rightarrow> open_file \<Rightarrow> open_file" where
  "appendMetaLine rawLine f =
     push_line \<lparr>dl_kind = Meta, dl_text = rawLine, dl_oldLine = None, dl_newLine = None, dl_raw = rawLine, dl_noNewline = False\<rparr> f"

definition applyOldPath :: "string \<Rightarrow> open_file \<Rightarrow> open_file" where
  "applyOldPath oldPath f =
     (if oldPath = DEV_NULL then f\<lparr>df_status := Added, df_oldPath := None\<rparr>
      else if df_status f \<noteq> Renamed \<and> df_status f \<noteq> Copied \<and> oldPath \<noteq> df_path f then f\<lparr>df_oldPath := Some oldPath\<rparr> else f)"

definition applyNewPath :: "string \<Rightarrow> open_file \<Rightarrow> open_file" where
  "applyNewPath newPath f =
     (if newPath = DEV_NULL then
        let f1 = f\<lparr>df_status := Deleted\<rparr> in
        if truthy (df_oldPath f1) then f1\<lparr>df_path := the (df_oldPath f1)\<rparr> else f1
      else f\<lparr>df_path := newPath\<rparr>)"

definition finalizeFile :: "open_file \<Rightarrow> diff_file" where
  "finalizeFile f =
     diff_file.truncate (f\<lparr>of_inHunk := False, df_id := file_id (df_oldPath f) (df_path f) (df_header f),
       df_displayPath := display_of (df_oldPath f) (df_path f),
       df_status := (if df_status f = Unknown_status \<and> df_hunks f \<noteq> [] then Modified else df_status f)\<rparr>)"

section \<open>The parser\<close>

definition isKnownMetadataLine :: "string \<Rightarrow> bool" where
  "isKnownMetadataLine line =
     list_ex (\<lambda>p. starts_with p line)
       [''index '', ''old mode '', ''new mode '', ''deleted file mode '', ''new file mode '', ''similarity index '',
        ''dissimilarity index '', ''copy from '', ''copy to '', ''rename from '', ''rename to '']"

text \<open>A line outside a file.\<close>

definition outside_line :: "string \<Rightarrow> parse_state \<Rightarrow> parse_state" where
  "outside_line rawLine st =
     (if starts_with ''--- '' rawLine then st\<lparr>ps_pendingOldPath := Some (parseFileHeaderPath (drop 4 rawLine))\<rparr>
      else if starts_with ''+++ '' rawLine then st\<lparr>ps_pendingNewPath := Some (parseFileHeaderPath (drop 4 rawLine))\<rparr>
      else if js_trim rawLine \<noteq> [] then st\<lparr>ps_trailing := ps_trailing st @ [rawLine]\<rparr> else st)"

definition mark_no_newline :: "string \<Rightarrow> open_file \<Rightarrow> open_file" where
  "mark_no_newline rawLine f =
     (if dh_lines (last (df_hunks f)) \<noteq> []
      then f\<lparr>df_hunks := in_last (\<lambda>h. h\<lparr>dh_lines := in_last (\<lambda>l. l\<lparr>dl_noNewline := True\<rparr>) (dh_lines h)\<rparr>) (df_hunks f)\<rparr>
      else appendMetaLine rawLine f)"

definition add_meta :: "string \<Rightarrow> open_file \<Rightarrow> open_file" where
  "add_meta rawLine f = f\<lparr>df_meta := df_meta f @ [rawLine]\<rparr>"

text \<open>A line of a file that is not in a hunk: the changed file and perhaps a warning.\<close>

definition header_line :: "string \<Rightarrow> open_file \<Rightarrow> open_file \<times> string list" where
  "header_line rawLine f =
     (if starts_with ''--- '' rawLine then (applyOldPath (parseFileHeaderPath (drop 4 rawLine)) (add_meta rawLine f), [])
      else if starts_with ''+++ '' rawLine then (applyNewPath (parseFileHeaderPath (drop 4 rawLine)) (add_meta rawLine f), [])
      else if starts_with ''rename from '' rawLine then (add_meta rawLine (f\<lparr>df_status := Renamed, df_oldPath := Some (drop 12 rawLine)\<rparr>), [])
      else if starts_with ''rename to '' rawLine then (add_meta rawLine (f\<lparr>df_status := Renamed, df_path := drop 10 rawLine\<rparr>), [])
      else if starts_with ''copy from '' rawLine then (add_meta rawLine (f\<lparr>df_status := Copied, df_oldPath := Some (drop 10 rawLine)\<rparr>), [])
      else if starts_with ''copy to '' rawLine then (add_meta rawLine (f\<lparr>df_status := Copied, df_path := drop 8 rawLine\<rparr>), [])
      else if starts_with ''new file mode '' rawLine then (add_meta rawLine (f\<lparr>df_status := Added\<rparr>), [])
      else if starts_with ''deleted file mode '' rawLine then (add_meta rawLine (f\<lparr>df_status := Deleted\<rparr>), [])
      else if starts_with ''Binary files '' rawLine \<or> rawLine = ''GIT binary patch'' then
        (add_meta rawLine (f\<lparr>df_isBinary := True\<rparr>), [''Binary diff detected for '' @ df_path f @ ''.''])
      else if isKnownMetadataLine rawLine then (add_meta rawLine f, [])
      else if js_trim rawLine \<noteq> [] then (add_meta rawLine f, []) else (f, []))"

text \<open>A line of a file.\<close>

definition file_line :: "string \<Rightarrow> open_file \<Rightarrow> open_file \<times> string list" where
  "file_line rawLine f =
     (if of_inHunk f \<and> starts_with (CHR 0x5C # '' No newline at end of file'') rawLine then (mark_no_newline rawLine f, [])
      else if of_inHunk f \<and> (starts_with ''+'' rawLine \<or> starts_with ''-'' rawLine \<or> starts_with '' '' rawLine)
      then (appendDiffLine rawLine f, [])
      else if of_inHunk f \<and> rawLine = [] then (f, [])
      else header_line rawLine f)"

definition parse_line :: "parse_state \<Rightarrow> string \<Rightarrow> parse_state" where
  "parse_line st rawLine =
     (if rawLine = DIFF_TRUNCATED_MARKER then
        st\<lparr>ps_isTruncated := True, ps_files := in_last (\<lambda>f. f\<lparr>df_isTruncated := True\<rparr>) (ps_files st),
           ps_warnings := ps_warnings st @ [''Diff was truncated because it exceeded the server size limit.'']\<rparr>
      else if starts_with DIFF_GIT_PREFIX rawLine then
        st\<lparr>ps_files := ps_files st @ [createFileFromDiffGit rawLine (length (ps_files st))], ps_pendingOldPath := None,
           ps_pendingNewPath := None\<rparr>
      else
        (case match_hunk rawLine of
           Some m \<Rightarrow>
             let files = (if ps_files st = []
                          then [createSyntheticFile 0 (ps_pendingOldPath st) (ps_pendingNewPath st)] else ps_files st) in
             st\<lparr>ps_files := in_last (appendHunk rawLine m) files, ps_sawHunkLikeText := True\<rparr>
         | None \<Rightarrow>
             if ps_files st = [] then outside_line rawLine st
             else
               (case file_line rawLine (last (ps_files st)) of
                  (f, ws) \<Rightarrow> st\<lparr>ps_files := butlast (ps_files st) @ [f], ps_warnings := ps_warnings st @ ws\<rparr>)))"

definition start_state :: parse_state where
  "start_state =
     \<lparr>ps_files = [], ps_warnings = [], ps_trailing = [], ps_isTruncated = False, ps_pendingOldPath = None,
      ps_pendingNewPath = None, ps_sawHunkLikeText = False\<rparr>"

definition parse_lines :: "string list \<Rightarrow> parse_state" where
  "parse_lines lines = foldl parse_line start_state lines"

definition parseUnifiedDiff :: "string \<Rightarrow> parse_result" where
  "parseUnifiedDiff raw =
     (let st = parse_lines (split_lines (normalize_newlines raw));
          trailing = (if ps_trailing st \<noteq> [] \<and> \<not> ps_sawHunkLikeText st then Some (js_join [CHR 0x0A] (ps_trailing st)) else None) in
      \<lparr>pr_files = map finalizeFile (ps_files st), pr_warnings = ps_warnings st, pr_isTruncated = ps_isTruncated st,
       pr_trailingText = (if truthy trailing then trailing else None)\<rparr>)"

section \<open>The side-by-side layout\<close>

fun pair_up :: "'a list \<Rightarrow> 'b list \<Rightarrow> ('a option \<times> 'b option) list" where
  "pair_up [] bs = map (\<lambda>b. (None, Some b)) bs"
| "pair_up (a # as) [] = (Some a, None) # pair_up as []"
| "pair_up (a # as) (b # bs) = (Some a, Some b) # pair_up as bs"

definition is_kind :: "line_kind \<Rightarrow> diff_line \<Rightarrow> bool" where
  "is_kind k l \<longleftrightarrow> dl_kind l = k"

function buildSplitPairs :: "diff_line list \<Rightarrow> (diff_line option \<times> diff_line option) list" where
  "buildSplitPairs [] = []"
| "buildSplitPairs (line # lines) =
     (if dl_kind line = Remove then
        let removes = takeWhile (is_kind Remove) (line # lines); rest = dropWhile (is_kind Remove) (line # lines);
            adds = takeWhile (is_kind Add) rest in
        pair_up removes adds @ buildSplitPairs (dropWhile (is_kind Add) rest)
      else if dl_kind line = Add then (None, Some line) # buildSplitPairs lines
      else (Some line, Some line) # buildSplitPairs lines)"
  by pat_completeness auto
termination
  by (relation "measure length")
    (auto simp: is_kind_def intro!: le_imp_less_Suc order_trans [OF length_dropWhile_le] length_dropWhile_le)

end
