(* ===== verification/Diff_Checks.thy ===== *)
theory Diff_Checks
  imports Unified_Diff
begin

text \<open>
  What the diff parser guarantees: the line numbers and counts it computes, the round trip with a
  printer of diffs, and that the side-by-side layout neither loses nor reorders a line.
\<close>

section \<open>Line numbers and counts\<close>

definition on_old :: "diff_line \<Rightarrow> bool" where
  "on_old l \<longleftrightarrow> dl_kind l = Context \<or> dl_kind l = Remove"

definition on_new :: "diff_line \<Rightarrow> bool" where
  "on_new l \<longleftrightarrow> dl_kind l = Context \<or> dl_kind l = Add"

text \<open>The lines of a hunk that starts at the lines \<open>a\<close> of the old and \<open>b\<close> of the new file.\<close>

fun numbered :: "nat \<Rightarrow> nat \<Rightarrow> diff_line list \<Rightarrow> bool" where
  "numbered a b [] = True"
| "numbered a b (l # ls) =
     (dl_oldLine l = (if on_old l then Some a else None) \<and> dl_newLine l = (if on_new l then Some b else None) \<and>
      (if dl_kind l = Meta then dl_text l = dl_raw l
       else dl_raw l = (case dl_kind l of Add \<Rightarrow> CHR ''+'' | Remove \<Rightarrow> CHR ''-'' | _ \<Rightarrow> CHR '' '') # dl_text l) \<and>
      numbered (if on_old l then a + 1 else a) (if on_new l then b + 1 else b) ls)"

definition count_kind :: "line_kind \<Rightarrow> diff_hunk list \<Rightarrow> nat" where
  "count_kind k hs = length (filter (is_kind k) (concat (map dh_lines hs)))"

lemma numbered_snoc:
  "numbered a b (ls @ [l]) \<longleftrightarrow> numbered a b ls \<and> numbered (a + length (filter on_old ls)) (b + length (filter on_new ls)) [l]"
  by (induction ls arbitrary: a b) auto

lemma numbered_marked: "numbered a b (in_last (\<lambda>l. l\<lparr>dl_noNewline := x\<rparr>) ls) = numbered a b ls"
proof (cases ls rule: rev_cases)
  case (snoc xs y)
  then show ?thesis by (simp add: in_last_def numbered_snoc on_old_def on_new_def)
qed (simp add: in_last_def)

lemma count_kind_simps [simp]:
  "count_kind k [] = 0" "count_kind k (hs @ hs') = count_kind k hs + count_kind k hs'"
  "count_kind k [h] = length (filter (is_kind k) (dh_lines h))"
  by (simp_all add: count_kind_def)

lemma filter_marked:
  assumes "\<And>l. P (l\<lparr>dl_noNewline := x\<rparr>) = P l"
  shows "length (filter P (in_last (\<lambda>l. l\<lparr>dl_noNewline := x\<rparr>) ls)) = length (filter P ls)"
  using assms by (cases ls rule: rev_cases) (simp_all add: in_last_def)

definition hunk_ok :: "diff_hunk \<Rightarrow> bool" where
  "hunk_ok h \<longleftrightarrow> numbered (dh_oldStart h) (dh_newStart h) (dh_lines h)"

definition open_file_ok :: "open_file \<Rightarrow> bool" where
  "open_file_ok f \<longleftrightarrow>
     list_all hunk_ok (df_hunks f) \<and> df_additions f = count_kind Add (df_hunks f) \<and>
     df_deletions f = count_kind Remove (df_hunks f) \<and>
     (of_inHunk f \<longrightarrow> df_hunks f \<noteq> [] \<and>
        of_oldLineCursor f = dh_oldStart (last (df_hunks f)) + length (filter on_old (dh_lines (last (df_hunks f)))) \<and>
        of_newLineCursor f = dh_newStart (last (df_hunks f)) + length (filter on_new (dh_lines (last (df_hunks f)))))"

lemma in_last_simps [simp]: "in_last g (xs @ [x]) = xs @ [g x]" "in_last g [] = []" "in_last g [x] = [g x]"
  by (simp_all add: in_last_def)

lemma ok_other_fields:
  assumes "open_file_ok f" and "df_hunks f' = df_hunks f" and "df_additions f' = df_additions f"
    and "df_deletions f' = df_deletions f" and "of_inHunk f' = of_inHunk f" and "of_oldLineCursor f' = of_oldLineCursor f"
    and "of_newLineCursor f' = of_newLineCursor f"
  shows "open_file_ok f'"
  using assms by (simp add: open_file_ok_def)

lemma starts_with_Cons: "starts_with (c # p) s \<longleftrightarrow> (\<exists>r. s = c # r \<and> starts_with p r)"
  by (cases s) (auto simp: starts_with_def)

lemma starts_with_Nil [simp]: "starts_with [] s"
  by (simp add: starts_with_def)

lemma appendDiffLine_ok:
  assumes "open_file_ok f" and "starts_with ''+'' raw \<or> starts_with ''-'' raw \<or> starts_with '' '' raw"
  shows "open_file_ok (appendDiffLine raw f)"
proof (cases "of_inHunk f")
  case True
  then obtain hs h where h: "df_hunks f = hs @ [h]"
    using assms(1) by (cases "df_hunks f" rule: rev_cases) (auto simp: open_file_ok_def)
  have "list_all hunk_ok hs" "numbered (dh_oldStart h) (dh_newStart h) (dh_lines h)"
    "df_additions f = count_kind Add (hs @ [h])" "df_deletions f = count_kind Remove (hs @ [h])"
    "of_oldLineCursor f = dh_oldStart h + length (filter on_old (dh_lines h))"
    "of_newLineCursor f = dh_newStart h + length (filter on_new (dh_lines h))"
    using assms(1) True h by (simp_all add: open_file_ok_def hunk_ok_def)
  then show ?thesis using assms(2) True h
    by (auto simp: appendDiffLine_def push_line_def open_file_ok_def hunk_ok_def numbered_snoc on_old_def on_new_def
      is_kind_def starts_with_Cons)
qed (use assms in \<open>simp add: appendDiffLine_def\<close>)

lemma appendHunk_ok: "open_file_ok f \<Longrightarrow> open_file_ok (appendHunk header m f)"
  by (simp add: open_file_ok_def appendHunk_def hunk_ok_def)

lemma mark_no_newline_ok:
  assumes "open_file_ok f" and "of_inHunk f"
  shows "open_file_ok (mark_no_newline raw f)"
proof -
  obtain hs h where h: "df_hunks f = hs @ [h]"
    using assms by (cases "df_hunks f" rule: rev_cases) (auto simp: open_file_ok_def)
  have s: "on_old (l\<lparr>dl_noNewline := x\<rparr>) = on_old l" "on_new (l\<lparr>dl_noNewline := x\<rparr>) = on_new l"
    "is_kind k (l\<lparr>dl_noNewline := x\<rparr>) = is_kind k l" for l x k
    by (simp_all add: on_old_def on_new_def is_kind_def)
  show ?thesis using assms h
    by (simp add: mark_no_newline_def open_file_ok_def hunk_ok_def numbered_marked filter_marked s appendMetaLine_def
        push_line_def on_old_def on_new_def is_kind_def)
qed

lemma header_line_ok: "open_file_ok f \<Longrightarrow> open_file_ok (fst (header_line raw f))"
  by (erule ok_other_fields) (simp_all add: header_line_def add_meta_def applyOldPath_def applyNewPath_def Let_def)

lemma file_line_ok: "open_file_ok f \<Longrightarrow> open_file_ok (fst (file_line raw f))"
  by (auto simp: file_line_def mark_no_newline_ok appendDiffLine_ok header_line_ok)

lemma list_all_in_last: "list_all P xs \<Longrightarrow> (\<And>x. P x \<Longrightarrow> P (g x)) \<Longrightarrow> list_all P (in_last g xs)"
  by (cases xs rule: rev_cases) auto

lemma created_ok: "open_file_ok (createMutableFile i h p q s)"
  by (simp add: createMutableFile_def open_file_ok_def)

lemma parse_line_ok:
  assumes "list_all open_file_ok (ps_files st)"
  shows "list_all open_file_ok (ps_files (parse_line st raw))"
proof -
  have t: "list_all open_file_ok (in_last (\<lambda>f. f\<lparr>df_isTruncated := True\<rparr>) (ps_files st))"
    by (rule list_all_in_last [OF assms]) (erule ok_other_fields, simp_all)
  have new: "open_file_ok (createFileFromDiffGit raw n)" "open_file_ok (createSyntheticFile n p q)" for n p q
    by (simp_all add: createFileFromDiffGit_def createSyntheticFile_def Let_def created_ok split: prod.split)
  have new': "open_file_ok (appendHunk raw m (createSyntheticFile n p q))" for n m p q by (intro appendHunk_ok new)
  have h: "list_all open_file_ok (in_last (appendHunk raw m) fs)" if "list_all open_file_ok fs" for fs m
    by (rule list_all_in_last [OF that]) (rule appendHunk_ok)
  have o: "list_all open_file_ok (ps_files (outside_line raw st))" using assms by (simp add: outside_line_def)
  have l: "list_all open_file_ok (butlast (ps_files st) @ [f])" if "ps_files st \<noteq> []" "(f, ws) = file_line raw (last (ps_files st))"
    for f ws
  proof -
    have "list_all open_file_ok (butlast (ps_files st)) \<and> open_file_ok (last (ps_files st))"
      using assms that(1) by (cases "ps_files st" rule: rev_cases) auto
    with that(2) file_line_ok [of "last (ps_files st)" raw] show ?thesis by (metis fst_conv list.pred_inject list_all_append)
  qed
  show ?thesis using assms t new new' h o l
    by (auto simp: parse_line_def Let_def split: option.split prod.split)
qed

text \<open>C36: In every hunk of a parsed diff the lines carry the numbers that the hunk header implies, their
  texts are the raw lines without the marker, and the additions and deletions reported for a file are
  those of its hunks.\<close>
theorem diff_numbers_exact:
  "list_all (\<lambda>f. list_all (\<lambda>h. numbered (dh_oldStart h) (dh_newStart h) (dh_lines h)) (df_hunks f) \<and>
      df_additions f = count_kind Add (df_hunks f) \<and> df_deletions f = count_kind Remove (df_hunks f))
     (pr_files (parseUnifiedDiff raw))"
proof -
  have "list_all open_file_ok (ps_files (foldl parse_line st ls))" if "list_all open_file_ok (ps_files st)" for st ls
    using that by (induction ls arbitrary: st) (simp_all add: parse_line_ok)
  then have "list_all open_file_ok (ps_files (parse_lines ls))" for ls by (simp add: parse_lines_def start_state_def)
  moreover have "df_hunks (finalizeFile f) = df_hunks f" "df_additions (finalizeFile f) = df_additions f"
    "df_deletions (finalizeFile f) = df_deletions f" for f
    by (simp_all add: finalizeFile_def diff_file.truncate_def)
  ultimately show ?thesis
    by (simp add: parseUnifiedDiff_def Let_def list_all_iff open_file_ok_def hunk_ok_def)
qed

section \<open>The side-by-side layout\<close>

definition column :: "('a \<Rightarrow> 'b option) \<Rightarrow> 'a list \<Rightarrow> 'b list" where
  "column g xs = List.map_filter g xs"

lemma column_simps [simp]:
  "column g [] = []" "column g (x # xs) = (case g x of None \<Rightarrow> column g xs | Some y \<Rightarrow> y # column g xs)"
  "column g (xs @ ys) = column g xs @ column g ys"
  by (simp_all add: column_def List.map_filter_def split: option.split)

lemma pair_up_columns: "column fst (pair_up as bs) = as" "column snd (pair_up as bs) = bs"
proof (induction as bs rule: pair_up.induct)
  case (1 bs)
  { case 1 show ?case by (induction bs) simp_all }
  { case 2 show ?case by (induction bs) simp_all }
qed simp_all

lemma pair_up_kinds:
  "list_all A as \<Longrightarrow> list_all B bs \<Longrightarrow>
   list_all (\<lambda>(l, r). (l \<noteq> None \<or> r \<noteq> None) \<and> (\<forall>x. l = Some x \<longrightarrow> A x) \<and> (\<forall>x. r = Some x \<longrightarrow> B x)) (pair_up as bs)"
proof (induction as bs rule: pair_up.induct)
  case (1 bs)
  then show ?case by (induction bs) simp_all
qed simp_all

lemma filter_kind: "list_all (is_kind k) ls \<Longrightarrow> filter (\<lambda>l. dl_kind l \<noteq> k') ls = (if k = k' then [] else ls)"
  by (induction ls) (auto simp: is_kind_def)

text \<open>The side-by-side layout loses, repeats and reorders nothing: its left column is the lines without
  the added ones, its right column those without the removed ones, both in order; no row is empty, and
  a row with two sides shows one unchanged line, or a removed line beside an added one.\<close>
theorem split_pairs_complete:
  "column fst (buildSplitPairs lines) = filter (\<lambda>l. dl_kind l \<noteq> Add) lines \<and>
   column snd (buildSplitPairs lines) = filter (\<lambda>l. dl_kind l \<noteq> Remove) lines \<and>
   list_all (\<lambda>(l, r). case (l, r) of
       (None, None) \<Rightarrow> False
     | (Some x, None) \<Rightarrow> dl_kind x = Remove
     | (None, Some y) \<Rightarrow> dl_kind y = Add
     | (Some x, Some y) \<Rightarrow> x = y \<or> dl_kind x = Remove \<and> dl_kind y = Add) (buildSplitPairs lines)"
proof (induction lines rule: buildSplitPairs.induct)
  case (2 line lines)
  show ?case
  proof (cases "dl_kind line = Remove")
    case True
    let ?rs = "takeWhile (is_kind Remove) (line # lines)" and ?rest = "dropWhile (is_kind Remove) (line # lines)"
    let ?as = "takeWhile (is_kind Add) ?rest" and ?tail = "dropWhile (is_kind Add) ?rest"
    have split: "line # lines = ?rs @ ?as @ ?tail" by simp
    have rs: "list_all (is_kind Remove) ?rs" "list_all (is_kind Add) ?as" by (auto simp: list_all_iff dest: set_takeWhileD)
    have "filter P (line # lines) = filter P ?rs @ filter P ?as @ filter P ?tail" for P
      unfolding filter_append [symmetric] by (simp only: takeWhile_dropWhile_id)
    moreover have "filter (\<lambda>l. dl_kind l \<noteq> Add) ?rs = ?rs" "filter (\<lambda>l. dl_kind l \<noteq> Remove) ?rs = []"
      "filter (\<lambda>l. dl_kind l \<noteq> Add) ?as = []" "filter (\<lambda>l. dl_kind l \<noteq> Remove) ?as = ?as"
      using filter_kind [OF rs(1)] filter_kind [OF rs(2)] by simp_all
    moreover have "buildSplitPairs (line # lines) = pair_up ?rs ?as @ buildSplitPairs ?tail" using True by (simp add: Let_def)
    moreover have "list_all (\<lambda>(l, r). case (l, r) of
       (None, None) \<Rightarrow> False
     | (Some x, None) \<Rightarrow> dl_kind x = Remove
     | (None, Some y) \<Rightarrow> dl_kind y = Add
     | (Some x, Some y) \<Rightarrow> x = y \<or> dl_kind x = Remove \<and> dl_kind y = Add) (pair_up ?rs ?as)"
      using pair_up_kinds [OF rs] by (rule list.pred_mono_strong) (auto simp: is_kind_def split: option.splits)
    ultimately show ?thesis using "2.IH"(1) [OF True refl refl refl] by (simp only: column_simps pair_up_columns list_all_append append_Nil)
  next
    case False
    then show ?thesis using 2 by (cases "dl_kind line = Add") simp_all
  qed
qed simp

end
