(* ===== verification/Diff_Roundtrip.thy ===== *)
theory Diff_Roundtrip
  imports Diff_Checks
begin

text \<open>
  Parsing what a diff printer writes gives back what it printed. The printer is the reference: it writes
  the diffs of modified files the way git does: the header, a change of mode, the \<open>index\<close> line, the two
  lines with the paths (a path with a space is followed by a tab there), and the hunks, where a range of
  one line is written without its length. Every line ends with a newline.
\<close>

section \<open>The printer\<close>

definition print_line :: "diff_line \<Rightarrow> string list" where
  "print_line l = dl_raw l # (if dl_noNewline l then [CHR 0x5C # '' No newline at end of file''] else [])"

definition print_range :: "nat \<Rightarrow> nat \<Rightarrow> string" where
  "print_range from len = decimal from @ (if len = 1 then [] else '','' @ decimal len)"

definition print_header :: "diff_hunk \<Rightarrow> string" where
  "print_header h =
     ''@@ -'' @ print_range (dh_oldStart h) (dh_oldLines h) @ '' +'' @ print_range (dh_newStart h) (dh_newLines h) @ '' @@'' @
     (case dh_section h of None \<Rightarrow> [] | Some s \<Rightarrow> '' '' @ s)"

definition print_hunk :: "diff_hunk \<Rightarrow> string list" where
  "print_hunk h = print_header h # concat (map print_line (dh_lines h))"

definition file_header :: "string \<Rightarrow> string" where
  "file_header path = ''diff --git a/'' @ path @ '' b/'' @ path"

record git_file =
  gf_path :: string
  gf_modes :: "(string \<times> string) option"
  gf_index :: string
  gf_hunks :: "diff_hunk list"

definition print_path :: "string \<Rightarrow> string \<Rightarrow> string" where
  "print_path side path = side @ path @ (if CHR '' '' \<in> set path then [CHR 0x09] else [])"

definition meta_lines :: "git_file \<Rightarrow> string list" where
  "meta_lines f =
     (case gf_modes f of None \<Rightarrow> [] | Some (old, new) \<Rightarrow> [''old mode '' @ old, ''new mode '' @ new]) @
     (if gf_hunks f = [] then []
      else [''index '' @ gf_index f, ''--- '' @ print_path ''a/'' (gf_path f), ''+++ '' @ print_path ''b/'' (gf_path f)])"

definition print_file :: "git_file \<Rightarrow> string list" where
  "print_file f = file_header (gf_path f) # meta_lines f @ concat (map print_hunk (gf_hunks f))"

definition print_diff :: "git_file list \<Rightarrow> string" where
  "print_diff fs = concat (map (\<lambda>l. l @ [CHR 0x0A]) (concat (map print_file fs)))"

text \<open>
  What is printed: texts on one line, numbered hunks, paths that git does not quote. Left out are the
  texts the parser cannot give back: a line with a carriage return, a removed line that reads as the
  truncation marker, a path with \<open>b/\<close> after a space or with a space at its end.
\<close>

definition one_line :: "string \<Rightarrow> bool" where
  "one_line s \<longleftrightarrow> CHR 0x0A \<notin> set s \<and> CHR 0x0D \<notin> set s"

definition printable_line :: "diff_line \<Rightarrow> bool" where
  "printable_line l \<longleftrightarrow> dl_kind l \<noteq> Meta \<and> one_line (dl_raw l) \<and> dl_raw l \<noteq> DIFF_TRUNCATED_MARKER"

definition printable_hunk :: "diff_hunk \<Rightarrow> bool" where
  "printable_hunk h \<longleftrightarrow>
     dh_header h = print_header h \<and> list_all printable_line (dh_lines h) \<and>
     numbered (dh_oldStart h) (dh_newStart h) (dh_lines h) \<and>
     (case dh_section h of None \<Rightarrow> True | Some s \<Rightarrow> s \<noteq> [] \<and> js_trim s = s \<and> one_line s)"

definition plain_path :: "string \<Rightarrow> bool" where
  "plain_path path \<longleftrightarrow>
     path \<noteq> [] \<and> list_all (\<lambda>c. CHR '' '' \<le> c \<and> c \<le> CHR ''~'' \<and> c \<noteq> CHR 0x22 \<and> c \<noteq> CHR 0x5C) path \<and>
     path \<noteq> DEV_NULL \<and> last path \<noteq> CHR '' '' \<and> \<not> js_includes path '' b/''"

definition printable_file :: "git_file \<Rightarrow> bool" where
  "printable_file f \<longleftrightarrow>
     plain_path (gf_path f) \<and> one_line (gf_index f) \<and> list_all printable_hunk (gf_hunks f) \<and>
     (case gf_modes f of None \<Rightarrow> True | Some (old, new) \<Rightarrow> one_line old \<and> one_line new)"

text \<open>The file that the parser should return.\<close>

definition parsed_file :: "git_file \<Rightarrow> diff_file" where
  "parsed_file f =
     \<lparr>df_id = ''->'' @ gf_path f, df_header = file_header (gf_path f), df_oldPath = None, df_path = gf_path f,
      df_displayPath = Plain_path (gf_path f), df_status = Modified, df_additions = count_kind Add (gf_hunks f),
      df_deletions = count_kind Remove (gf_hunks f), df_isBinary = False, df_isTruncated = False,
      df_meta = meta_lines f, df_hunks = gf_hunks f\<rparr>"

section \<open>Lines\<close>

lemma normalize_one_line: "CHR 0x0D \<notin> set s \<Longrightarrow> normalize_newlines s = s"
proof -
  assume "CHR 0x0D \<notin> set s"
  then have "crlf_to_lf s = s" by (induction s rule: crlf_to_lf.induct) auto
  with \<open>CHR 0x0D \<notin> set s\<close> show ?thesis unfolding normalize_newlines_def by (auto intro!: map_idI)
qed

lemma split_one_line: "CHR 0x0A \<notin> set l \<Longrightarrow> split_lines l = [l]"
  by (induction l) auto

lemma split_lines_append: "CHR 0x0A \<notin> set l \<Longrightarrow> split_lines (l @ CHR 0x0A # s) = l # split_lines s"
  by (induction l) auto

lemma split_ended: "list_all one_line ls \<Longrightarrow> split_lines (concat (map (\<lambda>l. l @ [CHR 0x0A]) ls)) = ls @ [[]]"
  by (induction ls) (simp_all add: split_lines_append one_line_def)

lemma ended_no_cr: "list_all one_line ls \<Longrightarrow> CHR 0x0D \<notin> set (concat (map (\<lambda>l. l @ [CHR 0x0A]) ls))"
  by (induction ls) (auto simp: one_line_def)

section \<open>Numbers\<close>

lemma digits_value_append: "digits_value n (xs @ ys) = digits_value (digits_value n xs) ys"
  by (induction xs arbitrary: n) simp_all

lemma decimal_value: "digits_value 0 (decimal n) = n"
proof (induction n rule: decimal.induct)
  case (1 n)
  then show ?case using digit_char [of n] digit_char [of "n mod 10"] by (simp add: decimal.simps [of n] digits_value_append)
qed

lemma digits_then:
  "list_all is_digit d \<Longrightarrow> r = [] \<or> \<not> is_digit (hd r) \<Longrightarrow> takeWhile is_digit (d @ r) = d \<and> dropWhile is_digit (d @ r) = r"
  by (induction d) (cases r; auto)+

lemma parse_range_printed:
  assumes "\<not> is_digit c" and "c \<noteq> CHR '',''"
  shows "parse_range (print_range a b @ c # r) = Some (a, if b = 1 then None else Some b, c # r)"
proof -
  have "\<not> is_digit (CHR '','')" by code_simp
  then have 1: "takeWhile is_digit (decimal a @ '','' @ decimal b @ c # r) = decimal a"
    "dropWhile is_digit (decimal a @ '','' @ decimal b @ c # r) = '','' @ decimal b @ c # r"
    using digits_then [of "decimal a" "'','' @ decimal b @ c # r"] decimal_digits by simp_all
  have 2: "takeWhile is_digit (decimal x @ c # r) = decimal x" "dropWhile is_digit (decimal x @ c # r) = c # r" for x
    using digits_then [of "decimal x" "c # r"] decimal_digits assms by simp_all
  show ?thesis
  proof (cases "b = 1")
    case True
    then show ?thesis using 2 [of a] decimal_digits [of a] assms(2)
      by (simp add: parse_range_def Let_def print_range_def decimal_value starts_with_def)
  next
    case False
    show ?thesis using 2 [of b] decimal_digits [of a] decimal_digits [of b] False
      by (simp add: parse_range_def Let_def print_range_def 1 [simplified] decimal_value starts_with_def)
  qed
qed

lemma strip_own_prefix: "strip_prefix p (p @ s) = Some s"
  by (simp add: strip_prefix_def starts_with_def)

definition length_option :: "nat \<Rightarrow> nat option" where
  "length_option n = (if n = 1 then None else Some n)"

lemma match_printed:
  assumes "printable_hunk h"
  shows "match_hunk (print_header h) = Some \<lparr>hm_oldStart = dh_oldStart h, hm_oldLines = length_option (dh_oldLines h),
     hm_newStart = dh_newStart h, hm_newLines = length_option (dh_newLines h),
     hm_section = (case dh_section h of None \<Rightarrow> [] | Some s \<Rightarrow> s)\<rparr>"
proof -
  have d: "\<not> is_digit (CHR '' '')" by code_simp
  have sp: "js_space (CHR '' '')" by code_simp
  have range: "parse_range (print_range a b @ '' '' @ r) = Some (a, length_option b, '' '' @ r)" for a b r
    using parse_range_printed [OF d, of a b r] by (simp add: length_option_def)
  let ?s = "case dh_section h of None \<Rightarrow> [] | Some s \<Rightarrow> '' '' @ s"
  have "print_header h = ''@@ -'' @ print_range (dh_oldStart h) (dh_oldLines h) @ '' '' @ (''+'' @
      print_range (dh_newStart h) (dh_newLines h) @ '' '' @ (''@@'' @ ?s))"
    by (simp add: print_header_def)
  moreover have "strip_prefix '' +'' ('' '' @ ''+'' @ t) = Some t" "strip_prefix '' @@'' ('' '' @ ''@@'' @ t) = Some t" for t
    by (simp_all add: strip_prefix_def starts_with_def)
  ultimately show ?thesis
    by (simp only: match_hunk_def strip_own_prefix range Option.bind.simps prod.case)
      (simp add: sp split: option.split)
qed

section \<open>The fold over the lines\<close>

definition lines_state :: "open_file list \<Rightarrow> bool \<Rightarrow> parse_state" where
  "lines_state fs saw =
     \<lparr>ps_files = fs, ps_warnings = [], ps_trailing = [], ps_isTruncated = False, ps_pendingOldPath = None,
      ps_pendingNewPath = None, ps_sawHunkLikeText = saw\<rparr>"

text \<open>The parser's file, with the lines of its header, and the file in the middle of its last hunk.\<close>

definition open_at :: "bool \<Rightarrow> string \<times> string list \<Rightarrow> nat \<Rightarrow> diff_hunk list \<Rightarrow> nat \<Rightarrow> nat \<Rightarrow> open_file" where
  "open_at b path i hs a n =
     \<lparr>df_id = ''->'' @ fst path, df_header = file_header (fst path), df_oldPath = None, df_path = fst path,
      df_displayPath = Plain_path (fst path), df_status = Modified, df_additions = count_kind Add hs,
      df_deletions = count_kind Remove hs, df_isBinary = False, df_isTruncated = False, df_meta = snd path, df_hunks = hs,
      of_inHunk = b, of_oldLineCursor = a, of_newLineCursor = n, of_index = i\<rparr>"

definition in_hunk :: "string \<times> string list \<Rightarrow> nat \<Rightarrow> diff_hunk list \<Rightarrow> diff_hunk \<Rightarrow> diff_line list \<Rightarrow> open_file" where
  "in_hunk path i hs h ls =
     open_at True path i (hs @ [h\<lparr>dh_lines := ls\<rparr>]) (dh_oldStart h + length (filter on_old ls))
       (dh_newStart h + length (filter on_new ls))"

lemma inside_file:
  assumes "rawLine \<noteq> DIFF_TRUNCATED_MARKER" and "\<not> starts_with DIFF_GIT_PREFIX rawLine" and "match_hunk rawLine = None"
    and "file_line rawLine f = (f', [])"
  shows "parse_line (lines_state (fs @ [f]) saw) rawLine = lines_state (fs @ [f']) saw"
  using assms by (simp add: parse_line_def lines_state_def)

lemma no_match: "hd s \<noteq> CHR ''@'' \<Longrightarrow> match_hunk s = None"
  by (cases s) (simp_all add: match_hunk_def strip_prefix_def starts_with_def)

lemma no_git: "hd s \<noteq> CHR ''d'' \<Longrightarrow> \<not> starts_with DIFF_GIT_PREFIX s"
  by (cases s) (simp_all add: DIFF_GIT_PREFIX_def starts_with_def)

definition line_char :: "diff_line \<Rightarrow> char" where
  "line_char l = (case dl_kind l of Add \<Rightarrow> CHR ''+'' | Remove \<Rightarrow> CHR ''-'' | _ \<Rightarrow> CHR '' '')"

lemma append_line:
  assumes "dl_kind l \<noteq> Meta" and "numbered (dh_oldStart h) (dh_newStart h) (ls @ [l])" and "\<not> dl_noNewline l"
  shows "appendDiffLine (dl_raw l) (in_hunk path i hs h ls) = in_hunk path i hs h (ls @ [l])"
proof -
  have n: "dl_raw l = line_char l # dl_text l"
    "dl_oldLine l = (if on_old l then Some (dh_oldStart h + length (filter on_old ls)) else None)"
    "dl_newLine l = (if on_new l then Some (dh_newStart h + length (filter on_new ls)) else None)"
    using assms by (simp_all add: numbered_snoc line_char_def)
  obtain k t a b r where l: "l = \<lparr>dl_kind = k, dl_text = t, dl_oldLine = a, dl_newLine = b, dl_raw = r, dl_noNewline = False\<rparr>"
    using assms(3) by (cases l) simp
  show ?thesis using n assms(1) unfolding l
    by (cases k) (simp_all add: appendDiffLine_def in_hunk_def open_at_def push_line_def line_char_def on_old_def on_new_def
      is_kind_def starts_with_def)
qed

lemma body_line:
  assumes "printable_line l" and "numbered (dh_oldStart h) (dh_newStart h) (ls @ [l])"
  shows "foldl parse_line (lines_state (fs @ [in_hunk path i hs h ls]) saw) (print_line l) =
    lines_state (fs @ [in_hunk path i hs h (ls @ [l])]) saw"
proof -
  let ?l = "l\<lparr>dl_noNewline := False\<rparr>"
  have l: "dl_kind ?l \<noteq> Meta" "numbered (dh_oldStart h) (dh_newStart h) (ls @ [?l])" "\<not> dl_noNewline ?l"
    using assms by (simp_all add: printable_line_def numbered_snoc on_old_def on_new_def)
  have raw: "dl_raw l = line_char l # dl_text l" using assms by (simp add: printable_line_def numbered_snoc line_char_def)
  have c: "line_char l \<in> {CHR ''+'', CHR ''-'', CHR '' ''}" by (simp add: line_char_def split: line_kind.split)
  have app: "appendDiffLine (dl_raw l) (in_hunk path i hs h ls) = in_hunk path i hs h (ls @ [?l])"
    using append_line [OF l, of path i hs] by simp
  have pre: "starts_with ''+'' (dl_raw l) \<or> starts_with ''-'' (dl_raw l) \<or> starts_with '' '' (dl_raw l)"
    "\<not> starts_with (CHR 0x5C # '' No newline at end of file'') (dl_raw l)" "hd (dl_raw l) \<notin> {CHR ''@'', CHR ''d''}"
    using c by (auto simp: raw starts_with_def)
  have inh: "of_inHunk (in_hunk path i hs h ls)" by (simp add: in_hunk_def open_at_def)
  have "file_line (dl_raw l) (in_hunk path i hs h ls) = (in_hunk path i hs h (ls @ [?l]), [])"
    using pre(1,2) inh by (simp only: file_line_def app simp_thms if_True if_False)
  then have 1: "parse_line (lines_state (fs @ [in_hunk path i hs h ls]) saw) (dl_raw l) =
      lines_state (fs @ [in_hunk path i hs h (ls @ [?l])]) saw"
    using assms(1) pre(3) by (intro inside_file no_match no_git) (simp_all add: printable_line_def)
  show ?thesis
  proof (cases "dl_noNewline l")
    case False
    then have "?l = l" by simp
    with 1 False show ?thesis by (simp add: print_line_def)
  next
    case True
    let ?m = "CHR 0x5C # '' No newline at end of file''"
    have "file_line ?m (in_hunk path i hs h (ls @ [?l])) = (in_hunk path i hs h (ls @ [l]), [])"
      using True by (simp add: file_line_def starts_with_def in_hunk_def open_at_def mark_no_newline_def on_old_def on_new_def
        is_kind_def)
    then have "parse_line (lines_state (fs @ [in_hunk path i hs h (ls @ [?l])]) saw) ?m =
        lines_state (fs @ [in_hunk path i hs h (ls @ [l])]) saw"
      by (intro inside_file no_match no_git) (simp_all add: DIFF_TRUNCATED_MARKER_def)
    with 1 True show ?thesis by (simp add: print_line_def)
  qed
qed

lemma body_lines:
  "list_all printable_line ls \<Longrightarrow> numbered (dh_oldStart h) (dh_newStart h) ls \<Longrightarrow>
   foldl parse_line (lines_state (fs @ [in_hunk path i hs h []]) saw) (concat (map print_line ls)) =
     lines_state (fs @ [in_hunk path i hs h ls]) saw"
proof (induction ls rule: rev_induct)
  case (snoc l ls)
  then show ?case using body_line [of l h ls fs path i hs saw] by (simp add: numbered_snoc [of _ _ ls l])
qed simp

lemma hunk_lines:
  assumes "printable_hunk h"
  shows "\<exists>a' n'. foldl parse_line (lines_state (fs @ [open_at b path i hs a n]) saw) (print_hunk h) =
    lines_state (fs @ [open_at True path i (hs @ [h]) a' n']) True"
proof -
  have h: "match_hunk (print_header h) = Some \<lparr>hm_oldStart = dh_oldStart h, hm_oldLines = length_option (dh_oldLines h),
     hm_newStart = dh_newStart h, hm_newLines = length_option (dh_newLines h),
     hm_section = (case dh_section h of None \<Rightarrow> [] | Some s \<Rightarrow> s)\<rparr>" by (rule match_printed [OF assms])
  have p: "print_header h = CHR ''@'' # tl (print_header h)" by (simp add: print_header_def)
  have "js_trim [] = []" by (simp add: js_trim_def)
  then have s: "(if js_trim (case dh_section h of None \<Rightarrow> [] | Some s \<Rightarrow> s) = [] then None
      else Some (js_trim (case dh_section h of None \<Rightarrow> [] | Some s \<Rightarrow> s))) = dh_section h"
    using assms by (auto simp: printable_hunk_def split: option.splits)
  have "parse_line (lines_state (fs @ [open_at b path i hs a n]) saw) (print_header h) =
      lines_state (fs @ [in_hunk path i hs h []]) True"
  proof -
    have "print_header h \<noteq> DIFF_TRUNCATED_MARKER" "\<not> starts_with DIFF_GIT_PREFIX (print_header h)"
      by (subst p, simp add: DIFF_TRUNCATED_MARKER_def) (rule no_git, subst p, simp)
    moreover have "appendHunk (print_header h) \<lparr>hm_oldStart = dh_oldStart h, hm_oldLines = length_option (dh_oldLines h),
       hm_newStart = dh_newStart h, hm_newLines = length_option (dh_newLines h),
       hm_section = (case dh_section h of None \<Rightarrow> [] | Some s \<Rightarrow> s)\<rparr> (open_at b path i hs a n) = in_hunk path i hs h []"
    proof -
      have "h\<lparr>dh_lines := []\<rparr> = \<lparr>dh_header = print_header h, dh_oldStart = dh_oldStart h, dh_oldLines = dh_oldLines h,
          dh_newStart = dh_newStart h, dh_newLines = dh_newLines h, dh_section = dh_section h, dh_lines = []\<rparr>"
        by (rule diff_hunk.equality) (use assms in \<open>simp_all add: printable_hunk_def\<close>)
      then show ?thesis unfolding appendHunk_def hunk_match.simps s by (simp add: open_at_def in_hunk_def length_option_def)
    qed
    ultimately show ?thesis using h by (simp add: parse_line_def lines_state_def)
  qed
  moreover have "h\<lparr>dh_lines := dh_lines h\<rparr> = h" by simp
  ultimately show ?thesis using assms body_lines [of "dh_lines h" h fs path i hs True]
    by (auto simp: print_hunk_def printable_hunk_def in_hunk_def)
qed

lemma file_hunks:
  "list_all printable_hunk hs \<Longrightarrow> \<exists>a' n' b' saw'. foldl parse_line (lines_state (fs @ [open_at b path i hs0 a n]) saw)
     (concat (map print_hunk hs)) = lines_state (fs @ [open_at b' path i (hs0 @ hs) a' n']) saw'"
proof (induction hs arbitrary: b hs0 a n saw)
  case (Cons h hs)
  from Cons.prems obtain a1 n1 where "foldl parse_line (lines_state (fs @ [open_at b path i hs0 a n]) saw) (print_hunk h) =
      lines_state (fs @ [open_at True path i (hs0 @ [h]) a1 n1]) True"
    using hunk_lines [of h fs b path i hs0 a n saw] by auto
  moreover obtain a2 n2 b2 saw2 where "foldl parse_line (lines_state (fs @ [open_at True path i (hs0 @ [h]) a1 n1]) True)
      (concat (map print_hunk hs)) = lines_state (fs @ [open_at b2 path i ((hs0 @ [h]) @ hs) a2 n2]) saw2"
    using Cons.IH [of True "hs0 @ [h]" a1 n1 True] Cons.prems by auto
  ultimately show ?case by auto
qed auto

section \<open>The header of a file\<close>

lemma last_index_none: "\<not> js_includes s n \<Longrightarrow> n \<noteq> [] \<Longrightarrow> last_index s n = None"
  by (induction s) auto

lemma last_index_prefix:
  assumes "\<not> js_includes (tl (n @ y)) n" and "n \<noteq> []"
  shows "last_index (x @ n @ y) n = Some (length x)"
proof (induction x)
  case Nil
  then show ?case using assms last_index_none [of "tl (n @ y)" n]
    by (cases n) (simp_all add: starts_with_def)
qed simp

lemma header_paths:
  assumes "plain_path path"
  shows "parseDiffGitPaths (file_header path) = (path, path)"
proof -
  let ?rest = "''a/'' @ path @ '' b/'' @ path"
  have rest: "drop (length DIFF_GIT_PREFIX) (file_header path) = ?rest"
    by (simp add: file_header_def DIFF_GIT_PREFIX_def)
  have "\<not> js_includes (tl ('' b/'' @ path)) '' b/''"
    using assms by (simp add: plain_path_def starts_with_def)
  then have i: "last_index ?rest '' b/'' = Some (length (''a/'' @ path))"
    using last_index_prefix [of "'' b/''" path "''a/'' @ path"] by simp
  have p: "stripGitPrefix (''a/'' @ path) = path" "stripGitPrefix (''b/'' @ path) = path"
    by (simp_all add: stripGitPrefix_def DEV_NULL_def starts_with_def)
  have t: "take (length (''a/'' @ path)) ?rest = ''a/'' @ path" "drop (length (''a/'' @ path) + 1) ?rest = ''b/'' @ path" by simp_all
  show ?thesis unfolding parseDiffGitPaths_def Let_def rest i option.case t p
    by (simp add: starts_with_def)
qed

lemma header_state:
  assumes "plain_path path"
  shows "parse_line (lines_state fs saw) (file_header path) = lines_state (fs @ [open_at False (path, []) (length fs) [] 0 0]) saw"
proof -
  have "createFileFromDiffGit (file_header path) n = open_at False (path, []) n [] 0 0" for n
    using assms header_paths [OF assms]
    by (simp add: createFileFromDiffGit_def Let_def plain_path_def createMutableFile_def open_at_def differing_def
        file_id_def display_of_def inferStatus_def)
  moreover have "starts_with DIFF_GIT_PREFIX (file_header path)" "file_header path \<noteq> DIFF_TRUNCATED_MARKER"
    by (simp_all add: starts_with_def DIFF_GIT_PREFIX_def file_header_def DIFF_TRUNCATED_MARKER_def)
  ultimately show ?thesis by (simp add: parse_line_def lines_state_def)
qed

text \<open>A line of the header adds itself and changes nothing else.\<close>

definition adds_itself :: "string \<Rightarrow> string \<Rightarrow> bool" where
  "adds_itself path l \<longleftrightarrow>
     (\<forall>fs ms i saw. parse_line (lines_state (fs @ [open_at False (path, ms) i [] 0 0]) saw) l =
        lines_state (fs @ [open_at False (path, ms @ [l]) i [] 0 0]) saw)"

lemma adds_itselfI:
  assumes "l \<noteq> DIFF_TRUNCATED_MARKER" and "hd l \<noteq> CHR ''d''" and "hd l \<noteq> CHR ''@''"
    and "\<And>ms i. header_line l (open_at False (path, ms) i [] 0 0) = (open_at False (path, ms @ [l]) i [] 0 0, [])"
  shows "adds_itself path l"
  unfolding adds_itself_def
proof (intro allI)
  fix fs ms i saw
  have "file_line l (open_at False (path, ms) i [] 0 0) = (open_at False (path, ms @ [l]) i [] 0 0, [])"
    using assms(4) by (simp add: file_line_def open_at_def)
  then show "parse_line (lines_state (fs @ [open_at False (path, ms) i [] 0 0]) saw) l =
      lines_state (fs @ [open_at False (path, ms @ [l]) i [] 0 0]) saw"
    using assms(1-3) by (intro inside_file no_match no_git)
qed

lemma plain_known: "adds_itself path (''old mode '' @ m)" "adds_itself path (''new mode '' @ m)" "adds_itself path (''index '' @ m)"
  by (rule adds_itselfI; simp add: DIFF_TRUNCATED_MARKER_def header_line_def starts_with_def isKnownMetadataLine_def
      add_meta_def open_at_def)+

lemma plain_path_char: "plain_path path \<Longrightarrow> c \<in> set path \<Longrightarrow> CHR '' '' \<le> c \<and> c \<le> CHR ''~'' \<and> c \<noteq> CHR 0x22"
  by (auto simp: plain_path_def list_all_iff)

lemma path_printed:
  assumes "plain_path path" and "side = ''a/'' \<or> side = ''b/''"
  shows "parseFileHeaderPath (print_path side path) = path"
proof -
  have ns: "\<not> js_space (last path)"
  proof -
    have "last path \<noteq> CHR '' ''" "CHR '' '' \<le> last path \<and> last path \<le> CHR ''~''"
      using assms(1) plain_path_char [OF assms(1), of "last path"] by (auto simp: plain_path_def)
    moreover have "(of_char (last path) :: nat) \<noteq> 32"
    proof
      assume "(of_char (last path) :: nat) = 32"
      then have "last path = char_of (32 :: nat)" by (metis char_of_char)
      also have "char_of (32 :: nat) = CHR '' ''" by code_simp
      finally show False using \<open>last path \<noteq> CHR '' ''\<close> by simp
    qed
    ultimately show ?thesis by (auto simp: js_space_def Let_def less_eq_char_def)
  qed
  have tab: "CHR 0x09 \<notin> set path" using plain_path_char [OF assms(1)] by (fastforce simp: less_eq_char_def)
  have "js_space (CHR 0x09)" by code_simp
  moreover have "dropWhile js_space (rev path @ t) = rev path @ t" for t
  proof -
    have "path = butlast path @ [last path]" using assms(1) by (simp add: plain_path_def)
    then obtain init where "path = init @ [last path]" by blast
    with ns show ?thesis by (metis dropWhile.simps(2) append_Cons rev_eq_Cons_iff rev_rev_ident)
  qed
  ultimately have "trim_end (print_path side path) = side @ path"
    by (simp add: trim_end_def print_path_def)
  moreover have "stripGitPrefix (side @ path) = path"
    using assms(2) by (auto simp: stripGitPrefix_def DEV_NULL_def starts_with_def)
  moreover have "takeWhile (\<lambda>c. c \<noteq> CHR 0x09) (side @ path) = side @ path"
    using tab assms(2) by (subst takeWhile_eq_all_conv) auto
  moreover have "\<not> starts_with [CHR 0x22] (side @ path)" using assms(2) by (auto simp: starts_with_def)
  ultimately show ?thesis by (simp only: parseFileHeaderPath_def Let_def if_False)
qed

lemma path_lines:
  assumes "plain_path path"
  shows "adds_itself path (''--- '' @ print_path ''a/'' path)" "adds_itself path (''+++ '' @ print_path ''b/'' path)"
proof -
  have null: "path \<noteq> DEV_NULL" using assms by (simp add: plain_path_def)
  show "adds_itself path (''--- '' @ print_path ''a/'' path)"
  proof (rule adds_itselfI)
    show "header_line (''--- '' @ print_path ''a/'' path) (open_at False (path, ms) i [] 0 0) =
        (open_at False (path, ms @ [''--- '' @ print_path ''a/'' path]) i [] 0 0, [])" for ms i
      using null path_printed [OF assms, of "''a/''"]
      by (simp add: header_line_def starts_with_def applyOldPath_def add_meta_def open_at_def)
  qed (simp_all add: print_path_def DIFF_TRUNCATED_MARKER_def)
  show "adds_itself path (''+++ '' @ print_path ''b/'' path)"
  proof (rule adds_itselfI)
    show "header_line (''+++ '' @ print_path ''b/'' path) (open_at False (path, ms) i [] 0 0) =
        (open_at False (path, ms @ [''+++ '' @ print_path ''b/'' path]) i [] 0 0, [])" for ms i
      using null path_printed [OF assms, of "''b/''"]
      by (simp add: header_line_def starts_with_def applyNewPath_def add_meta_def open_at_def)
  qed (simp_all add: print_path_def DIFF_TRUNCATED_MARKER_def)
qed

lemma all_add:
  "list_all (adds_itself path) ls \<Longrightarrow>
   foldl parse_line (lines_state (fs @ [open_at False (path, ms) i [] 0 0]) saw) ls =
     lines_state (fs @ [open_at False (path, ms @ ls) i [] 0 0]) saw"
  by (induction ls arbitrary: ms) (simp_all add: adds_itself_def)

lemma meta_add: "plain_path (gf_path f) \<Longrightarrow> list_all (adds_itself (gf_path f)) (meta_lines f)"
  using plain_known path_lines [of "gf_path f"] unfolding meta_lines_def by (auto split: option.split)

lemma finalize_open_at:
  "plain_path (gf_path f) \<Longrightarrow> finalizeFile (open_at b (gf_path f, meta_lines f) i (gf_hunks f) a n) = parsed_file f"
  by (simp add: plain_path_def finalizeFile_def open_at_def parsed_file_def diff_file.truncate_def file_id_def display_of_def)

definition at_some_point :: "open_file \<Rightarrow> bool" where
  "at_some_point g \<longleftrightarrow> (\<exists>b p i hs a n. g = open_at b p i hs a n)"

lemma all_files:
  "list_all printable_file fs \<Longrightarrow> \<exists>gs' saw'. foldl parse_line (lines_state gs saw) (concat (map print_file fs)) =
     lines_state (gs @ gs') saw' \<and> map finalizeFile gs' = map parsed_file fs \<and> list_all at_some_point gs'"
proof (induction fs arbitrary: gs saw)
  case (Cons f fs)
  have p: "plain_path (gf_path f)" "list_all printable_hunk (gf_hunks f)"
    using Cons.prems by (simp_all add: printable_file_def)
  let ?p = "(gf_path f, meta_lines f)"
  obtain b a n saw1 where 1: "foldl parse_line (lines_state gs saw) (print_file f) =
      lines_state (gs @ [open_at b ?p (length gs) (gf_hunks f) a n]) saw1"
    using file_hunks [OF p(2), of gs False ?p "length gs" "[]" 0 0 saw]
    by (auto simp: print_file_def header_state [OF p(1)] all_add [OF meta_add [OF p(1)]])
  obtain gs' saw' where 2: "foldl parse_line (lines_state (gs @ [open_at b ?p (length gs) (gf_hunks f) a n]) saw1)
      (concat (map print_file fs)) = lines_state ((gs @ [open_at b ?p (length gs) (gf_hunks f) a n]) @ gs') saw'"
    "map finalizeFile gs' = map parsed_file fs" "list_all at_some_point gs'"
    using Cons by (metis list.pred_inject(2))
  have "at_some_point (open_at b ?p (length gs) (gf_hunks f) a n)" unfolding at_some_point_def by blast
  with 1 2 finalize_open_at [OF p(1)] show ?case
    by (intro exI [of _ "open_at b ?p (length gs) (gf_hunks f) a n # gs'"] exI [of _ saw']) simp
qed auto

text \<open>The empty line after the last newline.\<close>

lemma empty_line: "parse_line (lines_state (gs @ [open_at b p i hs a n]) saw) [] = lines_state (gs @ [open_at b p i hs a n]) saw"
proof -
  have "match_hunk [] = None" by code_simp
  moreover have "js_trim [] = []" by (simp add: js_trim_def)
  ultimately show ?thesis
    by (simp add: parse_line_def lines_state_def DIFF_TRUNCATED_MARKER_def DIFF_GIT_PREFIX_def starts_with_def file_line_def
        header_line_def isKnownMetadataLine_def)
qed

lemma print_one_line:
  assumes "list_all printable_file fs"
  shows "list_all one_line (concat (map print_file fs))"
proof -
  have d: "one_line (decimal n)" for n
  proof -
    have "\<not> is_digit (CHR 0x0A)" "\<not> is_digit (CHR 0x0D)" by code_simp+
    then show ?thesis using decimal_digits [of n] by (auto simp: one_line_def list_all_iff)
  qed
  have a: "one_line (s @ t) \<longleftrightarrow> one_line s \<and> one_line t" "one_line []" for s t by (auto simp: one_line_def)
  have h: "one_line (print_header h)" if "printable_hunk h" for h
    using that d by (auto simp: print_header_def print_range_def a printable_hunk_def one_line_def split: option.splits)
  have l: "list_all one_line (print_line l)" if "printable_line l" for l
    using that by (auto simp: print_line_def printable_line_def one_line_def)
  have "list_all one_line (print_hunk h)" if "printable_hunk h" for h
    using that h l by (auto simp: print_hunk_def printable_hunk_def list_all_iff)
  moreover have path: "one_line p" if "plain_path p" for p
    using plain_path_char [OF that] by (fastforce simp: one_line_def less_eq_char_def)
  moreover have "one_line (file_header p)" if "plain_path p" for p
    using path [OF that] by (auto simp: file_header_def one_line_def)
  moreover have "list_all one_line (meta_lines f)" if "printable_file f" for f
    using that path [of "gf_path f"]
    by (auto simp: meta_lines_def printable_file_def print_path_def one_line_def split: option.splits)
  ultimately have "list_all one_line (print_file f)" if "printable_file f" for f
    using that unfolding print_file_def printable_file_def list_all_iff by (simp, blast)
  then show ?thesis using assms unfolding list_all_iff by (simp, blast)
qed


section \<open>An example\<close>

definition ex_line :: "line_kind \<Rightarrow> string \<Rightarrow> nat option \<Rightarrow> nat option \<Rightarrow> bool \<Rightarrow> diff_line" where
  "ex_line k t a b e = \<lparr>dl_kind = k, dl_text = t, dl_oldLine = a, dl_newLine = b,
     dl_raw = (case k of Add \<Rightarrow> CHR ''+'' | Remove \<Rightarrow> CHR ''-'' | _ \<Rightarrow> CHR '' '') # t, dl_noNewline = e\<rparr>"

definition ex_hunk :: diff_hunk where
  "ex_hunk = \<lparr>dh_header = ''@@ -9,2 +9 @@ f()'', dh_oldStart = 9, dh_oldLines = 2, dh_newStart = 9, dh_newLines = 1,
     dh_section = Some ''f()'', dh_lines = [ex_line Remove ''x'' (Some 9) None False,
       ex_line Remove ''-- y'' (Some 10) None False, ex_line Add ''z'' None (Some 9) True]\<rparr>"

definition ex_file :: git_file where
  "ex_file = \<lparr>gf_path = ''src/a b.ts'', gf_modes = Some (''100644'', ''100755''), gf_index = ''05f3a1b..9c2d4e6'', gf_hunks = [ex_hunk]\<rparr>"


text \<open>A removed line with the text of the server's marker is taken for the marker.\<close>
theorem removed_marker_misread:
  "pr_isTruncated (parseUnifiedDiff (file_header ''f'' @ CHR 0x0A # ''@@ -1 +0,0 @@'' @ CHR 0x0A # CHR ''-'' #
     ''-- Diff truncated (exceeded 500KB) ---''))"
  by code_simp

end
