(* ===== verification/Js_Text.thy ===== *)
theory Js_Text
  imports Regex "HOL-Library.Char_ord"
begin

text \<open>
  Texts as the request handling of the server takes them apart: splitting at a character, decimal
  numbers, and what joins and splits give back.
\<close>

text \<open>\<open>split(c)\<close> for one character; \<open>toUpperCase\<close> on ASCII; \<open>endsWith(".")\<close> and the like.\<close>

fun split_char :: "char \<Rightarrow> string \<Rightarrow> string list" where
  "split_char d [] = [[]]"
| "split_char d (c # s) =
     (if c = d then [] # split_char d s
      else (case split_char d s of [] \<Rightarrow> [[c]] | l # ls \<Rightarrow> (c # l) # ls))"

definition js_upper :: "string \<Rightarrow> string" where
  "js_upper s = map (\<lambda>c. if CHR ''a'' \<le> c \<and> c \<le> CHR ''z'' then char_of (of_char c - 32 :: nat) else c) s"

definition ends_with :: "char \<Rightarrow> string \<Rightarrow> bool" where
  "ends_with c s \<longleftrightarrow> s \<noteq> [] \<and> last s = c"

definition control_char :: "char \<Rightarrow> bool" where
  "control_char c \<longleftrightarrow> c \<le> CHR 0x1F \<or> c = CHR 0x7F"

fun decimal_value :: "nat \<Rightarrow> string \<Rightarrow> nat" where
  "decimal_value n [] = n"
| "decimal_value n (c # cs) = decimal_value (10 * n + (of_char c - 48)) cs"

lemma split_char_not_Nil [simp]: "split_char d s \<noteq> []"
  by (induction d s rule: split_char.induct) (auto split: list.splits)

lemma split_char_none: "d \<notin> set s \<Longrightarrow> split_char d s = [s]"
  by (induction d s rule: split_char.induct) auto

lemma split_char_pieces: "c \<in> set s \<Longrightarrow> c = d \<or> (\<exists>l\<in>set (split_char d s). c \<in> set l)"
  by (induction d s rule: split_char.induct) (fastforce split: list.splits if_splits)+

lemma split_char_append: "d \<notin> set l \<Longrightarrow> split_char d (l @ d # s) = l # split_char d s"
  by (induction l) (auto split: list.splits)

lemma set_js_join: "set (js_join sep xs) \<subseteq> set sep \<union> \<Union> (set ` set xs)"
  by (induction sep xs rule: js_join.induct) auto

lemma split_char_join: "js_join [d] (split_char d s) = s"
proof (induction d s rule: split_char.induct)
  case (2 d c s)
  then show ?case
    by (cases "split_char d s"; cases "tl (split_char d s)") (auto split: list.splits)
qed simp

lemma decimal_value_append: "decimal_value n (xs @ ys) = decimal_value (decimal_value n xs) ys"
  by (induction n xs rule: decimal_value.induct) simp_all

lemma decimal_value_decimal: "decimal_value 0 (decimal n) = n"
proof (induction n rule: decimal.induct)
  case (1 n)
  then show ?case using digit_char [of n] digit_char [of "n mod 10"]
    by (simp add: decimal.simps [of n] decimal_value_append)
qed

lemma decimal_length: "n < 10 ^ k \<Longrightarrow> 0 < k \<Longrightarrow> length (decimal n) \<le> k"
proof (induction n arbitrary: k rule: decimal.induct)
  case (1 n)
  show ?case
  proof (cases "n < 10")
    case True
    then show ?thesis using 1(3) by (simp add: decimal.simps [of n])
  next
    case False
    from 1(3) obtain j where k: "k = Suc j" by (cases k) auto
    then have "0 < j" using 1(2) False by (cases j) auto
    note k = k this
    with 1(2) have "n div 10 < 10 ^ j" by (simp add: less_mult_imp_div_less mult.commute)
    with 1(1) [OF False] k show ?thesis by (simp add: decimal.simps [of n] False)
  qed
qed

end
