(* ===== verification/Request_Admission.thy ===== *)
theory Request_Admission
  imports Js_Text
begin

text \<open>
  Which requests reach the gateway (\<open>src/server/request-admission.ts\<close>): the policy compiled from the
  configuration, the parsing of hosts, origins and fetch metadata, and the decision on a request. The
  WHATWG \<open>URL\<close> parser and \<open>isIP\<close> of Node are arguments. Texts are code units below 256.
\<close>

section \<open>The platform\<close>

record url_parts =
  up_protocol :: string
  up_username :: string
  up_password :: string
  up_hostname :: string
  up_port :: string
  up_pathname :: string
  up_search :: string
  up_hash :: string

text \<open>\<open>new URL(text)\<close> and \<open>new URL(text, base)\<close>, \<open>None\<close> when it throws; \<open>net.isIP\<close>.\<close>

record platform =
  pf_url :: "string \<Rightarrow> url_parts option"
  pf_resolve :: "string \<Rightarrow> string \<Rightarrow> url_parts option"
  pf_isIP :: "string \<Rightarrow> nat"

section \<open>Data\<close>

datatype route_context =
    Api | Preflight | Preview_document | Preview_iframe | Preview_resource | Ui_document | Ui_static | Websocket

datatype deny_reason =
    Malformed_raw_headers | Missing_host | Duplicate_host | Invalid_host | Untrusted_host | Duplicate_origin
  | Invalid_origin | Origin_mismatch | Duplicate_fetch_metadata | Invalid_fetch_metadata | Partial_fetch_metadata
  | Cross_site_browser_request | Origin_required | Unsafe_navigation_method | Invalid_request_target
  | Invalid_preflight | Preflight_method_denied | Preflight_header_denied | Private_network_denied

datatype config_reason =
    Invalid_bind_host | Invalid_port | Invalid_base_path | Invalid_trusted_host | Invalid_tls_name
  | Invalid_public_origin | Invalid_published_origin | Invalid_vite_origin | Untrusted_vite_gateway
  | Invalid_cors_method | Invalid_cors_header | Invalid_cors_max_age

datatype protocol = Http | Https

record parsed_origin =
  po_serialized :: string
  po_protocol :: protocol
  po_hostname :: string
  po_port :: nat
  po_authorityKey :: string

record parsed_host =
  ph_hostname :: string
  ph_explicitPort :: "nat option"
  ph_serialized :: string

record policy =
  pl_basePath :: string
  pl_trustedOrigins :: "string list"
  pl_viteOriginPairs :: "(string \<times> string) list"
  pl_allAuthoritiesLoopback :: bool
  pl_origins :: "parsed_origin list"
  pl_vitePairs :: "(parsed_origin \<times> parsed_origin) list"
  pl_corsMethods :: "string list"
  pl_corsHeaders :: "(string \<times> string) list"
  pl_corsMaxAgeSeconds :: int

record policy_input =
  pi_bindHost :: string
  pi_actualPort :: js_num
  pi_isTls :: bool
  pi_basePath :: "string option"
  pi_trustedHosts :: "string list option"
  pi_tlsHostnames :: "string list option"
  pi_publicOrigins :: "string list option"
  pi_publishedOrigin :: "string option"
  pi_viteOriginPairs :: "(string \<times> string) list option"
  pi_allowedMethods :: "string list option"
  pi_allowedHeaders :: "string list option"
  pi_maxAgeSeconds :: "js_num option"

record metadata =
  md_rawHeaders :: "string list"
  md_method :: "string option"
  md_url :: "string option"
  md_isTls :: bool
  md_websocket :: bool

text \<open>
  The allowed headers are looked up with \<open>corsHeaders[name]\<close> on a plain object, so the lower-case names
  of \<open>Object.prototype\<close> are found as well: \<open>Inherited\<close> is one of its members.
\<close>

datatype projected = Configured string | Inherited string

record cors_projection =
  cp_allowOrigin :: string
  cp_varyOrigin :: bool
  cp_allowCredentials :: bool
  cp_allowMethod :: "string option"
  cp_allowHeaders :: "projected list option"
  cp_maxAgeSeconds :: "int option"

record admission =
  ad_context :: route_context
  ad_normalizedHost :: string
  ad_normalizedOrigin :: "string option"
  ad_gatewayOrigin :: "string option"
  ad_trustedLocal :: bool
  ad_cors :: "cors_projection option"

datatype decision = Allowed admission | Denied deny_reason route_context "string option" "string option"

record fetch_metadata =
  fm_site :: string
  fm_mode :: string
  fm_dest :: "string option"
  fm_user :: "string option"

datatype raw_header = Missing | Duplicate | Value string

definition LOOPBACK_HOSTS :: "string list" where
  "LOOPBACK_HOSTS = [''localhost'', ''127.0.0.1'', ''::1'']"

definition VALID_FETCH_SITES :: "string list" where
  "VALID_FETCH_SITES = [''same-origin'', ''same-site'', ''cross-site'', ''none'']"

definition VALID_FETCH_MODES :: "string list" where
  "VALID_FETCH_MODES = [''cors'', ''navigate'', ''nested-navigate'', ''no-cors'', ''same-origin'', ''websocket'']"

definition VALID_FETCH_DESTINATIONS :: "string list" where
  "VALID_FETCH_DESTINATIONS =
     [''audio'', ''audioworklet'', ''document'', ''embed'', ''empty'', ''fencedframe'', ''font'', ''frame'', ''iframe'', ''image'',
      ''json'', ''manifest'', ''object'', ''paintworklet'', ''report'', ''script'', ''serviceworker'', ''sharedworker'', ''style'',
      ''track'', ''video'', ''webidentity'', ''websocket'', ''worker'', ''xslt'']"

definition SAFE_METHODS :: "string list" where
  "SAFE_METHODS = [''GET'', ''HEAD'']"

definition PREVIEW_COOKIE_NAME :: string where
  "PREVIEW_COOKIE_NAME = ''bobbit_preview''"

definition API_CORS_ALLOWED_METHODS :: "string list" where
  "API_CORS_ALLOWED_METHODS = [''GET'', ''POST'', ''PUT'', ''PATCH'', ''DELETE'', ''OPTIONS'']"

definition API_CORS_ALLOWED_HEADERS :: "string list" where
  "API_CORS_ALLOWED_HEADERS =
     [''Authorization'', ''Content-Type'', ''If-Match'', ''X-Bobbit-Session-Id'', ''X-Bobbit-Spawning-Session'',
      ''X-Bobbit-Session-Secret'']"

definition API_CORS_PREFLIGHT_MAX_AGE_SECONDS :: js_num where
  "API_CORS_PREFLIGHT_MAX_AGE_SECONDS = Fin 600"

section \<open>Texts\<close>

definition token_char :: "char \<Rightarrow> bool" where
  "token_char c \<longleftrightarrow> c \<in> set (CHR 0x27 # ''!#$%&*+-.^_`|~'') \<or> is_digit c \<or> is_letter c"

text \<open>\<open>TOKEN\<close>\<close>

definition is_token :: "string \<Rightarrow> bool" where
  "is_token s \<longleftrightarrow> s \<noteq> [] \<and> list_all token_char s"

definition defaultPort :: "protocol \<Rightarrow> nat" where
  "defaultPort p = (if p = Https then 443 else 80)"

definition isWildcardListener :: "string \<Rightarrow> bool" where
  "isWildcardListener hostname \<longleftrightarrow> hostname = ''0.0.0.0'' \<or> hostname = ''::''"

definition isLoopbackHostname :: "string \<Rightarrow> bool" where
  "isLoopbackHostname hostname \<longleftrightarrow> hostname \<in> set LOOPBACK_HOSTS"

definition stripIpv6Brackets :: "string \<Rightarrow> string" where
  "stripIpv6Brackets hostname =
     (if starts_with ''['' hostname \<and> ends_with (CHR '']'') hostname then butlast (tl hostname) else hostname)"

definition serializeAuthority :: "string \<Rightarrow> nat option \<Rightarrow> string" where
  "serializeAuthority hostname port =
     (let host = (if CHR '':'' \<in> set hostname then ''['' @ hostname @ '']'' else hostname) in
      case port of None \<Rightarrow> host | Some p \<Rightarrow> host @ '':'' @ decimal p)"

definition parsePort :: "string \<Rightarrow> nat option" where
  "parsePort raw =
     (if list_all is_digit raw \<and> 1 \<le> length raw \<and> length raw \<le> 5 then
        let port = decimal_value 0 raw in if 1 \<le> port \<and> port \<le> 65535 then Some port else None
      else None)"

definition parseIpv4 :: "string \<Rightarrow> string option" where
  "parseIpv4 raw =
     (let parts = split_char (CHR ''.'') raw in
      if length parts \<noteq> 4 \<or>
         list_ex (\<lambda>p. \<not> (list_all is_digit p \<and> 1 \<le> length p \<and> length p \<le> 3) \<or> decimal_value 0 p > 255) parts
      then None else Some (js_join ''.'' (map (\<lambda>p. decimal (decimal_value 0 p)) parts)))"

definition hex_char :: "char \<Rightarrow> bool" where
  "hex_char c \<longleftrightarrow> is_digit c \<or> (CHR ''a'' \<le> c \<and> c \<le> CHR ''f'') \<or> (CHR ''A'' \<le> c \<and> c \<le> CHR ''F'')"

definition parseIpv6 :: "platform \<Rightarrow> string \<Rightarrow> string option" where
  "parseIpv6 pf raw =
     (if raw = [] \<or> \<not> list_all (\<lambda>c. hex_char c \<or> c = CHR '':'' \<or> c = CHR ''.'') raw then None
      else
        (case pf_url pf (''http://['' @ raw @ '']'') of
           None \<Rightarrow> None
         | Some u \<Rightarrow>
             let hostname = js_lower (stripIpv6Brackets (up_hostname u)) in
             if CHR '':'' \<in> set hostname then Some hostname else None))"

definition label_char :: "char \<Rightarrow> bool" where
  "label_char c \<longleftrightarrow> is_digit c \<or> (CHR ''a'' \<le> c \<and> c \<le> CHR ''z'')"

definition good_label :: "string \<Rightarrow> bool" where
  "good_label label \<longleftrightarrow>
     label \<noteq> [] \<and> length label \<le> 63 \<and> label_char (hd label) \<and> label_char (last label) \<and>
     list_all (\<lambda>c. label_char c \<or> c = CHR ''-'') label"

definition parseHostname :: "platform \<Rightarrow> string \<Rightarrow> string option" where
  "parseHostname pf raw =
     (if raw = [] \<or> raw \<noteq> js_trim raw \<or> CHR ''%'' \<in> set raw then None
      else if CHR '':'' \<in> set raw then parseIpv6 pf raw
      else
        let lower = js_lower raw; v = (if ends_with (CHR ''.'') lower then butlast lower else lower) in
        if v = [] \<or> ends_with (CHR ''.'') v \<or> length v > 253 then None
        else if list_all (\<lambda>c. is_digit c \<or> c = CHR ''.'') v then parseIpv4 v
        else if list_ex (\<lambda>label. \<not> good_label label) (split_char (CHR ''.'') v) then None
        else Some v)"

definition parseConfiguredHostname :: "platform \<Rightarrow> string \<Rightarrow> string option" where
  "parseConfiguredHostname pf raw =
     (if raw \<noteq> js_trim raw \<or> raw = [] \<or> list_ex (\<lambda>c. js_space c \<or> c \<in> set (CHR 0x5C # '',/?#@'')) raw then None
      else
        let bracketed = starts_with ''['' raw \<and> ends_with (CHR '']'') raw;
            unwrapped = (if bracketed then butlast (tl raw) else raw) in
        if (starts_with ''['' raw \<or> ends_with (CHR '']'') raw) \<and> unwrapped = raw then None else parseHostname pf unwrapped)"

definition isCleanScalar :: "string \<Rightarrow> bool" where
  "isCleanScalar raw \<longleftrightarrow>
     raw \<noteq> [] \<and> raw = js_trim raw \<and> \<not> list_ex (\<lambda>c. c \<le> CHR 0x20 \<or> c = CHR 0x7F \<or> c \<in> set (CHR 0x5C # '',/?#@'')) raw"

text \<open>The host name and the port text of a \<open>Host\<close> value, or \<open>None\<close> for a malformed one.\<close>

definition split_host :: "string \<Rightarrow> (string \<times> string option) option" where
  "split_host raw =
     (if starts_with ''['' raw then
        if CHR '']'' \<notin> set raw then None
        else
          let hostname = takeWhile (\<lambda>c. c \<noteq> CHR '']'') (tl raw); rest = tl (dropWhile (\<lambda>c. c \<noteq> CHR '']'') raw) in
          if rest = [] then Some (hostname, None)
          else if starts_with '':'' rest then Some (hostname, Some (tl rest)) else None
      else
        let hostname = takeWhile (\<lambda>c. c \<noteq> CHR '':'') raw; rest = dropWhile (\<lambda>c. c \<noteq> CHR '':'') raw in
        if rest = [] then Some (raw, None)
        else if CHR '':'' \<in> set (tl rest) then None
        else Some (hostname, Some (tl rest)))"

definition parseRequestHost :: "platform \<Rightarrow> string \<Rightarrow> parsed_host option" where
  "parseRequestHost pf raw =
     (if \<not> isCleanScalar raw then None
      else
        (case split_host raw of
           None \<Rightarrow> None
         | Some (hostnameRaw, portRaw) \<Rightarrow>
             (case parseHostname pf hostnameRaw of
                None \<Rightarrow> None
              | Some hostname \<Rightarrow>
                  if (CHR '':'' \<in> set hostname) \<noteq> starts_with ''['' raw then None
                  else
                    let explicitPort = (case portRaw of None \<Rightarrow> None | Some p \<Rightarrow> parsePort p) in
                    if portRaw \<noteq> None \<and> explicitPort = None then None
                    else Some \<lparr>ph_hostname = hostname, ph_explicitPort = explicitPort,
                               ph_serialized = serializeAuthority hostname explicitPort\<rparr>)))"

definition originFromParts :: "protocol \<Rightarrow> string \<Rightarrow> nat \<Rightarrow> parsed_origin" where
  "originFromParts protocol hostname port =
     (let authority = serializeAuthority hostname (if port = defaultPort protocol then None else Some port) in
      \<lparr>po_serialized = (if protocol = Https then ''https'' else ''http'') @ ''://'' @ authority, po_protocol = protocol,
       po_hostname = hostname, po_port = port, po_authorityKey = hostname @ ''|'' @ decimal port\<rparr>)"

definition url_protocol :: "url_parts \<Rightarrow> protocol option" where
  "url_protocol u = (if up_protocol u = ''http:'' then Some Http else if up_protocol u = ''https:'' then Some Https else None)"

text \<open>\<open>parsed.port ? parsePort(parsed.port) : defaultPort(parsed.protocol)\<close>\<close>

definition url_port :: "protocol \<Rightarrow> url_parts \<Rightarrow> nat option" where
  "url_port protocol u = (if up_port u \<noteq> [] then parsePort (up_port u) else Some (defaultPort protocol))"

text \<open>\<open>/^https?:\/\/[^/?#\\]+$/i\<close>\<close>

definition origin_shape :: "string \<Rightarrow> bool" where
  "origin_shape raw \<longleftrightarrow>
     list_ex (\<lambda>p. starts_with p (js_lower raw) \<and> drop (length p) raw \<noteq> [] \<and>
        \<not> list_ex (\<lambda>c. c \<in> set (CHR 0x5C # ''/?#'')) (drop (length p) raw)) [''http://'', ''https://'']"

definition parseSerializedOrigin :: "platform \<Rightarrow> string \<Rightarrow> parsed_origin option" where
  "parseSerializedOrigin pf raw =
     (if raw = [] \<or> raw \<noteq> js_trim raw \<or> list_ex (\<lambda>c. c \<le> CHR 0x20 \<or> c = CHR 0x7F \<or> c \<in> set (CHR 0x5C # '','')) raw \<or>
         \<not> origin_shape raw then None
      else
        (case pf_url pf raw of
           None \<Rightarrow> None
         | Some u \<Rightarrow>
             (case url_protocol u of
                None \<Rightarrow> None
              | Some protocol \<Rightarrow>
                  if up_username u \<noteq> [] \<or> up_password u \<noteq> [] \<or> up_pathname u \<noteq> ''/'' \<or> up_search u \<noteq> [] \<or> up_hash u \<noteq> []
                  then None
                  else
                    (case parseHostname pf (stripIpv6Brackets (up_hostname u)) of
                       None \<Rightarrow> None
                     | Some hostname \<Rightarrow>
                         (case url_port protocol u of None \<Rightarrow> None | Some port \<Rightarrow> Some (originFromParts protocol hostname port))))))"

definition parseConfiguredOrigin :: "platform \<Rightarrow> string \<Rightarrow> config_reason \<Rightarrow> config_reason + parsed_origin" where
  "parseConfiguredOrigin pf raw reason =
     (if raw \<noteq> js_trim raw \<or> list_ex (\<lambda>c. control_char c \<or> c \<in> set (CHR 0x5C # '','')) raw then Inl reason
      else
        (case pf_url pf raw of
           None \<Rightarrow> Inl reason
         | Some u \<Rightarrow>
             (case url_protocol u of
                None \<Rightarrow> Inl reason
              | Some protocol \<Rightarrow>
                  if up_username u \<noteq> [] \<or> up_password u \<noteq> [] \<or> up_hostname u = [] \<or>
                     (up_pathname u \<noteq> ''/'' \<and> up_pathname u \<noteq> []) \<or> up_search u \<noteq> [] \<or> up_hash u \<noteq> [] then Inl reason
                  else
                    (case (parseHostname pf (stripIpv6Brackets (up_hostname u)), url_port protocol u) of
                       (Some hostname, Some port) \<Rightarrow>
                         if isWildcardListener hostname then Inl reason else Inr (originFromParts protocol hostname port)
                     | _ \<Rightarrow> Inl reason))))"

section \<open>Paths and headers\<close>

definition normalizeBasePath :: "string option \<Rightarrow> config_reason + string" where
  "normalizeBasePath raw0 =
     (case raw0 of
        None \<Rightarrow> Inr []
      | Some raw \<Rightarrow>
          if raw = [] \<or> raw = ''/'' then Inr []
          else if raw \<noteq> js_trim raw \<or> \<not> starts_with ''/'' raw \<or> CHR ''?'' \<in> set raw \<or> CHR ''#'' \<in> set raw \<or>
              CHR 0x5C \<in> set raw \<or> js_includes ''//'' raw then Inl Invalid_base_path
          else
            let normalized = (if ends_with (CHR ''/'') raw then butlast raw else raw) in
            if list_ex (\<lambda>segment. segment = ''.'' \<or> segment = ''..'') (split_char (CHR ''/'') normalized)
            then Inl Invalid_base_path else Inr normalized)"

definition stripBasePath :: "string \<Rightarrow> string \<Rightarrow> string" where
  "stripBasePath pathname basePath =
     (if basePath = [] then pathname
      else if pathname = basePath then ''/''
      else if starts_with (basePath @ ''/'') pathname then drop (length basePath) pathname else pathname)"

definition parseRequestPathname :: "platform \<Rightarrow> string option \<Rightarrow> string option" where
  "parseRequestPathname pf raw =
     (let v = (case raw of None \<Rightarrow> ''/'' | Some r \<Rightarrow> r) in
      if \<not> starts_with ''/'' v \<or> starts_with ''//'' v \<or> CHR ''#'' \<in> set v \<or> list_ex control_char v then None
      else map_option up_pathname (pf_resolve pf v ''http://request-admission.invalid''))"

definition hostMatchesOrigin :: "parsed_host \<Rightarrow> parsed_origin \<Rightarrow> bool" where
  "hostMatchesOrigin host origin \<longleftrightarrow>
     ph_hostname host = po_hostname origin \<and>
     (case ph_explicitPort host of
        None \<Rightarrow> po_port origin = defaultPort (po_protocol origin)
      | Some p \<Rightarrow> p = po_port origin)"

text \<open>The pairs of names and values of \<open>rawHeaders\<close>; a last unpaired name is not reached.\<close>

fun header_pairs :: "string list \<Rightarrow> (string \<times> string) list" where
  "header_pairs (name # v # rest) = (name, v) # header_pairs rest"
| "header_pairs _ = []"

definition header_values :: "string list \<Rightarrow> string \<Rightarrow> string list" where
  "header_values rawHeaders wantedName =
     map snd (filter (\<lambda>(name, _). js_lower name = wantedName) (header_pairs rawHeaders))"

definition readRawHeader :: "string list \<Rightarrow> string \<Rightarrow> raw_header" where
  "readRawHeader rawHeaders wantedName =
     (case header_values rawHeaders wantedName of [] \<Rightarrow> Missing | [v] \<Rightarrow> Value v | _ \<Rightarrow> Duplicate)"

definition countRawHeader :: "string list \<Rightarrow> string \<Rightarrow> nat" where
  "countRawHeader rawHeaders wantedName = length (header_values rawHeaders wantedName)"

definition parseHeaderToken :: "string option \<Rightarrow> string option" where
  "parseHeaderToken raw =
     (case raw of
        None \<Rightarrow> None
      | Some v \<Rightarrow>
          if v = [] \<or> v \<noteq> js_trim v \<or> CHR '','' \<in> set v \<or> \<not> is_token v then None else Some (js_lower v))"

definition isExactToken :: "string \<Rightarrow> bool" where
  "isExactToken v \<longleftrightarrow> v = js_trim v \<and> is_token v \<and> CHR '','' \<notin> set v"

text \<open>\<open>parseFetchMetadata\<close> on the values of \<open>Sec-Fetch-Site\<close>, \<open>-Mode\<close>, \<open>-Dest\<close> and \<open>-User\<close>.\<close>

definition parseFetchMetadata ::
    "string option \<Rightarrow> string option \<Rightarrow> string option \<Rightarrow> string option \<Rightarrow> fetch_metadata option" where
  "parseFetchMetadata rawSite rawMode rawDest rawUser =
     (let dest = parseHeaderToken rawDest in
      case (parseHeaderToken rawSite, parseHeaderToken rawMode) of
        (Some site, Some mode) \<Rightarrow>
          if site \<notin> set VALID_FETCH_SITES \<or> mode \<notin> set VALID_FETCH_MODES \<or>
             (rawDest \<noteq> None \<and> (case dest of None \<Rightarrow> True | Some d \<Rightarrow> d \<notin> set VALID_FETCH_DESTINATIONS)) \<or>
             (rawUser \<noteq> None \<and> rawUser \<noteq> Some ''?1'') then None
          else Some \<lparr>fm_site = site, fm_mode = mode, fm_dest = dest, fm_user = rawUser\<rparr>
      | _ \<Rightarrow> None)"

definition normalizeMethod :: "string option \<Rightarrow> string" where
  "normalizeMethod method = js_upper (case method of None \<Rightarrow> ''GET'' | Some v \<Rightarrow> v)"

fun compileMethods :: "string list \<Rightarrow> string list \<Rightarrow> config_reason + string list" where
  "compileMethods methods [] = Inr methods"
| "compileMethods methods (v # vs) =
     (if \<not> isExactToken v then Inl Invalid_cors_method
      else compileMethods (if js_upper v \<in> set methods then methods else methods @ [js_upper v]) vs)"

fun compileHeaders :: "(string \<times> string) list \<Rightarrow> string list \<Rightarrow> config_reason + (string \<times> string) list" where
  "compileHeaders headers [] = Inr headers"
| "compileHeaders headers (v # vs) =
     (if \<not> isExactToken v then Inl Invalid_cors_header
      else compileHeaders (AList.update (js_lower v) v headers) vs)"

definition parseRequestedHeaders :: "string \<Rightarrow> string list option" where
  "parseRequestedHeaders v =
     (if v \<noteq> js_trim v \<or> v = [] then None
      else
        let headers = map js_trim (split_char (CHR '','') v) in
        if list_ex (\<lambda>header. \<not> is_token header) headers then None
        else if \<not> distinct (map js_lower headers) then None else Some headers)"

section \<open>Compiling the policy\<close>

definition addOrigin :: "parsed_origin list \<Rightarrow> parsed_origin \<Rightarrow> parsed_origin list" where
  "addOrigin origins origin =
     (if list_ex (\<lambda>candidate. po_serialized candidate = po_serialized origin) origins then origins else origins @ [origin])"

definition addDirectHost ::
    "platform \<Rightarrow> protocol \<Rightarrow> nat \<Rightarrow> config_reason \<Rightarrow> string \<Rightarrow> parsed_origin list \<Rightarrow> config_reason + parsed_origin list" where
  "addDirectHost pf directProtocol port reason raw origins =
     (case parseConfiguredHostname pf raw of
        None \<Rightarrow> Inl reason
      | Some hostname \<Rightarrow>
          if isWildcardListener hostname then Inr origins
          else Inr (addOrigin origins (originFromParts directProtocol hostname port)))"

definition addTlsName :: "platform \<Rightarrow> nat \<Rightarrow> string \<Rightarrow> parsed_origin list \<Rightarrow> config_reason + parsed_origin list" where
  "addTlsName pf port name origins =
     (case parseConfiguredHostname pf name of
        None \<Rightarrow> Inl Invalid_tls_name
      | Some hostname \<Rightarrow>
          if isWildcardListener hostname then Inl Invalid_tls_name
          else Inr (addOrigin origins (originFromParts Https hostname port)))"

definition addConfiguredOrigin ::
    "platform \<Rightarrow> config_reason \<Rightarrow> string \<Rightarrow> parsed_origin list \<Rightarrow> config_reason + parsed_origin list" where
  "addConfiguredOrigin pf reason raw origins = map_sum id (addOrigin origins) (parseConfiguredOrigin pf raw reason)"

text \<open>A \<open>for\<close> loop whose body may throw.\<close>

fun for_each :: "('a \<Rightarrow> 's \<Rightarrow> 'e + 's) \<Rightarrow> 'a list \<Rightarrow> 's \<Rightarrow> 'e + 's" where
  "for_each body [] s = Inr s"
| "for_each body (x # xs) s = bind_res (body x s) (for_each body xs)"

definition listed :: "'a list option \<Rightarrow> 'a list" where
  "listed xs = (case xs of None \<Rightarrow> [] | Some ys \<Rightarrow> ys)"

definition addVitePair ::
    "platform \<Rightarrow> parsed_origin list \<Rightarrow> string \<times> string \<Rightarrow> (parsed_origin \<times> parsed_origin) list \<Rightarrow>
     config_reason + (parsed_origin \<times> parsed_origin) list" where
  "addVitePair pf origins pair vitePairs =
     bind_res (parseConfiguredOrigin pf (fst pair) Invalid_vite_origin) (\<lambda>origin.
     bind_res (parseConfiguredOrigin pf (snd pair) Invalid_vite_origin) (\<lambda>gateway.
       if \<not> list_ex (\<lambda>trusted. po_serialized trusted = po_serialized gateway) origins then Inl Untrusted_vite_gateway
       else if list_ex (\<lambda>(o', g'). po_serialized o' = po_serialized origin \<and> po_serialized g' = po_serialized gateway) vitePairs
       then Inr vitePairs
       else Inr (vitePairs @ [(origin, gateway)])))"

text \<open>\<open>Number.isInteger(n)\<close> with a range, and the integer it is.\<close>

definition integer_in :: "int \<Rightarrow> int \<Rightarrow> js_num \<Rightarrow> int option" where
  "integer_in lo hi n =
     (case n of Fin q \<Rightarrow> if q = of_int (floor q) \<and> lo \<le> floor q \<and> floor q \<le> hi then Some (floor q) else None | _ \<Rightarrow> None)"

definition compile_origins :: "platform \<Rightarrow> policy_input \<Rightarrow> nat \<Rightarrow> string \<Rightarrow> config_reason + parsed_origin list" where
  "compile_origins pf input port bindHost =
     (let direct = (if pi_isTls input then Https else Http) in
      bind_res (if isWildcardListener bindHost then Inr [] else addDirectHost pf direct port Invalid_bind_host bindHost []) (\<lambda>o1.
      bind_res (for_each (addDirectHost pf direct port Invalid_trusted_host) LOOPBACK_HOSTS o1) (\<lambda>o2.
      bind_res (for_each (addDirectHost pf direct port Invalid_trusted_host) (listed (pi_trustedHosts input)) o2) (\<lambda>o3.
      bind_res (for_each (addTlsName pf port) (listed (pi_tlsHostnames input)) o3) (\<lambda>o4.
      bind_res (for_each (addConfiguredOrigin pf Invalid_public_origin) (listed (pi_publicOrigins input)) o4) (\<lambda>o5.
      (case pi_publishedOrigin input of
         None \<Rightarrow> Inr o5 | Some raw \<Rightarrow> addConfiguredOrigin pf Invalid_published_origin raw o5)))))))"

definition compileRequestAdmissionPolicy :: "platform \<Rightarrow> policy_input \<Rightarrow> config_reason + policy" where
  "compileRequestAdmissionPolicy pf input =
     (case integer_in 1 65535 (pi_actualPort input) of
        None \<Rightarrow> Inl Invalid_port
      | Some port \<Rightarrow>
     bind_res (normalizeBasePath (pi_basePath input)) (\<lambda>basePath.
     (case parseConfiguredHostname pf (pi_bindHost input) of
        None \<Rightarrow> Inl Invalid_bind_host
      | Some bindHost \<Rightarrow>
     bind_res (compile_origins pf input (nat port) bindHost) (\<lambda>origins.
     bind_res (for_each (addVitePair pf origins) (listed (pi_viteOriginPairs input)) []) (\<lambda>vitePairs.
     bind_res (compileMethods [] (case pi_allowedMethods input of None \<Rightarrow> API_CORS_ALLOWED_METHODS | Some ms \<Rightarrow> ms)) (\<lambda>methods.
     bind_res (compileHeaders [] (case pi_allowedHeaders input of None \<Rightarrow> API_CORS_ALLOWED_HEADERS | Some hs \<Rightarrow> hs)) (\<lambda>headers.
     (case integer_in 0 86400
         (case pi_maxAgeSeconds input of None \<Rightarrow> API_CORS_PREFLIGHT_MAX_AGE_SECONDS | Some n \<Rightarrow> n) of
        None \<Rightarrow> Inl Invalid_cors_max_age
      | Some maxAge \<Rightarrow>
          Inr \<lparr>pl_basePath = basePath, pl_trustedOrigins = map po_serialized origins,
               pl_viteOriginPairs = map (\<lambda>(origin, gateway). (po_serialized origin, po_serialized gateway)) vitePairs,
               pl_allAuthoritiesLoopback =
                 (isLoopbackHostname bindHost \<and> list_all (\<lambda>origin. isLoopbackHostname (po_hostname origin)) origins \<and>
                  list_all (\<lambda>(origin, gateway). isLoopbackHostname (po_hostname origin) \<and> isLoopbackHostname (po_hostname gateway)) vitePairs),
               pl_origins = origins, pl_vitePairs = vitePairs, pl_corsMethods = methods, pl_corsHeaders = headers,
               pl_corsMaxAgeSeconds = maxAge\<rparr>))))))))"

section \<open>Admitting a request\<close>

definition under :: "string \<Rightarrow> string \<Rightarrow> bool" where
  "under base path \<longleftrightarrow> path = base \<or> starts_with (base @ ''/'') path"

definition top_level_document :: "fetch_metadata option \<Rightarrow> bool" where
  "top_level_document fetch =
     (case fetch of
        None \<Rightarrow> False
      | Some f \<Rightarrow>
          fm_dest f = Some ''document'' \<or> (fm_mode f = ''navigate'' \<and> fm_dest f = Some ''empty'' \<and> fm_site f \<noteq> ''same-origin''))"

definition classifyContext :: "platform \<Rightarrow> string \<Rightarrow> metadata \<Rightarrow> fetch_metadata option \<Rightarrow> route_context" where
  "classifyContext pf basePath md fetch =
     (if md_websocket md then Websocket
      else if normalizeMethod (md_method md) = ''OPTIONS'' \<and>
          countRawHeader (md_rawHeaders md) ''access-control-request-method'' > 0 then Preflight
      else
        (case parseRequestPathname pf (md_url md) of
           None \<Rightarrow> Ui_static
         | Some pathname \<Rightarrow>
             let path = stripBasePath pathname basePath in
             if under ''/api'' path then Api
             else if under ''/preview'' path then
               if top_level_document fetch then Preview_document
               else if fetch \<noteq> None \<and> fm_dest (the fetch) = Some ''iframe'' then Preview_iframe
               else Preview_resource
             else if top_level_document fetch then Ui_document else Ui_static))"

datatype origin_kind = Absent | Same_origin | Vite | Mismatch

definition serialized_in :: "parsed_origin \<Rightarrow> parsed_origin list \<Rightarrow> bool" where
  "serialized_in origin origins \<longleftrightarrow> list_ex (\<lambda>candidate. po_serialized candidate = po_serialized origin) origins"

definition classifyOrigin :: "policy \<Rightarrow> parsed_origin list \<Rightarrow> parsed_origin option \<Rightarrow> origin_kind" where
  "classifyOrigin policy matchingOrigins origin =
     (case origin of
        None \<Rightarrow> Absent
      | Some o' \<Rightarrow>
          if serialized_in o' matchingOrigins then Same_origin
          else if list_ex (\<lambda>(browser, gateway). po_serialized browser = po_serialized o' \<and> serialized_in gateway matchingOrigins)
              (pl_vitePairs policy) then Vite
          else Mismatch)"

definition isSafeTopLevelNavigation ::
    "route_context \<Rightarrow> string option \<Rightarrow> parsed_origin option \<Rightarrow> fetch_metadata \<Rightarrow> bool" where
  "isSafeTopLevelNavigation context method origin fetch \<longleftrightarrow>
     origin = None \<and> (context = Ui_document \<or> context = Preview_document) \<and>
     normalizeMethod method \<in> set SAFE_METHODS \<and> fm_mode fetch = ''navigate'' \<and>
     (fm_dest fetch = Some ''document'' \<or> (fm_dest fetch = Some ''empty'' \<and> fm_site fetch \<noteq> ''same-origin''))"

definition dest_empty :: "fetch_metadata \<Rightarrow> bool" where
  "dest_empty fetch \<longleftrightarrow> fm_dest fetch = None \<or> fm_dest fetch = Some ''empty''"

definition isCoherentFetchContext :: "route_context \<Rightarrow> fetch_metadata \<Rightarrow> bool" where
  "isCoherentFetchContext context fetch =
     (if context = Websocket then fm_mode fetch = ''websocket'' \<and> (dest_empty fetch \<or> fm_dest fetch = Some ''websocket'')
      else if fm_dest fetch = Some ''websocket'' then False
      else if context = Preflight then fm_mode fetch = ''cors'' \<and> dest_empty fetch
      else if context = Api then dest_empty fetch \<and> (fm_mode fetch = ''cors'' \<or> fm_mode fetch = ''same-origin'')
      else if context = Preview_iframe then fm_mode fetch = ''navigate'' \<and> fm_dest fetch = Some ''iframe''
      else if context = Ui_document \<or> context = Preview_document then
        fm_mode fetch = ''navigate'' \<and>
        (fm_dest fetch = Some ''document'' \<or> (fm_dest fetch = Some ''empty'' \<and> fm_site fetch \<noteq> ''same-origin''))
      else if fm_mode fetch = ''navigate'' then fm_dest fetch = Some ''empty''
      else fm_mode fetch \<noteq> ''nested-navigate'' \<and> fm_mode fetch \<noteq> ''websocket'')"

definition isCoherentOriginlessSubresource :: "route_context \<Rightarrow> fetch_metadata \<Rightarrow> bool" where
  "isCoherentOriginlessSubresource context fetch \<longleftrightarrow>
     fm_site fetch = ''same-origin'' \<and> context \<noteq> Websocket \<and> context \<noteq> Preflight \<and> isCoherentFetchContext context fetch"

definition hasNamedCookie :: "string list \<Rightarrow> string \<Rightarrow> bool" where
  "hasNamedCookie rawHeaders wantedName =
     (case readRawHeader rawHeaders ''cookie'' of
        Value cookies \<Rightarrow>
          list_ex (\<lambda>part.
            let name = takeWhile (\<lambda>c. c \<noteq> CHR ''='') part in
            name \<noteq> [] \<and> name \<noteq> part \<and> js_trim name = wantedName \<and> js_trim (drop (length name + 1) part) \<noteq> [])
            (split_char (CHR '';'') cookies)
      | _ \<Rightarrow> False)"

definition isOpaquePreviewFollowOn :: "metadata \<Rightarrow> route_context \<Rightarrow> fetch_metadata option \<Rightarrow> bool \<Rightarrow> bool" where
  "isOpaquePreviewFollowOn md context fetch hasOpaqueOrigin =
     (case fetch of
        None \<Rightarrow> False
      | Some f \<Rightarrow>
          normalizeMethod (md_method md) \<in> set SAFE_METHODS \<and> fm_site f = ''cross-site'' \<and>
          context = Preview_resource \<and> (fm_mode f = ''cors'' \<or> fm_mode f = ''no-cors'') \<and> isCoherentFetchContext context f \<and>
          (hasOpaqueOrigin \<or> readRawHeader (md_rawHeaders md) ''origin'' = Missing) \<and>
          hasNamedCookie (md_rawHeaders md) PREVIEW_COOKIE_NAME)"

definition simpleCors :: "parsed_origin \<Rightarrow> cors_projection" where
  "simpleCors origin =
     \<lparr>cp_allowOrigin = po_serialized origin, cp_varyOrigin = True, cp_allowCredentials = False, cp_allowMethod = None,
      cp_allowHeaders = None, cp_maxAgeSeconds = None\<rparr>"

definition uniqueValue :: "string list \<Rightarrow> string option" where
  "uniqueValue vs = (case remdups vs of [v] \<Rightarrow> Some v | _ \<Rightarrow> None)"

definition truthy :: "string option \<Rightarrow> string option" where
  "truthy s = (if s = Some [] then None else s)"

definition selectGatewayOrigin :: "policy \<Rightarrow> parsed_origin list \<Rightarrow> parsed_origin option \<Rightarrow> bool \<Rightarrow> string option" where
  "selectGatewayOrigin policy matchingOrigins browserOrigin isTls =
     (case browserOrigin of
        Some b \<Rightarrow>
          if serialized_in b matchingOrigins then Some (po_serialized b)
          else
            uniqueValue (map (\<lambda>(_, gateway). po_serialized gateway)
              (filter (\<lambda>(browser, gateway). po_serialized browser = po_serialized b \<and> serialized_in gateway matchingOrigins)
                (pl_vitePairs policy)))
      | None \<Rightarrow>
          (case truthy (uniqueValue (map po_serialized matchingOrigins)) of
             None \<Rightarrow> None
           | Some compiledOrigin \<Rightarrow>
               let physicalProtocol = (if isTls then Https else Http) in
               (case uniqueValue (map po_serialized (filter (\<lambda>c. po_protocol c = physicalProtocol) matchingOrigins)) of
                  Some v \<Rightarrow> Some v | None \<Rightarrow> Some compiledOrigin)))"

text \<open>The origin of a request: none, the text \<open>null\<close>, or a parsed one.\<close>

datatype request_origin = No_origin | Null_origin | Origin parsed_origin

definition parsed_part :: "request_origin \<Rightarrow> parsed_origin option" where
  "parsed_part origin = (case origin of Origin o' \<Rightarrow> Some o' | _ \<Rightarrow> None)"

definition origin_of :: "parsed_origin option \<Rightarrow> request_origin" where
  "origin_of origin = (case origin of None \<Rightarrow> No_origin | Some o' \<Rightarrow> Origin o')"

definition allow ::
    "policy \<Rightarrow> route_context \<Rightarrow> parsed_host \<Rightarrow> parsed_origin list \<Rightarrow> request_origin \<Rightarrow> bool \<Rightarrow> cors_projection option \<Rightarrow> decision" where
  "allow policy context host matchingOrigins origin isTls cors =
     Allowed \<lparr>ad_context = context, ad_normalizedHost = ph_serialized host,
       ad_normalizedOrigin =
         (case origin of No_origin \<Rightarrow> None | Null_origin \<Rightarrow> Some ''null'' | Origin o' \<Rightarrow> Some (po_serialized o')),
       ad_gatewayOrigin = truthy (selectGatewayOrigin policy matchingOrigins (parsed_part origin) isTls),
       ad_trustedLocal = pl_allAuthoritiesLoopback policy, ad_cors = cors\<rparr>"

definition deny :: "deny_reason \<Rightarrow> route_context \<Rightarrow> string option \<Rightarrow> parsed_origin option \<Rightarrow> decision" where
  "deny reason context normalizedHost origin =
     Denied reason context (truthy normalizedHost) (truthy (map_option po_serialized origin))"

text \<open>
  \<open>policy._compiled.corsHeaders[name]\<close>. Of the names of \<open>Object.prototype\<close> only two are in lower
  case: \<open>constructor\<close> and \<open>__proto__\<close>. An own entry hides them; its text is never empty but is tested.
\<close>

definition INHERITED_NAMES :: "string list" where
  "INHERITED_NAMES = [''constructor'', ''__proto__'']"

definition lookup_cors_header :: "(string \<times> string) list \<Rightarrow> string \<Rightarrow> projected option" where
  "lookup_cors_header corsHeaders name =
     (case map_of corsHeaders name of
        Some v \<Rightarrow> if v = [] then None else Some (Configured v)
      | None \<Rightarrow> if name \<in> set INHERITED_NAMES then Some (Inherited name) else None)"

fun project_headers :: "(string \<times> string) list \<Rightarrow> string list \<Rightarrow> projected list option" where
  "project_headers corsHeaders [] = Some []"
| "project_headers corsHeaders (header # rest) =
     (case lookup_cors_header corsHeaders (js_lower header) of
        None \<Rightarrow> None
      | Some configured \<Rightarrow> map_option (\<lambda>ps. configured # ps) (project_headers corsHeaders rest))"

definition admitPreflight ::
    "policy \<Rightarrow> metadata \<Rightarrow> route_context \<Rightarrow> parsed_host \<Rightarrow> parsed_origin list \<Rightarrow> parsed_origin option \<Rightarrow>
     fetch_metadata option \<Rightarrow> raw_header \<Rightarrow> raw_header \<Rightarrow> raw_header \<Rightarrow> decision" where
  "admitPreflight policy md context host matchingOrigins origin fetch methodHeader headersHeader privateNetworkHeader =
     (let denied = (\<lambda>reason. deny reason context (Some (ph_serialized host)) origin) in
      case (origin, methodHeader) of
        (Some o', Value rawMethod) \<Rightarrow>
          if normalizeMethod (md_method md) \<noteq> ''OPTIONS'' then denied Invalid_preflight
          else
            (case privateNetworkHeader of
               Value v \<Rightarrow> denied (if js_lower v = ''true'' then Private_network_denied else Invalid_preflight)
             | _ \<Rightarrow>
                 if classifyOrigin policy matchingOrigins origin = Mismatch then denied Origin_mismatch
                 else if fetch \<noteq> None \<and> \<not> isCoherentFetchContext Preflight (the fetch) then denied Invalid_fetch_metadata
                 else if fetch \<noteq> None \<and> fm_site (the fetch) \<noteq> ''same-origin'' then denied Cross_site_browser_request
                 else if \<not> isExactToken rawMethod then denied Invalid_preflight
                 else if js_upper rawMethod \<notin> set (pl_corsMethods policy) then denied Preflight_method_denied
                 else
                   (case (case headersHeader of Value v \<Rightarrow> parseRequestedHeaders v | _ \<Rightarrow> Some []) of
                      None \<Rightarrow> denied Invalid_preflight
                    | Some requestedHeaders \<Rightarrow>
                        (case project_headers (pl_corsHeaders policy) requestedHeaders of
                           None \<Rightarrow> denied Preflight_header_denied
                         | Some projectedHeaders \<Rightarrow>
                             allow policy Preflight host matchingOrigins (Origin o') (md_isTls md)
                               (Some ((simpleCors o')\<lparr>cp_allowMethod := Some (js_upper rawMethod),
                                  cp_allowHeaders := Some projectedHeaders,
                                  cp_maxAgeSeconds := Some (pl_corsMaxAgeSeconds policy)\<rparr>)))))
      | _ \<Rightarrow> denied Invalid_preflight)"

text \<open>The fetch metadata of a request: absent or ignored, a refusal, or the parsed values.\<close>

definition header_value :: "raw_header \<Rightarrow> string option" where
  "header_value h = (case h of Value v \<Rightarrow> Some v | _ \<Rightarrow> None)"

definition read_fetch :: "metadata \<Rightarrow> parsed_origin option \<Rightarrow> deny_reason + fetch_metadata option" where
  "read_fetch md origin =
     (let site = readRawHeader (md_rawHeaders md) ''sec-fetch-site''; mode = readRawHeader (md_rawHeaders md) ''sec-fetch-mode'';
          dest = readRawHeader (md_rawHeaders md) ''sec-fetch-dest''; user = readRawHeader (md_rawHeaders md) ''sec-fetch-user'' in
      if Duplicate \<in> set [site, mode, dest, user] then Inl Duplicate_fetch_metadata
      else
        let isModeOnly = (site = Missing \<and> mode \<noteq> Missing \<and> dest = Missing \<and> user = Missing);
            isBrowserShape = (site \<noteq> Missing \<and> mode \<noteq> Missing) in
        if (site \<noteq> Missing \<or> mode \<noteq> Missing \<or> dest \<noteq> Missing \<or> user \<noteq> Missing) \<and> \<not> isModeOnly \<and> \<not> isBrowserShape
        then Inl Partial_fetch_metadata
        else if isModeOnly then
          (case parseHeaderToken (header_value mode) of
             None \<Rightarrow> Inl Invalid_fetch_metadata
           | Some v \<Rightarrow>
               if v \<notin> set VALID_FETCH_MODES then Inl Invalid_fetch_metadata
               else if v \<noteq> ''cors'' \<or> origin \<noteq> None \<or> md_websocket md then Inl Partial_fetch_metadata
               else Inr None)
        else if isBrowserShape then
          (case parseFetchMetadata (header_value site) (header_value mode) (header_value dest) (header_value user) of
             None \<Rightarrow> Inl Invalid_fetch_metadata
           | Some fetch \<Rightarrow> Inr (Some fetch))
        else Inr None)"

text \<open>The checks on a request that is neither a preflight nor a follow-on of a preview.\<close>

definition admit_plain ::
    "policy \<Rightarrow> metadata \<Rightarrow> route_context \<Rightarrow> parsed_host \<Rightarrow> parsed_origin list \<Rightarrow> parsed_origin option \<Rightarrow>
     fetch_metadata option \<Rightarrow> decision" where
  "admit_plain policy md context host matchingOrigins origin fetch =
     (let denied = (\<lambda>reason. deny reason context (Some (ph_serialized host)) origin);
          finish =
            (if (context = Ui_document \<or> context = Preview_document) \<and> fetch \<noteq> None \<and> fm_mode (the fetch) = ''navigate'' \<and>
                normalizeMethod (md_method md) \<notin> set SAFE_METHODS then denied Unsafe_navigation_method
             else allow policy context host matchingOrigins (origin_of origin) (md_isTls md) (map_option simpleCors origin)) in
      if origin \<noteq> None \<and> classifyOrigin policy matchingOrigins origin = Mismatch then denied Origin_mismatch
      else
        (case fetch of
           None \<Rightarrow> finish
         | Some f \<Rightarrow>
             if \<not> isCoherentFetchContext context f then denied Invalid_fetch_metadata
             else if fm_site f \<noteq> ''same-origin'' \<and> \<not> isSafeTopLevelNavigation context (md_method md) origin f
             then denied Cross_site_browser_request
             else if origin = None then
               if isSafeTopLevelNavigation context (md_method md) None f
               then allow policy context host matchingOrigins No_origin (md_isTls md) None
               else if context = Websocket then denied Origin_required
               else if \<not> isCoherentOriginlessSubresource context f then denied Cross_site_browser_request
               else finish
             else finish))"

text \<open>\<open>Origin: null\<close> is opaque and parses to nothing.\<close>

definition read_origin :: "platform \<Rightarrow> raw_header \<Rightarrow> deny_reason + parsed_origin option" where
  "read_origin pf originHeader =
     (case originHeader of
        Missing \<Rightarrow> Inr None
      | Duplicate \<Rightarrow> Inl Duplicate_origin
      | Value raw \<Rightarrow>
          if raw = ''null'' then Inr None
          else (case parseSerializedOrigin pf raw of None \<Rightarrow> Inl Invalid_origin | Some o' \<Rightarrow> Inr (Some o')))"

text \<open>\<open>admitRequest\<close> once host, origin and fetch metadata are known, and the whole of it.\<close>

definition admit_in_context ::
    "platform \<Rightarrow> policy \<Rightarrow> metadata \<Rightarrow> parsed_host \<Rightarrow> parsed_origin list \<Rightarrow> bool \<Rightarrow> parsed_origin option \<Rightarrow>
     fetch_metadata option \<Rightarrow> decision" where
  "admit_in_context pf policy md host matchingOrigins hasOpaqueOrigin origin fetch =
     (let headers = md_rawHeaders md; context = classifyContext pf (pl_basePath policy) md fetch;
          methodHeader = readRawHeader headers ''access-control-request-method'';
          headersHeader = readRawHeader headers ''access-control-request-headers'';
          privateNetworkHeader = readRawHeader headers ''access-control-request-private-network'' in
      if Duplicate \<in> set [methodHeader, headersHeader, privateNetworkHeader]
      then deny Invalid_preflight context (Some (ph_serialized host)) origin
      else if methodHeader \<noteq> Missing \<or> headersHeader \<noteq> Missing \<or> privateNetworkHeader \<noteq> Missing \<or> context = Preflight
      then admitPreflight policy md context host matchingOrigins origin fetch methodHeader headersHeader privateNetworkHeader
      else if isOpaquePreviewFollowOn md context fetch hasOpaqueOrigin
      then allow policy context host matchingOrigins (if hasOpaqueOrigin then Null_origin else No_origin) (md_isTls md) None
      else if hasOpaqueOrigin then deny Invalid_origin context (Some (ph_serialized host)) None
      else admit_plain policy md context host matchingOrigins origin fetch)"

definition admitRequest :: "platform \<Rightarrow> policy \<Rightarrow> metadata \<Rightarrow> decision" where
  "admitRequest pf policy md =
     (let headers = md_rawHeaders md; preliminary = classifyContext pf (pl_basePath policy) md None in
      if odd (length headers) then deny Malformed_raw_headers preliminary None None
      else
        (case readRawHeader headers ''host'' of
           Missing \<Rightarrow> deny Missing_host preliminary None None
         | Duplicate \<Rightarrow> deny Duplicate_host preliminary None None
         | Value rawHost \<Rightarrow>
             (case parseRequestHost pf rawHost of
                None \<Rightarrow> deny Invalid_host preliminary None None
              | Some host \<Rightarrow>
                  let matchingOrigins = filter (hostMatchesOrigin host) (pl_origins policy);
                      refuse = (\<lambda>reason. deny reason preliminary (Some (ph_serialized host)));
                      originHeader = readRawHeader headers ''origin'' in
                  if matchingOrigins = [] then refuse Untrusted_host None
                  else if parseRequestPathname pf (md_url md) = None then refuse Invalid_request_target None
                  else
                    (case read_origin pf originHeader of
                       Inl reason \<Rightarrow> refuse reason None
                     | Inr origin \<Rightarrow>
                         (case read_fetch md origin of
                            Inl reason \<Rightarrow> refuse reason origin
                          | Inr fetch \<Rightarrow>
                              admit_in_context pf policy md host matchingOrigins (originHeader = Value ''null'') origin fetch)))))"

section \<open>Local peers\<close>

definition hextet :: "string \<Rightarrow> bool" where
  "hextet h \<longleftrightarrow> 1 \<le> length h \<and> length h \<le> 4 \<and> list_all (\<lambda>c. is_digit c \<or> (CHR ''a'' \<le> c \<and> c \<le> CHR ''f'')) h"

fun hex_value :: "nat \<Rightarrow> string \<Rightarrow> nat" where
  "hex_value n [] = n"
| "hex_value n (c # cs) = hex_value (16 * n + (if is_digit c then of_char c - 48 else of_char c - 87)) cs"

definition isLoopbackPeerAddress :: "platform \<Rightarrow> string option \<Rightarrow> bool" where
  "isLoopbackPeerAddress pf remoteAddress =
     (case remoteAddress of
        None \<Rightarrow> False
      | Some a \<Rightarrow>
          let addressFamily = (if a = [] then 0 else pf_isIP pf a) in
          if addressFamily = 4 then hd (split_char (CHR ''.'') a) = ''127''
          else if addressFamily \<noteq> 6 then False
          else
            (case pf_url pf (''http://['' @ a @ '']'') of
               None \<Rightarrow> False
             | Some u \<Rightarrow>
                 let normalized = js_lower (butlast (tl (up_hostname u))) in
                 normalized = ''::1'' \<or>
                 (starts_with ''::ffff:'' normalized \<and>
                  (case split_char (CHR '':'') (drop 7 normalized) of
                     [high, low] \<Rightarrow> hextet high \<and> hextet low \<and> hex_value 0 high div 256 = 127
                   | _ \<Rightarrow> False))))"

definition isTrustedLocalRequest :: "platform \<Rightarrow> admission \<Rightarrow> string option \<Rightarrow> bool" where
  "isTrustedLocalRequest pf admission remoteAddress \<longleftrightarrow>
     ad_trustedLocal admission \<and> isLoopbackPeerAddress pf remoteAddress"

end
