(* ===== verification/Admission_Checks.thy ===== *)
theory Admission_Checks
  imports Request_Admission
begin

text \<open>
  What the gateway admits. Every admitted request names a host of the compiled policy and an origin that
  may speak for it, cross-site requests are admitted only as navigations and follow-ons of a preview,
  and CORS headers never offer credentials or an unlisted method. A policy that grants the local bypass
  contains loopback names only.
\<close>

section \<open>Refusals and admissions\<close>

lemma deny_Allowed [simp]: "deny reason context host origin \<noteq> Allowed a"
  by (simp add: deny_def)

lemma allow_Allowed:
  "allow policy context host origins origin tls cors = Allowed a \<longleftrightarrow>
     a = \<lparr>ad_context = context, ad_normalizedHost = ph_serialized host,
          ad_normalizedOrigin =
            (case origin of No_origin \<Rightarrow> None | Null_origin \<Rightarrow> Some ''null'' | Origin o' \<Rightarrow> Some (po_serialized o')),
          ad_gatewayOrigin = truthy (selectGatewayOrigin policy origins (parsed_part origin) tls),
          ad_trustedLocal = pl_allAuthoritiesLoopback policy, ad_cors = cors\<rparr>"
  by (auto simp: allow_def)

lemma if_Allowed:
  "(if c then deny reason context host origin else d) = Allowed a \<longleftrightarrow> \<not> c \<and> d = Allowed a"
  by simp

lemma safe_navigation_context:
  "isSafeTopLevelNavigation context method origin fetch \<Longrightarrow>
     origin = None \<and> (context = Ui_document \<or> context = Preview_document) \<and> normalizeMethod method \<in> set SAFE_METHODS"
  by (auto simp: isSafeTopLevelNavigation_def)

lemma admit_plain_Allowed:
  assumes "admit_plain policy md context host origins origin fetch = Allowed a"
  shows "classifyOrigin policy origins origin \<noteq> Mismatch"
    and "allow policy context host origins (origin_of origin) (md_isTls md) (map_option simpleCors origin) = Allowed a"
    and "fetch = Some f \<Longrightarrow> fm_site f = ''same-origin'' \<or> isSafeTopLevelNavigation context (md_method md) origin f"
    and "fetch = Some f \<Longrightarrow> isCoherentFetchContext context f"
  using assms
  by (auto simp: admit_plain_def Let_def if_Allowed origin_of_def classifyOrigin_def split: option.splits if_splits)

text \<open>A projected header is a configured one, or one of the two inherited names.\<close>

definition projection_of :: "(string \<times> string) list \<Rightarrow> projected \<Rightarrow> bool" where
  "projection_of corsHeaders p =
     (case p of Configured v \<Rightarrow> v \<in> snd ` set corsHeaders | Inherited name \<Rightarrow> name \<in> set INHERITED_NAMES)"

lemma map_of_value: "map_of m k = Some v \<Longrightarrow> v \<in> snd ` set m"
  by (metis image_eqI map_of_SomeD snd_conv)

lemma lookup_cors_header_Some:
  "lookup_cors_header corsHeaders name = Some p \<Longrightarrow> projection_of corsHeaders p"
  by (auto simp: lookup_cors_header_def projection_of_def dest: map_of_value split: option.splits if_splits)

lemma project_headers_Some:
  "project_headers corsHeaders headers = Some ps \<Longrightarrow> list_all (projection_of corsHeaders) ps"
  by (induction corsHeaders headers arbitrary: ps rule: project_headers.induct)
    (auto split: option.splits dest: lookup_cors_header_Some)

definition requested_headers :: "raw_header \<Rightarrow> string list option" where
  "requested_headers h = (case h of Value v \<Rightarrow> parseRequestedHeaders v | _ \<Rightarrow> Some [])"

lemma admitPreflight_Allowed:
  assumes "admitPreflight policy md context host origins origin fetch m h p = Allowed a"
  obtains o' raw ps where "origin = Some o'" "m = Value raw" "normalizeMethod (md_method md) = ''OPTIONS''"
    "header_value p = None" "classifyOrigin policy origins origin \<noteq> Mismatch"
    "fetch = None \<or> fm_site (the fetch) = ''same-origin''"
    "js_upper raw \<in> set (pl_corsMethods policy)" "list_all (projection_of (pl_corsHeaders policy)) ps"
    "allow policy Preflight host origins (Origin o') (md_isTls md)
       (Some ((simpleCors o')\<lparr>cp_allowMethod := Some (js_upper raw), cp_allowHeaders := Some ps,
          cp_maxAgeSeconds := Some (pl_corsMaxAgeSeconds policy)\<rparr>)) = Allowed a"
proof -
  from assms obtain o' raw where o': "origin = Some o'" and raw: "m = Value raw"
    by (auto simp: admitPreflight_def Let_def split: option.splits raw_header.splits)
  from assms have p: "header_value p = None"
    by (auto simp: admitPreflight_def Let_def o' raw header_value_def split: raw_header.splits if_splits)
  then have novalue: "(case p of Value v \<Rightarrow> d v | Missing \<Rightarrow> e | Duplicate \<Rightarrow> e) = e" for d and e :: decision
    by (auto simp: header_value_def split: raw_header.splits)
  from assms obtain headers ps where rest: "requested_headers h = Some headers"
      "project_headers (pl_corsHeaders policy) headers = Some ps"
    by (auto simp: admitPreflight_def Let_def o' raw novalue if_Allowed simp flip: requested_headers_def
        split: option.splits)
  from assms rest show thesis
    by (intro that [OF o' raw _ p])
      (auto simp: admitPreflight_def Let_def o' raw novalue if_Allowed project_headers_Some
        simp flip: requested_headers_def)
qed

section \<open>Admitted requests\<close>

text \<open>The origin text \<open>s\<close> is that of a compiled origin the host matches, or paired with one.\<close>

definition speaks_for :: "policy \<Rightarrow> parsed_host \<Rightarrow> string \<Rightarrow> bool" where
  "speaks_for policy host s \<longleftrightarrow>
     list_ex (\<lambda>g. hostMatchesOrigin host g \<and>
       (po_serialized g = s \<or>
        list_ex (\<lambda>(b, g'). po_serialized b = s \<and> po_serialized g = po_serialized g') (pl_vitePairs policy)))
       (pl_origins policy)"

lemma classified_speaks_for:
  "classifyOrigin policy (filter (hostMatchesOrigin host) (pl_origins policy)) (Some o') \<noteq> Mismatch \<longleftrightarrow>
     speaks_for policy host (po_serialized o')"
proof -
  let ?C = "{c \<in> set (pl_origins policy). hostMatchesOrigin host c}" and ?s = "po_serialized o'"
  have "classifyOrigin policy (filter (hostMatchesOrigin host) (pl_origins policy)) (Some o') \<noteq> Mismatch \<longleftrightarrow>
      (\<exists>c\<in>?C. po_serialized c = ?s) \<or>
      (\<exists>p\<in>set (pl_vitePairs policy). po_serialized (fst p) = ?s \<and> (\<exists>c\<in>?C. po_serialized c = po_serialized (snd p)))"
    by (simp add: classifyOrigin_def serialized_in_def list_ex_iff split_def)
  also have "\<dots> \<longleftrightarrow> speaks_for policy host ?s"
    by (simp add: speaks_for_def list_ex_iff split_def) blast
  finally show ?thesis .
qed

text \<open>The site of the fetch metadata, and the two facts a follow-on of a preview rests on.\<close>

definition fetch_site :: "metadata \<Rightarrow> string option" where
  "fetch_site md = parseHeaderToken (header_value (readRawHeader (md_rawHeaders md) ''sec-fetch-site''))"

definition preview_follow_on :: "metadata \<Rightarrow> admission \<Rightarrow> bool" where
  "preview_follow_on md a \<longleftrightarrow>
     ad_context a = Preview_resource \<and> hasNamedCookie (md_rawHeaders md) PREVIEW_COOKIE_NAME \<and>
     normalizeMethod (md_method md) \<in> set SAFE_METHODS \<and> ad_cors a = None"

lemma read_fetch_site:
  assumes "read_fetch md origin = Inr fetch"
  shows "fetch_site md = map_option fm_site fetch"
proof (cases fetch)
  case None
  then have "readRawHeader (md_rawHeaders md) ''sec-fetch-site'' = Missing"
    using assms by (auto simp: read_fetch_def Let_def split: if_splits option.splits)
  then show ?thesis by (simp add: fetch_site_def header_value_def parseHeaderToken_def None)
next
  case (Some f)
  then have "parseFetchMetadata (header_value (readRawHeader (md_rawHeaders md) ''sec-fetch-site''))
      (header_value (readRawHeader (md_rawHeaders md) ''sec-fetch-mode''))
      (header_value (readRawHeader (md_rawHeaders md) ''sec-fetch-dest''))
      (header_value (readRawHeader (md_rawHeaders md) ''sec-fetch-user'')) = Some f"
    using assms by (auto simp: read_fetch_def Let_def split: if_splits option.splits)
  then show ?thesis
    by (auto simp: Some fetch_site_def parseFetchMetadata_def Let_def split: option.splits if_splits)
qed

lemma admitRequest_Allowed:
  assumes "admitRequest pf policy md = Allowed a"
  obtains rawHost host origin fetch where
    "readRawHeader (md_rawHeaders md) ''host'' = Value rawHost" "parseRequestHost pf rawHost = Some host"
    "list_ex (hostMatchesOrigin host) (pl_origins policy)"
    "read_origin pf (readRawHeader (md_rawHeaders md) ''origin'') = Inr origin"
    "read_fetch md origin = Inr fetch"
    "admit_in_context pf policy md host (filter (hostMatchesOrigin host) (pl_origins policy))
       (readRawHeader (md_rawHeaders md) ''origin'' = Value ''null'') origin fetch = Allowed a"
  using assms
  by (auto simp: admitRequest_def Let_def if_Allowed filter_empty_conv list_ex_iff
      split: raw_header.splits option.splits sum.splits)

lemma admit_in_context_Allowed:
  assumes "admit_in_context pf policy md host origins opaque origin fetch = Allowed a"
  obtains
    (preflight) m h p ctx where "header_value p = header_value
        (readRawHeader (md_rawHeaders md) ''access-control-request-private-network'')"
      "admitPreflight policy md ctx host origins origin fetch m h p = Allowed a"
  | (follow_on) ctx where "isOpaquePreviewFollowOn md ctx fetch opaque"
      "allow policy ctx host origins (if opaque then Null_origin else No_origin) (md_isTls md) None = Allowed a"
  | (plain) ctx where "\<not> opaque"
      "header_value (readRawHeader (md_rawHeaders md) ''access-control-request-private-network'') = None"
      "admit_plain policy md ctx host origins origin fetch = Allowed a"
  using assms
  by (auto simp: admit_in_context_def Let_def if_Allowed header_value_def split: if_splits)

text \<open>What vouches for the \<open>Origin\<close> of an admitted request, and for the site it was sent from.\<close>

definition origin_vouched :: "platform \<Rightarrow> policy \<Rightarrow> metadata \<Rightarrow> parsed_host \<Rightarrow> admission \<Rightarrow> bool" where
  "origin_vouched pf policy md host a =
     (case readRawHeader (md_rawHeaders md) ''origin'' of
        Missing \<Rightarrow> ad_normalizedOrigin a = None
      | Duplicate \<Rightarrow> False
      | Value raw \<Rightarrow>
          if raw = ''null'' then preview_follow_on md a
          else
            (case parseSerializedOrigin pf raw of
               None \<Rightarrow> False
             | Some o' \<Rightarrow> ad_normalizedOrigin a = Some (po_serialized o') \<and> speaks_for policy host (po_serialized o')))"

definition site_vouched :: "metadata \<Rightarrow> admission \<Rightarrow> bool" where
  "site_vouched md a \<longleftrightarrow>
     fetch_site md = None \<or> fetch_site md = Some ''same-origin'' \<or> preview_follow_on md a \<or>
     ((ad_context a = Ui_document \<or> ad_context a = Preview_document) \<and> ad_normalizedOrigin a = None \<and>
      normalizeMethod (md_method md) \<in> set SAFE_METHODS)"

lemma read_origin_Inr:
  "read_origin pf h = Inr origin \<longleftrightarrow>
     (h = Missing \<and> origin = None) \<or> (h = Value ''null'' \<and> origin = None) \<or>
     (\<exists>raw o'. h = Value raw \<and> raw \<noteq> ''null'' \<and> parseSerializedOrigin pf raw = Some o' \<and> origin = Some o')"
  by (auto simp: read_origin_def split: raw_header.splits option.splits)

lemma follow_on_facts:
  assumes "isOpaquePreviewFollowOn md ctx fetch opaque"
    and "allow policy ctx host origins origin tls None = Allowed a"
  shows "preview_follow_on md a" and "opaque \<or> readRawHeader (md_rawHeaders md) ''origin'' = Missing"
  using assms by (auto simp: isOpaquePreviewFollowOn_def preview_follow_on_def allow_Allowed split: option.splits)

lemma origin_vouched_parsed:
  assumes "read_origin pf (readRawHeader (md_rawHeaders md) ''origin'') = Inr origin"
    and "readRawHeader (md_rawHeaders md) ''origin'' \<noteq> Value ''null''"
    and "classifyOrigin policy (filter (hostMatchesOrigin host) (pl_origins policy)) origin \<noteq> Mismatch"
    and "ad_normalizedOrigin a = map_option po_serialized origin"
  shows "origin_vouched pf policy md host a"
  using assms by (auto simp: read_origin_Inr origin_vouched_def classified_speaks_for)

lemma admission_of_host:
  assumes adm: "admit_in_context pf policy md host (filter (hostMatchesOrigin host) (pl_origins policy))
       (readRawHeader (md_rawHeaders md) ''origin'' = Value ''null'') origin fetch = Allowed a"
    and ori: "read_origin pf (readRawHeader (md_rawHeaders md) ''origin'') = Inr origin"
    and fetch: "read_fetch md origin = Inr fetch"
  shows "ad_normalizedHost a = ph_serialized host \<and> origin_vouched pf policy md host a \<and> site_vouched md a"
  using adm
proof (cases rule: admit_in_context_Allowed)
  case (preflight m h p ctx)
  from preflight(2) show ?thesis
  proof (cases rule: admitPreflight_Allowed)
    case (1 o' raw ps)
    have a: "ad_normalizedHost a = ph_serialized host" "ad_normalizedOrigin a = map_option po_serialized origin"
      using 1(9) by (auto simp: allow_Allowed 1(1))
    have "origin_vouched pf policy md host a"
      using ori 1(1) by (intro origin_vouched_parsed [OF ori _ 1(5) a(2)]) (auto simp: read_origin_Inr)
    moreover have "site_vouched md a"
      using 1(6) by (cases fetch) (auto simp: site_vouched_def read_fetch_site [OF fetch])
    ultimately show ?thesis using a by blast
  qed
next
  case (follow_on ctx)
  note f = follow_on_facts [OF follow_on]
  have "origin_vouched pf policy md host a"
    using f follow_on(2) by (auto simp: origin_vouched_def allow_Allowed split: if_splits)
  then show ?thesis using f follow_on(2) by (auto simp: site_vouched_def allow_Allowed)
next
  case (plain ctx)
  note f = admit_plain_Allowed [OF plain(3)]
  have a: "ad_normalizedHost a = ph_serialized host" "ad_normalizedOrigin a = map_option po_serialized origin"
    "ad_context a = ctx"
    using f(2) by (auto simp: allow_Allowed origin_of_def split: option.splits)
  have "origin_vouched pf policy md host a"
    using plain(1) by (intro origin_vouched_parsed [OF ori _ f(1) a(2)])
  moreover have "site_vouched md a"
  proof (cases fetch)
    case (Some g)
    with f(3) [of g] a show ?thesis
      by (auto simp: site_vouched_def read_fetch_site [OF fetch] dest: safe_navigation_context)
  qed (simp add: site_vouched_def read_fetch_site [OF fetch])
  ultimately show ?thesis using a by blast
qed

text \<open>
  C6: whatever is admitted names a trusted host and comes from where it may: the request has exactly one
  \<open>Host\<close>, which matches a compiled origin; its \<open>Origin\<close> is absent, or parses to an origin that is that
  host's own or is paired with it, or is \<open>null\<close> on a safe follow-on of a preview with the preview
  cookie; and if the fetch metadata name another site than \<open>same-origin\<close>, the request is a GET or HEAD
  that navigates to a document or follows on from a preview. So no other site can reach the API or open
  a web socket from a browser.
\<close>

theorem admitted_request_vouched:
  assumes "admitRequest pf policy md = Allowed a"
  shows "\<exists>rawHost host. readRawHeader (md_rawHeaders md) ''host'' = Value rawHost \<and> parseRequestHost pf rawHost = Some host \<and>
    list_ex (hostMatchesOrigin host) (pl_origins policy) \<and> ad_normalizedHost a = ph_serialized host \<and>
    origin_vouched pf policy md host a \<and> site_vouched md a"
  using assms
proof (cases rule: admitRequest_Allowed)
  case (1 rawHost host origin fetch)
  show ?thesis using admission_of_host [OF 1(6,4,5)] 1(1-3) by blast
qed

text \<open>
  C18: what CORS grants: an admitted request that gets CORS headers gets them for its own parsed origin,
  which speaks for the host, with \<open>Vary: Origin\<close> and without credentials, and never when it asked for
  the private network. Methods and headers are granted to a preflight only, the method from the
  configured list, each header from the configured ones or one of two names that every JavaScript
  object inherits.
\<close>

theorem cors_grants_exact:
  assumes "admitRequest pf policy md = Allowed a" and "ad_cors a = Some c"
  shows "\<not> cp_allowCredentials c \<and> cp_varyOrigin c \<and> ad_normalizedOrigin a = Some (cp_allowOrigin c) \<and>
    header_value (readRawHeader (md_rawHeaders md) ''access-control-request-private-network'') = None \<and>
    (\<exists>rawHost host. readRawHeader (md_rawHeaders md) ''host'' = Value rawHost \<and> parseRequestHost pf rawHost = Some host \<and>
       speaks_for policy host (cp_allowOrigin c)) \<and>
    (cp_allowMethod c = None \<and> cp_allowHeaders c = None \<or>
     ad_context a = Preflight \<and> normalizeMethod (md_method md) = ''OPTIONS'' \<and>
     (\<exists>m ps. cp_allowMethod c = Some m \<and> m \<in> set (pl_corsMethods policy) \<and>
        cp_allowHeaders c = Some ps \<and> list_all (projection_of (pl_corsHeaders policy)) ps))"
  using assms(1)
proof (cases rule: admitRequest_Allowed)
  case host: (1 rawHost host origin fetch)
  from host(6) show ?thesis
  proof (cases rule: admit_in_context_Allowed)
    case (preflight m h p ctx)
    from preflight(2) show ?thesis
    proof (cases rule: admitPreflight_Allowed)
      case (1 o' raw ps)
      have "speaks_for policy host (po_serialized o')" using 1(1,5) by (simp add: classified_speaks_for)
      then show ?thesis
        using 1(3,4,7,8,9) preflight(1) assms(2) host(1,2) by (auto simp: allow_Allowed simpleCors_def)
    qed
  next
    case (follow_on ctx)
    then show ?thesis using assms(2) by (simp add: allow_Allowed)
  next
    case (plain ctx)
    note f = admit_plain_Allowed [OF plain(3)]
    obtain o' where o': "origin = Some o'" using f(2) assms(2) by (auto simp: allow_Allowed)
    have "speaks_for policy host (po_serialized o')" using f(1) o' by (simp add: classified_speaks_for)
    then show ?thesis
      using f(2) o' plain(2) assms(2) host(1,2) by (auto simp: allow_Allowed simpleCors_def origin_of_def)
  qed
qed

end
