(* ===== verification/Admission_Policy.thy ===== *)
theory Admission_Policy
  imports Admission_Checks
begin

text \<open>
  The compiled policy: what its origins look like, when it counts as local, and what follows for the
  credential-free local access.
\<close>

section \<open>Names and their texts\<close>

text \<open>A parsed name is not empty, and only an IPv6 address, which has a colon, may have brackets.\<close>

definition name_shape :: "string \<Rightarrow> bool" where
  "name_shape h \<longleftrightarrow> h \<noteq> [] \<and> (CHR '':'' \<in> set h \<or> CHR ''['' \<notin> set h)"

lemma no_digit [simp]: "\<not> is_digit (CHR '':'')" "\<not> is_digit (CHR ''['')" "\<not> is_digit (CHR '']'')"
  by (simp_all add: is_digit_def)

lemma not_in_decimal [simp]: "\<not> is_digit c \<Longrightarrow> c \<notin> set (decimal n)"
  using decimal_digits [of n] by (auto simp: list_all_iff)

lemma decimal_not_Nil [simp]: "decimal n \<noteq> []"
  using decimal_digits by blast

lemma js_join_not_Nil: "xs \<noteq> [] \<Longrightarrow> hd xs \<noteq> [] \<Longrightarrow> js_join sep xs \<noteq> []"
  by (cases "(sep, xs)" rule: js_join.cases) auto

lemma parseIpv4_shape: "parseIpv4 raw = Some h \<Longrightarrow> name_shape h"
proof -
  assume "parseIpv4 raw = Some h"
  then obtain parts where "length parts = 4" and h: "h = js_join ''.'' (map (\<lambda>p. decimal (decimal_value 0 p)) parts)"
    by (auto simp: parseIpv4_def Let_def split: if_splits)
  then have "parts \<noteq> []" by auto
  then have "h \<noteq> []" unfolding h by (intro js_join_not_Nil) (auto simp: hd_map)
  moreover have "CHR ''['' \<notin> set h"
    using set_js_join [of "''.''" "map (\<lambda>p. decimal (decimal_value 0 p)) parts"] by (auto simp: h)
  ultimately show ?thesis by (simp add: name_shape_def)
qed

lemma parseIpv6_shape: "parseIpv6 pf raw = Some h \<Longrightarrow> name_shape h"
  by (auto simp: parseIpv6_def Let_def name_shape_def split: if_splits option.splits)

lemma good_labels_shape:
  assumes "v \<noteq> []" and "\<not> list_ex (\<lambda>label. \<not> good_label label) (split_char (CHR ''.'') v)"
  shows "name_shape v"
proof -
  have "c = CHR ''.'' \<or> label_char c \<or> c = CHR ''-''" if "c \<in> set v" for c
    using split_char_pieces [OF that, of "CHR ''.''"] assms(2) by (fastforce simp: list_ex_iff good_label_def list_all_iff)
  then have "CHR ''['' \<notin> set v" by (fastforce simp: label_char_def is_digit_def less_eq_char_def)
  with assms(1) show ?thesis by (simp add: name_shape_def)
qed

lemma parseHostname_shape: "parseHostname pf raw = Some h \<Longrightarrow> name_shape h"
  by (auto simp: parseHostname_def Let_def dest: parseIpv4_shape parseIpv6_shape good_labels_shape split: if_splits)

lemma parseConfiguredHostname_shape: "parseConfiguredHostname pf raw = Some h \<Longrightarrow> name_shape h"
  by (auto simp: parseConfiguredHostname_def Let_def dest: parseHostname_shape split: if_splits)

text \<open>The text of an authority determines its name, and so does the text of an origin.\<close>

lemma authority_name:
  assumes "name_shape h" and "name_shape h'" and eq: "serializeAuthority h p = serializeAuthority h' p'"
  shows "h = h'"
proof -
  let ?tail = "\<lambda>p. case p of None \<Rightarrow> [] | Some n \<Rightarrow> '':'' @ decimal n"
  have form: "serializeAuthority x q = (if CHR '':'' \<in> set x then ''['' @ x @ '']'' else x) @ ?tail q" for x q
    by (simp add: serializeAuthority_def split: option.splits)
  have front: "takeWhile (\<lambda>c. c \<noteq> CHR '':'') (x @ ?tail q) = x" if "CHR '':'' \<notin> set x" for x q
    using that by (cases q) (auto simp: takeWhile_append)
  have rear: "dropWhile (\<lambda>c. c \<noteq> CHR '']'') (rev (x @ CHR '']'' # ?tail q)) = CHR '']'' # rev x" for x q
    by (cases q) (auto simp: dropWhile_append)
  show ?thesis
  proof (cases "CHR '':'' \<in> set h"; cases "CHR '':'' \<in> set h'")
    assume "CHR '':'' \<in> set h" "CHR '':'' \<in> set h'"
    then have "h @ CHR '']'' # ?tail p = h' @ CHR '']'' # ?tail p'" using eq by (simp add: form)
    then show ?thesis using rear [of h p] rear [of h' p'] by simp
  next
    assume "CHR '':'' \<notin> set h" "CHR '':'' \<notin> set h'"
    then show ?thesis using eq front [of h p] front [of h' p'] by (simp add: form)
  next
    assume "CHR '':'' \<in> set h" "CHR '':'' \<notin> set h'"
    then show ?thesis using eq assms(2) by (cases h') (auto simp: form name_shape_def)
  next
    assume "CHR '':'' \<notin> set h" "CHR '':'' \<in> set h'"
    then show ?thesis using eq assms(1) by (cases h) (auto simp: form name_shape_def)
  qed
qed

definition good_origin :: "parsed_origin \<Rightarrow> bool" where
  "good_origin g \<longleftrightarrow>
     g = originFromParts (po_protocol g) (po_hostname g) (po_port g) \<and> name_shape (po_hostname g) \<and>
     \<not> isWildcardListener (po_hostname g)"

lemma originFromParts_fields [simp]:
  "po_protocol (originFromParts p h n) = p" "po_hostname (originFromParts p h n) = h" "po_port (originFromParts p h n) = n"
  by (simp_all add: originFromParts_def Let_def)

lemma origin_name:
  assumes "good_origin g" and "good_origin g'" and "po_serialized g = po_serialized g'"
  shows "po_hostname g = po_hostname g'"
proof -
  define q where "q = (\<lambda>g :: parsed_origin. if po_port g = defaultPort (po_protocol g) then None else Some (po_port g))"
  have form: "po_serialized g = (if po_protocol g = Https then ''https'' else ''http'') @ ''://'' @ serializeAuthority (po_hostname g) (q g)"
    if "good_origin g" for g
    using that unfolding good_origin_def q_def
    by (metis (no_types, lifting) originFromParts_def parsed_origin.select_convs(1))
  have "serializeAuthority (po_hostname g) (q g) = serializeAuthority (po_hostname g') (q g')"
    using assms form [of g] form [of g'] by (auto split: if_splits)
  then show ?thesis using assms authority_name by (auto simp: good_origin_def)
qed

section \<open>What the compiler accepts\<close>

text \<open>
  A loop keeps an invariant \<open>I\<close>, and its result has \<open>Q\<close> exactly when the start has it and every element
  passes \<open>R\<close>.
\<close>

lemma for_each_all:
  assumes step: "\<And>x s s'. I s \<Longrightarrow> body x s = Inr s' \<Longrightarrow> I s' \<and> (Q s' \<longleftrightarrow> Q s \<and> R x)"
    and "for_each body xs s = Inr s'" and "I s"
  shows "I s' \<and> (Q s' \<longleftrightarrow> Q s \<and> list_all R xs)"
  using assms(2,3)
proof (induction xs arbitrary: s)
  case (Cons x xs)
  then obtain s1 where s1: "body x s = Inr s1" "for_each body xs s1 = Inr s'" by (auto simp: bind_res_Inr)
  with step Cons.prems(2) have "I s1" "Q s1 \<longleftrightarrow> Q s \<and> R x" by blast+
  with Cons.IH [OF s1(2)] show ?case by simp
qed simp

definition good_origins :: "parsed_origin list \<Rightarrow> bool" where
  "good_origins origins \<longleftrightarrow> list_all good_origin origins \<and> distinct (map po_serialized origins)"

definition local_origins :: "parsed_origin list \<Rightarrow> bool" where
  "local_origins origins \<longleftrightarrow> list_all (\<lambda>g. isLoopbackHostname (po_hostname g)) origins"

lemma addOrigin_good:
  assumes "good_origins origins" and "good_origin g"
  shows "good_origins (addOrigin origins g) \<and>
    (local_origins (addOrigin origins g) \<longleftrightarrow> local_origins origins \<and> isLoopbackHostname (po_hostname g))"
proof (cases "\<exists>c\<in>set origins. po_serialized c = po_serialized g")
  case True
  then obtain c where "c \<in> set origins" "po_serialized c = po_serialized g" by blast
  moreover from this have "po_hostname c = po_hostname g"
    using assms by (intro origin_name) (auto simp: good_origins_def list_all_iff)
  ultimately show ?thesis using assms(1) by (auto simp: addOrigin_def list_ex_iff local_origins_def list_all_iff)
next
  case False
  then show ?thesis using assms by (auto simp: addOrigin_def list_ex_iff good_origins_def local_origins_def list_all_iff image_iff)
qed

text \<open>Names and origins of the configuration that denote the local machine.\<close>

definition local_name :: "platform \<Rightarrow> string \<Rightarrow> bool" where
  "local_name pf raw = (case parseConfiguredHostname pf raw of None \<Rightarrow> False | Some h \<Rightarrow> isLoopbackHostname h)"

definition wildcard_name :: "platform \<Rightarrow> string \<Rightarrow> bool" where
  "wildcard_name pf raw = (case parseConfiguredHostname pf raw of None \<Rightarrow> False | Some h \<Rightarrow> isWildcardListener h)"

definition local_url :: "platform \<Rightarrow> string \<Rightarrow> bool" where
  "local_url pf raw =
     (case parseConfiguredOrigin pf raw Invalid_vite_origin of Inl _ \<Rightarrow> False | Inr g \<Rightarrow> isLoopbackHostname (po_hostname g))"

lemma good_originFromParts: "name_shape h \<Longrightarrow> \<not> isWildcardListener h \<Longrightarrow> good_origin (originFromParts p h n)"
  by (simp add: good_origin_def)

lemma parseConfiguredOrigin_Inr:
  assumes "parseConfiguredOrigin pf raw reason = Inr g"
  shows "good_origin g" and "parseConfiguredOrigin pf raw other = Inr g"
  using assms
  by (auto simp: parseConfiguredOrigin_def split: if_splits option.splits
      intro!: good_originFromParts dest: parseHostname_shape)

lemma addDirectHost_good:
  assumes "good_origins origins" and "addDirectHost pf direct port reason raw origins = Inr origins'"
  shows "good_origins origins' \<and> (local_origins origins' \<longleftrightarrow> local_origins origins \<and> (wildcard_name pf raw \<or> local_name pf raw))"
proof -
  from assms(2) obtain h where h: "parseConfiguredHostname pf raw = Some h"
    by (auto simp: addDirectHost_def split: option.splits)
  have wild: "\<not> isLoopbackHostname h" if "isWildcardListener h"
    using that by (auto simp: isWildcardListener_def isLoopbackHostname_def LOOPBACK_HOSTS_def)
  show ?thesis
  proof (cases "isWildcardListener h")
    case True
    then show ?thesis using assms by (auto simp: addDirectHost_def h wildcard_name_def)
  next
    case False
    then have "origins' = addOrigin origins (originFromParts direct h port)"
      using assms(2) by (simp add: addDirectHost_def h)
    moreover have "good_origin (originFromParts direct h port)"
      using False parseConfiguredHostname_shape [OF h] by (rule good_originFromParts [rotated])
    ultimately show ?thesis using addOrigin_good [OF assms(1)] False
      by (auto simp: h wildcard_name_def local_name_def)
  qed
qed

lemma addTlsName_good:
  assumes "good_origins origins" and "addTlsName pf port raw origins = Inr origins'"
  shows "good_origins origins' \<and> (local_origins origins' \<longleftrightarrow> local_origins origins \<and> local_name pf raw)"
proof -
  from assms(2) obtain h where h: "parseConfiguredHostname pf raw = Some h" "\<not> isWildcardListener h"
      "origins' = addOrigin origins (originFromParts Https h port)"
    by (auto simp: addTlsName_def split: option.splits if_splits)
  then have "good_origin (originFromParts Https h port)" by (intro good_originFromParts parseConfiguredHostname_shape)
  then show ?thesis using addOrigin_good [OF assms(1)] h by (auto simp: local_name_def)
qed

lemma addConfiguredOrigin_good:
  assumes "good_origins origins" and "addConfiguredOrigin pf reason raw origins = Inr origins'"
  shows "good_origins origins' \<and> (local_origins origins' \<longleftrightarrow> local_origins origins \<and> local_url pf raw)"
proof -
  from assms(2) obtain g where g: "parseConfiguredOrigin pf raw reason = Inr g" "origins' = addOrigin origins g"
    by (cases "parseConfiguredOrigin pf raw reason") (auto simp: addConfiguredOrigin_def)
  note p = parseConfiguredOrigin_Inr [OF g(1)]
  show ?thesis using addOrigin_good [OF assms(1) p(1)] by (simp add: g(2) local_url_def p(2))
qed

lemma direct_hosts_good:
  assumes "for_each (addDirectHost pf direct port reason) raws origins = Inr origins'" and "good_origins origins"
  shows "good_origins origins' \<and>
    (local_origins origins' \<longleftrightarrow> local_origins origins \<and> list_all (\<lambda>raw. wildcard_name pf raw \<or> local_name pf raw) raws)"
  by (rule for_each_all [where I = good_origins and Q = local_origins, OF addDirectHost_good assms])

lemma tls_names_good:
  assumes "for_each (addTlsName pf port) raws origins = Inr origins'" and "good_origins origins"
  shows "good_origins origins' \<and> (local_origins origins' \<longleftrightarrow> local_origins origins \<and> list_all (local_name pf) raws)"
  by (rule for_each_all [where I = good_origins and Q = local_origins, OF addTlsName_good assms])

lemma configured_origins_good:
  assumes "for_each (addConfiguredOrigin pf reason) raws origins = Inr origins'" and "good_origins origins"
  shows "good_origins origins' \<and> (local_origins origins' \<longleftrightarrow> local_origins origins \<and> list_all (local_url pf) raws)"
  by (rule for_each_all [where I = good_origins and Q = local_origins, OF addConfiguredOrigin_good assms])

section \<open>The compiled policy\<close>

text \<open>What the code relies on: the URL parser writes the address \<open>::1\<close> as it is.\<close>

definition keeps_loopback :: "platform \<Rightarrow> bool" where
  "keeps_loopback pf \<longleftrightarrow> map_option up_hostname (pf_url pf ''http://[::1]'') = Some ''[::1]''"

lemma loopback_names_kept:
  assumes "keeps_loopback pf" and "isLoopbackHostname h"
  shows "parseConfiguredHostname pf h = Some h"
proof -
  have "parseConfiguredHostname pf ''localhost'' = Some ''localhost''"
    by code_simp
  moreover have "parseConfiguredHostname pf ''127.0.0.1'' = Some ''127.0.0.1''"
    by code_simp
  moreover have "parseConfiguredHostname pf ''::1'' = parseIpv6 pf ''::1''"
    by code_simp
  moreover have "parseIpv6 pf ''::1'' = Some ''::1''"
    using assms(1) by (auto simp: keeps_loopback_def parseIpv6_def hex_char_def is_digit_def stripIpv6Brackets_def
        starts_with_def ends_with_def js_lower_def Let_def)
  ultimately show ?thesis using assms(2) by (auto simp: isLoopbackHostname_def LOOPBACK_HOSTS_def)
qed

text \<open>Everything the configuration names is local.\<close>

definition all_local :: "platform \<Rightarrow> policy_input \<Rightarrow> bool" where
  "all_local pf input \<longleftrightarrow>
     local_name pf (pi_bindHost input) \<and>
     list_all (\<lambda>raw. wildcard_name pf raw \<or> local_name pf raw) (listed (pi_trustedHosts input)) \<and>
     list_all (local_name pf) (listed (pi_tlsHostnames input)) \<and>
     list_all (local_url pf) (listed (pi_publicOrigins input)) \<and>
     (case pi_publishedOrigin input of None \<Rightarrow> True | Some raw \<Rightarrow> local_url pf raw) \<and>
     list_all (\<lambda>pair. local_url pf (fst pair) \<and> local_url pf (snd pair)) (listed (pi_viteOriginPairs input))"

lemma compile_origins_good:
  assumes pf: "keeps_loopback pf" and bind: "parseConfiguredHostname pf (pi_bindHost input) = Some bindHost"
    and origins: "compile_origins pf input port bindHost = Inr origins"
  shows "good_origins origins"
    and "isLoopbackHostname bindHost \<Longrightarrow> local_origins origins \<longleftrightarrow>
      list_all (\<lambda>raw. wildcard_name pf raw \<or> local_name pf raw) (listed (pi_trustedHosts input)) \<and>
      list_all (local_name pf) (listed (pi_tlsHostnames input)) \<and>
      list_all (local_url pf) (listed (pi_publicOrigins input)) \<and>
      (case pi_publishedOrigin input of None \<Rightarrow> True | Some raw \<Rightarrow> local_url pf raw)"
proof -
  define direct where "direct = (if pi_isTls input then Https else Http)"
  from origins obtain o1 o2 o3 o4 o5 where
    o1: "(if isWildcardListener bindHost then Inr [] else addDirectHost pf direct port Invalid_bind_host bindHost []) = Inr o1"
    and o2: "for_each (addDirectHost pf direct port Invalid_trusted_host) LOOPBACK_HOSTS o1 = Inr o2"
    and o3: "for_each (addDirectHost pf direct port Invalid_trusted_host) (listed (pi_trustedHosts input)) o2 = Inr o3"
    and o4: "for_each (addTlsName pf port) (listed (pi_tlsHostnames input)) o3 = Inr o4"
    and o5: "for_each (addConfiguredOrigin pf Invalid_public_origin) (listed (pi_publicOrigins input)) o4 = Inr o5"
    and o6: "(case pi_publishedOrigin input of None \<Rightarrow> Inr o5 | Some raw \<Rightarrow> addConfiguredOrigin pf Invalid_published_origin raw o5) =
      Inr origins"
    unfolding compile_origins_def Let_def direct_def [symmetric] bind_res_Inr by blast
  have empty: "good_origins []" "local_origins []" by (simp_all add: good_origins_def local_origins_def)
  have g1: "good_origins o1 \<and> (isLoopbackHostname bindHost \<longrightarrow> local_origins o1)"
    using o1 empty addDirectHost_good [OF empty(1), of pf direct port Invalid_bind_host bindHost o1] loopback_names_kept [OF pf]
    by (auto simp: local_name_def split: if_splits)
  have kept: "list_all (\<lambda>raw. wildcard_name pf raw \<or> local_name pf raw) LOOPBACK_HOSTS"
    using loopback_names_kept [OF pf] by (auto simp: list_all_iff local_name_def isLoopbackHostname_def)
  note g2 = direct_hosts_good [OF o2 g1 [THEN conjunct1]]
  note g3 = direct_hosts_good [OF o3 g2 [THEN conjunct1]]
  note g4 = tls_names_good [OF o4 g3 [THEN conjunct1]]
  note g5 = configured_origins_good [OF o5 g4 [THEN conjunct1]]
  have g6: "good_origins origins \<and>
      (local_origins origins \<longleftrightarrow> local_origins o5 \<and> (case pi_publishedOrigin input of None \<Rightarrow> True | Some raw \<Rightarrow> local_url pf raw))"
    using o6 g5 addConfiguredOrigin_good [OF g5 [THEN conjunct1]] by (auto split: option.splits)
  show "good_origins origins" using g6 by blast
  show "isLoopbackHostname bindHost \<Longrightarrow> local_origins origins \<longleftrightarrow>
      list_all (\<lambda>raw. wildcard_name pf raw \<or> local_name pf raw) (listed (pi_trustedHosts input)) \<and>
      list_all (local_name pf) (listed (pi_tlsHostnames input)) \<and>
      list_all (local_url pf) (listed (pi_publicOrigins input)) \<and>
      (case pi_publishedOrigin input of None \<Rightarrow> True | Some raw \<Rightarrow> local_url pf raw)"
    using g1 g2 g3 g4 g5 g6 kept by blast
qed

definition trusted_gateways :: "parsed_origin list \<Rightarrow> (parsed_origin \<times> parsed_origin) list \<Rightarrow> bool" where
  "trusted_gateways origins pairs \<longleftrightarrow>
     list_all (\<lambda>(b, g). good_origin b \<and> good_origin g \<and> serialized_in g origins) pairs"

definition local_pairs :: "(parsed_origin \<times> parsed_origin) list \<Rightarrow> bool" where
  "local_pairs pairs \<longleftrightarrow>
     list_all (\<lambda>(b, g). isLoopbackHostname (po_hostname b) \<and> isLoopbackHostname (po_hostname g)) pairs"

lemma addVitePair_good:
  assumes good: "trusted_gateways origins pairs" and add: "addVitePair pf origins pair pairs = Inr pairs'"
  shows "trusted_gateways origins pairs' \<and>
    (local_pairs pairs' \<longleftrightarrow> local_pairs pairs \<and> local_url pf (fst pair) \<and> local_url pf (snd pair))"
proof -
  from add obtain b g where b: "parseConfiguredOrigin pf (fst pair) Invalid_vite_origin = Inr b"
      and g: "parseConfiguredOrigin pf (snd pair) Invalid_vite_origin = Inr g"
      and trusted: "serialized_in g origins"
      and pairs': "pairs' = (if list_ex (\<lambda>(b', g'). po_serialized b' = po_serialized b \<and> po_serialized g' = po_serialized g) pairs
        then pairs else pairs @ [(b, g)])"
    by (auto simp: addVitePair_def bind_res_Inr serialized_in_def split: if_splits)
  note gb = parseConfiguredOrigin_Inr(1) [OF b] and gg = parseConfiguredOrigin_Inr(1) [OF g]
  show ?thesis
  proof (cases "list_ex (\<lambda>(b', g'). po_serialized b' = po_serialized b \<and> po_serialized g' = po_serialized g) pairs")
    case True
    then obtain b' g' where known: "(b', g') \<in> set pairs" "po_serialized b' = po_serialized b" "po_serialized g' = po_serialized g"
      by (auto simp: list_ex_iff)
    then have "po_hostname b' = po_hostname b" "po_hostname g' = po_hostname g"
      using good gb gg by (auto simp: trusted_gateways_def list_all_iff intro!: origin_name)
    then have "local_pairs pairs \<Longrightarrow> local_url pf (fst pair) \<and> local_url pf (snd pair)"
      using known(1) by (auto simp: local_pairs_def list_all_iff local_url_def b g)
    then show ?thesis using True good pairs' by auto
  next
    case False
    then have "pairs' = pairs @ [(b, g)]" unfolding pairs' by simp
    then show ?thesis using good gb gg trusted
      by (auto simp: trusted_gateways_def local_pairs_def local_url_def b g)
  qed
qed

lemma compiled:
  assumes "compileRequestAdmissionPolicy pf input = Inr policy"
  obtains port bindHost where "parseConfiguredHostname pf (pi_bindHost input) = Some bindHost"
    "compile_origins pf input port bindHost = Inr (pl_origins policy)"
    "for_each (addVitePair pf (pl_origins policy)) (listed (pi_viteOriginPairs input)) [] = Inr (pl_vitePairs policy)"
    "pl_allAuthoritiesLoopback policy \<longleftrightarrow>
       isLoopbackHostname bindHost \<and> local_origins (pl_origins policy) \<and> local_pairs (pl_vitePairs policy)"
    "pl_trustedOrigins policy = map po_serialized (pl_origins policy)"
  using assms
  by (auto simp: compileRequestAdmissionPolicy_def bind_res_Inr local_origins_def local_pairs_def split: option.splits)

lemma compiled_pairs:
  assumes "for_each (addVitePair pf origins) raws [] = Inr pairs"
  shows "trusted_gateways origins pairs \<and>
    (local_pairs pairs \<longleftrightarrow> list_all (\<lambda>pair. local_url pf (fst pair) \<and> local_url pf (snd pair)) raws)"
  using for_each_all [where I = "trusted_gateways origins" and Q = local_pairs, OF addVitePair_good assms]
  by (simp add: trusted_gateways_def local_pairs_def)

lemma local_policy_all_local:
  assumes "keeps_loopback pf" and "compileRequestAdmissionPolicy pf input = Inr policy"
  shows "pl_allAuthoritiesLoopback policy \<longleftrightarrow> all_local pf input"
  using assms(2)
proof (cases rule: compiled)
  case (1 port bindHost)
  note o' = compile_origins_good [OF assms(1) 1(1,2)]
  note p = compiled_pairs [OF 1(3)]
  have "local_name pf (pi_bindHost input) \<longleftrightarrow> isLoopbackHostname bindHost" by (simp add: local_name_def 1(1))
  with o'(2) p 1(4) show ?thesis unfolding all_local_def by blast
qed

text \<open>
  C17: the policy is local exactly when the configuration is: for a URL parser that keeps \<open>[::1]\<close>, the
  flag that enables the credential-free local access is set exactly when the listener, every trusted
  host that is not a wildcard, every certificate name, every public and published origin and both sides
  of every Vite pair are loopback names, although the compiler drops origins whose text it has seen.
\<close>

theorem local_policy_exact:
  assumes "keeps_loopback pf" and "compileRequestAdmissionPolicy pf input = Inr policy"
  shows "pl_allAuthoritiesLoopback policy \<longleftrightarrow> all_local pf input"
  using assms by (rule local_policy_all_local)

section \<open>What an admission carries\<close>

lemma admitted_fields:
  assumes "admitRequest pf policy md = Allowed a"
  shows "ad_trustedLocal a = pl_allAuthoritiesLoopback policy"
    and "\<exists>rawHost host origin. readRawHeader (md_rawHeaders md) ''host'' = Value rawHost \<and> parseRequestHost pf rawHost = Some host \<and>
      ad_gatewayOrigin a =
        truthy (selectGatewayOrigin policy (filter (hostMatchesOrigin host) (pl_origins policy)) origin (md_isTls md))"
proof -
  have "ad_trustedLocal a = pl_allAuthoritiesLoopback policy \<and>
      (\<exists>rawHost host origin. readRawHeader (md_rawHeaders md) ''host'' = Value rawHost \<and> parseRequestHost pf rawHost = Some host \<and>
      ad_gatewayOrigin a =
        truthy (selectGatewayOrigin policy (filter (hostMatchesOrigin host) (pl_origins policy)) origin (md_isTls md)))"
    using assms
  proof (cases rule: admitRequest_Allowed)
    case host: (1 rawHost host origin fetch)
    from host(6) show ?thesis
    proof (cases rule: admit_in_context_Allowed)
      case (preflight m h p ctx)
      from preflight(2) show ?thesis
        by (cases rule: admitPreflight_Allowed) (auto simp: host(1,2) allow_Allowed)
    next
      case (follow_on ctx)
      then show ?thesis by (auto simp: host(1,2) allow_Allowed)
    next
      case (plain ctx)
      from admit_plain_Allowed(2) [OF plain(3)] show ?thesis by (auto simp: host(1,2) allow_Allowed)
    qed
  qed
  then show "ad_trustedLocal a = pl_allAuthoritiesLoopback policy"
    and "\<exists>rawHost host origin. readRawHeader (md_rawHeaders md) ''host'' = Value rawHost \<and> parseRequestHost pf rawHost = Some host \<and>
      ad_gatewayOrigin a =
        truthy (selectGatewayOrigin policy (filter (hostMatchesOrigin host) (pl_origins policy)) origin (md_isTls md))"
    by blast+
qed

lemma uniqueValue_Some: "uniqueValue vs = Some v \<Longrightarrow> v \<in> set vs"
proof -
  assume "uniqueValue vs = Some v"
  then have "remdups vs = [v]" by (auto simp: uniqueValue_def split: list.splits)
  then show ?thesis by (metis list.set_intros(1) set_remdups)
qed

lemma serialized_in_matching: "serialized_in g (filter P origins) \<Longrightarrow> po_serialized g \<in> po_serialized ` set origins"
  by (auto simp: serialized_in_def list_ex_iff) (metis imageI)

lemma selectGatewayOrigin_trusted:
  assumes "selectGatewayOrigin policy (filter P origins) browser tls = Some g"
  shows "g \<in> po_serialized ` set origins"
proof (cases browser)
  case None
  then show ?thesis using assms
    by (auto simp: selectGatewayOrigin_def Let_def truthy_def split: option.splits if_splits dest!: uniqueValue_Some)
next
  case (Some b)
  show ?thesis
  proof (cases "serialized_in b (filter P origins)")
    case True
    then show ?thesis using assms serialized_in_matching by (auto simp: selectGatewayOrigin_def Some)
  next
    case False
    with assms have "uniqueValue (map (\<lambda>(_, gateway). po_serialized gateway)
        (filter (\<lambda>(browser, gateway). po_serialized browser = po_serialized b \<and> serialized_in gateway (filter P origins))
          (pl_vitePairs policy))) = Some g"
      by (simp add: selectGatewayOrigin_def Some)
    then obtain g' where "serialized_in g' (filter P origins)" "g = po_serialized g'"
      by (auto dest!: uniqueValue_Some)
    then show ?thesis by (simp add: serialized_in_matching)
  qed
qed

text \<open>
  C23: a compiled policy is closed: no wildcard address is an authority of it, no two of its origins share
  a text, every Vite pair leads to one of them, and the gateway origin of an admitted request, which is
  what the server puts into links, is one of them as well, never a text the request made up.
\<close>

theorem compiled_policy_closed:
  assumes "keeps_loopback pf" and "compileRequestAdmissionPolicy pf input = Inr policy"
    and "admitRequest pf policy md = Allowed a"
  shows "list_all (\<lambda>g. \<not> isWildcardListener (po_hostname g)) (pl_origins policy) \<and>
    distinct (pl_trustedOrigins policy) \<and>
    list_all (\<lambda>(b, g). serialized_in g (pl_origins policy) \<and> \<not> isWildcardListener (po_hostname b)) (pl_vitePairs policy) \<and>
    (case ad_gatewayOrigin a of None \<Rightarrow> True | Some g \<Rightarrow> g \<in> set (pl_trustedOrigins policy))"
  using assms(2)
proof (cases rule: compiled)
  case (1 port bindHost)
  note good = compile_origins_good(1) [OF assms(1) 1(1,2)]
  note pairs = compiled_pairs [OF 1(3), THEN conjunct1]
  have "case ad_gatewayOrigin a of None \<Rightarrow> True | Some g \<Rightarrow> g \<in> set (pl_trustedOrigins policy)"
    using admitted_fields(2) [OF assms(3)] selectGatewayOrigin_trusted 1(5)
    by (fastforce simp: truthy_def split: option.splits if_splits)
  then show ?thesis
    using good pairs 1(5) by (auto simp: good_origins_def good_origin_def trusted_gateways_def list_all_iff)
qed

section \<open>Addresses of this machine\<close>

text \<open>
  What the text of an address denotes (RFC 4291, RFC 6890): four octets, or eight words of sixteen bits with
  at most one run of zeros left out and the last two words possibly written as octets. This machine is
  127.0.0.0/8, the address one of the second kind, and the first kind mapped into the second.
\<close>

definition ipv4_octets :: "string \<Rightarrow> nat list option" where
  "ipv4_octets a =
     (let parts = split_char (CHR ''.'') a in
      if length parts = 4 \<and> list_all (\<lambda>p. p \<noteq> [] \<and> list_all is_digit p \<and> decimal_value 0 p < 256) parts
      then Some (map (decimal_value 0) parts) else None)"

fun v6_split :: "string \<Rightarrow> string \<times> string option" where
  "v6_split [] = ([], None)"
| "v6_split (c # s) =
     (if c = CHR '':'' \<and> starts_with '':'' s then ([], Some (tl s)) else (case v6_split s of (l, r) \<Rightarrow> (c # l, r)))"

definition v6_word :: "string \<Rightarrow> nat list option" where
  "v6_word p =
     (case ipv4_octets p of
        Some os \<Rightarrow> Some [256 * os ! 0 + os ! 1, 256 * os ! 2 + os ! 3]
      | None \<Rightarrow> if hextet p then Some [hex_value 0 p] else None)"

definition v6_words :: "string \<Rightarrow> nat list option" where
  "v6_words s = (if s = [] then Some [] else map_option concat (those (map v6_word (split_char (CHR '':'') s))))"

definition ipv6_words :: "string \<Rightarrow> nat list option" where
  "ipv6_words a =
     (case v6_split (js_lower a) of
        (l, None) \<Rightarrow> (case v6_words l of Some ws \<Rightarrow> if length ws = 8 then Some ws else None | None \<Rightarrow> None)
      | (l, Some r) \<Rightarrow>
          (case (v6_words l, v6_words r) of
             (Some ws, Some vs) \<Rightarrow>
               if length ws + length vs < 8 then Some (ws @ replicate (8 - length ws - length vs) 0 @ vs) else None
           | _ \<Rightarrow> None))"

definition this_machine :: "string \<Rightarrow> bool" where
  "this_machine a \<longleftrightarrow>
     (case ipv4_octets a of Some os \<Rightarrow> os ! 0 = 127 | None \<Rightarrow> False) \<or>
     (case ipv6_words a of
        Some ws \<Rightarrow> ws = [0, 0, 0, 0, 0, 0, 0, 1] \<or> take 6 ws = [0, 0, 0, 0, 0, 0xFFFF] \<and> ws ! 6 div 256 = 127
      | None \<Rightarrow> False)"

text \<open>
  The documented behaviour of \<open>isIP\<close> and of the URL parser: kind 4 is four octets, and the host of a URL
  with an address of kind 6 is that address again, in brackets.
\<close>

definition reads_addresses :: "platform \<Rightarrow> bool" where
  "reads_addresses pf \<longleftrightarrow>
     (\<forall>a. pf_isIP pf a = 4 \<longrightarrow> ipv4_octets a \<noteq> None) \<and>
     (\<forall>a u. pf_isIP pf a = 6 \<longrightarrow> pf_url pf (''http://['' @ a @ '']'') = Some u \<longrightarrow>
        (\<exists>t. up_hostname u = ''['' @ t @ '']'' \<and> ipv6_words t = ipv6_words a \<and> ipv6_words a \<noteq> None))"

lemma hextet_word: "hextet p \<Longrightarrow> v6_word p = Some [hex_value 0 p]"
proof -
  assume h: "hextet p"
  then have "CHR ''.'' \<notin> set p" by (auto simp: hextet_def list_all_iff is_digit_def)
  then have "ipv4_octets p = None" by (simp add: ipv4_octets_def split_char_none)
  with h show ?thesis by (simp add: v6_word_def)
qed

lemma peer_is_this_machine:
  assumes pf: "reads_addresses pf" and peer: "isLoopbackPeerAddress pf peer"
  shows "\<exists>a. peer = Some a \<and> this_machine a"
proof -
  obtain a where a: "peer = Some a" "a \<noteq> []" using peer by (auto simp: isLoopbackPeerAddress_def split: option.splits if_splits)
  consider "pf_isIP pf a = 4" "hd (split_char (CHR ''.'') a) = ''127''"
    | u where "pf_isIP pf a = 6" "pf_url pf (''http://['' @ a @ '']'') = Some u"
    using peer a by (auto simp: isLoopbackPeerAddress_def Let_def split: if_splits option.splits)
  then show ?thesis
  proof cases
    case 1
    then obtain os where os: "ipv4_octets a = Some os" using pf by (auto simp: reads_addresses_def)
    then have "os ! 0 = decimal_value 0 (hd (split_char (CHR ''.'') a))"
      by (auto simp: ipv4_octets_def Let_def hd_conv_nth split: if_splits)
    also have "\<dots> = 127" using 1(2) by simp
    finally show ?thesis using a os by (simp add: this_machine_def)
  next
    case (2 u)
    obtain t where t: "up_hostname u = ''['' @ t @ '']''" "ipv6_words t = ipv6_words a"
      using pf 2 unfolding reads_addresses_def by blast
    let ?n = "js_lower t"
    have n: "js_lower (butlast (tl (up_hostname u))) = ?n" by (simp add: t(1) butlast_append)
    consider "?n = ''::1''"
      | high low where "starts_with ''::ffff:'' ?n" "split_char (CHR '':'') (drop 7 ?n) = [high, low]" "hextet high" "hextet low"
          "hex_value 0 high div 256 = 127"
      using peer a 2 n
      by (auto simp: isLoopbackPeerAddress_def Let_def split: list.splits)
    then show ?thesis
    proof cases
      case 1
      have "v6_split ''::1'' = ([], Some ''1'')" "v6_words [] = Some []" "hextet ''1''" "hex_value 0 ''1'' = 1"
        by (simp_all add: starts_with_def v6_words_def hextet_def is_digit_def)
      moreover from this have "v6_words ''1'' = Some [1]" by (simp add: v6_words_def hextet_word)
      ultimately have "ipv6_words t = Some [0, 0, 0, 0, 0, 0, 0, 1]" by (simp add: ipv6_words_def 1 eval_nat_numeral)
      then show ?thesis using a t(2) by (simp add: this_machine_def)
    next
      case (2 high low)
      have "take 7 ?n = ''::ffff:''" using 2(1) by (simp add: starts_with_def eval_nat_numeral)
      then have "?n = ''::ffff:'' @ drop 7 ?n" by (metis append_take_drop_id)
      then obtain d where "?n = ''::ffff:'' @ d" and d2: "split_char (CHR '':'') d = [high, low]" using 2(2) by blast
      then have d1: "?n = CHR '':'' # CHR '':'' # ''ffff'' @ CHR '':'' # d" by (simp only: append_Cons append_Nil)
      let ?r = "''ffff'' @ CHR '':'' # d"
      have "v6_split (CHR '':'' # CHR '':'' # r) = ([], Some r)" for r by (simp add: starts_with_def)
      then have split: "v6_split ?n = ([], Some ?r)" by (simp only: d1)
      have "CHR '':'' \<notin> set ''ffff''" by simp
      then have "split_char (CHR '':'') ?r = ''ffff'' # split_char (CHR '':'') d" by (rule split_char_append)
      then have "split_char (CHR '':'') ?r = [''ffff'', high, low]" by (simp only: d2)
      moreover have "hextet ''ffff''" "hex_value 0 ''ffff'' = 0xFFFF" by (simp_all add: hextet_def is_digit_def)
      then have "v6_word ''ffff'' = Some [0xFFFF]" by (simp only: hextet_word)
      moreover have "?r \<noteq> []" by simp
      ultimately have words: "v6_words ?r = Some [0xFFFF, hex_value 0 high, hex_value 0 low]"
        using hextet_word [OF 2(3)] hextet_word [OF 2(4)] by (simp add: v6_words_def del: append_Cons)
      have none: "v6_words [] = Some []" by (simp add: v6_words_def)
      have "ipv6_words t = Some ([] @ replicate (8 - length ([] :: nat list) - length [0xFFFF, hex_value 0 high, hex_value 0 low]) 0 @
          [0xFFFF, hex_value 0 high, hex_value 0 low])"
        unfolding ipv6_words_def split words none prod.case option.case by simp
      moreover have "replicate 5 (0 :: nat) = [0, 0, 0, 0, 0]" by (simp add: eval_nat_numeral)
      ultimately have "ipv6_words t = Some [0, 0, 0, 0, 0, 0xFFFF, hex_value 0 high, hex_value 0 low]" by simp
      then show ?thesis using a t(2) 2(5) by (simp add: this_machine_def)
    qed
  qed
qed

text \<open>
  C22: the local bypass is local: a request that is let in without credentials comes from an address of
  this machine (127.0.0.0/8, ::1, or the former mapped into IPv6), names a loopback host, and the gateway
  serves nothing but loopback names.
\<close>

theorem local_bypass_is_local:
  assumes "keeps_loopback pf" and "reads_addresses pf" and "compileRequestAdmissionPolicy pf input = Inr policy"
    and "admitRequest pf policy md = Allowed a" and "isTrustedLocalRequest pf a peer"
  shows "(\<exists>address. peer = Some address \<and> this_machine address) \<and> all_local pf input \<and>
    (\<exists>rawHost host. readRawHeader (md_rawHeaders md) ''host'' = Value rawHost \<and> parseRequestHost pf rawHost = Some host \<and>
       isLoopbackHostname (ph_hostname host))"
proof -
  have l: "pl_allAuthoritiesLoopback policy"
    using assms(5) admitted_fields(1) [OF assms(4)] by (simp add: isTrustedLocalRequest_def)
  have "all_local pf input"
    using l by (simp add: local_policy_all_local [OF assms(1,3)])
  moreover from l assms(3) have "local_origins (pl_origins policy)" by (auto elim: compiled)
  then have "\<exists>rawHost host. readRawHeader (md_rawHeaders md) ''host'' = Value rawHost \<and> parseRequestHost pf rawHost = Some host \<and>
       isLoopbackHostname (ph_hostname host)"
    using admitRequest_Allowed [OF assms(4)]
    by (fastforce simp: local_origins_def list_all_iff list_ex_iff hostMatchesOrigin_def)
  moreover have "\<exists>address. peer = Some address \<and> this_machine address"
    using peer_is_this_machine [OF assms(2)] assms(5) by (simp add: isTrustedLocalRequest_def)
  ultimately show ?thesis by blast
qed

section \<open>A gateway on port 80 of this machine\<close>

definition demo_url :: "string \<Rightarrow> string \<Rightarrow> url_parts" where
  "demo_url host port = \<lparr>up_protocol = ''http:'', up_username = [], up_password = [], up_hostname = host, up_port = port,
     up_pathname = ''/'', up_search = [], up_hash = []\<rparr>"

definition demo_platform :: platform where
  "demo_platform = \<lparr>pf_url = map_of [(''http://[::1]'', demo_url ''[::1]'' []),
       (''http://localhost'', demo_url ''localhost'' [])],
     pf_resolve = (\<lambda>v base. Some ((demo_url ''request-admission.invalid'' [])\<lparr>up_pathname := v\<rparr>)),
     pf_isIP = (\<lambda>a. if a = ''127.0.0.1'' then 4 else if a = ''::1'' then 6 else 0)\<rparr>"

definition demo_input :: policy_input where
  "demo_input = \<lparr>pi_bindHost = ''localhost'', pi_actualPort = Fin 80, pi_isTls = False, pi_basePath = None,
     pi_trustedHosts = None, pi_tlsHostnames = None, pi_publicOrigins = Some [''http://localhost''],
     pi_publishedOrigin = None, pi_viteOriginPairs = None, pi_allowedMethods = None, pi_allowedHeaders = None,
     pi_maxAgeSeconds = None\<rparr>"

definition demo_policy :: policy where
  "demo_policy =
     (let origins = map (\<lambda>h. originFromParts Http h 80) LOOPBACK_HOSTS in
      \<lparr>pl_basePath = [], pl_trustedOrigins = map po_serialized origins, pl_viteOriginPairs = [],
       pl_allAuthoritiesLoopback = True, pl_origins = origins, pl_vitePairs = [],
       pl_corsMethods = API_CORS_ALLOWED_METHODS, pl_corsHeaders = map (\<lambda>h. (js_lower h, h)) API_CORS_ALLOWED_HEADERS,
       pl_corsMaxAgeSeconds = 600\<rparr>)"

definition demo_request :: "string \<Rightarrow> string list \<Rightarrow> metadata" where
  "demo_request method extra = \<lparr>md_rawHeaders = [''Host'', ''localhost'', ''Origin'', ''http://localhost''] @ extra,
     md_method = Some method, md_url = Some ''/api/goals'', md_isTls = False, md_websocket = False\<rparr>"

definition demo_preflight :: metadata where
  "demo_preflight = demo_request ''OPTIONS''
     [''Access-Control-Request-Method'', ''PUT'', ''Access-Control-Request-Headers'', ''constructor'']"

definition demo_admission :: "metadata \<Rightarrow> admission" where
  "demo_admission md = (case admitRequest demo_platform demo_policy md of Allowed a \<Rightarrow> a)"

lemma demo_keeps: "keeps_loopback demo_platform"
  by code_simp

lemma demo_compiled: "compileRequestAdmissionPolicy demo_platform demo_input = Inr demo_policy"
  by code_simp

definition is_allowed :: "decision \<Rightarrow> bool" where
  "is_allowed d = (case d of Allowed _ \<Rightarrow> True | _ \<Rightarrow> False)"

lemma demo_admitted:
  assumes "is_allowed (admitRequest demo_platform demo_policy md)"
  shows "admitRequest demo_platform demo_policy md = Allowed (demo_admission md)"
  using assms by (auto simp: is_allowed_def demo_admission_def split: decision.splits)

lemma demo_get_allowed: "is_allowed (admitRequest demo_platform demo_policy (demo_request ''GET'' []))"
  by code_simp

lemma demo_preflight_allowed: "is_allowed (admitRequest demo_platform demo_policy demo_preflight)"
  by code_simp

lemma admitted_request_vouched_witness:
  "origin_vouched demo_platform demo_policy (demo_request ''GET'' [])
     \<lparr>ph_hostname = ''localhost'', ph_explicitPort = None, ph_serialized = ''localhost''\<rparr>
     (demo_admission (demo_request ''GET'' []))"
proof -
  have "readRawHeader (md_rawHeaders (demo_request ''GET'' [])) ''host'' = Value ''localhost''" by code_simp
  moreover have "parseRequestHost demo_platform ''localhost'' =
      Some \<lparr>ph_hostname = ''localhost'', ph_explicitPort = None, ph_serialized = ''localhost''\<rparr>" by code_simp
  ultimately show ?thesis
    using admitted_request_vouched [OF demo_admitted [OF demo_get_allowed]] by auto
qed

text \<open>The finding: a preflight for a header the policy does not list is admitted.\<close>

lemma inherited_header_admitted:
  "''constructor'' \<notin> fst ` set (pl_corsHeaders demo_policy) \<and>
   ad_cors (demo_admission demo_preflight) =
     Some \<lparr>cp_allowOrigin = ''http://localhost'', cp_varyOrigin = True, cp_allowCredentials = False,
       cp_allowMethod = Some ''PUT'', cp_allowHeaders = Some [Inherited ''constructor''],
       cp_maxAgeSeconds = Some 600\<rparr>"
  by code_simp

lemma cors_grants_exact_witness: "ad_normalizedOrigin (demo_admission demo_preflight) = Some ''http://localhost''"
  using cors_grants_exact [OF demo_admitted [OF demo_preflight_allowed] inherited_header_admitted [THEN conjunct2]] by simp

lemma local_policy_exact_witness: "pl_allAuthoritiesLoopback demo_policy"
proof -
  have "all_local demo_platform demo_input" by code_simp
  then show ?thesis using local_policy_exact [OF demo_keeps demo_compiled] by blast
qed

lemma compiled_policy_closed_witness: "distinct (pl_trustedOrigins demo_policy)"
  using compiled_policy_closed [OF demo_keeps demo_compiled demo_admitted [OF demo_get_allowed]] by blast

lemma demo_reads: "reads_addresses demo_platform"
proof -
  have "ipv4_octets ''127.0.0.1'' \<noteq> None" "ipv6_words ''::1'' = Some [0, 0, 0, 0, 0, 0, 0, 1]"
    "map_option up_hostname (pf_url demo_platform ''http://[::1]'') = Some (''['' @ ''::1'' @ '']'')"
    by code_simp+
  then show ?thesis
    by (auto simp: reads_addresses_def demo_platform_def split: if_splits)
qed

lemma local_bypass_is_local_witness: "this_machine ''127.0.0.1'' \<and> this_machine ''::1'' \<and> all_local demo_platform demo_input"
proof -
  have peers: "isTrustedLocalRequest demo_platform (demo_admission (demo_request ''GET'' [])) (Some ''127.0.0.1'')"
    "isTrustedLocalRequest demo_platform (demo_admission (demo_request ''GET'' [])) (Some ''::1'')"
    by code_simp+
  note local = local_bypass_is_local [OF demo_keeps demo_reads demo_compiled demo_admitted [OF demo_get_allowed]]
  from local [OF peers(1)] local [OF peers(2)] show ?thesis by auto
qed

end
