(* ===== verification/Cookie_Auth.thy ===== *)
theory Cookie_Auth
  imports Request_Admission
begin

text \<open>
  The signed cookies of the gateway (\<open>src/server/auth/cookie.ts\<close>): minting, verification, the cookie
  header and what is written into a response. A buffer is a string of bytes. HMAC-SHA-256 and
  \<open>decodeURIComponent\<close> are arguments; the clock gives milliseconds, random bytes are an argument.
\<close>

section \<open>Base64 with the URL alphabet\<close>

definition B64_ALPHABET :: string where
  "B64_ALPHABET = ''ABCDEFGHIJKLMNOPQRSTUVWXYZabcdefghijklmnopqrstuvwxyz0123456789-_''"

definition b64_char :: "nat \<Rightarrow> char" where
  "b64_char v = B64_ALPHABET ! v"

fun index_of :: "'a \<Rightarrow> 'a list \<Rightarrow> nat" where
  "index_of x [] = 0"
| "index_of x (y # ys) = (if x = y then 0 else Suc (index_of x ys))"

text \<open>\<open>toString("base64url")\<close> and \<open>Buffer.from(text, "base64url")\<close> on texts of the alphabet; a single last digit gives no byte.\<close>

fun b64_encode :: "string \<Rightarrow> string" where
  "b64_encode [] = []"
| "b64_encode [a] = (let n = of_char a :: nat in [b64_char (n div 4), b64_char (n mod 4 * 16)])"
| "b64_encode [a, b] =
     (let n = of_char a * 256 + of_char b :: nat in [b64_char (n div 1024), b64_char (n div 16 mod 64), b64_char (n mod 16 * 4)])"
| "b64_encode (a # b # c # rest) =
     (let n = (of_char a * 256 + of_char b) * 256 + of_char c :: nat in
      [b64_char (n div 262144), b64_char (n div 4096 mod 64), b64_char (n div 64 mod 64), b64_char (n mod 64)] @ b64_encode rest)"

fun b64_bytes :: "nat list \<Rightarrow> string" where
  "b64_bytes (u # v # w # x # rest) =
     (let n = ((u * 64 + v) * 64 + w) * 64 + x in
      [char_of (n div 65536), char_of (n div 256 mod 256), char_of (n mod 256)] @ b64_bytes rest)"
| "b64_bytes [u, v, w] = (let n = (u * 64 + v) * 64 + w in [char_of (n div 1024), char_of (n div 4 mod 256)])"
| "b64_bytes [u, v] = [char_of ((u * 64 + v) div 16)]"
| "b64_bytes _ = []"

definition b64_decode :: "string \<Rightarrow> string" where
  "b64_decode s = b64_bytes (map (\<lambda>c. index_of c B64_ALPHABET) s)"

section \<open>Data and canonical fields\<close>

definition COOKIE_NAME :: string where "COOKIE_NAME = ''bobbit_session''"
definition COOKIE_SIGNING_KEY_BYTES :: nat where "COOKIE_SIGNING_KEY_BYTES = 32"
definition COOKIE_NONCE_BYTES :: nat where "COOKIE_NONCE_BYTES = 16"
definition COOKIE_MAX_AGE_SECONDS :: nat where "COOKIE_MAX_AGE_SECONDS = 60 * 60 * 24 * 30"
definition COOKIE_FUTURE_SKEW_SECONDS :: nat where "COOKIE_FUTURE_SKEW_SECONDS = 5 * 60"
definition COOKIE_RENEWAL_WINDOW_SECONDS :: nat where "COOKIE_RENEWAL_WINDOW_SECONDS = 60 * 60 * 24 * 7"
definition PREVIEW_COOKIE_MAX_AGE_SECONDS :: nat where "PREVIEW_COOKIE_MAX_AGE_SECONDS = 60 * 60 * 24"
definition PREVIEW_COOKIE_RENEWAL_WINDOW_SECONDS :: nat where "PREVIEW_COOKIE_RENEWAL_WINDOW_SECONDS = 60 * 60"
definition COOKIE_VERSION :: string where "COOKIE_VERSION = ''v1''"
definition COOKIE_MAX_WIRE_LENGTH :: nat where "COOKIE_MAX_WIRE_LENGTH = 103"
definition PREVIEW_COOKIE_VERSION :: string where "PREVIEW_COOKIE_VERSION = ''pv1''"
definition PREVIEW_COOKIE_SIGNING_DOMAIN :: string where "PREVIEW_COOKIE_SIGNING_DOMAIN = ''bobbit-preview-resource'' @ [CHR 0x00]"
definition PREVIEW_COOKIE_MAX_WIRE_LENGTH :: nat where "PREVIEW_COOKIE_MAX_WIRE_LENGTH = 144"
definition MAX_SAFE_INTEGER :: nat where "MAX_SAFE_INTEGER = 9007199254740991"

datatype cookie_error =
  Bad_signing_key | Invalid_clock | Expiry_unsafe | Bad_random | Invalid_preview_session | Invalid_base_path

record cookie_verification =
  cv_issuedAt :: nat
  cv_expiresAt :: nat
  cv_needsRenewal :: bool

record cookie_store = cs_signingKey :: string

definition new_cookie_store :: "string \<Rightarrow> cookie_error + cookie_store" where
  "new_cookie_store signingKey =
     (if length signingKey \<noteq> COOKIE_SIGNING_KEY_BYTES then Inl Bad_signing_key else Inr \<lparr>cs_signingKey = signingKey\<rparr>)"

text \<open>\<open>UNSIGNED_DECIMAL_RE\<close>\<close>

definition unsigned_decimal :: "string \<Rightarrow> bool" where
  "unsigned_decimal raw \<longleftrightarrow> raw = ''0'' \<or> (raw \<noteq> [] \<and> hd raw \<noteq> CHR ''0'' \<and> list_all is_digit raw)"

definition canonicalUint :: "string \<Rightarrow> nat option" where
  "canonicalUint raw =
     (if \<not> unsigned_decimal raw then None
      else let parsed = decimal_value 0 raw in if parsed > MAX_SAFE_INTEGER \<or> decimal parsed \<noteq> raw then None else Some parsed)"

definition canonicalBase64Url :: "string \<Rightarrow> nat \<Rightarrow> string option" where
  "canonicalBase64Url raw expectedBytes =
     (if raw = [] \<or> \<not> list_all (\<lambda>c. c \<in> set B64_ALPHABET) raw then None
      else let decoded = b64_decode raw in
        if length decoded \<noteq> expectedBytes \<or> b64_encode decoded \<noteq> raw then None else Some decoded)"

definition unixSeconds :: "int \<Rightarrow> cookie_error + nat" where
  "unixSeconds clock =
     (let now = clock div 1000 in if now < 0 \<or> now > int MAX_SAFE_INTEGER then Inl Invalid_clock else Inr (nat now))"

definition secureRandomBytes :: "string \<Rightarrow> nat \<Rightarrow> cookie_error + string" where
  "secureRandomBytes v size' = (if length v \<noteq> size' then Inl Bad_random else Inr v)"

text \<open>\<open>PREVIEW_SESSION_ID_RE\<close>\<close>

definition canonicalPreviewSessionId :: "string \<Rightarrow> string option" where
  "canonicalPreviewSessionId sessionId =
     (let groups = split_char (CHR ''-'') sessionId in
      if map length groups = [8, 4, 4, 4, 12] \<and> list_all (list_all hex_char) groups then Some (js_lower sessionId) else None)"

section \<open>Minting and verification\<close>

type_synonym hmac = "string \<Rightarrow> string \<Rightarrow> string"

definition dotted :: "string list \<Rightarrow> string" where
  "dotted parts = js_join ''.'' parts"

text \<open>\<open>createHmac("sha256", signingKey).update(domain).update(payload)\<close>; the session cookie has no domain.\<close>

definition signed :: "hmac \<Rightarrow> cookie_store \<Rightarrow> string \<Rightarrow> string list \<Rightarrow> string" where
  "signed hmac store domain parts = hmac (cs_signingKey store) (domain @ dotted parts)"

definition mint_fields :: "nat \<Rightarrow> int \<Rightarrow> string \<Rightarrow> cookie_error + string list" where
  "mint_fields maxAge clock random =
     bind_res (unixSeconds clock) (\<lambda>issuedAt.
       let expiresAt = issuedAt + maxAge in
       if expiresAt > MAX_SAFE_INTEGER then Inl Expiry_unsafe
       else bind_res (secureRandomBytes random COOKIE_NONCE_BYTES) (\<lambda>nonce.
         Inr [decimal issuedAt, decimal expiresAt, b64_encode nonce]))"

definition mint :: "hmac \<Rightarrow> cookie_store \<Rightarrow> int \<Rightarrow> string \<Rightarrow> cookie_error + string" where
  "mint hmac store clock random =
     bind_res (mint_fields COOKIE_MAX_AGE_SECONDS clock random) (\<lambda>raws.
       let parts = COOKIE_VERSION # raws in Inr (dotted (parts @ [b64_encode (signed hmac store [] parts)])))"

definition mintPreviewResource :: "hmac \<Rightarrow> cookie_store \<Rightarrow> int \<Rightarrow> string \<Rightarrow> string \<Rightarrow> cookie_error + string" where
  "mintPreviewResource hmac store clock random sessionId =
     (case canonicalPreviewSessionId sessionId of
        None \<Rightarrow> Inl Invalid_preview_session
      | Some canonicalSessionId \<Rightarrow>
          bind_res (mint_fields PREVIEW_COOKIE_MAX_AGE_SECONDS clock random) (\<lambda>raws.
            let parts = PREVIEW_COOKIE_VERSION # canonicalSessionId # raws in
            Inr (dotted (parts @ [b64_encode (signed hmac store PREVIEW_COOKIE_SIGNING_DOMAIN parts)]))))"

definition verifyTimes :: "int \<Rightarrow> nat \<Rightarrow> nat \<Rightarrow> nat \<Rightarrow> nat \<Rightarrow> cookie_error + cookie_verification option" where
  "verifyTimes clock issuedAt expiresAt maxAgeSeconds renewalWindowSeconds =
     (if expiresAt \<le> issuedAt \<or> expiresAt - issuedAt > maxAgeSeconds then Inr None
      else bind_res (unixSeconds clock) (\<lambda>now.
        if issuedAt > now + COOKIE_FUTURE_SKEW_SECONDS \<or> now \<ge> expiresAt then Inr None
        else Inr (Some \<lparr>cv_issuedAt = issuedAt, cv_expiresAt = expiresAt,
               cv_needsRenewal = (expiresAt - now \<le> renewalWindowSeconds)\<rparr>)))"

text \<open>What both verifications do with the four last fields; \<open>head\<close> holds the fields before them.\<close>

definition verify_fields ::
    "hmac \<Rightarrow> cookie_store \<Rightarrow> int \<Rightarrow> string \<Rightarrow> string list \<Rightarrow> string list \<Rightarrow> nat \<Rightarrow> nat \<Rightarrow>
     cookie_error + cookie_verification option" where
  "verify_fields hmac store clock domain head raws maxAge renewal =
     (case raws of
        [rawIssuedAt, rawExpiresAt, rawNonce, rawSignature] \<Rightarrow>
          (case (canonicalUint rawIssuedAt, canonicalUint rawExpiresAt, canonicalBase64Url rawNonce COOKIE_NONCE_BYTES,
              canonicalBase64Url rawSignature COOKIE_SIGNING_KEY_BYTES) of
             (Some issuedAt, Some expiresAt, Some nonce, Some signature) \<Rightarrow>
               if signed hmac store domain (head @ [rawIssuedAt, rawExpiresAt, rawNonce]) \<noteq> signature then Inr None
               else verifyTimes clock issuedAt expiresAt maxAge renewal
           | _ \<Rightarrow> Inr None)
      | _ \<Rightarrow> Inr None)"

definition verify :: "hmac \<Rightarrow> cookie_store \<Rightarrow> int \<Rightarrow> string \<Rightarrow> cookie_error + cookie_verification option" where
  "verify hmac store clock v =
     (if length v > COOKIE_MAX_WIRE_LENGTH then Inr None
      else
        (case split_char (CHR ''.'') v of
           version # raws \<Rightarrow>
             if length raws \<noteq> 4 \<or> version \<noteq> COOKIE_VERSION then Inr None
             else verify_fields hmac store clock [] [version] raws COOKIE_MAX_AGE_SECONDS COOKIE_RENEWAL_WINDOW_SECONDS
         | _ \<Rightarrow> Inr None))"

definition verifyPreviewResource ::
    "hmac \<Rightarrow> cookie_store \<Rightarrow> int \<Rightarrow> string \<Rightarrow> string \<Rightarrow> cookie_error + cookie_verification option" where
  "verifyPreviewResource hmac store clock v sessionId =
     (case canonicalPreviewSessionId sessionId of
        None \<Rightarrow> Inr None
      | Some canonicalSessionId \<Rightarrow>
          if length v > PREVIEW_COOKIE_MAX_WIRE_LENGTH then Inr None
          else
            (case split_char (CHR ''.'') v of
               version # payloadSessionId # raws \<Rightarrow>
                 if length raws \<noteq> 4 \<or> version \<noteq> PREVIEW_COOKIE_VERSION \<or> payloadSessionId \<noteq> canonicalSessionId then Inr None
                 else verify_fields hmac store clock PREVIEW_COOKIE_SIGNING_DOMAIN [version, payloadSessionId] raws
                        PREVIEW_COOKIE_MAX_AGE_SECONDS PREVIEW_COOKIE_RENEWAL_WINDOW_SECONDS
             | _ \<Rightarrow> Inr None))"

section \<open>Requests and responses\<close>

text \<open>
  \<open>parseCookies\<close>: the last value of a name wins; assigning a text to \<open>__proto__\<close> of an object has no
  effect. \<open>decode\<close> is \<open>decodeURIComponent\<close>, \<open>None\<close> when it throws.
\<close>

definition parse_cookie :: "(string \<Rightarrow> string option) \<Rightarrow> string \<Rightarrow> (string \<times> string) list \<Rightarrow> (string \<times> string) list" where
  "parse_cookie decode part out =
     (if CHR ''='' \<notin> set part then out
      else
        let raw = takeWhile (\<lambda>c. c \<noteq> CHR ''='') part; name = js_trim raw; v = js_trim (drop (length raw + 1) part) in
        if name = [] \<or> name = ''__proto__'' then out
        else AList.update name (case decode v of Some d \<Rightarrow> d | None \<Rightarrow> v) out)"

definition parseCookies :: "(string \<Rightarrow> string option) \<Rightarrow> string option \<Rightarrow> (string \<times> string) list" where
  "parseCookies decode header =
     (case header of None \<Rightarrow> [] | Some h \<Rightarrow> if h = [] then [] else fold (parse_cookie decode) (split_char (CHR '';'') h) [])"

definition extractCookieValue :: "(string \<Rightarrow> string option) \<Rightarrow> string option \<Rightarrow> string option" where
  "extractCookieValue decode header = map_of (parseCookies decode header) COOKIE_NAME"

definition accepted :: "cookie_error + cookie_verification option \<Rightarrow> cookie_error + bool" where
  "accepted r = map_sum id (\<lambda>v. v \<noteq> None) r"

definition tryAuth :: "hmac \<Rightarrow> cookie_store \<Rightarrow> int \<Rightarrow> (string \<Rightarrow> string option) \<Rightarrow> string option \<Rightarrow> cookie_error + bool" where
  "tryAuth hmac store clock decode header =
     (case extractCookieValue decode header of None \<Rightarrow> Inr False | Some v \<Rightarrow> accepted (verify hmac store clock v))"

definition preview_value :: "(string \<Rightarrow> string option) \<Rightarrow> string option \<Rightarrow> string" where
  "preview_value decode header = (case map_of (parseCookies decode header) PREVIEW_COOKIE_NAME of None \<Rightarrow> [] | Some v \<Rightarrow> v)"

definition tryPreviewAuth ::
    "hmac \<Rightarrow> cookie_store \<Rightarrow> int \<Rightarrow> (string \<Rightarrow> string option) \<Rightarrow> string option \<Rightarrow> string \<Rightarrow> cookie_error + bool" where
  "tryPreviewAuth hmac store clock decode header sessionId =
     accepted (verifyPreviewResource hmac store clock (preview_value decode header) sessionId)"

text \<open>The \<open>Set-Cookie\<close> values of a response, in order; an issued cookie is appended to them.\<close>

definition appendSetCookie :: "string list \<Rightarrow> string \<Rightarrow> string list" where
  "appendSetCookie previous v = previous @ [v]"

record cookie_options =
  co_localhost :: bool
  co_basePath :: "string option"

definition session_attributes :: "cookie_options \<Rightarrow> string \<Rightarrow> string" where
  "session_attributes opts v =
     (let cookiePath = (case co_basePath opts of None \<Rightarrow> ''/'' | Some b \<Rightarrow> if b = [] then ''/'' else b @ ''/'') in
      js_join ''; ''
        ([COOKIE_NAME @ ''='' @ v, ''HttpOnly'', ''SameSite=Lax'', ''Path='' @ cookiePath, ''Max-Age='' @ decimal COOKIE_MAX_AGE_SECONDS]
         @ (if co_localhost opts then [] else [''Secure''])))"

definition issueCookie ::
    "hmac \<Rightarrow> cookie_store \<Rightarrow> int \<Rightarrow> string \<Rightarrow> cookie_options \<Rightarrow> string list \<Rightarrow> cookie_error + (string \<times> string list)" where
  "issueCookie hmac store clock random opts res =
     bind_res (mint hmac store clock random) (\<lambda>v. Inr (v, appendSetCookie res (session_attributes opts v)))"

definition issueIfMissing ::
    "hmac \<Rightarrow> cookie_store \<Rightarrow> int \<Rightarrow> string \<Rightarrow> (string \<Rightarrow> string option) \<Rightarrow> string option \<Rightarrow> cookie_options \<Rightarrow> string list \<Rightarrow>
     cookie_error + (string option \<times> string list)" where
  "issueIfMissing hmac store clock random decode header opts res =
     bind_res (case extractCookieValue decode header of None \<Rightarrow> Inr None | Some v \<Rightarrow> verify hmac store clock v) (\<lambda>verification.
       if verification \<noteq> None \<and> \<not> cv_needsRenewal (the verification) then Inr (None, res)
       else map_sum id (map_prod Some id) (issueCookie hmac store clock random opts res))"

definition canonicalCookieBasePath :: "string option \<Rightarrow> cookie_error + string" where
  "canonicalCookieBasePath raw0 =
     (case raw0 of
        None \<Rightarrow> Inr []
      | Some raw \<Rightarrow>
          if raw = [] \<or> raw = ''/'' then Inr []
          else if raw \<noteq> js_trim raw \<or> \<not> starts_with ''/'' raw \<or> ends_with (CHR ''/'') raw \<or> js_includes ''//'' raw \<or>
              CHR 0x5C \<in> set raw \<or> list_ex (\<lambda>c. control_char c \<or> c \<in> set '';?#'') raw \<or>
              list_ex (\<lambda>segment. segment = ''.'' \<or> segment = ''..'') (split_char (CHR ''/'') raw) then Inl Invalid_base_path
          else Inr raw)"

definition issuePreviewCookie ::
    "hmac \<Rightarrow> cookie_store \<Rightarrow> int \<Rightarrow> string \<Rightarrow> string \<Rightarrow> string option \<Rightarrow> string list \<Rightarrow> cookie_error + (string \<times> string list)" where
  "issuePreviewCookie hmac store clock random sessionId basePath res =
     (case canonicalPreviewSessionId sessionId of
        None \<Rightarrow> Inl Invalid_preview_session
      | Some canonicalSessionId \<Rightarrow>
          bind_res (mintPreviewResource hmac store clock random canonicalSessionId) (\<lambda>v.
          bind_res (canonicalCookieBasePath basePath) (\<lambda>base.
            Inr (v, appendSetCookie res (js_join ''; ''
              [PREVIEW_COOKIE_NAME @ ''='' @ v, ''HttpOnly'', ''Secure'', ''SameSite=None'',
               ''Path='' @ base @ ''/preview/'' @ sessionId @ ''/'', ''Max-Age='' @ decimal PREVIEW_COOKIE_MAX_AGE_SECONDS])))))"

definition issuePreviewCookieIfMissing ::
    "hmac \<Rightarrow> cookie_store \<Rightarrow> int \<Rightarrow> string \<Rightarrow> (string \<Rightarrow> string option) \<Rightarrow> string option \<Rightarrow> string \<Rightarrow> string option \<Rightarrow> string list \<Rightarrow>
     cookie_error + (string option \<times> string list)" where
  "issuePreviewCookieIfMissing hmac store clock random decode header sessionId basePath res =
     bind_res (verifyPreviewResource hmac store clock (preview_value decode header) sessionId) (\<lambda>verification.
       if verification \<noteq> None \<and> \<not> cv_needsRenewal (the verification) then Inr (None, res)
       else map_sum id (map_prod Some id) (issuePreviewCookie hmac store clock random sessionId basePath res))"

end
