(* ===== verification/Cookie_Checks.thy ===== *)
theory Cookie_Checks
  imports Cookie_Auth
begin

text \<open>
  The signed cookies: a minted cookie is accepted while it lives, an accepted text is one that was
  signed under the key with exactly the fields it shows, and the two purposes never mix.
\<close>

section \<open>Base64\<close>

lemma index_b64_char: "v < 64 \<Longrightarrow> index_of (b64_char v) B64_ALPHABET = v \<and> b64_char v \<in> set B64_ALPHABET"
proof -
  have "list_all (\<lambda>v. index_of (b64_char v) B64_ALPHABET = v \<and> b64_char v \<in> set B64_ALPHABET) [0..<64]" by code_simp
  moreover assume "v < 64"
  ultimately show ?thesis by (simp add: list_all_iff)
qed

lemma length_b64_encode: "length (b64_encode s) = (4 * length s + 2) div 3"
  by (induction s rule: b64_encode.induct) (simp_all add: Let_def)

lemma sextets:
  fixes n :: nat
  shows "((n div 262144 * 64 + n div 4096 mod 64) * 64 + n div 64 mod 64) * 64 + n mod 64 = n"
    and "(n div 1024 * 64 + n div 16 mod 64) * 64 + n mod 16 * 4 = 4 * n"
    and "n div 4 * 64 + n mod 4 * 16 = 16 * n"
proof -
  have "n div 4096 = n div 64 div 64" "n div 262144 = n div 64 div 64 div 64" "n div 1024 = n div 16 div 64"
    by (simp_all add: div_mult2_eq [symmetric])
  then show "((n div 262144 * 64 + n div 4096 mod 64) * 64 + n div 64 mod 64) * 64 + n mod 64 = n"
    and "(n div 1024 * 64 + n div 16 mod 64) * 64 + n mod 16 * 4 = 4 * n"
    using div_mult_mod_eq [of n 16] by (simp_all only: div_mult_mod_eq, linarith)
  show "n div 4 * 64 + n mod 4 * 16 = 16 * n" using div_mult_mod_eq [of n 4] by linarith
qed

lemma octets:
  fixes a b c :: nat
  assumes "b < 256" and "c < 256"
  shows "((a * 256 + b) * 256 + c) div 65536 = a" and "((a * 256 + b) * 256 + c) div 256 mod 256 = b"
    and "((a * 256 + b) * 256 + c) mod 256 = c" and "4 * (a * 256 + b) div 1024 = a" and "4 * (a * 256 + b) div 4 mod 256 = b"
proof -
  define m where "m = a * 256 + b"
  have m: "m div 256 = a" "m mod 256 = b" using assms(1) by (simp_all add: m_def)
  have n: "(m * 256 + c) div 256 = m" "(m * 256 + c) mod 256 = c" using assms(2) by simp_all
  have "(m * 256 + c) div 65536 = (m * 256 + c) div 256 div 256" by (simp add: div_mult2_eq [symmetric])
  then show "((a * 256 + b) * 256 + c) div 65536 = a" using m n by (simp add: m_def)
  show "((a * 256 + b) * 256 + c) div 256 mod 256 = b" "((a * 256 + b) * 256 + c) mod 256 = c" using m n by (simp_all add: m_def)
  have "4 * m div 1024 = m div 256" using div_mult_mult1 [of 4 m 256] by simp
  then show "4 * (a * 256 + b) div 1024 = a" using m by (simp add: m_def)
  have "4 * m div 4 = m" by simp
  then show "4 * (a * 256 + b) div 4 mod 256 = b" using m unfolding m_def by metis
qed

text \<open>One group of each size, as a number.\<close>

lemma b64_group4:
  fixes n :: nat
  assumes "n < 16777216"
  defines "g \<equiv> [b64_char (n div 262144), b64_char (n div 4096 mod 64), b64_char (n div 64 mod 64), b64_char (n mod 64)]"
  shows "b64_decode (g @ s) = [char_of (n div 65536), char_of (n div 256 mod 256), char_of (n mod 256)] @ b64_decode s"
    and "list_all (\<lambda>c. c \<in> set B64_ALPHABET) g"
proof -
  have "n div 262144 < 64" using assms(1) by (intro less_mult_imp_div_less) simp
  then show "b64_decode (g @ s) = [char_of (n div 65536), char_of (n div 256 mod 256), char_of (n mod 256)] @ b64_decode s"
    and "list_all (\<lambda>c. c \<in> set B64_ALPHABET) g"
    using sextets(1) [of n] by (simp_all add: g_def b64_decode_def index_b64_char Let_def)
qed

lemma b64_group3:
  fixes n :: nat
  assumes "n < 65536"
  defines "g \<equiv> [b64_char (n div 1024), b64_char (n div 16 mod 64), b64_char (n mod 16 * 4)]"
  shows "b64_decode g = [char_of (4 * n div 1024), char_of (4 * n div 4 mod 256)]" and "list_all (\<lambda>c. c \<in> set B64_ALPHABET) g"
proof -
  have "n mod 16 < 16" by simp
  then have "n div 1024 < 64" "n mod 16 * 4 < 64" using assms(1) by (auto intro: less_mult_imp_div_less)
  then show "b64_decode g = [char_of (4 * n div 1024), char_of (4 * n div 4 mod 256)]" "list_all (\<lambda>c. c \<in> set B64_ALPHABET) g"
    using sextets(2) [of n] by (simp_all add: g_def b64_decode_def index_b64_char Let_def)
qed

lemma b64_group2:
  fixes n :: nat
  assumes "n < 256"
  defines "g \<equiv> [b64_char (n div 4), b64_char (n mod 4 * 16)]"
  shows "b64_decode g = [char_of n]" and "list_all (\<lambda>c. c \<in> set B64_ALPHABET) g"
proof -
  have "n mod 4 < 4" by simp
  then have "n div 4 < 64" "n mod 4 * 16 < 64" using assms(1) by (auto intro: less_mult_imp_div_less)
  then show "b64_decode g = [char_of n]" "list_all (\<lambda>c. c \<in> set B64_ALPHABET) g"
    using sextets(3) [of n] by (simp_all add: g_def b64_decode_def index_b64_char Let_def)
qed

lemma group_bounds:
  fixes a b c :: nat
  assumes "a < 256" and "b < 256" and "c < 256"
  shows "a * 256 + b < 65536" and "(a * 256 + b) * 256 + c < 16777216"
proof -
  show ab: "a * 256 + b < 65536" using assms by linarith
  define m where "m = a * 256 + b"
  show "(a * 256 + b) * 256 + c < 16777216" using ab assms(3) unfolding m_def [symmetric] by linarith
qed

lemma b64_encode_both: "b64_decode (b64_encode s) = s \<and> list_all (\<lambda>c. c \<in> set B64_ALPHABET) (b64_encode s)"
proof (induction s rule: b64_encode.induct)
  case (2 a)
  then show ?case using b64_group2 [of "of_char a"] by (simp add: Let_def)
next
  case (3 a b)
  have o': "4 * (of_char a * 256 + of_char b :: nat) div 1024 = of_char a" "4 * (of_char a * 256 + of_char b :: nat) div 4 mod 256 = of_char b"
    by (rule octets(4,5) [of _ 0]; simp)+
  show ?case using b64_group3 [OF group_bounds(1) [of "of_char a" "of_char b" 0]]
    unfolding b64_encode.simps Let_def o' by simp
next
  case (4 a b c rest)
  define n where "n = (of_char a * 256 + of_char b) * 256 + (of_char c :: nat)"
  have n: "n < 16777216" unfolding n_def by (rule group_bounds(2); simp)
  have o': "n div 65536 = of_char a" "n div 256 mod 256 = of_char b" "n mod 256 = of_char c"
    unfolding n_def by (rule octets(1-3); simp)+
  have step: "b64_encode (a # b # c # rest) =
      [b64_char (n div 262144), b64_char (n div 4096 mod 64), b64_char (n div 64 mod 64), b64_char (n mod 64)] @ b64_encode rest"
    unfolding n_def by (simp only: b64_encode.simps Let_def)
  have "b64_decode (b64_encode (a # b # c # rest)) = [a, b, c] @ b64_decode (b64_encode rest)"
    unfolding step b64_group4(1) [OF n] o' char_of_char by (rule refl)
  moreover have "list_all (\<lambda>c. c \<in> set B64_ALPHABET) (b64_encode (a # b # c # rest))"
    unfolding step list_all_append using b64_group4(2) [OF n] 4 by blast
  ultimately show ?case using 4 by (simp del: b64_encode.simps)
qed (simp add: b64_decode_def)

lemma b64_decode_encode: "b64_decode (b64_encode s) = s"
  by (rule b64_encode_both [THEN conjunct1])

lemma b64_encode_alphabet: "list_all (\<lambda>c. c \<in> set B64_ALPHABET) (b64_encode s)"
  by (rule b64_encode_both [THEN conjunct2])

lemma canonicalBase64Url_Some:
  assumes "0 < k"
  shows "canonicalBase64Url raw k = Some b \<longleftrightarrow> length b = k \<and> raw = b64_encode b"
proof
  assume "canonicalBase64Url raw k = Some b"
  then show "length b = k \<and> raw = b64_encode b"
    by (simp add: canonicalBase64Url_def Let_def split: if_splits)
next
  assume r: "length b = k \<and> raw = b64_encode b"
  then have "0 < length raw" using assms by (simp add: length_b64_encode)
  then have "raw \<noteq> []" by (rule length_greater_0_conv [THEN iffD1])
  then show "canonicalBase64Url raw k = Some b"
    unfolding canonicalBase64Url_def r [THEN conjunct2] Let_def b64_decode_encode
    using b64_encode_alphabet [of b] r by simp
qed

section \<open>Canonical numbers\<close>

lemma not_in_decimal_dot: "CHR ''.'' \<notin> set (decimal n)"
  using decimal_digits [of n] by (auto simp: list_all_iff is_digit_def)

lemma decimal_head: "0 < n \<Longrightarrow> hd (decimal n) \<noteq> CHR ''0''"
proof (induction n rule: decimal.induct)
  case (1 n)
  show ?case
  proof (cases "n < 10")
    case True
    then have "of_char (hd (decimal n)) = 48 + n" using digit_char [OF True] by (simp add: decimal.simps [of n])
    then show ?thesis using 1(2) by auto
  next
    case False
    then have "0 < n div 10" by simp
    with 1(1) [OF False] decimal_digits [of "n div 10"] False show ?thesis by (simp add: decimal.simps [of n])
  qed
qed

lemma unsigned_decimal_decimal: "unsigned_decimal (decimal n)"
proof (cases "n = 0")
  case True
  then show ?thesis by (simp add: unsigned_decimal_def decimal_code digit_text_def)
next
  case False
  then show ?thesis using decimal_digits [of n] decimal_head [of n] by (simp add: unsigned_decimal_def)
qed

lemma canonicalUint_Some: "canonicalUint raw = Some n \<longleftrightarrow> raw = decimal n \<and> n \<le> MAX_SAFE_INTEGER"
  by (auto simp: canonicalUint_def Let_def decimal_value_decimal unsigned_decimal_decimal)

section \<open>The wire format\<close>

lemma split_char_parts: "list_all (\<lambda>p. d \<notin> set p) ps \<Longrightarrow> ps \<noteq> [] \<Longrightarrow> split_char d (js_join [d] ps) = ps"
  by (induction ps rule: induct_list012) (simp_all add: split_char_none split_char_append)

lemma dot_free [simp]: "CHR ''.'' \<notin> set (b64_encode s)" "CHR ''.'' \<notin> set (decimal n)"
proof -
  have "CHR ''.'' \<notin> set B64_ALPHABET" by code_simp
  then show "CHR ''.'' \<notin> set (b64_encode s)" using b64_encode_alphabet [of s] unfolding list_all_iff by metis
  show "CHR ''.'' \<notin> set (decimal n)" by (rule not_in_decimal_dot)
qed

text \<open>HMAC-SHA-256 gives 32 bytes.\<close>

definition mac_size :: "hmac \<Rightarrow> bool" where
  "mac_size hmac \<longleftrightarrow> (\<forall>key text. length (hmac key text) = 32)"

text \<open>The fields a cookie shows, and its text under the key.\<close>

definition shown :: "string list \<Rightarrow> nat \<Rightarrow> nat \<Rightarrow> string \<Rightarrow> string list" where
  "shown head issuedAt expiresAt nonce = head @ [decimal issuedAt, decimal expiresAt, b64_encode nonce]"

definition cookie_text :: "hmac \<Rightarrow> cookie_store \<Rightarrow> string \<Rightarrow> string list \<Rightarrow> nat \<Rightarrow> nat \<Rightarrow> string \<Rightarrow> string" where
  "cookie_text hmac store domain head issuedAt expiresAt nonce =
     dotted (shown head issuedAt expiresAt nonce @ [b64_encode (signed hmac store domain (shown head issuedAt expiresAt nonce))])"

text \<open>When a cookie is alive, and what its verification says.\<close>

definition alive :: "nat \<Rightarrow> nat \<Rightarrow> cookie_verification \<Rightarrow> bool" where
  "alive maxAge now v \<longleftrightarrow>
     cv_issuedAt v < cv_expiresAt v \<and> cv_expiresAt v \<le> cv_issuedAt v + maxAge \<and>
     cv_issuedAt v \<le> now + COOKIE_FUTURE_SKEW_SECONDS \<and> now < cv_expiresAt v"

lemma verifyTimes_Some:
  "verifyTimes clock i e maxAge renewal = Inr (Some v) \<longleftrightarrow>
     (\<exists>now. unixSeconds clock = Inr now \<and> alive maxAge now v \<and>
        v = \<lparr>cv_issuedAt = i, cv_expiresAt = e, cv_needsRenewal = (e - now \<le> renewal)\<rparr>)"
  by (cases v; cases "unixSeconds clock") (auto simp: verifyTimes_def alive_def)

lemma verify_fields_Some:
  assumes "mac_size hmac"
  shows "verify_fields hmac store clock domain head raws maxAge renewal = Inr (Some v) \<longleftrightarrow>
    (\<exists>nonce. length nonce = COOKIE_NONCE_BYTES \<and> cv_expiresAt v \<le> MAX_SAFE_INTEGER \<and>
       head @ raws = shown head (cv_issuedAt v) (cv_expiresAt v) nonce @
         [b64_encode (signed hmac store domain (shown head (cv_issuedAt v) (cv_expiresAt v) nonce))] \<and>
       verifyTimes clock (cv_issuedAt v) (cv_expiresAt v) maxAge renewal = Inr (Some v))"
proof
  assume "verify_fields hmac store clock domain head raws maxAge renewal = Inr (Some v)"
  then obtain i e n s iat expAt nonce sig where f: "raws = [i, e, n, s]" "canonicalUint i = Some iat" "canonicalUint e = Some expAt"
      "canonicalBase64Url n COOKIE_NONCE_BYTES = Some nonce" "canonicalBase64Url s COOKIE_SIGNING_KEY_BYTES = Some sig"
      "signed hmac store domain (head @ [i, e, n]) = sig" "verifyTimes clock iat expAt maxAge renewal = Inr (Some v)"
    by (auto simp: verify_fields_def split: list.splits option.splits if_splits)
  then have v: "cv_issuedAt v = iat" "cv_expiresAt v = expAt" by (auto simp: verifyTimes_Some)
  from f(2,3) have d: "i = decimal iat" "e = decimal expAt" "expAt \<le> MAX_SAFE_INTEGER" by (simp_all add: canonicalUint_Some)
  from f(4,5) have b: "length nonce = COOKIE_NONCE_BYTES" "n = b64_encode nonce" "s = b64_encode sig"
    by (simp_all add: canonicalBase64Url_Some COOKIE_NONCE_BYTES_def COOKIE_SIGNING_KEY_BYTES_def)
  have raws: "head @ raws = shown head iat expAt nonce @ [b64_encode (signed hmac store domain (shown head iat expAt nonce))]"
    unfolding shown_def f(1) b(3) f(6) [symmetric] d(1,2) b(2) by simp
  show "\<exists>nonce. length nonce = COOKIE_NONCE_BYTES \<and> cv_expiresAt v \<le> MAX_SAFE_INTEGER \<and>
       head @ raws = shown head (cv_issuedAt v) (cv_expiresAt v) nonce @
         [b64_encode (signed hmac store domain (shown head (cv_issuedAt v) (cv_expiresAt v) nonce))] \<and>
       verifyTimes clock (cv_issuedAt v) (cv_expiresAt v) maxAge renewal = Inr (Some v)"
    using b(1) d(3) raws f(7) unfolding v by blast
next
  assume "\<exists>nonce. length nonce = COOKIE_NONCE_BYTES \<and> cv_expiresAt v \<le> MAX_SAFE_INTEGER \<and>
       head @ raws = shown head (cv_issuedAt v) (cv_expiresAt v) nonce @
         [b64_encode (signed hmac store domain (shown head (cv_issuedAt v) (cv_expiresAt v) nonce))] \<and>
       verifyTimes clock (cv_issuedAt v) (cv_expiresAt v) maxAge renewal = Inr (Some v)"
  then obtain nonce where n: "length nonce = COOKIE_NONCE_BYTES" and e: "cv_expiresAt v \<le> MAX_SAFE_INTEGER"
      and raws: "raws = [decimal (cv_issuedAt v), decimal (cv_expiresAt v), b64_encode nonce,
        b64_encode (signed hmac store domain (shown head (cv_issuedAt v) (cv_expiresAt v) nonce))]"
      and times: "verifyTimes clock (cv_issuedAt v) (cv_expiresAt v) maxAge renewal = Inr (Some v)"
    by (auto simp: shown_def)
  from times have "cv_issuedAt v \<le> MAX_SAFE_INTEGER" using e by (auto simp: verifyTimes_Some alive_def)
  with e have u: "canonicalUint (decimal (cv_issuedAt v)) = Some (cv_issuedAt v)"
      "canonicalUint (decimal (cv_expiresAt v)) = Some (cv_expiresAt v)"
    by (simp_all add: canonicalUint_Some)
  have k: "length (signed hmac store domain parts) = COOKIE_SIGNING_KEY_BYTES" for parts
    using assms by (simp add: mac_size_def signed_def COOKIE_SIGNING_KEY_BYTES_def)
  have "canonicalBase64Url (b64_encode nonce) COOKIE_NONCE_BYTES = Some nonce"
    using n by (subst canonicalBase64Url_Some) (simp_all add: COOKIE_NONCE_BYTES_def)
  moreover have "canonicalBase64Url (b64_encode (signed hmac store domain parts)) COOKIE_SIGNING_KEY_BYTES =
      Some (signed hmac store domain parts)" for parts
    by (subst canonicalBase64Url_Some) (simp_all add: k, simp add: COOKIE_SIGNING_KEY_BYTES_def)
  ultimately show "verify_fields hmac store clock domain head raws maxAge renewal = Inr (Some v)"
    by (simp add: verify_fields_def raws u times shown_def)
qed

lemma split_cookie_text:
  assumes "list_all (\<lambda>p. CHR ''.'' \<notin> set p) head"
  shows "split_char (CHR ''.'') (cookie_text hmac store domain head i e nonce) =
    shown head i e nonce @ [b64_encode (signed hmac store domain (shown head i e nonce))]"
  unfolding cookie_text_def dotted_def using assms by (intro split_char_parts) (simp_all add: shown_def)

lemma join_split_dot: "split_char (CHR ''.'') v = parts \<Longrightarrow> v = dotted parts"
  using split_char_join [of "CHR ''.''" v] by (simp add: dotted_def)

lemma length_cookie_text:
  assumes "mac_size hmac" and "length nonce = COOKIE_NONCE_BYTES" and "e \<le> MAX_SAFE_INTEGER" and "i \<le> e" and "head \<noteq> []"
  shows "length (cookie_text hmac store domain head i e nonce) \<le> length (dotted head) + 101"
proof -
  have "length (decimal i) \<le> 16" "length (decimal e) \<le> 16"
    using assms(3,4) by (auto intro!: decimal_length simp: MAX_SAFE_INTEGER_def)
  moreover have "length (b64_encode nonce) = 22" "length (b64_encode (signed hmac store domain parts)) = 43" for parts
    using assms(1,2) by (simp_all add: length_b64_encode COOKIE_NONCE_BYTES_def signed_def mac_size_def)
  moreover have "length (js_join sep (head @ more)) = length (js_join sep head) + length sep + length (js_join sep more)"
    if "more \<noteq> []" for sep and more :: "string list"
    using assms(5) that by (induction head rule: induct_list012) (cases more; simp)+
  ultimately show ?thesis by (simp add: cookie_text_def dotted_def shown_def)
qed

section \<open>What is accepted\<close>

lemma verifyTimes_own:
  "verifyTimes clock (cv_issuedAt v) (cv_expiresAt v) maxAge renewal = Inr (Some v) \<longleftrightarrow>
     (\<exists>now. unixSeconds clock = Inr now \<and> alive maxAge now v \<and> (cv_needsRenewal v \<longleftrightarrow> cv_expiresAt v - now \<le> renewal))"
  by (cases v) (auto simp: verifyTimes_Some)

text \<open>The text is the one signed under the key, with the fields of \<open>v\<close>, and it is alive.\<close>

definition genuine ::
    "hmac \<Rightarrow> cookie_store \<Rightarrow> int \<Rightarrow> string \<Rightarrow> string list \<Rightarrow> nat \<Rightarrow> nat \<Rightarrow> string \<Rightarrow> cookie_verification \<Rightarrow> bool" where
  "genuine hmac store clock domain head maxAge renewal text v \<longleftrightarrow>
     (\<exists>nonce now. length nonce = COOKIE_NONCE_BYTES \<and> cv_expiresAt v \<le> MAX_SAFE_INTEGER \<and>
        text = cookie_text hmac store domain head (cv_issuedAt v) (cv_expiresAt v) nonce \<and>
        unixSeconds clock = Inr now \<and> alive maxAge now v \<and> (cv_needsRenewal v \<longleftrightarrow> cv_expiresAt v - now \<le> renewal))"

lemma verify_fields_genuine:
  assumes "mac_size hmac" and "list_all (\<lambda>p. CHR ''.'' \<notin> set p) head"
  shows "(\<exists>raws. split_char (CHR ''.'') text = head @ raws \<and> length raws = 4 \<and>
      verify_fields hmac store clock domain head raws maxAge renewal = Inr (Some v)) \<longleftrightarrow>
    genuine hmac store clock domain head maxAge renewal text v"
proof
  assume "\<exists>raws. split_char (CHR ''.'') text = head @ raws \<and> length raws = 4 \<and>
      verify_fields hmac store clock domain head raws maxAge renewal = Inr (Some v)"
  then obtain raws where raws: "split_char (CHR ''.'') text = head @ raws"
      "verify_fields hmac store clock domain head raws maxAge renewal = Inr (Some v)" by blast
  then show "genuine hmac store clock domain head maxAge renewal text v"
    unfolding verify_fields_Some [OF assms(1)] verifyTimes_own genuine_def cookie_text_def
    by (metis join_split_dot)
next
  assume "genuine hmac store clock domain head maxAge renewal text v"
  then obtain nonce where n: "length nonce = COOKIE_NONCE_BYTES" "cv_expiresAt v \<le> MAX_SAFE_INTEGER"
      "text = cookie_text hmac store domain head (cv_issuedAt v) (cv_expiresAt v) nonce"
      "verifyTimes clock (cv_issuedAt v) (cv_expiresAt v) maxAge renewal = Inr (Some v)"
    unfolding genuine_def verifyTimes_own by blast
  define raws where "raws = [decimal (cv_issuedAt v), decimal (cv_expiresAt v), b64_encode nonce,
      b64_encode (signed hmac store domain (shown head (cv_issuedAt v) (cv_expiresAt v) nonce))]"
  have "split_char (CHR ''.'') text = head @ raws" "length raws = 4"
    by (simp_all only: n(3) split_cookie_text [OF assms(2)]) (simp_all add: shown_def raws_def)
  moreover have "head @ raws = shown head (cv_issuedAt v) (cv_expiresAt v) nonce @
      [b64_encode (signed hmac store domain (shown head (cv_issuedAt v) (cv_expiresAt v) nonce))]"
    by (simp only: raws_def shown_def append_assoc append.simps)
  then have "verify_fields hmac store clock domain head raws maxAge renewal = Inr (Some v)"
    unfolding verify_fields_Some [OF assms(1)] using n by blast
  ultimately show "\<exists>raws. split_char (CHR ''.'') text = head @ raws \<and> length raws = 4 \<and>
      verify_fields hmac store clock domain head raws maxAge renewal = Inr (Some v)" by blast
qed

lemma genuine_length:
  assumes "mac_size hmac" and "head \<noteq> []" and "genuine hmac store clock domain head maxAge renewal text v"
  shows "length text \<le> length (dotted head) + 101"
  using assms length_cookie_text [OF assms(1)] by (auto simp: genuine_def alive_def)

lemma verify_genuine:
  assumes "mac_size hmac"
  shows "verify hmac store clock text = Inr (Some v) \<longleftrightarrow>
    genuine hmac store clock [] [COOKIE_VERSION] COOKIE_MAX_AGE_SECONDS COOKIE_RENEWAL_WINDOW_SECONDS text v"
proof -
  have dots: "list_all (\<lambda>p. CHR ''.'' \<notin> set p) [COOKIE_VERSION]" by code_simp
  have "verify hmac store clock text = Inr (Some v) \<longleftrightarrow> length text \<le> COOKIE_MAX_WIRE_LENGTH \<and>
      (\<exists>raws. split_char (CHR ''.'') text = [COOKIE_VERSION] @ raws \<and> length raws = 4 \<and>
        verify_fields hmac store clock [] [COOKIE_VERSION] raws COOKIE_MAX_AGE_SECONDS COOKIE_RENEWAL_WINDOW_SECONDS = Inr (Some v))"
    by (auto simp: verify_def split: list.splits)
  moreover have "length (dotted [COOKIE_VERSION]) + 101 = COOKIE_MAX_WIRE_LENGTH" by code_simp
  ultimately show ?thesis
    unfolding verify_fields_genuine [OF assms dots] using genuine_length [OF assms, of "[COOKIE_VERSION]"] by (metis list.simps(3))
qed

lemma preview_session_shape:
  "canonicalPreviewSessionId sid = Some c \<Longrightarrow> c = js_lower sid \<and> CHR ''.'' \<notin> set c \<and> length c = 36"
proof -
  assume "canonicalPreviewSessionId sid = Some c"
  then have c: "c = js_lower sid" and groups: "map length (split_char (CHR ''-'') sid) = [8, 4, 4, 4, 12]"
      and hex: "list_all (list_all hex_char) (split_char (CHR ''-'') sid)"
    by (auto simp: canonicalPreviewSessionId_def Let_def split: if_splits)
  from groups obtain p q r s u where five: "split_char (CHR ''-'') sid = [p, q, r, s, u]"
      and len: "length p = 8" "length q = 4" "length r = 4" "length s = 4" "length u = 12"
    by (auto simp: map_eq_Cons_conv)
  have sid: "sid = js_join ''-'' [p, q, r, s, u]" using split_char_join [of "CHR ''-''" sid] five by simp
  have "length sid = 36" unfolding sid by (simp add: len)
  moreover have "CHR ''.'' \<notin> set (js_lower sid)"
  proof
    assume "CHR ''.'' \<in> set (js_lower sid)"
    then obtain x where x: "x \<in> set sid" "lower_char x = CHR ''.''" by (auto simp: js_lower_code)
    have "hex_char x \<or> x = CHR ''-''"
      using split_char_pieces [OF x(1), of "CHR ''-''"] hex by (auto simp: list_all_iff)
    moreover have "x = CHR ''.''" using x(2) by (cases x) (auto simp: lower_char_code)
    moreover have "\<not> hex_char (CHR ''.'')" by code_simp
    ultimately show False by auto
  qed
  ultimately show ?thesis using c by (simp add: js_lower_code)
qed

lemma verify_preview_genuine:
  assumes "mac_size hmac"
  shows "verifyPreviewResource hmac store clock text sid = Inr (Some v) \<longleftrightarrow>
    canonicalPreviewSessionId sid = Some (js_lower sid) \<and>
    genuine hmac store clock PREVIEW_COOKIE_SIGNING_DOMAIN [PREVIEW_COOKIE_VERSION, js_lower sid]
      PREVIEW_COOKIE_MAX_AGE_SECONDS PREVIEW_COOKIE_RENEWAL_WINDOW_SECONDS text v"
proof (cases "canonicalPreviewSessionId sid")
  case None
  then show ?thesis by (simp add: verifyPreviewResource_def)
next
  case (Some c)
  have c: "c = js_lower sid" "CHR ''.'' \<notin> set c" "length c = 36" using preview_session_shape [OF Some] by blast+
  have dots: "list_all (\<lambda>p. CHR ''.'' \<notin> set p) [PREVIEW_COOKIE_VERSION, c]"
    using c(2) by (simp add: PREVIEW_COOKIE_VERSION_def)
  have "verifyPreviewResource hmac store clock text sid = Inr (Some v) \<longleftrightarrow> length text \<le> PREVIEW_COOKIE_MAX_WIRE_LENGTH \<and>
      (\<exists>raws. split_char (CHR ''.'') text = [PREVIEW_COOKIE_VERSION, c] @ raws \<and> length raws = 4 \<and>
        verify_fields hmac store clock PREVIEW_COOKIE_SIGNING_DOMAIN [PREVIEW_COOKIE_VERSION, c] raws
          PREVIEW_COOKIE_MAX_AGE_SECONDS PREVIEW_COOKIE_RENEWAL_WINDOW_SECONDS = Inr (Some v))"
    by (auto simp: verifyPreviewResource_def Some split: list.splits)
  moreover have "length (dotted [PREVIEW_COOKIE_VERSION, c]) + 101 \<le> PREVIEW_COOKIE_MAX_WIRE_LENGTH"
    using c(3) by (simp add: dotted_def PREVIEW_COOKIE_VERSION_def PREVIEW_COOKIE_MAX_WIRE_LENGTH_def)
  ultimately show ?thesis
    unfolding verify_fields_genuine [OF assms dots]
    using genuine_length [OF assms, of "[PREVIEW_COOKIE_VERSION, c]"] Some unfolding c(1) by (metis le_trans list.simps(3))
qed

lemma cookie_text_parts:
  "list_all (\<lambda>p. CHR ''.'' \<notin> set p) head \<Longrightarrow> cookie_text hmac store domain head i e n = cookie_text hmac' store' domain' head' i' e' n' \<Longrightarrow>
     list_all (\<lambda>p. CHR ''.'' \<notin> set p) head' \<Longrightarrow> length head = length head' \<Longrightarrow> head = head'"
  using split_cookie_text [of head hmac store domain i e n] split_cookie_text [of head' hmac' store' domain' i' e' n']
  by (simp add: shown_def)

text \<open>
  C7: a session cookie is accepted exactly when it is genuine: its text is the one that is signed under
  the key for the times it shows and some 16 random bytes, in the one canonical spelling; it lives at
  most 30 days, was not issued more than five minutes ahead of the clock and has not expired; and the
  answer says to renew it exactly in its last seven days.
\<close>

theorem session_cookie_exact:
  assumes "mac_size hmac"
  shows "verify hmac store clock text = Inr (Some v) \<longleftrightarrow>
    (\<exists>nonce now. length nonce = 16 \<and> unixSeconds clock = Inr now \<and>
       text = cookie_text hmac store [] [''v1''] (cv_issuedAt v) (cv_expiresAt v) nonce \<and>
       cv_issuedAt v < cv_expiresAt v \<and> cv_expiresAt v \<le> cv_issuedAt v + 2592000 \<and> cv_expiresAt v \<le> 2 ^ 53 - 1 \<and>
       cv_issuedAt v \<le> now + 300 \<and> now < cv_expiresAt v \<and> (cv_needsRenewal v \<longleftrightarrow> cv_expiresAt v - now \<le> 604800))"
  unfolding verify_genuine [OF assms] genuine_def alive_def COOKIE_NONCE_BYTES_def COOKIE_VERSION_def MAX_SAFE_INTEGER_def
    COOKIE_FUTURE_SKEW_SECONDS_def COOKIE_MAX_AGE_SECONDS_def COOKIE_RENEWAL_WINDOW_SECONDS_def
  by simp blast

text \<open>
  C9: a preview cookie opens one preview only: if it is accepted for a session, its text names that
  session, it is accepted for no other one, it lives at most a day, and it is never accepted as the
  cookie of a user; nor is anything signed for one purpose ever signed for the other.
\<close>

theorem preview_cookie_bound:
  assumes "mac_size hmac" and "verifyPreviewResource hmac store clock text sid = Inr (Some v)"
  shows "(\<exists>nonce. text = cookie_text hmac store PREVIEW_COOKIE_SIGNING_DOMAIN [''pv1'', js_lower sid] (cv_issuedAt v) (cv_expiresAt v) nonce) \<and>
    cv_expiresAt v \<le> cv_issuedAt v + 86400 \<and>
    (\<forall>clock' sid' v'. verifyPreviewResource hmac store clock' text sid' = Inr (Some v') \<longrightarrow> js_lower sid' = js_lower sid) \<and>
    (\<forall>clock' v'. verify hmac store clock' text \<noteq> Inr (Some v')) \<and>
    (\<forall>parts parts'. PREVIEW_COOKIE_SIGNING_DOMAIN @ dotted parts \<noteq> [] @ dotted (COOKIE_VERSION # parts'))"
proof (intro conjI allI impI)
  have free: "CHR ''.'' \<notin> set (js_lower s) \<and> canonicalPreviewSessionId s = Some (js_lower s)"
    if "verifyPreviewResource hmac store c text s = Inr (Some w)" for s c w
    using that verify_preview_genuine [OF assms(1)] preview_session_shape by blast
  have g: "genuine hmac store c PREVIEW_COOKIE_SIGNING_DOMAIN [PREVIEW_COOKIE_VERSION, js_lower s]
      PREVIEW_COOKIE_MAX_AGE_SECONDS PREVIEW_COOKIE_RENEWAL_WINDOW_SECONDS text w"
    if "verifyPreviewResource hmac store c text s = Inr (Some w)" for s c w
    using that verify_preview_genuine [OF assms(1)] by blast
  obtain nonce where wire: "text = cookie_text hmac store PREVIEW_COOKIE_SIGNING_DOMAIN [PREVIEW_COOKIE_VERSION, js_lower sid]
      (cv_issuedAt v) (cv_expiresAt v) nonce"
    using g [OF assms(2)] by (auto simp: genuine_def)
  have dots: "list_all (\<lambda>p. CHR ''.'' \<notin> set p) [PREVIEW_COOKIE_VERSION, js_lower s]" if "CHR ''.'' \<notin> set (js_lower s)" for s
    using that by (simp add: PREVIEW_COOKIE_VERSION_def)
  show "\<exists>nonce. text = cookie_text hmac store PREVIEW_COOKIE_SIGNING_DOMAIN [''pv1'', js_lower sid] (cv_issuedAt v) (cv_expiresAt v) nonce"
    using wire unfolding PREVIEW_COOKIE_VERSION_def by blast
  show "cv_expiresAt v \<le> cv_issuedAt v + 86400"
    using g [OF assms(2)] by (auto simp: genuine_def alive_def PREVIEW_COOKIE_MAX_AGE_SECONDS_def)
  show "js_lower sid' = js_lower sid" if other: "verifyPreviewResource hmac store clock' text sid' = Inr (Some v')" for clock' sid' v'
  proof -
    from g [OF other] obtain nonce' where "text = cookie_text hmac store PREVIEW_COOKIE_SIGNING_DOMAIN
        [PREVIEW_COOKIE_VERSION, js_lower sid'] (cv_issuedAt v') (cv_expiresAt v') nonce'"
      by (auto simp: genuine_def)
    from cookie_text_parts [OF dots this [symmetric, unfolded wire] dots] free [OF assms(2)] free [OF other]
    show ?thesis by simp
  qed
  show "verify hmac store clock' text \<noteq> Inr (Some v')" for clock' v'
  proof
    assume "verify hmac store clock' text = Inr (Some v')"
    then obtain nonce' where t': "text = cookie_text hmac store [] [COOKIE_VERSION] (cv_issuedAt v') (cv_expiresAt v') nonce'"
      by (auto simp: verify_genuine [OF assms(1)] genuine_def)
    have "list_all (\<lambda>p. CHR ''.'' \<notin> set p) [COOKIE_VERSION]" by code_simp
    from split_cookie_text [OF this] have "length (split_char (CHR ''.'') text) = 5" unfolding t' by (simp add: shown_def)
    moreover have "length (split_char (CHR ''.'') text) = 6"
      using split_cookie_text [OF dots] free [OF assms(2)] unfolding wire by (simp add: shown_def)
    ultimately show False by simp
  qed
  show "PREVIEW_COOKIE_SIGNING_DOMAIN @ dotted parts \<noteq> [] @ dotted (COOKIE_VERSION # parts')" for parts parts'
    by (cases parts') (simp_all add: PREVIEW_COOKIE_SIGNING_DOMAIN_def COOKIE_VERSION_def dotted_def)
qed

section \<open>From the response to the next request\<close>

lemma mint_Inr:
  "mint hmac store clock random = Inr text \<longleftrightarrow>
     (\<exists>i. unixSeconds clock = Inr i \<and> i + COOKIE_MAX_AGE_SECONDS \<le> MAX_SAFE_INTEGER \<and> length random = COOKIE_NONCE_BYTES \<and>
        text = cookie_text hmac store [] [COOKIE_VERSION] i (i + COOKIE_MAX_AGE_SECONDS) random)"
  by (cases "unixSeconds clock") (auto simp: mint_def mint_fields_def Let_def secureRandomBytes_def cookie_text_def shown_def)

text \<open>The characters of a cookie: none of them is white space, a separator or an escape.\<close>

definition cookie_char :: "char \<Rightarrow> bool" where
  "cookie_char c \<longleftrightarrow> c \<in> set B64_ALPHABET \<or> c = CHR ''.''"

lemma cookie_chars: "list_all (\<lambda>c. \<not> js_space c \<and> c \<notin> set '';=%'') (CHR ''.'' # B64_ALPHABET)"
  by code_simp

lemma digit_cookie_char: "is_digit c \<Longrightarrow> cookie_char c"
proof -
  assume "is_digit c"
  then have "(of_char c :: nat) - 48 < 10" "c = char_of (48 + (of_char c - 48) :: nat)" by (auto simp: is_digit_def Let_def)
  then have "c = digit_text (of_char c - 48)" using digit_text by metis
  moreover have "list_all (\<lambda>d. cookie_char (digit_text d)) [0..<10]" by code_simp
  ultimately show ?thesis using \<open>(of_char c :: nat) - 48 < 10\<close> by (simp add: list_all_iff) (metis atLeastLessThan_iff zero_le)
qed

lemma set_dotted: "set (dotted parts) \<subseteq> insert (CHR ''.'') (\<Union> (set ` set parts))"
  using set_js_join [of "''.''" parts] by (auto simp: dotted_def)

lemma cookie_text_chars: "list_all cookie_char (cookie_text hmac store domain [COOKIE_VERSION] i e nonce)"
proof -
  have "list_all cookie_char COOKIE_VERSION" by code_simp
  moreover have "list_all cookie_char (decimal n)" for n
    using decimal_digits [of n] by (auto simp: list_all_iff intro: digit_cookie_char)
  moreover have "list_all cookie_char (b64_encode s)" for s
    using b64_encode_alphabet [of s] by (simp add: list_all_iff cookie_char_def)
  ultimately have "list_all (list_all cookie_char) (shown [COOKIE_VERSION] i e nonce @
      [b64_encode (signed hmac store domain (shown [COOKIE_VERSION] i e nonce))])"
    by (simp add: shown_def)
  then show ?thesis
    using set_dotted unfolding cookie_text_def list_all_iff by (fastforce simp: cookie_char_def)
qed

lemma no_space_trim: "list_all (\<lambda>c. \<not> js_space c) s \<Longrightarrow> js_trim s = s"
proof -
  assume s: "list_all (\<lambda>c. \<not> js_space c) s"
  have "dropWhile js_space l = l" if "set l \<subseteq> set s" for l
    using that s by (cases l) (auto simp: list_all_iff)
  then show ?thesis by (simp add: js_trim_def)
qed

text \<open>\<open>decodeURIComponent\<close> leaves a text without \<open>%\<close> as it is.\<close>

definition keeps_plain :: "(string \<Rightarrow> string option) \<Rightarrow> bool" where
  "keeps_plain decode \<longleftrightarrow> (\<forall>s. CHR ''%'' \<notin> set s \<longrightarrow> decode s = Some s)"

text \<open>
  The \<open>Cookie\<close> header a browser sends (RFC 6265): its cookies, separated by a semicolon and a space.
  A name is a token, so it has no white space, separator or equals sign; a value has no semicolon.
\<close>

definition cookie_header :: "(string \<times> string) list \<Rightarrow> string" where
  "cookie_header cookies = js_join ''; '' (map (\<lambda>(n, v). n @ ''='' @ v) cookies)"

definition sendable :: "string \<times> string \<Rightarrow> bool" where
  "sendable = (\<lambda>(n, v). list_all (\<lambda>c. \<not> js_space c \<and> c \<noteq> CHR '';'' \<and> c \<noteq> CHR ''='') n \<and> CHR '';'' \<notin> set v)"

lemma split_join_spaced:
  assumes "list_all (\<lambda>p. CHR '';'' \<notin> set p) (p # ps)"
  shows "split_char (CHR '';'') (js_join ''; '' (p # ps)) = p # map (Cons CHR '' '') ps"
  using assms
proof (induction ps arbitrary: p)
  case (Cons q ps)
  have "split_char (CHR '';'') (CHR '' '' # js_join ''; '' (q # ps)) = (CHR '' '' # q) # map (Cons CHR '' '') ps"
    using Cons by simp
  then show ?case using Cons.prems by (simp add: split_char_append)
qed (simp add: split_char_none)

lemma trim_space: "js_trim (CHR '' '' # s) = js_trim s"
proof -
  have "js_space (CHR '' '')" by code_simp
  then show ?thesis by (simp add: js_trim_def)
qed

text \<open>One cookie of the header, with or without the space before it, and then all of them.\<close>

definition read_cookie :: "(string \<Rightarrow> string option) \<Rightarrow> string \<times> string \<Rightarrow> (string \<times> string) list \<Rightarrow> (string \<times> string) list" where
  "read_cookie decode c out =
     (if fst c = [] \<or> fst c = ''__proto__'' then out
      else AList.update (fst c) (case decode (js_trim (snd c)) of Some d \<Rightarrow> d | None \<Rightarrow> js_trim (snd c)) out)"

lemma parse_cookie_read:
  assumes "sendable c"
  shows "parse_cookie decode (fst c @ ''='' @ snd c) = read_cookie decode c"
    and "parse_cookie decode (CHR '' '' # fst c @ ''='' @ snd c) = read_cookie decode c"
proof -
  obtain n v where c: "c = (n, v)" by (cases c)
  have n: "list_all (\<lambda>x. \<not> js_space x) n" "\<forall>x\<in>set n. x \<noteq> CHR ''=''"
    using assms by (auto simp: c sendable_def list_all_iff)
  have take1: "takeWhile (\<lambda>x. x \<noteq> CHR ''='') (n @ CHR ''='' # v) = n" using n(2) by simp
  show "parse_cookie decode (fst c @ ''='' @ snd c) = read_cookie decode c"
    using no_space_trim [OF n(1)] take1
    by (intro ext) (simp add: parse_cookie_def read_cookie_def Let_def c split: option.split)
  show "parse_cookie decode (CHR '' '' # fst c @ ''='' @ snd c) = read_cookie decode c"
    using no_space_trim [OF n(1)] take1 trim_space [of n]
    by (intro ext) (simp add: parse_cookie_def read_cookie_def Let_def c split: option.split)
qed

lemma parse_cookie_header:
  assumes "list_all sendable (c # cs)"
  shows "parseCookies decode (Some (cookie_header (c # cs))) = fold (read_cookie decode) (c # cs) []"
proof -
  have clean: "CHR '';'' \<notin> set (fst d @ ''='' @ snd d)" if "sendable d" for d
    using that unfolding sendable_def list_all_iff by (cases d) auto
  have "list_all (\<lambda>p. CHR '';'' \<notin> set p) (map (\<lambda>(n, v). n @ ''='' @ v) (c # cs))"
    using assms clean unfolding list_all_iff by (simp add: split_beta del: set_append)
  then have "split_char (CHR '';'') (cookie_header (c # cs)) =
      (fst c @ ''='' @ snd c) # map (\<lambda>d. CHR '' '' # fst d @ ''='' @ snd d) cs"
    unfolding cookie_header_def list.map by (subst split_join_spaced) (simp_all add: split_beta comp_def)
  moreover have "fold (parse_cookie decode) (map (\<lambda>d. CHR '' '' # fst d @ ''='' @ snd d) cs) out = fold (read_cookie decode) cs out"
    for out using assms parse_cookie_read(2) [of _ decode] by (induction cs arbitrary: out) simp_all
  moreover have "cookie_header (c # cs) \<noteq> []"
    by (cases cs) (auto simp: cookie_header_def split: prod.split)
  ultimately show ?thesis using assms parse_cookie_read(1) [of c decode] by (simp add: parseCookies_def)
qed

lemma later_cookies:
  "name \<notin> fst ` set cs \<Longrightarrow> map_of (fold (read_cookie decode) cs out) name = map_of out name"
  by (induction cs arbitrary: out) (auto simp: read_cookie_def)

lemma cookie_sent_back:
  assumes plain: "keeps_plain decode" and chars: "list_all cookie_char text"
    and others: "list_all sendable before" "list_all sendable after" "COOKIE_NAME \<notin> fst ` set after"
  shows "extractCookieValue decode (Some (cookie_header (before @ (COOKIE_NAME, text) # after))) = Some text"
proof -
  have c: "\<not> js_space x \<and> x \<noteq> CHR '';'' \<and> x \<noteq> CHR ''='' \<and> x \<noteq> CHR ''%''" if "x \<in> set text" for x
    using that chars cookie_chars by (auto simp: list_all_iff cookie_char_def)
  have "js_trim text = text" using c by (intro no_space_trim) (simp add: list_all_iff)
  moreover have "decode text = Some text" using plain c by (auto simp: keeps_plain_def)
  moreover have "COOKIE_NAME \<noteq> []" "COOKIE_NAME \<noteq> ''__proto__''"
    "list_all (\<lambda>c. \<not> js_space c \<and> c \<noteq> CHR '';'' \<and> c \<noteq> CHR ''='') COOKIE_NAME" by code_simp+
  ultimately have own: "sendable (COOKIE_NAME, text)"
      "\<And>out. read_cookie decode (COOKIE_NAME, text) out = AList.update COOKIE_NAME text out"
    using c by (auto simp: sendable_def read_cookie_def)
  have "parseCookies decode (Some (cookie_header (before @ (COOKIE_NAME, text) # after))) =
      fold (read_cookie decode) (before @ (COOKIE_NAME, text) # after) []"
    using parse_cookie_header [of "hd (before @ [(COOKIE_NAME, text)])" "tl (before @ [(COOKIE_NAME, text)]) @ after"] others own(1)
    by (cases before) simp_all
  then show ?thesis using later_cookies [OF others(3)] by (simp add: extractCookieValue_def own(2))
qed

lemma shown_max_age: "decimal COOKIE_MAX_AGE_SECONDS = ''2592000''"
  by (simp add: COOKIE_MAX_AGE_SECONDS_def decimal.simps [of 2592000] decimal.simps [of 259200]
      decimal.simps [of 25920] decimal.simps [of 2592] decimal.simps [of 259] decimal.simps [of 25]
      decimal.simps [of 2] char_of_def bit_0)

text \<open>
  C8: an issued cookie authenticates: \<open>issueCookie\<close> appends exactly the stated \<open>Set-Cookie\<close> text to
  the response; its value, sent back in the \<open>Cookie\<close> header of a browser among any other cookies (only
  a later one of the same name would replace it), is accepted at every later time up to its 30 days;
  no new one is issued as long as more than seven days are left, and from then on a new one is.
\<close>

theorem issued_cookie_authenticates:
  assumes "mac_size hmac" and "keeps_plain decode"
    and "issueCookie hmac store clock random opts res = Inr (text, res')"
    and "unixSeconds clock = Inr i" and "unixSeconds clock' = Inr now" and "i \<le> now + 300" and "now < i + 2592000"
    and "list_all sendable before" and "list_all sendable after" and "COOKIE_NAME \<notin> fst ` set after"
    and "header = cookie_header (before @ (''bobbit_session'', text) # after)"
  shows "res' = res @ [''bobbit_session='' @ text @ ''; HttpOnly; SameSite=Lax; Path='' @
       (case co_basePath opts of None \<Rightarrow> [] | Some b \<Rightarrow> b) @ ''/; Max-Age=2592000'' @
       (if co_localhost opts then [] else ''; Secure'')] \<and>
    tryAuth hmac store clock' decode (Some header) = Inr True \<and>
    issueIfMissing hmac store clock' random' decode (Some header) opts res'' =
      (if now < i + 1987200 then Inr (None, res'')
       else map_sum id (map_prod Some id) (issueCookie hmac store clock' random' opts res''))"
proof -
  from assms(3) have "mint hmac store clock random = Inr text"
      and set_cookie: "res' = res @ [session_attributes opts text]"
    by (auto simp: issueCookie_def bind_res_Inr appendSetCookie_def)
  then have wire: "text = cookie_text hmac store [] [COOKIE_VERSION] i (i + COOKIE_MAX_AGE_SECONDS) random"
      and safe: "i + COOKIE_MAX_AGE_SECONDS \<le> MAX_SAFE_INTEGER" and len: "length random = COOKIE_NONCE_BYTES"
    using assms(4) by (auto simp: mint_Inr)
  define v where "v = \<lparr>cv_issuedAt = i, cv_expiresAt = i + COOKIE_MAX_AGE_SECONDS,
      cv_needsRenewal = (i + COOKIE_MAX_AGE_SECONDS - now \<le> COOKIE_RENEWAL_WINDOW_SECONDS)\<rparr>"
  have "genuine hmac store clock' [] [COOKIE_VERSION] COOKIE_MAX_AGE_SECONDS COOKIE_RENEWAL_WINDOW_SECONDS text v"
    unfolding genuine_def alive_def
    using wire safe len assms(5-7)
    by (intro exI [of _ random] exI [of _ now]) (simp add: v_def COOKIE_MAX_AGE_SECONDS_def COOKIE_FUTURE_SKEW_SECONDS_def)
  then have verified: "verify hmac store clock' text = Inr (Some v)" using verify_genuine [OF assms(1)] by blast
  have sent: "extractCookieValue decode (Some header) = Some text"
    using cookie_sent_back [OF assms(2) _ assms(8) assms(9) assms(10), of "text"] cookie_text_chars
    unfolding assms(11) by (simp add: wire COOKIE_NAME_def)
  have "cv_needsRenewal v \<longleftrightarrow> i + 1987200 \<le> now"
    using assms(7) by (auto simp: v_def COOKIE_MAX_AGE_SECONDS_def COOKIE_RENEWAL_WINDOW_SECONDS_def)
  then have again: "issueIfMissing hmac store clock' random' decode (Some header) opts res'' =
      (if now < i + 1987200 then Inr (None, res'')
       else map_sum id (map_prod Some id) (issueCookie hmac store clock' random' opts res''))"
    by (simp add: issueIfMissing_def sent verified)
  have "session_attributes opts text = ''bobbit_session='' @ text @ ''; HttpOnly; SameSite=Lax; Path='' @
       (case co_basePath opts of None \<Rightarrow> [] | Some b \<Rightarrow> b) @ ''/; Max-Age=2592000'' @
       (if co_localhost opts then [] else ''; Secure'')"
    by (simp add: session_attributes_def COOKIE_NAME_def Let_def shown_max_age split: option.split)
  with set_cookie again show ?thesis by (simp add: tryAuth_def sent verified accepted_def)
qed

section \<open>A cookie of the fifth second\<close>

definition demo_hmac :: hmac where
  "demo_hmac key text = replicate 32 (CHR ''m'')"

definition demo_store :: cookie_store where
  "demo_store = \<lparr>cs_signingKey = replicate 32 (CHR ''k'')\<rparr>"

definition demo_nonce :: string where
  "demo_nonce = replicate 16 (CHR ''n'')"

definition demo_cookie :: string where
  "demo_cookie = cookie_text demo_hmac demo_store [] [''v1''] 5 2592005 demo_nonce"

definition demo_session :: string where
  "demo_session = ''0123ABCD-0123-4567-89ab-0123456789ab''"

definition demo_preview :: string where
  "demo_preview = cookie_text demo_hmac demo_store PREVIEW_COOKIE_SIGNING_DOMAIN [''pv1'', js_lower demo_session] 5 86405 demo_nonce"

lemma demo_mac_size: "mac_size demo_hmac"
  by (simp add: mac_size_def demo_hmac_def)

lemma demo_clock: "unixSeconds 5000 = Inr 5" "unixSeconds 9000 = Inr 9"
  by (simp_all add: unixSeconds_def MAX_SAFE_INTEGER_def)

lemma session_cookie_exact_witness:
  "verify demo_hmac demo_store 9000 demo_cookie = Inr (Some \<lparr>cv_issuedAt = 5, cv_expiresAt = 2592005, cv_needsRenewal = False\<rparr>)"
  unfolding session_cookie_exact [OF demo_mac_size]
  by (intro exI [of _ demo_nonce] exI [of _ 9]) (simp add: demo_nonce_def demo_clock demo_cookie_def)

lemma preview_cookie_bound_witness: "\<forall>v. verify demo_hmac demo_store 9000 demo_preview \<noteq> Inr (Some v)"
proof -
  let ?v = "\<lparr>cv_issuedAt = 5, cv_expiresAt = 86405, cv_needsRenewal = False\<rparr>"
  have "canonicalPreviewSessionId demo_session = Some (js_lower demo_session)" by code_simp
  moreover have "genuine demo_hmac demo_store 9000 PREVIEW_COOKIE_SIGNING_DOMAIN [PREVIEW_COOKIE_VERSION, js_lower demo_session]
      PREVIEW_COOKIE_MAX_AGE_SECONDS PREVIEW_COOKIE_RENEWAL_WINDOW_SECONDS demo_preview ?v"
    unfolding genuine_def
    by (intro exI [of _ demo_nonce] exI [of _ 9])
      (simp add: demo_nonce_def demo_clock demo_preview_def alive_def COOKIE_NONCE_BYTES_def MAX_SAFE_INTEGER_def
        PREVIEW_COOKIE_VERSION_def PREVIEW_COOKIE_MAX_AGE_SECONDS_def COOKIE_FUTURE_SKEW_SECONDS_def
        PREVIEW_COOKIE_RENEWAL_WINDOW_SECONDS_def)
  ultimately have "verifyPreviewResource demo_hmac demo_store 9000 demo_preview demo_session = Inr (Some ?v)"
    by (simp add: verify_preview_genuine [OF demo_mac_size])
  from preview_cookie_bound [OF demo_mac_size this] show ?thesis by blast
qed

definition demo_header :: string where
  "demo_header = ''a=b; bobbit_session='' @ demo_cookie @ ''; theme=dark; x=1=2''"

lemma issued_cookie_authenticates_witness:
  "tryAuth demo_hmac demo_store 9000 Some (Some demo_header) = Inr True \<and>
   issueIfMissing demo_hmac demo_store 9000 demo_nonce Some (Some demo_header) \<lparr>co_localhost = True, co_basePath = None\<rparr> [] = Inr (None, [])"
proof -
  let ?opts = "\<lparr>co_localhost = True, co_basePath = None\<rparr>"
  have "mint demo_hmac demo_store 5000 demo_nonce = Inr demo_cookie"
    by (simp add: mint_Inr demo_clock demo_cookie_def COOKIE_VERSION_def COOKIE_MAX_AGE_SECONDS_def MAX_SAFE_INTEGER_def
        COOKIE_NONCE_BYTES_def demo_nonce_def)
  then have issue: "issueCookie demo_hmac demo_store 5000 demo_nonce ?opts [] =
      Inr (demo_cookie, [session_attributes ?opts demo_cookie])"
    by (simp add: issueCookie_def appendSetCookie_def)
  have plain: "keeps_plain Some" by (simp add: keeps_plain_def)
  have others: "list_all sendable [(''a'', ''b'')]" "list_all sendable [(''theme'', ''dark''), (''x'', ''1=2'')]"
    by code_simp+
  have "demo_header = cookie_header ([(''a'', ''b'')] @ (''bobbit_session'', demo_cookie) # [(''theme'', ''dark''), (''x'', ''1=2'')])"
    by (simp add: demo_header_def cookie_header_def)
  from issued_cookie_authenticates [OF demo_mac_size plain issue demo_clock _ _ others _ this, of demo_nonce "[]"]
  show ?thesis by (simp add: COOKIE_NAME_def)
qed

end
