(* ===== verification/Scoped_Access.thy ===== *)
theory Scoped_Access
  imports Js_Text
begin

text \<open>
  Who may do what with which token (\<open>src/server/auth\<close>): the limit on failed attempts
  (\<open>rate-limit.ts\<close>), the secrets of sessions (\<open>session-secret.ts\<close>), the tokens of sandboxed
  projects and their scopes (\<open>sandbox-token.ts\<close>), the routes open to such a token
  (\<open>sandbox-guard.ts\<close>) and the authorization of changes to children
  (\<open>children-mutation-authz.ts\<close>). The clock and random texts are arguments.
\<close>

section \<open>Failed attempts\<close>

record attempt_record =
  at_count :: nat
  at_windowStart :: int

record rate_limiter =
  rl_attempts :: "(string \<times> attempt_record) list"
  rl_maxAttempts :: nat
  rl_windowMs :: int

definition new_rate_limiter :: "nat option \<Rightarrow> int option \<Rightarrow> rate_limiter" where
  "new_rate_limiter maxAttempts windowMs =
     \<lparr>rl_attempts = [], rl_maxAttempts = (case maxAttempts of None \<Rightarrow> 10 | Some n \<Rightarrow> n),
      rl_windowMs = (case windowMs of None \<Rightarrow> 60000 | Some w \<Rightarrow> w)\<rparr>"

definition isRateLimited :: "int \<Rightarrow> string \<Rightarrow> rate_limiter \<Rightarrow> rate_limiter \<times> bool" where
  "isRateLimited now ip l =
     (case map_of (rl_attempts l) ip of
        None \<Rightarrow> (l, False)
      | Some r \<Rightarrow>
          if now - at_windowStart r > rl_windowMs l then (l\<lparr>rl_attempts := AList.delete ip (rl_attempts l)\<rparr>, False)
          else (l, at_count r \<ge> rl_maxAttempts l))"

definition recordFailure :: "int \<Rightarrow> string \<Rightarrow> rate_limiter \<Rightarrow> rate_limiter" where
  "recordFailure now ip l =
     (let fresh = \<lparr>at_count = 1, at_windowStart = now\<rparr> in
      l\<lparr>rl_attempts := AList.update ip
          (case map_of (rl_attempts l) ip of
             None \<Rightarrow> fresh
           | Some r \<Rightarrow> if now - at_windowStart r > rl_windowMs l then fresh else r\<lparr>at_count := at_count r + 1\<rparr>) (rl_attempts l)\<rparr>)"

definition cleanup :: "int \<Rightarrow> rate_limiter \<Rightarrow> rate_limiter" where
  "cleanup now l =
     l\<lparr>rl_attempts := filter (\<lambda>(ip, r). \<not> now - at_windowStart r > rl_windowMs l) (rl_attempts l)\<rparr>"

section \<open>The secrets of sessions\<close>

record secret_store =
  ss_sessionToSecret :: "(string \<times> string) list"
  ss_secretToSession :: "(string \<times> string) list"

definition no_secrets :: secret_store where
  "no_secrets = \<lparr>ss_sessionToSecret = [], ss_secretToSession = []\<rparr>"

definition nonempty_value :: "string option \<Rightarrow> string option" where
  "nonempty_value v = (case v of Some [] \<Rightarrow> None | _ \<Rightarrow> v)"

definition getOrCreateSecret :: "string \<Rightarrow> string \<Rightarrow> secret_store \<Rightarrow> secret_store \<times> string" where
  "getOrCreateSecret random sessionId st =
     (case nonempty_value (map_of (ss_sessionToSecret st) sessionId) of
        Some existing \<Rightarrow> (st, existing)
      | None \<Rightarrow>
          (\<lparr>ss_sessionToSecret = AList.update sessionId random (ss_sessionToSecret st),
            ss_secretToSession = AList.update random sessionId (ss_secretToSession st)\<rparr>, random))"

definition resolveSessionIdBySecret :: "string option \<Rightarrow> secret_store \<Rightarrow> string option" where
  "resolveSessionIdBySecret secret st =
     (case secret of
        None \<Rightarrow> None
      | Some raw \<Rightarrow> let s = js_trim raw in if s = [] then None else map_of (ss_secretToSession st) s)"

definition remove_secret :: "string \<Rightarrow> secret_store \<Rightarrow> secret_store" where
  "remove_secret sessionId st =
     \<lparr>ss_sessionToSecret = AList.delete sessionId (ss_sessionToSecret st),
      ss_secretToSession =
        (case nonempty_value (map_of (ss_sessionToSecret st) sessionId) of
           Some secret \<Rightarrow> AList.delete secret (ss_secretToSession st) | None \<Rightarrow> ss_secretToSession st)\<rparr>"

section \<open>The tokens of sandboxed projects\<close>

record sandbox_scope =
  sc_projectId :: string
  sc_goalIds :: "string list"
  sc_sessionIds :: "string list"

record token_store =
  ts_tokens :: "(string \<times> sandbox_scope) list"
  ts_projectToToken :: "(string \<times> string) list"

definition no_tokens :: token_store where
  "no_tokens = \<lparr>ts_tokens = [], ts_projectToToken = []\<rparr>"

definition token_of :: "string \<Rightarrow> token_store \<Rightarrow> string option" where
  "token_of projectId st = nonempty_value (map_of (ts_projectToToken st) projectId)"

definition register :: "string \<Rightarrow> string \<Rightarrow> token_store \<Rightarrow> token_store \<times> string" where
  "register random projectId st =
     (case token_of projectId st of
        Some existing \<Rightarrow> (st, existing)
      | None \<Rightarrow>
          (\<lparr>ts_tokens = AList.update random \<lparr>sc_projectId = projectId, sc_goalIds = [], sc_sessionIds = []\<rparr> (ts_tokens st),
            ts_projectToToken = AList.update projectId random (ts_projectToToken st)\<rparr>, random))"

definition lookup_token :: "string \<Rightarrow> token_store \<Rightarrow> sandbox_scope option" where
  "lookup_token token st = map_of (ts_tokens st) token"

text \<open>The scope objects are shared: a change is made where the token map holds it. Sets are lists here.\<close>

definition set_add :: "string \<Rightarrow> string list \<Rightarrow> string list" where
  "set_add x xs = (if x \<in> set xs then xs else xs @ [x])"

definition set_remove :: "string \<Rightarrow> string list \<Rightarrow> string list" where
  "set_remove x xs = filter (\<lambda>y. y \<noteq> x) xs"

definition change_scope :: "(sandbox_scope \<Rightarrow> sandbox_scope) \<Rightarrow> string \<Rightarrow> token_store \<Rightarrow> token_store" where
  "change_scope f projectId st =
     (case token_of projectId st of
        None \<Rightarrow> st
      | Some token \<Rightarrow>
          (case map_of (ts_tokens st) token of
             None \<Rightarrow> st | Some scope \<Rightarrow> st\<lparr>ts_tokens := AList.update token (f scope) (ts_tokens st)\<rparr>))"

definition addSession :: "string \<Rightarrow> string \<Rightarrow> token_store \<Rightarrow> token_store" where
  "addSession projectId sessionId = change_scope (sc_sessionIds_update (set_add sessionId)) projectId"

definition addGoal :: "string \<Rightarrow> string \<Rightarrow> token_store \<Rightarrow> token_store" where
  "addGoal projectId goalId = change_scope (sc_goalIds_update (set_add goalId)) projectId"

definition removeSession :: "string \<Rightarrow> string \<Rightarrow> token_store \<Rightarrow> token_store" where
  "removeSession projectId sessionId = change_scope (sc_sessionIds_update (set_remove sessionId)) projectId"

definition removeGoal :: "string \<Rightarrow> string \<Rightarrow> token_store \<Rightarrow> token_store" where
  "removeGoal projectId goalId = change_scope (sc_goalIds_update (set_remove goalId)) projectId"

definition remove_project :: "string \<Rightarrow> token_store \<Rightarrow> token_store" where
  "remove_project projectId st =
     (case token_of projectId st of
        None \<Rightarrow> st
      | Some token \<Rightarrow>
          \<lparr>ts_tokens = AList.delete token (ts_tokens st), ts_projectToToken = AList.delete projectId (ts_projectToToken st)\<rparr>)"

definition getTokenForProject :: "string \<Rightarrow> token_store \<Rightarrow> string option" where
  "getTokenForProject projectId st = map_of (ts_projectToToken st) projectId"

section \<open>Routes open to a sandbox token\<close>

text \<open>\<open>[^/]+\<close> to the end of the text, and \<open>^prefix([^/]+)(\/.*)?$\<close>: the segment and the rest.\<close>

definition one_segment :: "string \<Rightarrow> bool" where
  "one_segment s \<longleftrightarrow> s \<noteq> [] \<and> CHR ''/'' \<notin> set s"

definition after :: "string \<Rightarrow> string \<Rightarrow> string option" where
  "after pre s = (if starts_with pre s then Some (drop (length pre) s) else None)"

definition match_id :: "string \<Rightarrow> string \<Rightarrow> (string \<times> string) option" where
  "match_id pre pathname =
     (case after pre pathname of
        None \<Rightarrow> None
      | Some rest \<Rightarrow>
          let segment = takeWhile (\<lambda>c. c \<noteq> CHR ''/'') rest; subpath = dropWhile (\<lambda>c. c \<noteq> CHR ''/'') rest in
          if segment = [] \<or> list_ex (\<lambda>c. c = CHR 0x0A \<or> c = CHR 0x0D) subpath then None else Some (segment, subpath))"

definition isKnownProposalSubpath :: "string \<Rightarrow> string \<Rightarrow> bool" where
  "isKnownProposalSubpath subpath m =
     (case after ''/proposal/'' subpath of
        None \<Rightarrow> False
      | Some rest \<Rightarrow>
          let segment = takeWhile (\<lambda>c. c \<noteq> CHR ''/'') rest; post = dropWhile (\<lambda>c. c \<noteq> CHR ''/'') rest in
          segment \<noteq> [] \<and>
          (if post = [] then m = ''GET'' \<or> m = ''DELETE''
           else if post = ''/snapshot'' then m = ''GET''
           else post \<in> set [''/edit'', ''/seed'', ''/restore''] \<and> m = ''POST''))"

definition isOwnSessionToolEndpoint :: "string \<Rightarrow> string \<Rightarrow> bool" where
  "isOwnSessionToolEndpoint subpath m \<longleftrightarrow>
     starts_with ''/bg-processes'' subpath \<or>
     (m, subpath) \<in> set [(''GET'', ''/google-code-assist/token''), (''POST'', ''/tool-grant-request''), (''POST'', ''/activate-skill''),
        (''POST'', ''/host-hooks/before-tool-call''), (''POST'', ''/host-hooks/after-tool-result''), (''POST'', ''/review-payloads''),
        (''POST'', ''/uploaded-attachments/query''), (''GET'', ''/transcript''), (''POST'', ''/prompt''), (''GET'', ''/proposals'')] \<or>
     isKnownProposalSubpath subpath m \<or>
     (case after ''/orchestrate/'' subpath of
        None \<Rightarrow> False
      | Some verb \<Rightarrow>
          if verb = ''children'' then m = ''GET''
          else m = ''POST'' \<and> verb \<in> set [''spawn'', ''prompt'', ''steer'', ''abort'', ''dismiss'', ''wait'', ''delegate''])"

definition between :: "string \<Rightarrow> string \<Rightarrow> string \<Rightarrow> string option" where
  "between pre post s =
     (case after pre s of
        None \<Rightarrow> None
      | Some rest \<Rightarrow>
          if length post \<le> length rest \<and> drop (length rest - length post) rest = post
          then Some (take (length rest - length post) rest) else None)"

text \<open>\<open>^/gates/[^/]+/(signoff|reset|bypass)$\<close>\<close>

definition human_gate_action :: "string \<Rightarrow> bool" where
  "human_gate_action subpath =
     list_ex (\<lambda>verb. case between ''/gates/'' (''/'' @ verb) subpath of None \<Rightarrow> False | Some g \<Rightarrow> one_segment g)
       [''signoff'', ''reset'', ''bypass'']"

definition segment_between :: "string \<Rightarrow> string \<Rightarrow> string \<Rightarrow> bool" where
  "segment_between pre post s = (case between pre post s of None \<Rightarrow> False | Some g \<Rightarrow> one_segment g)"

definition isOwnGoalToolEndpoint :: "string \<Rightarrow> string \<Rightarrow> bool" where
  "isOwnGoalToolEndpoint subpath m =
     (if m = ''GET'' \<and> subpath = [] then True
      else if starts_with ''/team'' subpath then True
      else if starts_with ''/tasks'' subpath then True
      else if human_gate_action subpath then False
      else if starts_with ''/gates'' subpath then True
      else
        (m = ''POST'' \<and> subpath = ''/spawn-child'') \<or> ((m = ''GET'' \<or> m = ''PATCH'') \<and> subpath = ''/plan'') \<or>
        (m = ''POST'' \<and> segment_between ''/integrate-child/'' [] subpath) \<or>
        (m = ''POST'' \<and> (subpath = ''/pause'' \<or> subpath = ''/resume'')) \<or>
        (m = ''DELETE'' \<and> segment_between ''/archive-child/'' [] subpath) \<or>
        (m = ''POST'' \<and> segment_between ''/mutation/'' ''/decision'' subpath) \<or>
        (m = ''PATCH'' \<and> subpath = ''/policy''))"

text \<open>Method and path pairs that need no scope.\<close>

definition OPEN_ROUTES :: "(string \<times> string) list" where
  "OPEN_ROUTES =
     [(''GET'', ''/api/health''), (''POST'', ''/api/internal/verification-result''), (''POST'', ''/api/internal/mcp-describe''),
      (''POST'', ''/api/internal/pr-walkthrough/submit-yaml''), (''POST'', ''/api/ext/surface-token''),
      (''POST'', ''/api/internal/pr-walkthrough/bundle''), (''POST'', ''/api/internal/pr-walkthrough/analysis-bundle''),
      (''POST'', ''/api/preview/mount''), (''POST'', ''/api/image-generation/generate''), (''POST'', ''/api/sessions'')]"

definition isSandboxAllowed :: "string \<Rightarrow> string \<Rightarrow> sandbox_scope \<Rightarrow> bool" where
  "isSandboxAllowed pathname rawMethod scope =
     (let m = js_upper rawMethod in
      if (m, pathname) \<in> set OPEN_ROUTES then True
      else if m = ''POST'' \<and> segment_between ''/api/ext/route/'' [] pathname then True
      else
        (case match_id ''/api/sessions/'' pathname of
           Some (targetId, subpath) \<Rightarrow>
             targetId \<in> set (sc_sessionIds scope) \<and>
             ((subpath = [] \<and> m \<in> set [''GET'', ''PATCH'', ''DELETE'']) \<or> (m = ''POST'' \<and> subpath = ''/wait'') \<or>
              isOwnSessionToolEndpoint subpath m)
         | None \<Rightarrow>
             (case (if sc_goalIds scope \<noteq> [] then match_id ''/api/goals/'' pathname else None) of
                Some (targetGoalId, subpath) \<Rightarrow>
                  targetGoalId \<in> set (sc_goalIds scope) \<and> isOwnGoalToolEndpoint subpath m
              | None \<Rightarrow>
                  (case match_id ''/api/tasks/'' pathname of
                     Some (_, subpath) \<Rightarrow>
                       (subpath = [] \<and> (m = ''GET'' \<or> m = ''PUT'')) \<or>
                       (m = ''POST'' \<and> (subpath = ''/assign'' \<or> subpath = ''/transition''))
                   | None \<Rightarrow> False))))"

section \<open>Changes to children\<close>

datatype mutation_class = Orchestration | Operator

datatype authz_reason = Human_cookie | No_authentic_caller | No_team_lead | Team_lead_match | Team_lead_mismatch

record authz_input =
  az_mutationClass :: mutation_class
  az_isHumanOperator :: bool
  az_authenticCallerSessionId :: "string option"
  az_teamLeadSessionId :: "string option"

definition trimmed :: "string option \<Rightarrow> string" where
  "trimmed v = (case v of None \<Rightarrow> [] | Some s \<Rightarrow> js_trim s)"

definition authorizeChildrenMutation :: "authz_input \<Rightarrow> bool \<times> authz_reason" where
  "authorizeChildrenMutation input =
     (if az_mutationClass input = Operator \<and> az_isHumanOperator input then (True, Human_cookie)
      else
        let caller = trimmed (az_authenticCallerSessionId input) in
        if caller = [] then (False, No_authentic_caller)
        else
          let lead = trimmed (az_teamLeadSessionId input) in
          if lead = [] then (False, No_team_lead)
          else if lead = caller then (True, Team_lead_match) else (False, Team_lead_mismatch))"

end
