(* ===== verification/Access_Checks.thy ===== *)
theory Access_Checks
  imports Scoped_Access
begin

text \<open>
  What the tokens protect: a secret or token stands for the owner it was made for and dies with its
  removal, orchestration needs the secret of the team lead, a sandbox token reaches the sessions and
  goals of its scope only, and failed attempts are bounded.
\<close>

section \<open>Credentials\<close>

text \<open>
  What a store of credentials promises. An operation may grant (with the random text it uses) or revoke
  the credential of an owner; \<open>held\<close> is an owner's credential, \<open>owner\<close> resolves one. A random text is
  not empty and was not drawn before.
\<close>

lemma map_filter_snoc: "List.map_filter f (xs @ ys) = List.map_filter f xs @ List.map_filter f ys"
  by (simp add: List.map_filter_def)

locale credential_store =
  fixes step :: "'op \<Rightarrow> 'st \<Rightarrow> 'st" and empty :: 'st and good :: "'st \<Rightarrow> bool"
    and held :: "'st \<Rightarrow> string \<Rightarrow> string option" and owner :: "'st \<Rightarrow> string \<Rightarrow> string option"
    and granted :: "'op \<Rightarrow> (string \<times> string) option" and revoked :: "'op \<Rightarrow> string option"
  assumes empty_good: "good empty" "held empty x = None"
    and agree: "good st \<Longrightarrow> owner st t = Some x \<longleftrightarrow> held st x = Some t"
    and one_effect: "granted op \<noteq> None \<Longrightarrow> revoked op = None"
    and step_good: "good st \<Longrightarrow> (\<And>r x. granted op = Some (r, x) \<Longrightarrow> r \<noteq> [] \<and> owner st r = None) \<Longrightarrow> good (step op st)"
    and step_grant: "good st \<Longrightarrow> granted op = Some (r, x) \<Longrightarrow> r \<noteq> [] \<Longrightarrow> owner st r = None \<Longrightarrow>
      held (step op st) = (if held st x = None then (held st)(x \<mapsto> r) else held st)"
    and step_revoke: "good st \<Longrightarrow> revoked op = Some x \<Longrightarrow> held (step op st) = (held st)(x := None)"
    and step_other: "good st \<Longrightarrow> granted op = None \<Longrightarrow> revoked op = None \<Longrightarrow> held (step op st) = held st"
begin

text \<open>The texts drawn in a run are fresh.\<close>

definition fresh_run :: "'op list \<Rightarrow> bool" where
  "fresh_run ops \<longleftrightarrow> [] \<notin> fst ` set (List.map_filter granted ops) \<and> distinct (map fst (List.map_filter granted ops))"

lemma run_good:
  assumes "fresh_run ops"
  shows "good (fold step ops empty) \<and>
    (\<forall>t x. held (fold step ops empty) x = Some t \<longrightarrow>
       (\<exists>before op after. ops = before @ op # after \<and> granted op = Some (t, x) \<and> (\<forall>op'\<in>set after. revoked op' \<noteq> Some x)))"
  using assms
proof (induction ops rule: rev_induct)
  case Nil
  then show ?case by (simp add: empty_good)
next
  case (snoc op ops)
  let ?st = "fold step ops empty"
  have fresh: "fresh_run ops" using snoc.prems by (auto simp: fresh_run_def map_filter_snoc)
  note IH = snoc.IH [OF fresh]
  have drawn: "r \<noteq> [] \<and> owner ?st r = None" if op: "granted op = Some (r, x)" for r x
  proof -
    have "r \<notin> fst ` set (List.map_filter granted ops)" "r \<noteq> []"
      using snoc.prems op by (auto simp: fresh_run_def map_filter_snoc map_filter_simps)
    moreover have "owner ?st r = None"
    proof (rule ccontr)
      assume "owner ?st r \<noteq> None"
      then obtain y where "owner ?st r = Some y" by blast
      then have "held ?st y = Some r" using agree [OF IH [THEN conjunct1]] by blast
      then obtain "before" op' "after" where "ops = before @ op' # after" "granted op' = Some (r, y)" using IH by blast
      then have "op' \<in> set ops" by simp
      note this \<open>granted op' = Some (r, y)\<close>
      then have "r \<in> fst ` set (List.map_filter granted ops)" by (force simp: map_filter_def)
      with \<open>r \<notin> _\<close> show False by blast
    qed
    ultimately show ?thesis by blast
  qed
  have keep: "\<exists>before op' after. ops @ [op] = before @ op' # after \<and> granted op' = Some (t, x) \<and> (\<forall>op''\<in>set after. revoked op'' \<noteq> Some x)"
    if h: "held ?st x = Some t" "revoked op \<noteq> Some x" for t x
  proof -
    obtain before op' after where "ops = before @ op' # after" "granted op' = Some (t, x)" "\<forall>op''\<in>set after. revoked op'' \<noteq> Some x"
      using IH h(1) by blast
    then show ?thesis using h(2) by (intro exI [of _ before] exI [of _ op'] exI [of _ "after @ [op]"]) auto
  qed
  have "\<exists>before op' after. ops @ [op] = before @ op' # after \<and> granted op' = Some (t, x) \<and> (\<forall>op''\<in>set after. revoked op'' \<noteq> Some x)"
    if h: "held (step op ?st) x = Some t" for t x
  proof (cases "granted op")
    case (Some g)
    obtain r y where g: "granted op = Some (r, y)" using Some by (cases g) auto
    note eff = step_grant [OF IH [THEN conjunct1] g] drawn [OF g]
    have "revoked op = None" using one_effect g by simp
    show ?thesis
    proof (cases "held ?st x = Some t")
      case True
      with keep \<open>revoked op = None\<close> show ?thesis by simp
    next
      case False
      with h eff have "x = y" "t = r" by (auto split: if_splits)
      then show ?thesis using g by (intro exI [of _ ops] exI [of _ op] exI [of _ "[]"]) simp
    qed
  next
    case None
    show ?thesis
    proof (cases "revoked op")
      case None': None
      then have "held ?st x = Some t" using h step_other [OF IH [THEN conjunct1] None None'] by simp
      with keep None' show ?thesis by simp
    next
      case (Some y)
      with h have "held ?st x = Some t" "y \<noteq> x" using step_revoke [OF IH [THEN conjunct1] Some] by (auto split: if_splits)
      with keep Some show ?thesis by simp
    qed
  qed
  moreover have "good (step op ?st)" using IH drawn by (intro step_good) auto
  ultimately show ?case by simp
qed

text \<open>The text an operation draws after a run is new to the store.\<close>

lemma drawn_fresh:
  assumes "fresh_run (ops @ [op])" and "granted op = Some (r, x)"
  shows "r \<noteq> [] \<and> owner (fold step ops empty) r = None"
proof -
  have new: "r \<notin> fst ` set (List.map_filter granted ops)" "r \<noteq> []" and fresh: "fresh_run ops"
    using assms by (auto simp: fresh_run_def map_filter_snoc map_filter_simps)
  have "owner (fold step ops empty) r \<noteq> Some y" for y
  proof
    assume "owner (fold step ops empty) r = Some y"
    then have "held (fold step ops empty) y = Some r" using agree run_good [OF fresh] by blast
    then obtain "before" op' "after" where "ops = before @ op' # after" "granted op' = Some (r, y)"
      using run_good [OF fresh] by blast
    then have "r \<in> fst ` set (List.map_filter granted ops)" by (force simp: map_filter_def)
    with new show False by blast
  qed
  with new show ?thesis by (cases "owner (fold step ops empty) r") auto
qed

text \<open>A credential that resolves was granted to that owner, who has not been revoked since.\<close>

lemma provenance:
  assumes "fresh_run ops" and "owner (fold step ops empty) t = Some x"
  obtains "before" op "after" where "ops = before @ op # after" "granted op = Some (t, x)" "\<forall>op'\<in>set after. revoked op' \<noteq> Some x"
  using run_good [OF assms(1)] assms(2) agree by blast

lemma owners_differ:
  assumes "fresh_run ops" and "held (fold step ops empty) x = Some t" and "held (fold step ops empty) y = Some t"
  shows "x = y"
  using run_good [OF assms(1)] assms(2,3) agree by (metis option.inject)

end

section \<open>The secrets of sessions\<close>

datatype secret_op = Get_secret string string | Drop_secret string

definition secret_step :: "secret_op \<Rightarrow> secret_store \<Rightarrow> secret_store" where
  "secret_step op st =
     (case op of Get_secret random sid \<Rightarrow> fst (getOrCreateSecret random sid st) | Drop_secret sid \<Rightarrow> remove_secret sid st)"

definition secrets_good :: "secret_store \<Rightarrow> bool" where
  "secrets_good st \<longleftrightarrow>
     (\<forall>s k. map_of (ss_secretToSession st) k = Some s \<longleftrightarrow> map_of (ss_sessionToSecret st) s = Some k) \<and>
     (\<forall>s. map_of (ss_sessionToSecret st) s \<noteq> Some [])"

definition secret_granted :: "secret_op \<Rightarrow> (string \<times> string) option" where
  "secret_granted op = (case op of Get_secret random sid \<Rightarrow> Some (random, sid) | Drop_secret _ \<Rightarrow> None)"

definition secret_revoked :: "secret_op \<Rightarrow> string option" where
  "secret_revoked op = (case op of Get_secret _ _ \<Rightarrow> None | Drop_secret sid \<Rightarrow> Some sid)"

lemma nonempty_value_good: "v \<noteq> Some [] \<Longrightarrow> nonempty_value v = v"
  by (auto simp: nonempty_value_def split: option.splits list.splits)

lemma nonempty_value_None [simp]: "nonempty_value None = None"
  by (simp add: nonempty_value_def)

interpretation sessions: credential_store secret_step no_secrets secrets_good "\<lambda>st. map_of (ss_sessionToSecret st)"
  "\<lambda>st. map_of (ss_secretToSession st)" secret_granted secret_revoked
proof
  show "secrets_good no_secrets" by (simp add: secrets_good_def no_secrets_def)
  show "map_of (ss_sessionToSecret no_secrets) x = None" for x by (simp add: no_secrets_def)
  show "map_of (ss_secretToSession st) t = Some x \<longleftrightarrow> map_of (ss_sessionToSecret st) x = Some t" if "secrets_good st" for st t x
    using that by (simp add: secrets_good_def)
  show "secret_revoked op = None" if "secret_granted op \<noteq> None" for op
    using that by (cases op) (simp_all add: secret_granted_def secret_revoked_def)
  show "map_of (ss_sessionToSecret (secret_step op st)) =
      (if map_of (ss_sessionToSecret st) x = None then (map_of (ss_sessionToSecret st))(x \<mapsto> r) else map_of (ss_sessionToSecret st))"
    if "secrets_good st" "secret_granted op = Some (r, x)" for st op r x
    using that nonempty_value_good [of "map_of (ss_sessionToSecret st) x"]
    by (cases op) (auto simp: secret_step_def secret_granted_def getOrCreateSecret_def secrets_good_def nonempty_value_def split: option.splits)
  show "map_of (ss_sessionToSecret (secret_step op st)) = (map_of (ss_sessionToSecret st))(x := None)"
    if "secret_revoked op = Some x" for st op x
    using that by (cases op) (auto simp: secret_step_def secret_revoked_def remove_secret_def)
  show "map_of (ss_sessionToSecret (secret_step op st)) = map_of (ss_sessionToSecret st)"
    if "secret_granted op = None" "secret_revoked op = None" for st op
    using that by (cases op) (simp_all add: secret_granted_def secret_revoked_def)
  show "secrets_good (secret_step op st)"
    if good: "secrets_good st" and drawn: "\<And>r x. secret_granted op = Some (r, x) \<Longrightarrow> r \<noteq> [] \<and> map_of (ss_secretToSession st) r = None" for op st
  proof -
    have eq: "map_of (ss_secretToSession st) k = Some s \<longleftrightarrow> map_of (ss_sessionToSecret st) s = Some k"
      and full: "map_of (ss_sessionToSecret st) s \<noteq> Some []" for s k
      using good by (simp_all add: secrets_good_def)
    then have kept: "nonempty_value (map_of (ss_sessionToSecret st) s) = map_of (ss_sessionToSecret st) s" for s
      by (intro nonempty_value_good) simp
    show ?thesis
    proof (cases op)
      case (Get_secret r x)
      then have r: "r \<noteq> []" "map_of (ss_secretToSession st) r = None" using drawn [of r x] by (simp_all add: secret_granted_def)
      then have new: "map_of (ss_sessionToSecret st) s \<noteq> Some r" for s using eq [of r s] by simp
      show ?thesis
        using eq full r(1) new by (cases "map_of (ss_sessionToSecret st) x")
          (simp_all add: secret_step_def Get_secret getOrCreateSecret_def kept secrets_good_def)
    next
      case (Drop_secret x)
      show ?thesis
      proof (cases "map_of (ss_sessionToSecret st) x")
        case None
        then show ?thesis using eq full by (auto simp: secret_step_def Drop_secret remove_secret_def kept secrets_good_def)
      next
        case (Some k)
        then have "map_of (ss_sessionToSecret st) s = Some k \<longleftrightarrow> s = x" for s using eq [of k] by (metis option.inject)
        moreover have "secret_step op st = \<lparr>ss_sessionToSecret = AList.delete x (ss_sessionToSecret st),
            ss_secretToSession = AList.delete k (ss_secretToSession st)\<rparr>"
          using kept [of x] by (simp add: secret_step_def Drop_secret remove_secret_def Some)
        ultimately show ?thesis using eq full by (simp add: secrets_good_def, simp add: Some)
      qed
    qed
  qed
qed

text \<open>
  C11: orchestration needs the secret of the team lead: whatever operations the store has seen, a change
  of the orchestration class is allowed only if the secret sent with it is one that was made for the
  session that leads the team and that has not been removed since; a user cookie makes no difference.
\<close>

theorem orchestration_needs_secret:
  assumes "sessions.fresh_run ops"
    and "authorizeChildrenMutation \<lparr>az_mutationClass = Orchestration, az_isHumanOperator = cookie,
      az_authenticCallerSessionId = resolveSessionIdBySecret secret (fold secret_step ops no_secrets),
      az_teamLeadSessionId = teamLead\<rparr> = (True, reason)"
  shows "\<exists>raw lead sid before after. secret = Some raw \<and> teamLead = Some lead \<and> js_trim lead = js_trim sid \<and> js_trim sid \<noteq> [] \<and>
    ops = before @ Get_secret (js_trim raw) sid # after \<and> Drop_secret sid \<notin> set after \<and> reason = Team_lead_match"
proof -
  let ?st = "fold secret_step ops no_secrets"
  from assms(2) have ok: "trimmed (resolveSessionIdBySecret secret ?st) \<noteq> []" "trimmed teamLead = trimmed (resolveSessionIdBySecret secret ?st)"
      "reason = Team_lead_match"
    by (auto simp: authorizeChildrenMutation_def Let_def split: if_splits)
  then obtain sid where sid: "resolveSessionIdBySecret secret ?st = Some sid" by (auto simp: trimmed_def split: option.splits)
  then obtain raw where raw: "secret = Some raw" "map_of (ss_secretToSession ?st) (js_trim raw) = Some sid"
    by (auto simp: resolveSessionIdBySecret_def Let_def split: option.splits if_splits)
  obtain "before" op "after" where ops: "ops = before @ op # after" and op: "secret_granted op = Some (js_trim raw, sid)"
      and kept: "\<forall>op'\<in>set after. secret_revoked op' \<noteq> Some sid"
    using sessions.provenance [OF assms(1) raw(2)] by blast
  from op have "op = Get_secret (js_trim raw) sid" by (cases op) (simp_all add: secret_granted_def)
  moreover have "Drop_secret sid \<notin> set after" using kept by (auto simp: secret_revoked_def)
  moreover obtain lead where "teamLead = Some lead" "js_trim lead = js_trim sid" "js_trim sid \<noteq> []"
    using ok sid by (auto simp: trimmed_def split: option.splits)
  ultimately show ?thesis using raw(1) ops ok(3) by blast
qed

theorem orchestration_needs_secret_witness:
  "\<exists>raw lead sid before after. Some '' r1 '' = Some raw \<and> Some ''lead'' = Some lead \<and> js_trim lead = js_trim sid \<and> js_trim sid \<noteq> [] \<and>
    [Get_secret ''r0'' ''other'', Get_secret ''r1'' ''lead'', Drop_secret ''other''] = before @ Get_secret (js_trim raw) sid # after \<and>
    Drop_secret sid \<notin> set after \<and> Team_lead_match = Team_lead_match"
proof (rule orchestration_needs_secret)
  show "sessions.fresh_run [Get_secret ''r0'' ''other'', Get_secret ''r1'' ''lead'', Drop_secret ''other'']"
    by (simp add: sessions.fresh_run_def map_filter_simps secret_granted_def)
  show "authorizeChildrenMutation \<lparr>az_mutationClass = Orchestration, az_isHumanOperator = True,
      az_authenticCallerSessionId = resolveSessionIdBySecret (Some '' r1 '')
        (fold secret_step [Get_secret ''r0'' ''other'', Get_secret ''r1'' ''lead'', Drop_secret ''other''] no_secrets),
      az_teamLeadSessionId = Some ''lead''\<rparr> = (True, Team_lead_match)"
    by code_simp
qed

section \<open>The tokens of projects\<close>

datatype scope_kind = Session_id | Goal_id

datatype token_op =
  Register string string | Unregister string | Add_id scope_kind string string | Remove_id scope_kind string string

definition token_step :: "token_op \<Rightarrow> token_store \<Rightarrow> token_store" where
  "token_step op st =
     (case op of
        Register random p \<Rightarrow> fst (register random p st)
      | Unregister p \<Rightarrow> remove_project p st
      | Add_id Session_id p x \<Rightarrow> addSession p x st
      | Add_id Goal_id p x \<Rightarrow> addGoal p x st
      | Remove_id Session_id p x \<Rightarrow> removeSession p x st
      | Remove_id Goal_id p x \<Rightarrow> removeGoal p x st)"

definition token_owner :: "token_store \<Rightarrow> string \<Rightarrow> string option" where
  "token_owner st t = map_option sc_projectId (map_of (ts_tokens st) t)"

definition tokens_good :: "token_store \<Rightarrow> bool" where
  "tokens_good st \<longleftrightarrow>
     (\<forall>p t. token_owner st t = Some p \<longleftrightarrow> map_of (ts_projectToToken st) p = Some t) \<and>
     (\<forall>p. map_of (ts_projectToToken st) p \<noteq> Some [])"

definition token_granted :: "token_op \<Rightarrow> (string \<times> string) option" where
  "token_granted op = (case op of Register random p \<Rightarrow> Some (random, p) | _ \<Rightarrow> None)"

definition token_revoked :: "token_op \<Rightarrow> string option" where
  "token_revoked op = (case op of Unregister p \<Rightarrow> Some p | _ \<Rightarrow> None)"

text \<open>What the adjustments of a scope do: the field changes, nothing else.\<close>

definition adjust :: "token_op \<Rightarrow> sandbox_scope \<Rightarrow> sandbox_scope" where
  "adjust op =
     (case op of
        Add_id Session_id p x \<Rightarrow> sc_sessionIds_update (set_add x)
      | Add_id Goal_id p x \<Rightarrow> sc_goalIds_update (set_add x)
      | Remove_id Session_id p x \<Rightarrow> sc_sessionIds_update (set_remove x)
      | Remove_id Goal_id p x \<Rightarrow> sc_goalIds_update (set_remove x)
      | _ \<Rightarrow> id)"

lemma adjust_project [simp]: "sc_projectId (adjust op sc) = sc_projectId sc"
  by (simp add: adjust_def split: token_op.splits scope_kind.splits)

lemma token_step_adjust:
  "token_granted op = None \<Longrightarrow> token_revoked op = None \<Longrightarrow> \<exists>p. token_step op st = change_scope (adjust op) p st"
  by (cases op)
    (auto simp: token_granted_def token_revoked_def token_step_def adjust_def addSession_def addGoal_def removeSession_def removeGoal_def
      split: scope_kind.splits)

lemma change_scope_maps:
  "ts_projectToToken (change_scope f p st) = ts_projectToToken st"
  "(\<And>sc. sc_projectId (f sc) = sc_projectId sc) \<Longrightarrow> token_owner (change_scope f p st) = token_owner st"
  by (auto simp: change_scope_def token_owner_def fun_eq_iff split: option.splits)

lemma token_of_good: "tokens_good st \<Longrightarrow> token_of p st = map_of (ts_projectToToken st) p"
  by (auto simp: token_of_def tokens_good_def intro!: nonempty_value_good)

interpretation projects: credential_store token_step no_tokens tokens_good "\<lambda>st. map_of (ts_projectToToken st)"
  token_owner token_granted token_revoked
proof
  show "tokens_good no_tokens" by (simp add: tokens_good_def no_tokens_def token_owner_def)
  show "map_of (ts_projectToToken no_tokens) x = None" for x by (simp add: no_tokens_def)
  show "token_owner st t = Some x \<longleftrightarrow> map_of (ts_projectToToken st) x = Some t" if "tokens_good st" for st t x
    using that by (simp add: tokens_good_def)
  show "token_revoked op = None" if "token_granted op \<noteq> None" for op
    using that by (cases op) (simp_all add: token_granted_def token_revoked_def)
  show "map_of (ts_projectToToken (token_step op st)) =
      (if map_of (ts_projectToToken st) x = None then (map_of (ts_projectToToken st))(x \<mapsto> r) else map_of (ts_projectToToken st))"
    if "tokens_good st" "token_granted op = Some (r, x)" for st op r x
    using that by (cases op) (auto simp: token_step_def token_granted_def register_def token_of_good)
  show "map_of (ts_projectToToken (token_step op st)) = (map_of (ts_projectToToken st))(x := None)"
    if "tokens_good st" "token_revoked op = Some x" for st op x
    using that by (cases op) (auto simp: token_step_def token_revoked_def remove_project_def token_of_good split: option.splits)
  show "map_of (ts_projectToToken (token_step op st)) = map_of (ts_projectToToken st)"
    if "token_granted op = None" "token_revoked op = None" for st op
    using token_step_adjust [OF that, of st] by (auto simp: change_scope_maps)
  show "tokens_good (token_step op st)"
    if good: "tokens_good st" and drawn: "\<And>r x. token_granted op = Some (r, x) \<Longrightarrow> r \<noteq> [] \<and> token_owner st r = None" for op st
  proof -
    have eq: "token_owner st t = Some p \<longleftrightarrow> map_of (ts_projectToToken st) p = Some t"
      and full: "map_of (ts_projectToToken st) p \<noteq> Some []" for t p
      using good by (simp_all add: tokens_good_def)
    show ?thesis
    proof (cases op)
      case (Register r p)
      then have r: "r \<noteq> []" "token_owner st r = None" using drawn [of r p] by (simp_all add: token_granted_def)
      then have new: "map_of (ts_projectToToken st) q \<noteq> Some r" for q using eq [of r q] by simp
      have owner': "token_owner \<lparr>ts_tokens = AList.update r \<lparr>sc_projectId = p, sc_goalIds = [], sc_sessionIds = []\<rparr> (ts_tokens st),
          ts_projectToToken = m\<rparr> = (token_owner st)(r \<mapsto> p)" for m
        by (auto simp: token_owner_def)
      show ?thesis
        using good eq full r(1) new by (cases "map_of (ts_projectToToken st) p")
          (simp_all add: token_step_def Register register_def token_of_good [OF good] tokens_good_def owner')
    next
      case (Unregister p)
      show ?thesis
      proof (cases "map_of (ts_projectToToken st) p")
        case None
        then show ?thesis using good by (simp add: token_step_def Unregister remove_project_def token_of_good [OF good])
      next
        case (Some k)
        then have "map_of (ts_projectToToken st) q = Some k \<longleftrightarrow> q = p" for q using eq [of k] by (metis option.inject)
        moreover have "token_owner \<lparr>ts_tokens = AList.delete k (ts_tokens st), ts_projectToToken = m\<rparr> = (token_owner st)(k := None)" for m
          by (auto simp: token_owner_def)
        moreover have "token_step op st = \<lparr>ts_tokens = AList.delete k (ts_tokens st),
            ts_projectToToken = AList.delete p (ts_projectToToken st)\<rparr>"
          by (simp add: token_step_def Unregister remove_project_def token_of_good [OF good] Some)
        ultimately show ?thesis using eq full by (simp add: tokens_good_def, simp add: Some)
      qed
    next
      case (Add_id kind p x)
      then obtain q where "token_step op st = change_scope (adjust op) q st"
        using token_step_adjust [of op st] by (auto simp: token_granted_def token_revoked_def)
      then show ?thesis using good by (simp add: tokens_good_def change_scope_maps)
    next
      case (Remove_id kind p x)
      then obtain q where "token_step op st = change_scope (adjust op) q st"
        using token_step_adjust [of op st] by (auto simp: token_granted_def token_revoked_def)
      then show ?thesis using good by (simp add: tokens_good_def change_scope_maps)
    qed
  qed
qed

section \<open>The scope of a token\<close>

definition ids_of :: "scope_kind \<Rightarrow> sandbox_scope \<Rightarrow> string list" where
  "ids_of kind sc = (case kind of Session_id \<Rightarrow> sc_sessionIds sc | Goal_id \<Rightarrow> sc_goalIds sc)"

definition scope_ids :: "token_store \<Rightarrow> scope_kind \<Rightarrow> string \<Rightarrow> string set" where
  "scope_ids st kind p =
     (case map_of (ts_projectToToken st) p of
        None \<Rightarrow> {}
      | Some t \<Rightarrow> (case map_of (ts_tokens st) t of None \<Rightarrow> {} | Some sc \<Rightarrow> set (ids_of kind sc)))"

lemma scope_ids_simps:
  "map_of (ts_projectToToken st) p = None \<Longrightarrow> scope_ids st kind p = {}"
  "map_of (ts_projectToToken st) p = Some t \<Longrightarrow> map_of (ts_tokens st) t = None \<Longrightarrow> scope_ids st kind p = {}"
  "map_of (ts_projectToToken st) p = Some t \<Longrightarrow> map_of (ts_tokens st) t = Some sc \<Longrightarrow> scope_ids st kind p = set (ids_of kind sc)"
  by (simp_all add: scope_ids_def)

lemma scope_ids_change:
  assumes "tokens_good st" and "\<And>sc. sc_projectId (f sc) = sc_projectId sc"
  shows "scope_ids (change_scope f q st) kind p =
    (case map_of (ts_projectToToken st) q of
       None \<Rightarrow> scope_ids st kind p
     | Some t \<Rightarrow>
         (case map_of (ts_tokens st) t of
            None \<Rightarrow> scope_ids st kind p | Some sc \<Rightarrow> if p = q then set (ids_of kind (f sc)) else scope_ids st kind p))"
proof (cases "map_of (ts_projectToToken st) q")
  case None
  then show ?thesis by (simp add: change_scope_def token_of_good [OF assms(1)])
next
  case (Some t)
  have other: "map_of (ts_projectToToken st) p = Some t \<Longrightarrow> p = q"
    using Some assms(1) unfolding tokens_good_def by (metis option.inject)
  show ?thesis
  proof (cases "map_of (ts_tokens st) t")
    case None
    then show ?thesis by (simp add: change_scope_def token_of_good [OF assms(1)] Some)
  next
    case sc: (Some sc)
    have changed: "change_scope f q st = st\<lparr>ts_tokens := AList.update t (f sc) (ts_tokens st)\<rparr>"
      by (simp add: change_scope_def token_of_good [OF assms(1)] Some sc)
    show ?thesis
    proof (cases "p = q")
      case True
      then show ?thesis by (simp add: changed Some sc scope_ids_def)
    next
      case False
      then have "map_of (ts_projectToToken st) p \<noteq> Some t" using other by blast
      then show ?thesis using False
        by (cases "map_of (ts_projectToToken st) p") (auto simp: changed Some sc scope_ids_def)
    qed
  qed
qed

lemma adjusted_ids:
  "x \<in> set (ids_of kind (adjust (Add_id kind' q y) sc)) \<longleftrightarrow> x \<in> set (ids_of kind sc) \<or> (kind = kind' \<and> x = y)"
  "x \<in> set (ids_of kind (adjust (Remove_id kind' q y) sc)) \<longleftrightarrow> x \<in> set (ids_of kind sc) \<and> \<not> (kind = kind' \<and> x = y)"
  by (cases kind; cases kind'; auto simp: ids_of_def adjust_def set_add_def set_remove_def)+

lemma token_step_change:
  "token_step (Add_id kind q y) = change_scope (adjust (Add_id kind q y)) q"
  "token_step (Remove_id kind q y) = change_scope (adjust (Remove_id kind q y)) q"
  by (cases kind; simp add: fun_eq_iff token_step_def adjust_def addSession_def addGoal_def removeSession_def removeGoal_def)+

lemma scope_ids_step:
  assumes good: "tokens_good st" and drawn: "\<And>r q. op = Register r q \<Longrightarrow> r \<noteq> [] \<and> token_owner st r = None"
    and x: "x \<in> scope_ids (token_step op st) kind p"
  shows "op = Add_id kind p x \<or> (x \<in> scope_ids st kind p \<and> op \<noteq> Remove_id kind p x \<and> op \<noteq> Unregister p)"
proof (cases op)
  case (Register r q)
  then have "map_of (ts_tokens st) r = None" using drawn by (simp add: token_owner_def)
  moreover have "map_of (ts_projectToToken st) s \<noteq> Some r" for s
    using drawn [OF Register] good unfolding tokens_good_def by (metis option.distinct(1))
  ultimately have "x \<in> scope_ids st kind p"
    using x by (auto simp: Register token_step_def register_def token_of_good [OF good] scope_ids_def ids_of_def
        split: option.splits if_splits scope_kind.splits)
  then show ?thesis by (simp add: Register)
next
  case (Unregister q)
  show ?thesis
  proof (cases "map_of (ts_projectToToken st) q")
    case None
    then show ?thesis using x
      by (auto simp: Unregister token_step_def remove_project_def token_of_good [OF good] scope_ids_def)
  next
    case (Some k)
    then show ?thesis using x
      by (auto simp: Unregister token_step_def remove_project_def token_of_good [OF good] scope_ids_def split: option.splits if_splits)
  qed
next
  case (Add_id kind' q y)
  from x have "x \<in> scope_ids (change_scope (adjust (Add_id kind' q y)) q st) kind p" by (simp add: Add_id token_step_change)
  then show ?thesis
    unfolding scope_ids_change [OF good adjust_project] Add_id
    by (auto simp: adjusted_ids scope_ids_simps split: option.splits if_splits)
next
  case (Remove_id kind' q y)
  from x have "x \<in> scope_ids (change_scope (adjust (Remove_id kind' q y)) q st) kind p" by (simp add: Remove_id token_step_change)
  then show ?thesis
    unfolding scope_ids_change [OF good adjust_project] Remove_id
    by (auto simp: adjusted_ids scope_ids_simps split: option.splits if_splits)
qed

text \<open>The id was added to the scope of the project, and neither it nor the project was removed since.\<close>

definition id_granted :: "token_op list \<Rightarrow> scope_kind \<Rightarrow> string \<Rightarrow> string \<Rightarrow> bool" where
  "id_granted ops kind p x \<longleftrightarrow>
     (\<exists>before after. ops = before @ Add_id kind p x # after \<and> Remove_id kind p x \<notin> set after \<and> Unregister p \<notin> set after)"

lemma scope_ids_granted:
  "projects.fresh_run ops \<Longrightarrow> x \<in> scope_ids (fold token_step ops no_tokens) kind p \<Longrightarrow> id_granted ops kind p x"
proof (induction ops rule: rev_induct)
  case Nil
  then show ?case by (simp add: scope_ids_def no_tokens_def)
next
  case (snoc op ops)
  have fresh: "projects.fresh_run ops" using snoc.prems(1) by (auto simp: projects.fresh_run_def map_filter_snoc)
  let ?st = "fold token_step ops no_tokens"
  have good: "tokens_good ?st" using projects.run_good [OF fresh] by blast
  have drawn: "r \<noteq> [] \<and> token_owner ?st r = None" if "op = Register r q" for r q
    by (rule projects.drawn_fresh [OF snoc.prems(1)]) (simp add: that token_granted_def)
  from scope_ids_step [OF good drawn] snoc.prems(2)
  have "op = Add_id kind p x \<or> (x \<in> scope_ids ?st kind p \<and> op \<noteq> Remove_id kind p x \<and> op \<noteq> Unregister p)" by simp
  then show ?case
  proof
    assume "op = Add_id kind p x"
    then show ?thesis unfolding id_granted_def by (intro exI [of _ ops] exI [of _ "[]"]) simp
  next
    assume kept: "x \<in> scope_ids ?st kind p \<and> op \<noteq> Remove_id kind p x \<and> op \<noteq> Unregister p"
    then obtain "before" "after" where "ops = before @ Add_id kind p x # after" "Remove_id kind p x \<notin> set after" "Unregister p \<notin> set after"
      using snoc.IH [OF fresh] by (auto simp: id_granted_def)
    then show ?thesis using kept unfolding id_granted_def
      by (intro exI [of _ before] exI [of _ "after @ [op]"]) auto
  qed
qed

section \<open>Routes\<close>

lemma after_append [simp]: "after p (p @ s) = Some s"
  by (simp add: after_def starts_with_def)

lemma match_id_split:
  assumes "one_segment x" and "sub = [] \<or> hd sub = CHR ''/''"
  shows "match_id p (p @ x @ sub) = (if list_ex (\<lambda>c. c = CHR 0x0A \<or> c = CHR 0x0D) sub then None else Some (x, sub))"
proof -
  have "takeWhile (\<lambda>c. c \<noteq> CHR ''/'') (x @ sub) = x" "dropWhile (\<lambda>c. c \<noteq> CHR ''/'') (x @ sub) = sub"
    using assms by (cases sub; auto simp: one_segment_def takeWhile_append dropWhile_append)+
  then show ?thesis using assms(1) by (simp add: match_id_def Let_def one_segment_def)
qed

lemma other_prefix:
  "match_id ''/api/goals/'' (''/api/sessions/'' @ s) = None" "match_id ''/api/tasks/'' (''/api/sessions/'' @ s) = None"
  "match_id ''/api/sessions/'' (''/api/goals/'' @ s) = None" "match_id ''/api/tasks/'' (''/api/goals/'' @ s) = None"
  by (simp_all add: match_id_def after_def starts_with_def)

lemma not_open:
  "(m, ''/api/sessions/'' @ s) \<notin> set OPEN_ROUTES" "\<not> segment_between ''/api/ext/route/'' [] (''/api/sessions/'' @ s)"
  "(m, ''/api/goals/'' @ s) \<notin> set OPEN_ROUTES" "\<not> segment_between ''/api/ext/route/'' [] (''/api/goals/'' @ s)"
  by (simp_all add: OPEN_ROUTES_def segment_between_def between_def after_def starts_with_def)

lemma allowed_session:
  assumes "isSandboxAllowed (''/api/sessions/'' @ x @ sub) m scope" and "one_segment x" and "sub = [] \<or> hd sub = CHR ''/''"
  shows "x \<in> set (sc_sessionIds scope)"
  using assms(1) unfolding isSandboxAllowed_def Let_def
  by (simp only: not_open match_id_split [OF assms(2,3)] other_prefix if_False simp_thms)
    (auto split: if_splits)

lemma allowed_goal:
  assumes "isSandboxAllowed (''/api/goals/'' @ x @ sub) m scope" and "one_segment x" and "sub = [] \<or> hd sub = CHR ''/''"
  shows "x \<in> set (sc_goalIds scope) \<and> isOwnGoalToolEndpoint sub (js_upper m)"
  using assms(1) unfolding isSandboxAllowed_def Let_def
  by (simp only: not_open match_id_split [OF assms(2,3)] other_prefix if_False simp_thms)
    (auto split: if_splits)

lemma human_gate_action_shape:
  assumes "one_segment g" and "verb \<in> set [''signoff'', ''reset'', ''bypass'']"
  shows "human_gate_action (''/gates/'' @ g @ ''/'' @ verb)"
proof -
  have "between ''/gates/'' (''/'' @ verb) (''/gates/'' @ g @ ''/'' @ verb) = Some g"
    unfolding between_def after_append by simp
  then show ?thesis using assms unfolding human_gate_action_def list_ex_iff by (metis option.simps(5))
qed

lemma human_actions_refused:
  assumes "one_segment g" and "verb \<in> set [''signoff'', ''reset'', ''bypass'']"
  shows "\<not> isOwnGoalToolEndpoint (''/gates/'' @ g @ ''/'' @ verb) m"
proof -
  note h = human_gate_action_shape [OF assms]
  show ?thesis unfolding isOwnGoalToolEndpoint_def using h by (simp add: starts_with_def)
qed

text \<open>
  C10: a sandbox token is confined: after any history of the token store, a request that the guard lets
  through with a token comes with one that was made for its project and not withdrawn since; a path into
  a session or a goal names one that was added to the scope of that project and not removed since; and
  signing off, resetting or bypassing a gate is refused in every goal.
\<close>

theorem sandbox_confined:
  assumes "projects.fresh_run ops" and "lookup_token token (fold token_step ops no_tokens) = Some scope"
    and "isSandboxAllowed path m scope"
  shows "(\<exists>before after. ops = before @ Register token (sc_projectId scope) # after \<and> Unregister (sc_projectId scope) \<notin> set after) \<and>
    (\<forall>x sub. one_segment x \<and> (sub = [] \<or> hd sub = CHR ''/'') \<longrightarrow>
       (path = ''/api/sessions/'' @ x @ sub \<longrightarrow> id_granted ops Session_id (sc_projectId scope) x) \<and>
       (path = ''/api/goals/'' @ x @ sub \<longrightarrow> id_granted ops Goal_id (sc_projectId scope) x)) \<and>
    (\<forall>x g verb. one_segment x \<and> one_segment g \<and> verb \<in> set [''signoff'', ''reset'', ''bypass''] \<longrightarrow>
       path \<noteq> ''/api/goals/'' @ x @ ''/gates/'' @ g @ ''/'' @ verb)"
proof (intro conjI allI impI)
  let ?st = "fold token_step ops no_tokens" and ?p = "sc_projectId scope"
  have own: "token_owner ?st token = Some ?p" using assms(2) by (simp add: lookup_token_def token_owner_def)
  have good: "tokens_good ?st" using projects.run_good [OF assms(1)] by blast
  have held: "map_of (ts_projectToToken ?st) ?p = Some token" using own good unfolding tokens_good_def by blast
  have ids: "scope_ids ?st kind ?p = set (ids_of kind scope)" for kind
    using assms(2) held by (simp add: scope_ids_def lookup_token_def)
  obtain "before" op "after" where ops: "ops = before @ op # after" "token_granted op = Some (token, ?p)"
      "\<forall>op'\<in>set after. token_revoked op' \<noteq> Some ?p"
    using projects.provenance [OF assms(1) own] by blast
  from ops(2) have "op = Register token ?p" by (cases op) (simp_all add: token_granted_def)
  moreover have "Unregister ?p \<notin> set after" using ops(3) by (auto simp: token_revoked_def)
  ultimately show "\<exists>before after. ops = before @ Register token ?p # after \<and> Unregister ?p \<notin> set after" using ops(1) by blast
  fix x sub :: string
  assume seg: "one_segment x \<and> (sub = [] \<or> hd sub = CHR ''/'')"
  show "id_granted ops Session_id ?p x" if "path = ''/api/sessions/'' @ x @ sub"
    using allowed_session [OF assms(3) [unfolded that]] seg ids [of Session_id]
    by (intro scope_ids_granted [OF assms(1)]) (simp add: ids_of_def)
  show "id_granted ops Goal_id ?p x" if "path = ''/api/goals/'' @ x @ sub"
    using allowed_goal [OF assms(3) [unfolded that]] seg ids [of Goal_id]
    by (intro scope_ids_granted [OF assms(1)]) (simp add: ids_of_def)
next
  fix x g verb :: string
  assume seg: "one_segment x \<and> one_segment g \<and> verb \<in> set [''signoff'', ''reset'', ''bypass'']"
  show "path \<noteq> ''/api/goals/'' @ x @ ''/gates/'' @ g @ ''/'' @ verb"
  proof
    assume "path = ''/api/goals/'' @ x @ ''/gates/'' @ g @ ''/'' @ verb"
    with allowed_goal [of x "''/gates/'' @ g @ ''/'' @ verb" m scope] assms(3) seg
    have "isOwnGoalToolEndpoint (''/gates/'' @ g @ ''/'' @ verb) (js_upper m)" by simp
    with human_actions_refused seg show False by blast
  qed
qed

definition sandbox_history :: "token_op list" where
  "sandbox_history =
     [Register ''tok'' ''p'', Register ''tik'' ''q'', Add_id Session_id ''p'' ''s1'', Add_id Goal_id ''p'' ''g1'',
      Add_id Session_id ''q'' ''s2'', Remove_id Session_id ''q'' ''s2'']"

theorem sandbox_confined_witness:
  "(\<exists>before after. sandbox_history = before @ Register ''tok'' ''p'' # after \<and> Unregister ''p'' \<notin> set after) \<and>
    id_granted sandbox_history Goal_id ''p'' ''g1''"
proof -
  let ?scope = "\<lparr>sc_projectId = ''p'', sc_goalIds = [''g1''], sc_sessionIds = [''s1'']\<rparr>"
  have "projects.fresh_run sandbox_history"
    by (simp add: projects.fresh_run_def map_filter_simps token_granted_def sandbox_history_def)
  moreover have "lookup_token ''tok'' (fold token_step sandbox_history no_tokens) = Some ?scope" by code_simp
  moreover have "isSandboxAllowed ''/api/goals/g1/gates/7'' ''get'' ?scope" by code_simp
  ultimately have confined: "(\<exists>before after. sandbox_history = before @ Register ''tok'' ''p'' # after \<and> Unregister ''p'' \<notin> set after) \<and>
    (\<forall>x sub. one_segment x \<and> (sub = [] \<or> hd sub = CHR ''/'') \<longrightarrow>
       (''/api/goals/g1/gates/7'' = ''/api/sessions/'' @ x @ sub \<longrightarrow> id_granted sandbox_history Session_id ''p'' x) \<and>
       (''/api/goals/g1/gates/7'' = ''/api/goals/'' @ x @ sub \<longrightarrow> id_granted sandbox_history Goal_id ''p'' x)) \<and>
    (\<forall>x g verb. one_segment x \<and> one_segment g \<and> verb \<in> set [''signoff'', ''reset'', ''bypass''] \<longrightarrow>
       ''/api/goals/g1/gates/7'' \<noteq> ''/api/goals/'' @ x @ ''/gates/'' @ g @ ''/'' @ verb)"
    by (rule sandbox_confined [where scope = ?scope, unfolded sandbox_scope.select_convs])
  then have "id_granted sandbox_history Goal_id ''p'' ''g1''"
    by (elim conjE allE [where x = "''g1''"] allE [where x = "''/gates/7''"]) (simp add: one_segment_def)
  with confined show ?thesis by blast
qed

section \<open>Failed attempts\<close>

text \<open>A request that is checked, one that is checked and fails if it is not refused, and the periodic clean-up.\<close>

datatype rl_event = Check string int | Fail string int | Tick int

definition rl_step :: "rl_event \<Rightarrow> rate_limiter \<times> (string \<times> int) list \<Rightarrow> rate_limiter \<times> (string \<times> int) list" where
  "rl_step e s =
     (case e of
        Check ip now \<Rightarrow> (fst (isRateLimited now ip (fst s)), snd s)
      | Fail ip now \<Rightarrow>
          (case isRateLimited now ip (fst s) of
             (l, limited) \<Rightarrow> if limited then (l, snd s) else (recordFailure now ip l, snd s @ [(ip, now)]))
      | Tick now \<Rightarrow> (cleanup now (fst s), snd s))"

definition event_time :: "rl_event \<Rightarrow> int" where
  "event_time e = (case e of Check _ t \<Rightarrow> t | Fail _ t \<Rightarrow> t | Tick t \<Rightarrow> t)"

definition failures_of :: "string \<Rightarrow> (string \<times> int) list \<Rightarrow> int list" where
  "failures_of ip fs = map snd (filter (\<lambda>(i, t). i = ip) fs)"

text \<open>The failures of an address fall into windows: each holds at most \<open>n\<close>, lasts at most \<open>W\<close>, and the next starts after it.\<close>

definition windows :: "int \<Rightarrow> nat \<Rightarrow> int list list \<Rightarrow> bool" where
  "windows W n ws \<longleftrightarrow>
     (\<forall>w\<in>set ws. w \<noteq> [] \<and> length w \<le> n \<and> (\<forall>t\<in>set w. hd w \<le> t \<and> t \<le> hd w + W)) \<and> sorted_wrt (\<lambda>a b. hd a + W < hd b) ws"

lemma windows_two:
  assumes "sorted_wrt (\<lambda>a b. hd a + W < hd b) vs" and "\<forall>w\<in>set vs. hd w \<le> s + W \<and> s \<le> hd w + (W::int)"
  shows "length vs \<le> 2"
proof (cases vs rule: remdups_adj.cases)
  case (3 a b us)
  then show ?thesis using assms by (cases us) force+
qed simp_all

lemma concat_near:
  "\<forall>w\<in>set ws. \<forall>t\<in>set w. P t \<longrightarrow> Q w \<Longrightarrow> filter P (concat ws) = filter P (concat (filter Q ws))"
proof (induction ws)
  case (Cons w ws)
  show ?case
  proof (cases "Q w")
    case False
    then have "filter P w = []" using Cons.prems by (auto simp: filter_empty_conv)
    then show ?thesis using Cons False by simp
  qed (use Cons in simp)
qed simp

lemma length_concat_bound: "\<forall>w\<in>set ws. length w \<le> n \<Longrightarrow> length (concat ws) \<le> length ws * n"
  by (induction ws) auto

lemma windows_count:
  assumes "windows W n ws"
  shows "length (filter (\<lambda>t. s \<le> t \<and> t \<le> s + W) (concat ws)) \<le> 2 * n"
proof -
  let ?vs = "filter (\<lambda>w. hd w \<le> s + W \<and> s \<le> hd w + W) ws"
  have "\<forall>w\<in>set ws. \<forall>t\<in>set w. s \<le> t \<and> t \<le> s + W \<longrightarrow> hd w \<le> s + W \<and> s \<le> hd w + W"
    using assms unfolding windows_def by force
  from concat_near [OF this]
  have "length (filter (\<lambda>t. s \<le> t \<and> t \<le> s + W) (concat ws)) \<le> length (concat ?vs)"
    by (simp only: length_filter_le)
  also have "\<dots> \<le> length ?vs * n"
    using assms unfolding windows_def by (intro length_concat_bound) simp
  also have "length ?vs \<le> 2"
  proof (rule windows_two [where s = s and W = W])
    show "sorted_wrt (\<lambda>a b. hd a + W < hd b) ?vs" using assms by (simp add: windows_def sorted_wrt_filter)
  qed simp
  then have "length ?vs * n \<le> 2 * n" by (rule mult_le_mono1)
  finally show ?thesis .
qed

text \<open>The record of an address, and what each operation makes of it.\<close>

definition attempt_of :: "rate_limiter \<Rightarrow> string \<Rightarrow> attempt_record option" where
  "attempt_of l ip = map_of (rl_attempts l) ip"

definition limiter_ok :: "int \<Rightarrow> nat \<Rightarrow> rate_limiter \<Rightarrow> bool" where
  "limiter_ok W n l \<longleftrightarrow> rl_windowMs l = W \<and> rl_maxAttempts l = n \<and> distinct (map fst (rl_attempts l))"

lemma limited_eq:
  "isRateLimited now ip l =
     (case attempt_of l ip of
        None \<Rightarrow> (l, False)
      | Some r \<Rightarrow>
          if now - at_windowStart r > rl_windowMs l then (l\<lparr>rl_attempts := AList.delete ip (rl_attempts l)\<rparr>, False)
          else (l, at_count r \<ge> rl_maxAttempts l))"
  by (simp add: isRateLimited_def attempt_of_def)

lemma attempt_check:
  "attempt_of (fst (isRateLimited now ip' l)) ip =
     (case attempt_of l ip of
        None \<Rightarrow> None | Some r \<Rightarrow> if ip = ip' \<and> now - at_windowStart r > rl_windowMs l then None else Some r)"
proof (cases "attempt_of l ip'")
  case None
  then show ?thesis by (cases "attempt_of l ip") (auto simp: limited_eq)
next
  case (Some r)
  then show ?thesis by (cases "attempt_of l ip") (auto simp: limited_eq attempt_of_def AList.delete_conv' simp del: map_of_eq_Some_iff)
qed

lemma attempt_failure:
  "attempt_of (recordFailure now ip' l) ip =
     (if ip = ip' then
        Some (case attempt_of l ip of
                None \<Rightarrow> \<lparr>at_count = 1, at_windowStart = now\<rparr>
              | Some r \<Rightarrow> if now - at_windowStart r > rl_windowMs l then \<lparr>at_count = 1, at_windowStart = now\<rparr>
                          else r\<lparr>at_count := at_count r + 1\<rparr>)
      else attempt_of l ip)"
  by (cases "ip = ip'"; cases "map_of (rl_attempts l) ip'")
    (simp_all add: attempt_of_def recordFailure_def Let_def AList.update_conv' del: map_of_eq_Some_iff)

lemma map_of_filter_value:
  "distinct (map fst m) \<Longrightarrow> map_of (filter (\<lambda>(k, v). P v) m) k = (case map_of m k of None \<Rightarrow> None | Some v \<Rightarrow> if P v then Some v else None)"
proof (induction m)
  case (Cons kv m)
  obtain k' v' where kv: "kv = (k', v')" by fastforce
  from Cons.prems kv have "map_of m k' = None" by (simp add: map_of_eq_None_iff)
  moreover have "map_of (filter (\<lambda>(k, v). P v) m) k' = None" using Cons.prems kv by (force simp: map_of_eq_None_iff)
  moreover have "distinct (map fst m)" using Cons.prems by simp
  ultimately show ?case using Cons.IH kv by (cases "k = k'") (simp_all del: map_of_eq_Some_iff)
qed simp

lemma attempt_cleanup:
  "limiter_ok W n l \<Longrightarrow> attempt_of (cleanup now l) ip =
     (case attempt_of l ip of None \<Rightarrow> None | Some r \<Rightarrow> if now - at_windowStart r > rl_windowMs l then None else Some r)"
  unfolding limiter_ok_def attempt_of_def cleanup_def
  using map_of_filter_value [of "rl_attempts l" "\<lambda>r. \<not> now - at_windowStart r > rl_windowMs l" ip]
  by (simp del: map_of_eq_Some_iff split: option.split_asm option.split)

lemma limiter_ok_step:
  assumes "limiter_ok W n l"
  shows "limiter_ok W n (fst (isRateLimited now ip l))" "limiter_ok W n (recordFailure now ip l)" "limiter_ok W n (cleanup now l)"
  using assms
  by (simp_all add: limiter_ok_def limited_eq recordFailure_def cleanup_def Let_def distinct_delete distinct_update distinct_map_filter
      split: option.split)

lemma limiter_ok_window: "limiter_ok W n l \<Longrightarrow> rl_windowMs l = W"
  by (simp add: limiter_ok_def)

text \<open>What is known of the failures of an address, in windows, and of its record.\<close>

definition limiter_inv :: "int \<Rightarrow> nat \<Rightarrow> string \<Rightarrow> int \<Rightarrow> rate_limiter \<Rightarrow> int list list \<Rightarrow> bool" where
  "limiter_inv W n ip now l ws \<longleftrightarrow>
     windows W n ws \<and> limiter_ok W n l \<and>
     (case attempt_of l ip of
        None \<Rightarrow> ws = [] \<or> hd (last ws) + W < now
      | Some r \<Rightarrow> ws \<noteq> [] \<and> at_count r = length (last ws) \<and> at_windowStart r = hd (last ws) \<and> hd (last ws) \<le> now)"

lemma limiter_later: "limiter_inv W n ip now l ws \<Longrightarrow> now \<le> now' \<Longrightarrow> limiter_inv W n ip now' l ws"
  by (auto simp: limiter_inv_def split: option.splits)

lemma check_inv: "limiter_inv W n ip now l ws \<Longrightarrow> limiter_inv W n ip now (fst (isRateLimited now ip' l)) ws"
  by (cases "attempt_of l ip") (auto simp: limiter_inv_def attempt_check limiter_ok_step limiter_ok_window)

lemma cleanup_inv: "limiter_inv W n ip now l ws \<Longrightarrow> limiter_inv W n ip now (cleanup now l) ws"
  by (cases "attempt_of l ip") (auto simp: limiter_inv_def attempt_cleanup limiter_ok_step limiter_ok_window)

lemma other_failure_inv: "limiter_inv W n ip now l ws \<Longrightarrow> ip \<noteq> ip' \<Longrightarrow> limiter_inv W n ip now (recordFailure now ip' l) ws"
  by (simp add: limiter_inv_def attempt_failure limiter_ok_step)

lemma windows_new:
  assumes "windows W n ws" and "ws = [] \<or> hd (last ws) + W < now" and "0 \<le> W" and "1 \<le> n"
  shows "windows W n (ws @ [[now]])"
proof (cases ws rule: rev_cases)
  case (snoc vs v)
  then show ?thesis using assms by (fastforce simp: windows_def sorted_wrt_append)
qed (use assms in \<open>simp add: windows_def\<close>)

lemma windows_more:
  assumes "windows W n ws" and "ws \<noteq> []" and "length (last ws) < n" and "hd (last ws) \<le> now" and "now \<le> hd (last ws) + W"
  shows "windows W n (butlast ws @ [last ws @ [now]])"
proof (cases ws rule: rev_cases)
  case (snoc vs v)
  then show ?thesis using assms by (auto simp: windows_def sorted_wrt_append hd_append)
qed (use assms in simp)

lemma failure_inv:
  assumes inv: "limiter_inv W n ip now l ws" and free: "\<not> snd (isRateLimited now ip l)" and "0 \<le> W" and "1 \<le> n"
  shows "\<exists>ws'. limiter_inv W n ip now (recordFailure now ip (fst (isRateLimited now ip l))) ws' \<and> concat ws' = concat ws @ [now]"
proof -
  let ?l = "fst (isRateLimited now ip l)"
  have i: "limiter_inv W n ip now ?l ws" using check_inv [OF inv] .
  then have ok: "windows W n ws" "limiter_ok W n (recordFailure now ip ?l)" "rl_windowMs ?l = W"
    by (simp_all add: limiter_inv_def limiter_ok_step) (simp add: limiter_ok_def)
  show ?thesis
  proof (cases "attempt_of ?l ip")
    case None
    then have "windows W n (ws @ [[now]])" using i assms(3,4) by (intro windows_new) (auto simp: limiter_inv_def)
    then have "limiter_inv W n ip now (recordFailure now ip ?l) (ws @ [[now]])"
      using ok None by (simp add: limiter_inv_def attempt_failure)
    then show ?thesis by (intro exI [of _ "ws @ [[now]]"]) simp
  next
    case (Some r)
    then have r: "ws \<noteq> []" "at_count r = length (last ws)" "at_windowStart r = hd (last ws)" "hd (last ws) \<le> now"
      using i by (simp_all add: limiter_inv_def)
    have before: "attempt_of l ip = Some r" "\<not> now - at_windowStart r > rl_windowMs l"
      using Some attempt_check [of now ip l ip] by (simp_all split: option.splits if_splits)
    then have fresh: "\<not> now - at_windowStart r > W" "at_count r < n"
      using free inv by (simp_all add: limited_eq limiter_inv_def limiter_ok_def)
    then have w: "windows W n (butlast ws @ [last ws @ [now]])"
      using ok(1) r by (intro windows_more) simp_all
    moreover have "last ws \<noteq> []" using ok(1) r(1) by (simp add: windows_def)
    ultimately have "limiter_inv W n ip now (recordFailure now ip ?l) (butlast ws @ [last ws @ [now]])"
      using ok r fresh Some by (simp add: limiter_inv_def attempt_failure)
    moreover have "concat (butlast ws @ [last ws @ [now]]) = concat ws @ [now]"
      using r(1) by (cases ws rule: rev_cases) simp_all
    ultimately show ?thesis by blast
  qed
qed

lemma rl_step_inv:
  assumes inv: "limiter_inv W n ip now l ws" "concat ws = failures_of ip fs" and "now \<le> event_time e" and "0 \<le> W" and "1 \<le> n"
    and step: "rl_step e (l, fs) = (l', fs')"
  shows "\<exists>ws'. limiter_inv W n ip (event_time e) l' ws' \<and> concat ws' = failures_of ip fs'"
proof -
  note i = limiter_later [OF inv(1) assms(3)]
  show ?thesis
  proof (cases e)
    case (Check ip' t)
    then show ?thesis using step inv(2) check_inv [OF i] by (auto simp: rl_step_def event_time_def)
  next
    case (Tick t)
    then show ?thesis using step inv(2) cleanup_inv [OF i] by (auto simp: rl_step_def event_time_def)
  next
    case (Fail ip' t)
    note c = check_inv [OF i, of ip']
    show ?thesis
    proof (cases "snd (isRateLimited t ip' l)")
      case True
      then show ?thesis using Fail step inv(2) c by (auto simp: rl_step_def event_time_def split: prod.splits)
    next
      case False
      then have s: "l' = recordFailure t ip' (fst (isRateLimited t ip' l))" "fs' = fs @ [(ip', t)]"
        using Fail step by (simp_all add: rl_step_def split: prod.splits)
      show ?thesis
      proof (cases "ip' = ip")
        case True
        then show ?thesis using failure_inv [of W n ip t l ws] i False assms(4,5) Fail s inv(2)
          by (simp add: event_time_def failures_of_def)
      next
        case other: False
        then show ?thesis using other_failure_inv [OF c, of ip'] Fail s inv(2)
          by (auto simp: event_time_def failures_of_def)
      qed
    qed
  qed
qed

lemma rl_run_inv:
  assumes "sorted (map event_time es)" and "0 \<le> W" and "1 \<le> n"
  shows "\<exists>ws. limiter_inv W n ip (if es = [] then now else event_time (last es)) (fst (fold rl_step es (new_rate_limiter (Some n) (Some W), []))) ws \<and>
    concat ws = failures_of ip (snd (fold rl_step es (new_rate_limiter (Some n) (Some W), [])))"
  using assms(1)
proof (induction es arbitrary: now rule: rev_induct)
  case Nil
  show ?case
    by (intro exI [of _ "[]"])
      (simp add: limiter_inv_def windows_def limiter_ok_def attempt_of_def new_rate_limiter_def failures_of_def)
next
  case (snoc e es)
  obtain l fs where s: "fold rl_step es (new_rate_limiter (Some n) (Some W), []) = (l, fs)" by fastforce
  obtain l' fs' where s': "rl_step e (l, fs) = (l', fs')" by fastforce
  let ?now = "if es = [] then event_time e else event_time (last es)"
  have "sorted (map event_time es)" using snoc.prems by (simp add: sorted_append)
  from snoc.IH [OF this, of "event_time e"] obtain ws where
    "limiter_inv W n ip ?now l ws" and ws: "concat ws = failures_of ip fs" using s by auto
  moreover have "?now \<le> event_time e" using snoc.prems by (auto simp: sorted_append)
  ultimately show ?case using rl_step_inv [OF _ ws _ assms(2,3) s'] s s' by simp
qed

text \<open>
  C24: failed attempts are bounded: whatever checks, failures and clean-ups arrive, in order of time and
  from however many addresses, at most twice the limit of an address's failed attempts are let through
  within any stretch of time as long as the window.
\<close>

theorem failed_attempts_bounded:
  assumes "sorted (map event_time es)" and "0 \<le> W" and "1 \<le> n"
  shows "length (filter (\<lambda>t. s \<le> t \<and> t \<le> s + W)
    (failures_of ip (snd (fold rl_step es (new_rate_limiter (Some n) (Some W), []))))) \<le> 2 * n"
proof -
  obtain ws where "limiter_inv W n ip (if es = [] then 0 else event_time (last es)) (fst (fold rl_step es (new_rate_limiter (Some n) (Some W), []))) ws"
      and ws: "concat ws = failures_of ip (snd (fold rl_step es (new_rate_limiter (Some n) (Some W), [])))"
    using rl_run_inv [OF assms] by blast
  then have "windows W n ws" by (simp add: limiter_inv_def)
  from windows_count [OF this] show ?thesis by (simp add: ws)
qed

text \<open>The attempts at 10 and 13 are refused: their window, from 0 or from 11, is full.\<close>

theorem failed_attempts_bounded_witness:
  "length (filter (\<lambda>t. 9 \<le> t \<and> t \<le> 9 + 10)
    (failures_of ''a'' (snd (fold rl_step [Fail ''a'' 0, Fail ''a'' 9, Fail ''a'' 10, Check ''b'' 10, Fail ''a'' 11, Fail ''a'' 12, Fail ''a'' 13]
       (new_rate_limiter (Some 2) (Some 10), []))))) \<le> 2 * 2"
  by (rule failed_attempts_bounded) (simp_all add: event_time_def)

end
