(* ===== verification/Reset_Log.thy ===== *)
theory Reset_Log
  imports Gate_Resets
begin

text \<open>
  Resetting a gate of a goal that may be complete: \<open>src/src/server/agent/gate-reset-intent.ts\<close> and the
  route of \<open>src/src/server/server.ts\<close> that drives it. A reset changes two stores, the goal (reopened) and
  its gates; an intent is written first, and a boot finishes what it finds. The model has the memory and
  the saved rows of both stores and of the file of intents. Every awaited write is one step with an
  outcome, so a crash or another request may come between any two; a refused write leaves memory as it
  was (\<open>updateStrictInternal\<close> of \<open>goal-store.ts\<close> and the catch block of the gate store, whose own model
  is \<open>Gate_Store\<close>). The clock, new ids and the outcome of the team's rearming are arguments.
\<close>

section \<open>Goals and the file of intents\<close>

datatype goal_state = G_todo | G_in_progress | G_complete | G_shelved | G_blocked

record reset_goal =
  rg_state :: goal_state
  rg_archived :: bool
  rg_paused :: bool
  rg_workflow :: "workflow option"

record reset_intent =
  ri_id :: string
  ri_goalId :: string
  ri_gateId :: string
  ri_affectedGateIds :: "string list"
  ri_previousStatuses :: "(string \<times> gate_status) list"
  ri_previousState :: goal_state
  ri_reopenRequired :: bool
  ri_createdAt :: rat

datatype reset_error = In_progress_for string | Not_written | No_longer_exists string | Cannot_recover string goal_state
  | Gate_failure gate_error

record intent_store =
  is_intents :: "(string \<times> reset_intent) list"
  is_file :: "reset_intent list"
  is_rearmed :: "string list"

definition load_intents :: "reset_intent list \<Rightarrow> (string \<times> reset_intent) list" where
  "load_intents candidates =
     foldl (\<lambda>m i. if ri_id i = [] \<or> ri_goalId i = [] \<or> ri_gateId i = [] then m else AList.update (ri_goalId i) i m) [] candidates"

definition persist_intents :: "bool \<Rightarrow> (string \<times> reset_intent) list \<Rightarrow> intent_store \<Rightarrow> reset_error + intent_store" where
  "persist_intents ok next st = (if ok then Inr (st\<lparr>is_file := map snd next\<rparr>) else Inl Not_written)"

definition begin_intent :: "bool \<Rightarrow> string \<Rightarrow> rat \<Rightarrow> reset_intent \<Rightarrow> intent_store \<Rightarrow> reset_error + (reset_intent \<times> bool) \<times> intent_store" where
  "begin_intent ok uuid now input st =
     (case map_of (is_intents st) (ri_goalId input) of
        Some existing \<Rightarrow>
          if ri_gateId existing \<noteq> ri_gateId input then Inl (In_progress_for (ri_goalId input)) else Inr ((existing, True), st)
      | None \<Rightarrow>
          let intent = input\<lparr>ri_id := uuid, ri_createdAt := now\<rparr>; next = AList.update (ri_goalId intent) intent (is_intents st) in
          bind_res (persist_intents ok next st) (\<lambda>st'. Inr ((intent, False), st'\<lparr>is_intents := next\<rparr>)))"

definition clear_intent :: "bool \<Rightarrow> reset_intent \<Rightarrow> intent_store \<Rightarrow> reset_error + intent_store" where
  "clear_intent ok intent st =
     (case map_of (is_intents st) (ri_goalId intent) of
        None \<Rightarrow> Inr st
      | Some current \<Rightarrow>
          if ri_id current \<noteq> ri_id intent then Inr st
          else
            let next = AList.delete (ri_goalId intent) (is_intents st) in
            bind_res (persist_intents ok next st)
              (\<lambda>st'. Inr (st'\<lparr>is_intents := next, is_rearmed := filter (\<lambda>x. x \<noteq> ri_id intent) (is_rearmed st')\<rparr>)))"

definition markRuntimeRearmed :: "reset_intent \<Rightarrow> intent_store \<Rightarrow> intent_store" where
  "markRuntimeRearmed intent st =
     (if ri_id intent \<in> set (is_rearmed st) then st else st\<lparr>is_rearmed := is_rearmed st @ [ri_id intent]\<rparr>)"

definition wasRuntimeRearmed :: "reset_intent \<Rightarrow> intent_store \<Rightarrow> bool" where
  "wasRuntimeRearmed intent st \<longleftrightarrow> ri_id intent \<in> set (is_rearmed st)"

section \<open>A project: memory and saved rows\<close>

record project =
  pj_goals :: "(string \<times> reset_goal) list"
  pj_savedGoals :: "(string \<times> reset_goal) list"
  pj_gates :: gate_map
  pj_savedGates :: gate_map
  pj_log :: intent_store

definition updateStrict :: "bool \<Rightarrow> string \<Rightarrow> goal_state \<Rightarrow> project \<Rightarrow> project \<times> (reset_error + bool)" where
  "updateStrict ok goalId st p =
     (case map_of (pj_goals p) goalId of
        None \<Rightarrow> (p, Inr False)
      | Some existing \<Rightarrow>
          if ok then
            (p\<lparr>pj_goals := AList.update goalId (existing\<lparr>rg_state := st\<rparr>) (pj_goals p),
               pj_savedGoals := AList.update goalId (existing\<lparr>rg_state := st\<rparr>) (pj_savedGoals p)\<rparr>, Inr True)
          else (p, Inl Not_written))"

definition save_gate :: "gate_map \<Rightarrow> gate_map \<Rightarrow> string \<Rightarrow> gate_map" where
  "save_gate gates saved key = (case map_of gates key of None \<Rightarrow> AList.delete key saved | Some g \<Rightarrow> AList.update key g saved)"

definition resetStrict :: "bool \<Rightarrow> rat \<Rightarrow> string \<Rightarrow> string \<Rightarrow> workflow \<Rightarrow> project \<Rightarrow> project \<times> (reset_error + reset_result)" where
  "resetStrict ok now goalId gateId wflow p =
     (case getDependentGateIds gateId wflow True of
        Inl e \<Rightarrow> (p, Inl (Gate_failure e))
      | Inr affected \<Rightarrow>
          let r = run_reset now goalId affected (pj_gates p); res = make_result gateId affected r in
          if rt_keys r = [] then (p\<lparr>pj_gates := rt_gates r\<rparr>, Inr res)
          else if ok then
            (p\<lparr>pj_gates := rt_gates r, pj_savedGates := foldl (save_gate (rt_gates r)) (pj_savedGates p) (rt_keys r)\<rparr>, Inr res)
          else (p\<lparr>pj_gates := foldl restore_gate (rt_gates r) (rt_snapshots r)\<rparr>, Inl Not_written))"

definition resetInMemory :: "rat \<Rightarrow> string \<Rightarrow> string \<Rightarrow> workflow \<Rightarrow> project \<Rightarrow> project" where
  "resetInMemory now goalId gateId wflow p =
     (case getDependentGateIds gateId wflow True of
        Inl e \<Rightarrow> p | Inr affected \<Rightarrow> p\<lparr>pj_gates := rt_gates (run_reset now goalId affected (pj_gates p))\<rparr>)"

definition dormant :: "reset_goal \<Rightarrow> bool" where
  "dormant g \<longleftrightarrow> rg_archived g \<or> rg_paused g \<or> rg_state g = G_shelved"

definition workflow_with :: "string \<Rightarrow> reset_goal \<Rightarrow> workflow option" where
  "workflow_with gateId g =
     (case rg_workflow g of None \<Rightarrow> None | Some w \<Rightarrow> if gateId \<in> set (map g_id (w_gates w)) then Some w else None)"

section \<open>Booting\<close>

definition restore_intent :: "rat \<Rightarrow> project \<Rightarrow> reset_intent \<Rightarrow> project" where
  "restore_intent now p i =
     (case map_of (pj_goals p) (ri_goalId i) of
        None \<Rightarrow> p
      | Some g \<Rightarrow>
          if dormant g then p
          else
            (case workflow_with (ri_gateId i) g of
               None \<Rightarrow> p
             | Some w \<Rightarrow>
                 if ri_reopenRequired i \<and> rg_state g \<noteq> G_complete \<and> rg_state g \<noteq> G_in_progress then p
                 else
                   resetInMemory now (ri_goalId i) (ri_gateId i) w
                     (if ri_reopenRequired i \<and> rg_state g = G_complete
                      then p\<lparr>pj_goals := AList.update (ri_goalId i) (g\<lparr>rg_state := G_in_progress\<rparr>) (pj_goals p)\<rparr> else p)))"

definition restorePendingInMemory :: "rat \<Rightarrow> project \<Rightarrow> project" where
  "restorePendingInMemory now p = foldl (restore_intent now) p (map snd (is_intents (pj_log p)))"

definition boot :: "rat \<Rightarrow> project \<Rightarrow> project" where
  "boot now p =
     restorePendingInMemory now
       (p\<lparr>pj_goals := pj_savedGoals p, pj_gates := pj_savedGates p,
          pj_log := (pj_log p)\<lparr>is_intents := load_intents (is_file (pj_log p)), is_rearmed := []\<rparr>\<rparr>)"

section \<open>Requests and recovery\<close>

text \<open>
  A run of the reset: the two halves of \<open>commitDurable\<close>, what the route or the recovery does after it, and
  the two halves of \<open>abort\<close>.
\<close>

datatype reset_phase = Goal_write | Gate_write | Closing | Undo_goal | Undo_log

record reset_run =
  rn_intent :: reset_intent
  rn_workflow :: workflow
  rn_recovery :: bool
  rn_phase :: reset_phase

record gateway =
  gw_project :: project
  gw_runs :: "(nat \<times> reset_run) list"
  gw_queue :: "reset_intent list"

definition drop_run :: "nat \<Rightarrow> gateway \<Rightarrow> gateway" where
  "drop_run n s = s\<lparr>gw_runs := AList.delete n (gw_runs s)\<rparr>"

definition enter :: "nat \<Rightarrow> reset_run \<Rightarrow> reset_phase \<Rightarrow> gateway \<Rightarrow> gateway" where
  "enter n r ph s = s\<lparr>gw_runs := AList.update n (r\<lparr>rn_phase := ph\<rparr>) (gw_runs s)\<rparr>"

text \<open>A commit that throws: the route goes on to abort, the recovery keeps the intent for the next boot.\<close>

definition failed_run :: "nat \<Rightarrow> reset_run \<Rightarrow> gateway \<Rightarrow> gateway" where
  "failed_run n r s = (if rn_recovery r then drop_run n s else enter n r Undo_goal s)"

definition clear_and_drop :: "bool \<Rightarrow> nat \<Rightarrow> reset_run \<Rightarrow> gateway \<Rightarrow> gateway" where
  "clear_and_drop ok n r s =
     drop_run n
       (case clear_intent ok (rn_intent r) (pj_log (gw_project s)) of
          Inl _ \<Rightarrow> s | Inr l \<Rightarrow> s\<lparr>gw_project := (gw_project s)\<lparr>pj_log := l\<rparr>\<rparr>)"

definition advance_goal :: "bool \<Rightarrow> nat \<Rightarrow> reset_run \<Rightarrow> gateway \<Rightarrow> gateway" where
  "advance_goal ok n r s =
     (let i = rn_intent r; p = gw_project s in
      if \<not> ri_reopenRequired i then enter n r Gate_write s
      else
        (case map_of (pj_goals p) (ri_goalId i) of
           None \<Rightarrow> failed_run n r s
         | Some g \<Rightarrow>
             if rg_state g \<noteq> G_complete \<and> rg_state g \<noteq> G_in_progress then failed_run n r s
             else
               (case updateStrict ok (ri_goalId i) G_in_progress p of
                  (p', Inr True) \<Rightarrow> enter n r Gate_write (s\<lparr>gw_project := p'\<rparr>)
                | (p', _) \<Rightarrow> failed_run n r (s\<lparr>gw_project := p'\<rparr>))))"

definition advance_gates :: "rat \<Rightarrow> bool \<Rightarrow> nat \<Rightarrow> reset_run \<Rightarrow> gateway \<Rightarrow> gateway" where
  "advance_gates now ok n r s =
     (case resetStrict ok now (ri_goalId (rn_intent r)) (ri_gateId (rn_intent r)) (rn_workflow r) (gw_project s) of
        (p', Inr _) \<Rightarrow> enter n r Closing (s\<lparr>gw_project := p'\<rparr>)
      | (p', Inl _) \<Rightarrow> failed_run n r (s\<lparr>gw_project := p'\<rparr>))"

definition advance_closing :: "bool \<Rightarrow> bool \<Rightarrow> nat \<Rightarrow> reset_run \<Rightarrow> gateway \<Rightarrow> gateway" where
  "advance_closing rearmed ok n r s =
     (let i = rn_intent r; p = gw_project s in
      if rn_recovery r \<or> \<not> ri_reopenRequired i \<or> wasRuntimeRearmed i (pj_log p) then clear_and_drop ok n r s
      else if rearmed then clear_and_drop ok n r (s\<lparr>gw_project := p\<lparr>pj_log := markRuntimeRearmed i (pj_log p)\<rparr>\<rparr>)
      else drop_run n s)"

definition advance_undo :: "bool \<Rightarrow> nat \<Rightarrow> reset_run \<Rightarrow> gateway \<Rightarrow> gateway" where
  "advance_undo ok n r s =
     (let i = rn_intent r; p = gw_project s in
      if ri_reopenRequired i \<and> map_option rg_state (map_of (pj_goals p) (ri_goalId i)) = Some G_in_progress
      then
        (case updateStrict ok (ri_goalId i) (ri_previousState i) p of
           (p', Inr _) \<Rightarrow> enter n r Undo_log (s\<lparr>gw_project := p'\<rparr>)
         | (p', Inl _) \<Rightarrow> drop_run n (s\<lparr>gw_project := p'\<rparr>))
      else enter n r Undo_log s)"

definition advance :: "rat \<Rightarrow> bool \<Rightarrow> bool \<Rightarrow> nat \<Rightarrow> gateway \<Rightarrow> gateway" where
  "advance now rearmed ok n s =
     (case map_of (gw_runs s) n of
        None \<Rightarrow> s
      | Some r \<Rightarrow>
          (case rn_phase r of
             Goal_write \<Rightarrow> advance_goal ok n r s
           | Gate_write \<Rightarrow> advance_gates now ok n r s
           | Closing \<Rightarrow> advance_closing rearmed ok n r s
           | Undo_goal \<Rightarrow> advance_undo ok n r s
           | Undo_log \<Rightarrow> clear_and_drop ok n r s))"

text \<open>The route after its guards: the intent, and the run it starts or resumes.\<close>

definition request_reset :: "nat \<Rightarrow> string \<Rightarrow> string \<Rightarrow> string \<Rightarrow> rat \<Rightarrow> bool \<Rightarrow> gateway \<Rightarrow> gateway" where
  "request_reset n goalId gateId uuid now ok s =
     (let p = gw_project s in
      case map_of (pj_goals p) goalId of
        None \<Rightarrow> s
      | Some g \<Rightarrow>
          if dormant g \<or> map_of (gw_runs s) n \<noteq> None then s
          else
            (case workflow_with gateId g of
               None \<Rightarrow> s
             | Some w \<Rightarrow>
                 (case getDependentGateIds gateId w True of
                    Inl _ \<Rightarrow> s
                  | Inr affected \<Rightarrow>
                      let input = \<lparr>ri_id = [], ri_goalId = goalId, ri_gateId = gateId, ri_affectedGateIds = affected,
                            ri_previousStatuses = map (\<lambda>a. (a, case map_of (pj_gates p) (compositeKey goalId a) of
                                None \<Rightarrow> Pending | Some gs \<Rightarrow> gs_status gs)) affected,
                            ri_previousState = rg_state g, ri_reopenRequired = rg_state g = G_complete, ri_createdAt = 0\<rparr> in
                      (case begin_intent ok uuid now input (pj_log p) of
                         Inl _ \<Rightarrow> s
                       | Inr ((intent, resumed), l) \<Rightarrow>
                           enter n \<lparr>rn_intent = intent, rn_workflow = w, rn_recovery = False, rn_phase = Goal_write\<rparr> Goal_write
                             (s\<lparr>gw_project := p\<lparr>pj_log := l\<rparr>\<rparr>)))))"

text \<open>\<open>recoverPending\<close>: one intent after the other; what is dormant or gone is dropped from the log.\<close>

definition next_recovery :: "nat \<Rightarrow> bool \<Rightarrow> gateway \<Rightarrow> gateway" where
  "next_recovery n ok s =
     (if map_of (gw_runs s) n \<noteq> None \<or> list_ex (\<lambda>(m, r). rn_recovery r) (gw_runs s) then s
      else
        (case gw_queue s of
           [] \<Rightarrow> s
         | i # rest \<Rightarrow>
             let s' = s\<lparr>gw_queue := rest\<rparr>;
                 cleared = (case clear_intent ok i (pj_log (gw_project s)) of
                     Inl _ \<Rightarrow> s' | Inr l \<Rightarrow> s'\<lparr>gw_project := (gw_project s)\<lparr>pj_log := l\<rparr>\<rparr>) in
             (case map_of (pj_goals (gw_project s)) (ri_goalId i) of
                None \<Rightarrow> cleared
              | Some g \<Rightarrow>
                  if dormant g then cleared
                  else
                    (case workflow_with (ri_gateId i) g of
                       None \<Rightarrow> cleared
                     | Some w \<Rightarrow>
                         enter n \<lparr>rn_intent = i, rn_workflow = w, rn_recovery = True, rn_phase = Goal_write\<rparr> Goal_write s'))))"

definition crash :: "rat \<Rightarrow> gateway \<Rightarrow> gateway" where
  "crash now s =
     (let p = boot now (gw_project s) in \<lparr>gw_project = p, gw_runs = [], gw_queue = map snd (is_intents (pj_log p))\<rparr>)"

end
