(* ===== verification/Reset_View.thy ===== *)
theory Reset_View
  imports Reset_Log
begin

text \<open>
  The runs of a gateway that resets gates (\<open>Reset_Log\<close>) and the invariant of these runs, stated for one
  goal at a time: what its row, its gates and its entry in the log look like in memory and on disk, and
  which run works on it. A step changes the view of one goal.
\<close>

section \<open>Runs\<close>

text \<open>
  What may happen next: a request, the next intent of a recovery, the next write of a run, a crash, and what
  the rest of the gateway does: it pauses or archives a goal, sets the status of a gate, completes a goal
  without a pending gate, or writes out a row. While its reset is open, others neither complete a goal
  nor make a gate of it pending; and a gate turns pending in a goal that is not complete only. Without
  \<open>retries\<close>, a request for a goal whose reset is open is left out.
\<close>

datatype reset_event =
  Request nat string string string rat bool
| Next_recovery nat bool
| Advance nat rat bool bool
| Crash rat
| Set_dormant string bool bool
| Set_status string string gate_status
| Complete string
| Publish_goal string
| Publish_gate string string

definition gate_is_pending :: "gate_map \<Rightarrow> string \<Rightarrow> string \<Rightarrow> bool" where
  "gate_is_pending gates g i \<longleftrightarrow> map_option gs_status (map_of gates (compositeKey g i)) = Some Pending"

definition has_pending :: "gate_map \<Rightarrow> string \<Rightarrow> bool" where
  "has_pending gates g \<longleftrightarrow> (\<exists>i. gate_is_pending gates g i)"

definition goal_pending :: "gate_map \<Rightarrow> string \<Rightarrow> bool" where
  "goal_pending gates g \<longleftrightarrow> list_ex (\<lambda>(k, gs). starts_with (g @ ''::'') k \<and> gate_is_pending gates g (drop (length g + 2) k)) gates"

lemma starts_with_append: "starts_with p s \<longleftrightarrow> (\<exists>t. s = p @ t)"
  by (auto simp: starts_with_def) (metis append_take_drop_id)

lemma goal_pending_iff: "goal_pending gates g \<longleftrightarrow> has_pending gates g"
proof
  assume "has_pending gates g"
  then obtain i gs where i: "map_of gates (compositeKey g i) = Some gs" "gate_is_pending gates g i"
    by (auto simp: has_pending_def gate_is_pending_def)
  from i(1) have "(compositeKey g i, gs) \<in> set gates" by (rule map_of_SomeD)
  with i(2) show "goal_pending gates g"
    unfolding goal_pending_def list_ex_iff
    by (intro bexI [of _ "(compositeKey g i, gs)"]) (auto simp: compositeKey_def starts_with_append)
qed (auto simp: goal_pending_def has_pending_def list_ex_iff)

definition set_row :: "string \<Rightarrow> (reset_goal \<Rightarrow> reset_goal) \<Rightarrow> project \<Rightarrow> project" where
  "set_row g f p =
     (case map_of (pj_goals p) g of
        None \<Rightarrow> p
      | Some row \<Rightarrow> p\<lparr>pj_goals := AList.update g (f row) (pj_goals p), pj_savedGoals := AList.update g (f row) (pj_savedGoals p)\<rparr>)"

definition set_status :: "string \<Rightarrow> string \<Rightarrow> gate_status \<Rightarrow> project \<Rightarrow> project" where
  "set_status g i st p =
     (case map_of (pj_gates p) (compositeKey g i) of
        None \<Rightarrow> p
      | Some gs \<Rightarrow> p\<lparr>pj_gates := AList.update (compositeKey g i) (gs\<lparr>gs_status := st\<rparr>) (pj_gates p),
          pj_savedGates := AList.update (compositeKey g i) (gs\<lparr>gs_status := st\<rparr>) (pj_savedGates p)\<rparr>)"

definition on_project :: "(project \<Rightarrow> project) \<Rightarrow> gateway \<Rightarrow> gateway" where
  "on_project f s = s\<lparr>gw_project := f (gw_project s)\<rparr>"

definition is_open :: "string \<Rightarrow> gateway \<Rightarrow> bool" where
  "is_open g s \<longleftrightarrow> map_of (is_intents (pj_log (gw_project s))) g \<noteq> None"

definition gw_step :: "bool \<Rightarrow> reset_event \<Rightarrow> gateway \<Rightarrow> gateway" where
  "gw_step retries e s =
     (case e of
        Request n g i uuid now ok \<Rightarrow> if retries \<or> \<not> is_open g s then request_reset n g i uuid now ok s else s
      | Next_recovery n ok \<Rightarrow> next_recovery n ok s
      | Advance n now rearmed ok \<Rightarrow> advance now rearmed ok n s
      | Crash now \<Rightarrow> crash now s
      | Set_dormant g paused archived \<Rightarrow> on_project (set_row g (\<lambda>row. row\<lparr>rg_paused := paused, rg_archived := archived\<rparr>)) s
      | Set_status g i st \<Rightarrow>
          if map_of (pj_goals (gw_project s)) g = None \<or>
             st = Pending \<and> (is_open g s \<or> map_option rg_state (map_of (pj_goals (gw_project s)) g) = Some G_complete)
          then s else on_project (set_status g i st) s
      | Complete g \<Rightarrow>
          if is_open g s \<or> goal_pending (pj_gates (gw_project s)) g then s
          else on_project (set_row g (\<lambda>row. row\<lparr>rg_state := G_complete\<rparr>)) s
      | Publish_goal g \<Rightarrow> on_project (set_row g (\<lambda>row. row)) s
      | Publish_gate g i \<Rightarrow>
          if map_of (pj_goals (gw_project s)) g = None then s
          else on_project (\<lambda>p. p\<lparr>pj_savedGates := save_gate (pj_gates p) (pj_savedGates p) (compositeKey g i)\<rparr>) s)"

section \<open>One goal at a time\<close>

record pview =
  v_goal :: "reset_goal option"
  v_saved :: "reset_goal option"
  v_gates :: "string \<Rightarrow> gate_status option"
  v_savedGates :: "string \<Rightarrow> gate_status option"
  v_log :: "reset_intent option"

definition status_of :: "gate_map \<Rightarrow> string \<Rightarrow> string \<Rightarrow> gate_status option" where
  "status_of gates g i = map_option gs_status (map_of gates (compositeKey g i))"

definition pview :: "project \<Rightarrow> string \<Rightarrow> pview" where
  "pview p g =
     \<lparr>v_goal = map_of (pj_goals p) g, v_saved = map_of (pj_savedGoals p) g, v_gates = status_of (pj_gates p) g,
      v_savedGates = status_of (pj_savedGates p) g, v_log = map_of (is_intents (pj_log p)) g\<rparr>"

lemma pview_simps [simp]:
  "v_goal (pview p g) = map_of (pj_goals p) g" "v_saved (pview p g) = map_of (pj_savedGoals p) g"
  "v_gates (pview p g) = status_of (pj_gates p) g" "v_savedGates (pview p g) = status_of (pj_savedGates p) g"
  "v_log (pview p g) = map_of (is_intents (pj_log p)) g"
  by (simp_all add: pview_def)

lemma pview_eqI:
  "v_goal v = map_of (pj_goals p) g \<Longrightarrow> v_saved v = map_of (pj_savedGoals p) g \<Longrightarrow> v_gates v = status_of (pj_gates p) g \<Longrightarrow>
   v_savedGates v = status_of (pj_savedGates p) g \<Longrightarrow> v_log v = map_of (is_intents (pj_log p)) g \<Longrightarrow> pview p g = v"
  by (simp add: pview_def)

abbreviation no_colon :: "string \<Rightarrow> bool" where "no_colon g \<equiv> CHR '':'' \<notin> set g"

lemma has_pending_status: "has_pending gates g \<longleftrightarrow> (\<exists>i. status_of gates g i = Some Pending)"
  by (simp add: has_pending_def gate_is_pending_def status_of_def)

subsection \<open>The project operations\<close>

lemma reset_run_keys:
  assumes "distinct ids"
  shows "set (rt_keys (run_reset now goal ids m)) = {compositeKey goal i | i. i \<in> set ids \<and> map_of m (compositeKey goal i) \<noteq> None}" (is ?keys)
    and "map_of (rt_snapshots (run_reset now goal ids m)) k = (if k \<in> compositeKey goal ` set ids then map_of m k else None)" (is ?snaps)
    and "distinct (map fst (rt_snapshots (run_reset now goal ids m)))" (is ?dist)
proof -
  have "set (rt_keys (foldl (reset_gate now goal) r ids)) =
      set (rt_keys r) \<union> {compositeKey goal i | i. i \<in> set ids \<and> map_of m (compositeKey goal i) \<noteq> None} \<and>
    map_of (rt_snapshots (foldl (reset_gate now goal) r ids)) k =
      (if k \<in> compositeKey goal ` set ids \<and> map_of m k \<noteq> None then map_of m k else map_of (rt_snapshots r) k) \<and>
    distinct (map fst (rt_snapshots (foldl (reset_gate now goal) r ids)))"
    if "\<forall>i\<in>set ids. map_of (rt_gates r) (compositeKey goal i) = map_of m (compositeKey goal i)" "distinct (map fst (rt_snapshots r))" "distinct ids" for r
    using that
  proof (induction ids arbitrary: r)
    case (Cons i ids)
    let ?r = "reset_gate now goal r i"
    have r: "rt_keys ?r = rt_keys r @ (if map_of m (compositeKey goal i) = None then [] else [compositeKey goal i])"
      "map_of (rt_snapshots ?r) k = (if k = compositeKey goal i \<and> map_of m k \<noteq> None then map_of m k else map_of (rt_snapshots r) k)"
      "distinct (map fst (rt_snapshots ?r))"
      using Cons.prems
      by (auto simp: reset_gate_def Let_def simp del: map_of_eq_Some_iff split: option.splits prod.splits)
    have "\<forall>j\<in>set ids. map_of (rt_gates ?r) (compositeKey goal j) = map_of m (compositeKey goal j)"
      using Cons.prems by (auto simp: reset_gate_gates)
    then show ?case unfolding foldl.simps
      using Cons.IH [of ?r, unfolded r(1,2)] r(3) Cons.prems(3) by (auto simp del: map_of_eq_Some_iff)
  qed auto
  note this [of "\<lparr>rt_gates = m, rt_keys = [], rt_snapshots = [], rt_commits = [], rt_changed = [], rt_unchanged = [], rt_previous = []\<rparr>", simplified, OF assms]
  then show ?keys ?snaps ?dist unfolding run_reset_def by simp_all
qed

lemma restore_status:
  "distinct (map fst snaps) \<Longrightarrow> map_option gs_status (map_of (foldl restore_gate gates snaps) k) =
     (case map_of snaps k of
        None \<Rightarrow> map_option gs_status (map_of gates k)
      | Some s \<Rightarrow> if map_of gates k = None then None else Some (gs_status s))"
proof (induction snaps arbitrary: gates)
  case (Cons e snaps)
  obtain k' s where e: "e = (k', s)" by fastforce
  with Cons.prems have new: "map_of snaps k' = None" by (simp add: map_of_eq_None_iff)
  have step: "map_of (restore_gate gates e) k' = None \<longleftrightarrow> map_of gates k' = None"
    "map_option gs_status (map_of (restore_gate gates e) k') = (if map_of gates k' = None then None else Some (gs_status s))"
    "k \<noteq> k' \<Longrightarrow> map_of (restore_gate gates e) k = map_of gates k"
    by (auto simp: restore_gate_def e split: option.splits)
  have "distinct (map fst snaps)" using Cons.prems by simp
  note IH = Cons.IH [OF this, of "restore_gate gates e"]
  show ?case
  proof (cases "k = k'")
    case True
    with IH new step(1,2) show ?thesis by (simp add: e)
  next
    case False
    then show ?thesis using IH step(3) by (cases "map_of snaps k") (simp_all add: e)
  qed
qed simp

lemma dependents_distinct: "getDependentGateIds i w True = Inr ids \<Longrightarrow> distinct ids"
  by (auto simp: getDependentGateIds_def bfs_reachable(2) split: if_splits)

definition reset_view :: "string set \<Rightarrow> (string \<Rightarrow> gate_status option) \<Rightarrow> string \<Rightarrow> gate_status option" where
  "reset_view ids st x = (if x \<in> ids \<and> st x \<noteq> None then Some Pending else st x)"

lemma status_run_reset:
  assumes "distinct ids" and "no_colon g" and "no_colon h"
  shows "status_of (rt_gates (run_reset now g ids m)) h = (if h = g then reset_view (set ids) (status_of m g) else status_of m h)"
proof
  fix x
  have key: "compositeKey h x \<in> compositeKey g ` set ids \<longleftrightarrow> h = g \<and> x \<in> set ids"
    by (simp only: image_iff compositeKey_eq [OF assms(3,2)]) blast
  show "status_of (rt_gates (run_reset now g ids m)) h x = (if h = g then reset_view (set ids) (status_of m g) else status_of m h) x"
  proof (cases "h = g")
    case True
    then show ?thesis unfolding status_of_def run_reset_spec(1) [OF assms(1)] key
      by (cases "map_of m (compositeKey g x)") (simp_all add: reset_view_def status_of_def reset_effect_fields)
  next
    case False
    then show ?thesis unfolding status_of_def run_reset_spec(1) [OF assms(1)] key by simp
  qed
qed

lemma save_gates:
  "map_of (foldl (save_gate gates) saved ks) k = (if k \<in> set ks then map_of gates k else map_of saved k)"
proof (induction ks arbitrary: saved)
  case (Cons k' ks)
  have "map_of (save_gate gates saved k') k = (if k = k' then map_of gates k else map_of saved k)"
    by (auto simp: save_gate_def split: option.splits)
  then show ?case using Cons [of "save_gate gates saved k'"] by (cases "k \<in> set ks") simp_all
qed simp

text \<open>What the operations make of the view of a goal, their own or another one.\<close>

lemma view_updateStrict:
  "pview (fst (updateStrict ok g st p)) h =
     (case map_of (pj_goals p) g of
        Some a \<Rightarrow> if ok \<and> h = g then (pview p h)\<lparr>v_goal := Some (a\<lparr>rg_state := st\<rparr>), v_saved := Some (a\<lparr>rg_state := st\<rparr>)\<rparr> else pview p h
      | None \<Rightarrow> pview p h)"
  by (cases "map_of (pj_goals p) g") (simp_all add: updateStrict_def pview_def)

lemma result_updateStrict:
  "snd (updateStrict ok g st p) = (if map_of (pj_goals p) g = None then Inr False else if ok then Inr True else Inl Not_written)"
  by (cases "map_of (pj_goals p) g") (simp_all add: updateStrict_def)

lemma status_saved:
  assumes "distinct ids" and "no_colon g" and "no_colon h"
  shows "status_of (foldl (save_gate (rt_gates (run_reset now g ids m))) saved (rt_keys (run_reset now g ids m))) h =
    (if h = g then (\<lambda>x. if x \<in> set ids \<and> status_of m g x \<noteq> None then Some Pending else status_of saved g x) else status_of saved h)"
proof
  fix x
  have key: "compositeKey h x \<in> set (rt_keys (run_reset now g ids m)) \<longleftrightarrow> h = g \<and> x \<in> set ids \<and> map_of m (compositeKey g x) \<noteq> None"
    unfolding reset_run_keys(1) [OF assms(1)] by (simp only: mem_Collect_eq compositeKey_eq [OF assms(3,2)]) blast
  have st: "status_of (rt_gates (run_reset now g ids m)) g x = reset_view (set ids) (status_of m g) x"
    by (simp add: status_run_reset [OF assms(1,2,2)])
  show "status_of (foldl (save_gate (rt_gates (run_reset now g ids m))) saved (rt_keys (run_reset now g ids m))) h x =
    (if h = g then (\<lambda>x. if x \<in> set ids \<and> status_of m g x \<noteq> None then Some Pending else status_of saved g x) else status_of saved h) x"
  proof (cases "h = g \<and> x \<in> set ids \<and> map_of m (compositeKey g x) \<noteq> None")
    case True
    with st key show ?thesis by (simp add: status_of_def save_gates reset_view_def)
  next
    case False
    with key show ?thesis by (auto simp: status_of_def save_gates)
  qed
qed

lemma status_restored:
  assumes "distinct ids" and "no_colon g" and "no_colon h"
  shows "status_of (foldl restore_gate (rt_gates (run_reset now g ids m)) (rt_snapshots (run_reset now g ids m))) h = status_of m h"
proof
  fix x
  let ?r = "run_reset now g ids m"
  have snaps: "map_of (rt_snapshots ?r) (compositeKey h x) = (if compositeKey h x \<in> compositeKey g ` set ids then map_of m (compositeKey h x) else None)"
    by (rule reset_run_keys(2) [OF assms(1)])
  show "status_of (foldl restore_gate (rt_gates ?r) (rt_snapshots ?r)) h x = status_of m h x"
    unfolding status_of_def restore_status [OF reset_run_keys(3) [OF assms(1)]] snaps run_reset_spec(1) [OF assms(1)]
    by (cases "map_of m (compositeKey h x)") simp_all
qed

lemma run_reset_none: "rt_keys (run_reset now g ids m) = [] \<Longrightarrow> distinct ids \<Longrightarrow> x \<in> set ids \<Longrightarrow> status_of m g x = None"
  using reset_run_keys(1) [of ids now g m] by (auto simp: status_of_def)

lemma view_resetStrict:
  assumes "getDependentGateIds i w True = Inr ids" and "no_colon g" and "no_colon h"
  shows "pview (fst (resetStrict ok now g i w p)) h =
      (if h = g \<and> is_ok (snd (resetStrict ok now g i w p)) then
         (pview p h)\<lparr>v_gates := reset_view (set ids) (status_of (pj_gates p) g),
           v_savedGates := (\<lambda>x. if x \<in> set ids \<and> status_of (pj_gates p) g x \<noteq> None then Some Pending else status_of (pj_savedGates p) g x)\<rparr>
       else pview p h)"
proof -
  note d = dependents_distinct [OF assms(1)]
  let ?r = "run_reset now g ids (pj_gates p)"
  show ?thesis
  proof (cases "rt_keys ?r = []")
    case True
    have "reset_view (set ids) (status_of (pj_gates p) g) = status_of (pj_gates p) g"
      "(\<lambda>x. if x \<in> set ids \<and> status_of (pj_gates p) g x \<noteq> None then Some Pending else status_of (pj_savedGates p) g x) = status_of (pj_savedGates p) g"
      using run_reset_none [OF True d] by (auto simp: reset_view_def fun_eq_iff)
    then show ?thesis using True
      by (simp add: resetStrict_def Let_def assms(1) pview_def status_run_reset [OF d assms(2,3)])
  next
    case False
    then show ?thesis
      by (simp add: resetStrict_def assms(1) Let_def pview_def status_run_reset [OF d assms(2,3)] status_saved [OF d assms(2,3)]
          status_restored [OF d assms(2,3)] status_run_reset [OF d assms(2,2)] status_saved [OF d assms(2,2)])
  qed
qed

lemma view_resetInMemory:
  assumes "getDependentGateIds i w True = Inr ids" and "no_colon g" and "no_colon h"
  shows "pview (resetInMemory now g i w p) h =
    (if h = g then (pview p h)\<lparr>v_gates := reset_view (set ids) (status_of (pj_gates p) g)\<rparr> else pview p h)"
  by (simp add: resetInMemory_def assms(1) pview_def status_run_reset [OF dependents_distinct [OF assms(1)] assms(2,3)])

lemma workflow_dependents: "workflow_with i a = Some w \<Longrightarrow> \<exists>ids. getDependentGateIds i w True = Inr ids"
  by (auto simp: workflow_with_def getDependentGateIds_def split: option.splits if_splits)

lemma resetStrict_log: "pj_log (fst (resetStrict ok now g i w p)) = pj_log p"
  "pj_log (fst (updateStrict ok g st p)) = pj_log p"
  by (simp_all add: resetStrict_def updateStrict_def Let_def split: sum.split option.split)

subsection \<open>The log\<close>

definition log_ok :: "intent_store \<Rightarrow> bool" where
  "log_ok l \<longleftrightarrow> distinct (map fst (is_intents l)) \<and> is_file l = map snd (is_intents l) \<and>
     (\<forall>k i. (k, i) \<in> set (is_intents l) \<longrightarrow> k = ri_goalId i \<and> ri_id i \<noteq> [] \<and> k \<noteq> [] \<and> ri_gateId i \<noteq> [])"

lemma load_log:
  assumes "log_ok l"
  shows "load_intents (is_file l) = is_intents l"
proof -
  have "foldl (\<lambda>m i. if ri_id i = [] \<or> ri_goalId i = [] \<or> ri_gateId i = [] then m else AList.update (ri_goalId i) i m) m0 (map snd xs) = m0 @ xs"
    if "distinct (map fst (m0 @ xs))" "\<forall>k i. (k, i) \<in> set xs \<longrightarrow> k = ri_goalId i \<and> ri_id i \<noteq> [] \<and> k \<noteq> [] \<and> ri_gateId i \<noteq> []" for m0 xs
    using that
  proof (induction xs arbitrary: m0)
    case (Cons e xs)
    obtain k i where e: "e = (k, i)" by fastforce
    have k: "k = ri_goalId i \<and> ri_id i \<noteq> [] \<and> k \<noteq> [] \<and> ri_gateId i \<noteq> []"
      by (rule Cons.prems(2) [rule_format]) (simp add: e)
    have new: "k \<notin> fst ` set m0" using Cons.prems(1) e by auto
    have "foldl (\<lambda>m i. if ri_id i = [] \<or> ri_goalId i = [] \<or> ri_gateId i = [] then m else AList.update (ri_goalId i) i m) (m0 @ [(k, i)]) (map snd xs) =
        (m0 @ [(k, i)]) @ xs"
    proof (rule Cons.IH)
      show "distinct (map fst ((m0 @ [(k, i)]) @ xs))" using Cons.prems(1) e by simp
      show "\<forall>k i. (k, i) \<in> set xs \<longrightarrow> k = ri_goalId i \<and> ri_id i \<noteq> [] \<and> k \<noteq> [] \<and> ri_gateId i \<noteq> []"
        using Cons.prems(2) by (metis list.set_intros(2))
    qed
    moreover have "ri_goalId i = k" "ri_id i \<noteq> []" "k \<noteq> []" "ri_gateId i \<noteq> []" using k by blast+
    ultimately show ?case using new by (simp add: e keys_update_new)
  qed simp
  from this [of "[]" "is_intents l"] assms show ?thesis unfolding load_intents_def log_ok_def by simp
qed

lemma log_entry: "log_ok l \<Longrightarrow> map_of (is_intents l) g = Some i \<Longrightarrow> ri_goalId i = g \<and> ri_id i \<noteq> [] \<and> ri_gateId i \<noteq> []"
  unfolding log_ok_def by (metis map_of_SomeD)

lemma clear_log:
  assumes "log_ok l" and "map_of (is_intents l) (ri_goalId i) = Some i"
  shows "clear_intent ok i l =
    (if ok then Inr (l\<lparr>is_file := map snd (AList.delete (ri_goalId i) (is_intents l)), is_intents := AList.delete (ri_goalId i) (is_intents l),
       is_rearmed := filter (\<lambda>x. x \<noteq> ri_id i) (is_rearmed l)\<rparr>) else Inl Not_written)"
  using assms(2) by (simp add: clear_intent_def persist_intents_def bind_res_def Let_def)

lemma cleared_ok:
  assumes "log_ok l"
  shows "log_ok (l\<lparr>is_file := map snd (AList.delete g (is_intents l)), is_intents := AList.delete g (is_intents l), is_rearmed := rs\<rparr>)"
proof -
  have "(k, i) \<in> set (AList.delete g (is_intents l)) \<Longrightarrow> (k, i) \<in> set (is_intents l)" for k i by (auto simp: AList.delete_eq)
  with assms have "\<forall>k i. (k, i) \<in> set (AList.delete g (is_intents l)) \<longrightarrow> k = ri_goalId i \<and> ri_id i \<noteq> [] \<and> k \<noteq> [] \<and> ri_gateId i \<noteq> []"
    unfolding log_ok_def by blast
  moreover have "distinct (map fst (AList.delete g (is_intents l)))" using assms by (simp add: log_ok_def distinct_delete)
  ultimately show ?thesis unfolding log_ok_def by simp
qed

lemma begun_ok:
  assumes "log_ok l" and "map_of (is_intents l) (ri_goalId i) = None" and "ri_id i \<noteq> []" "ri_goalId i \<noteq> []" "ri_gateId i \<noteq> []"
  shows "log_ok (l\<lparr>is_file := map snd (AList.update (ri_goalId i) i (is_intents l)), is_intents := AList.update (ri_goalId i) i (is_intents l)\<rparr>)"
proof -
  have "ri_goalId i \<notin> fst ` set (is_intents l)" using assms(2) by (simp add: map_of_eq_None_iff)
  then show ?thesis using assms unfolding log_ok_def by (auto simp: keys_update_new)
qed

section \<open>The invariant\<close>

definition no_pending :: "(string \<Rightarrow> gate_status option) \<Rightarrow> bool" where
  "no_pending st \<longleftrightarrow> (\<forall>x. st x \<noteq> Some Pending)"

text \<open>An open reset that a boot will redo.\<close>

definition redone :: "reset_goal \<Rightarrow> reset_intent option \<Rightarrow> bool" where
  "redone row entry \<longleftrightarrow> (\<exists>i. entry = Some i \<and> ri_reopenRequired i \<and> \<not> rg_archived row \<and> \<not> rg_paused row \<and> workflow_with (ri_gateId i) row \<noteq> None)"

definition intent_ok :: "goal_state \<Rightarrow> goal_state \<Rightarrow> reset_intent \<Rightarrow> bool" where
  "intent_ok st st' i \<longleftrightarrow>
     (if ri_reopenRequired i
      then ri_previousState i = G_complete \<and> st \<in> {G_complete, G_in_progress} \<and> st' \<in> {G_complete, G_in_progress}
      else st \<noteq> G_complete \<and> st' \<noteq> G_complete)"

definition row_ok :: "reset_goal \<Rightarrow> reset_goal \<Rightarrow> pview \<Rightarrow> bool" where
  "row_ok a b v \<longleftrightarrow>
     b = a\<lparr>rg_state := rg_state b\<rparr> \<and>
     (rg_state a \<noteq> rg_state b \<longrightarrow> rg_state a = G_in_progress \<and> rg_state b = G_complete \<and> redone a (v_log v)) \<and>
     (rg_state a = G_complete \<longrightarrow> no_pending (v_gates v)) \<and>
     (rg_state b = G_complete \<longrightarrow> no_pending (v_savedGates v) \<or> redone a (v_log v)) \<and>
     (\<forall>i. v_log v = Some i \<longrightarrow> intent_ok (rg_state a) (rg_state b) i)"

definition run_ok :: "reset_goal \<Rightarrow> reset_goal \<Rightarrow> pview \<Rightarrow> reset_run \<Rightarrow> bool" where
  "run_ok a b v r \<longleftrightarrow>
     v_log v = Some (rn_intent r) \<and>
     (\<not> rn_recovery r \<longrightarrow> rg_state a = rg_state b) \<and>
     (rn_phase r = Gate_write \<or> rn_phase r = Closing \<longrightarrow> rg_state a \<noteq> G_complete \<and> rg_state b \<noteq> G_complete) \<and>
     (rn_phase r = Undo_goal \<or> rn_phase r = Undo_log \<longrightarrow> \<not> rn_recovery r) \<and>
     (\<not> rn_recovery r \<and> rn_phase r \<in> {Goal_write, Gate_write, Undo_goal} \<and> ri_reopenRequired (rn_intent r) \<longrightarrow>
        no_pending (v_gates v) \<and> no_pending (v_savedGates v))"

definition gates_ok :: "pview \<Rightarrow> bool" where
  "gates_ok v \<longleftrightarrow> (\<forall>x. v_gates v x \<noteq> v_savedGates v x \<longrightarrow> v_gates v x = Some Pending \<and> v_savedGates v x \<noteq> None)"

definition pair_ok :: "string \<Rightarrow> reset_goal \<Rightarrow> reset_goal \<Rightarrow> pview \<Rightarrow> (nat \<Rightarrow> reset_run option) \<Rightarrow> reset_intent list \<Rightarrow> bool" where
  "pair_ok g a b v rs qs \<longleftrightarrow>
     g \<noteq> [] \<and> workflow_with [] a = None \<and> row_ok a b v \<and>
     (\<forall>n r. rs n = Some r \<longrightarrow> run_ok a b v r \<and> qs = []) \<and> (\<forall>n m r q. rs n = Some r \<and> rs m = Some q \<longrightarrow> n = m) \<and>
     (qs = [] \<or> (\<exists>i. qs = [i] \<and> v_log v = Some i))"

definition view_ok :: "string \<Rightarrow> pview \<Rightarrow> (nat \<Rightarrow> reset_run option) \<Rightarrow> reset_intent list \<Rightarrow> bool" where
  "view_ok g v rs qs \<longleftrightarrow>
     gates_ok v \<and>
     (case (v_goal v, v_saved v) of
        (None, None) \<Rightarrow> v_log v = None \<and> rs = Map.empty \<and> qs = []
      | (Some a, Some b) \<Rightarrow> pair_ok g a b v rs qs
      | _ \<Rightarrow> False)"

definition runs_of :: "(nat \<times> reset_run) list \<Rightarrow> string \<Rightarrow> nat \<Rightarrow> reset_run option" where
  "runs_of rs g n = (case map_of rs n of None \<Rightarrow> None | Some r \<Rightarrow> if ri_goalId (rn_intent r) = g then Some r else None)"

definition queue_of :: "reset_intent list \<Rightarrow> string \<Rightarrow> reset_intent list" where
  "queue_of qs g = filter (\<lambda>i. ri_goalId i = g) qs"

definition goal_keys_ok :: "project \<Rightarrow> bool" where
  "goal_keys_ok p \<longleftrightarrow> (\<forall>g. map_of (pj_goals p) g \<noteq> None \<or> map_of (pj_savedGoals p) g \<noteq> None \<longrightarrow> no_colon g)"

definition ids_ok :: "gateway \<Rightarrow> bool" where
  "ids_ok s \<longleftrightarrow> (\<forall>g. map_of (is_intents (pj_log (gw_project s))) g \<noteq> None \<longrightarrow> no_colon g) \<and>
     (\<forall>n r. map_of (gw_runs s) n = Some r \<longrightarrow> no_colon (ri_goalId (rn_intent r))) \<and>
     (\<forall>i\<in>set (gw_queue s). no_colon (ri_goalId i))"

definition gw_ok :: "gateway \<Rightarrow> bool" where
  "gw_ok s \<longleftrightarrow> goal_keys_ok (gw_project s) \<and> log_ok (pj_log (gw_project s)) \<and> ids_ok s \<and>
     (\<forall>g. no_colon g \<longrightarrow> view_ok g (pview (gw_project s) g) (runs_of (gw_runs s) g) (queue_of (gw_queue s) g))"

lemma runs_of_update:
  "runs_of (AList.update n r rs) h = (if ri_goalId (rn_intent r) = h then (runs_of rs h)(n \<mapsto> r) else (runs_of rs h)(n := None))"
  by (simp add: runs_of_def fun_eq_iff)

lemma runs_of_delete: "runs_of (AList.delete n rs) h = (runs_of rs h)(n := None)"
  by (simp add: runs_of_def fun_eq_iff)

text \<open>A step of one goal: the others keep their views.\<close>

lemma gw_okI:
  assumes s: "gw_ok s" and keys: "goal_keys_ok (gw_project s')" and log: "log_ok (pj_log (gw_project s'))" and ids: "ids_ok s'"
    and other: "\<And>h. h \<noteq> g \<Longrightarrow> no_colon h \<Longrightarrow> pview (gw_project s') h = pview (gw_project s) h \<and>
      runs_of (gw_runs s') h = runs_of (gw_runs s) h \<and> queue_of (gw_queue s') h = queue_of (gw_queue s) h"
    and own: "no_colon g \<Longrightarrow> view_ok g (pview (gw_project s') g) (runs_of (gw_runs s') g) (queue_of (gw_queue s') g)"
  shows "gw_ok s'"
  unfolding gw_ok_def
proof (intro conjI allI impI keys log ids)
  fix h assume h: "no_colon h"
  show "view_ok h (pview (gw_project s') h) (runs_of (gw_runs s') h) (queue_of (gw_queue s') h)"
  proof (cases "h = g")
    case True
    with own h show ?thesis by simp
  next
    case False
    with other [OF False h] s h show ?thesis by (simp add: gw_ok_def)
  qed
qed

lemma view_okE:
  assumes "gw_ok s" and "no_colon g" and "map_of (pj_goals (gw_project s)) g = Some a"
  obtains b where "map_of (pj_savedGoals (gw_project s)) g = Some b" "gates_ok (pview (gw_project s) g)"
    "pair_ok g a b (pview (gw_project s) g) (runs_of (gw_runs s) g) (queue_of (gw_queue s) g)"
proof -
  have "view_ok g (pview (gw_project s) g) (runs_of (gw_runs s) g) (queue_of (gw_queue s) g)"
    using assms(1,2) by (simp add: gw_ok_def)
  then show thesis using assms(3) that
    by (cases "map_of (pj_savedGoals (gw_project s)) g") (simp_all add: view_ok_def)
qed

lemma view_okI:
  assumes "gates_ok v" and "v_goal v = Some a" and "v_saved v = Some b" and "pair_ok g a b v rs qs"
  shows "view_ok g v rs qs"
  using assms by (simp add: view_ok_def)

lemma on_project_sel [simp]:
  "gw_project (on_project f s) = f (gw_project s)" "gw_runs (on_project f s) = gw_runs s" "gw_queue (on_project f s) = gw_queue s"
  by (simp_all add: on_project_def)

lemma ids_same_log: "gw_ok s \<Longrightarrow> pj_log p = pj_log (gw_project s) \<Longrightarrow> ids_ok (s\<lparr>gw_project := p\<rparr>)"
  by (simp add: gw_ok_def ids_ok_def)

lemma goal_no_colon: "gw_ok s \<Longrightarrow> map_of (pj_goals (gw_project s)) g = Some a \<Longrightarrow> no_colon g"
  by (simp add: gw_ok_def goal_keys_ok_def)

end
