(* ===== verification/Reset_Safety.thy ===== *)
theory Reset_Safety
  imports Reset_View
begin

text \<open>
  Crash safety of gate resets (\<open>Reset_Log\<close>): whatever requests, crashes and other writers do, in any
  interleaving of the awaited writes and with any of them refused, no goal is shown complete with a
  pending gate, at runtime or after a restart; a restart whose writes succeed finishes every open reset.
  Requests that resume an open intent are excluded; \<open>retry_breaks_the_log\<close> shows what they can do.
\<close>

section \<open>Every step keeps the invariant\<close>

text \<open>Steps of other writers.\<close>

lemma view_set_row:
  assumes "map_of (pj_goals p) g = Some a"
  shows "pview (set_row g f p) h = (if h = g then (pview p h)\<lparr>v_goal := Some (f a), v_saved := Some (f a)\<rparr> else pview p h)"
    "pj_log (set_row g f p) = pj_log p"
  using assms by (simp_all add: set_row_def pview_def)

lemma no_pending_eq: "gates_ok v \<Longrightarrow> no_pending (v_gates v) \<Longrightarrow> no_pending (v_savedGates v)"
  unfolding gates_ok_def no_pending_def by metis

lemma set_row_ok:
  assumes s: "gw_ok s" and a: "map_of (pj_goals (gw_project s)) g = Some a"
    and f: "rg_workflow (f a) = rg_workflow a"
    and state: "rg_state (f a) = rg_state a \<or> rg_state (f a) = G_complete \<and> no_pending (status_of (pj_gates (gw_project s)) g) \<and>
      map_of (is_intents (pj_log (gw_project s))) g = None"
  shows "gw_ok (on_project (set_row g f) s)"
proof (rule gw_okI [OF s, where g = g])
  let ?p = "gw_project s"
  note no = goal_no_colon [OF s a]
  show "goal_keys_ok (gw_project (on_project (set_row g f) s))"
    using s no by (simp add: gw_ok_def goal_keys_ok_def on_project_def set_row_def a)
  show "log_ok (pj_log (gw_project (on_project (set_row g f) s)))"
    using s by (simp add: gw_ok_def on_project_def view_set_row [OF a])
  show "ids_ok (on_project (set_row g f) s)" unfolding on_project_def by (rule ids_same_log [OF s]) (simp add: view_set_row [OF a])
  show "pview (gw_project (on_project (set_row g f) s)) h = pview ?p h \<and> runs_of (gw_runs (on_project (set_row g f) s)) h = runs_of (gw_runs s) h \<and>
      queue_of (gw_queue (on_project (set_row g f) s)) h = queue_of (gw_queue s) h" if "h \<noteq> g" for h
    using that by (simp add: on_project_def view_set_row [OF a])
  obtain b where b: "map_of (pj_savedGoals ?p) g = Some b" "gates_ok (pview ?p g)"
      "pair_ok g a b (pview ?p g) (runs_of (gw_runs s) g) (queue_of (gw_queue s) g)"
    by (rule view_okE [OF s no a])
  let ?v = "(pview ?p g)\<lparr>v_goal := Some (f a), v_saved := Some (f a)\<rparr>"
  have old: "row_ok a b (pview ?p g)" using b(3) by (simp add: pair_ok_def)
  have quiet: "no_pending (status_of (pj_gates ?p) g)" if "rg_state (f a) = G_complete"
    using state old that by (auto simp: row_ok_def)
  then have saved: "no_pending (status_of (pj_savedGates ?p) g)" if "rg_state (f a) = G_complete"
    using no_pending_eq [OF b(2)] that by simp
  have row: "row_ok (f a) (f a) ?v" using state old quiet saved unfolding row_ok_def by (auto simp: intent_ok_def)
  have runs: "run_ok (f a) (f a) ?v r" if "run_ok a b (pview ?p g) r" for r
    using old that state unfolding row_ok_def run_ok_def by auto
  have "pair_ok g (f a) (f a) ?v (runs_of (gw_runs s) g) (queue_of (gw_queue s) g)"
    using b(3) row runs f unfolding pair_ok_def by (simp add: workflow_with_def)
  then have "view_ok g ?v (runs_of (gw_runs s) g) (queue_of (gw_queue s) g)"
    using b(2) by (intro view_okI) (simp_all add: gates_ok_def)
  then show "view_ok g (pview (gw_project (on_project (set_row g f) s)) g) (runs_of (gw_runs (on_project (set_row g f) s)) g)
      (queue_of (gw_queue (on_project (set_row g f) s)) g)"
    by (simp add: on_project_def view_set_row [OF a])
qed

text \<open>Writes of gates.\<close>

lemma view_set_status:
  assumes "no_colon g" and "no_colon h"
  shows "pview (set_status g i st p) h =
    (if h = g \<and> status_of (pj_gates p) g i \<noteq> None
     then (pview p h)\<lparr>v_gates := (status_of (pj_gates p) g)(i \<mapsto> st), v_savedGates := (status_of (pj_savedGates p) g)(i \<mapsto> st)\<rparr> else pview p h)"
    "pj_log (set_status g i st p) = pj_log p"
  by (auto simp: set_status_def pview_def status_of_def fun_eq_iff compositeKey_eq [OF assms(2,1)] split: option.splits)

lemma view_save_gate:
  assumes "no_colon g" and "no_colon h"
  shows "pview (p\<lparr>pj_savedGates := save_gate (pj_gates p) (pj_savedGates p) (compositeKey g i)\<rparr>) h =
    (if h = g then (pview p h)\<lparr>v_savedGates := (status_of (pj_savedGates p) g)(i := status_of (pj_gates p) g i)\<rparr> else pview p h)"
  by (auto simp: save_gate_def pview_def status_of_def fun_eq_iff compositeKey_eq [OF assms(2,1)] split: option.splits)

lemma pair_okI:
  assumes "pair_ok g a b v rs qs" and "row_ok a' b' v'" and "workflow_with [] a' = workflow_with [] a" and "v_log v' = v_log v"
    and "\<And>n r. rs n = Some r \<Longrightarrow> run_ok a b v r \<Longrightarrow> run_ok a' b' v' r"
  shows "pair_ok g a' b' v' rs qs"
  using assms unfolding pair_ok_def by simp

lemma set_status_ok:
  assumes s: "gw_ok s" and a: "map_of (pj_goals (gw_project s)) g = Some a"
    and st: "st = Pending \<Longrightarrow> map_of (is_intents (pj_log (gw_project s))) g = None \<and> rg_state a \<noteq> G_complete"
  shows "gw_ok (on_project (set_status g i st) s)"
proof (rule gw_okI [OF s, where g = g])
  let ?p = "gw_project s"
  note no = goal_no_colon [OF s a]
  have rows: "pj_goals (set_status g i st ?p) = pj_goals ?p" "pj_savedGoals (set_status g i st ?p) = pj_savedGoals ?p"
    by (simp_all add: set_status_def split: option.split)
  show "goal_keys_ok (gw_project (on_project (set_status g i st) s))" using s by (simp add: gw_ok_def goal_keys_ok_def on_project_def rows)
  show "log_ok (pj_log (gw_project (on_project (set_status g i st) s)))"
    using s by (simp add: gw_ok_def on_project_def view_set_status(2) [OF no no])
  show "ids_ok (on_project (set_status g i st) s)" unfolding on_project_def by (rule ids_same_log [OF s]) (rule view_set_status(2) [OF no no])
  show "pview (gw_project (on_project (set_status g i st) s)) h = pview ?p h \<and> runs_of (gw_runs (on_project (set_status g i st) s)) h = runs_of (gw_runs s) h \<and>
      queue_of (gw_queue (on_project (set_status g i st) s)) h = queue_of (gw_queue s) h" if "h \<noteq> g" "no_colon h" for h
    using that by (simp add: on_project_def view_set_status(1) [OF no that(2)])
  obtain b where b: "map_of (pj_savedGoals ?p) g = Some b" "gates_ok (pview ?p g)"
      "pair_ok g a b (pview ?p g) (runs_of (gw_runs s) g) (queue_of (gw_queue s) g)"
    by (rule view_okE [OF s no a])
  let ?v = "if status_of (pj_gates ?p) g i \<noteq> None
     then (pview ?p g)\<lparr>v_gates := (status_of (pj_gates ?p) g)(i \<mapsto> st), v_savedGates := (status_of (pj_savedGates ?p) g)(i \<mapsto> st)\<rparr> else pview ?p g"
  have kept: "v_log ?v = v_log (pview ?p g)" "v_goal ?v = Some a" "v_saved ?v = Some b" using a b(1) by simp_all
  have pend: "no_pending (v_gates (pview ?p g)) \<Longrightarrow> st \<noteq> Pending \<Longrightarrow> no_pending (v_gates ?v)"
    "no_pending (v_savedGates (pview ?p g)) \<Longrightarrow> st \<noteq> Pending \<Longrightarrow> no_pending (v_savedGates ?v)"
    by (auto simp: no_pending_def)
  have old: "row_ok a b (pview ?p g)" using b(3) by (simp add: pair_ok_def)
  have "pair_ok g a b ?v (runs_of (gw_runs s) g) (queue_of (gw_queue s) g)"
  proof (rule pair_okI [OF b(3) _ refl kept(1)])
    show "row_ok a b ?v"
    proof (cases "st = Pending")
      case True
      with st old have "rg_state a \<noteq> G_complete" "rg_state b \<noteq> G_complete" by (auto simp: row_ok_def redone_def)
      with old show ?thesis unfolding row_ok_def kept by (elim conjE) simp
    next
      case False
      with old pend show ?thesis unfolding row_ok_def kept by blast
    qed
    show "run_ok a b ?v r" if "run_ok a b (pview ?p g) r" for r
    proof (cases "st = Pending")
      case True
      with st that show ?thesis by (simp add: run_ok_def)
    next
      case False
      with that pend show ?thesis unfolding run_ok_def kept by blast
    qed
  qed
  moreover have "gates_ok ?v" using b(2) by (simp add: gates_ok_def)
  ultimately have "view_ok g ?v (runs_of (gw_runs s) g) (queue_of (gw_queue s) g)" using kept by (intro view_okI)
  then show "view_ok g (pview (gw_project (on_project (set_status g i st) s)) g) (runs_of (gw_runs (on_project (set_status g i st) s)) g)
      (queue_of (gw_queue (on_project (set_status g i st) s)) g)"
    by (simp only: on_project_sel view_set_status(1) [OF no no] simp_thms)
qed

lemma publish_gate_ok:
  assumes s: "gw_ok s" and a: "map_of (pj_goals (gw_project s)) g = Some a"
  shows "gw_ok (on_project (\<lambda>p. p\<lparr>pj_savedGates := save_gate (pj_gates p) (pj_savedGates p) (compositeKey g i)\<rparr>) s)" (is "gw_ok ?s")
proof (rule gw_okI [OF s, where g = g])
  let ?p = "gw_project s"
  note no = goal_no_colon [OF s a]
  show "goal_keys_ok (gw_project ?s)" "log_ok (pj_log (gw_project ?s))" using s by (simp_all add: gw_ok_def goal_keys_ok_def on_project_def)
  show "ids_ok ?s" unfolding on_project_def by (rule ids_same_log [OF s]) simp
  show "pview (gw_project ?s) h = pview ?p h \<and> runs_of (gw_runs ?s) h = runs_of (gw_runs s) h \<and> queue_of (gw_queue ?s) h = queue_of (gw_queue s) h"
    if "h \<noteq> g" "no_colon h" for h
    using that by (simp add: on_project_def view_save_gate [OF no that(2)])
  obtain b where b: "map_of (pj_savedGoals ?p) g = Some b" "gates_ok (pview ?p g)"
      "pair_ok g a b (pview ?p g) (runs_of (gw_runs s) g) (queue_of (gw_queue s) g)"
    by (rule view_okE [OF s no a])
  let ?v = "(pview ?p g)\<lparr>v_savedGates := (status_of (pj_savedGates ?p) g)(i := status_of (pj_gates ?p) g i)\<rparr>"
  have old: "row_ok a b (pview ?p g)" using b(3) by (simp add: pair_ok_def)
  have pend: "no_pending (v_gates (pview ?p g)) \<Longrightarrow> no_pending (v_savedGates (pview ?p g)) \<Longrightarrow> no_pending (v_savedGates ?v)"
    by (simp add: no_pending_def)
  have "pair_ok g a b ?v (runs_of (gw_runs s) g) (queue_of (gw_queue s) g)"
  proof (rule pair_okI [OF b(3) _ refl])
    have "no_pending (v_savedGates ?v) \<or> redone a (v_log ?v)" if "rg_state b = G_complete"
    proof (cases "rg_state a = G_complete")
      case True
      with old have "no_pending (v_gates (pview ?p g))" by (simp add: row_ok_def)
      with pend no_pending_eq [OF b(2)] show ?thesis by blast
    next
      case False
      with old that show ?thesis by (simp add: row_ok_def)
    qed
    with old show "row_ok a b ?v" unfolding row_ok_def by simp
    show "run_ok a b ?v r" if "run_ok a b (pview ?p g) r" for r
      using that pend unfolding run_ok_def by simp
  qed simp
  moreover have "gates_ok ?v" using b(2) unfolding gates_ok_def by auto
  ultimately have "view_ok g ?v (runs_of (gw_runs s) g) (queue_of (gw_queue s) g)" using a b(1) by (intro view_okI) simp_all
  then show "view_ok g (pview (gw_project ?s) g) (runs_of (gw_runs ?s) g) (queue_of (gw_queue ?s) g)"
    by (simp add: on_project_def view_save_gate [OF no no])
qed

text \<open>Steps of a run.\<close>

lemma run_view:
  assumes s: "gw_ok s" and run: "map_of (gw_runs s) n = Some r"
  defines "g \<equiv> ri_goalId (rn_intent r)"
  obtains a b where "no_colon g" "map_of (pj_goals (gw_project s)) g = Some a" "map_of (pj_savedGoals (gw_project s)) g = Some b"
    "gates_ok (pview (gw_project s) g)" "workflow_with [] a = None" "g \<noteq> []" "row_ok a b (pview (gw_project s) g)"
    "run_ok a b (pview (gw_project s) g) r" "runs_of (gw_runs s) g = [n \<mapsto> r]" "queue_of (gw_queue s) g = []"
proof -
  have no: "no_colon g" using s run by (simp add: gw_ok_def ids_ok_def g_def)
  then have v: "view_ok g (pview (gw_project s) g) (runs_of (gw_runs s) g) (queue_of (gw_queue s) g)" using s by (simp add: gw_ok_def)
  have here: "runs_of (gw_runs s) g n = Some r" using run by (simp add: runs_of_def g_def)
  obtain a where a: "map_of (pj_goals (gw_project s)) g = Some a"
    using v here by (cases "map_of (pj_goals (gw_project s)) g"; cases "map_of (pj_savedGoals (gw_project s)) g") (simp_all add: view_ok_def)
  obtain b where b: "map_of (pj_savedGoals (gw_project s)) g = Some b" "gates_ok (pview (gw_project s) g)"
      "pair_ok g a b (pview (gw_project s) g) (runs_of (gw_runs s) g) (queue_of (gw_queue s) g)"
    by (rule view_okE [OF s no a])
  have "runs_of (gw_runs s) g m = None" if "m \<noteq> n" for m
    using b(3) here that unfolding pair_ok_def by (metis not_None_eq)
  then have "runs_of (gw_runs s) g = [n \<mapsto> r]" using here by (auto simp: fun_eq_iff)
  moreover have "g \<noteq> []" "workflow_with [] a = None" "row_ok a b (pview (gw_project s) g)" "run_ok a b (pview (gw_project s) g) r"
      "queue_of (gw_queue s) g = []"
    using b(3) here unfolding pair_ok_def by blast+
  ultimately show thesis by (intro that [OF no a b(1,2)])
qed

lemma runs_of_none: "map_of rs n = None \<Longrightarrow> (runs_of rs h)(n := None) = runs_of rs h"
  by (simp add: runs_of_def fun_eq_iff)

lemma runs_of_else: "map_of rs n = Some r \<Longrightarrow> ri_goalId (rn_intent r) \<noteq> h \<Longrightarrow> (runs_of rs h)(n := None) = runs_of rs h"
  by (simp add: runs_of_def fun_eq_iff)

lemma run_project_ok:
  assumes s: "gw_ok s" and run: "map_of (gw_runs s) n = Some r" and g: "g = ri_goalId (rn_intent r)"
    and keys: "goal_keys_ok p'" and log: "pj_log p' = pj_log (gw_project s)"
    and other: "\<And>h. h \<noteq> g \<Longrightarrow> no_colon h \<Longrightarrow> pview p' h = pview (gw_project s) h"
    and v: "map_of (pj_goals p') g = Some a'" "map_of (pj_savedGoals p') g = Some b'" "gates_ok (pview p' g)" "row_ok a' b' (pview p' g)"
      "workflow_with [] a' = None"
  shows "run_ok a' b' (pview p' g) (r\<lparr>rn_phase := ph\<rparr>) \<Longrightarrow> gw_ok (enter n r ph (s\<lparr>gw_project := p'\<rparr>))"
    and "gw_ok (drop_run n (s\<lparr>gw_project := p'\<rparr>))"
proof -
  obtain a b where o: "no_colon g" "g \<noteq> []" "runs_of (gw_runs s) g = [n \<mapsto> r]" "queue_of (gw_queue s) g = []"
    using run_view [OF s run] unfolding g by metis
  have ids: "ids_ok s" and l: "log_ok (pj_log p')" using s log by (simp_all add: gw_ok_def)
  show "gw_ok (enter n r ph (s\<lparr>gw_project := p'\<rparr>))" if "run_ok a' b' (pview p' g) (r\<lparr>rn_phase := ph\<rparr>)"
  proof (rule gw_okI [OF s, where g = g])
    show "ids_ok (enter n r ph (s\<lparr>gw_project := p'\<rparr>))" using ids log o(1) g by (simp add: ids_ok_def enter_def)
    show "pview (gw_project (enter n r ph (s\<lparr>gw_project := p'\<rparr>))) h = pview (gw_project s) h \<and>
        runs_of (gw_runs (enter n r ph (s\<lparr>gw_project := p'\<rparr>))) h = runs_of (gw_runs s) h \<and>
        queue_of (gw_queue (enter n r ph (s\<lparr>gw_project := p'\<rparr>))) h = queue_of (gw_queue s) h" if "h \<noteq> g" "no_colon h" for h
      using other [OF that] that(1) g by (simp add: enter_def runs_of_update runs_of_else [OF run])
    have "pair_ok g a' b' (pview p' g) [n \<mapsto> r\<lparr>rn_phase := ph\<rparr>] []"
      using that v o by (simp add: pair_ok_def)
    then show "view_ok g (pview (gw_project (enter n r ph (s\<lparr>gw_project := p'\<rparr>))) g) (runs_of (gw_runs (enter n r ph (s\<lparr>gw_project := p'\<rparr>))) g)
        (queue_of (gw_queue (enter n r ph (s\<lparr>gw_project := p'\<rparr>))) g)"
      using v o g by (intro view_okI) (simp_all add: enter_def runs_of_update)
  qed (use keys l in \<open>simp_all add: enter_def\<close>)
  show "gw_ok (drop_run n (s\<lparr>gw_project := p'\<rparr>))"
  proof (rule gw_okI [OF s, where g = g])
    show "ids_ok (drop_run n (s\<lparr>gw_project := p'\<rparr>))" using ids log by (simp add: ids_ok_def drop_run_def)
    show "pview (gw_project (drop_run n (s\<lparr>gw_project := p'\<rparr>))) h = pview (gw_project s) h \<and>
        runs_of (gw_runs (drop_run n (s\<lparr>gw_project := p'\<rparr>))) h = runs_of (gw_runs s) h \<and>
        queue_of (gw_queue (drop_run n (s\<lparr>gw_project := p'\<rparr>))) h = queue_of (gw_queue s) h" if "h \<noteq> g" "no_colon h" for h
      using other [OF that] that(1) g by (simp add: drop_run_def runs_of_delete runs_of_else [OF run])
    have "pair_ok g a' b' (pview p' g) Map.empty []" using v o by (simp add: pair_ok_def)
    then show "view_ok g (pview (gw_project (drop_run n (s\<lparr>gw_project := p'\<rparr>))) g) (runs_of (gw_runs (drop_run n (s\<lparr>gw_project := p'\<rparr>))) g)
        (queue_of (gw_queue (drop_run n (s\<lparr>gw_project := p'\<rparr>))) g)"
      using v o g by (intro view_okI) (simp_all add: drop_run_def runs_of_delete)
  qed (use keys l in \<open>simp_all add: drop_run_def\<close>)
qed

text \<open>Without a change of the project.\<close>

lemma run_same_ok:
  assumes s: "gw_ok s" and run: "map_of (gw_runs s) n = Some r" and g: "g = ri_goalId (rn_intent r)"
    and a: "map_of (pj_goals (gw_project s)) g = Some a" "map_of (pj_savedGoals (gw_project s)) g = Some b"
  shows "run_ok a b (pview (gw_project s) g) (r\<lparr>rn_phase := ph\<rparr>) \<Longrightarrow> gw_ok (enter n r ph s)"
    and "gw_ok (drop_run n s)"
proof -
  have v: "gates_ok (pview (gw_project s) g)" "row_ok a b (pview (gw_project s) g)" "workflow_with [] a = None"
    using run_view [OF s run] a unfolding g by (metis option.inject)+
  have keys: "goal_keys_ok (gw_project s)" using s by (simp add: gw_ok_def)
  show "run_ok a b (pview (gw_project s) g) (r\<lparr>rn_phase := ph\<rparr>) \<Longrightarrow> gw_ok (enter n r ph s)"
    using run_project_ok(1) [OF s run g keys refl refl a v] by simp
  show "gw_ok (drop_run n s)" using run_project_ok(2) [OF s run g keys refl refl a v] by simp
qed

lemma same_view_ok:
  assumes s: "gw_ok s" and keys: "goal_keys_ok p" and log: "pj_log p = pj_log (gw_project s)"
    and view: "\<And>h. no_colon h \<Longrightarrow> pview p h = pview (gw_project s) h"
  shows "gw_ok (s\<lparr>gw_project := p\<rparr>)"
  using s keys view ids_same_log [OF s log] by (simp add: gw_ok_def log)

lemma failed_run_ok:
  assumes s: "gw_ok s" and run: "map_of (gw_runs s) n = Some r" and phase: "rn_phase r = Goal_write \<or> rn_phase r = Gate_write"
  shows "gw_ok (failed_run n r s)"
proof -
  let ?g = "ri_goalId (rn_intent r)"
  obtain a b where a: "map_of (pj_goals (gw_project s)) ?g = Some a" "map_of (pj_savedGoals (gw_project s)) ?g = Some b"
      "run_ok a b (pview (gw_project s) ?g) r"
    using run_view [OF s run] by metis
  show ?thesis
  proof (cases "rn_recovery r")
    case True
    then show ?thesis using run_same_ok(2) [OF s run refl a(1,2)] by (simp add: failed_run_def)
  next
    case False
    then have "run_ok a b (pview (gw_project s) ?g) (r\<lparr>rn_phase := Undo_goal\<rparr>)" using a(3) phase by (auto simp: run_ok_def)
    with False show ?thesis using run_same_ok(1) [OF s run refl a(1,2)] by (simp add: failed_run_def)
  qed
qed

lemma updated_ok:
  assumes s: "gw_ok s" and run: "map_of (gw_runs s) n = Some r" and g: "g = ri_goalId (rn_intent r)"
    and a: "map_of (pj_goals (gw_project s)) g = Some a" and v: "gates_ok (pview (gw_project s) g)"
    and row: "row_ok (a\<lparr>rg_state := st\<rparr>) (a\<lparr>rg_state := st\<rparr>) (pview (gw_project s) g)" and w: "workflow_with [] a = None"
    and ph: "run_ok (a\<lparr>rg_state := st\<rparr>) (a\<lparr>rg_state := st\<rparr>) (pview (gw_project s) g) (r\<lparr>rn_phase := ph\<rparr>)"
  shows "gw_ok (enter n r ph (s\<lparr>gw_project := fst (updateStrict True g st (gw_project s))\<rparr>))"
proof (rule run_project_ok(1) [OF s run g, where a' = "a\<lparr>rg_state := st\<rparr>" and b' = "a\<lparr>rg_state := st\<rparr>"])
  let ?p = "fst (updateStrict True g st (gw_project s))"
  have no: "no_colon g" by (rule goal_no_colon [OF s a])
  have eq: "pview ?p g = (pview (gw_project s) g)\<lparr>v_goal := Some (a\<lparr>rg_state := st\<rparr>), v_saved := Some (a\<lparr>rg_state := st\<rparr>)\<rparr>"
    by (simp add: view_updateStrict a)
  show "goal_keys_ok ?p" using s no by (simp add: gw_ok_def goal_keys_ok_def updateStrict_def a)
  show "pj_log ?p = pj_log (gw_project s)" by (rule resetStrict_log)
  show "pview ?p h = pview (gw_project s) h" if "h \<noteq> g" for h using that by (simp add: view_updateStrict a)
  show "map_of (pj_goals ?p) g = Some (a\<lparr>rg_state := st\<rparr>)" "map_of (pj_savedGoals ?p) g = Some (a\<lparr>rg_state := st\<rparr>)"
    by (simp_all add: updateStrict_def a)
  show "gates_ok (pview ?p g)" "row_ok (a\<lparr>rg_state := st\<rparr>) (a\<lparr>rg_state := st\<rparr>) (pview ?p g)"
    "run_ok (a\<lparr>rg_state := st\<rparr>) (a\<lparr>rg_state := st\<rparr>) (pview ?p g) (r\<lparr>rn_phase := ph\<rparr>)"
    using v row ph unfolding eq by (simp_all add: gates_ok_def row_ok_def run_ok_def)
  show "workflow_with [] (a\<lparr>rg_state := st\<rparr>) = None" using w by (simp add: workflow_with_def)
qed

lemma advance_goal_ok:
  assumes s: "gw_ok s" and run: "map_of (gw_runs s) n = Some r" and phase: "rn_phase r = Goal_write"
  shows "gw_ok (advance_goal ok n r s)"
proof -
  let ?g = "ri_goalId (rn_intent r)"
  obtain a b where a: "map_of (pj_goals (gw_project s)) ?g = Some a" "map_of (pj_savedGoals (gw_project s)) ?g = Some b"
      and v: "gates_ok (pview (gw_project s) ?g)" and w: "workflow_with [] a = None"
      and row: "row_ok a b (pview (gw_project s) ?g)" and rn: "run_ok a b (pview (gw_project s) ?g) r"
    using run_view [OF s run] by metis
  have entry: "v_log (pview (gw_project s) ?g) = Some (rn_intent r)" using rn by (simp add: run_ok_def)
  then have i: "intent_ok (rg_state a) (rg_state b) (rn_intent r)" using row unfolding row_ok_def by blast
  note failed = failed_run_ok [OF s run disjI1 [OF phase]]
  show ?thesis
  proof (cases "ri_reopenRequired (rn_intent r)")
    case False
    then have "run_ok a b (pview (gw_project s) ?g) (r\<lparr>rn_phase := Gate_write\<rparr>)" using rn i by (simp add: run_ok_def intent_ok_def)
    with False show ?thesis using run_same_ok(1) [OF s run refl a] by (simp add: advance_goal_def)
  next
    case True
    then have st: "rg_state a = G_complete \<or> rg_state a = G_in_progress" using i by (simp add: intent_ok_def)
    show ?thesis
    proof (cases ok)
      case ok: True
      have "row_ok (a\<lparr>rg_state := G_in_progress\<rparr>) (a\<lparr>rg_state := G_in_progress\<rparr>) (pview (gw_project s) ?g)"
        using True i entry by (simp add: row_ok_def intent_ok_def)
      moreover have "run_ok (a\<lparr>rg_state := G_in_progress\<rparr>) (a\<lparr>rg_state := G_in_progress\<rparr>) (pview (gw_project s) ?g) (r\<lparr>rn_phase := Gate_write\<rparr>)"
        using rn phase by (simp add: run_ok_def)
      ultimately have "gw_ok (enter n r Gate_write (s\<lparr>gw_project := fst (updateStrict True ?g G_in_progress (gw_project s))\<rparr>))"
        using w by (intro updated_ok [OF s run refl a(1) v])
      moreover have "updateStrict True ?g G_in_progress (gw_project s) = (fst (updateStrict True ?g G_in_progress (gw_project s)), Inr True)"
        by (simp add: updateStrict_def a)
      then obtain p' where p': "updateStrict True ?g G_in_progress (gw_project s) = (p', Inr True)" by blast
      ultimately have "gw_ok (enter n r Gate_write (s\<lparr>gw_project := p'\<rparr>))" by simp
      then show ?thesis using True st ok a(1) p' by (auto simp: advance_goal_def)
    next
      case False
      then have "updateStrict ok ?g G_in_progress (gw_project s) = (gw_project s, Inl Not_written)" by (simp add: updateStrict_def a)
      then show ?thesis using True st a(1) failed by (auto simp: advance_goal_def)
    qed
  qed
qed

lemma advance_gates_ok:
  assumes s: "gw_ok s" and run: "map_of (gw_runs s) n = Some r" and phase: "rn_phase r = Gate_write"
  shows "gw_ok (advance_gates now ok n r s)"
proof -
  let ?g = "ri_goalId (rn_intent r)"
  obtain a b where no: "no_colon ?g" and a: "map_of (pj_goals (gw_project s)) ?g = Some a" "map_of (pj_savedGoals (gw_project s)) ?g = Some b"
      and v: "gates_ok (pview (gw_project s) ?g)" and w: "workflow_with [] a = None"
      and row: "row_ok a b (pview (gw_project s) ?g)" and rn: "run_ok a b (pview (gw_project s) ?g) r"
    using run_view [OF s run] by metis
  obtain p' res where res: "resetStrict ok now ?g (ri_gateId (rn_intent r)) (rn_workflow r) (gw_project s) = (p', res)" by fastforce
  have rows: "pj_goals p' = pj_goals (gw_project s)" "pj_savedGoals p' = pj_savedGoals (gw_project s)" "pj_log p' = pj_log (gw_project s)"
    using res by (auto simp: resetStrict_def Let_def split: sum.splits if_splits)
  have keys: "goal_keys_ok p'" using s rows by (simp add: gw_ok_def goal_keys_ok_def)
  have unknown: "p' = gw_project s \<and> \<not> is_ok res" if "getDependentGateIds (ri_gateId (rn_intent r)) (rn_workflow r) True = Inl e" for e
    using res that by (auto simp: resetStrict_def)
  show ?thesis
  proof (cases res)
    case (Inl e)
    have "pview p' h = pview (gw_project s) h" if "no_colon h" for h
    proof (cases "getDependentGateIds (ri_gateId (rn_intent r)) (rn_workflow r) True")
      case (Inr ids)
      from view_resetStrict [OF Inr no that, of ok now "gw_project s"] show ?thesis by (simp add: res Inl)
    qed (use unknown in simp)
    then have "gw_ok (s\<lparr>gw_project := p'\<rparr>)" by (rule same_view_ok [OF s keys rows(3)])
    then have "gw_ok (failed_run n r (s\<lparr>gw_project := p'\<rparr>))" by (rule failed_run_ok) (simp_all add: run phase)
    then show ?thesis by (simp add: advance_gates_def res Inl)
  next
    case (Inr result)
    obtain ids where ids: "getDependentGateIds (ri_gateId (rn_intent r)) (rn_workflow r) True = Inr ids"
      using unknown Inr by (cases "getDependentGateIds (ri_gateId (rn_intent r)) (rn_workflow r) True") auto
    note view = view_resetStrict [OF ids no, of _ ok now "gw_project s"]
    have live: "rg_state a \<noteq> G_complete" "rg_state b \<noteq> G_complete" using rn phase by (simp_all add: run_ok_def)
    have own: "v_log (pview p' ?g) = v_log (pview (gw_project s) ?g)" by (simp add: rows)
    have "gw_ok (enter n r Closing (s\<lparr>gw_project := p'\<rparr>))"
    proof (rule run_project_ok(1) [OF s run refl keys rows(3), where a' = a and b' = b])
      show "pview p' h = pview (gw_project s) h" if "h \<noteq> ?g" "no_colon h" for h
        using view [OF that(2)] that(1) by (simp add: res)
      show "gates_ok (pview p' ?g)" using view [OF no] v by (auto simp: res Inr gates_ok_def reset_view_def)
      show "row_ok a b (pview p' ?g)" using row live unfolding row_ok_def own by (elim conjE) simp
      show "run_ok a b (pview p' ?g) (r\<lparr>rn_phase := Closing\<rparr>)" using rn live unfolding run_ok_def own by simp
    qed (use a w rows in simp_all)
    then show ?thesis by (simp add: advance_gates_def res Inr)
  qed
qed

text \<open>Clearing the intent of a goal that is settled: memory and rows agree, and a complete goal has no pending gate.\<close>

definition settled :: "project \<Rightarrow> string \<Rightarrow> bool" where
  "settled p g \<longleftrightarrow> map_option rg_state (map_of (pj_goals p) g) = map_option rg_state (map_of (pj_savedGoals p) g) \<and>
     (map_option rg_state (map_of (pj_savedGoals p) g) = Some G_complete \<longrightarrow> no_pending (status_of (pj_savedGates p) g))"

lemma clear_ok:
  assumes s: "gw_ok s" and idle: "runs_of (gw_runs s) (ri_goalId i) = Map.empty" "queue_of (gw_queue s) (ri_goalId i) = []"
    and no: "no_colon (ri_goalId i)" and entry: "map_of (is_intents (pj_log (gw_project s))) (ri_goalId i) = Some i"
    and calm: "settled (gw_project s) (ri_goalId i)"
    and cleared: "clear_intent ok i (pj_log (gw_project s)) = Inr l"
  shows "gw_ok (s\<lparr>gw_project := (gw_project s)\<lparr>pj_log := l\<rparr>\<rparr>)" (is "gw_ok ?s")
proof (rule gw_okI [OF s, where g = "ri_goalId i"])
  let ?g = "ri_goalId i" and ?p = "gw_project s"
  have log: "log_ok (pj_log ?p)" using s by (simp add: gw_ok_def)
  have l: "l = (pj_log ?p)\<lparr>is_file := map snd (AList.delete ?g (is_intents (pj_log ?p))), is_intents := AList.delete ?g (is_intents (pj_log ?p)),
      is_rearmed := filter (\<lambda>x. x \<noteq> ri_id i) (is_rearmed (pj_log ?p))\<rparr>"
    using cleared unfolding clear_log [OF log entry] by (simp split: if_splits)
  show "goal_keys_ok (gw_project ?s)" using s by (simp add: gw_ok_def goal_keys_ok_def)
  show "log_ok (pj_log (gw_project ?s))" using cleared_ok [OF log] by (simp add: l)
  show "ids_ok ?s" using s by (auto simp: gw_ok_def ids_ok_def l)
  show "pview (gw_project ?s) h = pview ?p h \<and> runs_of (gw_runs ?s) h = runs_of (gw_runs s) h \<and> queue_of (gw_queue ?s) h = queue_of (gw_queue s) h"
    if "h \<noteq> ?g" for h
    using that by (simp add: pview_def l)
  have v: "view_ok ?g (pview ?p ?g) Map.empty []" using s no idle by (auto simp: gw_ok_def)
  then obtain a b where a: "map_of (pj_goals ?p) ?g = Some a" "map_of (pj_savedGoals ?p) ?g = Some b" "gates_ok (pview ?p ?g)" "pair_ok ?g a b (pview ?p ?g) Map.empty []"
    using entry by (cases "map_of (pj_goals ?p) ?g"; cases "map_of (pj_savedGoals ?p) ?g") (simp_all add: view_ok_def)
  have eq: "pview (gw_project ?s) ?g = (pview ?p ?g)\<lparr>v_log := None\<rparr>" by (simp add: pview_def l)
  have "row_ok a b ((pview ?p ?g)\<lparr>v_log := None\<rparr>)"
    using a calm by (simp add: pair_ok_def row_ok_def settled_def)
  then have "pair_ok ?g a b ((pview ?p ?g)\<lparr>v_log := None\<rparr>) Map.empty []" using a(4) by (simp add: pair_ok_def)
  then show "view_ok ?g (pview (gw_project ?s) ?g) (runs_of (gw_runs ?s) ?g) (queue_of (gw_queue ?s) ?g)"
    unfolding eq using a idle by (intro view_okI) (simp_all add: gates_ok_def)
qed

lemma settledI:
  assumes "map_of (pj_goals p) g = Some a" "map_of (pj_savedGoals p) g = Some b" and "rg_state a = rg_state b"
    and "gates_ok (pview p g)" and "row_ok a b (pview p g)"
  shows "settled p g"
proof -
  have "no_pending (status_of (pj_savedGates p) g)" if "rg_state b = G_complete"
  proof -
    have "no_pending (v_gates (pview p g))" using assms(3,5) that by (simp add: row_ok_def)
    from no_pending_eq [OF assms(4) this] show ?thesis by simp
  qed
  then show ?thesis using assms(1-3) by (simp add: settled_def)
qed

lemma drop_run_sel [simp]:
  "gw_project (drop_run n s) = gw_project s" "gw_queue (drop_run n s) = gw_queue s"
  by (simp_all add: drop_run_def)

lemma clear_and_drop_ok:
  assumes s: "gw_ok s" and run: "map_of (gw_runs s) n = Some r"
    and same: "map_option rg_state (map_of (pj_goals (gw_project s)) (ri_goalId (rn_intent r))) =
      map_option rg_state (map_of (pj_savedGoals (gw_project s)) (ri_goalId (rn_intent r)))"
  shows "gw_ok (clear_and_drop ok n r s)"
proof -
  let ?g = "ri_goalId (rn_intent r)"
  obtain a b where no: "no_colon ?g" and a: "map_of (pj_goals (gw_project s)) ?g = Some a" "map_of (pj_savedGoals (gw_project s)) ?g = Some b"
      and v: "gates_ok (pview (gw_project s) ?g)" and row: "row_ok a b (pview (gw_project s) ?g)" and rn: "run_ok a b (pview (gw_project s) ?g) r"
      and idle: "runs_of (gw_runs s) ?g = [n \<mapsto> r]" "queue_of (gw_queue s) ?g = []"
    using run_view [OF s run] by metis
  have dropped: "gw_ok (drop_run n s)" by (rule run_same_ok(2) [OF s run refl a])
  show ?thesis
  proof (cases "clear_intent ok (rn_intent r) (pj_log (gw_project s))")
    case (Inl e)
    with dropped show ?thesis by (simp add: clear_and_drop_def)
  next
    case (Inr l)
    have "gw_ok ((drop_run n s)\<lparr>gw_project := (gw_project (drop_run n s))\<lparr>pj_log := l\<rparr>\<rparr>)"
    proof (rule clear_ok [OF dropped])
      show "runs_of (gw_runs (drop_run n s)) ?g = Map.empty" by (simp add: drop_run_def runs_of_delete idle)
      show "settled (gw_project (drop_run n s)) ?g" using settledI [OF a _ v row] same a by simp
      show "map_of (is_intents (pj_log (gw_project (drop_run n s)))) ?g = Some (rn_intent r)" using rn by (simp add: run_ok_def)
    qed (use no idle Inr in simp_all)
    moreover have "(drop_run n s)\<lparr>gw_project := (gw_project (drop_run n s))\<lparr>pj_log := l\<rparr>\<rparr> = clear_and_drop ok n r s"
      by (cases s) (use Inr in \<open>simp add: clear_and_drop_def drop_run_def\<close>)
    ultimately show ?thesis by simp
  qed
qed

lemma rearmed_ok:
  assumes s: "gw_ok s"
  shows "gw_ok (s\<lparr>gw_project := (gw_project s)\<lparr>pj_log := markRuntimeRearmed i (pj_log (gw_project s))\<rparr>\<rparr>)"
proof -
  let ?l = "markRuntimeRearmed i (pj_log (gw_project s))"
  have l: "is_intents ?l = is_intents (pj_log (gw_project s))" "is_file ?l = is_file (pj_log (gw_project s))"
    by (simp_all add: markRuntimeRearmed_def)
  have view: "pview ((gw_project s)\<lparr>pj_log := ?l\<rparr>) h = pview (gw_project s) h" for h by (simp add: pview_def l)
  show ?thesis using s by (simp add: gw_ok_def goal_keys_ok_def log_ok_def ids_ok_def l view)
qed

lemma advance_closing_ok:
  assumes s: "gw_ok s" and run: "map_of (gw_runs s) n = Some r" and phase: "rn_phase r = Closing"
  shows "gw_ok (advance_closing rearmed ok n r s)"
proof -
  let ?g = "ri_goalId (rn_intent r)"
  obtain a b where a: "map_of (pj_goals (gw_project s)) ?g = Some a" "map_of (pj_savedGoals (gw_project s)) ?g = Some b"
      and row: "row_ok a b (pview (gw_project s) ?g)" and rn: "run_ok a b (pview (gw_project s) ?g) r"
    using run_view [OF s run] by metis
  have "rg_state a = rg_state b" using row rn phase by (auto simp: row_ok_def run_ok_def)
  then have same: "map_option rg_state (map_of (pj_goals (gw_project s)) ?g) = map_option rg_state (map_of (pj_savedGoals (gw_project s)) ?g)"
    using a by simp
  let ?s = "s\<lparr>gw_project := (gw_project s)\<lparr>pj_log := markRuntimeRearmed (rn_intent r) (pj_log (gw_project s))\<rparr>\<rparr>"
  have "gw_ok (clear_and_drop ok n r ?s)" using same by (intro clear_and_drop_ok [OF rearmed_ok [OF s]]) (simp_all add: run)
  then show ?thesis using clear_and_drop_ok [OF s run same] run_same_ok(2) [OF s run refl a] by (simp add: advance_closing_def Let_def)
qed

lemma advance_undo_ok:
  assumes s: "gw_ok s" and run: "map_of (gw_runs s) n = Some r" and phase: "rn_phase r = Undo_goal"
  shows "gw_ok (advance_undo ok n r s)"
proof -
  let ?g = "ri_goalId (rn_intent r)"
  obtain a b where a: "map_of (pj_goals (gw_project s)) ?g = Some a" "map_of (pj_savedGoals (gw_project s)) ?g = Some b"
      and v: "gates_ok (pview (gw_project s) ?g)" and w: "workflow_with [] a = None"
      and row: "row_ok a b (pview (gw_project s) ?g)" and rn: "run_ok a b (pview (gw_project s) ?g) r"
    using run_view [OF s run] by metis
  have entry: "v_log (pview (gw_project s) ?g) = Some (rn_intent r)" using rn by (simp add: run_ok_def)
  then have i: "intent_ok (rg_state a) (rg_state b) (rn_intent r)" using row unfolding row_ok_def by blast
  have ph: "run_ok a b (pview (gw_project s) ?g) (r\<lparr>rn_phase := Undo_log\<rparr>)" using rn phase by (simp add: run_ok_def)
  show ?thesis
  proof (cases "ri_reopenRequired (rn_intent r) \<and> rg_state a = G_in_progress")
    case False
    then show ?thesis using run_same_ok(1) [OF s run refl a ph] a(1) by (auto simp: advance_undo_def)
  next
    case True
    with i have prev: "ri_previousState (rn_intent r) = G_complete" by (simp add: intent_ok_def)
    show ?thesis
    proof (cases ok)
      case ok: True
      obtain p' where p': "updateStrict True ?g G_complete (gw_project s) = (p', Inr True)" by (simp add: updateStrict_def a)
      have quiet: "no_pending (v_gates (pview (gw_project s) ?g))" "no_pending (v_savedGates (pview (gw_project s) ?g))"
        using rn phase True by (simp_all add: run_ok_def)
      have "row_ok (a\<lparr>rg_state := G_complete\<rparr>) (a\<lparr>rg_state := G_complete\<rparr>) (pview (gw_project s) ?g)"
        using True i entry quiet by (simp add: row_ok_def intent_ok_def)
      moreover have "run_ok (a\<lparr>rg_state := G_complete\<rparr>) (a\<lparr>rg_state := G_complete\<rparr>) (pview (gw_project s) ?g) (r\<lparr>rn_phase := Undo_log\<rparr>)"
        using rn phase by (simp add: run_ok_def)
      ultimately have "gw_ok (enter n r Undo_log (s\<lparr>gw_project := fst (updateStrict True ?g G_complete (gw_project s))\<rparr>))"
        using w by (intro updated_ok [OF s run refl a(1) v])
      then show ?thesis using True ok p' prev a(1) by (simp add: advance_undo_def)
    next
      case False
      then have "updateStrict ok ?g (ri_previousState (rn_intent r)) (gw_project s) = (gw_project s, Inl Not_written)" by (simp add: updateStrict_def a)
      then show ?thesis using True a(1) run_same_ok(2) [OF s run refl a] by (simp add: advance_undo_def)
    qed
  qed
qed

lemma advance_ok:
  assumes s: "gw_ok s"
  shows "gw_ok (advance now rearmed ok n s)"
proof (cases "map_of (gw_runs s) n")
  case None
  with s show ?thesis by (simp add: advance_def)
next
  case run: (Some r)
  show ?thesis
  proof (cases "rn_phase r")
    case Undo_log
    obtain a b where a: "map_of (pj_goals (gw_project s)) (ri_goalId (rn_intent r)) = Some a" "map_of (pj_savedGoals (gw_project s)) (ri_goalId (rn_intent r)) = Some b"
        "run_ok a b (pview (gw_project s) (ri_goalId (rn_intent r))) r"
      using run_view [OF s run] by metis
    with Undo_log have "rg_state a = rg_state b" by (simp add: run_ok_def)
    then show ?thesis using clear_and_drop_ok [OF s run] a run Undo_log by (simp add: advance_def)
  qed (use run advance_goal_ok [OF s run] advance_gates_ok [OF s run] advance_closing_ok [OF s run] advance_undo_ok [OF s run]
      in \<open>simp_all add: advance_def\<close>)
qed

text \<open>Requests and the queue of the recovery.\<close>

lemma request_ok:
  assumes s: "gw_ok s" and closed: "\<not> is_open g s" and uuid: "uuid \<noteq> []"
  shows "gw_ok (request_reset n g i uuid now ok s)"
proof (cases "map_of (pj_goals (gw_project s)) g")
  case None
  with s show ?thesis by (simp add: request_reset_def)
next
  case a: (Some a)
  let ?p = "gw_project s"
  show ?thesis
  proof (cases "dormant a \<or> map_of (gw_runs s) n \<noteq> None \<or> workflow_with i a = None \<or> \<not> ok")
    case True
    have none: "map_of (is_intents (pj_log ?p)) g = None" using closed by (simp add: is_open_def)
    from True show ?thesis using s none a
      by (auto simp: request_reset_def Let_def begin_intent_def persist_intents_def bind_res_def split: option.splits sum.splits)
  next
    case False
    then obtain w where w: "workflow_with i a = Some w" by (cases "workflow_with i a") auto
    obtain ids where ids: "getDependentGateIds i w True = Inr ids" using workflow_dependents [OF w] by blast
    define intent where "intent = \<lparr>ri_id = uuid, ri_goalId = g, ri_gateId = i, ri_affectedGateIds = ids,
      ri_previousStatuses = map (\<lambda>x. (x, case map_of (pj_gates ?p) (compositeKey g x) of None \<Rightarrow> Pending | Some gs \<Rightarrow> gs_status gs)) ids,
      ri_previousState = rg_state a, ri_reopenRequired = rg_state a = G_complete, ri_createdAt = now\<rparr>"
    have log: "log_ok (pj_log ?p)" using s by (simp add: gw_ok_def)
    have none: "map_of (is_intents (pj_log ?p)) g = None" using closed by (simp add: is_open_def)
    define l where "l = (pj_log ?p)\<lparr>is_file := map snd (AList.update g intent (is_intents (pj_log ?p))), is_intents := AList.update g intent (is_intents (pj_log ?p))\<rparr>"
    define run where "run = \<lparr>rn_intent = intent, rn_workflow = w, rn_recovery = False, rn_phase = Goal_write\<rparr>"
    have eq: "request_reset n g i uuid now ok s = enter n run Goal_write (s\<lparr>gw_project := ?p\<lparr>pj_log := l\<rparr>\<rparr>)" (is "_ = ?s")
      using False w ids a none
      by (simp add: request_reset_def Let_def begin_intent_def persist_intents_def bind_res_def run_def l_def intent_def)
    have no: "no_colon g" by (rule goal_no_colon [OF s a])
    obtain b where b: "map_of (pj_savedGoals ?p) g = Some b" "gates_ok (pview ?p g)"
        "pair_ok g a b (pview ?p g) (runs_of (gw_runs s) g) (queue_of (gw_queue s) g)"
      by (rule view_okE [OF s no a])
    have row: "row_ok a b (pview ?p g)" and g: "g \<noteq> []" and wf: "workflow_with [] a = None" using b(3) by (simp_all add: pair_ok_def)
    have idle: "runs_of (gw_runs s) g = Map.empty" "queue_of (gw_queue s) g = []"
      using b(3) none by (auto simp: pair_ok_def run_ok_def fun_eq_iff intro: option.exhaust [of "runs_of (gw_runs s) g x" for x])
    have gate: "i \<noteq> []" using w wf by auto
    have state: "rg_state a = rg_state b" using row none by (auto simp: row_ok_def redone_def)
    have calm: "no_pending (v_savedGates (pview ?p g))" if "rg_state b = G_complete"
      using row none that by (auto simp: row_ok_def redone_def)
    show ?thesis unfolding eq
    proof (rule gw_okI [OF s, where g = g])
      show "goal_keys_ok (gw_project ?s)" using s by (simp add: gw_ok_def goal_keys_ok_def enter_def)
      show "log_ok (pj_log (gw_project ?s))" using begun_ok [OF log, of intent] none uuid g gate by (simp add: enter_def l_def intent_def)
      show "ids_ok ?s" using s no by (simp add: gw_ok_def ids_ok_def enter_def l_def run_def intent_def)
      show "pview (gw_project ?s) h = pview ?p h \<and> runs_of (gw_runs ?s) h = runs_of (gw_runs s) h \<and> queue_of (gw_queue ?s) h = queue_of (gw_queue s) h"
        if "h \<noteq> g" for h
        using that False by (simp add: enter_def pview_def l_def runs_of_update run_def intent_def runs_of_none)
      have view: "pview (gw_project ?s) g = (pview ?p g)\<lparr>v_log := Some intent\<rparr>" by (simp add: enter_def pview_def l_def)
      have "row_ok a b ((pview ?p g)\<lparr>v_log := Some intent\<rparr>)"
        using row state calm by (simp add: row_ok_def intent_ok_def intent_def)
      moreover have "run_ok a b ((pview ?p g)\<lparr>v_log := Some intent\<rparr>) run"
        using row state calm by (simp add: run_ok_def row_ok_def run_def intent_def)
      ultimately have "pair_ok g a b ((pview ?p g)\<lparr>v_log := Some intent\<rparr>) [n \<mapsto> run] []" using g wf by (simp add: pair_ok_def)
      moreover have "runs_of (gw_runs ?s) g = [n \<mapsto> run]" "queue_of (gw_queue ?s) g = []"
        using idle by (simp_all add: enter_def runs_of_update run_def intent_def)
      ultimately show "view_ok g (pview (gw_project ?s) g) (runs_of (gw_runs ?s) g) (queue_of (gw_queue ?s) g)"
        unfolding view using a b by (intro view_okI) (simp_all add: gates_ok_def)
    qed
  qed
qed

lemma next_recovery_ok:
  assumes s: "gw_ok s"
  shows "gw_ok (next_recovery n ok s)"
proof (cases "map_of (gw_runs s) n \<noteq> None \<or> list_ex (\<lambda>(m, r). rn_recovery r) (gw_runs s) \<or> gw_queue s = []")
  case True
  then show ?thesis using s by (auto simp: next_recovery_def)
next
  case False
  then obtain i rest where q: "gw_queue s = i # rest" by (cases "gw_queue s") auto
  let ?p = "gw_project s" and ?g = "ri_goalId i"
  define s' where "s' = s\<lparr>gw_queue := rest\<rparr>"
  have no: "no_colon ?g" using s q by (simp add: gw_ok_def ids_ok_def)
  have v: "view_ok ?g (pview ?p ?g) (runs_of (gw_runs s) ?g) (queue_of (gw_queue s) ?g)" using s no by (simp add: gw_ok_def)
  have here: "queue_of (gw_queue s) ?g = i # queue_of rest ?g" by (simp add: queue_of_def q)
  obtain a where a: "map_of (pj_goals ?p) ?g = Some a"
    using v here by (cases "map_of (pj_goals ?p) ?g"; cases "map_of (pj_savedGoals ?p) ?g") (simp_all add: view_ok_def)
  obtain b where b: "map_of (pj_savedGoals ?p) ?g = Some b" "gates_ok (pview ?p ?g)"
      "pair_ok ?g a b (pview ?p ?g) (runs_of (gw_runs s) ?g) (queue_of (gw_queue s) ?g)"
    by (rule view_okE [OF s no a])
  have row: "row_ok a b (pview ?p ?g)" and g: "?g \<noteq> []" and wf: "workflow_with [] a = None" using b(3) by (simp_all add: pair_ok_def)
  have entry: "map_of (is_intents (pj_log ?p)) ?g = Some i" and rest: "queue_of rest ?g = []"
    using b(3) unfolding pair_ok_def here by auto
  have idle: "runs_of (gw_runs s) ?g x = None" for x
    using b(3) here unfolding pair_ok_def by (cases "runs_of (gw_runs s) ?g x") auto
  then have idle: "runs_of (gw_runs s) ?g = Map.empty" by auto
  have pair: "pair_ok ?g a b (pview ?p ?g) Map.empty []" using row g wf by (simp add: pair_ok_def)
  have s': "gw_ok s'"
  proof (rule gw_okI [OF s, where g = ?g])
    show "goal_keys_ok (gw_project s')" "log_ok (pj_log (gw_project s'))" "ids_ok s'"
      using s q by (simp_all add: s'_def gw_ok_def ids_ok_def)
    show "pview (gw_project s') h = pview ?p h \<and> runs_of (gw_runs s') h = runs_of (gw_runs s) h \<and> queue_of (gw_queue s') h = queue_of (gw_queue s) h"
      if "h \<noteq> ?g" for h
      using that by (simp add: s'_def queue_of_def q)
    show "view_ok ?g (pview (gw_project s') ?g) (runs_of (gw_runs s') ?g) (queue_of (gw_queue s') ?g)"
      using a b pair idle rest by (intro view_okI) (simp_all add: s'_def)
  qed
  let ?cleared = "case clear_intent ok i (pj_log ?p) of Inl _ \<Rightarrow> s' | Inr l \<Rightarrow> s'\<lparr>gw_project := ?p\<lparr>pj_log := l\<rparr>\<rparr>"
  show ?thesis
  proof (cases "dormant a \<or> workflow_with (ri_gateId i) a = None")
    case True
    have "intent_ok (rg_state a) (rg_state b) i" using row entry by (simp add: row_ok_def)
    then have "\<not> redone a (v_log (pview ?p ?g))" using True entry by (auto simp: redone_def dormant_def intent_ok_def)
    then have "rg_state a = rg_state b" using row by (auto simp: row_ok_def)
    then have "settled (gw_project s') ?g" using settledI [OF a b(1) _ b(2) row] by (simp add: s'_def)
    then have "gw_ok ?cleared" (is "gw_ok ?c")
      using s' clear_ok [OF s', of i ok] no entry idle rest by (auto simp: s'_def split: sum.split)
    moreover have "next_recovery n ok s = ?c" unfolding s'_def using True False a q
      by (auto simp: next_recovery_def Let_def split: option.split)
    ultimately show ?thesis by simp
  next
    case live: False
    then obtain w where w: "workflow_with (ri_gateId i) a = Some w" by (cases "workflow_with (ri_gateId i) a") auto
    define run where "run = \<lparr>rn_intent = i, rn_workflow = w, rn_recovery = True, rn_phase = Goal_write\<rparr>"
    have eq: "next_recovery n ok s = enter n run Goal_write s'" (is "_ = ?s")
      using live w False a q by (simp add: next_recovery_def s'_def run_def Let_def)
    show ?thesis unfolding eq
    proof (rule gw_okI [OF s', where g = ?g])
      show "goal_keys_ok (gw_project ?s)" "log_ok (pj_log (gw_project ?s))" using s' by (simp_all add: enter_def gw_ok_def)
      show "ids_ok ?s" using s' no by (simp add: gw_ok_def ids_ok_def enter_def run_def)
      show "pview (gw_project ?s) h = pview (gw_project s') h \<and> runs_of (gw_runs ?s) h = runs_of (gw_runs s') h \<and> queue_of (gw_queue ?s) h = queue_of (gw_queue s') h"
        if "h \<noteq> ?g" for h
        using that False by (simp add: enter_def runs_of_update run_def s'_def runs_of_none)
      have "pair_ok ?g a b (pview ?p ?g) [n \<mapsto> run] []" using pair entry by (simp add: pair_ok_def run_ok_def run_def)
      moreover have "runs_of (gw_runs ?s) ?g = [n \<mapsto> run]" "queue_of (gw_queue ?s) ?g = []" "gw_project ?s = ?p"
        using idle rest by (simp_all add: enter_def runs_of_update run_def s'_def)
      ultimately show "view_ok ?g (pview (gw_project ?s) ?g) (runs_of (gw_runs ?s) ?g) (queue_of (gw_queue ?s) ?g)"
        using a b by (intro view_okI) simp_all
    qed
  qed
qed

text \<open>A crash, and what the boot makes visible.\<close>

definition restored :: "reset_intent \<Rightarrow> pview \<Rightarrow> pview" where
  "restored i v =
     (case v_goal v of
        None \<Rightarrow> v
      | Some a \<Rightarrow>
          if dormant a then v
          else
            (case workflow_with (ri_gateId i) a of
               None \<Rightarrow> v
             | Some w \<Rightarrow>
                 if ri_reopenRequired i \<and> rg_state a \<noteq> G_complete \<and> rg_state a \<noteq> G_in_progress then v
                 else
                   (case getDependentGateIds (ri_gateId i) w True of
                      Inl e \<Rightarrow> v
                    | Inr ids \<Rightarrow> v\<lparr>v_gates := reset_view (set ids) (v_gates v),
                        v_goal := Some (if ri_reopenRequired i \<and> rg_state a = G_complete then a\<lparr>rg_state := G_in_progress\<rparr> else a)\<rparr>)))"

lemma view_restore:
  assumes "goal_keys_ok p" and "no_colon h"
  shows "pview (restore_intent now p i) h = (if h = ri_goalId i then restored i (pview p h) else pview p h)" (is ?view)
    and "goal_keys_ok (restore_intent now p i)" (is ?keys) and "pj_log (restore_intent now p i) = pj_log p" (is ?log)
proof -
  have "?view \<and> ?keys \<and> ?log"
  proof (cases "map_of (pj_goals p) (ri_goalId i)")
    case None
    then show ?thesis using assms by (simp add: restore_intent_def restored_def)
  next
    case a: (Some a)
    then have no: "no_colon (ri_goalId i)" using assms(1) by (simp add: goal_keys_ok_def)
    show ?thesis
    proof (cases "dormant a \<or> workflow_with (ri_gateId i) a = None \<or> ri_reopenRequired i \<and> rg_state a \<noteq> G_complete \<and> rg_state a \<noteq> G_in_progress")
      case True
      then show ?thesis using assms a by (auto simp: restore_intent_def restored_def split: option.split)
    next
      case False
      then obtain w where w: "workflow_with (ri_gateId i) a = Some w" by (cases "workflow_with (ri_gateId i) a") auto
      obtain ids where ids: "getDependentGateIds (ri_gateId i) w True = Inr ids" using workflow_dependents [OF w] by blast
      let ?p = "if ri_reopenRequired i \<and> rg_state a = G_complete
        then p\<lparr>pj_goals := AList.update (ri_goalId i) (a\<lparr>rg_state := G_in_progress\<rparr>) (pj_goals p)\<rparr> else p"
      have eq: "restore_intent now p i = resetInMemory now (ri_goalId i) (ri_gateId i) w ?p"
        using False a w by (auto simp: restore_intent_def)
      have view: "pview ?p h = (if h = ri_goalId i then (pview p h)\<lparr>v_goal := Some (if ri_reopenRequired i \<and> rg_state a = G_complete
          then a\<lparr>rg_state := G_in_progress\<rparr> else a)\<rparr> else pview p h)" "pj_gates ?p = pj_gates p"
        using a by (auto simp: pview_def)
      have ?view unfolding eq view_resetInMemory [OF ids no assms(2)] view
        using False a w ids by (auto simp: restored_def)
      moreover have ?keys ?log using assms no unfolding eq by (auto simp: goal_keys_ok_def resetInMemory_def ids)
      ultimately show ?thesis by blast
    qed
  qed
  then show ?view ?keys ?log by simp_all
qed

lemma view_restore_all:
  assumes "distinct (map fst xs)" and "\<forall>k i. (k, i) \<in> set xs \<longrightarrow> k = ri_goalId i" and "goal_keys_ok p" and "no_colon h"
  shows "pview (foldl (restore_intent now) p (map snd xs)) h = (case map_of xs h of None \<Rightarrow> pview p h | Some i \<Rightarrow> restored i (pview p h)) \<and>
    goal_keys_ok (foldl (restore_intent now) p (map snd xs)) \<and> pj_log (foldl (restore_intent now) p (map snd xs)) = pj_log p"
  using assms(1-3)
proof (induction xs arbitrary: p)
  case (Cons e xs)
  obtain k i where e: "e = (k, i)" by fastforce
  have k: "k = ri_goalId i" using Cons.prems(2) e by (metis list.set_intros(1))
  have xs: "distinct (map fst xs)" "\<forall>k i. (k, i) \<in> set xs \<longrightarrow> k = ri_goalId i" using Cons.prems(1,2) by (simp, metis list.set_intros(2))
  have new: "map_of xs k = None" using Cons.prems(1) e by (simp add: map_of_eq_None_iff)
  note step = view_restore [OF Cons.prems(3) assms(4), of now i]
  from Cons.IH [OF xs step(2)] show ?case using step new
    by (cases "h = k"; cases "map_of xs h") (simp_all add: e k)
qed simp

lemma queue_of_log:
  "distinct (map fst xs) \<Longrightarrow> \<forall>k i. (k, i) \<in> set xs \<longrightarrow> k = ri_goalId i \<Longrightarrow>
   queue_of (map snd xs) g = (case map_of xs g of None \<Rightarrow> [] | Some i \<Rightarrow> [i])"
proof (induction xs)
  case (Cons e xs)
  obtain k i where e: "e = (k, i)" by fastforce
  have k: "ri_goalId i = k" using Cons.prems(2) e by (metis list.set_intros(1))
  have xs: "distinct (map fst xs)" "\<forall>k i. (k, i) \<in> set xs \<longrightarrow> k = ri_goalId i" using Cons.prems by (simp, metis list.set_intros(2))
  have new: "map_of xs k = None" using Cons.prems(1) e by (simp add: map_of_eq_None_iff)
  from Cons.IH [OF xs] show ?case using new by (cases "g = k") (simp_all add: e k queue_of_def)
qed (simp add: queue_of_def)

lemma restored_ok:
  assumes pair: "pair_ok g a b v rs qs" and v: "v_saved v = Some b" "gates_ok v"
  defines "v0 \<equiv> v\<lparr>v_goal := Some b, v_gates := v_savedGates v\<rparr>"
  defines "v' \<equiv> (case v_log v of None \<Rightarrow> v0 | Some i \<Rightarrow> restored i v0)"
  shows "view_ok g v' Map.empty (case v_log v of None \<Rightarrow> [] | Some i \<Rightarrow> [i])"
proof -
  have row: "row_ok a b v" and g: "g \<noteq> []" and w: "workflow_with [] a = None" using pair by (simp_all add: pair_ok_def)
  then have b: "b = a\<lparr>rg_state := rg_state b\<rparr>" by (simp add: row_ok_def)
  have wb: "workflow_with x b = workflow_with x a" for x by (subst b) (simp add: workflow_with_def)
  have redo: "redone b l = redone a l" for l by (subst b) (simp add: redone_def workflow_with_def)
  have unchanged: "view_ok g v0 Map.empty (case v_log v of None \<Rightarrow> [] | Some i \<Rightarrow> [i])"
    if "rg_state b = G_complete \<Longrightarrow> \<not> redone b (v_log v)"
  proof (rule view_okI)
    have "row_ok b b v0" using row that redo unfolding row_ok_def by (auto simp: v0_def intent_ok_def)
    then show "pair_ok g b b v0 Map.empty (case v_log v of None \<Rightarrow> [] | Some i \<Rightarrow> [i])"
      using g w by (simp add: pair_ok_def wb v0_def split: option.split)
  qed (simp_all add: v0_def gates_ok_def v(1))
  show ?thesis
  proof (cases "v_log v")
    case None
    then show ?thesis using unchanged by (simp add: v'_def redone_def)
  next
    case (Some i)
    have i: "intent_ok (rg_state a) (rg_state b) i" using row Some by (simp add: row_ok_def)
    show ?thesis
    proof (cases "dormant b \<or> workflow_with (ri_gateId i) b = None \<or> ri_reopenRequired i \<and> rg_state b \<noteq> G_complete \<and> rg_state b \<noteq> G_in_progress")
      case True
      then have "v' = v0" by (auto simp: v'_def Some restored_def v0_def split: option.split)
      moreover have "\<not> redone b (v_log v)" if "rg_state b = G_complete"
        using True that by (auto simp: redone_def Some dormant_def)
      ultimately show ?thesis using unchanged by simp
    next
      case False
      then obtain wf where wf: "workflow_with (ri_gateId i) b = Some wf" by (cases "workflow_with (ri_gateId i) b") auto
      obtain ids where ids: "getDependentGateIds (ri_gateId i) wf True = Inr ids" using workflow_dependents [OF wf] by blast
      let ?a = "if ri_reopenRequired i \<and> rg_state b = G_complete then b\<lparr>rg_state := G_in_progress\<rparr> else b"
      have v': "v' = v\<lparr>v_goal := Some ?a, v_gates := reset_view (set ids) (v_savedGates v)\<rparr>"
        using False wf ids by (auto simp: v'_def Some restored_def v0_def)
      have redone: "redone b (v_log v)" if "ri_reopenRequired i" using False that by (simp add: redone_def Some dormant_def)
      have live: "rg_state ?a \<noteq> G_complete" using i by (auto simp: intent_ok_def)
      have "row_ok ?a b v'" using i redone live Some unfolding row_ok_def v' by (auto simp: intent_ok_def redone_def workflow_with_def)
      moreover have "workflow_with [] ?a = None" using w wb [of "[]"] by (simp add: workflow_with_def)
      ultimately have "pair_ok g ?a b v' Map.empty [i]" using g Some by (simp add: pair_ok_def v')
      moreover have "gates_ok v'" by (auto simp: gates_ok_def v' reset_view_def)
      ultimately show ?thesis using v(1) by (simp add: Some) (intro view_okI, auto simp: v')
    qed
  qed
qed

lemma crash_ok:
  assumes s: "gw_ok s"
  shows "gw_ok (crash now s)"
proof -
  let ?p = "gw_project s"
  let ?xs = "is_intents (pj_log ?p)"
  have log: "log_ok (pj_log ?p)" using s by (simp add: gw_ok_def)
  define p0 where "p0 = ?p\<lparr>pj_goals := pj_savedGoals ?p, pj_gates := pj_savedGates ?p, pj_log := (pj_log ?p)\<lparr>is_rearmed := []\<rparr>\<rparr>"
  have boot: "boot now ?p = foldl (restore_intent now) p0 (map snd ?xs)"
    by (simp add: boot_def restorePendingInMemory_def p0_def load_log [OF log])
  have xs: "distinct (map fst ?xs)" "\<forall>k i. (k, i) \<in> set ?xs \<longrightarrow> k = ri_goalId i" using log by (simp_all add: log_ok_def)
  have keys0: "goal_keys_ok p0" using s by (simp add: gw_ok_def goal_keys_ok_def p0_def)
  note all = view_restore_all [OF xs keys0, of _ now, folded boot]
  have same: "goal_keys_ok (boot now ?p)" "pj_log (boot now ?p) = (pj_log ?p)\<lparr>is_rearmed := []\<rparr>" using all [of "[]"] by (simp_all add: p0_def)
  have gw: "gw_project (crash now s) = boot now ?p" "gw_runs (crash now s) = []" "gw_queue (crash now s) = map snd ?xs"
    by (simp_all add: crash_def Let_def same)
  have "view_ok g (pview (boot now ?p) g) (runs_of [] g) (queue_of (map snd ?xs) g)" if no: "no_colon g" for g
  proof -
    have v: "view_ok g (pview ?p g) (runs_of (gw_runs s) g) (queue_of (gw_queue s) g)" using s no by (simp add: gw_ok_def)
    have empty: "runs_of [] g = Map.empty" by (simp add: runs_of_def fun_eq_iff)
    have base: "pview p0 g = (pview ?p g)\<lparr>v_goal := map_of (pj_savedGoals ?p) g, v_gates := status_of (pj_savedGates ?p) g\<rparr>"
      by (simp add: p0_def pview_def)
    have q: "queue_of (map snd ?xs) g = (case v_log (pview ?p g) of None \<Rightarrow> [] | Some i \<Rightarrow> [i])" using queue_of_log [OF xs] by simp
    show ?thesis
    proof (cases "map_of (pj_goals ?p) g")
      case None
      then have "map_of (pj_savedGoals ?p) g = None" "map_of ?xs g = None"
        using v by (cases "map_of (pj_savedGoals ?p) g"; simp add: view_ok_def)+
      then show ?thesis using all [OF no] v empty q by (simp add: base view_ok_def gates_ok_def)
    next
      case (Some a)
      then obtain b where b: "map_of (pj_savedGoals ?p) g = Some b" "gates_ok (pview ?p g)"
          "pair_ok g a b (pview ?p g) (runs_of (gw_runs s) g) (queue_of (gw_queue s) g)"
        using view_okE [OF s no] by blast
      have "pview (boot now ?p) g = (case v_log (pview ?p g) of None \<Rightarrow> pview p0 g | Some i \<Rightarrow> restored i (pview p0 g))"
        using all [OF no] by simp
      moreover have "pview p0 g = (pview ?p g)\<lparr>v_goal := Some b, v_gates := v_savedGates (pview ?p g)\<rparr>" using b(1) by (simp add: base)
      moreover have "v_saved (pview ?p g) = Some b" using b(1) by simp
      note restored_ok [OF b(3) this b(2)]
      ultimately show ?thesis unfolding empty q by (simp only:)
    qed
  qed
  moreover have "ids_ok (crash now s)"
  proof -
    have "no_colon (ri_goalId i)" if "i \<in> snd ` set ?xs" for i
    proof -
      from that obtain k where ki: "(k, i) \<in> set ?xs" by auto
      then have "map_of ?xs k = Some i" using xs(1) by simp
      moreover have "ri_goalId i = k" using ki xs(2) by metis
      ultimately show ?thesis using s by (simp add: gw_ok_def ids_ok_def)
    qed
    then show ?thesis using s by (simp add: gw_ok_def ids_ok_def gw same)
  qed
  moreover have "log_ok (pj_log (boot now ?p))" using log by (simp add: same log_ok_def)
  ultimately show ?thesis using same(1) by (simp add: gw_ok_def gw)
qed

section \<open>No reset is ever half done\<close>

definition has_uuid :: "reset_event \<Rightarrow> bool" where
  "has_uuid e = (case e of Request _ _ _ uuid _ _ \<Rightarrow> uuid \<noteq> [] | _ \<Rightarrow> True)"

lemma gw_step_ok:
  assumes s: "gw_ok s" and e: "has_uuid e"
  shows "gw_ok (gw_step False e s)"
proof (cases e)
  case (Request n g i uuid now ok)
  then show ?thesis using s e request_ok [OF s] by (simp add: gw_step_def has_uuid_def)
next
  case (Set_status g i st)
  then show ?thesis using s set_status_ok [OF s]
    by (cases "map_of (pj_goals (gw_project s)) g") (auto simp: gw_step_def is_open_def)
next
  case (Set_dormant g paused archived)
  then show ?thesis using s set_row_ok [OF s, of g]
    by (cases "map_of (pj_goals (gw_project s)) g") (simp_all add: gw_step_def, simp add: on_project_def set_row_def)
next
  case (Complete g)
  have quiet: "\<not> goal_pending (pj_gates (gw_project s)) g \<Longrightarrow> no_pending (status_of (pj_gates (gw_project s)) g)"
    by (simp add: goal_pending_iff has_pending_status no_pending_def)
  show ?thesis using Complete s set_row_ok [OF s, of g] quiet
    by (cases "map_of (pj_goals (gw_project s)) g") (simp_all add: gw_step_def is_open_def, simp add: on_project_def set_row_def)
next
  case (Publish_goal g)
  then show ?thesis using s set_row_ok [OF s, of g]
    by (cases "map_of (pj_goals (gw_project s)) g") (simp_all add: gw_step_def, simp add: on_project_def set_row_def)
next
  case (Publish_gate g i)
  then show ?thesis using s publish_gate_ok [OF s, of g]
    by (cases "map_of (pj_goals (gw_project s)) g") (simp_all add: gw_step_def)
qed (use s next_recovery_ok advance_ok crash_ok in \<open>simp_all add: gw_step_def\<close>)

text \<open>A project without an open reset, all of it saved, in which no complete goal has a pending gate.\<close>

definition fresh_project :: "project \<Rightarrow> bool" where
  "fresh_project p \<longleftrightarrow> pj_savedGoals p = pj_goals p \<and> pj_savedGates p = pj_gates p \<and> is_intents (pj_log p) = [] \<and> is_file (pj_log p) = [] \<and>
     list_all (\<lambda>(g, a). no_colon g \<and> g \<noteq> [] \<and> workflow_with [] a = None \<and> (rg_state a = G_complete \<longrightarrow> \<not> goal_pending (pj_gates p) g)) (pj_goals p)"

definition started :: "project \<Rightarrow> gateway" where
  "started p = \<lparr>gw_project = p, gw_runs = [], gw_queue = []\<rparr>"

definition half_done :: "project \<Rightarrow> string \<Rightarrow> bool" where
  "half_done p g \<longleftrightarrow> map_option rg_state (map_of (pj_goals p) g) = Some G_complete \<and> goal_pending (pj_gates p) g"

lemma started_ok:
  assumes "fresh_project p"
  shows "gw_ok (started p)"
proof -
  have goal: "no_colon g \<and> g \<noteq> [] \<and> workflow_with [] a = None \<and> (rg_state a = G_complete \<longrightarrow> \<not> goal_pending (pj_gates p) g)"
    if "map_of (pj_goals p) g = Some a" for g a
    using assms map_of_SomeD [OF that] by (auto simp: fresh_project_def list_all_iff)
  have "view_ok g (pview p g) (runs_of [] g) (queue_of [] g)" for g
  proof (cases "map_of (pj_goals p) g")
    case None
    then show ?thesis using assms by (simp add: view_ok_def fresh_project_def gates_ok_def runs_of_def queue_of_def fun_eq_iff)
  next
    case (Some a)
    then have "row_ok a a (pview p g)" using assms goal
      by (auto simp: row_ok_def fresh_project_def no_pending_def goal_pending_iff has_pending_status)
    then have "pair_ok g a a (pview p g) (runs_of [] g) (queue_of [] g)" using goal [OF Some]
      by (simp add: pair_ok_def runs_of_def queue_of_def)
    then show ?thesis using assms Some by (intro view_okI) (simp_all add: fresh_project_def gates_ok_def)
  qed
  moreover have "goal_keys_ok p" using goal assms by (auto simp: goal_keys_ok_def fresh_project_def)
  ultimately show ?thesis using assms by (simp add: gw_ok_def started_def ids_ok_def log_ok_def fresh_project_def)
qed

lemma run_gw_ok: "gw_ok s \<Longrightarrow> list_all has_uuid es \<Longrightarrow> gw_ok (fold (gw_step False) es s)"
  by (induction es arbitrary: s) (simp_all add: gw_step_ok)

lemma gw_ok_whole:
  assumes s: "gw_ok s"
  shows "\<not> half_done (gw_project s) g"
proof (cases "map_of (pj_goals (gw_project s)) g")
  case (Some a)
  obtain b where "pair_ok g a b (pview (gw_project s) g) (runs_of (gw_runs s) g) (queue_of (gw_queue s) g)"
    using view_okE [OF s goal_no_colon [OF s Some] Some] by blast
  then show ?thesis using Some
    by (auto simp: half_done_def pair_ok_def row_ok_def no_pending_def goal_pending_iff has_pending_status)
qed (simp add: half_done_def)


section \<open>A restart finishes what is open\<close>

definition recovery_round :: "rat \<Rightarrow> reset_event list" where
  "recovery_round now = [Next_recovery 0 True, Advance 0 now True True, Advance 0 now True True, Advance 0 now True True]"

definition recover_all :: "rat \<Rightarrow> gateway \<Rightarrow> gateway" where
  "recover_all now s = fold (gw_step False) (concat (replicate (length (gw_queue s)) (recovery_round now))) s"

text \<open>The saved side of an open reset is done: the goal is reopened, the gates are pending.\<close>

definition reset_saved :: "reset_intent \<Rightarrow> workflow \<Rightarrow> pview \<Rightarrow> bool" where
  "reset_saved i w v \<longleftrightarrow>
     (ri_reopenRequired i \<longrightarrow> map_option rg_state (v_saved v) = Some G_in_progress) \<and>
     (\<forall>ids. getDependentGateIds (ri_gateId i) w True = Inr ids \<longrightarrow> (\<forall>x\<in>set ids. v_savedGates v x = None \<or> v_savedGates v x = Some Pending))"

lemma queue_front:
  assumes s: "gw_ok s" and q: "gw_queue s = i # rest"
  obtains a b where "no_colon (ri_goalId i)" "map_of (pj_goals (gw_project s)) (ri_goalId i) = Some a"
    "map_of (pj_savedGoals (gw_project s)) (ri_goalId i) = Some b" "gates_ok (pview (gw_project s) (ri_goalId i))"
    "row_ok a b (pview (gw_project s) (ri_goalId i))" "map_of (is_intents (pj_log (gw_project s))) (ri_goalId i) = Some i"
proof -
  let ?p = "gw_project s" and ?g = "ri_goalId i"
  have no: "no_colon ?g" using s q by (simp add: gw_ok_def ids_ok_def)
  have v: "view_ok ?g (pview ?p ?g) (runs_of (gw_runs s) ?g) (queue_of (gw_queue s) ?g)" using s no by (simp add: gw_ok_def)
  have here: "queue_of (gw_queue s) ?g = i # queue_of rest ?g" by (simp add: queue_of_def q)
  obtain a where a: "map_of (pj_goals ?p) ?g = Some a"
    using v here by (cases "map_of (pj_goals ?p) ?g"; cases "map_of (pj_savedGoals ?p) ?g") (simp_all add: view_ok_def)
  obtain b where b: "map_of (pj_savedGoals ?p) ?g = Some b" "gates_ok (pview ?p ?g)"
      "pair_ok ?g a b (pview ?p ?g) (runs_of (gw_runs s) ?g) (queue_of (gw_queue s) ?g)"
    by (rule view_okE [OF s no a])
  have "row_ok a b (pview ?p ?g)" "map_of (is_intents (pj_log ?p)) ?g = Some i"
    using b(3) unfolding pair_ok_def here by auto
  with that no a b show thesis by blast
qed

lemma recovery_round_ok:
  fixes now :: rat
  assumes s: "gw_ok s" and runs: "gw_runs s = []" and q: "gw_queue s = i # rest"
  defines "s' \<equiv> fold (gw_step False) (recovery_round now) s"
  shows "gw_runs s' = [] \<and> gw_queue s' = rest \<and>
    map_of (is_intents (pj_log (gw_project s'))) = (map_of (is_intents (pj_log (gw_project s))))(ri_goalId i := None) \<and>
    (\<forall>h. h \<noteq> ri_goalId i \<and> no_colon h \<longrightarrow> pview (gw_project s') h = pview (gw_project s) h) \<and>
    (\<forall>a w. map_of (pj_goals (gw_project s)) (ri_goalId i) = Some a \<and> \<not> dormant a \<and> workflow_with (ri_gateId i) a = Some w \<longrightarrow>
       reset_saved i w (pview (gw_project s') (ri_goalId i)))"
proof -
  let ?p = "gw_project s" and ?g = "ri_goalId i"
  obtain a b where no: "no_colon ?g" and a: "map_of (pj_goals ?p) ?g = Some a" and b: "map_of (pj_savedGoals ?p) ?g = Some b" "gates_ok (pview ?p ?g)"
      and row: "row_ok a b (pview ?p ?g)" and entry: "map_of (is_intents (pj_log ?p)) ?g = Some i"
    by (rule queue_front [OF s q])
  have log: "log_ok (pj_log ?p)" using s by (simp add: gw_ok_def)
  obtain l where l: "clear_intent True i (pj_log ?p) = Inr l" and cleared: "is_intents l = AList.delete ?g (is_intents (pj_log ?p))"
    using clear_log [OF log entry, of True] by simp
  show ?thesis
  proof (cases "dormant a \<or> workflow_with (ri_gateId i) a = None")
    case True
    then have "next_recovery 0 True s = s\<lparr>gw_queue := rest, gw_project := ?p\<lparr>pj_log := l\<rparr>\<rparr>"
      using a q l runs by (auto simp: next_recovery_def Let_def split: option.split)
    then have s': "s' = s\<lparr>gw_queue := rest, gw_project := ?p\<lparr>pj_log := l\<rparr>\<rparr>"
      by (simp add: s'_def recovery_round_def gw_step_def advance_def runs)
    show ?thesis using True a by (auto simp: s' runs cleared pview_def)
  next
    case False
    then obtain w where w: "workflow_with (ri_gateId i) a = Some w" by (cases "workflow_with (ri_gateId i) a") auto
    obtain ids where ids: "getDependentGateIds (ri_gateId i) w True = Inr ids" using workflow_dependents [OF w] by blast
    define run where "run ph = \<lparr>rn_intent = i, rn_workflow = w, rn_recovery = True, rn_phase = ph\<rparr>" for ph
    have i: "intent_ok (rg_state a) (rg_state b) i" using row entry by (simp add: row_ok_def)
    define p1 where "p1 = (if ri_reopenRequired i then fst (updateStrict True ?g G_in_progress ?p) else ?p)"
    define p2 where "p2 = fst (resetStrict True now ?g (ri_gateId i) w p1)"
    obtain res where res: "resetStrict True now ?g (ri_gateId i) w p1 = (p2, Inr res)"
      by (cases "resetStrict True now ?g (ri_gateId i) w p1") (auto simp: p2_def resetStrict_def ids Let_def split: if_splits)
    have s1: "next_recovery 0 True s = s\<lparr>gw_queue := rest, gw_runs := [(0, run Goal_write)]\<rparr>"
      using False w a q runs by (simp add: next_recovery_def Let_def enter_def run_def)
    have s2: "advance now True True 0 (s\<lparr>gw_queue := rest, gw_runs := [(0, run Goal_write)]\<rparr>) =
        s\<lparr>gw_queue := rest, gw_runs := [(0, run Gate_write)], gw_project := p1\<rparr>"
      using i a by (cases s) (auto simp: advance_def advance_goal_def run_def enter_def p1_def updateStrict_def intent_ok_def)
    have s3: "advance now True True 0 (s\<lparr>gw_queue := rest, gw_runs := [(0, run Gate_write)], gw_project := p1\<rparr>) =
        s\<lparr>gw_queue := rest, gw_runs := [(0, run Closing)], gw_project := p2\<rparr>"
      by (cases s) (simp add: advance_def advance_gates_def run_def enter_def res)
    have logs: "pj_log p1 = pj_log ?p" "pj_log p2 = pj_log ?p" by (simp_all add: p1_def p2_def resetStrict_log)
    have s4: "advance now True True 0 (s\<lparr>gw_queue := rest, gw_runs := [(0, run Closing)], gw_project := p2\<rparr>) =
        s\<lparr>gw_queue := rest, gw_runs := [], gw_project := p2\<lparr>pj_log := l\<rparr>\<rparr>"
      using l by (cases s) (simp add: advance_def advance_closing_def clear_and_drop_def drop_run_def run_def logs)
    have s': "s' = s\<lparr>gw_queue := rest, gw_runs := [], gw_project := p2\<lparr>pj_log := l\<rparr>\<rparr>"
      by (simp add: s'_def recovery_round_def gw_step_def s1 s2 s3 s4)
    have p1: "pview p1 h = (if h = ?g \<and> ri_reopenRequired i then (pview ?p ?g)\<lparr>v_goal := Some (a\<lparr>rg_state := G_in_progress\<rparr>),
        v_saved := Some (a\<lparr>rg_state := G_in_progress\<rparr>)\<rparr> else pview ?p h)" for h
      by (simp add: p1_def view_updateStrict a)
    note p2 = view_resetStrict [OF ids no, of _ True now p1, unfolded res, simplified]
    have stored: "pview (p2\<lparr>pj_log := l\<rparr>) h = (pview p2 h)\<lparr>v_log := map_of (is_intents l) h\<rparr>" for h by (simp add: pview_def)
    have "pview (p2\<lparr>pj_log := l\<rparr>) h = pview ?p h" if "h \<noteq> ?g" "no_colon h" for h
      unfolding stored p2 [OF that(2)] p1 using that(1) by (simp add: cleared pview_def)
    moreover have "reset_saved i w (pview (p2\<lparr>pj_log := l\<rparr>) ?g)"
    proof -
      have same: "pj_gates p1 = pj_gates ?p" "pj_savedGates p1 = pj_savedGates ?p" by (simp_all add: p1_def updateStrict_def a)
      have gates: "status_of (pj_savedGates p1) ?g x = None" if "status_of (pj_gates p1) ?g x = None" for x
      proof (rule ccontr)
        assume "status_of (pj_savedGates p1) ?g x \<noteq> None"
        with that have "v_gates (pview ?p ?g) x \<noteq> v_savedGates (pview ?p ?g) x" by (auto simp: same)
        then have "v_gates (pview ?p ?g) x = Some Pending" using b(2) unfolding gates_ok_def by blast
        with that show False by (simp add: same)
      qed
      show ?thesis unfolding stored p2 [OF no] using p1 [of ?g] gates
        by (auto simp: reset_saved_def ids)
    qed
    ultimately show ?thesis using a w by (simp add: s' cleared)
  qed
qed

lemma reset_saved_mono: "v_saved v = v_saved v' \<Longrightarrow> v_savedGates v = v_savedGates v' \<Longrightarrow> reset_saved i w v = reset_saved i w v'"
  by (simp add: reset_saved_def)

lemma recover_all_ok:
  assumes "gw_ok s" and "gw_runs s = []" and "distinct (map ri_goalId (gw_queue s))"
  shows "gw_ok (recover_all now s) \<and> gw_runs (recover_all now s) = [] \<and> gw_queue (recover_all now s) = [] \<and>
    map_of (is_intents (pj_log (gw_project (recover_all now s)))) = map_of (is_intents (pj_log (gw_project s))) |` (- ri_goalId ` set (gw_queue s)) \<and>
    (\<forall>h. h \<notin> ri_goalId ` set (gw_queue s) \<and> no_colon h \<longrightarrow> pview (gw_project (recover_all now s)) h = pview (gw_project s) h) \<and>
    (\<forall>i\<in>set (gw_queue s). \<forall>a w. map_of (pj_goals (gw_project s)) (ri_goalId i) = Some a \<and> \<not> dormant a \<and> workflow_with (ri_gateId i) a = Some w \<longrightarrow>
       reset_saved i w (pview (gw_project (recover_all now s)) (ri_goalId i)))"
  using assms
proof (induction "gw_queue s" arbitrary: s)
  case Nil
  then show ?case by (simp add: recover_all_def restrict_map_def fun_eq_iff)
next
  case (Cons i rest)
  let ?g = "ri_goalId i" and ?s = "fold (gw_step False) (recovery_round now) s"
  note q = Cons.hyps(2) [symmetric]
  note round = recovery_round_ok [OF Cons.prems(1,2) q, of now]
  have s: "gw_ok ?s" using run_gw_ok [OF Cons.prems(1), of "recovery_round now"] by (simp add: recovery_round_def has_uuid_def)
  have runs: "gw_runs ?s = []" and queue: "gw_queue ?s = rest"
    and log: "map_of (is_intents (pj_log (gw_project ?s))) = (map_of (is_intents (pj_log (gw_project s))))(?g := None)"
    and other: "\<And>h. h \<noteq> ?g \<Longrightarrow> no_colon h \<Longrightarrow> pview (gw_project ?s) h = pview (gw_project s) h"
    and own: "\<And>a w. map_of (pj_goals (gw_project s)) ?g = Some a \<Longrightarrow> \<not> dormant a \<Longrightarrow> workflow_with (ri_gateId i) a = Some w \<Longrightarrow>
      reset_saved i w (pview (gw_project ?s) ?g)"
    using round by blast+
  have all: "recover_all now s = recover_all now ?s" by (simp add: recover_all_def queue q)
  have new: "?g \<notin> ri_goalId ` set rest" and dist: "distinct (map ri_goalId (gw_queue ?s))" using Cons.prems(3) by (simp_all add: queue q)
  have no: "no_colon (ri_goalId j)" if "j \<in> set (gw_queue s)" for j using Cons.prems(1) that by (simp add: gw_ok_def ids_ok_def)
  note IH = Cons.hyps(1) [OF queue [symmetric] s runs dist, unfolded queue]
  have kept: "pview (gw_project (recover_all now ?s)) h = pview (gw_project ?s) h" if "h \<notin> ri_goalId ` set rest" "no_colon h" for h
    using IH that by blast
  show ?case unfolding all q
  proof (intro conjI allI impI ballI)
    show "gw_ok (recover_all now ?s)" "gw_runs (recover_all now ?s) = []" "gw_queue (recover_all now ?s) = []" using IH by blast+
    have "map_of (is_intents (pj_log (gw_project (recover_all now ?s)))) =
        ((map_of (is_intents (pj_log (gw_project s))))(?g := None)) |` (- ri_goalId ` set rest)"
      using IH log by simp
    then show "map_of (is_intents (pj_log (gw_project (recover_all now ?s)))) =
        map_of (is_intents (pj_log (gw_project s))) |` (- ri_goalId ` set (i # rest))"
      by (simp add: restrict_map_def fun_eq_iff)
    show "pview (gw_project (recover_all now ?s)) h = pview (gw_project s) h" if "h \<notin> ri_goalId ` set (i # rest) \<and> no_colon h" for h
      using that kept other by simp
    fix j a w
    assume j: "j \<in> set (i # rest)"
      and a: "map_of (pj_goals (gw_project s)) (ri_goalId j) = Some a \<and> \<not> dormant a \<and> workflow_with (ri_gateId j) a = Some w"
    show "reset_saved j w (pview (gw_project (recover_all now ?s)) (ri_goalId j))"
    proof (cases "j = i")
      case True
      then show ?thesis using own a kept [OF new no] q by simp
    next
      case False
      with j have r: "j \<in> set rest" by simp
      then have "ri_goalId j \<noteq> ?g" using new by (metis imageI)
      from other [OF this no] r q have "pview (gw_project ?s) (ri_goalId j) = pview (gw_project s) (ri_goalId j)" by simp
      then have "v_goal (pview (gw_project ?s) (ri_goalId j)) = v_goal (pview (gw_project s) (ri_goalId j))" by simp
      then have "map_of (pj_goals (gw_project ?s)) (ri_goalId j) = Some a" using a by simp
      with IH r a show ?thesis by blast
    qed
  qed
qed


section \<open>Runs on examples\<close>

text \<open>
  A complete goal whose two gates, one after the other, are passed. The reset has reopened the goal when
  the gateway crashes: the gates are still passed on disk, and the restart finishes the job.
\<close>

definition ex_row :: "goal_state \<Rightarrow> reset_goal" where
  "ex_row st = \<lparr>rg_state = st, rg_archived = False, rg_paused = False, rg_workflow = Some ex_workflow\<rparr>"

definition ex_passed :: gate_map where
  "ex_passed = map (\<lambda>i. (compositeKey ''g'' i, (Gate_Store.pending_gate 0 ''g'' i)\<lparr>gs_status := Passed\<rparr>)) [''a'', ''b'']"

definition ex_project :: project where
  "ex_project =
     \<lparr>pj_goals = [(''g'', ex_row G_complete)], pj_savedGoals = [(''g'', ex_row G_complete)], pj_gates = ex_passed, pj_savedGates = ex_passed,
      pj_log = \<lparr>is_intents = [], is_file = [], is_rearmed = []\<rparr>\<rparr>"

definition ex_crashed :: "reset_event list" where
  "ex_crashed = [Request 1 ''g'' ''a'' ''u1'' 1 True, Advance 1 1 True True]"

lemma ex_project_fresh: "fresh_project ex_project" "list_all has_uuid ex_crashed"
  by code_simp+


lemma ex_crashed_facts:
  "map (\<lambda>i. (ri_goalId i, ri_gateId i, ri_reopenRequired i)) (is_file (pj_log (gw_project (fold (gw_step False) ex_crashed (started ex_project))))) =
     [(''g'', ''a'', True)]"
  "map_of (pj_savedGoals (gw_project (fold (gw_step False) ex_crashed (started ex_project)))) ''g'' = Some (ex_row G_in_progress)"
  "status_of (pj_savedGates (gw_project (fold (gw_step False) ex_crashed (started ex_project)))) ''g'' ''b'' = Some Passed"
  "dormant (ex_row G_in_progress) = False" "workflow_with ''a'' (ex_row G_in_progress) = Some ex_workflow"
  by code_simp+


text \<open>
  With retries the promise fails. The reset of the first request is on disk, but its team could not be
  rearmed, so the intent stays. A second request takes it up, its first write is refused, and its abort
  makes the goal complete again and drops the intent: the goal is complete with pending gates.
\<close>

definition ex_retry :: "reset_event list" where
  "ex_retry = [Request 1 ''g'' ''a'' ''u1'' 1 True, Advance 1 1 True True, Advance 1 1 True True, Advance 1 1 False True,
     Request 2 ''g'' ''a'' ''u2'' 2 True, Advance 2 2 True False, Advance 2 2 True True, Advance 2 2 True True]"

theorem retry_breaks_the_log:
  "fresh_project ex_project \<and> list_all has_uuid ex_retry \<and>
   half_done (gw_project (fold (gw_step True) ex_retry (started ex_project))) ''g'' \<and>
   half_done (boot 3 (gw_project (fold (gw_step True) ex_retry (started ex_project)))) ''g'' \<and>
   is_file (pj_log (gw_project (fold (gw_step True) ex_retry (started ex_project)))) = []"
  by code_simp

end
