(* ===== verification/Spec2Isabelle.thy ===== *)
theory Spec2Isabelle
  imports Depends_On Task_Manager Scheduler_Safety Event_Buffer Prompt_Queue Workflow_Checks Plan_Mutation
    Verification_Checks Gate_Resets Serialiser_Safety Permits Goal_Policy Archived_Sessions Json_Writer Bounded_Map
    Diff_Roundtrip Diff_Checks Admission_Policy Cookie_Checks Access_Checks Reset_Safety
begin

text \<open>
  Bobbit runs teams of coding agents. Its gateway (\<open>src/src/server\<close>) keeps goals, each frozen with a
  workflow of gates; goals have tasks, plans of subgoals, and child teams that run under a limit; gates
  are signalled, verified and reset; sessions receive prompts through durable queues and send events
  to browsers that may reconnect; every request passes admission and carries a credential. This
  development models the part of the gateway that decides: the state machines, stores, queues, graph
  checks, classifiers and access checks. The theories translate the TypeScript
  functions one by one and keep their names; the lines of each definition are in the manifest.

  \<^bold>\<open>Conventions.\<close> An interface is a record, a union a datatype, a \<open>Map\<close> an association list in
  insertion order, a \<open>Set\<close> a list or a set where the order does not matter, an optional field an
  \<open>option\<close>; a thrown error is a value (\<open>Inl\<close> or a constructor). A JavaScript number is an exact
  rational where only comparisons and sums of safe integers occur, and \<open>js_num\<close> where NaN and the
  infinities matter (\<open>Js_Value\<close>); lengths and counters are integers below \<open>2 ^ 53\<close>, far
  above what the stores reach. The clock, fresh ids, random tokens, JSON text and hashes are arguments.
  Promises and callbacks are explicit: a log of settlements, a list of detached computations, or steps
  of an \<open>inductive\<close> relation that may interleave in any order. Loops whose end depends on marks
  (\<open>seen\<close> sets) carry a termination proof; nothing needs fuel, except where the code itself counts
  down (\<open>maxDepth\<close> and the hop bounds of the goal walks).

  \<^bold>\<open>Theories and sources\<close> (paths below \<open>src/src/server/agent\<close> unless given):

  \<^item> \<open>Prelude\<close>, \<open>Js_Value\<close>, \<open>Js_Text\<close>, \<open>Regex\<close>: maps, sets and optional values of JavaScript,
    untyped values, operations on strings, and regular expressions with an executable matcher proved
    equal to its relation.
  \<^item> \<open>Dep_Graph\<close>: the locale \<open>dep_checker\<close>, what every dependency checker promises (an accepted
    graph is closed and acyclic), and what follows: an order in which all nodes can run. Interpreted
    for plan steps in \<open>Depends_On\<close> (\<open>depends-on-validation.ts\<close>: Kahn's algorithm is sound and
    complete for cycles) and for gates in \<open>Workflow_Checks\<close>.
  \<^item> \<open>Keyed_Store\<close>, \<open>Task_Store\<close>, \<open>Task_Manager\<close> (\<open>task-store.ts\<close>, \<open>task-manager.ts\<close>): the
    locale \<open>keyed_store\<close> of the read models, interpreted on association lists; task operations
    keep the invariant, refine the task machine, and commit the facts that rebuild the history.
  \<^item> \<open>Semaphore\<close>, \<open>Child_Scheduler\<close>, \<open>Scheduler_Safety\<close> (\<open>semaphore.ts\<close>,
    \<open>child-team-scheduler.ts\<close>): permits are conserved through resizes, aborts and terminal
    notifications, waiters are served in order, at most one start per child is in flight.
  \<^item> \<open>Workflow_Store\<close>, \<open>Child_Workflow\<close>, \<open>Workflow_Validator\<close>, \<open>Workflow_Checks\<close>
    (\<open>workflow-store.ts\<close>, \<open>workflow-validator.ts\<close>): normalization and its round trip, the
    workflow a child inherits, validation and its graph checks, edit distance of suggestions.
  \<^item> \<open>Gate_Data\<close>, \<open>Gate_Persistence\<close>, \<open>Gate_Store\<close>, \<open>Gate_Safety\<close>, \<open>Gate_Resets\<close>
    (\<open>gate-store.ts\<close>): gate states, the writer that coalesces changes into transactions (locale
    \<open>gate_writer\<close>, interpreted on the model of the SQLite writer), status commits and their
    publication; every change reaches the database, and a reset changes exactly the dependents.
  \<^item> \<open>Reset_Log\<close>, \<open>Reset_View\<close>, \<open>Reset_Safety\<close> (\<open>gate-reset-intent.ts\<close>, the reset route of
    \<open>../server.ts\<close>, \<open>updateStrict\<close> of \<open>goal-store.ts\<close>): the write-ahead log of a reset that touches the goal
    store and the gate store. With crashes, refused writes and other writers in any order, no goal is
    shown complete with a pending gate, and a restart completes what is open; retried requests break it.
  \<^item> \<open>Verification_Logic\<close>, \<open>Verification_Checks\<close> (\<open>verification-logic.ts\<close>): failure classes and
    retries, template substitution, phase order, reuse of earlier step results.
  \<^item> \<open>Plan_Mutation\<close> (\<open>plan-mutation.ts\<close>): classification of plan changes.
  \<^item> \<open>Goal_Tree\<close>, \<open>Goal_Policy\<close> (\<open>goal-subtree.ts\<close>, \<open>goal-descendants.ts\<close>,
    \<open>subgoal-nesting-limit.ts\<close>, \<open>goal-paused-guard.ts\<close>, \<open>gate-dependency-check.ts\<close>): walks over
    the tree of goals and the policies that rest on them.
  \<^item> \<open>Archived_Sessions\<close> (\<open>archived-session-bfs.ts\<close>): the indexed traversal equals the naive one.
  \<^item> \<open>Prompt_Queue\<close> (\<open>prompt-queue.ts\<close>), \<open>Event_Buffer\<close> (\<open>event-buffer.ts\<close>),
    \<open>Command_Serialiser\<close>, \<open>Serialiser_Safety\<close> (\<open>../ws/session-command-serialiser.ts\<close>): the queue
    of prompts of a session, the replay of events after a reconnect, and the order of a client's
    commands.
  \<^item> \<open>Permits\<close> (\<open>../extension-host/session-write-permit.ts\<close>, \<open>channel-open-permits.ts\<close>): the
    locale \<open>one_shot\<close> of permits that are honoured at most once, interpreted on both stores.
  \<^item> \<open>Json_Writer\<close> (\<open>coalesced-json-writer.ts\<close>): the writer of snapshots with its promise chains; a
    resolved publication is on disk, and the writer comes to rest.
  \<^item> \<open>Bounded_Work\<close>, \<open>Bounded_Map\<close> (\<open>bounded-async-work.ts\<close>): a queue that grows while it is worked
    off and the bounded map over a list: never more than the limit at a time, every item settles.
  \<^item> \<open>Unified_Diff\<close>, \<open>Diff_Checks\<close>, \<open>Diff_Roundtrip\<close> (\<open>src/src/shared/git-diff/unified.ts\<close>): the parser
    of unified diffs, its line numbers, the pairs of the split view, and the round trip with a printer
    of hunks.
  \<^item> \<open>Request_Admission\<close>, \<open>Admission_Checks\<close>, \<open>Admission_Policy\<close> (\<open>../request-admission.ts\<close> and
    \<open>../cors.ts\<close>): compiling the policy of trusted hosts and origins, the decision on a request, and
    the access-control headers; what an admitted request proves of its host, its origin and its peer.
  \<^item> \<open>Cookie_Auth\<close>, \<open>Cookie_Checks\<close> (\<open>../auth/cookie.ts\<close>): signed session and preview cookies; which
    texts verify, and that an issued cookie authenticates.
  \<^item> \<open>Scoped_Access\<close>, \<open>Access_Checks\<close> (\<open>../auth/\<close>: \<open>rate-limit.ts\<close>, \<open>session-secret.ts\<close>,
    \<open>sandbox-token.ts\<close>, \<open>sandbox-guard.ts\<close>, \<open>children-mutation-authz.ts\<close>): the locale
    \<open>credential_store\<close> says where a credential that resolves comes from; it is interpreted on the
    session secrets and on the sandbox tokens. Sliding windows bound the failed attempts.

  \<^bold>\<open>How the parts meet.\<close> The scheduler holds its permits in the semaphore and its lemmas rest on the
  semaphore's; the task manager and the gate store keep their read models through \<open>keyed_store\<close>, the
  gate store writes through \<open>gate_writer\<close>; gate resets and the validator share the graph of
  dependencies; the child workflow is built by the workflow store and accepted by the validator. The
  secret store and the authorization of changes to children are one claim, as are the token store and
  the route guard.

  \<^bold>\<open>Parameters.\<close> The parser of URLs, \<open>isIP\<close>, HMAC-SHA-256, \<open>decodeURIComponent\<close>, the file system and
  the database are arguments or named hypotheses with the documented behaviour of the platform; a
  regular expression given by a user and the size of serialized JSON are parameters as well.

  \<^bold>\<open>Not modelled.\<close> The browser application (\<open>src/src/app\<close>, \<open>src/src/ui\<close>) is rendering and requests.
  \<open>session-manager.ts\<close>, \<open>verification-harness.ts\<close>, \<open>team-manager.ts\<close>, \<open>server.ts\<close> and the route
  files drive processes, git, Docker, the file system and HTTP; the decisions they delegate are the
  modules above. Database and JSON files appear as the rows they hold. The manifest lists the other
  parts of the system with the reason each is left out.
\<close>

end
